(* ===== verification/Redis_Prelude.thy ===== *)
theory Redis_Prelude
  imports "HOL-Library.Word" "HOL-Library.Monad_Syntax"
begin

text \<open>
  The vocabulary every component shares: bytes, machine integers as the C code stores
  them, flat memory blocks with checked reads and writes, and the contract of a
  self-delimiting byte encoding (locale \<open>prefix_codec\<close>).

  A block of memory is a list of bytes. A read or a write that leaves the block is
  \<open>None\<close>, so that "the code never leaves its buffer" is a statement of the model. Memory
  that \<open>malloc\<close> or \<open>realloc\<close> hands out uninitialised is filled from an arbitrary function
  \<open>junk\<close>: every theorem holds for all of them.
\<close>

unbundle bit_operations_syntax

section \<open>Bytes and machine integers\<close>

type_synonym byte = "8 word"
type_synonym u16 = "16 word"
type_synonym u32 = "32 word"
type_synonym u64 = "64 word"

definition ascii :: "string \<Rightarrow> byte list" where
  "ascii s = map of_char s"

abbreviation int_max :: "nat \<Rightarrow> int" where
  "int_max n \<equiv> 2 ^ (8 * n - 1) - 1"

abbreviation int_min :: "nat \<Rightarrow> int" where
  "int_min n \<equiv> - (2 ^ (8 * n - 1))"

text \<open>\<open>fits n v\<close>: the value \<open>v\<close> is representable as a signed integer of \<open>n\<close> bytes.\<close>

definition fits :: "nat \<Rightarrow> int \<Rightarrow> bool" where
  "fits n v \<longleftrightarrow> int_min n \<le> v \<and> v \<le> int_max n"

text \<open>Object representations: \<open>n\<close> bytes, least significant byte first.\<close>

fun le_bytes :: "nat \<Rightarrow> nat \<Rightarrow> byte list" where
  "le_bytes 0 v = []"
| "le_bytes (Suc n) v = word_of_nat v # le_bytes n (v div 256)"

fun le_val :: "byte list \<Rightarrow> nat" where
  "le_val [] = 0"
| "le_val (b # bs) = unat b + 256 * le_val bs"

definition store_int :: "nat \<Rightarrow> int \<Rightarrow> byte list" where
  "store_int n v = le_bytes n (nat (v mod 2 ^ (8 * n)))"

definition load_int :: "byte list \<Rightarrow> int" where
  "load_int bs =
     (let u = int (le_val bs); n = length bs
      in if u \<le> int_max n then u else u - 2 ^ (8 * n))"

lemma unat_byte_less [simp]: "unat (b :: byte) < 256"
proof -
  have "unat b < 2 ^ LENGTH(8)" by (rule unsigned_less)
  then show ?thesis by simp
qed

lemma length_le_bytes [simp]: "length (le_bytes n v) = n"
  by (induction n v rule: le_bytes.induct) auto

lemma length_store_int [simp]: "length (store_int n v) = n"
  by (simp add: store_int_def)

lemma unat_word_of_nat_byte [simp]: "unat (word_of_nat v :: byte) = v mod 256"
  by (simp add: unat_of_nat)

lemma le_val_le_bytes [simp]: "le_val (le_bytes n v) = v mod 256 ^ n"
proof (induction n v rule: le_bytes.induct)
  case (1 v)
  then show ?case by simp
next
  case (2 n v)
  have "v mod (256 * 256 ^ n) = 256 * (v div 256 mod 256 ^ n) + v mod 256"
    by (rule mod_mult2_eq)
  with 2 show ?case by simp
qed

lemma le_bytes_le_val [simp]: "le_bytes (length bs) (le_val bs) = bs"
proof (induction bs)
  case Nil
  then show ?case by simp
next
  case (Cons b bs)
  have "word_of_nat (unat b + 256 * le_val bs) = b"
    by (simp add: word_unat_eq_iff del: of_nat_add of_nat_mult)
  with Cons show ?case by simp
qed

lemma le_val_less: "le_val bs < 256 ^ length bs"
proof (induction bs)
  case Nil
  then show ?case by simp
next
  case (Cons b bs)
  then have "le_val bs + 1 \<le> 256 ^ length bs" by simp
  moreover have "unat b < 256" by (rule unat_byte_less)
  ultimately show ?case
    unfolding le_val.simps length_Cons power_Suc by linarith
qed

lemma pow256: "(256 :: 'a :: comm_semiring_1) ^ n = 2 ^ (8 * n)"
  by (simp add: power_mult)

lemma load_store_int:
  assumes "0 < n" and "fits n v"
  shows "load_int (store_int n v) = v"
proof -
  have half: "(2 :: int) ^ (8 * n) = 2 * 2 ^ (8 * n - 1)"
    using assms(1) by (simp flip: power_Suc)
  have v: "- (2 ^ (8 * n - 1)) \<le> v" "v < 2 ^ (8 * n - 1)"
    using assms(2) by (auto simp: fits_def)
  have u: "int (le_val (store_int n v)) = v mod 2 ^ (8 * n)"
  proof -
    have "nat (v mod 2 ^ (8 * n)) < 2 ^ (8 * n)"
      by (simp add: nat_less_iff)
    then show ?thesis by (simp add: store_int_def pow256)
  qed
  show ?thesis
  proof (cases "0 \<le> v")
    case True
    then have "v mod 2 ^ (8 * n) = v"
      using v half by (intro mod_pos_pos_trivial) auto
    then show ?thesis using u v by (simp add: load_int_def)
  next
    case False
    then have "v mod 2 ^ (8 * n) = v + 2 ^ (8 * n)"
      using v half by (intro int_mod_pos_eq [where q = "-1"]) auto
    then show ?thesis using u v half False by (simp add: load_int_def)
  qed
qed

text \<open>Conversion of an integer to a 32-bit \<open>int\<close>.\<close>

definition s32 :: "int \<Rightarrow> int" where
  "s32 x = (x + 2 ^ 31) mod 2 ^ 32 - 2 ^ 31"

lemma s32_id: "- (2 ^ 31) \<le> x \<Longrightarrow> x < 2 ^ 31 \<Longrightarrow> s32 x = x"
  by (simp add: s32_def)

text \<open>The value of a \<open>uint32_t\<close>.\<close>

abbreviation u32_of :: "nat \<Rightarrow> nat" where
  "u32_of n \<equiv> n mod 2 ^ 32"

section \<open>Flat memory\<close>

named_theorems mem_simps \<open>evaluation of reads, writes and reallocations\<close>

definition mem_read :: "nat \<Rightarrow> nat \<Rightarrow> 'b list \<Rightarrow> 'b list option" where
  "mem_read off n m = (if off + n \<le> length m then Some (take n (drop off m)) else None)"

definition mem_write :: "nat \<Rightarrow> 'b list \<Rightarrow> 'b list \<Rightarrow> 'b list option" where
  "mem_write off bs m =
     (if off + length bs \<le> length m
      then Some (take off m @ bs @ drop (off + length bs) m) else None)"

text \<open>\<open>memmove\<close> reads the whole source before it writes, so overlapping is harmless.\<close>

definition mem_move :: "nat \<Rightarrow> nat \<Rightarrow> nat \<Rightarrow> 'b list \<Rightarrow> 'b list option" where
  "mem_move dst src n m = do { bs \<leftarrow> mem_read src n m; mem_write dst bs m }"

text \<open>\<open>realloc\<close>: the common prefix survives, the rest of a larger block is uninitialised.\<close>

definition mem_realloc :: "(nat \<Rightarrow> 'b) \<Rightarrow> nat \<Rightarrow> 'b list \<Rightarrow> 'b list" where
  "mem_realloc junk n m = take n m @ map junk [length m..<n]"

text \<open>A byte, and an unsigned field of \<open>n\<close> bytes, at an offset.\<close>

definition byte_at :: "nat \<Rightarrow> byte list \<Rightarrow> byte option" where
  "byte_at p zl = (if p < length zl then Some (zl ! p) else None)"

definition get_uint :: "nat \<Rightarrow> nat \<Rightarrow> byte list \<Rightarrow> nat option" where
  "get_uint n off zl = map_option le_val (mem_read off n zl)"

definition put_uint :: "nat \<Rightarrow> nat \<Rightarrow> nat \<Rightarrow> byte list \<Rightarrow> byte list option" where
  "put_uint n off v zl = mem_write off (le_bytes n v) zl"

lemma mem_read_Some [mem_simps]:
  "off + n \<le> length m \<Longrightarrow> mem_read off n m = Some (take n (drop off m))"
  by (simp add: mem_read_def)

lemma mem_write_Some [mem_simps]:
  "off + length bs \<le> length m \<Longrightarrow>
   mem_write off bs m = Some (take off m @ bs @ drop (off + length bs) m)"
  by (simp add: mem_write_def)

lemma mem_move_Some [mem_simps]:
  "src + n \<le> length m \<Longrightarrow> dst + n \<le> length m \<Longrightarrow>
   mem_move dst src n m =
     Some (take dst m @ take n (drop src m) @ drop (dst + n) m)"
  by (simp add: mem_move_def mem_simps)

lemma length_mem_realloc [simp]: "length (mem_realloc junk n m) = n"
  by (simp add: mem_realloc_def)

lemma mem_realloc_grow [mem_simps]:
  "length m \<le> n \<Longrightarrow> mem_realloc junk n m = m @ map junk [length m..<n]"
  by (simp add: mem_realloc_def)

lemma mem_realloc_shrink [mem_simps]:
  "n \<le> length m \<Longrightarrow> mem_realloc junk n m = take n m"
  by (simp add: mem_realloc_def)

lemma length_mem_write: "mem_write off bs m = Some m' \<Longrightarrow> length m' = length m"
  by (auto simp: mem_write_def split: if_splits)

lemma mem_read_append: "mem_read (length xs) (length ys) (xs @ ys @ zs) = Some ys"
  by (simp add: mem_read_def)

lemma mem_write_append:
  "length ys = length bs \<Longrightarrow> mem_write (length xs) bs (xs @ ys @ zs) = Some (xs @ bs @ zs)"
  by (simp add: mem_write_def)

lemma take_app: "length xs = n \<Longrightarrow> take n (xs @ ys) = xs"
  by auto

lemma drop_app: "length xs = n \<Longrightarrow> drop n (xs @ ys) = ys"
  by auto

section \<open>Self-delimiting encodings\<close>

text \<open>
  What the readers of the ziplist, the zipmap and the RDB file rely on: \<open>dec\<close> finds the
  encoded value at the head of any longer input and says how many bytes it took.
  \<open>ok\<close> are the values the encoder is meant for.
\<close>

locale prefix_codec =
  fixes enc :: "'a \<Rightarrow> 'b list"
    and dec :: "'b list \<Rightarrow> ('a \<times> nat) option"
    and ok :: "'a \<Rightarrow> bool"
  assumes dec_enc: "ok x \<Longrightarrow> dec (enc x @ rest) = Some (x, length (enc x))"
begin

lemma enc_split:
  assumes "ok x" and "ok y" and "enc x @ r = enc y @ s"
  shows "x = y \<and> r = s"
proof -
  from assms(1) have "dec (enc x @ r) = Some (x, length (enc x))" by (rule dec_enc)
  moreover from assms(2) have "dec (enc y @ s) = Some (y, length (enc y))" by (rule dec_enc)
  ultimately show ?thesis using assms(3) by simp
qed

lemma enc_inj: "ok x \<Longrightarrow> ok y \<Longrightarrow> enc x = enc y \<Longrightarrow> x = y"
  using enc_split [of x y "[]" "[]"] by simp

lemma enc_concat_inj:
  assumes "\<forall>x \<in> set xs. ok x" and "\<forall>y \<in> set ys. ok y"
    and "\<And>x. ok x \<Longrightarrow> enc x \<noteq> []"
    and "concat (map enc xs) = concat (map enc ys)"
  shows "xs = ys"
  using assms(1,2,4)
proof (induction xs arbitrary: ys)
  case Nil
  then show ?case using assms(3) by (cases ys) auto
next
  case (Cons x xs)
  show ?case
  proof (cases ys)
    case Nil
    with Cons.prems assms(3) show ?thesis by auto
  next
    case (Cons y ys')
    with Cons.prems have "x = y \<and> concat (map enc xs) = concat (map enc ys')"
      by (intro enc_split) auto
    with Cons Cons.prems Cons.IH [of ys'] show ?thesis by auto
  qed
qed

end

end
