(* ===== verification/Endianconv.thy ===== *)
theory Endianconv
  imports Redis_Prelude
begin

text \<open>
  \<open>endianconv.c\<close> and \<open>endianconv.h\<close>: in-place byte reversal of 2, 4 and 8 byte fields, the
  value versions of it, and the \<open>ifbe\<close> variants the data structures use so that their
  blobs have one layout on every host. A host is its byte order: \<open>True\<close> is big endian.
\<close>

section \<open>In-place reversal\<close>

text \<open>\<open>swap_bytes i j\<close> is the code's \<open>t = x[i]; x[i] = x[j]; x[j] = t\<close>.\<close>

definition swap_bytes :: "nat \<Rightarrow> nat \<Rightarrow> byte list \<Rightarrow> byte list option" where
  "swap_bytes i j x =
     (if i < length x \<and> j < length x then Some (x[i := x ! j, j := x ! i]) else None)"

definition memrev16 :: "byte list \<Rightarrow> byte list option" where
  "memrev16 x = swap_bytes 0 1 x"

definition memrev32 :: "byte list \<Rightarrow> byte list option" where
  "memrev32 x = do { x \<leftarrow> swap_bytes 0 3 x; swap_bytes 1 2 x }"

definition memrev64 :: "byte list \<Rightarrow> byte list option" where
  "memrev64 x = do {
     x \<leftarrow> swap_bytes 0 7 x;
     x \<leftarrow> swap_bytes 1 6 x;
     x \<leftarrow> swap_bytes 2 5 x;
     swap_bytes 3 4 x }"

text \<open>How a host lays an \<open>n\<close> byte integer out, and the value it reads back.\<close>

definition native_bytes :: "bool \<Rightarrow> nat \<Rightarrow> nat \<Rightarrow> byte list" where
  "native_bytes be n v = (if be then rev (le_bytes n v) else le_bytes n v)"

definition native_val :: "bool \<Rightarrow> byte list \<Rightarrow> nat" where
  "native_val be bs = le_val (if be then rev bs else bs)"

definition intrev16 :: "bool \<Rightarrow> u16 \<Rightarrow> u16 option" where
  "intrev16 be v =
     map_option (\<lambda>bs. word_of_nat (native_val be bs)) (memrev16 (native_bytes be 2 (unat v)))"

definition intrev32 :: "bool \<Rightarrow> u32 \<Rightarrow> u32 option" where
  "intrev32 be v =
     map_option (\<lambda>bs. word_of_nat (native_val be bs)) (memrev32 (native_bytes be 4 (unat v)))"

definition intrev64 :: "bool \<Rightarrow> u64 \<Rightarrow> u64 option" where
  "intrev64 be v =
     map_option (\<lambda>bs. word_of_nat (native_val be bs)) (memrev64 (native_bytes be 8 (unat v)))"

text \<open>The \<open>ifbe\<close> macros: nothing on a little endian host.\<close>

definition memrev16ifbe :: "bool \<Rightarrow> byte list \<Rightarrow> byte list option" where
  "memrev16ifbe be x = (if be then memrev16 x else Some x)"

definition memrev32ifbe :: "bool \<Rightarrow> byte list \<Rightarrow> byte list option" where
  "memrev32ifbe be x = (if be then memrev32 x else Some x)"

definition memrev64ifbe :: "bool \<Rightarrow> byte list \<Rightarrow> byte list option" where
  "memrev64ifbe be x = (if be then memrev64 x else Some x)"

section \<open>Reversal is list reversal\<close>

lemma length_2_conv: "length x = 2 \<longleftrightarrow> (\<exists>a b. x = [a, b])"
  by (auto simp: length_Suc_conv numeral_2_eq_2)

lemma length_4_conv: "length x = 4 \<longleftrightarrow> (\<exists>a b c d. x = [a, b, c, d])"
  by (auto simp: length_Suc_conv eval_nat_numeral)

lemma length_8_conv:
  "length x = 8 \<longleftrightarrow> (\<exists>a b c d e f g h. x = [a, b, c, d, e, f, g, h])"
  by (auto simp: length_Suc_conv eval_nat_numeral)

lemma memrev16_rev: "length x = 2 \<Longrightarrow> memrev16 x = Some (rev x)"
  by (auto simp: length_2_conv memrev16_def swap_bytes_def)

lemma memrev32_rev: "length x = 4 \<Longrightarrow> memrev32 x = Some (rev x)"
  by (auto simp: length_4_conv memrev32_def swap_bytes_def)

lemma memrev64_rev: "length x = 8 \<Longrightarrow> memrev64 x = Some (rev x)"
  by (auto simp: length_8_conv memrev64_def swap_bytes_def)

lemma length_native_bytes [simp]: "length (native_bytes be n v) = n"
  by (simp add: native_bytes_def)

lemmas memrev_rev = memrev16_rev memrev32_rev memrev64_rev

section \<open>Layout and value\<close>

text \<open>
  What a host stores after the \<open>ifbe\<close> macro has run is the little endian layout,
  whatever the byte order of the host, for fields of 2, 4 and 8 bytes.
\<close>

theorem memrevifbe_layout:
  "memrev16ifbe be (native_bytes be 2 v) = Some (le_bytes 2 v) \<and>
   memrev32ifbe be (native_bytes be 4 v) = Some (le_bytes 4 v) \<and>
   memrev64ifbe be (native_bytes be 8 v) = Some (le_bytes 8 v)"
  by (simp add: memrev16ifbe_def memrev32ifbe_def memrev64ifbe_def memrev_rev native_bytes_def)

lemma intrev16_val: "intrev16 be v = Some (word_of_nat (le_val (rev (le_bytes 2 (unat v)))))"
  by (simp add: intrev16_def memrev_rev native_bytes_def native_val_def)

lemma intrev32_val: "intrev32 be v = Some (word_of_nat (le_val (rev (le_bytes 4 (unat v)))))"
  by (simp add: intrev32_def memrev_rev native_bytes_def native_val_def)

lemma intrev64_val: "intrev64 be v = Some (word_of_nat (le_val (rev (le_bytes 8 (unat v)))))"
  by (simp add: intrev64_def memrev_rev native_bytes_def native_val_def)

lemma le_bytes_of_le_val:
  assumes "length bs = n" and "LENGTH('a :: len) = 8 * n"
  shows "le_bytes n (unat (word_of_nat (le_val bs) :: 'a word)) = bs"
proof -
  have "le_val bs < 2 ^ LENGTH('a)"
    using le_val_less [of bs] assms by (simp add: pow256)
  then have "unat (word_of_nat (le_val bs) :: 'a word) = le_val bs"
    by (simp add: unat_of_nat)
  with le_bytes_le_val [of bs] assms(1) show ?thesis by simp
qed

lemma word_of_le_val_le_bytes:
  assumes "LENGTH('a :: len) = 8 * n"
  shows "word_of_nat (le_val (le_bytes n (unat (v :: 'a word)))) = v"
proof -
  have "unat v < 2 ^ LENGTH('a)" by (rule unsigned_less)
  then have "unat v < 256 ^ n" using assms by (simp add: pow256)
  then show ?thesis by simp
qed

text \<open>
  \<open>intrev16\<close>, \<open>intrev32\<close> and \<open>intrev64\<close> never touch a byte outside their argument,
  compute the same value on hosts of both byte orders, and undo themselves.
\<close>

theorem intrev_involutive:
  "Option.bind (intrev16 be a) (intrev16 be') = Some a \<and>
   Option.bind (intrev32 be b) (intrev32 be') = Some b \<and>
   Option.bind (intrev64 be c) (intrev64 be') = Some c"
  by (simp add: intrev16_val intrev32_val intrev64_val le_bytes_of_le_val
      word_of_le_val_le_bytes del: le_val_le_bytes)

end
