(* ===== verification/Zmalloc.thy ===== *)
theory Zmalloc
  imports Redis_Prelude
begin

text \<open>
  \<open>zmalloc.c\<close>: the allocation layer that counts every byte in use. The two builds of the
  file are both modelled: with \<open>HAVE_MALLOC_SIZE\<close> (jemalloc, tcmalloc, the Apple libc) the
  allocator reports the usable size of a block; without it \<open>zmalloc\<close> keeps the requested
  size in a \<open>size_t\<close> in front of the block and hands out the address behind it.

  The allocator underneath is a parameter: its answers are functions of the heap and the
  request. What the code relies on is \<open>libc_ok\<close>.
\<close>

section \<open>State\<close>

type_synonym addr = nat

text \<open>
  A live block: what the allocator says it can hold, and the \<open>size_t\<close> stored in its first
  bytes (only looked at in the build without \<open>HAVE_MALLOC_SIZE\<close>).
\<close>

record block =
  usable :: u64
  hdr :: u64

type_synonym heap = "addr \<rightharpoonup> block"

datatype build = Have_malloc_size | Size_prefix

record libc =
  c_malloc :: "heap \<Rightarrow> u64 \<Rightarrow> (addr \<times> u64) option"
  c_calloc :: "heap \<Rightarrow> u64 \<Rightarrow> (addr \<times> u64) option"
  c_realloc :: "heap \<Rightarrow> addr \<Rightarrow> u64 \<Rightarrow> (addr \<times> u64) option"

record zstate =
  used_memory :: u64
  zmalloc_thread_safe :: bool
  blocks :: heap

datatype zerror =
    Out_of_memory u64 \<comment> \<open>\<open>zmalloc_oom_handler(size)\<close> was called; it does not return\<close>
  | Bad_pointer \<comment> \<open>undefined behaviour: the argument is not a live block\<close>

definition zmalloc_init :: zstate where
  "zmalloc_init = \<lparr>used_memory = 0, zmalloc_thread_safe = False, blocks = Map.empty\<rparr>"

text \<open>The contract of the allocator underneath: fresh, non-null addresses.\<close>

definition fresh_answers :: "(heap \<Rightarrow> u64 \<Rightarrow> (addr \<times> u64) option) \<Rightarrow> bool" where
  "fresh_answers f \<longleftrightarrow> (\<forall>h n. case f h n of None \<Rightarrow> True | Some (p, u) \<Rightarrow> p \<noteq> 0 \<and> h p = None)"

definition moved_answers :: "(heap \<Rightarrow> addr \<Rightarrow> u64 \<Rightarrow> (addr \<times> u64) option) \<Rightarrow> bool" where
  "moved_answers f \<longleftrightarrow>
     (\<forall>h q n. case f h q n of None \<Rightarrow> True
                | Some (p, u) \<Rightarrow> p \<noteq> 0 \<and> (p = q \<or> h p = None))"

definition libc_ok :: "libc \<Rightarrow> bool" where
  "libc_ok L \<longleftrightarrow>
     fresh_answers (c_malloc L) \<and> fresh_answers (c_calloc L) \<and> moved_answers (c_realloc L)"

section \<open>Operations\<close>

fun PREFIX_SIZE :: "build \<Rightarrow> u64" where
  "PREFIX_SIZE Have_malloc_size = 0"
| "PREFIX_SIZE Size_prefix = 8"

text \<open>\<open>(char*)ptr-PREFIX_SIZE\<close> and \<open>(char*)ptr+PREFIX_SIZE\<close>.\<close>

definition real_ptr :: "build \<Rightarrow> addr \<Rightarrow> addr" where
  "real_ptr b ptr = ptr - unat (PREFIX_SIZE b)"

definition user_ptr :: "build \<Rightarrow> addr \<Rightarrow> addr" where
  "user_ptr b p = p + unat (PREFIX_SIZE b)"

text \<open>\<open>if (_n&(sizeof(long)-1)) _n += sizeof(long)-(_n&(sizeof(long)-1));\<close>\<close>

definition round_long :: "u64 \<Rightarrow> u64" where
  "round_long n = (if n AND 7 \<noteq> 0 then n + (8 - (n AND 7)) else n)"

text \<open>Both arms of the macros add the same amount: atomically, or with a plain \<open>+=\<close>.\<close>

definition update_zmalloc_stat_alloc :: "u64 \<Rightarrow> zstate \<Rightarrow> zstate" where
  "update_zmalloc_stat_alloc n s = s\<lparr>used_memory := used_memory s + round_long n\<rparr>"

definition update_zmalloc_stat_free :: "u64 \<Rightarrow> zstate \<Rightarrow> zstate" where
  "update_zmalloc_stat_free n s = s\<lparr>used_memory := used_memory s - round_long n\<rparr>"

definition zmalloc_size :: "build \<Rightarrow> addr \<Rightarrow> zstate \<Rightarrow> u64 option" where
  "zmalloc_size b ptr s =
     (case blocks s (real_ptr b ptr) of
        None \<Rightarrow> None
      | Some blk \<Rightarrow> Some (case b of
            Have_malloc_size \<Rightarrow> usable blk
          | Size_prefix \<Rightarrow> round_long (hdr blk) + PREFIX_SIZE b))"

text \<open>
  The common tail of \<open>zmalloc\<close> and \<open>zcalloc\<close>: the allocator's answer is entered in the
  heap, the header written, the counter charged.
\<close>

definition finish_alloc ::
    "build \<Rightarrow> u64 \<Rightarrow> (addr \<times> u64) option \<Rightarrow> zstate \<Rightarrow> zerror + addr \<times> zstate" where
  "finish_alloc b sz r s =
     (case r of
        None \<Rightarrow> Inl (Out_of_memory sz)
      | Some (p, u) \<Rightarrow>
          let s' = s\<lparr>blocks := (blocks s)(p \<mapsto> \<lparr>usable = u, hdr = sz\<rparr>)\<rparr> in
          (case b of
             Have_malloc_size \<Rightarrow> Inr (p, update_zmalloc_stat_alloc u s')
           | Size_prefix \<Rightarrow>
               Inr (user_ptr b p, update_zmalloc_stat_alloc (sz + PREFIX_SIZE b) s')))"

definition zmalloc :: "build \<Rightarrow> libc \<Rightarrow> u64 \<Rightarrow> zstate \<Rightarrow> zerror + addr \<times> zstate" where
  "zmalloc b L sz s =
     finish_alloc b sz (c_malloc L (blocks s) (sz + PREFIX_SIZE b)) s"

definition zcalloc :: "build \<Rightarrow> libc \<Rightarrow> u64 \<Rightarrow> zstate \<Rightarrow> zerror + addr \<times> zstate" where
  "zcalloc b L sz s =
     finish_alloc b sz (c_calloc L (blocks s) (sz + PREFIX_SIZE b)) s"

definition zrealloc ::
    "build \<Rightarrow> libc \<Rightarrow> addr \<Rightarrow> u64 \<Rightarrow> zstate \<Rightarrow> zerror + addr \<times> zstate" where
  "zrealloc b L ptr sz s =
     (if ptr = 0 then zmalloc b L sz s
      else case blocks s (real_ptr b ptr) of
        None \<Rightarrow> Inl Bad_pointer
      | Some blk \<Rightarrow>
          (case c_realloc L (blocks s) (real_ptr b ptr) (sz + PREFIX_SIZE b) of
             None \<Rightarrow> Inl (Out_of_memory sz)
           | Some (p, u) \<Rightarrow>
               let s' = s\<lparr>blocks := (blocks s)(real_ptr b ptr := None,
                                    p \<mapsto> \<lparr>usable = u, hdr = sz\<rparr>)\<rparr> in
               (case b of
                  Have_malloc_size \<Rightarrow>
                    Inr (p, update_zmalloc_stat_alloc u
                              (update_zmalloc_stat_free (usable blk) s'))
                | Size_prefix \<Rightarrow>
                    Inr (user_ptr b p, update_zmalloc_stat_alloc sz
                              (update_zmalloc_stat_free (hdr blk) s')))))"

definition zfree :: "build \<Rightarrow> addr \<Rightarrow> zstate \<Rightarrow> zerror + zstate" where
  "zfree b ptr s =
     (if ptr = 0 then Inr s
      else case blocks s (real_ptr b ptr) of
        None \<Rightarrow> Inl Bad_pointer
      | Some blk \<Rightarrow>
          let s' = s\<lparr>blocks := (blocks s)(real_ptr b ptr := None)\<rparr> in
          Inr (update_zmalloc_stat_free
                 (case b of Have_malloc_size \<Rightarrow> usable blk
                          | Size_prefix \<Rightarrow> hdr blk + PREFIX_SIZE b) s'))"

text \<open>\<open>zstrdup\<close> also returns the bytes it copied, the terminator included.\<close>

definition zstrdup ::
    "build \<Rightarrow> libc \<Rightarrow> byte list \<Rightarrow> zstate \<Rightarrow> zerror + addr \<times> byte list \<times> zstate" where
  "zstrdup b L str s =
     (case zmalloc b L (word_of_nat (length str + 1)) s of
        Inl e \<Rightarrow> Inl e
      | Inr (p, s') \<Rightarrow> Inr (p, str @ [0], s'))"

definition zmalloc_used_memory :: "zstate \<Rightarrow> u64" where
  "zmalloc_used_memory s = (if zmalloc_thread_safe s then used_memory s + 0 else used_memory s)"

definition zmalloc_enable_thread_safeness :: "zstate \<Rightarrow> zstate" where
  "zmalloc_enable_thread_safeness s = s\<lparr>zmalloc_thread_safe := True\<rparr>"

section \<open>What a block is charged\<close>

definition charge :: "build \<Rightarrow> block \<Rightarrow> u64" where
  "charge b blk = (case b of
      Have_malloc_size \<Rightarrow> round_long (usable blk)
    | Size_prefix \<Rightarrow> round_long (hdr blk) + PREFIX_SIZE b)"

definition total_charge :: "build \<Rightarrow> heap \<Rightarrow> u64" where
  "total_charge b h = (\<Sum>p\<in>dom h. charge b (the (h p)))"

definition zinv :: "build \<Rightarrow> zstate \<Rightarrow> bool" where
  "zinv b s \<longleftrightarrow> finite (dom (blocks s)) \<and> blocks s 0 = None \<and>
     used_memory s = total_charge b (blocks s)"

lemma int_and_7: "k AND 7 = k mod (8 :: int)"
proof -
  have "k AND 7 = k AND mask 3" by (simp add: mask_eq_exp_minus_1)
  also have "\<dots> = take_bit 3 k" by (simp add: take_bit_eq_mask)
  finally show ?thesis by (simp add: take_bit_eq_mod)
qed

lemma and_7_add_8: "(n + 8) AND 7 = n AND (7 :: u64)"
  by transfer (simp add: int_and_7)

text \<open>
  The header is one \<open>long\<close>, so rounding before or after adding it is the same: this is why
  \<open>zrealloc\<close>, which charges the requested size only, keeps in step with \<open>zmalloc\<close> and
  \<open>zfree\<close>, which charge it with the header.
\<close>

lemma round_long_add_prefix: "round_long (n + PREFIX_SIZE b) = round_long n + PREFIX_SIZE b"
  by (cases b) (auto simp: round_long_def and_7_add_8)

lemma round_long_add_8: "round_long (n + 8) = round_long n + 8"
  using round_long_add_prefix [of n Size_prefix] by simp

lemma fresh_answersD: "fresh_answers f \<Longrightarrow> f h n = Some (p, u) \<Longrightarrow> p \<noteq> 0 \<and> h p = None"
  unfolding fresh_answers_def by (drule spec [of _ h], drule spec [of _ n]) simp

lemma moved_answersD:
  "moved_answers f \<Longrightarrow> f h q n = Some (p, u) \<Longrightarrow> p \<noteq> 0 \<and> (p = q \<or> h p = None)"
  unfolding moved_answers_def
  by (drule spec [of _ h], drule spec [of _ q], drule spec [of _ n]) simp

lemma libc_ok_malloc: "libc_ok L \<Longrightarrow> c_malloc L h n = Some (p, u) \<Longrightarrow> p \<noteq> 0 \<and> h p = None"
  unfolding libc_ok_def by (elim conjE) (rule fresh_answersD)

lemma libc_ok_calloc: "libc_ok L \<Longrightarrow> c_calloc L h n = Some (p, u) \<Longrightarrow> p \<noteq> 0 \<and> h p = None"
  unfolding libc_ok_def by (elim conjE) (rule fresh_answersD)

lemma libc_ok_realloc:
  "libc_ok L \<Longrightarrow> c_realloc L h q n = Some (p, u) \<Longrightarrow> p \<noteq> 0 \<and> (p = q \<or> h p = None)"
  unfolding libc_ok_def by (elim conjE) (rule moved_answersD)

lemmas libc_okD = libc_ok_malloc libc_ok_calloc libc_ok_realloc

lemma total_charge_upd:
  assumes "finite (dom h)" and "h p = None"
  shows "total_charge b (h(p \<mapsto> blk)) = total_charge b h + charge b blk"
proof -
  have "(\<Sum>q\<in>dom h. charge b (the ((h(p \<mapsto> blk)) q))) = total_charge b h"
    unfolding total_charge_def by (rule sum.cong) (use assms in auto)
  then show ?thesis
    using assms by (simp add: total_charge_def domIff)
qed

lemma total_charge_del:
  assumes "finite (dom h)" and "h p = Some blk"
  shows "total_charge b (h(p := None)) = total_charge b h - charge b blk"
proof -
  have "total_charge b h = total_charge b ((h(p := None))(p \<mapsto> blk))"
    using assms by (simp add: map_upd_triv)
  also have "\<dots> = total_charge b (h(p := None)) + charge b blk"
    using assms by (intro total_charge_upd) auto
  finally show ?thesis by simp
qed

lemmas charge_simps = charge_def round_long_add_8 update_zmalloc_stat_alloc_def
  update_zmalloc_stat_free_def

lemma user_real_ptr [simp]: "real_ptr b (user_ptr b p) = p"
  by (simp add: real_ptr_def user_ptr_def)

lemma ptr_have_malloc_size [simp]:
  "user_ptr Have_malloc_size p = p" "real_ptr Have_malloc_size p = p"
  by (simp_all add: user_ptr_def real_ptr_def)

lemma finish_alloc_zinv:
  assumes "zinv b s" and "finish_alloc b n r s = Inr (ptr, s')"
    and "\<And>p u. r = Some (p, u) \<Longrightarrow> p \<noteq> 0 \<and> blocks s p = None"
  shows "zinv b s'"
  using assms
  by (cases b)
    (auto simp: finish_alloc_def zinv_def Let_def charge_simps total_charge_upd
      split: option.splits)

lemma zmalloc_zinv:
  "libc_ok L \<Longrightarrow> zinv b s \<Longrightarrow> zmalloc b L n s = Inr (ptr, s') \<Longrightarrow> zinv b s'"
  unfolding zmalloc_def by (erule finish_alloc_zinv) (auto dest: libc_okD)

lemma zcalloc_zinv:
  "libc_ok L \<Longrightarrow> zinv b s \<Longrightarrow> zcalloc b L n s = Inr (ptr, s') \<Longrightarrow> zinv b s'"
  unfolding zcalloc_def by (erule finish_alloc_zinv) (auto dest: libc_okD)

lemma zrealloc_zinv:
  assumes "libc_ok L" and "zinv b s" and "zrealloc b L ptr n s = Inr (ptr', s')"
  shows "zinv b s'"
proof (cases "ptr = 0")
  case True
  with assms show ?thesis by (auto simp: zrealloc_def intro: zmalloc_zinv)
next
  case False
  with assms(3) obtain blk p u where blk: "blocks s (real_ptr b ptr) = Some blk"
    and p: "c_realloc L (blocks s) (real_ptr b ptr) (n + PREFIX_SIZE b) = Some (p, u)"
    by (auto simp: zrealloc_def split: option.splits)
  let ?h = "(blocks s)(real_ptr b ptr := None)"
  have "p \<noteq> 0" "?h p = None"
    using libc_okD(3) [OF assms(1) p] by auto
  moreover have "finite (dom ?h)" "?h 0 = None"
    using assms(2) by (auto simp: zinv_def)
  moreover have "total_charge b ?h = used_memory s - charge b blk"
    using assms(2) blk by (simp add: zinv_def total_charge_del)
  ultimately show ?thesis
    using assms(3) False blk p
    by (cases b) (auto simp: zrealloc_def zinv_def Let_def charge_simps total_charge_upd)
qed

lemma zfree_zinv:
  assumes "zinv b s" and "zfree b ptr s = Inr s'"
  shows "zinv b s'"
  using assms
  by (cases b)
    (auto simp: zfree_def zinv_def Let_def charge_simps total_charge_del round_long_add_8
      split: option.splits if_splits)

section \<open>Runs of the allocator\<close>

inductive zstep :: "build \<Rightarrow> libc \<Rightarrow> zstate \<Rightarrow> zstate \<Rightarrow> bool" for b L where
  step_malloc: "zmalloc b L n s = Inr (ptr, s') \<Longrightarrow> zstep b L s s'"
| step_calloc: "zcalloc b L n s = Inr (ptr, s') \<Longrightarrow> zstep b L s s'"
| step_realloc: "zrealloc b L ptr n s = Inr (ptr', s') \<Longrightarrow> zstep b L s s'"
| step_free: "zfree b ptr s = Inr s' \<Longrightarrow> zstep b L s s'"
| step_strdup: "zstrdup b L str s = Inr (ptr, bytes, s') \<Longrightarrow> zstep b L s s'"
| step_threads: "zstep b L s (zmalloc_enable_thread_safeness s)"

inductive zreachable :: "build \<Rightarrow> libc \<Rightarrow> zstate \<Rightarrow> bool" for b L where
  zreachable_init: "zreachable b L zmalloc_init"
| zreachable_step: "zreachable b L s \<Longrightarrow> zstep b L s s' \<Longrightarrow> zreachable b L s'"

lemma zstep_zinv: "zstep b L s s' \<Longrightarrow> libc_ok L \<Longrightarrow> zinv b s \<Longrightarrow> zinv b s'"
proof (induction rule: zstep.induct)
  case (step_strdup str s ptr bytes s')
  then show ?case by (auto simp: zstrdup_def intro: zmalloc_zinv split: sum.splits)
next
  case (step_threads s)
  then show ?case by (simp add: zinv_def zmalloc_enable_thread_safeness_def)
qed (auto intro: zmalloc_zinv zcalloc_zinv zrealloc_zinv zfree_zinv)

lemma zinv_init: "zinv b zmalloc_init"
  by (simp add: zinv_def zmalloc_init_def total_charge_def)

lemma zreachable_zinv: "zreachable b L s \<Longrightarrow> libc_ok L \<Longrightarrow> zinv b s"
  by (induction rule: zreachable.induct) (auto intro: zstep_zinv zinv_init)

text \<open>A concrete allocator with two slots, on which the witnesses run.\<close>

definition two_slots :: libc where
  "two_slots =
     \<lparr>c_malloc = (\<lambda>h n. if h 4096 = None then Some (4096, n)
                       else if h 8192 = None then Some (8192, n) else None),
      c_calloc = (\<lambda>h n. if h 4096 = None then Some (4096, n) else None),
      c_realloc = (\<lambda>h q n. if h 8192 = None then Some (8192, n) else None)\<rparr>"

lemma two_slots_ok: "libc_ok two_slots"
  by (simp add: libc_ok_def fresh_answers_def moved_answers_def two_slots_def)

definition demo_zstate :: zstate where
  "demo_zstate = \<lparr>used_memory = 24, zmalloc_thread_safe = False,
     blocks = [4096 \<mapsto> \<lparr>usable = 18, hdr = 10\<rparr>]\<rparr>"

lemma demo_malloc: "zmalloc Size_prefix two_slots 10 zmalloc_init = Inr (4104, demo_zstate)"
  by (simp add: zmalloc_def finish_alloc_def zmalloc_init_def two_slots_def
      update_zmalloc_stat_alloc_def round_long_def user_ptr_def demo_zstate_def)

text \<open>
  C18: In every state the allocator layer can reach, by any sequence of \<open>zmalloc\<close>, \<open>zcalloc\<close>,
  \<open>zrealloc\<close>, \<open>zfree\<close> and \<open>zstrdup\<close> calls in either build, \<open>zmalloc_used_memory\<close> is the sum
  of what the live blocks are charged: nothing leaks and nothing is counted twice.
\<close>

theorem used_memory_accounts:
  assumes "libc_ok L" and "zreachable b L s"
  shows "zmalloc_used_memory s = (\<Sum>p\<in>dom (blocks s). charge b (the (blocks s p)))"
  using zreachable_zinv [OF assms(2,1)]
  by (simp add: zmalloc_used_memory_def zinv_def total_charge_def)

theorem used_memory_accounts_witness:
  "zmalloc_used_memory demo_zstate =
     (\<Sum>p\<in>dom (blocks demo_zstate). charge Size_prefix (the (blocks demo_zstate p)))
   \<and> zreachable Size_prefix two_slots demo_zstate"
proof -
  have r: "zreachable Size_prefix two_slots demo_zstate"
    by (rule zreachable_step [OF zreachable_init]) (rule step_malloc [OF demo_malloc])
  show ?thesis using used_memory_accounts [OF two_slots_ok r] r by simp
qed

text \<open>
  C29: \<open>zfree\<close> of the pointer \<open>zmalloc\<close> just returned succeeds and restores the whole state,
  counter and heap, in both builds.
\<close>

theorem zfree_undoes_zmalloc:
  assumes "libc_ok L" and "zmalloc b L n s = Inr (ptr, s')"
  shows "zfree b ptr s' = Inr s"
proof -
  from assms(2) obtain p u where p: "c_malloc L (blocks s) (n + PREFIX_SIZE b) = Some (p, u)"
    by (auto simp: zmalloc_def finish_alloc_def split: option.splits)
  with assms(1) have "p \<noteq> 0" and new: "blocks s p = None"
    by (auto dest: libc_okD)
  from new have "(blocks s)(p := None) = blocks s" by auto
  with \<open>p \<noteq> 0\<close> p assms(2) show ?thesis
    by (cases b)
      (auto simp: zmalloc_def finish_alloc_def zfree_def Let_def charge_simps user_ptr_def
        real_ptr_def)
qed

theorem zfree_undoes_zmalloc_witness: "zfree Size_prefix 4104 demo_zstate = Inr zmalloc_init"
  by (rule zfree_undoes_zmalloc [OF two_slots_ok demo_malloc])

text \<open>
  A successful \<open>zrealloc\<close> of a live block moves the counter by exactly the difference
  between what the new block and the old block are charged, although the code adds the
  header on neither side; and it frees the old address when the block has moved.
\<close>

theorem zrealloc_accounts:
  assumes "zrealloc b L ptr n s = Inr (ptr', s')" and "ptr \<noteq> 0"
    and "blocks s (real_ptr b ptr) = Some old"
  shows "\<exists>new. blocks s' (real_ptr b ptr') = Some new \<and>
     used_memory s' = used_memory s - charge b old + charge b new \<and>
     (real_ptr b ptr' \<noteq> real_ptr b ptr \<longrightarrow> blocks s' (real_ptr b ptr) = None)"
  using assms
  by (cases b) (auto simp: zrealloc_def Let_def charge_simps split: option.splits)

theorem zrealloc_accounts_witness:
  "\<exists>s'. zrealloc Size_prefix two_slots 4104 100 demo_zstate = Inr (8200, s') \<and>
     used_memory s' = 112 \<and> blocks s' 4096 = None"
proof -
  let ?s = "\<lparr>used_memory = 112, zmalloc_thread_safe = False,
     blocks = [8192 \<mapsto> \<lparr>usable = 108, hdr = 100\<rparr>]\<rparr> :: zstate"
  have r: "zrealloc Size_prefix two_slots 4104 100 demo_zstate = Inr (8200, ?s)"
    by (simp add: zrealloc_def demo_zstate_def two_slots_def real_ptr_def user_ptr_def
        update_zmalloc_stat_alloc_def update_zmalloc_stat_free_def round_long_def)
  have "\<exists>new. blocks ?s (real_ptr Size_prefix 8200) = Some new \<and>
     used_memory ?s = used_memory demo_zstate - charge Size_prefix \<lparr>usable = 18, hdr = 10\<rparr>
       + charge Size_prefix new \<and>
     (real_ptr Size_prefix 8200 \<noteq> real_ptr Size_prefix 4104 \<longrightarrow>
       blocks ?s (real_ptr Size_prefix 4104) = None)"
    by (rule zrealloc_accounts [OF r]) (simp_all add: demo_zstate_def real_ptr_def)
  with r show ?thesis by (intro exI [of _ ?s]) (simp add: real_ptr_def)
qed

section \<open>Threads\<close>

text \<open>
  The two arms of the accounting macros under concurrency. With \<open>zmalloc_thread_safe\<close> an
  update is one indivisible step (an atomic builtin, or the mutex held around it); without
  it \<open>used_memory += n\<close> is a load and a later store. \<open>todo\<close> holds, per thread, the amounts
  it still has to add (a release adds a negative amount), \<open>loaded\<close> what it has read.
\<close>

record tstate =
  counter :: u64
  loaded :: "u64 option list"
  todo :: "u64 list list"

inductive tstep :: "bool \<Rightarrow> tstate \<Rightarrow> tstate \<Rightarrow> bool" for safe where
  update_atomic:
    "safe \<Longrightarrow> i < length (todo s) \<Longrightarrow> todo s ! i = d # ds \<Longrightarrow>
     tstep safe s (s\<lparr>counter := counter s + d, todo := (todo s)[i := ds]\<rparr>)"
| update_load:
    "\<not> safe \<Longrightarrow> i < length (todo s) \<Longrightarrow> todo s ! i = d # ds \<Longrightarrow> loaded s ! i = None \<Longrightarrow>
     tstep safe s (s\<lparr>loaded := (loaded s)[i := Some (counter s)]\<rparr>)"
| update_store:
    "\<not> safe \<Longrightarrow> i < length (todo s) \<Longrightarrow> todo s ! i = d # ds \<Longrightarrow> loaded s ! i = Some v \<Longrightarrow>
     tstep safe s (s\<lparr>counter := v + d, loaded := (loaded s)[i := None],
                     todo := (todo s)[i := ds]\<rparr>)"

inductive_cases tstep_safeE: "tstep True s s'"

definition pending :: "tstate \<Rightarrow> u64" where
  "pending s = sum_list (map sum_list (todo s))"

lemma pending_pop:
  "i < length xss \<Longrightarrow> xss ! i = d # ds \<Longrightarrow>
   sum_list (map sum_list (xss[i := ds])) = sum_list (map sum_list xss) - (d :: u64)"
  by (induction xss arbitrary: i) (auto simp: nth_Cons algebra_simps split: nat.splits)

lemma sum_list_empties: "\<forall>xs \<in> set xss. xs = [] \<Longrightarrow> sum_list (map sum_list xss) = (0 :: u64)"
  by (induction xss) auto

lemma pending_none: "\<forall>xs \<in> set (todo s). xs = [] \<Longrightarrow> pending s = 0"
  by (simp add: pending_def sum_list_empties)

lemma tstep_safe_conserves: "tstep True s s' \<Longrightarrow> counter s' + pending s' = counter s + pending s"
  by (erule tstep_safeE) (simp_all add: pending_def pending_pop)

lemma tsteps_safe_conserve:
  "(tstep True)\<^sup>*\<^sup>* s s' \<Longrightarrow> counter s' + pending s' = counter s + pending s"
  by (induction rule: rtranclp_induct) (simp_all add: tstep_safe_conserves)


definition two_adders :: tstate where
  "two_adders = \<lparr>counter = 0, loaded = [None, None], todo = [[16], [32]]\<rparr>"

lemma two_adders_safe_run:
  "(tstep True)\<^sup>*\<^sup>* two_adders \<lparr>counter = 48, loaded = [None, None], todo = [[], []]\<rparr>"
proof -
  have "tstep True two_adders \<lparr>counter = 32, loaded = [None, None], todo = [[16], []]\<rparr>"
    using update_atomic [of True 1 two_adders 32 "[]"] by (simp add: two_adders_def)
  moreover have "tstep True \<lparr>counter = 32, loaded = [None, None], todo = [[16], []]\<rparr>
      \<lparr>counter = 48, loaded = [None, None], todo = [[], []]\<rparr>"
    using update_atomic [of True 0 "\<lparr>counter = 32, loaded = [None, None], todo = [[16], []]\<rparr>" 16 "[]"]
    by simp
  ultimately show ?thesis by (rule converse_rtranclp_into_rtranclp [OF _ r_into_rtranclp])
qed


text \<open>Without the flag the same two threads can lose one of the updates.\<close>

lemma unsafe_loses_update:
  "(tstep False)\<^sup>*\<^sup>* two_adders \<lparr>counter = 16, loaded = [None, None], todo = [[], []]\<rparr>"
proof -
  let ?a = "\<lparr>counter = 0, loaded = [Some 0, None], todo = [[16], [32]]\<rparr> :: tstate"
  let ?b = "\<lparr>counter = 0, loaded = [Some 0, Some 0], todo = [[16], [32]]\<rparr> :: tstate"
  let ?c = "\<lparr>counter = 32, loaded = [Some 0, None], todo = [[16], []]\<rparr> :: tstate"
  let ?d = "\<lparr>counter = 16, loaded = [None, None], todo = [[], []]\<rparr> :: tstate"
  have "tstep False two_adders ?a"
    using update_load [of False 0 two_adders 16 "[]"] by (simp add: two_adders_def)
  moreover have "tstep False ?a ?b" using update_load [of False 1 ?a 32 "[]"] by simp
  moreover have "tstep False ?b ?c" using update_store [of False 1 ?b 32 "[]" 0] by simp
  moreover have "tstep False ?c ?d" using update_store [of False 0 ?c 16 "[]" 0] by simp
  ultimately show ?thesis by (meson converse_rtranclp_into_rtranclp rtranclp.rtrancl_refl)
qed

end
