(* ===== verification/Adlist.thy ===== *)
theory Adlist
  imports Zmalloc
begin

text \<open>
  \<open>adlist.c\<close>: the generic doubly linked list, on an explicit store of nodes. A pointer is an
  address, \<open>0\<close> is \<open>NULL\<close>; following a pointer that is not a live node is \<open>None\<close>. The
  list's \<open>dup\<close>, \<open>free\<close> and \<open>match\<close> methods are functions of the header, absent when the
  pointer is \<open>NULL\<close>; what \<open>free\<close> was called on is logged, since its effect is the client's.
  The address \<open>zmalloc\<close> returns is an argument of the operations that allocate; \<open>0\<close> is the
  failure the code tests for.

  The abstraction: \<open>is_list h l xs\<close> says that the header \<open>l\<close> spans exactly the nodes \<open>xs\<close>
  (addresses with their values), linked in both directions.
\<close>

section \<open>Data\<close>

abbreviation NULL :: addr where
  "NULL \<equiv> 0"

record 'v listNode =
  nprev :: addr
  nnext :: addr
  nvalue :: 'v

type_synonym 'v nodes = "addr \<rightharpoonup> 'v listNode"

record 'v adlist =
  head :: addr
  tail :: addr
  dup_m :: "('v \<Rightarrow> 'v option) option"
  free_m :: bool
  match_m :: "('v \<Rightarrow> 'v \<Rightarrow> bool) option"
  len :: nat
  freed :: "'v list"

datatype direction = AL_START_HEAD | AL_START_TAIL

record listIter =
  inext :: addr
  idirection :: direction

section \<open>Pointer access\<close>

definition deref :: "'v nodes \<Rightarrow> addr \<Rightarrow> 'v listNode option" where
  "deref h a = (if a = NULL then None else h a)"

definition set_prev :: "addr \<Rightarrow> addr \<Rightarrow> 'v nodes \<Rightarrow> 'v nodes option" where
  "set_prev a p h = do { n \<leftarrow> deref h a; Some (h(a \<mapsto> n\<lparr>nprev := p\<rparr>)) }"

definition set_next :: "addr \<Rightarrow> addr \<Rightarrow> 'v nodes \<Rightarrow> 'v nodes option" where
  "set_next a q h = do { n \<leftarrow> deref h a; Some (h(a \<mapsto> n\<lparr>nnext := q\<rparr>)) }"

section \<open>Operations\<close>

definition listCreate :: "'v adlist" where
  "listCreate = \<lparr>head = NULL, tail = NULL, dup_m = None, free_m = False, match_m = None,
                 len = 0, freed = []\<rparr>"

text \<open>\<open>if (list->free) list->free(value)\<close>\<close>

definition call_free :: "'v \<Rightarrow> 'v adlist \<Rightarrow> 'v adlist" where
  "call_free v l = (if free_m l then l\<lparr>freed := freed l @ [v]\<rparr> else l)"

fun release_nodes :: "nat \<Rightarrow> addr \<Rightarrow> 'v nodes \<Rightarrow> 'v adlist \<Rightarrow> ('v nodes \<times> 'v adlist) option" where
  "release_nodes 0 current h l = Some (h, l)"
| "release_nodes (Suc n) current h l = do {
     node \<leftarrow> deref h current;
     release_nodes n (nnext node) (h(current := None)) (call_free (nvalue node) l) }"

text \<open>The header itself is freed at the end: only what was freed remains of \<open>l\<close>.\<close>

definition listRelease :: "'v nodes \<Rightarrow> 'v adlist \<Rightarrow> ('v nodes \<times> 'v list) option" where
  "listRelease h l = do {
     (h', l') \<leftarrow> release_nodes (len l) (head l) h l;
     Some (h', freed l') }"

definition listAddNodeHead ::
    "addr \<Rightarrow> 'v \<Rightarrow> 'v nodes \<times> 'v adlist \<Rightarrow> ('v nodes \<times> 'v adlist \<times> bool) option" where
  "listAddNodeHead a v = (\<lambda>(h, l).
     if a = NULL then Some (h, l, False)
     else if len l = 0 then
       Some (h(a \<mapsto> \<lparr>nprev = NULL, nnext = NULL, nvalue = v\<rparr>),
             l\<lparr>head := a, tail := a, len := len l + 1\<rparr>, True)
     else do {
       h \<leftarrow> set_prev (head l) a (h(a \<mapsto> \<lparr>nprev = NULL, nnext = head l, nvalue = v\<rparr>));
       Some (h, l\<lparr>head := a, len := len l + 1\<rparr>, True) })"

definition listAddNodeTail ::
    "addr \<Rightarrow> 'v \<Rightarrow> 'v nodes \<times> 'v adlist \<Rightarrow> ('v nodes \<times> 'v adlist \<times> bool) option" where
  "listAddNodeTail a v = (\<lambda>(h, l).
     if a = NULL then Some (h, l, False)
     else if len l = 0 then
       Some (h(a \<mapsto> \<lparr>nprev = NULL, nnext = NULL, nvalue = v\<rparr>),
             l\<lparr>head := a, tail := a, len := len l + 1\<rparr>, True)
     else do {
       h \<leftarrow> set_next (tail l) a (h(a \<mapsto> \<lparr>nprev = tail l, nnext = NULL, nvalue = v\<rparr>));
       Some (h, l\<lparr>tail := a, len := len l + 1\<rparr>, True) })"

text \<open>The two guarded link updates at the end of \<open>listInsertNode\<close>.\<close>

definition link_back :: "addr \<Rightarrow> 'v nodes \<Rightarrow> 'v nodes option" where
  "link_back a h = do {
     node \<leftarrow> deref h a;
     h \<leftarrow> (if nprev node \<noteq> NULL then set_next (nprev node) a h else Some h);
     node \<leftarrow> deref h a;
     (if nnext node \<noteq> NULL then set_prev (nnext node) a h else Some h) }"

definition listInsertNode ::
    "addr \<Rightarrow> addr \<Rightarrow> 'v \<Rightarrow> bool \<Rightarrow> 'v nodes \<times> 'v adlist
     \<Rightarrow> ('v nodes \<times> 'v adlist \<times> bool) option" where
  "listInsertNode a old_node v after = (\<lambda>(h, l).
     if a = NULL then Some (h, l, False)
     else do {
       old \<leftarrow> deref h old_node;
       let (node, l) =
         (if after
          then (\<lparr>nprev = old_node, nnext = nnext old, nvalue = v\<rparr>,
                if tail l = old_node then l\<lparr>tail := a\<rparr> else l)
          else (\<lparr>nprev = nprev old, nnext = old_node, nvalue = v\<rparr>,
                if head l = old_node then l\<lparr>head := a\<rparr> else l));
       h \<leftarrow> link_back a (h(a \<mapsto> node));
       Some (h, l\<lparr>len := len l + 1\<rparr>, True) })"

definition listDelNode ::
    "addr \<Rightarrow> 'v nodes \<times> 'v adlist \<Rightarrow> ('v nodes \<times> 'v adlist) option" where
  "listDelNode a = (\<lambda>(h, l). do {
     node \<leftarrow> deref h a;
     (h, l) \<leftarrow> (if nprev node \<noteq> NULL
               then do { h \<leftarrow> set_next (nprev node) (nnext node) h; Some (h, l) }
               else Some (h, l\<lparr>head := nnext node\<rparr>));
     (h, l) \<leftarrow> (if nnext node \<noteq> NULL
               then do { h \<leftarrow> set_prev (nnext node) (nprev node) h; Some (h, l) }
               else Some (h, l\<lparr>tail := nprev node\<rparr>));
     let l = call_free (nvalue node) l;
     Some (h(a := None), l\<lparr>len := len l - 1\<rparr>) })"

definition listGetIterator :: "'v adlist \<Rightarrow> direction \<Rightarrow> listIter" where
  "listGetIterator l d =
     \<lparr>inext = (case d of AL_START_HEAD \<Rightarrow> head l | AL_START_TAIL \<Rightarrow> tail l), idirection = d\<rparr>"

definition listRewind :: "'v adlist \<Rightarrow> listIter" where
  "listRewind l = \<lparr>inext = head l, idirection = AL_START_HEAD\<rparr>"

definition listRewindTail :: "'v adlist \<Rightarrow> listIter" where
  "listRewindTail l = \<lparr>inext = tail l, idirection = AL_START_TAIL\<rparr>"

definition listNext :: "'v nodes \<Rightarrow> listIter \<Rightarrow> (addr \<times> listIter) option" where
  "listNext h iter =
     (if inext iter \<noteq> NULL then do {
        current \<leftarrow> deref h (inext iter);
        Some (inext iter, iter\<lparr>inext := (case idirection iter of
                             AL_START_HEAD \<Rightarrow> nnext current
                           | AL_START_TAIL \<Rightarrow> nprev current)\<rparr>) }
      else Some (NULL, iter))"

text \<open>
  The loops that run until \<open>listNext\<close> gives \<open>NULL\<close>. On a store that is no list they need
  not stop, which is \<open>None\<close> as well.
\<close>

partial_function (option) search_from ::
    "'v nodes \<Rightarrow> 'v adlist \<Rightarrow> 'v \<Rightarrow> listIter \<Rightarrow> addr option" where
  "search_from h l key iter = do {
     (node, iter) \<leftarrow> listNext h iter;
     if node = NULL then Some NULL
     else do {
       n \<leftarrow> deref h node;
       if (case match_m l of Some match \<Rightarrow> match (nvalue n) key | None \<Rightarrow> key = nvalue n)
       then Some node
       else search_from h l key iter } }"

definition listSearchKey :: "'v nodes \<Rightarrow> 'v adlist \<Rightarrow> 'v \<Rightarrow> addr option" where
  "listSearchKey h l key = search_from h l key (listGetIterator l AL_START_HEAD)"

text \<open>\<open>while(index-- && n) n = n->next;\<close>\<close>

fun walk :: "('v listNode \<Rightarrow> addr) \<Rightarrow> 'v nodes \<Rightarrow> nat \<Rightarrow> addr \<Rightarrow> addr option" where
  "walk link h 0 n = Some n"
| "walk link h (Suc i) n =
     (if n = NULL then Some NULL else do { node \<leftarrow> deref h n; walk link h i (link node) })"

definition listIndex :: "'v nodes \<Rightarrow> 'v adlist \<Rightarrow> int \<Rightarrow> addr option" where
  "listIndex h l index =
     (if index < 0 then walk nprev h (nat (- index - 1)) (tail l)
      else walk nnext h (nat index) (head l))"

definition listRotate :: "'v nodes \<times> 'v adlist \<Rightarrow> ('v nodes \<times> 'v adlist) option" where
  "listRotate = (\<lambda>(h, l).
     if len l \<le> 1 then Some (h, l)
     else do {
       let tailp = tail l;
       node \<leftarrow> deref h tailp;
       let l = l\<lparr>tail := nprev node\<rparr>;
       h \<leftarrow> set_next (tail l) NULL h;
       h \<leftarrow> set_prev (head l) tailp h;
       h \<leftarrow> set_prev tailp NULL h;
       h \<leftarrow> set_next tailp (head l) h;
       Some (h, l\<lparr>head := tailp\<rparr>) })"

text \<open>
  \<open>listDup\<close>: \<open>alloc\<close> is the allocator, a function of the store. A failing \<open>dup\<close> method or a
  failing allocation releases the copy made so far (first component \<open>None\<close>); the values
  the release passes to the \<open>free\<close> method are in the last component.
\<close>

partial_function (option) dup_from ::
    "('v nodes \<Rightarrow> addr) \<Rightarrow> 'v nodes \<Rightarrow> 'v adlist \<Rightarrow> listIter
     \<Rightarrow> ('v nodes \<times> 'v adlist option \<times> 'v list) option" where
  "dup_from alloc h copy iter = do {
     (node, iter) \<leftarrow> listNext h iter;
     if node = NULL then Some (h, Some copy, [])
     else do {
       n \<leftarrow> deref h node;
       (case (case dup_m copy of Some dup \<Rightarrow> dup (nvalue n) | None \<Rightarrow> Some (nvalue n)) of
          None \<Rightarrow> do { (h, fr) \<leftarrow> listRelease h copy; Some (h, None, fr) }
        | Some v \<Rightarrow> do {
            (h, copy, ok) \<leftarrow> listAddNodeTail (alloc h) v (h, copy);
            if ok then dup_from alloc h copy iter
            else do { (h, fr) \<leftarrow> listRelease h copy; Some (h, None, fr) } }) } }"

definition listDup ::
    "('v nodes \<Rightarrow> addr) \<Rightarrow> 'v nodes \<Rightarrow> 'v adlist
     \<Rightarrow> ('v nodes \<times> 'v adlist option \<times> 'v list) option" where
  "listDup alloc h orig =
     dup_from alloc h (listCreate\<lparr>dup_m := dup_m orig, free_m := free_m orig,
                                   match_m := match_m orig\<rparr>)
       (listGetIterator orig AL_START_HEAD)"

section \<open>The list a header spans\<close>

type_synonym 'v cells = "(addr \<times> 'v) list"

fun first_addr :: "'v cells \<Rightarrow> addr \<Rightarrow> addr" where
  "first_addr [] n = n"
| "first_addr ((a, v) # xs) n = a"

fun last_addr :: "addr \<Rightarrow> 'v cells \<Rightarrow> addr" where
  "last_addr p [] = p"
| "last_addr p ((a, v) # xs) = last_addr a xs"

text \<open>A segment of nodes between the neighbours \<open>p\<close> and \<open>n\<close>.\<close>

fun dseg :: "'v nodes \<Rightarrow> addr \<Rightarrow> 'v cells \<Rightarrow> addr \<Rightarrow> bool" where
  "dseg h p [] n = True"
| "dseg h p ((a, v) # xs) n =
     (a \<noteq> NULL \<and> h a = Some \<lparr>nprev = p, nnext = first_addr xs n, nvalue = v\<rparr> \<and>
      dseg h a xs n)"

definition addrs :: "'v cells \<Rightarrow> addr set" where
  "addrs xs = fst ` set xs"

definition is_list :: "'v nodes \<Rightarrow> 'v adlist \<Rightarrow> 'v cells \<Rightarrow> bool" where
  "is_list h l xs \<longleftrightarrow> dseg h NULL xs NULL \<and> distinct (map fst xs) \<and>
     head l = first_addr xs NULL \<and> tail l = last_addr NULL xs \<and> len l = length xs"

lemma addrs_simps [simp]:
  "addrs [] = {}" "addrs ((a, v) # xs) = insert a (addrs xs)"
  "addrs (xs @ ys) = addrs xs \<union> addrs ys"
  by (auto simp: addrs_def)

lemma fst_set_addrs [simp]: "fst ` set xs = addrs xs"
  by (simp add: addrs_def)

lemma first_addr_append [simp]: "first_addr (xs @ ys) n = first_addr xs (first_addr ys n)"
  by (induction xs n rule: first_addr.induct) auto

lemma last_addr_append [simp]: "last_addr p (xs @ ys) = last_addr (last_addr p xs) ys"
  by (induction p xs rule: last_addr.induct) auto

lemma last_addr_snoc [simp]: "last_addr p (xs @ [(a, v)]) = a"
  by simp

lemma dseg_append [simp]:
  "dseg h p (xs @ ys) n \<longleftrightarrow> dseg h p xs (first_addr ys n) \<and> dseg h (last_addr p xs) ys n"
  by (induction h p xs n rule: dseg.induct) auto

text \<open>Writing outside a segment does not change it.\<close>

lemma dseg_frame: "a \<notin> addrs xs \<Longrightarrow> dseg (h(a := r)) p xs n = dseg h p xs n"
  by (induction h p xs n rule: dseg.induct) auto

text \<open>The two ends of a segment can be relinked on their own.\<close>

lemma dseg_relink_first:
  "dseg h p ((a, v) # xs) n \<Longrightarrow> a \<notin> addrs xs \<Longrightarrow>
   dseg (h(a \<mapsto> \<lparr>nprev = q, nnext = first_addr xs n, nvalue = v\<rparr>)) q ((a, v) # xs) n"
  by (simp add: dseg_frame)

lemma dseg_relink_last:
  "dseg h p (xs @ [(a, v)]) n \<Longrightarrow> a \<notin> addrs xs \<Longrightarrow>
   dseg (h(a \<mapsto> \<lparr>nprev = last_addr p xs, nnext = m, nvalue = v\<rparr>)) p (xs @ [(a, v)]) m"
  by (simp add: dseg_frame)

lemma dseg_dom: "dseg h p xs n \<Longrightarrow> a \<in> addrs xs \<Longrightarrow> a \<noteq> NULL \<and> h a \<noteq> None"
  by (induction h p xs n rule: dseg.induct) auto

lemma last_addr_in: "xs \<noteq> [] \<Longrightarrow> last_addr p xs \<in> addrs xs"
  by (cases xs rule: rev_cases) auto

lemma dseg_update: "a \<notin> addrs xs \<Longrightarrow> dseg h p xs n \<Longrightarrow> dseg (h(a := r)) p xs n"
  by (simp add: dseg_frame)

lemma dseg_last_nonnull: "dseg h p xs n \<Longrightarrow> xs \<noteq> [] \<Longrightarrow> last_addr p xs \<noteq> NULL"
  using dseg_dom last_addr_in by blast

section \<open>What the operations do to the list\<close>

text \<open>Every node outside \<open>S\<close> is untouched.\<close>

definition same_off :: "addr set \<Rightarrow> 'v nodes \<Rightarrow> 'v nodes \<Rightarrow> bool" where
  "same_off S h h' \<longleftrightarrow> (\<forall>b. b \<notin> S \<longrightarrow> h' b = h b)"

text \<open>The methods of the header and its log of released values are untouched.\<close>

definition same_methods :: "'v adlist \<Rightarrow> 'v adlist \<Rightarrow> bool" where
  "same_methods l l' \<longleftrightarrow> dup_m l' = dup_m l \<and> free_m l' = free_m l \<and>
     match_m l' = match_m l \<and> freed l' = freed l"

lemma is_list_dom: "is_list h l xs \<Longrightarrow> a \<in> addrs xs \<Longrightarrow> a \<noteq> NULL \<and> h a \<noteq> None"
  unfolding is_list_def by (blast dest: dseg_dom)

lemma is_list_fresh: "is_list h l xs \<Longrightarrow> h a = None \<Longrightarrow> a \<notin> addrs xs"
  using is_list_dom by fastforce

lemma derefI: "a \<noteq> NULL \<Longrightarrow> h a = Some n \<Longrightarrow> deref h a = Some n"
  by (simp add: deref_def)

lemma listAddNodeHead_ok:
  assumes "is_list h l xs" and "a \<noteq> NULL" and "h a = None"
  shows "\<exists>h' l'. listAddNodeHead a v (h, l) = Some (h', l', True) \<and>
           is_list h' l' ((a, v) # xs) \<and> same_off (insert a (addrs xs)) h h' \<and>
           same_methods l l'"
proof (cases xs)
  case Nil
  with assms show ?thesis
    by (simp add: listAddNodeHead_def is_list_def same_off_def same_methods_def)
next
  case (Cons x ys)
  obtain b w where x: "x = (b, w)" by (cases x)
  from assms have notin: "a \<notin> addrs xs" by (blast dest: is_list_fresh)
  from assms Cons x have b: "b \<notin> addrs ys" by (simp add: is_list_def)
  let ?n = "\<lparr>nprev = NULL, nnext = b, nvalue = v\<rparr>"
  let ?m = "\<lparr>nprev = a, nnext = first_addr ys NULL, nvalue = w\<rparr>"
  have "listAddNodeHead a v (h, l) =
      Some (h(a \<mapsto> ?n, b \<mapsto> ?m), l\<lparr>head := a, len := len l + 1\<rparr>, True)"
    using assms Cons x notin
    by (auto simp: listAddNodeHead_def is_list_def set_prev_def deref_def)
  moreover have "dseg (h(a \<mapsto> ?n, b \<mapsto> ?m)) NULL ((a, v) # xs) NULL"
    using assms Cons x notin b by (auto simp: is_list_def dseg_frame)
  ultimately show ?thesis
    using assms Cons x notin b
    by (auto simp: is_list_def same_off_def same_methods_def)
qed

lemma listAddNodeTail_ok:
  assumes "is_list h l xs" and "a \<noteq> NULL" and "h a = None"
  shows "\<exists>h' l'. listAddNodeTail a v (h, l) = Some (h', l', True) \<and>
           is_list h' l' (xs @ [(a, v)]) \<and> same_off (insert a (addrs xs)) h h' \<and>
           same_methods l l'"
proof (cases xs rule: rev_cases)
  case Nil
  with assms show ?thesis
    by (simp add: listAddNodeTail_def is_list_def same_off_def same_methods_def)
next
  case (snoc ys x)
  obtain b w where x: "x = (b, w)" by (cases x)
  from assms have "a \<notin> addrs xs" by (blast dest: is_list_fresh)
  with snoc x have notin: "a \<notin> addrs ys" "a \<noteq> b" by auto
  from assms snoc x have b: "b \<notin> addrs ys" by (simp add: is_list_def)
  let ?n = "\<lparr>nprev = b, nnext = NULL, nvalue = v\<rparr>"
  let ?m = "\<lparr>nprev = last_addr NULL ys, nnext = a, nvalue = w\<rparr>"
  have "listAddNodeTail a v (h, l) =
      Some (h(a \<mapsto> ?n, b \<mapsto> ?m), l\<lparr>tail := a, len := len l + 1\<rparr>, True)"
    using assms snoc x notin
    by (auto simp: listAddNodeTail_def is_list_def set_next_def deref_def)
  moreover have "dseg (h(a \<mapsto> ?n, b \<mapsto> ?m)) NULL (xs @ [(a, v)]) NULL"
    using assms snoc x notin b by (auto simp: is_list_def dseg_frame)
  ultimately show ?thesis
    using assms snoc x notin b
    by (auto simp: is_list_def same_off_def same_methods_def)
qed

text \<open>Setting the \<open>next\<close> field of the last node, or the \<open>prev\<close> field of the first.\<close>

lemma set_next_last:
  assumes "dseg h p (xs @ [(b, w)]) n" and "b \<notin> addrs xs"
  shows "\<exists>h'. set_next b m h = Some h' \<and> dseg h' p (xs @ [(b, w)]) m \<and> same_off {b} h h'"
  using assms by (auto simp: set_next_def deref_def dseg_frame same_off_def)

lemma set_prev_first:
  assumes "dseg h p ((b, w) # xs) n" and "b \<notin> addrs xs"
  shows "\<exists>h'. set_prev b q h = Some h' \<and> dseg h' q ((b, w) # xs) n \<and> same_off {b} h h'"
  using assms by (auto simp: set_prev_def deref_def dseg_frame same_off_def)

lemma same_off_trans: "same_off S h h' \<Longrightarrow> same_off T h' h'' \<Longrightarrow> same_off (S \<union> T) h h''"
  by (auto simp: same_off_def)

lemma same_off_mono: "same_off S h h' \<Longrightarrow> S \<subseteq> T \<Longrightarrow> same_off T h h'"
  by (auto simp: same_off_def)

lemma dseg_same_off: "same_off S h h' \<Longrightarrow> addrs xs \<inter> S = {} \<Longrightarrow> dseg h' p xs n = dseg h p xs n"
  by (induction h p xs n rule: dseg.induct) (auto simp: same_off_def)

text \<open>Relinking the end of a possibly empty front segment, and the start of a rear one.\<close>

lemma relink_front:
  assumes "dseg h NULL ys n" and "distinct (map fst ys)"
  shows "\<exists>h'. (if last_addr NULL ys \<noteq> NULL then set_next (last_addr NULL ys) m h else Some h) = Some h' \<and>
           dseg h' NULL ys m \<and> same_off (addrs ys) h h'"
proof (cases ys rule: rev_cases)
  case Nil
  then show ?thesis by (simp add: same_off_def)
next
  case (snoc zs x)
  obtain b w where x: "x = (b, w)" by (cases x)
  have "\<exists>h'. set_next b m h = Some h' \<and> dseg h' NULL (zs @ [(b, w)]) m \<and> same_off {b} h h'"
    using assms snoc x by (intro set_next_last) auto
  moreover have "b \<noteq> NULL" using assms snoc x by simp
  ultimately show ?thesis using snoc x by (auto elim: same_off_mono)
qed

lemma relink_rear:
  assumes "dseg h p zs NULL" and "distinct (map fst zs)"
  shows "\<exists>h'. (if first_addr zs NULL \<noteq> NULL then set_prev (first_addr zs NULL) q h else Some h) = Some h' \<and>
           dseg h' q zs NULL \<and> same_off (addrs zs) h h'"
proof (cases zs)
  case Nil
  then show ?thesis by (simp add: same_off_def)
next
  case (Cons x ws)
  obtain b w where x: "x = (b, w)" by (cases x)
  have "\<exists>h'. set_prev b q h = Some h' \<and> dseg h' q ((b, w) # ws) NULL \<and> same_off {b} h h'"
    using assms Cons x by (intro set_prev_first) auto
  moreover have "b \<noteq> NULL" using assms Cons x by simp
  ultimately show ?thesis using Cons x by (auto elim: same_off_mono)
qed

lemma link_back_ok:
  fixes h :: "'v nodes" and v :: 'v
  assumes "dseg h NULL (ys @ zs) NULL" and "distinct (map fst (ys @ zs))"
    and "a \<noteq> NULL" and "a \<notin> addrs (ys @ zs)"
  defines "node \<equiv> \<lparr>nprev = last_addr NULL ys, nnext = first_addr zs NULL, nvalue = v\<rparr>"
  shows "\<exists>h'. link_back a (h(a \<mapsto> node)) = Some h' \<and> dseg h' NULL (ys @ (a, v) # zs) NULL \<and>
           same_off (insert a (addrs (ys @ zs))) h h'"
proof -
  let ?h0 = "h(a \<mapsto> node)"
  have ys: "dseg ?h0 NULL ys (first_addr zs NULL)" and zs: "dseg ?h0 (last_addr NULL ys) zs NULL"
    using assms by (auto simp: dseg_frame)
  obtain h1 where h1:
    "(if last_addr NULL ys \<noteq> NULL then set_next (last_addr NULL ys) a ?h0 else Some ?h0) = Some h1"
    "dseg h1 NULL ys a" "same_off (addrs ys) ?h0 h1"
    using relink_front [OF ys, of a] assms(2) by auto
  have a1: "h1 a = Some node" using h1(3) assms(4) by (simp add: same_off_def)
  have zs1: "dseg h1 (last_addr NULL ys) zs NULL"
    using zs h1(3) assms(2) by (subst dseg_same_off) auto
  obtain h2 where h2:
    "(if first_addr zs NULL \<noteq> NULL then set_prev (first_addr zs NULL) a h1 else Some h1) = Some h2"
    "dseg h2 a zs NULL" "same_off (addrs zs) h1 h2"
    using relink_rear [OF zs1, of a] assms(2) by auto
  have a2: "h2 a = Some node" using a1 h2(3) assms(4) by (simp add: same_off_def)
  have "dseg h2 NULL ys a"
    using h1(2) h2(3) assms(2) by (subst dseg_same_off) auto
  with h2 a2 assms(3) have "dseg h2 NULL (ys @ (a, v) # zs) NULL"
    by (simp add: node_def)
  moreover have "link_back a ?h0 = Some h2"
    using assms(3) h1(1) h2(1) a1
    by (simp add: link_back_def deref_def node_def split: if_splits)
  moreover have "same_off (insert a (addrs (ys @ zs))) h h2"
    using h1(3) h2(3) by (auto simp: same_off_def)
  ultimately show ?thesis by blast
qed

lemma is_list_split:
  "is_list h l (ys @ (b, w) # zs) \<Longrightarrow>
   h b = Some \<lparr>nprev = last_addr NULL ys, nnext = first_addr zs NULL, nvalue = w\<rparr> \<and> b \<noteq> NULL"
  by (auto simp: is_list_def)

lemma last_addr_eq_NULL: "dseg h NULL ys n \<Longrightarrow> last_addr NULL ys = NULL \<longleftrightarrow> ys = []"
  by (metis dseg_last_nonnull last_addr.simps(1))

lemma first_addr_eq_NULL: "dseg h p zs n \<Longrightarrow> first_addr zs NULL = NULL \<longleftrightarrow> zs = []"
  by (cases zs rule: remdups_adj.cases) auto

lemma last_addr_indep: "zs \<noteq> [] \<Longrightarrow> last_addr p zs = last_addr q zs"
  by (cases zs rule: rev_cases) auto

lemma first_addr_indep: "zs \<noteq> [] \<Longrightarrow> first_addr zs m = first_addr zs n"
  by (cases zs) auto

lemma last_addr_distinct:
  "distinct (map fst (ys @ (b, w) # zs)) \<Longrightarrow> last_addr p (ys @ (b, w) # zs) = b \<longleftrightarrow> zs = []"
  using last_addr_in [of zs b] by auto

lemma first_addr_distinct:
  "distinct (map fst (ys @ (b, w) # zs)) \<Longrightarrow> first_addr (ys @ (b, w) # zs) n = b \<longleftrightarrow> ys = []"
  by (cases ys) auto

lemma listInsertNode_after_ok:
  assumes "is_list h l (ys @ (b, w) # zs)" and "a \<noteq> NULL" and "h a = None"
  shows "\<exists>h' l'. listInsertNode a b v True (h, l) = Some (h', l', True) \<and>
           is_list h' l' (ys @ (b, w) # (a, v) # zs) \<and>
           same_off (insert a (addrs (ys @ (b, w) # zs))) h h'"
proof -
  let ?ys = "ys @ [(b, w)]"
  have l: "is_list h l (?ys @ zs)" using assms(1) by simp
  obtain h' where h': "link_back a (h(a \<mapsto> \<lparr>nprev = b, nnext = first_addr zs NULL, nvalue = v\<rparr>)) = Some h'"
    "dseg h' NULL (?ys @ (a, v) # zs) NULL" "same_off (insert a (addrs (?ys @ zs))) h h'"
    using link_back_ok [of h ?ys zs a v] l assms(2) is_list_fresh [OF l assms(3)]
    by (auto simp: is_list_def)
  have "tail l = b \<longleftrightarrow> zs = []"
    using assms(1) last_addr_distinct [of ys b w zs NULL] by (auto simp: is_list_def)
  with h' assms is_list_split [OF assms(1)] is_list_fresh [OF l assms(3)]
    last_addr_indep [of zs b a] show ?thesis
    by (auto simp: listInsertNode_def deref_def is_list_def)
qed

lemma listInsertNode_before_ok:
  assumes "is_list h l (ys @ (b, w) # zs)" and "a \<noteq> NULL" and "h a = None"
  shows "\<exists>h' l'. listInsertNode a b v False (h, l) = Some (h', l', True) \<and>
           is_list h' l' (ys @ (a, v) # (b, w) # zs) \<and>
           same_off (insert a (addrs (ys @ (b, w) # zs))) h h'"
proof -
  let ?zs = "(b, w) # zs"
  obtain h' where h': "link_back a (h(a \<mapsto> \<lparr>nprev = last_addr NULL ys, nnext = b, nvalue = v\<rparr>)) = Some h'"
    "dseg h' NULL (ys @ (a, v) # ?zs) NULL" "same_off (insert a (addrs (ys @ ?zs))) h h'"
    using link_back_ok [of h ys ?zs a v] assms is_list_fresh [OF assms(1,3)]
    by (auto simp: is_list_def)
  have "head l = b \<longleftrightarrow> ys = []"
    using assms(1) first_addr_distinct [of ys b w zs NULL] by (auto simp: is_list_def)
  with h' assms is_list_split [OF assms(1)] is_list_fresh [OF assms(1,3)] show ?thesis
    by (cases ys) (auto simp: listInsertNode_def deref_def is_list_def)
qed

lemma listDelNode_ok:
  assumes "is_list h l (ys @ (a, v) # zs)"
  shows "\<exists>h' l'. listDelNode a (h, l) = Some (h', l') \<and> is_list h' l' (ys @ zs) \<and>
           h' a = None \<and> same_off (addrs (ys @ (a, v) # zs)) h h' \<and>
           freed l' = freed l @ (if free_m l then [v] else [])"
proof -
  have ys: "dseg h NULL ys a" and zs: "dseg h a zs NULL"
    and d: "distinct (map fst ys)" "distinct (map fst zs)" "addrs ys \<inter> addrs zs = {}"
    "a \<notin> addrs ys" "a \<notin> addrs zs"
    using assms by (auto simp: is_list_def)
  obtain h1 where h1:
    "(if last_addr NULL ys \<noteq> NULL then set_next (last_addr NULL ys) (first_addr zs NULL) h else Some h) = Some h1"
    "dseg h1 NULL ys (first_addr zs NULL)" "same_off (addrs ys) h h1"
    using relink_front [OF ys d(1)] by blast
  have zs1: "dseg h1 a zs NULL"
    using zs h1(3) d(3) by (subst dseg_same_off) auto
  obtain h2 where h2:
    "(if first_addr zs NULL \<noteq> NULL then set_prev (first_addr zs NULL) (last_addr NULL ys) h1 else Some h1) = Some h2"
    "dseg h2 (last_addr NULL ys) zs NULL" "same_off (addrs zs) h1 h2"
    using relink_rear [OF zs1 d(2)] by blast
  have ys2: "dseg h2 NULL ys (first_addr zs NULL)"
    using h1(2) h2(3) d(3) by (subst dseg_same_off) auto
  have "dseg (h2(a := None)) NULL (ys @ zs) NULL"
    using ys2 h2(2) d by (simp add: dseg_frame)
  moreover have "last_addr NULL ys = NULL \<longleftrightarrow> ys = []" by (rule last_addr_eq_NULL [OF ys])
  moreover have "first_addr zs NULL = NULL \<longleftrightarrow> zs = []" by (rule first_addr_eq_NULL [OF zs])
  ultimately show ?thesis
    using h1 h2 d assms is_list_split [OF assms] last_addr_indep [of zs a "last_addr NULL ys"]
      first_addr_indep [of ys a "first_addr zs NULL"]
    by (cases "ys = []"; cases "zs = []")
      (auto simp: listDelNode_def deref_def is_list_def call_free_def same_off_def)
qed

lemma listRotate_ok:
  assumes "is_list h l (ys @ [(a, v)])" and "ys \<noteq> []"
  shows "\<exists>h' l'. listRotate (h, l) = Some (h', l') \<and> is_list h' l' ((a, v) # ys) \<and>
           same_off (addrs (ys @ [(a, v)])) h h'"
proof -
  have ys: "dseg h NULL ys a" and d: "distinct (map fst ys)" "a \<notin> addrs ys"
    using assms by (auto simp: is_list_def)
  have nn: "last_addr NULL ys \<noteq> NULL" "first_addr ys NULL \<noteq> NULL"
    using last_addr_eq_NULL [OF ys] first_addr_eq_NULL [OF ys] assms(2) by auto
  obtain h1 where h1: "set_next (last_addr NULL ys) NULL h = Some h1" "dseg h1 NULL ys NULL"
    "same_off (addrs ys) h h1"
    using relink_front [OF ys d(1), of NULL] nn by auto
  obtain h2 where h2: "set_prev (first_addr ys NULL) a h1 = Some h2" "dseg h2 a ys NULL"
    "same_off (addrs ys) h1 h2"
    using relink_rear [OF h1(2) d(1), of a] nn by auto
  let ?n = "\<lparr>nprev = NULL, nnext = first_addr ys NULL, nvalue = v\<rparr>"
  have a: "h a = Some \<lparr>nprev = last_addr NULL ys, nnext = NULL, nvalue = v\<rparr>" "a \<noteq> NULL"
    using is_list_split [of h l ys a v "[]"] assms(1) by auto
  then have a2: "h2 a = h a" using h1(3) h2(3) d(2) by (simp add: same_off_def)
  have l: "head l = first_addr ys NULL" "tail l = a" "\<not> len l \<le> 1"
    using assms first_addr_indep [OF assms(2), of a NULL]
    by (auto simp: is_list_def neq_Nil_conv)
  have "set_prev a NULL h2 \<bind> set_next a (first_addr ys NULL) = Some (h2(a \<mapsto> ?n))"
    using a a2 by (simp add: set_prev_def set_next_def deref_def)
  then have "listRotate (h, l) =
      Some (h2(a \<mapsto> ?n), l\<lparr>tail := last_addr NULL ys, head := a\<rparr>)"
    using a l h1(1) h2(1)
    by (auto simp: listRotate_def deref_def bind_eq_Some_conv Let_def)
  moreover have "dseg (h2(a \<mapsto> ?n)) NULL ((a, v) # ys) NULL"
    using a(2) h2(2) d(2) by (simp add: dseg_frame)
  ultimately show ?thesis
    using h1(3) h2(3) d assms last_addr_indep [OF assms(2), of NULL a]
    by (auto simp: is_list_def same_off_def)
qed

lemma walk_next:
  "dseg h p xs NULL \<Longrightarrow>
   walk nnext h i (first_addr xs NULL) = Some (if i < length xs then fst (xs ! i) else NULL)"
proof (induction i arbitrary: p xs)
  case 0
  then show ?case by (cases xs) auto
next
  case (Suc i)
  show ?case
  proof (cases xs)
    case Nil
    then show ?thesis by simp
  next
    case (Cons x ys)
    obtain a v where "x = (a, v)" by (cases x)
    with Cons Suc show ?thesis by (auto simp: deref_def)
  qed
qed

lemma walk_prev:
  "dseg h NULL xs n \<Longrightarrow>
   walk nprev h i (last_addr NULL xs) = Some (if i < length xs then fst (rev xs ! i) else NULL)"
proof (induction i arbitrary: n xs)
  case 0
  then show ?case by (cases xs rule: rev_cases) auto
next
  case (Suc i)
  show ?case
  proof (cases xs rule: rev_cases)
    case Nil
    then show ?thesis by simp
  next
    case (snoc ys x)
    obtain a v where "x = (a, v)" by (cases x)
    with snoc Suc show ?thesis by (auto simp: deref_def)
  qed
qed

text \<open>What \<open>listIndex\<close> promises: positions from the head, negative ones from the tail.\<close>

definition cell_at :: "'v cells \<Rightarrow> int \<Rightarrow> addr" where
  "cell_at xs i =
     (let j = (if i < 0 then int (length xs) + i else i)
      in if 0 \<le> j \<and> j < int (length xs) then fst (xs ! nat j) else NULL)"

lemma listIndex_ok:
  assumes "is_list h l xs"
  shows "listIndex h l i = Some (cell_at xs i)"
proof (cases "i < 0")
  case True
  let ?k = "nat (- i - 1)"
  have "listIndex h l i = Some (if ?k < length xs then fst (rev xs ! ?k) else NULL)"
    using assms True walk_prev [of h xs NULL ?k] by (simp add: is_list_def listIndex_def)
  moreover have "?k < length xs \<longleftrightarrow> 0 \<le> int (length xs) + i" using True by auto
  moreover have "rev xs ! ?k = xs ! nat (int (length xs) + i)" if "?k < length xs"
  proof -
    have "length xs - Suc ?k = nat (int (length xs) + i)" using True that by auto
    with that show ?thesis by (simp add: rev_nth)
  qed
  ultimately show ?thesis using True by (auto simp: cell_at_def)
next
  case False
  with assms walk_next [of h NULL xs "nat i"] show ?thesis
    by (auto simp: is_list_def listIndex_def cell_at_def nat_less_iff)
qed

definition key_matches :: "'v adlist \<Rightarrow> 'v \<Rightarrow> 'v \<Rightarrow> bool" where
  "key_matches l key v =
     (case match_m l of Some match \<Rightarrow> match v key | None \<Rightarrow> key = v)"

lemma listNext_forward:
  "dseg h p ((a, v) # xs) n \<Longrightarrow>
   listNext h \<lparr>inext = a, idirection = AL_START_HEAD\<rparr> =
     Some (a, \<lparr>inext = first_addr xs n, idirection = AL_START_HEAD\<rparr>)"
  by (simp add: listNext_def deref_def)

lemma search_from_ok:
  "dseg h p xs NULL \<Longrightarrow>
   search_from h l key \<lparr>inext = first_addr xs NULL, idirection = AL_START_HEAD\<rparr> =
     Some (case find (\<lambda>(a, v). key_matches l key v) xs of None \<Rightarrow> NULL | Some (a, v) \<Rightarrow> a)"
proof (induction xs arbitrary: p)
  case Nil
  then show ?case by (subst search_from.simps) (simp add: listNext_def)
next
  case (Cons x xs)
  obtain a v where x: "x = (a, v)" by (cases x)
  with Cons.prems have "h a = Some \<lparr>nprev = p, nnext = first_addr xs NULL, nvalue = v\<rparr>" "a \<noteq> NULL"
    by auto
  with Cons.prems x have
    "search_from h l key \<lparr>inext = a, idirection = AL_START_HEAD\<rparr> =
       (if key_matches l key v then Some a
        else search_from h l key \<lparr>inext = first_addr xs NULL, idirection = AL_START_HEAD\<rparr>)"
    by (subst search_from.simps) (simp add: listNext_forward deref_def flip: key_matches_def)
  with Cons x show ?case by auto
qed

lemma listSearchKey_ok:
  "is_list h l xs \<Longrightarrow> listSearchKey h l key =
     Some (case find (\<lambda>(a, v). key_matches l key v) xs of None \<Rightarrow> NULL | Some (a, v) \<Rightarrow> a)"
  using search_from_ok [of h NULL xs l key]
  by (simp add: listSearchKey_def listGetIterator_def is_list_def)

section \<open>Releasing and duplicating\<close>

definition without :: "addr set \<Rightarrow> 'v nodes \<Rightarrow> 'v nodes" where
  "without S h = (\<lambda>b. if b \<in> S then None else h b)"

lemma freed_call_free:
  "freed (call_free v l) @ (if free_m (call_free v l) then vs else []) =
   freed l @ (if free_m l then v # vs else [])"
  by (simp add: call_free_def)

lemma release_nodes_ok:
  "dseg h p xs n \<Longrightarrow> distinct (map fst xs) \<Longrightarrow>
   \<exists>l'. release_nodes (length xs) (first_addr xs n) h l = Some (without (addrs xs) h, l') \<and>
        freed l' = freed l @ (if free_m l then map snd xs else [])"
proof (induction xs arbitrary: h p l)
  case Nil
  then show ?case by (simp add: without_def)
next
  case (Cons x xs)
  obtain a v where x: "x = (a, v)" by (cases x)
  let ?h = "h(a := None)"
  have "dseg ?h a xs n" "distinct (map fst xs)"
    using Cons.prems x by (auto simp: dseg_frame)
  from Cons.IH [OF this, of "call_free v l"]
  obtain l' where "release_nodes (length xs) (first_addr xs n) ?h (call_free v l)
      = Some (without (addrs xs) ?h, l')"
    "freed l' = freed l @ (if free_m l then v # map snd xs else [])"
    unfolding freed_call_free by blast
  moreover have "without (addrs xs) ?h = without (addrs (x # xs)) h"
    using x by (auto simp: without_def)
  ultimately show ?case
    using Cons.prems x by (auto simp: deref_def)
qed

lemma listRelease_ok:
  assumes "is_list h l xs"
  shows "listRelease h l =
    Some (without (addrs xs) h, freed l @ (if free_m l then map snd xs else []))"
proof -
  have "dseg h NULL xs NULL" "distinct (map fst xs)" using assms by (auto simp: is_list_def)
  from release_nodes_ok [OF this, of l] assms show ?thesis
    by (auto simp: listRelease_def is_list_def)
qed

text \<open>The values the copy must hold, or \<open>None\<close> if one of them cannot be duplicated.\<close>

fun dup_values :: "('v \<Rightarrow> 'v option) option \<Rightarrow> 'v list \<Rightarrow> 'v list option" where
  "dup_values d [] = Some []"
| "dup_values d (v # vs) = do {
     w \<leftarrow> (case d of Some dup \<Rightarrow> dup v | None \<Rightarrow> Some v);
     ws \<leftarrow> dup_values d vs;
     Some (w # ws) }"

definition good_alloc :: "('v nodes \<Rightarrow> addr) \<Rightarrow> bool" where
  "good_alloc alloc \<longleftrightarrow> (\<forall>h. finite (dom h) \<longrightarrow> alloc h \<noteq> NULL \<and> h (alloc h) = None)"

text \<open>The store during a copy: the original one plus the nodes of the copy so far.\<close>

definition copying :: "'v nodes \<Rightarrow> 'v nodes \<Rightarrow> 'v adlist \<Rightarrow> 'v cells \<Rightarrow> bool" where
  "copying h0 h copy cs \<longleftrightarrow> finite (dom h) \<and> is_list h copy cs \<and> same_off (addrs cs) h0 h \<and>
     (\<forall>a \<in> addrs cs. h0 a = None)"

lemma copying_release: "copying h0 h copy cs \<Longrightarrow> without (addrs cs) h = h0"
  by (auto simp: copying_def same_off_def without_def fun_eq_iff)

lemma copying_orig:
  assumes "copying h0 h copy cs" and "h0 a = Some n"
  shows "h a = Some n"
proof -
  have "a \<notin> addrs cs" using assms by (auto simp: copying_def)
  with assms show ?thesis by (auto simp: copying_def same_off_def)
qed

lemma copying_add:
  assumes "copying h0 h copy cs" and "good_alloc alloc"
  shows "\<exists>h' copy'. listAddNodeTail (alloc h) v (h, copy) = Some (h', copy', True) \<and>
           copying h0 h' copy' (cs @ [(alloc h, v)]) \<and> same_methods copy copy'"
proof -
  let ?a = "alloc h"
  have a: "?a \<noteq> NULL" "h ?a = None"
    using assms by (auto simp: good_alloc_def copying_def)
  obtain h' copy' where h': "listAddNodeTail ?a v (h, copy) = Some (h', copy', True)"
    "is_list h' copy' (cs @ [(?a, v)])" "same_off (insert ?a (addrs cs)) h h'"
    "same_methods copy copy'"
    using listAddNodeTail_ok [of h copy cs ?a v] a assms(1) by (auto simp: copying_def)
  have "dom h' \<subseteq> insert ?a (addrs cs) \<union> dom h"
  proof
    fix b
    assume "b \<in> dom h'"
    then show "b \<in> insert ?a (addrs cs) \<union> dom h"
      using h'(3) unfolding same_off_def domIff by (metis UnCI domIff)
  qed
  moreover have "finite (insert ?a (addrs cs) \<union> dom h)"
    using assms(1) by (simp add: copying_def addrs_def del: fst_set_addrs)
  ultimately have "finite (dom h')" by (rule finite_subset)
  moreover have "h0 ?a = None"
    using assms(1) a(2) copying_orig [OF assms(1), of ?a] by (cases "h0 ?a") auto
  moreover have "same_off (addrs (cs @ [(?a, v)])) h0 h'"
    using assms(1) h'(3) by (auto simp: copying_def same_off_def)
  ultimately show ?thesis
    using h' assms(1) by (auto simp: copying_def)
qed

lemma dup_from_ok:
  assumes "good_alloc alloc"
  shows "copying h0 h copy cs \<Longrightarrow> dseg h0 p zs NULL \<Longrightarrow>
    \<exists>h' r fr. dup_from alloc h copy \<lparr>inext = first_addr zs NULL, idirection = AL_START_HEAD\<rparr>
                = Some (h', r, fr) \<and>
      (case dup_values (dup_m copy) (map snd zs) of
         Some vs \<Rightarrow> \<exists>copy' ds. r = Some copy' \<and> copying h0 h' copy' (cs @ ds) \<and>
                      map snd ds = vs \<and> same_methods copy copy'
       | None \<Rightarrow> r = None \<and> h' = h0)"
proof (induction zs arbitrary: h copy cs p)
  case Nil
  then show ?case
    by (subst dup_from.simps) (auto simp: listNext_def same_methods_def intro: exI [of _ "[]"])
next
  case (Cons z zs)
  obtain a v where z: "z = (a, v)" by (cases z)
  let ?it = "\<lparr>inext = first_addr zs NULL, idirection = AL_START_HEAD\<rparr>"
  let ?w = "case dup_m copy of Some dup \<Rightarrow> dup v | None \<Rightarrow> Some v"
  have a: "h a = Some \<lparr>nprev = p, nnext = first_addr zs NULL, nvalue = v\<rparr>" "a \<noteq> NULL"
    using Cons.prems z copying_orig [OF Cons.prems(1)] by auto
  have step: "listNext h \<lparr>inext = a, idirection = AL_START_HEAD\<rparr> = Some (a, ?it)"
    using a by (simp add: listNext_def deref_def)
  show ?case
  proof (cases ?w)
    case None
    have "is_list h copy cs" using Cons.prems(1) by (simp add: copying_def)
    from listRelease_ok [OF this] copying_release [OF Cons.prems(1)]
    have "\<exists>fr. listRelease h copy = Some (h0, fr)" by simp
    with None a z step show ?thesis
      by (subst dup_from.simps) (auto simp: deref_def cong: option.case_cong)
  next
    case (Some w)
    obtain h' copy' where h': "listAddNodeTail (alloc h) w (h, copy) = Some (h', copy', True)"
      "copying h0 h' copy' (cs @ [(alloc h, w)])" "same_methods copy copy'"
      using copying_add [OF Cons.prems(1) assms] by blast
    have m: "dup_m copy' = dup_m copy" using h'(3) by (simp add: same_methods_def)
    have "dseg h0 a zs NULL" using Cons.prems(2) z by simp
    from Cons.IH [OF h'(2) this] obtain h2 r fr where
      r: "dup_from alloc h' copy' ?it = Some (h2, r, fr)"
      "case dup_values (dup_m copy) (map snd zs) of
         Some vs \<Rightarrow> \<exists>copy2 ds. r = Some copy2 \<and> copying h0 h2 copy2 ((cs @ [(alloc h, w)]) @ ds) \<and>
                      map snd ds = vs \<and> same_methods copy' copy2
       | None \<Rightarrow> r = None \<and> h2 = h0"
      unfolding m by blast
    have "dup_from alloc h copy \<lparr>inext = first_addr (z # zs) NULL, idirection = AL_START_HEAD\<rparr>
        = Some (h2, r, fr)"
      using a z step h'(1) r(1) Some
      by (subst dup_from.simps) (simp add: deref_def cong: option.case_cong)
    moreover have "dup_values (dup_m copy) (map snd (z # zs)) =
        map_option (\<lambda>ws. w # ws) (dup_values (dup_m copy) (map snd zs))"
      using z Some by (cases "dup_values (dup_m copy) (map snd zs)") auto
    ultimately show ?thesis
      using r(2) h'(3)
      by (fastforce simp: same_methods_def split: option.splits)
  qed
qed

section \<open>Properties\<close>

text \<open>A two element list, on which the witnesses run.\<close>

definition demo_nodes :: "nat nodes" where
  "demo_nodes = [10 \<mapsto> \<lparr>nprev = 0, nnext = 20, nvalue = 7\<rparr>,
                 20 \<mapsto> \<lparr>nprev = 10, nnext = 0, nvalue = 8\<rparr>]"

definition demo_header :: "nat adlist" where
  "demo_header = listCreate\<lparr>head := 10, tail := 20, len := 2\<rparr>"

lemma demo_is_list: "is_list demo_nodes demo_header [(10, 7), (20, 8)]"
  by (simp add: is_list_def demo_nodes_def demo_header_def listCreate_def)

text \<open>
  C38: \<open>listInsertNode\<close> never follows a dangling pointer; it puts the new value right after
  (or right before) the node it is given, keeps the two way links, the ends and the length
  consistent, and writes no node outside the list and the new one.
\<close>

theorem listInsertNode_refines:
  assumes "is_list h l (ys @ (b, w) # zs)" and "a \<noteq> NULL" and "h a = None"
  shows "\<exists>h' l'. listInsertNode a b v after (h, l) = Some (h', l', True) \<and>
           is_list h' l' (ys @ (if after then [(b, w), (a, v)] else [(a, v), (b, w)]) @ zs) \<and>
           same_off (insert a (addrs (ys @ (b, w) # zs))) h h'"
proof (cases after)
  case True
  with listInsertNode_after_ok [OF assms, of v] show ?thesis by simp
next
  case False
  with listInsertNode_before_ok [OF assms, of v] show ?thesis by simp
qed

theorem listInsertNode_refines_witness:
  "\<exists>h' l'. listInsertNode 30 10 9 True (demo_nodes, demo_header) = Some (h', l', True) \<and>
     is_list h' l' [(10, 7), (30, 9), (20, 8)]"
proof -
  have l: "is_list demo_nodes demo_header ([] @ (10, 7) # [(20, 8)])"
    using demo_is_list by simp
  show ?thesis
    using listInsertNode_refines [OF l, of 30 9 True] by (auto simp: demo_nodes_def)
qed



text \<open>
  \<open>listIndex\<close> returns the node at a position counted from the head (0, 1, ...) or from
  the tail (-1, -2, ...), and \<open>NULL\<close> exactly when the position is out of range.
\<close>

theorem listIndex_refines:
  assumes "is_list h l xs"
  shows "listIndex h l i = Some (cell_at xs i) \<and>
    (cell_at xs i = NULL \<longleftrightarrow> \<not> (- int (length xs) \<le> i \<and> i < int (length xs)))"
proof
  show "listIndex h l i = Some (cell_at xs i)" by (rule listIndex_ok [OF assms])
  have "fst (xs ! j) \<noteq> NULL" if "j < length xs" for j
    using is_list_dom [OF assms, of "fst (xs ! j)"] that by (auto simp: addrs_def simp del: fst_set_addrs)
  then show "cell_at xs i = NULL \<longleftrightarrow> \<not> (- int (length xs) \<le> i \<and> i < int (length xs))"
    by (auto simp: cell_at_def Let_def)
qed

theorem listIndex_refines_witness:
  "listIndex demo_nodes demo_header (-2) = Some 10 \<and> listIndex demo_nodes demo_header 2 = Some NULL"
  using listIndex_refines [OF demo_is_list] by (simp add: cell_at_def)

text \<open>
  \<open>listRotate\<close> on a list of two or more nodes moves the last node to the front and
  leaves the order of the others; it allocates nothing and stays inside the list.
\<close>

theorem listRotate_refines:
  assumes "is_list h l (ys @ [(a, v)])" and "ys \<noteq> []"
  shows "\<exists>h' l'. listRotate (h, l) = Some (h', l') \<and> is_list h' l' ((a, v) # ys) \<and>
           same_off (addrs (ys @ [(a, v)])) h h'"
  by (rule listRotate_ok [OF assms])

theorem listRotate_refines_witness:
  "\<exists>h' l'. listRotate (demo_nodes, demo_header) = Some (h', l') \<and>
     is_list h' l' [(20, 8), (10, 7)]"
proof -
  have l: "is_list demo_nodes demo_header ([(10, 7)] @ [(20, 8)])"
    using demo_is_list by simp
  show ?thesis using listRotate_refines [OF l] by auto
qed

text \<open>
  \<open>listDup\<close> terminates; when every value can be duplicated it returns a new list of the
  duplicates, in order and in nodes of its own, with the original list untouched; when the
  \<open>dup\<close> method fails on some value it returns \<open>NULL\<close> and the store is what it was, so no
  node of the partial copy leaks.
\<close>

theorem listDup_refines:
  assumes "is_list h l xs" and "finite (dom h)" and "good_alloc alloc"
  shows "\<exists>h' r fr. listDup alloc h l = Some (h', r, fr) \<and>
      (case dup_values (dup_m l) (map snd xs) of
         Some vs \<Rightarrow> \<exists>copy ds. r = Some copy \<and> is_list h' copy ds \<and> map snd ds = vs \<and>
                      addrs ds \<inter> addrs xs = {} \<and> is_list h' l xs
       | None \<Rightarrow> r = None \<and> h' = h)"
proof -
  let ?c = "listCreate\<lparr>dup_m := dup_m l, free_m := free_m l, match_m := match_m l\<rparr>"
  have "copying h h ?c []"
    using assms(2) by (simp add: copying_def is_list_def listCreate_def same_off_def)
  moreover have "dseg h NULL xs NULL" using assms(1) by (simp add: is_list_def)
  ultimately obtain h' r fr where d: "listDup alloc h l = Some (h', r, fr)"
    and r: "case dup_values (dup_m l) (map snd xs) of
         Some vs \<Rightarrow> \<exists>copy ds. r = Some copy \<and> copying h h' copy ds \<and> map snd ds = vs
       | None \<Rightarrow> r = None \<and> h' = h"
    using dup_from_ok [OF assms(3), of h h ?c "[]" NULL xs] assms(1)
    by (fastforce simp: listDup_def listGetIterator_def is_list_def split: option.splits)
  have keep: "addrs ds \<inter> addrs xs = {} \<and> is_list h' l xs" if c: "copying h h' copy ds" for copy ds
  proof -
    have dis: "addrs ds \<inter> addrs xs = {}"
      using c is_list_dom [OF assms(1)] by (force simp: copying_def)
    moreover have "same_off (addrs ds) h h'" using c by (simp add: copying_def)
    ultimately have "dseg h' NULL xs NULL = dseg h NULL xs NULL"
      by (intro dseg_same_off) auto
    with dis assms(1) show ?thesis by (simp add: is_list_def)
  qed
  show ?thesis
  proof (cases "dup_values (dup_m l) (map snd xs)")
    case None
    with d r show ?thesis by simp
  next
    case (Some vs)
    with r obtain copy ds where "r = Some copy" "copying h h' copy ds" "map snd ds = vs"
      by auto
    with d keep Some show ?thesis by (auto simp: copying_def)
  qed
qed

definition bump_alloc :: "nat nodes \<Rightarrow> addr" where
  "bump_alloc h = Suc (Max (insert 0 (dom h)))"

lemma bump_alloc_good: "good_alloc bump_alloc"
proof -
  have "h (Suc (Max (insert 0 (dom h)))) = None" if "finite (dom h)" for h :: "nat nodes"
  proof (rule ccontr)
    assume "h (Suc (Max (insert 0 (dom h)))) \<noteq> None"
    then have "Suc (Max (insert 0 (dom h))) \<le> Max (insert 0 (dom h))"
      using that by (intro Max_ge) auto
    then show False by simp
  qed
  then show ?thesis by (simp add: good_alloc_def bump_alloc_def)
qed

theorem listDup_refines_witness:
  "\<exists>h' r fr. listDup bump_alloc demo_nodes demo_header = Some (h', Some r, fr) \<and>
     (\<exists>ds. is_list h' r ds \<and> map snd ds = [7, 8])"
  using listDup_refines [OF demo_is_list _ bump_alloc_good]
  by (fastforce simp: demo_nodes_def demo_header_def listCreate_def)

section \<open>A log that drops its oldest entries\<close>

text \<open>
  What clients that keep a bounded list need from it: its length, and an operation that
  takes the last element off. \<open>trim_while\<close> is their \<open>while (listLength(l) > n)\<close> loop.
\<close>

partial_function (option) trim_while ::
    "('s \<Rightarrow> nat) \<Rightarrow> ('s \<Rightarrow> 's option) \<Rightarrow> nat \<Rightarrow> 's \<Rightarrow> 's option" where
  "trim_while size_of drop_last n s =
     (if n < size_of s then do { s \<leftarrow> drop_last s; trim_while size_of drop_last n s }
      else Some s)"

locale bounded_log =
  fixes items :: "'s \<Rightarrow> 'v list \<Rightarrow> bool"
    and size_of :: "'s \<Rightarrow> nat"
    and drop_last :: "'s \<Rightarrow> 's option"
  assumes size_of: "items s xs \<Longrightarrow> size_of s = length xs"
    and drop_last: "items s (xs @ [x]) \<Longrightarrow> \<exists>s'. drop_last s = Some s' \<and> items s' xs"
begin

lemma trim_keeps_newest:
  "items s xs \<Longrightarrow> \<exists>s'. trim_while size_of drop_last n s = Some s' \<and> items s' (take n xs)"
proof (induction xs arbitrary: s rule: rev_induct)
  case Nil
  then show ?case by (subst trim_while.simps) (simp add: size_of)
next
  case (snoc x xs)
  show ?case
  proof (cases "n < length (xs @ [x])")
    case True
    obtain s' where s': "drop_last s = Some s'" "items s' xs"
      using drop_last [OF snoc.prems] by blast
    with snoc.IH [OF s'(2)] snoc.prems True show ?thesis
      by (subst trim_while.simps) (auto simp: size_of)
  next
    case False
    with snoc.prems show ?thesis by (subst trim_while.simps) (simp add: size_of)
  qed
qed

end

text \<open>The values a header spans, and \<open>listDelNode(l, listLast(l))\<close> as the code's lists give it.\<close>

definition list_items :: "'v nodes \<times> 'v adlist \<Rightarrow> 'v list \<Rightarrow> bool" where
  "list_items s vs \<longleftrightarrow> (\<exists>xs. is_list (fst s) (snd s) xs \<and> map snd xs = vs)"

definition list_size :: "'v nodes \<times> 'v adlist \<Rightarrow> nat" where
  "list_size s = len (snd s)"

definition list_drop_last :: "'v nodes \<times> 'v adlist \<Rightarrow> ('v nodes \<times> 'v adlist) option" where
  "list_drop_last s = listDelNode (tail (snd s)) s"

interpretation list_log: bounded_log list_items list_size list_drop_last
proof
  fix s :: "'v nodes \<times> 'v adlist" and vs v
  obtain h l where s: "s = (h, l)" by (cases s)
  show "list_size s = length vs" if "list_items s vs"
    using that s by (auto simp: list_items_def list_size_def is_list_def)
  assume "list_items s (vs @ [v])"
  then obtain xs where xs: "is_list h l xs" "map snd xs = vs @ [v]"
    using s by (auto simp: list_items_def)
  then obtain ys a where ys: "xs = ys @ [(a, v)]" "map snd ys = vs"
    by (cases xs rule: rev_cases) auto
  then have "tail l = a" using xs by (simp add: is_list_def)
  with listDelNode_ok [of h l ys a v "[]"] xs ys s
  show "\<exists>s'. list_drop_last s = Some s' \<and> list_items s' vs"
    by (auto simp: list_drop_last_def list_items_def)
qed

end
