(* ===== verification/Util.thy ===== *)
theory Util
  imports Redis_Prelude
begin

text \<open>
  \<open>util.c\<close>: decimal printing and parsing of 64-bit integers, memory amounts with a unit,
  and glob matching. A C string is the list of its bytes; where a function is given a
  pointer and a length, the bytes that may be read behind the pointer are a list of their
  own, and a read past its end is \<open>None\<close>.

  The specifications: \<open>decimal v\<close> is the canonical decimal representation, \<open>glob\<close> the meaning
  of a parsed pattern.
\<close>

section \<open>Decimal representation\<close>

fun dec_nat :: "nat \<Rightarrow> byte list" where
  "dec_nat n = (if n < 10 then [word_of_nat (48 + n)]
                else dec_nat (n div 10) @ [word_of_nat (48 + n mod 10)])"

declare dec_nat.simps [simp del]

definition decimal :: "int \<Rightarrow> byte list" where
  "decimal v = (if v < 0 then 45 # dec_nat (nat (- v)) else dec_nat (nat v))"

section \<open>Printing\<close>

fun digits10 :: "nat \<Rightarrow> nat" where
  "digits10 v =
     (if v < 10 then 1
      else if v < 100 then 2
      else if v < 1000 then 3
      else if v < 1000000000000 then
        (if v < 100000000 then
           (if v < 1000000 then
              (if v < 10000 then 4 else 5 + of_bool (100000 \<le> v))
            else 7 + of_bool (10000000 \<le> v))
         else if v < 10000000000 then 9 + of_bool (1000000000 \<le> v)
         else 11 + of_bool (100000000000 \<le> v))
      else 12 + digits10 (v div 1000000000000))"

declare digits10.simps [simp del]

definition ll_digits :: "byte list" where
  "ll_digits = ascii (''0001020304050607080910111213141516171819'' @
                      ''2021222324252627282930313233343536373839'' @
                      ''4041424344454647484950515253545556575859'' @
                      ''6061626364656667686970717273747576777879'' @
                      ''8081828384858687888990919293949596979899'')"

text \<open>\<open>uint32_t\<close> subtraction.\<close>

definition sub32 :: "nat \<Rightarrow> nat \<Rightarrow> nat" where
  "sub32 a b = (a + 2 ^ 32 - b) mod 2 ^ 32"

text \<open>The loop that writes two digits at a time, from the right.\<close>

fun ll_pairs :: "nat \<Rightarrow> nat \<Rightarrow> byte list \<Rightarrow> (nat \<times> nat \<times> byte list) option" where
  "ll_pairs value nxt dst =
     (if 100 \<le> value then do {
        let i = (value mod 100) * 2;
        dst \<leftarrow> mem_write nxt [ll_digits ! (i + 1)] dst;
        dst \<leftarrow> mem_write (sub32 nxt 1) [ll_digits ! i] dst;
        ll_pairs (value div 100) (sub32 nxt 2) dst }
      else Some (value, nxt, dst))"

declare ll_pairs.simps [simp del]

text \<open>The buffer after the call and the value returned.\<close>

definition ll2string :: "byte list \<Rightarrow> nat \<Rightarrow> int \<Rightarrow> (byte list \<times> nat) option" where
  "ll2string dst dstlen svalue =
     (let negative = svalue < 0;
          value = (if svalue < 0
                   then (if svalue \<noteq> int_min 8 then nat (- svalue) else 2 ^ 63 - 1 + 1)
                   else nat svalue);
          n = digits10 value + of_bool negative
      in if dstlen \<le> n then Some (dst, 0)
         else do {
           dst \<leftarrow> mem_write n [0] dst;
           (value, nxt, dst) \<leftarrow> ll_pairs value (sub32 n 1) dst;
           dst \<leftarrow> (if value < 10 then mem_write nxt [48 + word_of_nat value] dst
                   else do {
                     let i = value * 2;
                     dst \<leftarrow> mem_write nxt [ll_digits ! (i + 1)] dst;
                     mem_write (sub32 nxt 1) [ll_digits ! i] dst });
           dst \<leftarrow> (if negative then mem_write 0 [45] dst else Some dst);
           Some (dst, n) })"

section \<open>Parsing\<close>

abbreviation is_digit :: "byte \<Rightarrow> bool" where
  "is_digit c \<equiv> 48 \<le> c \<and> c \<le> 57"

text \<open>
  The digit loop. \<open>v\<close> is an \<open>unsigned long long\<close>; the result is the value and the bytes that
  were not used, or \<open>None\<close> where the code returns 0.
\<close>

fun s2ll_loop :: "nat \<Rightarrow> byte list \<Rightarrow> (nat \<times> byte list) option" where
  "s2ll_loop v [] = Some (v, [])"
| "s2ll_loop v (c # p) =
     (if is_digit c then
        (if v > (2 ^ 64 - 1) div 10 then None
         else let v = v * 10 mod 2 ^ 64; d = unat c - 48
              in if v > 2 ^ 64 - 1 - d then None
                 else s2ll_loop ((v + d) mod 2 ^ 64) p)
      else Some (v, c # p))"

definition string2ll :: "byte list \<Rightarrow> int option" where
  "string2ll s =
     (if s = [] then None
      else if length s = 1 \<and> s ! 0 = 48 then Some 0
      else
        let negative = s ! 0 = 45; p = (if negative then drop 1 s else s)
        in if p = [] then None
           else if 49 \<le> p ! 0 \<and> p ! 0 \<le> 57 then
             (case s2ll_loop (unat (p ! 0) - 48) (drop 1 p) of
                None \<Rightarrow> None
              | Some (v, rest) \<Rightarrow>
                  if rest \<noteq> [] then None
                  else if negative then (if v > 2 ^ 63 then None else Some (- int v))
                  else if v > 2 ^ 63 - 1 then None
                  else Some (int v))
           else if p ! 0 = 48 \<and> length s = 1 then Some 0
           else None)"

text \<open>\<open>lb\<close> is \<open>sizeof(long)\<close>.\<close>

definition string2l :: "nat \<Rightarrow> byte list \<Rightarrow> int option" where
  "string2l lb s =
     (case string2ll s of
        None \<Rightarrow> None
      | Some v \<Rightarrow> if v < int_min lb \<or> v > int_max lb then None else Some v)"

section \<open>Amounts of memory\<close>

definition tolower :: "int \<Rightarrow> int" where
  "tolower c = (if 65 \<le> c \<and> c \<le> 90 then c + 32 else c)"

definition strcasecmp_eq :: "byte list \<Rightarrow> byte list \<Rightarrow> bool" where
  "strcasecmp_eq s t \<longleftrightarrow> map (tolower \<circ> uint) s = map (tolower \<circ> uint) t"

text \<open>\<open>strtoll\<close> of the standard library on an optional sign and digits: it saturates.\<close>

definition strtoll10 :: "byte list \<Rightarrow> int" where
  "strtoll10 s =
     (let neg = (s \<noteq> [] \<and> s ! 0 = 45);
          ds = takeWhile is_digit (if neg then drop 1 s else s);
          m = foldl (\<lambda>v c. 10 * v + (uint c - 48)) 0 ds
      in if neg then max (int_min 8) (- m) else min (int_max 8) m)"

text \<open>
  The value (\<open>None\<close> where the signed product overflows, which C leaves undefined) and the
  error flag. \<open>p\<close> holds the bytes of the C string before its terminator.
\<close>

definition mem_unit :: "byte list \<Rightarrow> int \<times> bool" where
  "mem_unit u =
     (if u = [] \<or> strcasecmp_eq u (ascii ''b'') then (1, False)
      else if strcasecmp_eq u (ascii ''k'') then (1000, False)
      else if strcasecmp_eq u (ascii ''kb'') then (1024, False)
      else if strcasecmp_eq u (ascii ''m'') then (1000 * 1000, False)
      else if strcasecmp_eq u (ascii ''mb'') then (1024 * 1024, False)
      else if strcasecmp_eq u (ascii ''g'') then (1000 * 1000 * 1000, False)
      else if strcasecmp_eq u (ascii ''gb'') then (1024 * 1024 * 1024, False)
      else (1, True))"

definition memtoll :: "byte list \<Rightarrow> int option \<times> bool" where
  "memtoll p =
     (let sign = (if p \<noteq> [] \<and> p ! 0 = 45 then 1 else 0);
          n = sign + length (takeWhile is_digit (drop sign p));
          (mul, err) = mem_unit (drop n p);
          digits = n mod 2 ^ 32
      in if 128 \<le> digits then (Some (int_max 8), True)
         else let val = strtoll10 (take digits p)
              in (if fits 8 (val * mul) then Some (val * mul) else None, err))"

section \<open>Printing is right\<close>

lemma length_dec_nat_bounds:
  "0 < n \<Longrightarrow> 10 ^ (length (dec_nat n) - 1) \<le> n \<and> n < 10 ^ length (dec_nat n) \<and> dec_nat n \<noteq> []"
proof (induction n rule: dec_nat.induct)
  case (1 n)
  show ?case
  proof (cases "n < 10")
    case True
    with 1 show ?thesis by (simp add: dec_nat.simps [of n])
  next
    case False
    then have ih: "10 ^ (length (dec_nat (n div 10)) - 1) \<le> n div 10"
      "n div 10 < 10 ^ length (dec_nat (n div 10))" "dec_nat (n div 10) \<noteq> []"
      using 1 by auto
    obtain k where k: "length (dec_nat (n div 10)) = Suc k"
      using ih(3) by (cases "dec_nat (n div 10)") auto
    have "n < 10 ^ Suc (Suc k)" "10 ^ Suc k \<le> n"
      using ih(1,2) k by simp_all
    then show ?thesis using False k by (simp add: dec_nat.simps [of n])
  qed
qed

lemma dec_nat_not_Nil [simp]: "dec_nat n \<noteq> []"
  by (subst dec_nat.simps) simp

lemma length_dec_nat_unique:
  assumes "0 < n" and "10 ^ k \<le> n" and "n < 10 ^ Suc k"
  shows "length (dec_nat n) = Suc k"
proof -
  let ?l = "length (dec_nat n)"
  have b: "10 ^ (?l - 1) \<le> n" "n < 10 ^ ?l" "?l \<noteq> 0"
    using length_dec_nat_bounds [OF assms(1)] by auto
  have "(10 :: nat) ^ k < 10 ^ ?l" using assms(2) b(2) by linarith
  then have "k < ?l" by (rule power_less_imp_less_exp [rotated]) simp
  moreover have "(10 :: nat) ^ (?l - 1) < 10 ^ Suc k" using assms(3) b(1) by linarith
  then have "?l - 1 < Suc k" by (rule power_less_imp_less_exp [rotated]) simp
  ultimately show ?thesis by linarith
qed

lemma length_dec_nat_div:
  assumes "10 ^ k \<le> n" shows "length (dec_nat n) = k + length (dec_nat (n div 10 ^ k))"
  using assms
proof (induction k arbitrary: n)
  case 0
  then show ?case by simp
next
  case (Suc k)
  have n: "10 \<le> n" using Suc.prems by (simp add: order_trans [OF _ Suc.prems])
  have "10 ^ k \<le> n div 10" using Suc.prems by simp
  from Suc.IH [OF this] n show ?case
    by (simp add: dec_nat.simps [of n] div_mult2_eq)
qed

lemma digits10_length: "digits10 v = length (dec_nat v)"
proof (induction v rule: digits10.induct)
  case (1 v)
  note u = length_dec_nat_unique [of v]
  show ?case
  proof (cases "v < 1000000000000")
    case True
    have "v < 10 \<Longrightarrow> length (dec_nat v) = 1" by (simp add: dec_nat.simps [of v])
    with True show ?thesis
      using u [of 1] u [of 2] u [of 3] u [of 4] u [of 5] u [of 6] u [of 7] u [of 8] u [of 9]
        u [of 10] u [of 11]
      by (simp add: digits10.simps [of v] not_less)
  next
    case False
    then have "digits10 (v div 1000000000000) = length (dec_nat (v div 1000000000000))"
      by (intro 1) auto
    with False show ?thesis
      using length_dec_nat_div [of 12 v] by (simp add: digits10.simps [of v])
  qed
qed

lemma nth_concat_pairs:
  "i < n \<Longrightarrow> concat (map (\<lambda>i. [f i, g i]) [0..<n]) ! (i * 2) = f i \<and>
             concat (map (\<lambda>i. [f i, g i]) [0..<n]) ! Suc (i * 2) = g i"
proof (induction n)
  case 0
  then show ?case by simp
next
  case (Suc n)
  have l: "length (concat (map (\<lambda>i. [f i, g i]) [0..<n])) = n * 2"
    by (induction n) auto
  show ?case
  proof (cases "i = n")
    case True
    with l show ?thesis by (simp add: nth_append)
  next
    case False
    with Suc l show ?thesis by (simp add: nth_append)
  qed
qed

lemma ll_digits_table:
  "ll_digits = concat (map (\<lambda>i. [word_of_nat (48 + i div 10), word_of_nat (48 + i mod 10)]) [0..<100])"
  by code_simp

lemma ll_digits_nth:
  "i < 100 \<Longrightarrow> ll_digits ! (i * 2) = word_of_nat (48 + i div 10)"
  "i < 100 \<Longrightarrow> ll_digits ! Suc (i * 2) = word_of_nat (48 + i mod 10)"
  unfolding ll_digits_table
  using nth_concat_pairs [of i 100 "\<lambda>i. word_of_nat (48 + i div 10)"
      "\<lambda>i. word_of_nat (48 + i mod 10)"]
  by blast+

lemma sub32_less [simp]:
  assumes "b \<le> a" and "a < 2 ^ 32" shows "sub32 a b = a - b"
proof -
  have "a + 2 ^ 32 - b = (a - b) + 2 ^ 32" using assms(1) by simp
  then have "sub32 a b = (a - b) mod 2 ^ 32" by (simp only: sub32_def mod_add_self2)
  then show ?thesis using assms(2) by (simp only: mod_less less_imp_diff_less)
qed

lemma dec_nat_100:
  "100 \<le> v \<Longrightarrow> dec_nat v = dec_nat (v div 100) @
     [word_of_nat (48 + v mod 100 div 10), word_of_nat (48 + v mod 100 mod 10)]"
  by (simp add: dec_nat.simps [of v] dec_nat.simps [of "v div 10"] div_mult2_eq [symmetric]
      mod_mult2_eq [of v 10 10, simplified] del: of_nat_add)

lemma dec_nat_two:
  "10 \<le> v \<Longrightarrow> v < 100 \<Longrightarrow> dec_nat v = [word_of_nat (48 + v div 10), word_of_nat (48 + v mod 10)]"
  by (simp add: dec_nat.simps [of v] dec_nat.simps [of "v div 10"] del: of_nat_add)

lemma mem_write_last:
  "mem_write (length pre + length mid) [b] (pre @ mid @ x # post) = Some (pre @ mid @ b # post)"
  using mem_write_append [of "[x]" "[b]" "pre @ mid" post] by simp

lemma list_last2:
  "Suc (Suc n) = length xs \<Longrightarrow> \<exists>ys a b. xs = ys @ [a, b] \<and> length ys = n"
  by (metis (no_types) append_butlast_last_id append.assoc append_Cons append_Nil
      length_0_conv length_butlast diff_Suc_1 nat.distinct(1))

lemma ll_pairs_ok:
  assumes "length mid = length (dec_nat w)" and "length pre + length mid < 2 ^ 32"
  shows "\<exists>v mid' post'.
    ll_pairs w (length pre + length mid - 1) (pre @ mid @ post) =
      Some (v, length pre + length mid' - 1, pre @ mid' @ post') \<and>
    v < 100 \<and> length mid' = length (dec_nat v) \<and> length mid' \<le> length mid \<and>
    dec_nat v @ post' = dec_nat w @ post"
  using assms
proof (induction w arbitrary: mid post rule: less_induct)
  case (less w)
  show ?case
  proof (cases "100 \<le> w")
    case False
    then show ?thesis using less.prems
      by (subst ll_pairs.simps) auto
  next
    case True
    let ?v = "w div 100" and ?i = "w mod 100"
    let ?d = "[word_of_nat (48 + ?i div 10), word_of_nat (48 + ?i mod 10)] :: byte list"
    have d: "dec_nat w = dec_nat ?v @ ?d" using True by (rule dec_nat_100)
    then have "Suc (Suc (length (dec_nat ?v))) = length mid" using less.prems by simp
    from list_last2 [OF this] obtain mid1 a b
      where m: "mid = mid1 @ [a, b]" "length mid1 = length (dec_nat ?v)" by blast
    have pos: "0 < length mid1" using m by simp
    have "?v < w" "length pre + length mid1 < 2 ^ 32" using True less.prems m by auto
    from less.IH [OF this(1) m(2) this(2), of "?d @ post"] obtain v mid' post' where ih:
      "ll_pairs ?v (length pre + length mid1 - 1) (pre @ mid1 @ ?d @ post) =
        Some (v, length pre + length mid' - 1, pre @ mid' @ post')"
      "v < 100" "length mid' = length (dec_nat v)" "length mid' \<le> length mid1"
      "dec_nat v @ post' = dec_nat ?v @ ?d @ post"
      by blast
    have w1: "mem_write (length pre + length mid - 1) [e] (pre @ mid @ post) =
        Some (pre @ (mid1 @ [a]) @ e # post)" for e
      using mem_write_last [of pre "mid1 @ [a]" e b post] m by simp
    have w2: "mem_write (length pre + length mid - 1 - 1) [e] (pre @ (mid1 @ [a]) @ f # post) =
        Some (pre @ mid1 @ e # f # post)" for e f
      using mem_write_last [of pre mid1 e a "f # post"] m by simp
    have s: "sub32 (length pre + length mid - 1) 1 = length pre + length mid - 1 - 1"
      "sub32 (length pre + length mid - 1) 2 = length pre + length mid1 - 1"
    proof -
      have "length mid = length mid1 + 2" using m(1) by simp
      then have "1 \<le> length pre + length mid - 1" "2 \<le> length pre + length mid - 1"
        "length pre + length mid - 1 < 2 ^ 32"
        using less.prems(2) pos by linarith+
      then show "sub32 (length pre + length mid - 1) 1 = length pre + length mid - 1 - 1"
        "sub32 (length pre + length mid - 1) 2 = length pre + length mid1 - 1"
        using m(1) by (simp_all only: sub32_less) simp_all
    qed
    have "ll_pairs w (length pre + length mid - 1) (pre @ mid @ post) =
        ll_pairs ?v (length pre + length mid1 - 1) (pre @ mid1 @ ?d @ post)"
      using True
      by (subst ll_pairs.simps)
        (simp add: Let_def w1 [simplified] w2 [simplified] s [simplified] ll_digits_nth)
    with ih d show ?thesis
      by (intro exI [of _ v] exI [of _ mid'] exI [of _ post'])
        (simp add: m(1))
  qed
qed

lemma length_dec_nat_le:
  assumes "n < 10 ^ k" and "0 < k" shows "length (dec_nat n) \<le> k"
proof (cases "n = 0")
  case True
  then show ?thesis using assms by (simp add: dec_nat.simps [of 0])
next
  case False
  then have "10 ^ (length (dec_nat n) - 1) < (10 :: nat) ^ k"
    using length_dec_nat_bounds [of n] assms(1) by linarith
  then have "length (dec_nat n) - 1 < k" by (rule power_less_imp_less_exp [rotated]) simp
  then show ?thesis by linarith
qed

text \<open>The digits are written over the positions \<open>|pre| \<dots> |pre| + |mid| - 1\<close>.\<close>

lemma print_digits:
  assumes "length mid = length (dec_nat w)" and "length pre + length mid < 2 ^ 32"
  shows "do {
           (v, nxt, dst) \<leftarrow> ll_pairs w (sub32 (length pre + length mid) 1) (pre @ mid @ post);
           if v < 10 then mem_write nxt [48 + word_of_nat v] dst
           else do {
             let i = v * 2;
             dst \<leftarrow> mem_write nxt [ll_digits ! (i + 1)] dst;
             mem_write (sub32 nxt 1) [ll_digits ! i] dst } } =
         Some (pre @ dec_nat w @ post)"
proof -
  have s: "sub32 (length pre + length mid) 1 = length pre + length mid - 1"
    using assms by (intro sub32_less) (auto simp: Suc_le_eq)
  from ll_pairs_ok [OF assms] obtain v mid' post' where r:
    "ll_pairs w (length pre + length mid - 1) (pre @ mid @ post) =
      Some (v, length pre + length mid' - 1, pre @ mid' @ post')"
    "v < 100" "length mid' = length (dec_nat v)" "dec_nat v @ post' = dec_nat w @ post"
    and l: "length mid' \<le> length mid"
    by blast
  show ?thesis
  proof (cases "v < 10")
    case True
    then have "length mid' = 1" using r(3) by (simp add: dec_nat.simps [of v])
    then obtain a where "mid' = [a]" by (cases mid') auto
    then show ?thesis using r(1,4) s True mem_write_last [of pre "[]" "48 + word_of_nat v" a post']
      by (simp add: dec_nat.simps [of v])
  next
    case False
    then have d: "dec_nat v = [word_of_nat (48 + v div 10), word_of_nat (48 + v mod 10)]"
      using r(2) by (intro dec_nat_two) auto
    with r(3) obtain a b where m: "mid' = [a, b]" by (auto simp: length_Suc_conv)
    have "sub32 (length pre + length mid' - 1) 1 = length pre + length mid' - 1 - 1"
      using l m assms by (intro sub32_less) auto
    then show ?thesis
      using r(1,2,4) s False m d mem_write_last [of pre "[a]" _ b post']
        mem_write_last [of pre "[]" _ a]
      by (simp add: ll_digits_nth)
  qed
qed

lemma length_decimal:
  "length (decimal v) = digits10 (nat \<bar>v\<bar>) + of_bool (v < 0)"
  by (simp add: decimal_def digits10_length)

lemma length_decimal_le:
  assumes "fits 8 v" shows "length (decimal v) \<le> 20"
proof -
  have "nat \<bar>v\<bar> < 10 ^ 19" using assms by (auto simp: fits_def)
  then have "length (dec_nat (nat \<bar>v\<bar>)) \<le> 19" by (rule length_dec_nat_le) simp
  then show ?thesis
    by (cases "v < 0") (simp_all add: length_decimal digits10_length)
qed

lemma ll2string_eq:
  assumes "fits 8 v" and "dstlen \<le> length dst"
  shows "ll2string dst dstlen v =
     (if length (decimal v) < dstlen
      then Some (decimal v @ 0 # drop (Suc (length (decimal v))) dst, length (decimal v))
      else Some (dst, 0))"
proof -
  let ?m = "nat \<bar>v\<bar>" and ?n = "length (decimal v)"
  have m: "(if v < 0 then if v \<noteq> int_min 8 then nat (- v) else 2 ^ 63 - 1 + 1 else nat v) = ?m"
    using assms(1) by (auto simp: fits_def)
  have n: "digits10 ?m + of_bool (v < 0) = ?n" by (simp add: length_decimal)
  show ?thesis
  proof (cases "?n < dstlen")
    case False
    then show ?thesis unfolding ll2string_def Let_def m n by simp
  next
    case True
    define pre where "pre = take (of_bool (v < 0)) dst"
    define mid where "mid = take (length (dec_nat ?m)) (drop (of_bool (v < 0)) dst)"
    define post where "post = drop ?n dst"
    have len: "length pre = of_bool (v < 0)" "length mid = length (dec_nat ?m)"
      using True assms(2) by (auto simp: pre_def mid_def length_decimal digits10_length)
    have dst: "dst = pre @ mid @ post"
      by (simp add: pre_def mid_def post_def length_decimal digits10_length
          flip: drop_drop)
    have sum: "length pre + length mid = ?n"
      using len by (simp add: length_decimal digits10_length)
    have lt: "length pre + length mid < 2 ^ 32"
      using length_decimal_le [OF assms(1)] sum by simp
    obtain x post' where post: "post = x # post'"
      using True assms(2) by (cases post) (auto simp: post_def)
    have w0: "mem_write ?n [0] dst = Some (pre @ mid @ 0 # post')"
      using mem_write_last [of pre mid 0 x post'] sum dst post by simp
    have post'_eq: "post' = drop (Suc ?n) dst"
      using dst sum post by simp
    have sg: "(if v < 0 then mem_write 0 [45] (pre @ dec_nat ?m @ 0 # post')
               else Some (pre @ dec_nat ?m @ 0 # post')) = Some (decimal v @ 0 # post')"
      using len(1) by (cases "v < 0"; cases pre) (auto simp: decimal_def mem_write_def)
    from print_digits [OF len(2) lt, of "0 # post'"] obtain w nxt d where
      lp: "ll_pairs ?m (sub32 ?n 1) (pre @ mid @ 0 # post') = Some (w, nxt, d)" and
      fin: "(if w < 10 then mem_write nxt [48 + word_of_nat w] d
             else do {
               let i = w * 2;
               d \<leftarrow> mem_write nxt [ll_digits ! (i + 1)] d;
               mem_write (sub32 nxt 1) [ll_digits ! i] d }) = Some (pre @ dec_nat ?m @ 0 # post')"
      unfolding sum by (auto simp: bind_eq_Some_conv)
    show ?thesis
      using True
      unfolding ll2string_def Let_def m n
      by (simp only: w0 lp fin [unfolded Let_def] sg bind.bind_lunit prod.case if_False
          not_le [THEN iffD2, THEN eq_False [THEN iffD2]] simp_thms) (simp add: post'_eq)
  qed
qed

section \<open>Parsing is exact\<close>

definition dval :: "byte list \<Rightarrow> nat" where
  "dval = foldl (\<lambda>v c. 10 * v + (unat c - 48)) 0"

lemma foldl_dval_ge:
  "v \<le> foldl (\<lambda>v c. 10 * v + (unat (c :: byte) - 48)) v p"
proof (induction p arbitrary: v)
  case Nil
  then show ?case by simp
next
  case (Cons c p)
  have "v \<le> 10 * v + (unat c - 48)" by simp
  also have "\<dots> \<le> foldl (\<lambda>v c. 10 * v + (unat c - 48)) (10 * v + (unat c - 48)) p"
    by (rule Cons)
  finally show ?case by simp
qed

lemma dval_append_ge: "dval xs \<le> dval (xs @ ys)"
  by (simp add: dval_def foldl_dval_ge)

lemma unat_digit: "d < 10 \<Longrightarrow> unat (word_of_nat (48 + d) :: byte) = 48 + d"
  by (simp del: of_nat_add)

lemma dval_dec_nat [simp]: "dval (dec_nat n) = n"
proof (induction n rule: dec_nat.induct)
  case (1 n)
  show ?case
  proof (cases "n < 10")
    case True
    then show ?thesis by (simp add: dec_nat.simps [of n] dval_def unat_digit del: of_nat_add)
  next
    case False
    have "dval (dec_nat n) = 10 * dval (dec_nat (n div 10)) + n mod 10"
      using False by (simp add: dec_nat.simps [of n] dval_def unat_digit del: of_nat_add)
    with 1 False show ?thesis by simp
  qed
qed

lemma dec_nat_inj [simp]: "dec_nat m = dec_nat n \<longleftrightarrow> m = n"
  by (metis dval_dec_nat)

lemma is_digit_of: "d < 10 \<Longrightarrow> is_digit (word_of_nat (48 + d))"
  by (simp add: word_le_nat_alt unat_digit del: of_nat_add)

lemma dec_nat_digits: "c \<in> set (dec_nat n) \<Longrightarrow> is_digit c"
proof (induction n rule: dec_nat.induct)
  case (1 n)
  show ?case
  proof (cases "n < 10")
    case True
    with 1 show ?thesis
      using is_digit_of [of n] by (simp add: dec_nat.simps [of n] del: of_nat_add)
  next
    case False
    with 1 show ?thesis
      using is_digit_of [of "n mod 10"] by (auto simp: dec_nat.simps [of n] simp del: of_nat_add)
  qed
qed

lemma word_of_digit: "is_digit c \<Longrightarrow> word_of_nat (48 + (unat c - 48)) = c \<and> unat c - 48 < 10"
proof -
  assume "is_digit c"
  then have "48 \<le> unat c" "unat c \<le> 57" by (simp_all add: word_le_nat_alt)
  then have "48 + (unat c - 48) = unat c" "unat c - 48 < 10" by linarith+
  then show ?thesis by (simp del: of_nat_add)
qed

lemma dec_nat_snoc:
  assumes "0 < v" and "is_digit c"
  shows "dec_nat v @ [c] = dec_nat (10 * v + (unat c - 48))"
proof -
  let ?d = "unat c - 48"
  have d: "word_of_nat (48 + ?d) = c" "?d < 10" using word_of_digit [OF assms(2)] by auto
  then have "(10 * v + ?d) div 10 = v" "(10 * v + ?d) mod 10 = ?d" by simp_all
  with assms d show ?thesis by (simp add: dec_nat.simps [of "10 * v + ?d"] del: of_nat_add)
qed

lemma dec_nat_prefix_le: "dec_nat v @ p = dec_nat v' \<Longrightarrow> v \<le> v'"
  using dval_append_ge [of "dec_nat v" p] by simp

lemma s2ll_loop_iff:
  "0 < v \<Longrightarrow> v < 2 ^ 64 \<Longrightarrow>
   s2ll_loop v p = Some (v', []) \<longleftrightarrow> v' < 2 ^ 64 \<and> dec_nat v @ p = dec_nat v'"
proof (induction p arbitrary: v)
  case Nil
  then show ?case by auto
next
  case (Cons c p)
  show ?case
  proof (cases "is_digit c")
    case False
    have "c \<notin> set (dec_nat v')" using dec_nat_digits False by blast
    moreover have "c \<in> set (dec_nat v @ c # p)" by simp
    ultimately have "dec_nat v @ c # p \<noteq> dec_nat v'" by metis
    moreover have "s2ll_loop v (c # p) = Some (v, c # p)"
      using False by (subst s2ll_loop.simps) (simp only: if_False)
    ultimately show ?thesis by simp
  next
    case True
    let ?d = "unat c - 48"
    have d: "?d < 10" using word_of_digit [OF True] by simp
    have sn: "dec_nat v @ c # p = dec_nat (10 * v + ?d) @ p"
      using dec_nat_snoc [OF Cons.prems(1) True] by simp
    show ?thesis
    proof (cases "10 * v + ?d < 2 ^ 64")
      case fit: True
      then have "v \<le> (2 ^ 64 - 1) div 10" "v * 10 mod 2 ^ 64 = 10 * v"
        "10 * v \<le> 2 ^ 64 - 1 - ?d" "(10 * v + ?d) mod 2 ^ 64 = 10 * v + ?d" by auto
      then have loop: "s2ll_loop v (c # p) = s2ll_loop (10 * v + ?d) p"
        using True by (simp add: Let_def mult.commute [of v 10])
      have "s2ll_loop (10 * v + ?d) p = Some (v', []) \<longleftrightarrow>
          v' < 2 ^ 64 \<and> dec_nat (10 * v + ?d) @ p = dec_nat v'"
        using Cons.prems(1) fit by (intro Cons.IH) auto
      then show ?thesis by (simp only: loop sn)
    next
      case False
      then have "s2ll_loop v (c # p) = None"
        using True d Cons.prems by (auto simp: Let_def not_less)
      moreover have "\<not> (v' < 2 ^ 64 \<and> dec_nat v @ c # p = dec_nat v')"
      proof -
        have "dec_nat (10 * v + ?d) @ p \<noteq> dec_nat v' \<or> \<not> v' < 2 ^ 64"
          using dec_nat_prefix_le [of "10 * v + ?d" p v'] False by linarith
        then show ?thesis by (simp only: sn) blast
      qed
      ultimately show ?thesis by simp
    qed
  qed
qed

lemma dec_nat_single: "is_digit c \<Longrightarrow> dec_nat (unat c - 48) = [c]"
  using word_of_digit [of c] by (simp add: dec_nat.simps [of "unat c - 48"] del: of_nat_add)

lemma hd_dec_nat: "0 < n \<Longrightarrow> 49 \<le> dec_nat n ! 0 \<and> dec_nat n ! 0 \<le> 57"
proof (induction n rule: dec_nat.induct)
  case (1 n)
  show ?case
  proof (cases "n < 10")
    case True
    with 1 show ?thesis
      by (simp add: dec_nat.simps [of n] word_le_nat_alt unat_digit del: of_nat_add)
  next
    case False
    then have "dec_nat n ! 0 = dec_nat (n div 10) ! 0"
      by (simp add: dec_nat.simps [of n] nth_append)
    with 1 False show ?thesis by simp
  qed
qed

lemma dec_nat_0: "dec_nat 0 = [48]"
  by (simp add: dec_nat.simps [of 0])

text \<open>The positive part of the parser, behind the sign.\<close>

definition parse_pos :: "byte list \<Rightarrow> nat option" where
  "parse_pos p =
     (if p \<noteq> [] \<and> 49 \<le> p ! 0 \<and> p ! 0 \<le> 57 then
        (case s2ll_loop (unat (p ! 0) - 48) (drop 1 p) of
           Some (v, []) \<Rightarrow> Some v | _ \<Rightarrow> None)
      else None)"

lemma parse_pos_iff: "parse_pos p = Some v \<longleftrightarrow> 0 < v \<and> v < 2 ^ 64 \<and> p = dec_nat v"
proof (cases "p \<noteq> [] \<and> 49 \<le> p ! 0 \<and> p ! 0 \<le> 57")
  case False
  then have "parse_pos p = None" by (simp only: parse_pos_def if_False)
  moreover have "0 < v \<Longrightarrow> p \<noteq> dec_nat v"
    using False hd_dec_nat [of v] dec_nat_not_Nil [of v] by metis
  ultimately show ?thesis by auto
next
  case True
  then obtain c q where p: "p = c # q" and c: "49 \<le> c" "c \<le> 57" by (cases p) auto
  then have dig: "is_digit c" and u: "49 \<le> unat c" "unat c \<le> 57"
    by (auto simp: word_le_nat_alt)
  have "parse_pos p = Some v \<longleftrightarrow> s2ll_loop (unat c - 48) q = Some (v, [])"
    using True p by (auto simp: parse_pos_def split: option.splits list.splits)
  also have "\<dots> \<longleftrightarrow> v < 2 ^ 64 \<and> p = dec_nat v"
    using s2ll_loop_iff [of "unat c - 48" q v] dec_nat_single [OF dig] u p by simp
  also have "\<dots> \<longleftrightarrow> 0 < v \<and> v < 2 ^ 64 \<and> p = dec_nat v"
    using p c by (cases v) (auto simp: dec_nat_0)
  finally show ?thesis .
qed

lemma string2ll_parse_pos:
  "string2ll s =
     (if s = [48] then Some 0
      else if s \<noteq> [] \<and> s ! 0 = 45 then
        (case parse_pos (drop 1 s) of None \<Rightarrow> None
         | Some v \<Rightarrow> if v > 2 ^ 63 then None else Some (- int v))
      else (case parse_pos s of None \<Rightarrow> None
         | Some v \<Rightarrow> if v > 2 ^ 63 - 1 then None else Some (int v)))"
proof (cases "s = [] \<or> s = [48]")
  case True
  then show ?thesis by (auto simp: string2ll_def parse_pos_def)
next
  case False
  then obtain c q where s: "s = c # q" by (cases s) auto
  have n: "\<not> (length s = 1 \<and> s ! 0 = 48)" using False s by auto
  have split: "(case s2ll_loop v p of None \<Rightarrow> None | Some (v, rest) \<Rightarrow>
      if rest \<noteq> [] then None else f v) =
    (case (case s2ll_loop v p of Some (v, []) \<Rightarrow> Some v | _ \<Rightarrow> None) of
       None \<Rightarrow> None | Some v \<Rightarrow> f v)" for v p and f :: "nat \<Rightarrow> int option"
    by (auto split: option.splits list.splits)
  show ?thesis
  proof (cases "c = 45")
    case True
    then show ?thesis using False s n
      by (cases "q = []") (simp_all only: string2ll_def parse_pos_def Let_def split,
          simp_all cong: option.case_cong)
  next
    case c: False
    then show ?thesis using False s n
      by (simp only: string2ll_def parse_pos_def Let_def split)
        (simp cong: option.case_cong)
  qed
qed

lemma decimal_eq_iff_pos: "0 < v \<Longrightarrow> s = decimal v \<longleftrightarrow> s = dec_nat (nat v)"
  by (simp add: decimal_def)

lemma decimal_Nil [simp]: "decimal v \<noteq> []"
  by (simp add: decimal_def)

lemma decimal_hd: "decimal v ! 0 = 45 \<longleftrightarrow> v < 0"
proof -
  have "dec_nat n ! 0 \<noteq> 45" for n
    using hd_dec_nat [of n] by (cases "n = 0") (auto simp: dec_nat_0)
  then show ?thesis by (simp add: decimal_def)
qed

lemma decimal_0: "decimal 0 = [48]" "decimal v = [48] \<longleftrightarrow> v = 0"
proof -
  show *: "decimal 0 = [48]" by (simp add: decimal_def dec_nat_0)
  show "decimal v = [48] \<longleftrightarrow> v = 0"
  proof
    assume d: "decimal v = [48]"
    show "v = 0"
    proof (cases "v < 0")
      case False
      then have "dec_nat (nat v) = dec_nat 0" using d by (simp add: decimal_def dec_nat_0)
      then show ?thesis using False by simp
    qed (use d in \<open>simp add: decimal_def\<close>)
  qed (simp add: *)
qed

lemma string2ll_iff: "string2ll s = Some v \<longleftrightarrow> fits 8 v \<and> s = decimal v"
proof -
  consider (zero) "s = [48]" | (neg) "s \<noteq> [48]" "s \<noteq> []" "s ! 0 = 45"
    | (pos) "s \<noteq> [48]" "s = [] \<or> s ! 0 \<noteq> 45" by blast
  then show ?thesis
  proof cases
    case zero
    then show ?thesis using decimal_0(2) [of v] by (auto simp: string2ll_parse_pos fits_def)
  next
    case neg
    then obtain p where s: "s = 45 # p" by (cases s) auto
    have "string2ll s = Some v \<longleftrightarrow> (\<exists>n. parse_pos p = Some n \<and> n \<le> 2 ^ 63 \<and> v = - int n)"
      using neg s by (auto simp: string2ll_parse_pos split: option.splits)
    also have "\<dots> \<longleftrightarrow> v < 0 \<and> fits 8 v \<and> p = dec_nat (nat (- v))"
      by (auto simp: parse_pos_iff fits_def intro!: exI [of _ "nat (- v)"])
    also have "\<dots> \<longleftrightarrow> fits 8 v \<and> s = decimal v"
    proof -
      have "s = decimal v \<Longrightarrow> v < 0"
        using decimal_hd [of v] s by (metis nth_Cons_0)
      then show ?thesis using s by (auto simp: decimal_def)
    qed
    finally show ?thesis .
  next
    case pos
    have "string2ll s = Some v \<longleftrightarrow> (\<exists>n. parse_pos s = Some n \<and> n \<le> 2 ^ 63 - 1 \<and> v = int n)"
      using pos by (auto simp: string2ll_parse_pos split: option.splits)
    also have "\<dots> \<longleftrightarrow> 0 < v \<and> fits 8 v \<and> s = dec_nat (nat v)"
      by (auto simp: parse_pos_iff fits_def intro!: exI [of _ "nat v"])
    also have "\<dots> \<longleftrightarrow> fits 8 v \<and> s = decimal v"
      using decimal_hd [of v] decimal_0(2) [of v] pos
      by (cases "v = 0") (auto simp: decimal_def)
    finally show ?thesis .
  qed
qed

section \<open>Printing and parsing together\<close>

text \<open>
  C37: \<open>ll2string\<close> writes the canonical decimal representation of every 64-bit integer,
  \<open>LLONG_MIN\<close> included, followed by the terminator, leaves the rest of the buffer alone and
  returns the length; a buffer that has no room for the digits and the terminator is not
  touched and the result is 0. No write leaves the buffer.
\<close>

theorem ll2string_prints:
  assumes "fits 8 v" and "dstlen \<le> length dst"
  shows "ll2string dst dstlen v =
     (if length (decimal v) < dstlen
      then Some (decimal v @ 0 # drop (Suc (length (decimal v))) dst, length (decimal v))
      else Some (dst, 0))"
  using assms by (rule ll2string_eq)

theorem ll2string_prints_witness:
  "ll2string (replicate 6 7) 6 (- 120) = Some (ascii ''-120'' @ [0, 7], 4)"
proof -
  have "decimal (- 120) = ascii ''-120''" by code_simp
  then show ?thesis
    using ll2string_prints [of "- 120" 6 "replicate 6 7"]
    by (simp add: fits_def ascii_def eval_nat_numeral)
qed

text \<open>
  C21: \<open>string2ll\<close> accepts exactly the canonical decimal representations of the 64-bit
  integers, with the represented value: no leading zero, no plus sign, no blank, no
  \<open>-0\<close>, nothing behind the digits, and no value outside the range; everything else is
  refused.
\<close>

theorem string2ll_exact: "string2ll s = Some v \<longleftrightarrow> fits 8 v \<and> s = decimal v"
  by (rule string2ll_iff)

lemma string2ll_decimal [simp]: "fits 8 v \<Longrightarrow> string2ll (decimal v) = Some v"
  by (simp add: string2ll_iff)

lemma decimal_inj: "fits 8 v \<Longrightarrow> fits 8 w \<Longrightarrow> decimal v = decimal w \<Longrightarrow> v = w"
  by (metis option.inject string2ll_decimal)

lemma string2l_exact: "string2l lb s = Some v \<longleftrightarrow> fits 8 v \<and> fits lb v \<and> s = decimal v"
proof -
  have neg: "(v < int_min lb \<or> int_max lb < v) \<longleftrightarrow> \<not> fits lb v" for v
    unfolding fits_def by (simp only: not_less [symmetric] de_Morgan_conj not_not)
  have "string2l lb s = Some v \<longleftrightarrow> string2ll s = Some v \<and> fits lb v"
    unfolding string2l_def neg by (cases "string2ll s") (simp_all only: option.case
      if_not_P if_P option.inject option.distinct simp_thms split: if_split, blast)
  then show ?thesis by (simp only: string2ll_iff conj_ac)
qed

section \<open>Amounts of memory: what the units mean\<close>

definition mem_units :: "(byte list \<times> int) list" where
  "mem_units = [([], 1), (ascii ''b'', 1), (ascii ''k'', 1000), (ascii ''kb'', 2 ^ 10),
                (ascii ''m'', 10 ^ 6), (ascii ''mb'', 2 ^ 20), (ascii ''g'', 10 ^ 9),
                (ascii ''gb'', 2 ^ 30)]"

lemma takeWhile_dec_nat:
  "u = [] \<or> \<not> is_digit (hd u) \<Longrightarrow> takeWhile is_digit (dec_nat n @ u) = dec_nat n"
  using dec_nat_digits [of _ n]
  by (subst takeWhile_append2) (auto simp: takeWhile_eq_Nil_iff)

lemma foldl_uint_dval:
  "(\<And>c. c \<in> set ds \<Longrightarrow> is_digit c) \<Longrightarrow>
   foldl (\<lambda>v c. 10 * v + (uint c - 48)) (int a) ds =
   int (foldl (\<lambda>v c. 10 * v + (unat c - 48)) a ds)"
proof (induction ds arbitrary: a)
  case Nil
  then show ?case by simp
next
  case (Cons c ds)
  then have "48 \<le> unat c" by (simp add: word_le_nat_alt)
  then have "10 * int a + (uint c - 48) = int (10 * a + (unat c - 48))"
    by (simp add: of_nat_diff)
  then show ?case using Cons by (simp del: of_nat_add of_nat_mult)
qed

lemma strtoll10_decimal:
  assumes "fits 8 v" shows "strtoll10 (decimal v) = v"
proof -
  have f: "foldl (\<lambda>v c. 10 * v + (uint c - 48)) 0 (dec_nat n) = int n" for n
    using foldl_uint_dval [of "dec_nat n" 0] dec_nat_digits [of _ n] dval_dec_nat [of n]
    by (simp add: dval_def)
  have t: "takeWhile is_digit (dec_nat n) = dec_nat n" for n
    using takeWhile_dec_nat [of "[]" n] by simp
  show ?thesis
  proof (cases "v < 0")
    case True
    then show ?thesis using assms
      by (simp add: strtoll10_def decimal_def fits_def f t)
  next
    case False
    then have "decimal v ! 0 \<noteq> 45" by (simp add: decimal_hd)
    with False show ?thesis using assms
      by (simp add: strtoll10_def decimal_def fits_def f t)
  qed
qed

lemma strcasecmp_length: "strcasecmp_eq s t \<Longrightarrow> length s = length t"
  unfolding strcasecmp_eq_def by (metis length_map)

lemma unit_not_digit:
  assumes "(u, m) \<in> set mem_units" and "strcasecmp_eq u' u"
  shows "length u' \<le> 2 \<and> (u' = [] \<or> \<not> is_digit (hd u'))"
proof -
  have u: "length u \<le> 2 \<and> (u = [] \<or> 97 \<le> tolower (uint (hd u)))"
    using assms(1) by (auto simp: mem_units_def ascii_def tolower_def)
  have l: "length u' = length u" using assms(2) by (rule strcasecmp_length)
  show ?thesis
  proof (cases u')
    case Nil
    then show ?thesis by simp
  next
    case (Cons c r)
    then obtain d r' where d: "u = d # r'" using l by (cases u) auto
    have "tolower (uint c) = tolower (uint d)"
      using assms(2) Cons d by (simp add: strcasecmp_eq_def)
    then have "\<not> uint c \<le> 57" using u d by (auto simp: tolower_def split: if_splits)
    then have "\<not> is_digit c" by (simp add: word_le_def)
    then show ?thesis using Cons u l by simp
  qed
qed

lemma take_drop_decimal:
  assumes "u = [] \<or> \<not> is_digit (hd u)"
  shows "(if decimal v @ u \<noteq> [] \<and> (decimal v @ u) ! 0 = 45 then 1 else 0) +
    length (takeWhile is_digit (drop (if decimal v @ u \<noteq> [] \<and> (decimal v @ u) ! 0 = 45 then 1 else 0)
      (decimal v @ u))) = length (decimal v)"
proof (cases "v < 0")
  case True
  then show ?thesis using takeWhile_dec_nat [OF assms(1)] by (simp add: decimal_def)
next
  case False
  then have "(decimal v @ u) ! 0 \<noteq> 45"
    using decimal_hd [of v] by (simp add: nth_append)
  with False show ?thesis using takeWhile_dec_nat [OF assms(1)] by (simp add: decimal_def)
qed

lemma mem_unit_cong: "strcasecmp_eq u' u \<Longrightarrow> mem_unit u' = mem_unit u"
proof -
  assume a: "strcasecmp_eq u' u"
  then have "strcasecmp_eq u' t = strcasecmp_eq u t" for t by (simp add: strcasecmp_eq_def)
  moreover have "u' = [] \<longleftrightarrow> u = []" using strcasecmp_length [OF a] by auto
  ultimately show ?thesis by (simp only: mem_unit_def)
qed

text \<open>
  An amount with one of the eight units, in any mixture of upper and lower case, is
  read as the number times the unit, without an error, whenever the product is a \<open>long
  long\<close>; otherwise the multiplication overflows.
\<close>

theorem memtoll_units:
  assumes "fits 8 v" and "(u, m) \<in> set mem_units" and "strcasecmp_eq u' u"
  shows "memtoll (decimal v @ u') = (if fits 8 (v * m) then Some (v * m) else None, False)"
proof -
  let ?n = "length (decimal v)"
  have n: "u' = [] \<or> \<not> is_digit (hd u')"
    using unit_not_digit [OF assms(2,3)] by simp
  have small: "?n mod 2 ^ 32 = ?n" "?n < 128"
    using length_decimal_le [OF assms(1)] by auto
  have "\<forall>(u, m) \<in> set mem_units. mem_unit u = (m, False)" by code_simp
  then have "mem_unit u = (m, False)" using assms(2) by blast
  then have "mem_unit u' = (m, False)" using mem_unit_cong [OF assms(3)] by simp
  then show ?thesis
    unfolding memtoll_def Let_def take_drop_decimal [OF n] small(1)
    using small(2) by (simp add: strtoll10_decimal [OF assms(1)])
qed

theorem memtoll_units_witness:
  "memtoll (ascii ''-3Gb'') = (Some (- 3221225472), False)"
proof -
  have u: "decimal (- 3) @ ascii ''Gb'' = ascii ''-3Gb''"
    by (simp add: decimal_def dec_nat.simps [of 3] ascii_def)
  have "(ascii ''gb'', 2 ^ 30) \<in> set mem_units" by (simp add: mem_units_def)
  moreover have "strcasecmp_eq (ascii ''Gb'') (ascii ''gb'')" by code_simp
  ultimately show ?thesis
    using memtoll_units [of "- 3" "ascii ''gb''" "2 ^ 30" "ascii ''Gb''"]
    unfolding u by (simp add: fits_def)
qed

text \<open>\<open>1Gi\<close>, the example of the comment, is not among the units: the code reports an error.\<close>

lemma memtoll_Gi_rejected: "memtoll (ascii ''1Gi'') = (Some 1, True)"
  by (simp add: memtoll_def mem_unit_def strcasecmp_eq_def strtoll10_def ascii_def
      tolower_def fits_def Let_def)

end
