(* ===== verification/Glob.thy ===== *)
theory Glob
  imports Util
begin

text \<open>
  \<open>stringmatchlen\<close> of \<open>util.c\<close>: the matcher of glob-style patterns. The pattern and the
  string are given as the memory that may be read from the pointer on (terminator
  included) and the length the code counts down, which may become negative; a read behind
  the memory is \<open>None\<close>.

  The specification parses the pattern into tokens (\<open>parse_glob\<close>) and gives them their
  meaning (\<open>glob\<close>). The matcher agrees with it on every non-empty string.
\<close>

section \<open>The matcher\<close>

text \<open>\<open>char\<close> is signed.\<close>

abbreviation ceq :: "bool \<Rightarrow> byte \<Rightarrow> byte \<Rightarrow> bool" where
  "ceq nocase c d \<equiv> (if nocase then tolower (sint c) = tolower (sint d) else c = d)"

definition in_range :: "bool \<Rightarrow> byte \<Rightarrow> byte \<Rightarrow> byte \<Rightarrow> bool" where
  "in_range nocase a b ch =
     (let start = sint a; end' = sint b; c = sint ch;
          (start, end') = (if start > end' then (end', start) else (start, end'));
          (start, end', c) =
            (if nocase then (tolower start, tolower end', tolower c) else (start, end', c))
      in start \<le> c \<and> c \<le> end')"

text \<open>
  The loop of a bracketed class. The result holds the match flag and the pattern behind
  the class, where the code is after the step that ends the outer loop's body.
\<close>

fun class_loop ::
    "bool \<Rightarrow> byte list \<Rightarrow> int \<Rightarrow> byte list \<Rightarrow> bool \<Rightarrow> (bool \<times> byte list \<times> int) option" where
  "class_loop nocase pat plen str match =
     (case pat of [] \<Rightarrow> None | c # p \<Rightarrow>
        if c = 92 then
          (case p of [] \<Rightarrow> None | d # p' \<Rightarrow>
             (case str of [] \<Rightarrow> None | s # _ \<Rightarrow>
                class_loop nocase p' (plen - 2) str (match \<or> d = s)))
        else if c = 93 then Some (match, p, plen - 1)
        else if plen = 0 then Some (match, pat, plen)
        else
          (case p of [] \<Rightarrow> None | d # p' \<Rightarrow>
             (case str of [] \<Rightarrow> None | s # _ \<Rightarrow>
                if d = 45 \<and> plen \<ge> 3 then
                  (case p' of [] \<Rightarrow> None | e # p'' \<Rightarrow>
                     class_loop nocase p'' (plen - 3) str (match \<or> in_range nocase c e s))
                else class_loop nocase p (plen - 1) str (match \<or> ceq nocase c s))))"

declare class_loop.simps [simp del]

text \<open>\<open>while (pattern[1] == '*')\<close>, from the bytes behind the first star.\<close>

fun skip_stars :: "byte list \<Rightarrow> int \<Rightarrow> (byte list \<times> int) option" where
  "skip_stars [] plen = None"
| "skip_stars (c # p) plen = (if c = 42 then skip_stars p (plen - 1) else Some (c # p, plen))"

text \<open>The test when the string is used up: only stars may follow.\<close>

definition at_end :: "byte list \<Rightarrow> int \<Rightarrow> bool option" where
  "at_end p plen = do { (_, plen) \<leftarrow> skip_stars p plen; Some (plen = 0) }"

lemma class_loop_length:
  "class_loop nocase pat plen str m = Some (b, p, l) \<Longrightarrow> length p \<le> length pat"
proof (induction nocase pat plen str m rule: class_loop.induct)
  case (1 nocase pat plen str m)
  show ?case
    using 1(4) 1(1-3)
    by (subst (asm) class_loop.simps) (fastforce split: list.splits if_splits)
qed

lemma skip_stars_length:
  "skip_stars pat plen = Some (p, l) \<Longrightarrow> length p \<le> length pat"
  by (induction pat plen rule: skip_stars.induct) (auto split: if_splits)

text \<open>
  One round of the outer loop, and the inner loop of a star, which tries the rest of the
  pattern on every suffix.
\<close>

function stringmatchlen :: "bool \<Rightarrow> byte list \<Rightarrow> int \<Rightarrow> byte list \<Rightarrow> int \<Rightarrow> bool option"
  and star_loop :: "bool \<Rightarrow> byte list \<Rightarrow> int \<Rightarrow> byte list \<Rightarrow> int \<Rightarrow> bool option" where
  "stringmatchlen nocase pat plen str slen =
     (if plen = 0 then Some (slen = 0)
      else case pat of [] \<Rightarrow> None | c # p \<Rightarrow>
        if c = 42 then
          (case skip_stars p plen of None \<Rightarrow> None | Some (p', plen') \<Rightarrow>
             if plen' = 1 then Some True else star_loop nocase p' (plen' - 1) str slen)
        else if c = 63 then
          (if slen = 0 then Some False
           else if slen - 1 = 0 then at_end p (plen - 1)
           else stringmatchlen nocase p (plen - 1) (drop 1 str) (slen - 1))
        else if c = 91 then
          (case p of [] \<Rightarrow> None | d # p1 \<Rightarrow>
             let negated = d = 94
             in case class_loop nocase (if negated then p1 else p)
                       (if negated then plen - 2 else plen - 1) str False of
                  None \<Rightarrow> None
                | Some (match, p', plen') \<Rightarrow>
                    if match = negated then Some False
                    else if slen - 1 = 0 then at_end p' plen'
                    else stringmatchlen nocase p' plen' (drop 1 str) (slen - 1))
        else
          (case (if c = 92 \<and> plen \<ge> 2
                 then (case p of [] \<Rightarrow> None | d # p' \<Rightarrow> Some (d, p', plen - 1))
                 else Some (c, p, plen)) of
             None \<Rightarrow> None
           | Some (d, p', plen') \<Rightarrow>
               (case str of [] \<Rightarrow> None | s # _ \<Rightarrow>
                  if \<not> ceq nocase d s then Some False
                  else if slen - 1 = 0 then at_end p' (plen' - 1)
                  else stringmatchlen nocase p' (plen' - 1) (drop 1 str) (slen - 1))))"
| "star_loop nocase p plen str slen =
     (if slen = 0 then Some False
      else case stringmatchlen nocase p plen str slen of
        None \<Rightarrow> None
      | Some b \<Rightarrow> if b then Some True
                 else (case str of [] \<Rightarrow> None | _ # s \<Rightarrow> star_loop nocase p plen s (slen - 1)))"
  by pat_completeness auto

termination
  by (relation "measures [\<lambda>x. (case x of Inl (_, pat, _) \<Rightarrow> length pat | Inr (_, pat, _) \<Rightarrow> length pat),
      \<lambda>x. (case x of Inl (_, _, _, str, _) \<Rightarrow> length str | Inr (_, _, _, str, _) \<Rightarrow> length str),
      \<lambda>x. (case x of Inl _ \<Rightarrow> 0 | Inr _ \<Rightarrow> 1)]")
    (auto dest!: class_loop_length skip_stars_length split: if_splits list.splits)

declare stringmatchlen.simps [simp del] star_loop.simps [simp del]

definition stringmatch :: "byte list \<Rightarrow> byte list \<Rightarrow> bool \<Rightarrow> bool option" where
  "stringmatch pattern string nocase =
     stringmatchlen nocase pattern (int (length (takeWhile (\<lambda>c. c \<noteq> 0) pattern)))
       string (int (length (takeWhile (\<lambda>c. c \<noteq> 0) string)))"

section \<open>Specification\<close>

datatype citem = CEsc byte | CChar byte | CRange byte byte

datatype gtok = GStar | GAny | GClass bool "citem list" | GLit byte

text \<open>
  The members of a class and the pattern behind it. A class that is not closed extends to
  the end of the pattern; a backslash that ends the pattern inside a class has no meaning.
\<close>

fun parse_class :: "byte list \<Rightarrow> (citem list \<times> byte list) option" where
  "parse_class p =
     (case p of [] \<Rightarrow> Some ([], [])
      | c # p1 \<Rightarrow>
          if c = 92 then
            (case p1 of [] \<Rightarrow> None
             | d # p2 \<Rightarrow> map_option (apfst ((#) (CEsc d))) (parse_class p2))
          else if c = 93 then Some ([], p1)
          else if 2 \<le> length p1 \<and> p1 ! 0 = 45 then
            map_option (apfst ((#) (CRange c (p1 ! 1)))) (parse_class (drop 2 p1))
          else map_option (apfst ((#) (CChar c))) (parse_class p1))"

declare parse_class.simps [simp del]

lemma parse_class_length:
  "parse_class p = Some (is, r) \<Longrightarrow> length r \<le> length p"
proof (induction p arbitrary: "is" r rule: parse_class.induct)
  case (1 p)
  show ?case
    using 1(4) [unfolded parse_class.simps [of p]] 1(1-3)
    by (fastforce split: list.splits if_splits)
qed

function parse_glob :: "byte list \<Rightarrow> gtok list option" where
  "parse_glob p =
     (case p of [] \<Rightarrow> Some []
      | c # r \<Rightarrow>
          if c = 42 then map_option ((#) GStar) (parse_glob r)
          else if c = 63 then map_option ((#) GAny) (parse_glob r)
          else if c = 91 then
            (let negated = (r \<noteq> [] \<and> hd r = 94)
             in case parse_class (if negated then tl r else r) of
                  None \<Rightarrow> None
                | Some (is, r') \<Rightarrow> map_option ((#) (GClass negated is)) (parse_glob r'))
          else if c = 92 \<and> r \<noteq> [] then map_option ((#) (GLit (hd r))) (parse_glob (tl r))
          else map_option ((#) (GLit c)) (parse_glob r))"
  by pat_completeness auto

termination
  by (relation "measure length")
    (auto dest!: parse_class_length split: if_splits simp: Let_def)

declare parse_glob.simps [simp del]

fun in_item :: "bool \<Rightarrow> byte \<Rightarrow> citem \<Rightarrow> bool" where
  "in_item nocase c (CEsc d) \<longleftrightarrow> d = c"
| "in_item nocase c (CChar d) \<longleftrightarrow> ceq nocase d c"
| "in_item nocase c (CRange a b) \<longleftrightarrow> in_range nocase a b c"

fun glob :: "bool \<Rightarrow> gtok list \<Rightarrow> byte list \<Rightarrow> bool" where
  "glob nocase [] s \<longleftrightarrow> s = []"
| "glob nocase (GStar # ts) [] \<longleftrightarrow> glob nocase ts []"
| "glob nocase (GStar # ts) (c # s) \<longleftrightarrow> glob nocase ts (c # s) \<or> glob nocase (GStar # ts) s"
| "glob nocase (_ # ts) [] \<longleftrightarrow> False"
| "glob nocase (GAny # ts) (c # s) \<longleftrightarrow> glob nocase ts s"
| "glob nocase (GLit d # ts) (c # s) \<longleftrightarrow> ceq nocase d c \<and> glob nocase ts s"
| "glob nocase (GClass negated is # ts) (c # s) \<longleftrightarrow>
     list_ex (in_item nocase c) is \<noteq> negated \<and> glob nocase ts s"

lemma glob_nil_iff: "glob nocase ts [] \<longleftrightarrow> (\<forall>t \<in> set ts. t = GStar)"
proof (induction ts)
  case Nil
  then show ?case by simp
next
  case (Cons t ts)
  then show ?case by (cases t) auto
qed

lemma glob_star_star: "glob nocase (GStar # GStar # ts) s \<longleftrightarrow> glob nocase (GStar # ts) s"
proof (induction s)
  case Nil
  then show ?case by simp
next
  case (Cons c s)
  then show ?case by auto
qed

section \<open>The matcher meets the specification\<close>

lemma class_loop_parse:
  "parse_class p = Some (is, r) \<Longrightarrow>
   class_loop nocase (p @ 0 # px) (int (length p)) (s # sx) m =
     Some (m \<or> list_ex (in_item nocase s) is, r @ 0 # px, int (length r))"
proof (induction p arbitrary: "is" m rule: parse_class.induct)
  case (1 p)
  show ?case
  proof (cases p)
    case Nil
    then show ?thesis using 1(4) [unfolded parse_class.simps [of p]]
      by (simp add: class_loop.simps [of _ "0 # px"])
  next
    case (Cons c p1)
    note pc = 1(4) [unfolded parse_class.simps [of p]]
    consider (esc) "c = 92" | (close) "c = 93"
      | (range) "c \<noteq> 92" "c \<noteq> 93" "2 \<le> length p1 \<and> p1 ! 0 = 45"
      | (char) "c \<noteq> 92" "c \<noteq> 93" "\<not> (2 \<le> length p1 \<and> p1 ! 0 = 45)" by blast
    then show ?thesis
    proof cases
      case esc
      with pc Cons obtain d p2 is' where p: "p1 = d # p2" "parse_class p2 = Some (is', r)"
        "is = CEsc d # is'" by (auto split: list.splits)
      have "class_loop nocase (p2 @ 0 # px) (int (length p2)) (s # sx) (m \<or> d = s) =
          Some ((m \<or> d = s) \<or> list_ex (in_item nocase s) is', r @ 0 # px, int (length r))"
        using 1(1) [OF Cons esc p(1)] p(2) by blast
      then show ?thesis using esc Cons p by (subst class_loop.simps) simp
    next
      case close
      then show ?thesis using pc Cons by (subst class_loop.simps) simp
    next
      case range
      then obtain e p3 where p1: "p1 = 45 # e # p3"
        by (cases p1; cases "tl p1") auto
      with pc Cons range obtain is' where p: "parse_class p3 = Some (is', r)"
        "is = CRange c e # is'" by auto
      have "class_loop nocase (p3 @ 0 # px) (int (length p3)) (s # sx) (m \<or> in_range nocase c e s) =
          Some ((m \<or> in_range nocase c e s) \<or> list_ex (in_item nocase s) is', r @ 0 # px, int (length r))"
        using 1(2) [OF Cons range(1,2,3)] p(1) p1 by simp
      then show ?thesis using range Cons p p1 by (subst class_loop.simps) simp
    next
      case char
      with pc Cons obtain is' where p: "parse_class p1 = Some (is', r)" "is = CChar c # is'"
        by auto
      have "class_loop nocase (p1 @ 0 # px) (int (length p1)) (s # sx) (m \<or> ceq nocase c s) =
          Some ((m \<or> ceq nocase c s) \<or> list_ex (in_item nocase s) is', r @ 0 # px, int (length r))"
        using 1(3) [OF Cons char(1,2,3)] p(1) by blast
      then show ?thesis using char Cons p
        by (subst class_loop.simps) (cases p1, auto)
    qed
  qed
qed

lemma skip_stars_parse:
  "skip_stars (p @ 0 # px) (k + int (length p)) =
     Some (dropWhile (\<lambda>c. c = 42) p @ 0 # px, k + int (length (dropWhile (\<lambda>c. c = 42) p)))"
proof (induction p arbitrary: k)
  case Nil
  then show ?case by simp
next
  case (Cons c p)
  from Cons [of k] show ?case by (simp add: algebra_simps)
qed

lemma parse_glob_stars:
  "parse_glob p = Some ts \<Longrightarrow>
   parse_glob (dropWhile (\<lambda>c. c = 42) p) = Some (dropWhile (\<lambda>t. t = GStar) ts) \<and>
   (\<forall>s. glob nocase (GStar # ts) s = glob nocase (GStar # dropWhile (\<lambda>t. t = GStar) ts) s)"
proof (induction p arbitrary: ts)
  case Nil
  then show ?case by (simp add: parse_glob.simps [of "[]"])
next
  case (Cons c p)
  show ?case
  proof (cases "c = 42")
    case True
    with Cons.prems [unfolded parse_glob.simps [of "c # p"]]
    obtain ts' where "parse_glob p = Some ts'" "ts = GStar # ts'" by auto
    with Cons.IH [of ts'] True show ?thesis by (simp add: glob_star_star)
  next
    case False
    with Cons.prems [unfolded parse_glob.simps [of "c # p"]]
    obtain t ts' where "ts = t # ts'" "t \<noteq> GStar"
      by (auto simp: Let_def split: if_splits option.splits)
    with False Cons.prems show ?thesis by simp
  qed
qed

lemma parse_glob_Nil_iff: "parse_glob p = Some [] \<longleftrightarrow> p = []"
  by (subst parse_glob.simps) (auto simp: Let_def split: option.splits list.splits)

lemma glob_nil_dropWhile:
  "parse_glob p = Some ts \<Longrightarrow> glob nocase ts [] \<longleftrightarrow> dropWhile (\<lambda>c. c = 42) p = []"
proof -
  assume p: "parse_glob p = Some ts"
  have "glob nocase ts [] \<longleftrightarrow> dropWhile (\<lambda>t. t = GStar) ts = []"
    unfolding glob_nil_iff dropWhile_eq_Nil_conv ..
  also have "\<dots> \<longleftrightarrow> dropWhile (\<lambda>c. c = 42) p = []"
    using parse_glob_stars [OF p] parse_glob_Nil_iff [of "dropWhile (\<lambda>c. c = 42) p"] by auto
  finally show ?thesis .
qed

lemma at_end_parse:
  "parse_glob p = Some ts \<Longrightarrow> at_end (p @ 0 # px) (int (length p)) = Some (glob nocase ts [])"
  using skip_stars_parse [of p px 0] by (simp add: at_end_def glob_nil_dropWhile)

lemma glob_star_nil: "glob nocase [GStar] s"
  by (induction s) auto

lemma star_loop_glob:
  assumes IH: "\<And>s. s \<noteq> [] \<Longrightarrow>
      stringmatchlen nocase (p @ 0 # px) (int (length p)) (s @ 0 # sx) (int (length s)) =
        Some (glob nocase ts s)"
    and nil: "\<not> glob nocase ts []"
  shows "star_loop nocase (p @ 0 # px) (int (length p)) (s @ 0 # sx) (int (length s)) =
    Some (glob nocase (GStar # ts) s)"
proof (induction s)
  case Nil
  then show ?case using nil by (simp add: star_loop.simps)
next
  case (Cons c s)
  have "stringmatchlen nocase (p @ 0 # px) (int (length p)) ((c # s) @ 0 # sx) (int (length (c # s))) =
      Some (glob nocase ts (c # s))" by (rule IH) simp
  with Cons show ?case by (subst star_loop.simps) simp
qed

lemma stringmatchlen_glob:
  "parse_glob p = Some ts \<Longrightarrow> s \<noteq> [] \<Longrightarrow>
   stringmatchlen nocase (p @ 0 # px) (int (length p)) (s @ 0 # sx) (int (length s)) =
     Some (glob nocase ts s)"
proof (induction "length p" arbitrary: p ts s rule: less_induct)
  case less
  obtain ch s' where s: "s = ch # s'" using less.prems(2) by (cases s) auto
  show ?case
  proof (cases p)
    case Nil
    with less.prems show ?thesis
      by (auto simp: parse_glob.simps [of "[]"] stringmatchlen.simps)
  next
    case (Cons c r)
    note pg = less.prems(1) [unfolded parse_glob.simps [of p]]
    have nxt: "s' = [] \<Longrightarrow> at_end (q @ 0 # px) (int (length q)) = Some (glob nocase ts' s')"
      "s' \<noteq> [] \<Longrightarrow> stringmatchlen nocase (q @ 0 # px) (int (length q)) (s' @ 0 # sx)
                    (int (length s')) = Some (glob nocase ts' s')"
      if "parse_glob q = Some ts'" "length q < length p" for q ts'
      using that less.hyps by (simp_all add: at_end_parse)
    consider (star) "c = 42" | (any) "c = 63" | (cls) "c = 91"
      | (esc) "c = 92" "r \<noteq> []"
      | (lit) "c \<noteq> 42" "c \<noteq> 63" "c \<noteq> 91" "\<not> (c = 92 \<and> r \<noteq> [])" by blast
    then show ?thesis
    proof cases
      case star
      with pg Cons obtain ts0 where r: "parse_glob r = Some ts0" "ts = GStar # ts0" by auto
      let ?p = "dropWhile (\<lambda>c. c = 42) r" and ?ts = "dropWhile (\<lambda>t. t = GStar) ts0"
      have pr: "parse_glob ?p = Some ?ts" "glob nocase ts s = glob nocase (GStar # ?ts) s"
        using parse_glob_stars [OF r(1)] r(2) by auto
      have sk: "skip_stars (r @ 0 # px) (1 + int (length r)) = Some (?p @ 0 # px, 1 + int (length ?p))"
        using skip_stars_parse [of r px 1] by simp
      show ?thesis
      proof (cases "?p = []")
        case True
        then have "?ts = []" using pr(1) unfolding True by (simp add: parse_glob.simps [of "[]"])
        then have "glob nocase ts s" using pr(2) glob_star_nil by metis
        then show ?thesis using star Cons sk True by (subst stringmatchlen.simps) simp
      next
        case False
        then have "\<not> glob nocase ?ts []"
          using glob_nil_dropWhile [OF pr(1)]
          by (metis dropWhile_eq_Nil_conv hd_dropWhile hd_in_set)
        moreover have "length ?p < length p"
          using Cons length_dropWhile_le [of "\<lambda>c. c = 42" r] by simp
        ultimately have "star_loop nocase (?p @ 0 # px) (int (length ?p)) (s @ 0 # sx) (int (length s)) =
            Some (glob nocase (GStar # ?ts) s)"
          using less.hyps pr(1) by (intro star_loop_glob) auto
        then show ?thesis using star Cons sk False pr(2) by (subst stringmatchlen.simps) auto
      qed
    next
      case any
      with pg Cons obtain ts0 where r: "parse_glob r = Some ts0" "ts = GAny # ts0" by auto
      show ?thesis using nxt [OF r(1)] any Cons r(2) s
        by (subst stringmatchlen.simps) simp
    next
      case cls
      define negated where "negated = (r \<noteq> [] \<and> hd r = 94)"
      define q where "q = (if negated then tl r else r)"
      from cls pg Cons obtain "is" r' ts0 where
        pc: "parse_class q = Some (is, r')" and r': "parse_glob r' = Some ts0"
        and ts: "ts = GClass negated is # ts0"
        by (auto simp: Let_def negated_def q_def split: option.splits)
      have lt: "length r' < length p"
        using parse_class_length [OF pc] Cons by (simp add: q_def split: if_splits)
      obtain d p1 where dp: "r @ 0 # px = d # p1" by (cases r) auto
      have neg: "d = 94 \<longleftrightarrow> negated" using dp by (cases r) (auto simp: negated_def)
      have rest: "(if d = 94 then p1 else d # p1) = q @ 0 # px"
        "(if d = 94 then int (length p) - 2 else int (length p) - 1) = int (length q)"
        using dp Cons unfolding q_def negated_def by (cases r; auto)+
      have cl: "class_loop nocase (q @ 0 # px) (int (length q)) (ch # s' @ 0 # sx) False =
          Some (list_ex (in_item nocase ch) is, r' @ 0 # px, int (length r'))"
        using class_loop_parse [OF pc, of nocase px ch "s' @ 0 # sx" False] by simp
      let ?next = "\<lambda>m r' l. if m = (d = 94) then Some False
        else if int (length s) - 1 = 0 then at_end r' l
        else stringmatchlen nocase r' l (drop 1 (s @ 0 # sx)) (int (length s) - 1)"
      have "stringmatchlen nocase (p @ 0 # px) (int (length p)) (s @ 0 # sx) (int (length s)) =
          (case class_loop nocase (if d = 94 then p1 else d # p1)
              (if d = 94 then int (length p) - 2 else int (length p) - 1) (s @ 0 # sx) False of
             None \<Rightarrow> None | Some (m, r', l) \<Rightarrow> ?next m r' l)"
        by (subst stringmatchlen.simps)
          (simp only: cls Cons append_Cons list.case dp Let_def list.size, simp)
      also have "\<dots> = ?next (list_ex (in_item nocase ch) is) (r' @ 0 # px) (int (length r'))"
        by (simp only: rest s append_Cons cl option.case prod.case)
      also have "\<dots> = Some (glob nocase ts s)"
        using nxt [OF r' lt] by (simp add: s ts neg)
      finally show ?thesis .
    next
      case esc
      with pg Cons obtain d q ts0 where r: "r = d # q" "parse_glob q = Some ts0" "ts = GLit d # ts0"
        by (cases r) auto
      show ?thesis using nxt [OF r(2)] esc Cons r s
        by (subst stringmatchlen.simps) auto
    next
      case lit
      with pg Cons obtain ts0 where r: "parse_glob r = Some ts0" "ts = GLit c # ts0" by auto
      have nb: "(c = 92 \<and> 2 \<le> int (length (c # r))) = False" using lit(4) by (cases r) auto
      have nc: "(c = 42) = False" "(c = 63) = False" "(c = 91) = False" "(int (length (c # r)) = 0) = False"
        using lit by auto
      have "stringmatchlen nocase (p @ 0 # px) (int (length p)) (s @ 0 # sx) (int (length s)) =
          (if \<not> ceq nocase c ch then Some False
           else if int (length s) - 1 = 0 then at_end (r @ 0 # px) (int (length p) - 1)
           else stringmatchlen nocase (r @ 0 # px) (int (length p) - 1) (drop 1 (s @ 0 # sx))
                  (int (length s) - 1))"
        by (subst stringmatchlen.simps)
          (simp only: Cons s append_Cons list.case nc nb if_False option.case prod.case)
      also have "\<dots> = Some (glob nocase ts s)"
        using nxt [OF r(1)] Cons by (simp only: s r(2)) (cases nocase; cases "s' = []"; simp)
      finally show ?thesis .
    qed
  qed
qed

text \<open>
  C24: On every non-empty string and every pattern that has a meaning, \<open>stringmatchlen\<close>
  returns, reads no byte outside the two strings and their terminators, and its answer is
  the meaning of the pattern: stars, question marks, classes with ranges, negation and
  escapes, escaped and literal characters, with and without regard to case.
\<close>

theorem stringmatchlen_correct:
  assumes "parse_glob p = Some ts" and "s \<noteq> []"
  shows "stringmatchlen nocase (p @ 0 # px) (int (length p)) (s @ 0 # sx) (int (length s)) =
    Some (glob nocase ts s)"
  using assms by (rule stringmatchlen_glob)

theorem stringmatchlen_correct_witness:
  "stringmatchlen True (ascii ''h[^a-c]*'' @ 92 # ascii ''?x'' @ [0]) 11 (ascii ''HEl?x'' @ [0]) 5 = Some True"
proof -
  have "parse_glob (ascii ''h[^a-c]*'' @ 92 # ascii ''?x'') =
      Some [GLit 104, GClass True [CRange 97 99], GStar, GLit 63, GLit 120]"
    by (simp add: ascii_def parse_glob.simps parse_class.simps)
  from stringmatchlen_correct [OF this, of "ascii ''HEl?x''" True "[]" "[]"]
  show ?thesis by (simp add: ascii_def tolower_def in_range_def Let_def)
qed

text \<open>
  The two places where the code leaves the specification. A class that ends in a backslash
  makes the loop step over the terminator and read on; and on the empty string a negated
  class is compared with the terminator, so the length becomes negative and \<open>[^a]*\<close> matches
  the empty string.
\<close>

lemma class_backslash_overruns:
  "stringmatchlen False [91, 92, 0] 2 (ascii ''x'' @ [0]) 1 = None"
  by (simp add: ascii_def stringmatchlen.simps class_loop.simps)

lemma negated_class_matches_empty:
  "stringmatchlen False (ascii ''[^a]*'' @ [0]) 5 [0] 0 = Some True"
  "\<exists>ts. parse_glob (ascii ''[^a]*'') = Some ts \<and> \<not> glob False ts []"
  by (simp_all add: ascii_def stringmatchlen.simps class_loop.simps parse_glob.simps
      parse_class.simps)

end
