(* ===== verification/Sds.thy ===== *)
theory Sds
  imports Util
begin

text \<open>
  \<open>sds.c\<close>: the dynamic strings, as the header (\<open>len\<close>, \<open>free\<close>, both \<open>unsigned int\<close>) and
  the buffer behind it. The pointer handed out is the start of the buffer, so an operation
  that reallocates returns the new record. \<open>zmalloc\<close> aborts the process when memory is
  exhausted, so the tests for \<open>NULL\<close> behind it never fire. Bytes a reallocation adds are
  taken from \<open>junk\<close>. \<open>None\<close> is a failed \<open>assert\<close> or an access outside the buffer.

  The abstraction is \<open>sds_rep s xs\<close>: the string \<open>s\<close> holds the bytes \<open>xs\<close>, is terminated, and
  its header accounts for the whole buffer.
\<close>

section \<open>Data\<close>

record sdshdr =
  slen :: nat
  sfree :: nat
  sbuf :: "byte list"

definition SDS_MAX_PREALLOC :: nat where
  "SDS_MAX_PREALLOC = 1024 * 1024"

definition strlen :: "byte list \<Rightarrow> nat option" where
  "strlen bs = (if 0 \<in> set bs then Some (length (takeWhile (\<lambda>b. b \<noteq> 0) bs)) else None)"

section \<open>Operations\<close>

definition sdsnewlen :: "(nat \<Rightarrow> byte) \<Rightarrow> byte list option \<Rightarrow> nat \<Rightarrow> sdshdr option" where
  "sdsnewlen junk init initlen = do {
     let b = (case init of Some _ \<Rightarrow> map junk [0..<initlen + 1] | None \<Rightarrow> replicate (initlen + 1) 0);
     b \<leftarrow> (case init of
             Some bs \<Rightarrow> if initlen \<noteq> 0
                        then do { src \<leftarrow> mem_read 0 initlen bs; mem_write 0 src b } else Some b
           | None \<Rightarrow> Some b);
     b \<leftarrow> mem_write initlen [0] b;
     Some \<lparr>slen = u32_of initlen, sfree = 0, sbuf = b\<rparr> }"

definition sdsempty :: "(nat \<Rightarrow> byte) \<Rightarrow> sdshdr option" where
  "sdsempty junk = sdsnewlen junk (Some []) 0"

text \<open>The argument of \<open>sdsnew\<close>: \<open>NULL\<close> or the bytes of a C string with its terminator.\<close>

definition sdsnew :: "(nat \<Rightarrow> byte) \<Rightarrow> byte list option \<Rightarrow> sdshdr option" where
  "sdsnew junk init =
     (case init of
        None \<Rightarrow> sdsnewlen junk None 0
      | Some bs \<Rightarrow> do { n \<leftarrow> strlen bs; sdsnewlen junk (Some bs) n })"

definition sdsdup :: "(nat \<Rightarrow> byte) \<Rightarrow> sdshdr \<Rightarrow> sdshdr option" where
  "sdsdup junk s = sdsnewlen junk (Some (sbuf s)) (slen s)"

definition sdsupdatelen :: "sdshdr \<Rightarrow> sdshdr option" where
  "sdsupdatelen s = do {
     reallen \<leftarrow> strlen (sbuf s);
     Some (s\<lparr>sfree := nat ((int (sfree s) + (int (slen s) - s32 (int reallen))) mod 2 ^ 32),
             slen := nat (s32 (int reallen) mod 2 ^ 32)\<rparr>) }"

definition sdsclear :: "sdshdr \<Rightarrow> sdshdr option" where
  "sdsclear s = do {
     b \<leftarrow> mem_write 0 [0] (sbuf s);
     Some (s\<lparr>sfree := u32_of (sfree s + slen s), slen := 0, sbuf := b\<rparr>) }"

definition sdsMakeRoomFor :: "(nat \<Rightarrow> byte) \<Rightarrow> nat \<Rightarrow> sdshdr \<Rightarrow> sdshdr" where
  "sdsMakeRoomFor junk addlen s =
     (if addlen \<le> sfree s then s
      else let newlen = slen s + addlen;
               newlen = (if newlen < SDS_MAX_PREALLOC then newlen * 2
                         else newlen + SDS_MAX_PREALLOC)
           in s\<lparr>sfree := u32_of (newlen - slen s),
                sbuf := mem_realloc junk (newlen + 1) (sbuf s)\<rparr>)"

definition sdsRemoveFreeSpace :: "(nat \<Rightarrow> byte) \<Rightarrow> sdshdr \<Rightarrow> sdshdr" where
  "sdsRemoveFreeSpace junk s = s\<lparr>sbuf := mem_realloc junk (slen s + 1) (sbuf s), sfree := 0\<rparr>"

text \<open>\<open>sizeof(struct sdshdr)\<close> is 8.\<close>

definition sdsAllocSize :: "sdshdr \<Rightarrow> nat" where
  "sdsAllocSize s = 8 + slen s + sfree s + 1"

definition sdsIncrLen :: "int \<Rightarrow> sdshdr \<Rightarrow> sdshdr option" where
  "sdsIncrLen incr s =
     (if (if incr \<ge> 0 then int (sfree s) \<ge> incr else int (slen s) \<ge> - incr) then do {
        let n = nat ((int (slen s) + incr) mod 2 ^ 32);
        b \<leftarrow> mem_write n [0] (sbuf s);
        Some (s\<lparr>slen := n, sfree := nat ((int (sfree s) - incr) mod 2 ^ 32), sbuf := b\<rparr>) }
      else None)"

definition sdsgrowzero :: "(nat \<Rightarrow> byte) \<Rightarrow> nat \<Rightarrow> sdshdr \<Rightarrow> sdshdr option" where
  "sdsgrowzero junk n s =
     (let curlen = slen s
      in if n \<le> curlen then Some s
         else do {
           let s = sdsMakeRoomFor junk (n - curlen) s;
           b \<leftarrow> mem_write curlen (replicate (n - curlen + 1) 0) (sbuf s);
           let totlen = slen s + sfree s;
           Some (s\<lparr>slen := u32_of n, sfree := u32_of (totlen + 2 ^ 32 - u32_of n), sbuf := b\<rparr>) })"

text \<open>\<open>t\<close> is the memory that may be read from the pointer.\<close>

definition sdscatlen :: "(nat \<Rightarrow> byte) \<Rightarrow> sdshdr \<Rightarrow> byte list \<Rightarrow> nat \<Rightarrow> sdshdr option" where
  "sdscatlen junk s t n = do {
     let curlen = slen s;
     let s = sdsMakeRoomFor junk n s;
     src \<leftarrow> mem_read 0 n t;
     b \<leftarrow> mem_write curlen src (sbuf s);
     b \<leftarrow> mem_write (curlen + n) [0] b;
     Some (s\<lparr>slen := u32_of (curlen + n), sfree := nat ((int (sfree s) - int n) mod 2 ^ 32),
             sbuf := b\<rparr>) }"

definition sdscat :: "(nat \<Rightarrow> byte) \<Rightarrow> sdshdr \<Rightarrow> byte list \<Rightarrow> sdshdr option" where
  "sdscat junk s t = do { n \<leftarrow> strlen t; sdscatlen junk s t n }"

definition sdscatsds :: "(nat \<Rightarrow> byte) \<Rightarrow> sdshdr \<Rightarrow> sdshdr \<Rightarrow> sdshdr option" where
  "sdscatsds junk s t = sdscatlen junk s (sbuf t) (slen t)"

definition sdscpylen :: "(nat \<Rightarrow> byte) \<Rightarrow> sdshdr \<Rightarrow> byte list \<Rightarrow> nat \<Rightarrow> sdshdr option" where
  "sdscpylen junk s t n = do {
     let s = (if u32_of (sfree s + slen s) < n then sdsMakeRoomFor junk (n - slen s) s else s);
     let totlen = u32_of (sfree s + slen s);
     src \<leftarrow> mem_read 0 n t;
     b \<leftarrow> mem_write 0 src (sbuf s);
     b \<leftarrow> mem_write n [0] b;
     Some (s\<lparr>slen := u32_of n, sfree := nat ((int totlen - int n) mod 2 ^ 32), sbuf := b\<rparr>) }"

definition sdscpy :: "(nat \<Rightarrow> byte) \<Rightarrow> sdshdr \<Rightarrow> byte list \<Rightarrow> sdshdr option" where
  "sdscpy junk s t = do { n \<leftarrow> strlen t; sdscpylen junk s t n }"

text \<open>\<open>strchr\<close> finds the terminator of the set as well.\<close>

definition in_cset :: "byte list \<Rightarrow> byte \<Rightarrow> bool" where
  "in_cset cset c \<longleftrightarrow> c \<in> set cset \<or> c = 0"

fun trim_left :: "byte list \<Rightarrow> byte list \<Rightarrow> nat \<Rightarrow> nat \<Rightarrow> nat" where
  "trim_left cset b 0 sp = sp"
| "trim_left cset b (Suc n) sp = (if in_cset cset (b ! sp) then trim_left cset b n (sp + 1) else sp)"

fun trim_right :: "byte list \<Rightarrow> byte list \<Rightarrow> nat \<Rightarrow> nat" where
  "trim_right cset b 0 = 0"
| "trim_right cset b (Suc ep) = (if in_cset cset (b ! Suc ep) then trim_right cset b ep else Suc ep)"

text \<open>
  Offsets for the pointers: \<open>sp\<close> runs from 0 while \<open>sp \<le> end = len - 1\<close>, that is over at most
  \<open>len\<close> positions, and \<open>ep\<close> down from \<open>len - 1\<close> while it is above 0.
\<close>

definition sdstrim :: "byte list \<Rightarrow> sdshdr \<Rightarrow> sdshdr option" where
  "sdstrim cset s = do {
     let sp = trim_left cset (sbuf s) (slen s) 0;
     let ep = (if slen s = 0 then -1 else int (trim_right cset (sbuf s) (slen s - 1)));
     let n = (if int sp > ep then 0 else nat (ep - int sp + 1));
     b \<leftarrow> (if sp \<noteq> 0 then mem_move 0 sp n (sbuf s) else Some (sbuf s));
     b \<leftarrow> mem_write n [0] b;
     Some (s\<lparr>sfree := u32_of (sfree s + (slen s - n)), slen := u32_of n, sbuf := b\<rparr>) }"

definition sdsrange :: "int \<Rightarrow> int \<Rightarrow> sdshdr \<Rightarrow> sdshdr option" where
  "sdsrange start end' s =
     (let n = int (slen s)
      in if n = 0 then Some s
         else
           let start = (if start < 0 then max 0 (s32 (n + start)) else start);
               end' = (if end' < 0 then max 0 (s32 (n + end')) else end');
               newlen = (if start > end' then 0 else end' - start + 1);
               (newlen, start) =
                 (if newlen \<noteq> 0 then
                    (if start \<ge> s32 n then (0, start)
                     else if end' \<ge> s32 n then
                       (if start > s32 (n - 1) then (0, start) else (s32 (n - 1) - start + 1, start))
                     else (newlen, start))
                  else (newlen, 0))
           in do {
             b \<leftarrow> (if start \<noteq> 0 \<and> newlen \<noteq> 0
                    then mem_move 0 (nat start) (nat newlen) (sbuf s) else Some (sbuf s));
             b \<leftarrow> mem_write (nat newlen) [0] b;
             Some (s\<lparr>sfree := u32_of (sfree s + nat (n - newlen)), slen := u32_of (nat newlen),
                     sbuf := b\<rparr>) })"

definition toupper :: "int \<Rightarrow> int" where
  "toupper c = (if 97 \<le> c \<and> c \<le> 122 then c - 32 else c)"

definition map_prefix :: "(byte \<Rightarrow> byte) \<Rightarrow> sdshdr \<Rightarrow> sdshdr" where
  "map_prefix f s = s\<lparr>sbuf := map f (take (slen s) (sbuf s)) @ drop (slen s) (sbuf s)\<rparr>"

definition sdstolower :: "sdshdr \<Rightarrow> sdshdr" where
  "sdstolower s = map_prefix (\<lambda>c. word_of_int (tolower (sint c))) s"

definition sdstoupper :: "sdshdr \<Rightarrow> sdshdr" where
  "sdstoupper s = map_prefix (\<lambda>c. word_of_int (toupper (sint c))) s"

text \<open>\<open>memcmp\<close> of the standard library: the first difference, as \<open>unsigned char\<close>.\<close>

fun memcmp :: "byte list \<Rightarrow> byte list \<Rightarrow> int" where
  "memcmp (a # as) (b # bs) = (if a = b then memcmp as bs else uint a - uint b)"
| "memcmp _ _ = 0"

definition sdscmp :: "sdshdr \<Rightarrow> sdshdr \<Rightarrow> int" where
  "sdscmp s1 s2 =
     (let minlen = min (slen s1) (slen s2);
          cmp = memcmp (take minlen (sbuf s1)) (take minlen (sbuf s2))
      in if cmp = 0 then s32 (int (slen s1) - int (slen s2)) else cmp)"

text \<open>\<open>from\<close> and \<open>to\<close> have at least \<open>setlen\<close> bytes.\<close>

fun map_char :: "byte list \<Rightarrow> byte list \<Rightarrow> byte \<Rightarrow> byte" where
  "map_char (f # fs) (t # ts) c = (if c = f then t else map_char fs ts c)"
| "map_char _ _ c = c"

definition sdsmapchars :: "byte list \<Rightarrow> byte list \<Rightarrow> nat \<Rightarrow> sdshdr \<Rightarrow> sdshdr option" where
  "sdsmapchars from' to' setlen s = do {
     fs \<leftarrow> mem_read 0 setlen from';
     ts \<leftarrow> mem_read 0 setlen to';
     Some (map_prefix (map_char fs ts) s) }"

section \<open>Number printing\<close>

text \<open>
  The \<open>do\<close> loop leaves the digits reversed; \<open>rev_loop\<close> is the swap loop on the offsets of
  \<open>s\<close> and \<open>p\<close>.
\<close>

fun push_digits :: "nat \<Rightarrow> nat \<Rightarrow> byte list \<Rightarrow> (nat \<times> byte list) option" where
  "push_digits v p b = do {
     b \<leftarrow> mem_write p [48 + word_of_nat (v mod 10)] b;
     (if v div 10 = 0 then Some (p + 1, b) else push_digits (v div 10) (p + 1) b) }"

declare push_digits.simps [simp del]

function rev_loop :: "nat \<Rightarrow> nat \<Rightarrow> byte list \<Rightarrow> byte list option" where
  "rev_loop s p b =
     (if s < p then do {
        aux \<leftarrow> mem_read s 1 b;
        c \<leftarrow> mem_read p 1 b;
        b \<leftarrow> mem_write s c b;
        b \<leftarrow> mem_write p aux b;
        rev_loop (s + 1) (p - 1) b }
      else Some b)"
  by pat_completeness auto

termination
  by (relation "measure (\<lambda>(s, p, b). p - s)") auto

declare rev_loop.simps [simp del]

definition finish_num :: "nat \<Rightarrow> byte list \<Rightarrow> (byte list \<times> nat) option" where
  "finish_num p b = do {
     b \<leftarrow> mem_write p [0] b;
     b \<leftarrow> rev_loop 0 (p - 1) b;
     Some (b, p) }"

text \<open>The negation of \<open>LLONG_MIN\<close> is undefined in C: \<open>None\<close>.\<close>

definition sdsll2str :: "byte list \<Rightarrow> int \<Rightarrow> (byte list \<times> nat) option" where
  "sdsll2str b v =
     (if v = int_min 8 then None
      else do {
        (p, b) \<leftarrow> push_digits (nat \<bar>v\<bar>) 0 b;
        (p, b) \<leftarrow> (if v < 0 then do { b \<leftarrow> mem_write p [45] b; Some (p + 1, b) } else Some (p, b));
        finish_num p b })"

definition sdsull2str :: "byte list \<Rightarrow> nat \<Rightarrow> (byte list \<times> nat) option" where
  "sdsull2str b v = do { (p, b) \<leftarrow> push_digits v 0 b; finish_num p b }"

definition SDS_LLSTR_SIZE :: nat where
  "SDS_LLSTR_SIZE = 21"

definition sdsfromlonglong :: "(nat \<Rightarrow> byte) \<Rightarrow> int \<Rightarrow> sdshdr option" where
  "sdsfromlonglong junk v = do {
     (b, n) \<leftarrow> sdsll2str (map junk [0..<SDS_LLSTR_SIZE]) v;
     sdsnewlen junk (Some b) n }"

section \<open>The abstraction\<close>

definition sds_rep :: "sdshdr \<Rightarrow> byte list \<Rightarrow> bool" where
  "sds_rep s xs \<longleftrightarrow>
     (\<exists>ys. s = \<lparr>slen = length xs, sfree = length ys, sbuf = xs @ 0 # ys\<rparr> \<and>
           length xs + length ys < 2 ^ 32)"

text \<open>Room for \<open>n\<close> more bytes never reaches the end of the 32-bit length fields.\<close>

abbreviation sds_fits :: "nat \<Rightarrow> bool" where
  "sds_fits n \<equiv> n + SDS_MAX_PREALLOC < 2 ^ 32"

lemma sds_repI:
  "length xs + length ys < 2 ^ 32 \<Longrightarrow> n = length xs \<Longrightarrow> f = length ys \<Longrightarrow> b = xs @ 0 # ys \<Longrightarrow>
   sds_rep \<lparr>slen = n, sfree = f, sbuf = b\<rparr> xs"
  by (auto simp: sds_rep_def)

lemma sds_repE:
  assumes "sds_rep s xs"
  obtains ys where "s = \<lparr>slen = length xs, sfree = length ys, sbuf = xs @ 0 # ys\<rparr>"
    and "length xs + length ys < 2 ^ 32"
  using assms by (auto simp: sds_rep_def)

lemma sds_rep_fun: "sds_rep s xs \<Longrightarrow> sds_rep s ys \<Longrightarrow> xs = ys"
  by (auto elim!: sds_repE)

lemma sds_rep_value: "sds_rep s xs \<Longrightarrow> take (slen s) (sbuf s) = xs"
  by (erule sds_repE) simp

lemma mem_write_snoc:
  "length t + length zs = length ys \<Longrightarrow>
   mem_write (length xs) t (xs @ ys) = Some (xs @ t @ drop (length t) ys)"
  by (simp add: mem_write_def)

lemma SDS_MAX_PREALLOC_less: "SDS_MAX_PREALLOC = 2 ^ 20"
  by (simp add: SDS_MAX_PREALLOC_def)

text \<open>Room is made whatever byte stands behind the contents.\<close>

lemma make_room_any:
  assumes s: "s = \<lparr>slen = length xs, sfree = length ys, sbuf = xs @ z # ys\<rparr>"
    and b: "length xs + length ys < 2 ^ 32" and fit: "sds_fits (length xs + n)"
  obtains zs where "sdsMakeRoomFor junk n s = \<lparr>slen = length xs, sfree = length zs, sbuf = xs @ z # zs\<rparr>"
    and "n \<le> length zs" and "length xs + length zs < 2 ^ 32"
proof (cases "n \<le> length ys")
  case True
  then show ?thesis using that [of ys] s b by (simp add: sdsMakeRoomFor_def)
next
  case False
  define m where "m = (if length xs + n < SDS_MAX_PREALLOC then (length xs + n) * 2
      else length xs + n + SDS_MAX_PREALLOC)"
  have m: "length xs + n \<le> m" "m < 2 ^ 32" "length xs + length ys \<le> m"
    using False fit by (auto simp: m_def SDS_MAX_PREALLOC_def)
  let ?zs = "ys @ map junk [length xs + length ys + 1..<m + 1]"
  have l: "length ?zs = m - length xs" using m False by auto
  have "sdsMakeRoomFor junk n s = s\<lparr>sfree := u32_of (m - length xs), sbuf := mem_realloc junk (m + 1) (sbuf s)\<rparr>"
    using False s by (simp add: sdsMakeRoomFor_def m_def [symmetric] Let_def)
  also have "\<dots> = \<lparr>slen = length xs, sfree = length ?zs, sbuf = xs @ z # ?zs\<rparr>"
    using m s by (auto simp: mem_simps)
  finally show ?thesis
    by (rule that) (use l m in auto)
qed

lemma make_room:
  assumes "sds_rep s xs" and "sds_fits (length xs + n)"
  obtains ys where "sdsMakeRoomFor junk n s = \<lparr>slen = length xs, sfree = length ys, sbuf = xs @ 0 # ys\<rparr>"
    and "n \<le> length ys" and "length xs + length ys < 2 ^ 32"
proof -
  obtain ys where s: "s = \<lparr>slen = length xs, sfree = length ys, sbuf = xs @ 0 # ys\<rparr>"
    and b: "length xs + length ys < 2 ^ 32" using assms(1) by (rule sds_repE)
  show ?thesis using make_room_any [OF s b assms(2), of junk] that by blast
qed

lemma sdsMakeRoomFor_rep:
  assumes "sds_rep s xs" and "sds_fits (length xs + n)"
  shows "sds_rep (sdsMakeRoomFor junk n s) xs \<and> n \<le> sfree (sdsMakeRoomFor junk n s)"
  using make_room [OF assms, of junk] by (metis sds_repI sdshdr.select_convs(2))

lemma sdsnewlen_rep:
  assumes "n < 2 ^ 32" and "n \<le> length bs"
  shows "\<exists>s. sdsnewlen junk (Some bs) n = Some s \<and> sds_rep s (take n bs) \<and> sfree s = 0"
  using assms by (auto simp: sdsnewlen_def Let_def mem_simps min_def intro!: sds_repI [of _ "[]"])

lemma sdsnewlen_zero:
  "n < 2 ^ 32 \<Longrightarrow> \<exists>s. sdsnewlen junk None n = Some s \<and> sds_rep s (replicate n 0)"
  by (auto simp: sdsnewlen_def Let_def mem_simps min_def intro!: sds_repI [of _ "[]"]
      simp flip: replicate_append_same)

lemma sdsempty_rep: "\<exists>s. sdsempty junk = Some s \<and> sds_rep s []"
  using sdsnewlen_rep [of 0 "[]" junk] by (auto simp: sdsempty_def)

lemma strlen_append: "0 \<notin> set xs \<Longrightarrow> strlen (xs @ 0 # ys) = Some (length xs)"
  by (induction xs) (auto simp: strlen_def)

lemma sdsnew_rep:
  assumes "0 \<notin> set xs" and "length xs < 2 ^ 32"
  shows "\<exists>s. sdsnew junk (Some (xs @ 0 # r)) = Some s \<and> sds_rep s xs"
  using sdsnewlen_rep [of "length xs" "xs @ 0 # r" junk] assms
  by (auto simp: sdsnew_def strlen_append)

lemma sdsdup_rep: "sds_rep s xs \<Longrightarrow> \<exists>s'. sdsdup junk s = Some s' \<and> sds_rep s' xs"
  by (erule sds_repE) (use sdsnewlen_rep [of "slen s" "sbuf s" junk] in \<open>auto simp: sdsdup_def\<close>)

lemma sdsclear_rep:
  assumes "sds_rep s xs" shows "\<exists>s'. sdsclear s = Some s' \<and> sds_rep s' []"
proof -
  obtain ys where s: "s = \<lparr>slen = length xs, sfree = length ys, sbuf = xs @ 0 # ys\<rparr>"
    and b: "length xs + length ys < 2 ^ 32" using assms by (rule sds_repE)
  show ?thesis
  proof (cases xs)
    case Nil
    then show ?thesis using s b
      by (auto simp: sdsclear_def mem_simps intro!: sds_repI [of _ ys])
  next
    case (Cons x xs')
    then show ?thesis using s b
      by (auto simp: sdsclear_def mem_simps intro!: sds_repI [of _ "xs' @ 0 # ys"])
  qed
qed

lemma sdsRemoveFreeSpace_rep:
  "sds_rep s xs \<Longrightarrow> sds_rep (sdsRemoveFreeSpace junk s) xs \<and> sfree (sdsRemoveFreeSpace junk s) = 0"
  by (erule sds_repE)
    (auto simp: sdsRemoveFreeSpace_def mem_simps intro!: sds_repI [of _ "[]"])

lemma u32_diff: "n \<le> m \<Longrightarrow> m < 2 ^ 32 \<Longrightarrow> nat ((int m - int n) mod 2 ^ 32) = m - n"
  by (simp add: of_nat_diff [symmetric] del: of_nat_diff)

lemma sdscatlen_rep:
  assumes "sds_rep s xs" and "sds_fits (length xs + n)" and "n \<le> length t"
  shows "\<exists>s'. sdscatlen junk s t n = Some s' \<and> sds_rep s' (xs @ take n t)"
proof -
  obtain ys where m: "sdsMakeRoomFor junk n s = \<lparr>slen = length xs, sfree = length ys, sbuf = xs @ 0 # ys\<rparr>"
    and ys: "n \<le> length ys" "length xs + length ys < 2 ^ 32" using make_room [OF assms(1,2)] .
  have sl: "slen s = length xs" using assms(1) by (auto elim: sds_repE)
  have f: "nat ((int (length ys) - int n) mod 2 ^ 32) = length ys - n"
    using ys by (intro u32_diff) auto
  show ?thesis
    using ys assms(3) unfolding sdscatlen_def m sl Let_def
    by (auto simp: mem_simps min_def f [simplified] intro!: sds_repI [of _ "drop n ys"])
qed

lemma sdscat_rep:
  assumes "sds_rep s xs" and "sds_fits (length xs + length t)" and "0 \<notin> set t"
  shows "\<exists>s'. sdscat junk s (t @ 0 # r) = Some s' \<and> sds_rep s' (xs @ t)"
  using sdscatlen_rep [OF assms(1,2), of "t @ 0 # r" junk] assms(3)
  by (simp add: sdscat_def strlen_append)

lemma sdscatsds_rep:
  assumes "sds_rep s xs" and "sds_rep t ys" and "sds_fits (length xs + length ys)"
  shows "\<exists>s'. sdscatsds junk s t = Some s' \<and> sds_rep s' (xs @ ys)"
  using sdscatlen_rep [OF assms(1), of "slen t" "sbuf t" junk] assms(2,3)
  by (auto simp: sdscatsds_def elim!: sds_repE)

lemma drop_index: "n - m + (Suc 0 - (m - n)) = Suc n - (m :: nat)"
  by linarith

lemma sdscpylen_rep:
  assumes "sds_rep s xs" and "sds_fits (max (length xs) n)" and "n \<le> length t"
  shows "\<exists>s'. sdscpylen junk s t n = Some s' \<and> sds_rep s' (take n t)"
proof -
  define s' where "s' = (if u32_of (sfree s + slen s) < n then sdsMakeRoomFor junk (n - slen s) s else s)"
  have "\<exists>ys. s' = \<lparr>slen = length xs, sfree = length ys, sbuf = xs @ 0 # ys\<rparr> \<and>
      n \<le> length xs + length ys \<and> length xs + length ys < 2 ^ 32"
  proof (cases "u32_of (sfree s + slen s) < n")
    case True
    have sl: "slen s = length xs" using assms(1) by (auto elim: sds_repE)
    have "sds_fits (length xs + (n - length xs))" using assms(2) by (simp add: max_def split: if_splits)
    then obtain ys where "sdsMakeRoomFor junk (n - length xs) s =
          \<lparr>slen = length xs, sfree = length ys, sbuf = xs @ 0 # ys\<rparr>"
      "n - length xs \<le> length ys" "length xs + length ys < 2 ^ 32"
      using make_room [OF assms(1)] by blast
    then show ?thesis using True sl by (auto simp: s'_def)
  next
    case False
    obtain ys where s: "s = \<lparr>slen = length xs, sfree = length ys, sbuf = xs @ 0 # ys\<rparr>"
      and b: "length xs + length ys < 2 ^ 32" using assms(1) by (rule sds_repE)
    then have "u32_of (sfree s + slen s) = length xs + length ys" by (simp add: add.commute)
    then show ?thesis using False s b by (auto simp: s'_def)
  qed
  then obtain ys where s': "s' = \<lparr>slen = length xs, sfree = length ys, sbuf = xs @ 0 # ys\<rparr>"
    and ys: "n \<le> length xs + length ys" "length xs + length ys < 2 ^ 32" by blast
  have f: "nat ((int (length xs + length ys) - int n) mod 2 ^ 32) = length xs + length ys - n"
    using ys by (rule u32_diff)
  show ?thesis
    using ys assms(2,3) unfolding sdscpylen_def Let_def s'_def [symmetric] s'
    by (auto simp: mem_simps min_def f [simplified] add.commute drop_index
        intro!: sds_repI [of _ "drop (n + 1) (xs @ 0 # ys)"])
qed

lemma sdscpy_rep:
  assumes "sds_rep s xs" and "sds_fits (max (length xs) (length t))" and "0 \<notin> set t"
  shows "\<exists>s'. sdscpy junk s (t @ 0 # r) = Some s' \<and> sds_rep s' t"
  using sdscpylen_rep [OF assms(1,2), of "t @ 0 # r" junk] assms(3)
  by (simp add: sdscpy_def strlen_append)

lemma sdsgrowzero_rep:
  assumes "sds_rep s xs" and "sds_fits (max (length xs) n)"
  shows "\<exists>s'. sdsgrowzero junk n s = Some s' \<and> sds_rep s' (xs @ replicate (n - length xs) 0)"
proof (cases "n \<le> length xs")
  case True
  then show ?thesis using assms(1) by (auto simp: sdsgrowzero_def elim!: sds_repE intro!: sds_repI)
next
  case False
  then have "sds_fits (length xs + (n - length xs))" using assms(2) by simp
  then obtain ys where m: "sdsMakeRoomFor junk (n - length xs) s =
        \<lparr>slen = length xs, sfree = length ys, sbuf = xs @ 0 # ys\<rparr>"
    and ys: "n - length xs \<le> length ys" "length xs + length ys < 2 ^ 32"
    using make_room [OF assms(1)] by blast
  have sl: "slen s = length xs" using assms(1) by (auto elim: sds_repE)
  have f: "u32_of (length xs + length ys + 2 ^ 32 - u32_of n) = length xs + length ys - n"
  proof -
    have "n \<le> length xs + length ys" "n < 2 ^ 32" using False ys by auto
    then have "length xs + length ys + 2 ^ 32 - u32_of n = length xs + length ys - n + 2 ^ 32" by simp
    then have "u32_of (length xs + length ys + 2 ^ 32 - u32_of n) = u32_of (length xs + length ys - n)"
      by (simp only: mod_add_self2)
    also have "\<dots> = length xs + length ys - n" using ys by (intro mod_less) simp
    finally show ?thesis .
  qed
  have r: "replicate (Suc n - length xs) (0 :: byte) = replicate (n - length xs) 0 @ [0]"
    using False by (simp add: Suc_diff_le replicate_append_same [symmetric] not_le)
  have u: "u32_of n = n" using False ys by simp
  have w: "mem_write (length xs) (replicate (n - length xs + 1) 0) (xs @ 0 # ys) =
      Some (xs @ replicate (n - length xs) 0 @ 0 # drop (n - length xs) ys)"
    using ys r False by (simp add: mem_simps Suc_diff_le)
  show ?thesis
    using False ys unfolding sdsgrowzero_def Let_def sl m
    by (simp add: w [simplified] f [simplified u, simplified] u [simplified])
      (auto intro!: sds_repI [of _ "drop (n - length xs) ys"])
qed

lemma sdsIncrLen_rep:
  assumes "sds_rep s xs" and "0 \<le> incr \<longrightarrow> nat incr \<le> sfree s"
    and "incr < 0 \<longrightarrow> nat (- incr) \<le> length xs"
  shows "\<exists>s'. sdsIncrLen incr s = Some s' \<and>
    sds_rep s' (take (nat (int (length xs) + incr)) (sbuf s))"
proof -
  obtain ys where s: "s = \<lparr>slen = length xs, sfree = length ys, sbuf = xs @ 0 # ys\<rparr>"
    and b: "length xs + length ys < 2 ^ 32" using assms(1) by (rule sds_repE)
  define n where "n = nat (int (length xs) + incr)"
  have n: "int n = int (length xs) + incr" "n \<le> length xs + length ys"
    using assms(2,3) s by (auto simp: n_def)
  have e: "nat ((int (length xs) + incr) mod 2 ^ 32) = n"
    "nat ((int (length ys) - incr) mod 2 ^ 32) = length xs + length ys - n"
  proof -
    show "nat ((int (length xs) + incr) mod 2 ^ 32) = n" using n b by (simp add: n(1) [symmetric])
    have "int (length ys) - incr = int (length xs + length ys - n)" using n by simp
    then show "nat ((int (length ys) - incr) mod 2 ^ 32) = length xs + length ys - n" using b by simp
  qed
  have c: "(if incr \<ge> 0 then int (length ys) \<ge> incr else int (length xs) \<ge> - incr)"
    using assms(2,3) s by auto
  show ?thesis
    using c n(2) b unfolding sdsIncrLen_def Let_def s
    by (auto simp: e [simplified] n_def [symmetric] mem_simps min_def
        intro!: sds_repI [of _ "drop (n + 1) (xs @ 0 # ys)"])
qed

section \<open>Ranges and trimming\<close>

text \<open>An index as \<open>sdsrange\<close> reads it: negative ones count from the end.\<close>

definition norm_index :: "int \<Rightarrow> int \<Rightarrow> int" where
  "norm_index n i = (if i < 0 then max 0 (n + i) else i)"

definition sds_slice :: "int \<Rightarrow> int \<Rightarrow> byte list \<Rightarrow> byte list" where
  "sds_slice a b xs =
     (let n = int (length xs); a = norm_index n a; b = min (norm_index n b) (n - 1)
      in if a > b then [] else take (nat (b - a + 1)) (drop (nat a) xs))"

lemma move_front:
  assumes "length xs + length ys < 2 ^ 32" and "a + m \<le> length xs"
  shows "\<exists>b b'. mem_move 0 a m (xs @ 0 # ys) = Some b \<and> mem_write m [0] b = Some b' \<and>
     sds_rep \<lparr>slen = m, sfree = length ys + (length xs - m), sbuf = b'\<rparr> (take m (drop a xs))"
proof -
  have l: "length (take m (drop a xs)) = m" using assms(2) by simp
  let ?r = "drop (m + 1) (xs @ 0 # ys)"
  have 1: "mem_move 0 a m (xs @ 0 # ys) = Some (take m (drop a xs) @ drop m (xs @ 0 # ys))"
    using assms by (simp add: mem_simps)
  have d: "drop m (xs @ 0 # ys) = (drop m (xs @ 0 # ys)) ! 0 # ?r"
    using assms(2) by (simp add: Cons_nth_drop_Suc [symmetric] del: drop_append)
  have 2: "mem_write m [0] (take m (drop a xs) @ drop m (xs @ 0 # ys)) =
      Some (take m (drop a xs) @ 0 # ?r)"
    by (subst d) (use mem_write_last [of "take m (drop a xs)" "[]" 0] l in simp)
  show ?thesis
    by (intro exI conjI, rule 1, rule 2, rule sds_repI [of _ ?r]) (use assms l in auto)
qed

lemma cut_at:
  assumes "length xs + length ys < 2 ^ 32" and "m \<le> length xs"
  shows "\<exists>b'. mem_write m [0] (xs @ 0 # ys) = Some b' \<and>
     sds_rep \<lparr>slen = m, sfree = length ys + (length xs - m), sbuf = b'\<rparr> (take m xs)"
proof -
  have "mem_move 0 0 m (xs @ 0 # ys) = Some (xs @ 0 # ys)" using assms(2)
    by (simp add: mem_simps)
  then show ?thesis using move_front [OF assms(1), of 0 m] assms(2) by auto
qed

lemma sdsrange_rep:
  assumes "sds_rep s xs" and "length xs < 2 ^ 31"
    and "- (2 ^ 31) \<le> a" and "- (2 ^ 31) \<le> b"
  shows "\<exists>s'. sdsrange a b s = Some s' \<and> sds_rep s' (sds_slice a b xs)"
proof -
  obtain ys where s: "s = \<lparr>slen = length xs, sfree = length ys, sbuf = xs @ 0 # ys\<rparr>"
    and lt: "length xs + length ys < 2 ^ 32" using assms(1) by (rule sds_repE)
  let ?n = "int (length xs)"
  show ?thesis
  proof (cases "xs = []")
    case True
    then show ?thesis using assms(1) s
      by (auto simp: sdsrange_def sds_slice_def Let_def norm_index_def)
  next
    case False
    then have n: "0 < ?n" by simp
    let ?a = "norm_index ?n a" and ?b = "norm_index ?n b"
    have ab: "(if a < 0 then max 0 (s32 (?n + a)) else a) = ?a"
      "(if b < 0 then max 0 (s32 (?n + b)) else b) = ?b"
      using assms(2-4) by (auto simp: norm_index_def s32_id)
    have sn: "s32 ?n = ?n" "s32 (?n - 1) = ?n - 1" using assms(2) n by (auto simp: s32_id)
    define m where "m = (if ?a > ?b \<or> ?a \<ge> ?n then 0 else min ?b (?n - 1) - ?a + 1)"
    have ge: "0 \<le> ?a" "0 \<le> ?b" using n by (auto simp: norm_index_def)
    have m: "0 \<le> m" "m \<noteq> 0 \<Longrightarrow> ?a + m \<le> ?n" "m \<le> ?n" using ge n by (auto simp: m_def)
    define st where "st = (if ?a > ?b then 0 else ?a)"
    have stm: "m \<noteq> 0 \<Longrightarrow> st = ?a" by (auto simp: st_def m_def)
    have sl: "sds_slice a b xs = take (nat m) (drop (nat ?a) xs)"
      using ge n by (auto simp: sds_slice_def m_def Let_def)
    have step: "sdsrange a b s = do {
        b \<leftarrow> (if st \<noteq> 0 \<and> m \<noteq> 0 then mem_move 0 (nat st) (nat m) (sbuf s) else Some (sbuf s));
        b \<leftarrow> mem_write (nat m) [0] b;
        Some (s\<lparr>sfree := u32_of (sfree s + nat (?n - m)), slen := u32_of (nat m), sbuf := b\<rparr>) }"
      using False s ge n
      by (auto simp: sdsrange_def Let_def ab sn m_def st_def)
    have u: "u32_of (length ys + nat (?n - m)) = length ys + (length xs - nat m)"
      "u32_of (nat m) = nat m"
      using m lt by auto
    show ?thesis
    proof (cases "st \<noteq> 0 \<and> m \<noteq> 0")
      case True
      then have "nat ?a + nat m \<le> length xs" using m ge by auto
      from move_front [OF lt this] show ?thesis
        using True stm s u unfolding step sl by auto
    next
      case False
      then have "sds_slice a b xs = take (nat m) xs" using stm sl by (cases "m = 0") auto
      moreover have "nat m \<le> length xs" using m(3) by simp
      ultimately show ?thesis using False cut_at [OF lt, of "nat m"] s u unfolding step by auto
    qed
  qed
qed

lemma trim_left_eq:
  "p + n \<le> length b \<Longrightarrow>
   trim_left cset b n p = p + length (takeWhile (in_cset cset) (take n (drop p b)))"
proof (induction n arbitrary: p)
  case 0
  then show ?case by simp
next
  case (Suc n)
  then have "take (Suc n) (drop p b) = b ! p # take n (drop (Suc p) b)"
    by (simp add: Cons_nth_drop_Suc [symmetric])
  with Suc show ?case by simp
qed

lemma trim_right_eq:
  "ep < length b \<Longrightarrow>
   trim_right cset b ep = ep - length (takeWhile (in_cset cset) (rev (take ep (drop 1 b))))"
proof (induction ep)
  case 0
  then show ?case by simp
next
  case (Suc ep)
  then have "take (Suc ep) (drop 1 b) = take ep (drop 1 b) @ [b ! Suc ep]"
    by (simp add: take_Suc_conv_app_nth)
  with Suc show ?case by (auto simp: Suc_diff_le)
qed

definition trim :: "(byte \<Rightarrow> bool) \<Rightarrow> byte list \<Rightarrow> byte list" where
  "trim P xs = rev (dropWhile P (rev (dropWhile P xs)))"

lemma trim_take_drop:
  "trim P xs = take (length xs - length (takeWhile P xs) - length (takeWhile P (rev (dropWhile P xs))))
     (drop (length (takeWhile P xs)) xs)"
proof -
  let ?ys = "dropWhile P xs"
  have "trim P xs = take (length ?ys - length (takeWhile P (rev ?ys))) ?ys"
    unfolding trim_def by (subst dropWhile_eq_drop) (simp add: rev_drop)
  moreover have "?ys = drop (length (takeWhile P xs)) xs" by (rule dropWhile_eq_drop)
  moreover from this have "length ?ys = length xs - length (takeWhile P xs)" by (metis length_drop)
  ultimately show ?thesis by metis
qed

lemma takeWhile_rev_drop1:
  assumes "dropWhile P xs \<noteq> []"
  shows "takeWhile P (rev (drop 1 xs)) = takeWhile P (rev (dropWhile P xs))"
proof (cases xs)
  case Nil
  with assms show ?thesis by simp
next
  case (Cons x r)
  show ?thesis
  proof (cases "P x")
    case True
    then have d: "dropWhile P xs = dropWhile P r" using Cons by simp
    have "\<not> P (hd (dropWhile P r))" using assms d by (metis hd_dropWhile)
    then have e: "\<exists>y \<in> set (rev (dropWhile P r)). \<not> P y" using assms d
      by (intro bexI [of _ "hd (dropWhile P r)"]) auto
    have "rev r = rev (dropWhile P r) @ rev (takeWhile P r)"
      by (simp only: rev_append [symmetric] takeWhile_dropWhile_id)
    then have "takeWhile P (rev r) = takeWhile P (rev (dropWhile P r))"
      using e takeWhile_append1 [of _ "rev (dropWhile P r)" P] by auto
    then show ?thesis using Cons d by simp
  next
    case False
    have "takeWhile P (rev r @ [x]) = takeWhile P (rev r)"
      using False by (auto simp: takeWhile_append takeWhile_eq_all_conv [THEN iffD2])
    then show ?thesis using Cons False by simp
  qed
qed

lemma sdstrim_rep:
  assumes "sds_rep s xs"
  shows "\<exists>s'. sdstrim cset s = Some s' \<and> sds_rep s' (trim (in_cset cset) xs)"
proof -
  let ?P = "in_cset cset"
  obtain ys where s: "s = \<lparr>slen = length xs, sfree = length ys, sbuf = xs @ 0 # ys\<rparr>"
    and lt: "length xs + length ys < 2 ^ 32" using assms by (rule sds_repE)
  define sp where "sp = length (takeWhile ?P xs)"
  have sp_le: "sp \<le> length xs" by (simp add: sp_def length_takeWhile_le)
  have sp: "trim_left cset (sbuf s) (slen s) 0 = sp"
    using trim_left_eq [of 0 "length xs" "xs @ 0 # ys" cset] s by (simp add: sp_def)
  define ep where "ep = (if slen s = 0 then -1 else int (trim_right cset (sbuf s) (slen s - 1)))"
  define n where "n = (if int sp > ep then 0 else nat (ep - int sp + 1))"
  have n: "sp + n \<le> length xs \<and> trim ?P xs = take n (drop sp xs)"
  proof (cases "dropWhile ?P xs = []")
    case True
    then have all: "\<forall>x \<in> set xs. ?P x" by (simp add: dropWhile_eq_Nil_conv)
    then have e: "sp = length xs" by (simp add: sp_def takeWhile_eq_all_conv [THEN iffD2])
    have "ep < int sp"
    proof (cases xs)
      case Nil
      then show ?thesis using s e by (simp add: ep_def)
    next
      case (Cons x r)
      have "take (length xs - 1) (drop 1 (xs @ 0 # ys)) = r" using Cons by simp
      then have "trim_right cset (sbuf s) (slen s - 1) = length r - length (takeWhile ?P (rev r))"
        using trim_right_eq [of "length xs - 1" "xs @ 0 # ys" cset] s Cons by simp
      then show ?thesis using Cons s e by (simp add: ep_def)
    qed
    moreover have "trim ?P xs = []" unfolding trim_def True by simp
    ultimately show ?thesis using e by (simp add: n_def)
  next
    case False
    then obtain x r where xs: "xs = x # r" by (cases xs) auto
    let ?k = "length (takeWhile ?P (rev (dropWhile ?P xs)))"
    have "take (length xs - 1) (drop 1 (xs @ 0 # ys)) = drop 1 xs" using xs by simp
    then have "trim_right cset (sbuf s) (slen s - 1) = length xs - 1 - length (takeWhile ?P (rev (drop 1 xs)))"
      using trim_right_eq [of "length xs - 1" "xs @ 0 # ys" cset] s xs by simp
    then have ep: "ep = int (length xs - 1 - ?k)"
      using takeWhile_rev_drop1 [OF False] s xs by (simp add: ep_def)
    have dl: "length (dropWhile ?P xs) = length xs - sp"
      by (simp add: sp_def dropWhile_eq_drop)
    have "?k \<noteq> length (dropWhile ?P xs)"
    proof
      assume "?k = length (dropWhile ?P xs)"
      then have "takeWhile ?P (rev (dropWhile ?P xs)) = rev (dropWhile ?P xs)"
        by (metis length_rev takeWhile_eq_take take_all_iff order_refl)
      then have "\<forall>y \<in> set (dropWhile ?P xs). ?P y" by (metis set_rev takeWhile_eq_all_conv)
      then show False using hd_dropWhile [OF False] hd_in_set [OF False] by blast
    qed
    moreover have "?k \<le> length (dropWhile ?P xs)"
      by (metis length_rev length_takeWhile_le)
    ultimately have k: "?k < length xs - sp" using dl by linarith
    then have "n = length xs - sp - ?k" using xs ep by (auto simp: n_def)
    then show ?thesis using trim_take_drop [of ?P xs] k by (simp add: sp_def)
  qed
  have u: "u32_of (length ys + (length xs - n)) = length ys + (length xs - n)" "u32_of n = n"
    using lt n by auto
  have step: "sdstrim cset s = do {
      b \<leftarrow> (if sp \<noteq> 0 then mem_move 0 sp n (sbuf s) else Some (sbuf s));
      b \<leftarrow> mem_write n [0] b;
      Some (s\<lparr>sfree := u32_of (sfree s + (slen s - n)), slen := u32_of n, sbuf := b\<rparr>) }"
    unfolding sdstrim_def Let_def sp ep_def [symmetric] n_def [symmetric] ..
  show ?thesis
  proof (cases "sp = 0")
    case True
    then show ?thesis using cut_at [OF lt, of n] n s u unfolding step by auto
  next
    case False
    then show ?thesis using move_front [OF lt, of sp n] n s u unfolding step by auto
  qed
qed

section \<open>Comparison and mapping\<close>

text \<open>The order of byte strings: the first difference decides, a proper prefix is smaller.\<close>

fun bytes_less :: "byte list \<Rightarrow> byte list \<Rightarrow> bool" where
  "bytes_less _ [] \<longleftrightarrow> False"
| "bytes_less [] (y # ys) \<longleftrightarrow> True"
| "bytes_less (x # xs) (y # ys) \<longleftrightarrow> x < y \<or> x = y \<and> bytes_less xs ys"

lemma memcmp_prefix: "memcmp xs xs = 0"
  by (induction xs) auto

lemma memcmp_lex:
  "memcmp (take (min (length xs) (length ys)) xs) (take (min (length xs) (length ys)) ys) = c \<Longrightarrow>
   (c < 0 \<longrightarrow> bytes_less xs ys) \<and> (c > 0 \<longrightarrow> bytes_less ys xs) \<and>
   (c = 0 \<longrightarrow> take (min (length xs) (length ys)) xs = take (min (length xs) (length ys)) ys)"
proof (induction xs arbitrary: ys)
  case Nil
  then show ?case by simp
next
  case (Cons x xs)
  show ?case
  proof (cases ys)
    case Nil
    then show ?thesis using Cons.prems by simp
  next
    case (Cons y ys')
    show ?thesis
    proof (cases "x = y")
      case True
      then show ?thesis using Cons.IH [of ys'] Cons.prems Cons by auto
    next
      case False
      then have "c = uint x - uint y" using Cons.prems Cons by simp
      then show ?thesis using False Cons by (auto simp: word_less_def word_uint_eq_iff)
    qed
  qed
qed

lemma bytes_less_prefix:
  "take (length xs) ys = xs \<Longrightarrow> length xs < length ys \<Longrightarrow> bytes_less xs ys"
proof (induction xs arbitrary: ys)
  case Nil
  then show ?case by (cases ys) auto
next
  case (Cons x xs)
  then show ?case by (cases ys) auto
qed

lemma sdscmp_rep:
  assumes "sds_rep s xs" and "sds_rep t ys" and "length xs < 2 ^ 31" and "length ys < 2 ^ 31"
  shows "(sdscmp s t = 0 \<longleftrightarrow> xs = ys) \<and> (sdscmp s t < 0 \<longrightarrow> bytes_less xs ys) \<and>
    (sdscmp s t > 0 \<longrightarrow> bytes_less ys xs)"
proof -
  let ?m = "min (length xs) (length ys)"
  define c where "c = memcmp (take ?m xs) (take ?m ys)"
  have sl: "slen s = length xs" "slen t = length ys" using assms(1,2) by (auto elim!: sds_repE)
  have "take ?m (sbuf s) = take ?m xs" "take ?m (sbuf t) = take ?m ys"
    using assms(1,2) by (auto elim!: sds_repE simp: min_def)
  then have cmp: "sdscmp s t = (if c = 0 then int (length xs) - int (length ys) else c)"
    using sl assms(3,4) by (simp add: sdscmp_def c_def Let_def s32_id)
  note lx = memcmp_lex [OF c_def [symmetric]]
  show ?thesis
  proof (cases "c = 0")
    case False
    then show ?thesis using cmp lx memcmp_prefix by (auto simp: c_def)
  next
    case True
    then have e: "take ?m xs = take ?m ys" using lx by simp
    consider "length xs = length ys" | "length xs < length ys" | "length ys < length xs" by linarith
    then show ?thesis
    proof cases
      case 1
      then show ?thesis using e cmp True by simp
    next
      case 2
      then show ?thesis using e cmp True bytes_less_prefix [of xs ys] by auto
    next
      case 3
      then show ?thesis using e cmp True bytes_less_prefix [of ys xs] by auto
    qed
  qed
qed

lemma map_prefix_rep: "sds_rep s xs \<Longrightarrow> sds_rep (map_prefix f s) (map f xs)"
  by (erule sds_repE) (auto simp: map_prefix_def intro!: sds_repI)

lemma sdsmapchars_rep:
  assumes "sds_rep s xs" and "setlen \<le> length fs" and "setlen \<le> length ts"
  shows "\<exists>s'. sdsmapchars fs ts setlen s = Some s' \<and>
    sds_rep s' (map (map_char (take setlen fs) (take setlen ts)) xs)"
  using assms map_prefix_rep [OF assms(1)] by (simp add: sdsmapchars_def mem_simps)

section \<open>Numbers\<close>

lemma push_digits_eq:
  "length mid = length (dec_nat v) \<Longrightarrow>
   push_digits v (length pre) (pre @ mid @ post) =
     Some (length pre + length mid, pre @ rev (dec_nat v) @ post)"
proof (induction v arbitrary: pre mid rule: less_induct)
  case (less v)
  then obtain x mid' where m: "mid = x # mid'" by (cases mid) auto
  let ?c = "48 + word_of_nat (v mod 10) :: byte"
  have w: "mem_write (length pre) [?c] (pre @ mid @ post) = Some ((pre @ [?c]) @ mid' @ post)"
    using mem_write_last [of pre "[]" ?c x "mid' @ post"] m by simp
  show ?case
  proof (cases "v < 10")
    case True
    then have "dec_nat v = [?c]" by (simp add: dec_nat.simps [of v])
    moreover from this have "mid' = []" using less.prems m by simp
    ultimately show ?thesis using True m w
      by (subst push_digits.simps) (simp add: div_eq_0_iff)
  next
    case False
    then have d: "dec_nat v = dec_nat (v div 10) @ [?c]" by (simp add: dec_nat.simps [of v])
    have "push_digits (v div 10) (length (pre @ [?c])) ((pre @ [?c]) @ mid' @ post) =
        Some (length (pre @ [?c]) + length mid', (pre @ [?c]) @ rev (dec_nat (v div 10)) @ post)"
      using less.prems d m False by (intro less.IH) auto
    then show ?thesis using False m w d by (subst push_digits.simps) (simp add: div_eq_0_iff)
  qed
qed

lemma rev_loop_eq:
  "mid \<noteq> [] \<Longrightarrow>
   rev_loop (length pre) (length pre + length mid - 1) (pre @ mid @ post) = Some (pre @ rev mid @ post)"
proof (induction "length mid" arbitrary: pre mid post rule: less_induct)
  case less
  show ?case
  proof (cases "length mid = 1")
    case True
    then obtain x where "mid = [x]" by (cases mid) auto
    then show ?thesis by (simp add: rev_loop.simps)
  next
    case False
    with less.prems obtain x r where "mid = x # r" "r \<noteq> []" by (cases mid) auto
    then obtain i y where m: "mid = x # i @ [y]" by (metis append_butlast_last_id)
    let ?s = "length pre" and ?p = "length pre + length i + 1"
    have r: "mem_read ?s 1 (pre @ mid @ post) = Some [x]" "mem_read ?p 1 (pre @ mid @ post) = Some [y]"
      using mem_read_append [of pre "[x]" "i @ [y] @ post"]
        mem_read_append [of "pre @ x # i" "[y]" post] m by auto
    have w: "mem_write ?s [y] (pre @ mid @ post) = Some (pre @ y # i @ y # post)"
      "mem_write ?p [x] (pre @ y # i @ y # post) = Some ((pre @ [y]) @ i @ (x # post))"
      using mem_write_append [of "[x]" "[y]" pre "i @ [y] @ post"]
        mem_write_append [of "[y]" "[x]" "pre @ y # i" post] m by auto
    have step: "rev_loop ?s ?p (pre @ mid @ post) = rev_loop (?s + 1) (?p - 1) ((pre @ [y]) @ i @ (x # post))"
      by (subst rev_loop.simps) (simp add: r [simplified] w [simplified])
    also have "\<dots> = Some ((pre @ [y]) @ rev i @ x # post)"
    proof (cases "i = []")
      case True
      then show ?thesis by (simp add: rev_loop.simps)
    next
      case False
      then show ?thesis using less.hyps [of i "pre @ [y]" "x # post"] m by simp
    qed
    finally show ?thesis using m by simp
  qed
qed

lemma finish_num_eq:
  assumes "mid \<noteq> []"
  shows "finish_num (length mid) (mid @ x # post) = Some (rev mid @ 0 # post, length mid)"
  using mem_write_last [of "[]" mid 0 x post] rev_loop_eq [OF assms, of "[]" "0 # post"]
  by (simp add: finish_num_def)

lemma split_buf:
  assumes "n < length b"
  shows "\<exists>mid x. b = mid @ x # drop (n + 1) b \<and> length mid = n"
  using assms id_take_nth_drop [OF assms] by (intro exI [of _ "take n b"]) auto

lemma sdsll2str_eq:
  assumes "fits 8 v" and "v \<noteq> int_min 8" and "length (decimal v) < length b"
  shows "sdsll2str b v =
    Some (decimal v @ 0 # drop (length (decimal v) + 1) b, length (decimal v))"
proof -
  let ?m = "nat \<bar>v\<bar>"
  obtain mid x where b: "b = mid @ x # drop (length (decimal v) + 1) b" "length mid = length (decimal v)"
    using split_buf [OF assms(3)] by blast
  let ?post = "drop (length (decimal v) + 1) b"
  show ?thesis
  proof (cases "v < 0")
    case True
    then have d: "decimal v = 45 # dec_nat ?m" by (simp add: decimal_def)
    then obtain mid' y where m: "mid = mid' @ [y]" "length mid' = length (dec_nat ?m)"
      using b(2) by (cases mid rule: rev_cases) auto
    have p: "push_digits ?m 0 b = Some (length (dec_nat ?m), rev (dec_nat ?m) @ y # x # ?post)"
      using push_digits_eq [OF m(2), of "[]" "y # x # ?post"] b(1) m by simp
    have w: "mem_write (length (dec_nat ?m)) [45] (rev (dec_nat ?m) @ y # x # ?post) =
        Some ((rev (dec_nat ?m) @ [45]) @ x # ?post)"
      using mem_write_last [of "[]" "rev (dec_nat ?m)" 45 y "x # ?post"] by simp
    have f: "finish_num (Suc (length (dec_nat ?m))) ((rev (dec_nat ?m) @ [45]) @ x # ?post) =
        Some (decimal v @ 0 # ?post, length (decimal v))"
      using finish_num_eq [of "rev (dec_nat ?m) @ [45]" x ?post] d by simp
    show ?thesis using assms(2) True p w f by (simp add: sdsll2str_def)
  next
    case False
    then have d: "decimal v = dec_nat ?m" by (simp add: decimal_def)
    have p: "push_digits ?m 0 b = Some (length (dec_nat ?m), rev (dec_nat ?m) @ x # ?post)"
      using push_digits_eq [of mid ?m "[]" "x # ?post"] b d by simp
    have f: "finish_num (length (dec_nat ?m)) (rev (dec_nat ?m) @ x # ?post) =
        Some (decimal v @ 0 # ?post, length (decimal v))"
      using finish_num_eq [of "rev (dec_nat ?m)" x ?post] d by simp
    show ?thesis using assms(2) False p f by (simp add: sdsll2str_def)
  qed
qed

lemma sdsull2str_eq:
  assumes "length (dec_nat v) < length b"
  shows "sdsull2str b v = Some (dec_nat v @ 0 # drop (length (dec_nat v) + 1) b, length (dec_nat v))"
proof -
  obtain mid x where b: "b = mid @ x # drop (length (dec_nat v) + 1) b" "length mid = length (dec_nat v)"
    using split_buf [OF assms] by blast
  let ?post = "drop (length (dec_nat v) + 1) b"
  have p: "push_digits v 0 b = Some (length (dec_nat v), rev (dec_nat v) @ x # ?post)"
    using push_digits_eq [of mid v "[]" "x # ?post"] b by simp
  show ?thesis using p finish_num_eq [of "rev (dec_nat v)" x ?post]
    by (simp add: sdsull2str_def)
qed

lemma sdsfromlonglong_rep:
  assumes "fits 8 v" and "v \<noteq> int_min 8"
  shows "\<exists>s. sdsfromlonglong junk v = Some s \<and> sds_rep s (decimal v)"
proof -
  let ?b = "decimal v @ 0 # drop (length (decimal v) + 1) (map junk [0..<SDS_LLSTR_SIZE])"
  have l: "length (decimal v) < 21" using length_decimal_le [OF assms(1)] by simp
  then have "sdsll2str (map junk [0..<SDS_LLSTR_SIZE]) v = Some (?b, length (decimal v))"
    by (intro sdsll2str_eq assms) (simp add: SDS_LLSTR_SIZE_def)
  then show ?thesis
    using sdsnewlen_rep [of "length (decimal v)" ?b junk] l by (auto simp: sdsfromlonglong_def)
qed

section \<open>Properties\<close>

definition hello :: sdshdr where
  "hello = \<lparr>slen = 5, sfree = 2, sbuf = ascii ''hello'' @ [0, 7, 7]\<rparr>"

lemma hello_rep: "sds_rep hello (ascii ''hello'')"
  unfolding hello_def by (intro sds_repI [of _ "[7, 7]"]) (auto simp: ascii_def)

text \<open>
  C27: Appending, overwriting and zero-extending a dynamic string do to its contents what
  the list operations do, whatever memory a reallocation hands out: the result is
  terminated, its header accounts for the buffer, and no access leaves the buffer. Room is
  guaranteed as long as the string stays a megabyte below the 32-bit length limit.
\<close>

theorem sds_updates_refine:
  assumes "sds_rep s xs" and "n \<le> length t" and "sds_fits (length xs + n)"
  shows "(\<exists>s'. sdscatlen junk s t n = Some s' \<and> sds_rep s' (xs @ take n t)) \<and>
    (\<exists>s'. sdscpylen junk s t n = Some s' \<and> sds_rep s' (take n t)) \<and>
    (\<exists>s'. sdsgrowzero junk n s = Some s' \<and> sds_rep s' (xs @ replicate (n - length xs) 0)) \<and>
    (\<exists>s'. sdsclear s = Some s' \<and> sds_rep s' []) \<and>
    sds_rep (sdsMakeRoomFor junk n s) xs \<and> n \<le> sfree (sdsMakeRoomFor junk n s)"
proof -
  have "sds_fits (max (length xs) n)" using assms(3) by (simp add: max_def)
  then show ?thesis
    using sdscatlen_rep [OF assms(1,3,2), of junk] sdscpylen_rep [OF assms(1) _ assms(2), of junk]
      sdsgrowzero_rep [OF assms(1), of n junk] sdsclear_rep [OF assms(1)]
      sdsMakeRoomFor_rep [OF assms(1,3), of junk] by blast
qed

theorem sds_updates_refine_witness:
  "\<exists>s'. sdscatlen (\<lambda>_. 9) hello (ascii '' world!'') 6 = Some s' \<and> sds_rep s' (ascii ''hello world'')"
proof -
  have "take 6 (ascii '' world!'') = ascii '' world''" by (simp add: ascii_def)
  then show ?thesis
    using sds_updates_refine [OF hello_rep, of 6 "ascii '' world!''" "\<lambda>_. 9"]
    by (simp add: ascii_def SDS_MAX_PREALLOC_def)
qed



text \<open>
  C39: \<open>sdstrim\<close> removes from both ends exactly the longest runs of bytes of the set, and of
  zero bytes, which \<open>strchr\<close> finds in every set.
\<close>

theorem sdstrim_trims:
  assumes "sds_rep s xs"
  shows "\<exists>s'. sdstrim cset s = Some s' \<and> sds_rep s' (trim (in_cset cset) xs)"
  using assms by (rule sdstrim_rep)

theorem sdstrim_trims_witness:
  "\<exists>s'. sdstrim (ascii ''ho'') hello = Some s' \<and> sds_rep s' (ascii ''ell'')"
  using sdstrim_trims [OF hello_rep, of "ascii ''ho''"]
  by (simp add: ascii_def trim_def in_cset_def)

text \<open>
  \<open>sdscmp\<close> is the lexicographic order on the contents, with bytes compared as unsigned
  characters: zero exactly on equal strings, negative when the first is smaller, positive
  when the second is.
\<close>

theorem sdscmp_orders:
  assumes "sds_rep s xs" and "sds_rep t ys" and "length xs < 2 ^ 31" and "length ys < 2 ^ 31"
  shows "(sdscmp s t = 0 \<longleftrightarrow> xs = ys) \<and> (sdscmp s t < 0 \<longrightarrow> bytes_less xs ys) \<and>
    (sdscmp s t > 0 \<longrightarrow> bytes_less ys xs)"
  using assms by (rule sdscmp_rep)

theorem sdscmp_orders_witness: "sdscmp hello hello = 0"
  using sdscmp_orders [OF hello_rep hello_rep] by (simp add: ascii_def)

text \<open>
  The two printers of \<open>util.c\<close> and \<open>sds.c\<close>, one filling pairs of digits from the right,
  the other pushing single digits and reversing them in place, write the same bytes and
  return the same length, for every 64-bit integer but \<open>LLONG_MIN\<close>, whose negation the
  second leaves undefined.
\<close>

theorem sdsll2str_agrees:
  assumes "fits 8 v" and "v \<noteq> int_min 8" and "length (decimal v) < length b"
  shows "sdsll2str b v = ll2string b (length b) v"
  using assms by (simp add: sdsll2str_eq ll2string_eq)

theorem sdsll2str_agrees_witness: "sdsll2str (replicate 21 0) (- 42) = ll2string (replicate 21 0) 21 (- 42)"
proof -
  have "length (decimal (- 42)) < 21" by (simp add: decimal_def dec_nat.simps [of 42] dec_nat.simps [of 4])
  then show ?thesis using sdsll2str_agrees [of "- 42" "replicate 21 0"] by (simp add: fits_def)
qed

lemma sdsll2str_llong_min: "sdsll2str b (int_min 8) = None"
  by (simp add: sdsll2str_def)

text \<open>The example of the comment of \<open>sdstrim\<close> promises \<open>Hello World\<close>.\<close>

lemma sdstrim_comment_example:
  "trim (in_cset (ascii ''A. :'')) (ascii ''AA...AA.a.aa.aHelloWorld     :::'') =
   ascii ''a.aa.aHelloWorld''"
  by (simp add: ascii_def trim_def in_cset_def)

end
