(* ===== verification/Sds_Text.thy ===== *)
theory Sds_Text
  imports Sds "HOL-Library.Sublist"
begin

text \<open>
  The text functions of \<open>sds.c\<close>: \<open>sdscatfmt\<close> on the header and buffer, position by
  position; splitting by a separator; joining; the quoted representation and the argument
  splitter that reads it back. Where a function only appends to a string through
  \<open>sdscatlen\<close>, whose effect \<open>Sds.sds_updates_refine\<close> states, the string is its contents. A C
  string is the list of its bytes, none of them zero.
\<close>

section \<open>sdscatfmt\<close>

datatype fmt_arg = ArgStr "byte list" | ArgSds "byte list" | ArgInt int | ArgUns nat

text \<open>The position \<open>i\<close> is an \<open>int\<close>: a sum that is none is \<open>None\<close>.\<close>

definition adv_int :: "nat \<Rightarrow> nat \<Rightarrow> nat option" where
  "adv_int i l = (if i + l < 2 ^ 31 then Some (i + l) else None)"

text \<open>Write \<open>bs\<close> at position \<open>i\<close>, after making room, and move on.\<close>

definition put_bytes :: "(nat \<Rightarrow> byte) \<Rightarrow> byte list \<Rightarrow> sdshdr \<times> nat \<Rightarrow> (sdshdr \<times> nat) option" where
  "put_bytes junk bs = (\<lambda>(s, i). do {
     let l = length bs;
     let s = (if sfree s < l then sdsMakeRoomFor junk l s else s);
     b \<leftarrow> mem_write i bs (sbuf s);
     i \<leftarrow> adv_int i l;
     Some (s\<lparr>slen := u32_of (slen s + l), sfree := u32_of (sfree s - l), sbuf := b\<rparr>, i) })"

text \<open>\<open>s[i++] = c\<close>, without a test.\<close>

definition put_char :: "byte \<Rightarrow> sdshdr \<times> nat \<Rightarrow> (sdshdr \<times> nat) option" where
  "put_char c = (\<lambda>(s, i). do {
     b \<leftarrow> mem_write i [c] (sbuf s);
     i \<leftarrow> adv_int i 1;
     Some (s\<lparr>slen := u32_of (slen s + 1), sfree := nat ((int (sfree s) - 1) mod 2 ^ 32),
             sbuf := b\<rparr>, i) })"

text \<open>
  The local buffer of \<open>SDS_LLSTR_SIZE\<close> bytes. A type mismatch between the format and the
  arguments and too few arguments are undefined in C.
\<close>

definition fmt_number :: "(nat \<Rightarrow> byte) \<Rightarrow> bool \<Rightarrow> byte \<Rightarrow> fmt_arg \<Rightarrow> byte list option" where
  "fmt_number junk signed' next' arg =
     (let buf = map junk [0..<SDS_LLSTR_SIZE]
      in case arg of
           ArgInt v \<Rightarrow>
             if signed' \<and> fits (if next' = 105 then 4 else 8) v
             then do { (b, l) \<leftarrow> sdsll2str buf v; mem_read 0 l b } else None
         | ArgUns v \<Rightarrow>
             if \<not> signed' \<and> v < 2 ^ (if next' = 117 then 32 else 64)
             then do { (b, l) \<leftarrow> sdsull2str buf v; mem_read 0 l b } else None
         | _ \<Rightarrow> None)"

text \<open>\<open>Make sure there is always space for at least 1 char.\<close>\<close>

definition ensure_one :: "(nat \<Rightarrow> byte) \<Rightarrow> sdshdr \<times> nat \<Rightarrow> sdshdr \<times> nat" where
  "ensure_one junk st =
     (if sfree (fst st) = 0 then (sdsMakeRoomFor junk 1 (fst st), snd st) else st)"

fun catfmt_loop ::
    "(nat \<Rightarrow> byte) \<Rightarrow> byte list \<Rightarrow> fmt_arg list \<Rightarrow> sdshdr \<times> nat \<Rightarrow> (sdshdr \<times> nat) option" where
  "catfmt_loop junk [] args st = Some st"
| "catfmt_loop junk (c # f) args st = do {
     let st = ensure_one junk st;
     (if c = 37 then
        (case f of [] \<Rightarrow> None | next' # f' \<Rightarrow>
           if next' = 115 \<or> next' = 83 then
             (case args of
                ArgStr t # args' \<Rightarrow>
                  if next' = 115 then do { st \<leftarrow> put_bytes junk t st; catfmt_loop junk f' args' st }
                  else None
              | ArgSds t # args' \<Rightarrow>
                  if next' = 83 then do { st \<leftarrow> put_bytes junk t st; catfmt_loop junk f' args' st }
                  else None
              | _ \<Rightarrow> None)
           else if next' = 105 \<or> next' = 73 \<or> next' = 117 \<or> next' = 85 then
             (case args of [] \<Rightarrow> None | a # args' \<Rightarrow> do {
                t \<leftarrow> fmt_number junk (next' = 105 \<or> next' = 73) next' a;
                st \<leftarrow> put_bytes junk t st;
                catfmt_loop junk f' args' st })
           else do { st \<leftarrow> put_char next' st; catfmt_loop junk f' args st })
      else do { st \<leftarrow> put_char c st; catfmt_loop junk f args st }) }"

definition sdscatfmt :: "(nat \<Rightarrow> byte) \<Rightarrow> sdshdr \<Rightarrow> byte list \<Rightarrow> fmt_arg list \<Rightarrow> sdshdr option" where
  "sdscatfmt junk s fmt args = do {
     i \<leftarrow> adv_int 0 (slen s);
     (s, i) \<leftarrow> catfmt_loop junk fmt args (s, i);
     b \<leftarrow> mem_write i [0] (sbuf s);
     Some (s\<lparr>sbuf := b\<rparr>) }"

section \<open>Splitting and joining\<close>

text \<open>
  \<open>slots\<close> is the capacity of the token array; storing a token behind it would be \<open>None\<close>.
  The arguments are lists, so \<open>len < 0\<close> does not arise.
\<close>

function split_loop ::
    "byte list \<Rightarrow> byte list \<Rightarrow> nat \<Rightarrow> nat \<Rightarrow> byte list list \<Rightarrow> nat
     \<Rightarrow> (nat \<times> byte list list \<times> nat) option" where
  "split_loop s sep j start toks slots =
     (if int j < int (length s) - (int (length sep) - 1) \<and> sep \<noteq> [] then
        let slots = (if slots < length toks + 2 then slots * 2 else slots)
        in if (length sep = 1 \<and> s ! j = sep ! 0) \<or> take (length sep) (drop j s) = sep then
             (if length toks < slots
              then split_loop s sep (j + length sep) (j + length sep)
                     (toks @ [take (j - start) (drop start s)]) slots
              else None)
           else split_loop s sep (j + 1) start toks slots
      else Some (start, toks, slots))"
  by pat_completeness auto

termination
  by (relation "measure (\<lambda>(s, sep, j, _). length s - j)") (auto, auto simp: neq_Nil_conv)

declare split_loop.simps [simp del]

text \<open>The outer option is an overrun of the array, the inner one the \<open>NULL\<close> of the code.\<close>

definition sdssplitlen :: "byte list \<Rightarrow> byte list \<Rightarrow> byte list list option option" where
  "sdssplitlen s sep =
     (if length sep < 1 then Some None
      else if s = [] then Some (Some [])
      else do {
        (start, toks, slots) \<leftarrow> split_loop s sep 0 0 [] 5;
        (if length toks < slots then Some (Some (toks @ [drop start s])) else None) })"

fun join_loop :: "byte list \<Rightarrow> byte list list \<Rightarrow> byte list \<Rightarrow> byte list" where
  "join_loop sep [] acc = acc"
| "join_loop sep (a # argv) acc =
     (let acc = acc @ a in join_loop sep argv (if argv \<noteq> [] then acc @ sep else acc))"

definition sdsjoin :: "byte list list \<Rightarrow> byte list \<Rightarrow> byte list" where
  "sdsjoin argv sep = join_loop sep argv []"

section \<open>Quoted representation\<close>

text \<open>The classes of the C locale.\<close>

definition isprint :: "byte \<Rightarrow> bool" where
  "isprint c \<longleftrightarrow> 32 \<le> c \<and> c \<le> 126"

definition isspace :: "byte \<Rightarrow> bool" where
  "isspace c \<longleftrightarrow> c = 32 \<or> 9 \<le> c \<and> c \<le> 13"

definition hex_digit :: "nat \<Rightarrow> byte" where
  "hex_digit n = (if n < 10 then 48 + word_of_nat n else 87 + word_of_nat n)"

definition repr_char :: "byte \<Rightarrow> byte list" where
  "repr_char c =
     (if c = 92 \<or> c = 34 then [92, c]
      else if c = 10 then [92, 110]
      else if c = 13 then [92, 114]
      else if c = 9 then [92, 116]
      else if c = 7 then [92, 97]
      else if c = 8 then [92, 98]
      else if isprint c then [c]
      else [92, 120, hex_digit (unat c div 16), hex_digit (unat c mod 16)])"

fun catrepr_loop :: "byte list \<Rightarrow> byte list \<Rightarrow> byte list" where
  "catrepr_loop s [] = s"
| "catrepr_loop s (c # p) = catrepr_loop (s @ repr_char c) p"

definition sdscatrepr :: "byte list \<Rightarrow> byte list \<Rightarrow> byte list" where
  "sdscatrepr s p = catrepr_loop (s @ [34]) p @ [34]"

definition is_hex_digit :: "byte \<Rightarrow> bool" where
  "is_hex_digit c \<longleftrightarrow> 48 \<le> c \<and> c \<le> 57 \<or> 97 \<le> c \<and> c \<le> 102 \<or> 65 \<le> c \<and> c \<le> 70"

definition hex_digit_to_int :: "byte \<Rightarrow> nat" where
  "hex_digit_to_int c =
     (if 48 \<le> c \<and> c \<le> 57 then unat c - 48
      else if 97 \<le> c \<and> c \<le> 102 then unat c - 87
      else if 65 \<le> c \<and> c \<le> 70 then unat c - 55
      else 0)"

definition unescape :: "byte \<Rightarrow> byte" where
  "unescape c = (if c = 110 then 10 else if c = 114 then 13 else if c = 116 then 9
                 else if c = 98 then 8 else if c = 97 then 7 else c)"

text \<open>One token: in double quotes, in single quotes, or outside. \<open>None\<close> is \<open>goto err\<close>.\<close>

datatype quoting = InQ | InSQ | Unquoted

fun get_token :: "quoting \<Rightarrow> byte list \<Rightarrow> byte list \<Rightarrow> (byte list \<times> byte list) option" where
  "get_token InQ p current =
     (case p of
        [] \<Rightarrow> None
      | c # r \<Rightarrow>
          if c = 92 \<and> length r \<ge> 3 \<and> r ! 0 = 120 \<and> is_hex_digit (r ! 1) \<and> is_hex_digit (r ! 2) then
            get_token InQ (drop 3 r)
              (current @ [word_of_nat (hex_digit_to_int (r ! 1) * 16 + hex_digit_to_int (r ! 2))])
          else if c = 92 \<and> r \<noteq> [] then get_token InQ (drop 1 r) (current @ [unescape (r ! 0)])
          else if c = 34 then
            (if r \<noteq> [] \<and> \<not> isspace (r ! 0) then None else Some (current, r))
          else get_token InQ r (current @ [c]))"
| "get_token InSQ p current =
     (case p of
        [] \<Rightarrow> None
      | c # r \<Rightarrow>
          if c = 92 \<and> r \<noteq> [] \<and> r ! 0 = 39 then get_token InSQ (drop 1 r) (current @ [39])
          else if c = 39 then
            (if r \<noteq> [] \<and> \<not> isspace (r ! 0) then None else Some (current, r))
          else get_token InSQ r (current @ [c]))"
| "get_token Unquoted p current =
     (case p of
        [] \<Rightarrow> Some (current, [])
      | c # r \<Rightarrow>
          if c = 32 \<or> c = 10 \<or> c = 13 \<or> c = 9 then Some (current, r)
          else if c = 34 then get_token InQ r current
          else if c = 39 then get_token InSQ r current
          else get_token Unquoted r (current @ [c]))"

declare get_token.simps [simp del]

lemma get_token_length:
  "get_token q p cur = Some (t, r) \<Longrightarrow> length r \<le> length p \<and> (p \<noteq> [] \<longrightarrow> length r < length p)"
proof (induction q p cur rule: get_token.induct)
  case (1 p cur)
  then show ?case
    using 1(4) [unfolded get_token.simps(1) [of p]]
    by (cases p) (force split: if_splits)+
next
  case (2 p cur)
  then show ?case
    using 2(3) [unfolded get_token.simps(2) [of p]]
    by (cases p) (force split: if_splits)+
next
  case (3 p cur)
  then show ?case
    using 3(4) [unfolded get_token.simps(3) [of p]]
    by (cases p) (force split: if_splits)+
qed

text \<open>The loop over the tokens; an error gives up the whole vector.\<close>

function split_args :: "byte list \<Rightarrow> byte list list \<Rightarrow> byte list list option" where
  "split_args line vector =
     (let p = dropWhile isspace line
      in if p = [] then Some vector
         else case get_token Unquoted p [] of
                None \<Rightarrow> None
              | Some (current, r) \<Rightarrow> split_args r (vector @ [current]))"
  by pat_completeness auto

termination
proof (relation "measure (\<lambda>(line, _). length line)", goal_cases)
  case (2 line vector p x current r)
  then have "length r < length p" using get_token_length [of Unquoted p "[]"] by auto
  moreover have "length p \<le> length line" using 2(1) length_dropWhile_le by simp
  ultimately show ?case by simp
qed simp

declare split_args.simps [simp del]

definition sdssplitargs :: "byte list \<Rightarrow> byte list list option" where
  "sdssplitargs line = split_args line []"

section \<open>Reading back what was quoted\<close>

lemma catrepr_loop_eq: "catrepr_loop s p = s @ concat (map repr_char p)"
  by (induction s p rule: catrepr_loop.induct) auto

lemma sdscatrepr_eq: "sdscatrepr s p = s @ 34 # concat (map repr_char p) @ [34]"
  by (simp add: sdscatrepr_def catrepr_loop_eq)

lemma hex_digits_table:
  "list_all (\<lambda>n. is_hex_digit (hex_digit n) \<and> hex_digit_to_int (hex_digit n) = n) [0..<16]"
  by code_simp

lemma hex_digit [simp]:
  assumes "n < 16"
  shows "is_hex_digit (hex_digit n)" and "hex_digit_to_int (hex_digit n) = n"
  using hex_digits_table assms by (auto simp: list_all_iff)

lemma get_token_repr_char:
  "get_token InQ (repr_char c @ p) cur = get_token InQ p (cur @ [c])"
proof -
  consider (esc) "c = 92 \<or> c = 34" | (ctl) "c \<in> {10, 13, 9, 7, 8}"
    | (plain) "c \<noteq> 92" "c \<noteq> 34" "c \<notin> {10, 13, 9, 7, 8}" "isprint c"
    | (hex) "c \<noteq> 92" "c \<noteq> 34" "c \<notin> {10, 13, 9, 7, 8}" "\<not> isprint c" by blast
  then show ?thesis
  proof cases
    case esc
    then show ?thesis
      by (subst get_token.simps(1)) (auto simp: repr_char_def unescape_def)
  next
    case ctl
    then show ?thesis
      by (subst get_token.simps(1)) (auto simp: repr_char_def unescape_def)
  next
    case plain
    then show ?thesis
      by (subst get_token.simps(1)) (auto simp: repr_char_def)
  next
    case hex
    have "unat c div 16 < 16" "unat c mod 16 < 16"
      using unat_byte_less [of c] by (auto intro: less_mult_imp_div_less)
    then show ?thesis using hex
      by (subst get_token.simps(1)) (auto simp: repr_char_def hex_digit)
  qed
qed

lemma get_token_repr:
  "r = [] \<or> isspace (r ! 0) \<Longrightarrow>
   get_token InQ (concat (map repr_char p) @ 34 # r) cur = Some (cur @ p, r)"
proof (induction p arbitrary: cur)
  case Nil
  then show ?case by (subst get_token.simps(1)) auto
next
  case (Cons c p)
  then show ?case by (simp add: get_token_repr_char)
qed

lemma split_args_repr:
  "split_args (concat (map (\<lambda>p. 32 # sdscatrepr [] p) ps)) v = Some (v @ ps)"
proof (induction ps arbitrary: v)
  case Nil
  then show ?case by (simp add: split_args.simps)
next
  case (Cons p ps)
  let ?r = "concat (map (\<lambda>p. 32 # sdscatrepr [] p) ps)"
  let ?q = "34 # concat (map repr_char p) @ 34 # ?r"
  have r: "?r = [] \<or> isspace (?r ! 0)" by (cases ps) (auto simp: isspace_def)
  have "get_token Unquoted ?q [] = Some (p, ?r)"
    using get_token_repr [OF r, of p "[]"] by (subst get_token.simps(3)) simp
  moreover have "dropWhile isspace (concat (map (\<lambda>p. 32 # sdscatrepr [] p) (p # ps))) = ?q"
    by (simp add: isspace_def sdscatrepr_eq)
  ultimately show ?case using Cons [of "v @ [p]"]
    by (subst split_args.simps) (simp add: Let_def)
qed

text \<open>
  C28: \<open>sdssplitargs\<close> reads back what \<open>sdscatrepr\<close> quotes: a line of quoted strings separated
  by blanks is split into exactly these strings, whatever bytes they hold, quotes,
  backslashes, control characters and zero bytes included.
\<close>

theorem splitargs_catrepr:
  "sdssplitargs (concat (map (\<lambda>p. 32 # sdscatrepr [] p) ps)) = Some ps"
  using split_args_repr [of ps "[]"] by (simp add: sdssplitargs_def)

section \<open>Splitting by a separator\<close>

fun join_with :: "byte list \<Rightarrow> byte list list \<Rightarrow> byte list" where
  "join_with sep [] = []"
| "join_with sep [t] = t"
| "join_with sep (t # ts) = t @ sep @ join_with sep ts"

lemma join_with_snoc: "ts \<noteq> [] \<Longrightarrow> join_with sep (ts @ [t]) = join_with sep ts @ sep @ t"
  by (induction sep ts rule: join_with.induct) (auto simp: neq_Nil_conv)

lemma join_loop_eq: "join_loop sep argv acc = acc @ join_with sep argv"
proof (induction argv arbitrary: acc)
  case Nil
  then show ?case by simp
next
  case (Cons a argv)
  show ?case using Cons [of "acc @ a @ sep"] Cons [of "acc @ a"]
    by (cases argv) (auto simp: Let_def)
qed

lemma sdsjoin_eq: "sdsjoin argv sep = join_with sep argv"
  by (simp add: sdsjoin_def join_loop_eq)

definition matches_at :: "byte list \<Rightarrow> byte list \<Rightarrow> nat \<Rightarrow> bool" where
  "matches_at sep s j \<longleftrightarrow> take (length sep) (drop j s) = sep"

text \<open>The bytes from \<open>start\<close> to \<open>j\<close> hold no separator that starts before \<open>j\<close>.\<close>

lemma no_sublist:
  assumes "\<And>i. start \<le> i \<Longrightarrow> i < j \<Longrightarrow> \<not> matches_at sep s i" and "sep \<noteq> []" and "start \<le> j"
  shows "\<not> sublist sep (take (j - start) (drop start s))"
proof
  assume "sublist sep (take (j - start) (drop start s))"
  then obtain ps ss where e: "take (j - start) (drop start s) = ps @ sep @ ss" by (auto simp: sublist_def)
  then have l: "length ps + length sep \<le> j - start"
  proof -
    have "length (ps @ sep @ ss) \<le> j - start" unfolding e [symmetric] by simp
    then show ?thesis by simp
  qed
  have "drop start s = ps @ sep @ ss @ drop (j - start) (drop start s)"
    using append_take_drop_id [of "j - start" "drop start s"] e by simp
  then have "drop (start + length ps) s = sep @ ss @ drop (j - start) (drop start s)"
  proof -
    assume d: "drop start s = ps @ sep @ ss @ drop (j - start) (drop start s)"
    have "drop (start + length ps) s = drop (length ps) (drop start s)"
      by (simp only: drop_drop add.commute)
    also have "\<dots> = drop (length ps) (ps @ sep @ ss @ drop (j - start) (drop start s))"
      by (rule arg_cong [OF d])
    also have "\<dots> = sep @ ss @ drop (j - start) (drop start s)" by simp
    finally show ?thesis .
  qed
  then have "matches_at sep s (start + length ps)" by (simp add: matches_at_def)
  moreover have "start + length ps < j" using l assms(2,3) by (cases sep) auto
  ultimately show False using assms(1) [of "start + length ps"] by simp
qed

definition split_inv :: "byte list \<Rightarrow> byte list \<Rightarrow> nat \<Rightarrow> nat \<Rightarrow> byte list list \<Rightarrow> nat \<Rightarrow> bool" where
  "split_inv s sep j start toks slots \<longleftrightarrow>
     start \<le> j \<and> j \<le> length s \<and> length toks < slots \<and>
     (\<forall>i. start \<le> i \<and> i < j \<longrightarrow> \<not> matches_at sep s i) \<and>
     (\<forall>t \<in> set toks. \<not> sublist sep t) \<and>
     (\<forall>x. join_with sep (toks @ [x]) = take start s @ x)"

lemma split_inv_push:
  assumes "split_inv s sep j start toks slots" and "matches_at sep s j" and "sep \<noteq> []"
    and "j + length sep \<le> length s" and "length toks + 2 \<le> slots'"
  shows "split_inv s sep (j + length sep) (j + length sep)
           (toks @ [take (j - start) (drop start s)]) slots'"
proof -
  let ?t = "take (j - start) (drop start s)"
  have inv: "start \<le> j" "\<forall>i. start \<le> i \<and> i < j \<longrightarrow> \<not> matches_at sep s i"
    "\<forall>t \<in> set toks. \<not> sublist sep t" "\<And>x. join_with sep (toks @ [x]) = take start s @ x"
    using assms(1) by (auto simp: split_inv_def)
  have "\<not> sublist sep ?t" using inv(1,2) assms(3) by (intro no_sublist) auto
  moreover have "join_with sep ((toks @ [?t]) @ [x]) = take (j + length sep) s @ x" for x
  proof -
    have "join_with sep ((toks @ [?t]) @ [x]) = (take start s @ ?t) @ sep @ x"
      using join_with_snoc [of "toks @ [?t]" sep x] inv(4) [of ?t] by simp
    also have "take start s @ ?t = take j s"
      using inv(1) take_add [of start "j - start" s] by simp
    also have "take j s @ sep @ x = take (j + length sep) s @ x"
      using assms(2) by (simp add: take_add matches_at_def)
    finally show ?thesis .
  qed
  ultimately show ?thesis using inv(3) assms(4,5) by (auto simp: split_inv_def)
qed

lemma split_inv_step:
  assumes "split_inv s sep j start toks slots" and "\<not> matches_at sep s j"
    and "j < length s" and "slots \<le> slots'"
  shows "split_inv s sep (j + 1) start toks slots'"
  using assms by (auto simp: split_inv_def less_Suc_eq)

lemma split_loop_inv:
  "split_inv s sep j start toks slots \<Longrightarrow> sep \<noteq> [] \<Longrightarrow>
   \<exists>j' start' toks' slots'. split_loop s sep j start toks slots = Some (start', toks', slots') \<and>
     split_inv s sep j' start' toks' slots' \<and> length s < j' + length sep"
proof (induction s sep j start toks slots rule: split_loop.induct)
  case (1 s sep j start toks slots)
  let ?slots = "if slots < length toks + 2 then slots * 2 else slots"
  have g: "int j < int (length s) - (int (length sep) - 1) \<longleftrightarrow> j + length sep \<le> length s" by linarith
  show ?case
  proof (cases "j + length sep \<le> length s")
    case False
    then have "split_loop s sep j start toks slots = Some (start, toks, slots)"
      by (subst split_loop.simps) (simp add: g)
    then show ?thesis using 1(3) False by auto
  next
    case True
    have t: "int j < int (length s) - (int (length sep) - 1) \<and> sep \<noteq> []" using True 1(4) g by simp
    have jl: "j < length s" using True 1(4) by (cases sep) auto
    have sl: "length toks + 2 \<le> ?slots" "length toks < ?slots" "slots \<le> ?slots"
      using 1(3) by (auto simp: split_inv_def)
    have m: "(length sep = 1 \<and> s ! j = sep ! 0) \<or> take (length sep) (drop j s) = sep \<longleftrightarrow>
        matches_at sep s j"
      using jl by (cases sep) (auto simp: matches_at_def Cons_nth_drop_Suc [symmetric])
    have eq: "split_loop s sep j start toks slots =
        (if matches_at sep s j
         then split_loop s sep (j + length sep) (j + length sep)
                (toks @ [take (j - start) (drop start s)]) ?slots
         else split_loop s sep (j + 1) start toks ?slots)"
      by (subst split_loop.simps) (simp only: t if_True Let_def m sl(2) simp_thms)
    show ?thesis
    proof (cases "matches_at sep s j")
      case match: True
      show ?thesis
        using 1(1) [OF t refl _ sl(2)] m match split_inv_push [OF 1(3) match 1(4) True sl(1)] 1(4)
        unfolding eq by auto
    next
      case nomatch: False
      show ?thesis
        using 1(2) [OF t refl] m nomatch split_inv_step [OF 1(3) nomatch jl sl(3)] 1(4)
        unfolding eq by auto
    qed
  qed
qed



lemma sdssplitlen_empty: "sep \<noteq> [] \<Longrightarrow> sdssplitlen [] sep = Some (Some [])"
  by (simp add: sdssplitlen_def Suc_le_eq)

section \<open>Formatting\<close>

text \<open>What a format and its arguments stand for.\<close>

definition arg_text :: "byte \<Rightarrow> fmt_arg \<Rightarrow> byte list option" where
  "arg_text c a =
     (case a of
        ArgStr t \<Rightarrow> if c = 115 then Some t else None
      | ArgSds t \<Rightarrow> if c = 83 then Some t else None
      | ArgInt v \<Rightarrow> if (c = 105 \<and> fits 4 v) \<or> (c = 73 \<and> fits 8 v \<and> v \<noteq> int_min 8)
                    then Some (decimal v) else None
      | ArgUns v \<Rightarrow> if (c = 117 \<and> v < 2 ^ 32) \<or> (c = 85 \<and> v < 2 ^ 64)
                    then Some (dec_nat v) else None)"

abbreviation is_directive :: "byte \<Rightarrow> bool" where
  "is_directive c \<equiv> c = 115 \<or> c = 83 \<or> c = 105 \<or> c = 73 \<or> c = 117 \<or> c = 85"

fun fmt_text :: "byte list \<Rightarrow> fmt_arg list \<Rightarrow> byte list option" where
  "fmt_text [] args = Some []"
| "fmt_text (c # f) args =
     (if c \<noteq> 37 then map_option ((#) c) (fmt_text f args)
      else case f of [] \<Rightarrow> None | d # f' \<Rightarrow>
        if \<not> is_directive d then map_option ((#) d) (fmt_text f' args)
        else case args of [] \<Rightarrow> None | a # args' \<Rightarrow> do {
          t \<leftarrow> arg_text d a; r \<leftarrow> fmt_text f' args'; Some (t @ r) })"

text \<open>Between two steps the byte behind the contents is arbitrary.\<close>

definition sds_open :: "sdshdr \<times> nat \<Rightarrow> byte list \<Rightarrow> bool" where
  "sds_open st xs \<longleftrightarrow>
     (\<exists>z ys. st = (\<lparr>slen = length xs, sfree = length ys, sbuf = xs @ z # ys\<rparr>, length xs) \<and>
             length xs + length ys < 2 ^ 32)"

lemma fits_int: "n < 2 ^ 31 \<Longrightarrow> sds_fits n"
  by (simp add: SDS_MAX_PREALLOC_def)

lemma put_bytes_open:
  assumes "sds_open st xs" and lt: "length xs + length bs < 2 ^ 31"
  shows "\<exists>st'. put_bytes junk bs st = Some st' \<and> sds_open st' (xs @ bs)"
proof -
  obtain z ys where st: "st = (\<lparr>slen = length xs, sfree = length ys, sbuf = xs @ z # ys\<rparr>, length xs)"
    and b: "length xs + length ys < 2 ^ 32" using assms(1) by (auto simp: sds_open_def)
  let ?s = "\<lparr>slen = length xs, sfree = length ys, sbuf = xs @ z # ys\<rparr>"
  obtain zs where m: "(if sfree ?s < length bs then sdsMakeRoomFor junk (length bs) ?s else ?s) =
      \<lparr>slen = length xs, sfree = length zs, sbuf = xs @ z # zs\<rparr>"
    and zs: "length bs \<le> length zs" "length xs + length zs < 2 ^ 32"
  proof (cases "length ys < length bs")
    case True
    obtain zs where "sdsMakeRoomFor junk (length bs) ?s = \<lparr>slen = length xs, sfree = length zs, sbuf = xs @ z # zs\<rparr>"
      "length bs \<le> length zs" "length xs + length zs < 2 ^ 32"
      by (rule make_room_any [OF refl b fits_int [OF assms(2)], of junk z])
    with that [of zs] True show ?thesis by simp
  next
    case False
    with that [of ys] b show ?thesis by simp
  qed
  have w: "mem_write (length xs) bs (xs @ z # zs) = Some (xs @ bs @ drop (length bs) (z # zs))"
    using zs by (simp add: mem_simps)
  obtain y rs where r: "drop (length bs) (z # zs) = y # rs" "length rs = length zs - length bs"
    using zs by (metis (no_types, lifting) Cons_nth_drop_Suc drop_Suc_Cons le_imp_less_Suc length_Cons length_drop)
  have u: "u32_of (length xs + length bs) = length xs + length bs"
    "u32_of (length zs - length bs) = length rs" using zs r by auto
  show ?thesis
    using zs r u lt unfolding st put_bytes_def prod.case Let_def m
    by (simp add: w [unfolded r(1)] adv_int_def) (auto simp: sds_open_def)
qed

lemma put_char_open:
  assumes "sds_open st xs" and "0 < sfree (fst st)" and "length xs + 1 < 2 ^ 31"
  shows "\<exists>st'. put_char c st = Some st' \<and> sds_open st' (xs @ [c])"
proof -
  obtain z ys where st: "st = (\<lparr>slen = length xs, sfree = length ys, sbuf = xs @ z # ys\<rparr>, length xs)"
    and b: "length xs + length ys < 2 ^ 32" using assms(1) by (auto simp: sds_open_def)
  then obtain y zs where ys: "ys = y # zs" using assms(2) by (cases ys) auto
  have w: "mem_write (length xs) [c] (xs @ z # ys) = Some (xs @ c # ys)"
    using mem_write_last [of xs "[]" c z ys] by simp
  have f: "nat ((int (length ys) - 1) mod 2 ^ 32) = length zs" using ys b by simp
  show ?thesis using b f w assms(3) unfolding ys
    by (auto simp: st ys put_char_def sds_open_def adv_int_def)
qed

lemma ensure_one_open:
  assumes "sds_open st xs" and "sds_fits (length xs + 1)"
  shows "sds_open (ensure_one junk st) xs \<and> 0 < sfree (fst (ensure_one junk st))"
proof -
  obtain z ys where st: "st = (\<lparr>slen = length xs, sfree = length ys, sbuf = xs @ z # ys\<rparr>, length xs)"
    and b: "length xs + length ys < 2 ^ 32" using assms(1) by (auto simp: sds_open_def)
  show ?thesis
  proof (cases "ys = []")
    case True
    obtain zs where m: "sdsMakeRoomFor junk 1 (fst st) = \<lparr>slen = length xs, sfree = length zs, sbuf = xs @ z # zs\<rparr>"
      and zs: "1 \<le> length zs" "length xs + length zs < 2 ^ 32"
      using make_room_any [OF _ b assms(2), of "fst st" z junk] st by auto
    show ?thesis using True st zs unfolding ensure_one_def m by (auto simp: sds_open_def)
  next
    case False
    then show ?thesis using assms(1) st by (simp add: ensure_one_def)
  qed
qed

lemma fmt_number_text:
  assumes "arg_text c a = Some t" and "c \<in> {105, 73, 117, 85}"
  shows "fmt_number junk (c = 105 \<or> c = 73) c a = Some t"
proof (cases a)
  case (ArgInt v)
  then have v: "fits (if c = 105 then 4 else 8) v" "fits 8 v" "v \<noteq> int_min 8" "c = 105 \<or> c = 73"
    "t = decimal v"
    using assms by (auto simp: arg_text_def fits_def split: if_splits)
  have "length (decimal v) < length (map junk [0..<SDS_LLSTR_SIZE])"
    using length_decimal_le [OF v(2)] by (simp add: SDS_LLSTR_SIZE_def)
  from sdsll2str_eq [OF v(2,3) this] show ?thesis
    using ArgInt v by (simp add: fmt_number_def Let_def mem_read_def)
next
  case (ArgUns v)
  then have v: "v < 2 ^ (if c = 117 then 32 else 64)" "v < 2 ^ 64" "c = 117 \<or> c = 85" "t = dec_nat v"
    using assms by (auto simp: arg_text_def split: if_splits)
  have "length (dec_nat v) \<le> 20" using v(2) by (intro length_dec_nat_le) auto
  then have "length (dec_nat v) < length (map junk [0..<SDS_LLSTR_SIZE])"
    by (simp add: SDS_LLSTR_SIZE_def)
  from sdsull2str_eq [OF this] show ?thesis
    using ArgUns v by (auto simp add: fmt_number_def Let_def mem_read_def)
qed (use assms in \<open>auto simp: arg_text_def split: if_splits\<close>)

lemma catfmt_loop_open:
  "fmt_text f args = Some out \<Longrightarrow> sds_open st xs \<Longrightarrow> length xs + length out + 1 < 2 ^ 31 \<Longrightarrow>
   \<exists>st'. catfmt_loop junk f args st = Some st' \<and> sds_open st' (xs @ out)"
proof (induction f args arbitrary: st xs out rule: fmt_text.induct)
  case (1 args)
  then show ?case by simp
next
  case (2 c f args)
  let ?st = "ensure_one junk st"
  have e: "sds_open ?st xs" "0 < sfree (fst ?st)"
    using ensure_one_open [OF 2(5) fits_int, of junk] 2(6) by auto
  consider (plain) "c \<noteq> 37" | (verb) d f' where "c = 37" "f = d # f'" "\<not> is_directive d"
    | (dir) d f' where "c = 37" "f = d # f'" "is_directive d"
    using 2(4) by (cases f; cases "c = 37") auto
  then show ?case
  proof cases
    case plain
    with 2(4) obtain r where r: "fmt_text f args = Some r" "out = c # r" by auto
    obtain st1 where s1: "put_char c ?st = Some st1" "sds_open st1 (xs @ [c])"
      using put_char_open [OF e, of c] 2(6) r(2) by auto
    from 2(1) [OF plain r(1) s1(2)] 2(6) r(2) show ?thesis
      using plain s1(1) r(2) by (simp add: Let_def)
  next
    case verb
    with 2(4) obtain r where r: "fmt_text f' args = Some r" "out = d # r" by auto
    obtain st1 where s1: "put_char d ?st = Some st1" "sds_open st1 (xs @ [d])"
      using put_char_open [OF e, of d] 2(6) r(2) by auto
    have "\<not> c \<noteq> 37" using verb by simp
    from 2(2) [OF this verb(2,3) r(1) s1(2)] 2(6) r(2) show ?thesis
      using verb s1(1) r(2) by (simp add: Let_def)
  next
    case dir
    with 2(4) obtain a args' t r where a: "args = a # args'" "arg_text d a = Some t"
      "fmt_text f' args' = Some r" "out = t @ r"
      by (auto split: list.splits simp: bind_eq_Some_conv)
    have "length xs + length t < 2 ^ 31" using 2(6) a(4) by simp
    then obtain st1 where s1: "put_bytes junk t ?st = Some st1" "sds_open st1 (xs @ t)"
      using put_bytes_open [OF e(1)] by blast
    have "\<not> c \<noteq> 37" "\<not> \<not> is_directive d" using dir by simp_all
    moreover have "length (xs @ t) + length r + 1 < 2 ^ 31" using 2(6) a(4) by simp
    ultimately obtain st2 where "catfmt_loop junk f' args' st1 = Some st2"
      "sds_open st2 ((xs @ t) @ r)"
      using 2(3) [OF _ dir(2) _ a(1) a(2) a(3) s1(2)] by blast
    then have s2: "catfmt_loop junk f' args' st1 = Some st2" "sds_open st2 (xs @ out)"
      using a(4) by simp_all
    have "catfmt_loop junk (c # f) args st = catfmt_loop junk f' args' st1"
    proof (cases "d = 115 \<or> d = 83")
      case True
      then have "a = ArgStr t \<and> d = 115 \<or> a = ArgSds t \<and> d = 83"
        using a(2) by (auto simp: arg_text_def split: fmt_arg.splits if_splits)
      then show ?thesis using dir(1,2) a(1) s1(1) by (auto simp: Let_def)
    next
      case False
      with dir(3) have "d \<in> {105, 73, 117, 85}" by auto
      then have "fmt_number junk (d = 105 \<or> d = 73) d a = Some t"
        using fmt_number_text [OF a(2)] by blast
      then show ?thesis using dir a(1) s1(1) False by (simp add: Let_def)
    qed
    with s2 show ?thesis by simp
  qed
qed

text \<open>
  \<open>sdscatfmt\<close> appends exactly the text its format stands for: plain bytes, strings of
  both kinds, signed and unsigned numbers of 32 and 64 bits, and the byte itself after a
  \<open>%\<close> that introduces no directive. Every byte is written inside the buffer, although the
  room for single bytes is only tested for one byte at the start of each round, and the
  result is terminated.
\<close>

theorem sdscatfmt_formats:
  assumes "fmt_text fmt args = Some out" and "sds_rep s xs"
    and "length xs + length out + 1 < 2 ^ 31"
  shows "\<exists>s'. sdscatfmt junk s fmt args = Some s' \<and> sds_rep s' (xs @ out)"
proof -
  have "sds_open (s, slen s) xs" using assms(2) by (auto elim!: sds_repE simp: sds_open_def)
  from catfmt_loop_open [OF assms(1) this assms(3)] obtain st where
    l: "catfmt_loop junk fmt args (s, slen s) = Some st" "sds_open st (xs @ out)" by blast
  then obtain z ys where st: "st = (\<lparr>slen = length (xs @ out), sfree = length ys,
      sbuf = (xs @ out) @ z # ys\<rparr>, length (xs @ out))"
    and b: "length (xs @ out) + length ys < 2 ^ 32" by (auto simp: sds_open_def)
  have w: "mem_write (length (xs @ out)) [0] ((xs @ out) @ z # ys) = Some ((xs @ out) @ 0 # ys)"
    using mem_write_last [of "xs @ out" "[]" 0 z ys] by simp
  have "adv_int 0 (slen s) = Some (slen s)"
    using assms(2,3) by (auto elim!: sds_repE simp: adv_int_def)
  then show ?thesis using l(1) w b unfolding st sdscatfmt_def
    by (auto intro!: sds_repI [of _ ys])
qed

theorem sdscatfmt_formats_witness:
  "\<exists>s'. sdscatfmt (\<lambda>_. 9) hello (ascii '' %s:%i%%'') [ArgStr (ascii ''x''), ArgInt (- 7)] = Some s' \<and>
     sds_rep s' (ascii ''hello x:-7%'')"
proof -
  have "fmt_text (ascii '' %s:%i%%'') [ArgStr (ascii ''x''), ArgInt (- 7)] = Some (ascii '' x:-7%'')"
    by (simp add: ascii_def arg_text_def fits_def decimal_def dec_nat.simps [of 7])
  from sdscatfmt_formats [OF this hello_rep, of "\<lambda>_. 9"] show ?thesis
    by (simp add: ascii_def SDS_MAX_PREALLOC_def)
qed

text \<open>A format that ends in \<open>%\<close> makes the loop step over its terminator.\<close>

lemma sdscatfmt_trailing_percent: "sdscatfmt junk s [37] args = None"
  by (simp add: sdscatfmt_def)

end
