(* ===== verification/Intset.thy ===== *)
theory Intset
  imports Endianconv
begin

text \<open>
  \<open>intset.c\<close>: a sorted set of integers in one block, every member stored in the same
  number of bytes (2, 4 or 8), widened when a member does not fit. The header fields hold
  the values \<open>intrev32ifbe\<close> reads; the contents are the raw bytes, read and written through
  the \<open>memrevNNifbe\<close> macros of the host \<open>be\<close>. \<open>None\<close> is an access outside the block;
  \<open>junk\<close> fills what \<open>zrealloc\<close> adds.

  The abstraction is \<open>iset_rep is xs\<close>: the block holds the strictly ascending list \<open>xs\<close>.
\<close>

section \<open>Data and access\<close>

record intset =
  encoding :: nat
  ilength :: nat
  contents :: "byte list"

definition INTSET_ENC_INT16 :: nat where "INTSET_ENC_INT16 = 2"
definition INTSET_ENC_INT32 :: nat where "INTSET_ENC_INT32 = 4"
definition INTSET_ENC_INT64 :: nat where "INTSET_ENC_INT64 = 8"

lemmas enc_defs = INTSET_ENC_INT16_def INTSET_ENC_INT32_def INTSET_ENC_INT64_def

definition u_intsetValueEncoding :: "int \<Rightarrow> nat" where
  "u_intsetValueEncoding v =
     (if v < int_min 4 \<or> v > int_max 4 then INTSET_ENC_INT64
      else if v < int_min 2 \<or> v > int_max 2 then INTSET_ENC_INT32
      else INTSET_ENC_INT16)"

text \<open>A signed integer in the byte order of the host.\<close>

definition host_load :: "bool \<Rightarrow> byte list \<Rightarrow> int" where
  "host_load be bs = load_int (if be then rev bs else bs)"

definition host_store :: "bool \<Rightarrow> nat \<Rightarrow> int \<Rightarrow> byte list" where
  "host_store be n v = (if be then rev (store_int n v) else store_int n v)"

text \<open>\<open>((intN_t*)contents)+pos\<close>; a negative position is in front of the block.\<close>

definition elem_off :: "int \<Rightarrow> nat \<Rightarrow> nat option" where
  "elem_off pos n = (if pos < 0 then None else Some (nat pos * n))"

definition u_intsetGetEncoded :: "bool \<Rightarrow> intset \<Rightarrow> int \<Rightarrow> nat \<Rightarrow> int option" where
  "u_intsetGetEncoded be is pos enc =
     (if enc = INTSET_ENC_INT64 then do {
        off \<leftarrow> elem_off pos 8; v64 \<leftarrow> mem_read off 8 (contents is);
        v64 \<leftarrow> memrev64ifbe be v64; Some (host_load be v64) }
      else if enc = INTSET_ENC_INT32 then do {
        off \<leftarrow> elem_off pos 4; v32 \<leftarrow> mem_read off 4 (contents is);
        v32 \<leftarrow> memrev32ifbe be v32; Some (host_load be v32) }
      else do {
        off \<leftarrow> elem_off pos 2; v16 \<leftarrow> mem_read off 2 (contents is);
        v16 \<leftarrow> memrev16ifbe be v16; Some (host_load be v16) })"

definition u_intsetGet :: "bool \<Rightarrow> intset \<Rightarrow> int \<Rightarrow> int option" where
  "u_intsetGet be is pos = u_intsetGetEncoded be is pos (encoding is)"

definition u_intsetSet :: "bool \<Rightarrow> intset \<Rightarrow> int \<Rightarrow> int \<Rightarrow> intset option" where
  "u_intsetSet be is pos v =
     (if encoding is = INTSET_ENC_INT64 then do {
        off \<leftarrow> elem_off pos 8; c \<leftarrow> mem_write off (host_store be 8 v) (contents is);
        x \<leftarrow> mem_read off 8 c; x \<leftarrow> memrev64ifbe be x; c \<leftarrow> mem_write off x c;
        Some (is\<lparr>contents := c\<rparr>) }
      else if encoding is = INTSET_ENC_INT32 then do {
        off \<leftarrow> elem_off pos 4; c \<leftarrow> mem_write off (host_store be 4 v) (contents is);
        x \<leftarrow> mem_read off 4 c; x \<leftarrow> memrev32ifbe be x; c \<leftarrow> mem_write off x c;
        Some (is\<lparr>contents := c\<rparr>) }
      else do {
        off \<leftarrow> elem_off pos 2; c \<leftarrow> mem_write off (host_store be 2 v) (contents is);
        x \<leftarrow> mem_read off 2 c; x \<leftarrow> memrev16ifbe be x; c \<leftarrow> mem_write off x c;
        Some (is\<lparr>contents := c\<rparr>) })"

section \<open>Operations\<close>

definition intsetNew :: intset where
  "intsetNew = \<lparr>encoding = INTSET_ENC_INT16, ilength = 0, contents = []\<rparr>"

text \<open>The size is a \<open>uint32_t\<close> product.\<close>

definition intsetResize :: "(nat \<Rightarrow> byte) \<Rightarrow> nat \<Rightarrow> intset \<Rightarrow> intset" where
  "intsetResize junk n is =
     is\<lparr>contents := mem_realloc junk (n * encoding is mod 2 ^ 32) (contents is)\<rparr>"

text \<open>The binary search; \<open>min\<close> and \<open>max\<close> are \<open>int\<close>s, their sum is unsigned.\<close>

partial_function (option) search_loop ::
    "bool \<Rightarrow> intset \<Rightarrow> int \<Rightarrow> int \<Rightarrow> int \<Rightarrow> int \<Rightarrow> int \<Rightarrow> (int \<times> int \<times> int) option" where
  "search_loop be is v lo hi mid cur =
     (if lo \<le> hi then do {
        let mid = ((lo mod 2 ^ 32 + hi mod 2 ^ 32) mod 2 ^ 32) div 2;
        cur \<leftarrow> u_intsetGet be is mid;
        if v > cur then search_loop be is v (mid + 1) hi mid cur
        else if v < cur then search_loop be is v lo (mid - 1) mid cur
        else Some (lo, mid, cur) }
      else Some (lo, mid, cur))"

definition intsetSearch :: "bool \<Rightarrow> intset \<Rightarrow> int \<Rightarrow> (bool \<times> int) option" where
  "intsetSearch be is v =
     (if ilength is = 0 then Some (False, 0)
      else do {
        last' \<leftarrow> u_intsetGet be is (s32 (int (ilength is) - 1));
        if v > last' then Some (False, int (ilength is))
        else do {
          first \<leftarrow> u_intsetGet be is 0;
          if v < first then Some (False, 0)
          else do {
            (lo, mid, cur) \<leftarrow> search_loop be is v 0 (s32 (int (ilength is) - 1)) (-1) (-1);
            if v = cur then Some (True, mid) else Some (False, lo) } } })"

text \<open>
  \<open>while(length--)\<close>: the members are widened from the last to the first. \<open>length\<close> is an
  \<open>int\<close>; a set too large for it would start below zero.
\<close>

fun upgrade_loop :: "bool \<Rightarrow> nat \<Rightarrow> nat \<Rightarrow> nat \<Rightarrow> intset \<Rightarrow> intset option" where
  "upgrade_loop be curenc prepend 0 is = Some is"
| "upgrade_loop be curenc prepend (Suc n) is = do {
     v \<leftarrow> u_intsetGetEncoded be is (int n) curenc;
     is \<leftarrow> u_intsetSet be is (int (n + prepend)) v;
     upgrade_loop be curenc prepend n is }"

definition intsetUpgradeAndAdd :: "bool \<Rightarrow> (nat \<Rightarrow> byte) \<Rightarrow> intset \<Rightarrow> int \<Rightarrow> intset option" where
  "intsetUpgradeAndAdd be junk is v = do {
     let curenc = encoding is;
     let newenc = u_intsetValueEncoding v;
     let prepend = (if v < 0 then 1 else 0);
     let is = is\<lparr>encoding := newenc\<rparr>;
     let is = intsetResize junk ((ilength is + 1) mod 2 ^ 32) is;
     is \<leftarrow> (if ilength is < 2 ^ 31 then upgrade_loop be curenc prepend (ilength is) is else None);
     is \<leftarrow> (if prepend = 1 then u_intsetSet be is 0 v
            else u_intsetSet be is (s32 (int (ilength is))) v);
     Some (is\<lparr>ilength := (ilength is + 1) mod 2 ^ 32\<rparr>) }"

definition intsetMoveTail :: "nat \<Rightarrow> nat \<Rightarrow> intset \<Rightarrow> intset option" where
  "intsetMoveTail from' to' is = do {
     let n = nat ((int (ilength is) - int from') mod 2 ^ 32);
     let w = (if encoding is = INTSET_ENC_INT64 then 8
              else if encoding is = INTSET_ENC_INT32 then 4 else 2);
     c \<leftarrow> mem_move (to' * w) (from' * w) (n * w mod 2 ^ 32) (contents is);
     Some (is\<lparr>contents := c\<rparr>) }"

text \<open>The new block and \<open>*success\<close>. A position the search found is a \<open>uint32_t\<close>.\<close>

definition intsetAdd :: "bool \<Rightarrow> (nat \<Rightarrow> byte) \<Rightarrow> intset \<Rightarrow> int \<Rightarrow> (intset \<times> bool) option" where
  "intsetAdd be junk is v =
     (if u_intsetValueEncoding v > encoding is then do {
        is \<leftarrow> intsetUpgradeAndAdd be junk is v; Some (is, True) }
      else do {
        (found, p) \<leftarrow> intsetSearch be is v;
        let pos = nat (p mod 2 ^ 32);
        if found then Some (is, False)
        else do {
          let is = intsetResize junk ((ilength is + 1) mod 2 ^ 32) is;
          is \<leftarrow> (if pos < ilength is then intsetMoveTail pos (pos + 1) is else Some is);
          is \<leftarrow> u_intsetSet be is (s32 (int pos)) v;
          Some (is\<lparr>ilength := (ilength is + 1) mod 2 ^ 32\<rparr>, True) } })"

definition intsetRemove :: "bool \<Rightarrow> (nat \<Rightarrow> byte) \<Rightarrow> intset \<Rightarrow> int \<Rightarrow> (intset \<times> bool) option" where
  "intsetRemove be junk is v =
     (if u_intsetValueEncoding v \<le> encoding is then do {
        (found, p) \<leftarrow> intsetSearch be is v;
        let pos = nat (p mod 2 ^ 32);
        if found then do {
          let n = ilength is;
          is \<leftarrow> (if pos < n - 1 then intsetMoveTail (pos + 1) pos is else Some is);
          let is = intsetResize junk (n - 1) is;
          Some (is\<lparr>ilength := n - 1\<rparr>, True) }
        else Some (is, False) }
      else Some (is, False))"

definition intsetFind :: "bool \<Rightarrow> intset \<Rightarrow> int \<Rightarrow> bool option" where
  "intsetFind be is v =
     (if u_intsetValueEncoding v \<le> encoding is
      then map_option fst (intsetSearch be is v) else Some False)"

text \<open>\<open>r\<close> is the value \<open>rand\<close> returns; the remainder of a division by 0 is undefined.\<close>

definition intsetRandom :: "bool \<Rightarrow> nat \<Rightarrow> intset \<Rightarrow> int option" where
  "intsetRandom be r is =
     (if ilength is = 0 then None else u_intsetGet be is (s32 (int (r mod ilength is))))"

definition intsetGet :: "bool \<Rightarrow> intset \<Rightarrow> nat \<Rightarrow> (bool \<times> int) option" where
  "intsetGet be is pos =
     (if pos < ilength is then do { v \<leftarrow> u_intsetGet be is (s32 (int pos)); Some (True, v) }
      else Some (False, 0))"

definition intsetLen :: "intset \<Rightarrow> nat" where
  "intsetLen is = ilength is"

definition intsetBlobLen :: "intset \<Rightarrow> nat" where
  "intsetBlobLen is = 8 + ilength is * encoding is mod 2 ^ 32"

section \<open>Reading and writing one member\<close>

lemma u_intsetValueEncoding_cases: "u_intsetValueEncoding v \<in> {2, 4, 8}"
  by (simp add: u_intsetValueEncoding_def enc_defs)

lemma u_intsetValueEncoding_le:
  assumes "fits 8 v" and "e \<in> {2, 4, 8}"
  shows "u_intsetValueEncoding v \<le> e \<longleftrightarrow> fits e v"
  using assms by (auto simp: u_intsetValueEncoding_def enc_defs fits_def)

lemma fits_mono:
  assumes "d \<le> e" and "d \<in> {2, 4, 8}" and "e \<in> {2, 4, 8}" and "fits d v" shows "fits e v"
  using assms by (auto simp: fits_def)

definition memrevifbe :: "bool \<Rightarrow> byte list \<Rightarrow> byte list" where
  "memrevifbe be x = (if be then rev x else x)"

lemma memrevifbe_eqs:
  "length x = 2 \<Longrightarrow> memrev16ifbe be x = Some (memrevifbe be x)"
  "length x = 4 \<Longrightarrow> memrev32ifbe be x = Some (memrevifbe be x)"
  "length x = 8 \<Longrightarrow> memrev64ifbe be x = Some (memrevifbe be x)"
  by (simp_all add: memrev16ifbe_def memrev32ifbe_def memrev64ifbe_def memrevifbe_def memrev_rev)

lemma host_load_memrev [simp]: "host_load be (memrevifbe be x) = load_int x"
  by (simp add: host_load_def memrevifbe_def)

lemma memrev_host_store [simp]: "memrevifbe be (host_store be n v) = store_int n v"
  by (simp add: host_store_def memrevifbe_def)

lemma length_host_store [simp]: "length (host_store be n v) = n"
  by (simp add: host_store_def)

lemma get_encoded:
  assumes "e \<in> {2, 4, 8}" and "i * e + e \<le> length (contents is)"
  shows "u_intsetGetEncoded be is (int i) e = Some (load_int (take e (drop (i * e) (contents is))))"
  using assms
  by (auto simp: u_intsetGetEncoded_def enc_defs elem_off_def mem_simps memrevifbe_eqs)

lemma mem_write_write:
  assumes "mem_write off a c = Some c'" and "length a = length b"
  shows "mem_write off b c' = mem_write off b c"
  using assms by (auto simp: mem_write_def split: if_splits)

lemma set_encoded:
  assumes "encoding is \<in> {2, 4, 8}" and "i * encoding is + encoding is \<le> length (contents is)"
  shows "u_intsetSet be is (int i) v =
     Some (is\<lparr>contents := take (i * encoding is) (contents is) @ store_int (encoding is) v @
                         drop (i * encoding is + encoding is) (contents is)\<rparr>)"
proof -
  have "\<exists>c. mem_write (i * n) (host_store be n v) (contents is) = Some c \<and>
      mem_read (i * n) n c = Some (host_store be n v) \<and>
      mem_write (i * n) (store_int n v) c = Some (take (i * n) (contents is) @ store_int n v @
                         drop (i * n + n) (contents is))"
    if "i * n + n \<le> length (contents is)" for n
  proof -
    have w: "mem_write (i * n) (host_store be n v) (contents is) =
        Some (take (i * n) (contents is) @ host_store be n v @ drop (i * n + n) (contents is))"
      using that by (simp add: mem_simps)
    have l: "length (take (i * n) (contents is)) = i * n" using that by simp
    show ?thesis
      using w mem_read_append [of "take (i * n) (contents is)" "host_store be n v"]
        mem_write_append [of "host_store be n v" "store_int n v" "take (i * n) (contents is)"]
      unfolding l by auto
  qed
  from this [of 2] this [of 4] this [of 8] show ?thesis
    using assms
    by (auto simp: u_intsetSet_def enc_defs elem_off_def memrevifbe_eqs)
qed

section \<open>Blocks of equal width\<close>

definition pack :: "nat \<Rightarrow> int list \<Rightarrow> byte list" where
  "pack e xs = concat (map (store_int e) xs)"

lemma length_pack [simp]: "length (pack e xs) = length xs * e"
  by (induction xs) (auto simp: pack_def)

lemma pack_append [simp]: "pack e (xs @ ys) = pack e xs @ pack e ys"
  by (simp add: pack_def)

lemma pack_Cons [simp]: "pack e (x # xs) = store_int e x @ pack e xs"
  by (simp add: pack_def)

lemma pack_Nil [simp]: "pack e [] = []"
  by (simp add: pack_def)

lemma take_pack: "i \<le> length xs \<Longrightarrow> take (i * e) (pack e xs @ r) = pack e (take i xs)"
  and drop_pack: "i \<le> length xs \<Longrightarrow> drop (i * e) (pack e xs @ r) = pack e (drop i xs) @ r"
proof -
  assume i: "i \<le> length xs"
  have e: "pack e xs @ r = pack e (take i xs) @ pack e (drop i xs) @ r"
    by (simp flip: pack_append append_assoc)
  have l: "length (pack e (take i xs)) = i * e" using i by simp
  show "take (i * e) (pack e xs @ r) = pack e (take i xs)"
    and "drop (i * e) (pack e xs @ r) = pack e (drop i xs) @ r"
    unfolding e by (rule take_app [OF l], rule drop_app [OF l])
qed

lemma nth_pack:
  assumes "i < length xs" and "fits e (xs ! i)" and "0 < e"
  shows "load_int (take e (drop (i * e) (pack e xs @ r))) = xs ! i"
proof -
  have "drop (i * e) (pack e xs @ r) = store_int e (xs ! i) @ pack e (drop (Suc i) xs) @ r"
    using drop_pack [of i xs e r] assms(1) by (simp add: Cons_nth_drop_Suc [symmetric])
  then show ?thesis using assms by (simp add: load_store_int)
qed

section \<open>The abstraction\<close>

definition iset_rep :: "intset \<Rightarrow> int list \<Rightarrow> bool" where
  "iset_rep is xs \<longleftrightarrow>
     encoding is \<in> {2, 4, 8} \<and> ilength is = length xs \<and>
     contents is = pack (encoding is) xs \<and> sorted_wrt (<) xs \<and>
     (\<forall>x \<in> set xs. fits (encoding is) x)"

text \<open>The sizes stay below \<open>INT_MAX\<close>.\<close>

abbreviation iset_room :: "int list \<Rightarrow> bool" where
  "iset_room xs \<equiv> 8 * length xs < 2 ^ 31"

lemma iset_rep_get:
  assumes "iset_rep is xs" and "i < length xs"
  shows "u_intsetGet be is (int i) = Some (xs ! i)"
proof -
  have "Suc i * encoding is \<le> length xs * encoding is"
    using assms(2) by (intro mult_le_mono1) simp
  then have "i * encoding is + encoding is \<le> length (contents is)"
    using assms(1) by (simp add: iset_rep_def algebra_simps)
  moreover have "load_int (take (encoding is) (drop (i * encoding is) (contents is))) = xs ! i"
    using assms nth_pack [of i xs "encoding is" "[]"] by (auto simp: iset_rep_def)
  ultimately show ?thesis
    using get_encoded [of "encoding is" i "is" be] assms(1) by (simp add: u_intsetGet_def iset_rep_def)
qed

section \<open>Binary search\<close>

text \<open>\<open>found\<close>: the position holds the value; \<open>insert_at\<close>: everything before is smaller.\<close>

definition insert_at :: "int list \<Rightarrow> int \<Rightarrow> nat \<Rightarrow> bool" where
  "insert_at xs v i \<longleftrightarrow> i \<le> length xs \<and> (\<forall>j < i. xs ! j < v) \<and> (\<forall>j. i \<le> j \<and> j < length xs \<longrightarrow> v < xs ! j)"

lemma search_loop_correct:
  assumes rep: "iset_rep is xs" and room: "iset_room xs"
  shows "0 \<le> lo \<Longrightarrow> hi < int (length xs) \<Longrightarrow> lo \<le> hi + 1 \<Longrightarrow> lo \<le> hi \<or> cur \<noteq> v \<Longrightarrow>
    (\<And>j. int j < lo \<Longrightarrow> xs ! j < v) \<Longrightarrow> (\<And>j. hi < int j \<Longrightarrow> j < length xs \<Longrightarrow> v < xs ! j) \<Longrightarrow>
    \<exists>lo' mid' cur'. search_loop be is v lo hi mid cur = Some (lo', mid', cur') \<and>
      (if cur' = v then \<exists>i < length xs. mid' = int i \<and> xs ! i = v
       else \<exists>i. lo' = int i \<and> insert_at xs v i)"
proof (induction "nat (hi + 1 - lo)" arbitrary: lo hi mid cur rule: less_induct)
  case less
  show ?case
  proof (cases "lo \<le> hi")
    case False
    then have hi: "hi = lo - 1" using less.prems(3) by simp
    have "insert_at xs v (nat lo)"
      using less.prems(1,2,5,6) hi by (auto simp: insert_at_def)
    then show ?thesis using False less.prems(1,4)
      by (subst search_loop.simps) (auto intro!: exI [of _ "nat lo"])
  next
    case True
    define m where "m = nat ((lo + hi) div 2)"
    have lt: "hi < 2 ^ 31" using less.prems(2) room by simp
    have mi: "((lo mod 2 ^ 32 + hi mod 2 ^ 32) mod 2 ^ 32) div 2 = int m"
      using less.prems(1) True lt by (simp add: m_def)
    have m: "lo \<le> int m" "int m \<le> hi" "m < length xs"
      using less.prems(1,2) True by (auto simp: m_def)
    have get: "u_intsetGet be is (int m) = Some (xs ! m)" using rep m(3) by (rule iset_rep_get)
    have srt: "i < j \<Longrightarrow> j < length xs \<Longrightarrow> xs ! i < xs ! j" for i j
      using rep by (simp add: iset_rep_def sorted_wrt_nth_less)
    have step: "search_loop be is v lo hi mid cur =
        (if v > xs ! m then search_loop be is v (int m + 1) hi (int m) (xs ! m)
         else if v < xs ! m then search_loop be is v lo (int m - 1) (int m) (xs ! m)
         else Some (lo, int m, xs ! m))"
      by (subst search_loop.simps)
        (simp only: True if_True Let_def mi get bind.bind_lunit)
    consider "v > xs ! m" | "v < xs ! m" | "v = xs ! m" by linarith
    then show ?thesis
    proof cases
      case 1
      have below: "xs ! j < v" if "int j < int m + 1" for j
        using 1 that srt [of j m] m(3) by (cases "j = m") auto
      have "\<exists>lo' mid' cur'. search_loop be is v (int m + 1) hi (int m) (xs ! m) = Some (lo', mid', cur') \<and>
          (if cur' = v then \<exists>i < length xs. mid' = int i \<and> xs ! i = v
           else \<exists>i. lo' = int i \<and> insert_at xs v i)"
        using 1 m less.prems(1,2,3,6) by (intro less.hyps below) auto
      with 1 show ?thesis unfolding step by simp
    next
      case 2
      have above: "v < xs ! j" if "int m - 1 < int j" "j < length xs" for j
        using 2 that srt [of m j] by (cases "j = m") auto
      have "\<exists>lo' mid' cur'. search_loop be is v lo (int m - 1) (int m) (xs ! m) = Some (lo', mid', cur') \<and>
          (if cur' = v then \<exists>i < length xs. mid' = int i \<and> xs ! i = v
           else \<exists>i. lo' = int i \<and> insert_at xs v i)"
        using 2 m less.prems(1,2,3,5) by (intro less.hyps above) auto
      with 2 show ?thesis unfolding step by simp
    next
      case 3
      then show ?thesis unfolding step using m(3) by auto
    qed
  qed
qed

lemma insert_at_iff: "insert_at xs v i \<Longrightarrow> v \<notin> set xs"
  unfolding insert_at_def in_set_conv_nth by (metis less_irrefl not_le)

lemma intsetSearch_correct:
  assumes rep: "iset_rep is xs" and room: "iset_room xs"
  shows "\<exists>found i. intsetSearch be is v = Some (found, int i) \<and>
    (if found then i < length xs \<and> xs ! i = v else insert_at xs v i)"
proof (cases "xs = []")
  case True
  then show ?thesis using rep by (auto simp: intsetSearch_def iset_rep_def insert_at_def)
next
  case False
  then have pos: "0 < length xs" by simp
  have il: "ilength is = length xs" using rep by (simp add: iset_rep_def)
  have srt: "i < j \<Longrightarrow> j < length xs \<Longrightarrow> xs ! i < xs ! j" for i j
    using rep by (simp add: iset_rep_def sorted_wrt_nth_less)
  have s: "s32 (int (length xs) - 1) = int (length xs - 1)"
    using pos room by (subst s32_id) (simp_all add: of_nat_diff Suc_le_eq)
  have last: "u_intsetGet be is (int (length xs - 1)) = Some (xs ! (length xs - 1))"
    using pos by (intro iset_rep_get [OF rep]) simp
  have first: "u_intsetGet be is 0 = Some (xs ! 0)"
    using iset_rep_get [OF rep pos] by simp
  consider (above) "xs ! (length xs - 1) < v" | (below) "\<not> xs ! (length xs - 1) < v" "v < xs ! 0"
    | (mid) "\<not> xs ! (length xs - 1) < v" "\<not> v < xs ! 0" by blast
  then show ?thesis
  proof cases
    case above
    have "xs ! j < v" if "j < length xs" for j
    proof -
      have "j = length xs - 1 \<or> j < length xs - 1" using that by linarith
      then show ?thesis using above srt [of j "length xs - 1"] pos by auto
    qed
    then show ?thesis using above False il s last
      by (auto simp: intsetSearch_def insert_at_def intro!: exI [of _ "length xs"])
  next
    case below
    have "v < xs ! j" if "j < length xs" for j
      using below srt [of 0 j] that by (cases "j = 0") auto
    then show ?thesis using below False il s last first
      by (auto simp: intsetSearch_def insert_at_def intro!: exI [of _ 0])
  next
    case mid
    have "\<exists>lo' mid' cur'. search_loop be is v 0 (int (length xs - 1)) (-1) (-1) = Some (lo', mid', cur') \<and>
      (if cur' = v then \<exists>i < length xs. mid' = int i \<and> xs ! i = v
       else \<exists>i. lo' = int i \<and> insert_at xs v i)"
      using pos by (intro search_loop_correct [OF rep room]) auto
    then obtain lo' mid' cur' where
      l: "search_loop be is v 0 (int (length xs - 1)) (-1) (-1) = Some (lo', mid', cur')"
      and r: "if cur' = v then \<exists>i < length xs. mid' = int i \<and> xs ! i = v
        else \<exists>i. lo' = int i \<and> insert_at xs v i" by blast
    have "intsetSearch be is v = (if v = cur' then Some (True, mid') else Some (False, lo'))"
      using mid pos unfolding intsetSearch_def il s last first l by simp
    then show ?thesis using r by (cases "cur' = v") auto
  qed
qed

lemma intsetFind_correct:
  assumes "iset_rep is xs" and "iset_room xs" and "fits 8 v"
  shows "intsetFind be is v = Some (v \<in> set xs)"
proof (cases "u_intsetValueEncoding v \<le> encoding is")
  case True
  obtain found i where "intsetSearch be is v = Some (found, int i)"
    "if found then i < length xs \<and> xs ! i = v else insert_at xs v i"
    using intsetSearch_correct [OF assms(1,2)] by blast
  then show ?thesis using True insert_at_iff [of xs v i]
    by (auto simp: intsetFind_def split: if_splits)
next
  case False
  then have "\<not> fits (encoding is) v"
    using u_intsetValueEncoding_le [OF assms(3)] assms(1) by (simp add: iset_rep_def)
  then have "v \<notin> set xs" using assms(1) by (auto simp: iset_rep_def)
  then show ?thesis using False by (simp add: intsetFind_def)
qed

section \<open>Insertion and removal\<close>

lemma upgrade_loop_correct:
  assumes "e \<in> {2, 4, 8}" and "encoding is \<in> {2, 4, 8}" and "e \<le> encoding is" and "p \<le> 1"
    and "\<forall>x \<in> set xs. fits e x"
  shows "k \<le> length xs \<Longrightarrow> length (contents is) = (length xs + 1) * encoding is \<Longrightarrow>
    take (k * e) (contents is) = pack e (take k xs) \<Longrightarrow>
    drop ((k + p) * encoding is) (contents is) = pack (encoding is) (drop k xs) @ tl' \<Longrightarrow>
    \<exists>c. upgrade_loop be e p k is = Some (is\<lparr>contents := c\<rparr>) \<and>
      length c = (length xs + 1) * encoding is \<and> drop (p * encoding is) c = pack (encoding is) xs @ tl'"
  using assms(2,3)
proof (induction k arbitrary: "is")
  case 0
  then show ?case by (auto intro!: exI [of _ "contents is"])
next
  case (Suc n)
  let ?E = "encoding is" and ?c = "contents is"
  have n: "n < length xs" using Suc.prems(1) by simp
  have "Suc n * e \<le> (length xs + 1) * ?E"
    using n Suc.prems(6) by (intro mult_le_mono) auto
  then have b: "n * e + e \<le> length ?c" using Suc.prems(2) by simp
  have "take e (drop (n * e) ?c) = drop (n * e) (take (Suc n * e) ?c)"
    by (simp add: drop_take)
  also have "\<dots> = drop (n * e) (pack e (take (Suc n) xs))" by (simp only: Suc.prems(3))
  also have "\<dots> = drop (n * e) (pack e (take n xs) @ pack e [xs ! n])"
    using n by (simp add: take_Suc_conv_app_nth)
  also have "\<dots> = store_int e (xs ! n)"
    using n by (subst drop_app) auto
  finally have "load_int (take e (drop (n * e) ?c)) = xs ! n"
    using assms(1,5) n by (auto simp: load_store_int)
  then have get: "u_intsetGetEncoded be is (int n) e = Some (xs ! n)"
    using get_encoded [OF assms(1) b] by simp
  have w: "(n + p) * ?E + ?E \<le> length ?c"
  proof -
    have "(n + p + 1) * ?E \<le> (length xs + 1) * ?E" using n assms(4) by (intro mult_le_mono1) simp
    then show ?thesis using Suc.prems(2) by (simp add: algebra_simps)
  qed
  define c where "c = take ((n + p) * ?E) ?c @ store_int ?E (xs ! n) @ drop ((n + p) * ?E + ?E) ?c"
  have set: "u_intsetSet be is (int (n + p)) (xs ! n) = Some (is\<lparr>contents := c\<rparr>)"
    using set_encoded [OF Suc.prems(5) w] by (simp only: c_def)
  have l: "length (take ((n + p) * ?E) ?c) = (n + p) * ?E" using w by simp
  have "n * e \<le> (n + p) * ?E" using Suc.prems(6) by (intro mult_le_mono) auto
  then have "take (n * e) c = take (n * e) ?c"
    using w by (simp add: c_def min_def)
  also have "\<dots> = take (n * e) (take (Suc n * e) ?c)" by (simp add: min_def)
  also have "\<dots> = take (n * e) (pack e (take (Suc n) xs))" by (simp only: Suc.prems(3))
  also have "\<dots> = pack e (take n xs)"
    using n by (simp add: take_Suc_conv_app_nth take_app)
  finally have t: "take (n * e) c = pack e (take n xs)" .
  have "drop ((n + p) * ?E) c = store_int ?E (xs ! n) @ drop ((n + p) * ?E + ?E) ?c"
    unfolding c_def by (rule drop_app [OF l])
  also have "(n + p) * ?E + ?E = (Suc n + p) * ?E" by simp
  also have "store_int ?E (xs ! n) @ drop ((Suc n + p) * ?E) ?c = pack ?E (drop n xs) @ tl'"
    unfolding Suc.prems(4) using n by (simp add: Cons_nth_drop_Suc [symmetric])
  finally have d: "drop ((n + p) * ?E) c = pack ?E (drop n xs) @ tl'" .
  have lc: "length c = (length xs + 1) * ?E" using w Suc.prems(2) by (simp add: c_def)
  from Suc.IH [of "is\<lparr>contents := c\<rparr>"] n lc t d Suc.prems(5,6)
  show ?case by (simp add: get set [simplified])
qed

lemma sorted_insert:
  assumes "sorted_wrt (<) xs" and "insert_at xs v i"
  shows "sorted_wrt (<) (take i xs @ v # drop i xs)"
proof -
  have "i \<le> length xs" using assms(2) by (simp add: insert_at_def)
  then have "\<forall>x \<in> set (take i xs). x < v" "\<forall>x \<in> set (drop i xs). v < x"
    using assms(2) by (auto simp: insert_at_def in_set_conv_nth)
  moreover have "sorted_wrt (<) (take i xs @ drop i xs)" using assms(1) by simp
  ultimately show ?thesis by (fastforce simp only: sorted_wrt_append sorted_wrt.simps list.set)
qed

lemma set_insert_at: "set (take i xs @ v # drop i xs) = insert v (set xs)"
proof -
  have "set (take i xs) \<union> set (drop i xs) = set xs"
    by (metis append_take_drop_id set_append)
  then show ?thesis by auto
qed

lemma enc_cases: "e \<in> {2, 4, 8} \<Longrightarrow>
  (if e = INTSET_ENC_INT64 then 8 else if e = INTSET_ENC_INT32 then 4 else 2) = e"
  by (auto simp: enc_defs)

lemma intsetMoveTail_eq:
  assumes "encoding is = e" and "e \<in> {2, 4, 8}" and "ilength is = n"
  shows "intsetMoveTail f t is = do {
     c \<leftarrow> mem_move (t * e) (f * e) (nat ((int n - int f) mod 2 ^ 32) * e mod 2 ^ 32) (contents is);
     Some (is\<lparr>contents := c\<rparr>) }"
  by (simp only: intsetMoveTail_def Let_def assms(1,3) enc_cases [OF assms(2)])

lemma intsetUpgradeAndAdd_correct:
  assumes rep: "iset_rep is xs" and room: "iset_room (v # xs)" and fit: "fits 8 v"
    and up: "encoding is < u_intsetValueEncoding v"
  shows "\<exists>is'. intsetUpgradeAndAdd be junk is v = Some is' \<and>
    iset_rep is' (if v < 0 then v # xs else xs @ [v]) \<and> encoding is' = u_intsetValueEncoding v"
proof -
  let ?e = "encoding is" and ?E = "u_intsetValueEncoding v" and ?n = "length xs"
  have e: "?e \<in> {2, 4, 8}" "?E \<in> {2, 4, 8}" "?e \<le> ?E" "\<forall>x \<in> set xs. fits ?e x"
    "ilength is = ?n" "contents is = pack ?e xs" "sorted_wrt (<) xs"
    using rep up u_intsetValueEncoding_cases [of v] by (auto simp: iset_rep_def)
  have fE: "fits ?E v" using u_intsetValueEncoding_le [OF fit e(2)] by simp
  have fx: "\<forall>x \<in> set xs. fits ?E x" using e fits_mono by blast
  have nf: "\<not> fits ?e v" using u_intsetValueEncoding_le [OF fit e(1)] up by simp
  have sz: "(?n + 1) * ?E mod 2 ^ 32 = (?n + 1) * ?E" "(?n + 1) mod 2 ^ 32 = ?n + 1" "?n < 2 ^ 31"
    "s32 (int ?n) = int ?n"
  proof -
    have "(?n + 1) * ?E \<le> (?n + 1) * 8" using e(2) by (intro mult_le_mono) auto
    then show "(?n + 1) * ?E mod 2 ^ 32 = (?n + 1) * ?E" using room by simp
  qed (use room in \<open>auto simp: s32_id\<close>)
  define p :: nat where "p = (if v < 0 then 1 else 0)"
  define c0 where "c0 = mem_realloc junk ((?n + 1) * ?E) (pack ?e xs)"
  let ?is = "is\<lparr>encoding := ?E, contents := c0\<rparr>"
  have le: "?n * ?e \<le> (?n + 1) * ?E" using e(3) by (intro mult_le_mono) auto
  have c0: "length c0 = (?n + 1) * ?E" "take (?n * ?e) c0 = pack ?e xs"
    using le by (simp_all add: c0_def mem_realloc_grow)
  define tl' where "tl' = drop ((?n + p) * ?E) c0"
  have "\<exists>c. upgrade_loop be ?e p ?n ?is = Some (?is\<lparr>contents := c\<rparr>) \<and>
      length c = (?n + 1) * encoding ?is \<and> drop (p * encoding ?is) c = pack (encoding ?is) xs @ tl'"
    by (rule upgrade_loop_correct) (use e c0 in \<open>auto simp: p_def tl'_def\<close>)
  then obtain c where c: "upgrade_loop be ?e p ?n ?is = Some (?is\<lparr>contents := c\<rparr>)"
    "length c = (?n + 1) * ?E" "drop (p * ?E) c = pack ?E xs @ tl'" by auto
  define j where "j = (if v < 0 then 0 else ?n)"
  have jb: "j * ?E + ?E \<le> length c" using c(2) by (auto simp: j_def)
  have s: "u_intsetSet be (?is\<lparr>contents := c\<rparr>) (int j) v =
      Some (?is\<lparr>contents := take (j * ?E) c @ store_int ?E v @ drop (j * ?E + ?E) c\<rparr>)"
    using set_encoded [of "?is\<lparr>contents := c\<rparr>" j be v] e(2) jb by simp
  have eq: "intsetUpgradeAndAdd be junk is v =
      Some (is\<lparr>encoding := ?E, contents := take (j * ?E) c @ store_int ?E v @ drop (j * ?E + ?E) c,
               ilength := ?n + 1\<rparr>)"
    using c(1) s sz e(5,6)
    by (cases "v < 0") (simp_all add: intsetUpgradeAndAdd_def intsetResize_def c0_def p_def j_def Let_def)
  have cont: "take (j * ?E) c @ store_int ?E v @ drop (j * ?E + ?E) c =
      pack ?E (if v < 0 then v # xs else xs @ [v])"
  proof (cases "v < 0")
    case True
    then have "length tl' = 0" using c0(1) by (simp add: tl'_def p_def)
    then show ?thesis using True c(3) by (simp add: p_def j_def)
  next
    case False
    then have "c = pack ?E xs @ tl'" using c(3) by (simp add: p_def)
    moreover from this have "length tl' = ?E" using c(2) by simp
    ultimately show ?thesis using False by (simp add: j_def)
  qed
  have "sorted_wrt (<) (if v < 0 then v # xs else xs @ [v])"
    using e(4,7) nf by (auto simp: sorted_wrt_append fits_def)
  then show ?thesis using eq cont e(2) fE fx by (auto simp: iset_rep_def)
qed

lemma iset_tail_move:
  assumes e: "e \<in> {2, 4, 8}" and "i \<le> length xs" and c: "c = pack e xs @ r" and "length r = e"
  shows "mem_move ((i + 1) * e) (i * e) ((length xs - i) * e) c =
    Some (take ((i + 1) * e) c @ pack e (drop i xs))"
proof -
  have l: "i * e + (length xs - i) * e = length xs * e"
    using assms(2) by (simp flip: distrib_right)
  have l2: "(i + 1) * e + (length xs - i) * e = length xs * e + e"
    using l by simp
  have "take ((length xs - i) * e) (drop (i * e) c) = pack e (drop i xs)"
    unfolding c drop_pack [OF assms(2)] by (rule take_app) simp
  then show ?thesis
    using l l2 assms(4) c by (subst mem_move_Some) simp_all
qed

lemma intsetAdd_correct:
  assumes rep: "iset_rep is xs" and room: "iset_room (v # xs)" and fit: "fits 8 v"
  shows "\<exists>is' ys. intsetAdd be junk is v = Some (is', v \<notin> set xs) \<and> iset_rep is' ys \<and>
    set ys = insert v (set xs) \<and> encoding is' = max (encoding is) (u_intsetValueEncoding v)"
proof (cases "encoding is < u_intsetValueEncoding v")
  case True
  then have "\<not> fits (encoding is) v"
    using u_intsetValueEncoding_le [OF fit, of "encoding is"] rep by (simp add: iset_rep_def)
  then have "v \<notin> set xs" using rep by (auto simp: iset_rep_def)
  moreover obtain is' where u: "intsetUpgradeAndAdd be junk is v = Some is'"
    "iset_rep is' (if v < 0 then v # xs else xs @ [v])" "encoding is' = u_intsetValueEncoding v"
    using intsetUpgradeAndAdd_correct [OF rep room fit True, of be junk] by blast
  moreover have "set (if v < 0 then v # xs else xs @ [v]) = insert v (set xs)" by simp
  moreover have "intsetAdd be junk is v = Some (is', True)" using True u(1) by (simp add: intsetAdd_def)
  moreover have "max (encoding is) (u_intsetValueEncoding v) = u_intsetValueEncoding v"
    using True by simp
  ultimately show ?thesis
    by (intro exI [of _ is'] exI [of _ "if v < 0 then v # xs else xs @ [v]"]) (simp only: simp_thms)
next
  case False
  let ?e = "encoding is" and ?n = "length xs"
  have e: "?e \<in> {2, 4, 8}" "ilength is = ?n" "contents is = pack ?e xs" "sorted_wrt (<) xs"
    "\<forall>x \<in> set xs. fits ?e x" using rep by (auto simp: iset_rep_def)
  have fe: "fits ?e v" using u_intsetValueEncoding_le [OF fit e(1)] False by simp
  have mx: "max ?e (u_intsetValueEncoding v) = ?e" using False by simp
  obtain found i where s: "intsetSearch be is v = Some (found, int i)"
    and r: "if found then i < ?n \<and> xs ! i = v else insert_at xs v i"
    using intsetSearch_correct [OF rep, of be v] room by auto
  show ?thesis
  proof (cases found)
    case True
    then show ?thesis using s r False rep mx by (auto simp: intsetAdd_def)
  next
    case nf: False
    then have ins: "insert_at xs v i" using r by simp
    then have i: "i \<le> ?n" "v \<notin> set xs" using insert_at_iff by (auto simp: insert_at_def)
    have il: "nat (int i mod 2 ^ 32) = i" "s32 (int i) = int i" "(?n + 1) mod 2 ^ 32 = ?n + 1"
      using i(1) room by (auto simp: s32_id)
    have "(?n + 1) * ?e \<le> (?n + 1) * 8" using e(1) by (intro mult_le_mono) auto
    then have sz: "(?n + 1) * ?e mod 2 ^ 32 = (?n + 1) * ?e" "?n * ?e < 2 ^ 32" using room by auto
    define r where "r = map junk [?n * ?e..<(?n + 1) * ?e]"
    have rl: "length r = ?e" by (simp add: r_def)
    define c where "c = pack ?e xs @ r"
    have rs: "intsetResize junk (?n + 1) is = is\<lparr>contents := c\<rparr>"
      using sz e(3) by (simp add: intsetResize_def mem_realloc_grow c_def r_def)
    have "\<exists>c'. (if i < ?n then intsetMoveTail i (i + 1) (is\<lparr>contents := c\<rparr>) else Some (is\<lparr>contents := c\<rparr>)) =
        Some (is\<lparr>contents := c'\<rparr>) \<and> length c' = (?n + 1) * ?e \<and> take (i * ?e) c' = pack ?e (take i xs) \<and>
        drop (i * ?e + ?e) c' = pack ?e (drop i xs)"
    proof (cases "i < ?n")
      case True
      have m1: "nat ((int ?n - int i) mod 2 ^ 32) = ?n - i"
        using True room by (simp add: of_nat_diff [symmetric] del: of_nat_diff)
      have "(?n - i) * ?e \<le> ?n * ?e" by (intro mult_le_mono1) simp
      then have "(?n - i) * ?e < 2 ^ 32" using sz(2) by (rule le_less_trans)
      then have m2: "(?n - i) * ?e mod 2 ^ 32 = (?n - i) * ?e" by (rule mod_less)
      let ?c' = "take ((i + 1) * ?e) c @ pack ?e (drop i xs)"
      have "intsetMoveTail i (i + 1) (is\<lparr>contents := c\<rparr>) = Some (is\<lparr>contents := ?c'\<rparr>)"
        using iset_tail_move [OF e(1) i(1) c_def rl] e(1,2)
        by (subst intsetMoveTail_eq [of _ ?e ?n]) (simp_all only: m1 m2, simp_all)
      moreover have il': "(i + 1) * ?e \<le> length c"
      proof -
        have "(i + 1) * ?e \<le> ?n * ?e" using True by (intro mult_le_mono1) simp
        then show ?thesis by (simp add: c_def)
      qed
      moreover have "length ?c' = (?n + 1) * ?e"
      proof -
        have "(i + 1) * ?e + (?n - i) * ?e = (?n + 1) * ?e"
          using True by (simp flip: distrib_right)
        then show ?thesis using il' by simp
      qed
      moreover have "take (i * ?e) ?c' = pack ?e (take i xs)"
      proof -
        have "take (i * ?e) ?c' = take (i * ?e) c" using il' by (simp add: min_def)
        also have "\<dots> = pack ?e (take i xs)" unfolding c_def by (rule take_pack [OF i(1)])
        finally show ?thesis .
      qed
      moreover have "drop (i * ?e + ?e) ?c' = pack ?e (drop i xs)"
        using il' by (intro drop_app) simp
      ultimately show ?thesis using True by auto
    next
      case no: False
      then have "i = ?n" using i(1) by simp
      then show ?thesis using rl by (auto simp: c_def)
    qed
    then obtain c' where c': "(if i < ?n then intsetMoveTail i (i + 1) (is\<lparr>contents := c\<rparr>) else Some (is\<lparr>contents := c\<rparr>)) =
        Some (is\<lparr>contents := c'\<rparr>)" "length c' = (?n + 1) * ?e" "take (i * ?e) c' = pack ?e (take i xs)"
        "drop (i * ?e + ?e) c' = pack ?e (drop i xs)" by blast
    have "(i + 1) * ?e \<le> (?n + 1) * ?e" using i(1) by (intro mult_le_mono1) simp
    then have st: "u_intsetSet be (is\<lparr>contents := c'\<rparr>) (int i) v =
        Some (is\<lparr>contents := pack ?e (take i xs @ v # drop i xs)\<rparr>)"
      using set_encoded [of "is\<lparr>contents := c'\<rparr>" i be v] e(1) c' by simp
    have "intsetAdd be junk is v =
        Some (is\<lparr>contents := pack ?e (take i xs @ v # drop i xs), ilength := ?n + 1\<rparr>, True)"
      using False s nf il rs c'(1) st e(2)
      by (cases "i < ?n") (simp_all add: intsetAdd_def Let_def del: pack_append pack_Cons)
    moreover have "iset_rep (is\<lparr>contents := pack ?e (take i xs @ v # drop i xs), ilength := ?n + 1\<rparr>)
        (take i xs @ v # drop i xs)"
      using e fe i(1) sorted_insert [OF e(4) ins] set_insert_at [of i xs v]
      by (auto simp: iset_rep_def)
    ultimately show ?thesis using i(2) set_insert_at [of i xs v] mx by auto
  qed
qed

lemma set_remove_nth:
  assumes "sorted_wrt (<) xs" and "i < length xs"
  shows "sorted_wrt (<) (take i xs @ drop (Suc i) xs) \<and>
    set (take i xs @ drop (Suc i) xs) = set xs - {xs ! i :: int}"
proof -
  have xs: "xs = take i xs @ xs ! i # drop (Suc i) xs" using assms(2) by (rule id_take_nth_drop)
  then have s: "sorted_wrt (<) (take i xs @ xs ! i # drop (Suc i) xs)" using assms(1) by simp
  then have n: "xs ! i \<notin> set (take i xs @ drop (Suc i) xs)"
    by (fastforce simp: sorted_wrt_append)
  have "set xs = insert (xs ! i) (set (take i xs @ drop (Suc i) xs))"
    using arg_cong [OF xs, of set] by (simp only: set_append list.set) blast
  then show ?thesis using s n by (simp only: sorted_wrt_append sorted_wrt.simps list.set) blast
qed

lemma intsetRemove_correct:
  assumes rep: "iset_rep is xs" and room: "iset_room xs" and fit: "fits 8 v"
  shows "\<exists>is' ys. intsetRemove be junk is v = Some (is', v \<in> set xs) \<and> iset_rep is' ys \<and>
    set ys = set xs - {v} \<and> encoding is' = encoding is"
proof (cases "v \<in> set xs")
  case False
  obtain found i where "intsetSearch be is v = Some (found, int i)"
    "if found then i < length xs \<and> xs ! i = v else insert_at xs v i"
    using intsetSearch_correct [OF rep room] by blast
  then show ?thesis using False rep by (auto simp: intsetRemove_def split: if_splits)
next
  case True
  let ?e = "encoding is" and ?n = "length xs"
  have e: "?e \<in> {2, 4, 8}" "ilength is = ?n" "contents is = pack ?e xs" "sorted_wrt (<) xs"
    "\<forall>x \<in> set xs. fits ?e x" using rep by (auto simp: iset_rep_def)
  have ve: "u_intsetValueEncoding v \<le> ?e"
    using u_intsetValueEncoding_le [OF fit e(1)] e(5) True by blast
  obtain found i where s: "intsetSearch be is v = Some (found, int i)"
    "if found then i < ?n \<and> xs ! i = v else insert_at xs v i"
    using intsetSearch_correct [OF rep room] by blast
  then have f: found "i < ?n" "xs ! i = v" using insert_at_iff True by (auto split: if_splits)
  have il: "nat (int i mod 2 ^ 32) = i" using f(2) room by simp
  have sz8: "?n * ?e \<le> ?n * 8" using e(1) by (intro mult_le_mono) auto
  have sz: "m * ?e mod 2 ^ 32 = m * ?e" if "m \<le> ?n" for m
  proof -
    have "m * ?e \<le> ?n * ?e" using that by (rule mult_le_mono1)
    moreover have "?n * 8 < 2 ^ 32" using room by simp
    ultimately show ?thesis using sz8 by (intro mod_less) (meson le_less_trans)
  qed
  define c where "c = (if i < ?n - 1 then take (i * ?e) (pack ?e xs) @ pack ?e (drop (Suc i) xs) @
      drop ((?n - 1) * ?e) (pack ?e xs) else pack ?e xs)"
  have mv: "(if i < ?n - 1 then intsetMoveTail (i + 1) i is else Some is) = Some (is\<lparr>contents := c\<rparr>)"
  proof (cases "i < ?n - 1")
    case True
    have m1: "nat ((int ?n - int (i + 1)) mod 2 ^ 32) = ?n - (i + 1)"
      using True room by (simp add: of_nat_diff [symmetric] del: of_nat_diff)
    have k: "(i + 1) + (?n - (i + 1)) = ?n" "i + (?n - (i + 1)) = ?n - 1" using True by linarith+
    have l: "(i + 1) * ?e + (?n - (i + 1)) * ?e = ?n * ?e" "i * ?e + (?n - (i + 1)) * ?e = (?n - 1) * ?e"
      by (simp_all only: add_mult_distrib [symmetric] k)
    have "take ((?n - (i + 1)) * ?e) (drop ((i + 1) * ?e) (pack ?e xs)) = pack ?e (drop (i + 1) xs)"
      using drop_pack [of "i + 1" xs ?e "[]"] True by simp
    moreover have "(?n - 1) * ?e \<le> ?n * ?e" by (intro mult_le_mono1) simp
    ultimately have "mem_move (i * ?e) ((i + 1) * ?e) ((?n - (i + 1)) * ?e) (pack ?e xs) =
        Some (take (i * ?e) (pack ?e xs) @ pack ?e (drop (i + 1) xs) @ drop ((?n - 1) * ?e) (pack ?e xs))"
      using l by (subst mem_move_Some) simp_all
    then show ?thesis
      using True e(3) sz [of "?n - (i + 1)"]
      by (subst intsetMoveTail_eq [OF refl e(1,2)]) (simp only: m1, simp add: c_def)
  next
    case False
    then show ?thesis using e(3) by (simp add: c_def)
  qed
  have ne: "(?n - 1) * ?e \<le> ?n * ?e" by (intro mult_le_mono1) simp
  have ct: "take ((?n - 1) * ?e) c = pack ?e (take i xs @ drop (Suc i) xs)"
  proof (cases "i < ?n - 1")
    case True
    have t: "take (i * ?e) (pack ?e xs) = pack ?e (take i xs)"
      using take_pack [of i xs ?e "[]"] f(2) by simp
    have "length (pack ?e (take i xs) @ pack ?e (drop (Suc i) xs)) = (?n - 1) * ?e"
      using True f(2) by (simp flip: distrib_right)
    then show ?thesis using True by (simp add: c_def t take_app flip: append_assoc)
  next
    case False
    then have "i = ?n - 1" using f(2) by linarith
    then show ?thesis using take_pack [of "?n - 1" xs ?e "[]"] f(2) by (simp add: c_def)
  qed
  have lc: "(?n - 1) * ?e \<le> length c"
    using arg_cong [OF ct, of length] f(2) by (simp add: min_def flip: distrib_right split: if_splits)
  have rs: "intsetResize junk (?n - 1) (is\<lparr>contents := c\<rparr>) =
      is\<lparr>contents := pack ?e (take i xs @ drop (Suc i) xs)\<rparr>"
    using sz [of "?n - 1"] lc ct by (simp add: intsetResize_def mem_realloc_shrink)
  have "intsetRemove be junk is v = Some (is\<lparr>contents := pack ?e (take i xs @ drop (Suc i) xs),
      ilength := ?n - 1\<rparr>, True)"
    unfolding intsetRemove_def using ve f(1)
    by (simp only: s(1) bind.bind_lunit prod.case if_True Let_def il e(2) mv rs)
  moreover have "iset_rep (is\<lparr>contents := pack ?e (take i xs @ drop (Suc i) xs), ilength := ?n - 1\<rparr>)
      (take i xs @ drop (Suc i) xs)"
    using e(1,5) set_remove_nth [OF e(4) f(2)] f(2) by (auto simp: iset_rep_def)
  ultimately show ?thesis using True set_remove_nth [OF e(4) f(2)] f(3) by auto
qed

section \<open>Properties\<close>

lemma iset_rep_New: "iset_rep intsetNew []"
  by (simp add: iset_rep_def intsetNew_def enc_defs)

text \<open>
  C16: An intset implements a finite set of 64-bit integers: on a block that holds an
  ascending list, \<open>intsetAdd\<close> and \<open>intsetRemove\<close> leave a block that holds the ascending list
  of the set with the member inserted or removed, report whether it was new or present,
  and \<open>intsetFind\<close> answers membership, on hosts of both byte orders, without an access
  outside the block, also when the insertion widens every member.
\<close>

theorem intset_refines_set:
  assumes "iset_rep is xs" and "iset_room (v # xs)" and "fits 8 v"
  shows "(\<exists>is' ys. intsetAdd be junk is v = Some (is', v \<notin> set xs) \<and> iset_rep is' ys \<and>
      set ys = insert v (set xs)) \<and>
    (\<exists>is' ys. intsetRemove be junk is v = Some (is', v \<in> set xs) \<and> iset_rep is' ys \<and>
      set ys = set xs - {v}) \<and>
    intsetFind be is v = Some (v \<in> set xs)"
proof -
  have "iset_room xs" using assms(2) by simp
  then show ?thesis
    using intsetAdd_correct [OF assms, of be junk] intsetRemove_correct [OF assms(1) _ assms(3), of be junk]
      intsetFind_correct [OF assms(1) _ assms(3), of be] by blast
qed

definition iset_1_70000 :: intset where
  "iset_1_70000 = \<lparr>encoding = 4, ilength = 2, contents = pack 4 [1, 70000]\<rparr>"

lemma iset_1_70000_rep: "iset_rep iset_1_70000 [1, 70000]"
  by (simp add: iset_rep_def iset_1_70000_def fits_def)

theorem intset_refines_set_witness:
  "\<exists>is' ys. intsetAdd True (\<lambda>_. 7) iset_1_70000 (- 5000000000) = Some (is', True) \<and>
     iset_rep is' ys \<and> set ys = {- 5000000000, 1, 70000}"
  using intset_refines_set [OF iset_1_70000_rep, of "- 5000000000" True "\<lambda>_. 7"]
  by (simp add: fits_def)



end
