(* ===== verification/Dict.thy ===== *)
theory Dict
  imports Redis_Prelude "HOL-Library.Multiset"
begin

text \<open>
  \<open>dict.c\<close>: the hash table with chaining and incremental rehashing. A chain is a list of
  key and value pairs in the order of the \<open>next\<close> pointers; an entry is named by its table,
  bucket and position, which stand for the pointer until the table changes. The callbacks
  of the type are the record \<open>dictType\<close>; what the destructors are called on is logged.
  \<open>None\<close> is a failed \<open>assert\<close> or an access outside a table; a table that is \<open>NULL\<close> is the
  empty list. \<open>dict_can_resize\<close>, a global of the program, is an argument.

  The abstraction of a dictionary is the association \<open>amap\<close> it represents, up to the
  equality of keys its type defines. The contract of a type (locale \<open>dict_type\<close>) is that
  equal keys hash equally.
\<close>

section \<open>Data\<close>

record ('k, 'v) dictType =
  hashFunction :: "'k \<Rightarrow> nat"
  keyDup :: "('k \<Rightarrow> 'k) option"
  valDup :: "('v \<Rightarrow> 'v) option"
  keyCompare :: "('k \<Rightarrow> 'k \<Rightarrow> bool) option"
  keyDestructor :: bool
  valDestructor :: bool

type_synonym ('k, 'v) dictEntry = "'k \<times> 'v"

record ('k, 'v) dictht =
  table :: "('k, 'v) dictEntry list list"
  htsize :: nat
  sizemask :: nat
  used :: nat

record ('k, 'v) dict =
  ht0 :: "('k, 'v) dictht"
  ht1 :: "('k, 'v) dictht"
  rehashidx :: int
  iterators :: int
  freed_keys :: "'k list"
  freed_vals :: "'v list"

type_synonym entry_ref = "nat \<times> nat \<times> nat"

definition DICT_HT_INITIAL_SIZE :: nat where
  "DICT_HT_INITIAL_SIZE = 4"

definition dict_force_resize_ratio :: nat where
  "dict_force_resize_ratio = 5"

definition LONG_MAX :: nat where
  "LONG_MAX = 2 ^ 63 - 1"

definition dictIsRehashing :: "('k, 'v) dict \<Rightarrow> bool" where
  "dictIsRehashing d \<longleftrightarrow> rehashidx d \<noteq> -1"

definition dictSize :: "('k, 'v) dict \<Rightarrow> nat" where
  "dictSize d = used (ht0 d) + used (ht1 d)"

definition dictSlots :: "('k, 'v) dict \<Rightarrow> nat" where
  "dictSlots d = htsize (ht0 d) + htsize (ht1 d)"

definition dictCompareKeys :: "('k, 'v) dictType \<Rightarrow> 'k \<Rightarrow> 'k \<Rightarrow> bool" where
  "dictCompareKeys ty a b = (case keyCompare ty of Some f \<Rightarrow> f a b | None \<Rightarrow> a = b)"

definition dictSetKey :: "('k, 'v) dictType \<Rightarrow> 'k \<Rightarrow> 'k" where
  "dictSetKey ty k = (case keyDup ty of Some f \<Rightarrow> f k | None \<Rightarrow> k)"

definition dictSetVal :: "('k, 'v) dictType \<Rightarrow> 'v \<Rightarrow> 'v" where
  "dictSetVal ty v = (case valDup ty of Some f \<Rightarrow> f v | None \<Rightarrow> v)"

definition dictFreeKey :: "('k, 'v) dictType \<Rightarrow> 'k \<Rightarrow> ('k, 'v) dict \<Rightarrow> ('k, 'v) dict" where
  "dictFreeKey ty k d = (if keyDestructor ty then d\<lparr>freed_keys := freed_keys d @ [k]\<rparr> else d)"

definition dictFreeVal :: "('k, 'v) dictType \<Rightarrow> 'v \<Rightarrow> ('k, 'v) dict \<Rightarrow> ('k, 'v) dict" where
  "dictFreeVal ty v d = (if valDestructor ty then d\<lparr>freed_vals := freed_vals d @ [v]\<rparr> else d)"

section \<open>Creation and resizing\<close>

definition u_dictReset :: "('k, 'v) dictht" where
  "u_dictReset = \<lparr>table = [], htsize = 0, sizemask = 0, used = 0\<rparr>"

definition u_dictInit :: "('k, 'v) dict" where
  "u_dictInit = \<lparr>ht0 = u_dictReset, ht1 = u_dictReset, rehashidx = -1, iterators = 0,
                 freed_keys = [], freed_vals = []\<rparr>"

definition dictCreate :: "('k, 'v) dict" where
  "dictCreate = u_dictInit"

text \<open>The loop starts at 4, so \<open>i\<close> is never 0.\<close>

function next_power_loop :: "nat \<Rightarrow> nat \<Rightarrow> nat" where
  "next_power_loop i n = (if n \<le> i \<or> i = 0 then i else next_power_loop (i * 2) n)"
  by pat_completeness auto

termination by (relation "measure (\<lambda>(i, n). n - i)") auto

declare next_power_loop.simps [simp del]

definition u_dictNextPower :: "nat \<Rightarrow> nat" where
  "u_dictNextPower n =
     (if n \<ge> LONG_MAX then LONG_MAX else next_power_loop DICT_HT_INITIAL_SIZE n)"

text \<open>The dictionary and whether the result is \<open>DICT_OK\<close>.\<close>

definition dictExpand :: "nat \<Rightarrow> ('k, 'v) dict \<Rightarrow> ('k, 'v) dict \<times> bool" where
  "dictExpand n d =
     (let realsize = u_dictNextPower n
      in if dictIsRehashing d \<or> used (ht0 d) > n then (d, False)
         else
           let h = \<lparr>table = replicate realsize [], htsize = realsize, sizemask = realsize - 1,
                    used = 0\<rparr>
           in if table (ht0 d) = [] then (d\<lparr>ht0 := h\<rparr>, True)
              else (d\<lparr>ht1 := h, rehashidx := 0\<rparr>, True))"

text \<open>\<open>minimal\<close> is an \<open>int\<close>.\<close>

definition dictResize :: "bool \<Rightarrow> ('k, 'v) dict \<Rightarrow> ('k, 'v) dict \<times> bool" where
  "dictResize can_resize d =
     (if \<not> can_resize \<or> dictIsRehashing d then (d, False)
      else let minimal = s32 (int (used (ht0 d)));
               minimal = (if minimal < int DICT_HT_INITIAL_SIZE then int DICT_HT_INITIAL_SIZE
                          else minimal)
           in dictExpand (nat minimal) d)"

definition u_dictExpandIfNeeded :: "bool \<Rightarrow> ('k, 'v) dict \<Rightarrow> ('k, 'v) dict \<times> bool" where
  "u_dictExpandIfNeeded can_resize d =
     (if dictIsRehashing d then (d, True)
      else if htsize (ht0 d) = 0 then dictExpand DICT_HT_INITIAL_SIZE d
      else if used (ht0 d) \<ge> htsize (ht0 d) \<and>
              (can_resize \<or> used (ht0 d) div htsize (ht0 d) > dict_force_resize_ratio)
      then dictExpand (used (ht0 d) * 2) d
      else (d, True))"

section \<open>Rehashing\<close>

text \<open>Put an entry in front of its chain.\<close>

definition push_entry :: "nat \<Rightarrow> ('k, 'v) dictEntry \<Rightarrow> ('k, 'v) dictht \<Rightarrow> ('k, 'v) dictht option" where
  "push_entry idx e h =
     (if idx < length (table h)
      then Some (h\<lparr>table := (table h)[idx := e # table h ! idx], used := used h + 1\<rparr>)
      else None)"

text \<open>The entries of a bucket, in chain order, into the new table.\<close>

fun move_entries ::
    "('k, 'v) dictType \<Rightarrow> ('k, 'v) dictEntry list \<Rightarrow> ('k, 'v) dictht \<times> ('k, 'v) dictht
     \<Rightarrow> (('k, 'v) dictht \<times> ('k, 'v) dictht) option" where
  "move_entries ty [] hs = Some hs"
| "move_entries ty (e # es) hs = do {
     let (h0, h1) = hs;
     h1 \<leftarrow> push_entry (hashFunction ty (fst e) AND sizemask h1) e h1;
     move_entries ty es (h0\<lparr>used := used h0 - 1\<rparr>, h1) }"

text \<open>\<open>while(d->ht[0].table[d->rehashidx] == NULL) d->rehashidx++;\<close>\<close>

function next_bucket :: "('k, 'v) dictEntry list list \<Rightarrow> nat \<Rightarrow> nat option" where
  "next_bucket t i =
     (if i < length t then (if t ! i = [] then next_bucket t (i + 1) else Some i) else None)"
  by pat_completeness auto

termination by (relation "measure (\<lambda>(t, i). length t - i)") auto

declare next_bucket.simps [simp del]

fun rehash_loop :: "('k, 'v) dictType \<Rightarrow> nat \<Rightarrow> ('k, 'v) dict \<Rightarrow> (('k, 'v) dict \<times> bool) option" where
  "rehash_loop ty 0 d = Some (d, True)"
| "rehash_loop ty (Suc n) d =
     (if used (ht0 d) = 0
      then Some (d\<lparr>ht0 := ht1 d, ht1 := u_dictReset, rehashidx := -1\<rparr>, False)
      else if \<not> int (htsize (ht0 d)) > rehashidx d then None
      else do {
        i \<leftarrow> next_bucket (table (ht0 d)) (nat (rehashidx d));
        (h0, h1) \<leftarrow> move_entries ty (table (ht0 d) ! i) (ht0 d, ht1 d);
        rehash_loop ty n (d\<lparr>ht0 := h0\<lparr>table := (table h0)[i := []]\<rparr>, ht1 := h1,
                            rehashidx := int i + 1\<rparr>) })"

definition dictRehash :: "('k, 'v) dictType \<Rightarrow> nat \<Rightarrow> ('k, 'v) dict \<Rightarrow> (('k, 'v) dict \<times> bool) option" where
  "dictRehash ty n d = (if dictIsRehashing d then rehash_loop ty n d else Some (d, False))"

definition u_dictRehashStep :: "('k, 'v) dictType \<Rightarrow> ('k, 'v) dict \<Rightarrow> ('k, 'v) dict option" where
  "u_dictRehashStep ty d =
     (if iterators d = 0 then map_option fst (dictRehash ty 1 d) else Some d)"

definition rehash_if_needed :: "('k, 'v) dictType \<Rightarrow> ('k, 'v) dict \<Rightarrow> ('k, 'v) dict option" where
  "rehash_if_needed ty d = (if dictIsRehashing d then u_dictRehashStep ty d else Some d)"

text \<open>
  \<open>dictRehashMilliseconds\<close>: the clock is read after each batch of 100; \<open>clock\<close> lists the
  elapsed times. The result is the number of rehashes counted, \<open>None\<close> also when the list of
  readings is too short.
\<close>

fun rehash_ms_loop ::
    "('k, 'v) dictType \<Rightarrow> int \<Rightarrow> int list \<Rightarrow> nat \<Rightarrow> ('k, 'v) dict \<Rightarrow> (('k, 'v) dict \<times> nat) option" where
  "rehash_ms_loop ty ms clock n d = do {
     (d, more) \<leftarrow> dictRehash ty 100 d;
     (if \<not> more then Some (d, n)
      else case clock of [] \<Rightarrow> None | t # clock \<Rightarrow>
        if t > ms then Some (d, n + 100) else rehash_ms_loop ty ms clock (n + 100) d) }"

definition dictRehashMilliseconds ::
    "('k, 'v) dictType \<Rightarrow> int \<Rightarrow> int list \<Rightarrow> ('k, 'v) dict \<Rightarrow> (('k, 'v) dict \<times> nat) option" where
  "dictRehashMilliseconds ty ms clock d = rehash_ms_loop ty ms clock 0 d"

section \<open>Lookup, insertion, deletion\<close>

text \<open>The position of a key in a chain.\<close>

fun find_pos :: "('k, 'v) dictType \<Rightarrow> 'k \<Rightarrow> ('k, 'v) dictEntry list \<Rightarrow> nat option" where
  "find_pos ty key [] = None"
| "find_pos ty key (he # r) =
     (if dictCompareKeys ty key (fst he) then Some 0 else map_option Suc (find_pos ty key r))"

definition get_ht :: "('k, 'v) dict \<Rightarrow> nat \<Rightarrow> ('k, 'v) dictht" where
  "get_ht d t = (if t = 0 then ht0 d else ht1 d)"

definition set_ht :: "nat \<Rightarrow> ('k, 'v) dictht \<Rightarrow> ('k, 'v) dict \<Rightarrow> ('k, 'v) dict" where
  "set_ht t h d = (if t = 0 then d\<lparr>ht0 := h\<rparr> else d\<lparr>ht1 := h\<rparr>)"

definition bucket :: "('k, 'v) dictht \<Rightarrow> nat \<Rightarrow> ('k, 'v) dictEntry list option" where
  "bucket h i = (if i < length (table h) then Some (table h ! i) else None)"

text \<open>
  The loop over the two tables that lookup, deletion and insertion share: the entry, or the
  index in the last table searched.
\<close>

definition search_table ::
    "('k, 'v) dictType \<Rightarrow> 'k \<Rightarrow> ('k, 'v) dict \<Rightarrow> nat \<Rightarrow> (nat \<times> nat option) option" where
  "search_table ty key d t = do {
     let idx = hashFunction ty key AND sizemask (get_ht d t);
     chain \<leftarrow> bucket (get_ht d t) idx;
     Some (idx, find_pos ty key chain) }"

definition search_tables ::
    "('k, 'v) dictType \<Rightarrow> 'k \<Rightarrow> ('k, 'v) dict \<Rightarrow> (entry_ref option \<times> nat) option" where
  "search_tables ty key d = do {
     (idx, p) \<leftarrow> search_table ty key d 0;
     case p of
       Some pos \<Rightarrow> Some (Some (0, idx, pos), idx)
     | None \<Rightarrow>
         if \<not> dictIsRehashing d then Some (None, idx)
         else do {
           (idx, p) \<leftarrow> search_table ty key d 1;
           case p of Some pos \<Rightarrow> Some (Some (1, idx, pos), idx) | None \<Rightarrow> Some (None, idx) } }"

definition u_dictKeyIndex ::
    "('k, 'v) dictType \<Rightarrow> bool \<Rightarrow> 'k \<Rightarrow> ('k, 'v) dict \<Rightarrow> (('k, 'v) dict \<times> nat option) option" where
  "u_dictKeyIndex ty can_resize key d =
     (case u_dictExpandIfNeeded can_resize d of
        (d, False) \<Rightarrow> Some (d, None)
      | (d, True) \<Rightarrow> do {
          (r, idx) \<leftarrow> search_tables ty key d;
          Some (d, case r of Some _ \<Rightarrow> None | None \<Rightarrow> Some idx) })"

text \<open>The value of the new entry is uninitialised: \<open>u\<close>.\<close>

definition dictAddRaw ::
    "('k, 'v) dictType \<Rightarrow> bool \<Rightarrow> 'v \<Rightarrow> 'k \<Rightarrow> ('k, 'v) dict
     \<Rightarrow> (('k, 'v) dict \<times> entry_ref option) option" where
  "dictAddRaw ty can_resize u key d = do {
     d \<leftarrow> rehash_if_needed ty d;
     (d, index) \<leftarrow> u_dictKeyIndex ty can_resize key d;
     (case index of
        None \<Rightarrow> Some (d, None)
      | Some i \<Rightarrow> do {
          let t = (if dictIsRehashing d then 1 else 0);
          h \<leftarrow> push_entry i (dictSetKey ty key, u) (get_ht d t);
          Some (set_ht t h d, Some (t, i, 0)) }) }"

definition entry_at :: "entry_ref \<Rightarrow> ('k, 'v) dict \<Rightarrow> ('k, 'v) dictEntry option" where
  "entry_at = (\<lambda>(t, i, p) d. do {
     chain \<leftarrow> bucket (get_ht d t) i;
     (if p < length chain then Some (chain ! p) else None) })"

definition set_entry_val :: "('k, 'v) dictType \<Rightarrow> entry_ref \<Rightarrow> 'v \<Rightarrow> ('k, 'v) dict \<Rightarrow> ('k, 'v) dict option" where
  "set_entry_val ty = (\<lambda>(t, i, p) v d. do {
     chain \<leftarrow> bucket (get_ht d t) i;
     (if p < length chain
      then let h = get_ht d t;
               chain = chain[p := (fst (chain ! p), dictSetVal ty v)]
           in Some (set_ht t (h\<lparr>table := (table h)[i := chain]\<rparr>) d)
      else None) })"

definition dictAdd ::
    "('k, 'v) dictType \<Rightarrow> bool \<Rightarrow> 'v \<Rightarrow> 'k \<Rightarrow> 'v \<Rightarrow> ('k, 'v) dict \<Rightarrow> (('k, 'v) dict \<times> bool) option" where
  "dictAdd ty can_resize u key val d = do {
     (d, entry) \<leftarrow> dictAddRaw ty can_resize u key d;
     (case entry of
        None \<Rightarrow> Some (d, False)
      | Some e \<Rightarrow> do { d \<leftarrow> set_entry_val ty e val d; Some (d, True) }) }"

definition dictFind ::
    "('k, 'v) dictType \<Rightarrow> 'k \<Rightarrow> ('k, 'v) dict \<Rightarrow> (('k, 'v) dict \<times> entry_ref option) option" where
  "dictFind ty key d =
     (if htsize (ht0 d) = 0 then Some (d, None)
      else do {
        d \<leftarrow> rehash_if_needed ty d;
        (r, _) \<leftarrow> search_tables ty key d;
        Some (d, r) })"

definition dictFetchValue ::
    "('k, 'v) dictType \<Rightarrow> 'k \<Rightarrow> ('k, 'v) dict \<Rightarrow> (('k, 'v) dict \<times> 'v option) option" where
  "dictFetchValue ty key d = do {
     (d, he) \<leftarrow> dictFind ty key d;
     (case he of
        None \<Rightarrow> Some (d, None)
      | Some r \<Rightarrow> do { e \<leftarrow> entry_at r d; Some (d, Some (snd e)) }) }"

text \<open>1 when the key was added, 0 when its value was replaced.\<close>

definition dictReplace ::
    "('k, 'v) dictType \<Rightarrow> bool \<Rightarrow> 'v \<Rightarrow> 'k \<Rightarrow> 'v \<Rightarrow> ('k, 'v) dict \<Rightarrow> (('k, 'v) dict \<times> bool) option" where
  "dictReplace ty can_resize u key val d = do {
     (d, added) \<leftarrow> dictAdd ty can_resize u key val d;
     (if added then Some (d, True)
      else do {
        (d, he) \<leftarrow> dictFind ty key d;
        (case he of
           None \<Rightarrow> None
         | Some r \<Rightarrow> do {
             auxentry \<leftarrow> entry_at r d;
             d \<leftarrow> set_entry_val ty r val d;
             Some (dictFreeVal ty (snd auxentry) d, False) }) }) }"

definition dictReplaceRaw ::
    "('k, 'v) dictType \<Rightarrow> bool \<Rightarrow> 'v \<Rightarrow> 'k \<Rightarrow> ('k, 'v) dict
     \<Rightarrow> (('k, 'v) dict \<times> entry_ref option) option" where
  "dictReplaceRaw ty can_resize u key d = do {
     (d, he) \<leftarrow> dictFind ty key d;
     (case he of Some r \<Rightarrow> Some (d, Some r) | None \<Rightarrow> dictAddRaw ty can_resize u key d) }"

definition unlink :: "nat \<Rightarrow> nat \<Rightarrow> ('k, 'v) dictht \<Rightarrow> ('k, 'v) dictht" where
  "unlink i p h =
     h\<lparr>table := (table h)[i := take p (table h ! i) @ drop (Suc p) (table h ! i)], used := used h - 1\<rparr>"

definition dictGenericDelete ::
    "('k, 'v) dictType \<Rightarrow> bool \<Rightarrow> 'k \<Rightarrow> ('k, 'v) dict \<Rightarrow> (('k, 'v) dict \<times> bool) option" where
  "dictGenericDelete ty nofree key d =
     (if htsize (ht0 d) = 0 then Some (d, False)
      else do {
        d \<leftarrow> rehash_if_needed ty d;
        (r, _) \<leftarrow> search_tables ty key d;
        (case r of
           None \<Rightarrow> Some (d, False)
         | Some (t, i, p) \<Rightarrow> do {
             he \<leftarrow> entry_at (t, i, p) d;
             let d' = (if nofree then d else dictFreeVal ty (snd he) (dictFreeKey ty (fst he) d));
             Some (set_ht t (unlink i p (get_ht d' t)) d', True) }) })"

definition dictDelete :: "('k, 'v) dictType \<Rightarrow> 'k \<Rightarrow> ('k, 'v) dict \<Rightarrow> (('k, 'v) dict \<times> bool) option" where
  "dictDelete ty key d = dictGenericDelete ty False key d"

definition dictDeleteNoFree :: "('k, 'v) dictType \<Rightarrow> 'k \<Rightarrow> ('k, 'v) dict \<Rightarrow> (('k, 'v) dict \<times> bool) option" where
  "dictDeleteNoFree ty key d = dictGenericDelete ty True key d"

section \<open>Clearing\<close>

fun clear_chain ::
    "('k, 'v) dictType \<Rightarrow> ('k, 'v) dictEntry list \<Rightarrow> nat \<times> ('k, 'v) dict \<Rightarrow> nat \<times> ('k, 'v) dict" where
  "clear_chain ty [] ud = ud"
| "clear_chain ty (he # r) ud =
     clear_chain ty r (fst ud - 1, dictFreeVal ty (snd he) (dictFreeKey ty (fst he) (snd ud)))"

text \<open>The buckets in order, while \<open>ht->used > 0\<close>. The callback only reports progress.\<close>

fun clear_buckets ::
    "('k, 'v) dictType \<Rightarrow> ('k, 'v) dictEntry list list \<Rightarrow> nat \<times> ('k, 'v) dict \<Rightarrow> nat \<times> ('k, 'v) dict" where
  "clear_buckets ty [] ud = ud"
| "clear_buckets ty (b # bs) ud =
     (if fst ud > 0 then clear_buckets ty bs (clear_chain ty b ud) else ud)"

definition u_dictClear :: "('k, 'v) dictType \<Rightarrow> nat \<Rightarrow> ('k, 'v) dict \<Rightarrow> ('k, 'v) dict" where
  "u_dictClear ty t d =
     (let h = get_ht d t
      in set_ht t u_dictReset (snd (clear_buckets ty (take (htsize h) (table h)) (used h, d))))"

text \<open>What remains of a released dictionary is the log of its destructors.\<close>

definition dictRelease :: "('k, 'v) dictType \<Rightarrow> ('k, 'v) dict \<Rightarrow> 'k list \<times> 'v list" where
  "dictRelease ty d =
     (let d = u_dictClear ty 1 (u_dictClear ty 0 d) in (freed_keys d, freed_vals d))"

definition dictEmpty :: "('k, 'v) dictType \<Rightarrow> ('k, 'v) dict \<Rightarrow> ('k, 'v) dict" where
  "dictEmpty ty d = (u_dictClear ty 1 (u_dictClear ty 0 d))\<lparr>rehashidx := -1, iterators := 0\<rparr>"

section \<open>The abstraction\<close>

definition entries :: "('k, 'v) dict \<Rightarrow> ('k, 'v) dictEntry list" where
  "entries d = concat (table (ht0 d)) @ concat (table (ht1 d))"

definition amap :: "('k, 'v) dictType \<Rightarrow> ('k, 'v) dict \<Rightarrow> 'k \<Rightarrow> 'v option" where
  "amap ty d k = map_option snd (find (\<lambda>e. dictCompareKeys ty k (fst e)) (entries d))"

text \<open>At most one entry per class of equal keys.\<close>

definition one_each :: "('k, 'v) dictType \<Rightarrow> ('k, 'v) dictEntry multiset \<Rightarrow> bool" where
  "one_each ty M \<longleftrightarrow> (\<forall>k. size (filter_mset (\<lambda>e. dictCompareKeys ty k (fst e)) M) \<le> 1)"

text \<open>A table in use: a power of two, with its mask, its count and every entry in its bucket.\<close>

definition ht_ok :: "('k, 'v) dictType \<Rightarrow> ('k, 'v) dictht \<Rightarrow> bool" where
  "ht_ok ty h \<longleftrightarrow>
     (\<exists>b \<ge> 2. htsize h = 2 ^ b) \<and> sizemask h = htsize h - 1 \<and> length (table h) = htsize h \<and>
     used h = length (concat (table h)) \<and>
     (\<forall>i < htsize h. \<forall>e \<in> set (table h ! i). hashFunction ty (fst e) mod htsize h = i)"

definition dict_ok :: "('k, 'v) dictType \<Rightarrow> ('k, 'v) dict \<Rightarrow> bool" where
  "dict_ok ty d \<longleftrightarrow>
     (if rehashidx d = -1
      then ht1 d = u_dictReset \<and> (ht0 d = u_dictReset \<or> ht_ok ty (ht0 d))
      else 0 \<le> rehashidx d \<and> ht_ok ty (ht0 d) \<and> ht_ok ty (ht1 d) \<and>
           (\<forall>i < nat (rehashidx d). i < htsize (ht0 d) \<longrightarrow> table (ht0 d) ! i = [])) \<and>
     one_each ty (mset (entries d))"

lemma mset_concat_update:
  "i < length t \<Longrightarrow> mset (concat (t[i := x])) + mset (t ! i) = mset (concat t) + mset x"
proof (induction t arbitrary: i)
  case Nil
  then show ?case by simp
next
  case (Cons a t)
  then show ?case by (cases i) (auto simp: ac_simps)
qed

lemma length_concat_update:
  "i < length t \<Longrightarrow> length (concat (t[i := x])) + length (t ! i) = length (concat t) + length x"
  using arg_cong [OF mset_concat_update [of i t x], of size] by simp

lemma mask_mod: "sizemask h = htsize h - 1 \<Longrightarrow> htsize h = 2 ^ b \<Longrightarrow> n AND sizemask h = n mod htsize h"
  by (simp add: take_bit_eq_mod [symmetric] take_bit_eq_mask mask_eq_exp_minus_1)

lemma ht_okD:
  assumes "ht_ok ty h"
  shows "0 < htsize h" and "length (table h) = htsize h" and "n AND sizemask h = n mod htsize h"
    and "used h = length (concat (table h))"
    and "i < htsize h \<Longrightarrow> e \<in> set (table h ! i) \<Longrightarrow> hashFunction ty (fst e) mod htsize h = i"
  using assms mask_mod [of h] by (auto simp: ht_ok_def)

lemma push_entry_ok:
  assumes "ht_ok ty h" and i: "i = hashFunction ty (fst e) AND sizemask h"
  shows "\<exists>h'. push_entry i e h = Some h' \<and> ht_ok ty h' \<and> htsize h' = htsize h \<and>
    mset (concat (table h')) = add_mset e (mset (concat (table h))) \<and>
    table h' = (table h)[i := e # table h ! i] \<and> i < length (table h)"
proof -
  note h = ht_okD [OF assms(1)]
  have i_lt: "i < length (table h)" using h i by simp
  let ?h = "h\<lparr>table := (table h)[i := e # table h ! i], used := used h + 1\<rparr>"
  have m: "mset (concat ((table h)[i := e # table h ! i])) = add_mset e (mset (concat (table h)))"
    using mset_concat_update [OF i_lt, of "e # table h ! i"] by simp
  have l: "length (concat ((table h)[i := e # table h ! i])) = Suc (length (concat (table h)))"
    using arg_cong [OF m, of size] by (simp only: size_mset size_add_mset)
  have "hashFunction ty (fst e') mod htsize h = j"
    if "j < htsize h" "e' \<in> set ((table h)[i := e # table h ! i] ! j)" for j e'
  proof (cases "j = i")
    case True
    then have "e' = e \<or> e' \<in> set (table h ! i)" using that(2) i_lt by simp
    then show ?thesis using that(1) True i h(3) h(5) [of i e'] by auto
  next
    case False
    then have "e' \<in> set (table h ! j)" using that(2) by simp
    then show ?thesis by (rule h(5) [OF that(1)])
  qed
  then have "ht_ok ty ?h" using assms(1) l by (simp add: ht_ok_def)
  then show ?thesis using m i_lt by (auto simp: push_entry_def)
qed

lemma move_entries_ok:
  "ht_ok ty h1 \<Longrightarrow> length es \<le> used h0 \<Longrightarrow>
   \<exists>h1'. move_entries ty es (h0, h1) = Some (h0\<lparr>used := used h0 - length es\<rparr>, h1') \<and>
     ht_ok ty h1' \<and> mset (concat (table h1')) = mset es + mset (concat (table h1))"
proof (induction es arbitrary: h0 h1)
  case Nil
  then show ?case by simp
next
  case (Cons e es)
  obtain h1' where p: "push_entry (hashFunction ty (fst e) AND sizemask h1) e h1 = Some h1'"
    "ht_ok ty h1'" "mset (concat (table h1')) = add_mset e (mset (concat (table h1)))"
    using push_entry_ok [OF Cons.prems(1) refl] by blast
  have "length es \<le> used (h0\<lparr>used := used h0 - 1\<rparr>)" using Cons.prems(2) by simp
  from Cons.IH [OF p(2) this] p Cons.prems(2) show ?case
    by (auto simp: Let_def)
qed

lemma next_bucket_ok:
  "j < length t \<Longrightarrow> i \<le> j \<Longrightarrow> t ! j \<noteq> [] \<Longrightarrow>
   \<exists>k. next_bucket t i = Some k \<and> i \<le> k \<and> k < length t \<and> t ! k \<noteq> [] \<and>
     (\<forall>m. i \<le> m \<and> m < k \<longrightarrow> t ! m = [])"
proof (induction t i rule: next_bucket.induct)
  case (1 t i)
  have i: "i < length t" using 1 by simp
  show ?case
  proof (cases "t ! i = []")
    case True
    then have "i + 1 \<le> j" using 1 by (cases "i = j") auto
    from 1(1) [OF i True 1(2) this 1(4)] obtain k where
      k: "next_bucket t (i + 1) = Some k" "i + 1 \<le> k" "k < length t" "t ! k \<noteq> []"
      "\<And>m. i + 1 \<le> m \<Longrightarrow> m < k \<Longrightarrow> t ! m = []" by blast
    have "t ! m = []" if "i \<le> m" "m < k" for m
      using that k(5) [of m] True by (cases "m = i") auto
    then show ?thesis using i True k by (subst next_bucket.simps) auto
  next
    case False
    then show ?thesis using i by (subst next_bucket.simps) auto
  qed
qed

lemma concat_nonempty: "concat t \<noteq> [] \<Longrightarrow> \<exists>j < length t. t ! j \<noteq> []"
  by (auto simp: in_set_conv_nth)

text \<open>What a round of rehashing keeps.\<close>

definition same_content :: "('k, 'v) dict \<Rightarrow> ('k, 'v) dict \<Rightarrow> bool" where
  "same_content d d' \<longleftrightarrow>
     mset (entries d') = mset (entries d) \<and> iterators d' = iterators d \<and>
     freed_keys d' = freed_keys d \<and> freed_vals d' = freed_vals d"

lemma same_content_refl [simp]: "same_content d d"
  by (simp add: same_content_def)

lemma same_content_trans: "same_content a b \<Longrightarrow> same_content b c \<Longrightarrow> same_content a c"
  by (simp add: same_content_def)

lemma rehash_round:
  assumes ok: "dict_ok ty d" and rh: "dictIsRehashing d" and us: "used (ht0 d) \<noteq> 0"
  obtains i h0 h1 where "next_bucket (table (ht0 d)) (nat (rehashidx d)) = Some i"
    and "int (htsize (ht0 d)) > rehashidx d"
    and "move_entries ty (table (ht0 d) ! i) (ht0 d, ht1 d) = Some (h0, h1)"
    and "dict_ok ty (d\<lparr>ht0 := h0\<lparr>table := (table h0)[i := []]\<rparr>, ht1 := h1, rehashidx := int i + 1\<rparr>)"
    and "same_content d (d\<lparr>ht0 := h0\<lparr>table := (table h0)[i := []]\<rparr>, ht1 := h1, rehashidx := int i + 1\<rparr>)"
    and "used h0 < used (ht0 d)"
proof -
  let ?t = "table (ht0 d)" and ?r = "nat (rehashidx d)"
  have inv: "0 \<le> rehashidx d" "ht_ok ty (ht0 d)" "ht_ok ty (ht1 d)"
    "\<And>i. i < ?r \<Longrightarrow> i < htsize (ht0 d) \<Longrightarrow> ?t ! i = []" "one_each ty (mset (entries d))"
    using ok rh by (auto simp: dict_ok_def dictIsRehashing_def)
  note h = ht_okD [OF inv(2)]
  obtain j where j: "j < length ?t" "?t ! j \<noteq> []"
    using us h(4) concat_nonempty [of ?t] by auto
  then have "?r \<le> j" using inv(4) h(2) by (metis not_le)
  from next_bucket_ok [OF j(1) this j(2)] obtain i where
    i: "next_bucket ?t ?r = Some i" "?r \<le> i" "i < length ?t" "?t ! i \<noteq> []"
    "\<And>m. ?r \<le> m \<Longrightarrow> m < i \<Longrightarrow> ?t ! m = []" by blast
  have lc: "length (concat (?t[i := []])) + length (?t ! i) = length (concat ?t)"
    using length_concat_update [OF i(3), of "[]"] by simp
  then have "length (?t ! i) \<le> used (ht0 d)" using h(4) by simp
  from move_entries_ok [OF inv(3) this] obtain h1 where
    m: "move_entries ty (?t ! i) (ht0 d, ht1 d) = Some (ht0 d\<lparr>used := used (ht0 d) - length (?t ! i)\<rparr>, h1)"
    "ht_ok ty h1" "mset (concat (table h1)) = mset (?t ! i) + mset (concat (table (ht1 d)))" by blast
  let ?h0 = "ht0 d\<lparr>used := used (ht0 d) - length (?t ! i)\<rparr>"
  let ?d = "d\<lparr>ht0 := ?h0\<lparr>table := (table ?h0)[i := []]\<rparr>, ht1 := h1, rehashidx := int i + 1\<rparr>"
  have mc: "mset (concat (?t[i := []])) + mset (?t ! i) = mset (concat ?t)"
    using mset_concat_update [OF i(3), of "[]"] by simp
  then have me: "mset (entries ?d) = mset (entries d)"
    using m(3) by (simp add: entries_def ac_simps)
  have h0': "ht_ok ty (?h0\<lparr>table := ?t[i := []]\<rparr>)"
  proof -
    have "hashFunction ty (fst e') mod htsize (ht0 d) = j"
      if "j < htsize (ht0 d)" "e' \<in> set (?t[i := []] ! j)" for j e'
      using that h(2,5) i(3) by (cases "j = i") auto
    then show ?thesis using inv(2) lc h(4) by (auto simp: ht_ok_def)
  qed
  have z: "?t[i := []] ! k = []" if "k < i + 1" for k
    using that i(3,5) inv(4) h(2) by (cases "k = i"; cases "k < ?r") auto
  have "one_each ty (mset (entries ?d))" unfolding me by (rule inv(5))
  then have "dict_ok ty ?d"
    using m(2) h0' z by (simp add: dict_ok_def)
  moreover have "same_content d ?d" using me by (simp add: same_content_def)
  moreover have "int (htsize (ht0 d)) > rehashidx d" using i(2,3) h(2) inv(1) by linarith
  moreover have "used ?h0 < used (ht0 d)" using i(4) us by (simp)
  ultimately show ?thesis using that [of i ?h0 h1] i(1) m(1) by blast
qed

lemma rehash_loop_ok:
  "dict_ok ty d \<Longrightarrow> dictIsRehashing d \<Longrightarrow>
   \<exists>d' more. rehash_loop ty n d = Some (d', more) \<and> dict_ok ty d' \<and> same_content d d' \<and>
     (more \<longleftrightarrow> dictIsRehashing d') \<and> (more \<longrightarrow> n + used (ht0 d') \<le> used (ht0 d))"
proof (induction n arbitrary: d)
  case 0
  then show ?case by auto
next
  case (Suc n)
  show ?case
  proof (cases "used (ht0 d) = 0")
    case True
    let ?d = "d\<lparr>ht0 := ht1 d, ht1 := u_dictReset, rehashidx := -1\<rparr>"
    have "ht_ok ty (ht0 d)" "ht_ok ty (ht1 d)" "one_each ty (mset (entries d))"
      using Suc.prems by (auto simp: dict_ok_def dictIsRehashing_def)
    moreover from this have "concat (table (ht0 d)) = []" using True ht_okD(4) by fastforce
    then have "mset (entries ?d) = mset (entries d)" by (simp add: entries_def u_dictReset_def)
    ultimately show ?thesis using True
      by (auto simp: dict_ok_def same_content_def dictIsRehashing_def)
  next
    case False
    from rehash_round [OF Suc.prems False] obtain i h0 h1 where
      r: "next_bucket (table (ht0 d)) (nat (rehashidx d)) = Some i"
      "int (htsize (ht0 d)) > rehashidx d"
      "move_entries ty (table (ht0 d) ! i) (ht0 d, ht1 d) = Some (h0, h1)"
      and ok: "dict_ok ty (d\<lparr>ht0 := h0\<lparr>table := (table h0)[i := []]\<rparr>, ht1 := h1, rehashidx := int i + 1\<rparr>)"
      and sc: "same_content d (d\<lparr>ht0 := h0\<lparr>table := (table h0)[i := []]\<rparr>, ht1 := h1, rehashidx := int i + 1\<rparr>)"
      and us: "used h0 < used (ht0 d)" .
    have "dictIsRehashing (d\<lparr>ht0 := h0\<lparr>table := (table h0)[i := []]\<rparr>, ht1 := h1, rehashidx := int i + 1\<rparr>)"
      by (simp add: dictIsRehashing_def)
    from Suc.IH [OF ok this] r False us same_content_trans [OF sc]
    show ?thesis by (fastforce simp: Let_def)
  qed
qed

lemma dictSize_entries: "dict_ok ty d \<Longrightarrow> dictSize d = length (entries d)"
proof -
  assume "dict_ok ty d"
  then have "(ht0 d = u_dictReset \<or> ht_ok ty (ht0 d)) \<and> (ht1 d = u_dictReset \<or> ht_ok ty (ht1 d))"
    unfolding dict_ok_def by (metis (full_types))
  moreover have "used h = length (concat (table h))"
    if "h = u_dictReset \<or> ht_ok ty h" for h :: "('a, 'b) dictht"
    using that ht_okD(4) [of ty h] by (auto simp: u_dictReset_def)
  ultimately show ?thesis by (simp add: dictSize_def entries_def)
qed

lemma same_content_size:
  assumes "same_content d d'" and "dict_ok ty d" and "dict_ok ty d'"
  shows "dictSize d' = dictSize d"
proof -
  have "size (mset (entries d')) = size (mset (entries d))"
    using assms(1) by (simp only: same_content_def)
  then show ?thesis
    by (simp add: dictSize_entries [OF assms(2)] dictSize_entries [OF assms(3)])
qed

lemma htsize_0_iff: "dict_ok ty d \<Longrightarrow> htsize (ht0 d) = 0 \<longleftrightarrow> ht0 d = u_dictReset"
  by (auto simp: dict_ok_def u_dictReset_def dest: ht_okD(1) split: if_splits)

lemma ht_ok_htsize: "dict_ok ty d \<Longrightarrow> htsize (ht0 d) \<noteq> 0 \<Longrightarrow> ht_ok ty (ht0 d)"
  by (auto simp: dict_ok_def u_dictReset_def split: if_splits)

lemma rehash_if_needed_ok:
  assumes "dict_ok ty d"
  shows "\<exists>d'. rehash_if_needed ty d = Some d' \<and> dict_ok ty d' \<and> same_content d d' \<and>
    (htsize (ht0 d) \<noteq> 0 \<longrightarrow> htsize (ht0 d') \<noteq> 0)"
proof (cases "dictIsRehashing d \<and> iterators d = 0")
  case False
  then show ?thesis using assms by (auto simp: rehash_if_needed_def u_dictRehashStep_def)
next
  case True
  then obtain d' more where r: "rehash_loop ty 1 d = Some (d', more)" "dict_ok ty d'" "same_content d d'"
    using rehash_loop_ok [OF assms, of 1] by blast
  have "htsize (ht0 d') \<noteq> 0"
  proof (cases "used (ht0 d) = 0")
    case True': True
    then have "d' = d\<lparr>ht0 := ht1 d, ht1 := u_dictReset, rehashidx := -1\<rparr>" using r(1) by simp
    moreover have "ht_ok ty (ht1 d)" using True assms by (auto simp: dict_ok_def dictIsRehashing_def)
    ultimately show ?thesis using ht_okD(1) by fastforce
  next
    case False
    from rehash_round [OF assms _ False] True obtain i h0 h1 where
      "next_bucket (table (ht0 d)) (nat (rehashidx d)) = Some i"
      "int (htsize (ht0 d)) > rehashidx d"
      "move_entries ty (table (ht0 d) ! i) (ht0 d, ht1 d) = Some (h0, h1)"
      "dict_ok ty (d\<lparr>ht0 := h0\<lparr>table := (table h0)[i := []]\<rparr>, ht1 := h1, rehashidx := int i + 1\<rparr>)"
      by metis
    then have d': "d' = d\<lparr>ht0 := h0\<lparr>table := (table h0)[i := []]\<rparr>, ht1 := h1, rehashidx := int i + 1\<rparr>"
      using r(1) False by (simp add: Let_def)
    then have "ht_ok ty (ht0 d')" using r(2) by (simp add: dict_ok_def)
    then show ?thesis using ht_okD(1) by fastforce
  qed
  then show ?thesis using r True by (simp add: rehash_if_needed_def u_dictRehashStep_def dictRehash_def)
qed

section \<open>Resizing keeps the contents\<close>

lemma next_power_loop_ok: "\<exists>c \<ge> b. next_power_loop (2 ^ b) n = 2 ^ c \<and> n \<le> 2 ^ c"
proof (induction "n - 2 ^ b" arbitrary: b rule: less_induct)
  case less
  show ?case
  proof (cases "n \<le> 2 ^ b")
    case True
    then show ?thesis by (subst next_power_loop.simps) auto
  next
    case False
    moreover have "(0 :: nat) < 2 ^ b" by simp
    ultimately have "n - 2 ^ Suc b < n - 2 ^ b" unfolding power_Suc by linarith
    from less [OF this] obtain c where "c \<ge> Suc b" "next_power_loop (2 ^ Suc b) n = 2 ^ c" "n \<le> 2 ^ c"
      by blast
    then show ?thesis using False
      by (subst next_power_loop.simps) (auto simp: mult.commute intro!: exI [of _ c])
  qed
qed

lemma u_dictNextPower_ok:
  assumes "n < LONG_MAX" shows "\<exists>c \<ge> 2. u_dictNextPower n = 2 ^ c \<and> n \<le> 2 ^ c"
  using next_power_loop_ok [of 2 n] assms by (simp add: u_dictNextPower_def DICT_HT_INITIAL_SIZE_def)

lemma concat_replicate_Nil: "concat (replicate n []) = []"
  by (induction n) auto

lemma fresh_ht_ok:
  "2 \<le> c \<Longrightarrow> ht_ok ty \<lparr>table = replicate (2 ^ c) [], htsize = 2 ^ c, sizemask = 2 ^ c - 1, used = 0\<rparr>"
  by (auto simp: ht_ok_def concat_replicate_Nil)

lemma dictExpand_ok:
  assumes "dict_ok ty d" and "n < LONG_MAX" and "dictExpand n d = (d', r)"
  shows "dict_ok ty d' \<and> same_content d d' \<and> (r \<longleftrightarrow> \<not> dictIsRehashing d \<and> used (ht0 d) \<le> n) \<and>
    (r \<longrightarrow> htsize (ht0 d') \<noteq> 0)"
proof (cases "dictIsRehashing d \<or> used (ht0 d) > n")
  case True
  then show ?thesis using assms by (auto simp: dictExpand_def Let_def)
next
  case False
  obtain c where c: "2 \<le> c" "u_dictNextPower n = 2 ^ c" using u_dictNextPower_ok [OF assms(2)] by blast
  let ?h = "\<lparr>table = replicate (2 ^ c) [], htsize = 2 ^ c, sizemask = 2 ^ c - 1, used = 0\<rparr>"
  have h: "ht_ok ty ?h" using c(1) by (rule fresh_ht_ok)
  have hc: "concat (table ?h) = []" by (simp add: concat_replicate_Nil)
  have inv: "ht1 d = u_dictReset" "ht0 d = u_dictReset \<or> ht_ok ty (ht0 d)" "one_each ty (mset (entries d))"
    using assms(1) False by (auto simp: dict_ok_def dictIsRehashing_def)
  show ?thesis
  proof (cases "table (ht0 d) = []")
    case True
    have d': "d' = d\<lparr>ht0 := ?h\<rparr>" and r: r
      using assms(3) False True c(2) by (auto simp: dictExpand_def Let_def)
    have e: "entries d' = entries d" using True hc by (simp add: d' entries_def)
    have "dict_ok ty d'" using inv h False e by (simp add: dict_ok_def d' dictIsRehashing_def)
    then show ?thesis using r e False by (simp add: same_content_def d')
  next
    case f: False
    have d': "d' = d\<lparr>ht1 := ?h, rehashidx := 0\<rparr>" and r: r
      using assms(3) False f c(2) by (auto simp: dictExpand_def Let_def)
    have e: "entries d' = entries d" using inv(1) hc by (simp add: d' entries_def u_dictReset_def)
    have h0: "ht_ok ty (ht0 d)" using inv(2) f by (auto simp: u_dictReset_def)
    have "dict_ok ty d'" using inv h h0 e by (simp add: dict_ok_def d')
    then show ?thesis using r e False ht_okD(1) [OF h0] by (simp add: same_content_def d')
  qed
qed

lemma u_dictExpandIfNeeded_ok:
  assumes ok: "dict_ok ty d" and bound: "dictSize d < 2 ^ 61"
  shows "\<exists>d'. u_dictExpandIfNeeded cr d = (d', True) \<and> dict_ok ty d' \<and> same_content d d' \<and>
    htsize (ht0 d') \<noteq> 0"
proof -
  have us: "used (ht0 d) \<le> dictSize d" by (simp add: dictSize_def)
  consider (rh) "dictIsRehashing d" | (empty) "\<not> dictIsRehashing d" "htsize (ht0 d) = 0"
    | (grow) "\<not> dictIsRehashing d" "htsize (ht0 d) \<noteq> 0" "used (ht0 d) \<ge> htsize (ht0 d)"
        "cr \<or> used (ht0 d) div htsize (ht0 d) > dict_force_resize_ratio"
    | (stay) "\<not> dictIsRehashing d" "htsize (ht0 d) \<noteq> 0"
        "\<not> (used (ht0 d) \<ge> htsize (ht0 d) \<and> (cr \<or> used (ht0 d) div htsize (ht0 d) > dict_force_resize_ratio))"
    by blast
  then show ?thesis
  proof cases
    case rh
    then have "ht_ok ty (ht0 d)" using ok by (auto simp: dict_ok_def dictIsRehashing_def)
    then show ?thesis using rh ok ht_okD(1) by (fastforce simp: u_dictExpandIfNeeded_def)
  next
    case empty
    obtain d' r where e: "dictExpand DICT_HT_INITIAL_SIZE d = (d', r)" by fastforce
    have "used (ht0 d) = 0" using empty ok htsize_0_iff by (fastforce simp: u_dictReset_def)
    then show ?thesis using dictExpand_ok [OF ok _ e] e empty
      by (auto simp: u_dictExpandIfNeeded_def LONG_MAX_def DICT_HT_INITIAL_SIZE_def)
  next
    case grow
    obtain d' r where e: "dictExpand (used (ht0 d) * 2) d = (d', r)" by fastforce
    have "used (ht0 d) * 2 < LONG_MAX" using us bound by (simp add: LONG_MAX_def)
    from dictExpand_ok [OF ok this e] show ?thesis using e grow
      by (auto simp: u_dictExpandIfNeeded_def)
  next
    case stay
    then have "u_dictExpandIfNeeded cr d = (d, True)"
      unfolding u_dictExpandIfNeeded_def by (simp only: if_False)
    then show ?thesis using stay ok by simp
  qed
qed

end
