(* ===== verification/Dict_Correct.thy ===== *)
theory Dict_Correct
  imports Dict
begin

text \<open>
  The operations of \<open>Dict\<close> against the association \<open>amap\<close>. The contract a type of dictionary
  has to meet is the locale \<open>dict_type\<close>: its comparison is an equivalence, equal keys hash
  equally, a duplicated key equals its original. Inside it: what every operation returns
  and does to the association, and that no \<open>assert\<close> fails. \<open>Dict_Hash\<close> interprets it on the
  dictionary types of the server.
\<close>

section \<open>Associations as multisets of entries\<close>

lemma find_unique:
  "size (filter_mset P (mset xs)) \<le> 1 \<Longrightarrow> find P xs = Some e \<longleftrightarrow> e \<in> set xs \<and> P e"
proof (induction xs)
  case Nil
  then show ?case by simp
next
  case (Cons x xs)
  show ?case
  proof (cases "P x")
    case True
    then have "filter P xs = []" using Cons.prems by (simp flip: mset_filter)
    then have "\<forall>y \<in> set xs. \<not> P y" by (simp add: filter_empty_conv)
    then show ?thesis using True by auto
  next
    case False
    then show ?thesis using Cons by auto
  qed
qed

lemma amap_Some:
  "one_each ty (mset (entries d)) \<Longrightarrow>
   amap ty d k = Some v \<longleftrightarrow> (\<exists>k'. (k', v) \<in># mset (entries d) \<and> dictCompareKeys ty k k')"
proof -
  assume "one_each ty (mset (entries d))"
  then have "find (\<lambda>e. dictCompareKeys ty k (fst e)) (entries d) = Some e \<longleftrightarrow>
    e \<in> set (entries d) \<and> dictCompareKeys ty k (fst e)" for e
    by (intro find_unique) (simp add: one_each_def)
  moreover have "amap ty d k = Some v \<longleftrightarrow>
    (\<exists>k'. find (\<lambda>e. dictCompareKeys ty k (fst e)) (entries d) = Some (k', v))"
    by (auto simp: amap_def)
  ultimately show ?thesis by simp
qed

lemma amap_None:
  "amap ty d k = None \<longleftrightarrow> (\<forall>e \<in># mset (entries d). \<not> dictCompareKeys ty k (fst e))"
  by (auto simp: amap_def find_None_iff)

lemma amap_cong:
  assumes "one_each ty (mset (entries d))" and "mset (entries d') = mset (entries d)"
  shows "amap ty d' = amap ty d"
proof
  fix k
  have "amap ty d' k = Some v \<longleftrightarrow> amap ty d k = Some v" for v
    using assms by (simp add: amap_Some)
  then show "amap ty d' k = amap ty d k" by (metis option.exhaust)
qed

lemma dict_ok_one_each: "dict_ok ty d \<Longrightarrow> one_each ty (mset (entries d))"
  by (simp add: dict_ok_def)

lemma amap_same_content: "dict_ok ty d \<Longrightarrow> same_content d d' \<Longrightarrow> amap ty d' = amap ty d"
  by (simp add: same_content_def amap_cong dict_ok_one_each)

text \<open>Setting the value of a whole class of equal keys.\<close>

definition upd_class :: "('k, 'v) dictType \<Rightarrow> 'k \<Rightarrow> 'v option \<Rightarrow> ('k \<Rightarrow> 'v option) \<Rightarrow> 'k \<Rightarrow> 'v option" where
  "upd_class ty key x m = (\<lambda>k. if dictCompareKeys ty k key then x else m k)"

section \<open>Positions\<close>

lemma find_pos_None: "find_pos ty key c = None \<longleftrightarrow> (\<forall>e \<in> set c. \<not> dictCompareKeys ty key (fst e))"
  by (induction c) auto

lemma find_pos_Some: "find_pos ty key c = Some p \<Longrightarrow> p < length c \<and> dictCompareKeys ty key (fst (c ! p))"
  by (induction c arbitrary: p) (auto split: if_splits)

lemma bucket_Some: "bucket h i = Some c \<longleftrightarrow> i < length (table h) \<and> c = table h ! i"
  by (auto simp: bucket_def)

lemma entry_at_Some:
  "entry_at (t, i, p) d = Some e \<longleftrightarrow>
   i < length (table (get_ht d t)) \<and> p < length (table (get_ht d t) ! i) \<and>
   e = table (get_ht d t) ! i ! p"
  by (auto simp: entry_at_def bucket_def)

lemma entry_at_in_entries: "entry_at r d = Some e \<Longrightarrow> e \<in> set (entries d)"
  by (cases r) (auto simp: entry_at_Some entries_def get_ht_def split: if_splits; metis nth_mem)

lemma get_ht_ok:
  assumes "dict_ok ty d" and "table (get_ht d t) \<noteq> []"
  shows "ht_ok ty (get_ht d t)"
  using assms by (auto simp: dict_ok_def get_ht_def u_dictReset_def split: if_splits)

lemma set_ht_simps [simp]:
  "iterators (set_ht t h d) = iterators d" "freed_keys (set_ht t h d) = freed_keys d"
  "freed_vals (set_ht t h d) = freed_vals d" "rehashidx (set_ht t h d) = rehashidx d"
  "dictIsRehashing (set_ht t h d) = dictIsRehashing d" "get_ht (set_ht t h d) t = h"
  by (simp_all add: set_ht_def get_ht_def dictIsRehashing_def)

text \<open>Replacing one table by another that is in order keeps the dictionary in order.\<close>

lemma set_ht_ok:
  assumes ok: "dict_ok ty d" and h: "ht_ok ty h" and t: "table (get_ht d t) \<noteq> []"
    and sz: "htsize h = htsize (get_ht d t)"
    and z: "\<And>i. t = 0 \<Longrightarrow> table (ht0 d) ! i = [] \<Longrightarrow> table h ! i = [] \<or> \<not> dictIsRehashing d"
    and one: "one_each ty (mset (entries (set_ht t h d)))"
  shows "dict_ok ty (set_ht t h d)"
proof (cases "rehashidx d = -1")
  case True
  then have "t = 0" using ok t by (auto simp: dict_ok_def get_ht_def u_dictReset_def split: if_splits)
  then show ?thesis using True ok h one by (simp add: dict_ok_def set_ht_def)
next
  case False
  then have rh: "dictIsRehashing d" by (simp add: dictIsRehashing_def)
  have inv: "0 \<le> rehashidx d" "ht_ok ty (ht0 d)" "ht_ok ty (ht1 d)"
    "\<And>i. i < nat (rehashidx d) \<Longrightarrow> i < htsize (ht0 d) \<Longrightarrow> table (ht0 d) ! i = []"
    using ok False by (auto simp: dict_ok_def)
  show ?thesis
  proof (cases "t = 0")
    case True
    then have "table h ! i = []" if "i < nat (rehashidx d)" "i < htsize h" for i
      using inv(4) [of i] that z [of i] rh sz by (auto simp: get_ht_def)
    then show ?thesis using True False inv h one sz by (simp add: dict_ok_def set_ht_def)
  next
    case f: False
    then show ?thesis using False inv h one by (simp add: dict_ok_def set_ht_def)
  qed
qed

lemma entries_set_ht:
  "t \<le> 1 \<Longrightarrow> mset (entries (set_ht t h d)) + mset (concat (table (get_ht d t))) =
   mset (entries d) + mset (concat (table h))"
  by (auto simp: entries_def set_ht_def get_ht_def le_Suc_eq ac_simps)

section \<open>The contract of a dictionary type\<close>

locale dict_type =
  fixes ty :: "('k, 'v) dictType"
  assumes cmp_refl: "dictCompareKeys ty a a"
    and cmp_sym: "dictCompareKeys ty a b \<Longrightarrow> dictCompareKeys ty b a"
    and cmp_trans: "dictCompareKeys ty a b \<Longrightarrow> dictCompareKeys ty b c \<Longrightarrow> dictCompareKeys ty a c"
    and cmp_hash: "dictCompareKeys ty a b \<Longrightarrow> hashFunction ty a = hashFunction ty b"
    and cmp_dup: "dictCompareKeys ty (dictSetKey ty a) a"
begin

lemma one_each_add:
  assumes "one_each ty M" and "\<forall>e \<in># M. \<not> dictCompareKeys ty key (fst e)"
    and "dictCompareKeys ty k0 key"
  shows "one_each ty (add_mset (k0, v) M)"
  unfolding one_each_def
proof
  fix k
  have "filter_mset (\<lambda>e. dictCompareKeys ty k (fst e)) M = {#}" if "dictCompareKeys ty k k0"
  proof -
    have "\<not> dictCompareKeys ty k (fst e)" if "e \<in># M" for e
      using that assms(2) cmp_trans [of key k "fst e"] cmp_trans [OF \<open>dictCompareKeys ty k k0\<close> assms(3)]
        cmp_sym by blast
    then show ?thesis by (auto simp: multiset_eq_iff count_eq_zero_iff)
  qed
  then show "size (filter_mset (\<lambda>e. dictCompareKeys ty k (fst e)) (add_mset (k0, v) M)) \<le> 1"
    using assms(1) by (auto simp: one_each_def)
qed

lemma one_each_remove: "one_each ty (add_mset e M) \<Longrightarrow> one_each ty M"
  unfolding one_each_def
proof
  fix k
  assume "\<forall>k. size (filter_mset (\<lambda>e. dictCompareKeys ty k (fst e)) (add_mset e M)) \<le> 1"
  then have "size (filter_mset (\<lambda>e. dictCompareKeys ty k (fst e)) (add_mset e M)) \<le> 1" by blast
  moreover have "size (filter_mset P M) \<le> size (filter_mset P (add_mset e M))" for P by simp
  ultimately show "size (filter_mset (\<lambda>e. dictCompareKeys ty k (fst e)) M) \<le> 1"
    using le_trans by blast
qed

lemma one_each_unique:
  assumes "one_each ty (add_mset e M)" and "dictCompareKeys ty key (fst e)" and "e' \<in># M"
  shows "\<not> dictCompareKeys ty key (fst e')"
proof
  assume "dictCompareKeys ty key (fst e')"
  then have "e' \<in># filter_mset (\<lambda>e. dictCompareKeys ty key (fst e)) M" using assms(3) by simp
  then have "size (filter_mset (\<lambda>e. dictCompareKeys ty key (fst e)) M) \<noteq> 0"
    by (metis empty_iff set_mset_empty size_eq_0_iff_empty)
  moreover have "size (filter_mset (\<lambda>e. dictCompareKeys ty key (fst e)) (add_mset e M)) \<le> 1"
    using assms(1) unfolding one_each_def by blast
  moreover have "size (filter_mset (\<lambda>e. dictCompareKeys ty key (fst e)) (add_mset e M)) =
    Suc (size (filter_mset (\<lambda>e. dictCompareKeys ty key (fst e)) M))" using assms(2) by simp
  ultimately show False by linarith
qed

lemma cmp_left: "dictCompareKeys ty a b \<Longrightarrow> dictCompareKeys ty a c \<longleftrightarrow> dictCompareKeys ty b c"
  using cmp_trans cmp_sym by blast

lemma cmp_right: "dictCompareKeys ty a b \<Longrightarrow> dictCompareKeys ty c a \<longleftrightarrow> dictCompareKeys ty c b"
  using cmp_trans cmp_sym by blast

lemma amap_class: "dictCompareKeys ty a b \<Longrightarrow> amap ty d a = amap ty d b"
proof -
  assume "dictCompareKeys ty a b"
  then have "(\<lambda>e :: 'k \<times> 'v. dictCompareKeys ty a (fst e)) = (\<lambda>e. dictCompareKeys ty b (fst e))"
    by (auto simp: cmp_left fun_eq_iff)
  then show ?thesis by (simp add: amap_def)
qed

lemma amap_present:
  assumes "one_each ty (mset (entries d))" and "mset (entries d) = add_mset (k0, v) M"
    and "dictCompareKeys ty key k0"
  shows "amap ty d key = Some v"
  using assms by (auto simp: amap_Some)

lemma amap_rest:
  assumes "one_each ty (mset (entries d))" and "mset (entries d) = add_mset (k0, v) M"
    and "\<not> dictCompareKeys ty k k0"
  shows "amap ty d k = Some w \<longleftrightarrow> (\<exists>k'. (k', w) \<in># M \<and> dictCompareKeys ty k k')"
  using assms by (auto simp: amap_Some)

lemma amap_add:
  assumes "one_each ty (mset (entries d))" and "mset (entries d') = add_mset (k0, v) (mset (entries d))"
    and "amap ty d key = None" and "dictCompareKeys ty k0 key"
  shows "one_each ty (mset (entries d'))" and "amap ty d' = upd_class ty key (Some v) (amap ty d)"
proof -
  show o': "one_each ty (mset (entries d'))"
    unfolding assms(2) using assms(1,3,4) by (intro one_each_add) (auto simp: amap_None)
  show "amap ty d' = upd_class ty key (Some v) (amap ty d)"
  proof
    fix k
    show "amap ty d' k = upd_class ty key (Some v) (amap ty d) k"
    proof (cases "dictCompareKeys ty k key")
      case True
      then have "dictCompareKeys ty k k0" using assms(4) cmp_right by blast
      then show ?thesis using True amap_present [OF o' assms(2)] by (simp add: upd_class_def)
    next
      case False
      then have "\<not> dictCompareKeys ty k k0" using assms(4) cmp_right by blast
      from amap_rest [OF o' assms(2) this] have "amap ty d' k = Some w \<longleftrightarrow> amap ty d k = Some w" for w
        by (simp add: amap_Some [OF assms(1)])
      then have "amap ty d' k = amap ty d k" by (metis option.exhaust)
      then show ?thesis using False by (simp add: upd_class_def)
    qed
  qed
qed

lemma amap_remove:
  assumes "one_each ty (mset (entries d))" and "mset (entries d) = add_mset (k0, v) (mset (entries d'))"
    and "dictCompareKeys ty key k0"
  shows "one_each ty (mset (entries d'))" and "amap ty d' = upd_class ty key None (amap ty d)"
proof -
  show o': "one_each ty (mset (entries d'))" using assms(1,2) one_each_remove by metis
  show "amap ty d' = upd_class ty key None (amap ty d)"
  proof
    fix k
    show "amap ty d' k = upd_class ty key None (amap ty d) k"
    proof (cases "dictCompareKeys ty k key")
      case True
      then have "amap ty d' k = None"
        using one_each_unique [of "(k0, v)" "mset (entries d')" k] assms cmp_trans [OF True]
        by (simp add: amap_None)
      then show ?thesis using True by (simp add: upd_class_def)
    next
      case False
      then have "\<not> dictCompareKeys ty k k0" using assms(3) cmp_right by blast
      from amap_rest [OF assms(1,2) this] have "amap ty d' k = Some w \<longleftrightarrow> amap ty d k = Some w" for w
        by (simp add: amap_Some [OF o'])
      then have "amap ty d' k = amap ty d k" by (metis option.exhaust)
      then show ?thesis using False by (simp add: upd_class_def)
    qed
  qed
qed

lemma amap_replace:
  assumes "one_each ty (mset (entries d))" and "mset (entries d) = add_mset (k0, v) M"
    and "mset (entries d') = add_mset (k0, w) M" and "dictCompareKeys ty key k0"
  shows "one_each ty (mset (entries d'))" and "amap ty d' = upd_class ty key (Some w) (amap ty d)"
proof -
  have M: "\<forall>e \<in># M. \<not> dictCompareKeys ty key (fst e)"
    using one_each_unique [of "(k0, v)" M key] assms by simp
  show o': "one_each ty (mset (entries d'))"
    unfolding assms(3) using assms(1,2) one_each_remove M cmp_sym [OF assms(4)]
    by (metis one_each_add)
  show "amap ty d' = upd_class ty key (Some w) (amap ty d)"
  proof
    fix k
    show "amap ty d' k = upd_class ty key (Some w) (amap ty d) k"
    proof (cases "dictCompareKeys ty k key")
      case True
      then have "dictCompareKeys ty k k0" using assms(4) cmp_right by blast
      then show ?thesis using True amap_present [OF o' assms(3)] by (simp add: upd_class_def)
    next
      case False
      then have n: "\<not> dictCompareKeys ty k k0" using assms(4) cmp_right by blast
      have "amap ty d' k = Some x \<longleftrightarrow> amap ty d k = Some x" for x
        using amap_rest [OF assms(1,2) n] amap_rest [OF o' assms(3) n] by simp
      then have "amap ty d' k = amap ty d k" by (metis option.exhaust)
      then show ?thesis using False by (simp add: upd_class_def)
    qed
  qed
qed

end

section \<open>Lookup\<close>

text \<open>The table new entries go to.\<close>

definition insert_table :: "('k, 'v) dict \<Rightarrow> nat" where
  "insert_table d = (if dictIsRehashing d then 1 else 0)"

lemma tables_in_use:
  assumes "dict_ok ty d" and "htsize (ht0 d) \<noteq> 0"
  shows "ht_ok ty (ht0 d)" and "dictIsRehashing d \<Longrightarrow> ht_ok ty (ht1 d)"
    and "\<not> dictIsRehashing d \<Longrightarrow> table (ht1 d) = []" and "ht_ok ty (get_ht d (insert_table d))"
proof -
  show 1: "ht_ok ty (ht0 d)" using assms ht_ok_htsize by blast
  show 2: "ht_ok ty (ht1 d)" if "dictIsRehashing d"
    using assms that by (auto simp: dict_ok_def dictIsRehashing_def)
  show "table (ht1 d) = []" if "\<not> dictIsRehashing d"
    using assms that by (auto simp: dict_ok_def dictIsRehashing_def u_dictReset_def)
  show "ht_ok ty (get_ht d (insert_table d))" using 1 2 by (simp add: get_ht_def insert_table_def)
qed

context dict_type
begin

lemma search_table_ok:
  assumes "ht_ok ty (get_ht d t)"
  obtains idx p where "search_table ty key d t = Some (idx, p)"
    and "idx = hashFunction ty key AND sizemask (get_ht d t)"
    and "p = None \<Longrightarrow> \<forall>e \<in> set (concat (table (get_ht d t))). \<not> dictCompareKeys ty key (fst e)"
    and "\<And>q. p = Some q \<Longrightarrow> \<exists>e. entry_at (t, idx, q) d = Some e \<and> dictCompareKeys ty key (fst e)"
proof -
  let ?h = "get_ht d t"
  let ?idx = "hashFunction ty key AND sizemask ?h"
  note h = ht_okD [OF assms]
  have lt: "?idx < length (table ?h)" using h by simp
  let ?p = "find_pos ty key (table ?h ! ?idx)"
  have s: "search_table ty key d t = Some (?idx, ?p)"
    using lt by (simp add: search_table_def bucket_def Let_def)
  have none: "\<not> dictCompareKeys ty key (fst e)" if "?p = None" "e \<in> set (concat (table ?h))" for e
  proof
    assume c: "dictCompareKeys ty key (fst e)"
    from that(2) obtain j where j: "j < length (table ?h)" "e \<in> set (table ?h ! j)"
      by (auto simp: in_set_conv_nth [of _ "table ?h"])
    then have "hashFunction ty (fst e) mod htsize ?h = j" using h(2,5) by simp
    then have "j = ?idx" using h(3) cmp_hash [OF c] by simp
    then show False using j(2) that(1) c by (auto simp: find_pos_None)
  qed
  have some: "\<exists>e. entry_at (t, ?idx, q) d = Some e \<and> dictCompareKeys ty key (fst e)" if "?p = Some q" for q
    using find_pos_Some [OF that] lt by (simp add: entry_at_Some)
  show ?thesis using s none some by (intro that [of ?idx ?p]) auto
qed

lemma search_tables_ok:
  assumes ok: "dict_ok ty d" and sz: "htsize (ht0 d) \<noteq> 0"
  obtains r idx where "search_tables ty key d = Some (r, idx)"
    and "r = None \<Longrightarrow> amap ty d key = None \<and>
           idx = hashFunction ty key AND sizemask (get_ht d (insert_table d))"
    and "\<And>ref. r = Some ref \<Longrightarrow>
           \<exists>e. entry_at ref d = Some e \<and> dictCompareKeys ty key (fst e) \<and> fst ref \<le> 1"
proof -
  note h = tables_in_use [OF ok sz]
  have h0: "ht_ok ty (get_ht d 0)" using h(1) by (simp add: get_ht_def)
  obtain i p where s0: "search_table ty key d 0 = Some (i, p)"
    "i = hashFunction ty key AND sizemask (get_ht d 0)"
    "p = None \<Longrightarrow> \<forall>e \<in> set (concat (table (get_ht d 0))). \<not> dictCompareKeys ty key (fst e)"
    "\<And>q. p = Some q \<Longrightarrow> \<exists>e. entry_at (0, i, q) d = Some e \<and> dictCompareKeys ty key (fst e)"
    using search_table_ok [OF h0, of key] by metis
  show ?thesis
  proof (cases p)
    case (Some q)
    then have "search_tables ty key d = Some (Some (0, i, q), i)"
      using s0(1) by (simp add: search_tables_def)
    then show ?thesis using s0(4) [OF Some] by (intro that) auto
  next
    case None
    show ?thesis
    proof (cases "dictIsRehashing d")
      case False
      then have "search_tables ty key d = Some (None, i)"
        using s0(1) None by (simp add: search_tables_def)
      moreover have "amap ty d key = None"
        using s0(3) [OF None] h(3) [OF False] by (auto simp: amap_None entries_def get_ht_def)
      ultimately show ?thesis using s0(2) False by (intro that) (auto simp: insert_table_def)
    next
      case True
      then have h1: "ht_ok ty (get_ht d 1)" using h(2) by (simp add: get_ht_def)
      obtain i' p' where s1: "search_table ty key d 1 = Some (i', p')"
        "i' = hashFunction ty key AND sizemask (get_ht d 1)"
        "p' = None \<Longrightarrow> \<forall>e \<in> set (concat (table (get_ht d 1))). \<not> dictCompareKeys ty key (fst e)"
        "\<And>q. p' = Some q \<Longrightarrow> \<exists>e. entry_at (1, i', q) d = Some e \<and> dictCompareKeys ty key (fst e)"
        using search_table_ok [OF h1, of key] by metis
      show ?thesis
      proof (cases p')
        case (Some q)
        then have "search_tables ty key d = Some (Some (1, i', q), i')"
          using s0(1) s1(1) None True by (simp add: search_tables_def)
        then show ?thesis using s1(4) [OF Some] by (intro that) auto
      next
        case n: None
        then have "search_tables ty key d = Some (None, i')"
          using s0(1) s1(1) None True by (simp add: search_tables_def)
        moreover have "amap ty d key = None"
          using s0(3) [OF None] s1(3) [OF n] by (auto simp: amap_None entries_def get_ht_def)
        ultimately show ?thesis using s1(2) True by (intro that) (auto simp: insert_table_def)
      qed
    qed
  qed
qed

text \<open>An entry found under a key carries the value of the association.\<close>

lemma entry_at_amap:
  assumes "dict_ok ty d" and "entry_at ref d = Some e" and "dictCompareKeys ty key (fst e)"
  shows "amap ty d key = Some (snd e)"
  using assms entry_at_in_entries [OF assms(2)] amap_Some [OF dict_ok_one_each [OF assms(1)]]
  by (metis prod.collapse set_mset_mset)

lemma dictFind_ok:
  assumes ok: "dict_ok ty d"
  obtains d' r where "dictFind ty key d = Some (d', r)" and "dict_ok ty d'" and "same_content d d'"
    and "r = None \<Longrightarrow> amap ty d key = None"
    and "\<And>ref. r = Some ref \<Longrightarrow> fst ref \<le> 1 \<and> (\<exists>e. entry_at ref d' = Some e \<and>
           dictCompareKeys ty key (fst e) \<and> amap ty d key = Some (snd e))"
proof (cases "htsize (ht0 d) = 0")
  case True
  then have "rehashidx d = -1" using ok ht_okD(1) by (fastforce simp: dict_ok_def split: if_splits)
  then have "amap ty d key = None"
    using True ok htsize_0_iff [OF ok] by (simp add: amap_def entries_def dict_ok_def u_dictReset_def)
  then show ?thesis using True ok by (intro that [of d None]) (auto simp: dictFind_def)
next
  case False
  from rehash_if_needed_ok [OF ok] False obtain d' where
    d': "rehash_if_needed ty d = Some d'" "dict_ok ty d'" "same_content d d'" "htsize (ht0 d') \<noteq> 0"
    by blast
  have am: "amap ty d' = amap ty d" by (rule amap_same_content [OF ok d'(3)])
  obtain r idx where r: "search_tables ty key d' = Some (r, idx)"
    "r = None \<Longrightarrow> amap ty d' key = None \<and> idx = hashFunction ty key AND sizemask (get_ht d' (insert_table d'))"
    "\<And>ref. r = Some ref \<Longrightarrow> \<exists>e. entry_at ref d' = Some e \<and> dictCompareKeys ty key (fst e) \<and> fst ref \<le> 1"
    using search_tables_ok [OF d'(2,4)] by blast
  have "dictFind ty key d = Some (d', r)" using False d'(1) r(1) by (simp add: dictFind_def)
  then show ?thesis
    using that [of d' r] d'(2,3) r(2,3) am entry_at_amap [OF d'(2)] by metis
qed

lemma dictFetchValue_ok:
  assumes ok: "dict_ok ty d"
  obtains d' where "dictFetchValue ty key d = Some (d', amap ty d key)" and "dict_ok ty d'"
    and "same_content d d'"
proof -
  obtain d' r where r: "dictFind ty key d = Some (d', r)" "dict_ok ty d'" "same_content d d'"
    "r = None \<Longrightarrow> amap ty d key = None"
    "\<And>ref. r = Some ref \<Longrightarrow> fst ref \<le> 1 \<and> (\<exists>e. entry_at ref d' = Some e \<and>
           dictCompareKeys ty key (fst e) \<and> amap ty d key = Some (snd e))"
    using dictFind_ok [OF ok] by blast
  show ?thesis
  proof (cases r)
    case None
    then show ?thesis using r(1-4) by (intro that) (auto simp: dictFetchValue_def)
  next
    case (Some ref)
    then show ?thesis using r(1-3) r(5) [OF Some] by (intro that) (auto simp: dictFetchValue_def)
  qed
qed

end

section \<open>Insertion, replacement, deletion\<close>

text \<open>What all of them leave alone.\<close>

definition same_logs :: "('k, 'v) dict \<Rightarrow> ('k, 'v) dict \<Rightarrow> bool" where
  "same_logs d d' \<longleftrightarrow> iterators d' = iterators d \<and> freed_keys d' = freed_keys d \<and> freed_vals d' = freed_vals d"

lemma same_content_logs: "same_content d d' \<Longrightarrow> same_logs d d'"
  by (simp add: same_content_def same_logs_def)

lemma same_logs_trans: "same_logs a b \<Longrightarrow> same_logs b c \<Longrightarrow> same_logs a c"
  by (simp add: same_logs_def)

lemma size_entries: "dict_ok ty d \<Longrightarrow> dictSize d = size (mset (entries d))"
  by (simp add: dictSize_entries)

lemma mset_exchange:
  fixes A :: "'a multiset"
  assumes "A + T = E + X" and "X + C = T + D"
  shows "A + C = E + D"
proof -
  have "(A + T) + (X + C) = (E + X) + (T + D)" using assms by simp
  then have "(A + C) + (T + X) = (E + D) + (T + X)" by (simp only: ac_simps)
  then show ?thesis by (simp only: add_right_cancel)
qed

text \<open>Replacing one chain by another.\<close>

lemma set_bucket_mset:
  assumes "i < length (table (get_ht d t))" and "t \<le> 1"
  shows "mset (entries (set_ht t ((get_ht d t)\<lparr>table := (table (get_ht d t))[i := c], used := u\<rparr>) d)) +
    mset (table (get_ht d t) ! i) = mset (entries d) + mset c"
proof -
  let ?h = "get_ht d t"
  let ?e = "entries (set_ht t (?h\<lparr>table := (table ?h)[i := c], used := u\<rparr>) d)"
  have "mset ?e + mset (concat (table ?h)) = mset (entries d) + mset (concat ((table ?h)[i := c]))"
    using entries_set_ht [OF assms(2), of "?h\<lparr>table := (table ?h)[i := c], used := u\<rparr>" d] by simp
  moreover have "mset (concat ((table ?h)[i := c])) + mset (table ?h ! i) = mset (concat (table ?h)) + mset c"
    by (rule mset_concat_update [OF assms(1)])
  ultimately show ?thesis by (rule mset_exchange)
qed

lemma ht_ok_set_bucket:
  assumes "ht_ok ty h" and "i < length (table h)"
    and "\<And>e. e \<in> set c \<Longrightarrow> hashFunction ty (fst e) mod htsize h = i"
    and "u + length (table h ! i) = used h + length c"
  shows "ht_ok ty (h\<lparr>table := (table h)[i := c], used := u\<rparr>)"
proof -
  note h = ht_okD [OF assms(1)]
  have "hashFunction ty (fst e) mod htsize h = j"
    if "j < htsize h" "e \<in> set ((table h)[i := c] ! j)" for j e
    using that h(2,5) assms(2,3) by (cases "j = i") auto
  moreover have "u = length (concat ((table h)[i := c]))"
    using length_concat_update [OF assms(2), of c] assms(4) h(4) by simp
  ultimately show ?thesis using assms(1) by (simp add: ht_ok_def)
qed

context dict_type
begin

lemma dictAddRaw_ok:
  assumes ok: "dict_ok ty d" and bound: "dictSize d < 2 ^ 61"
  obtains (present) d' where "dictAddRaw ty cr u key d = Some (d', None)" and "dict_ok ty d'"
      and "same_content d d'" and "amap ty d key \<noteq> None"
  | (added) d' ref where "dictAddRaw ty cr u key d = Some (d', Some ref)" and "dict_ok ty d'"
      and "mset (entries d') = add_mset (dictSetKey ty key, u) (mset (entries d))"
      and "entry_at ref d' = Some (dictSetKey ty key, u)" and "fst ref \<le> 1"
      and "same_logs d d'" and "amap ty d key = None"
proof -
  obtain d1 where d1: "rehash_if_needed ty d = Some d1" "dict_ok ty d1" "same_content d d1"
    using rehash_if_needed_ok [OF ok] by blast
  have "dictSize d1 < 2 ^ 61" using bound same_content_size [OF d1(3) ok d1(2)] by simp
  then obtain d2 where d2: "u_dictExpandIfNeeded cr d1 = (d2, True)" "dict_ok ty d2" "same_content d1 d2"
    "htsize (ht0 d2) \<noteq> 0" using u_dictExpandIfNeeded_ok [OF d1(2)] by blast
  have sc: "same_content d d2" using d1(3) d2(3) by (rule same_content_trans)
  have am: "amap ty d2 = amap ty d" by (rule amap_same_content [OF ok sc])
  obtain r idx where r: "search_tables ty key d2 = Some (r, idx)"
    "r = None \<Longrightarrow> amap ty d2 key = None \<and> idx = hashFunction ty key AND sizemask (get_ht d2 (insert_table d2))"
    "\<And>ref. r = Some ref \<Longrightarrow> \<exists>e. entry_at ref d2 = Some e \<and> dictCompareKeys ty key (fst e) \<and> fst ref \<le> 1"
    using search_tables_ok [OF d2(2,4)] by blast
  show ?thesis
  proof (cases r)
    case (Some ref)
    then have "dictAddRaw ty cr u key d = Some (d2, None)"
      using d1(1) d2(1) r(1) by (simp add: dictAddRaw_def u_dictKeyIndex_def)
    moreover have "amap ty d key \<noteq> None" using r(3) [OF Some] entry_at_amap [OF d2(2)] am by fastforce
    ultimately show ?thesis using d2(2) sc by (intro present) auto
  next
    case None
    let ?t = "insert_table d2" and ?e = "(dictSetKey ty key, u)"
    let ?h = "get_ht d2 ?t"
    have h: "ht_ok ty ?h" using tables_in_use [OF d2(2,4)] by blast
    have i: "idx = hashFunction ty (fst ?e) AND sizemask ?h" using r(2) [OF None] cmp_hash [OF cmp_dup] by simp
    from push_entry_ok [OF h this] obtain h' where
      p: "push_entry idx ?e ?h = Some h'" "ht_ok ty h'" "htsize h' = htsize ?h"
      "mset (concat (table h')) = add_mset ?e (mset (concat (table ?h)))"
      "table h' = (table ?h)[idx := ?e # table ?h ! idx]" "idx < length (table ?h)" by blast
    have t1: "?t \<le> 1" by (simp add: insert_table_def)
    let ?d = "set_ht ?t h' d2"
    have run: "dictAddRaw ty cr u key d = Some (?d, Some (?t, idx, 0))"
      using d1(1) d2(1) r(1) None p(1)
      by (simp add: dictAddRaw_def u_dictKeyIndex_def Let_def insert_table_def)
    have "mset (entries ?d) + mset (concat (table ?h)) = mset (entries d2) + mset (concat (table h'))"
      by (rule entries_set_ht [OF t1])
    then have me: "mset (entries ?d) = add_mset ?e (mset (entries d2))" using p(4) by simp
    have n2: "amap ty d2 key = None" using r(2) [OF None] by blast
    have one: "one_each ty (mset (entries ?d))"
      using amap_add(1) [OF dict_ok_one_each [OF d2(2)] me n2] cmp_dup by blast
    have "dict_ok ty ?d"
    proof (rule set_ht_ok [OF d2(2) p(2) _ p(3) _ one])
      show "table ?h \<noteq> []" using p(6) by auto
      show "table h' ! i = [] \<or> \<not> dictIsRehashing d2" if "?t = 0" "table (ht0 d2) ! i = []" for i
        using that(1) by (simp add: insert_table_def split: if_splits)
    qed
    moreover have "mset (entries ?d) = add_mset ?e (mset (entries d))"
      using me sc by (simp add: same_content_def)
    moreover have "entry_at (?t, idx, 0) ?d = Some ?e" using p(5,6) by (simp add: entry_at_Some)
    moreover have "same_logs d ?d" using same_content_logs [OF sc] by (simp add: same_logs_def)
    moreover have "amap ty d key = None" using n2 am by simp
    ultimately show ?thesis using run t1 by (intro added [of ?d "(?t, idx, 0)"]) auto
  qed
qed

lemma set_entry_val_ok:
  assumes ok: "dict_ok ty d" and at: "entry_at ref d = Some (k0, v0)" and t1: "fst ref \<le> 1"
    and c: "dictCompareKeys ty key k0"
  obtains d' where "set_entry_val ty ref v d = Some d'" and "dict_ok ty d'" and "same_logs d d'"
    and "amap ty d' = upd_class ty key (Some (dictSetVal ty v)) (amap ty d)"
    and "dictSize d' = dictSize d"
proof -
  obtain t i p where ref: "ref = (t, i, p)" by (cases ref)
  let ?h = "get_ht d t"
  let ?c = "table ?h ! i"
  have e: "i < length (table ?h)" "p < length ?c" "?c ! p = (k0, v0)"
    using at by (auto simp: ref entry_at_Some)
  let ?c' = "?c[p := (k0, dictSetVal ty v)]"
  let ?h' = "?h\<lparr>table := (table ?h)[i := ?c'], used := used ?h\<rparr>"
  let ?d = "set_ht t ?h' d"
  have run: "set_entry_val ty ref v d = Some ?d"
    using e by (simp add: ref set_entry_val_def bucket_def Let_def)
  have h: "ht_ok ty ?h" using get_ht_ok [OF ok] e(1) by force
  have "hashFunction ty (fst x) mod htsize ?h = i" if x: "x \<in> set ?c'" for x
  proof -
    obtain q where "q < length ?c" "x = ?c' ! q" using x by (auto simp: in_set_conv_nth)
    then have "fst x = fst (?c ! q)" using e(2,3) by (cases "q = p") auto
    then show ?thesis using ht_okD(2,5) [OF h] e(1) \<open>q < length ?c\<close> by (metis nth_mem)
  qed
  then have h': "ht_ok ty ?h'" by (intro ht_ok_set_bucket [OF h e(1)]) auto
  have me: "mset (entries ?d) + mset ?c = mset (entries d) + mset ?c'"
    by (rule set_bucket_mset [OF e(1)]) (use t1 in \<open>simp add: ref\<close>)
  obtain M where M: "mset (entries d) = add_mset (k0, v0) M"
    using entry_at_in_entries [OF at] by (metis multi_member_split set_mset_mset)
  have "mset ?c' = add_mset (k0, dictSetVal ty v) (mset ?c - {#(k0, v0)#})"
    using e by (simp add: mset_update)
  moreover have "mset ?c = add_mset (k0, v0) (mset ?c - {#(k0, v0)#})"
    using e by (metis insert_DiffM nth_mem set_mset_mset)
  moreover define R where "R = mset ?c - {#(k0, v0)#}"
  ultimately have "mset (entries ?d) + add_mset (k0, v0) R = add_mset (k0, v0) M + add_mset (k0, dictSetVal ty v) R"
    using me M by simp
  then have "add_mset (k0, v0) (mset (entries ?d) + R) = add_mset (k0, v0) (add_mset (k0, dictSetVal ty v) M + R)"
    by (simp add: ac_simps add_mset_commute)
  then have M': "mset (entries ?d) = add_mset (k0, dictSetVal ty v) M" by simp
  note am = amap_replace [OF dict_ok_one_each [OF ok] M M' c]
  have "dict_ok ty ?d"
  proof (rule set_ht_ok [OF ok h' _ _ _ am(1)])
    show "table ?h \<noteq> []" using e(1) by auto
    show "table ?h' ! j = [] \<or> \<not> dictIsRehashing d" if "t = 0" "table (ht0 d) ! j = []" for j
      using that e(1,2) by (cases "j = i") (auto simp: get_ht_def)
  qed simp
  moreover have "same_logs d ?d" by (simp add: same_logs_def)
  moreover have "dictSize ?d = dictSize d"
    unfolding size_entries [OF ok] size_entries [OF \<open>dict_ok ty ?d\<close>] M M' by simp
  ultimately show ?thesis using that run am(2) by blast
qed

end

lemma dictFree_simps [simp]:
  "ht0 (dictFreeKey ty k d) = ht0 d" "ht1 (dictFreeKey ty k d) = ht1 d"
  "rehashidx (dictFreeKey ty k d) = rehashidx d" "iterators (dictFreeKey ty k d) = iterators d"
  "ht0 (dictFreeVal ty v d) = ht0 d" "ht1 (dictFreeVal ty v d) = ht1 d"
  "rehashidx (dictFreeVal ty v d) = rehashidx d" "iterators (dictFreeVal ty v d) = iterators d"
  "entries (dictFreeKey ty k d) = entries d" "entries (dictFreeVal ty v d) = entries d"
  "get_ht (dictFreeKey ty k d) t = get_ht d t" "get_ht (dictFreeVal ty v d) t = get_ht d t"
  "dict_ok ty (dictFreeKey ty k d) = dict_ok ty d" "dict_ok ty (dictFreeVal ty v d) = dict_ok ty d"
  "dictSize (dictFreeKey ty k d) = dictSize d" "dictSize (dictFreeVal ty v d) = dictSize d"
  "amap ty (dictFreeKey ty k d) = amap ty d" "amap ty (dictFreeVal ty v d) = amap ty d"
  "dictIsRehashing (dictFreeKey ty k d) = dictIsRehashing d"
  "dictIsRehashing (dictFreeVal ty v d) = dictIsRehashing d"
  "freed_keys (dictFreeVal ty v d) = freed_keys d" "freed_vals (dictFreeKey ty k d) = freed_vals d"
  "freed_keys (dictFreeKey ty k d) = freed_keys d @ (if keyDestructor ty then [k] else [])"
  "freed_vals (dictFreeVal ty v d) = freed_vals d @ (if valDestructor ty then [v] else [])"
  by (simp_all add: dictFreeKey_def dictFreeVal_def entries_def get_ht_def dict_ok_def dictSize_def
      amap_def [abs_def] dictIsRehashing_def)

context dict_type
begin

lemma dictAdd_ok:
  assumes ok: "dict_ok ty d" and bound: "dictSize d < 2 ^ 61"
  obtains d' where "dictAdd ty cr u key v d = Some (d', amap ty d key = None)" and "dict_ok ty d'"
    and "same_logs d d'"
    and "amap ty d' = (if amap ty d key = None
                       then upd_class ty key (Some (dictSetVal ty v)) (amap ty d) else amap ty d)"
    and "dictSize d' = dictSize d + (if amap ty d key = None then 1 else 0)"
proof (cases rule: dictAddRaw_ok [OF ok bound, of cr u key])
  case (1 d')
  then show ?thesis
    using amap_same_content [OF ok 1(3)] same_content_logs same_content_size [OF 1(3) ok 1(2)]
    by (intro that [of d']) (auto simp: dictAdd_def)
next
  case (2 d' ref)
  note am = amap_add [OF dict_ok_one_each [OF ok] 2(3) 2(7) cmp_dup]
  obtain d2 where d2: "set_entry_val ty ref v d' = Some d2" "dict_ok ty d2" "same_logs d' d2"
    "amap ty d2 = upd_class ty key (Some (dictSetVal ty v)) (amap ty d')" "dictSize d2 = dictSize d'"
    using set_entry_val_ok [OF 2(2,4,5), of key v] cmp_sym [OF cmp_dup] by blast
  have "amap ty d2 = upd_class ty key (Some (dictSetVal ty v)) (amap ty d)"
    unfolding d2(4) am(2) by (auto simp: upd_class_def)
  moreover have "dictSize d' = dictSize d + 1"
    unfolding size_entries [OF ok] size_entries [OF 2(2)] 2(3) by simp
  ultimately show ?thesis
    using that [of d2] 2(1,7) d2(1-3,5) same_logs_trans [OF 2(6) d2(3)] by (simp add: dictAdd_def)
qed

lemma dictReplace_ok:
  assumes ok: "dict_ok ty d" and bound: "dictSize d < 2 ^ 61"
  obtains d' where "dictReplace ty cr u key v d = Some (d', amap ty d key = None)" and "dict_ok ty d'"
    and "amap ty d' = upd_class ty key (Some (dictSetVal ty v)) (amap ty d)"
    and "dictSize d' = dictSize d + (if amap ty d key = None then 1 else 0)"
    and "iterators d' = iterators d" and "freed_keys d' = freed_keys d"
    and "freed_vals d' = freed_vals d @
           (case amap ty d key of Some w \<Rightarrow> if valDestructor ty then [w] else [] | None \<Rightarrow> [])"
proof -
  obtain d1 where a: "dictAdd ty cr u key v d = Some (d1, amap ty d key = None)" "dict_ok ty d1"
    "same_logs d d1"
    "amap ty d1 = (if amap ty d key = None
                   then upd_class ty key (Some (dictSetVal ty v)) (amap ty d) else amap ty d)"
    "dictSize d1 = dictSize d + (if amap ty d key = None then 1 else 0)"
    by (rule dictAdd_ok [OF ok bound])
  show ?thesis
  proof (cases "amap ty d key")
    case None
    then show ?thesis using a by (intro that [of d1]) (auto simp: dictReplace_def same_logs_def)
  next
    case (Some w)
    then have am: "amap ty d1 = amap ty d" using a(4) by simp
    obtain d2 r where f: "dictFind ty key d1 = Some (d2, r)" "dict_ok ty d2" "same_content d1 d2"
      "r = None \<Longrightarrow> amap ty d1 key = None"
      "\<And>ref. r = Some ref \<Longrightarrow> fst ref \<le> 1 \<and> (\<exists>e. entry_at ref d2 = Some e \<and>
           dictCompareKeys ty key (fst e) \<and> amap ty d1 key = Some (snd e))"
      using dictFind_ok [OF a(2)] by blast
    obtain ref where r: "r = Some ref" using f(4) am Some by (cases r) auto
    from f(5) [OF r] obtain k0 where k0: "fst ref \<le> 1" "entry_at ref d2 = Some (k0, w)"
      "dictCompareKeys ty key k0" using am Some by auto
    obtain d3 where d3: "set_entry_val ty ref v d2 = Some d3" "dict_ok ty d3" "same_logs d2 d3"
      "amap ty d3 = upd_class ty key (Some (dictSetVal ty v)) (amap ty d2)" "dictSize d3 = dictSize d2"
      by (rule set_entry_val_ok [OF f(2) k0(2,1,3)])
    have "dictReplace ty cr u key v d = Some (dictFreeVal ty w d3, False)"
      using a(1) Some f(1) r k0(2) d3(1) by (simp add: dictReplace_def)
    moreover have "amap ty d2 = amap ty d" using amap_same_content [OF a(2) f(3)] am by simp
    moreover have "same_logs d d3"
      using a(3) f(3) d3(3) by (simp add: same_logs_def same_content_def)
    moreover have "dictSize d2 = dictSize d"
      using same_content_size [OF f(3) a(2) f(2)] a(5) Some by simp
    ultimately show ?thesis
      using that [of "dictFreeVal ty w d3"] d3(2,4,5) Some
      by (simp add: same_logs_def)
  qed
qed

lemma dictGenericDelete_ok:
  assumes ok: "dict_ok ty d"
  obtains d' where "dictGenericDelete ty nofree key d = Some (d', amap ty d key \<noteq> None)" and "dict_ok ty d'"
    and "amap ty d' = upd_class ty key None (amap ty d)"
    and "dictSize d' + (if amap ty d key = None then 0 else 1) = dictSize d"
    and "iterators d' = iterators d"
    and "freed_vals d' = freed_vals d @
           (case amap ty d key of Some w \<Rightarrow> if valDestructor ty \<and> \<not> nofree then [w] else [] | None \<Rightarrow> [])"
proof (cases "htsize (ht0 d) = 0")
  case True
  then have "rehashidx d = -1" using ok ht_okD(1) by (fastforce simp: dict_ok_def split: if_splits)
  then have n: "amap ty d k = None" for k
    using True ok htsize_0_iff [OF ok] by (simp add: amap_def entries_def dict_ok_def u_dictReset_def)
  then have "amap ty d = upd_class ty key None (amap ty d)" by (auto simp: upd_class_def fun_eq_iff)
  then show ?thesis using True ok n by (intro that [of d]) (auto simp: dictGenericDelete_def)
next
  case False
  from rehash_if_needed_ok [OF ok] False obtain d1 where
    d1: "rehash_if_needed ty d = Some d1" "dict_ok ty d1" "same_content d d1" "htsize (ht0 d1) \<noteq> 0"
    by blast
  have am: "amap ty d1 = amap ty d" by (rule amap_same_content [OF ok d1(3)])
  have sz: "dictSize d1 = dictSize d" by (rule same_content_size [OF d1(3) ok d1(2)])
  obtain r idx where r: "search_tables ty key d1 = Some (r, idx)"
    "r = None \<Longrightarrow> amap ty d1 key = None \<and> idx = hashFunction ty key AND sizemask (get_ht d1 (insert_table d1))"
    "\<And>ref. r = Some ref \<Longrightarrow> \<exists>e. entry_at ref d1 = Some e \<and> dictCompareKeys ty key (fst e) \<and> fst ref \<le> 1"
    using search_tables_ok [OF d1(2,4)] by blast
  show ?thesis
  proof (cases r)
    case None
    then have n: "amap ty d key = None" using r(2) am by simp
    then have "amap ty d = upd_class ty key None (amap ty d)"
      using amap_class by (fastforce simp: upd_class_def fun_eq_iff)
    then show ?thesis using n None False d1 r(1) am sz
      by (intro that [of d1]) (auto simp: dictGenericDelete_def same_content_def)
  next
    case (Some ref)
    then obtain t i p k0 v0 where ref: "ref = (t, i, p)" "entry_at (t, i, p) d1 = Some (k0, v0)"
      "dictCompareKeys ty key k0" "t \<le> 1" using r(3) by (cases ref) auto
    let ?h = "get_ht d1 t"
    let ?c = "table ?h ! i"
    have e: "i < length (table ?h)" "p < length ?c" "?c ! p = (k0, v0)"
      using ref(2) by (auto simp: entry_at_Some)
    let ?d2 = "if nofree then d1 else dictFreeVal ty v0 (dictFreeKey ty k0 d1)"
    let ?c' = "take p ?c @ drop (Suc p) ?c"
    let ?h' = "?h\<lparr>table := (table ?h)[i := ?c'], used := used ?h - 1\<rparr>"
    have d2: "dict_ok ty ?d2" "get_ht ?d2 t = ?h" "entries ?d2 = entries d1" "ht0 ?d2 = ht0 d1"
      "iterators ?d2 = iterators d1" "dictIsRehashing ?d2 = dictIsRehashing d1"
      using d1(2) by auto
    have run: "dictGenericDelete ty nofree key d = Some (set_ht t ?h' ?d2, True)"
      using False d1(1) r(1) Some ref(1,2) by (simp add: dictGenericDelete_def Let_def unlink_def)
    have h: "ht_ok ty ?h" using get_ht_ok [OF d1(2)] e(1) by force
    have mc: "mset ?c = add_mset (k0, v0) (mset ?c')"
      using arg_cong [OF id_take_nth_drop [OF e(2)], of mset] e(3) by simp
    have ps: "0 < used ?h" using length_concat_update [OF e(1), of "[]"] ht_okD(4) [OF h] e(2)
      unfolding list.size by linarith
    have h': "ht_ok ty ?h'"
    proof (rule ht_ok_set_bucket [OF h e(1)])
      show "hashFunction ty (fst x) mod htsize ?h = i" if x: "x \<in> set ?c'" for x
      proof -
        have "x \<in> set ?c" using x by (auto dest: in_set_takeD in_set_dropD)
        then show ?thesis using ht_okD(5) [OF h] e(1) ht_okD(2) [OF h] by simp
      qed
      show "used ?h - 1 + length ?c = used ?h + length ?c'"
        using arg_cong [OF mc, of size] ps by simp
    qed
    have "mset (entries (set_ht t ?h' ?d2)) + mset ?c = mset (entries ?d2) + mset ?c'"
      using set_bucket_mset [of i ?d2 t "used ?h - 1" ?c'] d2(2) e(1) ref(4) by simp
    then have me: "mset (entries d1) = add_mset (k0, v0) (mset (entries (set_ht t ?h' ?d2)))"
      using mc d2(3) by simp
    note am' = amap_remove [OF dict_ok_one_each [OF d1(2)] me ref(3)]
    have ok': "dict_ok ty (set_ht t ?h' ?d2)"
    proof (rule set_ht_ok [OF d2(1) h' _ _ _ am'(1)])
      show "table (get_ht ?d2 t) \<noteq> []" "htsize ?h' = htsize (get_ht ?d2 t)" using d2(2) e(1) by auto
      show "table ?h' ! j = [] \<or> \<not> dictIsRehashing ?d2" if "t = 0" "table (ht0 ?d2) ! j = []" for j
        using that e(1,2) d2(4) by (cases "j = i") (auto simp: get_ht_def)
    qed
    have "amap ty d key = Some v0" using entry_at_amap [OF d1(2) ref(2)] ref(3) am by simp
    moreover have "dictSize (set_ht t ?h' ?d2) + 1 = dictSize d"
      unfolding sz [symmetric] size_entries [OF d1(2)] size_entries [OF ok'] me by simp
    moreover have "freed_vals ?d2 = freed_vals d @ (if valDestructor ty \<and> \<not> nofree then [v0] else [])"
      using d1(3) by (simp add: same_content_def dictFreeVal_def dictFreeKey_def)
    ultimately show ?thesis
      using that [OF _ ok'] run am'(2) am d1(3) d2(5) by (simp add: same_content_def)
  qed
qed

end

section \<open>Clearing\<close>

lemma clear_chain_eq:
  "clear_chain ty c (n, d) =
     (n - length c, d\<lparr>freed_keys := freed_keys d @ (if keyDestructor ty then map fst c else []),
                      freed_vals := freed_vals d @ (if valDestructor ty then map snd c else [])\<rparr>)"
  by (induction c arbitrary: n d) (auto simp: dictFreeKey_def dictFreeVal_def)

lemma clear_buckets_eq:
  "n = length (concat bs) \<Longrightarrow> clear_buckets ty bs (n, d) = clear_chain ty (concat bs) (n, d)"
proof (induction bs arbitrary: n d)
  case Nil
  then show ?case by simp
next
  case (Cons b bs)
  show ?case
  proof (cases "n = 0")
    case True
    then have "b = []" "concat bs = []" using Cons.prems by auto
    then have "clear_chain ty (concat (b # bs)) (n, d) = (n, d)"
      by (simp only: concat.simps append.simps clear_chain.simps)
    then show ?thesis using True by simp
  next
    case False
    have l: "n - length b = length (concat bs)" using Cons.prems by simp
    have "clear_buckets ty (b # bs) (n, d) = clear_buckets ty bs (clear_chain ty b (n, d))"
      using False by simp
    also have "\<dots> = clear_chain ty (concat bs) (clear_chain ty b (n, d))"
      unfolding clear_chain_eq [of ty b] by (rule Cons.IH [OF l])
    also have "\<dots> = clear_chain ty (concat (b # bs)) (n, d)" by (simp add: clear_chain_eq)
    finally show ?thesis .
  qed
qed

lemma u_dictClear_eq:
  assumes "get_ht d t = u_dictReset \<or> ht_ok ty (get_ht d t)"
  shows "u_dictClear ty t d =
    set_ht t u_dictReset (snd (clear_chain ty (concat (table (get_ht d t))) (0, d)))"
proof -
  let ?h = "get_ht d t"
  have "take (htsize ?h) (table ?h) = table ?h" "used ?h = length (concat (table ?h))"
    using assms ht_okD(2,4) [of ty ?h] by (auto simp: u_dictReset_def)
  then show ?thesis by (simp add: u_dictClear_def Let_def clear_buckets_eq clear_chain_eq)
qed

lemma dict_ok_tables: "dict_ok ty d \<Longrightarrow> get_ht d t = u_dictReset \<or> ht_ok ty (get_ht d t)"
  unfolding dict_ok_def get_ht_def by (metis (full_types))

text \<open>Clearing both tables destroys every entry once, in the order of the buckets.\<close>

lemma clear_both:
  assumes "dict_ok ty d"
  shows "u_dictClear ty 1 (u_dictClear ty 0 d) =
    d\<lparr>ht0 := u_dictReset, ht1 := u_dictReset,
      freed_keys := freed_keys d @ (if keyDestructor ty then map fst (entries d) else []),
      freed_vals := freed_vals d @ (if valDestructor ty then map snd (entries d) else [])\<rparr>"
proof -
  have 0: "u_dictClear ty 0 d = set_ht 0 u_dictReset (snd (clear_chain ty (concat (table (ht0 d))) (0, d)))"
    using u_dictClear_eq [OF dict_ok_tables [OF assms, of 0]] by (simp add: get_ht_def)
  have g: "get_ht (u_dictClear ty 0 d) 1 = get_ht d 1"
    unfolding 0 by (simp add: get_ht_def set_ht_def clear_chain_eq)
  then have "u_dictClear ty 1 (u_dictClear ty 0 d) =
    set_ht 1 u_dictReset (snd (clear_chain ty (concat (table (ht1 d))) (0, u_dictClear ty 0 d)))"
    using u_dictClear_eq [of "u_dictClear ty 0 d" 1] dict_ok_tables [OF assms, of 1] by (simp add: get_ht_def)
  then show ?thesis unfolding 0 by (simp add: clear_chain_eq set_ht_def entries_def)
qed

lemma one_each_empty: "one_each ty {#}"
  by (simp add: one_each_def)

lemma dictEmpty_ok:
  assumes "dict_ok ty d"
  shows "dict_ok ty (dictEmpty ty d)" and "amap ty (dictEmpty ty d) = Map.empty"
    and "dictSize (dictEmpty ty d) = 0"
  unfolding dictEmpty_def clear_both [OF assms]
  by (auto simp: dict_ok_def amap_def [abs_def] entries_def u_dictReset_def one_each_empty dictSize_def)

lemma dictCreate_ok: "dict_ok ty dictCreate" "amap ty dictCreate = Map.empty" "dictSize dictCreate = 0"
  by (auto simp: dictCreate_def u_dictInit_def dict_ok_def amap_def [abs_def] entries_def u_dictReset_def
      one_each_empty dictSize_def)

text \<open>Released: each key and each value of the dictionary goes to its destructor once.\<close>

lemma dictRelease_ok:
  "dict_ok ty d \<Longrightarrow>
   dictRelease ty d = (freed_keys d @ (if keyDestructor ty then map fst (entries d) else []),
                       freed_vals d @ (if valDestructor ty then map snd (entries d) else []))"
  unfolding dictRelease_def Let_def by (simp only: clear_both) simp

section \<open>Resizing and rehashing on request\<close>

lemma dictRehash_ok:
  assumes "dict_ok ty d"
  obtains d' more where "dictRehash ty n d = Some (d', more)" and "dict_ok ty d'" and "same_content d d'"
    and "more \<longrightarrow> dictIsRehashing d' \<and> n + used (ht0 d') \<le> used (ht0 d)"
  using rehash_loop_ok [OF assms, of n] assms
  by (cases "dictIsRehashing d") (fastforce simp: dictRehash_def)+

lemma dictResize_ok:
  assumes "dict_ok ty d" and "dictResize cr d = (d', r)"
  shows "dict_ok ty d' \<and> same_content d d'"
proof (cases "\<not> cr \<or> dictIsRehashing d")
  case True
  then show ?thesis using assms by (auto simp: dictResize_def)
next
  case False
  define m where "m = (let m = s32 (int (used (ht0 d))) in if m < int DICT_HT_INITIAL_SIZE then int DICT_HT_INITIAL_SIZE else m)"
  have "s32 x < 2 ^ 31" for x unfolding s32_def by (simp add: algebra_simps)
  then have "nat m < LONG_MAX" by (auto simp: m_def Let_def DICT_HT_INITIAL_SIZE_def LONG_MAX_def nat_less_iff)
      (smt (verit, best))
  moreover have "dictExpand (nat m) d = (d', r)" using assms(2) False by (simp add: dictResize_def m_def Let_def)
  ultimately show ?thesis using dictExpand_ok [OF assms(1)] by blast
qed

section \<open>Runs of operations\<close>

datatype ('k, 'v) dict_op =
    Add 'k 'v | Replace 'k 'v | Delete 'k | DeleteNoFree 'k | Fetch 'k
  | Expand nat | Resize | Rehash nat | Empty

datatype 'v dict_res = Flag bool | Val "'v option" | Unit

text \<open>The code on an operation, with the flag \<open>dict_can_resize\<close> and the contents of fresh memory.\<close>

fun dict_exec :: "('k, 'v) dictType \<Rightarrow> bool \<times> 'v \<Rightarrow> ('k, 'v) dict_op \<Rightarrow> ('k, 'v) dict \<Rightarrow> (('k, 'v) dict \<times> 'v dict_res) option" where
  "dict_exec ty (cr, u) (Add k v) d = map_option (apsnd Flag) (dictAdd ty cr u k v d)"
| "dict_exec ty (cr, u) (Replace k v) d = map_option (apsnd Flag) (dictReplace ty cr u k v d)"
| "dict_exec ty (cr, u) (Delete k) d = map_option (apsnd Flag) (dictDelete ty k d)"
| "dict_exec ty (cr, u) (DeleteNoFree k) d = map_option (apsnd Flag) (dictDeleteNoFree ty k d)"
| "dict_exec ty (cr, u) (Fetch k) d = map_option (apsnd Val) (dictFetchValue ty k d)"
| "dict_exec ty (cr, u) (Expand n) d = Some (fst (dictExpand n d), Unit)"
| "dict_exec ty (cr, u) Resize d = Some (fst (dictResize cr d), Unit)"
| "dict_exec ty (cr, u) (Rehash n) d = map_option (apsnd (\<lambda>_. Unit)) (dictRehash ty n d)"
| "dict_exec ty (cr, u) Empty d = Some (dictEmpty ty d, Unit)"

text \<open>What the client sees: a partial function on classes of equal keys.\<close>

fun map_exec :: "('k, 'v) dictType \<Rightarrow> ('k, 'v) dict_op \<Rightarrow> ('k \<Rightarrow> 'v option) \<Rightarrow> ('k \<Rightarrow> 'v option) \<times> 'v dict_res" where
  "map_exec ty (Add k v) m =
     (if m k = None then upd_class ty k (Some (dictSetVal ty v)) m else m, Flag (m k = None))"
| "map_exec ty (Replace k v) m = (upd_class ty k (Some (dictSetVal ty v)) m, Flag (m k = None))"
| "map_exec ty (Delete k) m = (upd_class ty k None m, Flag (m k \<noteq> None))"
| "map_exec ty (DeleteNoFree k) m = (upd_class ty k None m, Flag (m k \<noteq> None))"
| "map_exec ty (Fetch k) m = (m, Val (m k))"
| "map_exec ty (Expand n) m = (m, Unit)"
| "map_exec ty Resize m = (m, Unit)"
| "map_exec ty (Rehash n) m = (m, Unit)"
| "map_exec ty Empty m = (Map.empty, Unit)"

fun dict_run :: "('k, 'v) dictType \<Rightarrow> ((bool \<times> 'v) \<times> ('k, 'v) dict_op) list \<Rightarrow> ('k, 'v) dict \<Rightarrow> (('k, 'v) dict \<times> 'v dict_res list) option" where
  "dict_run ty [] d = Some (d, [])"
| "dict_run ty ((env, opn) # ops) d = do {
     (d, r) \<leftarrow> dict_exec ty env opn d;
     (d, rs) \<leftarrow> dict_run ty ops d;
     Some (d, r # rs) }"

fun map_run :: "('k, 'v) dictType \<Rightarrow> ((bool \<times> 'v) \<times> ('k, 'v) dict_op) list \<Rightarrow> ('k \<Rightarrow> 'v option) \<Rightarrow> ('k \<Rightarrow> 'v option) \<times> 'v dict_res list" where
  "map_run ty [] m = (m, [])"
| "map_run ty ((env, opn) # ops) m =
     (let (m, r) = map_exec ty opn m; (m, rs) = map_run ty ops m in (m, r # rs))"

fun small_request :: "('k, 'v) dict_op \<Rightarrow> bool" where
  "small_request (Expand n) = (n < LONG_MAX)"
| "small_request _ = True"

context dict_type
begin

lemma dict_exec_ok:
  assumes ok: "dict_ok ty d" and bound: "dictSize d < 2 ^ 61" and small: "small_request opn"
  shows "\<exists>d' r. dict_exec ty env opn d = Some (d', r) \<and> dict_ok ty d' \<and>
    map_exec ty opn (amap ty d) = (amap ty d', r) \<and> dictSize d' \<le> dictSize d + 1"
proof -
  obtain cr u where env: "env = (cr, u)" by (cases env)
  note sc = amap_same_content [OF ok] same_content_size [OF _ ok]
  show ?thesis
  proof (cases opn)
    case (Add k v)
    then show ?thesis using dictAdd_ok [OF ok bound, of cr u k v] by (fastforce simp: env)
  next
    case (Replace k v)
    obtain d' where "dictReplace ty cr u k v d = Some (d', amap ty d k = None)" "dict_ok ty d'"
      "amap ty d' = upd_class ty k (Some (dictSetVal ty v)) (amap ty d)" "dictSize d' \<le> dictSize d + 1"
      by (rule dictReplace_ok [OF ok bound, of cr u k v]) (auto split: if_splits)
    then show ?thesis using Replace by (simp add: env)
  next
    case (Delete k)
    obtain d' where "dictGenericDelete ty False k d = Some (d', amap ty d k \<noteq> None)" "dict_ok ty d'"
      "amap ty d' = upd_class ty k None (amap ty d)" "dictSize d' \<le> dictSize d + 1"
      by (rule dictGenericDelete_ok [OF ok, of False k]) (auto split: if_splits)
    then show ?thesis using Delete by (simp add: env dictDelete_def)
  next
    case (DeleteNoFree k)
    obtain d' where "dictGenericDelete ty True k d = Some (d', amap ty d k \<noteq> None)" "dict_ok ty d'"
      "amap ty d' = upd_class ty k None (amap ty d)" "dictSize d' \<le> dictSize d + 1"
      by (rule dictGenericDelete_ok [OF ok, of True k]) (auto split: if_splits)
    then show ?thesis using DeleteNoFree by (simp add: env dictDeleteNoFree_def)
  next
    case (Fetch k)
    obtain d' where f: "dictFetchValue ty k d = Some (d', amap ty d k)" "dict_ok ty d'" "same_content d d'"
      by (rule dictFetchValue_ok [OF ok, of k])
    then show ?thesis using Fetch sc(1) [OF f(3)] sc(2) [OF f(3,2)] by (simp add: env)
  next
    case (Expand n)
    obtain d' r where e: "dictExpand n d = (d', r)" by fastforce
    have c: "dict_ok ty d'" "same_content d d'" using dictExpand_ok [OF ok _ e] small Expand by auto
    show ?thesis using Expand e c sc(1) [OF c(2)] sc(2) [OF c(2,1)] by (simp add: env)
  next
    case Resize
    obtain d' r where e: "dictResize cr d = (d', r)" by fastforce
    have c: "dict_ok ty d'" "same_content d d'" using dictResize_ok [OF ok e] by auto
    show ?thesis using Resize e c sc(1) [OF c(2)] sc(2) [OF c(2,1)] by (simp add: env)
  next
    case (Rehash n)
    obtain d' more where r: "dictRehash ty n d = Some (d', more)" "dict_ok ty d'" "same_content d d'"
      by (rule dictRehash_ok [OF ok, of n]) blast
    then show ?thesis using Rehash sc(1) [OF r(3)] sc(2) [OF r(3,2)] by (simp add: env)
  next
    case Empty
    then show ?thesis using dictEmpty_ok [OF ok] by (simp add: env)
  qed
qed

lemma dict_run_ok:
  "dict_ok ty d \<Longrightarrow> dictSize d + length ops \<le> 2 ^ 61 \<Longrightarrow> \<forall>(env, opn) \<in> set ops. small_request opn \<Longrightarrow>
   \<exists>d' rs. dict_run ty ops d = Some (d', rs) \<and> dict_ok ty d' \<and>
     map_run ty ops (amap ty d) = (amap ty d', rs)"
proof (induction ops arbitrary: d)
  case Nil
  then show ?case by simp
next
  case (Cons eo ops)
  obtain env opn where eo: "eo = (env, opn)" by (cases eo)
  have "dictSize d < 2 ^ 61" using Cons.prems(2) by simp
  moreover have "small_request opn" using Cons.prems(3) eo by simp
  ultimately obtain d1 r where d1: "dict_exec ty env opn d = Some (d1, r)" "dict_ok ty d1"
    "map_exec ty opn (amap ty d) = (amap ty d1, r)" "dictSize d1 \<le> dictSize d + 1"
    using dict_exec_ok [OF Cons.prems(1)] by blast
  have "dictSize d1 + length ops \<le> 2 ^ 61" using d1(4) Cons.prems(2) by simp
  moreover have "\<forall>(env, opn) \<in> set ops. small_request opn" using Cons.prems(3) by simp
  ultimately obtain d' rs where "dict_run ty ops d1 = Some (d', rs)" "dict_ok ty d'"
    "map_run ty ops (amap ty d1) = (amap ty d', rs)" using Cons.IH [OF d1(2)] by blast
  then show ?case using d1(1,3) by (simp add: eo)
qed

end

end
