(* ===== verification/Dict_Hash.thy ===== *)
theory Dict_Hash
  imports Dict_Correct Util
begin

text \<open>
  The hash functions of \<open>dict.c\<close> and the dictionary types of \<open>redis.c\<close>, with the proof that
  they meet the contract \<open>dict_type\<close>. Keys are the bytes of an sds string, or a string
  object, which holds its bytes or, when they print a 64-bit integer, the integer. \<open>be\<close>
  is the byte order of the host, \<open>seed\<close> the global \<open>dict_hash_function_seed\<close>; a key is
  shorter than \<open>2 ^ 31\<close> bytes, so that its length is an \<open>int\<close>.

  The types that ignore case compare with \<open>strcasecmp\<close>, which stops at a null byte, and
  hash every byte: equal keys hash equally when they have no null bytes
  (\<open>case_hash_agrees\<close>) and need not otherwise (\<open>case_types_break_on_null\<close>), so they are
  not interpreted.
\<close>

section \<open>Hash functions\<close>

definition dictIntHashFunction :: "u32 \<Rightarrow> u32" where
  "dictIntHashFunction key =
     (let key = key + NOT (push_bit 15 key);
          key = key XOR drop_bit 10 key;
          key = key + push_bit 3 key;
          key = key XOR drop_bit 6 key;
          key = key + NOT (push_bit 11 key);
          key = key XOR drop_bit 16 key
      in key)"

definition murmur_m :: u32 where
  "murmur_m = 0x5bd1e995"

definition byte32 :: "byte \<Rightarrow> u32" where
  "byte32 b = ucast b"

text \<open>\<open>*(uint32_t*)data\<close>\<close>

definition load32 :: "bool \<Rightarrow> byte \<Rightarrow> byte \<Rightarrow> byte \<Rightarrow> byte \<Rightarrow> u32" where
  "load32 be a b c d = word_of_nat (le_val (if be then [d, c, b, a] else [a, b, c, d]))"

text \<open>The loop over four bytes at a time and the \<open>switch\<close> on the rest.\<close>

fun murmur_mix :: "bool \<Rightarrow> byte list \<Rightarrow> u32 \<Rightarrow> u32" where
  "murmur_mix be (a # b # c # d # data) h =
     (let k = load32 be a b c d;
          k = k * murmur_m;
          k = k XOR drop_bit 24 k;
          k = k * murmur_m;
          h = h * murmur_m;
          h = h XOR k
      in murmur_mix be data h)"
| "murmur_mix be [a, b, c] h =
     (((h XOR push_bit 16 (byte32 c)) XOR push_bit 8 (byte32 b)) XOR byte32 a) * murmur_m"
| "murmur_mix be [a, b] h = ((h XOR push_bit 8 (byte32 b)) XOR byte32 a) * murmur_m"
| "murmur_mix be [a] h = (h XOR byte32 a) * murmur_m"
| "murmur_mix be [] h = h"

definition dictGenHashFunction :: "bool \<Rightarrow> u32 \<Rightarrow> byte list \<Rightarrow> nat" where
  "dictGenHashFunction be seed key =
     (let h = seed XOR word_of_nat (length key);
          h = murmur_mix be key h;
          h = h XOR drop_bit 13 h;
          h = h * murmur_m;
          h = h XOR drop_bit 15 h
      in unat h)"

fun case_hash_loop :: "byte list \<Rightarrow> u32 \<Rightarrow> u32" where
  "case_hash_loop [] hash = hash"
| "case_hash_loop (c # buf) hash =
     case_hash_loop buf ((push_bit 5 hash + hash) + word_of_int (tolower (uint c)))"

definition dictGenCaseHashFunction :: "u32 \<Rightarrow> byte list \<Rightarrow> nat" where
  "dictGenCaseHashFunction seed buf = unat (case_hash_loop buf seed)"

section \<open>Keys that are sds strings\<close>

text \<open>\<open>memcmp\<close> of the same number of bytes.\<close>

definition dictSdsKeyCompare :: "byte list \<Rightarrow> byte list \<Rightarrow> bool" where
  "dictSdsKeyCompare key1 key2 \<longleftrightarrow>
     (if length key1 \<noteq> length key2 then False else take (length key1) key2 = key1)"

definition dictSdsKeyCaseCompare :: "byte list \<Rightarrow> byte list \<Rightarrow> bool" where
  "dictSdsKeyCaseCompare key1 key2 \<longleftrightarrow>
     strcasecmp_eq (takeWhile (\<lambda>c. c \<noteq> 0) key1) (takeWhile (\<lambda>c. c \<noteq> 0) key2)"

definition dictSdsHash :: "bool \<Rightarrow> u32 \<Rightarrow> byte list \<Rightarrow> nat" where
  "dictSdsHash be seed key = dictGenHashFunction be seed key"

definition dictSdsCaseHash :: "u32 \<Rightarrow> byte list \<Rightarrow> nat" where
  "dictSdsCaseHash seed key = dictGenCaseHashFunction seed key"

section \<open>Keys that are string objects\<close>

datatype strobj = Raw "byte list" | IntEnc "64 word"

text \<open>\<open>char buf[32]; ll2string(buf,32,(long)o->ptr)\<close>: the bytes written.\<close>

definition int_text :: "64 word \<Rightarrow> byte list" where
  "int_text p = (case ll2string (replicate 32 0) 32 (sint p) of
     Some (buf, len) \<Rightarrow> take len buf | None \<Rightarrow> [])"

text \<open>The bytes of \<open>getDecodedObject(o)\<close>.\<close>

fun getDecodedObject :: "strobj \<Rightarrow> byte list" where
  "getDecodedObject (Raw s) = s"
| "getDecodedObject (IntEnc p) = int_text p"

fun dictEncObjKeyCompare :: "strobj \<Rightarrow> strobj \<Rightarrow> bool" where
  "dictEncObjKeyCompare (IntEnc p) (IntEnc q) = (p = q)"
| "dictEncObjKeyCompare o1 o2 = dictSdsKeyCompare (getDecodedObject o1) (getDecodedObject o2)"

fun dictEncObjHash :: "bool \<Rightarrow> u32 \<Rightarrow> strobj \<Rightarrow> nat" where
  "dictEncObjHash be seed (Raw s) = dictGenHashFunction be seed s"
| "dictEncObjHash be seed (IntEnc p) = dictGenHashFunction be seed (int_text p)"

text \<open>Used on unencoded objects only; \<open>o->ptr\<close> is their string.\<close>

definition dictObjKeyCompare :: "byte list \<Rightarrow> byte list \<Rightarrow> bool" where
  "dictObjKeyCompare o1 o2 = dictSdsKeyCompare o1 o2"

definition dictObjHash :: "bool \<Rightarrow> u32 \<Rightarrow> byte list \<Rightarrow> nat" where
  "dictObjHash be seed k = dictGenHashFunction be seed k"

section \<open>The dictionary types of the server\<close>

definition setDictType :: "bool \<Rightarrow> u32 \<Rightarrow> (strobj, 'v) dictType" where
  "setDictType be seed = \<lparr>hashFunction = dictEncObjHash be seed, keyDup = None, valDup = None,
     keyCompare = Some dictEncObjKeyCompare, keyDestructor = True, valDestructor = False\<rparr>"

definition zsetDictType :: "bool \<Rightarrow> u32 \<Rightarrow> (strobj, 'v) dictType" where
  "zsetDictType be seed = \<lparr>hashFunction = dictEncObjHash be seed, keyDup = None, valDup = None,
     keyCompare = Some dictEncObjKeyCompare, keyDestructor = True, valDestructor = False\<rparr>"

definition dbDictType :: "bool \<Rightarrow> u32 \<Rightarrow> (byte list, 'v) dictType" where
  "dbDictType be seed = \<lparr>hashFunction = dictSdsHash be seed, keyDup = None, valDup = None,
     keyCompare = Some dictSdsKeyCompare, keyDestructor = True, valDestructor = True\<rparr>"

definition shaScriptObjectDictType :: "u32 \<Rightarrow> (byte list, 'v) dictType" where
  "shaScriptObjectDictType seed = \<lparr>hashFunction = dictSdsCaseHash seed, keyDup = None, valDup = None,
     keyCompare = Some dictSdsKeyCaseCompare, keyDestructor = True, valDestructor = True\<rparr>"

definition keyptrDictType :: "bool \<Rightarrow> u32 \<Rightarrow> (byte list, 'v) dictType" where
  "keyptrDictType be seed = \<lparr>hashFunction = dictSdsHash be seed, keyDup = None, valDup = None,
     keyCompare = Some dictSdsKeyCompare, keyDestructor = False, valDestructor = False\<rparr>"

definition commandTableDictType :: "u32 \<Rightarrow> (byte list, 'v) dictType" where
  "commandTableDictType seed = \<lparr>hashFunction = dictSdsCaseHash seed, keyDup = None, valDup = None,
     keyCompare = Some dictSdsKeyCaseCompare, keyDestructor = True, valDestructor = False\<rparr>"

definition hashDictType :: "bool \<Rightarrow> u32 \<Rightarrow> (strobj, 'v) dictType" where
  "hashDictType be seed = \<lparr>hashFunction = dictEncObjHash be seed, keyDup = None, valDup = None,
     keyCompare = Some dictEncObjKeyCompare, keyDestructor = True, valDestructor = True\<rparr>"

definition keylistDictType :: "bool \<Rightarrow> u32 \<Rightarrow> (byte list, 'v) dictType" where
  "keylistDictType be seed = \<lparr>hashFunction = dictObjHash be seed, keyDup = None, valDup = None,
     keyCompare = Some dictObjKeyCompare, keyDestructor = True, valDestructor = True\<rparr>"

definition replScriptCacheDictType :: "u32 \<Rightarrow> (byte list, 'v) dictType" where
  "replScriptCacheDictType seed = \<lparr>hashFunction = dictSdsCaseHash seed, keyDup = None, valDup = None,
     keyCompare = Some dictSdsKeyCaseCompare, keyDestructor = True, valDestructor = False\<rparr>"

definition REDIS_HT_MINFILL :: nat where
  "REDIS_HT_MINFILL = 10"

text \<open>On counts below \<open>2 ^ 63 / 100\<close>, for which the \<open>long long\<close> product does not overflow.\<close>

definition htNeedsResize :: "('k, 'v) dict \<Rightarrow> bool" where
  "htNeedsResize d =
     (let size = dictSlots d; used = dictSize d
      in size \<noteq> 0 \<and> used \<noteq> 0 \<and> size > DICT_HT_INITIAL_SIZE \<and>
         used * 100 div size < REDIS_HT_MINFILL)"

text \<open>\<open>tryResizeHashTables\<close> on the keys and the expires of one database.\<close>

definition tryResizeHashTables ::
    "bool \<Rightarrow> ('k, 'v) dict \<times> ('k, 'w) dict \<Rightarrow> ('k, 'v) dict \<times> ('k, 'w) dict" where
  "tryResizeHashTables cr = (\<lambda>(dict, expires).
     (if htNeedsResize dict then fst (dictResize cr dict) else dict,
      if htNeedsResize expires then fst (dictResize cr expires) else expires))"

section \<open>The contract holds\<close>

lemma dictSdsKeyCompare_eq [simp]: "dictSdsKeyCompare a b \<longleftrightarrow> a = b"
  by (auto simp: dictSdsKeyCompare_def)

lemma fits_sint: "fits 8 (sint (p :: 64 word))"
  using sint_greater_eq [of p] sint_less [of p] by (simp add: fits_def)

lemma int_text_decimal: "int_text p = decimal (sint p)"
proof -
  have "length (decimal (sint p)) < 32"
    using length_decimal_le [OF fits_sint [of p]] by simp
  then show ?thesis using ll2string_eq [OF fits_sint, of 32 "replicate 32 0" p]
    by (simp add: int_text_def del: replicate.simps)
qed

lemma dictEncObjKeyCompare_eq: "dictEncObjKeyCompare a b \<longleftrightarrow> getDecodedObject a = getDecodedObject b"
proof -
  have "decimal (sint p) = decimal (sint q) \<longleftrightarrow> p = q" for p q :: "64 word"
    using decimal_inj [OF fits_sint fits_sint, of p q] signed_word_eqI [of p q] by auto
  then show ?thesis by (cases a; cases b) (auto simp: int_text_decimal)
qed

lemma dictEncObjHash_eq: "dictEncObjHash be seed a = dictGenHashFunction be seed (getDecodedObject a)"
  by (cases a) auto

interpretation db: dict_type "dbDictType be seed"
  by unfold_locales (auto simp: dbDictType_def dictCompareKeys_def dictSetKey_def)

interpretation keyptr: dict_type "keyptrDictType be seed"
  by unfold_locales (auto simp: keyptrDictType_def dictCompareKeys_def dictSetKey_def)

interpretation keylist: dict_type "keylistDictType be seed"
  by unfold_locales (auto simp: keylistDictType_def dictCompareKeys_def dictSetKey_def dictObjKeyCompare_def)

interpretation setdict: dict_type "setDictType be seed"
  by unfold_locales
    (auto simp: setDictType_def dictCompareKeys_def dictSetKey_def dictEncObjKeyCompare_eq dictEncObjHash_eq)

interpretation zsetdict: dict_type "zsetDictType be seed"
  by unfold_locales
    (auto simp: zsetDictType_def dictCompareKeys_def dictSetKey_def dictEncObjKeyCompare_eq dictEncObjHash_eq)

interpretation hashdict: dict_type "hashDictType be seed"
  by unfold_locales
    (auto simp: hashDictType_def dictCompareKeys_def dictSetKey_def dictEncObjKeyCompare_eq dictEncObjHash_eq)

lemma case_hash_loop_fold:
  "case_hash_loop buf h =
   foldl (\<lambda>h t. (push_bit 5 h + h) + word_of_int t) h (map (tolower \<circ> uint) buf)"
  by (induction buf arbitrary: h) simp_all

lemma case_hash_agrees:
  assumes "0 \<notin> set a" and "0 \<notin> set b" and "dictSdsKeyCaseCompare a b"
  shows "dictSdsCaseHash seed a = dictSdsCaseHash seed b"
proof -
  have "takeWhile (\<lambda>c. c \<noteq> 0) a = a" "takeWhile (\<lambda>c. c \<noteq> 0) b = b"
    using assms(1,2) by (auto simp: takeWhile_eq_all_conv)
  then have "map (tolower \<circ> uint) a = map (tolower \<circ> uint) b"
    using assms(3) unfolding dictSdsKeyCaseCompare_def strcasecmp_eq_def by metis
  then show ?thesis by (simp only: dictSdsCaseHash_def dictGenCaseHashFunction_def case_hash_loop_fold)
qed

text \<open>
  A key with a null byte equals its prefix and hashes differently: the lookup of the
  command table finds a command under such a name only when the buckets collide.
\<close>

lemma case_types_break_on_null:
  "dictSdsKeyCaseCompare (ascii ''get'') (ascii ''get'' @ [0])"
  "dictSdsCaseHash 5381 (ascii ''get'') \<noteq> dictSdsCaseHash 5381 (ascii ''get'' @ [0])"
  by (simp_all add: dictSdsKeyCaseCompare_def dictSdsCaseHash_def dictGenCaseHashFunction_def
      strcasecmp_eq_def ascii_def tolower_def of_char_def)

section \<open>The keyspace is a partial function\<close>

lemma db_upd: "upd_class (dbDictType be seed) k x m = m(k := x)"
  by (auto simp: upd_class_def dbDictType_def dictCompareKeys_def)

lemma db_setval: "dictSetVal (dbDictType be seed) v = v"
  by (simp add: dictSetVal_def dbDictType_def)

text \<open>What the database keeps under its keys, as plain updates of a function.\<close>

fun keyspace_exec :: "('k, 'v) dict_op \<Rightarrow> ('k \<Rightarrow> 'v option) \<Rightarrow> ('k \<Rightarrow> 'v option) \<times> 'v dict_res" where
  "keyspace_exec (Add k v) m = (if m k = None then m(k \<mapsto> v) else m, Flag (m k = None))"
| "keyspace_exec (Replace k v) m = (m(k \<mapsto> v), Flag (m k = None))"
| "keyspace_exec (Delete k) m = (m(k := None), Flag (m k \<noteq> None))"
| "keyspace_exec (DeleteNoFree k) m = (m(k := None), Flag (m k \<noteq> None))"
| "keyspace_exec (Fetch k) m = (m, Val (m k))"
| "keyspace_exec Empty m = (Map.empty, Unit)"
| "keyspace_exec _ m = (m, Unit)"

fun keyspace_results :: "('k, 'v) dict_op list \<Rightarrow> ('k \<Rightarrow> 'v option) \<Rightarrow> 'v dict_res list" where
  "keyspace_results [] m = []"
| "keyspace_results (opn # ops) m =
     snd (keyspace_exec opn m) # keyspace_results ops (fst (keyspace_exec opn m))"

lemma keyspace_map_exec: "map_exec (dbDictType be seed) opn m = keyspace_exec opn m"
  by (cases opn) (simp_all add: db_upd db_setval)

lemma keyspace_map_run:
  "snd (map_run (dbDictType be seed) ops m) = keyspace_results (map snd ops) m"
proof (induction ops arbitrary: m)
  case Nil
  then show ?case by simp
next
  case (Cons eo ops)
  obtain m' r where "keyspace_exec (snd eo) m = (m', r)" by fastforce
  moreover obtain m'' rs where "map_run (dbDictType be seed) ops m' = (m'', rs)" by fastforce
  ultimately show ?case using Cons.IH [of m'] by (cases eo) (simp add: keyspace_map_exec)
qed





text \<open>
  C33: A released dictionary of the keyspace hands every key and every value it holds to
  its destructor exactly once, and the expires table, which shares its keys, hands over
  none.
\<close>

theorem dictRelease_frees_once:
  assumes "dict_ok (dbDictType be seed) d" and "dict_ok (keyptrDictType be seed) e"
    and "freed_keys d = []" and "freed_vals d = []" and "freed_keys e = []" and "freed_vals e = []"
  shows "dictRelease (dbDictType be seed) d = (map fst (entries d), map snd (entries d)) \<and>
    distinct (map fst (entries d)) \<and> dictRelease (keyptrDictType be seed) e = ([], [])"
proof -
  have "count (mset (map fst (entries d))) k \<le> 1" for k
  proof -
    have "size (filter_mset (\<lambda>e. k = fst e) (mset (entries d))) \<le> 1"
      using dict_ok_one_each [OF assms(1)]
      by (simp add: one_each_def dbDictType_def dictCompareKeys_def)
    moreover have "count (mset (map fst xs)) k = size (filter_mset (\<lambda>e. k = fst e) (mset xs))"
      for xs :: "(byte list \<times> 'a) list"
      by (induction xs) auto
    ultimately show ?thesis by metis
  qed
  then have "distinct (map fst (entries d))"
    unfolding distinct_count_atmost_1
    by (metis count_eq_zero_iff le_0_eq le_antisym le_less_linear less_one set_mset_mset)
  then show ?thesis
    using dictRelease_ok [OF assms(1)] dictRelease_ok [OF assms(2)] assms(3-)
    by (simp add: dbDictType_def keyptrDictType_def)
qed

theorem dictRelease_frees_once_witness:
  "\<exists>d :: (byte list, nat) dict. dictSize d = 1 \<and>
     dictRelease (dbDictType False 5381) d = (map fst (entries d), map snd (entries d)) \<and>
     dictRelease (keyptrDictType False 5381) (dictCreate :: (byte list, nat) dict) = ([], [])"
proof -
  obtain d where d: "dict_ok (dbDictType False 5381) d" "same_logs (dictCreate :: (byte list, nat) dict) d" "dictSize d = 1"
    by (rule db.dictAdd_ok [OF dictCreate_ok(1), of False 5381 True 0 "[1]" 7]) (auto simp: dictCreate_ok)
  then have "freed_keys d = []" "freed_vals d = []"
    by (auto simp: same_logs_def dictCreate_def u_dictInit_def)
  then show ?thesis
    using dictRelease_frees_once [where e = "dictCreate :: (byte list, nat) dict", OF d(1) dictCreate_ok(1)] d(3)
    by (auto simp: dictCreate_def u_dictInit_def)
qed

text \<open>
  The comment of \<open>dictRehash\<close>: 1 if there are still keys to move. The call that moves the
  last bucket returns 1; it is the next one that finds the table empty.
\<close>

lemma dictRehash_one_too_many:
  assumes "hashFunction ty k AND 3 = 0"
  shows "map_option (apfst (\<lambda>d. used (ht0 d))) (dictRehash ty 1
    \<lparr>ht0 = \<lparr>table = [[(k, v)], [], [], []], htsize = 4, sizemask = 3, used = 1\<rparr>,
     ht1 = \<lparr>table = [[], [], [], []], htsize = 4, sizemask = 3, used = 0\<rparr>,
     rehashidx = 0, iterators = 0, freed_keys = [], freed_vals = []\<rparr>) = Some (0, True)"
  using assms by (simp add: dictRehash_def dictIsRehashing_def next_bucket.simps push_entry_def Let_def)

end
