(* ===== verification/Dict_Scan.thy ===== *)
theory Dict_Scan
  imports Dict_Hash
begin

text \<open>
  Iteration over a dictionary: the stateless cursor of \<open>dictScan\<close>, with the proof that a
  full scan returns every entry that stays in the dictionary while the tables grow, shrink
  or are rehashed between the calls, and the case in which it does not.
\<close>

section \<open>The cursor\<close>

text \<open>\<open>rev\<close> of \<open>dict.c\<close>, on a 64-bit \<open>unsigned long\<close>.\<close>

fun rev_loop :: "nat \<Rightarrow> u64 \<Rightarrow> u64 \<Rightarrow> u64" where
  "rev_loop s msk v =
     (let s = s div 2 in
      if s > 0
      then let msk = msk XOR push_bit s msk
           in rev_loop s msk ((drop_bit s v AND msk) OR (push_bit s v AND NOT msk))
      else v)"

declare rev_loop.simps [simp del]

definition rev_ulong :: "u64 \<Rightarrow> u64" where
  "rev_ulong v = rev_loop 64 (NOT 0) v"

text \<open>\<open>table[v & mask]\<close>\<close>

definition scan_bucket :: "('k, 'v) dictht \<Rightarrow> u64 \<Rightarrow> ('k, 'v) dictEntry list option" where
  "scan_bucket h v = bucket h (unat (v AND word_of_nat (sizemask h)))"

definition next_expansion :: "u64 \<Rightarrow> u64 \<Rightarrow> u64" where
  "next_expansion m0 v = (((v OR m0) + 1) AND NOT m0) OR (v AND m0)"

text \<open>The \<open>do\<close> loop over the larger table \<open>t1\<close>: what is emitted and the cursor.\<close>

partial_function (option) expansions ::
    "u64 \<Rightarrow> ('k, 'v) dictht \<Rightarrow> u64 \<Rightarrow> (('k, 'v) dictEntry list \<times> u64) option" where
  "expansions m0 t1 v = do {
     es \<leftarrow> scan_bucket t1 v;
     let v = next_expansion m0 v;
     (if v AND (m0 XOR word_of_nat (sizemask t1)) \<noteq> 0
      then do { (es', v) \<leftarrow> expansions m0 t1 v; Some (es @ es', v) }
      else Some (es, v)) }"

declare expansions.simps [code]

definition next_cursor :: "u64 \<Rightarrow> u64 \<Rightarrow> u64" where
  "next_cursor m0 v = rev_ulong (rev_ulong (v OR NOT m0) + 1)"

text \<open>The entries \<open>fn\<close> is called on, in order, and the new cursor.\<close>

definition dictScan :: "('k, 'v) dict \<Rightarrow> u64 \<Rightarrow> (('k, 'v) dictEntry list \<times> u64) option" where
  "dictScan d v =
     (if dictSize d = 0 then Some ([], 0)
      else if \<not> dictIsRehashing d then do {
        let m0 = word_of_nat (sizemask (ht0 d));
        es \<leftarrow> scan_bucket (ht0 d) v;
        Some (es, next_cursor m0 v) }
      else do {
        let (t0, t1) = (if htsize (ht0 d) > htsize (ht1 d) then (ht1 d, ht0 d) else (ht0 d, ht1 d));
        let m0 = word_of_nat (sizemask t0);
        es \<leftarrow> scan_bucket t0 v;
        (es', v) \<leftarrow> expansions m0 t1 v;
        Some (es @ es', next_cursor m0 v) })"

text \<open>
  A client that calls until the cursor is 0 again; \<open>ds\<close> lists the states the dictionary is in
  when the calls are made. The last component says whether the scan has ended.
\<close>

fun scan_run :: "('k, 'v) dict list \<Rightarrow> u64 \<Rightarrow> (('k, 'v) dictEntry list \<times> bool) option" where
  "scan_run [] v = Some ([], False)"
| "scan_run (d # ds) v = do {
     (es, v) \<leftarrow> dictScan d v;
     (if v = 0 then Some (es, True)
      else do { (es', fin) \<leftarrow> scan_run ds v; Some (es @ es', fin) }) }"

section \<open>The order of a scan\<close>

definition swap_step :: "nat \<Rightarrow> u64 \<Rightarrow> u64 \<Rightarrow> u64" where
  "swap_step s msk v = (drop_bit s v AND msk) OR (push_bit s v AND NOT msk)"

lemma rev_loop_step:
  "s div 2 > 0 \<Longrightarrow> rev_loop s msk v =
     rev_loop (s div 2) (msk XOR push_bit (s div 2) msk)
       (swap_step (s div 2) (msk XOR push_bit (s div 2) msk) v)"
  by (subst rev_loop.simps) (simp add: Let_def swap_step_def)

lemma rev_loop_1: "rev_loop (Suc 0) msk v = v"
  by (subst rev_loop.simps) simp

lemma rev_masks:
  "NOT 0 XOR push_bit 32 (NOT 0) = (0xFFFFFFFF :: u64)"
  "0xFFFFFFFF XOR push_bit 16 0xFFFFFFFF = (0x0000FFFF0000FFFF :: u64)"
  "0x0000FFFF0000FFFF XOR push_bit 8 0x0000FFFF0000FFFF = (0x00FF00FF00FF00FF :: u64)"
  "0x00FF00FF00FF00FF XOR push_bit 4 0x00FF00FF00FF00FF = (0x0F0F0F0F0F0F0F0F :: u64)"
  "0x0F0F0F0F0F0F0F0F XOR push_bit 2 0x0F0F0F0F0F0F0F0F = (0x3333333333333333 :: u64)"
  "0x3333333333333333 XOR push_bit (Suc 0) 0x3333333333333333 = (0x5555555555555555 :: u64)"
  by code_simp+

lemma rev_ulong_steps:
  "rev_ulong v = swap_step 1 0x5555555555555555 (swap_step 2 0x3333333333333333
     (swap_step 4 0x0F0F0F0F0F0F0F0F (swap_step 8 0x00FF00FF00FF00FF
       (swap_step 16 0x0000FFFF0000FFFF (swap_step 32 0x00000000FFFFFFFF v)))))"
proof -
  have "64 div 2 = (32::nat)" "32 div 2 = (16::nat)" "16 div 2 = (8::nat)" "8 div 2 = (4::nat)"
    "4 div 2 = (2::nat)" "2 div 2 = (1::nat)" by simp_all
  then show ?thesis
    unfolding rev_ulong_def
    by (simp only: rev_loop_step [of 64] rev_loop_step [of 32] rev_loop_step [of 16] rev_loop_step [of 8]
      rev_loop_step [of 4] rev_loop_step [of 2] rev_masks rev_loop_1 One_nat_def zero_less_numeral zero_less_Suc)
qed

lemma nat_lt_64: "(\<forall>n < 64. P n) \<longleftrightarrow> list_all P [0..<64]"
  by (auto simp: list_all_iff)

lemma bit_swap_step:
  "n < 64 \<Longrightarrow> bit (swap_step s msk v) n =
     (if bit msk n then bit v (s + n) else s \<le> n \<and> bit v (n - s))"
  by (auto simp: swap_step_def bit_simps dest: bit_imp_le_length)

lemma bit_rev_ulong_all: "\<forall>n < 64. bit (rev_ulong v) n = bit v (63 - n)"
  unfolding nat_lt_64 rev_ulong_steps
  by (simp add: upt_rec bit_swap_step)


lemma bit_rev_ulong: "bit (rev_ulong v) n \<longleftrightarrow> n < 64 \<and> bit v (63 - n)"
  using bit_rev_ulong_all [of v] bit_imp_le_length [of "rev_ulong v" n] by auto

lemma diff_less_64 [simp]: "63 - n < (64 :: nat)"
  by linarith

lemma rev_rev_ulong [simp]: "rev_ulong (rev_ulong v) = v"
  by (rule bit_word_eqI) (simp add: bit_rev_ulong)

lemma rev_ulong_0 [simp]: "rev_ulong 0 = 0"
  by (rule bit_word_eqI) (simp add: bit_rev_ulong)

lemma rev_ulong_eq_0: "rev_ulong v = 0 \<longleftrightarrow> v = 0"
  by (metis rev_rev_ulong rev_ulong_0)

text \<open>The order in which a scan meets the hashes: by their reversed bits.\<close>

definition scan_pos :: "u64 \<Rightarrow> nat" where
  "scan_pos v = unat (rev_ulong v)"

lemma scan_pos_0 [simp]: "scan_pos 0 = 0"
  by (simp add: scan_pos_def)

lemma scan_pos_eq_0: "scan_pos v = 0 \<longleftrightarrow> v = 0"
  by (simp add: scan_pos_def unat_eq_0 rev_ulong_eq_0)

lemma scan_pos_less: "scan_pos v < 2 ^ 64"
  using unsigned_less [of "rev_ulong v"] by (simp add: scan_pos_def)

lemma rev_ulong_fill:
  "k \<le> 64 \<Longrightarrow> rev_ulong (v OR NOT (mask k)) = rev_ulong v OR mask (64 - k)"
  by (rule bit_word_eqI) (auto simp: bit_rev_ulong bit_simps)

lemma all_less_flip: "(\<forall>n < k. P (k - 1 - n)) \<longleftrightarrow> (\<forall>n < k. P n)" for k :: nat
proof (intro iffI allI impI)
  fix n assume all: "\<forall>n < k. P (k - 1 - n)" and "n < k"
  then have "k - 1 - n < k" by simp
  with all have "P (k - 1 - (k - 1 - n))" by blast
  then show "P n" using \<open>n < k\<close> by simp
qed auto

lemma same_bucket:
  assumes "k \<le> 64"
  shows "x AND mask k = y AND mask k \<longleftrightarrow> scan_pos x div 2 ^ (64 - k) = scan_pos y div 2 ^ (64 - k)"
proof -
  have "scan_pos x div 2 ^ (64 - k) = scan_pos y div 2 ^ (64 - k) \<longleftrightarrow>
      drop_bit (64 - k) (rev_ulong x) = drop_bit (64 - k) (rev_ulong y)"
    by (simp add: scan_pos_def word_unat_eq_iff unat_drop_bit_eq flip: drop_bit_eq_div)
  also have "\<dots> \<longleftrightarrow> (\<forall>n < k. bit x (k - 1 - n) = bit y (k - 1 - n))"
  proof -
    have "bit (drop_bit (64 - k) (rev_ulong z)) n \<longleftrightarrow> n < k \<and> bit z (k - 1 - n)" for z n
    proof -
      have "63 - (64 - k + n) = k - 1 - n" "64 - k + n < 64 \<longleftrightarrow> n < k" using assms by auto
      then show ?thesis by (auto simp: bit_simps bit_rev_ulong)
    qed
    then show ?thesis using assms by (simp add: bit_eq_iff) (meson less_le_trans)
  qed
  also have "\<dots> \<longleftrightarrow> (\<forall>n < k. bit x n = bit y n)"
    by (rule all_less_flip)
  also have "\<dots> \<longleftrightarrow> x AND mask k = y AND mask k"
    using assms by (simp add: bit_eq_iff bit_simps) (meson less_le_trans)
  finally show ?thesis by simp
qed

lemma or_mask_div:
  assumes "k \<le> 64"
  shows "unat (w OR mask k :: u64) = unat w div 2 ^ k * 2 ^ k + (2 ^ k - 1)"
proof -
  have "unat (w OR mask k) = push_bit k (drop_bit k (unat w)) OR mask k"
    using assms by (auto intro!: bit_eqI simp: bit_simps bit_unsigned_iff)
  also have "\<dots> = push_bit k (drop_bit k (unat w)) + mask k"
    by (rule disjunctive_add [symmetric]) (auto simp: bit_simps)
  finally show ?thesis by (simp add: push_bit_eq_mult drop_bit_eq_div mask_eq_exp_minus_1)
qed

lemma scan_pos_next:
  assumes "k \<le> 64"
  shows "scan_pos (next_cursor (mask k) v) = (scan_pos v div 2 ^ (64 - k) + 1) * 2 ^ (64 - k) mod 2 ^ 64"
proof -
  have "scan_pos (next_cursor (mask k) v) = unat ((rev_ulong v OR mask (64 - k)) + 1)"
    using assms by (simp add: scan_pos_def next_cursor_def rev_ulong_fill)
  also have "\<dots> = (unat (rev_ulong v OR mask (64 - k)) + 1) mod 2 ^ 64"
    by (simp add: unat_word_ariths)
  also have "unat (rev_ulong v OR mask (64 - k)) + 1 = (scan_pos v div 2 ^ (64 - k) + 1) * 2 ^ (64 - k)"
    by (simp add: or_mask_div scan_pos_def)
  finally show ?thesis .
qed

lemma next_cursor_cong:
  "v AND mask k = w AND mask k \<Longrightarrow> next_cursor (mask k) v = next_cursor (mask k) w"
proof -
  assume *: "v AND mask k = w AND mask k"
  have "x OR NOT (mask k) = (x AND mask k) OR NOT (mask k :: u64)" for x
    by (rule bit_word_eqI) (auto simp: bit_simps)
  then show ?thesis using * by (metis next_cursor_def)
qed

text \<open>What a cursor stands for: the positions up to the next one.\<close>

lemma scan_interval:
  assumes k: "k \<le> 64" and v: "scan_pos v \<le> scan_pos h"
    and n: "next_cursor (mask k) v = 0 \<or> scan_pos h < scan_pos (next_cursor (mask k) v)"
  shows "h AND mask k = v AND mask k"
proof -
  let ?m = "2 ^ (64 - k) :: nat" and ?q = "scan_pos v div 2 ^ (64 - k)"
  have pow: "2 ^ k * ?m = 2 ^ 64" using k by (simp flip: power_add)
  have q: "?q < 2 ^ k" using scan_pos_less [of v] pow by (simp add: div_less_iff_less_mult mult.commute)
  have "scan_pos h < (?q + 1) * ?m"
  proof (cases "(?q + 1) * ?m < 2 ^ 64")
    case True
    then have "scan_pos (next_cursor (mask k) v) = (?q + 1) * ?m" using k by (simp add: scan_pos_next)
    moreover from this have "next_cursor (mask k) v \<noteq> 0" using scan_pos_eq_0 by force
    ultimately show ?thesis using n by simp
  next
    case False
    then show ?thesis using scan_pos_less [of h] by linarith
  qed
  moreover have "?q * ?m \<le> scan_pos h" using v by (meson div_times_less_eq_dividend le_trans)
  ultimately have "scan_pos h div ?m = ?q"
    by (intro div_nat_eqI) (simp_all add: mult.commute)
  then show ?thesis using same_bucket [OF k] by blast
qed

lemma scan_advances:
  assumes k: "k \<le> K" "K \<le> 64" and n: "next_cursor (mask k) v \<noteq> 0"
  shows "scan_pos v < scan_pos (next_cursor (mask k) v)"
    and "scan_pos v div 2 ^ (64 - K) < scan_pos (next_cursor (mask k) v) div 2 ^ (64 - K)"
proof -
  let ?m = "2 ^ (64 - k) :: nat" and ?q = "scan_pos v div 2 ^ (64 - k)"
  have pow: "2 ^ k * ?m = 2 ^ 64" using k by (simp flip: power_add)
  have "?q < 2 ^ k" using scan_pos_less [of v] pow by (simp add: div_less_iff_less_mult mult.commute)
  then have "(?q + 1) * ?m \<le> 2 ^ 64" using pow by (metis Suc_eq_plus1 Suc_leI mult_le_mono1)
  moreover have "(?q + 1) * ?m \<noteq> 2 ^ 64"
  proof
    assume "(?q + 1) * ?m = 2 ^ 64"
    then have "scan_pos (next_cursor (mask k) v) = 0" using scan_pos_next [of k v] k by (metis le_trans mod_self)
    then show False using n scan_pos_eq_0 by blast
  qed
  ultimately have e: "scan_pos (next_cursor (mask k) v) = (?q + 1) * ?m"
    using k by (simp add: scan_pos_next)
  show less: "scan_pos v < scan_pos (next_cursor (mask k) v)"
    unfolding e by (metis Suc_eq_plus1 dividend_less_times_div mult.commute mult_Suc_right zero_less_numeral zero_less_power add.commute)
  have m: "?m = 2 ^ (K - k) * 2 ^ (64 - K)" using k by (simp flip: power_add)
  have "scan_pos v div 2 ^ (64 - K) < (?q + 1) * 2 ^ (K - k)"
    using less unfolding e by (intro less_mult_imp_div_less) (metis m mult.assoc)
  also have "\<dots> = scan_pos (next_cursor (mask k) v) div 2 ^ (64 - K)"
    unfolding e m by (simp flip: mult.assoc)
  finally show "scan_pos v div 2 ^ (64 - K) < scan_pos (next_cursor (mask k) v) div 2 ^ (64 - K)" .
qed

lemma next_cursor_bound:
  assumes "k \<le> 64"
  shows "unat (next_cursor (mask k) v) < 2 ^ k"
proof -
  let ?n = "next_cursor (mask k) v"
  have "2 ^ (64 - k) dvd scan_pos ?n"
    unfolding scan_pos_next [OF assms] by (metis assms dvd_mod dvd_triv_right diff_le_self le_imp_power_dvd)
  then have "take_bit (64 - k) (rev_ulong ?n) = 0"
    by (simp add: scan_pos_def word_unat_eq_iff unsigned_take_bit_eq take_bit_eq_0_iff)
  then have "\<not> bit (rev_ulong ?n) j" if "j < 64 - k" for j
    using that by (metis bit_0_eq bit_take_bit_iff bot_apply bot_bool_def)
  then have "bit ?n j \<Longrightarrow> j < k" for j
    using bit_rev_ulong [of ?n "63 - j"] assms bit_imp_le_length [of ?n j]
    by (cases "j < k") auto
  then have "?n = take_bit k ?n" by (intro bit_word_eqI) (auto simp: bit_simps)
  then have "unat ?n = take_bit k (unat ?n)" by (metis unsigned_take_bit_eq)
  then show ?thesis by (metis take_bit_nat_less_exp)
qed

lemma word_mask: "k \<le> 64 \<Longrightarrow> word_of_nat (2 ^ k - 1) = (mask k :: u64)"
  by (simp add: mask_eq_exp_minus_1 of_nat_diff)

lemma unat_and_mask: "unat (v AND mask k :: u64) = unat v mod 2 ^ k"
proof -
  have "unat (take_bit k v) = take_bit k (unat v)" by (rule unsigned_take_bit_eq)
  also have "\<dots> = unat v mod 2 ^ k" by (rule take_bit_eq_mod)
  finally show ?thesis by (simp only: take_bit_eq_mask)
qed

lemma next_expansion_add: "next_expansion (mask k) v = v + 2 ^ k"
proof -
  let ?h = "push_bit k (drop_bit k v)" and ?l = "take_bit k v"
  let ?x = "push_bit k (drop_bit k v + 1)"
  have v: "?h + ?l = v" by (rule bits_ident)
  have "v OR mask k = ?h OR mask k" by (rule bit_word_eqI) (auto simp: bit_simps)
  also have "\<dots> = ?h + mask k" by (rule disjunctive_add [symmetric]) (auto simp: bit_simps)
  finally have "(v OR mask k) + 1 = ?x"
    by (simp add: mask_eq_exp_minus_1 push_bit_add)
  moreover have "?x AND NOT (mask k) = ?x" by (rule bit_word_eqI) (auto simp: bit_simps)
  moreover have "?x OR ?l = ?x + ?l" by (rule disjunctive_add [symmetric]) (auto simp: bit_simps)
  moreover have "?x + ?l = (?h + ?l) + 2 ^ k" by (simp add: push_bit_add)
  ultimately have "((v OR mask k) + 1 AND NOT (mask k)) OR take_bit k v = v + 2 ^ k" by (simp only: v)
  then show ?thesis by (simp only: next_expansion_def take_bit_eq_mask)
qed

lemma expansion_ends:
  assumes "k \<le> K" "K \<le> 64"
  shows "(v :: u64) AND (mask k XOR mask K) = 0 \<longleftrightarrow> unat v div 2 ^ k mod 2 ^ (K - k) = 0"
proof -
  have "v AND (mask k XOR mask K) = push_bit k (take_bit (K - k) (drop_bit k v))"
    using assms by (intro bit_word_eqI) (auto simp: bit_simps)
  moreover have "push_bit k (take_bit (K - k) (drop_bit k v)) = 0 \<longleftrightarrow> take_bit (K - k) (drop_bit k v) = 0"
  proof
    have "drop_bit k (push_bit k (take_bit (K - k) (drop_bit k v))) = take_bit (K - k) (drop_bit k v)"
      using assms by (intro bit_word_eqI) (auto simp: bit_simps)
    then show "take_bit (K - k) (drop_bit k v) = 0" if "push_bit k (take_bit (K - k) (drop_bit k v)) = 0"
      using that by simp
  qed simp
  moreover have "unat (take_bit (K - k) (drop_bit k v)) = unat v div 2 ^ k mod 2 ^ (K - k)"
    by (simp only: unsigned_take_bit_eq unat_drop_bit_eq take_bit_nat_def drop_bit_nat_def)
  ultimately show ?thesis by (metis unat_eq_0)
qed

lemma bucket_of_entry:
  assumes "ht_ok ty h" "htsize h = 2 ^ b" "b \<le> 64" "e \<in> set (concat (table h))"
  shows "e \<in> set (table h ! unat (word_of_nat (hashFunction ty (fst e)) AND mask b :: u64))"
proof -
  note h = ht_okD [OF assms(1)]
  obtain i where i: "i < htsize h" "e \<in> set (table h ! i)"
  proof -
    from assms(4) obtain c where "c \<in> set (table h)" "e \<in> set c" by auto
    then show ?thesis using that h(2) by (metis in_set_conv_nth)
  qed
  have "(2 :: nat) ^ b dvd 2 ^ 64" using assms(3) by (rule le_imp_power_dvd)
  then have "unat (word_of_nat (hashFunction ty (fst e)) AND mask b :: u64) = hashFunction ty (fst e) mod 2 ^ b"
    by (simp add: unat_and_mask unat_of_nat mod_mod_cancel)
  then show ?thesis using h(5) [OF i] i assms(2) by simp
qed

lemma set_nth_concat: "i < length t \<Longrightarrow> set (t ! i) \<subseteq> set (concat t)"
  by (metis UN_upper nth_mem set_concat)

lemma scan_bucket_ok:
  assumes "ht_ok ty h" "htsize h = 2 ^ b" "b \<le> 64"
  shows "word_of_nat (sizemask h) = (mask b :: u64)"
    and "scan_bucket h v = Some (table h ! unat (v AND mask b))"
    and "set (table h ! unat (v AND mask b)) \<subseteq> set (concat (table h))"
proof -
  note h = ht_okD [OF assms(1)]
  show m: "word_of_nat (sizemask h) = (mask b :: u64)"
    using assms by (simp add: ht_ok_def mask_eq_exp_minus_1 of_nat_diff)
  have "unat (v AND mask b) < 2 ^ b" by (simp add: unat_and_mask)
  then show "scan_bucket h v = Some (table h ! unat (v AND mask b))"
    and "set (table h ! unat (v AND mask b)) \<subseteq> set (concat (table h))"
    using h(2) assms(2) by (simp_all add: scan_bucket_def m bucket_def set_nth_concat del: set_concat)
qed

text \<open>The loop visits the expansions of the cursor from its own upwards.\<close>

lemma expansions_ok:
  fixes v :: u64
  assumes t: "ht_ok ty t1" "htsize t1 = 2 ^ K" and k: "k \<le> K" "K \<le> 63"
  shows "unat v div 2 ^ k mod 2 ^ (K - k) + n = 2 ^ (K - k) \<Longrightarrow>
    \<exists>es w. expansions (mask k) t1 v = Some (es, w) \<and> w AND mask k = v AND mask k \<and>
      set es \<subseteq> set (concat (table t1)) \<and>
      (\<forall>u. unat v div 2 ^ k mod 2 ^ (K - k) \<le> u \<longrightarrow> u < 2 ^ (K - k) \<longrightarrow>
         set (table t1 ! (u * 2 ^ k + unat v mod 2 ^ k)) \<subseteq> set es)"
proof (induction n arbitrary: v)
  case 0
  have "unat v div 2 ^ k mod 2 ^ (K - k) < 2 ^ (K - k)" by simp
  with 0 show ?case by simp
next
  case (Suc n)
  let ?a = "unat v div 2 ^ k mod 2 ^ (K - k)" and ?w = "v + 2 ^ k :: u64"
  have pow: "(2 :: nat) ^ k * 2 ^ (K - k) = 2 ^ K" using k by (simp flip: power_add)
  have k64: "K \<le> 64" using k by simp
  note b = scan_bucket_ok(1) [OF t k64] scan_bucket_ok(2,3) [OF t k64, of v]
  have idx: "unat (v AND mask K) = ?a * 2 ^ k + unat v mod 2 ^ k"
    using mod_mult2_eq [of "unat v" "2 ^ k" "2 ^ (K - k)"] by (simp add: unat_and_mask pow mult.commute)
  have "unat (2 ^ k :: u64) = 2 ^ k" proof -
    have "(2 :: nat) ^ k < 2 ^ 64" using k by (intro power_strict_increasing) auto
    then show ?thesis using unat_of_nat [of "2 ^ k", where 'a = 64] by simp
  qed
  then have uw: "unat ?w = (unat v + 2 ^ k) mod 2 ^ 64" by (simp add: unat_word_ariths)
  have d64: "(2 :: nat) ^ K dvd 2 ^ 64" "(2 :: nat) ^ k dvd 2 ^ 64" by (rule le_imp_power_dvd, use k in simp)+
  have low: "unat ?w mod 2 ^ k = unat v mod 2 ^ k" using d64 by (simp add: uw mod_mod_cancel)
  then have wl: "?w AND mask k = v AND mask k" by (simp add: word_unat_eq_iff unat_and_mask)
  have high: "unat ?w div 2 ^ k mod 2 ^ (K - k) = (?a + 1) mod 2 ^ (K - k)"
  proof -
    have "unat ?w div 2 ^ k mod 2 ^ (K - k) = unat ?w mod 2 ^ K div 2 ^ k"
      by (simp add: pow [symmetric] mod_mult2_eq)
    also have "unat ?w mod 2 ^ K = (unat v + 2 ^ k) mod 2 ^ K" using d64 by (simp add: uw mod_mod_cancel)
    also have "\<dots> div 2 ^ k = (unat v + 2 ^ k) div 2 ^ k mod 2 ^ (K - k)"
      by (simp add: pow [symmetric] mod_mult2_eq)
    also have "(unat v + 2 ^ k) div 2 ^ k = unat v div 2 ^ k + 1" by (rule div_add_self2) simp
    also have "\<dots> mod 2 ^ (K - k) = (?a + 1) mod 2 ^ (K - k)" by (rule mod_add_left_eq [symmetric])
    finally show ?thesis .
  qed
  show ?case
  proof (cases "?a + 1 = 2 ^ (K - k)")
    case True
    then have "?w AND (mask k XOR mask K) = 0" using high k by (simp add: expansion_ends)
    then have "expansions (mask k) t1 v = Some (table t1 ! unat (v AND mask K), ?w)"
      by (subst expansions.simps) (simp add: b next_expansion_add)
    moreover have "u = ?a" if "?a \<le> u" "u < 2 ^ (K - k)" for u using that True by linarith
    ultimately show ?thesis using b(3) wl by (auto simp: idx)
  next
    case False
    then have lt: "?a + 1 < 2 ^ (K - k)" using Suc.prems by linarith
    then have a: "unat ?w div 2 ^ k mod 2 ^ (K - k) = ?a + 1" using high by simp
    then have "?w AND (mask k XOR mask K) \<noteq> 0" using k expansion_ends [of k K ?w] by simp
    moreover obtain es w where IH: "expansions (mask k) t1 ?w = Some (es, w)" "w AND mask k = ?w AND mask k"
        "set es \<subseteq> set (concat (table t1))"
        "\<forall>u. ?a + 1 \<le> u \<longrightarrow> u < 2 ^ (K - k) \<longrightarrow> set (table t1 ! (u * 2 ^ k + unat v mod 2 ^ k)) \<subseteq> set es"
      using Suc.IH [of ?w] Suc.prems unfolding a low by auto
    ultimately have "expansions (mask k) t1 v = Some (table t1 ! unat (v AND mask K) @ es, w)"
      by (subst expansions.simps) (simp add: b next_expansion_add)
    moreover have "set (table t1 ! (u * 2 ^ k + unat v mod 2 ^ k)) \<subseteq> set (table t1 ! unat (v AND mask K) @ es)"
      if "?a \<le> u" "u < 2 ^ (K - k)" for u
    proof (cases "u = ?a")
      case False
      then have "?a + 1 \<le> u" using that(1) by linarith
      then show ?thesis using IH(4) that(2) by (simp only: set_append) blast
    qed (simp add: idx)
    ultimately show ?thesis using b(3) IH(2,3) wl by auto
  qed
qed

definition scan_size :: "('k, 'v) dict \<Rightarrow> nat" where
  "scan_size d = (if dictIsRehashing d then min (htsize (ht0 d)) (htsize (ht1 d)) else htsize (ht0 d))"

lemma ht_ok_size: "ht_ok ty h \<Longrightarrow> htsize h \<le> 2 ^ n \<Longrightarrow> \<exists>b. b \<le> n \<and> htsize h = 2 ^ b"
  by (auto simp: ht_ok_def)

text \<open>One call emits every entry whose hash falls into the bucket of the cursor.\<close>

lemma two_tables_scan:
  fixes v :: u64
  assumes t: "ht_ok ty t0" "htsize t0 = 2 ^ k" "ht_ok ty t1" "htsize t1 = 2 ^ K" and k: "k \<le> K" "K \<le> 63"
    and v: "unat v < 2 ^ k"
  shows "\<exists>es es' w. scan_bucket t0 v = Some es \<and> expansions (word_of_nat (sizemask t0)) t1 v = Some (es', w) \<and>
    next_cursor (word_of_nat (sizemask t0)) w = next_cursor (mask k) v \<and>
    set es \<subseteq> set (concat (table t0)) \<and> set es' \<subseteq> set (concat (table t1)) \<and>
    (\<forall>e \<in> set (concat (table t0)) \<union> set (concat (table t1)).
       word_of_nat (hashFunction ty (fst e)) AND mask k = v AND mask k \<longrightarrow> e \<in> set es \<union> set es')"
proof -
  have k64: "k \<le> 64" "K \<le> 64" using k by simp_all
  note b = scan_bucket_ok(1) [OF t(1,2) k64(1)] scan_bucket_ok(2,3) [OF t(1,2) k64(1), of v]
  have pow: "(2 :: nat) ^ k * 2 ^ (K - k) = 2 ^ K" using k by (simp flip: power_add)
  have "unat v div 2 ^ k mod 2 ^ (K - k) = 0" using v by simp
  then obtain es' w where x: "expansions (mask k) t1 v = Some (es', w)" "w AND mask k = v AND mask k"
      "set es' \<subseteq> set (concat (table t1))"
      "\<forall>u < 2 ^ (K - k). set (table t1 ! (u * 2 ^ k + unat v mod 2 ^ k)) \<subseteq> set es'"
    using expansions_ok [OF t(3,4) k, of v "2 ^ (K - k)"] by auto
  have nc: "next_cursor (word_of_nat (sizemask t0)) w = next_cursor (mask k) v"
    unfolding b(1) using x(2) by (rule next_cursor_cong)
  have "\<forall>e \<in> set (concat (table t0)) \<union> set (concat (table t1)).
       word_of_nat (hashFunction ty (fst e)) AND mask k = v AND mask k \<longrightarrow>
       e \<in> set (table t0 ! unat (v AND mask k)) \<union> set es'"
  proof (intro ballI impI)
    fix e :: "'a \<times> 'b"
    let ?h = "word_of_nat (hashFunction ty (fst e)) :: u64"
    assume e: "e \<in> set (concat (table t0)) \<union> set (concat (table t1))" and hv: "?h AND mask k = v AND mask k"
    show "e \<in> set (table t0 ! unat (v AND mask k)) \<union> set es'"
    proof (cases "e \<in> set (concat (table t0))")
      case True
      then show ?thesis using bucket_of_entry [OF t(1,2) k64(1)] hv by (metis UnI1)
    next
      case False
      then have "e \<in> set (table t1 ! unat (?h AND mask K))"
        using e bucket_of_entry [OF t(3,4) k64(2)] by blast
      moreover have "unat (?h AND mask K) = unat ?h div 2 ^ k mod 2 ^ (K - k) * 2 ^ k + unat v mod 2 ^ k"
        using mod_mult2_eq [of "unat ?h" "2 ^ k" "2 ^ (K - k)"] hv
        by (simp add: unat_and_mask word_unat_eq_iff pow mult.commute)
      moreover have "unat ?h div 2 ^ k mod 2 ^ (K - k) < 2 ^ (K - k)" by simp
      ultimately have "e \<in> set es'" using x(4) by (simp only:) blast
      then show ?thesis ..
    qed
  qed
  then show ?thesis using b x(1,3) nc by (simp del: set_concat)
qed

lemma dictScan_step:
  fixes v :: u64
  assumes ok: "dict_ok ty d" and sz: "htsize (ht0 d) \<le> 2 ^ N" "htsize (ht1 d) \<le> 2 ^ N" "N \<le> 63"
    and nz: "dictSize d \<noteq> 0" and v: "dictIsRehashing d \<longrightarrow> unat v < scan_size d"
  obtains es k where "dictScan d v = Some (es, next_cursor (mask k) v)" "scan_size d = 2 ^ k" "k \<le> N"
    "set es \<subseteq> set (entries d)"
    "\<And>e. e \<in> set (entries d) \<Longrightarrow> word_of_nat (hashFunction ty (fst e)) AND mask k = v AND mask k \<Longrightarrow> e \<in> set es"
proof (cases "dictIsRehashing d")
  case False
  then have r: "ht1 d = u_dictReset" "ht0 d = u_dictReset \<or> ht_ok ty (ht0 d)"
    using ok by (auto simp: dict_ok_def dictIsRehashing_def)
  moreover have "ht0 d \<noteq> u_dictReset" using nz r(1) by (auto simp: dictSize_def u_dictReset_def)
  ultimately have h: "ht_ok ty (ht0 d)" by simp
  then obtain k where k: "k \<le> N" "htsize (ht0 d) = 2 ^ k" using ht_ok_size sz by blast
  then have k64: "k \<le> 64" using sz by simp
  note b = scan_bucket_ok(1) [OF h k(2) k64] scan_bucket_ok(2,3) [OF h k(2) k64, of v]
  have en: "set (entries d) = set (concat (table (ht0 d)))" using r by (simp add: entries_def u_dictReset_def)
  show thesis
  proof (rule that [of "table (ht0 d) ! unat (v AND mask k)" k])
    show "dictScan d v = Some (table (ht0 d) ! unat (v AND mask k), next_cursor (mask k) v)"
      using False nz b by (simp add: dictScan_def)
  next
    fix e assume "e \<in> set (entries d)" "word_of_nat (hashFunction ty (fst e)) AND mask k = v AND mask k"
    then show "e \<in> set (table (ht0 d) ! unat (v AND mask k))"
      using bucket_of_entry [OF h k(2) k64] en by metis
  qed (use k b False en in \<open>auto simp: scan_size_def\<close>)
next
  case True
  then have h: "ht_ok ty (ht0 d)" "ht_ok ty (ht1 d)" using ok by (auto simp: dict_ok_def dictIsRehashing_def)
  obtain a b where ab: "a \<le> N" "htsize (ht0 d) = 2 ^ a" "b \<le> N" "htsize (ht1 d) = 2 ^ b"
    using ht_ok_size h sz by metis
  have en: "set (entries d) = set (concat (table (ht0 d))) \<union> set (concat (table (ht1 d)))" by (simp add: entries_def)
  show thesis
  proof (cases "htsize (ht0 d) > htsize (ht1 d)")
    case gt: True
    then have kb: "b \<le> a" and ss: "scan_size d = 2 ^ b" using ab True by (auto simp: scan_size_def)
    have a63: "a \<le> 63" and vb: "unat v < 2 ^ b" using ab sz v True ss by auto
    from two_tables_scan [OF h(2) ab(4) h(1) ab(2) kb a63 vb] obtain es es' w
      where T: "scan_bucket (ht1 d) v = Some es"
        "expansions (word_of_nat (sizemask (ht1 d))) (ht0 d) v = Some (es', w)"
        "next_cursor (word_of_nat (sizemask (ht1 d))) w = next_cursor (mask b) v"
        "set es \<subseteq> set (concat (table (ht1 d)))" "set es' \<subseteq> set (concat (table (ht0 d)))"
        "\<forall>e \<in> set (concat (table (ht1 d))) \<union> set (concat (table (ht0 d))).
           word_of_nat (hashFunction ty (fst e)) AND mask b = v AND mask b \<longrightarrow> e \<in> set es \<union> set es'"
      by (elim exE conjE)
    show thesis
    proof (rule that [of "es @ es'" b])
      show "dictScan d v = Some (es @ es', next_cursor (mask b) v)"
        using nz True gt T(1-3) by (simp add: dictScan_def)
      show "set (es @ es') \<subseteq> set (entries d)" using T(4,5) unfolding en set_append by blast
      show "e \<in> set (es @ es')" if "e \<in> set (entries d)"
          "word_of_nat (hashFunction ty (fst e)) AND mask b = v AND mask b" for e
        using T(6) that unfolding en set_append by blast
    qed (use ab ss in auto)
  next
    case le: False
    then have kb: "a \<le> b" and ss: "scan_size d = 2 ^ a" using ab True by (auto simp: scan_size_def)
    have a63: "b \<le> 63" and vb: "unat v < 2 ^ a" using ab sz v True ss by auto
    from two_tables_scan [OF h(1) ab(2) h(2) ab(4) kb a63 vb] obtain es es' w
      where T: "scan_bucket (ht0 d) v = Some es"
        "expansions (word_of_nat (sizemask (ht0 d))) (ht1 d) v = Some (es', w)"
        "next_cursor (word_of_nat (sizemask (ht0 d))) w = next_cursor (mask a) v"
        "set es \<subseteq> set (concat (table (ht0 d)))" "set es' \<subseteq> set (concat (table (ht1 d)))"
        "\<forall>e \<in> set (concat (table (ht0 d))) \<union> set (concat (table (ht1 d))).
           word_of_nat (hashFunction ty (fst e)) AND mask a = v AND mask a \<longrightarrow> e \<in> set es \<union> set es'"
      by (elim exE conjE)
    show thesis
    proof (rule that [of "es @ es'" a])
      show "dictScan d v = Some (es @ es', next_cursor (mask a) v)"
        using nz True le T(1-3) by (simp add: dictScan_def)
      show "set (es @ es') \<subseteq> set (entries d)" using T(4,5) unfolding en set_append by blast
      show "e \<in> set (es @ es')" if "e \<in> set (entries d)"
          "word_of_nat (hashFunction ty (fst e)) AND mask a = v AND mask a" for e
        using T(6) that unfolding en set_append by blast
    qed (use ab ss in auto)
  qed
qed


section \<open>A full scan\<close>

text \<open>
  What the proof of a scan needs of the states between its calls: a call made during a
  rehashing finds the smaller table no smaller than the table of the call before. Growing
  tables, finished shrinking and any change of the entries are allowed.
\<close>

definition scan_steady :: "('k, 'v) dict list \<Rightarrow> bool" where
  "scan_steady ds \<longleftrightarrow> successively (\<lambda>d d'. dictIsRehashing d' \<longrightarrow> scan_size d \<le> scan_size d') ds"

lemma scan_run_from:
  assumes "N \<le> 63"
  shows "\<forall>d \<in> set ds. dict_ok ty d \<and> htsize (ht0 d) \<le> 2 ^ N \<and> htsize (ht1 d) \<le> 2 ^ N \<Longrightarrow>
    scan_steady ds \<Longrightarrow> (\<forall>d ds'. ds = d # ds' \<longrightarrow> dictIsRehashing d \<longrightarrow> unat v < scan_size d) \<Longrightarrow>
    2 ^ N \<le> length ds + scan_pos v div 2 ^ (64 - N) \<Longrightarrow>
    \<exists>es. scan_run ds v = Some (es, True) \<and> set es \<subseteq> (\<Union>d \<in> set ds. set (entries d)) \<and>
      (\<forall>e. (\<forall>d \<in> set ds. e \<in> set (entries d)) \<longrightarrow>
         scan_pos v \<le> scan_pos (word_of_nat (hashFunction ty (fst e))) \<longrightarrow> e \<in> set es)"
proof (induction ds arbitrary: v)
  case Nil
  have "scan_pos v < 2 ^ N * 2 ^ (64 - N)" using scan_pos_less [of v] assms by (simp flip: power_add)
  then have "scan_pos v div 2 ^ (64 - N) < 2 ^ N" by (rule less_mult_imp_div_less)
  with Nil show ?case by simp
next
  case (Cons d ds)
  show ?case
  proof (cases "dictSize d = 0")
    case True
    then have "ht_ok ty (ht0 d) \<or> ht0 d = u_dictReset" "ht_ok ty (ht1 d) \<or> ht1 d = u_dictReset"
      using Cons.prems(1) by (auto simp: dict_ok_def split: if_splits)
    then have "entries d = []" using True
      by (auto simp: entries_def dictSize_def ht_ok_def u_dictReset_def)
    with True show ?thesis by (auto simp: dictScan_def)
  next
    case False
    obtain es k where s: "dictScan d v = Some (es, next_cursor (mask k) v)" "scan_size d = 2 ^ k" "k \<le> N"
      "set es \<subseteq> set (entries d)"
      "\<And>e. e \<in> set (entries d) \<Longrightarrow> word_of_nat (hashFunction ty (fst e)) AND mask k = v AND mask k \<Longrightarrow> e \<in> set es"
      using dictScan_step [of ty d N v] Cons.prems(1,3) False assms by auto
    let ?n = "next_cursor (mask k) v"
    have k64: "k \<le> 64" "N \<le> 64" using s(3) assms by simp_all
    have near: "e \<in> set es" if "e \<in> set (entries d)" "scan_pos v \<le> scan_pos (word_of_nat (hashFunction ty (fst e)))"
        "?n = 0 \<or> scan_pos (word_of_nat (hashFunction ty (fst e))) < scan_pos ?n" for e
      using s(5) [OF that(1)] scan_interval [OF k64(1) that(2,3)] by blast
    show ?thesis
    proof (cases "?n = 0")
      case True
      then show ?thesis using s near by auto
    next
      case n: False
      have "unat ?n < scan_size d'" if "ds = d' # ds'" "dictIsRehashing d'" for d' ds'
        using next_cursor_bound [OF k64(1), of v] Cons.prems(2) s(2) that by (auto simp: scan_steady_def)
      moreover have "scan_steady ds" using Cons.prems(2) by (cases ds) (auto simp: scan_steady_def)
      moreover have "2 ^ N \<le> length ds + scan_pos ?n div 2 ^ (64 - N)"
        using Cons.prems(4) scan_advances(2) [OF s(3) k64(2) n] by simp
      ultimately obtain es' where r: "scan_run ds ?n = Some (es', True)" "set es' \<subseteq> (\<Union>d \<in> set ds. set (entries d))"
          "\<forall>e. (\<forall>d \<in> set ds. e \<in> set (entries d)) \<longrightarrow>
             scan_pos ?n \<le> scan_pos (word_of_nat (hashFunction ty (fst e))) \<longrightarrow> e \<in> set es'"
        using Cons.IH [of ?n] Cons.prems(1) by auto
      have "scan_run (d # ds) v = Some (es @ es', True)" using s(1) n r(1) by simp
      moreover have "e \<in> set (es @ es')" if "\<forall>x \<in> set (d # ds). e \<in> set (entries x)"
          "scan_pos v \<le> scan_pos (word_of_nat (hashFunction ty (fst e)))" for e
      proof (cases "scan_pos ?n \<le> scan_pos (word_of_nat (hashFunction ty (fst e)))")
        case True
        then have "e \<in> set es'" using r(3) that(1) by (simp only: list.set Ball_def) blast
        then show ?thesis by simp
      next
        case False
        then have "e \<in> set es" using near [of e] that by simp
        then show ?thesis by simp
      qed
      ultimately show ?thesis using s(4) r(2) by auto
    qed
  qed
qed

text \<open>
  C12: A client that starts with cursor 0 and calls \<open>dictScan\<close> until the cursor is 0 again comes
  to an end after at most \<open>2 ^ N\<close> calls if no table has more than \<open>2 ^ N\<close> buckets, and every
  entry that is in the dictionary at all calls has been handed to the callback, nothing else
  than entries of the dictionary has; the table may grow and be rehashed between the calls,
  and shrink as long as no call is made during the rehashing into a smaller table.
\<close>

theorem dictScan_returns_all:
  assumes "\<forall>d \<in> set ds. dict_ok ty d \<and> htsize (ht0 d) \<le> 2 ^ N \<and> htsize (ht1 d) \<le> 2 ^ N"
    and "N \<le> 63" and "scan_steady ds" and "2 ^ N \<le> length ds"
  shows "\<exists>es. scan_run ds 0 = Some (es, True) \<and>
    {e. \<forall>d \<in> set ds. e \<in> set (entries d)} \<subseteq> set es \<and> set es \<subseteq> (\<Union>d \<in> set ds. set (entries d))"
proof -
  have "unat (0 :: u64) < scan_size d" if "d \<in> set ds" "dictIsRehashing d" for d
    using assms(1) that ht_okD(1) [of ty "ht0 d"] ht_okD(1) [of ty "ht1 d"]
    by (auto simp: scan_size_def dict_ok_def dictIsRehashing_def)
  then show ?thesis
    using scan_run_from [OF assms(2), of ds ty 0] assms by fastforce
qed

section \<open>Examples\<close>

definition ex_type :: "(nat, nat) dictType" where
  "ex_type = \<lparr>hashFunction = \<lambda>k. k, keyDup = None, valDup = None, keyCompare = None,
              keyDestructor = False, valDestructor = False\<rparr>"

definition ex_table :: "nat \<Rightarrow> nat list \<Rightarrow> (nat, nat) dictht" where
  "ex_table n ks = \<lparr>table = map (\<lambda>i. map (\<lambda>k. (k, k)) (filter (\<lambda>k. k mod n = i) ks)) [0..<n], htsize = n,
                    sizemask = n - 1, used = length ks\<rparr>"

definition ex_dict :: "(nat, nat) dictht \<Rightarrow> (nat, nat) dictht \<Rightarrow> int \<Rightarrow> (nat, nat) dict" where
  "ex_dict h0 h1 i = \<lparr>ht0 = h0, ht1 = h1, rehashidx = i, iterators = 0, freed_keys = [], freed_vals = []\<rparr>"

lemma ex_table_ok:
  assumes "length (concat (table (ex_table (2 ^ b) ks))) = length ks" "2 \<le> b"
  shows "ht_ok ex_type (ex_table (2 ^ b) ks)"
  using assms by (auto simp: ht_ok_def ex_table_def ex_type_def)

lemma ex_tables_ok:
  "ht_ok ex_type (ex_table 16 [4])" "ht_ok ex_type (ex_table 4 [])" "ht_ok ex_type (ex_table 4 [1, 2, 5])"
  "ht_ok ex_type (ex_table 8 [])"
  by (rule ex_table_ok [of 4, simplified] ex_table_ok [of 2, simplified] ex_table_ok [of 3, simplified], code_simp)+

lemma ex_dict_ok:
  assumes "ht_ok ex_type h0" "h1 = u_dictReset \<and> i = -1 \<or> ht_ok ex_type h1 \<and> i = 0"
    and "concat (table h0) @ concat (table h1) = es" "distinct (map fst es)"
  shows "dict_ok ex_type (ex_dict h0 h1 i)"
proof -
  have "size (filter_mset (\<lambda>e. k = fst e) (mset es)) \<le> 1" for k
  proof -
    have "length (filter (\<lambda>e. k = fst e) es) = count (mset (map fst es)) k"
      by (induction es) auto
    also have "\<dots> \<le> 1" using assms(4) by (simp add: distinct_count_atmost_1)
    finally show ?thesis by (simp flip: mset_filter)
  qed
  then show ?thesis using assms(1-3)
    by (auto simp: dict_ok_def ex_dict_def one_each_def entries_def ex_type_def dictCompareKeys_def)
qed

lemma scan_bucket_16: "scan_bucket (ex_table 16 [4]) v = Some (if v AND 15 = 4 then [(4, 4)] else [])"
proof -
  have "unat (v AND 15) < 16" using unat_and_mask [of v 4] by (simp add: mask_eq_exp_minus_1)
  moreover have "table (ex_table 16 [4]) ! i = (if i = 4 then [(4, 4)] else [])" if "i < 16" for i
    using that by (simp add: ex_table_def)
  moreover have "unat (v AND 15) = 4 \<longleftrightarrow> v AND 15 = 4" by (simp add: word_unat_eq_iff)
  ultimately show ?thesis by (simp add: scan_bucket_def bucket_def ex_table_def)
qed

lemma scan_bucket_4: "scan_bucket (ex_table 4 []) v = Some []"
proof -
  have "unat (v AND 3) < 4" using unat_and_mask [of v 2] by (simp add: mask_eq_exp_minus_1)
  then show ?thesis by (simp add: scan_bucket_def bucket_def ex_table_def)
qed

lemma expansions_16:
  "expansions 3 (ex_table 16 [4]) v = (let w = next_expansion 3 v; es = (if v AND 15 = 4 then [(4, 4)] else [])
     in if w AND 12 \<noteq> 0 then do { (es', u) \<leftarrow> expansions 3 (ex_table 16 [4]) w; Some (es @ es', u) } else Some (es, w))"
  by (subst expansions.simps) (simp add: scan_bucket_16 Let_def, simp add: ex_table_def)

lemma ex_cursors: "next_cursor 15 0 = 8" "next_cursor 3 16 = 2" "next_cursor 3 18 = 1" "next_cursor 3 17 = 3" "next_cursor 3 19 = 0"
  unfolding next_cursor_def rev_ulong_steps by code_simp+

lemma ex_expansions: "expansions 3 (ex_table 16 [4]) 8 = Some ([], 16)" "expansions 3 (ex_table 16 [4]) 2 = Some ([], 18)"
  "expansions 3 (ex_table 16 [4]) 1 = Some ([], 17)" "expansions 3 (ex_table 16 [4]) 3 = Some ([], 19)"
  by (simp_all add: expansions_16 [of 1] expansions_16 [of "numeral w" for w] next_expansion_def)

lemma ex_table_sel: "htsize (ex_table n ks) = n" "sizemask (ex_table n ks) = n - 1" "used (ex_table n ks) = length ks"
  by (simp_all add: ex_table_def)

text \<open>
  The scan visits bucket 0 of 16; then the dictionary starts to shrink to 4 buckets and the
  rest of the scan runs on both tables: the loop goes through the expansions upwards, so bucket
  4 is never visited, although its entry stays where it is.
\<close>

lemma dictScan_misses_when_shrinking:
  fixes full shrinking :: "(nat, nat) dict"
  defines "full \<equiv> ex_dict (ex_table 16 [4]) u_dictReset (-1)"
    and "shrinking \<equiv> ex_dict (ex_table 16 [4]) (ex_table 4 []) 0"
  shows "dict_ok ex_type full" "dict_ok ex_type shrinking" "entries full = [(4, 4)]" "entries shrinking = [(4, 4)]"
    and "scan_run [full, shrinking, shrinking, shrinking, shrinking] 0 = Some ([], True)"
proof -
  show "dict_ok ex_type full" unfolding full_def
    by (rule ex_dict_ok [where es = "[(4, 4)]"], rule ex_tables_ok, simp, code_simp, simp)
  show "dict_ok ex_type shrinking" unfolding shrinking_def
    by (rule ex_dict_ok [where es = "[(4, 4)]"], rule ex_tables_ok, rule disjI2, simp add: ex_tables_ok, code_simp, simp)
  show "entries full = [(4, 4)]" unfolding full_def by code_simp
  show "entries shrinking = [(4, 4)]" unfolding shrinking_def by code_simp
  have "dictScan full 0 = Some ([], 8)"
    by (simp add: full_def dictScan_def ex_dict_def dictIsRehashing_def dictSize_def u_dictReset_def
      scan_bucket_16 ex_table_sel ex_cursors)
  moreover have "dictScan shrinking v =
      do { (es, w) \<leftarrow> expansions 3 (ex_table 16 [4]) v; Some (es, next_cursor 3 w) }" for v
    by (simp add: shrinking_def dictScan_def ex_dict_def dictIsRehashing_def dictSize_def
      scan_bucket_4 ex_table_sel Let_def)
  ultimately show "scan_run [full, shrinking, shrinking, shrinking, shrinking] 0 = Some ([], True)"
    by (simp add: ex_expansions ex_cursors)
qed

lemma dictScan_returns_all_witness:
  fixes d0 d1 :: "(nat, nat) dict"
  defines "d0 \<equiv> ex_dict (ex_table 4 [1, 2, 5]) u_dictReset (-1)"
    and "d1 \<equiv> ex_dict (ex_table 4 [1, 2, 5]) (ex_table 8 []) 0"
  shows "\<exists>es. scan_run (d0 # replicate 7 d1) 0 = Some (es, True) \<and>
    {e. \<forall>d \<in> set (d0 # replicate 7 d1). e \<in> set (entries d)} \<subseteq> set es \<and>
    set es \<subseteq> (\<Union>d \<in> set (d0 # replicate 7 d1). set (entries d))"
proof (rule dictScan_returns_all [of _ ex_type 3])
  have d0: "dict_ok ex_type d0" unfolding d0_def
    by (rule ex_dict_ok [where es = "[(1, 1), (5, 5), (2, 2)]"], rule ex_tables_ok, simp, code_simp, simp)
  have d1: "dict_ok ex_type d1" unfolding d1_def
    by (rule ex_dict_ok [where es = "[(1, 1), (5, 5), (2, 2)]"], rule ex_tables_ok, rule disjI2, simp add: ex_tables_ok, code_simp, simp)
  show "\<forall>d \<in> set (d0 # replicate 7 d1). dict_ok ex_type d \<and> htsize (ht0 d) \<le> 2 ^ 3 \<and> htsize (ht1 d) \<le> 2 ^ 3"
    using d0 d1 by (auto simp: d0_def d1_def ex_dict_def ex_table_def u_dictReset_def)
  have "scan_size d0 = 4" "scan_size d1 = 4" "\<not> dictIsRehashing d0"
    by (simp_all add: scan_size_def d0_def d1_def ex_dict_def ex_table_def dictIsRehashing_def)
  then show "scan_steady (d0 # replicate 7 d1)"
    by (simp add: scan_steady_def eval_nat_numeral)
qed auto

end
