(* ===== verification/Dict_Iter.thy ===== *)
theory Dict_Iter
  imports Dict_Scan
begin

text \<open>
  The iterators of \<open>dict.c\<close> with the fingerprint that guards the unsafe ones, and the choice of
  a random key. A walk visits every entry once; a random key is an entry of the dictionary.
\<close>

section \<open>The model\<close>

record dictIterator =
  itable :: nat
  iindex :: int
  safe :: bool
  ientry :: "entry_ref option"
  nextEntry :: "entry_ref option"
  fingerprint :: u64

text \<open>The step of the integer hash; \<open>>>\<close> of a \<open>long long\<close> keeps the sign, sums wrap around.\<close>

definition fingerprint_step :: "u64 \<Rightarrow> u64 \<Rightarrow> u64" where
  "fingerprint_step h i =
     (let h = h + i;
          h = NOT h + push_bit 21 h;
          h = h XOR signed_drop_bit 24 h;
          h = (h + push_bit 3 h) + push_bit 8 h;
          h = h XOR signed_drop_bit 14 h;
          h = (h + push_bit 2 h) + push_bit 4 h;
          h = h XOR signed_drop_bit 28 h
      in h + push_bit 31 h)"

text \<open>The addresses of the two tables are \<open>a0\<close> and \<open>a1\<close>.\<close>

definition dictFingerprint :: "u64 \<times> u64 \<Rightarrow> ('k, 'v) dict \<Rightarrow> u64" where
  "dictFingerprint = (\<lambda>(a0, a1) d.
     foldl fingerprint_step 0
       [a0, word_of_nat (htsize (ht0 d)), word_of_nat (used (ht0 d)),
        a1, word_of_nat (htsize (ht1 d)), word_of_nat (used (ht1 d))])"

definition dictGetIterator :: dictIterator where
  "dictGetIterator = \<lparr>itable = 0, iindex = -1, safe = False, ientry = None, nextEntry = None,
                      fingerprint = 0\<rparr>"

definition dictGetSafeIterator :: dictIterator where
  "dictGetSafeIterator = dictGetIterator\<lparr>safe := True\<rparr>"

text \<open>The pointer \<open>p\<close> steps into a chain, or \<open>NULL\<close> at its end.\<close>

definition chain_ref :: "nat \<Rightarrow> nat \<Rightarrow> nat \<Rightarrow> ('k, 'v) dictEntry list \<Rightarrow> entry_ref option" where
  "chain_ref t i p chain = (if p < length chain then Some (t, i, p) else None)"

text \<open>What the first call does.\<close>

definition iter_start ::
    "u64 \<times> u64 \<Rightarrow> dictIterator \<times> ('k, 'v) dict \<Rightarrow> dictIterator \<times> ('k, 'v) dict" where
  "iter_start a = (\<lambda>(it, d).
     (if iindex it = -1 \<and> itable it = 0
      then if safe it then (it, d\<lparr>iterators := iterators d + 1\<rparr>)
           else (it\<lparr>fingerprint := dictFingerprint a d\<rparr>, d)
      else (it, d)))"

text \<open>The branch that moves on to another bucket; \<open>None\<close> in the second place: \<open>break\<close>.\<close>

definition iter_bucket ::
    "u64 \<times> u64 \<Rightarrow> dictIterator \<times> ('k, 'v) dict \<Rightarrow> (dictIterator \<times> ('k, 'v) dict \<times> bool) option" where
  "iter_bucket a s =
     (let (it, d) = iter_start a s;
          it = it\<lparr>iindex := iindex it + 1\<rparr>
      in if iindex it \<ge> int (htsize (get_ht d (itable it))) \<and> \<not> (dictIsRehashing d \<and> itable it = 0)
         then Some (it, d, False)
         else let it = (if iindex it \<ge> int (htsize (get_ht d (itable it)))
                        then it\<lparr>itable := itable it + 1, iindex := 0\<rparr> else it)
              in do {
                chain \<leftarrow> bucket (get_ht d (itable it)) (nat (iindex it));
                Some (it\<lparr>ientry := chain_ref (itable it) (nat (iindex it)) 0 chain\<rparr>, d, True) })"

partial_function (option) dictNext ::
    "u64 \<times> u64 \<Rightarrow> dictIterator \<times> ('k, 'v) dict
     \<Rightarrow> ((dictIterator \<times> ('k, 'v) dict) \<times> entry_ref option) option" where
  "dictNext a s = do {
     (it, d, go) \<leftarrow> (if ientry (fst s) = None then iter_bucket a s
                    else Some ((fst s)\<lparr>ientry := nextEntry (fst s)\<rparr>, snd s, True));
     (if \<not> go then Some ((it, d), None)
      else case ientry it of
        None \<Rightarrow> dictNext a (it, d)
      | Some (t, i, p) \<Rightarrow> do {
          chain \<leftarrow> bucket (get_ht d t) i;
          Some ((it\<lparr>nextEntry := chain_ref t i (Suc p) chain\<rparr>, d), Some (t, i, p)) }) }"

declare dictNext.simps [code]

definition dictReleaseIterator ::
    "u64 \<times> u64 \<Rightarrow> dictIterator \<times> ('k, 'v) dict \<Rightarrow> ('k, 'v) dict option" where
  "dictReleaseIterator a = (\<lambda>(it, d).
     if \<not> (iindex it = -1 \<and> itable it = 0)
     then if safe it then Some (d\<lparr>iterators := iterators d - 1\<rparr>)
          else if fingerprint it = dictFingerprint a d then Some d else None
     else Some d)"

text \<open>\<open>while((de = dictNext(di)) != NULL) \<dots>\<close>: the entries seen.\<close>

partial_function (option) iterate ::
    "u64 \<times> u64 \<Rightarrow> dictIterator \<times> ('k, 'v) dict
     \<Rightarrow> (('k, 'v) dictEntry list \<times> dictIterator \<times> ('k, 'v) dict) option" where
  "iterate a s = do {
     (s, de) \<leftarrow> dictNext a s;
     (case de of
        None \<Rightarrow> Some ([], s)
      | Some r \<Rightarrow> do {
          e \<leftarrow> entry_at r (snd s);
          (es, s) \<leftarrow> iterate a s;
          Some (e # es, s) }) }"

declare iterate.simps [code]

section \<open>Random keys\<close>

text \<open>
  \<open>random()\<close> is a stream of answers \<open>r\<close>, read from position \<open>k\<close>. \<open>h\<close> is an \<open>unsigned int\<close>.
\<close>

definition random_bucket :: "('k, 'v) dict \<Rightarrow> nat \<Rightarrow> (nat \<times> nat \<times> ('k, 'v) dictEntry list) option" where
  "random_bucket d x =
     (if dictIsRehashing d then do {
        let h = x mod (htsize (ht0 d) + htsize (ht1 d)) mod 2 ^ 32;
        (if h \<ge> htsize (ht0 d)
         then do { c \<leftarrow> bucket (ht1 d) (h - htsize (ht0 d)); Some (1, h - htsize (ht0 d), c) }
         else do { c \<leftarrow> bucket (ht0 d) h; Some (0, h, c) }) }
      else do {
        let h = (x AND sizemask (ht0 d)) mod 2 ^ 32;
        c \<leftarrow> bucket (ht0 d) h;
        Some (0, h, c) })"

partial_function (option) random_nonempty ::
    "(nat \<Rightarrow> nat) \<Rightarrow> ('k, 'v) dict \<Rightarrow> nat \<Rightarrow> (nat \<times> nat \<times> ('k, 'v) dictEntry list \<times> nat) option" where
  "random_nonempty r d k = do {
     (t, i, c) \<leftarrow> random_bucket d (r k);
     (if c = [] then random_nonempty r d (k + 1) else Some (t, i, c, k + 1)) }"

declare random_nonempty.simps [code]

definition dictGetRandomKey ::
    "('k, 'v) dictType \<Rightarrow> (nat \<Rightarrow> nat) \<Rightarrow> ('k, 'v) dict \<Rightarrow> (('k, 'v) dict \<times> entry_ref option) option" where
  "dictGetRandomKey ty r d =
     (if dictSize d = 0 then Some (d, None)
      else do {
        d \<leftarrow> rehash_if_needed ty d;
        (t, i, c, k) \<leftarrow> random_nonempty r d 0;
        Some (d, Some (t, i, r k mod length c)) })"

section \<open>The iterators\<close>

text \<open>The iterator that takes bucket \<open>i\<close> of table \<open>t\<close> next, and the one at an entry.\<close>

definition iter_at :: "nat \<Rightarrow> nat \<Rightarrow> bool \<Rightarrow> u64 \<Rightarrow> dictIterator" where
  "iter_at t i s f = \<lparr>itable = t, iindex = int i - 1, safe = s, ientry = None, nextEntry = None,
                      fingerprint = f\<rparr>"

definition iter_in :: "nat \<Rightarrow> nat \<Rightarrow> nat \<Rightarrow> ('k, 'v) dictEntry list \<Rightarrow> bool \<Rightarrow> u64 \<Rightarrow> dictIterator" where
  "iter_in t i p chain s f = \<lparr>itable = t, iindex = int i, safe = s, ientry = Some (t, i, p),
                              nextEntry = chain_ref t i (Suc p) chain, fingerprint = f\<rparr>"

lemma iterate_same_next: "dictNext a x = dictNext a y \<Longrightarrow> iterate a x = iterate a y"
  by (subst (1 2) iterate.simps) simp

lemma iterate_chain:
  assumes chain: "bucket (get_ht d t) i = Some chain"
    and rest: "iterate a (iter_at t (Suc i) s f, d) = Some (R, e)"
  shows "p < length chain \<Longrightarrow> iterate a (iter_in t i p chain s f, d) = Some (drop (Suc p) chain @ R, e)"
proof (induction "length chain - p" arbitrary: p)
  case 0
  then show ?case by simp
next
  case (Suc n)
  show ?case
  proof (cases "Suc p < length chain")
    case True
    then have "dictNext a (iter_in t i p chain s f, d) = Some ((iter_in t i (Suc p) chain s f, d), Some (t, i, Suc p))"
      using chain by (subst dictNext.simps) (simp add: iter_in_def chain_ref_def)
    moreover have "iterate a (iter_in t i (Suc p) chain s f, d) = Some (drop (Suc (Suc p)) chain @ R, e)"
      using Suc True by simp
    ultimately show ?thesis using chain True
      by (subst iterate.simps) (simp add: entry_at_def Cons_nth_drop_Suc [symmetric])
  next
    case False
    then have "dictNext a (iter_in t i p chain s f, d) = dictNext a (iter_at t (Suc i) s f, d)"
      by (subst dictNext.simps) (simp add: iter_in_def iter_at_def chain_ref_def)
    then show ?thesis using rest False iterate_same_next [of a "(iter_in t i p chain s f, d)"] by simp
  qed
qed

lemma iterate_bucket:
  assumes it0: "ientry it0 = None"
    and b: "iter_bucket a (it0, d0) =
      Some (\<lparr>itable = t, iindex = int i, safe = s, ientry = chain_ref t i 0 chain, nextEntry = None,
             fingerprint = f\<rparr>, d, True)"
    and chain: "bucket (get_ht d t) i = Some chain"
    and rest: "iterate a (iter_at t (Suc i) s f, d) = Some (R, e)"
  shows "iterate a (it0, d0) = Some (chain @ R, e)"
proof (cases "chain = []")
  case True
  then have "dictNext a (it0, d0) = dictNext a (iter_at t (Suc i) s f, d)"
    using it0 b by (subst dictNext.simps) (simp add: chain_ref_def iter_at_def)
  then show ?thesis using rest True iterate_same_next [of a "(it0, d0)"] by simp
next
  case False
  then have "dictNext a (it0, d0) = Some ((iter_in t i 0 chain s f, d), Some (t, i, 0))"
    using it0 b chain by (subst dictNext.simps) (simp add: chain_ref_def iter_in_def)
  then show ?thesis using iterate_chain [OF chain rest, of 0] chain False
    by (subst iterate.simps) (cases chain; simp add: entry_at_def)
qed

text \<open>From any bucket but the very first one.\<close>

lemma iterate_table:
  assumes t: "t = 0 \<or> t = 1" and h: "ht_ok ty (get_ht d t)"
    and last: "iterate a (iter_at t (htsize (get_ht d t)) s f, d) = Some (R, e)"
  shows "i \<le> htsize (get_ht d t) \<Longrightarrow> (t, i) \<noteq> (0, 0) \<Longrightarrow>
    iterate a (iter_at t i s f, d) = Some (concat (drop i (table (get_ht d t))) @ R, e)"
proof (induction "htsize (get_ht d t) - i" arbitrary: i)
  case 0
  then show ?case using last ht_okD(2) [OF h] by simp
next
  case (Suc n)
  note len = ht_okD(2) [OF h]
  let ?chain = "table (get_ht d t) ! i"
  have i: "i < htsize (get_ht d t)" using Suc(2) by simp
  then have c: "bucket (get_ht d t) i = Some ?chain" using len by (simp add: bucket_def)
  have "iterate a (iter_at t (Suc i) s f, d) = Some (concat (drop (Suc i) (table (get_ht d t))) @ R, e)"
    using Suc i by simp
  moreover have "iter_bucket a (iter_at t i s f, d) =
      Some (\<lparr>itable = t, iindex = int i, safe = s, ientry = chain_ref t i 0 ?chain, nextEntry = None,
             fingerprint = f\<rparr>, d, True)"
  proof -
    have "iter_start a (iter_at t i s f, d) = (iter_at t i s f, d)"
      using Suc.prems(2) by (auto simp: iter_start_def iter_at_def)
    then show ?thesis using c i by (simp add: iter_bucket_def) (simp add: iter_at_def)
  qed
  ultimately show ?case
    using iterate_bucket [of "iter_at t i s f" a d t i s ?chain f d] c i len
    by (simp add: iter_at_def Cons_nth_drop_Suc [symmetric])
qed

lemma iterate_end:
  assumes "\<not> (dictIsRehashing d \<and> t = 0)" "0 < htsize (get_ht d t) \<or> t = 1"
  shows "iterate a (iter_at t (htsize (get_ht d t)) s f, d) = Some ([], iter_at t (Suc (htsize (get_ht d t))) s f, d)"
proof -
  have "iter_bucket a (iter_at t (htsize (get_ht d t)) s f, d) = Some (iter_at t (Suc (htsize (get_ht d t))) s f, d, False)"
  proof -
    have "iter_start a (iter_at t (htsize (get_ht d t)) s f, d) = (iter_at t (htsize (get_ht d t)) s f, d)"
      using assms(2) by (auto simp: iter_start_def iter_at_def)
    then show ?thesis using assms(1) by (simp add: iter_bucket_def) (simp add: iter_at_def)
  qed
  then have "dictNext a (iter_at t (htsize (get_ht d t)) s f, d) = Some ((iter_at t (Suc (htsize (get_ht d t))) s f, d), None)"
    by (subst dictNext.simps) (simp add: iter_at_def)
  then show ?thesis by (subst iterate.simps) simp
qed

text \<open>A started iterator, before its second bucket.\<close>

lemma iterate_started:
  assumes ok: "dict_ok ty d" and h: "ht_ok ty (ht0 d)"
  shows "\<exists>it. iterate a (iter_at 0 1 s f, d) = Some (concat (drop 1 (table (ht0 d))) @ concat (table (ht1 d)), it, d) \<and>
    safe it = s \<and> fingerprint it = f \<and> \<not> (iindex it = -1 \<and> itable it = 0)"
proof (cases "dictIsRehashing d")
  case False
  then have r: "ht1 d = u_dictReset" using ok by (auto simp: dict_ok_def dictIsRehashing_def)
  have "iterate a (iter_at 0 (htsize (get_ht d 0)) s f, d) = Some ([], iter_at 0 (Suc (htsize (get_ht d 0))) s f, d)"
    using iterate_end [of d 0 a s f] False ht_okD(1) [OF h] by (simp add: get_ht_def)
  from iterate_table [OF _ _ this, of ty 1] show ?thesis
    using h ht_okD(1) [OF h] r by (simp add: get_ht_def u_dictReset_def iter_at_def)
next
  case True
  then have h1: "ht_ok ty (ht1 d)" using ok by (auto simp: dict_ok_def dictIsRehashing_def)
  have "iterate a (iter_at 1 (htsize (get_ht d 1)) s f, d) = Some ([], iter_at 1 (Suc (htsize (get_ht d 1))) s f, d)"
    using iterate_end [of d 1 a s f] by simp
  from iterate_table [OF _ _ this, of ty 0]
  have "iterate a (iter_at 1 0 s f, d) = Some (concat (table (ht1 d)), iter_at 1 (Suc (htsize (ht1 d))) s f, d)"
    using h1 by (simp add: get_ht_def)
  moreover have "dictNext a (iter_at 0 (htsize (get_ht d 0)) s f, d) = dictNext a (iter_at 1 0 s f, d)"
    using True ht_okD(1) [OF h] ht_okD(1) [OF h1]
    by (subst (1 2) dictNext.simps) (simp add: iter_bucket_def iter_start_def iter_at_def get_ht_def)
  ultimately have "iterate a (iter_at 0 (htsize (get_ht d 0)) s f, d) =
      Some (concat (table (ht1 d)), iter_at 1 (Suc (htsize (ht1 d))) s f, d)"
    by (simp add: iterate_same_next [of a "(iter_at 0 (htsize (get_ht d 0)) s f, d)"])
  from iterate_table [OF _ _ this, of ty 1] show ?thesis
    using h ht_okD(1) [OF h] by (simp add: get_ht_def iter_at_def)
qed

text \<open>
  C31: Walking over a dictionary in order with an iterator, safe or not, visits every entry once,
  those of the old table before those of the new one, and releasing the iterator gives back the
  dictionary as it was: the count of iterators is as before, and the fingerprint of an unsafe
  iterator matches.
\<close>

theorem iterate_visits_entries:
  assumes ok: "dict_ok ty d" and it: "it = dictGetIterator \<or> it = dictGetSafeIterator"
  shows "\<exists>s. iterate a (it, d) = Some (entries d, s) \<and> dictReleaseIterator a s = Some d"
proof -
  let ?d = "if safe it then d\<lparr>iterators := iterators d + 1\<rparr> else d"
  let ?f = "if safe it then 0 else dictFingerprint a d"
  have fp: "dictFingerprint a ?d = dictFingerprint a d" by (cases a) (simp add: dictFingerprint_def)
  have same: "ht0 ?d = ht0 d" "ht1 ?d = ht1 d" by simp_all
  have it0: "it = iter_at 0 0 (safe it) 0" using it
    by (auto simp: iter_at_def dictGetIterator_def dictGetSafeIterator_def)
  have rel: "dictReleaseIterator a (it', ?d) = Some d"
    if "safe it' = safe it" "fingerprint it' = ?f" "\<not> (iindex it' = -1 \<and> itable it' = 0)" for it'
    using that by (cases a) (auto simp: dictReleaseIterator_def dictFingerprint_def)
  show ?thesis
  proof (cases "ht0 d = u_dictReset")
    case True
    then have r: "ht1 d = u_dictReset" "\<not> dictIsRehashing d"
      using ok ht_okD(1) [of ty "ht0 d"]
      by (auto simp: dict_ok_def dictIsRehashing_def u_dictReset_def split: if_splits)
    have "iter_bucket a (it, d) = Some (iter_at 0 1 (safe it) ?f, ?d, False)"
      by (subst it0) (use True r in \<open>auto simp: iter_bucket_def iter_start_def iter_at_def get_ht_def u_dictReset_def dictIsRehashing_def\<close>)
    then have "iterate a (it, d) = Some ([], iter_at 0 1 (safe it) ?f, ?d)"
      using it by (subst iterate.simps, subst dictNext.simps) (auto simp: dictGetIterator_def dictGetSafeIterator_def)
    then show ?thesis using True r rel [of "iter_at 0 1 (safe it) ?f"]
      by (simp add: entries_def u_dictReset_def iter_at_def)
  next
    case False
    then have h: "ht_ok ty (ht0 d)" using ok by (auto simp: dict_ok_def split: if_splits)
    note len = ht_okD(1,2) [OF h]
    have "dict_ok ty (d\<lparr>iterators := n\<rparr>) = dict_ok ty d" for n
      by (simp add: dict_ok_def entries_def cong: if_cong)
    then have ok': "dict_ok ty ?d" using ok by simp
    obtain e where e: "iterate a (iter_at 0 1 (safe it) ?f, ?d) =
        Some (concat (drop 1 (table (ht0 d))) @ concat (table (ht1 d)), e, ?d)"
      "safe e = safe it" "fingerprint e = ?f" "\<not> (iindex e = -1 \<and> itable e = 0)"
      using iterate_started [OF ok', of a "safe it" ?f, unfolded same, OF h] by (elim exE conjE)
    have "iter_bucket a (it, d) = Some (\<lparr>itable = 0, iindex = int 0, safe = safe it,
        ientry = chain_ref 0 0 0 (table (ht0 d) ! 0), nextEntry = None, fingerprint = ?f\<rparr>, ?d, True)"
      by (subst it0) (use len in \<open>auto simp: iter_bucket_def iter_start_def iter_at_def get_ht_def bucket_def\<close>)
    then have "iterate a (it, d) = Some (table (ht0 d) ! 0 @ concat (drop 1 (table (ht0 d))) @ concat (table (ht1 d)), e, ?d)"
      by (rule iterate_bucket [rotated]) (use len e(1) it in \<open>auto simp: bucket_def get_ht_def dictGetIterator_def dictGetSafeIterator_def\<close>)
    moreover have "table (ht0 d) ! 0 @ concat (drop 1 (table (ht0 d))) @ concat (table (ht1 d)) = entries d"
      using len by (cases "table (ht0 d)") (auto simp: entries_def)
    ultimately show ?thesis using rel [OF e(2-4)] by auto
  qed
qed

lemma iterate_visits_entries_witness:
  "\<exists>s. iterate (0x100, 0x200) (dictGetIterator, ex_dict (ex_table 4 [1, 2, 5]) (ex_table 8 []) 0)
      = Some (entries (ex_dict (ex_table 4 [1, 2, 5]) (ex_table 8 []) 0), s) \<and>
    dictReleaseIterator (0x100, 0x200) s = Some (ex_dict (ex_table 4 [1, 2, 5]) (ex_table 8 []) 0)"
proof (rule iterate_visits_entries [of ex_type])
  show "dict_ok ex_type (ex_dict (ex_table 4 [1, 2, 5]) (ex_table 8 []) 0)"
    by (rule ex_dict_ok [where es = "[(1, 1), (5, 5), (2, 2)]"], rule ex_tables_ok, rule disjI2,
      simp add: ex_tables_ok, code_simp, simp)
qed simp

section \<open>The random key\<close>

lemma random_nonempty_ok:
  assumes safe: "\<And>j. j < k + n \<Longrightarrow> \<exists>t i c. random_bucket d (r j) = Some (t, i, c)"
    and hit: "\<exists>t i c. random_bucket d (r (k + n)) = Some (t, i, c) \<and> c \<noteq> []"
  shows "\<exists>t i c k' j. random_nonempty r d k = Some (t, i, c, k') \<and> c \<noteq> [] \<and> random_bucket d (r j) = Some (t, i, c)"
  using assms
proof (induction n arbitrary: k)
  case 0
  then show ?case by (subst random_nonempty.simps) auto
next
  case (Suc n)
  obtain t i c where b: "random_bucket d (r k) = Some (t, i, c)" using Suc.prems(1) [of k] by auto
  show ?case
  proof (cases "c = []")
    case True
    have "\<exists>t i c k' j. random_nonempty r d (k + 1) = Some (t, i, c, k') \<and> c \<noteq> [] \<and> random_bucket d (r j) = Some (t, i, c)"
      by (rule Suc.IH) (use Suc.prems in auto)
    then show ?thesis using b True by (subst random_nonempty.simps) simp
  next
    case False
    then show ?thesis using b by (subst random_nonempty.simps) auto
  qed
qed

text \<open>
  \<open>random()\<close> answers numbers below \<open>2 ^ 31\<close>; each of them comes up at some time.
\<close>

definition all_come :: "(nat \<Rightarrow> nat) \<Rightarrow> bool" where
  "all_come r \<longleftrightarrow> (\<forall>x < 2 ^ 31. \<exists>k. r k = x)"

lemma random_bucket_ok:
  assumes ok: "dict_ok ty d" and nz: "dictSize d \<noteq> 0" and sz: "dictSlots d \<le> 2 ^ 31"
  shows "\<exists>t i c. random_bucket d x = Some (t, i, c) \<and> bucket (get_ht d t) i = Some c"
    and "\<exists>x < 2 ^ 31. \<exists>t i c. random_bucket d x = Some (t, i, c) \<and> c \<noteq> []"
proof -
  let ?P = "\<lambda>x. \<exists>t i c. random_bucket d x = Some (t, i, c) \<and> bucket (get_ht d t) i = Some c"
  have "(\<forall>x. ?P x) \<and> (\<exists>x < 2 ^ 31. \<exists>t i c. random_bucket d x = Some (t, i, c) \<and> c \<noteq> [])"
  proof (cases "dictIsRehashing d")
    case True
    then have h: "ht_ok ty (ht0 d)" "ht_ok ty (ht1 d)" using ok by (auto simp: dict_ok_def dictIsRehashing_def)
    note len = ht_okD(1,2) [OF h(1)] ht_okD(1,2) [OF h(2)]
    let ?n = "htsize (ht0 d) + htsize (ht1 d)"
    have n: "0 < ?n" "?n \<le> 2 ^ 31" using len sz by (simp_all add: dictSlots_def)
    have m: "x mod ?n mod 4294967296 = x mod ?n" for x
    proof -
      have "x mod ?n < ?n" using n(1) by (rule mod_less_divisor)
      then show ?thesis using n(2) by simp
    qed
    have lt: "htsize (ht0 d) \<le> x mod ?n \<Longrightarrow> x mod ?n - htsize (ht0 d) < htsize (ht1 d)" for x
      using mod_less_divisor [OF n(1), of x] by linarith
    have eq: "random_bucket d x = (if x mod ?n \<ge> htsize (ht0 d)
        then Some (1, x mod ?n - htsize (ht0 d), table (ht1 d) ! (x mod ?n - htsize (ht0 d)))
        else Some (0, x mod ?n, table (ht0 d) ! (x mod ?n)))" for x
      using True len lt by (auto simp: random_bucket_def m bucket_def Let_def)
    have "?P x" for x
      using lt len by (auto simp: eq bucket_def get_ht_def)
    moreover have "\<exists>x < 2 ^ 31. \<exists>t i c. random_bucket d x = Some (t, i, c) \<and> c \<noteq> []"
    proof -
      have "concat (table (ht0 d)) \<noteq> [] \<or> concat (table (ht1 d)) \<noteq> []"
        using nz h by (auto simp: dictSize_def ht_ok_def simp del: concat_eq_Nil_conv)
      then consider i where "i < htsize (ht0 d)" "table (ht0 d) ! i \<noteq> []" |
          i where "i < htsize (ht1 d)" "table (ht1 d) ! i \<noteq> []"
        using len by (auto simp: in_set_conv_nth)
      then show ?thesis
      proof cases
        case (1 i)
        then show ?thesis using n by (intro exI [of _ i]) (simp add: eq)
      next
        case (2 i)
        then show ?thesis using n by (intro exI [of _ "htsize (ht0 d) + i"]) (simp add: eq)
      qed
    qed
    ultimately show ?thesis by blast
  next
    case False
    then have "ht1 d = u_dictReset" "ht0 d = u_dictReset \<or> ht_ok ty (ht0 d)"
      using ok by (auto simp: dict_ok_def dictIsRehashing_def)
    with nz have h: "ht_ok ty (ht0 d)" and r: "ht1 d = u_dictReset"
      by (auto simp: dictSize_def u_dictReset_def)
    note len = ht_okD(1,2) [OF h]
    have n: "htsize (ht0 d) \<le> 2 ^ 31" using sz by (simp add: dictSlots_def)
    have m: "x mod htsize (ht0 d) mod 4294967296 = x mod htsize (ht0 d)" for x
    proof -
      have "x mod htsize (ht0 d) < htsize (ht0 d)" using len(1) by (rule mod_less_divisor)
      then show ?thesis using n by simp
    qed
    have eq: "random_bucket d x = Some (0, x mod htsize (ht0 d), table (ht0 d) ! (x mod htsize (ht0 d)))" for x
      using False len by (simp add: random_bucket_def ht_okD(3) [OF h] m bucket_def Let_def)
    have "?P x" for x using len by (simp add: eq bucket_def get_ht_def)
    moreover have "\<exists>x < 2 ^ 31. \<exists>t i c. random_bucket d x = Some (t, i, c) \<and> c \<noteq> []"
    proof -
      have "concat (table (ht0 d)) \<noteq> []"
        using nz h r by (auto simp: dictSize_def ht_ok_def u_dictReset_def simp del: concat_eq_Nil_conv)
      then obtain i where "i < htsize (ht0 d)" "table (ht0 d) ! i \<noteq> []" using len by (auto simp: in_set_conv_nth)
      then show ?thesis using n by (intro exI [of _ i]) (simp add: eq)
    qed
    ultimately show ?thesis by blast
  qed
  then show "?P x" "\<exists>x < 2 ^ 31. \<exists>t i c. random_bucket d x = Some (t, i, c) \<and> c \<noteq> []" by blast+
qed

lemma dictGetRandomKey_ok:
  assumes ok: "dict_ok ty d" and nz: "dictSize d \<noteq> 0" and r: "all_come r"
    and sz: "\<And>d'. rehash_if_needed ty d = Some d' \<Longrightarrow> dictSlots d' \<le> 2 ^ 31"
  shows "\<exists>d' ref e. dictGetRandomKey ty r d = Some (d', Some ref) \<and> dict_ok ty d' \<and> same_content d d' \<and>
    entry_at ref d' = Some e"
proof -
  obtain d' where d': "rehash_if_needed ty d = Some d'" "dict_ok ty d'" "same_content d d'"
    using rehash_if_needed_ok [OF ok] by blast
  have nz': "dictSize d' \<noteq> 0" using same_content_size [OF d'(3) ok d'(2)] nz by simp
  note b = random_bucket_ok [OF d'(2) nz' sz [OF d'(1)]]
  obtain x where "x < 2 ^ 31" and x: "\<exists>t i c. random_bucket d' x = Some (t, i, c) \<and> c \<noteq> []" using b(2) by blast
  then obtain n where n: "r n = x" using r by (auto simp: all_come_def)
  have "\<exists>t i c k' j. random_nonempty r d' 0 = Some (t, i, c, k') \<and> c \<noteq> [] \<and> random_bucket d' (r j) = Some (t, i, c)"
  proof (rule random_nonempty_ok [where n = n])
    show "\<exists>t i c. random_bucket d' (r j) = Some (t, i, c)" for j using b(1) [of "r j"] by blast
    show "\<exists>t i c. random_bucket d' (r (0 + n)) = Some (t, i, c) \<and> c \<noteq> []" using x n by simp
  qed
  then obtain t i c k' j where k: "random_nonempty r d' 0 = Some (t, i, c, k')" "c \<noteq> []"
    "random_bucket d' (r j) = Some (t, i, c)" by blast
  then have "bucket (get_ht d' t) i = Some c" using b(1) [of "r j"] by auto
  then have "entry_at (t, i, r k' mod length c) d' = Some (c ! (r k' mod length c))"
    using k(2) by (simp add: entry_at_def)
  moreover have "dictGetRandomKey ty r d = Some (d', Some (t, i, r k' mod length c))"
    using nz d'(1) k(1) by (simp add: dictGetRandomKey_def)
  ultimately show ?thesis using d' by blast
qed

end
