(* ===== verification/Ziplist.thy ===== *)
theory Ziplist
  imports Util
begin

text \<open>
  \<open>ziplist.c\<close>: a list of strings and integers in one block of bytes. A ziplist is its block;
  a pointer into it is an offset. The macros \<open>intrevNNifbe\<close> and \<open>memrevNNifbe\<close> make every
  field little endian on every host (\<open>Intset\<close> has the lemmas), so fields are read and
  written little endian. \<open>None\<close> is an access outside the block or a failed \<open>assert\<close>; the
  bytes \<open>zrealloc\<close> adds come from \<open>junk\<close>.
\<close>

section \<open>Layout\<close>

type_synonym ziplist = "byte list"

definition ZIP_END :: byte where "ZIP_END = 255"
definition ZIP_BIGLEN :: nat where "ZIP_BIGLEN = 254"
definition ZIP_STR_MASK :: byte where "ZIP_STR_MASK = 0xc0"
definition ZIP_STR_06B :: byte where "ZIP_STR_06B = 0"
definition ZIP_STR_14B :: byte where "ZIP_STR_14B = 0x40"
definition ZIP_STR_32B :: byte where "ZIP_STR_32B = 0x80"
definition ZIP_INT_16B :: byte where "ZIP_INT_16B = 0xc0"
definition ZIP_INT_32B :: byte where "ZIP_INT_32B = 0xd0"
definition ZIP_INT_64B :: byte where "ZIP_INT_64B = 0xe0"
definition ZIP_INT_24B :: byte where "ZIP_INT_24B = 0xf0"
definition ZIP_INT_8B :: byte where "ZIP_INT_8B = 0xfe"
definition ZIP_INT_IMM_MASK :: byte where "ZIP_INT_IMM_MASK = 0x0f"
definition ZIP_INT_IMM_MIN :: byte where "ZIP_INT_IMM_MIN = 0xf1"
definition ZIP_INT_IMM_MAX :: byte where "ZIP_INT_IMM_MAX = 0xfd"

lemmas zip_consts = ZIP_END_def ZIP_BIGLEN_def ZIP_STR_MASK_def ZIP_STR_06B_def ZIP_STR_14B_def
  ZIP_STR_32B_def ZIP_INT_16B_def ZIP_INT_32B_def ZIP_INT_64B_def ZIP_INT_24B_def ZIP_INT_8B_def
  ZIP_INT_IMM_MASK_def ZIP_INT_IMM_MIN_def ZIP_INT_IMM_MAX_def

definition UINT16_MAX :: nat where "UINT16_MAX = 65535"
definition ZIPLIST_HEADER_SIZE :: nat where "ZIPLIST_HEADER_SIZE = 10"

definition ZIP_IS_STR :: "byte \<Rightarrow> bool" where
  "ZIP_IS_STR enc \<longleftrightarrow> enc AND ZIP_STR_MASK < ZIP_STR_MASK"

definition ZIPLIST_BYTES :: "ziplist \<Rightarrow> nat option" where
  "ZIPLIST_BYTES zl = get_uint 4 0 zl"

definition ZIPLIST_TAIL_OFFSET :: "ziplist \<Rightarrow> nat option" where
  "ZIPLIST_TAIL_OFFSET zl = get_uint 4 4 zl"

definition ZIPLIST_LENGTH :: "ziplist \<Rightarrow> nat option" where
  "ZIPLIST_LENGTH zl = get_uint 2 8 zl"

definition set_TAIL_OFFSET :: "int \<Rightarrow> ziplist \<Rightarrow> ziplist option" where
  "set_TAIL_OFFSET v zl = put_uint 4 4 (nat (v mod 2 ^ 32)) zl"

definition ZIPLIST_INCR_LENGTH :: "int \<Rightarrow> ziplist \<Rightarrow> ziplist option" where
  "ZIPLIST_INCR_LENGTH incr zl = do {
     n \<leftarrow> ZIPLIST_LENGTH zl;
     (if n < UINT16_MAX then put_uint 2 8 (nat ((int n + incr) mod 2 ^ 16)) zl else Some zl) }"

section \<open>Entries\<close>

record zlentry =
  prevrawlensize :: nat
  prevrawlen :: nat
  lensize :: nat
  elen :: nat
  headersize :: nat
  eencoding :: byte

definition ZIP_ENTRY_ENCODING :: "nat \<Rightarrow> ziplist \<Rightarrow> byte option" where
  "ZIP_ENTRY_ENCODING p zl = do {
     encoding \<leftarrow> byte_at p zl;
     Some (if encoding < ZIP_STR_MASK then encoding AND ZIP_STR_MASK else encoding) }"

definition zipIntSize :: "byte \<Rightarrow> nat" where
  "zipIntSize encoding =
     (if encoding = ZIP_INT_8B then 1 else if encoding = ZIP_INT_16B then 2
      else if encoding = ZIP_INT_24B then 3 else if encoding = ZIP_INT_32B then 4
      else if encoding = ZIP_INT_64B then 8 else 0)"

text \<open>The bytes of the length field; what the call with a null pointer returns is their number.\<close>

definition zipEncodeLength :: "byte \<Rightarrow> nat \<Rightarrow> byte list" where
  "zipEncodeLength encoding rawlen =
     (if ZIP_IS_STR encoding then
        if rawlen \<le> 0x3f then [ZIP_STR_06B OR word_of_nat rawlen]
        else if rawlen \<le> 0x3fff
        then [ZIP_STR_14B OR word_of_nat (drop_bit 8 rawlen AND 0x3f), word_of_nat (rawlen AND 0xff)]
        else [ZIP_STR_32B, word_of_nat (drop_bit 24 rawlen AND 0xff), word_of_nat (drop_bit 16 rawlen AND 0xff),
              word_of_nat (drop_bit 8 rawlen AND 0xff), word_of_nat (rawlen AND 0xff)]
      else [encoding])"

definition ZIP_DECODE_LENGTH :: "nat \<Rightarrow> ziplist \<Rightarrow> (byte \<times> nat \<times> nat) option" where
  "ZIP_DECODE_LENGTH p zl = do {
     encoding \<leftarrow> ZIP_ENTRY_ENCODING p zl;
     (if encoding < ZIP_STR_MASK then
        if encoding = ZIP_STR_06B then do {
          b0 \<leftarrow> byte_at p zl;
          Some (encoding, 1, unat b0 AND 0x3f) }
        else if encoding = ZIP_STR_14B then do {
          b0 \<leftarrow> byte_at p zl; b1 \<leftarrow> byte_at (p + 1) zl;
          Some (encoding, 2, push_bit 8 (unat b0 AND 0x3f) OR unat b1) }
        else if encoding = ZIP_STR_32B then do {
          b1 \<leftarrow> byte_at (p + 1) zl; b2 \<leftarrow> byte_at (p + 2) zl;
          b3 \<leftarrow> byte_at (p + 3) zl; b4 \<leftarrow> byte_at (p + 4) zl;
          Some (encoding, 5, push_bit 24 (unat b1) OR push_bit 16 (unat b2) OR push_bit 8 (unat b3) OR unat b4) }
        else None
      else Some (encoding, 1, zipIntSize encoding)) }"

definition zipPrevEncodeLength :: "nat \<Rightarrow> byte list" where
  "zipPrevEncodeLength len =
     (if len < ZIP_BIGLEN then [word_of_nat len] else word_of_nat ZIP_BIGLEN # le_bytes 4 len)"

definition zipPrevEncodeLengthForceLarge :: "nat \<Rightarrow> byte list" where
  "zipPrevEncodeLengthForceLarge len = word_of_nat ZIP_BIGLEN # le_bytes 4 len"

definition ZIP_DECODE_PREVLENSIZE :: "nat \<Rightarrow> ziplist \<Rightarrow> nat option" where
  "ZIP_DECODE_PREVLENSIZE p zl = do {
     b \<leftarrow> byte_at p zl;
     Some (if unat b < ZIP_BIGLEN then 1 else 5) }"

definition ZIP_DECODE_PREVLEN :: "nat \<Rightarrow> ziplist \<Rightarrow> (nat \<times> nat) option" where
  "ZIP_DECODE_PREVLEN p zl = do {
     prevlensize \<leftarrow> ZIP_DECODE_PREVLENSIZE p zl;
     prevlen \<leftarrow> (if prevlensize = 1 then map_option unat (byte_at p zl) else get_uint 4 (p + 1) zl);
     Some (prevlensize, prevlen) }"

definition zipPrevLenByteDiff :: "nat \<Rightarrow> nat \<Rightarrow> ziplist \<Rightarrow> int option" where
  "zipPrevLenByteDiff p len zl = do {
     prevlensize \<leftarrow> ZIP_DECODE_PREVLENSIZE p zl;
     Some (int (length (zipPrevEncodeLength len)) - int prevlensize) }"

definition zipRawEntryLength :: "nat \<Rightarrow> ziplist \<Rightarrow> nat option" where
  "zipRawEntryLength p zl = do {
     prevlensize \<leftarrow> ZIP_DECODE_PREVLENSIZE p zl;
     (encoding, lensize, len) \<leftarrow> ZIP_DECODE_LENGTH (p + prevlensize) zl;
     Some (u32_of (prevlensize + lensize + len)) }"

definition INT24_MAX :: int where "INT24_MAX = 0x7fffff"
definition INT24_MIN :: int where "INT24_MIN = - INT24_MAX - 1"

definition zipTryEncoding :: "byte list \<Rightarrow> (int \<times> byte) option" where
  "zipTryEncoding entry =
     (if length entry \<ge> 32 \<or> length entry = 0 then None
      else case string2ll entry of
        Some v \<Rightarrow> Some (v,
          if v \<ge> 0 \<and> v \<le> 12 then ZIP_INT_IMM_MIN + word_of_int v
          else if v \<ge> int_min 1 \<and> v \<le> int_max 1 then ZIP_INT_8B
          else if v \<ge> int_min 2 \<and> v \<le> int_max 2 then ZIP_INT_16B
          else if v \<ge> INT24_MIN \<and> v \<le> INT24_MAX then ZIP_INT_24B
          else if v \<ge> int_min 4 \<and> v \<le> int_max 4 then ZIP_INT_32B
          else ZIP_INT_64B)
      | None \<Rightarrow> None)"

text \<open>The bytes stored; \<open>None\<close> is the assertion.\<close>

definition zipSaveInteger :: "int \<Rightarrow> byte \<Rightarrow> byte list option" where
  "zipSaveInteger v encoding =
     (if encoding = ZIP_INT_8B then Some (store_int 1 v)
      else if encoding = ZIP_INT_16B then Some (store_int 2 v)
      else if encoding = ZIP_INT_24B then Some (drop 1 (store_int 4 (push_bit 8 v)))
      else if encoding = ZIP_INT_32B then Some (store_int 4 v)
      else if encoding = ZIP_INT_64B then Some (store_int 8 v)
      else if encoding \<ge> ZIP_INT_IMM_MIN \<and> encoding \<le> ZIP_INT_IMM_MAX then Some []
      else None)"

definition zipLoadInteger :: "nat \<Rightarrow> byte \<Rightarrow> ziplist \<Rightarrow> int option" where
  "zipLoadInteger p encoding zl =
     (if encoding = ZIP_INT_8B then map_option load_int (mem_read p 1 zl)
      else if encoding = ZIP_INT_16B then map_option load_int (mem_read p 2 zl)
      else if encoding = ZIP_INT_32B then map_option load_int (mem_read p 4 zl)
      else if encoding = ZIP_INT_24B
      then map_option (\<lambda>bs. drop_bit 8 (load_int (0 # bs))) (mem_read p 3 zl)
      else if encoding = ZIP_INT_64B then map_option load_int (mem_read p 8 zl)
      else if encoding \<ge> ZIP_INT_IMM_MIN \<and> encoding \<le> ZIP_INT_IMM_MAX
      then Some (int (unat (encoding AND ZIP_INT_IMM_MASK)) - 1)
      else None)"

definition zipEntry :: "nat \<Rightarrow> ziplist \<Rightarrow> zlentry option" where
  "zipEntry p zl = do {
     (ps, pl) \<leftarrow> ZIP_DECODE_PREVLEN p zl;
     (enc, ls, len) \<leftarrow> ZIP_DECODE_LENGTH (p + ps) zl;
     Some \<lparr>prevrawlensize = ps, prevrawlen = pl, lensize = ls, elen = len, headersize = ps + ls,
           eencoding = enc\<rparr> }"

section \<open>Creation and resizing\<close>

definition ziplistNew :: "(nat \<Rightarrow> byte) \<Rightarrow> ziplist option" where
  "ziplistNew junk = do {
     let bytes = ZIPLIST_HEADER_SIZE + 1;
     zl \<leftarrow> put_uint 4 0 bytes (map junk [0..<bytes]);
     zl \<leftarrow> put_uint 4 4 ZIPLIST_HEADER_SIZE zl;
     zl \<leftarrow> put_uint 2 8 0 zl;
     mem_write (bytes - 1) [ZIP_END] zl }"

definition ziplistResize :: "(nat \<Rightarrow> byte) \<Rightarrow> nat \<Rightarrow> ziplist \<Rightarrow> ziplist option" where
  "ziplistResize junk len zl = do {
     zl \<leftarrow> put_uint 4 0 len (mem_realloc junk len zl);
     (if len = 0 then None else mem_write (len - 1) [ZIP_END] zl) }"

section \<open>Cascading updates\<close>

text \<open>The case that widens the \<open>prevlen\<close> field of the entry at \<open>np\<close>.\<close>

definition cascade_widen :: "(nat \<Rightarrow> byte) \<Rightarrow> nat \<Rightarrow> nat \<Rightarrow> nat \<Rightarrow> nat \<Rightarrow> ziplist \<Rightarrow> ziplist option" where
  "cascade_widen junk curlen np oldsize rawlen zl = do {
     let rawlensize = length (zipPrevEncodeLength rawlen);
     let extra = rawlensize - oldsize;
     zl \<leftarrow> ziplistResize junk (u32_of (curlen + extra)) zl;
     tail \<leftarrow> ZIPLIST_TAIL_OFFSET zl;
     zl \<leftarrow> (if tail \<noteq> np then set_TAIL_OFFSET (int tail + int extra) zl else Some zl);
     zl \<leftarrow> (if np + oldsize + 1 \<le> curlen
           then mem_move (np + rawlensize) (np + oldsize) (curlen - np - oldsize - 1) zl
           else None);
     mem_write np (zipPrevEncodeLength rawlen) zl }"

text \<open>The loop ends at the end of the list; that it does is part of \<open>cascade_loop_ok\<close>.\<close>

partial_function (option) cascade_loop :: "(nat \<Rightarrow> byte) \<Rightarrow> nat \<Rightarrow> nat \<Rightarrow> ziplist \<Rightarrow> ziplist option" where
  "cascade_loop junk curlen p zl = do {
     b \<leftarrow> byte_at p zl;
     if b = ZIP_END then Some zl else do {
       cur \<leftarrow> zipEntry p zl;
       let rawlen = u32_of (headersize cur + elen cur);
       let rawlensize = length (zipPrevEncodeLength rawlen);
       b \<leftarrow> byte_at (p + rawlen) zl;
       if b = ZIP_END then Some zl else do {
         nxt \<leftarrow> zipEntry (p + rawlen) zl;
         if prevrawlen nxt = rawlen then Some zl
         else if prevrawlensize nxt < rawlensize then do {
           zl \<leftarrow> cascade_widen junk curlen (p + rawlen) (prevrawlensize nxt) rawlen zl;
           cascade_loop junk (curlen + (rawlensize - prevrawlensize nxt)) (p + rawlen) zl }
         else if prevrawlensize nxt > rawlensize
         then mem_write (p + rawlen) (zipPrevEncodeLengthForceLarge rawlen) zl
         else mem_write (p + rawlen) (zipPrevEncodeLength rawlen) zl } } }"

definition u_ziplistCascadeUpdate :: "(nat \<Rightarrow> byte) \<Rightarrow> nat \<Rightarrow> ziplist \<Rightarrow> ziplist option" where
  "u_ziplistCascadeUpdate junk p zl = do {
     curlen \<leftarrow> ZIPLIST_BYTES zl;
     cascade_loop junk curlen p zl }"

section \<open>Deletion\<close>

text \<open>The pointer behind up to \<open>num\<close> entries, and how many there were.\<close>

fun skip_entries :: "nat \<Rightarrow> nat \<Rightarrow> ziplist \<Rightarrow> (nat \<times> nat) option" where
  "skip_entries 0 p zl = Some (p, 0)"
| "skip_entries (Suc num) p zl = do {
     b \<leftarrow> byte_at p zl;
     if b = ZIP_END then Some (p, 0) else do {
       len \<leftarrow> zipRawEntryLength p zl;
       (q, deleted) \<leftarrow> skip_entries num (p + len) zl;
       Some (q, Suc deleted) } }"

text \<open>The case in which an entry follows: its \<open>prevlen\<close>, the tail offset, the memory move.\<close>

definition delete_join :: "nat \<Rightarrow> nat \<Rightarrow> nat \<Rightarrow> nat \<Rightarrow> ziplist \<Rightarrow> (ziplist \<times> int) option" where
  "delete_join start p prevlen totlen zl = do {
     nextdiff \<leftarrow> zipPrevLenByteDiff p prevlen zl;
     let p = nat (int p - nextdiff);
     zl \<leftarrow> mem_write p (zipPrevEncodeLength prevlen) zl;
     t \<leftarrow> ZIPLIST_TAIL_OFFSET zl;
     zl \<leftarrow> set_TAIL_OFFSET (int t - int totlen) zl;
     tail \<leftarrow> zipEntry p zl;
     e \<leftarrow> byte_at (p + u32_of (headersize tail + elen tail)) zl;
     zl \<leftarrow> (if e \<noteq> ZIP_END
           then do { t \<leftarrow> ZIPLIST_TAIL_OFFSET zl; set_TAIL_OFFSET (int t + nextdiff) zl }
           else Some zl);
     bytes \<leftarrow> ZIPLIST_BYTES zl;
     zl \<leftarrow> (if p + 1 \<le> bytes then mem_move start p (bytes - p - 1) zl else None);
     Some (zl, nextdiff) }"

definition u_ziplistDelete :: "(nat \<Rightarrow> byte) \<Rightarrow> nat \<Rightarrow> nat \<Rightarrow> ziplist \<Rightarrow> ziplist option" where
  "u_ziplistDelete junk start num zl = do {
     first \<leftarrow> zipEntry start zl;
     (p, deleted) \<leftarrow> skip_entries num start zl;
     let totlen = u32_of (p - start);
     if totlen = 0 then Some zl else do {
       b \<leftarrow> byte_at p zl;
       (zl, nextdiff) \<leftarrow>
         (if b \<noteq> ZIP_END then delete_join start p (prevrawlen first) totlen zl
          else do {
            zl \<leftarrow> set_TAIL_OFFSET (int start - int (prevrawlen first)) zl;
            Some (zl, 0) });
       bytes \<leftarrow> ZIPLIST_BYTES zl;
       zl \<leftarrow> ziplistResize junk (nat ((int bytes - int totlen + nextdiff) mod 2 ^ 32)) zl;
       zl \<leftarrow> ZIPLIST_INCR_LENGTH (- int deleted) zl;
       (if nextdiff \<noteq> 0 then u_ziplistCascadeUpdate junk start zl else Some zl) } }"

section \<open>Insertion\<close>

text \<open>The encoding of a new entry: payload size, encoding byte and value.\<close>

definition new_encoding :: "byte list \<Rightarrow> nat \<times> byte \<times> int" where
  "new_encoding s = (case zipTryEncoding s of
     Some (v, enc) \<Rightarrow> (zipIntSize enc, enc, v) | None \<Rightarrow> (length s, 0, 123456789))"

text \<open>The length of the entry in front of the insertion point.\<close>

definition insert_prevlen :: "nat \<Rightarrow> byte \<Rightarrow> ziplist \<Rightarrow> nat option" where
  "insert_prevlen p b zl =
     (if b \<noteq> ZIP_END then map_option snd (ZIP_DECODE_PREVLEN p zl)
      else do {
        ptail \<leftarrow> ZIPLIST_TAIL_OFFSET zl;
        bt \<leftarrow> byte_at ptail zl;
        if bt \<noteq> ZIP_END then zipRawEntryLength ptail zl else Some 0 })"

text \<open>The memory move and the update of the next entry and of the tail offset.\<close>

definition insert_shift :: "nat \<Rightarrow> nat \<Rightarrow> nat \<Rightarrow> int \<Rightarrow> ziplist \<Rightarrow> ziplist option" where
  "insert_shift p curlen reqlen nextdiff zl = do {
     zl \<leftarrow> (if int p - nextdiff \<ge> 0 \<and> int curlen - int p - 1 + nextdiff \<ge> 0
           then mem_move (p + reqlen) (nat (int p - nextdiff)) (nat (int curlen - int p - 1 + nextdiff)) zl
           else None);
     zl \<leftarrow> mem_write (p + reqlen) (zipPrevEncodeLength (u32_of reqlen)) zl;
     t \<leftarrow> ZIPLIST_TAIL_OFFSET zl;
     zl \<leftarrow> set_TAIL_OFFSET (int t + int reqlen) zl;
     tail \<leftarrow> zipEntry (p + reqlen) zl;
     e \<leftarrow> byte_at (p + reqlen + headersize tail + elen tail) zl;
     (if e \<noteq> ZIP_END
      then do { t \<leftarrow> ZIPLIST_TAIL_OFFSET zl; set_TAIL_OFFSET (int t + nextdiff) zl }
      else Some zl) }"

text \<open>The entry itself and the count.\<close>

definition insert_write :: "nat \<Rightarrow> nat \<Rightarrow> byte \<Rightarrow> int \<Rightarrow> byte list \<Rightarrow> ziplist \<Rightarrow> ziplist option" where
  "insert_write p prevlen encoding v s zl = do {
     let pl = zipPrevEncodeLength prevlen;
     zl \<leftarrow> mem_write p pl zl;
     let len = zipEncodeLength encoding (length s);
     zl \<leftarrow> mem_write (p + length pl) len zl;
     payload \<leftarrow> (if ZIP_IS_STR encoding then Some s else zipSaveInteger v encoding);
     zl \<leftarrow> mem_write (p + length pl + length len) payload zl;
     ZIPLIST_INCR_LENGTH 1 zl }"

definition u_ziplistInsert :: "(nat \<Rightarrow> byte) \<Rightarrow> nat \<Rightarrow> byte list \<Rightarrow> ziplist \<Rightarrow> ziplist option" where
  "u_ziplistInsert junk p s zl = do {
     curlen \<leftarrow> ZIPLIST_BYTES zl;
     b \<leftarrow> byte_at p zl;
     prevlen \<leftarrow> insert_prevlen p b zl;
     let (paylen, encoding, v) = new_encoding s;
     let reqlen = paylen + length (zipPrevEncodeLength prevlen) + length (zipEncodeLength encoding (length s));
     nextdiff \<leftarrow> (if b \<noteq> ZIP_END then zipPrevLenByteDiff p (u32_of reqlen) zl else Some 0);
     zl \<leftarrow> ziplistResize junk (nat ((int curlen + int reqlen + nextdiff) mod 2 ^ 32)) zl;
     b \<leftarrow> byte_at p zl;
     zl \<leftarrow> (if b \<noteq> ZIP_END then insert_shift p curlen reqlen nextdiff zl
           else set_TAIL_OFFSET (int p) zl);
     zl \<leftarrow> (if nextdiff \<noteq> 0 then u_ziplistCascadeUpdate junk (p + reqlen) zl else Some zl);
     insert_write p prevlen encoding v s zl }"

definition ziplistInsert :: "(nat \<Rightarrow> byte) \<Rightarrow> nat \<Rightarrow> byte list \<Rightarrow> ziplist \<Rightarrow> ziplist option" where
  "ziplistInsert junk p s zl = u_ziplistInsert junk p s zl"

definition ZIPLIST_ENTRY_END :: "ziplist \<Rightarrow> nat option" where
  "ZIPLIST_ENTRY_END zl = do {
     bytes \<leftarrow> ZIPLIST_BYTES zl;
     if bytes = 0 then None else Some (bytes - 1) }"

definition ziplistPush :: "(nat \<Rightarrow> byte) \<Rightarrow> byte list \<Rightarrow> bool \<Rightarrow> ziplist \<Rightarrow> ziplist option" where
  "ziplistPush junk s at_head zl = do {
     p \<leftarrow> (if at_head then Some ZIPLIST_HEADER_SIZE else ZIPLIST_ENTRY_END zl);
     u_ziplistInsert junk p s zl }"

section \<open>Access\<close>

text \<open>Negative indices count from the tail. \<open>n\<close> is the index left, as an \<open>int\<close>.\<close>

partial_function (option) index_back :: "ziplist \<Rightarrow> nat \<Rightarrow> nat \<Rightarrow> int \<Rightarrow> (nat \<times> int) option" where
  "index_back zl p prevlen n =
     (if prevlen > 0 then
        if n \<noteq> 0 then
          if prevlen \<le> p then do {
            (ps, pl) \<leftarrow> ZIP_DECODE_PREVLEN (p - prevlen) zl;
            index_back zl (p - prevlen) pl (n - 1) }
          else None
        else Some (p, n - 1)
      else Some (p, n))"

partial_function (option) index_forward :: "ziplist \<Rightarrow> nat \<Rightarrow> int \<Rightarrow> (nat \<times> int) option" where
  "index_forward zl p n = do {
     b \<leftarrow> byte_at p zl;
     if b \<noteq> ZIP_END then
       if n \<noteq> 0 then do {
         len \<leftarrow> zipRawEntryLength p zl;
         index_forward zl (p + len) (n - 1) }
       else Some (p, n - 1)
     else Some (p, n) }"

text \<open>The outer \<open>option\<close> is the safety of the accesses, the inner one the null pointer.\<close>

definition ziplistIndex :: "int \<Rightarrow> ziplist \<Rightarrow> nat option option" where
  "ziplistIndex index zl = do {
     (p, n) \<leftarrow>
       (if index < 0 then do {
          p \<leftarrow> ZIPLIST_TAIL_OFFSET zl;
          b \<leftarrow> byte_at p zl;
          if b \<noteq> ZIP_END then do {
            (ps, prevlen) \<leftarrow> ZIP_DECODE_PREVLEN p zl;
            index_back zl p prevlen (- index - 1) }
          else Some (p, - index - 1) }
        else index_forward zl ZIPLIST_HEADER_SIZE index);
     b \<leftarrow> byte_at p zl;
     Some (if b = ZIP_END \<or> n > 0 then None else Some p) }"

definition ziplistNext :: "nat \<Rightarrow> ziplist \<Rightarrow> nat option option" where
  "ziplistNext p zl = do {
     b \<leftarrow> byte_at p zl;
     if b = ZIP_END then Some None else do {
       len \<leftarrow> zipRawEntryLength p zl;
       b \<leftarrow> byte_at (p + len) zl;
       Some (if b = ZIP_END then None else Some (p + len)) } }"

definition ziplistPrev :: "nat \<Rightarrow> ziplist \<Rightarrow> nat option option" where
  "ziplistPrev p zl = do {
     b \<leftarrow> byte_at p zl;
     if b = ZIP_END then do {
       p \<leftarrow> ZIPLIST_TAIL_OFFSET zl;
       b \<leftarrow> byte_at p zl;
       Some (if b = ZIP_END then None else Some p) }
     else if p = ZIPLIST_HEADER_SIZE then Some None
     else do {
       (ps, prevlen) \<leftarrow> ZIP_DECODE_PREVLEN p zl;
       if prevlen > 0 \<and> prevlen \<le> p then Some (Some (p - prevlen)) else None } }"

datatype zval = ZStr "byte list" | ZInt int

text \<open>Inner \<open>None\<close>: the result 0.\<close>

definition ziplistGet :: "nat option \<Rightarrow> ziplist \<Rightarrow> zval option option" where
  "ziplistGet pt zl = (case pt of None \<Rightarrow> Some None | Some p \<Rightarrow> do {
     b \<leftarrow> byte_at p zl;
     if b = ZIP_END then Some None else do {
       entry \<leftarrow> zipEntry p zl;
       if ZIP_IS_STR (eencoding entry)
       then map_option (\<lambda>s. Some (ZStr s)) (mem_read (p + headersize entry) (elen entry) zl)
       else map_option (\<lambda>v. Some (ZInt v)) (zipLoadInteger (p + headersize entry) (eencoding entry) zl) } })"

definition ziplistDelete :: "(nat \<Rightarrow> byte) \<Rightarrow> nat \<Rightarrow> ziplist \<Rightarrow> (ziplist \<times> nat) option" where
  "ziplistDelete junk p zl = do {
     zl \<leftarrow> u_ziplistDelete junk p 1 zl;
     Some (zl, p) }"

text \<open>The \<open>unsigned int\<close> index is passed on as an \<open>int\<close>.\<close>

definition ziplistDeleteRange :: "(nat \<Rightarrow> byte) \<Rightarrow> nat \<Rightarrow> nat \<Rightarrow> ziplist \<Rightarrow> ziplist option" where
  "ziplistDeleteRange junk index num zl = do {
     r \<leftarrow> ziplistIndex (s32 (int index)) zl;
     (case r of None \<Rightarrow> Some zl | Some p \<Rightarrow> u_ziplistDelete junk p num zl) }"

definition ziplistCompare :: "nat \<Rightarrow> byte list \<Rightarrow> ziplist \<Rightarrow> bool option" where
  "ziplistCompare p sstr zl = do {
     b \<leftarrow> byte_at p zl;
     if b = ZIP_END then Some False else do {
       entry \<leftarrow> zipEntry p zl;
       if ZIP_IS_STR (eencoding entry) then
         if elen entry = length sstr
         then map_option (\<lambda>t. t = sstr) (mem_read (p + headersize entry) (elen entry) zl)
         else Some False
       else case zipTryEncoding sstr of
         Some (sval, _) \<Rightarrow>
           map_option (\<lambda>z. z = sval) (zipLoadInteger (p + headersize entry) (eencoding entry) zl)
       | None \<Rightarrow> Some False } }"

text \<open>
  The variables \<open>vencoding\<close> and \<open>vll\<close> as one: not tried yet (the outer \<open>None\<close>), or the
  result of the attempt.
\<close>

definition find_matches ::
    "byte list \<Rightarrow> (int \<times> byte) option option \<Rightarrow> nat \<Rightarrow> byte \<Rightarrow> nat \<Rightarrow> ziplist
     \<Rightarrow> (bool \<times> (int \<times> byte) option option) option" where
  "find_matches vstr tried q encoding len zl =
     (if ZIP_IS_STR encoding then
        if len = length vstr
        then map_option (\<lambda>t. (t = vstr, tried)) (mem_read q len zl)
        else Some (False, tried)
      else
        let tr = (case tried of None \<Rightarrow> zipTryEncoding vstr | Some tr \<Rightarrow> tr)
        in case tr of
             None \<Rightarrow> Some (False, Some tr)
           | Some (vll, _) \<Rightarrow> map_option (\<lambda>ll. (ll = vll, Some tr)) (zipLoadInteger q encoding zl))"

partial_function (option) find_loop ::
    "byte list \<Rightarrow> nat \<Rightarrow> ziplist \<Rightarrow> nat \<Rightarrow> int \<Rightarrow> (int \<times> byte) option option \<Rightarrow> nat option option" where
  "find_loop vstr skip zl p skipcnt tried = do {
     b \<leftarrow> byte_at p zl;
     if b = ZIP_END then Some None else do {
       prevlensize \<leftarrow> ZIP_DECODE_PREVLENSIZE p zl;
       (encoding, lensize, len) \<leftarrow> ZIP_DECODE_LENGTH (p + prevlensize) zl;
       let q = p + prevlensize + lensize;
       if skipcnt = 0 then do {
         (hit, tried) \<leftarrow> find_matches vstr tried q encoding len zl;
         if hit then Some (Some p)
         else find_loop vstr skip zl (q + len) (s32 (int skip)) tried }
       else find_loop vstr skip zl (q + len) (skipcnt - 1) tried } }"

definition ziplistFind :: "nat \<Rightarrow> byte list \<Rightarrow> nat \<Rightarrow> ziplist \<Rightarrow> nat option option" where
  "ziplistFind p vstr skip zl = find_loop vstr skip zl p 0 None"

partial_function (option) count_entries :: "ziplist \<Rightarrow> nat \<Rightarrow> nat option" where
  "count_entries zl p = do {
     b \<leftarrow> byte_at p zl;
     if b = ZIP_END then Some 0 else do {
       len \<leftarrow> zipRawEntryLength p zl;
       n \<leftarrow> count_entries zl (p + len);
       Some (Suc n) } }"

definition ziplistLen :: "ziplist \<Rightarrow> (ziplist \<times> nat) option" where
  "ziplistLen zl = do {
     n \<leftarrow> ZIPLIST_LENGTH zl;
     if n < UINT16_MAX then Some (zl, n)
     else do {
       len \<leftarrow> count_entries zl ZIPLIST_HEADER_SIZE;
       zl \<leftarrow> (if len < UINT16_MAX then put_uint 2 8 len zl else Some zl);
       Some (zl, len) } }"

definition ziplistBlobLen :: "ziplist \<Rightarrow> nat option" where
  "ziplistBlobLen zl = ZIPLIST_BYTES zl"

end
