(* ===== verification/Ziplist_Correct.thy ===== *)
theory Ziplist_Correct
  imports Ziplist
begin

text \<open>
  The ziplist against the list of strings it holds. \<open>zl_rep zl es\<close>: the block \<open>zl\<close> has a
  correct header, chains the entries \<open>es\<close> (each a string with the width of its
  \<open>prevlen\<close> field) and ends with the end byte. A string that prints a 64-bit integer is
  stored as that integer. Shown: decoding of entries in place, the cascading update,
  insertion and deletion at any position, lookup by index and by value.
\<close>

section \<open>Bits and lengths\<close>

lemma push_or_add: "b < 2 ^ n \<Longrightarrow> push_bit n a OR b = push_bit n a + (b :: nat)"
proof -
  assume b: "b < 2 ^ n"
  then have "b = take_bit n b" by (simp add: take_bit_nat_eq_self)
  then have "\<not> (bit (push_bit n a) k \<and> bit b k)" for k
    by (metis bit_push_bit_iff_nat bit_take_bit_iff leD)
  then have "push_bit n a AND b = 0" by (simp add: bit_eq_iff bit_and_iff)
  then show ?thesis by (metis disjunctive_add_eq_or)
qed

lemma or_64: "x < 64 \<Longrightarrow> (64 :: nat) OR x = 64 + x"
  using push_or_add [of x 6 1] by simp

lemma and_63: "x AND 63 = x mod (64 :: nat)"
  using take_bit_eq_mask [of 6 x] by (simp add: take_bit_eq_mod mask_eq_exp_minus_1)

lemma and_255: "x AND 255 = x mod (256 :: nat)"
  using take_bit_eq_mask [of 8 x] by (simp add: take_bit_eq_mod mask_eq_exp_minus_1)

lemma unat_of_mod: "unat (word_of_nat x :: byte) = x mod 256"
  by simp

lemma push_add_less: "a < 256 \<Longrightarrow> b < 2 ^ n \<Longrightarrow> push_bit n a + b < (2 :: nat) ^ (n + 8)"
proof -
  assume a: "a < 256" and b: "b < 2 ^ n"
  have "push_bit n a + b < (a + 1) * 2 ^ n" using b by (simp add: push_bit_eq_mult)
  also have "\<dots> \<le> 256 * 2 ^ n" using a by (intro mult_right_mono) auto
  finally show ?thesis by (simp add: power_add)
qed

lemma be32:
  assumes "n < 2 ^ 32"
  shows "push_bit 24 (drop_bit 24 n mod 256) OR push_bit 16 (drop_bit 16 n mod 256) OR
    push_bit 8 (drop_bit 8 n mod 256) OR n mod 256 = (n :: nat)"
proof -
  have d: "n mod 256 < 2 ^ 8" by simp
  have c: "push_bit 8 (n div 256 mod 256) + n mod 256 < 2 ^ 16"
    using push_add_less [OF _ d, of "n div 256 mod 256"] by simp
  have b: "push_bit 16 (n div 65536 mod 256) + (push_bit 8 (n div 256 mod 256) + n mod 256) < 2 ^ 24"
    using push_add_less [OF _ c, of "n div 65536 mod 256"] by simp
  have "n div 16777216 < 256" using assms by (simp add: div_less_iff_less_mult)
  then have "push_bit 24 (n div 16777216 mod 256) +
      (push_bit 16 (n div 65536 mod 256) + (push_bit 8 (n div 256 mod 256) + n mod 256)) = n"
  proof -
    have "n div 256 * 256 + n mod 256 = n" by simp
    moreover have "n div 65536 * 256 + n div 256 mod 256 = n div 256"
      using div_mult_mod_eq [of "n div 256" 256] by (simp add: div_mult2_eq [symmetric])
    moreover have "n div 16777216 * 256 + n div 65536 mod 256 = n div 65536"
      using div_mult_mod_eq [of "n div 65536" 256] by (simp add: div_mult2_eq [symmetric])
    ultimately have "n div 16777216 * 16777216 +
      (n div 65536 mod 256 * 65536 + (n div 256 mod 256 * 256 + n mod 256)) = n" by linarith
    then show ?thesis
      using \<open>n div 16777216 < 256\<close> unfolding push_bit_eq_mult by simp
  qed
  then show ?thesis
    using push_or_add [OF d] push_or_add [OF c] push_or_add [OF b] by (simp add: drop_bit_eq_div)
qed

section \<open>The bytes of an entry\<close>

lemma byte_at_app [mem_simps]:
  "byte_at (length xs) (xs @ b # ys) = Some b"
  by (simp add: byte_at_def)

lemma mem_read_app: "length xs = p \<Longrightarrow> length ys = n \<Longrightarrow> mem_read p n (xs @ ys @ zs) = Some ys"
  using mem_read_append by blast

lemma load_int_shift: "length bs = 3 \<Longrightarrow> load_int (0 # bs) = 256 * load_int bs"
  by (auto simp: load_int_def Let_def)

lemma le_bytes_4: "le_bytes 4 n = word_of_nat n # le_bytes 3 (n div 256)"
  using le_bytes.simps(2) [of 3 n] by (simp del: le_bytes.simps)

lemma store_int_shift: "drop 1 (store_int 4 (push_bit 8 v)) = store_int 3 v"
proof -
  have "(256 * v) mod 4294967296 = 256 * (v mod 16777216)"
    using mult_mod_right [of 256 v 16777216] by simp
  then have "nat ((256 * v) mod 4294967296) div 256 = nat (v mod 16777216)"
    by (simp add: nat_mult_distrib)
  then show ?thesis by (simp add: store_int_def push_bit_eq_mult mult.commute [of v] le_bytes_4 del: le_bytes.simps)
qed

lemma small_cases: "0 \<le> v \<Longrightarrow> v \<le> 12 \<Longrightarrow> v \<in> {0, 1, 2, 3, 4, 5, 6, 7, 8, 9, 10, 11, 12 :: int}"
proof -
  assume "0 \<le> v" "v \<le> 12"
  then have "v \<in> set [0..12]" by simp
  then show ?thesis by (simp add: upto.simps)
qed

text \<open>The two high bits of a byte.\<close>

lemma unat_and_c0: "unat (b AND 0xc0 :: byte) = unat b div 64 * 64"
proof -
  have "x AND push_bit 6 (mask 2) = push_bit 6 (take_bit 2 (drop_bit 6 x))" for x :: nat
    by (rule bit_eqI) (auto simp: bit_simps)
  moreover have "push_bit 6 (mask 2) = (192 :: nat)" by (simp add: mask_eq_exp_minus_1)
  ultimately have "x AND 192 = x div 64 mod 4 * 64" for x :: nat
    by (simp add: push_bit_eq_mult take_bit_eq_mod drop_bit_eq_div)
  moreover have "unat b div 64 < 4" using unat_byte_less [of b] by (simp add: div_less_iff_less_mult)
  ultimately show ?thesis by (simp add: unsigned_and_eq)
qed

lemma less_c0: "b < (0xc0 :: byte) \<longleftrightarrow> unat b < 192"
  by (simp add: word_less_nat_alt)

lemma is_str_iff: "ZIP_IS_STR b \<longleftrightarrow> unat b < 192"
proof -
  have "ZIP_IS_STR b \<longleftrightarrow> unat b div 64 * 64 < 192"
    by (simp add: ZIP_IS_STR_def zip_consts word_less_nat_alt unat_and_c0)
  also have "\<dots> \<longleftrightarrow> unat b div 64 < 3" by auto
  also have "\<dots> \<longleftrightarrow> unat b < 192" by (simp add: div_less_iff_less_mult)
  finally show ?thesis .
qed

lemma and_c0:
  "unat b < 64 \<Longrightarrow> b AND 0xc0 = (0 :: byte)"
  "64 \<le> unat b \<Longrightarrow> unat b < 128 \<Longrightarrow> b AND 0xc0 = (0x40 :: byte)"
  "128 \<le> unat b \<Longrightarrow> unat b < 192 \<Longrightarrow> b AND 0xc0 = (0x80 :: byte)"
proof -
  have "unat b < 64 \<Longrightarrow> unat b div 64 = 0" by simp
  then show "unat b < 64 \<Longrightarrow> b AND 0xc0 = (0 :: byte)"
    unfolding word_unat_eq_iff unat_and_c0 by simp
  have "64 \<le> unat b \<Longrightarrow> unat b < 128 \<Longrightarrow> unat b div 64 = 1" by (simp add: div_nat_eqI)
  then show "64 \<le> unat b \<Longrightarrow> unat b < 128 \<Longrightarrow> b AND 0xc0 = (0x40 :: byte)"
    unfolding word_unat_eq_iff unat_and_c0 by simp
  have "128 \<le> unat b \<Longrightarrow> unat b < 192 \<Longrightarrow> unat b div 64 = 2" by (simp add: div_nat_eqI)
  then show "128 \<le> unat b \<Longrightarrow> unat b < 192 \<Longrightarrow> b AND 0xc0 = (0x80 :: byte)"
    unfolding word_unat_eq_iff unat_and_c0 by simp
qed

text \<open>Integers are written and read back.\<close>

lemma int_payload:
  assumes "zipTryEncoding s = Some (v, e)"
  shows "\<exists>pl. zipSaveInteger v e = Some pl \<and> length pl = zipIntSize e \<and>
    (\<forall>pre post. zipLoadInteger (length pre) e (pre @ pl @ post) = Some v)"
proof -
  have v: "fits 8 v" using assms by (auto simp: zipTryEncoding_def string2ll_iff split: if_splits option.splits)
  have rd: "mem_read (length pre) n (pre @ store_int n v @ post) = Some (store_int n v)" for pre n post
    by (rule mem_read_app) simp_all
  consider (imm) "0 \<le> v" "v \<le> 12" "e = ZIP_INT_IMM_MIN + word_of_int v" | (b8) "e = ZIP_INT_8B" "fits 1 v"
    | (b16) "e = ZIP_INT_16B" "fits 2 v" | (b24) "e = ZIP_INT_24B" "fits 3 v"
    | (b32) "e = ZIP_INT_32B" "fits 4 v" | (b64) "e = ZIP_INT_64B"
    using assms by (auto simp: zipTryEncoding_def fits_def INT24_MIN_def INT24_MAX_def split: if_splits option.splits)
  then show ?thesis
  proof cases
    case imm
    then have "v \<in> {0, 1, 2, 3, 4, 5, 6, 7, 8, 9, 10, 11, 12}" by (intro small_cases)
    then have "zipSaveInteger v e = Some [] \<and> zipIntSize e = 0 \<and>
      (\<forall>p zl. zipLoadInteger p e zl = Some v)"
      unfolding imm(3)
      by (elim insertE emptyE; simp add: zipSaveInteger_def zipLoadInteger_def zipIntSize_def zip_consts)
    then show ?thesis by simp
  next
    case b8
    then show ?thesis using rd [of _ 1]
      by (auto simp: zipSaveInteger_def zipLoadInteger_def zipIntSize_def load_store_int zip_consts)
  next
    case b16
    then show ?thesis using rd [of _ 2]
      by (auto simp: zipSaveInteger_def zipLoadInteger_def zipIntSize_def load_store_int zip_consts)
  next
    case b24
    then show ?thesis using rd [of _ 3] load_int_shift [of "store_int 3 v"]
      by (auto simp: zipSaveInteger_def zipLoadInteger_def zipIntSize_def load_store_int store_int_shift [simplified] zip_consts
          drop_bit_eq_div)
  next
    case b32
    then show ?thesis using rd [of _ 4]
      by (auto simp: zipSaveInteger_def zipLoadInteger_def zipIntSize_def load_store_int zip_consts)
  next
    case b64
    then show ?thesis using rd [of _ 8] v
      by (auto simp: zipSaveInteger_def zipLoadInteger_def zipIntSize_def load_store_int zip_consts)
  qed
qed

lemma int_encoding:
  assumes "zipTryEncoding s = Some (v, e)"
  shows "\<not> ZIP_IS_STR e" and "\<not> e < ZIP_STR_MASK"
proof -
  consider (imm) "v \<in> {0, 1, 2, 3, 4, 5, 6, 7, 8, 9, 10, 11, 12}" "e = ZIP_INT_IMM_MIN + word_of_int v"
    | "e \<in> {ZIP_INT_8B, ZIP_INT_16B, ZIP_INT_24B, ZIP_INT_32B, ZIP_INT_64B}"
    using assms small_cases [of v]
    by (fastforce simp: zipTryEncoding_def split: if_splits option.splits)
  then show "\<not> ZIP_IS_STR e" and "\<not> e < ZIP_STR_MASK"
    by (cases; auto simp: ZIP_IS_STR_def zip_consts)+
qed

text \<open>Encoding field and payload of a string.\<close>

definition cbytes :: "byte list \<Rightarrow> byte list" where
  "cbytes s = (case zipTryEncoding s of
     Some (v, e) \<Rightarrow> e # the (zipSaveInteger v e)
   | None \<Rightarrow> zipEncodeLength 0 (length s) @ s)"

lemma is_str_0 [simp]: "ZIP_IS_STR 0"
  by (simp add: ZIP_IS_STR_def zip_consts)

lemma byte_at_nth: "p < length zl \<Longrightarrow> byte_at p zl = Some (zl ! p)"
  by (simp add: byte_at_def)

lemma decode_string_length:
  assumes "n < 2 ^ 32"
  shows "\<exists>enc. ZIP_DECODE_LENGTH (length pre) (pre @ zipEncodeLength 0 n @ post) =
      Some (enc, length (zipEncodeLength 0 n), n) \<and> ZIP_IS_STR enc"
proof -
  consider "n \<le> 63" | "63 < n" "n \<le> 16383" | "16383 < n" by linarith
  then show ?thesis
  proof cases
    case 1
    then show ?thesis
      by (simp add: zipEncodeLength_def ZIP_DECODE_LENGTH_def ZIP_ENTRY_ENCODING_def byte_at_app zip_consts and_63
          less_c0 and_c0 is_str_iff)
  next
    case 2
    then have hi: "n div 256 < 64" by (simp add: div_less_iff_less_mult)
    let ?b = "0x40 OR word_of_nat (drop_bit 8 n AND 63) :: byte"
    have b: "unat ?b = 64 + n div 256"
      using hi by (simp add: unsigned_or_eq and_63 drop_bit_eq_div or_64)
    have "push_bit 8 (n div 256) OR n mod 256 = n"
      using push_or_add [of "n mod 256" 8 "n div 256"] by (simp add: push_bit_eq_mult)
    then show ?thesis using 2 b hi
      by (simp add: zipEncodeLength_def ZIP_DECODE_LENGTH_def ZIP_ENTRY_ENCODING_def byte_at_nth nth_append zip_consts
          and_63 and_255 less_c0 and_c0 is_str_iff)
  next
    case 3
    then show ?thesis using be32 [OF assms]
      by (simp add: zipEncodeLength_def ZIP_DECODE_LENGTH_def ZIP_ENTRY_ENCODING_def byte_at_nth nth_append zip_consts
          and_255 less_c0 and_c0 is_str_iff)
  qed
qed

text \<open>What decoding finds at the content of an entry.\<close>

definition content_size :: "byte list \<Rightarrow> nat \<times> nat" where
  "content_size s = (case zipTryEncoding s of
     Some (v, e) \<Rightarrow> (1, zipIntSize e)
   | None \<Rightarrow> (length (zipEncodeLength 0 (length s)), length s))"

lemma length_cbytes: "length (cbytes s) = fst (content_size s) + snd (content_size s)"
  using int_payload [of s] by (fastforce simp: cbytes_def content_size_def split: option.splits)

lemma zipEncodeLength_0_pos: "0 < length (zipEncodeLength 0 n)"
  by (simp add: zipEncodeLength_def)

lemma cbytes_pos: "0 < length (cbytes s)"
  using zipEncodeLength_0_pos by (simp add: cbytes_def split: option.splits)

lemma decode_content:
  assumes "length s < 2 ^ 32"
  obtains enc where "ZIP_DECODE_LENGTH (length pre) (pre @ cbytes s @ post) =
      Some (enc, content_size s)"
    and "ZIP_IS_STR enc \<longleftrightarrow> zipTryEncoding s = None"
    and "zipTryEncoding s = None \<Longrightarrow>
      mem_read (length pre + fst (content_size s)) (snd (content_size s)) (pre @ cbytes s @ post) = Some s"
    and "\<And>v e. zipTryEncoding s = Some (v, e) \<Longrightarrow>
      zipLoadInteger (length pre + fst (content_size s)) enc (pre @ cbytes s @ post) = Some v"
proof (cases "zipTryEncoding s")
  case None
  let ?h = "zipEncodeLength 0 (length s)"
  obtain enc where "ZIP_DECODE_LENGTH (length pre) (pre @ ?h @ s @ post) = Some (enc, length ?h, length s)"
    "ZIP_IS_STR enc" using decode_string_length [OF assms, of pre "s @ post"] by auto
  moreover have "mem_read (length pre + length ?h) (length s) ((pre @ ?h) @ s @ post) = Some s"
    by (rule mem_read_app) simp_all
  ultimately show ?thesis using None that [of enc] by (simp add: cbytes_def content_size_def)
next
  case (Some a)
  then obtain v e where ve: "zipTryEncoding s = Some (v, e)" by (cases a) auto
  from int_payload [OF this] obtain pl where
    pl: "zipSaveInteger v e = Some pl" "length pl = zipIntSize e"
    "\<And>pre post. zipLoadInteger (length pre) e (pre @ pl @ post) = Some v" by blast
  have c: "cbytes s = e # pl" using ve pl(1) by (simp add: cbytes_def)
  have "ZIP_DECODE_LENGTH (length pre) (pre @ cbytes s @ post) = Some (e, 1, zipIntSize e)"
    using int_encoding(2) [OF ve]
    by (simp add: ZIP_DECODE_LENGTH_def ZIP_ENTRY_ENCODING_def byte_at_app c)
  moreover have "zipLoadInteger (length pre + 1) e (pre @ cbytes s @ post) = Some v"
    using pl(3) [of "pre @ [e]" post] by (simp add: c)
  ultimately show ?thesis using ve int_encoding(1) [OF ve] by (intro that [of e]) (auto simp: content_size_def)
qed

section \<open>Chains of entries\<close>

type_synonym zent = "bool \<times> byte list"

definition psize :: "bool \<Rightarrow> nat" where
  "psize b = (if b then 5 else 1)"

definition pbytes :: "bool \<Rightarrow> nat \<Rightarrow> byte list" where
  "pbytes b prev = (if b then 254 # le_bytes 4 prev else [word_of_nat prev])"

definition pok :: "bool \<Rightarrow> nat \<Rightarrow> bool" where
  "pok b prev \<longleftrightarrow> (if b then prev < 2 ^ 32 else prev < 254)"

definition esize :: "zent \<Rightarrow> nat" where
  "esize e = psize (fst e) + length (cbytes (snd e))"

definition ebytes :: "nat \<Rightarrow> zent \<Rightarrow> byte list" where
  "ebytes prev e = pbytes (fst e) prev @ cbytes (snd e)"

definition lsize :: "zent list \<Rightarrow> nat" where
  "lsize es = sum_list (map esize es)"

fun lbytes :: "nat \<Rightarrow> zent list \<Rightarrow> byte list" where
  "lbytes prev [] = []"
| "lbytes prev (e # es) = ebytes prev e @ lbytes (esize e) es"

fun lok :: "nat \<Rightarrow> zent list \<Rightarrow> bool" where
  "lok prev [] \<longleftrightarrow> True"
| "lok prev (e # es) \<longleftrightarrow> pok (fst e) prev \<and> length (snd e) < 2 ^ 32 \<and> esize e < 2 ^ 32 \<and> lok (esize e) es"

definition last_size :: "nat \<Rightarrow> zent list \<Rightarrow> nat" where
  "last_size prev es = (if es = [] then prev else esize (last es))"

lemma last_size_simps [simp]:
  "last_size prev [] = prev" "last_size prev (e # es) = last_size (esize e) es"
  by (simp_all add: last_size_def)

lemma lsize_simps [simp]:
  "lsize [] = 0" "lsize (e # es) = esize e + lsize es" "lsize (xs @ ys) = lsize xs + lsize ys"
  by (simp_all add: lsize_def)

lemma length_pbytes [simp]: "length (pbytes b prev) = psize b"
  by (simp add: pbytes_def psize_def)

lemma length_ebytes [simp]: "length (ebytes prev e) = esize e"
  by (simp add: ebytes_def esize_def)

lemma length_lbytes [simp]: "length (lbytes prev es) = lsize es"
  by (induction es arbitrary: prev) simp_all

lemma lbytes_append: "lbytes prev (xs @ ys) = lbytes prev xs @ lbytes (last_size prev xs) ys"
  by (induction xs arbitrary: prev) simp_all

lemma lok_append: "lok prev (xs @ ys) \<longleftrightarrow> lok prev xs \<and> lok (last_size prev xs) ys"
  by (induction xs arbitrary: prev) auto

lemma esize_ge: "psize (fst e) + 1 \<le> esize e"
  using cbytes_pos [of "snd e"] unfolding esize_def by linarith

lemma esize_pos [simp]: "0 < esize e"
  using esize_ge [of e] by (simp add: psize_def split: if_splits)

lemma zipPrevEncodeLength_pbytes: "zipPrevEncodeLength len = pbytes (254 \<le> len) len"
  by (simp add: zipPrevEncodeLength_def pbytes_def zip_consts)

lemma zipPrevEncodeLengthForceLarge_pbytes: "zipPrevEncodeLengthForceLarge len = pbytes True len"
  by (simp add: zipPrevEncodeLengthForceLarge_def pbytes_def zip_consts)

lemma first_byte:
  assumes "pok b prev"
  shows "\<exists>x. byte_at (length pre) (pre @ pbytes b prev @ post) = Some x \<and> x \<noteq> ZIP_END \<and>
    (unat x < ZIP_BIGLEN \<longleftrightarrow> \<not> b) \<and> (\<not> b \<longrightarrow> unat x = prev)"
proof (cases b)
  case True
  then show ?thesis by (simp add: pbytes_def byte_at_app zip_consts)
next
  case False
  then have p: "prev < 254" using assms by (simp add: pok_def)
  then have "unat (word_of_nat prev :: byte) \<noteq> unat (255 :: byte)" by simp
  then have "(word_of_nat prev :: byte) \<noteq> 255" by metis
  then show ?thesis using False p by (simp add: pbytes_def byte_at_app zip_consts)
qed

lemma decode_prevlen:
  assumes "pok b prev"
  shows "ZIP_DECODE_PREVLENSIZE (length pre) (pre @ pbytes b prev @ post) = Some (psize b)"
    and "ZIP_DECODE_PREVLEN (length pre) (pre @ pbytes b prev @ post) = Some (psize b, prev)"
proof -
  obtain x where x: "byte_at (length pre) (pre @ pbytes b prev @ post) = Some x"
    "unat x < ZIP_BIGLEN \<longleftrightarrow> \<not> b" "\<not> b \<longrightarrow> unat x = prev"
    using first_byte [OF assms] by blast
  show 1: "ZIP_DECODE_PREVLENSIZE (length pre) (pre @ pbytes b prev @ post) = Some (psize b)"
    using x by (simp add: ZIP_DECODE_PREVLENSIZE_def psize_def)
  have "b \<Longrightarrow> get_uint 4 (length pre + 1) ((pre @ [254]) @ le_bytes 4 prev @ post) = Some prev"
    using mem_read_app [of "pre @ [254]" "length pre + 1" "le_bytes 4 prev" 4 post] assms
    by (simp add: get_uint_def pok_def del: append_assoc)
  then show "ZIP_DECODE_PREVLEN (length pre) (pre @ pbytes b prev @ post) = Some (psize b, prev)"
    using 1 x by (cases b) (simp_all add: ZIP_DECODE_PREVLEN_def psize_def pbytes_def)
qed

text \<open>An entry decoded in place.\<close>

lemma decode_entry:
  assumes "pok (fst e) prev" and "length (snd e) < 2 ^ 32" and "esize e < 2 ^ 32"
  obtains x en where "byte_at (length pre) (pre @ ebytes prev e @ post) = Some x" and "x \<noteq> ZIP_END"
    and "zipEntry (length pre) (pre @ ebytes prev e @ post) = Some en"
    and "prevrawlensize en = psize (fst e)" and "prevrawlen en = prev"
    and "headersize en + elen en = esize e"
    and "zipRawEntryLength (length pre) (pre @ ebytes prev e @ post) = Some (esize e)"
proof -
  obtain b s where e: "e = (b, s)" by (cases e)
  let ?zl = "pre @ ebytes prev e @ post"
  obtain x where x: "byte_at (length pre) ?zl = Some x" "x \<noteq> ZIP_END"
    using first_byte [OF assms(1), of pre "cbytes s @ post"] by (auto simp: ebytes_def e)
  note p = decode_prevlen [OF assms(1), of pre "cbytes s @ post"]
  obtain enc where "ZIP_DECODE_LENGTH (length (pre @ pbytes b prev)) ((pre @ pbytes b prev) @ cbytes s @ post) =
      Some (enc, content_size s)"
    using decode_content [of s "pre @ pbytes b prev" post] assms(2) e by force
  then have d: "ZIP_DECODE_LENGTH (length pre + psize b) ?zl = Some (enc, content_size s)"
    by (simp add: ebytes_def e)
  obtain l n where ln: "content_size s = (l, n)" by (cases "content_size s")
  let ?en = "\<lparr>prevrawlensize = psize b, prevrawlen = prev, lensize = l, elen = n, headersize = psize b + l,
    eencoding = enc\<rparr>"
  have "zipEntry (length pre) ?zl = Some ?en"
    using p d ln by (simp add: zipEntry_def ebytes_def e)
  moreover have "zipRawEntryLength (length pre) ?zl = Some (esize e)"
    using p d ln assms(3) length_cbytes [of s] by (simp add: zipRawEntryLength_def ebytes_def e esize_def)
  moreover have "headersize ?en + elen ?en = esize e"
    using ln length_cbytes [of s] by (simp add: e esize_def)
  ultimately show ?thesis using x by (intro that [of x ?en]) (auto simp: e)
qed

section \<open>The header\<close>

definition hdr :: "nat \<Rightarrow> nat \<Rightarrow> nat \<Rightarrow> byte list" where
  "hdr bytes tail n = le_bytes 4 bytes @ le_bytes 4 tail @ le_bytes 2 n"

lemma length_hdr [simp]: "length (hdr a b c) = 10"
  by (simp add: hdr_def)

lemma hdr_fields:
  "ZIPLIST_BYTES (hdr a b c @ r) = Some (a mod 2 ^ 32)"
  "ZIPLIST_TAIL_OFFSET (hdr a b c @ r) = Some (b mod 2 ^ 32)"
  "ZIPLIST_LENGTH (hdr a b c @ r) = Some (c mod 2 ^ 16)"
  using mem_read_app [of "[]" 0 "le_bytes 4 a" 4 "le_bytes 4 b @ le_bytes 2 c @ r"]
    mem_read_app [of "le_bytes 4 a" 4 "le_bytes 4 b" 4 "le_bytes 2 c @ r"]
    mem_read_app [of "le_bytes 4 a @ le_bytes 4 b" 8 "le_bytes 2 c" 2 r]
  by (simp_all add: ZIPLIST_BYTES_def ZIPLIST_TAIL_OFFSET_def ZIPLIST_LENGTH_def get_uint_def hdr_def)

lemma mem_write_app: "length xs = p \<Longrightarrow> length ys = length bs \<Longrightarrow>
    mem_write p bs (xs @ ys @ zs) = Some (xs @ bs @ zs)"
  using mem_write_append by blast

lemma hdr_updates:
  "put_uint 4 0 v (hdr a b c @ r) = Some (hdr v b c @ r)"
  "put_uint 4 4 v (hdr a b c @ r) = Some (hdr a v c @ r)"
  "put_uint 2 8 v (hdr a b c @ r) = Some (hdr a b v @ r)"
  using mem_write_app [of "[]" 0 "le_bytes 4 a" "le_bytes 4 v" "le_bytes 4 b @ le_bytes 2 c @ r"]
    mem_write_app [of "le_bytes 4 a" 4 "le_bytes 4 b" "le_bytes 4 v" "le_bytes 2 c @ r"]
    mem_write_app [of "le_bytes 4 a @ le_bytes 4 b" 8 "le_bytes 2 c" "le_bytes 2 v" r]
  by (simp_all add: put_uint_def hdr_def)

lemma set_tail: "0 \<le> v \<Longrightarrow> v < 2 ^ 32 \<Longrightarrow> set_TAIL_OFFSET v (hdr a b c @ r) = Some (hdr a (nat v) c @ r)"
  by (simp add: set_TAIL_OFFSET_def hdr_updates)

lemma set_tail_nat: "v < 2 ^ 32 \<Longrightarrow> set_TAIL_OFFSET (int v) (hdr a b c @ r) = Some (hdr a v c @ r)"
  using set_tail [of "int v" a b c r] by simp

lemma hdr_app_take: "10 \<le> n \<Longrightarrow> take n (hdr a b c @ r) = hdr a b c @ take (n - 10) r"
  by (simp add: take_append)

lemma resize_eq:
  assumes "11 \<le> len"
  shows "ziplistResize junk len (hdr a b c @ r) =
    Some (hdr len b c @ take (len - 11) (r @ map junk [10 + length r..<len]) @ [ZIP_END])"
proof -
  let ?j = "r @ map junk [10 + length r..<len]"
  have m: "mem_realloc junk len (hdr a b c @ r) = hdr a b c @ take (len - 10) ?j"
    using assms by (simp add: mem_realloc_def)
  have l: "length ?j \<ge> len - 10" by simp
  have "take (len - 10) ?j = take (len - 11) ?j @ [?j ! (len - 11)]"
    using take_Suc_conv_app_nth [of "len - 11" ?j] l assms by (simp add: Suc_diff_Suc numeral_eq_Suc)
  then have e: "hdr len b c @ take (len - 10) ?j = (hdr len b c @ take (len - 11) ?j) @ [?j ! (len - 11)] @ []"
    by simp
  have "length (hdr len b c @ take (len - 11) ?j) = len - 1" using l assms by simp
  then have "mem_write (len - 1) [ZIP_END] (hdr len b c @ take (len - 10) ?j) =
    Some (hdr len b c @ take (len - 11) ?j @ [ZIP_END])"
    unfolding e by (subst mem_write_app) simp_all
  then show ?thesis using assms by (simp add: ziplistResize_def m hdr_updates)
qed

lemma resize_grow:
  assumes "11 + length r + k < 2 ^ 32"
  shows "\<exists>J. length J = k \<and> ziplistResize junk (11 + length r + k) (hdr a b c @ r @ [x]) =
    Some (hdr (11 + length r + k) b c @ take (length r + k) (r @ [x] @ J) @ [ZIP_END])"
proof -
  let ?J = "map junk [11 + length r..<11 + length r + k]"
  have "ziplistResize junk (11 + length r + k) (hdr a b c @ r @ [x]) =
    Some (hdr (11 + length r + k) b c @ take (length r + k) (r @ [x] @ ?J) @ [ZIP_END])"
    using resize_eq [of "11 + length r + k" junk a b c "r @ [x]"] by simp
  then show ?thesis by (intro exI [of _ ?J]) simp
qed

section \<open>The cascading update\<close>

text \<open>The widths after the update, when the first entry of the rest follows one of size \<open>prev\<close>.\<close>

fun casc :: "nat \<Rightarrow> zent list \<Rightarrow> zent list" where
  "casc prev [] = []"
| "casc prev ((b, s) # es) =
     (if \<not> b \<and> 254 \<le> prev then (True, s) # casc (esize (True, s)) es else (b, s) # es)"

lemma casc_content [simp]: "map snd (casc prev es) = map snd es"
  by (induction prev es rule: casc.induct) auto

lemma casc_size: "lsize (casc prev es) \<le> lsize es + 4 * length es"
proof (induction prev es rule: casc.induct)
  case (1 prev)
  then show ?case by simp
next
  case (2 prev b s es)
  then show ?case by (auto simp: esize_def psize_def)
qed

lemma esize_flag: "esize (b, s) = psize b + length (cbytes s)"
  by (simp add: esize_def)

text \<open>The offset of the last entry of \<open>e # es\<close> from the start of \<open>e\<close>.\<close>

definition before_last :: "zent list \<Rightarrow> nat" where
  "before_last es = lsize (butlast es)"

lemma before_last_simps [simp]:
  "before_last [e] = 0" "before_last (e # f # es) = esize e + before_last (f # es)" "before_last [] = 0"
  by (simp_all add: before_last_def)

lemma before_last_le: "es \<noteq> [] \<Longrightarrow> before_last es < lsize es"
  by (induction es rule: induct_list012) auto

lemma move_right:
  assumes "length P = np" and "length X = d" and "length G = k" and "length C = n"
  shows "\<exists>W. length W = d + k \<and> take d W = X \<and> (X = [] \<longrightarrow> W = take (d + k) (C @ G @ Z)) \<and>
    mem_move (np + d + k) (np + d) n (P @ X @ C @ G @ Z) = Some (P @ W @ C @ Z)"
proof (intro exI conjI)
  let ?m = "P @ X @ C @ G @ Z"
  let ?W = "take (d + k) (X @ C @ G @ Z)"
  show "length ?W = d + k" using assms by simp
  show "take d ?W = X" using assms by (simp add: take_append)
  show "X = [] \<longrightarrow> ?W = take (d + k) (C @ G @ Z)" by simp
  have "take n (drop (np + d) ?m) = C" using assms by simp
  moreover have "drop (np + d + k + n) ?m = Z"
    using assms by (simp add: drop_append)
  moreover have "take (np + d + k) ?m = P @ ?W" using assms by (simp add: take_append)
  ultimately show "mem_move (np + d + k) (np + d) n ?m = Some (P @ ?W @ C @ Z)"
    using assms by (simp add: mem_move_Some)
qed

lemma resize_grow_pad:
  assumes "len = 11 + length R + k"
  shows "\<exists>G. length G = k \<and> (0 < k \<longrightarrow> hd G = x) \<and> ziplistResize junk len (hdr a b c @ R @ [x]) =
    Some (hdr len b c @ R @ G @ [ZIP_END])"
proof -
  let ?J = "map junk [11 + length R..<len]"
  have "take (length R + k) (R @ [x] @ ?J) = R @ take k ([x] @ ?J)" by simp
  then have "ziplistResize junk len (hdr a b c @ R @ [x]) =
    Some (hdr len b c @ R @ take k ([x] @ ?J) @ [ZIP_END])"
    using resize_eq [of len junk a b c "R @ [x]"] assms by simp
  then show ?thesis using assms by (intro exI [of _ "take k ([x] @ ?J)"]) (cases k, simp_all)
qed

text \<open>The block with a stale \<open>prevlen\<close> behind the entry \<open>e\<close>.\<close>

definition stale :: "nat \<Rightarrow> byte list \<Rightarrow> nat \<Rightarrow> zent \<Rightarrow> nat \<Rightarrow> zent list \<Rightarrow> byte list" where
  "stale n A q e old es =
     hdr (11 + length A + esize e + lsize es) (10 + length A + before_last (e # es)) n @
     A @ ebytes q e @ lbytes old es @ [ZIP_END]"

lemma casc_id: "pok b prev \<Longrightarrow> casc prev ((b, s) # es) = (b, s) # es"
  by (auto simp: pok_def)

lemma cascade_widen_ok:
  fixes s :: "byte list" and r :: "zent list"
  defines "C \<equiv> cbytes s @ lbytes (esize (False, s)) r"
  assumes "11 + length B + 1 + length C + 4 < 2 ^ 32" and "254 \<le> L" and "old < 254"
    and t: "t = 10 + length B + before_last ((False, s) # r)"
  shows "cascade_widen junk (11 + length B + 1 + length C) (10 + length B) 1 L
      (hdr (11 + length B + 1 + length C) t n @ B @ pbytes False old @ C @ [ZIP_END]) =
    Some (hdr (11 + length B + 5 + length C) (10 + length B + before_last ((True, s) # r)) n @
      B @ pbytes True L @ C @ [ZIP_END])"
proof -
  let ?T = "11 + length B + 1 + length C" and ?R = "B @ pbytes False old @ C" and ?np = "10 + length B"
  let ?t' = "10 + length B + before_last ((True, s) # r)"
  have szs: "psize True = 5" "psize False = 1" by (simp_all add: psize_def)
  have bl: "before_last ((True, s) # r) = before_last ((False, s) # r) + (if r = [] then 0 else 4)"
    by (cases r) (auto simp: esize_flag szs)
  have bl0: "before_last ((False, s) # r) = 0 \<longleftrightarrow> r = []" by (cases r) auto
  have bC: "before_last ((False, s) # r) \<le> Suc (length C)"
    using before_last_le [of "(False, s) # r"] by (simp add: C_def esize_flag szs)
  have len: "u32_of (?T + 4) = 11 + length ?R + 4" using assms(2) by (simp add: szs)
  obtain G where G: "length G = 4" "ziplistResize junk (u32_of (?T + 4)) (hdr ?T t n @ ?R @ [ZIP_END]) =
      Some (hdr (u32_of (?T + 4)) t n @ ?R @ G @ [ZIP_END])"
    using resize_grow_pad [OF len, of ZIP_END junk ?T t n] by metis
  have lT: "u32_of (?T + 4) = ?T + 4" using assms(2) by simp
  have t32: "t < 2 ^ 32" "?t' < 2 ^ 32" using assms(2) t bC bl by auto
  have tail: "(if t \<noteq> ?np then set_TAIL_OFFSET (int t + 4) (hdr (?T + 4) t n @ Y) else Some (hdr (?T + 4) t n @ Y)) =
    Some (hdr (?T + 4) ?t' n @ Y)" for Y
  proof (cases "r = []")
    case True
    then show ?thesis using bl bl0 t by simp
  next
    case False
    then have ne: "t \<noteq> ?np" and e: "int t + 4 = int ?t'" using bl bl0 t by auto
    show ?thesis unfolding e using ne set_tail_nat [OF t32(2)] by (simp only: if_True simp_thms)
  qed
  obtain W where W: "length W = 5" "mem_move (?np + 5) (?np + 1) (length C)
      ((hdr (?T + 4) ?t' n @ B) @ pbytes False old @ C @ G @ [ZIP_END]) =
    Some ((hdr (?T + 4) ?t' n @ B) @ W @ C @ [ZIP_END])"
    using move_right [of "hdr (?T + 4) ?t' n @ B" ?np "pbytes False old" 1 G 4 C "length C" "[ZIP_END]"] G(1)
    by (auto simp: szs)
  have w: "mem_write ?np (pbytes True L) ((hdr (?T + 4) ?t' n @ B) @ W @ C @ [ZIP_END]) =
    Some ((hdr (?T + 4) ?t' n @ B) @ pbytes True L @ C @ [ZIP_END])"
    by (rule mem_write_app) (simp_all add: W(1) szs)
  have c: "?T - ?np - 1 - 1 = length C" by simp
  have l5: "length (zipPrevEncodeLength L) = 5" "zipPrevEncodeLength L = pbytes True L"
    using assms(3) by (simp_all add: zipPrevEncodeLength_pbytes szs)
  have Z: "hdr ?T t n @ B @ pbytes False old @ C @ [ZIP_END] = hdr ?T t n @ ?R @ [ZIP_END]"
    "hdr (?T + 4) t n @ ?R @ G @ [ZIP_END] = hdr (?T + 4) t n @ B @ pbytes False old @ C @ G @ [ZIP_END]" by simp_all
  have tl: "ZIPLIST_TAIL_OFFSET (hdr (?T + 4) t n @ Y) = Some t" for Y
    using hdr_fields(2) [of "?T + 4" t n Y] t32 by simp
  have e4: "(5 :: nat) - 1 = 4" "int 4 = 4" "?np + 1 + 1 \<le> ?T" by simp_all
  have W': "mem_move (?np + 5) (?np + 1) (?T - ?np - 1 - 1)
      (hdr (?T + 4) ?t' n @ ?R @ G @ [ZIP_END]) = Some ((hdr (?T + 4) ?t' n @ B) @ W @ C @ [ZIP_END])"
    unfolding c using W(2) by simp
  have "cascade_widen junk ?T ?np 1 L (hdr ?T t n @ ?R @ [ZIP_END]) =
    Some ((hdr (?T + 4) ?t' n @ B) @ pbytes True L @ C @ [ZIP_END])"
    unfolding cascade_widen_def Let_def l5 e4(1)
    by (simp only: length_pbytes szs e4 G(2) [unfolded lT] lT tl tail W' w Option.bind.simps if_True)
  then show ?thesis unfolding Z(1) [symmetric] by (simp add: add.commute add.left_commute)
qed

lemma cascade_loop_ok:
  assumes "pok (fst e) q" and "length (snd e) < 2 ^ 32" and "lok old es"
    and "11 + length A + esize e + lsize es + 4 * length es < 2 ^ 32"
  shows "cascade_loop junk (11 + length A + esize e + lsize es) (10 + length A) (stale n A q e old es) =
    Some (stale n A q e (esize e) (casc (esize e) es))"
  using assms
proof (induction es arbitrary: A q e old)
  case Nil
  let ?pre = "hdr (11 + length A + esize e) (10 + length A) n @ A"
  have sz: "esize e < 2 ^ 32" using Nil.prems(4) by simp
  obtain x en where d: "byte_at (length ?pre) (?pre @ ebytes q e @ [ZIP_END]) = Some x" "x \<noteq> ZIP_END"
    "zipEntry (length ?pre) (?pre @ ebytes q e @ [ZIP_END]) = Some en" "headersize en + elen en = esize e"
    using decode_entry [OF Nil.prems(1,2) sz] by metis
  have "byte_at (length (?pre @ ebytes q e)) ((?pre @ ebytes q e) @ ZIP_END # []) = Some ZIP_END"
    by (rule byte_at_app)
  then have end': "byte_at (10 + length A + esize e) (?pre @ ebytes q e @ [ZIP_END]) = Some ZIP_END"
    by (simp add: add.assoc)
  have zl: "stale n A q e old [] = ?pre @ ebytes q e @ [ZIP_END]" "stale n A q e (esize e) [] = ?pre @ ebytes q e @ [ZIP_END]"
    by (simp_all add: stale_def)
  have cur: "u32_of (headersize en + elen en) = esize e" using d(4) sz by simp
  have p: "length ?pre = 10 + length A" by simp
  note d' = d(1,3) [unfolded p]
  show ?case unfolding zl casc.simps
    by (subst cascade_loop.simps) (simp only: Option.bind.simps Let_def d' d(2) cur end' simp_thms if_False if_True)
next
  case (Cons f r)
  obtain b s where f: "f = (b, s)" by (cases f)
  let ?L = "esize e" and ?T = "11 + length A + esize e + lsize (f # r)"
  let ?t = "10 + length A + before_last (e # f # r)"
  let ?pre = "hdr ?T ?t n @ A" and ?post = "lbytes old (f # r) @ [ZIP_END]"
  let ?zl = "?pre @ ebytes q e @ ?post"
  have zl: "stale n A q e old (f # r) = ?zl" by (simp add: stale_def)
  have sz: "?L < 2 ^ 32" using Cons.prems(4) by simp
  have ok: "pok b old" "length s < 2 ^ 32" "esize f < 2 ^ 32" "lok (esize f) r" using Cons.prems(3) by (auto simp: f)
  obtain x en where d: "byte_at (length ?pre) ?zl = Some x" "x \<noteq> ZIP_END"
    "zipEntry (length ?pre) ?zl = Some en" "headersize en + elen en = ?L"
    using decode_entry [OF Cons.prems(1,2) sz] by metis
  let ?P = "?pre @ ebytes q e"
  have zl2: "?zl = ?P @ ebytes old f @ lbytes (esize f) r @ [ZIP_END]" by simp
  have okf: "pok (fst f) old" "length (snd f) < 2 ^ 32" using ok by (auto simp: f)
  obtain y nx where nx: "byte_at (length ?P) ?zl = Some y" "y \<noteq> ZIP_END"
    "zipEntry (length ?P) ?zl = Some nx" "prevrawlensize nx = psize (fst f)" "prevrawlen nx = old"
    using decode_entry [OF okf ok(3), of ?P "lbytes (esize f) r @ [ZIP_END]"] unfolding zl2 by metis
  have fst_f: "fst f = b" by (simp add: f)
  have p: "length ?pre = 10 + length A" "length ?P = 10 + length A + ?L" by simp_all
  note d' = d(1,3) [unfolded p] and nx' = nx(1,3) [unfolded p]
  have cur: "u32_of (headersize en + elen en) = ?L" using d(4) sz by simp
  have rs: "length (zipPrevEncodeLength ?L) = psize (254 \<le> ?L)" by (simp add: zipPrevEncodeLength_pbytes)
  have step: "cascade_loop junk ?T (10 + length A) ?zl =
    (if old = ?L then Some ?zl
     else if psize b < psize (254 \<le> ?L) then
       Option.bind (cascade_widen junk ?T (10 + length A + ?L) (psize b) ?L ?zl)
         (cascade_loop junk (?T + (psize (254 \<le> ?L) - psize b)) (10 + length A + ?L))
     else if psize b > psize (254 \<le> ?L) then mem_write (10 + length A + ?L) (pbytes True ?L) ?zl
     else mem_write (10 + length A + ?L) (pbytes (254 \<le> ?L) ?L) ?zl)"
    by (subst cascade_loop.simps)
      (simp only: Option.bind.simps Let_def d' d(2) nx' nx(2,4,5) fst_f cur rs if_False zipPrevEncodeLength_pbytes
        zipPrevEncodeLengthForceLarge_pbytes length_pbytes)
  let ?C = "cbytes s @ lbytes (esize f) r"
  have wr: "mem_write (10 + length A + ?L) (pbytes b ?L) ?zl = Some (?P @ pbytes b ?L @ ?C @ [ZIP_END])"
  proof -
    have zl4: "?zl = ?P @ pbytes b old @ ?C @ [ZIP_END]" by (simp add: f ebytes_def [of old])
    show ?thesis unfolding zl4 by (rule mem_write_app) simp_all
  qed
  have fin: "casc ?L (f # r) = f # r \<Longrightarrow>
    ?P @ pbytes b ?L @ ?C @ [ZIP_END] = stale n A q e ?L (casc ?L (f # r))"
    by (simp add: stale_def f ebytes_def [of ?L])
  have szs: "psize True = 5" "psize False = 1" by (simp_all add: psize_def)
  have "cascade_loop junk ?T (10 + length A) ?zl = Some (stale n A q e ?L (casc ?L (f # r)))"
  proof (cases "old = ?L")
    case True
    then have "casc ?L (f # r) = f # r" using ok(1) by (auto simp: f pok_def)
    then show ?thesis unfolding step using True zl by simp
  next
    case ne: False
    show ?thesis
    proof (cases "\<not> b \<and> 254 \<le> ?L")
      case False
      then have c: "casc ?L (f # r) = f # r" by (auto simp: f)
      show ?thesis unfolding step using ne wr fin [OF c] False
        by (cases b; cases "254 \<le> ?L") (simp_all add: szs)
    next
      case grow: True
      let ?B = "A @ ebytes q e" and ?e = "(True, s)"
      let ?C = "cbytes s @ lbytes (esize (False, s)) r"
      have fb: "f = (False, s)" using grow f by simp
      have lC: "?T = 11 + length ?B + 1 + length ?C" by (simp add: fb esize_flag szs)
      have lf: "lsize (f # r) = 1 + length ?C" by (simp add: fb esize_flag szs)
      have bnd: "11 + length ?B + 1 + length ?C + 4 < 2 ^ 32" using Cons.prems(4) lC by simp
      have old: "old < 254" using ok(1) grow by (simp add: pok_def)
      have tt: "?t = 10 + length ?B + before_last ((False, s) # r)" by (simp add: fb)
      have zl3: "?zl = hdr ?T ?t n @ ?B @ pbytes False old @ ?C @ [ZIP_END]"
        by (simp add: fb ebytes_def [of old])
      have np: "10 + length A + ?L = 10 + length ?B" by simp
      have st: "hdr (11 + length ?B + 5 + length ?C) (10 + length ?B + before_last (?e # r)) n @
          ?B @ pbytes True ?L @ ?C @ [ZIP_END] = stale n ?B ?L ?e (esize (False, s)) r"
        by (simp add: stale_def esize_flag szs ebytes_def add.assoc)
      have "cascade_widen junk (11 + length ?B + 1 + length ?C) (10 + length ?B) 1 ?L
          (hdr (11 + length ?B + 1 + length ?C) ?t n @ ?B @ pbytes False old @ ?C @ [ZIP_END]) =
        Some (stale n ?B ?L ?e (esize (False, s)) r)"
        unfolding st [symmetric] by (rule cascade_widen_ok [OF bnd _ old tt]) (use grow in simp)
      moreover have "psize b = 1" using grow szs by simp
      ultimately have wd: "cascade_widen junk ?T (10 + length A + ?L) (psize b) ?L ?zl =
        Some (stale n ?B ?L ?e (esize (False, s)) r)"
        unfolding zl3 by (simp only: lC np)
      have T': "?T + (psize (254 \<le> ?L) - psize b) = 11 + length ?B + esize ?e + lsize r"
        using grow by (simp add: fb esize_flag szs)
      have prems: "pok (fst ?e) ?L" "length (snd ?e) < 2 ^ 32" "lok (esize (False, s)) r"
        "11 + length ?B + esize ?e + lsize r + 4 * length r < 2 ^ 32"
        using sz ok(2,4) Cons.prems(4) by (auto simp: pok_def fb esize_flag szs)
      have "cascade_loop junk ?T (10 + length A) ?zl =
        cascade_loop junk (11 + length ?B + esize ?e + lsize r) (10 + length ?B) (stale n ?B ?L ?e (esize (False, s)) r)"
      proof -
        have lt: "psize b < psize (254 \<le> ?L)" using grow szs by simp
        have "cascade_loop junk ?T (10 + length A) ?zl =
          Option.bind (cascade_widen junk ?T (10 + length A + ?L) (psize b) ?L ?zl)
            (cascade_loop junk (?T + (psize (254 \<le> ?L) - psize b)) (10 + length A + ?L))"
          by (simp only: step ne lt if_False if_True)
        also have "\<dots> = cascade_loop junk (?T + (psize (254 \<le> ?L) - psize b)) (10 + length A + ?L)
            (stale n ?B ?L ?e (esize (False, s)) r)"
          by (simp only: wd Option.bind.simps)
        finally show ?thesis unfolding T' np .
      qed
      also have "\<dots> = Some (stale n ?B ?L ?e (esize ?e) (casc (esize ?e) r))"
        by (rule Cons.IH [OF prems])
      also have "stale n ?B ?L ?e (esize ?e) (casc (esize ?e) r) = stale n A q e ?L (casc ?L (f # r))"
        using grow by (simp add: stale_def fb add.assoc)
      finally show ?thesis .
    qed
  qed
  then show ?case unfolding zl .
qed

section \<open>The length fields as self-delimiting encodings\<close>

definition decode_len :: "byte list \<Rightarrow> (nat \<times> nat) option" where
  "decode_len bs = map_option (\<lambda>(enc, ls, len). (len, ls)) (ZIP_DECODE_LENGTH 0 bs)"

definition decode_prev :: "byte list \<Rightarrow> (nat \<times> nat) option" where
  "decode_prev bs = map_option (\<lambda>(ps, pl). (pl, ps)) (ZIP_DECODE_PREVLEN 0 bs)"

interpretation ziplen: prefix_codec "zipEncodeLength 0" decode_len "\<lambda>n. n < 2 ^ 32"
proof
  fix n :: nat and rest :: "byte list"
  assume "n < 2 ^ 32"
  then show "decode_len (zipEncodeLength 0 n @ rest) = Some (n, length (zipEncodeLength 0 n))"
    using decode_string_length [of n "[]" rest] by (auto simp: decode_len_def)
qed

interpretation zipprev: prefix_codec zipPrevEncodeLength decode_prev "\<lambda>n. n < 2 ^ 32"
proof
  fix n :: nat and rest :: "byte list"
  assume "n < 2 ^ 32"
  then have "pok (254 \<le> n) n" by (simp add: pok_def)
  then show "decode_prev (zipPrevEncodeLength n @ rest) = Some (n, length (zipPrevEncodeLength n))"
    using decode_prevlen(2) [of "254 \<le> n" n "[]" rest] by (simp add: decode_prev_def zipPrevEncodeLength_pbytes)
qed

end
