(* ===== verification/Ziplist_Ops.thy ===== *)
theory Ziplist_Ops
  imports Ziplist_Correct
begin

text \<open>
  Insertion, deletion and lookup on a ziplist in order, on every branch: what the widths of
  the entries become, and that the strings held change as the operation says.
\<close>

section \<open>A ziplist in order\<close>

definition block :: "nat \<Rightarrow> zent list \<Rightarrow> ziplist" where
  "block n es = hdr (11 + lsize es) (10 + before_last es) n @ lbytes 0 es @ [ZIP_END]"

definition len_field :: "nat \<Rightarrow> nat \<Rightarrow> bool" where
  "len_field n k \<longleftrightarrow> n = UINT16_MAX \<or> n = k \<and> k < UINT16_MAX"

definition zl_rep :: "ziplist \<Rightarrow> zent list \<Rightarrow> bool" where
  "zl_rep zl es \<longleftrightarrow>
     (\<exists>n. zl = block n es \<and> len_field n (length es)) \<and> lok 0 es \<and> 11 + lsize es < 2 ^ 32"

lemma ziplistNew_ok: "\<exists>zl. ziplistNew junk = Some zl \<and> zl_rep zl []"
proof -
  define m where "m = map junk [0..<11]"
  have l: "length m = 11" by (simp add: m_def)
  have "ziplistNew junk = Some ((le_bytes 4 11 @ le_bytes 4 10 @ le_bytes 2 0) @ [ZIP_END])"
    using l by (simp add: ziplistNew_def ZIPLIST_HEADER_SIZE_def put_uint_def mem_write_def Let_def m_def [symmetric]
        drop_append take_append del: le_bytes.simps upt_Suc)
  then show ?thesis
    by (auto simp: zl_rep_def block_def hdr_def len_field_def UINT16_MAX_def)
qed

lemma before_last_append: "before_last (xs @ e # ys) = lsize xs + before_last (e # ys)"
  by (simp add: before_last_def butlast_append)

text \<open>The encoding of a new entry.\<close>

lemma new_encoding_size:
  assumes "new_encoding s = (paylen, encoding, v)"
  shows "paylen + length (zipPrevEncodeLength prev) + length (zipEncodeLength encoding (length s)) =
    esize (254 \<le> prev, s)"
proof (cases "zipTryEncoding s")
  case None
  then show ?thesis using assms
    by (auto simp: new_encoding_def esize_def zipPrevEncodeLength_pbytes cbytes_def)
next
  case (Some a)
  then obtain w e where we: "zipTryEncoding s = Some (w, e)" by (cases a) auto
  from int_payload [OF this] obtain pl where "zipSaveInteger w e = Some pl" "length pl = zipIntSize e" by blast
  then show ?thesis using assms int_encoding [OF we] we
    by (auto simp: new_encoding_def esize_def zipPrevEncodeLength_pbytes cbytes_def zipEncodeLength_def)
qed

section \<open>Making room\<close>

text \<open>The widths of what follows a new entry of size \<open>R\<close>.\<close>

fun reflag :: "nat \<Rightarrow> zent list \<Rightarrow> zent list" where
  "reflag R [] = []"
| "reflag R ((b, u) # r) =
     (if b = (254 \<le> R) then (b, u) # r else (254 \<le> R, u) # casc (esize (254 \<le> R, u)) r)"

lemma reflag_content [simp]: "map snd (reflag R es) = map snd es"
  by (cases "(R, es)" rule: reflag.cases) auto

lemma length_casc [simp]: "length (casc prev es) = length es"
  by (metis length_map casc_content)

lemma length_reflag [simp]: "length (reflag R es) = length es"
  by (metis length_map reflag_content)

text \<open>
  The shift: behind the new gap \<open>G\<close> stands the next entry with the size of the gap as its
  \<open>prevlen\<close>.
\<close>

definition widths_diff :: "bool \<Rightarrow> bool \<Rightarrow> int" where
  "widths_diff b b' = int (psize b') - int (psize b)"

lemma widths_diff_simps [simp]:
  "widths_diff False True = 4" "widths_diff True False = -4" "widths_diff b b = 0"
  by (simp_all add: widths_diff_def psize_def)

lemma shift_move:
  assumes T: "T = 11 + length X + psize b + length C" and R: "0 < R" and T': "int T' = int T + int R + widths_diff b b'"
    and bug: "b \<and> \<not> b' \<Longrightarrow> 4 \<le> R"
  shows "\<exists>G zl1 y. ziplistResize junk T' (hdr T t n @ X @ pbytes b old @ C @ [ZIP_END]) = Some zl1 \<and>
    length G = R \<and>
    byte_at (10 + length X) zl1 = byte_at 0 (pbytes b old) \<and>
    mem_move (10 + length X + R) (nat (int (10 + length X) - widths_diff b b'))
      (nat (int T - int (10 + length X) - 1 + widths_diff b b')) zl1 =
    Some (hdr T' t n @ X @ G @ y @ C @ [ZIP_END]) \<and> length y = psize b'"
proof -
  let ?pb = "pbytes b old" and ?P = "hdr T' t n @ X" and ?Z = "[ZIP_END]" and ?np = "10 + length X"
  define k where "k = (if b = b' then R else if b then R - 4 else R + 4)"
  have szs: "psize True = 5" "psize False = 1" by (simp_all add: psize_def)
  have k: "int k = int R + widths_diff b b'" using bug R by (cases b; cases b') (auto simp: k_def szs)
  then have T'k: "T' = 11 + length (X @ ?pb @ C) + k" using T T' by simp
  obtain G0 where G0: "length G0 = k" "ziplistResize junk T' (hdr T t n @ X @ ?pb @ C @ ?Z) =
      Some (?P @ ?pb @ C @ G0 @ ?Z)"
    using resize_grow_pad [OF T'k, of ZIP_END junk T t n] by auto
  let ?zl1 = "?P @ ?pb @ C @ G0 @ ?Z"
  obtain c pb' where pb: "?pb = c # pb'" by (cases b) (auto simp: pbytes_def)
  have b0: "byte_at ?np ?zl1 = byte_at 0 ?pb"
    using byte_at_app [of ?P c "pb' @ C @ G0 @ ?Z"] by (simp add: pb byte_at_def)
  have lP: "length ?P = ?np" by simp
  consider (same) "b = b'" | (grow) "\<not> b" "b'" | (shrink) "b" "\<not> b'" by auto
  then have "\<exists>G y. length G = R \<and> length y = psize b' \<and>
      mem_move (?np + R) (nat (int ?np - widths_diff b b')) (nat (int T - int ?np - 1 + widths_diff b b')) ?zl1 =
      Some (?P @ G @ y @ C @ ?Z)"
  proof cases
    case same
    have a: "nat (int ?np - widths_diff b b') = ?np + 0" "nat (int T - int ?np - 1 + widths_diff b b') = length (?pb @ C)"
      "?np + R = ?np + 0 + R" using same T by simp_all
    obtain W where "length W = R" "mem_move (?np + 0 + R) (?np + 0) (length (?pb @ C)) (?P @ [] @ (?pb @ C) @ G0 @ ?Z) =
        Some (?P @ W @ (?pb @ C) @ ?Z)"
    proof -
      have "length G0 = R" using G0(1) same by (simp add: k_def)
      from move_right [OF lP list.size(3) this refl, of "?pb @ C" ?Z] show ?thesis using that by (metis add_0)
    qed
    then have "mem_move (?np + R) (nat (int ?np - widths_diff b b')) (nat (int T - int ?np - 1 + widths_diff b b')) ?zl1 =
        Some (?P @ W @ ?pb @ C @ ?Z)" unfolding a by simp
    then show ?thesis using \<open>length W = R\<close> same by (intro exI [of _ W] exI [of _ ?pb]) simp
  next
    case grow
    let ?PA = "take (?np - 4) ?P" and ?Q = "drop (?np - 4) ?P"
    have PQ1: "?P = ?PA @ ?Q" by (rule append_take_drop_id [symmetric])
    have PQ2: "length ?PA = ?np - 4" unfolding length_take lP by simp
    have PQ3: "length ?Q = 4" unfolding length_drop lP by simp
    note PQ = PQ1 PQ2 PQ3
    have a: "nat (int ?np - widths_diff b b') = ?np - 4 + 0"
      "nat (int T - int ?np - 1 + widths_diff b b') = length (?Q @ ?pb @ C)"
      "?np + R = ?np - 4 + 0 + k" using grow T by (simp_all add: k_def szs)
    obtain W where W: "W = take (0 + k) ((?Q @ ?pb @ C) @ G0 @ ?Z)"
      "mem_move (?np - 4 + 0 + k) (?np - 4 + 0) (length (?Q @ ?pb @ C)) (?PA @ [] @ (?Q @ ?pb @ C) @ G0 @ ?Z) =
        Some (?PA @ W @ (?Q @ ?pb @ C) @ ?Z)"
      using move_right [OF PQ(2) list.size(3) G0(1) refl, of "?Q @ ?pb @ C" ?Z] by blast
    let ?W = "take R (?pb @ C @ G0 @ ?Z)"
    have kR: "k = 4 + R" using grow by (simp add: k_def)
    have "W = ?Q @ ?W" unfolding W(1) kR using PQ(3) by (simp add: take_append)
    then have "mem_move (?np + R) (nat (int ?np - widths_diff b b')) (nat (int T - int ?np - 1 + widths_diff b b')) ?zl1 =
        Some (?PA @ (?Q @ ?W) @ (?Q @ ?pb @ C) @ ?Z)"
      using W(2) unfolding a by (simp only: append_assoc append_Nil PQ(1) [symmetric])
         (metis PQ(1) append_assoc)
    also have "?PA @ (?Q @ ?W) @ (?Q @ ?pb @ C) @ ?Z = ?P @ ?W @ (?Q @ ?pb) @ C @ ?Z"
      by (metis PQ(1) append_assoc)
    finally have "mem_move (?np + R) (nat (int ?np - widths_diff b b')) (nat (int T - int ?np - 1 + widths_diff b b')) ?zl1 =
        Some (?P @ ?W @ (?Q @ ?pb) @ C @ ?Z)" .
    moreover have "length ?W = R" using G0(1) kR by simp
    moreover have "length (?Q @ ?pb) = psize b'" using PQ(3) grow szs by simp
    ultimately show ?thesis by blast
  next
    case shrink
    let ?X = "take 4 ?pb" and ?y = "drop 4 ?pb"
    have xy: "?pb = ?X @ ?y" "length ?X = 4" "length ?y = 1" using shrink by (simp_all add: szs)
    have R4: "4 \<le> R" using bug shrink by simp
    have a: "nat (int ?np - widths_diff b b') = ?np + 4" "nat (int T - int ?np - 1 + widths_diff b b') = length (?y @ C)"
      "?np + R = ?np + 4 + k" using shrink T R4 by (simp_all add: k_def szs)
    obtain W where W: "length W = 4 + k"
      "mem_move (?np + 4 + k) (?np + 4) (length (?y @ C)) (?P @ ?X @ (?y @ C) @ G0 @ ?Z) = Some (?P @ W @ (?y @ C) @ ?Z)"
      using move_right [OF lP xy(2) G0(1) refl, of "?y @ C" ?Z] by blast
    have "?zl1 = ?P @ ?X @ (?y @ C) @ G0 @ ?Z" using xy(1) by (metis append_assoc)
    then have "mem_move (?np + R) (nat (int ?np - widths_diff b b')) (nat (int T - int ?np - 1 + widths_diff b b')) ?zl1 =
        Some (?P @ W @ ?y @ C @ ?Z)" unfolding a using W(2) by (simp only: append_assoc)
    moreover have "length W = R" using W(1) R4 shrink by (simp add: k_def)
    moreover have "length ?y = psize b'" using xy(3) shrink szs by simp
    ultimately show ?thesis by blast
  qed
  then show ?thesis using G0(2) b0 by (metis append_assoc)
qed

lemma insert_shift_ok:
  fixes u :: "byte list" and r :: "zent list" and b b' :: bool
  defines "C \<equiv> cbytes u @ lbytes (esize (b, u)) r"
  assumes mv: "mem_move (10 + length X + R) (nat (int (10 + length X) - widths_diff b b'))
      (nat (int T - int (10 + length X) - 1 + widths_diff b b')) zl1 =
    Some (hdr T' t n @ X @ G @ y @ C @ [ZIP_END])"
    and G: "length G = R" and y: "length y = psize b'" and b': "b' = (254 \<le> R)"
    and T: "T = 11 + length X + psize b + length C" and T': "T' = 11 + length X + R + psize b' + length C"
    and t: "t = 10 + length X + before_last ((b, u) # r)"
    and bound: "11 + length X + R + 5 + length C < 2 ^ 32" and ok: "length u < 2 ^ 32" "lok (esize (b, u)) r"
  shows "insert_shift (10 + length X) T R (widths_diff b b') zl1 =
    Some (stale n (X @ G) R (b', u) (esize (b, u)) r)"
proof -
  let ?p = "10 + length X"
  let ?t1 = "t + R"
  let ?t2 = "10 + length (X @ G) + before_last ((b', u) # r)"
  let ?Y = "X @ G @ pbytes b' R @ C @ [ZIP_END]"
  have szs: "psize True = 5" "psize False = 1" by (simp_all add: psize_def)
  have lC: "length C = length (cbytes u) + lsize r" by (simp add: C_def)
  have cond: "0 \<le> int ?p - widths_diff b b' \<and> 0 \<le> int T - int ?p - 1 + widths_diff b b'"
    using T lC by (cases b; cases b') (auto simp: szs)
  have R32: "u32_of R = R" "R < 2 ^ 32" using bound by auto
  have wr: "mem_write (?p + R) (zipPrevEncodeLength (u32_of R)) (hdr T' t n @ X @ G @ y @ C @ [ZIP_END]) =
    Some (hdr T' t n @ ?Y)"
  proof -
    have "mem_write (?p + R) (pbytes b' R) ((hdr T' t n @ X @ G) @ y @ C @ [ZIP_END]) =
      Some ((hdr T' t n @ X @ G) @ pbytes b' R @ C @ [ZIP_END])"
      by (rule mem_write_app) (simp_all add: G y)
    then show ?thesis by (simp add: R32(1) [simplified] b' zipPrevEncodeLength_pbytes)
  qed
  have bl: "before_last ((b, u) # r) \<le> length C + psize b"
    using before_last_le [of "(b, u) # r"] by (simp add: lC esize_flag)
  have bl': "before_last ((b', u) # r) \<le> length C + psize b'"
    using before_last_le [of "(b', u) # r"] by (simp add: lC esize_flag)
  have bd: "int (before_last ((b', u) # r)) = int (before_last ((b, u) # r)) + (if r = [] then 0 else widths_diff b b')"
    by (cases r) (auto simp: esize_flag widths_diff_def)
  have b5: "psize b \<le> 5" "psize b' \<le> 5" by (simp_all add: psize_def)
  have tlR: "t + R < 2 ^ 32" using bound b5 t bl by simp
  have t32: "t < 2 ^ 32" "?t2 < 2 ^ 32" using bound b5 t bl bl' G by auto
  have tl0: "ZIPLIST_TAIL_OFFSET (hdr T' t n @ ?Y) = Some t"
    using t32 hdr_fields(2) [of T' t n ?Y] by simp
  have s1: "set_TAIL_OFFSET (int t + int R) (hdr T' t n @ ?Y) = Some (hdr T' (t + R) n @ ?Y)"
    using set_tail_nat [OF tlR, of T' t n ?Y] by simp
  let ?zl2 = "hdr T' (t + R) n @ ?Y"
  let ?pre = "hdr T' (t + R) n @ X @ G"
  have e: "?zl2 = ?pre @ ebytes R (b', u) @ lbytes (esize (b, u)) r @ [ZIP_END]"
    by (simp add: C_def ebytes_def)
  have lpre: "length ?pre = ?p + R" by (simp add: G)
  have pok: "pok (fst (b', u)) R" using R32(2) b' by (simp add: pok_def)
  have es32: "esize (b', u) < 2 ^ 32" using bound lC b5 by (simp add: esize_flag)
  obtain en where en: "zipEntry (?p + R) ?zl2 = Some en" "headersize en + elen en = esize (b', u)"
    using decode_entry [OF pok _ es32, of ?pre "lbytes (esize (b, u)) r @ [ZIP_END]"] ok(1)
    unfolding e lpre by (metis snd_conv)
  have pos: "?p + R + headersize en + elen en = length (?pre @ ebytes R (b', u))"
    using en(2) by (simp add: G)
  obtain x where x: "byte_at (?p + R + headersize en + elen en) ?zl2 = Some x" "x = ZIP_END \<longleftrightarrow> r = []"
  proof (cases r)
    case Nil
    then have "byte_at (?p + R + headersize en + elen en) ?zl2 = Some ZIP_END"
      unfolding pos e using byte_at_app [of "?pre @ ebytes R (b', u)" ZIP_END "[]"] by simp
    then show ?thesis using that Nil by blast
  next
    case (Cons f fs)
    then have f: "pok (fst f) (esize (b, u))" "length (snd f) < 2 ^ 32" "esize f < 2 ^ 32" using ok(2) by auto
    have e2: "?zl2 = (?pre @ ebytes R (b', u)) @ ebytes (esize (b, u)) f @ lbytes (esize f) fs @ [ZIP_END]"
      unfolding e by (simp add: Cons)
    obtain x where "byte_at (?p + R + headersize en + elen en) ?zl2 = Some x" "x \<noteq> ZIP_END"
      using decode_entry [OF f, of "?pre @ ebytes R (b', u)" "lbytes (esize f) fs @ [ZIP_END]"]
      unfolding pos e2 by metis
    then show ?thesis using that Cons by blast
  qed
  have s2: "(if x \<noteq> ZIP_END
      then Option.bind (ZIPLIST_TAIL_OFFSET ?zl2) (\<lambda>t. set_TAIL_OFFSET (int t + widths_diff b b') ?zl2)
      else Some ?zl2) = Some (hdr T' ?t2 n @ ?Y)"
  proof (cases "r = []")
    case True
    then show ?thesis using x(2) bd t by (simp add: G add.assoc)
  next
    case False
    have "ZIPLIST_TAIL_OFFSET ?zl2 = Some (t + R)"
      using tlR hdr_fields(2) [of T' "t + R" n ?Y] by simp
    moreover have "int (t + R) + widths_diff b b' = int ?t2" using bd t False by (simp add: G)
    ultimately show ?thesis using x(2) False set_tail_nat [OF t32(2), of T' "t + R" n ?Y]
      by (simp only: Option.bind.simps simp_thms if_True)
  qed
  have "insert_shift ?p T R (widths_diff b b') zl1 = Some (hdr T' ?t2 n @ ?Y)"
    unfolding insert_shift_def
    by (simp only: cond simp_thms if_True mv wr tl0 s1 en(1) x(1) s2 Option.bind.simps)
  also have "hdr T' ?t2 n @ ?Y = stale n (X @ G) R (b', u) (esize (b, u)) r"
    using T' by (simp add: stale_def C_def ebytes_def esize_flag G lC add.assoc)
  finally show ?thesis .
qed

section \<open>Insertion\<close>

lemma casc_lok:
  "lok old es \<Longrightarrow> L < 2 ^ 32 \<Longrightarrow> lsize es + 4 * length es < 2 ^ 32 \<Longrightarrow> lok L (casc L es)"
proof (induction L es arbitrary: old rule: casc.induct)
  case (1 L)
  then show ?case by simp
next
  case (2 L b s es)
  show ?case
  proof (cases "\<not> b \<and> 254 \<le> L")
    case True
    have "esize (True, s) < 2 ^ 32" "lsize es + 4 * length es < 2 ^ 32"
      using 2(4) True by (auto simp: esize_flag psize_def)
    then have "lok (esize (True, s)) (casc (esize (True, s)) es)"
      using 2(1) [OF True, of "esize (b, s)"] 2(2) by simp
    then show ?thesis using True 2(2,3) \<open>esize (True, s) < 2 ^ 32\<close> by (simp add: pok_def)
  next
    case False
    then show ?thesis using 2(2,3) by (auto simp: pok_def)
  qed
qed

lemma reflag_lok:
  assumes "lok old es" and "R < 2 ^ 32" and "lsize es + 4 * (length es + 1) < 2 ^ 32"
  shows "lok R (reflag R es)"
proof (cases es)
  case Nil
  then show ?thesis by simp
next
  case (Cons f r)
  obtain b u where f: "f = (b, u)" by (cases f)
  have sz: "esize (254 \<le> R, u) < 2 ^ 32" using assms(3) by (auto simp: Cons f esize_flag psize_def split: if_splits)
  have "lok (esize (254 \<le> R, u)) (casc (esize (254 \<le> R, u)) r)"
    using assms by (intro casc_lok [OF _ sz]) (auto simp: Cons f)
  then show ?thesis using assms sz by (auto simp: Cons f pok_def)
qed

lemma reflag_size: "lsize (reflag R es) \<le> lsize es + 4 * length es"
proof (cases "(R, es)" rule: reflag.cases)
  case (2 R' b u r)
  then show ?thesis using casc_size [of "esize (254 \<le> R, u)" r] by (auto simp: esize_flag psize_def)
qed simp

lemma insert_write_ok:
  assumes enc: "new_encoding s = (paylen, encoding, v)" and G: "length G = esize (254 \<le> prev, s)" and n: "n < 2 ^ 16"
  shows "insert_write (10 + length X) prev encoding v s (hdr T t n @ X @ G @ Z) =
    Some (hdr T t (if n < UINT16_MAX then n + 1 else n) @ X @ ebytes prev (254 \<le> prev, s) @ Z)"
proof -
  let ?pl = "zipPrevEncodeLength prev" and ?len = "zipEncodeLength encoding (length s)"
  obtain pay where pay: "(if ZIP_IS_STR encoding then Some s else zipSaveInteger v encoding) = Some pay"
    "cbytes s = ?len @ pay"
  proof (cases "zipTryEncoding s")
    case None
    then show ?thesis using enc that [of s] by (auto simp: new_encoding_def cbytes_def)
  next
    case (Some a)
    then obtain w e where we: "zipTryEncoding s = Some (w, e)" by (cases a) auto
    from int_payload [OF this] obtain pl where "zipSaveInteger w e = Some pl" by blast
    then show ?thesis using enc that [of pl] we int_encoding [OF we]
      by (auto simp: new_encoding_def cbytes_def zipEncodeLength_def)
  qed
  have eb: "ebytes prev (254 \<le> prev, s) = ?pl @ ?len @ pay"
    by (simp add: ebytes_def pay(2) zipPrevEncodeLength_pbytes)
  have lG: "length G = length ?pl + (length ?len + length pay)"
    using G length_ebytes [of prev "(254 \<le> prev, s)"] unfolding eb by simp
  define A where "A = take (length ?pl) G"
  define B where "B = take (length ?len) (drop (length ?pl) G)"
  define D where "D = drop (length ?len) (drop (length ?pl) G)"
  have "G = A @ B @ D" unfolding A_def B_def D_def by (simp only: append_take_drop_id)
  moreover have "length A = length ?pl" "length B = length ?len" "length D = length pay"
    using lG by (simp_all add: A_def B_def D_def)
  ultimately have abd: "G = A @ B @ D" "length A = length ?pl" "length B = length ?len" "length D = length pay"
    by blast+
  let ?h = "hdr T t n"
  have w1: "mem_write (10 + length X) ?pl (?h @ X @ G @ Z) = Some ((?h @ X) @ ?pl @ B @ D @ Z)"
    using mem_write_app [of "?h @ X" "10 + length X" A ?pl "B @ D @ Z"] abd by simp
  have w2: "mem_write (10 + length X + length ?pl) ?len ((?h @ X) @ ?pl @ B @ D @ Z) =
      Some ((?h @ X @ ?pl) @ ?len @ D @ Z)"
    using mem_write_app [of "?h @ X @ ?pl" "10 + length X + length ?pl" B ?len "D @ Z"] abd by simp
  have w3: "mem_write (10 + length X + length ?pl + length ?len) pay ((?h @ X @ ?pl) @ ?len @ D @ Z) =
      Some (?h @ X @ ebytes prev (254 \<le> prev, s) @ Z)"
    using mem_write_app [of "?h @ X @ ?pl @ ?len" "10 + length X + length ?pl + length ?len" D pay Z] abd
    by (simp add: eb)
  have inc: "ZIPLIST_INCR_LENGTH 1 (?h @ Y) = Some (hdr T t (if n < UINT16_MAX then n + 1 else n) @ Y)" for Y
    using n by (auto simp: ZIPLIST_INCR_LENGTH_def hdr_fields hdr_updates UINT16_MAX_def nat_add_distrib mod_pos_pos_trivial)
  show ?thesis unfolding insert_write_def Let_def by (simp only: w1 w2 pay(1) w3 inc Option.bind.simps)
qed

lemma insert_prevlen_ok:
  assumes "lok 0 (xs @ ys)" and "11 + lsize (xs @ ys) < 2 ^ 32"
  obtains b where "byte_at (10 + lsize xs) (block n (xs @ ys)) = Some b" and "b = ZIP_END \<longleftrightarrow> ys = []"
    and "insert_prevlen (10 + lsize xs) b (block n (xs @ ys)) = Some (last_size 0 xs)"
proof (cases ys)
  case (Cons f r)
  obtain c u where f: "f = (c, u)" by (cases f)
  let ?pre = "hdr (11 + lsize (xs @ ys)) (10 + before_last (xs @ ys)) n @ lbytes 0 xs"
  have zl: "block n (xs @ ys) = ?pre @ ebytes (last_size 0 xs) f @ lbytes (esize f) r @ [ZIP_END]"
    by (simp add: block_def lbytes_append Cons)
  have ok: "pok c (last_size 0 xs)" using assms(1) by (auto simp: lok_append Cons f)
  have p: "length ?pre = 10 + lsize xs" by simp
  obtain x where x: "byte_at (10 + lsize xs) (block n (xs @ ys)) = Some x" "x \<noteq> ZIP_END"
    using first_byte [OF ok, of ?pre "cbytes u @ lbytes (esize f) r @ [ZIP_END]"]
    unfolding zl p by (auto simp: ebytes_def f)
  have "ZIP_DECODE_PREVLEN (10 + lsize xs) (block n (xs @ ys)) = Some (psize c, last_size 0 xs)"
    using decode_prevlen(2) [OF ok, of ?pre "cbytes u @ lbytes (esize f) r @ [ZIP_END]"]
    unfolding zl p by (simp add: ebytes_def f)
  then show ?thesis using x Cons by (intro that [of x]) (auto simp: insert_prevlen_def)
next
  case Nil
  let ?h = "hdr (11 + lsize xs) (10 + before_last xs) n"
  have zl: "block n (xs @ ys) = (?h @ lbytes 0 xs) @ ZIP_END # []" by (simp add: block_def Nil)
  have e: "byte_at (10 + lsize xs) (block n (xs @ ys)) = Some ZIP_END"
    unfolding zl using byte_at_app [of "?h @ lbytes 0 xs" ZIP_END "[]"] by simp
  have tl: "ZIPLIST_TAIL_OFFSET (block n (xs @ ys)) = Some (10 + before_last xs)"
    unfolding zl using hdr_fields(2) [of "11 + lsize xs" "10 + before_last xs" n] before_last_le [of xs] assms(2) Nil
    by (cases "xs = []") auto
  have "insert_prevlen (10 + lsize xs) ZIP_END (block n (xs @ ys)) = Some (last_size 0 xs)"
  proof (cases xs rule: rev_cases)
    case Nil': Nil
    then show ?thesis using tl e by (simp add: insert_prevlen_def)
  next
    case (snoc zs f)
    let ?pre = "?h @ lbytes 0 zs"
    have z2: "block n (xs @ ys) = ?pre @ ebytes (last_size 0 zs) f @ [ZIP_END]"
      by (simp add: block_def Nil snoc lbytes_append)
    have ok: "pok (fst f) (last_size 0 zs)" "length (snd f) < 2 ^ 32" "esize f < 2 ^ 32"
      using assms(1) by (auto simp: lok_append snoc Nil)
    have p: "length ?pre = 10 + before_last xs" by (simp add: snoc before_last_append)
    obtain x where "byte_at (10 + before_last xs) (block n (xs @ ys)) = Some x" "x \<noteq> ZIP_END"
      "zipRawEntryLength (10 + before_last xs) (block n (xs @ ys)) = Some (esize f)"
      using decode_entry [OF ok, of ?pre "[ZIP_END]"] unfolding z2 p by metis
    then show ?thesis using tl by (simp add: insert_prevlen_def snoc last_size_def)
  qed
  then show ?thesis using e Nil by (intro that) auto
qed

lemma len_field_incr: "len_field n k \<Longrightarrow> len_field (if n < UINT16_MAX then n + 1 else n) (Suc k)"
  by (auto simp: len_field_def)

lemma len_field_bound: "len_field n k \<Longrightarrow> n < 2 ^ 16"
  by (auto simp: len_field_def UINT16_MAX_def)

lemma zipPrevLenByteDiff_ok:
  "pok b old \<Longrightarrow> zipPrevLenByteDiff (length pre) R (pre @ pbytes b old @ post) = Some (widths_diff b (254 \<le> R))"
  by (simp add: zipPrevLenByteDiff_def decode_prevlen zipPrevEncodeLength_pbytes widths_diff_def)

lemma cascade_stale:
  assumes "pok (fst e) q" and "length (snd e) < 2 ^ 32" and "lok old es"
    and "11 + length A + esize e + lsize es + 4 * length es < 2 ^ 32"
  shows "u_ziplistCascadeUpdate junk (10 + length A) (stale n A q e old es) =
    Some (stale n A q e (esize e) (casc (esize e) es))"
proof -
  have "ZIPLIST_BYTES (stale n A q e old es) = Some (11 + length A + esize e + lsize es)"
    unfolding stale_def hdr_fields using assms(4) by simp
  then show ?thesis using cascade_loop_ok [OF assms] by (simp add: u_ziplistCascadeUpdate_def)
qed

text \<open>The next entry and what follows after an update of its \<open>prevlen\<close> to \<open>R\<close>.\<close>

lemma update_next:
  assumes "length u < 2 ^ 32" and "lok (esize (b, u)) r" and "R < 2 ^ 32"
    and "11 + length A + 5 + length (cbytes u) + lsize r + 4 * length r < 2 ^ 32"
  shows "(if widths_diff b (254 \<le> R) \<noteq> 0
       then u_ziplistCascadeUpdate junk (10 + length A) (stale n A R (254 \<le> R, u) (esize (b, u)) r)
       else Some (stale n A R (254 \<le> R, u) (esize (b, u)) r)) =
    Some (hdr (11 + length A + lsize (reflag R ((b, u) # r))) (10 + length A + before_last (reflag R ((b, u) # r))) n @
      A @ lbytes R (reflag R ((b, u) # r)) @ [ZIP_END])"
proof (cases "b = (254 \<le> R)")
  case True
  then show ?thesis by (simp add: stale_def add.assoc)
next
  case False
  let ?e = "(254 \<le> R, u)"
  have d: "widths_diff b (254 \<le> R) \<noteq> 0" using False by (cases b) (auto simp: widths_diff_def psize_def)
  have "esize ?e \<le> 5 + length (cbytes u)" by (simp add: esize_flag psize_def)
  then have b: "11 + length A + esize ?e + lsize r + 4 * length r < 2 ^ 32" using assms(4) by simp
  have "pok (fst ?e) R" using assms(3) by (simp add: pok_def)
  from cascade_stale [OF this _ assms(2) b] assms(1) d False show ?thesis
    by (simp add: stale_def add.assoc)
qed

lemma u_ziplistInsert_ok:
  assumes rep: "zl_rep zl (xs @ ys)" and s: "length s < 2 ^ 32"
    and R: "R = esize (254 \<le> last_size 0 xs, s)"
    and bound: "11 + lsize (xs @ ys) + R + 5 + 4 * (length ys + 1) < 2 ^ 32"
    and bug: "\<And>u r. ys = (True, u) # r \<Longrightarrow> R < 254 \<Longrightarrow> 4 \<le> R"
  shows "\<exists>zl'. u_ziplistInsert junk (10 + lsize xs) s zl = Some zl' \<and>
    zl_rep zl' (xs @ (254 \<le> last_size 0 xs, s) # reflag R ys)"
proof -
  let ?prev = "last_size 0 xs" and ?p = "10 + lsize xs" and ?X = "lbytes 0 xs"
  let ?e0 = "(254 \<le> ?prev, s)"
  obtain n where zl: "zl = block n (xs @ ys)" and n: "len_field n (length (xs @ ys))" using rep by (auto simp: zl_rep_def)
  have ok: "lok 0 (xs @ ys)" and T32: "11 + lsize (xs @ ys) < 2 ^ 32" using rep by (auto simp: zl_rep_def)
  let ?T = "11 + lsize (xs @ ys)" and ?t = "10 + before_last (xs @ ys)"
  have lX: "length ?X = lsize xs" by simp
  have pX: "?p = 10 + length ?X" by simp
  have zl': "zl = hdr ?T ?t n @ ?X @ lbytes ?prev ys @ [ZIP_END]" by (simp add: zl block_def lbytes_append)
  have bytes: "ZIPLIST_BYTES zl = Some ?T" unfolding zl' hdr_fields using T32 by simp
  obtain paylen encoding v where enc: "new_encoding s = (paylen, encoding, v)" by (cases "new_encoding s") auto
  have req: "paylen + length (zipPrevEncodeLength ?prev) + length (zipEncodeLength encoding (length s)) = R"
    using new_encoding_size [OF enc] R by simp
  have R32: "u32_of R = R" "R < 2 ^ 32" and R0: "0 < R" using bound R by auto
  have prev32: "?prev < 2 ^ 32"
    using T32 by (cases xs rule: rev_cases) (auto simp: last_size_def)
  obtain x where x: "byte_at ?p zl = Some x" "x = ZIP_END \<longleftrightarrow> ys = []" "insert_prevlen ?p x zl = Some ?prev"
    using insert_prevlen_ok [OF ok T32, of n] unfolding zl by metis
  let ?n' = "if n < UINT16_MAX then n + 1 else n"
  let ?es = "xs @ ?e0 # reflag R ys"
  have lf: "len_field ?n' (length ?es)"
  proof -
    show ?thesis using len_field_incr [OF n] by simp
  qed
  have lok': "lok 0 ?es"
    using ok reflag_lok [of ?prev ys R] bound prev32 s R R32(2)
    by (auto simp: lok_append pok_def)
  have sz': "11 + lsize ?es < 2 ^ 32" using reflag_size [of R ys] bound R by simp
  have core: "\<exists>zl1 d zl2 zl3 x1 G. (if x \<noteq> ZIP_END then zipPrevLenByteDiff ?p (u32_of R) zl else Some 0) = Some d \<and>
      ziplistResize junk (nat ((int ?T + int R + d) mod 2 ^ 32)) zl = Some zl1 \<and>
      byte_at ?p zl1 = Some x1 \<and>
      (if x1 \<noteq> ZIP_END then insert_shift ?p ?T R d zl1 else set_TAIL_OFFSET (int ?p) zl1) = Some zl2 \<and>
      (if d \<noteq> 0 then u_ziplistCascadeUpdate junk (?p + R) zl2 else Some zl2) = Some zl3 \<and> length G = R \<and>
      zl3 = hdr (11 + lsize ?es) (10 + before_last ?es) n @ ?X @ G @ lbytes R (reflag R ys) @ [ZIP_END]"
  proof (cases ys)
    case Nil
    have T: "?T = 11 + length ?X" using Nil by simp
    have nat_eq: "nat ((int ?T + int R + 0) mod 2 ^ 32) = 11 + length ?X + R" using bound T by (simp add: nat_mod_distrib)
    obtain G where G: "length G = R" "hd G = ZIP_END"
      "ziplistResize junk (11 + length ?X + R) (hdr ?T ?t n @ ?X @ [ZIP_END]) =
        Some (hdr (11 + length ?X + R) ?t n @ ?X @ G @ [ZIP_END])"
      using resize_grow_pad [OF refl, where R = ?X and k = R and x = ZIP_END and a = ?T and b = ?t and c = n
          and junk = junk] R0 by auto
    then obtain G' where G': "G = ZIP_END # G'" using R0 by (cases G) auto
    let ?zl1 = "hdr (11 + length ?X + R) ?t n @ ?X @ G @ [ZIP_END]"
    have "byte_at ?p ?zl1 = Some ZIP_END"
      using byte_at_app [of "hdr (11 + length ?X + R) ?t n @ ?X" ZIP_END "G' @ [ZIP_END]"] by (simp add: G')
    moreover have "set_TAIL_OFFSET (int ?p) ?zl1 = Some (hdr (11 + length ?X + R) ?p n @ ?X @ G @ [ZIP_END])"
      using set_tail_nat [of ?p "11 + length ?X + R" ?t n "?X @ G @ [ZIP_END]"] T32 by simp
    moreover have "ziplistResize junk (nat ((int ?T + int R + 0) mod 2 ^ 32)) zl = Some ?zl1"
      unfolding nat_eq zl' using G(3) by (simp add: Nil)
    ultimately show ?thesis using x(2) G(1) R
      by (intro exI [of _ ?zl1] exI [of _ 0] exI [of _ "hdr (11 + length ?X + R) ?p n @ ?X @ G @ [ZIP_END]"]
          exI [of _ ZIP_END] exI [of _ G]) (simp add: Nil before_last_append add.assoc)
  next
    case (Cons f r)
    obtain b u where f: "f = (b, u)" by (cases f)
    let ?b' = "254 \<le> R" and ?C = "cbytes u @ lbytes (esize (b, u)) r"
    let ?d = "widths_diff b ?b'"
    have y: "pok b ?prev" "length u < 2 ^ 32" "esize (b, u) < 2 ^ 32" "lok (esize (b, u)) r"
      using ok by (auto simp: lok_append Cons f)
    have zl2: "zl = hdr ?T ?t n @ ?X @ pbytes b ?prev @ ?C @ [ZIP_END]"
      unfolding zl' by (simp add: Cons f ebytes_def)
    have xne: "x \<noteq> ZIP_END" using x(2) Cons by simp
    have dif: "zipPrevLenByteDiff ?p (u32_of R) zl = Some ?d"
      using zipPrevLenByteDiff_ok [OF y(1), of "hdr ?T ?t n @ ?X" R "?C @ [ZIP_END]"]
      unfolding zl2 R32(1) by (simp add: add.commute)
    have T: "?T = 11 + length ?X + psize b + length ?C" by (simp add: Cons f esize_flag)
    let ?T' = "11 + length ?X + R + psize ?b' + length ?C"
    have T': "int ?T' = int ?T + int R + ?d" unfolding T by (simp add: widths_diff_def)
    have b5: "psize b \<le> 5" "psize ?b' \<le> 5" by (simp_all add: psize_def)
    have T'32: "?T' < 2 ^ 32" using bound b5 by (simp add: Cons f esize_flag)
    have nat_eq: "nat ((int ?T + int R + ?d) mod 2 ^ 32) = ?T'"
      unfolding T' [symmetric] using T'32 by (simp add: nat_mod_distrib del: of_nat_add)
    have bug': "b \<and> \<not> ?b' \<Longrightarrow> 4 \<le> R" using bug [of u r] by (auto simp: Cons f)
    obtain G zl1 yy where sh: "ziplistResize junk ?T' zl = Some zl1" "length G = R"
      "byte_at ?p zl1 = byte_at 0 (pbytes b ?prev)"
      "mem_move (?p + R) (nat (int ?p - ?d)) (nat (int ?T - int ?p - 1 + ?d)) zl1 =
        Some (hdr ?T' ?t n @ ?X @ G @ yy @ ?C @ [ZIP_END])" "length yy = psize ?b'"
      using shift_move [OF T R0 T' bug', of junk ?t n ?prev] unfolding zl2 [symmetric] pX by metis
    obtain x1 where x1: "byte_at ?p zl1 = Some x1" "x1 \<noteq> ZIP_END"
      using first_byte [OF y(1), of "[]" "[]"] sh(3) by auto
    have t: "?t = 10 + length ?X + before_last ((b, u) # r)" by (simp add: Cons f before_last_append)
    have bnd: "11 + length ?X + R + 5 + length ?C < 2 ^ 32" using bound by (simp add: Cons f esize_flag)
    have sf: "insert_shift ?p ?T R ?d zl1 = Some (stale n (?X @ G) R (?b', u) (esize (b, u)) r)"
      using insert_shift_ok [OF sh(4) [unfolded pX] sh(2,5) refl T refl t bnd y(2,4)] unfolding pX .
    have cas: "(if ?d \<noteq> 0 then u_ziplistCascadeUpdate junk (?p + R) (stale n (?X @ G) R (?b', u) (esize (b, u)) r)
        else Some (stale n (?X @ G) R (?b', u) (esize (b, u)) r)) =
      Some (hdr (11 + lsize ?es) (10 + before_last ?es) n @ ?X @ G @ lbytes R (reflag R ys) @ [ZIP_END])"
    proof -
      have "11 + length (?X @ G) + 5 + length (cbytes u) + lsize r + 4 * length r < 2 ^ 32"
        using bound sh(2) by (simp add: Cons f esize_flag)
      note un = update_next [OF y(2,4) R32(2) this, of junk n]
      have pos: "?p + R = 10 + length (?X @ G)" using sh(2) by simp
      obtain g gs where g: "reflag R ys = g # gs" by (cases "reflag R ys") (use length_reflag [of R ys] Cons in auto)
      have "11 + length (?X @ G) + lsize (reflag R ys) = 11 + lsize ?es"
        "10 + length (?X @ G) + before_last (reflag R ys) = 10 + before_last ?es"
        by (simp_all add: before_last_append g sh(2) R [symmetric])
      then show ?thesis using un unfolding pos by (simp only: Cons f append_assoc)
    qed
    show ?thesis using xne dif nat_eq sh(1,2) x1 sf cas by force
  qed
  then obtain zl1 d zl2 zl3 x1 G where c:
    "(if x \<noteq> ZIP_END then zipPrevLenByteDiff ?p (u32_of R) zl else Some 0) = Some d"
    "ziplistResize junk (nat ((int ?T + int R + d) mod 2 ^ 32)) zl = Some zl1"
    "byte_at ?p zl1 = Some x1"
    "(if x1 \<noteq> ZIP_END then insert_shift ?p ?T R d zl1 else set_TAIL_OFFSET (int ?p) zl1) = Some zl2"
    "(if d \<noteq> 0 then u_ziplistCascadeUpdate junk (?p + R) zl2 else Some zl2) = Some zl3" "length G = R"
    "zl3 = hdr (11 + lsize ?es) (10 + before_last ?es) n @ ?X @ G @ lbytes R (reflag R ys) @ [ZIP_END]" by blast
  have w: "insert_write ?p ?prev encoding v s zl3 = Some (block ?n' ?es)"
    unfolding c(7) using insert_write_ok [OF enc _ len_field_bound [OF n], of G ?prev ?X] c(6) R
    by (simp add: block_def lbytes_append)
  have "u_ziplistInsert junk ?p s zl = Some (block ?n' ?es)"
    unfolding u_ziplistInsert_def
    by (simp only: bytes x(1,3) enc prod.case Let_def req c(1-5) w Option.bind.simps)
  moreover have "zl_rep (block ?n' ?es) ?es" using lf lok' sz' by (auto simp: zl_rep_def)
  ultimately show ?thesis by blast
qed

section \<open>Deletion\<close>

lemma skip_entries_ok:
  "lok prev ds \<Longrightarrow> lok (last_size prev ds) ys \<Longrightarrow> length ds = num \<or> ys = [] \<and> length ds \<le> num \<Longrightarrow>
   skip_entries num (length pre) (pre @ lbytes prev ds @ lbytes (last_size prev ds) ys @ [ZIP_END]) =
     Some (length pre + lsize ds, length ds)"
proof (induction ds arbitrary: num pre prev)
  case Nil
  show ?case
  proof (cases num)
    case (Suc k)
    then have "ys = []" using Nil by simp
    then show ?thesis using Suc byte_at_app [of pre ZIP_END "[]"] by simp
  qed simp
next
  case (Cons e ds)
  then obtain k where k: "num = Suc k" by (cases num) auto
  let ?zl = "pre @ lbytes prev (e # ds) @ lbytes (last_size prev (e # ds)) ys @ [ZIP_END]"
  let ?post = "lbytes (esize e) ds @ lbytes (last_size (esize e) ds) ys @ [ZIP_END]"
  have z: "?zl = pre @ ebytes prev e @ ?post" by simp
  have e: "pok (fst e) prev" "length (snd e) < 2 ^ 32" "esize e < 2 ^ 32" using Cons.prems(1) by auto
  obtain x where x: "byte_at (length pre) ?zl = Some x" "x \<noteq> ZIP_END"
    "zipRawEntryLength (length pre) ?zl = Some (esize e)"
    using decode_entry [OF e, of pre ?post] unfolding z by metis
  have "skip_entries k (length (pre @ ebytes prev e)) ((pre @ ebytes prev e) @ ?post) =
    Some (length (pre @ ebytes prev e) + lsize ds, length ds)"
    using Cons.prems k by (intro Cons.IH) auto
  then have ih: "skip_entries k (length pre + esize e) ?zl = Some (length pre + lsize (e # ds), length ds)"
    by (simp add: add.assoc)
  show ?case unfolding k skip_entries.simps using x(2) by (simp only: x(1,3) ih Option.bind.simps if_False prod.case) simp
qed

lemma move_left:
  assumes "length P = start" and "length M = n" and "length E = k"
  shows "\<exists>W. mem_move start (start + k) n (P @ E @ M @ Z) = Some (P @ M @ W)"
  using assms by (simp add: mem_move_Some take_append)

lemma delete_join_ok:
  fixes u :: "byte list" and r :: "zent list" and b :: bool
  defines "C \<equiv> cbytes u @ lbytes (esize (b, u)) r"
  assumes R: "R < 2 ^ 32" and b': "b' = (254 \<le> R)" and D: "b' \<Longrightarrow> 4 \<le> length D"
    and T: "T = 11 + length X + length D + psize b + length C"
    and t: "t = 10 + length X + length D + before_last ((b, u) # r)"
    and bound: "T + 5 < 2 ^ 32" and ok: "pok b old" "length u < 2 ^ 32" "lok (esize (b, u)) r"
  shows "\<exists>W. delete_join (10 + length X) (10 + length X + length D) R (length D)
      (hdr T t n @ X @ D @ pbytes b old @ C @ [ZIP_END]) =
    Some (hdr T (10 + length X + before_last ((b', u) # r)) n @ X @ pbytes b' R @ C @ W, widths_diff b b')"
proof -
  let ?start = "10 + length X" and ?d = "widths_diff b b'"
  let ?p = "?start + length D" and ?pb = "pbytes b old" and ?Z = "[ZIP_END]"
  have szs: "psize True = 5" "psize False = 1" by (simp_all add: psize_def)
  let ?zl0 = "hdr T t n @ X @ D @ ?pb @ C @ ?Z"
  have "zipPrevLenByteDiff (length (hdr T t n @ X @ D)) R ((hdr T t n @ X @ D) @ ?pb @ C @ ?Z) = Some ?d"
    using zipPrevLenByteDiff_ok [OF ok(1)] b' by blast
  then have dif: "zipPrevLenByteDiff ?p R ?zl0 = Some ?d" by (simp add: add.assoc)
  obtain E y where E: "D @ ?pb = E @ y" "length y = psize b'" "int (length E) = int (length D) - ?d"
  proof -
    consider (same) "b = b'" | (grow) "\<not> b" "b'" | (shrink) "b" "\<not> b'" by auto
    then show ?thesis
    proof cases
      case same
      then show ?thesis by (intro that [of D ?pb]) simp_all
    next
      case grow
      then show ?thesis using D
        by (intro that [of "take (length D - 4) D" "drop (length D - 4) D @ ?pb"]) (simp_all add: szs of_nat_diff)
    next
      case shrink
      then show ?thesis by (intro that [of "D @ take 4 ?pb" "drop 4 ?pb"]) (simp_all add: szs)
    qed
  qed
  let ?q = "?start + length E"
  have q: "nat (int ?p - ?d) = ?q" using E(3) by simp
  have wr: "mem_write ?q (zipPrevEncodeLength R) ?zl0 = Some (hdr T t n @ X @ E @ pbytes b' R @ C @ ?Z)"
  proof -
    have z: "?zl0 = (hdr T t n @ X @ E) @ y @ C @ ?Z" using E(1) by (metis append_assoc)
    have "mem_write ?q (pbytes b' R) ((hdr T t n @ X @ E) @ y @ C @ ?Z) =
      Some ((hdr T t n @ X @ E) @ pbytes b' R @ C @ ?Z)"
      by (rule mem_write_app) (simp_all add: E(2))
    then show ?thesis unfolding z by (simp add: zipPrevEncodeLength_pbytes b')
  qed
  let ?Y = "X @ E @ pbytes b' R @ C @ ?Z"
  let ?t1 = "?start + before_last ((b, u) # r)" and ?t2 = "?start + before_last ((b', u) # r)"
  have lC: "length C = length (cbytes u) + lsize r" by (simp add: C_def)
  have bl: "before_last ((b, u) # r) < psize b + length C"
    using before_last_le [of "(b, u) # r"] by (simp add: lC esize_flag)
  have bl': "before_last ((b', u) # r) < psize b' + length C"
    using before_last_le [of "(b', u) # r"] by (simp add: lC esize_flag)
  have b5: "psize b \<le> 5" "psize b' \<le> 5" "psize b' \<le> psize b + 4" by (simp_all add: psize_def)
  have t32: "t < 2 ^ 32" "?t1 < 2 ^ 32" "?t2 < 2 ^ 32" using bound T t bl bl' b5 by auto
  have tl0: "ZIPLIST_TAIL_OFFSET (hdr T t n @ ?Y) = Some t" using hdr_fields(2) [of T t n ?Y] t32 by simp
  have tt: "int t - int (length D) = int ?t1" using t by simp
  have s1: "set_TAIL_OFFSET (int t - int (length D)) (hdr T t n @ ?Y) = Some (hdr T ?t1 n @ ?Y)"
    unfolding tt by (rule set_tail_nat [OF t32(2)])
  let ?zl2 = "hdr T ?t1 n @ ?Y"
  let ?pre = "hdr T ?t1 n @ X @ E"
  have e: "?zl2 = ?pre @ ebytes R (b', u) @ lbytes (esize (b, u)) r @ ?Z" by (simp add: C_def ebytes_def)
  have lpre: "length ?pre = ?q" by simp
  have pok: "pok (fst (b', u)) R" using R b' by (simp add: pok_def)
  have es32: "esize (b', u) < 2 ^ 32" using bound T lC b5 by (simp add: esize_flag)
  obtain en where en: "zipEntry ?q ?zl2 = Some en" "headersize en + elen en = esize (b', u)"
    using decode_entry [OF pok _ es32, of ?pre "lbytes (esize (b, u)) r @ ?Z"] ok(2)
    unfolding e lpre by (metis snd_conv)
  have pos: "?q + u32_of (headersize en + elen en) = length (?pre @ ebytes R (b', u))"
    using en(2) es32 by simp
  obtain x where x: "byte_at (?q + u32_of (headersize en + elen en)) ?zl2 = Some x" "x = ZIP_END \<longleftrightarrow> r = []"
  proof (cases r)
    case Nil
    then have "byte_at (?q + u32_of (headersize en + elen en)) ?zl2 = Some ZIP_END"
      unfolding pos e using byte_at_app [of "?pre @ ebytes R (b', u)" ZIP_END "[]"] by simp
    then show ?thesis using that Nil by blast
  next
    case (Cons f fs)
    then have f: "pok (fst f) (esize (b, u))" "length (snd f) < 2 ^ 32" "esize f < 2 ^ 32" using ok(3) by auto
    have e2: "?zl2 = (?pre @ ebytes R (b', u)) @ ebytes (esize (b, u)) f @ lbytes (esize f) fs @ ?Z"
      unfolding e by (simp add: Cons)
    obtain x where "byte_at (?q + u32_of (headersize en + elen en)) ?zl2 = Some x" "x \<noteq> ZIP_END"
      using decode_entry [OF f, of "?pre @ ebytes R (b', u)" "lbytes (esize f) fs @ ?Z"]
      unfolding pos e2 by metis
    then show ?thesis using that Cons by blast
  qed
  have bd: "int (before_last ((b', u) # r)) = int (before_last ((b, u) # r)) + (if r = [] then 0 else ?d)"
    by (cases r) (auto simp: esize_flag widths_diff_def)
  have s2: "(if x \<noteq> ZIP_END
      then Option.bind (ZIPLIST_TAIL_OFFSET ?zl2) (\<lambda>t. set_TAIL_OFFSET (int t + ?d) ?zl2)
      else Some ?zl2) = Some (hdr T ?t2 n @ ?Y)"
  proof (cases "r = []")
    case True
    then show ?thesis using x(2) bd by simp
  next
    case False
    have "ZIPLIST_TAIL_OFFSET ?zl2 = Some ?t1" using t32(2) hdr_fields(2) [of T ?t1 n ?Y] by simp
    moreover have "int ?t1 + ?d = int ?t2" using bd False by simp
    ultimately show ?thesis using x(2) False set_tail_nat [OF t32(3), of T ?t1 n ?Y]
      by (simp only: Option.bind.simps simp_thms if_True)
  qed
  have bt: "ZIPLIST_BYTES (hdr T ?t2 n @ ?Y) = Some T" using hdr_fields(1) [of T ?t2 n ?Y] bound by simp
  have "int T - int ?q - 1 = int (psize b') + int (length C)" using E(3) T by (simp add: widths_diff_def)
  then have n: "T - ?q - 1 = psize b' + length C" and c: "?q + 1 \<le> T" by linarith+
  obtain W where W: "mem_move ?start ?q (psize b' + length C) ((hdr T ?t2 n @ X) @ E @ (pbytes b' R @ C) @ ?Z) =
      Some ((hdr T ?t2 n @ X) @ (pbytes b' R @ C) @ W)"
    using move_left [of "hdr T ?t2 n @ X" ?start "pbytes b' R @ C" "psize b' + length C" E "length E" ?Z] by auto
  then have mv: "mem_move ?start ?q (T - ?q - 1) (hdr T ?t2 n @ ?Y) = Some (hdr T ?t2 n @ X @ pbytes b' R @ C @ W)"
    unfolding n by simp
  have "delete_join ?start ?p R (length D) ?zl0 = Some (hdr T ?t2 n @ X @ pbytes b' R @ C @ W, ?d)"
    unfolding delete_join_def Let_def
    by (simp only: dif q wr tl0 s1 en(1) x(1) s2 bt c if_True mv Option.bind.simps)
  then show ?thesis by blast
qed

lemma len_field_decr:
  "len_field n (k + j) \<Longrightarrow> len_field (if n < UINT16_MAX then n - j else n) k"
  by (auto simp: len_field_def)

lemma incr_neg:
  assumes "len_field n (k + j)"
  shows "ZIPLIST_INCR_LENGTH (- int j) (hdr T t n @ Y) = Some (hdr T t (if n < UINT16_MAX then n - j else n) @ Y)"
proof -
  have n: "n mod 65536 = n" using len_field_bound [OF assms] by simp
  have "n < UINT16_MAX \<Longrightarrow> nat ((int n - int j) mod 65536) = n - j"
  proof -
    assume "n < UINT16_MAX"
    then have "j \<le> n" "n < 65536" using assms by (auto simp: len_field_def UINT16_MAX_def)
    then show ?thesis by (simp add: of_nat_diff [symmetric] nat_mod_distrib del: of_nat_diff)
  qed
  then show ?thesis using n by (auto simp: ZIPLIST_INCR_LENGTH_def hdr_fields hdr_updates)
qed

lemma resize_cut:
  assumes "len = 11 + length B"
  shows "ziplistResize junk len (hdr a b c @ B @ W) = Some (hdr len b c @ B @ [ZIP_END])"
  using resize_eq [of len junk a b c "B @ W"] assms by simp

lemma u_ziplistDelete_ok:
  assumes rep: "zl_rep zl (xs @ ds @ ys)" and ds: "ds \<noteq> []"
    and num: "length ds = num \<or> ys = [] \<and> length ds \<le> num"
    and bound: "11 + lsize (xs @ ds @ ys) + 5 + 4 * length ys < 2 ^ 32"
  shows "\<exists>zl'. u_ziplistDelete junk (10 + lsize xs) num zl = Some zl' \<and>
    zl_rep zl' (xs @ reflag (last_size 0 xs) ys)"
proof -
  let ?prev = "last_size 0 xs" and ?start = "10 + lsize xs" and ?X = "lbytes 0 xs"
  let ?D = "lbytes ?prev ds" and ?last = "last_size ?prev ds"
  let ?all = "xs @ ds @ ys"
  obtain n where zl: "zl = block n ?all" and n: "len_field n (length ?all)" using rep by (auto simp: zl_rep_def)
  have ok: "lok 0 xs" "lok ?prev ds" "lok ?last ys" and T32: "11 + lsize ?all < 2 ^ 32"
    using rep by (auto simp: zl_rep_def lok_append)
  let ?T = "11 + lsize ?all" and ?t = "10 + before_last ?all"
  have zl': "zl = (hdr ?T ?t n @ ?X) @ ?D @ lbytes ?last ys @ [ZIP_END]" by (simp add: zl block_def lbytes_append)
  obtain e es where ees: "ds = e # es" using ds by (cases ds) auto
  have oke: "pok (fst e) ?prev" "length (snd e) < 2 ^ 32" "esize e < 2 ^ 32" using ok(2) by (auto simp: ees)
  have lpre: "length (hdr ?T ?t n @ ?X) = ?start" by simp
  obtain first where first: "zipEntry ?start zl = Some first" "prevrawlen first = ?prev"
    using decode_entry [OF oke, of "hdr ?T ?t n @ ?X" "lbytes (esize e) es @ lbytes ?last ys @ [ZIP_END]"]
    unfolding zl' lpre by (simp add: ees) metis
  have skip: "skip_entries num ?start zl = Some (?start + lsize ds, length ds)"
    using skip_entries_ok [OF ok(2,3) num, of "hdr ?T ?t n @ ?X"] unfolding zl' lpre .
  have tot: "u32_of (?start + lsize ds - ?start) = lsize ds" using T32 by simp
  have pos: "lsize ds \<noteq> 0" using esize_pos [of e] by (simp add: ees)
  have p: "length (hdr ?T ?t n @ ?X @ ?D) = ?start + lsize ds" by simp
  let ?n' = "if n < UINT16_MAX then n - length ds else n"
  let ?es = "xs @ reflag ?prev ys"
  have nn: "len_field n ((length xs + length ys) + length ds)" using n by (simp add: ac_simps)
  have lf: "len_field ?n' (length ?es)" using len_field_decr [OF nn] by simp
  note inc = incr_neg [OF nn]
  have prev32: "?prev < 2 ^ 32" using T32 by (cases xs rule: rev_cases) (auto simp: last_size_def)
  have lok': "lok 0 ?es" using ok reflag_lok [OF ok(3) prev32] bound by (simp add: lok_append)
  have run: "\<exists>x zl1 d b1 zl2. byte_at (?start + lsize ds) zl = Some x \<and>
      (if x \<noteq> ZIP_END then delete_join ?start (?start + lsize ds) ?prev (lsize ds) zl
       else Option.bind (set_TAIL_OFFSET (int ?start - int ?prev) zl) (\<lambda>zl. Some (zl, 0))) = Some (zl1, d) \<and>
      ZIPLIST_BYTES zl1 = Some b1 \<and>
      ziplistResize junk (nat ((int b1 - int (lsize ds) + d) mod 2 ^ 32)) zl1 = Some zl2 \<and>
      Option.bind (ZIPLIST_INCR_LENGTH (- int (length ds)) zl2)
        (\<lambda>zl. if d \<noteq> 0 then u_ziplistCascadeUpdate junk ?start zl else Some zl) = Some (block ?n' ?es)"
  proof (cases ys)
    case Nil
    have z: "zl = hdr ?T ?t n @ ?X @ ?D @ [ZIP_END]" using zl' by (simp add: Nil)
    have x: "byte_at (?start + lsize ds) zl = Some ZIP_END"
      using byte_at_app [of "hdr ?T ?t n @ ?X @ ?D" ZIP_END "[]"] unfolding z p by simp
    have tl: "int ?start - int ?prev = int (10 + before_last xs)"
      by (cases xs rule: rev_cases) (auto simp: last_size_def before_last_append)
    have b32: "10 + before_last xs < 2 ^ 32" using T32 before_last_le [of xs] by (cases "xs = []") auto
    have st: "set_TAIL_OFFSET (int ?start - int ?prev) zl = Some (hdr ?T (10 + before_last xs) n @ ?X @ ?D @ [ZIP_END])"
      unfolding tl z by (rule set_tail_nat [OF b32])
    have bt: "ZIPLIST_BYTES (hdr ?T (10 + before_last xs) n @ ?X @ ?D @ [ZIP_END]) = Some ?T"
      unfolding hdr_fields using T32 by simp
    have len: "nat ((int ?T - int (lsize ds) + 0) mod 2 ^ 32) = 11 + length ?X"
      using T32 by (simp add: Nil nat_mod_distrib)
    have rs: "ziplistResize junk (nat ((int ?T - int (lsize ds) + 0) mod 2 ^ 32))
        (hdr ?T (10 + before_last xs) n @ ?X @ ?D @ [ZIP_END]) =
      Some (hdr (11 + length ?X) (10 + before_last xs) n @ ?X @ [ZIP_END])"
      unfolding len by (rule resize_cut [OF refl])
    show ?thesis
      using x st bt rs inc by (intro exI conjI) (auto simp: block_def Nil)
  next
    case (Cons f r)
    obtain b u where f: "f = (b, u)" by (cases f)
    let ?C = "cbytes u @ lbytes (esize (b, u)) r" and ?b' = "254 \<le> ?prev"
    let ?d = "widths_diff b ?b'"
    have y: "pok b ?last" "length u < 2 ^ 32" "lok (esize (b, u)) r" using ok(3) by (auto simp: Cons f)
    have z: "zl = hdr ?T ?t n @ ?X @ ?D @ pbytes b ?last @ ?C @ [ZIP_END]" using zl' by (simp add: Cons f ebytes_def)
    obtain x where x: "byte_at (?start + lsize ds) zl = Some x" "x \<noteq> ZIP_END"
      using first_byte [OF y(1), of "hdr ?T ?t n @ ?X @ ?D" "?C @ [ZIP_END]"] unfolding z p by auto
    have D4: "4 \<le> length ?D" if ?b'
    proof -
      have "fst e" using oke(1) that by (auto simp: pok_def split: if_splits)
      then show ?thesis using esize_ge [of e] by (simp add: ees psize_def)
    qed
    have T: "?T = 11 + length ?X + length ?D + psize b + length ?C" by (simp add: Cons f esize_flag)
    have t: "?t = 10 + length ?X + length ?D + before_last ((b, u) # r)"
      using before_last_append [of "xs @ ds" "(b, u)" r] by (simp add: Cons f)
    have bnd: "?T + 5 < 2 ^ 32" using bound by simp
    obtain W where W: "delete_join ?start (?start + lsize ds) ?prev (lsize ds) zl =
      Some (hdr ?T (10 + length ?X + before_last ((?b', u) # r)) n @ ?X @ pbytes ?b' ?prev @ ?C @ W, ?d)"
      using delete_join_ok [OF prev32 refl D4 T t bnd y] unfolding z by auto
    let ?zl1 = "hdr ?T (10 + length ?X + before_last ((?b', u) # r)) n @ (?X @ pbytes ?b' ?prev @ ?C) @ W"
    have bt: "ZIPLIST_BYTES ?zl1 = Some ?T" unfolding hdr_fields using T32 by simp
    have len: "nat ((int ?T - int (lsize ds) + ?d) mod 2 ^ 32) = 11 + length (?X @ pbytes ?b' ?prev @ ?C)"
    proof -
      have "int ?T - int (lsize ds) + ?d = int (11 + length (?X @ pbytes ?b' ?prev @ ?C))"
        unfolding T by (simp add: widths_diff_def)
      moreover have "11 + length (?X @ pbytes ?b' ?prev @ ?C) < 2 ^ 32"
        using bnd T by (simp add: psize_def split: if_splits)
      ultimately show ?thesis by (simp add: nat_mod_distrib del: of_nat_add)
    qed
    have rs: "ziplistResize junk (nat ((int ?T - int (lsize ds) + ?d) mod 2 ^ 32)) ?zl1 =
        Some (hdr (11 + length (?X @ pbytes ?b' ?prev @ ?C)) (10 + length ?X + before_last ((?b', u) # r)) n @
          (?X @ pbytes ?b' ?prev @ ?C) @ [ZIP_END])"
      unfolding len by (rule resize_cut [OF refl])
    let ?zl3 = "stale ?n' ?X ?prev (?b', u) (esize (b, u)) r"
    have zl3: "hdr (11 + length (?X @ pbytes ?b' ?prev @ ?C)) (10 + length ?X + before_last ((?b', u) # r)) ?n' @
          (?X @ pbytes ?b' ?prev @ ?C) @ [ZIP_END] = ?zl3"
      by (simp add: stale_def ebytes_def esize_flag add.assoc)
    have b2: "11 + length ?X + 5 + length (cbytes u) + lsize r + 4 * length r < 2 ^ 32"
      using bound by (simp add: Cons f esize_flag)
    have g: "reflag ?prev ys \<noteq> []" using length_reflag [of ?prev ys] Cons by (metis length_0_conv list.distinct(1))
    then have bl: "before_last ?es = lsize xs + before_last (reflag ?prev ys)"
      by (cases "reflag ?prev ys") (auto simp: before_last_append)
    have lX: "10 + length ?X = ?start" by simp
    have cas: "(if ?d \<noteq> 0 then u_ziplistCascadeUpdate junk (10 + length ?X) ?zl3 else Some ?zl3) = Some (block ?n' ?es)"
      using update_next [OF y(2,3) prev32 b2, of junk ?n'] bl
      by (simp add: block_def lbytes_append Cons f add.assoc)
    have fin: "Option.bind (ZIPLIST_INCR_LENGTH (- int (length ds))
          (hdr (11 + length (?X @ pbytes ?b' ?prev @ ?C)) (10 + length ?X + before_last ((?b', u) # r)) n @
          (?X @ pbytes ?b' ?prev @ ?C) @ [ZIP_END]))
        (\<lambda>zl. if ?d \<noteq> 0 then u_ziplistCascadeUpdate junk ?start zl else Some zl) = Some (block ?n' ?es)"
      unfolding inc Option.bind.simps zl3 by (rule cas [unfolded lX])
    have dj: "(if x \<noteq> ZIP_END then delete_join ?start (?start + lsize ds) ?prev (lsize ds) zl
       else Option.bind (set_TAIL_OFFSET (int ?start - int ?prev) zl) (\<lambda>zl. Some (zl, 0))) = Some (?zl1, ?d)"
      using x(2) W by simp
    show ?thesis by (intro exI conjI) (rule x(1) dj bt rs fin)+
  qed
  then obtain x zl1 d b1 zl2 where c: "byte_at (?start + lsize ds) zl = Some x"
    "(if x \<noteq> ZIP_END then delete_join ?start (?start + lsize ds) ?prev (lsize ds) zl
       else Option.bind (set_TAIL_OFFSET (int ?start - int ?prev) zl) (\<lambda>zl. Some (zl, 0))) = Some (zl1, d)"
    "ZIPLIST_BYTES zl1 = Some b1"
    "ziplistResize junk (nat ((int b1 - int (lsize ds) + d) mod 2 ^ 32)) zl1 = Some zl2"
    "Option.bind (ZIPLIST_INCR_LENGTH (- int (length ds)) zl2)
        (\<lambda>zl. if d \<noteq> 0 then u_ziplistCascadeUpdate junk ?start zl else Some zl) = Some (block ?n' ?es)" by blast
  have "u_ziplistDelete junk ?start num zl = Some (block ?n' ?es)"
    unfolding u_ziplistDelete_def Let_def
    by (simp only: first skip tot pos if_False c prod.case Option.bind.simps)
  moreover have "11 + lsize ?es < 2 ^ 32" using reflag_size [of ?prev ys] bound by simp
  ultimately show ?thesis using lf lok' by (auto simp: zl_rep_def)
qed

end
