(* ===== verification/Ziplist_Access.thy ===== *)
theory Ziplist_Access
  imports Ziplist_Ops
begin

text \<open>
  Reading a ziplist in order: by index from either end, by neighbour, by value. Positions
  are those of \<open>entry_pos\<close>; the strings held are \<open>map snd es\<close>.
\<close>

section \<open>Positions\<close>

definition entry_pos :: "zent list \<Rightarrow> nat \<Rightarrow> nat" where
  "entry_pos es j = 10 + lsize (take j es)"

lemma entry_pos_0 [simp]: "entry_pos es 0 = 10"
  by (simp add: entry_pos_def)

lemma entry_pos_Suc: "j < length es \<Longrightarrow> entry_pos es (Suc j) = entry_pos es j + esize (es ! j)"
  by (simp add: entry_pos_def take_Suc_conv_app_nth)

lemma entry_pos_less: "j < length es \<Longrightarrow> entry_pos es j < entry_pos es (Suc j)"
  by (simp add: entry_pos_Suc)

text \<open>The length the entry at \<open>j\<close> records for its predecessor.\<close>

definition prev_size :: "zent list \<Rightarrow> nat \<Rightarrow> nat" where
  "prev_size es j = last_size 0 (take j es)"

lemma prev_size_simps:
  "prev_size es 0 = 0" "j < length es \<Longrightarrow> prev_size es (Suc j) = esize (es ! j)"
  by (simp_all add: prev_size_def last_size_def take_Suc_conv_app_nth)

lemma split_at: "j < length es \<Longrightarrow> es = take j es @ es ! j # drop (Suc j) es"
  by (rule id_take_nth_drop)

text \<open>The block around the entry at \<open>j\<close>.\<close>

lemma at_entry:
  assumes rep: "zl_rep zl es" and j: "j < length es"
  obtains pre where "length pre = entry_pos es j"
    and "zl = pre @ ebytes (prev_size es j) (es ! j) @ lbytes (esize (es ! j)) (drop (Suc j) es) @ [ZIP_END]"
    and "pok (fst (es ! j)) (prev_size es j)" and "length (snd (es ! j)) < 2 ^ 32" and "esize (es ! j) < 2 ^ 32"
proof -
  obtain n where zl: "zl = block n es" and ok: "lok 0 es" using rep by (auto simp: zl_rep_def)
  let ?h = "hdr (11 + lsize es) (10 + before_last es) n"
  have ok': "lok 0 (take j es @ es ! j # drop (Suc j) es)" using ok split_at [OF j] by simp
  have "lbytes 0 es = lbytes 0 (take j es) @ ebytes (prev_size es j) (es ! j) @ lbytes (esize (es ! j)) (drop (Suc j) es)"
    using lbytes_append [of 0 "take j es" "es ! j # drop (Suc j) es"] split_at [OF j]
    by (simp add: prev_size_def)
  then have "zl = (?h @ lbytes 0 (take j es)) @ ebytes (prev_size es j) (es ! j) @
    lbytes (esize (es ! j)) (drop (Suc j) es) @ [ZIP_END]"
    by (simp add: zl block_def)
  moreover have "length (?h @ lbytes 0 (take j es)) = entry_pos es j" by (simp add: entry_pos_def)
  moreover have "pok (fst (es ! j)) (prev_size es j)" "length (snd (es ! j)) < 2 ^ 32" "esize (es ! j) < 2 ^ 32"
    using ok' by (simp_all add: lok_append prev_size_def)
  ultimately show ?thesis using that by blast
qed

lemma entry_facts:
  assumes "zl_rep zl es" and "j < length es"
  obtains x en where "byte_at (entry_pos es j) zl = Some x" and "x \<noteq> ZIP_END"
    and "zipEntry (entry_pos es j) zl = Some en" and "prevrawlen en = prev_size es j"
    and "zipRawEntryLength (entry_pos es j) zl = Some (esize (es ! j))"
    and "ZIP_DECODE_PREVLEN (entry_pos es j) zl = Some (psize (fst (es ! j)), prev_size es j)"
    and "ZIP_DECODE_PREVLENSIZE (entry_pos es j) zl = Some (psize (fst (es ! j)))"
proof -
  obtain pre where p: "length pre = entry_pos es j"
    "zl = pre @ ebytes (prev_size es j) (es ! j) @ lbytes (esize (es ! j)) (drop (Suc j) es) @ [ZIP_END]"
    "pok (fst (es ! j)) (prev_size es j)" "length (snd (es ! j)) < 2 ^ 32" "esize (es ! j) < 2 ^ 32"
    using at_entry [OF assms] by blast
  let ?post = "lbytes (esize (es ! j)) (drop (Suc j) es) @ [ZIP_END]"
  have z: "zl = pre @ pbytes (fst (es ! j)) (prev_size es j) @ cbytes (snd (es ! j)) @ ?post"
    using p(2) by (simp add: ebytes_def)
  note d = decode_prevlen [OF p(3), of pre "cbytes (snd (es ! j)) @ ?post", folded z, unfolded p(1)]
  show ?thesis using decode_entry [OF p(3-5), of pre ?post] d that unfolding p(1) p(2) [symmetric] by metis
qed

lemma end_byte:
  assumes "zl_rep zl es"
  shows "byte_at (entry_pos es (length es)) zl = Some ZIP_END"
proof -
  obtain n where zl: "zl = block n es" using assms by (auto simp: zl_rep_def)
  show ?thesis
    using byte_at_app [of "hdr (11 + lsize es) (10 + before_last es) n @ lbytes 0 es" ZIP_END "[]"]
    by (simp add: zl block_def entry_pos_def)
qed

lemma tail_pos:
  assumes "zl_rep zl es"
  shows "ZIPLIST_TAIL_OFFSET zl = Some (entry_pos es (length es - 1))"
proof -
  obtain n where zl: "zl = block n es" and b: "11 + lsize es < 2 ^ 32" using assms by (auto simp: zl_rep_def)
  have "before_last es < 4294967286" using before_last_le [of es] b by (cases "es = []") auto
  then show ?thesis
    unfolding zl block_def hdr_fields by (simp add: entry_pos_def before_last_def butlast_conv_take)
qed

text \<open>The content of the entry at \<open>j\<close>.\<close>

lemma content_facts:
  assumes "zl_rep zl es" and "j < length es"
  obtains en where "zipEntry (entry_pos es j) zl = Some en"
    and "ZIP_IS_STR (eencoding en) \<longleftrightarrow> zipTryEncoding (snd (es ! j)) = None"
    and "zipTryEncoding (snd (es ! j)) = None \<longrightarrow>
      elen en = length (snd (es ! j)) \<and> mem_read (entry_pos es j + headersize en) (elen en) zl = Some (snd (es ! j))"
    and "\<forall>v e. zipTryEncoding (snd (es ! j)) = Some (v, e) \<longrightarrow>
      zipLoadInteger (entry_pos es j + headersize en) (eencoding en) zl = Some v"
    and "ZIP_DECODE_LENGTH (entry_pos es j + psize (fst (es ! j))) zl =
      Some (eencoding en, headersize en - psize (fst (es ! j)), elen en)"
    and "psize (fst (es ! j)) \<le> headersize en" and "headersize en + elen en = esize (es ! j)"
proof -
  let ?e = "es ! j"
  obtain pre where p: "length pre = entry_pos es j"
    "zl = pre @ ebytes (prev_size es j) ?e @ lbytes (esize ?e) (drop (Suc j) es) @ [ZIP_END]"
    "pok (fst ?e) (prev_size es j)" "length (snd ?e) < 2 ^ 32"
    using at_entry [OF assms] by blast
  let ?post = "lbytes (esize ?e) (drop (Suc j) es) @ [ZIP_END]" and ?pb = "pbytes (fst ?e) (prev_size es j)"
  have z: "zl = (pre @ ?pb) @ cbytes (snd ?e) @ ?post" using p(2) by (simp add: ebytes_def)
  have lp: "length (pre @ ?pb) = entry_pos es j + psize (fst ?e)" using p(1) by simp
  obtain l n where ln: "content_size (snd ?e) = (l, n)" by (cases "content_size (snd ?e)")
  obtain enc where d: "ZIP_DECODE_LENGTH (entry_pos es j + psize (fst ?e)) zl = Some (enc, l, n)"
    "ZIP_IS_STR enc \<longleftrightarrow> zipTryEncoding (snd ?e) = None"
    "zipTryEncoding (snd ?e) = None \<Longrightarrow> mem_read (entry_pos es j + psize (fst ?e) + l) n zl = Some (snd ?e)"
    "\<And>v e. zipTryEncoding (snd ?e) = Some (v, e) \<Longrightarrow>
      zipLoadInteger (entry_pos es j + psize (fst ?e) + l) enc zl = Some v"
    using decode_content [OF p(4), of "pre @ ?pb" ?post, folded z, unfolded lp ln fst_conv snd_conv] by metis
  let ?en = "\<lparr>prevrawlensize = psize (fst ?e), prevrawlen = prev_size es j, lensize = l, elen = n,
    headersize = psize (fst ?e) + l, eencoding = enc\<rparr>"
  have "ZIP_DECODE_PREVLEN (entry_pos es j) zl = Some (psize (fst ?e), prev_size es j)"
    using entry_facts [OF assms] by metis
  then have "zipEntry (entry_pos es j) zl = Some ?en" using d(1) by (simp add: zipEntry_def)
  moreover have "zipTryEncoding (snd ?e) = None \<Longrightarrow> n = length (snd ?e)" using ln by (simp add: content_size_def)
  moreover have "psize (fst ?e) + l + n = esize ?e" using ln length_cbytes [of "snd ?e"] by (simp add: esize_def)
  ultimately show ?thesis using d by (intro that [of ?en]) (auto simp: add.assoc)
qed

section \<open>By index\<close>

lemma index_forward_ok:
  assumes "zl_rep zl es"
  shows "j \<le> length es \<Longrightarrow> index_forward zl (entry_pos es j) (int k) =
    Some (if j + k < length es then (entry_pos es (j + k), -1) else (entry_pos es (length es), int k - int (length es - j)))"
proof (induction "length es - j" arbitrary: j k)
  case 0
  then show ?case using end_byte [OF assms] by (subst index_forward.simps) simp
next
  case (Suc d)
  then have j: "j < length es" by simp
  obtain x where x: "byte_at (entry_pos es j) zl = Some x" "x \<noteq> ZIP_END"
    "zipRawEntryLength (entry_pos es j) zl = Some (esize (es ! j))"
    using entry_facts [OF assms j] by metis
  show ?case
  proof (cases k)
    case 0
    then show ?thesis using x j by (subst index_forward.simps) simp
  next
    case (Suc k')
    have "index_forward zl (entry_pos es (Suc j)) (int k') =
      Some (if Suc j + k' < length es then (entry_pos es (Suc j + k'), -1)
            else (entry_pos es (length es), int k' - int (length es - Suc j)))"
      using Suc.hyps(1) [of "Suc j" k'] Suc.hyps(2) j by simp
    then have "index_forward zl (entry_pos es j) (int k) =
      Some (if Suc j + k' < length es then (entry_pos es (Suc j + k'), -1)
            else (entry_pos es (length es), int k' - int (length es - Suc j)))"
      using x Suc by (subst index_forward.simps) (simp add: entry_pos_Suc [OF j])
    then show ?thesis using Suc j by (auto simp: of_nat_diff)
  qed
qed

lemma index_back_ok:
  assumes "zl_rep zl es"
  shows "j < length es \<Longrightarrow> \<exists>m. index_back zl (entry_pos es j) (prev_size es j) (int k) = Some m \<and>
    (if k \<le> j then fst m = entry_pos es (j - k) \<and> snd m \<le> 0 else 0 < snd m \<and> fst m = 10)"
proof (induction j arbitrary: k)
  case 0
  then show ?case by (subst index_back.simps) (auto simp: prev_size_simps)
next
  case (Suc j)
  have j: "j < length es" using Suc.prems by simp
  have ps: "prev_size es (Suc j) = esize (es ! j)" using j by (simp add: prev_size_simps)
  have pp: "entry_pos es (Suc j) = entry_pos es j + esize (es ! j)" by (rule entry_pos_Suc [OF j])
  have d: "ZIP_DECODE_PREVLEN (entry_pos es j) zl = Some (psize (fst (es ! j)), prev_size es j)"
    using entry_facts [OF assms j] by metis
  show ?case
  proof (cases k)
    case 0
    then show ?thesis using ps by (subst index_back.simps) simp
  next
    case (Suc k')
    obtain m where m: "index_back zl (entry_pos es j) (prev_size es j) (int k') = Some m"
      "if k' \<le> j then fst m = entry_pos es (j - k') \<and> snd m \<le> 0 else 0 < snd m \<and> fst m = 10"
      using Suc.IH [OF j] by blast
    have "index_back zl (entry_pos es (Suc j)) (prev_size es (Suc j)) (int k) = Some m"
      using m(1) d Suc by (subst index_back.simps) (simp add: ps pp)
    then show ?thesis using m(2) Suc by auto
  qed
qed

lemma byte_at_entry: "zl_rep zl es \<Longrightarrow> j < length es \<Longrightarrow> \<exists>x. byte_at (entry_pos es j) zl = Some x \<and> x \<noteq> ZIP_END"
  using entry_facts by metis

lemma ziplistIndex_forward:
  assumes "zl_rep zl es"
  shows "ziplistIndex (int k) zl = Some (if k < length es then Some (entry_pos es k) else None)"
proof (cases "k < length es")
  case True
  then show ?thesis
    using index_forward_ok [OF assms, of 0 k] byte_at_entry [OF assms True]
    by (auto simp: ziplistIndex_def ZIPLIST_HEADER_SIZE_def)
next
  case False
  then show ?thesis
    using index_forward_ok [OF assms, of 0 k] end_byte [OF assms]
    by (auto simp: ziplistIndex_def ZIPLIST_HEADER_SIZE_def)
qed

lemma ziplistIndex_back:
  assumes "zl_rep zl es"
  shows "ziplistIndex (- int (Suc k)) zl =
    Some (if k < length es then Some (entry_pos es (length es - Suc k)) else None)"
proof (cases "es = []")
  case True
  have "entry_pos es (length es - 1) = entry_pos es (length es)" by (simp add: True)
  then show ?thesis using end_byte [OF assms] tail_pos [OF assms] True
    by (simp add: ziplistIndex_def)
next
  case False
  let ?j = "length es - 1"
  have j: "?j < length es" using False by simp
  obtain x where x: "byte_at (entry_pos es ?j) zl = Some x" "x \<noteq> ZIP_END"
    "ZIP_DECODE_PREVLEN (entry_pos es ?j) zl = Some (psize (fst (es ! ?j)), prev_size es ?j)"
    using entry_facts [OF assms j] by metis
  obtain m where m: "index_back zl (entry_pos es ?j) (prev_size es ?j) (int k) = Some m"
    "if k \<le> ?j then fst m = entry_pos es (?j - k) \<and> snd m \<le> 0 else 0 < snd m \<and> fst m = 10"
    using index_back_ok [OF assms j] by blast
  have "\<exists>y. byte_at (fst m) zl = Some y \<and> y \<noteq> ZIP_END"
  proof (cases "k \<le> ?j")
    case True
    then show ?thesis using m(2) byte_at_entry [OF assms, of "?j - k"] j by auto
  next
    case False
    then have "fst m = entry_pos es 0" "0 < length es" using m(2) \<open>es \<noteq> []\<close> by (simp_all split: if_splits)
    then show ?thesis using byte_at_entry [OF assms, of 0] by simp
  qed
  moreover have "k \<le> ?j \<longleftrightarrow> k < length es" using j by linarith
  moreover have "?j - k = length es - Suc k" by simp
  ultimately show ?thesis
    using m tail_pos [OF assms] x False
    by (auto simp: ziplistIndex_def split: prod.splits if_splits)
qed

section \<open>By neighbour\<close>

lemma ziplistNext_ok:
  assumes "zl_rep zl es" and "j < length es"
  shows "ziplistNext (entry_pos es j) zl = Some (if Suc j < length es then Some (entry_pos es (Suc j)) else None)"
proof -
  obtain x where x: "byte_at (entry_pos es j) zl = Some x" "x \<noteq> ZIP_END"
    "zipRawEntryLength (entry_pos es j) zl = Some (esize (es ! j))"
    using entry_facts [OF assms] by metis
  have p: "entry_pos es j + esize (es ! j) = entry_pos es (Suc j)" by (simp add: entry_pos_Suc [OF assms(2)])
  show ?thesis
  proof (cases "Suc j < length es")
    case True
    then show ?thesis using x p byte_at_entry [OF assms(1) True] by (auto simp: ziplistNext_def)
  next
    case False
    then have "Suc j = length es" using assms(2) by simp
    then have "byte_at (entry_pos es (Suc j)) zl = Some ZIP_END" using end_byte [OF assms(1)] by simp
    then show ?thesis using x p False by (simp add: ziplistNext_def)
  qed
qed

lemma ziplistPrev_ok:
  assumes "zl_rep zl es" and "j \<le> length es"
  shows "ziplistPrev (entry_pos es j) zl = Some (if j = 0 then None else Some (entry_pos es (j - 1)))"
proof (cases "j = length es")
  case True
  show ?thesis
  proof (cases "es = []")
    case True': True
    then have "entry_pos es (length es - 1) = entry_pos es (length es)" by simp
    then show ?thesis using True True' end_byte [OF assms(1)] tail_pos [OF assms(1)] by (simp add: ziplistPrev_def)
  next
    case False
    then show ?thesis
      using True end_byte [OF assms(1)] tail_pos [OF assms(1)] byte_at_entry [OF assms(1), of "length es - 1"]
      by (auto simp: ziplistPrev_def)
  qed
next
  case False
  then have j: "j < length es" using assms(2) by simp
  obtain x where x: "byte_at (entry_pos es j) zl = Some x" "x \<noteq> ZIP_END"
    "ZIP_DECODE_PREVLEN (entry_pos es j) zl = Some (psize (fst (es ! j)), prev_size es j)"
    using entry_facts [OF assms(1) j] by metis
  show ?thesis
  proof (cases j)
    case 0
    then show ?thesis using x by (simp add: ziplistPrev_def ZIPLIST_HEADER_SIZE_def)
  next
    case (Suc i)
    then have i: "i < length es" using j by simp
    have "entry_pos es j = entry_pos es i + esize (es ! i)" "prev_size es j = esize (es ! i)"
      using Suc by (simp_all add: entry_pos_Suc [OF i] prev_size_simps(2) [OF i])
    moreover have "10 \<le> entry_pos es i" by (simp add: entry_pos_def)
    moreover have "0 < esize (es ! i)" by simp
    moreover have "entry_pos es j \<noteq> 10" using calculation by linarith
    ultimately show ?thesis using x Suc by (auto simp: ziplistPrev_def ZIPLIST_HEADER_SIZE_def)
  qed
qed

section \<open>By value\<close>

definition stored :: "byte list \<Rightarrow> zval" where
  "stored s = (case zipTryEncoding s of Some (v, _) \<Rightarrow> ZInt v | None \<Rightarrow> ZStr s)"

lemma zipTryEncoding_inj: "zipTryEncoding s = Some (v, e) \<Longrightarrow> zipTryEncoding t = Some (v, e') \<Longrightarrow> s = t"
  by (auto simp: zipTryEncoding_def string2ll_iff split: if_splits option.splits)

lemma ziplistGet_ok:
  assumes "zl_rep zl es" and "j < length es"
  shows "ziplistGet (Some (entry_pos es j)) zl = Some (Some (stored (snd (es ! j))))"
proof -
  obtain x where x: "byte_at (entry_pos es j) zl = Some x" "x \<noteq> ZIP_END" using byte_at_entry [OF assms] by blast
  obtain en where en: "zipEntry (entry_pos es j) zl = Some en"
    "ZIP_IS_STR (eencoding en) \<longleftrightarrow> zipTryEncoding (snd (es ! j)) = None"
    "zipTryEncoding (snd (es ! j)) = None \<longrightarrow>
      elen en = length (snd (es ! j)) \<and> mem_read (entry_pos es j + headersize en) (elen en) zl = Some (snd (es ! j))"
    "\<forall>v e. zipTryEncoding (snd (es ! j)) = Some (v, e) \<longrightarrow>
      zipLoadInteger (entry_pos es j + headersize en) (eencoding en) zl = Some v"
    using content_facts [OF assms] by metis
  then show ?thesis using x
    by (auto simp: ziplistGet_def stored_def split: option.split)
qed

lemma ziplistGet_end: "zl_rep zl es \<Longrightarrow> ziplistGet (Some (entry_pos es (length es))) zl = Some None"
  by (simp add: ziplistGet_def end_byte)

lemma ziplistCompare_ok:
  assumes "zl_rep zl es" and "j < length es"
  shows "ziplistCompare (entry_pos es j) t zl = Some (snd (es ! j) = t)"
proof -
  obtain x where x: "byte_at (entry_pos es j) zl = Some x" "x \<noteq> ZIP_END" using byte_at_entry [OF assms] by blast
  let ?s = "snd (es ! j)"
  obtain en where en: "zipEntry (entry_pos es j) zl = Some en"
    "ZIP_IS_STR (eencoding en) \<longleftrightarrow> zipTryEncoding ?s = None"
    "zipTryEncoding ?s = None \<longrightarrow>
      elen en = length ?s \<and> mem_read (entry_pos es j + headersize en) (elen en) zl = Some ?s"
    "\<forall>v e. zipTryEncoding ?s = Some (v, e) \<longrightarrow>
      zipLoadInteger (entry_pos es j + headersize en) (eencoding en) zl = Some v"
    using content_facts [OF assms] by metis
  show ?thesis
  proof (cases "zipTryEncoding ?s")
    case None
    then show ?thesis using x en by (auto simp: ziplistCompare_def)
  next
    case (Some a)
    then obtain v e where ve: "zipTryEncoding ?s = Some (v, e)" by (cases a) auto
    show ?thesis
    proof (cases "zipTryEncoding t")
      case None
      then show ?thesis using x en ve by (auto simp: ziplistCompare_def)
    next
      case (Some c)
      then obtain w e' where "zipTryEncoding t = Some (w, e')" by (cases c) auto
      then show ?thesis using x en ve zipTryEncoding_inj [of ?s v e t] by (auto simp: ziplistCompare_def)
    qed
  qed
qed

text \<open>The attempt to encode the searched string, once made, is its encoding.\<close>

lemma find_matches_ok:
  assumes "zl_rep zl es" and "j < length es" and "tried = None \<or> tried = Some (zipTryEncoding t)"
  obtains tried' enc ls len where
    "ZIP_DECODE_LENGTH (entry_pos es j + psize (fst (es ! j))) zl = Some (enc, ls, len)"
    and "find_matches t tried (entry_pos es j + psize (fst (es ! j)) + ls) enc len zl = Some (snd (es ! j) = t, tried')"
    and "tried' = None \<or> tried' = Some (zipTryEncoding t)"
    and "psize (fst (es ! j)) + ls + len = esize (es ! j)"
proof -
  let ?s = "snd (es ! j)" and ?ps = "psize (fst (es ! j))"
  obtain en where en0: "zipEntry (entry_pos es j) zl = Some en" and en: "ZIP_IS_STR (eencoding en) \<longleftrightarrow> zipTryEncoding ?s = None"
    "zipTryEncoding ?s = None \<longrightarrow>
      elen en = length ?s \<and> mem_read (entry_pos es j + headersize en) (elen en) zl = Some ?s"
    "\<forall>v e. zipTryEncoding ?s = Some (v, e) \<longrightarrow>
      zipLoadInteger (entry_pos es j + headersize en) (eencoding en) zl = Some v"
    "ZIP_DECODE_LENGTH (entry_pos es j + ?ps) zl = Some (eencoding en, headersize en - ?ps, elen en)"
    "?ps \<le> headersize en" "headersize en + elen en = esize (es ! j)"
    by (rule content_facts [OF assms(1,2)])
  have q: "entry_pos es j + ?ps + (headersize en - ?ps) = entry_pos es j + headersize en" using en(5) by simp
  have tr: "(case tried of None \<Rightarrow> zipTryEncoding t | Some tr \<Rightarrow> tr) = zipTryEncoding t" using assms(3) by auto
  have "\<exists>tried'. find_matches t tried (entry_pos es j + headersize en) (eencoding en) (elen en) zl = Some (?s = t, tried') \<and>
    (tried' = None \<or> tried' = Some (zipTryEncoding t))"
  proof (cases "zipTryEncoding ?s")
    case None
    then show ?thesis using en(1,2) assms(3) by (auto simp: find_matches_def)
  next
    case (Some a)
    then obtain v e where ve: "zipTryEncoding ?s = Some (v, e)" by (cases a) auto
    show ?thesis
    proof (cases "zipTryEncoding t")
      case None
      then have "?s \<noteq> t" using ve by auto
      then show ?thesis using en(1) ve None tr by (simp add: find_matches_def Let_def)
    next
      case (Some c)
      then obtain w e' where w: "zipTryEncoding t = Some (w, e')" by (cases c) auto
      have "v = w \<longleftrightarrow> ?s = t" using zipTryEncoding_inj [OF ve, of t e'] ve w by auto
      then show ?thesis using en(1,3) ve w tr by (simp add: find_matches_def Let_def)
    qed
  qed
  then obtain tried' where "find_matches t tried (entry_pos es j + ?ps + (headersize en - ?ps)) (eencoding en) (elen en) zl =
      Some (?s = t, tried')" "tried' = None \<or> tried' = Some (zipTryEncoding t)" unfolding q by blast
  moreover have "?ps + (headersize en - ?ps) + elen en = esize (es ! j)" using en(5,6) by simp
  ultimately show ?thesis using that [OF en(4)] by blast
qed

lemma find_loop_ok:
  assumes rep: "zl_rep zl es" and skip: "skip < 2 ^ 31"
  shows "j \<le> length es \<Longrightarrow> c \<le> skip \<Longrightarrow> (j + c) mod Suc skip = 0 \<Longrightarrow> tried = None \<or> tried = Some (zipTryEncoding t) \<Longrightarrow>
   find_loop t skip zl (entry_pos es j) (int c) tried =
     Some (map_option (entry_pos es) (find (\<lambda>i. snd (es ! i) = t)
       (filter (\<lambda>i. i mod Suc skip = 0) [j..<length es])))"
proof (induction "length es - j" arbitrary: j c tried)
  case 0
  then show ?case using end_byte [OF rep] by (subst find_loop.simps) simp
next
  case (Suc d)
  then have j: "j < length es" by simp
  then have up: "[j..<length es] = j # [Suc j..<length es]" by (simp add: upt_conv_Cons)
  obtain x where x: "byte_at (entry_pos es j) zl = Some x" "x \<noteq> ZIP_END"
    "ZIP_DECODE_PREVLENSIZE (entry_pos es j) zl = Some (psize (fst (es ! j)))"
    using entry_facts [OF rep j] by metis
  obtain tried' enc ls len where m:
    "ZIP_DECODE_LENGTH (entry_pos es j + psize (fst (es ! j))) zl = Some (enc, ls, len)"
    "find_matches t tried (entry_pos es j + psize (fst (es ! j)) + ls) enc len zl = Some (snd (es ! j) = t, tried')"
    "tried' = None \<or> tried' = Some (zipTryEncoding t)" "psize (fst (es ! j)) + ls + len = esize (es ! j)"
    by (rule find_matches_ok [OF rep j Suc.prems(4)])
  have nx: "entry_pos es j + psize (fst (es ! j)) + ls + len = entry_pos es (Suc j)"
    using m(4) by (simp add: entry_pos_Suc [OF j])
  have d: "d = length es - Suc j" using Suc.hyps(2) by simp
  show ?case
  proof (cases "c = 0")
    case True
    then have jm: "j mod Suc skip = 0" using Suc.prems(3) by simp
    then have "(Suc j + skip) mod Suc skip = 0"
      unfolding add_Suc_shift mod_add_self2 .
    then have ih: "find_loop t skip zl (entry_pos es (Suc j)) (int skip) tried' =
      Some (map_option (entry_pos es) (find (\<lambda>i. snd (es ! i) = t)
        (filter (\<lambda>i. i mod Suc skip = 0) [Suc j..<length es])))"
      using Suc.hyps(1) [OF d, of skip tried'] j m(3) by simp
    have s: "s32 (int skip) = int skip" using skip by (intro s32_id) auto
    have "find_loop t skip zl (entry_pos es j) (int c) tried =
      (if snd (es ! j) = t then Some (Some (entry_pos es j))
       else find_loop t skip zl (entry_pos es (Suc j)) (int skip) tried')"
      using x m(1,2) True by (subst find_loop.simps) (simp add: nx s)
    then show ?thesis unfolding ih up using jm by simp
  next
    case False
    then have jm: "j mod Suc skip \<noteq> 0"
    proof -
      have "(j + c) mod Suc skip = c" if "j mod Suc skip = 0" using that Suc.prems(2)
        by (metis add.commute add_0 le_imp_less_Suc mod_add_right_eq mod_less)
      then show ?thesis using False Suc.prems(3) by auto
    qed
    have ih: "find_loop t skip zl (entry_pos es (Suc j)) (int (c - 1)) tried =
      Some (map_option (entry_pos es) (find (\<lambda>i. snd (es ! i) = t)
        (filter (\<lambda>i. i mod Suc skip = 0) [Suc j..<length es])))"
      using Suc.hyps(1) [OF d, of "c - 1" tried] Suc.prems False j by simp
    have "find_loop t skip zl (entry_pos es j) (int c) tried =
      find_loop t skip zl (entry_pos es (Suc j)) (int (c - 1)) tried"
      using x m(1) False by (subst find_loop.simps) (simp add: nx of_nat_diff)
    then show ?thesis unfolding ih up using jm by simp
  qed
qed

section \<open>Length\<close>

lemma count_entries_ok:
  assumes "zl_rep zl es"
  shows "j \<le> length es \<Longrightarrow> count_entries zl (entry_pos es j) = Some (length es - j)"
proof (induction "length es - j" arbitrary: j)
  case 0
  then show ?case using end_byte [OF assms] by (subst count_entries.simps) simp
next
  case (Suc d)
  then have j: "j < length es" by simp
  obtain x where x: "byte_at (entry_pos es j) zl = Some x" "x \<noteq> ZIP_END"
    "zipRawEntryLength (entry_pos es j) zl = Some (esize (es ! j))"
    using entry_facts [OF assms j] by metis
  have "count_entries zl (entry_pos es (Suc j)) = Some (length es - Suc j)"
    using Suc.hyps(1) [of "Suc j"] Suc.hyps(2) j by simp
  then show ?case using x j by (subst count_entries.simps) (simp add: entry_pos_Suc [OF j] Suc_diff_Suc)
qed

lemma ziplistLen_ok:
  assumes "zl_rep zl es"
  shows "\<exists>zl'. ziplistLen zl = Some (zl', length es) \<and> zl_rep zl' es"
proof -
  obtain n where zl: "zl = block n es" and n: "len_field n (length es)" using assms by (auto simp: zl_rep_def)
  have l: "ZIPLIST_LENGTH zl = Some n" unfolding zl block_def hdr_fields using len_field_bound [OF n] by simp
  show ?thesis
  proof (cases "n < UINT16_MAX")
    case True
    then have "n = length es" using n by (auto simp: len_field_def)
    then show ?thesis using l True assms by (simp add: ziplistLen_def)
  next
    case False
    have c: "count_entries zl ZIPLIST_HEADER_SIZE = Some (length es)"
      using count_entries_ok [OF assms, of 0] by (simp add: ZIPLIST_HEADER_SIZE_def)
    show ?thesis
    proof (cases "length es < UINT16_MAX")
      case True
      have "put_uint 2 8 (length es) zl = Some (block (length es) es)" by (simp add: zl block_def hdr_updates)
      moreover have "zl_rep (block (length es) es) es" using assms True by (auto simp: zl_rep_def len_field_def)
      ultimately show ?thesis using l False c True by (simp add: ziplistLen_def)
    next
      case f: False
      then show ?thesis using l False c assms by (simp add: ziplistLen_def)
    qed
  qed
qed

section \<open>The operations on a list of strings\<close>

text \<open>
  A ziplist built by the operations: in order, with a short \<open>prevlen\<close> in its first entry,
  which is why a push never meets the case of \<open>shrink_hazard\<close>.
\<close>

definition zl_ok :: "ziplist \<Rightarrow> zent list \<Rightarrow> bool" where
  "zl_ok zl es \<longleftrightarrow> zl_rep zl es \<and> (es \<noteq> [] \<longrightarrow> \<not> fst (hd es))"

definition room :: "ziplist \<Rightarrow> zent list \<Rightarrow> nat \<Rightarrow> bool" where
  "room zl es n \<longleftrightarrow> length zl + 4 * length es + n + 40 < 2 ^ 32"

text \<open>
  The next entry has a wide \<open>prevlen\<close> that the new entry does not need, and the new entry
  is smaller than the 4 bytes saved: the block is shrunk before the entries are moved.
\<close>

definition shrink_hazard :: "zent list \<Rightarrow> nat \<Rightarrow> byte list \<Rightarrow> bool" where
  "shrink_hazard es i s \<longleftrightarrow> i < length es \<and> fst (es ! i) \<and> esize (254 \<le> prev_size es i, s) < 4"

lemma length_zl: "zl_rep zl es \<Longrightarrow> length zl = 11 + lsize es"
  by (auto simp: zl_rep_def block_def)

lemma cbytes_size: "length (cbytes s) \<le> length s + 9"
proof (cases "zipTryEncoding s")
  case None
  then show ?thesis by (simp add: cbytes_def zipEncodeLength_def)
next
  case (Some a)
  then show ?thesis by (cases a) (simp add: length_cbytes content_size_def zipIntSize_def)
qed

lemma insert_ok:
  assumes rep: "zl_rep zl es" and i: "i \<le> length es" and room: "room zl es (length s)"
    and hz: "\<not> shrink_hazard es i s"
  shows "\<exists>zl'. u_ziplistInsert junk (entry_pos es i) s zl = Some zl' \<and>
    zl_rep zl' (take i es @ (254 \<le> prev_size es i, s) # reflag (esize (254 \<le> prev_size es i, s)) (drop i es))"
proof -
  let ?R = "esize (254 \<le> prev_size es i, s)"
  have R: "?R \<le> length s + 14" using cbytes_size [of s] by (simp add: esize_def psize_def)
  have es: "zl_rep zl (take i es @ drop i es)" using rep by simp
  have b: "11 + lsize (take i es @ drop i es) + ?R + 5 + 4 * (length (drop i es) + 1) < 2 ^ 32"
    using room R length_zl [OF rep] by (simp add: room_def)
  have bug: "4 \<le> ?R" if "drop i es = (True, u) # r" "?R < 254" for u r
  proof -
    have "i < length es" using that(1) by (metis drop_all leI list.distinct(1))
    moreover have "es ! i = (True, u)" by (rule nth_via_drop [OF that(1)])
    ultimately show ?thesis using hz by (simp add: shrink_hazard_def)
  qed
  have s: "length s < 2 ^ 32" using room by (simp add: room_def)
  show ?thesis
    using u_ziplistInsert_ok [OF es s _ b bug, where junk = junk] by (simp add: prev_size_def entry_pos_def)
qed

lemma insert_content:
  "map snd (take i es @ (b, s) # reflag R (drop i es)) = take i (map snd es) @ s # drop i (map snd es)"
  by (simp add: take_map drop_map)

lemma insert_hd:
  assumes "es \<noteq> [] \<longrightarrow> \<not> fst (hd es)"
  shows "\<not> fst (hd (take i es @ (254 \<le> prev_size es i, s) # x))"
  using assms by (cases i; cases es) (auto simp: prev_size_simps prev_size_def)

text \<open>
  C3: \<open>ziplistInsert\<close> at the position of any index puts the string there, encoded or not, and
  leaves every other string, the header, the count and the chain of previous lengths in
  order, cascading updates included; it never leaves the block. Excluded is the one case
  of \<open>shrink_hazard\<close>.
\<close>

theorem ziplistInsert_inserts:
  assumes "zl_ok zl es" and "i \<le> length es" and "room zl es (length s)" and "\<not> shrink_hazard es i s"
  shows "\<exists>zl' es'. ziplistInsert junk (entry_pos es i) s zl = Some zl' \<and> zl_ok zl' es' \<and>
    map snd es' = take i (map snd es) @ s # drop i (map snd es)"
proof -
  let ?e = "(254 \<le> prev_size es i, s)"
  let ?es' = "take i es @ ?e # reflag (esize ?e) (drop i es)"
  have rep: "zl_rep zl es" using assms(1) by (simp add: zl_ok_def)
  obtain zl' where "u_ziplistInsert junk (entry_pos es i) s zl = Some zl'" "zl_rep zl' ?es'"
    using insert_ok [OF rep assms(2-4)] by blast
  moreover have "\<not> fst (hd ?es')" using assms(1) by (intro insert_hd) (simp add: zl_ok_def)
  ultimately show ?thesis using insert_content by (auto simp: ziplistInsert_def zl_ok_def)
qed

text \<open>The empty ziplist, for the witnesses.\<close>

definition empty_zl :: ziplist where
  "empty_zl = [11, 0, 0, 0, 10, 0, 0, 0, 0, 0, 255]"

lemma empty_zl_ok: "zl_ok empty_zl []" "room empty_zl [] 5"
proof -
  have "empty_zl = block 0 []"
    by code_simp
  then show "zl_ok empty_zl []" by (auto simp: zl_ok_def zl_rep_def len_field_def UINT16_MAX_def)
  show "room empty_zl [] 5" by (simp add: room_def empty_zl_def)
qed

theorem ziplistInsert_inserts_witness:
  "\<exists>zl' es'. ziplistInsert (\<lambda>_. 7) 10 (ascii ''hello'') empty_zl = Some zl' \<and> zl_ok zl' es' \<and>
     map snd es' = [ascii ''hello'']"
  using ziplistInsert_inserts [OF empty_zl_ok(1), of 0 "ascii ''hello''" "\<lambda>_. 7"] empty_zl_ok(2)
  by (simp add: shrink_hazard_def ascii_def numeral_eq_Suc)

text \<open>
  C15: \<open>ziplistPush\<close> puts a string in front of the head or behind the tail of every ziplist the
  operations build, without exception and without leaving the block.
\<close>

theorem ziplistPush_pushes:
  assumes "zl_ok zl es" and "room zl es (length s)"
  shows "\<exists>zl' es'. ziplistPush junk s at_head zl = Some zl' \<and> zl_ok zl' es' \<and>
    map snd es' = (if at_head then s # map snd es else map snd es @ [s])"
proof -
  let ?i = "if at_head then 0 else length es"
  let ?e = "(254 \<le> prev_size es ?i, s)"
  let ?es' = "take ?i es @ ?e # reflag (esize ?e) (drop ?i es)"
  have hz: "\<not> shrink_hazard es ?i s" using assms(1) by (cases es) (auto simp: shrink_hazard_def zl_ok_def)
  have i: "?i \<le> length es" by simp
  have rep: "zl_rep zl es" using assms(1) by (simp add: zl_ok_def)
  obtain zl' where ins: "u_ziplistInsert junk (entry_pos es ?i) s zl = Some zl'" "zl_rep zl' ?es'"
    using insert_ok [OF rep i assms(2) hz] by blast
  obtain n where "zl = block n es" "11 + lsize es < 2 ^ 32" using rep by (auto simp: zl_rep_def)
  then have "ZIPLIST_BYTES zl = Some (11 + lsize es)" by (simp add: block_def hdr_fields)
  then have "(if at_head then Some ZIPLIST_HEADER_SIZE else ZIPLIST_ENTRY_END zl) = Some (entry_pos es ?i)"
    by (simp add: ZIPLIST_ENTRY_END_def ZIPLIST_HEADER_SIZE_def entry_pos_def)
  then have "ziplistPush junk s at_head zl = Some zl'" using ins(1) by (simp add: ziplistPush_def)
  moreover have "\<not> fst (hd ?es')" using assms(1) by (intro insert_hd) (simp add: zl_ok_def)
  moreover have "map snd ?es' = (if at_head then s # map snd es else map snd es @ [s])"
    by (simp add: insert_content del: list.map map_append)
  ultimately show ?thesis using ins(2) by (metis zl_ok_def)
qed

theorem ziplistPush_pushes_witness:
  "\<exists>zl' es'. ziplistPush (\<lambda>_. 7) (ascii ''12'') True empty_zl = Some zl' \<and> zl_ok zl' es' \<and>
     map snd es' = [ascii ''12'']"
  using ziplistPush_pushes [OF empty_zl_ok(1), of "ascii ''12''" "\<lambda>_. 7" True]
  by (simp add: room_def empty_zl_def ascii_def)

lemma push_example:
  assumes "length s \<le> 5"
  shows "\<exists>zl es. zl_ok zl es \<and> map snd es = [s] \<and> room zl es 0"
proof -
  have "room empty_zl [] (length s)" using assms empty_zl_ok(2) by (simp add: room_def)
  then obtain zl' where z: "zl_rep zl' [(False, s)]"
    using insert_ok [of empty_zl "[]" 0 s] empty_zl_ok(1)
    by (auto simp: zl_ok_def shrink_hazard_def prev_size_def)
  have "length zl' \<le> length s + 21"
    using cbytes_size [of s] by (simp add: length_zl [OF z] esize_def psize_def)
  then have "room zl' [(False, s)] 0" using assms by (simp add: room_def)
  then show ?thesis using z by (intro exI [of _ zl'] exI [of _ "[(False, s)]"]) (simp add: zl_ok_def)
qed

text \<open>
  C5: \<open>ziplistDeleteRange\<close> removes the strings from an index on, up to the given number, and
  nothing when the index is behind the end; what remains is in order, cascading updates
  included.
\<close>

theorem ziplistDeleteRange_deletes:
  assumes "zl_ok zl es" and "room zl es 0" and "index < 2 ^ 31" and "0 < num"
  shows "\<exists>zl' es'. ziplistDeleteRange junk index num zl = Some zl' \<and> zl_ok zl' es' \<and>
    map snd es' = take index (map snd es) @ drop (index + num) (map snd es)"
proof -
  have rep: "zl_rep zl es" using assms(1) by (simp add: zl_ok_def)
  have s: "s32 (int index) = int index" using assms(3) by (intro s32_id) auto
  show ?thesis
  proof (cases "index < length es")
    case False
    then have "ziplistDeleteRange junk index num zl = Some zl"
      using ziplistIndex_forward [OF rep, of index] by (simp add: ziplistDeleteRange_def s)
    then show ?thesis using assms(1) False by (intro exI [of _ zl] exI [of _ es]) simp
  next
    case True
    let ?xs = "take index es" and ?ds = "take num (drop index es)" and ?ys = "drop (index + num) es"
    have split: "?xs @ ?ds @ ?ys = es"
      by (metis add.commute append_take_drop_id drop_drop)
    have ds: "?ds \<noteq> []" using True assms(4) by simp
    have num: "length ?ds = num \<or> ?ys = [] \<and> length ?ds \<le> num" by auto
    have "11 + lsize es + 5 + 4 * length ?ys < 2 ^ 32"
      using assms(2) length_zl [OF rep] by (simp add: room_def)
    then obtain zl' where d: "u_ziplistDelete junk (10 + lsize ?xs) num zl = Some zl'"
      "zl_rep zl' (?xs @ reflag (last_size 0 ?xs) ?ys)"
      using u_ziplistDelete_ok [of zl ?xs ?ds ?ys num junk] rep ds num unfolding split by blast
    have "ziplistDeleteRange junk index num zl = Some zl'"
      using ziplistIndex_forward [OF rep, of index] True d(1) by (simp add: ziplistDeleteRange_def s entry_pos_def)
    moreover have "?xs @ reflag (last_size 0 ?xs) ?ys \<noteq> [] \<longrightarrow> \<not> fst (hd (?xs @ reflag (last_size 0 ?xs) ?ys))"
    proof (cases index)
      case 0
      then show ?thesis by (cases "(0 :: nat, ?ys)" rule: reflag.cases) auto
    next
      case (Suc k)
      then show ?thesis using assms(1) True by (cases es) (auto simp: zl_ok_def)
    qed
    ultimately show ?thesis using d(2)
      by (intro exI [of _ zl'] exI [of _ "?xs @ reflag (last_size 0 ?xs) ?ys"]) (simp add: zl_ok_def take_map drop_map)
  qed
qed

theorem ziplistDeleteRange_deletes_witness:
  "\<exists>zl (es :: zent list) zl' es'. map snd es = [ascii ''12''] \<and> ziplistDeleteRange (\<lambda>_. 7) 0 3 zl = Some zl' \<and> zl_ok zl' es' \<and>
     map snd es' = []"
proof -
  obtain zl es where zl: "zl_ok zl es" "map snd es = [ascii ''12'']" "room zl es 0"
    using push_example [of "ascii ''12''"] by (auto simp: ascii_def)
  obtain zl' es' where "ziplistDeleteRange (\<lambda>_. 7) 0 3 zl = Some zl'" "zl_ok zl' es'" "map snd es' = []"
    using ziplistDeleteRange_deletes [OF zl(1) zl(3), of 0 3 "\<lambda>_. 7"] zl(2)
    by (auto simp: drop_Cons')
  then show ?thesis using zl(2) by (intro exI conjI)
qed



text \<open>
  The excluded case: a new entry of two bytes in front of an entry with a wide \<open>prevlen\<close> and
  behind a short entry. The block loses two bytes before its content is moved, and the move
  reads behind it.
\<close>

lemma mem_move_beyond: "length m < src + n \<Longrightarrow> mem_move dst src n m = None"
  by (simp add: mem_move_def mem_read_def)

lemma ziplistInsert_shrinks_first:
  assumes rep: "zl_rep zl es" and i: "i < length es" and big: "fst (es ! i)"
    and two: "esize (254 \<le> prev_size es i, s) = 2"
  shows "ziplistInsert junk (entry_pos es i) s zl = None"
proof -
  let ?p = "entry_pos es i"
  obtain x where x: "byte_at ?p zl = Some x" "x \<noteq> ZIP_END"
    "ZIP_DECODE_PREVLEN ?p zl = Some (psize (fst (es ! i)), prev_size es i)"
    "ZIP_DECODE_PREVLENSIZE ?p zl = Some (psize (fst (es ! i)))"
    using entry_facts [OF rep i] by metis
  obtain n where zl: "zl = block n es" and T32: "11 + lsize es < 2 ^ 32" using rep by (auto simp: zl_rep_def)
  let ?T = "11 + lsize es"
  have bytes: "ZIPLIST_BYTES zl = Some ?T" using T32 by (simp add: zl block_def hdr_fields)
  have pv: "insert_prevlen ?p x zl = Some (prev_size es i)" using x by (simp add: insert_prevlen_def)
  obtain paylen encoding v where enc: "new_encoding s = (paylen, encoding, v)" by (cases "new_encoding s") auto
  have req: "paylen + length (zipPrevEncodeLength (prev_size es i)) + length (zipEncodeLength encoding (length s)) = 2"
    using new_encoding_size [OF enc] two by simp
  have dif: "zipPrevLenByteDiff ?p (u32_of 2) zl = Some (-4)"
    using x(4) big by (simp add: zipPrevLenByteDiff_def zipPrevEncodeLength_pbytes psize_def)
  have pl: "?p + esize (es ! i) \<le> 10 + lsize es"
  proof -
    have "lsize es = lsize (take i es) + (esize (es ! i) + lsize (drop (Suc i) es))"
      using arg_cong [OF split_at [OF i], of lsize] by (simp only: lsize_simps)
    then show ?thesis by (simp add: entry_pos_def)
  qed
  have e6: "6 \<le> esize (es ! i)" using esize_ge [of "es ! i"] big by (simp add: psize_def)
  have len: "nat ((int ?T + int 2 + - 4) mod 2 ^ 32) = ?T - 2"
  proof -
    have "int ?T + int 2 + - 4 = int (?T - 2)" by simp
    then show ?thesis using T32 by (simp add: nat_mod_distrib del: of_nat_diff)
  qed
  obtain zl1 where rs: "ziplistResize junk (?T - 2) zl = Some zl1" "length zl1 = ?T - 2"
    "byte_at ?p zl1 = Some (zl ! ?p)"
  proof -
    let ?r = "lbytes 0 es @ [ZIP_END]"
    let ?zl1 = "hdr (?T - 2) (10 + before_last es) n @ take (?T - 2 - 11) ?r @ [ZIP_END]"
    have "10 \<le> ?p" by (simp add: entry_pos_def)
    then have "11 \<le> ?T - 2" using pl e6 by linarith
    then have 1: "ziplistResize junk (?T - 2) zl = Some ?zl1"
      using resize_eq [of "?T - 2" junk ?T "10 + before_last es" n ?r] by (simp add: zl block_def)
    have "?p < length ?zl1 - 1" using pl e6 by simp
    moreover have "10 \<le> ?p" by (simp add: entry_pos_def)
    moreover have "?p - 10 < lsize es - 2" "?p - 10 < lsize es" using pl e6 \<open>10 \<le> ?p\<close> by linarith+
    ultimately have "?zl1 ! ?p = zl ! ?p" using pl e6 by (simp add: zl block_def nth_append)
    moreover have "?p < length ?zl1" using pl e6 by simp
    ultimately have "byte_at ?p ?zl1 = Some (zl ! ?p)" by (simp add: byte_at_def)
    moreover have "2 \<le> lsize es" using pl e6 \<open>10 \<le> ?p\<close> by linarith
    ultimately show ?thesis using 1 by (intro that [of ?zl1]) simp_all
  qed
  have ne: "zl ! ?p \<noteq> ZIP_END" using x(1,2) by (auto simp: byte_at_def split: if_splits)
  have "mem_move (?p + 2) (nat (int ?p - -4)) (nat (int ?T - int ?p - 1 + -4)) zl1 = None"
    using pl e6 rs(2) by (intro mem_move_beyond) simp
  then have sh: "insert_shift ?p ?T 2 (-4) zl1 = None" using pl e6 by (simp add: insert_shift_def)
  have rs1: "ziplistResize junk (nat ((int ?T + int 2 + - 4) mod 2 ^ 32)) zl = Some zl1" unfolding len by (rule rs(1))
  show ?thesis unfolding ziplistInsert_def u_ziplistInsert_def
    by (simp only: bytes x(1,2) pv enc prod.case Let_def req dif rs1 rs(3) ne sh Option.bind.simps if_True simp_thms)
qed

end
