(* ===== verification/Strobj.thy ===== *)
theory Strobj
  imports Dict_Hash Sds
begin

text \<open>
  Comparison of string objects (\<open>object.c\<close>): objects hold an sds or an integer, and compare by
  the bytes they stand for. The binary comparison is a total order on those bytes.
\<close>

section \<open>Comparison\<close>

text \<open>
  The result is the \<open>int\<close> of a \<open>size_t\<close> difference when one string is a prefix of the other.
  The shortcut for identical pointers gives the same result.
\<close>

definition compareStringObjects :: "strobj \<Rightarrow> strobj \<Rightarrow> int" where
  "compareStringObjects a b =
     (let astr = getDecodedObject a; bstr = getDecodedObject b;
          minlen = min (length astr) (length bstr);
          cmp = memcmp (take minlen astr) (take minlen bstr)
      in if cmp = 0 then s32 (int (length astr) - int (length bstr)) else cmp)"

fun equalStringObjects :: "strobj \<Rightarrow> strobj \<Rightarrow> bool" where
  "equalStringObjects (IntEnc p) (IntEnc q) = (p = q)"
| "equalStringObjects a b = (compareStringObjects a b = 0)"

fun stringObjectLen :: "strobj \<Rightarrow> nat" where
  "stringObjectLen (Raw s) = length s"
| "stringObjectLen (IntEnc p) = length (int_text p)"

section \<open>The order\<close>

text \<open>Objects whose length is an \<open>int\<close>, as those of the server are.\<close>

definition small_obj :: "strobj \<Rightarrow> bool" where
  "small_obj a \<longleftrightarrow> length (getDecodedObject a) < 2 ^ 31"

lemma bytes_less_irrefl [simp]: "\<not> bytes_less xs xs"
  by (induction xs) auto

lemma bytes_less_trans: "bytes_less xs ys \<Longrightarrow> bytes_less ys zs \<Longrightarrow> bytes_less xs zs"
proof (induction xs ys arbitrary: zs rule: bytes_less.induct)
  case (1 xs)
  then show ?case by simp
next
  case (2 y ys)
  then show ?case by (cases zs) auto
next
  case (3 x xs y ys)
  then show ?case by (cases zs) (auto dest: order.strict_trans)
qed

lemma bytes_less_linear: "bytes_less xs ys \<or> xs = ys \<or> bytes_less ys xs"
proof (induction xs ys rule: bytes_less.induct)
  case (1 xs)
  then show ?case by (cases xs) auto
next
  case (2 y ys)
  then show ?case by simp
next
  case (3 x xs y ys)
  then show ?case by (cases x y rule: linorder_cases) auto
qed

lemma bytes_less_asym: "bytes_less xs ys \<Longrightarrow> \<not> bytes_less ys xs"
  using bytes_less_trans bytes_less_irrefl by blast

lemma compareStringObjects_cases:
  assumes "small_obj a" "small_obj b"
  shows "(compareStringObjects a b = 0 \<longleftrightarrow> getDecodedObject a = getDecodedObject b) \<and>
    (compareStringObjects a b < 0 \<longleftrightarrow> bytes_less (getDecodedObject a) (getDecodedObject b)) \<and>
    (compareStringObjects a b > 0 \<longleftrightarrow> bytes_less (getDecodedObject b) (getDecodedObject a))"
proof -
  let ?A = "getDecodedObject a" and ?B = "getDecodedObject b"
  let ?m = "min (length ?A) (length ?B)"
  define c where "c = memcmp (take ?m ?A) (take ?m ?B)"
  have cmp: "compareStringObjects a b = (if c = 0 then int (length ?A) - int (length ?B) else c)"
    using assms by (simp add: compareStringObjects_def small_obj_def c_def Let_def s32_id)
  note lx = memcmp_lex [OF c_def [symmetric]]
  show ?thesis
  proof (cases "c = 0")
    case False
    then have "?A \<noteq> ?B" using memcmp_prefix by (auto simp: c_def)
    then show ?thesis using cmp lx False bytes_less_asym by (cases "c < 0") auto
  next
    case True
    then have e: "take ?m ?A = take ?m ?B" using lx by simp
    consider "length ?A = length ?B" | "length ?A < length ?B" | "length ?B < length ?A" by linarith
    then show ?thesis
    proof cases
      case 1
      then show ?thesis using e cmp True by simp
    next
      case 2
      then have "bytes_less ?A ?B" using e bytes_less_prefix [of ?A ?B] by simp
      then show ?thesis using 2 cmp True bytes_less_asym by auto
    next
      case 3
      then have "bytes_less ?B ?A" using e bytes_less_prefix [of ?B ?A] by simp
      then show ?thesis using 3 cmp True bytes_less_asym by auto
    qed
  qed
qed

lemma equalStringObjects_eq:
  assumes "small_obj a" "small_obj b"
  shows "equalStringObjects a b \<longleftrightarrow> getDecodedObject a = getDecodedObject b"
proof -
  have "equalStringObjects a b \<longleftrightarrow> getDecodedObject a = getDecodedObject b" if "\<exists>p q. a = IntEnc p \<and> b = IntEnc q"
    using that dictEncObjKeyCompare_eq [of a b] by (elim exE conjE) simp
  moreover have "equalStringObjects a b \<longleftrightarrow> compareStringObjects a b = 0" if "\<not> (\<exists>p q. a = IntEnc p \<and> b = IntEnc q)"
    using that by (cases a; cases b) auto
  ultimately show ?thesis using compareStringObjects_cases [OF assms] by blast
qed

end
