(* ===== verification/Skiplist.thy ===== *)
theory Skiplist
  imports Strobj Adlist
begin

text \<open>
  The skiplist of \<open>t_zset.c\<close>: nodes in a store of addresses, each with an array of levels whose
  forward pointers carry the number of elements they jump over. A pointer is an address,
  \<open>NULL\<close> is \<open>0\<close>; following anything else than a live node, or a level the node does not have,
  is \<open>None\<close>. A score is an element of a linear order: a \<open>double\<close> other than NaN, which
  \<open>zslInsert\<close> asserts, with \<open>-0.0\<close> and \<open>0.0\<close> identified. The address \<open>zmalloc\<close> returns is an
  argument; what it leaves uninitialised comes from \<open>junk\<close>. Spans and ranks of \<open>unsigned int\<close>
  wrap around at \<open>2 ^ 32\<close>. \<open>zreleased\<close> logs the objects \<open>decrRefCount\<close> is called on.
\<close>

section \<open>Data\<close>

record zskiplistLevel =
  forward :: addr
  span :: nat

record 's zskiplistNode =
  zobj :: "strobj option"
  zscore :: 's
  backward :: addr
  level :: "zskiplistLevel list"

type_synonym 's znodes = "addr \<rightharpoonup> 's zskiplistNode"

record zskiplist =
  header :: addr
  ztail :: addr
  zlength :: nat
  zlevel :: nat
  zreleased :: "strobj list"

definition ZSKIPLIST_MAXLEVEL :: nat where
  "ZSKIPLIST_MAXLEVEL = 32"

section \<open>Pointer access\<close>

definition znode :: "'s znodes \<Rightarrow> addr \<Rightarrow> 's zskiplistNode option" where
  "znode h a = (if a = NULL then None else h a)"

definition get_level :: "'s znodes \<Rightarrow> addr \<Rightarrow> nat \<Rightarrow> zskiplistLevel option" where
  "get_level h a i = do {
     n \<leftarrow> znode h a;
     (if i < length (level n) then Some (level n ! i) else None) }"

definition set_level :: "addr \<Rightarrow> nat \<Rightarrow> zskiplistLevel \<Rightarrow> 's znodes \<Rightarrow> 's znodes option" where
  "set_level a i l h = do {
     n \<leftarrow> znode h a;
     (if i < length (level n) then Some (h(a \<mapsto> n\<lparr>level := (level n)[i := l]\<rparr>)) else None) }"

text \<open>\<open>x->level[i].forward = p\<close>, \<open>x->level[i].span = s\<close>, \<open>x->backward = p\<close>\<close>

definition set_forward :: "addr \<Rightarrow> nat \<Rightarrow> addr \<Rightarrow> 's znodes \<Rightarrow> 's znodes option" where
  "set_forward a i p h = do { l \<leftarrow> get_level h a i; set_level a i (l\<lparr>forward := p\<rparr>) h }"

definition set_span :: "addr \<Rightarrow> nat \<Rightarrow> nat \<Rightarrow> 's znodes \<Rightarrow> 's znodes option" where
  "set_span a i s h = do { l \<leftarrow> get_level h a i; set_level a i (l\<lparr>span := s\<rparr>) h }"

definition set_backward :: "addr \<Rightarrow> addr \<Rightarrow> 's znodes \<Rightarrow> 's znodes option" where
  "set_backward a p h = do { n \<leftarrow> znode h a; Some (h(a \<mapsto> n\<lparr>backward := p\<rparr>)) }"

section \<open>Creation\<close>

definition zslCreateNode ::
    "addr \<times> (nat \<Rightarrow> zskiplistLevel) \<Rightarrow> nat \<Rightarrow> 's \<Rightarrow> strobj option \<Rightarrow> 's zskiplistNode" where
  "zslCreateNode junk n score obj =
     \<lparr>zobj = obj, zscore = score, backward = fst junk, level = map (snd junk) [0..<n]\<rparr>"

fun clear_levels :: "addr \<Rightarrow> nat list \<Rightarrow> 's znodes \<Rightarrow> 's znodes option" where
  "clear_levels a [] h = Some h"
| "clear_levels a (j # js) h = do {
     h \<leftarrow> set_forward a j NULL h;
     h \<leftarrow> set_span a j 0 h;
     clear_levels a js h }"

definition zslCreate ::
    "addr \<times> (nat \<Rightarrow> zskiplistLevel) \<Rightarrow> addr \<Rightarrow> ('s :: {linorder, zero}) znodes \<Rightarrow> ('s znodes \<times> zskiplist) option" where
  "zslCreate junk a h = do {
     let h = h(a \<mapsto> zslCreateNode junk ZSKIPLIST_MAXLEVEL 0 None);
     h \<leftarrow> clear_levels a [0..<ZSKIPLIST_MAXLEVEL] h;
     h \<leftarrow> set_backward a NULL h;
     Some (h, \<lparr>header = a, ztail = NULL, zlength = 0, zlevel = 1, zreleased = []\<rparr>) }"

text \<open>The header has no object; \<open>decrRefCount(NULL)\<close> is undefined.\<close>

definition zslFreeNode :: "addr \<Rightarrow> 's znodes \<times> zskiplist \<Rightarrow> ('s znodes \<times> zskiplist) option" where
  "zslFreeNode a = (\<lambda>(h, zsl). do {
     n \<leftarrow> znode h a;
     obj \<leftarrow> zobj n;
     Some (h(a := None), zsl\<lparr>zreleased := zreleased zsl @ [obj]\<rparr>) })"

partial_function (option) free_nodes :: "addr \<Rightarrow> 's znodes \<times> zskiplist \<Rightarrow> ('s znodes \<times> zskiplist) option" where
  "free_nodes a s =
     (if a = NULL then Some s
      else do {
        l \<leftarrow> get_level (fst s) a 0;
        s \<leftarrow> zslFreeNode a s;
        free_nodes (forward l) s })"

definition zslFree :: "'s znodes \<times> zskiplist \<Rightarrow> ('s znodes \<times> strobj list) option" where
  "zslFree = (\<lambda>(h, zsl). do {
     l \<leftarrow> get_level h (header zsl) 0;
     (h, zsl) \<leftarrow> free_nodes (forward l) (h(header zsl := None), zsl);
     Some (h, zreleased zsl) })"

text \<open>
  \<open>random()&0xFFFF\<close> against \<open>0.25 * 0xFFFF = 16383.75\<close>; \<open>random()\<close> is a stream \<open>r\<close> read from
  position \<open>k\<close>.
\<close>

partial_function (option) random_level_loop :: "(nat \<Rightarrow> nat) \<Rightarrow> nat \<Rightarrow> nat \<Rightarrow> nat option" where
  "random_level_loop r k lvl =
     (if 4 * (r k AND 0xFFFF) < 0xFFFF then random_level_loop r (k + 1) (lvl + 1) else Some lvl)"

definition zslRandomLevel :: "(nat \<Rightarrow> nat) \<Rightarrow> nat option" where
  "zslRandomLevel r = do {
     lvl \<leftarrow> random_level_loop r 0 1;
     Some (if lvl < ZSKIPLIST_MAXLEVEL then lvl else ZSKIPLIST_MAXLEVEL) }"

section \<open>Walking\<close>

text \<open>
  The loop \<open>while (x->level[i].forward && \<dots>)\<close> that all searches share: it goes on while \<open>Q\<close>
  holds of the elements crossed so far and of the node ahead.
\<close>

partial_function (option) zsl_walk ::
    "(nat \<Rightarrow> 's zskiplistNode \<Rightarrow> bool) \<Rightarrow> 's znodes \<Rightarrow> nat \<Rightarrow> addr \<Rightarrow> nat \<Rightarrow> (addr \<times> nat) option" where
  "zsl_walk Q h i x rank = do {
     l \<leftarrow> get_level h x i;
     (if forward l = NULL then Some (x, rank)
      else do {
        n \<leftarrow> znode h (forward l);
        (if Q (rank + span l) n then zsl_walk Q h i (forward l) (rank + span l)
         else Some (x, rank)) }) }"

text \<open>
  \<open>for (i = zsl->level-1; i >= 0; i--)\<close> from \<open>x\<close>: where each level ended (\<open>update[i]\<close>) and the
  elements crossed (\<open>rank[i]\<close>), level 0 first.
\<close>

fun descend ::
    "(nat \<Rightarrow> 's zskiplistNode \<Rightarrow> bool) \<Rightarrow> 's znodes \<Rightarrow> nat \<Rightarrow> addr \<times> nat \<Rightarrow> (addr \<times> nat) list option" where
  "descend Q h 0 xr = Some []"
| "descend Q h (Suc i) xr = do {
     xr \<leftarrow> zsl_walk Q h i (fst xr) (snd xr);
     us \<leftarrow> descend Q h i xr;
     Some (us @ [xr]) }"

text \<open>The node \<open>x\<close> a search ends at: \<open>update[0]\<close>.\<close>

definition search_end :: "(nat \<Rightarrow> 's zskiplistNode \<Rightarrow> bool) \<Rightarrow> 's znodes \<times> zskiplist \<Rightarrow> addr option" where
  "search_end Q = (\<lambda>(h, zsl). do {
     us \<leftarrow> descend Q h (zlevel zsl) (header zsl, 0);
     Some (case us of [] \<Rightarrow> header zsl | xr # _ \<Rightarrow> fst xr) })"

text \<open>\<open>x->score < score || (x->score == score && compareStringObjects(x->obj,obj) < 0)\<close>\<close>

definition obj_of :: "'s zskiplistNode \<Rightarrow> strobj" where
  "obj_of n = (case zobj n of Some obj \<Rightarrow> obj | None \<Rightarrow> Raw [])"

definition node_before :: "('s :: linorder) \<Rightarrow> strobj \<Rightarrow> 's zskiplistNode \<Rightarrow> bool" where
  "node_before score obj n \<longleftrightarrow>
     zscore n < score \<or> zscore n = score \<and> compareStringObjects (obj_of n) obj < 0"

section \<open>Insertion\<close>

definition add32 :: "nat \<Rightarrow> nat \<Rightarrow> nat" where
  "add32 a b = (a + b) mod 2 ^ 32"

text \<open>The levels the list did not have yet start at the header.\<close>

fun raise_levels :: "zskiplist \<Rightarrow> nat list \<Rightarrow> (addr \<times> nat) list \<times> 's znodes
    \<Rightarrow> ((addr \<times> nat) list \<times> 's znodes) option" where
  "raise_levels zsl [] s = Some s"
| "raise_levels zsl (i # is) s = do {
     h \<leftarrow> set_span (header zsl) i (zlength zsl mod 2 ^ 32) (snd s);
     raise_levels zsl is (fst s @ [(header zsl, 0)], h) }"

text \<open>Link \<open>x\<close> in behind \<open>update[i]\<close>, from level \<open>i\<close> upwards.\<close>

fun link_levels :: "addr \<Rightarrow> nat \<Rightarrow> nat \<Rightarrow> (addr \<times> nat) list \<Rightarrow> 's znodes \<Rightarrow> 's znodes option" where
  "link_levels x rank0 i [] h = Some h"
| "link_levels x rank0 i ((u, r) # us) h = do {
     l \<leftarrow> get_level h u i;
     h \<leftarrow> set_forward x i (forward l) h;
     h \<leftarrow> set_forward u i x h;
     l \<leftarrow> get_level h u i;
     h \<leftarrow> set_span x i (sub32 (span l) (sub32 rank0 r)) h;
     h \<leftarrow> set_span u i (add32 (sub32 rank0 r) 1) h;
     link_levels x rank0 (i + 1) us h }"

fun widen_spans :: "nat \<Rightarrow> (addr \<times> nat) list \<Rightarrow> 's znodes \<Rightarrow> 's znodes option" where
  "widen_spans i [] h = Some h"
| "widen_spans i ((u, r) # us) h = do {
     l \<leftarrow> get_level h u i;
     h \<leftarrow> set_span u i (add32 (span l) 1) h;
     widen_spans (i + 1) us h }"

text \<open>The \<open>backward\<close> pointers and the tail.\<close>

definition link_backward ::
    "addr \<Rightarrow> addr \<Rightarrow> 's znodes \<times> zskiplist \<Rightarrow> ('s znodes \<times> zskiplist) option" where
  "link_backward x update0 = (\<lambda>(h, zsl). do {
     h \<leftarrow> set_backward x (if update0 = header zsl then NULL else update0) h;
     l \<leftarrow> get_level h x 0;
     (if forward l \<noteq> NULL then do { h \<leftarrow> set_backward (forward l) x h; Some (h, zsl) }
      else Some (h, zsl\<lparr>ztail := x\<rparr>)) })"

text \<open>\<open>lvl\<close> is what \<open>zslRandomLevel\<close> returned, \<open>a\<close> the address of the new node.\<close>

definition zslInsert ::
    "addr \<times> (nat \<Rightarrow> zskiplistLevel) \<Rightarrow> nat \<Rightarrow> addr \<Rightarrow> ('s :: linorder) \<Rightarrow> strobj
     \<Rightarrow> 's znodes \<times> zskiplist \<Rightarrow> ('s znodes \<times> zskiplist) option" where
  "zslInsert junk lvl a score obj = (\<lambda>(h, zsl). do {
     us \<leftarrow> descend (\<lambda>_. node_before score obj) h (zlevel zsl) (header zsl, 0);
     let us = map (\<lambda>(x, r). (x, r mod 2 ^ 32)) us;
     (us, h) \<leftarrow> raise_levels zsl [zlevel zsl..<lvl] (us, h);
     let zsl = (if lvl > zlevel zsl then zsl\<lparr>zlevel := lvl\<rparr> else zsl);
     let h = h(a \<mapsto> zslCreateNode junk lvl score (Some obj));
     (case us of
        [] \<Rightarrow> None
      | (update0, rank0) # _ \<Rightarrow> do {
          h \<leftarrow> link_levels a rank0 0 (take lvl us) h;
          h \<leftarrow> widen_spans lvl (drop lvl us) h;
          (h, zsl) \<leftarrow> link_backward a update0 (h, zsl);
          Some (h, zsl\<lparr>zlength := zlength zsl + 1\<rparr>) }) })"

section \<open>Deletion\<close>

fun unlink_levels :: "addr \<Rightarrow> nat \<Rightarrow> addr list \<Rightarrow> 's znodes \<Rightarrow> 's znodes option" where
  "unlink_levels x i [] h = Some h"
| "unlink_levels x i (u # us) h = do {
     l \<leftarrow> get_level h u i;
     h \<leftarrow> (if forward l = x then do {
             lx \<leftarrow> get_level h x i;
             h \<leftarrow> set_span u i (add32 (span l) (sub32 (span lx) 1)) h;
             set_forward u i (forward lx) h }
           else set_span u i (sub32 (span l) 1) h);
     unlink_levels x (i + 1) us h }"

text \<open>\<open>while(zsl->level > 1 && header->level[zsl->level-1].forward == NULL) zsl->level--;\<close>\<close>

fun lower_level :: "'s znodes \<Rightarrow> addr \<Rightarrow> nat \<Rightarrow> nat option" where
  "lower_level h a 0 = Some 0"
| "lower_level h a (Suc n) =
     (if n = 0 then Some 1
      else do { l \<leftarrow> get_level h a n; (if forward l = NULL then lower_level h a n else Some (Suc n)) })"

definition zslDeleteNode ::
    "addr \<Rightarrow> addr list \<Rightarrow> 's znodes \<times> zskiplist \<Rightarrow> ('s znodes \<times> zskiplist) option" where
  "zslDeleteNode x update = (\<lambda>(h, zsl). do {
     h \<leftarrow> unlink_levels x 0 (take (zlevel zsl) update) h;
     n \<leftarrow> znode h x;
     l \<leftarrow> get_level h x 0;
     (h, zsl) \<leftarrow> (if forward l \<noteq> NULL
                then do { h \<leftarrow> set_backward (forward l) (backward n) h; Some (h, zsl) }
                else Some (h, zsl\<lparr>ztail := backward n\<rparr>));
     lvl \<leftarrow> lower_level h (header zsl) (zlevel zsl);
     Some (h, zsl\<lparr>zlevel := lvl, zlength := zlength zsl - 1\<rparr>) })"

definition zslDelete ::
    "('s :: linorder) \<Rightarrow> strobj \<Rightarrow> 's znodes \<times> zskiplist \<Rightarrow> (('s znodes \<times> zskiplist) \<times> bool) option" where
  "zslDelete score obj = (\<lambda>(h, zsl). do {
     us \<leftarrow> descend (\<lambda>_. node_before score obj) h (zlevel zsl) (header zsl, 0);
     (case us of
        [] \<Rightarrow> None
      | (u, r) # _ \<Rightarrow> do {
          l \<leftarrow> get_level h u 0;
          (if forward l = NULL then Some ((h, zsl), False)
           else do {
             n \<leftarrow> znode h (forward l);
             (if score = zscore n \<and> equalStringObjects (obj_of n) obj
              then do {
                s \<leftarrow> zslDeleteNode (forward l) (map fst us) (h, zsl);
                s \<leftarrow> zslFreeNode (forward l) s;
                Some (s, True) }
              else Some ((h, zsl), False)) }) }) })"

end
