(* ===== verification/Skiplist_Correct.thy ===== *)
theory Skiplist_Correct
  imports Skiplist
begin

text \<open>
  The skiplist against the sorted sequence of its elements. \<open>zsl_rep s xs\<close>: the nodes of \<open>s\<close> are
  the towers \<open>xs\<close> in order; the pointer of every level leads to the next tower that is high
  enough, and its span is the distance in ranks. Rank 0 is the header.
\<close>

section \<open>The store\<close>

text \<open>What a node holds besides its levels.\<close>

definition base :: "'s znodes \<Rightarrow> addr \<Rightarrow> (strobj option \<times> 's \<times> addr \<times> nat) option" where
  "base h a = map_option (\<lambda>n. (zobj n, zscore n, backward n, length (level n))) (h a)"

lemma base_SomeE:
  assumes "base h a = Some (ob, sc, b, k)" "a \<noteq> NULL"
  obtains n where "znode h a = Some n" "zobj n = ob" "zscore n = sc" "backward n = b" "length (level n) = k"
  using assms by (auto simp: base_def znode_def)

lemma get_level_base: "base h a = Some (ob, sc, b, k) \<Longrightarrow> a \<noteq> NULL \<Longrightarrow> i < k \<Longrightarrow> \<exists>l. get_level h a i = Some l"
  by (auto simp: base_def get_level_def znode_def)

lemma set_level_ok:
  assumes "get_level h a i = Some l0"
  shows "\<exists>h'. set_level a i l h = Some h' \<and> base h' = base h \<and>
     get_level h' = (get_level h)(a := (get_level h a)(i := Some l))"
proof -
  obtain n where n: "znode h a = Some n" "i < length (level n)" "a \<noteq> NULL" "h a = Some n"
    using assms by (cases "znode h a") (auto simp: get_level_def znode_def split: if_splits)
  let ?h = "h(a \<mapsto> n\<lparr>level := (level n)[i := l]\<rparr>)"
  have "set_level a i l h = Some ?h" using n by (simp add: set_level_def)
  moreover have "base ?h = base h" using n by (simp add: base_def fun_eq_iff)
  moreover have "get_level ?h = (get_level h)(a := (get_level h a)(i := Some l))"
    using n by (auto simp: get_level_def znode_def fun_eq_iff nth_list_update)
  ultimately show ?thesis by blast
qed

lemma set_forward_ok:
  "get_level h a i = Some l \<Longrightarrow>
   \<exists>h'. set_forward a i p h = Some h' \<and> base h' = base h \<and>
     get_level h' = (get_level h)(a := (get_level h a)(i := Some (l\<lparr>forward := p\<rparr>)))"
  using set_level_ok [of h a i l "l\<lparr>forward := p\<rparr>"] by (simp add: set_forward_def)

lemma set_span_ok:
  "get_level h a i = Some l \<Longrightarrow>
   \<exists>h'. set_span a i s h = Some h' \<and> base h' = base h \<and>
     get_level h' = (get_level h)(a := (get_level h a)(i := Some (l\<lparr>span := s\<rparr>)))"
  using set_level_ok [of h a i l "l\<lparr>span := s\<rparr>"] by (simp add: set_span_def)

lemma set_backward_ok:
  assumes "base h a = Some (ob, sc, b, k)" "a \<noteq> NULL"
  shows "\<exists>h'. set_backward a p h = Some h' \<and> base h' = (base h)(a := Some (ob, sc, p, k)) \<and>
    get_level h' = get_level h"
proof -
  obtain n where n: "znode h a = Some n" "h a = Some n" "zobj n = ob" "zscore n = sc" "length (level n) = k"
    using assms by (auto simp: base_def znode_def)
  let ?h = "h(a \<mapsto> n\<lparr>backward := p\<rparr>)"
  have "set_backward a p h = Some ?h" using n by (simp add: set_backward_def)
  moreover have "base ?h = (base h)(a := Some (ob, sc, p, k))" using n by (simp add: base_def fun_eq_iff)
  moreover have "get_level ?h = get_level h"
    using n assms(2) by (auto simp: get_level_def znode_def fun_eq_iff)
  ultimately show ?thesis by blast
qed

lemma new_node_ok:
  assumes "a \<noteq> NULL" "h' = h(a \<mapsto> zslCreateNode junk n score obj)"
  shows "base h' = (base h)(a := Some (obj, score, fst junk, n))"
    and "get_level h' = (get_level h)(a := \<lambda>i. if i < n then Some (snd junk i) else None)"
  using assms by (auto simp: base_def get_level_def znode_def zslCreateNode_def fun_eq_iff split: option.splits)

lemma remove_node_ok:
  "base (h(a := None)) = (base h)(a := None)" "get_level (h(a := None)) = (get_level h)(a := \<lambda>_. None)"
  by (auto simp: base_def get_level_def znode_def fun_eq_iff)

section \<open>Towers and ranks\<close>

record 's tower =
  taddr :: addr
  tscore :: 's
  tobj :: strobj
  theight :: nat

definition addr_at :: "addr \<Rightarrow> 's tower list \<Rightarrow> nat \<Rightarrow> addr" where
  "addr_at z xs r = (case r of 0 \<Rightarrow> z | Suc k \<Rightarrow> taddr (xs ! k))"

definition height_at :: "'s tower list \<Rightarrow> nat \<Rightarrow> nat" where
  "height_at xs r = (case r of 0 \<Rightarrow> ZSKIPLIST_MAXLEVEL | Suc k \<Rightarrow> theight (xs ! k))"

text \<open>The next tower above level \<open>i\<close>, and the last one up to rank \<open>m\<close>.\<close>

definition nxt :: "'s tower list \<Rightarrow> nat \<Rightarrow> nat \<Rightarrow> nat option" where
  "nxt xs i r = find (\<lambda>j. i < height_at xs j) [Suc r..<Suc (length xs)]"

fun prv :: "'s tower list \<Rightarrow> nat \<Rightarrow> nat \<Rightarrow> nat" where
  "prv xs i 0 = 0"
| "prv xs i (Suc m) = (if i < height_at xs (Suc m) then Suc m else prv xs i m)"

definition cell :: "addr \<Rightarrow> 's tower list \<Rightarrow> nat \<Rightarrow> nat \<Rightarrow> zskiplistLevel" where
  "cell z xs i r = (case nxt xs i r of
     Some j \<Rightarrow> \<lparr>forward = addr_at z xs j, span = j - r\<rparr>
   | None \<Rightarrow> \<lparr>forward = NULL, span = length xs - r\<rparr>)"

lemma find_upt_eq:
  "find P [a..<b] = Some j \<longleftrightarrow> a \<le> j \<and> j < b \<and> P j \<and> (\<forall>k. a \<le> k \<longrightarrow> k < j \<longrightarrow> \<not> P k)"
proof (induction "b - a" arbitrary: a)
  case 0
  then show ?case by simp
next
  case (Suc n)
  then have u: "[a..<b] = a # [Suc a..<b]" and IH: "find P [Suc a..<b] = Some j \<longleftrightarrow>
      Suc a \<le> j \<and> j < b \<and> P j \<and> (\<forall>k. Suc a \<le> k \<longrightarrow> k < j \<longrightarrow> \<not> P k)"
    by (auto simp: upt_conv_Cons)
  show ?case
  proof (cases "P a")
    case True
    then show ?thesis using Suc(2) by (auto simp: u le_less)
  next
    case False
    then have "find P [a..<b] = find P [Suc a..<b]" by (simp add: u)
    then show ?thesis using False IH by (metis Suc_leD Suc_leI le_neq_implies_less)
  qed
qed

lemma nxt_Some: "nxt xs i r = Some j \<longleftrightarrow>
    r < j \<and> j \<le> length xs \<and> i < height_at xs j \<and> (\<forall>k. r < k \<longrightarrow> k < j \<longrightarrow> height_at xs k \<le> i)"
  unfolding nxt_def find_upt_eq by (auto simp: Suc_le_eq less_Suc_eq_le)

lemma nxt_None: "nxt xs i r = None \<longleftrightarrow> (\<forall>k. r < k \<longrightarrow> k \<le> length xs \<longrightarrow> height_at xs k \<le> i)"
  unfolding nxt_def find_None_iff set_upt by (auto simp: Suc_le_eq less_Suc_eq_le not_less)

lemma prv_le: "prv xs i m \<le> m"
  by (induction m) auto

lemma prv_live: "prv xs i m = 0 \<or> i < height_at xs (prv xs i m)"
  by (induction m) auto

lemma prv_last: "prv xs i m < k \<Longrightarrow> k \<le> m \<Longrightarrow> height_at xs k \<le> i"
  by (induction m) (auto simp: le_Suc_eq split: if_splits)

lemma prv_eqI:
  "p \<le> m \<Longrightarrow> p = 0 \<or> i < height_at xs p \<Longrightarrow> (\<And>k. p < k \<Longrightarrow> k \<le> m \<Longrightarrow> height_at xs k \<le> i) \<Longrightarrow> prv xs i m = p"
  using prv_le [of xs i m] prv_live [of xs i m] prv_last [of xs i m]
  by (metis antisym_conv3 leD le_neq_implies_less less_or_eq_imp_le not_gr_zero)

lemma nxt_prv: "nxt xs i (prv xs i m) = nxt xs i m"
proof -
  have s: "nxt xs i (prv xs i m) = Some j" if "nxt xs i m = Some j" for j
    using that prv_le [of xs i m] prv_last [of xs i m]
    unfolding nxt_Some by (metis le_less_trans not_less)
  have n: "nxt xs i (prv xs i m) = None" if "nxt xs i m = None"
    using that prv_last [of xs i m] unfolding nxt_None by (metis not_less)
  show ?thesis using s n by (cases "nxt xs i m") auto
qed

lemma nxt_below:
  assumes "r \<le> m" "r \<noteq> prv xs i m" "r = 0 \<or> i < height_at xs r" "m \<le> length xs"
  shows "\<exists>j \<le> m. nxt xs i r = Some j"
proof -
  let ?p = "prv xs i m"
  have "r < ?p" using assms prv_last [of xs i m r] by (metis le_less_trans linorder_neqE_nat not_less0 leD)
  then have p: "?p \<noteq> 0" "i < height_at xs ?p" "?p \<le> length xs"
    using prv_live [of xs i m] prv_le [of xs i m] assms(4) by auto
  obtain j where j: "nxt xs i r = Some j"
    using nxt_None [of xs i r] \<open>r < ?p\<close> p by (cases "nxt xs i r") auto
  then have "j \<le> ?p" using \<open>r < ?p\<close> p(2) unfolding nxt_Some by (metis leI not_less)
  then show ?thesis using j prv_le [of xs i m] by auto
qed

section \<open>The invariant\<close>

text \<open>The nodes and their levels, with \<open>L\<close> levels in use.\<close>

definition linked :: "addr \<Rightarrow> nat \<Rightarrow> 's znodes \<Rightarrow> 's tower list \<Rightarrow> bool" where
  "linked z L h xs \<longleftrightarrow>
     (\<exists>sc. base h z = Some (None, sc, NULL, ZSKIPLIST_MAXLEVEL)) \<and>
     (\<forall>k < length xs. base h (taddr (xs ! k)) = Some (Some (tobj (xs ! k)), tscore (xs ! k),
        (if k = 0 then NULL else taddr (xs ! (k - 1))), theight (xs ! k))) \<and>
     (\<forall>r \<le> length xs. \<forall>i < L. i < height_at xs r \<longrightarrow> get_level h (addr_at z xs r) i = Some (cell z xs i r)) \<and>
     (\<forall>i. L \<le> i \<longrightarrow> i < ZSKIPLIST_MAXLEVEL \<longrightarrow> (\<exists>s. get_level h z i = Some \<lparr>forward = NULL, span = s\<rparr>))"

definition towers_ok :: "addr \<Rightarrow> nat \<Rightarrow> 's tower list \<Rightarrow> bool" where
  "towers_ok z L xs \<longleftrightarrow>
     distinct (z # map taddr xs) \<and> NULL \<notin> set (z # map taddr xs) \<and>
     (\<forall>x \<in> set xs. 1 \<le> theight x \<and> theight x \<le> L) \<and> 1 \<le> L \<and> L \<le> ZSKIPLIST_MAXLEVEL \<and>
     length xs < 2 ^ 32"

text \<open>The order: by score, then by the bytes of the object.\<close>

definition before :: "('s :: linorder) \<Rightarrow> strobj \<Rightarrow> 's tower \<Rightarrow> bool" where
  "before s ob x \<longleftrightarrow> tscore x < s \<or> tscore x = s \<and> bytes_less (getDecodedObject (tobj x)) (getDecodedObject ob)"

definition same_key :: "'s \<Rightarrow> strobj \<Rightarrow> 's tower \<Rightarrow> bool" where
  "same_key s ob x \<longleftrightarrow> tscore x = s \<and> getDecodedObject (tobj x) = getDecodedObject ob"

definition tless :: "('s :: linorder) tower \<Rightarrow> 's tower \<Rightarrow> bool" where
  "tless x y \<longleftrightarrow> before (tscore y) (tobj y) x"

definition zsl_rep :: "('s :: linorder) znodes \<times> zskiplist \<Rightarrow> 's tower list \<Rightarrow> bool" where
  "zsl_rep s xs \<longleftrightarrow>
     linked (header (snd s)) (zlevel (snd s)) (fst s) xs \<and> towers_ok (header (snd s)) (zlevel (snd s)) xs \<and>
     zlength (snd s) = length xs \<and> ztail (snd s) = (if xs = [] then NULL else taddr (last xs)) \<and>
     sorted_wrt tless xs \<and> (\<forall>x \<in> set xs. small_obj (tobj x))"

lemma addr_at_simps [simp]: "addr_at z xs 0 = z" "addr_at z xs (Suc k) = taddr (xs ! k)"
  by (simp_all add: addr_at_def)

lemma height_at_simps [simp]: "height_at xs 0 = ZSKIPLIST_MAXLEVEL" "height_at xs (Suc k) = theight (xs ! k)"
  by (simp_all add: height_at_def)

lemma addr_at_inj:
  assumes "towers_ok z L xs" "r \<le> length xs" "r' \<le> length xs" "addr_at z xs r = addr_at z xs r'"
  shows "r = r'"
proof -
  have eq: "addr_at z xs r = (z # map taddr xs) ! r" if "r \<le> length xs" for r
    using that by (cases r) auto
  show ?thesis using assms nth_eq_iff_index_eq [of "z # map taddr xs" r r'] by (simp add: eq towers_ok_def)
qed

lemma addr_at_nonnull:
  assumes "towers_ok z L xs" "r \<le> length xs"
  shows "addr_at z xs r \<noteq> NULL"
proof (cases r)
  case 0
  then show ?thesis using assms by (simp add: towers_ok_def)
next
  case (Suc k)
  then have "taddr (xs ! k) \<in> set (map taddr xs)" using assms(2) by simp
  then show ?thesis using assms(1) Suc by (metis addr_at_simps(2) list.set_intros(2) towers_ok_def)
qed

lemma height_bound: "towers_ok z L xs \<Longrightarrow> 0 < r \<Longrightarrow> r \<le> length xs \<Longrightarrow> 1 \<le> height_at xs r \<and> height_at xs r \<le> L"
  by (cases r) (auto simp: towers_ok_def)

section \<open>Walking\<close>

text \<open>\<open>Q\<close> holds of exactly the nodes up to rank \<open>m\<close>.\<close>

definition cut_at :: "(nat \<Rightarrow> 's zskiplistNode \<Rightarrow> bool) \<Rightarrow> 's znodes \<Rightarrow> addr \<Rightarrow> 's tower list \<Rightarrow> nat \<Rightarrow> bool" where
  "cut_at Q h z xs m \<longleftrightarrow> m \<le> length xs \<and>
     (\<forall>r n. 0 < r \<longrightarrow> r \<le> length xs \<longrightarrow> znode h (addr_at z xs r) = Some n \<longrightarrow> (Q r n \<longleftrightarrow> r \<le> m))"

lemma linked_node:
  assumes "linked z L h xs" "towers_ok z L xs" "0 < r" "r \<le> length xs"
  shows "\<exists>n. znode h (addr_at z xs r) = Some n \<and> zobj n = Some (tobj (xs ! (r - 1))) \<and>
    zscore n = tscore (xs ! (r - 1)) \<and>
    backward n = (if r = 1 then NULL else addr_at z xs (r - 1)) \<and> length (level n) = theight (xs ! (r - 1))"
proof -
  obtain k where k: "r = Suc k" "k < length xs" using assms(3,4) by (cases r) auto
  then have b: "base h (taddr (xs ! k)) = Some (Some (tobj (xs ! k)), tscore (xs ! k),
      (if k = 0 then NULL else taddr (xs ! (k - 1))), theight (xs ! k))"
    using assms(1) by (simp add: linked_def)
  have "taddr (xs ! k) \<noteq> NULL" using addr_at_nonnull [OF assms(2), of r] k by simp
  from base_SomeE [OF b this] obtain n where "znode h (taddr (xs ! k)) = Some n" "zobj n = Some (tobj (xs ! k))"
    "zscore n = tscore (xs ! k)" "backward n = (if k = 0 then NULL else taddr (xs ! (k - 1)))"
    "length (level n) = theight (xs ! k)" by metis
  then show ?thesis using k by (cases k) auto
qed

lemma zsl_walk_ok:
  assumes l: "linked z L h xs" and t: "towers_ok z L xs" and q: "cut_at Q h z xs m" and i: "i < L"
  shows "r \<le> m \<Longrightarrow> r = 0 \<or> i < height_at xs r \<Longrightarrow>
    zsl_walk Q h i (addr_at z xs r) r = Some (addr_at z xs (prv xs i m), prv xs i m)"
proof (induction "m - r" arbitrary: r rule: less_induct)
  case less
  have m: "m \<le> length xs" using q by (simp add: cut_at_def)
  have live: "i < height_at xs r" using less.prems(2) i t by (auto simp: towers_ok_def)
  then have c: "get_level h (addr_at z xs r) i = Some (cell z xs i r)"
    using l i less.prems m by (simp add: linked_def)
  show ?case
  proof (cases "r = prv xs i m")
    case False
    obtain j where j: "j \<le> m" "nxt xs i r = Some j" using nxt_below [OF less.prems(1) False _ m] live by auto
    then have r: "r < j" "i < height_at xs j" by (simp_all add: nxt_Some)
    obtain n where n: "znode h (addr_at z xs j) = Some n" using linked_node [OF l t, of j] j m r by auto
    have "Q j n" using q n j m r by (auto simp: cut_at_def)
    moreover have "addr_at z xs j \<noteq> NULL" using addr_at_nonnull [OF t] j m by simp
    ultimately have "zsl_walk Q h i (addr_at z xs r) r = zsl_walk Q h i (addr_at z xs j) j"
      using n c j r by (subst zsl_walk.simps) (simp add: cell_def)
    then show ?thesis using less.hyps [of j] j r by simp
  next
    case True
    show ?thesis
    proof (cases "nxt xs i r")
      case None
      then show ?thesis using c True by (subst zsl_walk.simps) (simp add: cell_def)
    next
      case (Some j)
      then have j: "r < j" "j \<le> length xs" "i < height_at xs j" by (simp_all add: nxt_Some)
      have "m < j" using prv_last [of xs i m j] j True by (metis not_less)
      obtain n where n: "znode h (addr_at z xs j) = Some n" using linked_node [OF l t, of j] j by auto
      have "\<not> Q j n" using q n j \<open>m < j\<close> by (auto simp: cut_at_def)
      moreover have "addr_at z xs j \<noteq> NULL" using addr_at_nonnull [OF t] j by simp
      ultimately show ?thesis using n c j Some True [symmetric] by (subst zsl_walk.simps) (simp add: cell_def)
    qed
  qed
qed

lemma descend_ok:
  assumes l: "linked z L h xs" and t: "towers_ok z L xs" and q: "cut_at Q h z xs m"
  shows "k \<le> L \<Longrightarrow> r \<le> m \<Longrightarrow> r = 0 \<or> k \<le> height_at xs r \<Longrightarrow>
    descend Q h k (addr_at z xs r, r) = Some (map (\<lambda>i. (addr_at z xs (prv xs i m), prv xs i m)) [0..<k])"
proof (induction k arbitrary: r)
  case 0
  then show ?case by simp
next
  case (Suc k)
  have w: "zsl_walk Q h k (addr_at z xs r) r = Some (addr_at z xs (prv xs k m), prv xs k m)"
    using zsl_walk_ok [OF l t q, of k r] Suc.prems by auto
  have "prv xs k m = 0 \<or> k \<le> height_at xs (prv xs k m)" using prv_live [of xs k m] by auto
  then show ?case using Suc.IH [of "prv xs k m"] Suc.prems prv_le [of xs k m] w by simp
qed

text \<open>All levels are above rank 0, and level 0 holds every tower.\<close>

lemma prv_0: "towers_ok z L xs \<Longrightarrow> m \<le> length xs \<Longrightarrow> prv xs 0 m = m"
  using height_bound [of z L xs m] by (cases "m = 0") (auto intro!: prv_eqI)

lemma search_end_ok:
  assumes "linked (header zsl) (zlevel zsl) h xs" "towers_ok (header zsl) (zlevel zsl) xs"
    and "cut_at Q h (header zsl) xs m"
  shows "search_end Q (h, zsl) = Some (addr_at (header zsl) xs m)"
proof -
  have "0 < zlevel zsl" "m \<le> length xs" using assms by (auto simp: towers_ok_def cut_at_def)
  then show ?thesis using descend_ok [OF assms, of "zlevel zsl" 0] prv_0 [OF assms(2), of m]
    by (cases "zlevel zsl") (auto simp: search_end_def upt_conv_Cons simp del: upt_Suc)
qed

section \<open>A tower more\<close>

declare addr_at_simps(2) [simp del] height_at_simps(2) [simp del]

definition ins :: "nat \<Rightarrow> 's tower \<Rightarrow> 's tower list \<Rightarrow> 's tower list" where
  "ins m t xs = take m xs @ t # drop m xs"

lemma length_ins [simp]: "m \<le> length xs \<Longrightarrow> length (ins m t xs) = Suc (length xs)"
  by (simp add: ins_def)

lemma nth_ins:
  "m \<le> length xs \<Longrightarrow> ins m t xs ! k = (if k < m then xs ! k else if k = m then t else xs ! (k - 1))"
  by (auto simp: ins_def nth_append nth_Cons' min_def)

lemma height_at_ins:
  "m \<le> length xs \<Longrightarrow> height_at (ins m t xs) r =
     (if r \<le> m then height_at xs r else if r = Suc m then theight t else height_at xs (r - 1))"
  by (cases r; cases "r - 1") (auto simp: nth_ins addr_at_simps height_at_simps)

lemma addr_at_ins:
  "m \<le> length xs \<Longrightarrow> addr_at z (ins m t xs) r =
     (if r \<le> m then addr_at z xs r else if r = Suc m then taddr t else addr_at z xs (r - 1))"
  by (cases r; cases "r - 1") (auto simp: nth_ins addr_at_simps height_at_simps)

lemma nxt_ins_above:
  assumes "m \<le> length xs" "m < r"
  shows "nxt (ins m t xs) i r = map_option Suc (nxt xs i (r - 1))"
proof (cases "nxt xs i (r - 1)")
  case None
  then have "height_at xs k \<le> i" if "r - 1 < k" "k \<le> length xs" for k using that nxt_None by blast
  then have "nxt (ins m t xs) i r = None"
    unfolding nxt_None using assms by (auto simp: height_at_ins)
  then show ?thesis using None by simp
next
  case (Some j)
  then have j: "r - 1 < j" "j \<le> length xs" "i < height_at xs j"
    "\<And>k. r - 1 < k \<Longrightarrow> k < j \<Longrightarrow> height_at xs k \<le> i" unfolding nxt_Some by blast+
  have "nxt (ins m t xs) i r = Some (Suc j)"
    unfolding nxt_Some using assms j by (auto simp: height_at_ins)
  then show ?thesis using Some by simp
qed

lemma nxt_ins_below:
  assumes "m \<le> length xs" "nxt xs i r = Some j" "j \<le> m"
  shows "nxt (ins m t xs) i r = Some j"
  using assms unfolding nxt_Some by (auto simp: height_at_ins)

lemma prv_ins: "m \<le> length xs \<Longrightarrow> theight t \<le> i \<Longrightarrow> prv (ins m t xs) i (Suc m) = prv xs i m"
  using prv_le [of xs i m] prv_live [of xs i m] prv_last [of xs i m]
  by (intro prv_eqI) (auto simp: height_at_ins le_Suc_eq)

lemma nxt_ins_new:
  assumes "m \<le> length xs" "i < theight t"
  shows "nxt (ins m t xs) i (prv xs i m) = Some (Suc m)"
  using assms prv_le [of xs i m] prv_last [of xs i m] unfolding nxt_Some by (auto simp: height_at_ins)

lemma cell_prv:
  assumes "m \<le> length xs"
  shows "cell z xs i (prv xs i m) =
    (cell z xs i m)\<lparr>span := span (cell z xs i m) + (m - prv xs i m)\<rparr>"
proof (cases "nxt xs i m")
  case None
  then show ?thesis using assms prv_le [of xs i m] nxt_prv [of xs i m] by (simp add: cell_def)
next
  case (Some j)
  then have "m < j" by (simp add: nxt_Some)
  then show ?thesis using Some prv_le [of xs i m] nxt_prv [of xs i m] by (simp add: cell_def)
qed

lemma cell_ins_above:
  assumes "m \<le> length xs" "m < r"
  shows "cell z (ins m t xs) i r = cell z xs i (r - 1)"
proof (cases "nxt xs i (r - 1)")
  case None
  then show ?thesis using assms by (simp add: cell_def nxt_ins_above)
next
  case (Some j)
  then have "m < j" "r \<le> j" using assms by (auto simp: nxt_Some)
  then show ?thesis using Some assms by (simp add: cell_def nxt_ins_above addr_at_ins)
qed

lemma cell_ins_new:
  assumes "m \<le> length xs" "i < theight t"
  shows "cell z (ins m t xs) i (prv xs i m) = \<lparr>forward = taddr t, span = Suc m - prv xs i m\<rparr>"
  using assms by (simp add: cell_def nxt_ins_new addr_at_ins)

lemma cell_ins_over:
  assumes "m \<le> length xs" "theight t \<le> i"
  shows "cell z (ins m t xs) i (prv xs i m) =
    (cell z xs i (prv xs i m))\<lparr>span := span (cell z xs i (prv xs i m)) + 1\<rparr>"
proof -
  have "cell z (ins m t xs) i (prv xs i m) = (cell z (ins m t xs) i (Suc m))\<lparr>span := span (cell z (ins m t xs) i (Suc m)) + (Suc m - prv xs i m)\<rparr>"
    using cell_prv [of "Suc m" "ins m t xs" z i] assms unfolding prv_ins [OF assms] by simp
  then show ?thesis using assms prv_le [of xs i m] by (simp add: cell_ins_above cell_prv)
qed

lemma cell_ins_same:
  assumes "m \<le> length xs" "r \<le> m" "r \<noteq> prv xs i m" "r = 0 \<or> i < height_at xs r"
  shows "cell z (ins m t xs) i r = cell z xs i r"
proof -
  obtain j where "j \<le> m" "nxt xs i r = Some j" using nxt_below [OF assms(2-4,1)] by blast
  then show ?thesis using assms by (simp add: cell_def nxt_ins_below addr_at_ins)
qed

end
