(* ===== verification/Skiplist_Ops.thy ===== *)
theory Skiplist_Ops
  imports Skiplist_Correct
begin

text \<open>
  Insertion into and deletion from a skiplist, on every level: the loops over the levels, the
  links and spans they leave, and the elements the list then holds. \<open>zins\<close> is insertion into
  the sorted sequence.
\<close>

section \<open>The loops over the levels\<close>

lemma sub32_eq: "b \<le> a \<Longrightarrow> a < 2 ^ 32 \<Longrightarrow> sub32 a b = a - b"
  by (rule sub32_less)

lemma add32_eq: "a + b < 2 ^ 32 \<Longrightarrow> add32 a b = a + b"
  by (simp add: add32_def)

lemma link_levels_ok:
  "(\<And>j. i \<le> j \<Longrightarrow> j < e \<Longrightarrow> get_level h (U j) j = Some (c j) \<and> U j \<noteq> x \<and> get_level h x j \<noteq> None) \<Longrightarrow>
   \<exists>h'. link_levels x r0 i (map (\<lambda>j. (U j, R j)) [i..<e]) h = Some h' \<and> base h' = base h \<and>
     (\<forall>b j. get_level h' b j =
        (if i \<le> j \<and> j < e \<and> b = x then Some \<lparr>forward = forward (c j), span = sub32 (span (c j)) (sub32 r0 (R j))\<rparr>
         else if i \<le> j \<and> j < e \<and> b = U j then Some \<lparr>forward = x, span = add32 (sub32 r0 (R j)) 1\<rparr>
         else get_level h b j))"
proof (induction "e - i" arbitrary: i h)
  case 0
  then show ?case by auto
next
  case (Suc n)
  then have ie: "i < e" "[i..<e] = i # [Suc i..<e]" by (auto simp: upt_conv_Cons)
  have p: "get_level h (U i) i = Some (c i)" "U i \<noteq> x" using Suc.prems [of i] ie by auto
  obtain lx where lx: "get_level h x i = Some lx" using Suc.prems [of i] ie by auto
  obtain h1 where h1: "set_forward x i (forward (c i)) h = Some h1" "base h1 = base h"
    "get_level h1 = (get_level h)(x := (get_level h x)(i := Some (lx\<lparr>forward := forward (c i)\<rparr>)))"
    using set_forward_ok [OF lx] by blast
  have "get_level h1 (U i) i = Some (c i)" using h1 p by simp
  then obtain h2 where h2: "set_forward (U i) i x h1 = Some h2" "base h2 = base h1"
    "get_level h2 = (get_level h1)(U i := (get_level h1 (U i))(i := Some ((c i)\<lparr>forward := x\<rparr>)))"
    using set_forward_ok by blast
  have g2: "get_level h2 (U i) i = Some ((c i)\<lparr>forward := x\<rparr>)" using h2 by simp
  have "get_level h2 x i = Some (lx\<lparr>forward := forward (c i)\<rparr>)" using h2 h1 p by simp
  then obtain h3 where h3: "set_span x i (sub32 (span (c i)) (sub32 r0 (R i))) h2 = Some h3" "base h3 = base h2"
    "get_level h3 = (get_level h2)(x := (get_level h2 x)(i :=
       Some (lx\<lparr>forward := forward (c i), span := sub32 (span (c i)) (sub32 r0 (R i))\<rparr>)))"
    using set_span_ok by force
  have "get_level h3 (U i) i = Some ((c i)\<lparr>forward := x\<rparr>)" using h3 g2 p by simp
  then obtain h4 where h4: "set_span (U i) i (add32 (sub32 r0 (R i)) 1) h3 = Some h4" "base h4 = base h3"
    "get_level h4 = (get_level h3)(U i := (get_level h3 (U i))(i :=
       Some ((c i)\<lparr>forward := x, span := add32 (sub32 r0 (R i)) 1\<rparr>)))"
    using set_span_ok by force
  have g: "get_level h4 b j = (if j = i \<and> b = x then Some \<lparr>forward = forward (c i), span = sub32 (span (c i)) (sub32 r0 (R i))\<rparr>
      else if j = i \<and> b = U i then Some \<lparr>forward = x, span = add32 (sub32 r0 (R i)) 1\<rparr> else get_level h b j)" for b j
    using p(2) unfolding h4(3) h3(3) h2(3) h1(3) by (auto simp: fun_eq_iff)
  have "\<exists>h'. link_levels x r0 (Suc i) (map (\<lambda>j. (U j, R j)) [Suc i..<e]) h4 = Some h' \<and> base h' = base h4 \<and>
     (\<forall>b j. get_level h' b j =
        (if Suc i \<le> j \<and> j < e \<and> b = x then Some \<lparr>forward = forward (c j), span = sub32 (span (c j)) (sub32 r0 (R j))\<rparr>
         else if Suc i \<le> j \<and> j < e \<and> b = U j then Some \<lparr>forward = x, span = add32 (sub32 r0 (R j)) 1\<rparr>
         else get_level h4 b j))"
    by (rule Suc.hyps(1)) (use Suc.hyps(2) Suc.prems in \<open>auto simp: g\<close>)
  then obtain h' where h': "link_levels x r0 (Suc i) (map (\<lambda>j. (U j, R j)) [Suc i..<e]) h4 = Some h'" "base h' = base h4"
     "\<forall>b j. get_level h' b j =
        (if Suc i \<le> j \<and> j < e \<and> b = x then Some \<lparr>forward = forward (c j), span = sub32 (span (c j)) (sub32 r0 (R j))\<rparr>
         else if Suc i \<le> j \<and> j < e \<and> b = U j then Some \<lparr>forward = x, span = add32 (sub32 r0 (R j)) 1\<rparr>
         else get_level h4 b j)" by blast
  have "link_levels x r0 i (map (\<lambda>j. (U j, R j)) [i..<e]) h = Some h'"
    using p(1) h1(1) h2(1) g2 h3(1) h4(1) h'(1) by (simp add: ie)
  moreover have "get_level h' b j =
        (if i \<le> j \<and> j < e \<and> b = x then Some \<lparr>forward = forward (c j), span = sub32 (span (c j)) (sub32 r0 (R j))\<rparr>
         else if i \<le> j \<and> j < e \<and> b = U j then Some \<lparr>forward = x, span = add32 (sub32 r0 (R j)) 1\<rparr>
         else get_level h b j)" for b j
    using h'(3) g [of b j] ie(1) by (cases "j = i") (auto simp: not_less_eq_eq)
  ultimately show ?case using h'(2) h4(2) h3(2) h2(2) h1(2) by auto
qed

lemma widen_spans_ok:
  "(\<And>j. i \<le> j \<Longrightarrow> j < e \<Longrightarrow> get_level h (U j) j = Some (c j)) \<Longrightarrow>
   \<exists>h'. widen_spans i (map (\<lambda>j. (U j, R j)) [i..<e]) h = Some h' \<and> base h' = base h \<and>
     (\<forall>b j. get_level h' b j =
        (if i \<le> j \<and> j < e \<and> b = U j then Some ((c j)\<lparr>span := add32 (span (c j)) 1\<rparr>) else get_level h b j))"
proof (induction "e - i" arbitrary: i h)
  case 0
  then show ?case by auto
next
  case (Suc n)
  then have ie: "i < e" "[i..<e] = i # [Suc i..<e]" by (auto simp: upt_conv_Cons)
  have p: "get_level h (U i) i = Some (c i)" using Suc.prems [of i] ie by auto
  obtain h1 where h1: "set_span (U i) i (add32 (span (c i)) 1) h = Some h1" "base h1 = base h"
    "get_level h1 = (get_level h)(U i := (get_level h (U i))(i := Some ((c i)\<lparr>span := add32 (span (c i)) 1\<rparr>)))"
    using set_span_ok [OF p] by blast
  have "\<exists>h'. widen_spans (Suc i) (map (\<lambda>j. (U j, R j)) [Suc i..<e]) h1 = Some h' \<and> base h' = base h1 \<and>
     (\<forall>b j. get_level h' b j = (if Suc i \<le> j \<and> j < e \<and> b = U j then Some ((c j)\<lparr>span := add32 (span (c j)) 1\<rparr>)
        else get_level h1 b j))"
  proof (rule Suc.hyps(1))
    show "get_level h1 (U j) j = Some (c j)" if "Suc i \<le> j" "j < e" for j
      using Suc.prems [of j] that unfolding h1(3) by (cases "U j = U i") auto
  qed (use Suc.hyps(2) in auto)
  then obtain h' where h': "widen_spans (Suc i) (map (\<lambda>j. (U j, R j)) [Suc i..<e]) h1 = Some h'" "base h' = base h1"
     "\<forall>b j. get_level h' b j = (if Suc i \<le> j \<and> j < e \<and> b = U j then Some ((c j)\<lparr>span := add32 (span (c j)) 1\<rparr>)
        else get_level h1 b j)" by blast
  have "widen_spans i (map (\<lambda>j. (U j, R j)) [i..<e]) h = Some h'"
    using p h1(1) h'(1) by (simp add: ie)
  moreover have "get_level h' b j =
        (if i \<le> j \<and> j < e \<and> b = U j then Some ((c j)\<lparr>span := add32 (span (c j)) 1\<rparr>) else get_level h b j)" for b j
    using h'(3) ie(1) unfolding h1(3) by (cases "j = i") (auto simp: not_less_eq_eq)
  ultimately show ?case using h'(2) h1(2) by auto
qed

lemma raise_levels_ok:
  "(\<And>j. i \<le> j \<Longrightarrow> j < e \<Longrightarrow> \<exists>s. get_level h (header zsl) j = Some \<lparr>forward = NULL, span = s\<rparr>) \<Longrightarrow>
   \<exists>h'. raise_levels zsl [i..<e] (us, h) = Some (us @ map (\<lambda>_. (header zsl, 0)) [i..<e], h') \<and> base h' = base h \<and>
     (\<forall>b j. get_level h' b j =
        (if i \<le> j \<and> j < e \<and> b = header zsl then Some \<lparr>forward = NULL, span = zlength zsl mod 2 ^ 32\<rparr>
         else get_level h b j))"
proof (induction "e - i" arbitrary: i us h)
  case 0
  then show ?case by auto
next
  case (Suc n)
  then have ie: "i < e" "[i..<e] = i # [Suc i..<e]" by (auto simp: upt_conv_Cons)
  obtain s where p: "get_level h (header zsl) i = Some \<lparr>forward = NULL, span = s\<rparr>" using Suc.prems [of i] ie by auto
  let ?n = "zlength zsl mod 2 ^ 32"
  obtain h1 where h1: "set_span (header zsl) i ?n h = Some h1" "base h1 = base h"
    "get_level h1 = (get_level h)(header zsl := (get_level h (header zsl))(i := Some \<lparr>forward = NULL, span = ?n\<rparr>))"
    using set_span_ok [OF p, of ?n] by auto
  have "\<exists>h'. raise_levels zsl [Suc i..<e] (us @ [(header zsl, 0)], h1) =
        Some ((us @ [(header zsl, 0)]) @ map (\<lambda>_. (header zsl, 0)) [Suc i..<e], h') \<and> base h' = base h1 \<and>
     (\<forall>b j. get_level h' b j =
        (if Suc i \<le> j \<and> j < e \<and> b = header zsl then Some \<lparr>forward = NULL, span = ?n\<rparr> else get_level h1 b j))"
    by (rule Suc.hyps(1)) (use Suc.hyps(2) Suc.prems in \<open>auto simp: h1(3)\<close>)
  then obtain h' where h': "raise_levels zsl [Suc i..<e] (us @ [(header zsl, 0)], h1) =
        Some ((us @ [(header zsl, 0)]) @ map (\<lambda>_. (header zsl, 0)) [Suc i..<e], h')" "base h' = base h1"
     "\<forall>b j. get_level h' b j =
        (if Suc i \<le> j \<and> j < e \<and> b = header zsl then Some \<lparr>forward = NULL, span = ?n\<rparr> else get_level h1 b j)" by blast
  have "raise_levels zsl [i..<e] (us, h) = Some (us @ map (\<lambda>_. (header zsl, 0)) [i..<e], h')"
    using h1(1) h'(1) by (simp add: ie)
  moreover have "get_level h' b j =
        (if i \<le> j \<and> j < e \<and> b = header zsl then Some \<lparr>forward = NULL, span = ?n\<rparr> else get_level h b j)" for b j
    using h'(3) ie(1) unfolding h1(3) by (cases "j = i") (auto simp: not_less_eq_eq)
  ultimately show ?case using h'(2) h1(2) by auto
qed

section \<open>Insertion\<close>

lemma linkedD:
  assumes "linked z L h xs" "towers_ok z L xs"
  shows "r \<le> length xs \<Longrightarrow> i < L \<Longrightarrow> r = 0 \<or> i < height_at xs r \<Longrightarrow> get_level h (addr_at z xs r) i = Some (cell z xs i r)"
    and "L \<le> i \<Longrightarrow> i < ZSKIPLIST_MAXLEVEL \<Longrightarrow> \<exists>s. get_level h z i = Some \<lparr>forward = NULL, span = s\<rparr>"
  using assms by (auto simp: linked_def towers_ok_def)

lemma prv_high: "towers_ok z L xs \<Longrightarrow> m \<le> length xs \<Longrightarrow> L \<le> i \<Longrightarrow> prv xs i m = 0"
proof (rule prv_eqI)
  fix k assume "towers_ok z L xs" "m \<le> length xs" "L \<le> i" "0 < k" "k \<le> m"
  then show "height_at xs k \<le> i" using height_bound [of z L xs k] by simp
qed auto

lemma cell_high:
  assumes "towers_ok z L xs" "L \<le> i"
  shows "cell z xs i 0 = \<lparr>forward = NULL, span = length xs\<rparr>"
proof -
  have "nxt xs i 0 = None" unfolding nxt_None using height_bound [OF assms(1)] assms(2) by (metis le_trans)
  then show ?thesis by (simp add: cell_def)
qed

lemma towers_ok_mono: "towers_ok z L xs \<Longrightarrow> L \<le> M \<Longrightarrow> M \<le> ZSKIPLIST_MAXLEVEL \<Longrightarrow> towers_ok z M xs"
  by (auto simp: towers_ok_def)

lemma raise_linked:
  assumes l: "linked (header zsl) (zlevel zsl) h xs" and t: "towers_ok (header zsl) (zlevel zsl) xs"
    and n: "zlength zsl = length xs" and m: "m \<le> length xs" and lvl: "lvl \<le> ZSKIPLIST_MAXLEVEL"
  shows "\<exists>h'. raise_levels zsl [zlevel zsl..<lvl] (map (\<lambda>i. (addr_at (header zsl) xs (prv xs i m), prv xs i m)) [0..<zlevel zsl], h) =
      Some (map (\<lambda>i. (addr_at (header zsl) xs (prv xs i m), prv xs i m)) [0..<max (zlevel zsl) lvl], h') \<and>
    base h' = base h \<and> linked (header zsl) (max (zlevel zsl) lvl) h' xs"
proof -
  let ?z = "header zsl" and ?L = "zlevel zsl"
  let ?f = "\<lambda>i. (addr_at ?z xs (prv xs i m), prv xs i m)"
  obtain h' where h': "raise_levels zsl [?L..<lvl] (map ?f [0..<?L], h) = Some (map ?f [0..<?L] @ map (\<lambda>_. (?z, 0)) [?L..<lvl], h')"
    "base h' = base h"
    "\<forall>b j. get_level h' b j = (if ?L \<le> j \<and> j < lvl \<and> b = ?z then Some \<lparr>forward = NULL, span = length xs mod 2 ^ 32\<rparr>
       else get_level h b j)"
    using raise_levels_ok [of ?L lvl h zsl "map ?f [0..<?L]"] linkedD(2) [OF l t] lvl n by auto
  have "map (\<lambda>_. (?z, 0)) [?L..<lvl] = map ?f [?L..<lvl]" using prv_high [OF t m] by simp
  moreover have "[0..<max ?L lvl] = [0..<?L] @ [?L..<lvl]" using upt_add_eq_append [of 0 ?L "lvl - ?L"] by (auto simp: max_def)
  ultimately have us: "map ?f [0..<?L] @ map (\<lambda>_. (?z, 0)) [?L..<lvl] = map ?f [0..<max ?L lvl]" by simp
  have len: "length xs mod 2 ^ 32 = length xs" using t by (simp add: towers_ok_def)
  have "get_level h' (addr_at ?z xs r) i = Some (cell ?z xs i r)"
    if r: "r \<le> length xs" "i < max ?L lvl" "i < height_at xs r" for r i
  proof (cases "i < ?L")
    case True
    then show ?thesis using h'(3) linkedD(1) [OF l t r(1) True] r by auto
  next
    case False
    have "r = 0" using height_bound [OF t, of r] r False by (cases "r = 0") auto
    then show ?thesis using h'(3) False r cell_high [OF t, of i] len by (auto simp: addr_at_simps)
  qed
  moreover have "\<exists>s. get_level h' ?z i = Some \<lparr>forward = NULL, span = s\<rparr>"
    if "max ?L lvl \<le> i" "i < ZSKIPLIST_MAXLEVEL" for i
    using h'(3) linkedD(2) [OF l t, of i] that by auto
  ultimately have "linked ?z (max ?L lvl) h' xs"
    using l unfolding linked_def h'(2) by blast
  then show ?thesis using h'(1,2) us by auto
qed

lemma insert_core:
  assumes l: "linked z M h xs" and t: "towers_ok z M xs" and m: "m \<le> length xs"
    and a: "a \<noteq> NULL" "h a = None" and lvl: "1 \<le> lvl" "lvl \<le> M" and n: "length xs + 1 < 2 ^ 32"
    and T: "T = \<lparr>taddr = a, tscore = score, tobj = ob, theight = lvl\<rparr>"
  shows "\<exists>h3 h4. link_levels a m 0 (map (\<lambda>i. (addr_at z xs (prv xs i m), prv xs i m)) [0..<lvl])
      (h(a \<mapsto> zslCreateNode junk lvl score (Some ob))) = Some h3 \<and>
    widen_spans lvl (map (\<lambda>i. (addr_at z xs (prv xs i m), prv xs i m)) [lvl..<M]) h3 = Some h4 \<and>
    base h4 = (base h)(a := Some (Some ob, score, fst junk, lvl)) \<and>
    (\<forall>r \<le> Suc (length xs). \<forall>i < M. i < height_at (ins m T xs) r \<longrightarrow>
       get_level h4 (addr_at z (ins m T xs) r) i = Some (cell z (ins m T xs) i r)) \<and>
    (\<forall>i. M \<le> i \<longrightarrow> i < ZSKIPLIST_MAXLEVEL \<longrightarrow> (\<exists>s. get_level h4 z i = Some \<lparr>forward = NULL, span = s\<rparr>))"
proof -
  let ?A = "addr_at z xs" and ?p = "\<lambda>i. prv xs i m"
  let ?h2 = "h(a \<mapsto> zslCreateNode junk lvl score (Some ob))"
  note new = new_node_ok [OF a(1) refl, of h junk lvl score "Some ob"]
  have fresh: "?A r \<noteq> a" if "r \<le> length xs" for r
  proof (cases r)
    case 0
    then show ?thesis using l a(2) by (auto simp: linked_def base_def addr_at_simps)
  next
    case (Suc k)
    then have "base h (taddr (xs ! k)) \<noteq> None" using l that by (simp add: linked_def)
    then show ?thesis using a(2) Suc by (auto simp: base_def addr_at_simps)
  qed
  have p: "?p i \<le> m" "?p i \<le> length xs" for i using prv_le [of xs i m] m by auto
  have old: "get_level ?h2 (?A r) i = get_level h (?A r) i" if "r \<le> length xs" for r i
    using fresh [OF that] new(2) by simp
  have cp: "get_level ?h2 (?A (?p i)) i = Some (cell z xs i (?p i))" if "i < M" for i
    using old [OF p(2)] linkedD(1) [OF l t p(2) that] prv_live [of xs i m] by simp
  have "get_level ?h2 a j \<noteq> None" if "j < lvl" for j using new(2) that by simp
  then obtain h3 where h3: "link_levels a m 0 (map (\<lambda>i. (?A (?p i), ?p i)) [0..<lvl]) ?h2 = Some h3" "base h3 = base ?h2"
    "\<forall>b j. get_level h3 b j =
        (if j < lvl \<and> b = a then Some \<lparr>forward = forward (cell z xs j (?p j)), span = sub32 (span (cell z xs j (?p j))) (sub32 m (?p j))\<rparr>
         else if j < lvl \<and> b = ?A (?p j) then Some \<lparr>forward = a, span = add32 (sub32 m (?p j)) 1\<rparr>
         else get_level ?h2 b j)"
    using link_levels_ok [of 0 lvl ?h2 "\<lambda>j. ?A (?p j)" "\<lambda>j. cell z xs j (?p j)" a m ?p] cp fresh [OF p(2)] lvl by auto
  have "get_level h3 (?A (?p i)) i = Some (cell z xs i (?p i))" if "lvl \<le> i" "i < M" for i
    using h3(3) cp [OF that(2)] that by simp
  then obtain h4 where h4: "widen_spans lvl (map (\<lambda>i. (?A (?p i), ?p i)) [lvl..<M]) h3 = Some h4" "base h4 = base h3"
    "\<forall>b j. get_level h4 b j = (if lvl \<le> j \<and> j < M \<and> b = ?A (?p j)
       then Some ((cell z xs j (?p j))\<lparr>span := add32 (span (cell z xs j (?p j))) 1\<rparr>) else get_level h3 b j)"
    using widen_spans_ok [of lvl M h3 "\<lambda>j. ?A (?p j)" "\<lambda>j. cell z xs j (?p j)" ?p] by auto
  have sp: "span (cell z xs i (?p i)) = span (cell z xs i m) + (m - ?p i)"
    "forward (cell z xs i (?p i)) = forward (cell z xs i m)" for i
    by (simp_all add: cell_prv [OF m])
  have len: "span (cell z xs i r) \<le> length xs" for i r
    by (auto simp: cell_def nxt_Some split: option.splits)
  have s1: "sub32 m (?p i) = m - ?p i" for i using p(1) m n by (intro sub32_eq) auto
  have s2: "sub32 (span (cell z xs i (?p i))) (m - ?p i) = span (cell z xs i m)" for i
    using sp(1) [of i] len [of i "?p i"] n by (subst sub32_eq) auto
  have s3: "add32 (m - ?p i) 1 = Suc m - ?p i" for i using p(1) [of i] m n by (subst add32_eq) auto
  have s4: "add32 (span (cell z xs i (?p i))) 1 = span (cell z xs i (?p i)) + 1" for i
    using len [of i "?p i"] n by (subst add32_eq) auto
  have th: "theight T = lvl" "taddr T = a" using T by simp_all
  have g: "get_level h4 b j =
      (if j < lvl \<and> b = a then Some (cell z xs j m)
       else if j < lvl \<and> b = ?A (?p j) then Some \<lparr>forward = a, span = Suc m - ?p j\<rparr>
       else if lvl \<le> j \<and> j < M \<and> b = ?A (?p j)
       then Some ((cell z xs j (?p j))\<lparr>span := span (cell z xs j (?p j)) + 1\<rparr>)
       else get_level ?h2 b j)" for b j
    using h4(3) h3(3) by (simp add: s1 s2 s3 s4 sp(2) del: One_nat_def)
  have "get_level h4 (addr_at z (ins m T xs) r) i = Some (cell z (ins m T xs) i r)"
    if r: "r \<le> Suc (length xs)" "i < M" "i < height_at (ins m T xs) r" for r i
  proof -
    consider "r \<le> m" "r = ?p i" | "r \<le> m" "r \<noteq> ?p i" | "r = Suc m" | "Suc m < r" by linarith
    then show ?thesis
    proof cases
      case 1
      then have "addr_at z (ins m T xs) r = ?A (?p i)" using m by (simp add: addr_at_ins)
      then show ?thesis using 1 m r fresh [OF p(2), of i]
        by (cases "i < lvl") (simp_all add: g cell_ins_new cell_ins_over th)
    next
      case 2
      then have ad: "addr_at z (ins m T xs) r = ?A r" and hr: "i < height_at xs r"
        using m r by (simp_all add: addr_at_ins height_at_ins)
      have rl: "r \<le> length xs" using 2 m by simp
      have "?A r \<noteq> ?A (?p i)" using addr_at_inj [OF t rl p(2) [of i]] 2 by blast
      then have "get_level h4 (?A r) i = get_level h (?A r) i"
        using fresh [OF rl] old [OF rl] by (simp add: g)
      then show ?thesis using linkedD(1) [OF l t rl r(2)] hr cell_ins_same [OF m 2] ad by simp
    next
      case 3
      then show ?thesis using m r th by (simp add: addr_at_ins height_at_ins g cell_ins_above)
    next
      case 4
      then have ad: "addr_at z (ins m T xs) r = ?A (r - 1)" and hr: "i < height_at xs (r - 1)"
        using m r by (simp_all add: addr_at_ins height_at_ins)
      have rl: "r - 1 \<le> length xs" using 4 r by simp
      have "?A (r - 1) \<noteq> ?A (?p i)" using addr_at_inj [OF t rl p(2) [of i]] 4 p(1) [of i] by force
      then have "get_level h4 (?A (r - 1)) i = get_level h (?A (r - 1)) i"
        using fresh [OF rl] old [OF rl] by (simp add: g)
      then show ?thesis using linkedD(1) [OF l t rl r(2)] hr 4 m ad by (simp add: cell_ins_above)
    qed
  qed
  moreover have "\<exists>s. get_level h4 z i = Some \<lparr>forward = NULL, span = s\<rparr>"
    if "M \<le> i" "i < ZSKIPLIST_MAXLEVEL" for i
    using linkedD(2) [OF l t that] fresh [of 0] old [of 0 i] that lvl by (simp add: g addr_at_simps)
  moreover have "base h4 = (base h)(a := Some (Some ob, score, fst junk, lvl))"
    using h4(2) h3(2) new(1) by simp
  ultimately show ?thesis using h3(1) h4(1) by blast
qed

lemma cell_0:
  assumes "towers_ok z L xs" "r \<le> length xs"
  shows "forward (cell z xs 0 r) = (if r < length xs then addr_at z xs (Suc r) else NULL)"
proof (cases "r < length xs")
  case True
  then have "nxt xs 0 r = Some (Suc r)" using height_bound [OF assms(1), of "Suc r"] by (auto simp: nxt_Some)
  then show ?thesis using True by (simp add: cell_def)
next
  case False
  then have "nxt xs 0 r = None" by (auto simp: nxt_None)
  then show ?thesis using False by (simp add: cell_def)
qed

lemma before_tless:
  assumes "tless x y" "before s ob y"
  shows "before s ob x"
  using assms unfolding tless_def before_def by (elim disjE conjE) (auto intro: bytes_less_trans)

lemma cut_key:
  assumes "sorted_wrt tless xs" "k < length xs"
  shows "before s ob (xs ! k) \<longleftrightarrow> k < length (takeWhile (before s ob) xs)"
proof
  let ?m = "length (takeWhile (before s ob) xs)"
  show "before s ob (xs ! k)" if "k < ?m"
    using that nth_mem [of k "takeWhile (before s ob) xs"] by (auto simp: takeWhile_nth dest: set_takeWhileD)
  show "k < ?m" if b: "before s ob (xs ! k)"
  proof (rule ccontr)
    assume "\<not> k < ?m"
    then have m: "?m \<le> k" by simp
    then have "?m < length xs" using assms(2) by simp
    then have nb: "\<not> before s ob (xs ! ?m)" by (rule nth_length_takeWhile)
    have "?m = k \<or> tless (xs ! ?m) (xs ! k)"
      using m assms by (auto simp: sorted_wrt_iff_nth_less le_less)
    then show False using nb b before_tless by metis
  qed
qed

lemma node_before_eq:
  assumes "zobj n = Some (tobj x)" "zscore n = tscore x" "small_obj (tobj x)" "small_obj ob"
  shows "node_before s ob n \<longleftrightarrow> before s ob x"
  using compareStringObjects_cases [OF assms(3,4)] assms(1,2)
  by (simp add: node_before_def before_def obj_of_def)

lemma cut_at_key:
  assumes l: "linked z L h xs" "towers_ok z L xs" and s: "sorted_wrt tless xs"
    and sm: "\<forall>x \<in> set xs. small_obj (tobj x)" "small_obj ob"
  shows "cut_at (\<lambda>_. node_before sc ob) h z xs (length (takeWhile (before sc ob) xs))"
proof -
  have "node_before sc ob n \<longleftrightarrow> r \<le> length (takeWhile (before sc ob) xs)"
    if r: "0 < r" "r \<le> length xs" "znode h (addr_at z xs r) = Some n" for r n
  proof -
    have "r - 1 < length xs" using r by simp
    moreover have "zobj n = Some (tobj (xs ! (r - 1)))" "zscore n = tscore (xs ! (r - 1))"
      using linked_node [OF l r(1,2)] r(3) by auto
    moreover have "small_obj (tobj (xs ! (r - 1)))" using sm r by simp
    ultimately show ?thesis
      using node_before_eq [of n "xs ! (r - 1)" ob sc] cut_key [OF s, of "r - 1" sc ob] sm(2) r(1) by auto
  qed
  then show ?thesis by (auto simp: cut_at_def length_takeWhile_le)
qed

text \<open>The elements after an insertion.\<close>

definition zins :: "('s :: linorder) tower \<Rightarrow> 's tower list \<Rightarrow> 's tower list" where
  "zins t xs = takeWhile (before (tscore t) (tobj t)) xs @ t # dropWhile (before (tscore t) (tobj t)) xs"

lemma zins_ins: "zins t xs = ins (length (takeWhile (before (tscore t) (tobj t)) xs)) t xs"
  by (simp add: zins_def ins_def takeWhile_eq_take [symmetric] dropWhile_eq_drop)

lemma tless_linear: "before (tscore t) (tobj t) x \<or> same_key (tscore t) (tobj t) x \<or> tless t x"
  using bytes_less_linear [of "getDecodedObject (tobj x)" "getDecodedObject (tobj t)"]
  by (cases "tscore x" "tscore t" rule: linorder_cases) (auto simp: before_def same_key_def tless_def)

lemma sorted_zins:
  assumes s: "sorted_wrt tless xs" and k: "\<forall>x \<in> set xs. \<not> same_key (tscore t) (tobj t) x"
  shows "sorted_wrt tless (zins t xs)"
proof -
  let ?P = "before (tscore t) (tobj t)"
  have tw: "\<forall>x \<in> set (takeWhile ?P xs). tless x t" by (auto simp: tless_def dest: set_takeWhileD)
  have "\<not> ?P x" if x: "x \<in> set (dropWhile ?P xs)" for x
  proof -
    obtain i where i: "i < length (dropWhile ?P xs)" "x = dropWhile ?P xs ! i"
      using x unfolding in_set_conv_nth by blast
    let ?m = "length (takeWhile ?P xs)"
    have "x = xs ! (?m + i)" "?m + i < length xs"
      using i by (simp_all add: dropWhile_eq_drop)
    then show ?thesis using cut_key [OF s, of "?m + i" "tscore t" "tobj t"] by simp
  qed
  moreover have "\<not> same_key (tscore t) (tobj t) x" if "x \<in> set (dropWhile ?P xs)" for x
    using k set_dropWhileD [OF that] by blast
  ultimately have dw: "\<forall>x \<in> set (dropWhile ?P xs). tless t x"
    using tless_linear [of t] by blast
  have "sorted_wrt tless (takeWhile ?P xs @ dropWhile ?P xs)" using s by simp
  then show ?thesis unfolding zins_def using tw dw
    by (auto simp: sorted_wrt_append simp del: takeWhile_dropWhile_id)
qed

lemma link_backward_ok:
  assumes l: "linked z L h xs" and t: "towers_ok z M xs" and m: "m \<le> length xs"
    and a: "a \<noteq> NULL" "base h a = None" and T: "T = \<lparr>taddr = a, tscore = score, tobj = ob, theight = lvl\<rparr>"
    and lvl: "1 \<le> lvl" "lvl \<le> M" and t': "towers_ok z M (ins m T xs)"
    and b4: "base h4 = (base h)(a := Some (Some ob, score, b0, lvl))"
    and g4: "\<forall>r \<le> Suc (length xs). \<forall>i < M. i < height_at (ins m T xs) r \<longrightarrow>
       get_level h4 (addr_at z (ins m T xs) r) i = Some (cell z (ins m T xs) i r)"
      "\<forall>i. M \<le> i \<longrightarrow> i < ZSKIPLIST_MAXLEVEL \<longrightarrow> (\<exists>s. get_level h4 z i = Some \<lparr>forward = NULL, span = s\<rparr>)"
    and zs: "header zsl = z"
  shows "\<exists>h5. link_backward a (addr_at z xs m) (h4, zsl) =
      Some (h5, if m = length xs then zsl\<lparr>ztail := a\<rparr> else zsl) \<and> linked z M h5 (ins m T xs)"
proof -
  let ?b = "if m = 0 then NULL else addr_at z xs m"
  have eq: "(if addr_at z xs m = header zsl then NULL else addr_at z xs m) = ?b"
    using addr_at_inj [OF t m, of 0] by (auto simp: addr_at_simps zs)
  obtain h5 where h5: "set_backward a ?b h4 = Some h5" "base h5 = (base h)(a := Some (Some ob, score, ?b, lvl))"
    "get_level h5 = get_level h4"
    using set_backward_ok [of h4 a "Some ob" score b0 lvl ?b] b4 a by auto
  have "get_level h4 (addr_at z (ins m T xs) (Suc m)) 0 = Some (cell z (ins m T xs) 0 (Suc m))"
    using g4(1) m lvl T by (auto simp: height_at_ins)
  then have g5: "get_level h5 a 0 = Some (cell z (ins m T xs) 0 (Suc m))"
    using h5(3) m T by (simp add: addr_at_ins)
  have f: "forward (cell z (ins m T xs) 0 (Suc m)) = (if m < length xs then addr_at z xs (Suc m) else NULL)"
    using cell_0 [OF t, of m] m by (simp add: cell_ins_above)
  have lb: "base h (taddr (xs ! k)) = Some (Some (tobj (xs ! k)), tscore (xs ! k),
      (if k = 0 then NULL else taddr (xs ! (k - 1))), theight (xs ! k))" if "k < length xs" for k
    using l that by (simp add: linked_def)
  then have fresh: "taddr (xs ! k) \<noteq> a" if "k < length xs" for k using a(2) that by force
  have fz: "z \<noteq> a" "\<exists>sc. base h z = Some (None, sc, NULL, ZSKIPLIST_MAXLEVEL)" using l a(2) by (auto simp: linked_def)
  have am: "?b = (if m = 0 then NULL else taddr (xs ! (m - 1)))" by (cases m) (auto simp: addr_at_simps)
  show ?thesis
  proof (cases "m < length xs")
    case False
    then have m': "m = length xs" using m by simp
    have "linked z M h5 (ins m T xs)"
      unfolding linked_def h5(2,3)
      using g4 lb fresh fz T m' am by (auto simp: nth_ins less_Suc_eq)
    moreover have "link_backward a (addr_at z xs m) (h4, zsl) = Some (h5, zsl\<lparr>ztail := a\<rparr>)"
      unfolding link_backward_def prod.case eq using h5(1) g5 f False by simp
    ultimately show ?thesis using m' by auto
  next
    case True
    let ?q = "taddr (xs ! m)"
    have q: "?q \<noteq> NULL" using addr_at_nonnull [OF t, of "Suc m"] True by (simp add: addr_at_simps)
    have "base h5 ?q = Some (Some (tobj (xs ! m)), tscore (xs ! m), (if m = 0 then NULL else taddr (xs ! (m - 1))), theight (xs ! m))"
      using lb [OF True] fresh [OF True] h5(2) by simp
    from set_backward_ok [OF this q, of a] obtain h6 where h6: "set_backward ?q a h5 = Some h6"
      "base h6 = (base h5)(?q := Some (Some (tobj (xs ! m)), tscore (xs ! m), a, theight (xs ! m)))"
      "get_level h6 = get_level h5" by blast
    have qd: "taddr (xs ! k) = ?q \<longleftrightarrow> k = m" if "k < length xs" for k
      using addr_at_inj [OF t, of "Suc k" "Suc m"] that True by (auto simp: addr_at_simps)
    have zq: "z \<noteq> ?q" using addr_at_inj [OF t, of 0 "Suc m"] True by (auto simp: addr_at_simps)
    have bk: "base h6 (taddr (ins m T xs ! k)) = Some (Some (tobj (ins m T xs ! k)), tscore (ins m T xs ! k),
        (if k = 0 then NULL else taddr (ins m T xs ! (k - 1))), theight (ins m T xs ! k))"
      if k: "k < Suc (length xs)" for k
    proof -
      consider "k < m" | "k = m" | "k = Suc m" | "Suc m < k" by linarith
      then show ?thesis
      proof cases
        case 1
        then have "k < length xs" using True by simp
        then show ?thesis using 1 lb fresh qd m by (simp add: h6(2) h5(2) nth_ins)
      next
        case 2
        then show ?thesis using fresh [OF True] m T am by (simp add: h6(2) h5(2) nth_ins)
      next
        case 3
        then show ?thesis using True m T by (simp add: h6(2) nth_ins)
      next
        case 4
        then have k1: "k - 1 < length xs" "k - 1 \<noteq> m" "k - 1 \<noteq> 0" using k by auto
        have "\<not> k - Suc 0 < m" "k - Suc 0 \<noteq> m" using 4 by auto
        then show ?thesis using 4 k1 lb [OF k1(1)] fresh [OF k1(1)] qd [OF k1(1)] m
          by (simp add: h6(2) h5(2) nth_ins)
      qed
    qed
    have "linked z M h6 (ins m T xs)"
      unfolding linked_def using bk fz zq m g4 by (auto simp: h6(2,3) h5(2,3))
    moreover have "link_backward a (addr_at z xs m) (h4, zsl) = Some (h6, zsl)"
      unfolding link_backward_def prod.case eq using h5(1) g5 f True h6(1) q by (simp add: addr_at_simps)
    ultimately show ?thesis using True by auto
  qed
qed

lemma zslInsert_ok:
  assumes r: "zsl_rep (h, zsl) xs" and a: "a \<noteq> NULL" "h a = None"
    and lvl: "1 \<le> lvl" "lvl \<le> ZSKIPLIST_MAXLEVEL" and n: "length xs + 1 < 2 ^ 32" and ob: "small_obj ob"
    and T: "T = \<lparr>taddr = a, tscore = score, tobj = ob, theight = lvl\<rparr>"
    and k: "\<forall>x \<in> set xs. \<not> same_key score ob x"
  shows "\<exists>h' zsl'. zslInsert junk lvl a score ob (h, zsl) = Some (h', zsl') \<and> zsl_rep (h', zsl') (zins T xs) \<and>
    header zsl' = header zsl \<and> zreleased zsl' = zreleased zsl"
proof -
  let ?z = "header zsl" and ?L = "zlevel zsl"
  let ?m = "length (takeWhile (before score ob) xs)" and ?M = "max (zlevel zsl) lvl"
  let ?f = "\<lambda>i. (addr_at ?z xs (prv xs i ?m), prv xs i ?m)"
  have l: "linked ?z ?L h xs" and t: "towers_ok ?z ?L xs" and zl: "zlength zsl = length xs"
    and tl: "ztail zsl = (if xs = [] then NULL else taddr (last xs))" and so: "sorted_wrt tless xs"
    and sm: "\<forall>x \<in> set xs. small_obj (tobj x)"
    using r by (auto simp: zsl_rep_def)
  have m: "?m \<le> length xs" by (simp add: length_takeWhile_le)
  have L: "0 < ?L" "?L \<le> ZSKIPLIST_MAXLEVEL" "length xs < 2 ^ 32" using t by (auto simp: towers_ok_def)
  have d: "descend (\<lambda>_. node_before score ob) h ?L (?z, 0) = Some (map ?f [0..<?L])"
    using descend_ok [OF l t cut_at_key [OF l t so sm ob, of score], of ?L 0] by (simp add: addr_at_simps)
  have "prv xs i ?m mod 2 ^ 32 = prv xs i ?m" for i using prv_le [of xs i ?m] m L(3) by simp
  then have mm: "map (\<lambda>(x, r). (x, r mod 2 ^ 32)) (map ?f [0..<?L]) = map ?f [0..<?L]" by simp
  obtain h1 where h1: "raise_levels zsl [?L..<lvl] (map ?f [0..<?L], h) = Some (map ?f [0..<?M], h1)" "base h1 = base h"
    "linked ?z ?M h1 xs"
    using raise_linked [OF l t zl m lvl(2)] by blast
  have tM: "towers_ok ?z ?M xs" using towers_ok_mono [OF t, of ?M] lvl(2) L by simp
  have "base h1 a = None" using h1(2) a(2) by (simp add: base_def)
  then have a1: "h1 a = None" "base h1 a = None" by (simp_all add: base_def)
  have lM: "lvl \<le> ?M" by simp
  obtain h3 h4 where h34: "link_levels a ?m 0 (map ?f [0..<lvl]) (h1(a \<mapsto> zslCreateNode junk lvl score (Some ob))) = Some h3"
    "widen_spans lvl (map ?f [lvl..<?M]) h3 = Some h4"
    "base h4 = (base h1)(a := Some (Some ob, score, fst junk, lvl))"
    "\<forall>r \<le> Suc (length xs). \<forall>i < ?M. i < height_at (ins ?m T xs) r \<longrightarrow>
       get_level h4 (addr_at ?z (ins ?m T xs) r) i = Some (cell ?z (ins ?m T xs) i r)"
    "\<forall>i. ?M \<le> i \<longrightarrow> i < ZSKIPLIST_MAXLEVEL \<longrightarrow> (\<exists>s. get_level h4 ?z i = Some \<lparr>forward = NULL, span = s\<rparr>)"
    using insert_core [OF h1(3) tM m a(1) a1(1) lvl(1) lM n T, of junk] by (elim exE conjE)
  have bs: "base h ?z \<noteq> None" "\<And>k. k < length xs \<Longrightarrow> base h (taddr (xs ! k)) \<noteq> None"
    using l by (auto simp: linked_def)
  have "base h a = None" using a(2) by (simp add: base_def)
  then have fresh: "a \<noteq> ?z" "a \<notin> taddr ` set xs"
    using bs(1) by (metis, metis bs(2) imageE in_set_conv_nth)
  have tI: "towers_ok ?z ?M (ins ?m T xs)"
  proof -
    have perm: "mset (ins ?m T xs) = add_mset T (mset xs)" 
    proof -
      have "mset (take ?m xs) + mset (drop ?m xs) = mset xs" by (simp flip: mset_append)
      then show ?thesis by (simp add: ins_def)
    qed
    then have "set (ins ?m T xs) = insert T (set xs)" "mset (map taddr (ins ?m T xs)) = mset (map taddr (T # xs))"
      by (metis set_mset_add_mset_insert set_mset_mset, simp)
    moreover from this(2) have "distinct (map taddr (ins ?m T xs)) = distinct (map taddr (T # xs))"
      by (rule mset_eq_imp_distinct_iff)
    ultimately show ?thesis using tM fresh a(1) lvl n m T by (auto simp: towers_ok_def)
  qed
  let ?zsl1 = "if lvl > ?L then zsl\<lparr>zlevel := lvl\<rparr> else zsl"
  have hz: "header ?zsl1 = ?z" "zlevel ?zsl1 = ?M" "zlength ?zsl1 = length xs" using zl by auto
  obtain h5 where h5: "link_backward a (addr_at ?z xs ?m) (h4, ?zsl1) =
      Some (h5, if ?m = length xs then ?zsl1\<lparr>ztail := a\<rparr> else ?zsl1)" "linked ?z ?M h5 (ins ?m T xs)"
    using link_backward_ok [OF h1(3) tM m a(1) a1(2) T lvl(1) lM tI h34(3-5) hz(1)] by (elim exE conjE)
  let ?zsl2 = "(if ?m = length xs then ?zsl1\<lparr>ztail := a\<rparr> else ?zsl1)\<lparr>zlength := length xs + 1\<rparr>"
  have M: "map ?f [0..<?M] = (addr_at ?z xs ?m, ?m) # map ?f [1..<?M]"
    using L(1) prv_0 [OF t m] by (simp add: upt_conv_Cons del: upt_Suc)
  have tk: "take lvl (map ?f [0..<?M]) = map ?f [0..<lvl]" "drop lvl (map ?f [0..<?M]) = map ?f [lvl..<?M]"
    by (simp_all add: take_map drop_map take_upt drop_upt)
  have "zslInsert junk lvl a score ob (h, zsl) = Some (h5, ?zsl2)"
    unfolding zslInsert_def prod.case d Let_def bind.bind_lunit mm h1(1)
    using h34(1,2) h5(1) hz(3) tk M by simp
  moreover have "zsl_rep (h5, ?zsl2) (zins T xs)"
  proof -
    have zi: "zins T xs = ins ?m T xs" using zins_ins [of T xs] T by simp
    have "ztail ?zsl2 = taddr (last (ins ?m T xs))"
    proof (cases "?m = length xs")
      case True
      then show ?thesis using T by (simp add: ins_def)
    next
      case False
      then have "?m < length xs" using m by simp
      then show ?thesis using tl by (auto simp: ins_def)
    qed
    moreover have "sorted_wrt tless (ins ?m T xs)" using sorted_zins [OF so, of T] k T zi by simp
    moreover have "\<forall>x \<in> set (ins ?m T xs). small_obj (tobj x)"
      using sm ob T by (auto simp: ins_def dest: in_set_takeD in_set_dropD)
    moreover have "ins ?m T xs \<noteq> []" by (simp add: ins_def)
    ultimately show ?thesis using h5(2) tI hz m by (auto simp: zsl_rep_def zi)
  qed
  ultimately show ?thesis by auto
qed

text \<open>Writing through pointers frees and allocates nothing.\<close>

lemma dom_set_level: "set_level a i l h = Some h' \<Longrightarrow> dom h' = dom h"
  by (auto simp: set_level_def znode_def split: bind_splits if_splits)

lemma dom_set_forward: "set_forward a i p h = Some h' \<Longrightarrow> dom h' = dom h"
  by (auto simp: set_forward_def dom_set_level split: bind_splits)

lemma dom_set_span: "set_span a i p h = Some h' \<Longrightarrow> dom h' = dom h"
  by (auto simp: set_span_def dom_set_level split: bind_splits)

lemma dom_set_backward: "set_backward a p h = Some h' \<Longrightarrow> dom h' = dom h"
  by (auto simp: set_backward_def znode_def split: bind_splits if_splits)

lemma dom_raise_levels: "raise_levels zsl js (us, h) = Some (us', h') \<Longrightarrow> dom h' = dom h"
  by (induction js arbitrary: us h) (fastforce split: bind_splits dest: dom_set_span)+

lemma dom_link_levels: "link_levels x r0 i us h = Some h' \<Longrightarrow> dom h' = dom h"
proof (induction us arbitrary: i h)
  case (Cons u us)
  then show ?case by (cases u) (fastforce split: bind_splits dest: dom_set_forward dom_set_span)
qed simp

lemma dom_widen_spans: "widen_spans i us h = Some h' \<Longrightarrow> dom h' = dom h"
proof (induction us arbitrary: i h)
  case (Cons u us)
  then show ?case by (cases u) (fastforce split: bind_splits dest: dom_set_span)
qed simp

lemma dom_link_backward: "link_backward x u (h, zsl) = Some s \<Longrightarrow> dom (fst s) = dom h"
  by (auto simp: link_backward_def split: bind_splits if_splits dest!: dom_set_backward simp del: domIff
      del: equalityI)

lemma dom_zslInsert: "zslInsert junk lvl a score ob (h, zsl) = Some (h', zsl') \<Longrightarrow> dom h' = insert a (dom h)"
  by (auto simp: zslInsert_def Let_def split: bind_splits list.splits simp del: domIff del: equalityI
      dest!: dom_raise_levels dom_link_levels dom_widen_spans dom_link_backward)

section \<open>Deletion\<close>

lemma level_eq: "l\<lparr>span := s, forward := f\<rparr> = \<lparr>forward = f, span = s\<rparr>" for l :: zskiplistLevel
  by (cases l) simp

lemma unlink_levels_ok:
  "(\<And>j. i \<le> j \<Longrightarrow> j < e \<Longrightarrow> get_level h (U j) j = Some (c j) \<and> U j \<noteq> x \<and>
      (forward (c j) = x \<longrightarrow> get_level h x j = Some (d j))) \<Longrightarrow>
   \<exists>h'. unlink_levels x i (map U [i..<e]) h = Some h' \<and> base h' = base h \<and>
     (\<forall>b j. get_level h' b j =
        (if i \<le> j \<and> j < e \<and> b = U j
         then Some (if forward (c j) = x then \<lparr>forward = forward (d j), span = add32 (span (c j)) (sub32 (span (d j)) 1)\<rparr>
                    else (c j)\<lparr>span := sub32 (span (c j)) 1\<rparr>)
         else get_level h b j))"
proof (induction "e - i" arbitrary: i h)
  case 0
  then show ?case by auto
next
  case (Suc n)
  then have ie: "i < e" "[i..<e] = i # [Suc i..<e]" by (auto simp: upt_conv_Cons)
  have p: "get_level h (U i) i = Some (c i)" "U i \<noteq> x" "forward (c i) = x \<Longrightarrow> get_level h x i = Some (d i)"
    using Suc.prems [of i] ie by auto
  let ?new = "if forward (c i) = x then \<lparr>forward = forward (d i), span = add32 (span (c i)) (sub32 (span (d i)) 1)\<rparr>
                    else (c i)\<lparr>span := sub32 (span (c i)) 1\<rparr>"
  have "\<exists>h1. (if forward (c i) = x then do {
             lx \<leftarrow> get_level h x i;
             h \<leftarrow> set_span (U i) i (add32 (span (c i)) (sub32 (span lx) 1)) h;
             set_forward (U i) i (forward lx) h }
           else set_span (U i) i (sub32 (span (c i)) 1) h) = Some h1 \<and> base h1 = base h \<and>
      get_level h1 = (get_level h)(U i := (get_level h (U i))(i := Some ?new))"
  proof (cases "forward (c i) = x")
    case True
    obtain h2 where h2: "set_span (U i) i (add32 (span (c i)) (sub32 (span (d i)) 1)) h = Some h2" "base h2 = base h"
      "get_level h2 = (get_level h)(U i := (get_level h (U i))(i := Some ((c i)\<lparr>span := add32 (span (c i)) (sub32 (span (d i)) 1)\<rparr>)))"
      using set_span_ok [OF p(1)] by blast
    have "get_level h2 (U i) i = Some ((c i)\<lparr>span := add32 (span (c i)) (sub32 (span (d i)) 1)\<rparr>)" using h2(3) by simp
    from set_forward_ok [OF this, of "forward (d i)"] show ?thesis using True p(3) h2 by (auto simp: level_eq)
  next
    case False
    then show ?thesis using set_span_ok [OF p(1), of "sub32 (span (c i)) 1"] by auto
  qed
  then obtain h1 where h1: "(if forward (c i) = x then do {
             lx \<leftarrow> get_level h x i;
             h \<leftarrow> set_span (U i) i (add32 (span (c i)) (sub32 (span lx) 1)) h;
             set_forward (U i) i (forward lx) h }
           else set_span (U i) i (sub32 (span (c i)) 1) h) = Some h1" "base h1 = base h"
    "get_level h1 = (get_level h)(U i := (get_level h (U i))(i := Some ?new))" by blast
  let ?R = "\<lambda>j. if forward (c j) = x then \<lparr>forward = forward (d j), span = add32 (span (c j)) (sub32 (span (d j)) 1)\<rparr>
                    else (c j)\<lparr>span := sub32 (span (c j)) 1\<rparr>"
  have "\<exists>h'. unlink_levels x (Suc i) (map U [Suc i..<e]) h1 = Some h' \<and> base h' = base h1 \<and>
     (\<forall>b j. get_level h' b j = (if Suc i \<le> j \<and> j < e \<and> b = U j then Some (?R j) else get_level h1 b j))"
  proof (rule Suc.hyps(1))
    fix j assume j: "Suc i \<le> j" "j < e"
    then have "get_level h1 b j = get_level h b j" for b unfolding h1(3) by simp
    then show "get_level h1 (U j) j = Some (c j) \<and> U j \<noteq> x \<and> (forward (c j) = x \<longrightarrow> get_level h1 x j = Some (d j))"
      using Suc.prems [of j] j by simp
  qed (use Suc.hyps(2) in auto)
  then obtain h' where h': "unlink_levels x (Suc i) (map U [Suc i..<e]) h1 = Some h'" "base h' = base h1"
     "\<forall>b j. get_level h' b j = (if Suc i \<le> j \<and> j < e \<and> b = U j then Some (?R j) else get_level h1 b j)" by blast
  have "unlink_levels x i (map U [i..<e]) h = Some h'"
    using p(1) h1(1) h'(1) by (simp add: ie)
  moreover have "get_level h' b j = (if i \<le> j \<and> j < e \<and> b = U j then Some (?R j) else get_level h b j)" for b j
    using h'(3) ie(1) unfolding h1(3) by (cases "j = i") (auto simp: not_less_eq_eq)
  ultimately show ?case using h'(2) h1(2) by auto
qed

lemma prv_cong: "(\<And>k. k \<le> m \<Longrightarrow> height_at xs k = height_at ys k) \<Longrightarrow> prv xs i m = prv ys i m"
  by (induction m) auto

lemma towers_ok_ins:
  assumes "towers_ok z L (ins m T ys)" "m \<le> length ys"
  shows "towers_ok z L ys" "taddr T \<noteq> z" "taddr T \<notin> taddr ` set ys" "1 \<le> theight T" "theight T \<le> L"
    "taddr T \<noteq> NULL"
proof -
  have perm: "mset (ins m T ys) = add_mset T (mset ys)"
  proof -
    have "mset (take m ys) + mset (drop m ys) = mset ys" by (simp flip: mset_append)
    then show ?thesis by (simp add: ins_def)
  qed
  then have s: "set (ins m T ys) = insert T (set ys)" "mset (map taddr (ins m T ys)) = mset (map taddr (T # ys))"
    by (metis set_mset_add_mset_insert set_mset_mset, simp)
  then have "distinct (map taddr (ins m T ys)) = distinct (map taddr (T # ys))"
    by (simp only: mset_eq_imp_distinct_iff [OF s(2)])
  then show "towers_ok z L ys" "taddr T \<noteq> z" "taddr T \<notin> taddr ` set ys" "1 \<le> theight T" "theight T \<le> L"
    "taddr T \<noteq> NULL"
    using assms s(1) by (auto simp: towers_ok_def)
qed

lemma addr_at_fresh:
  assumes "a \<noteq> z" "a \<notin> taddr ` set ys" "r \<le> length ys"
  shows "addr_at z ys r \<noteq> a"
  using assms by (cases r) (auto simp: addr_at_simps dest: nth_mem)

lemma delete_core:
  assumes l: "linked z L h (ins m T ys)" and t: "towers_ok z L (ins m T ys)" and m: "m \<le> length ys"
  shows "\<exists>h'. unlink_levels (taddr T) 0 (map (\<lambda>i. addr_at z (ins m T ys) (prv (ins m T ys) i m)) [0..<L]) h = Some h' \<and>
    base h' = base h \<and> get_level h' (taddr T) = get_level h (taddr T) \<and>
    (\<forall>r \<le> length ys. \<forall>i < L. i < height_at ys r \<longrightarrow> get_level h' (addr_at z ys r) i = Some (cell z ys i r)) \<and>
    (\<forall>i. L \<le> i \<longrightarrow> i < ZSKIPLIST_MAXLEVEL \<longrightarrow> (\<exists>s. get_level h' z i = Some \<lparr>forward = NULL, span = s\<rparr>))"
proof -
  let ?xs = "ins m T ys" and ?A = "addr_at z ys"
  let ?p = "\<lambda>i. prv ys i m"
  note ty = towers_ok_ins [OF t m]
  have n: "length ys + 1 < 2 ^ 32" using t m by (simp add: towers_ok_def)
  have pp: "prv ?xs i m = ?p i" for i by (rule prv_cong) (simp add: height_at_ins m)
  have p: "?p i \<le> m" "?p i \<le> length ys" for i using prv_le [of ys i m] m by auto
  have ap: "addr_at z ?xs (?p i) = ?A (?p i)" for i using p m by (simp add: addr_at_ins)
  have U: "map (\<lambda>i. addr_at z ?xs (prv ?xs i m)) [0..<L] = map (\<lambda>i. ?A (?p i)) [0..<L]" by (simp add: pp ap)
  have fresh: "?A r \<noteq> taddr T" if "r \<le> length ys" for r by (rule addr_at_fresh [OF ty(2,3) that])
  have cp: "get_level h (?A (?p i)) i = Some (cell z ?xs i (?p i))" if "i < L" for i
    using linkedD(1) [OF l t, of "?p i" i] that p m prv_live [of ys i m] le_SucI [OF p(2)]
    by (simp add: ap height_at_ins)
  have fw: "forward (cell z ?xs i (?p i)) = taddr T \<longleftrightarrow> i < theight T" for i
  proof (cases "i < theight T")
    case False
    have "forward (cell z ys i (?p i)) \<noteq> taddr T"
      using fresh ty(6) by (auto simp: cell_def nxt_Some split: option.splits)
    then show ?thesis using False m by (simp add: cell_ins_over)
  qed (use m in \<open>simp add: cell_ins_new\<close>)
  have dT: "get_level h (taddr T) i = Some (cell z ys i m)" if "i < theight T" for i
    using linkedD(1) [OF l t, of "Suc m" i] that ty(5) m by (simp add: addr_at_ins height_at_ins cell_ins_above)
  obtain h' where h': "unlink_levels (taddr T) 0 (map (\<lambda>i. ?A (?p i)) [0..<L]) h = Some h'" "base h' = base h"
    "\<forall>b j. get_level h' b j = (if j < L \<and> b = ?A (?p j)
         then Some (if j < theight T then \<lparr>forward = forward (cell z ys j m), span = add32 (span (cell z ?xs j (?p j))) (sub32 (span (cell z ys j m)) 1)\<rparr>
                    else (cell z ?xs j (?p j))\<lparr>span := sub32 (span (cell z ?xs j (?p j))) 1\<rparr>)
         else get_level h b j)"
    using unlink_levels_ok [of 0 L h "\<lambda>j. ?A (?p j)" "\<lambda>j. cell z ?xs j (?p j)" "taddr T" "\<lambda>j. cell z ys j m"]
      cp fresh [OF p(2)] dT by (auto simp: fw)
  have len: "span (cell z ys i r) \<le> length ys" for i r
    by (auto simp: cell_def nxt_Some split: option.splits)
  have sp: "span (cell z ys i (?p i)) = span (cell z ys i m) + (m - ?p i)"
    "forward (cell z ys i (?p i)) = forward (cell z ys i m)" for i
    by (simp_all add: cell_prv [OF m])
  have new: "get_level h' (?A (?p i)) i = Some (cell z ys i (?p i))" if "i < L" for i
  proof (cases "i < theight T")
    case True
    have "add32 (Suc m - ?p i) (sub32 (span (cell z ys i m)) 1) = span (cell z ys i (?p i))"
    proof (cases "span (cell z ys i m) = 0")
      case True
      have "sub32 0 1 = 2 ^ 32 - 1" by (simp add: sub32_def)
      then have "add32 (Suc m - ?p i) (sub32 0 1) = (m - ?p i + 2 ^ 32) mod 2 ^ 32"
      proof -
        have "Suc m - ?p i + (2 ^ 32 - 1) = m - ?p i + 2 ^ 32" using p(1) [of i] by simp
        then show ?thesis by (simp only: \<open>sub32 0 1 = 2 ^ 32 - 1\<close> add32_def)
      qed
      also have "\<dots> = m - ?p i" using m n by simp
      finally show ?thesis using True sp(1) [of i] by simp
    next
      case False
      then show ?thesis using sp(1) [of i] len [of i "?p i"] n p(1) [of i]
        by (subst sub32_eq, simp_all, subst add32_eq, simp_all)
    qed
    then show ?thesis using h'(3) that True m sp(2) [of i] by (simp add: cell_ins_new)
  next
    case False
    have "sub32 (span (cell z ys i (?p i)) + 1) 1 = span (cell z ys i (?p i))"
      using len [of i "?p i"] n by (subst sub32_eq) auto
    then show ?thesis using h'(3) that False m by (simp add: cell_ins_over)
  qed
  have "get_level h' (?A r) i = Some (cell z ys i r)"
    if r: "r \<le> length ys" "i < L" "i < height_at ys r" for r i
  proof (cases "r = ?p i")
    case True
    then show ?thesis using new [OF r(2)] by simp
  next
    case False
    then have "?A r \<noteq> ?A (?p i)" using addr_at_inj [OF ty(1) r(1) p(2)] by blast
    then have old: "get_level h' (?A r) i = get_level h (?A r) i" using h'(3) by simp
    show ?thesis
    proof (cases "r \<le> m")
      case True
      then show ?thesis using old linkedD(1) [OF l t, of r i] r m cell_ins_same [OF m True False] by (simp add: addr_at_ins height_at_ins)
    next
      case False
      then show ?thesis using old linkedD(1) [OF l t, of "Suc r" i] r m by (simp add: addr_at_ins height_at_ins cell_ins_above)
    qed
  qed
  moreover have "get_level h' (taddr T) = get_level h (taddr T)"
  proof
    fix j
    have "taddr T \<noteq> ?A (?p j)" using fresh [OF p(2)] by metis
    then show "get_level h' (taddr T) j = get_level h (taddr T) j" using h'(3) by simp
  qed
  moreover have "\<exists>s. get_level h' z i = Some \<lparr>forward = NULL, span = s\<rparr>" if "L \<le> i" "i < ZSKIPLIST_MAXLEVEL" for i
    using linkedD(2) [OF l t that] h'(3) that by simp
  ultimately show ?thesis using h'(1,2) unfolding U by blast
qed

lemma lower_level_ok:
  "linked z L h ys \<Longrightarrow> towers_ok z L ys \<Longrightarrow> \<exists>L'. lower_level h z L = Some L' \<and> linked z L' h ys \<and> towers_ok z L' ys"
proof (induction L)
  case 0
  then show ?case by (simp add: towers_ok_def)
next
  case (Suc n)
  show ?case
  proof (cases "n = 0")
    case True
    then show ?thesis using Suc.prems by simp
  next
    case False
    have g: "get_level h z n = Some (cell z ys n 0)"
      using linkedD(1) [OF Suc.prems, of 0 n] by (simp add: addr_at_simps)
    show ?thesis
    proof (cases "nxt ys n 0")
      case (Some j)
      then have "addr_at z ys j \<noteq> NULL" using addr_at_nonnull [OF Suc.prems(2)] by (simp add: nxt_Some)
      then show ?thesis using Some g False Suc.prems by (simp add: cell_def)
    next
      case None
      then have c: "cell z ys n 0 = \<lparr>forward = NULL, span = length ys\<rparr>" by (simp add: cell_def)
      have hs: "\<forall>x \<in> set ys. theight x \<le> n"
      proof
        fix x assume "x \<in> set ys"
        then obtain k where "k < length ys" "x = ys ! k" by (auto simp: in_set_conv_nth)
        then show "theight x \<le> n" using None unfolding nxt_None by (metis Suc_leI height_at_simps(2) zero_less_Suc)
      qed
      then have "towers_ok z n ys" using Suc.prems(2) False by (auto simp: towers_ok_def)
      moreover have "linked z n h ys"
      proof -
        have "\<exists>s. get_level h z i = Some \<lparr>forward = NULL, span = s\<rparr>" if "n \<le> i" "i < ZSKIPLIST_MAXLEVEL" for i
          using linkedD(2) [OF Suc.prems, of i] g c that by (cases "i = n") auto
        then show ?thesis using Suc.prems(1) by (simp add: linked_def)
      qed
      ultimately show ?thesis using Suc.IH g c False by simp
    qed
  qed
qed

definition zsl_core :: "'s znodes \<times> zskiplist \<Rightarrow> 's tower list \<Rightarrow> bool" where
  "zsl_core s xs \<longleftrightarrow>
     linked (header (snd s)) (zlevel (snd s)) (fst s) xs \<and> towers_ok (header (snd s)) (zlevel (snd s)) xs \<and>
     zlength (snd s) = length xs \<and> ztail (snd s) = (if xs = [] then NULL else taddr (last xs))"

lemma zsl_rep_core:
  "zsl_rep s xs \<longleftrightarrow> zsl_core s xs \<and> sorted_wrt tless xs \<and> (\<forall>x \<in> set xs. small_obj (tobj x))"
  by (auto simp: zsl_rep_def zsl_core_def)

text \<open>The nodes that remain, once their neighbour points past the deleted one.\<close>

lemma bypass_ok:
  assumes l: "linked z L h (ins m T ys)" and t: "towers_ok z L (ins m T ys)" and m: "m \<le> length ys"
    and h1: "base h1 = base h" "get_level h1 (taddr T) = get_level h (taddr T)"
      "\<forall>r \<le> length ys. \<forall>i < L. i < height_at ys r \<longrightarrow> get_level h1 (addr_at z ys r) i = Some (cell z ys i r)"
      "\<forall>i. L \<le> i \<longrightarrow> i < ZSKIPLIST_MAXLEVEL \<longrightarrow> (\<exists>s. get_level h1 z i = Some \<lparr>forward = NULL, span = s\<rparr>)"
  shows "\<exists>n l h2. znode h1 (taddr T) = Some n \<and> get_level h1 (taddr T) 0 = Some l \<and>
    backward n = (if m = 0 then NULL else taddr (ys ! (m - 1))) \<and>
    forward l = (if m < length ys then taddr (ys ! m) else NULL) \<and>
    (if forward l \<noteq> NULL then set_backward (forward l) (backward n) h1 else Some h1) = Some h2 \<and>
    linked z L h2 ys \<and> base h2 (taddr T) = base h (taddr T)"
proof -
  let ?xs = "ins m T ys"
  note ty = towers_ok_ins [OF t m]
  let ?b = "if m = 0 then NULL else taddr (ys ! (m - 1))"
  have lb: "base h (taddr (?xs ! k)) = Some (Some (tobj (?xs ! k)), tscore (?xs ! k),
      (if k = 0 then NULL else taddr (?xs ! (k - 1))), theight (?xs ! k))" if "k < Suc (length ys)" for k
    using l that m by (simp add: linked_def)
  have bT: "base h (taddr T) = Some (Some (tobj T), tscore T, ?b, theight T)"
    using lb [of m] m by (simp add: nth_ins)
  obtain n where n: "znode h1 (taddr T) = Some n" "backward n = ?b"
    using base_SomeE [OF bT [folded h1(1)] ty(6)] by metis
  have lT: "get_level h1 (taddr T) 0 = Some (cell z ys 0 m)"
    using linkedD(1) [OF l t, of "Suc m" 0] m ty(4,5) h1(2) by (simp add: addr_at_ins height_at_ins cell_ins_above)
  have f: "forward (cell z ys 0 m) = (if m < length ys then taddr (ys ! m) else NULL)"
    using cell_0 [OF ty(1) m] by (simp add: addr_at_simps)
  have low: "base h (taddr (ys ! k)) = Some (Some (tobj (ys ! k)), tscore (ys ! k),
      (if k = 0 then NULL else taddr (ys ! (k - 1))), theight (ys ! k))" if "k < m" for k
    using lb [of k] that m by (simp add: nth_ins)
  have high: "base h (taddr (ys ! k)) = Some (Some (tobj (ys ! k)), tscore (ys ! k),
      (if k = m then taddr T else taddr (ys ! (k - 1))), theight (ys ! k))" if "m \<le> k" "k < length ys" for k
    using lb [of "Suc k"] that m by (simp add: nth_ins)
  have zb: "\<exists>sc. base h z = Some (None, sc, NULL, ZSKIPLIST_MAXLEVEL)" using l by (simp add: linked_def)
  show ?thesis
  proof (cases "m < length ys")
    case False
    then have "linked z L h1 ys" unfolding linked_def h1(1) using low zb h1(3,4) m by simp
    then show ?thesis using n lT f False h1(1) by auto
  next
    case True
    let ?q = "taddr (ys ! m)"
    have q: "?q \<noteq> NULL" using addr_at_nonnull [OF ty(1), of "Suc m"] True by (simp add: addr_at_simps)
    have bq: "base h1 ?q = Some (Some (tobj (ys ! m)), tscore (ys ! m), taddr T, theight (ys ! m))"
      using high [of m] True h1(1) by simp
    from set_backward_ok [OF bq q, of ?b] obtain h2 where h2: "set_backward ?q ?b h1 = Some h2"
      "base h2 = (base h1)(?q := Some (Some (tobj (ys ! m)), tscore (ys ! m), ?b, theight (ys ! m)))"
      "get_level h2 = get_level h1" by blast
    have qd: "taddr (ys ! k) = ?q \<longleftrightarrow> k = m" if "k < length ys" for k
      using addr_at_inj [OF ty(1), of "Suc k" "Suc m"] that True by (auto simp: addr_at_simps)
    have zq: "z \<noteq> ?q" using addr_at_inj [OF ty(1), of 0 "Suc m"] True by (auto simp: addr_at_simps)
    have "base h2 (taddr (ys ! k)) = Some (Some (tobj (ys ! k)), tscore (ys ! k),
      (if k = 0 then NULL else taddr (ys ! (k - 1))), theight (ys ! k))" if k: "k < length ys" for k
    proof -
      consider "k < m" | "k = m" | "m < k" by linarith
      then show ?thesis
      proof cases
        case 1
        then show ?thesis using low qd [OF k] by (simp add: h2(2) h1(1))
      next
        case 2
        then show ?thesis by (simp add: h2(2))
      next
        case 3
        then show ?thesis using high [of k] k qd [OF k] by (simp add: h2(2) h1(1))
      qed
    qed
    then have "linked z L h2 ys"
      unfolding linked_def using zb zq h1(3,4) by (simp add: h2(2,3) h1(1))
    moreover have "base h2 (taddr T) = base h (taddr T)"
      using ty(3) True by (simp add: h2(2) h1(1)) (metis image_eqI nth_mem)
    ultimately show ?thesis using n lT f True h2(1) q by auto
  qed
qed

lemma linked_remove:
  assumes "linked z L h ys" "a \<noteq> z" "a \<notin> taddr ` set ys"
  shows "linked z L (h(a := None)) ys"
proof -
  have ad: "addr_at z ys r \<noteq> a" if "r \<le> length ys" for r by (rule addr_at_fresh [OF assms(2,3) that])
  moreover have "taddr (ys ! k) \<noteq> a" if "k < length ys" for k using ad [of "Suc k"] that by (simp add: addr_at_simps)
  ultimately show ?thesis using assms(1,2) by (simp add: linked_def remove_node_ok)
qed

lemma dom_unlink_levels: "unlink_levels x i us h = Some h' \<Longrightarrow> dom h' = dom h"
proof (induction us arbitrary: i h)
  case (Cons u us)
  then show ?case by (fastforce split: bind_splits if_splits dest: dom_set_forward dom_set_span)
qed simp

lemma dom_zslDeleteNode: "zslDeleteNode x us (h, zsl) = Some s \<Longrightarrow> dom (fst s) = dom h"
  by (auto simp: zslDeleteNode_def split: bind_splits if_splits dest!: dom_unlink_levels dom_set_backward simp del: domIff
      del: equalityI)

lemma dom_zslFreeNode: "zslFreeNode x (h, zsl) = Some s \<Longrightarrow> dom (fst s) = dom h - {x}"
  by (auto simp: zslFreeNode_def split: bind_splits simp del: domIff del: equalityI)

lemma zslDeleteNode_ok:
  assumes c: "zsl_core (h, zsl) (ins m T ys)" and m: "m \<le> length ys"
    and us: "take (zlevel zsl) us = map (\<lambda>i. addr_at (header zsl) (ins m T ys) (prv (ins m T ys) i m)) [0..<zlevel zsl]"
  shows "\<exists>s1 s2. zslDeleteNode (taddr T) us (h, zsl) = Some s1 \<and> zslFreeNode (taddr T) s1 = Some s2 \<and>
    zsl_core s2 ys \<and> header (snd s2) = header zsl \<and> zlevel (snd s2) \<le> zlevel zsl \<and>
    zreleased (snd s2) = zreleased zsl @ [tobj T] \<and> dom (fst s2) = dom h - {taddr T}"
proof -
  let ?z = "header zsl" and ?L = "zlevel zsl" and ?xs = "ins m T ys"
  have l: "linked ?z ?L h ?xs" and t: "towers_ok ?z ?L ?xs" and zl: "zlength zsl = Suc (length ys)"
    and tl: "ztail zsl = taddr (last ?xs)"
    using c m by (auto simp: zsl_core_def ins_def)
  note ty = towers_ok_ins [OF t m]
  obtain h1 where h1: "unlink_levels (taddr T) 0 (take ?L us) h = Some h1" "base h1 = base h"
    "get_level h1 (taddr T) = get_level h (taddr T)"
    "\<forall>r \<le> length ys. \<forall>i < ?L. i < height_at ys r \<longrightarrow> get_level h1 (addr_at ?z ys r) i = Some (cell ?z ys i r)"
    "\<forall>i. ?L \<le> i \<longrightarrow> i < ZSKIPLIST_MAXLEVEL \<longrightarrow> (\<exists>s. get_level h1 ?z i = Some \<lparr>forward = NULL, span = s\<rparr>)"
    using delete_core [OF l t m] us by auto
  obtain n l1 h2 where h2: "znode h1 (taddr T) = Some n" "get_level h1 (taddr T) 0 = Some l1"
    "backward n = (if m = 0 then NULL else taddr (ys ! (m - 1)))"
    "forward l1 = (if m < length ys then taddr (ys ! m) else NULL)"
    "(if forward l1 \<noteq> NULL then set_backward (forward l1) (backward n) h1 else Some h1) = Some h2"
    "linked ?z ?L h2 ys" "base h2 (taddr T) = base h (taddr T)"
    using bypass_ok [OF l t m h1(2-5)] by blast
  obtain L' where L': "lower_level h2 ?z ?L = Some L'" "linked ?z L' h2 ys" "towers_ok ?z L' ys"
    using lower_level_ok [OF h2(6) ty(1)] by blast
  have "L' \<le> ?L"
  proof -
    have "lower_level h a k = Some k' \<Longrightarrow> k' \<le> k" for h :: "'a znodes" and a k k'
      by (induction k) (auto split: if_splits bind_splits)
    then show ?thesis using L'(1) by blast
  qed
  let ?tl = "if forward l1 \<noteq> NULL then zsl else zsl\<lparr>ztail := backward n\<rparr>"
  let ?zsl1 = "?tl\<lparr>zlevel := L', zlength := length ys\<rparr>"
  have s1: "zslDeleteNode (taddr T) us (h, zsl) = Some (h2, ?zsl1)"
    using h1(1) h2(1,2,5) L'(1) zl by (auto simp: zslDeleteNode_def)
  have "base h (taddr T) = Some (Some (tobj T), tscore T, (if m = 0 then NULL else taddr (ys ! (m - 1))), theight T)"
    using l m unfolding linked_def by (auto simp: nth_ins dest!: spec [of _ m])
  then obtain n2 where n2: "znode h2 (taddr T) = Some n2" "zobj n2 = Some (tobj T)"
    using base_SomeE [of h2 "taddr T"] h2(7) ty(6) by metis
  let ?zsl2 = "?zsl1\<lparr>zreleased := zreleased zsl @ [tobj T]\<rparr>"
  have s2: "zslFreeNode (taddr T) (h2, ?zsl1) = Some (h2(taddr T := None), ?zsl2)"
    using n2 by (simp add: zslFreeNode_def)
  have "ztail ?zsl2 = (if ys = [] then NULL else taddr (last ys))"
  proof (cases "m < length ys")
    case True
    then have "taddr (ys ! m) \<noteq> NULL" using addr_at_nonnull [OF ty(1), of "Suc m"] by (simp add: addr_at_simps)
    then show ?thesis using True h2(4) tl by (auto simp: ins_def)
  next
    case False
    then have "m = length ys" using m by simp
    then show ?thesis using h2(3,4) by (cases ys rule: rev_cases) auto
  qed
  then have "zsl_core (h2(taddr T := None), ?zsl2) ys"
    using linked_remove [OF L'(2) ty(2,3)] L'(3) by (auto simp: zsl_core_def)
  moreover have "dom (h2(taddr T := None)) = dom h - {taddr T}"
    using dom_zslFreeNode [OF s2] dom_zslDeleteNode [OF s1] by simp
  ultimately show ?thesis using s1 s2 \<open>L' \<le> ?L\<close> by auto
qed

section \<open>zslDelete\<close>

lemma same_key_irrefl: "tless x y \<Longrightarrow> same_key (tscore y) (tobj y) x \<Longrightarrow> False"
  by (auto simp: tless_def before_def same_key_def)

lemma same_key_cut:
  assumes s: "sorted_wrt tless xs" and k: "k < length xs" "same_key sc ob (xs ! k)"
  shows "k = length (takeWhile (before sc ob) xs)"
proof (rule ccontr)
  let ?m = "length (takeWhile (before sc ob) xs)"
  assume ne: "k \<noteq> ?m"
  have "\<not> before sc ob (xs ! k)" using k(2) by (auto simp: before_def same_key_def)
  then have "?m < k" using cut_key [OF s k(1)] ne by (metis linorder_neqE_nat)
  then have tl: "tless (xs ! ?m) (xs ! k)" using s k(1) by (simp add: sorted_wrt_iff_nth_less)
  have "before sc ob (xs ! ?m)"
    using tl k(2) by (simp add: tless_def before_def same_key_def)
  then show False using \<open>?m < k\<close> k(1) nth_length_takeWhile [of "before sc ob" xs] by simp
qed

lemma filter_same_key:
  assumes s: "sorted_wrt tless xs" and k: "k < length xs" "same_key sc ob (xs ! k)"
  shows "filter (\<lambda>x. \<not> same_key sc ob x) xs = take k xs @ drop (Suc k) xs"
proof -
  have n: "\<not> same_key sc ob (xs ! j)" if "j < length xs" "j \<noteq> k" for j
    using same_key_cut [OF s that(1)] same_key_cut [OF s k] that(2) by metis
  have "filter (\<lambda>x. \<not> same_key sc ob x) (take k xs) = take k xs"
    using n k(1) by (auto simp: filter_id_conv in_set_conv_nth)
  moreover have "filter (\<lambda>x. \<not> same_key sc ob x) (drop (Suc k) xs) = drop (Suc k) xs"
    using n k(1) by (auto simp: filter_id_conv in_set_conv_nth)
  ultimately show ?thesis using id_take_nth_drop [OF k(1)] k(2)
    by (metis (no_types, lifting) filter.simps(2) filter_append)
qed

lemma zslDelete_ok:
  assumes r: "zsl_rep (h, zsl) xs" and ob: "small_obj ob"
  shows "\<exists>s. zslDelete sc ob (h, zsl) = Some (s, \<exists>x \<in> set xs. same_key sc ob x) \<and>
    zsl_rep s (filter (\<lambda>x. \<not> same_key sc ob x) xs) \<and> header (snd s) = header zsl \<and>
    zreleased (snd s) = zreleased zsl @ map tobj (filter (same_key sc ob) xs) \<and>
    dom (fst s) = dom h - taddr ` set (filter (same_key sc ob) xs)"
proof -
  let ?z = "header zsl" and ?L = "zlevel zsl"
  let ?m = "length (takeWhile (before sc ob) xs)"
  let ?f = "\<lambda>i. (addr_at ?z xs (prv xs i ?m), prv xs i ?m)"
  have c: "zsl_core (h, zsl) xs" and so: "sorted_wrt tless xs" and sm: "\<forall>x \<in> set xs. small_obj (tobj x)"
    using r by (auto simp: zsl_rep_core)
  have l: "linked ?z ?L h xs" and t: "towers_ok ?z ?L xs" using c by (auto simp: zsl_core_def)
  have m: "?m \<le> length xs" by (simp add: length_takeWhile_le)
  have L: "0 < ?L" using t by (auto simp: towers_ok_def)
  have d: "descend (\<lambda>_. node_before sc ob) h ?L (?z, 0) = Some (map ?f [0..<?L])"
    using descend_ok [OF l t cut_at_key [OF l t so sm ob, of sc], of ?L 0] by (simp add: addr_at_simps)
  have M: "map ?f [0..<?L] = (addr_at ?z xs ?m, ?m) # map ?f [1..<?L]"
    using L prv_0 [OF t m] by (simp add: upt_conv_Cons del: upt_Suc)
  have g: "get_level h (addr_at ?z xs ?m) 0 = Some (cell ?z xs 0 ?m)"
    using linkedD(1) [OF l t m, of 0] L height_bound [OF t, of ?m] m by (cases "?m = 0") auto
  have f: "forward (cell ?z xs 0 ?m) = (if ?m < length xs then taddr (xs ! ?m) else NULL)"
    using cell_0 [OF t m] by (simp add: addr_at_simps)
  have key: "(\<exists>x \<in> set xs. same_key sc ob x) \<longleftrightarrow> ?m < length xs \<and> same_key sc ob (xs ! ?m)"
  proof
    assume "\<exists>x \<in> set xs. same_key sc ob x"
    then obtain k where "k < length xs" "same_key sc ob (xs ! k)" by (metis in_set_conv_nth)
    then show "?m < length xs \<and> same_key sc ob (xs ! ?m)" using same_key_cut [OF so] by metis
  qed (metis nth_mem)
  have none: "filter (\<lambda>x. \<not> same_key sc ob x) xs = xs" "filter (same_key sc ob) xs = []"
    if "\<not> (\<exists>x \<in> set xs. same_key sc ob x)"
    using that by (auto simp: filter_id_conv filter_empty_conv)
  show ?thesis
  proof (cases "?m < length xs")
    case False
    then have no: "\<not> (\<exists>x \<in> set xs. same_key sc ob x)" using key by blast
    have "zslDelete sc ob (h, zsl) = Some ((h, zsl), False)"
      unfolding zslDelete_def prod.case d using M g f False by simp
    then show ?thesis using r none [OF no] no by auto
  next
    case True
    let ?y = "xs ! ?m"
    obtain n where n: "znode h (taddr ?y) = Some n" "zobj n = Some (tobj ?y)" "zscore n = tscore ?y"
      using linked_node [OF l t, of "Suc ?m"] True by (auto simp: addr_at_simps)
    have yn: "taddr ?y \<noteq> NULL" using addr_at_nonnull [OF t, of "Suc ?m"] True by (simp add: addr_at_simps)
    have cond: "sc = zscore n \<and> equalStringObjects (obj_of n) ob \<longleftrightarrow> same_key sc ob ?y"
      using equalStringObjects_eq [of "tobj ?y" ob] sm True ob n by (auto simp: same_key_def obj_of_def)
    show ?thesis
    proof (cases "same_key sc ob ?y")
      case False
      then have no: "\<not> (\<exists>x \<in> set xs. same_key sc ob x)" using key by blast
      have "zslDelete sc ob (h, zsl) = Some ((h, zsl), False)"
        unfolding zslDelete_def prod.case d using M g f n(1) yn cond True False by auto
      then show ?thesis using r none [OF no] no by auto
    next
      case sk: True
      let ?ys = "take ?m xs @ drop (Suc ?m) xs"
      have xs: "ins ?m ?y ?ys = xs" using id_take_nth_drop [OF True] m by (simp add: ins_def min_def)
      have my: "?m \<le> length ?ys" using True by simp
      have "take ?L (map fst (map ?f [0..<?L])) = map (\<lambda>i. addr_at ?z xs (prv xs i ?m)) [0..<?L]" by simp
      then obtain s1 s2 where s: "zslDeleteNode (taddr ?y) (map fst (map ?f [0..<?L])) (h, zsl) = Some s1"
        "zslFreeNode (taddr ?y) s1 = Some s2" "zsl_core s2 ?ys" "header (snd s2) = ?z"
        "zreleased (snd s2) = zreleased zsl @ [tobj ?y]" "dom (fst s2) = dom h - {taddr ?y}"
        using zslDeleteNode_ok [of h zsl ?m ?y ?ys "map fst (map ?f [0..<?L])", unfolded xs, OF c my] by blast
      have "zslDelete sc ob (h, zsl) = Some (s2, True)"
        unfolding zslDelete_def prod.case d M using g f n(1) yn cond True sk s(1) [unfolded M] s(2) by simp
      moreover have fl: "filter (\<lambda>x. \<not> same_key sc ob x) xs = ?ys" by (rule filter_same_key [OF so True sk])
      moreover have "filter (same_key sc ob) xs = [?y]"
      proof -
        have "length (filter (same_key sc ob) xs) = 1" "?y \<in> set (filter (same_key sc ob) xs)"
          using sum_length_filter_compl [of "same_key sc ob" xs] fl True sk by auto
        then show ?thesis by (cases "filter (same_key sc ob) xs") auto
      qed
      moreover have "sorted_wrt tless ?ys" using so sorted_wrt_filter [of tless xs] fl by metis
      ultimately show ?thesis using s(3-6) sm key True sk
        by (auto simp: zsl_rep_core dest: in_set_takeD in_set_dropD)
    qed
  qed
qed

end
