(* ===== verification/Skiplist_Range.thy ===== *)
theory Skiplist_Range
  imports Skiplist_Ops
begin

text \<open>
  Ranges and ranks of the skiplist (\<open>t_zset.c\<close>): the first and the last element of a range of
  scores or of strings, the deletion of ranges, the rank of an element and the element of a
  rank, with what they are on the sorted sequence of the elements.
\<close>

section \<open>Ranges of scores\<close>

record 's zrangespec =
  zmin :: 's
  zmax :: 's
  minex :: bool
  maxex :: bool

definition zslValueGteMin :: "('s :: linorder) \<Rightarrow> 's zrangespec \<Rightarrow> bool" where
  "zslValueGteMin v spec = (if minex spec then v > zmin spec else v \<ge> zmin spec)"

definition zslValueLteMax :: "('s :: linorder) \<Rightarrow> 's zrangespec \<Rightarrow> bool" where
  "zslValueLteMax v spec = (if maxex spec then v < zmax spec else v \<le> zmax spec)"

text \<open>
  What the functions on ranges of scores and on ranges of strings share: tests \<open>ge\<close> and \<open>le\<close> of
  a node against the two ends.
\<close>

definition is_in_range ::
    "('s zskiplistNode \<Rightarrow> bool) \<Rightarrow> ('s zskiplistNode \<Rightarrow> bool) \<Rightarrow> 's znodes \<times> zskiplist \<Rightarrow> bool option" where
  "is_in_range ge le = (\<lambda>(h, zsl).
     if ztail zsl = NULL then Some False
     else do {
       x \<leftarrow> znode h (ztail zsl);
       (if \<not> ge x then Some False
        else do {
          l \<leftarrow> get_level h (header zsl) 0;
          (if forward l = NULL then Some False
           else do { x \<leftarrow> znode h (forward l); Some (le x) }) }) })"

text \<open>Forward while out of range; the assertion is that a node follows.\<close>

definition first_in_range ::
    "('s zskiplistNode \<Rightarrow> bool) \<Rightarrow> ('s zskiplistNode \<Rightarrow> bool) \<Rightarrow> 's znodes \<times> zskiplist \<Rightarrow> addr option" where
  "first_in_range ge le s = do {
     x \<leftarrow> search_end (\<lambda>_ n. \<not> ge n) s;
     l \<leftarrow> get_level (fst s) x 0;
     n \<leftarrow> znode (fst s) (forward l);
     Some (if le n then forward l else NULL) }"

text \<open>Forward while in range; the node is not \<open>NULL\<close>, but it may be the header.\<close>

definition last_in_range ::
    "('s zskiplistNode \<Rightarrow> bool) \<Rightarrow> ('s zskiplistNode \<Rightarrow> bool) \<Rightarrow> 's znodes \<times> zskiplist \<Rightarrow> addr option" where
  "last_in_range ge le s = do {
     x \<leftarrow> search_end (\<lambda>_. le) s;
     n \<leftarrow> znode (fst s) x;
     Some (if ge n then x else NULL) }"

definition zslIsInRange :: "('s :: linorder) zrangespec \<Rightarrow> 's znodes \<times> zskiplist \<Rightarrow> bool option" where
  "zslIsInRange rg s =
     (if zmin rg > zmax rg \<or> zmin rg = zmax rg \<and> (minex rg \<or> maxex rg)
      then Some False
      else is_in_range (\<lambda>n. zslValueGteMin (zscore n) rg) (\<lambda>n. zslValueLteMax (zscore n) rg) s)"

definition zslFirstInRange :: "('s :: linorder) zrangespec \<Rightarrow> 's znodes \<times> zskiplist \<Rightarrow> addr option" where
  "zslFirstInRange rg s = do {
     inr \<leftarrow> zslIsInRange rg s;
     (if \<not> inr then Some NULL
      else first_in_range (\<lambda>n. zslValueGteMin (zscore n) rg) (\<lambda>n. zslValueLteMax (zscore n) rg) s) }"

definition zslLastInRange :: "('s :: linorder) zrangespec \<Rightarrow> 's znodes \<times> zskiplist \<Rightarrow> addr option" where
  "zslLastInRange rg s = do {
     inr \<leftarrow> zslIsInRange rg s;
     (if \<not> inr then Some NULL
      else last_in_range (\<lambda>n. zslValueGteMin (zscore n) rg) (\<lambda>n. zslValueLteMax (zscore n) rg) s) }"

section \<open>Ranges of strings\<close>

text \<open>
  The ends of a range of strings: the shared objects, which are told by their addresses, or an
  object. Their contents are \<open>minstring\<close> and \<open>maxstring\<close>.
\<close>

datatype lexend = MinString | MaxString | Str strobj

record zlexrangespec =
  lmin :: lexend
  lmax :: lexend
  lminex :: bool
  lmaxex :: bool

fun lexend_obj :: "lexend \<Rightarrow> strobj" where
  "lexend_obj MinString = Raw (ascii ''minstring'')"
| "lexend_obj MaxString = Raw (ascii ''maxstring'')"
| "lexend_obj (Str ob) = ob"

text \<open>
  \<open>c\<close> are the bytes of the argument; the byte at its length is the terminator. The result is the
  end and \<open>ex\<close>.
\<close>

definition zslParseLexRangeItem :: "byte list \<Rightarrow> (lexend \<times> bool) option" where
  "zslParseLexRangeItem c =
     (let at = (\<lambda>i. if i < length c then c ! i else 0)
      in if at 0 = 43 then (if at 1 \<noteq> 0 then None else Some (MaxString, False))
         else if at 0 = 45 then (if at 1 \<noteq> 0 then None else Some (MinString, False))
         else if at 0 = 40 then Some (Str (Raw (drop 1 c)), True)
         else if at 0 = 91 then Some (Str (Raw (drop 1 c)), False)
         else None)"

definition zslParseLexRange :: "strobj \<Rightarrow> strobj \<Rightarrow> zlexrangespec option" where
  "zslParseLexRange mn mx =
     (case (mn, mx) of
        (Raw a, Raw b) \<Rightarrow> do {
          (l, lx) \<leftarrow> zslParseLexRangeItem a;
          (u, ux) \<leftarrow> zslParseLexRangeItem b;
          Some \<lparr>lmin = l, lmax = u, lminex = lx, lmaxex = ux\<rparr> }
      | _ \<Rightarrow> None)"

definition compareStringObjectsForLexRange :: "lexend \<Rightarrow> lexend \<Rightarrow> int" where
  "compareStringObjectsForLexRange a b =
     (if a = b \<and> (a = MinString \<or> a = MaxString) then 0
      else if a = MinString \<or> b = MaxString then -1
      else if a = MaxString \<or> b = MinString then 1
      else compareStringObjects (lexend_obj a) (lexend_obj b))"

definition zslLexValueGteMin :: "strobj \<Rightarrow> zlexrangespec \<Rightarrow> bool" where
  "zslLexValueGteMin v spec =
     (if lminex spec then compareStringObjectsForLexRange (Str v) (lmin spec) > 0
      else compareStringObjectsForLexRange (Str v) (lmin spec) \<ge> 0)"

definition zslLexValueLteMax :: "strobj \<Rightarrow> zlexrangespec \<Rightarrow> bool" where
  "zslLexValueLteMax v spec =
     (if lmaxex spec then compareStringObjectsForLexRange (Str v) (lmax spec) < 0
      else compareStringObjectsForLexRange (Str v) (lmax spec) \<le> 0)"

definition zslIsInLexRange :: "zlexrangespec \<Rightarrow> 's znodes \<times> zskiplist \<Rightarrow> bool option" where
  "zslIsInLexRange rg s =
     (if compareStringObjectsForLexRange (lmin rg) (lmax rg) > 1 \<or>
         compareStringObjects (lexend_obj (lmin rg)) (lexend_obj (lmax rg)) = 0 \<and>
           (lminex rg \<or> lmaxex rg)
      then Some False
      else is_in_range (\<lambda>n. zslLexValueGteMin (obj_of n) rg) (\<lambda>n. zslLexValueLteMax (obj_of n) rg) s)"

definition zslFirstInLexRange :: "zlexrangespec \<Rightarrow> 's znodes \<times> zskiplist \<Rightarrow> addr option" where
  "zslFirstInLexRange rg s = do {
     inr \<leftarrow> zslIsInLexRange rg s;
     (if \<not> inr then Some NULL
      else first_in_range (\<lambda>n. zslLexValueGteMin (obj_of n) rg) (\<lambda>n. zslLexValueLteMax (obj_of n) rg) s) }"

definition zslLastInLexRange :: "zlexrangespec \<Rightarrow> 's znodes \<times> zskiplist \<Rightarrow> addr option" where
  "zslLastInLexRange rg s = do {
     inr \<leftarrow> zslIsInLexRange rg s;
     (if \<not> inr then Some NULL
      else last_in_range (\<lambda>n. zslLexValueGteMin (obj_of n) rg) (\<lambda>n. zslLexValueLteMax (obj_of n) rg) s) }"

section \<open>Deleting ranges\<close>

text \<open>
  The loop \<open>while (x && \<dots>)\<close> of the deletions: \<open>C\<close> is asked about the node and its rank. The
  state is the skiplist and the dictionary beside it, which loses the same objects.
\<close>

partial_function (option) delete_run ::
    "(strobj, 'v) dictType \<Rightarrow> (nat \<Rightarrow> 's zskiplistNode \<Rightarrow> bool) \<Rightarrow> addr list \<Rightarrow> addr \<Rightarrow> nat \<Rightarrow> nat
     \<Rightarrow> ('s znodes \<times> zskiplist) \<times> (strobj, 'v) dict
     \<Rightarrow> ((('s znodes \<times> zskiplist) \<times> (strobj, 'v) dict) \<times> nat) option" where
  "delete_run ty C update x traversed removed sd =
     (if x = NULL then Some (sd, removed)
      else do {
        n \<leftarrow> znode (fst (fst sd)) x;
        (if \<not> C traversed n then Some (sd, removed)
         else do {
           l \<leftarrow> get_level (fst (fst sd)) x 0;
           s \<leftarrow> zslDeleteNode x update (fst sd);
           (d, _) \<leftarrow> dictDelete ty (obj_of n) (snd sd);
           s \<leftarrow> zslFreeNode x s;
           delete_run ty C update (forward l) (traversed + 1) (removed + 1) (s, d) }) })"

text \<open>Search with \<open>Q\<close>, then delete while \<open>C\<close>.\<close>

definition delete_from ::
    "(strobj, 'v) dictType \<Rightarrow> (nat \<Rightarrow> 's zskiplistNode \<Rightarrow> bool) \<Rightarrow> (nat \<Rightarrow> 's zskiplistNode \<Rightarrow> bool)
     \<Rightarrow> ('s znodes \<times> zskiplist) \<times> (strobj, 'v) dict
     \<Rightarrow> ((('s znodes \<times> zskiplist) \<times> (strobj, 'v) dict) \<times> nat) option" where
  "delete_from ty Q C = (\<lambda>((h, zsl), d). do {
     us \<leftarrow> descend Q h (zlevel zsl) (header zsl, 0);
     (case us of
        [] \<Rightarrow> None
      | (u, r) # _ \<Rightarrow> do {
          l \<leftarrow> get_level h u 0;
          delete_run ty C (map fst us) (forward l) (r + 1) 0 ((h, zsl), d) }) })"

definition zslDeleteRangeByScore ::
    "(strobj, 'v) dictType \<Rightarrow> ('s :: linorder) zrangespec \<Rightarrow> ('s znodes \<times> zskiplist) \<times> (strobj, 'v) dict
     \<Rightarrow> ((('s znodes \<times> zskiplist) \<times> (strobj, 'v) dict) \<times> nat) option" where
  "zslDeleteRangeByScore ty rg =
     delete_from ty (\<lambda>_ n. if minex rg then zscore n \<le> zmin rg else zscore n < zmin rg)
       (\<lambda>_ n. if maxex rg then zscore n < zmax rg else zscore n \<le> zmax rg)"

definition zslDeleteRangeByLex ::
    "(strobj, 'v) dictType \<Rightarrow> zlexrangespec \<Rightarrow> ('s znodes \<times> zskiplist) \<times> (strobj, 'v) dict
     \<Rightarrow> ((('s znodes \<times> zskiplist) \<times> (strobj, 'v) dict) \<times> nat) option" where
  "zslDeleteRangeByLex ty rg =
     delete_from ty (\<lambda>_ n. \<not> zslLexValueGteMin (obj_of n) rg) (\<lambda>_ n. zslLexValueLteMax (obj_of n) rg)"

text \<open>\<open>start\<close> and \<open>end\<close> count from 1; \<open>traversed\<close> is the rank that the search crossed.\<close>

definition zslDeleteRangeByRank ::
    "(strobj, 'v) dictType \<Rightarrow> nat \<Rightarrow> nat \<Rightarrow> ('s znodes \<times> zskiplist) \<times> (strobj, 'v) dict
     \<Rightarrow> ((('s znodes \<times> zskiplist) \<times> (strobj, 'v) dict) \<times> nat) option" where
  "zslDeleteRangeByRank ty start end' =
     delete_from ty (\<lambda>rank _. rank < start) (\<lambda>traversed _. traversed \<le> end')"

section \<open>Ranks\<close>

fun rank_loop :: "('s :: linorder) \<Rightarrow> strobj \<Rightarrow> 's znodes \<Rightarrow> nat \<Rightarrow> addr \<times> nat \<Rightarrow> nat option" where
  "rank_loop score ob h 0 xr = Some 0"
| "rank_loop score ob h (Suc i) xr = do {
     xr \<leftarrow> zsl_walk (\<lambda>_ n. zscore n < score \<or> zscore n = score \<and> compareStringObjects (obj_of n) ob \<le> 0)
            h i (fst xr) (snd xr);
     n \<leftarrow> znode h (fst xr);
     (if zobj n \<noteq> None \<and> equalStringObjects (obj_of n) ob then Some (snd xr)
      else rank_loop score ob h i xr) }"

definition zslGetRank :: "('s :: linorder) \<Rightarrow> strobj \<Rightarrow> 's znodes \<times> zskiplist \<Rightarrow> nat option" where
  "zslGetRank score ob = (\<lambda>(h, zsl). rank_loop score ob h (zlevel zsl) (header zsl, 0))"

fun by_rank_loop :: "nat \<Rightarrow> 's znodes \<Rightarrow> nat \<Rightarrow> addr \<times> nat \<Rightarrow> addr option" where
  "by_rank_loop rank h 0 xr = Some NULL"
| "by_rank_loop rank h (Suc i) xr = do {
     xr \<leftarrow> zsl_walk (\<lambda>r _. r \<le> rank) h i (fst xr) (snd xr);
     (if snd xr = rank then Some (fst xr) else by_rank_loop rank h i xr) }"

definition zslGetElementByRank :: "nat \<Rightarrow> 's znodes \<times> zskiplist \<Rightarrow> addr option" where
  "zslGetElementByRank rank = (\<lambda>(h, zsl). by_rank_loop rank h (zlevel zsl) (header zsl, 0))"

end
