(* ===== verification/Skiplist_Search.thy ===== *)
theory Skiplist_Search
  imports Skiplist_Range
begin

text \<open>
  What the searches of ranges find: the first and the last element, in the sorted sequence, that
  is in the range. A test that holds of a prefix of the sequence (\<open>prefix_test\<close>) is what a search
  can cut at.
\<close>

section \<open>Tests of nodes and of towers\<close>

definition on_tower :: "('s zskiplistNode \<Rightarrow> bool) \<Rightarrow> ('s tower \<Rightarrow> bool) \<Rightarrow> 's tower list \<Rightarrow> bool" where
  "on_tower p P xs \<longleftrightarrow> (\<forall>x \<in> set xs. \<forall>n. zobj n = Some (tobj x) \<longrightarrow> zscore n = tscore x \<longrightarrow> p n = P x)"

text \<open>\<open>P\<close> holds of a prefix of the sequence.\<close>

definition prefix_test :: "('s tower \<Rightarrow> bool) \<Rightarrow> 's tower list \<Rightarrow> bool" where
  "prefix_test P xs \<longleftrightarrow> (\<forall>k < length xs. P (xs ! k) \<longleftrightarrow> k < length (takeWhile P xs))"

lemma prefix_testI:
  assumes "\<And>i j. i < j \<Longrightarrow> j < length xs \<Longrightarrow> P (xs ! j) \<Longrightarrow> P (xs ! i)"
  shows "prefix_test P xs"
proof -
  have "P (xs ! k) \<longleftrightarrow> k < length (takeWhile P xs)" if k: "k < length xs" for k
  proof
    show "k < length (takeWhile P xs)" if "P (xs ! k)"
    proof (rule ccontr)
      assume "\<not> k < length (takeWhile P xs)"
      then have m: "length (takeWhile P xs) \<le> k" by simp
      then have "\<not> P (xs ! length (takeWhile P xs))" using k by (intro nth_length_takeWhile) simp
      then show False using assms [of "length (takeWhile P xs)" k] m k that by (cases "length (takeWhile P xs) = k") auto
    qed
    show "P (xs ! k)" if "k < length (takeWhile P xs)"
      using that nth_mem [OF that] by (auto simp: takeWhile_nth dest: set_takeWhileD)
  qed
  then show ?thesis by (simp add: prefix_test_def)
qed

lemma prefix_testD: "prefix_test P xs \<Longrightarrow> k < length xs \<Longrightarrow> P (xs ! k) \<longleftrightarrow> k < length (takeWhile P xs)"
  by (simp add: prefix_test_def)

lemma coreD:
  assumes "zsl_core (h, zsl) xs"
  shows "linked (header zsl) (zlevel zsl) h xs" "towers_ok (header zsl) (zlevel zsl) xs"
    and "zlength zsl = length xs" "ztail zsl = (if xs = [] then NULL else taddr (last xs))"
  using assms by (auto simp: zsl_core_def)

lemma core_node:
  assumes c: "zsl_core (h, zsl) xs" and k: "k < length xs"
  obtains n where "znode h (taddr (xs ! k)) = Some n" "zobj n = Some (tobj (xs ! k))" "zscore n = tscore (xs ! k)"
    "taddr (xs ! k) \<noteq> NULL" "obj_of n = tobj (xs ! k)"
proof -
  obtain n where n: "znode h (taddr (xs ! k)) = Some n" "zobj n = Some (tobj (xs ! k))" "zscore n = tscore (xs ! k)"
    using linked_node [OF coreD(1,2) [OF c], of "Suc k"] k by (auto simp: addr_at_simps)
  moreover have "taddr (xs ! k) \<noteq> NULL"
    using addr_at_nonnull [OF coreD(2) [OF c], of "Suc k"] k by (simp add: addr_at_simps)
  ultimately show ?thesis using that by (simp add: obj_of_def)
qed

lemma core_level_0:
  assumes c: "zsl_core (h, zsl) xs" and r: "r \<le> length xs"
  shows "\<exists>l. get_level h (addr_at (header zsl) xs r) 0 = Some l \<and>
    forward l = (if r < length xs then taddr (xs ! r) else NULL)"
proof -
  have "0 < zlevel zsl" using coreD(2) [OF c] by (auto simp: towers_ok_def)
  then have "get_level h (addr_at (header zsl) xs r) 0 = Some (cell (header zsl) xs 0 r)"
    using linkedD(1) [OF coreD(1,2) [OF c] r, of 0] height_bound [OF coreD(2) [OF c], of r] r by (cases "r = 0") auto
  then show ?thesis using cell_0 [OF coreD(2) [OF c] r] by (simp add: addr_at_simps)
qed

lemma cut_at_prefix:
  assumes c: "zsl_core (h, zsl) xs" and q: "on_tower q Q xs" and p: "prefix_test Q xs"
  shows "cut_at (\<lambda>_. q) h (header zsl) xs (length (takeWhile Q xs))"
proof -
  have "q n \<longleftrightarrow> r \<le> length (takeWhile Q xs)"
    if r: "0 < r" "r \<le> length xs" "znode h (addr_at (header zsl) xs r) = Some n" for r n
  proof -
    obtain k where k: "r = Suc k" "k < length xs" using r by (cases r) auto
    obtain n' where "znode h (taddr (xs ! k)) = Some n'" "zobj n' = Some (tobj (xs ! k))" "zscore n' = tscore (xs ! k)"
      using core_node [OF c k(2)] by metis
    then have "q n = Q (xs ! k)" using q r(3) k by (auto simp: on_tower_def addr_at_simps)
    then show ?thesis using p k by (auto simp: prefix_test_def)
  qed
  then show ?thesis by (auto simp: cut_at_def length_takeWhile_le)
qed

section \<open>The first and the last element of a range\<close>

lemma is_in_range_ok:
  assumes c: "zsl_core (h, zsl) xs" and t: "on_tower ge G xs" "on_tower le L xs"
  shows "is_in_range ge le (h, zsl) = Some (xs \<noteq> [] \<and> G (last xs) \<and> L (xs ! 0))"
proof (cases "xs = []")
  case True
  then show ?thesis using coreD(4) [OF c] by (simp add: is_in_range_def)
next
  case False
  then have len: "length xs - 1 < length xs" "0 < length xs" by auto
  obtain n where n: "znode h (taddr (last xs)) = Some n" "ge n = G (last xs)" "taddr (last xs) \<noteq> NULL"
    using core_node [OF c len(1)] t(1) False by (metis last_conv_nth last_in_set on_tower_def)
  obtain n' where n': "znode h (taddr (xs ! 0)) = Some n'" "le n' = L (xs ! 0)" "taddr (xs ! 0) \<noteq> NULL"
    using core_node [OF c len(2)] t(2) by (metis len(2) nth_mem on_tower_def)
  obtain l where "get_level h (header zsl) 0 = Some l" "forward l = taddr (xs ! 0)"
    using core_level_0 [OF c, of 0] len by (auto simp: addr_at_simps)
  then show ?thesis using n n' False coreD(4) [OF c] by (simp add: is_in_range_def)
qed

definition first_addr :: "'s tower list \<Rightarrow> addr" where
  "first_addr xs = (case xs of [] \<Rightarrow> NULL | x # _ \<Rightarrow> taddr x)"

definition last_addr :: "'s tower list \<Rightarrow> addr" where
  "last_addr xs = (if xs = [] then NULL else taddr (last xs))"

text \<open>Where the range starts and ends in the sequence.\<close>

lemma filter_range:
  assumes g: "prefix_test (\<lambda>x. \<not> G x) xs" and l: "prefix_test L xs"
  shows "filter (\<lambda>x. G x \<and> L x) xs =
    drop (length (takeWhile (\<lambda>x. \<not> G x) xs)) (take (length (takeWhile L xs)) xs)"
proof -
  let ?a = "length (takeWhile (\<lambda>x. \<not> G x) xs)" and ?b = "length (takeWhile L xs)"
  have G: "G (xs ! k) \<longleftrightarrow> ?a \<le> k" and L: "L (xs ! k) \<longleftrightarrow> k < ?b" if "k < length xs" for k
    using g l that by (auto simp: prefix_test_def not_less)
  have "filter (\<lambda>x. G x \<and> L x) (take ?b xs) = filter G (take ?b xs)"
    by (rule filter_cong) (auto dest: set_takeWhileD simp: takeWhile_eq_take [symmetric])
  moreover have "filter G (take ?b xs) = drop ?a (take ?b xs)"
  proof -
    have "filter G (take ?a (take ?b xs)) = []"
      using G by (auto simp: filter_empty_conv in_set_conv_nth)
    moreover have "filter G (drop ?a (take ?b xs)) = drop ?a (take ?b xs)"
    proof (cases "?a \<le> length (take ?b xs)")
      case True
      then show ?thesis using G by (auto simp: filter_id_conv in_set_conv_nth)
    next
      case False
      then have "drop ?a (take ?b xs) = []" by (intro drop_all) linarith
      then show ?thesis by (simp only: filter.simps)
    qed
    ultimately show ?thesis by (metis append_take_drop_id filter_append self_append_conv2)
  qed
  moreover have "filter (\<lambda>x. G x \<and> L x) (drop ?b xs) = []"
    using L by (auto simp: filter_empty_conv in_set_conv_nth)
  ultimately show ?thesis by (metis append.right_neutral append_take_drop_id filter_append)
qed

lemma first_in_range_ok:
  assumes c: "zsl_core (h, zsl) xs" and t: "on_tower ge G xs" "on_tower le L xs"
    and p: "prefix_test (\<lambda>x. \<not> G x) xs" "prefix_test L xs" and ne: "xs \<noteq> []" "G (last xs)"
  shows "first_in_range ge le (h, zsl) = Some (first_addr (filter (\<lambda>x. G x \<and> L x) xs))"
proof -
  let ?a = "length (takeWhile (\<lambda>x. \<not> G x) xs)" and ?b = "length (takeWhile L xs)"
  have "on_tower (\<lambda>n. \<not> ge n) (\<lambda>x. \<not> G x) xs" using t(1) by (simp add: on_tower_def)
  from cut_at_prefix [OF c this p(1)]
  have s: "search_end (\<lambda>_ n. \<not> ge n) (h, zsl) = Some (addr_at (header zsl) xs ?a)"
    by (rule search_end_ok [OF coreD(1,2) [OF c]])
  have a: "?a < length xs"
  proof (rule ccontr)
    assume "\<not> ?a < length xs"
    moreover have "0 < length xs" using ne by simp
    ultimately have "length xs - 1 < length xs" "length xs - 1 < ?a" by linarith+
    from this(2) prefix_testD [OF p(1) this(1)] show False using ne by (simp add: last_conv_nth)
  qed
  obtain l where l: "get_level h (addr_at (header zsl) xs ?a) 0 = Some l" "forward l = taddr (xs ! ?a)"
    using core_level_0 [OF c, of ?a] a by auto
  obtain n where n: "znode h (taddr (xs ! ?a)) = Some n" "zobj n = Some (tobj (xs ! ?a))" "zscore n = tscore (xs ! ?a)"
    using core_node [OF c a] by metis
  then have le: "le n = L (xs ! ?a)" using t(2) a by (auto simp: on_tower_def)
  have b: "L (xs ! ?a) \<longleftrightarrow> ?a < ?b" using p(2) a by (simp add: prefix_test_def)
  have "first_addr (filter (\<lambda>x. G x \<and> L x) xs) = (if ?a < ?b then taddr (xs ! ?a) else NULL)"
    unfolding filter_range [OF p] using a
    by (auto simp: first_addr_def drop_take Cons_nth_drop_Suc [symmetric] take_Cons' split: list.splits)
  then show ?thesis using s l n(1) le b by (simp add: first_in_range_def)
qed

lemma last_in_range_ok:
  assumes c: "zsl_core (h, zsl) xs" and t: "on_tower ge G xs" "on_tower le L xs"
    and p: "prefix_test (\<lambda>x. \<not> G x) xs" "prefix_test L xs" and ne: "xs \<noteq> []" "L (xs ! 0)"
  shows "last_in_range ge le (h, zsl) = Some (last_addr (filter (\<lambda>x. G x \<and> L x) xs))"
proof -
  let ?a = "length (takeWhile (\<lambda>x. \<not> G x) xs)" and ?b = "length (takeWhile L xs)"
  have s: "search_end (\<lambda>_. le) (h, zsl) = Some (addr_at (header zsl) xs ?b)"
    by (rule search_end_ok [OF coreD(1,2) [OF c] cut_at_prefix [OF c t(2) p(2)]])
  have "0 < ?b" using ne p(2) by (auto simp: prefix_test_def)
  then obtain k where k: "?b = Suc k" by (cases ?b) auto
  have kl: "k < length xs" using k length_takeWhile_le [of L xs] by simp
  obtain n where n: "znode h (taddr (xs ! k)) = Some n" "zobj n = Some (tobj (xs ! k))" "zscore n = tscore (xs ! k)"
    using core_node [OF c kl] by metis
  then have ge: "ge n = G (xs ! k)" using t(1) kl by (auto simp: on_tower_def)
  have a: "G (xs ! k) \<longleftrightarrow> ?a < ?b" using p(1) kl k by (auto simp: prefix_test_def)
  have "last_addr (filter (\<lambda>x. G x \<and> L x) xs) = (if ?a < ?b then taddr (xs ! k) else NULL)"
    unfolding filter_range [OF p] k using kl by (auto simp: last_addr_def take_Suc_conv_app_nth)
  then show ?thesis using s k n(1) ge a by (simp add: last_in_range_def addr_at_simps)
qed

lemma tless_score: "tless x y \<Longrightarrow> tscore x \<le> tscore y"
  by (auto simp: tless_def before_def)

text \<open>The elements of a range of scores.\<close>

definition score_in :: "('s :: linorder) zrangespec \<Rightarrow> 's tower \<Rightarrow> bool" where
  "score_in rg x \<longleftrightarrow> zslValueGteMin (tscore x) rg \<and> zslValueLteMax (tscore x) rg"

lemma score_tests:
  assumes "sorted_wrt tless xs"
  shows "prefix_test (\<lambda>x. \<not> zslValueGteMin (tscore x) rg) xs" "prefix_test (\<lambda>x. zslValueLteMax (tscore x) rg) xs"
proof -
  have le: "tscore (xs ! i) \<le> tscore (xs ! j)" if "i < j" "j < length xs" for i j
    using assms that tless_score by (auto simp: sorted_wrt_iff_nth_less)
  show "prefix_test (\<lambda>x. \<not> zslValueGteMin (tscore x) rg) xs"
    by (rule prefix_testI) (auto simp: zslValueGteMin_def not_le not_less dest!: le split: if_splits)
  show "prefix_test (\<lambda>x. zslValueLteMax (tscore x) rg) xs"
    by (rule prefix_testI) (auto simp: zslValueLteMax_def dest!: le split: if_splits)
qed

lemma range_by_tests_ok:
  assumes c: "zsl_core (h, zsl) xs" and t: "on_tower ge G xs" "on_tower le L xs"
    and p: "prefix_test (\<lambda>x. \<not> G x) xs" "prefix_test L xs"
  shows "(if xs \<noteq> [] \<and> G (last xs) \<and> L (xs ! 0) then first_in_range ge le (h, zsl) else Some NULL) =
      Some (first_addr (filter (\<lambda>x. G x \<and> L x) xs))"
    and "(if xs \<noteq> [] \<and> G (last xs) \<and> L (xs ! 0) then last_in_range ge le (h, zsl) else Some NULL) =
      Some (last_addr (filter (\<lambda>x. G x \<and> L x) xs))"
proof -
  have "(if xs \<noteq> [] \<and> G (last xs) \<and> L (xs ! 0) then first_in_range ge le (h, zsl) else Some NULL) =
      Some (first_addr (filter (\<lambda>x. G x \<and> L x) xs)) \<and>
    (if xs \<noteq> [] \<and> G (last xs) \<and> L (xs ! 0) then last_in_range ge le (h, zsl) else Some NULL) =
      Some (last_addr (filter (\<lambda>x. G x \<and> L x) xs))"
  proof (cases "xs \<noteq> [] \<and> G (last xs) \<and> L (xs ! 0)")
    case True
    then show ?thesis using first_in_range_ok [OF c t p] last_in_range_ok [OF c t p] by simp
  next
    case False
    have "\<not> (G (xs ! k) \<and> L (xs ! k))" if k: "k < length xs" for k
    proof -
      have "xs \<noteq> []" using k by auto
      then have "G (xs ! k) \<Longrightarrow> G (last xs)"
        using prefix_testD [OF p(1), of "length xs - 1"] prefix_testD [OF p(1) k] k by (auto simp: last_conv_nth)
      moreover have "L (xs ! k) \<Longrightarrow> L (xs ! 0)"
        using prefix_testD [OF p(2) k] prefix_testD [OF p(2), of 0] k by fastforce
      ultimately show ?thesis using False \<open>xs \<noteq> []\<close> by blast
    qed
    then have "filter (\<lambda>x. G x \<and> L x) xs = []" by (auto simp: filter_empty_conv in_set_conv_nth)
    then show ?thesis using False by (auto simp: first_addr_def last_addr_def)
  qed
  then show "(if xs \<noteq> [] \<and> G (last xs) \<and> L (xs ! 0) then first_in_range ge le (h, zsl) else Some NULL) =
      Some (first_addr (filter (\<lambda>x. G x \<and> L x) xs))"
    "(if xs \<noteq> [] \<and> G (last xs) \<and> L (xs ! 0) then last_in_range ge le (h, zsl) else Some NULL) =
      Some (last_addr (filter (\<lambda>x. G x \<and> L x) xs))" by simp_all
qed

lemma range_ends_ok:
  assumes r: "zsl_rep s xs"
  shows "zslFirstInRange rg s = Some (first_addr (filter (score_in rg) xs)) \<and>
    zslLastInRange rg s = Some (last_addr (filter (score_in rg) xs))"
proof -
  obtain h zsl where s: "s = (h, zsl)" by fastforce
  have c: "zsl_core (h, zsl) xs" and so: "sorted_wrt tless xs" using r s by (auto simp: zsl_rep_core)
  have t: "on_tower (\<lambda>n. zslValueGteMin (zscore n) rg) (\<lambda>x. zslValueGteMin (tscore x) rg) xs"
    "on_tower (\<lambda>n. zslValueLteMax (zscore n) rg) (\<lambda>x. zslValueLteMax (tscore x) rg) xs"
    by (simp_all add: on_tower_def)
  note b = is_in_range_ok [OF c t] range_by_tests_ok [OF c t score_tests [OF so]]
  have si: "score_in rg = (\<lambda>x. zslValueGteMin (tscore x) rg \<and> zslValueLteMax (tscore x) rg)"
    by (simp add: score_in_def fun_eq_iff)
  show ?thesis
  proof (cases "zmin rg > zmax rg \<or> zmin rg = zmax rg \<and> (minex rg \<or> maxex rg)")
    case True
    then have "\<not> score_in rg x" for x :: "'a tower"
      by (auto simp: score_in_def zslValueGteMin_def zslValueLteMax_def split: if_splits)
    then have "filter (score_in rg) xs = []" by (simp add: filter_empty_conv)
    then show ?thesis using True s
      by (simp add: zslFirstInRange_def zslLastInRange_def zslIsInRange_def first_addr_def last_addr_def)
  next
    case False
    then show ?thesis using b by (auto simp: s zslFirstInRange_def zslLastInRange_def zslIsInRange_def si)
  qed
qed

section \<open>Ranges of strings\<close>

text \<open>Above the lower end and below the upper end, in the order of bytes.\<close>

fun lex_above :: "lexend \<Rightarrow> bool \<Rightarrow> byte list \<Rightarrow> bool" where
  "lex_above MinString ex v = True"
| "lex_above MaxString ex v = False"
| "lex_above (Str ob) ex v = (bytes_less (getDecodedObject ob) v \<or> \<not> ex \<and> v = getDecodedObject ob)"

fun lex_below :: "lexend \<Rightarrow> bool \<Rightarrow> byte list \<Rightarrow> bool" where
  "lex_below MinString ex v = False"
| "lex_below MaxString ex v = True"
| "lex_below (Str ob) ex v = (bytes_less v (getDecodedObject ob) \<or> \<not> ex \<and> v = getDecodedObject ob)"

definition lex_in :: "zlexrangespec \<Rightarrow> byte list \<Rightarrow> bool" where
  "lex_in rg v \<longleftrightarrow> lex_above (lmin rg) (lminex rg) v \<and> lex_below (lmax rg) (lmaxex rg) v"

definition small_range :: "zlexrangespec \<Rightarrow> bool" where
  "small_range rg \<longleftrightarrow> small_obj (lexend_obj (lmin rg)) \<and> small_obj (lexend_obj (lmax rg))"

lemma lex_tests:
  assumes "small_obj v" "small_range rg"
  shows "zslLexValueGteMin v rg = lex_above (lmin rg) (lminex rg) (getDecodedObject v)"
    and "zslLexValueLteMax v rg = lex_below (lmax rg) (lmaxex rg) (getDecodedObject v)"
proof -
  have "zslLexValueGteMin v rg = lex_above (lmin rg) (lminex rg) (getDecodedObject v)"
  proof (cases "lmin rg")
    case (Str ob)
    then show ?thesis using compareStringObjects_cases [of v ob] assms
      by (auto simp: zslLexValueGteMin_def compareStringObjectsForLexRange_def small_range_def)
  qed (auto simp: zslLexValueGteMin_def compareStringObjectsForLexRange_def)
  moreover have "zslLexValueLteMax v rg = lex_below (lmax rg) (lmaxex rg) (getDecodedObject v)"
  proof (cases "lmax rg")
    case (Str ob)
    then show ?thesis using compareStringObjects_cases [of v ob] assms
      by (auto simp: zslLexValueLteMax_def compareStringObjectsForLexRange_def small_range_def)
  qed (auto simp: zslLexValueLteMax_def compareStringObjectsForLexRange_def)
  ultimately show "zslLexValueGteMin v rg = lex_above (lmin rg) (lminex rg) (getDecodedObject v)"
    "zslLexValueLteMax v rg = lex_below (lmax rg) (lmaxex rg) (getDecodedObject v)" by auto
qed

lemma lex_above_mono: "lex_above l ex v \<Longrightarrow> bytes_less v w \<Longrightarrow> lex_above l ex w"
  by (cases l) (auto intro: bytes_less_trans)

lemma lex_below_mono: "lex_below l ex w \<Longrightarrow> bytes_less v w \<Longrightarrow> lex_below l ex v"
  by (cases l) (auto intro: bytes_less_trans)

text \<open>All elements have one score, as the commands on ranges of strings expect.\<close>

definition one_score :: "'s tower list \<Rightarrow> bool" where
  "one_score xs \<longleftrightarrow> (\<forall>x \<in> set xs. \<forall>y \<in> set xs. tscore x = tscore y)"

lemma lex_prefix_tests:
  assumes "sorted_wrt tless xs" "one_score xs"
  shows "prefix_test (\<lambda>x. \<not> lex_above (lmin rg) (lminex rg) (getDecodedObject (tobj x))) xs"
    "prefix_test (\<lambda>x. lex_below (lmax rg) (lmaxex rg) (getDecodedObject (tobj x))) xs"
proof -
  have le: "bytes_less (getDecodedObject (tobj (xs ! i))) (getDecodedObject (tobj (xs ! j)))"
    if "i < j" "j < length xs" for i j
  proof -
    have "tless (xs ! i) (xs ! j)" "tscore (xs ! i) = tscore (xs ! j)"
      using assms that by (auto simp: sorted_wrt_iff_nth_less one_score_def)
    then show ?thesis by (auto simp: tless_def before_def)
  qed
  show "prefix_test (\<lambda>x. \<not> lex_above (lmin rg) (lminex rg) (getDecodedObject (tobj x))) xs"
    by (rule prefix_testI) (use le lex_above_mono in blast)
  show "prefix_test (\<lambda>x. lex_below (lmax rg) (lmaxex rg) (getDecodedObject (tobj x))) xs"
    by (rule prefix_testI) (use le lex_below_mono in blast)
qed

lemma lex_on_tower:
  assumes "\<forall>x \<in> set xs. small_obj (tobj x)" "small_range rg"
  shows "on_tower (\<lambda>n. zslLexValueGteMin (obj_of n) rg) (\<lambda>x. lex_above (lmin rg) (lminex rg) (getDecodedObject (tobj x))) xs"
    "on_tower (\<lambda>n. zslLexValueLteMax (obj_of n) rg) (\<lambda>x. lex_below (lmax rg) (lmaxex rg) (getDecodedObject (tobj x))) xs"
  using assms by (auto simp: on_tower_def obj_of_def lex_tests)

text \<open>An end that stands for an infinity, and an object with the bytes of its name.\<close>

definition confused :: "zlexrangespec \<Rightarrow> bool" where
  "confused rg \<longleftrightarrow> lmin rg \<noteq> lmax rg \<and> (lmin rg \<in> {MinString, MaxString} \<or> lmax rg \<in> {MinString, MaxString}) \<and>
     getDecodedObject (lexend_obj (lmin rg)) = getDecodedObject (lexend_obj (lmax rg)) \<and> (lminex rg \<or> lmaxex rg)"

lemma lex_empty:
  assumes "small_range rg" "\<not> confused rg"
    and "compareStringObjectsForLexRange (lmin rg) (lmax rg) > 1 \<or>
         compareStringObjects (lexend_obj (lmin rg)) (lexend_obj (lmax rg)) = 0 \<and> (lminex rg \<or> lmaxex rg)"
  shows "\<not> lex_in rg v"
proof
  assume v: "lex_in rg v"
  have cmp: "(compareStringObjects (lexend_obj (lmin rg)) (lexend_obj (lmax rg)) = 0 \<longleftrightarrow>
      getDecodedObject (lexend_obj (lmin rg)) = getDecodedObject (lexend_obj (lmax rg))) \<and>
    (compareStringObjects (lexend_obj (lmin rg)) (lexend_obj (lmax rg)) > 0 \<longleftrightarrow>
      bytes_less (getDecodedObject (lexend_obj (lmax rg))) (getDecodedObject (lexend_obj (lmin rg))))"
    using compareStringObjects_cases assms(1) by (simp add: small_range_def)
  from assms(3) show False
  proof
    assume g: "compareStringObjectsForLexRange (lmin rg) (lmax rg) > 1"
    then obtain a b where ab: "lmin rg = Str a" "lmax rg = Str b"
      by (cases "lmin rg"; cases "lmax rg") (auto simp: compareStringObjectsForLexRange_def)
    then have "bytes_less (getDecodedObject b) (getDecodedObject a)"
      using g cmp by (auto simp: compareStringObjectsForLexRange_def)
    moreover have "bytes_less (getDecodedObject a) v \<or> v = getDecodedObject a"
      "bytes_less v (getDecodedObject b) \<or> v = getDecodedObject b"
      using v by (auto simp: lex_in_def ab)
    ultimately show False using bytes_less_trans bytes_less_irrefl by metis
  next
    assume e: "compareStringObjects (lexend_obj (lmin rg)) (lexend_obj (lmax rg)) = 0 \<and> (lminex rg \<or> lmaxex rg)"
    then have dec: "getDecodedObject (lexend_obj (lmin rg)) = getDecodedObject (lexend_obj (lmax rg))"
      using cmp by simp
    show False
    proof (cases "lmin rg = lmax rg \<or> (\<exists>a b. lmin rg = Str a \<and> lmax rg = Str b)")
      case True
      then show False
      proof
        assume "lmin rg = lmax rg"
        then show False using v e by (cases "lmax rg") (auto simp: lex_in_def dest: bytes_less_asym)
      next
        assume "\<exists>a b. lmin rg = Str a \<and> lmax rg = Str b"
        then show False using v e dec by (elim exE conjE) (auto simp: lex_in_def dest: bytes_less_asym)
      qed
    next
      case False
      then have "lmin rg \<in> {MinString, MaxString} \<or> lmax rg \<in> {MinString, MaxString}"
        by (cases "lmin rg"; cases "lmax rg") auto
      then show False using False dec e assms(2) by (simp add: confused_def)
    qed
  qed
qed

lemma lex_range_ends_ok:
  assumes r: "zsl_rep s xs" and o: "one_score xs" and sr: "small_range rg" and cf: "\<not> confused rg"
  shows "zslFirstInLexRange rg s = Some (first_addr (filter (\<lambda>x. lex_in rg (getDecodedObject (tobj x))) xs)) \<and>
    zslLastInLexRange rg s = Some (last_addr (filter (\<lambda>x. lex_in rg (getDecodedObject (tobj x))) xs))"
proof -
  obtain h zsl where s: "s = (h, zsl)" by fastforce
  have c: "zsl_core (h, zsl) xs" and so: "sorted_wrt tless xs" and sm: "\<forall>x \<in> set xs. small_obj (tobj x)"
    using r s by (auto simp: zsl_rep_core)
  note t = lex_on_tower [OF sm sr]
  note b = is_in_range_ok [OF c t] range_by_tests_ok [OF c t lex_prefix_tests [OF so o]]
  show ?thesis
  proof (cases "compareStringObjectsForLexRange (lmin rg) (lmax rg) > 1 \<or>
         compareStringObjects (lexend_obj (lmin rg)) (lexend_obj (lmax rg)) = 0 \<and> (lminex rg \<or> lmaxex rg)")
    case True
    then have i: "zslIsInLexRange rg s = Some False" by (simp add: zslIsInLexRange_def)
    have "filter (\<lambda>x. lex_in rg (getDecodedObject (tobj x))) xs = []"
      using lex_empty [OF sr cf True] by (simp add: filter_empty_conv)
    then show ?thesis using i by (simp add: zslFirstInLexRange_def zslLastInLexRange_def first_addr_def last_addr_def)
  next
    case False
    then have "zslIsInLexRange rg s =
        is_in_range (\<lambda>n. zslLexValueGteMin (obj_of n) rg) (\<lambda>n. zslLexValueLteMax (obj_of n) rg) s"
      by (subst zslIsInLexRange_def) auto
    then show ?thesis using b by (auto simp: s zslFirstInLexRange_def zslLastInLexRange_def lex_in_def)
  qed
qed

end
