(* ===== verification/Skiplist_Delete.thy ===== *)
theory Skiplist_Delete
  imports Skiplist_Search
begin

text \<open>
  Deletion of ranges from a sorted set: the skiplist and the dictionary beside it, whose values
  point at the nodes. \<open>zset_rep\<close> is the invariant that ties the two.
\<close>

section \<open>Deleting a range\<close>

definition zset_rep ::
    "bool \<Rightarrow> u32 \<Rightarrow> (('s :: linorder) znodes \<times> zskiplist) \<times> (strobj, addr) dict \<Rightarrow> 's tower list \<Rightarrow> bool" where
  "zset_rep be seed sd xs \<longleftrightarrow> zsl_rep (fst sd) xs \<and> dict_ok (zsetDictType be seed) (snd sd) \<and>
     dictSize (snd sd) = length xs \<and> distinct (map (getDecodedObject \<circ> tobj) xs) \<and>
     (\<forall>ob. amap (zsetDictType be seed) (snd sd) ob =
        map_option taddr (find (\<lambda>x. getDecodedObject (tobj x) = getDecodedObject ob) xs))"

lemma zset_compare: "dictCompareKeys (zsetDictType be seed) a b \<longleftrightarrow> getDecodedObject a = getDecodedObject b"
  by (simp add: dictCompareKeys_def zsetDictType_def dictEncObjKeyCompare_eq)

lemma addr_at_append: "r \<le> length ys \<Longrightarrow> addr_at z (ys @ zs) r = addr_at z ys r"
  by (cases r) (auto simp: addr_at_simps nth_append)

lemma height_at_append: "r \<le> length ys \<Longrightarrow> height_at (ys @ zs) r = height_at ys r"
  by (cases r) (auto simp: height_at_simps nth_append)

text \<open>\<open>update\<close> at rank \<open>m\<close>.\<close>

definition updates :: "addr \<Rightarrow> 's tower list \<Rightarrow> nat \<Rightarrow> nat \<Rightarrow> addr list" where
  "updates z xs m L = map (\<lambda>i. addr_at z xs (prv xs i m)) [0..<L]"

lemma updates_append: "updates z (ys @ zs) (length ys) L = updates z (ys @ zs') (length ys) L"
proof -
  have "prv (ys @ zs) i (length ys) = prv (ys @ zs') i (length ys)" for i
    by (rule prv_cong) (simp add: height_at_append)
  moreover have "addr_at z (ys @ zs) r = addr_at z (ys @ zs') r" if "r \<le> length ys" for r
    using that by (simp add: addr_at_append)
  ultimately show ?thesis using prv_le by (metis (no_types, lifting) map_eq_conv updates_def)
qed

lemma take_updates:
  assumes "L' \<le> L" "take L us = updates z xs m L"
  shows "take L' us = updates z xs m L'"
proof -
  have "take L' us = take L' (take L us)" using assms(1) by (simp add: min_absorb1)
  also have "\<dots> = updates z xs m L'"
    unfolding assms(2) updates_def take_map using assms(1) by (simp add: take_upt)
  finally show ?thesis .
qed

definition fields :: "'s zskiplistNode \<Rightarrow> 's tower \<Rightarrow> bool" where
  "fields n x \<longleftrightarrow> zobj n = Some (tobj x) \<and> zscore n = tscore x"

lemma delete_run_ok:
  "zsl_core (h, zsl) (ys @ del @ rest) \<Longrightarrow> dict_ok (zsetDictType be seed) d \<Longrightarrow>
   take (zlevel zsl) us = updates (header zsl) (ys @ del @ rest) (length ys) (zlevel zsl) \<Longrightarrow>
   (\<forall>k < length del. \<forall>n. fields n (del ! k) \<longrightarrow> C (t + k) n) \<Longrightarrow>
   (\<forall>n. rest \<noteq> [] \<longrightarrow> fields n (rest ! 0) \<longrightarrow> \<not> C (t + length del) n) \<Longrightarrow>
   distinct (map (getDecodedObject \<circ> tobj) del) \<Longrightarrow>
   (\<forall>x \<in> set del. amap (zsetDictType be seed) d (tobj x) \<noteq> None) \<Longrightarrow>
   \<exists>s' d'. delete_run (zsetDictType be seed) C us (first_addr (del @ rest)) t removed ((h, zsl), d) =
       Some ((s', d'), removed + length del) \<and>
     zsl_core s' (ys @ rest) \<and> zreleased (snd s') = zreleased zsl @ map tobj del \<and>
     dict_ok (zsetDictType be seed) d' \<and> dictSize d' + length del = dictSize d \<and>
     (\<forall>ob. amap (zsetDictType be seed) d' ob =
        (if \<exists>x \<in> set del. getDecodedObject ob = getDecodedObject (tobj x) then None
         else amap (zsetDictType be seed) d ob))"
proof (induction del arbitrary: h zsl d t removed)
  case Nil
  show ?case
  proof (cases rest)
    case Nil
    then show ?thesis using "local.Nil.prems" by (subst delete_run.simps) (auto simp: first_addr_def)
  next
    case (Cons x zs)
    have len: "length ys < length (ys @ [] @ rest)" using Cons by simp
    obtain n where n: "znode h (taddr x) = Some n" "fields n x" "taddr x \<noteq> NULL"
      using core_node [OF "local.Nil.prems"(1) len] Cons by (auto simp: fields_def)
    then have "\<not> C t n" using "local.Nil.prems"(5) Cons by simp
    then show ?thesis using "local.Nil.prems" n Cons by (subst delete_run.simps) (auto simp: first_addr_def)
  qed
next
  case (Cons x del)
  let ?ty = "zsetDictType be seed" and ?m = "length ys" and ?zs = "ys @ del @ rest"
  have xs: "ys @ (x # del) @ rest = ins ?m x ?zs" by (simp add: ins_def)
  note c = Cons.prems(1)
  have m: "?m \<le> length ?zs" by simp
  obtain n where n: "znode h (taddr x) = Some n" "fields n x" "taddr x \<noteq> NULL" "obj_of n = tobj x"
    using core_node [OF c, of ?m] by (auto simp: fields_def)
  have C: "C t n" using Cons.prems(4) n(2) by force
  have l: "\<exists>l. get_level h (taddr x) 0 = Some l \<and> forward l = first_addr (del @ rest)"
    using core_level_0 [OF c, of "Suc ?m"]
    by (cases "del @ rest") (auto simp: addr_at_simps nth_append nth_Cons' first_addr_def)
  then obtain l where l: "get_level h (taddr x) 0 = Some l" "forward l = first_addr (del @ rest)" by blast
  obtain s1 s2 where s: "zslDeleteNode (taddr x) us (h, zsl) = Some s1" "zslFreeNode (taddr x) s1 = Some s2"
    "zsl_core s2 ?zs" "header (snd s2) = header zsl" "zlevel (snd s2) \<le> zlevel zsl"
    "zreleased (snd s2) = zreleased zsl @ [tobj x]"
    using zslDeleteNode_ok [OF c [unfolded xs] m Cons.prems(3) [unfolded xs updates_def]] by blast
  obtain h2 z2 where s2: "s2 = (h2, z2)" by fastforce
  obtain d1 where d1: "dictDelete ?ty (tobj x) d = Some (d1, amap ?ty d (tobj x) \<noteq> None)" "dict_ok ?ty d1"
    "amap ?ty d1 = upd_class ?ty (tobj x) None (amap ?ty d)" "dictSize d1 + 1 = dictSize d"
    unfolding dictDelete_def
    by (rule zsetdict.dictGenericDelete_ok [OF Cons.prems(2), where nofree = False and key = "tobj x"]) (use Cons.prems(7) in auto)
  have D: "distinct (map (getDecodedObject \<circ> tobj) del)" "\<forall>y \<in> set del. amap ?ty d1 (tobj y) \<noteq> None"
  proof -
    show "distinct (map (getDecodedObject \<circ> tobj) del)" using Cons.prems(6) by (simp add: comp_def)
    show "\<forall>y \<in> set del. amap ?ty d1 (tobj y) \<noteq> None"
      using Cons.prems(6,7) by (auto simp: d1(3) upd_class_def zset_compare image_iff)
  qed
  have us: "take (zlevel z2) us = updates (header z2) ?zs ?m (zlevel z2)"
  proof -
    have "take (zlevel z2) us = updates (header zsl) (ys @ (x # del) @ rest) ?m (zlevel z2)"
      using s(5) s2 by (intro take_updates [OF _ Cons.prems(3)]) simp
    then show ?thesis using s(4) s2 updates_append [of "header zsl" ys "(x # del) @ rest" "zlevel z2" "del @ rest"] by simp
  qed
  have C1: "\<forall>k < length del. \<forall>n. fields n (del ! k) \<longrightarrow> C (t + 1 + k) n"
    using Cons.prems(4) by (metis Suc_less_eq add.assoc length_Cons nth_Cons_Suc plus_1_eq_Suc)
  have C2: "\<forall>n. rest \<noteq> [] \<longrightarrow> fields n (rest ! 0) \<longrightarrow> \<not> C (t + 1 + length del) n"
    using Cons.prems(5) by simp
  obtain s' d' where IH: "delete_run ?ty C us (first_addr (del @ rest)) (t + 1) (removed + 1) ((h2, z2), d1) =
       Some ((s', d'), removed + 1 + length del)" "zsl_core s' (ys @ rest)"
     "zreleased (snd s') = zreleased z2 @ map tobj del" "dict_ok ?ty d'" "dictSize d' + length del = dictSize d1"
     "\<forall>ob. amap ?ty d' ob = (if \<exists>x \<in> set del. getDecodedObject ob = getDecodedObject (tobj x) then None
         else amap ?ty d1 ob)"
    using Cons.IH [OF s(3) [unfolded s2] d1(2) us C1 C2 D, of "removed + 1"] by blast
  have "delete_run ?ty C us (first_addr ((x # del) @ rest)) t removed ((h, zsl), d) =
      delete_run ?ty C us (first_addr (del @ rest)) (t + 1) (removed + 1) ((h2, z2), d1)"
    using n C l s(1,2) s2 d1(1) by (subst delete_run.simps) (simp add: first_addr_def)
  then have "delete_run ?ty C us (first_addr ((x # del) @ rest)) t removed ((h, zsl), d) =
      Some ((s', d'), removed + length (x # del))" using IH(1) by simp
  moreover have "\<forall>ob. amap ?ty d' ob = (if \<exists>x \<in> set (x # del). getDecodedObject ob = getDecodedObject (tobj x) then None
         else amap ?ty d ob)"
    using IH(6) by (auto simp: d1(3) upd_class_def zset_compare)
  ultimately show ?case using IH(2-5) s(6) s2 d1(4) by auto
qed

lemma take_drop_split: "xs = take a xs @ take c (drop a xs) @ drop (a + c) xs"
proof -
  have "drop (a + c) xs = drop c (drop a xs)" by (simp add: add.commute)
  then have "take c (drop a xs) @ drop (a + c) xs = drop a xs" by (simp only: append_take_drop_id)
  then show ?thesis by simp
qed

lemma find_append: "find P (xs @ ys) = (case find P xs of None \<Rightarrow> find P ys | Some x \<Rightarrow> Some x)"
  by (induction xs) auto

lemma find_remove:
  assumes "distinct (map f (ys @ del @ rest))"
  shows "(if \<exists>x \<in> set del. k = f x then None else map_option g (find (\<lambda>x. f x = k) (ys @ del @ rest))) =
    map_option g (find (\<lambda>x. f x = k) (ys @ rest))"
proof (cases "\<exists>x \<in> set del. k = f x")
  case True
  then have "k \<notin> f ` set ys" "k \<notin> f ` set rest" using assms by auto
  then have "find (\<lambda>x. f x = k) (ys @ rest) = None" by (auto simp: find_None_iff)
  then show ?thesis using True by simp
next
  case False
  then have "find (\<lambda>x. f x = k) del = None" by (auto simp: find_None_iff)
  then show ?thesis using False by (simp add: find_append split: option.splits)
qed

lemma delete_from_ok:
  assumes r: "zset_rep be seed ((h, zsl), d) xs" and m: "m + e \<le> length xs"
    and q: "cut_at Q h (header zsl) xs m"
    and C: "\<forall>k < e. \<forall>n. fields n (xs ! (m + k)) \<longrightarrow> C (m + 1 + k) n"
      "\<forall>n. m + e < length xs \<longrightarrow> fields n (xs ! (m + e)) \<longrightarrow> \<not> C (m + 1 + e) n"
  shows "\<exists>s' d'. delete_from (zsetDictType be seed) Q C ((h, zsl), d) = Some ((s', d'), e) \<and>
    zset_rep be seed (s', d') (take m xs @ drop (m + e) xs) \<and>
    zreleased (snd s') = zreleased zsl @ map tobj (take e (drop m xs))"
proof -
  define ys del rest where y: "ys = take m xs" "del = take e (drop m xs)" "rest = drop (m + e) xs"
  have xs: "xs = ys @ del @ rest" unfolding y by (rule take_drop_split)
  have len: "length ys = m" "length del = e" using m by (auto simp: y)
  have nth: "del ! k = xs ! (m + k)" if "k < e" for k using that m by (simp add: y)
  have nth': "rest ! 0 = xs ! (m + e)" using m by (simp add: y)
  have c: "zsl_core (h, zsl) xs" and so: "sorted_wrt tless xs" "\<forall>x \<in> set xs. small_obj (tobj x)"
    and d: "dict_ok (zsetDictType be seed) d" "distinct (map (getDecodedObject \<circ> tobj) xs)" "dictSize d = length xs"
    and am: "\<forall>ob. amap (zsetDictType be seed) d ob =
        map_option taddr (find (\<lambda>x. getDecodedObject (tobj x) = getDecodedObject ob) xs)"
    using r by (auto simp: zset_rep_def zsl_rep_core)
  have L: "0 < zlevel zsl" using coreD(2) [OF c] by (simp add: towers_ok_def)
  have de: "descend Q h (zlevel zsl) (header zsl, 0) =
      Some (map (\<lambda>i. (addr_at (header zsl) xs (prv xs i m), prv xs i m)) [0..<zlevel zsl])"
    using descend_ok [OF coreD(1,2) [OF c] q, of "zlevel zsl" 0] by (simp add: addr_at_simps)
  have m': "m \<le> length xs" using m by simp
  have hd: "map (\<lambda>i. (addr_at (header zsl) xs (prv xs i m), prv xs i m)) [0..<zlevel zsl] =
      (addr_at (header zsl) xs m, m) # map (\<lambda>i. (addr_at (header zsl) xs (prv xs i m), prv xs i m)) [1..<zlevel zsl]"
    using L prv_0 [OF coreD(2) [OF c] m'] by (simp add: upt_conv_Cons)
  obtain l where l: "get_level h (addr_at (header zsl) xs m) 0 = Some l"
    "forward l = (if m < length xs then taddr (xs ! m) else NULL)" using core_level_0 [OF c m'] by blast
  have f: "forward l = first_addr (del @ rest)"
  proof -
    have dr: "del @ rest = drop m xs" by (simp add: y add.commute flip: drop_drop)
    show ?thesis unfolding dr using l(2) by (cases "drop m xs") (auto simp: first_addr_def nth_via_drop)
  qed
  let ?us = "map fst (map (\<lambda>i. (addr_at (header zsl) xs (prv xs i m), prv xs i m)) [0..<zlevel zsl])"
  have us: "take (zlevel zsl) ?us = updates (header zsl) (ys @ del @ rest) (length ys) (zlevel zsl)"
    unfolding xs [symmetric] len by (simp add: updates_def comp_def)
  have D: "distinct (map (getDecodedObject \<circ> tobj) del)" "\<forall>x \<in> set del. amap (zsetDictType be seed) d (tobj x) \<noteq> None"
  proof -
    show "distinct (map (getDecodedObject \<circ> tobj) del)" using d(2) unfolding xs by simp
    show "\<forall>x \<in> set del. amap (zsetDictType be seed) d (tobj x) \<noteq> None"
      using am unfolding xs by (auto simp: find_None_iff)
  qed
  obtain s' d' where run: "delete_run (zsetDictType be seed) C ?us (first_addr (del @ rest)) (m + 1) 0 ((h, zsl), d) =
       Some ((s', d'), 0 + length del)" "zsl_core s' (ys @ rest)" "zreleased (snd s') = zreleased zsl @ map tobj del"
     "dict_ok (zsetDictType be seed) d'" "dictSize d' + length del = dictSize d"
     "\<forall>ob. amap (zsetDictType be seed) d' ob =
        (if \<exists>x \<in> set del. getDecodedObject ob = getDecodedObject (tobj x) then None
         else amap (zsetDictType be seed) d ob)"
    using delete_run_ok [OF c [unfolded xs] d(1) us _ _ D, of C "m + 1" 0] C nth nth' by (auto simp: len y(3))
  have "delete_from (zsetDictType be seed) Q C ((h, zsl), d) = Some ((s', d'), e)"
    unfolding delete_from_def prod.case using de hd l(1) f run(1) len by simp
  moreover have "zset_rep be seed (s', d') (ys @ rest)"
  proof -
    have "sorted_wrt tless (ys @ rest)" "\<forall>x \<in> set (ys @ rest). small_obj (tobj x)"
      "distinct (map (getDecodedObject \<circ> tobj) (ys @ rest))"
      using so d(2) unfolding xs by (auto simp: sorted_wrt_append)
    moreover have "\<forall>ob. amap (zsetDictType be seed) d' ob =
        map_option taddr (find (\<lambda>x. getDecodedObject (tobj x) = getDecodedObject ob) (ys @ rest))"
    proof
      fix ob
      show "amap (zsetDictType be seed) d' ob =
          map_option taddr (find (\<lambda>x. getDecodedObject (tobj x) = getDecodedObject ob) (ys @ rest))"
        using find_remove [of "getDecodedObject \<circ> tobj" ys del rest "getDecodedObject ob" taddr]
          d(2) spec [OF run(6), of ob] spec [OF am, of ob] unfolding xs [symmetric] comp_def by (simp only:)
    qed
    moreover have "dictSize d' = length (ys @ rest)" using run(5) d(3) unfolding xs by simp
    ultimately show ?thesis using run(2,4) by (simp add: zset_rep_def zsl_rep_core)
  qed
  ultimately show ?thesis using run(3) by (auto simp: y)
qed

text \<open>A range between two tests that cut the sequence.\<close>

lemma delete_tests_ok:
  assumes r: "zset_rep be seed ((h, zsl), d) xs"
    and t: "on_tower ge G xs" "on_tower le L xs" and p: "prefix_test (\<lambda>x. \<not> G x) xs" "prefix_test L xs"
  shows "\<exists>s' d'. delete_from (zsetDictType be seed) (\<lambda>_ n. \<not> ge n) (\<lambda>_. le) ((h, zsl), d) =
      Some ((s', d'), length (filter (\<lambda>x. G x \<and> L x) xs)) \<and>
    zset_rep be seed (s', d') (filter (\<lambda>x. \<not> (G x \<and> L x)) xs) \<and>
    zreleased (snd s') = zreleased zsl @ map tobj (filter (\<lambda>x. G x \<and> L x) xs)"
proof -
  let ?a = "length (takeWhile (\<lambda>x. \<not> G x) xs)" and ?b = "length (takeWhile L xs)"
  have c: "zsl_core (h, zsl) xs" using r by (auto simp: zset_rep_def zsl_rep_core)
  have q: "cut_at (\<lambda>_ n. \<not> ge n) h (header zsl) xs ?a"
    by (rule cut_at_prefix [OF c _ p(1)]) (use t(1) in \<open>simp add: on_tower_def\<close>)
  have ab: "?a \<le> length xs" "?b \<le> length xs" by (simp_all add: length_takeWhile_le)
  then have m: "?a + (?b - ?a) \<le> length xs" by simp
  have le: "le n = (?a + k < ?b)" if "fields n (xs ! (?a + k))" "?a + k < length xs" for n k
  proof -
    have "le n = L (xs ! (?a + k))" using t(2) that nth_mem [OF that(2)] by (simp add: on_tower_def fields_def)
    then show ?thesis using prefix_testD [OF p(2) that(2)] by simp
  qed
  have C: "\<forall>k < ?b - ?a. \<forall>n. fields n (xs ! (?a + k)) \<longrightarrow> le n"
    "\<forall>n. ?a + (?b - ?a) < length xs \<longrightarrow> fields n (xs ! (?a + (?b - ?a))) \<longrightarrow> \<not> le n"
    using le m by auto
  have f: "filter (\<lambda>x. G x \<and> L x) xs = take (?b - ?a) (drop ?a xs)"
    using filter_range [OF p] by (simp add: drop_take)
  have g: "filter (\<lambda>x. \<not> (G x \<and> L x)) xs = take ?a xs @ drop (?a + (?b - ?a)) xs"
  proof -
    let ?P = "\<lambda>x. \<not> (G x \<and> L x)"
    have GL: "?P (xs ! k)" if "k < length xs" "k < ?a \<or> ?b \<le> k" for k
      using prefix_testD [OF p(1) that(1)] prefix_testD [OF p(2) that(1)] that(2) by auto
    have "filter ?P xs = filter ?P (take ?a xs @ take (?b - ?a) (drop ?a xs) @ drop (?a + (?b - ?a)) xs)"
      by (rule arg_cong [OF take_drop_split])
    moreover have "filter ?P (take ?a xs) = take ?a xs"
    proof -
      have "?P (take ?a xs ! k)" if "k < length (take ?a xs)" for k
        using GL [of k] that ab(1) by simp
      then show ?thesis unfolding filter_id_conv by (metis in_set_conv_nth)
    qed
    moreover have "filter ?P (take (?b - ?a) (drop ?a xs)) = []" by (simp flip: f add: filter_empty_conv)
    moreover have "filter ?P (drop (?a + (?b - ?a)) xs) = drop (?a + (?b - ?a)) xs"
    proof -
      have "?P (xs ! (?a + (?b - ?a) + k))" if "?a + (?b - ?a) + k < length xs" for k by (rule GL [OF that]) auto
      then show ?thesis using m by (auto simp: filter_id_conv in_set_conv_nth)
    qed
    ultimately show ?thesis by (simp only: filter_append append_Nil)
  qed
  have n: "length (take (?b - ?a) (drop ?a xs)) = ?b - ?a" using ab by simp
  show ?thesis unfolding f g n by (rule delete_from_ok [where C = "\<lambda>_. le", OF r m q C])
qed

lemma zslDeleteRangeByScore_ok:
  assumes "zset_rep be seed sd xs"
  shows "\<exists>s' d'. zslDeleteRangeByScore (zsetDictType be seed) rg sd =
      Some ((s', d'), length (filter (score_in rg) xs)) \<and>
    zset_rep be seed (s', d') (filter (\<lambda>x. \<not> score_in rg x) xs) \<and>
    zreleased (snd s') = zreleased (snd (fst sd)) @ map tobj (filter (score_in rg) xs)"
proof -
  obtain h zsl d where sd: "sd = ((h, zsl), d)" by (metis prod.collapse)
  have so: "sorted_wrt tless xs" using assms by (auto simp: zset_rep_def zsl_rep_core)
  have Q: "(\<lambda>_ n. if minex rg then zscore n \<le> zmin rg else zscore n < zmin rg) =
      (\<lambda>_ n. \<not> zslValueGteMin (zscore n) rg)" by (auto simp: zslValueGteMin_def fun_eq_iff)
  have C: "(\<lambda>_ n. if maxex rg then zscore n < zmax rg else zscore n \<le> zmax rg) =
      (\<lambda>_ n. zslValueLteMax (zscore n) rg)" by (auto simp: zslValueLteMax_def fun_eq_iff)
  have t: "on_tower (\<lambda>n. zslValueGteMin (zscore n) rg) (\<lambda>x. zslValueGteMin (tscore x) rg) xs"
    "on_tower (\<lambda>n. zslValueLteMax (zscore n) rg) (\<lambda>x. zslValueLteMax (tscore x) rg) xs"
    by (simp_all add: on_tower_def)
  show ?thesis
    using delete_tests_ok [OF assms [unfolded sd] t score_tests [OF so]]
    by (simp add: sd zslDeleteRangeByScore_def Q C score_in_def [abs_def])
qed

lemma zslDeleteRangeByLex_ok:
  assumes r: "zset_rep be seed sd xs" and o: "one_score xs" and sr: "small_range rg"
  shows "\<exists>s' d'. zslDeleteRangeByLex (zsetDictType be seed) rg sd =
      Some ((s', d'), length (filter (\<lambda>x. lex_in rg (getDecodedObject (tobj x))) xs)) \<and>
    zset_rep be seed (s', d') (filter (\<lambda>x. \<not> lex_in rg (getDecodedObject (tobj x))) xs)"
proof -
  obtain h zsl d where sd: "sd = ((h, zsl), d)" by (metis prod.collapse)
  have so: "sorted_wrt tless xs" and sm: "\<forall>x \<in> set xs. small_obj (tobj x)"
    using r by (auto simp: zset_rep_def zsl_rep_core)
  show ?thesis
    using delete_tests_ok [OF r [unfolded sd] lex_on_tower [OF sm sr] lex_prefix_tests [OF so o]]
    unfolding sd zslDeleteRangeByLex_def lex_in_def by blast
qed

lemma zslDeleteRangeByRank_ok:
  assumes r: "zset_rep be seed sd xs" and b: "1 \<le> a" "a \<le> e" "a \<le> length xs"
  shows "\<exists>s' d'. zslDeleteRangeByRank (zsetDictType be seed) a e sd =
      Some ((s', d'), min e (length xs) - (a - 1)) \<and>
    zset_rep be seed (s', d') (take (a - 1) xs @ drop e xs)"
proof -
  obtain h zsl d where sd: "sd = ((h, zsl), d)" by (metis prod.collapse)
  let ?e = "min e (length xs) - (a - 1)"
  have m: "a - 1 + ?e = min e (length xs)" using b by simp
  have q: "cut_at (\<lambda>rank _. rank < a) h (header zsl) xs (a - 1)" using b by (auto simp: cut_at_def)
  have C: "\<forall>k < ?e. \<forall>n. fields n (xs ! (a - 1 + k)) \<longrightarrow> a - 1 + 1 + k \<le> e"
    "\<forall>n. a - 1 + ?e < length xs \<longrightarrow> fields n (xs ! (a - 1 + ?e)) \<longrightarrow> \<not> a - 1 + 1 + ?e \<le> e"
    using b m by auto
  have "drop (min e (length xs)) xs = drop e xs" by (simp add: min_def)
  then show ?thesis
    using delete_from_ok [OF r [unfolded sd], of "a - 1" ?e, OF _ q, of "\<lambda>traversed _. traversed \<le> e"] C m
    unfolding sd zslDeleteRangeByRank_def by auto
qed

end
