(* ===== verification/Skiplist_Rank.thy ===== *)
theory Skiplist_Rank
  imports Skiplist_Search
begin

text \<open>
  Ranks of elements and elements of ranks, creation and release of a skiplist, random levels.
\<close>

section \<open>Ranks\<close>

lemma header_node:
  assumes "linked z L h xs" "towers_ok z L xs"
  shows "\<exists>n. znode h z = Some n \<and> zobj n = None"
proof -
  obtain sc where "base h z = Some (None, sc, NULL, ZSKIPLIST_MAXLEVEL)" using assms(1) by (auto simp: linked_def)
  moreover have "z \<noteq> NULL" using assms(2) by (simp add: towers_ok_def)
  ultimately show ?thesis by (metis base_SomeE)
qed

lemma rank_loop_ok:
  assumes l: "linked z L h xs" and t: "towers_ok z L xs"
    and q: "cut_at (\<lambda>_ n. zscore n < score \<or> zscore n = score \<and> compareStringObjects (obj_of n) ob \<le> 0) h z xs m"
    and e: "\<forall>r n. 0 < r \<longrightarrow> r \<le> m \<longrightarrow> znode h (addr_at z xs r) = Some n \<longrightarrow>
        (equalStringObjects (obj_of n) ob \<longleftrightarrow> r = m \<and> hit)"
  shows "0 < k \<Longrightarrow> k \<le> L \<Longrightarrow> r \<le> m \<Longrightarrow> r = 0 \<or> k \<le> height_at xs r \<Longrightarrow>
    rank_loop score ob h k (addr_at z xs r, r) = Some (if hit then m else 0)"
proof (induction k arbitrary: r)
  case 0
  then show ?case by simp
next
  case (Suc k)
  let ?p = "prv xs k m"
  have w: "zsl_walk (\<lambda>_ n. zscore n < score \<or> zscore n = score \<and> compareStringObjects (obj_of n) ob \<le> 0) h k
      (addr_at z xs r) r = Some (addr_at z xs ?p, ?p)"
    using zsl_walk_ok [OF l t q, of k r] Suc.prems by auto
  have m: "m \<le> length xs" using q by (simp add: cut_at_def)
  have p: "?p \<le> m" by (rule prv_le)
  have n: "\<exists>n. znode h (addr_at z xs ?p) = Some n \<and>
      (zobj n \<noteq> None \<and> equalStringObjects (obj_of n) ob \<longleftrightarrow> 0 < ?p \<and> ?p = m \<and> hit)"
  proof (cases "?p = 0")
    case True
    then show ?thesis using header_node [OF l t] by (auto simp: addr_at_simps)
  next
    case False
    then obtain n where n: "znode h (addr_at z xs ?p) = Some n" "zobj n \<noteq> None"
      using linked_node [OF l t, of ?p] p m by auto
    then have "equalStringObjects (obj_of n) ob \<longleftrightarrow> ?p = m \<and> hit" using e p False by auto
    then show ?thesis using n False by auto
  qed
  show ?case
  proof (cases "0 < ?p \<and> ?p = m \<and> hit")
    case True
    then show ?thesis using w n by auto
  next
    case False
    then have s: "rank_loop score ob h (Suc k) (addr_at z xs r, r) = rank_loop score ob h k (addr_at z xs ?p, ?p)"
      using w n by auto
    show ?thesis
    proof (cases "k = 0")
      case True
      then have "?p = m" using prv_0 [OF t m] by simp
      then show ?thesis using s False True by auto
    next
      case k: False
      have "?p = 0 \<or> k \<le> height_at xs ?p" using prv_live [of xs k m] by auto
      then show ?thesis using Suc.IH [of ?p] Suc.prems(2) p k s by simp
    qed
  qed
qed

definition upto :: "('s :: linorder) \<Rightarrow> strobj \<Rightarrow> 's tower \<Rightarrow> bool" where
  "upto s ob x \<longleftrightarrow> before s ob x \<or> same_key s ob x"

lemma upto_prefix:
  assumes "sorted_wrt tless xs"
  shows "prefix_test (upto s ob) xs"
proof (rule prefix_testI)
  fix i j assume "i < j" "j < length xs" "upto s ob (xs ! j)"
  moreover from this have "tless (xs ! i) (xs ! j)" using assms by (auto simp: sorted_wrt_iff_nth_less)
  ultimately show "upto s ob (xs ! i)"
    using bytes_less_trans [of "getDecodedObject (tobj (xs ! i))" "getDecodedObject (tobj (xs ! j))" "getDecodedObject ob"]
    by (auto simp: upto_def before_def same_key_def tless_def)
qed

lemma upto_on_tower:
  assumes "\<forall>x \<in> set xs. small_obj (tobj x)" "small_obj ob"
  shows "on_tower (\<lambda>n. zscore n < s \<or> zscore n = s \<and> compareStringObjects (obj_of n) ob \<le> 0) (upto s ob) xs"
  unfolding on_tower_def
proof (intro ballI allI impI)
  fix x :: "'a tower" and n :: "'a zskiplistNode" assume x: "x \<in> set xs" "zobj n = Some (tobj x)" "zscore n = tscore x"
  have "compareStringObjects (tobj x) ob \<le> 0 \<longleftrightarrow> \<not> bytes_less (getDecodedObject ob) (getDecodedObject (tobj x))"
    using compareStringObjects_cases [of "tobj x" ob] assms x(1) by (simp add: not_less [symmetric])
  also have "\<dots> \<longleftrightarrow> bytes_less (getDecodedObject (tobj x)) (getDecodedObject ob) \<or> getDecodedObject (tobj x) = getDecodedObject ob"
    using bytes_less_linear bytes_less_asym bytes_less_irrefl by metis
  finally show "(zscore n < s \<or> zscore n = s \<and> compareStringObjects (obj_of n) ob \<le> 0) = upto s ob x"
    using x by (auto simp: obj_of_def upto_def before_def same_key_def)
qed

lemma zslGetRank_ok:
  assumes r: "zsl_rep s xs" and d: "distinct (map (getDecodedObject \<circ> tobj) xs)" and ob: "small_obj ob"
    and sc: "\<forall>x \<in> set xs. getDecodedObject (tobj x) = getDecodedObject ob \<longrightarrow> tscore x = score"
  shows "zslGetRank score ob s = Some (if \<exists>x \<in> set xs. getDecodedObject (tobj x) = getDecodedObject ob
    then length (takeWhile (\<lambda>x. getDecodedObject (tobj x) \<noteq> getDecodedObject ob) xs) + 1 else 0)"
proof -
  obtain h zsl where s: "s = (h, zsl)" by fastforce
  have c: "zsl_core (h, zsl) xs" and so: "sorted_wrt tless xs" "\<forall>x \<in> set xs. small_obj (tobj x)"
    using r s by (auto simp: zsl_rep_core)
  let ?m = "length (takeWhile (upto score ob) xs)" and ?dec = "\<lambda>x. getDecodedObject (tobj x)"
  let ?hit = "\<exists>x \<in> set xs. ?dec x = getDecodedObject ob"
  note pre = upto_prefix [OF so(1), of score ob]
  note q = cut_at_prefix [OF c upto_on_tower [OF so(2) ob] pre]
  have L: "0 < zlevel zsl" using coreD(2) [OF c] by (simp add: towers_ok_def)
  have k: "k + 1 = ?m" if k: "k < length xs" "?dec (xs ! k) = getDecodedObject ob" for k
  proof -
    have "upto score ob (xs ! k)" using sc k by (auto simp: upto_def same_key_def)
    then have "k < ?m" using prefix_testD [OF pre k(1)] by simp
    moreover have "\<not> k + 1 < ?m"
    proof
      assume a: "k + 1 < ?m"
      then have b: "k + 1 < length xs" using length_takeWhile_le [of "upto score ob" xs] by linarith
      then have "tless (xs ! k) (xs ! (k + 1))" using so(1) by (auto simp: sorted_wrt_iff_nth_less)
      moreover have "upto score ob (xs ! (k + 1))" using prefix_testD [OF pre b] a by simp
      moreover have "tscore (xs ! k) = score" using sc k by auto
      ultimately have "tscore (xs ! (k + 1)) = score" "bytes_less (getDecodedObject ob) (?dec (xs ! (k + 1)))"
        "?dec (xs ! (k + 1)) = getDecodedObject ob \<or> bytes_less (?dec (xs ! (k + 1))) (getDecodedObject ob)"
        using k(2) by (auto simp: upto_def before_def same_key_def tless_def)
      then show False using bytes_less_asym [of "getDecodedObject ob" "?dec (xs ! (k + 1))"] by auto
    qed
    ultimately show ?thesis by simp
  qed
  have e: "\<forall>r n. 0 < r \<longrightarrow> r \<le> ?m \<longrightarrow> znode h (addr_at (header zsl) xs r) = Some n \<longrightarrow>
        (equalStringObjects (obj_of n) ob \<longleftrightarrow> r = ?m \<and> ?hit)"
  proof (intro allI impI)
    fix r n assume r: "0 < r" "r \<le> ?m" "znode h (addr_at (header zsl) xs r) = Some n"
    obtain j where j: "r = Suc j" "j < length xs"
      using r(1,2) length_takeWhile_le [of "upto score ob" xs] by (cases r) auto
    obtain n' where "znode h (taddr (xs ! j)) = Some n'" "obj_of n' = tobj (xs ! j)" using core_node [OF c j(2)] by metis
    then have on: "obj_of n = tobj (xs ! j)" using r(3) j by (simp add: addr_at_simps)
    have "equalStringObjects (obj_of n) ob \<longleftrightarrow> ?dec (xs ! j) = getDecodedObject ob"
      unfolding on by (rule equalStringObjects_eq) (use so(2) j ob in auto)
    also have "\<dots> \<longleftrightarrow> r = ?m \<and> ?hit"
    proof
      assume "?dec (xs ! j) = getDecodedObject ob"
      then show "r = ?m \<and> ?hit" using k [of j] j by auto
    next
      assume h: "r = ?m \<and> ?hit"
      then obtain i where i: "i < length xs" "?dec (xs ! i) = getDecodedObject ob" by (auto simp: in_set_conv_nth)
      then have "i = j" using k [of i] h j by simp
      then show "?dec (xs ! j) = getDecodedObject ob" using i by simp
    qed
    finally show "equalStringObjects (obj_of n) ob \<longleftrightarrow> r = ?m \<and> ?hit" .
  qed
  have g: "zslGetRank score ob s = Some (if ?hit then ?m else 0)"
    using rank_loop_ok [OF coreD(1,2) [OF c] q e, of "zlevel zsl" 0] L by (simp add: zslGetRank_def s addr_at_simps)
  have "?m = length (takeWhile (\<lambda>x. ?dec x \<noteq> getDecodedObject ob) xs) + 1" if ?hit
  proof -
    let ?j = "length (takeWhile (\<lambda>x. ?dec x \<noteq> getDecodedObject ob) xs)"
    have j: "?j < length xs" using that
      by (metis (mono_tags, lifting) length_takeWhile_le nat_less_le takeWhile_eq_all_conv takeWhile_eq_take take_all_iff)
    then have "?dec (xs ! ?j) = getDecodedObject ob" using nth_length_takeWhile [of "\<lambda>x. ?dec x \<noteq> getDecodedObject ob" xs] by simp
    then show ?thesis using k [of ?j] j by simp
  qed
  then show ?thesis using g by simp
qed

lemma by_rank_loop_ok:
  assumes l: "linked z L h xs" and t: "towers_ok z L xs" and rk: "0 < rank"
  shows "k \<le> L \<Longrightarrow> r \<le> min rank (length xs) \<Longrightarrow> r = 0 \<or> k \<le> height_at xs r \<Longrightarrow>
    by_rank_loop rank h k (addr_at z xs r, r) =
      Some (if 0 < k \<and> rank \<le> length xs then addr_at z xs rank else NULL)"
proof (induction k arbitrary: r)
  case 0
  then show ?case by simp
next
  case (Suc k)
  let ?m = "min rank (length xs)"
  let ?p = "prv xs k ?m"
  have q: "cut_at (\<lambda>r _. r \<le> rank) h z xs ?m" by (auto simp: cut_at_def)
  have w: "zsl_walk (\<lambda>r _. r \<le> rank) h k (addr_at z xs r) r = Some (addr_at z xs ?p, ?p)"
    using zsl_walk_ok [OF l t q, of k r] Suc.prems by auto
  have p: "?p \<le> ?m" by (rule prv_le)
  show ?case
  proof (cases "?p = rank")
    case True
    then show ?thesis using w p by simp
  next
    case False
    have s: "by_rank_loop rank h (Suc k) (addr_at z xs r, r) = by_rank_loop rank h k (addr_at z xs ?p, ?p)"
      using w False by simp
    show ?thesis
    proof (cases "k = 0")
      case True
      then have "?p = ?m" using prv_0 [OF t, of ?m] by simp
      then have "\<not> rank \<le> length xs" using False by auto
      then show ?thesis using s True by simp
    next
      case k: False
      have "?p = 0 \<or> k \<le> height_at xs ?p" using prv_live [of xs k ?m] by auto
      then show ?thesis using Suc.IH [of ?p] Suc.prems(1) p k s by simp
    qed
  qed
qed

lemma zslGetElementByRank_ok:
  assumes r: "zsl_rep s xs" and "0 < rank"
  shows "zslGetElementByRank rank s = Some (if rank \<le> length xs then taddr (xs ! (rank - 1)) else NULL)"
proof -
  obtain h zsl where s: "s = (h, zsl)" by fastforce
  have c: "zsl_core (h, zsl) xs" using r s by (auto simp: zsl_rep_core)
  have "0 < zlevel zsl" using coreD(2) [OF c] by (simp add: towers_ok_def)
  moreover have "addr_at (header zsl) xs rank = taddr (xs ! (rank - 1))"
    using assms(2) by (cases rank) (auto simp: addr_at_simps)
  ultimately show ?thesis
    using by_rank_loop_ok [OF coreD(1,2) [OF c] assms(2), of "zlevel zsl" 0]
    by (simp add: zslGetElementByRank_def s addr_at_simps)
qed

section \<open>Creation and release\<close>

lemma clear_levels_ok:
  "\<forall>j \<in> set js. \<exists>l. get_level h a j = Some l \<Longrightarrow>
   \<exists>h'. clear_levels a js h = Some h' \<and> base h' = base h \<and>
     (\<forall>b j. get_level h' b j = (if b = a \<and> j \<in> set js then Some \<lparr>forward = NULL, span = 0\<rparr> else get_level h b j))"
proof (induction js arbitrary: h)
  case Nil
  then show ?case by simp
next
  case (Cons j js)
  then obtain l where l: "get_level h a j = Some l" by auto
  obtain h1 where h1: "set_forward a j NULL h = Some h1" "base h1 = base h"
    "get_level h1 = (get_level h)(a := (get_level h a)(j := Some (l\<lparr>forward := NULL\<rparr>)))"
    using set_forward_ok [OF l] by blast
  have "get_level h1 a j = Some (l\<lparr>forward := NULL\<rparr>)" using h1(3) by simp
  then obtain h2 where h2: "set_span a j 0 h1 = Some h2" "base h2 = base h1"
    "get_level h2 = (get_level h1)(a := (get_level h1 a)(j := Some (l\<lparr>forward := NULL, span := 0\<rparr>)))"
    using set_span_ok by fastforce
  have "\<forall>j \<in> set js. \<exists>l. get_level h2 a j = Some l" using Cons.prems by (auto simp: h1(3) h2(3))
  then obtain h3 where h3: "clear_levels a js h2 = Some h3" "base h3 = base h2"
    "\<forall>b i. get_level h3 b i = (if b = a \<and> i \<in> set js then Some \<lparr>forward = NULL, span = 0\<rparr> else get_level h2 b i)"
    using Cons.IH by blast
  have "get_level h3 b i = (if b = a \<and> i \<in> set (j # js) then Some \<lparr>forward = NULL, span = 0\<rparr> else get_level h b i)" for b i
    using h3(3) by (auto simp: h1(3) h2(3) zskiplistLevel.defs)
  then show ?case using h1(1,2) h2(1,2) h3(1,2) by auto
qed

lemma zslCreate_ok:
  assumes "a \<noteq> NULL"
  shows "\<exists>h' zsl. zslCreate junk a h = Some (h', zsl) \<and> zsl_rep (h', zsl) [] \<and> header zsl = a \<and> zreleased zsl = [] \<and>
    (\<forall>b. b \<noteq> a \<longrightarrow> base h' b = base h b \<and> get_level h' b = get_level h b)"
proof -
  let ?h0 = "h(a \<mapsto> zslCreateNode junk ZSKIPLIST_MAXLEVEL 0 None)"
  note n = new_node_ok [OF assms refl, of h junk ZSKIPLIST_MAXLEVEL 0 None]
  obtain h1 where h1: "clear_levels a [0..<ZSKIPLIST_MAXLEVEL] ?h0 = Some h1" "base h1 = base ?h0"
    "\<forall>b j. get_level h1 b j = (if b = a \<and> j < ZSKIPLIST_MAXLEVEL then Some \<lparr>forward = NULL, span = 0\<rparr> else get_level ?h0 b j)"
    using clear_levels_ok [of "[0..<ZSKIPLIST_MAXLEVEL]" ?h0 a] by (auto simp: n(2))
  have b1: "base h1 a = Some (None, 0, fst junk, ZSKIPLIST_MAXLEVEL)" using h1(2) n(1) by simp
  obtain h2 where h2: "set_backward a NULL h1 = Some h2" "base h2 = (base h1)(a := Some (None, 0, NULL, ZSKIPLIST_MAXLEVEL))"
    "get_level h2 = get_level h1" using set_backward_ok [OF b1 assms] by blast
  let ?zsl = "\<lparr>header = a, ztail = NULL, zlength = 0, zlevel = 1, zreleased = []\<rparr>"
  have "zslCreate junk a h = Some (h2, ?zsl)" using h1(1) h2(1) by (simp add: zslCreate_def)
  moreover have "zsl_rep (h2, ?zsl) []"
    using h1(3) h2(2,3) assms
    by (auto simp: zsl_rep_def linked_def towers_ok_def cell_def nxt_def addr_at_simps ZSKIPLIST_MAXLEVEL_def)
  moreover have "base h2 b = base h b \<and> get_level h2 b = get_level h b" if "b \<noteq> a" for b
    using that h2(2,3) h1(2,3) n by (auto simp: fun_eq_iff)
  ultimately show ?thesis by auto
qed

lemma znode_restrict: "znode (h |` A) a = (if a \<in> A then znode h a else None)"
  by (simp add: znode_def)

lemma free_nodes_ok:
  assumes c: "zsl_core (h, zsl) xs"
  shows "k \<le> length xs \<Longrightarrow> free_nodes (if k < length xs then taddr (xs ! k) else NULL)
      (h |` (- (insert (header zsl) (taddr ` set (take k xs)))), w) =
    Some (h |` (- (insert (header zsl) (taddr ` set xs))), w\<lparr>zreleased := zreleased w @ map tobj (drop k xs)\<rparr>)"
proof (induction "length xs - k" arbitrary: k w)
  case 0
  then show ?case by (subst free_nodes.simps) simp
next
  case (Suc n)
  then have k: "k < length xs" by simp
  let ?A = "- (insert (header zsl) (taddr ` set (take k xs)))" and ?a = "taddr (xs ! k)"
  obtain x where x: "znode h ?a = Some x" "zobj x = Some (tobj (xs ! k))" "?a \<noteq> NULL"
    using core_node [OF c k] by metis
  have "distinct (header zsl # map taddr xs)" using coreD(2) [OF c] by (simp add: towers_ok_def)
  then have "distinct (header zsl # map taddr (take k xs) @ map taddr (drop k xs))"
    by (simp only: map_append [symmetric] append_take_drop_id)
  moreover have "drop k xs = xs ! k # drop (Suc k) xs" using k by (simp add: Cons_nth_drop_Suc)
  ultimately have a: "?a \<in> ?A" by auto
  obtain l where l: "get_level h ?a 0 = Some l" "forward l = (if Suc k < length xs then taddr (xs ! Suc k) else NULL)"
    using core_level_0 [OF c, of "Suc k"] k by (auto simp: addr_at_simps)
  have l': "get_level (h |` ?A) ?a 0 = Some l" using l(1) a by (simp add: get_level_def znode_restrict)
  have f: "zslFreeNode ?a (h |` ?A, w) =
      Some (h |` (- (insert (header zsl) (taddr ` set (take (Suc k) xs)))), w\<lparr>zreleased := zreleased w @ [tobj (xs ! k)]\<rparr>)"
  proof -
    have "(h |` ?A)(?a := None) = h |` (- (insert (header zsl) (taddr ` set (take (Suc k) xs))))"
      using k by (auto simp: restrict_map_def fun_eq_iff take_Suc_conv_app_nth)
    then show ?thesis using x a by (simp add: zslFreeNode_def znode_restrict)
  qed
  have "free_nodes ?a (h |` ?A, w) = free_nodes (if Suc k < length xs then taddr (xs ! Suc k) else NULL)
      (h |` (- (insert (header zsl) (taddr ` set (take (Suc k) xs)))), w\<lparr>zreleased := zreleased w @ [tobj (xs ! k)]\<rparr>)"
    using x(3) l' l(2) f by (subst free_nodes.simps) simp
  also have "\<dots> = Some (h |` (- (insert (header zsl) (taddr ` set xs))), w\<lparr>zreleased := zreleased w @ map tobj (drop k xs)\<rparr>)"
    using Suc.hyps(1) [of "Suc k" "w\<lparr>zreleased := zreleased w @ [tobj (xs ! k)]\<rparr>"] Suc.hyps(2) k
    by (simp add: Cons_nth_drop_Suc [symmetric])
  finally show ?case using k by simp
qed

lemma zslFree_ok:
  assumes r: "zsl_rep (h, zsl) xs"
  shows "zslFree (h, zsl) = Some (h |` (- (insert (header zsl) (taddr ` set xs))), zreleased zsl @ map tobj xs)"
proof -
  have c: "zsl_core (h, zsl) xs" using r by (auto simp: zsl_rep_core)
  obtain l where l: "get_level h (header zsl) 0 = Some l" "forward l = (if 0 < length xs then taddr (xs ! 0) else NULL)"
    using core_level_0 [OF c, of 0] by (auto simp: addr_at_simps)
  have "h(header zsl := None) = h |` (- (insert (header zsl) (taddr ` set (take 0 xs))))"
    by (auto simp: restrict_map_def fun_eq_iff)
  then show ?thesis using l free_nodes_ok [OF c, of 0 zsl] by (simp add: zslFree_def)
qed

section \<open>Random levels\<close>

lemma random_level_loop_ok:
  "\<forall>i < j. (r (k + i) AND 0xFFFF) < 16384 \<Longrightarrow> \<not> (r (k + j) AND 0xFFFF) < 16384 \<Longrightarrow>
   random_level_loop r k lvl = Some (lvl + j)"
proof (induction j arbitrary: k lvl)
  case 0
  then show ?case by (subst random_level_loop.simps) simp
next
  case (Suc j)
  have "(r k AND 0xFFFF) < 16384" using Suc.prems(1) by (metis add_0_right zero_less_Suc)
  moreover have "random_level_loop r (k + 1) (lvl + 1) = Some (lvl + 1 + j)"
    using Suc.prems by (intro Suc.IH) auto
  ultimately show ?case by (subst random_level_loop.simps) simp
qed

end
