(* ===== verification/Zset.thy ===== *)
theory Zset
  imports Skiplist_Delete Skiplist_Rank
begin

text \<open>
  A sorted set in its large encoding (\<open>t_zset.c\<close>): a skiplist and a dictionary whose values point
  at the nodes of the skiplist. The bodies of the commands for one element, and what the set is
  to its clients: a partial function from strings to scores.
\<close>

section \<open>Operations\<close>

type_synonym 's zset = "('s znodes \<times> zskiplist) \<times> (strobj, addr) dict"

text \<open>
  What an operation takes from outside: the stream of \<open>random()\<close>, what the memory of a new node
  holds, whether the dictionary may resize, and the memory of a new entry.
\<close>

record zenv =
  zrandom :: "nat \<Rightarrow> nat"
  zjunk :: "addr \<times> (nat \<Rightarrow> zskiplistLevel)"
  zresize :: bool
  zunused :: addr

datatype 's zresult = Added | Updated 's | Unchanged | NotANumber | Removed bool | Scored "'s option" | Ranked "nat option"

text \<open>\<open>malloc\<close> gives an address outside the blocks in use.\<close>

definition zslInsert_new ::
    "(addr set \<Rightarrow> addr) \<Rightarrow> zenv \<Rightarrow> ('s :: linorder) \<Rightarrow> strobj \<Rightarrow> 's znodes \<times> zskiplist
     \<Rightarrow> (('s znodes \<times> zskiplist) \<times> addr) option" where
  "zslInsert_new malloc env score obj s = do {
     lvl \<leftarrow> zslRandomLevel (zrandom env);
     let a = malloc (dom (fst s));
     s \<leftarrow> zslInsert (zjunk env) lvl a score obj s;
     Some (s, a) }"

text \<open>\<open>fadd\<close> is the addition of scores, \<open>None\<close> for a sum that is not a number.\<close>

definition createZset ::
    "addr \<times> (nat \<Rightarrow> zskiplistLevel) \<Rightarrow> (addr set \<Rightarrow> addr) \<Rightarrow> ('s :: {linorder, zero}) znodes \<Rightarrow> 's zset option" where
  "createZset junk malloc h = do {
     s \<leftarrow> zslCreate junk (malloc (dom h)) h;
     Some (s, dictCreate) }"

definition zadd_skiplist ::
    "(strobj, addr) dictType \<Rightarrow> ('s \<Rightarrow> 's \<Rightarrow> 's option) \<Rightarrow> (addr set \<Rightarrow> addr) \<Rightarrow> bool \<Rightarrow> zenv
     \<Rightarrow> ('s :: linorder) \<Rightarrow> strobj \<Rightarrow> 's zset \<Rightarrow> ('s zset \<times> 's zresult) option" where
  "zadd_skiplist ty fadd malloc incr env score ele = (\<lambda>(s, d). do {
     (d, de) \<leftarrow> dictFind ty ele d;
     (case de of
        Some r \<Rightarrow> do {
          (curobj, sp) \<leftarrow> entry_at r d;
          n \<leftarrow> znode (fst s) sp;
          (case (if incr then fadd score (zscore n) else Some score) of
             None \<Rightarrow> Some ((s, d), NotANumber)
           | Some score \<Rightarrow>
               if score \<noteq> zscore n then do {
                 (s, found) \<leftarrow> zslDelete (zscore n) curobj s;
                 (if \<not> found then None
                  else do {
                    (s, a) \<leftarrow> zslInsert_new malloc env score curobj s;
                    d \<leftarrow> set_entry_val ty r a d;
                    Some ((s, d), Updated score) }) }
               else Some ((s, d), Unchanged)) }
      | None \<Rightarrow> do {
          (s, a) \<leftarrow> zslInsert_new malloc env score ele s;
          (d, added) \<leftarrow> dictAdd ty (zresize env) (zunused env) ele a d;
          (if \<not> added then None else Some ((s, d), Added)) }) })"

definition zrem_skiplist ::
    "(strobj, addr) dictType \<Rightarrow> zenv \<Rightarrow> strobj \<Rightarrow> ('s :: linorder) zset \<Rightarrow> ('s zset \<times> 's zresult) option" where
  "zrem_skiplist ty env ele = (\<lambda>(s, d). do {
     (d, de) \<leftarrow> dictFind ty ele d;
     (case de of
        Some r \<Rightarrow> do {
          (_, sp) \<leftarrow> entry_at r d;
          n \<leftarrow> znode (fst s) sp;
          (s, found) \<leftarrow> zslDelete (zscore n) ele s;
          (if \<not> found then None
           else do {
             (d, _) \<leftarrow> dictDelete ty ele d;
             Some ((s, if htNeedsResize d then fst (dictResize (zresize env) d) else d), Removed True) }) }
      | None \<Rightarrow> Some ((s, d), Removed False)) })"

definition zscore_skiplist ::
    "(strobj, addr) dictType \<Rightarrow> strobj \<Rightarrow> 's zset \<Rightarrow> ('s zset \<times> 's zresult) option" where
  "zscore_skiplist ty ele = (\<lambda>(s, d). do {
     (d, de) \<leftarrow> dictFind ty ele d;
     (case de of
        Some r \<Rightarrow> do {
          (_, sp) \<leftarrow> entry_at r d;
          n \<leftarrow> znode (fst s) sp;
          Some ((s, d), Scored (Some (zscore n))) }
      | None \<Rightarrow> Some ((s, d), Scored None)) })"

definition zrank_skiplist ::
    "(strobj, addr) dictType \<Rightarrow> bool \<Rightarrow> strobj \<Rightarrow> ('s :: linorder) zset \<Rightarrow> ('s zset \<times> 's zresult) option" where
  "zrank_skiplist ty reverse ele = (\<lambda>(s, d).
     let llen = zlength (snd s)
     in do {
       (d, de) \<leftarrow> dictFind ty ele d;
       (case de of
          Some r \<Rightarrow> do {
            (_, sp) \<leftarrow> entry_at r d;
            n \<leftarrow> znode (fst s) sp;
            rank \<leftarrow> zslGetRank (zscore n) ele s;
            (if rank = 0 then None
             else Some ((s, d), Ranked (Some (if reverse then llen - rank else rank - 1)))) }
        | None \<Rightarrow> Some ((s, d), Ranked None)) })"

section \<open>Sequences of operations\<close>

datatype 's zop = ZAdd 's strobj | ZIncrBy 's strobj | ZRem strobj | ZScore strobj | ZRank bool strobj

fun zset_exec ::
    "(strobj, addr) dictType \<Rightarrow> ('s \<Rightarrow> 's \<Rightarrow> 's option) \<Rightarrow> (addr set \<Rightarrow> addr) \<Rightarrow> zenv \<Rightarrow> ('s :: linorder) zop
     \<Rightarrow> 's zset \<Rightarrow> ('s zset \<times> 's zresult) option" where
  "zset_exec ty fadd malloc env (ZAdd sc ele) z = zadd_skiplist ty fadd malloc False env sc ele z"
| "zset_exec ty fadd malloc env (ZIncrBy sc ele) z = zadd_skiplist ty fadd malloc True env sc ele z"
| "zset_exec ty fadd malloc env (ZRem ele) z = zrem_skiplist ty env ele z"
| "zset_exec ty fadd malloc env (ZScore ele) z = zscore_skiplist ty ele z"
| "zset_exec ty fadd malloc env (ZRank rv ele) z = zrank_skiplist ty rv ele z"

fun zset_run ::
    "(strobj, addr) dictType \<Rightarrow> ('s \<Rightarrow> 's \<Rightarrow> 's option) \<Rightarrow> (addr set \<Rightarrow> addr) \<Rightarrow> (zenv \<times> ('s :: linorder) zop) list
     \<Rightarrow> 's zset \<Rightarrow> ('s zset \<times> 's zresult list) option" where
  "zset_run ty fadd malloc [] z = Some (z, [])"
| "zset_run ty fadd malloc ((env, zop) # ops) z = do {
     (z, r) \<leftarrow> zset_exec ty fadd malloc env zop z;
     (z, rs) \<leftarrow> zset_run ty fadd malloc ops z;
     Some (z, r # rs) }"

text \<open>The same on a partial function from strings to scores.\<close>

definition lower :: "(byte list \<Rightarrow> ('s :: linorder) option) \<Rightarrow> 's \<Rightarrow> byte list \<Rightarrow> byte list set" where
  "lower m sc v = {w. \<exists>s. m w = Some s \<and> (s < sc \<or> s = sc \<and> bytes_less w v)}"

definition map_add_score ::
    "('s \<Rightarrow> 's \<Rightarrow> 's option) \<Rightarrow> bool \<Rightarrow> 's \<Rightarrow> byte list \<Rightarrow> (byte list \<Rightarrow> 's option)
     \<Rightarrow> (byte list \<Rightarrow> 's option) \<times> 's zresult" where
  "map_add_score fadd incr sc v m =
     (case m v of
        None \<Rightarrow> (m(v \<mapsto> sc), Added)
      | Some cur \<Rightarrow>
          (case (if incr then fadd sc cur else Some sc) of
             None \<Rightarrow> (m, NotANumber)
           | Some new \<Rightarrow> if new \<noteq> cur then (m(v \<mapsto> new), Updated new) else (m, Unchanged)))"

fun scores_exec ::
    "('s \<Rightarrow> 's \<Rightarrow> 's option) \<Rightarrow> ('s :: linorder) zop \<Rightarrow> (byte list \<Rightarrow> 's option)
     \<Rightarrow> (byte list \<Rightarrow> 's option) \<times> 's zresult" where
  "scores_exec fadd (ZAdd sc ele) m = map_add_score fadd False sc (getDecodedObject ele) m"
| "scores_exec fadd (ZIncrBy sc ele) m = map_add_score fadd True sc (getDecodedObject ele) m"
| "scores_exec fadd (ZRem ele) m =
     (m(getDecodedObject ele := None), Removed (m (getDecodedObject ele) \<noteq> None))"
| "scores_exec fadd (ZScore ele) m = (m, Scored (m (getDecodedObject ele)))"
| "scores_exec fadd (ZRank rv ele) m =
     (m, Ranked (map_option (\<lambda>sc. if rv then card (dom m) - 1 - card (lower m sc (getDecodedObject ele))
                                 else card (lower m sc (getDecodedObject ele)))
                   (m (getDecodedObject ele))))"

fun scores_results ::
    "('s \<Rightarrow> 's \<Rightarrow> 's option) \<Rightarrow> ('s :: linorder) zop list \<Rightarrow> (byte list \<Rightarrow> 's option) \<Rightarrow> 's zresult list" where
  "scores_results fadd [] m = []"
| "scores_results fadd (zop # ops) m =
     snd (scores_exec fadd zop m) # scores_results fadd ops (fst (scores_exec fadd zop m))"

end
