(* ===== verification/Zset_Correct.thy ===== *)
theory Zset_Correct
  imports Zset
begin

text \<open>
  Every operation on a sorted set keeps the skiplist and the dictionary in step and does what it
  does on a partial function from strings to scores.
\<close>

section \<open>Keys\<close>

abbreviation dec :: "'s tower \<Rightarrow> byte list" where
  "dec x \<equiv> getDecodedObject (tobj x)"

definition zmap :: "'s tower list \<Rightarrow> byte list \<Rightarrow> 's option" where
  "zmap xs v = map_option tscore (find (\<lambda>x. dec x = v) xs)"

lemma find_key: "distinct (map f xs) \<Longrightarrow> x \<in> set xs \<Longrightarrow> f x = k \<Longrightarrow> find (\<lambda>x. f x = k) xs = Some x"
  by (induction xs) auto

lemma find_key_none: "find (\<lambda>x. f x = k) xs = None \<longleftrightarrow> k \<notin> f ` set xs"
  by (auto simp: find_None_iff)

lemma find_SomeD: "find P xs = Some x \<Longrightarrow> x \<in> set xs \<and> P x"
  by (auto simp: find_Some_iff)

lemma key_unique: "distinct (map f xs) \<Longrightarrow> x \<in> set xs \<Longrightarrow> y \<in> set xs \<Longrightarrow> f y = f x \<Longrightarrow> y = x"
  by (meson distinct_map inj_onD)

lemma filter_key: "distinct (map f xs) \<Longrightarrow> x \<in> set xs \<Longrightarrow> filter (\<lambda>y. f y = f x) xs = [x]"
proof (induction xs)
  case (Cons a xs)
  then show ?case
  proof (cases "a = x")
    case True
    then have "f x \<notin> f ` set xs" using Cons.prems(1) by simp
    then have "filter (\<lambda>y. f y = f x) xs = []" unfolding filter_empty_conv by (metis image_eqI)
    then show ?thesis using True by simp
  next
    case False
    then have "f a \<noteq> f x" using Cons.prems by (auto dest: image_eqI)
    then show ?thesis using Cons False by simp
  qed
qed simp

lemma length_filter_key:
  "distinct (map f xs) \<Longrightarrow> x \<in> set xs \<Longrightarrow> Suc (length (filter (\<lambda>y. f y \<noteq> f x) xs)) = length xs"
  using sum_length_filter_compl [of "\<lambda>y. f y = f x" xs] filter_key [of f xs x] by simp

text \<open>What \<open>find\<close> finds does not depend on the order.\<close>

lemma find_set_eq:
  assumes "distinct (map f xs)" "distinct (map f ys)" "set xs = set ys"
  shows "find (\<lambda>x. f x = k) xs = find (\<lambda>x. f x = k) ys"
proof (cases "k \<in> f ` set xs")
  case True
  then obtain x where "x \<in> set xs" "f x = k" by auto
  then show ?thesis using find_key assms by metis
next
  case False
  then show ?thesis using assms(3) find_key_none by metis
qed

lemma small_obj_cong: "getDecodedObject a = getDecodedObject b \<Longrightarrow> small_obj a \<longleftrightarrow> small_obj b"
  by (simp add: small_obj_def)

lemma set_zins: "set (zins t xs) = insert t (set xs)"
  by (auto simp: zins_def dest: set_takeWhileD set_dropWhileD) (metis UnCI Un_iff set_append takeWhile_dropWhile_id)

lemma length_zins: "length (zins t xs) = Suc (length xs)"
  unfolding zins_ins by (simp add: length_takeWhile_le)

lemma distinct_zins:
  assumes "distinct (map f xs)" "f t \<notin> f ` set xs"
  shows "distinct (map f (zins t xs))"
proof -
  let ?P = "before (tscore t) (tobj t)"
  have "map f xs = map f (takeWhile ?P xs) @ map f (dropWhile ?P xs)" by (simp flip: map_append)
  then have "distinct (map f (takeWhile ?P xs) @ map f (dropWhile ?P xs))" "f t \<notin> set (map f (takeWhile ?P xs) @ map f (dropWhile ?P xs))"
    using assms by (metis, simp flip: map_append)
  then show ?thesis by (auto simp: zins_def)
qed

lemma find_zins:
  assumes "distinct (map f xs)" "f t \<notin> f ` set xs"
  shows "find (\<lambda>x. f x = k) (zins t xs) = (if k = f t then Some t else find (\<lambda>x. f x = k) xs)"
proof -
  have "find (\<lambda>x. f x = k) (zins t xs) = find (\<lambda>x. f x = k) (t # xs)"
    by (rule find_set_eq) (use assms distinct_zins [OF assms] in \<open>auto simp: set_zins\<close>)
  then show ?thesis by auto
qed

lemma find_filter: "find P (filter Q xs) = find (\<lambda>x. Q x \<and> P x) xs"
  by (induction xs) auto

lemma find_without:
  assumes "distinct (map f xs)" "x \<in> set xs"
  shows "find (\<lambda>y. f y = k) (filter (\<lambda>y. f y \<noteq> f x) xs) = (if k = f x then None else find (\<lambda>y. f y = k) xs)"
proof (cases "k = f x")
  case True
  then show ?thesis by (auto simp: find_None_iff)
next
  case False
  then have "(\<lambda>y. f y \<noteq> f x \<and> f y = k) = (\<lambda>y. f y = k)" by auto
  then show ?thesis using False by (simp add: find_filter)
qed

lemma filter_same_key_dec:
  assumes "distinct (map dec xs)" "x \<in> set xs" "getDecodedObject ob = dec x"
  shows "filter (\<lambda>y. \<not> same_key (tscore x) ob y) xs = filter (\<lambda>y. dec y \<noteq> dec x) xs"
    "filter (same_key (tscore x) ob) xs = filter (\<lambda>y. dec y = dec x) xs"
proof -
  have "same_key (tscore x) ob y \<longleftrightarrow> dec y = dec x" if "y \<in> set xs" for y
    using assms that by (auto simp: same_key_def distinct_map dest: inj_onD)
  then show "filter (\<lambda>y. \<not> same_key (tscore x) ob y) xs = filter (\<lambda>y. dec y \<noteq> dec x) xs"
    "filter (same_key (tscore x) ob) xs = filter (\<lambda>y. dec y = dec x) xs"
    by (auto intro: filter_cong)
qed

section \<open>What the operations share\<close>

lemma zset_setval [simp]: "dictSetVal (zsetDictType be seed) v = v"
  by (simp add: dictSetVal_def zsetDictType_def)

lemma zset_repD:
  assumes "zset_rep be seed (s, d) xs"
  shows "zsl_rep s xs" "dict_ok (zsetDictType be seed) d" "dictSize d = length xs" "distinct (map dec xs)"
    "amap (zsetDictType be seed) d ob = map_option taddr (find (\<lambda>x. dec x = getDecodedObject ob) xs)"
  using assms by (auto simp: zset_rep_def comp_def)

lemma zset_repI:
  assumes "zsl_rep s xs" "dict_ok (zsetDictType be seed) d" "dictSize d = length xs" "distinct (map dec xs)"
    "\<And>ob. amap (zsetDictType be seed) d ob = map_option taddr (find (\<lambda>x. dec x = getDecodedObject ob) xs)"
  shows "zset_rep be seed (s, d) xs"
  using assms by (auto simp: zset_rep_def comp_def)

lemma zset_rep_small: "zset_rep be seed (s, d) xs \<Longrightarrow> x \<in> set xs \<Longrightarrow> small_obj (tobj x)"
  by (auto simp: zset_rep_def zsl_rep_def)

lemma zset_rep_same_content:
  assumes "zset_rep be seed (s, d) xs" "dict_ok (zsetDictType be seed) d'" "same_content d d'"
  shows "zset_rep be seed (s, d') xs"
proof (rule zset_repI)
  note z = zset_repD [OF assms(1)]
  show "zsl_rep s xs" "dict_ok (zsetDictType be seed) d'" "distinct (map dec xs)" using z assms(2) by auto
  show "dictSize d' = length xs" using same_content_size [OF assms(3) z(2) assms(2)] z(3) by simp
  show "amap (zsetDictType be seed) d' ob = map_option taddr (find (\<lambda>x. dec x = getDecodedObject ob) xs)" for ob
    using amap_same_content [OF z(2) assms(3)] z(5) by simp
qed

text \<open>The lookup every operation starts with.\<close>

lemma zset_find:
  assumes r: "zset_rep be seed ((h, zsl), d) xs"
  shows "(\<exists>d'. dictFind (zsetDictType be seed) ele d = Some (d', None) \<and> zset_rep be seed ((h, zsl), d') xs \<and>
      find (\<lambda>x. dec x = getDecodedObject ele) xs = None) \<or>
    (\<exists>d' ref k x n. dictFind (zsetDictType be seed) ele d = Some (d', Some ref) \<and> zset_rep be seed ((h, zsl), d') xs \<and>
      fst ref \<le> 1 \<and> entry_at ref d' = Some (k, taddr x) \<and> getDecodedObject k = getDecodedObject ele \<and>
      find (\<lambda>x. dec x = getDecodedObject ele) xs = Some x \<and> x \<in> set xs \<and> dec x = getDecodedObject ele \<and>
      znode h (taddr x) = Some n \<and> zscore n = tscore x)"
proof (rule zsetdict.dictFind_ok [OF zset_repD(2) [OF r], where key = ele])
  note z = zset_repD [OF r]
  fix d' re
  assume f: "dictFind (zsetDictType be seed) ele d = Some (d', re)" "dict_ok (zsetDictType be seed) d'"
    "same_content d d'" "re = None \<Longrightarrow> amap (zsetDictType be seed) d ele = None"
    "\<And>ref. re = Some ref \<Longrightarrow> fst ref \<le> 1 \<and> (\<exists>e. entry_at ref d' = Some e \<and>
       dictCompareKeys (zsetDictType be seed :: (strobj, addr) dictType) ele (fst e) \<and> amap (zsetDictType be seed) d ele = Some (snd e))"
  note r' = zset_rep_same_content [OF r f(2,3)]
  show ?thesis
  proof (cases re)
    case None
    then show ?thesis using f(1,4) r' z(5) [of ele] by auto
  next
    case (Some ref)
    obtain k a where e: "fst ref \<le> 1" "entry_at ref d' = Some (k, a)" "getDecodedObject k = getDecodedObject ele"
      "amap (zsetDictType be seed) d ele = Some a"
    proof -
      obtain e where e: "entry_at ref d' = Some e \<and>
          dictCompareKeys (zsetDictType be seed :: (strobj, addr) dictType) ele (fst e) \<and>
          amap (zsetDictType be seed) d ele = Some (snd e)"
        using conjunct2 [OF f(5) [OF Some]] by (rule exE)
      then have "getDecodedObject ele = getDecodedObject (fst e)" by (simp only: zset_compare)
      then show ?thesis using e conjunct1 [OF f(5) [OF Some]] by (intro that [of "fst e" "snd e"]) simp_all
    qed
    obtain x where x: "find (\<lambda>x. dec x = getDecodedObject ele) xs = Some x" "taddr x = a"
      using z(5) [of ele] e(4) by (cases "find (\<lambda>x. dec x = getDecodedObject ele) xs") auto
    note m = find_SomeD [OF x(1)]
    obtain i where i: "i < length xs" "xs ! i = x" using m by (auto simp: in_set_conv_nth)
    have "zsl_core (h, zsl) xs" using z(1) by (simp add: zsl_rep_core)
    from core_node [OF this i(1)] obtain n where "znode h (taddr x) = Some n" "zscore n = tscore x" using i by metis
    then show ?thesis using f(1) Some r' e x m by blast
  qed
qed

definition fresh_malloc :: "(addr set \<Rightarrow> addr) \<Rightarrow> bool" where
  "fresh_malloc malloc \<longleftrightarrow> (\<forall>A. finite A \<longrightarrow> malloc A \<noteq> NULL \<and> malloc A \<notin> A)"

text \<open>A stream of random numbers in which the levels stop to rise.\<close>

definition fair_random :: "(nat \<Rightarrow> nat) \<Rightarrow> bool" where
  "fair_random r \<longleftrightarrow> (\<exists>j. 16384 \<le> (r j AND 0xFFFF))"

lemma zslRandomLevel_ok:
  assumes "\<forall>i < j. (r i AND 0xFFFF) < 16384" "16384 \<le> (r j AND 0xFFFF)"
  shows "zslRandomLevel r = Some (min (j + 1) ZSKIPLIST_MAXLEVEL)"
  using random_level_loop_ok [of j r 0 1] assms by (simp add: zslRandomLevel_def min_def)

lemma zslRandomLevel_bounds:
  assumes "fair_random r"
  shows "\<exists>lvl. zslRandomLevel r = Some lvl \<and> 1 \<le> lvl \<and> lvl \<le> ZSKIPLIST_MAXLEVEL"
proof -
  define j where "j = (LEAST j. 16384 \<le> (r j AND 0xFFFF))"
  have "16384 \<le> (r j AND 0xFFFF)" using assms unfolding fair_random_def j_def by (metis LeastI)
  moreover have "\<forall>i < j. (r i AND 0xFFFF) < 16384" unfolding j_def by (metis not_less not_less_Least)
  ultimately show ?thesis using zslRandomLevel_ok [of j r] by (auto simp: ZSKIPLIST_MAXLEVEL_def)
qed

lemma zslInsert_new_ok:
  assumes r: "zsl_rep (h, zsl) xs" and fin: "finite (dom h)" and m: "fresh_malloc malloc" and rnd: "fair_random (zrandom env)"
    and n: "length xs + 1 < 2 ^ 32" and ob: "small_obj ob" and k: "\<forall>x \<in> set xs. \<not> same_key sc ob x"
  shows "\<exists>s a T. zslInsert_new malloc env sc ob (h, zsl) = Some (s, a) \<and> zsl_rep s (zins T xs) \<and>
    taddr T = a \<and> tscore T = sc \<and> tobj T = ob \<and> finite (dom (fst s))"
proof -
  let ?a = "malloc (dom h)"
  have a: "?a \<noteq> NULL" "h ?a = None" using m fin by (auto simp: fresh_malloc_def)
  obtain lvl where lvl: "zslRandomLevel (zrandom env) = Some lvl" "1 \<le> lvl" "lvl \<le> ZSKIPLIST_MAXLEVEL"
    using zslRandomLevel_bounds [OF rnd] by blast
  obtain h' zsl' where i: "zslInsert (zjunk env) lvl ?a sc ob (h, zsl) = Some (h', zsl')"
    "zsl_rep (h', zsl') (zins \<lparr>taddr = ?a, tscore = sc, tobj = ob, theight = lvl\<rparr> xs)"
    using zslInsert_ok [OF r a lvl(2,3) n ob refl k] by blast
  have "zslInsert_new malloc env sc ob (h, zsl) = Some ((h', zsl'), ?a)"
    using lvl(1) i(1) by (simp add: zslInsert_new_def)
  moreover have "finite (dom h')" using dom_zslInsert [OF i(1)] fin by simp
  ultimately show ?thesis using i(2) by force
qed

section \<open>The operations\<close>

lemma zmap_find: "find (\<lambda>x. dec x = v) xs = Some x \<Longrightarrow> zmap xs v = Some (tscore x)"
  by (simp add: zmap_def)

lemma zmap_zins:
  assumes "distinct (map dec xs)" "dec t \<notin> dec ` set xs"
  shows "zmap (zins t xs) = (zmap xs)(dec t \<mapsto> tscore t)"
  using find_zins [of dec xs t] assms by (auto simp: zmap_def fun_eq_iff)

lemma zmap_without:
  assumes "distinct (map dec xs)" "x \<in> set xs"
  shows "zmap (filter (\<lambda>y. dec y \<noteq> dec x) xs) = (zmap xs)(dec x := None)"
  using find_without [of dec xs x] assms by (auto simp: zmap_def fun_eq_iff)

text \<open>What every operation is shown to do.\<close>

definition zstep ::
    "bool \<Rightarrow> u32 \<Rightarrow> ('s :: linorder) tower list \<Rightarrow> (('s zset) \<times> 's zresult) option
     \<Rightarrow> (byte list \<Rightarrow> 's option) \<times> 's zresult \<Rightarrow> bool" where
  "zstep be seed xs out spec \<longleftrightarrow> (\<exists>s d xs'. out = Some ((s, d), snd spec) \<and> zset_rep be seed (s, d) xs' \<and>
     zmap xs' = fst spec \<and> length xs' \<le> Suc (length xs) \<and> finite (dom (fst s)))"

lemma zadd_ok:
  assumes r: "zset_rep be seed ((h, zsl), d) xs" and fin: "finite (dom h)" and m: "fresh_malloc malloc"
    and rnd: "fair_random (zrandom env)" and n: "length xs + 1 < 2 ^ 32" and ob: "small_obj ele"
  shows "zstep be seed xs (zadd_skiplist (zsetDictType be seed) fadd malloc incr env score ele ((h, zsl), d))
    (map_add_score fadd incr score (getDecodedObject ele) (zmap xs))"
  using zset_find [OF r, of ele]
proof (elim disjE exE conjE)
  let ?ty = "zsetDictType be seed :: (strobj, addr) dictType"
  fix d1 assume f: "dictFind ?ty ele d = Some (d1, None)" "zset_rep be seed ((h, zsl), d1) xs"
    "find (\<lambda>x. dec x = getDecodedObject ele) xs = None"
  note z = zset_repD [OF f(2)]
  have new: "getDecodedObject ele \<notin> dec ` set xs" using f(3) by (simp only: find_key_none not_False_eq_True)
  then have "\<forall>x \<in> set xs. \<not> same_key score ele x" unfolding same_key_def by (metis image_eqI)
  from zslInsert_new_ok [OF z(1) fin m rnd n ob this] obtain s a T where
    i: "zslInsert_new malloc env score ele (h, zsl) = Some (s, a)" "zsl_rep s (zins T xs)" "taddr T = a"
      "tscore T = score" "tobj T = ele" "finite (dom (fst s))" by (elim exE conjE)
  have amN: "amap ?ty d1 ele = None" using z(5) f(3) by simp
  have sz: "dictSize d1 < 2 ^ 61" using z(3) n by simp
  obtain d2 where a: "dictAdd ?ty (zresize env) (zunused env) ele a d1 = Some (d2, True)" "dict_ok ?ty d2"
    "amap ?ty d2 = upd_class ?ty ele (Some (dictSetVal ?ty a)) (amap ?ty d1)" "dictSize d2 = dictSize d1 + 1"
    by (rule zsetdict.dictAdd_ok [OF z(2) sz, of "zresize env" "zunused env" ele a]) (simp add: amN)
  have newT: "dec T \<notin> dec ` set xs" using new i(5) by simp
  have "zset_rep be seed (s, d2) (zins T xs)"
  proof (rule zset_repI [OF i(2) a(2)])
    show "dictSize d2 = length (zins T xs)" using a(4) z(3) by (simp add: length_zins)
    show "distinct (map dec (zins T xs))" by (rule distinct_zins [OF z(4) newT])
    show "amap ?ty d2 ob = map_option taddr (find (\<lambda>x. dec x = getDecodedObject ob) (zins T xs))" for ob
      using find_zins [OF z(4) newT, of "getDecodedObject ob"] z(5) [of ob] i(3,5)
      by (simp add: a(3) upd_class_def zset_compare zset_setval)
  qed
  moreover have "zadd_skiplist ?ty fadd malloc incr env score ele ((h, zsl), d) = Some ((s, d2), Added)"
    using f(1) i(1) a(1) by (simp add: zadd_skiplist_def)
  moreover have "map_add_score fadd incr score (getDecodedObject ele) (zmap xs) =
      ((zmap xs)(getDecodedObject ele \<mapsto> score), Added)"
    using f(3) by (simp add: map_add_score_def zmap_def)
  moreover have "zmap (zins T xs) = (zmap xs)(getDecodedObject ele \<mapsto> score)"
    using zmap_zins [OF z(4) newT] i(4,5) by simp
  ultimately show ?thesis using i(6) by (auto simp: zstep_def length_zins)
next
  let ?ty = "zsetDictType be seed :: (strobj, addr) dictType"
  fix d1 ref k x nd
  assume f: "dictFind ?ty ele d = Some (d1, Some ref)" "zset_rep be seed ((h, zsl), d1) xs" "fst ref \<le> 1"
    "entry_at ref d1 = Some (k, taddr x)" "getDecodedObject k = getDecodedObject ele"
    "find (\<lambda>x. dec x = getDecodedObject ele) xs = Some x" "x \<in> set xs" "dec x = getDecodedObject ele"
    "znode h (taddr x) = Some nd" "zscore nd = tscore x"
  note z = zset_repD [OF f(2)]
  note cur = zmap_find [OF f(6)]
  have smk: "small_obj k" using ob f(5) small_obj_cong by blast
  show ?thesis
  proof (cases "if incr then fadd score (tscore x) else Some score")
    case None
    have "(if incr then fadd score (zscore nd) else Some score) = None" unfolding f(10) by (rule None)
    then have "zadd_skiplist ?ty fadd malloc incr env score ele ((h, zsl), d) = Some (((h, zsl), d1), NotANumber)"
      using f(1,4,9,10) by (simp add: zadd_skiplist_def split del: if_split)
    then show ?thesis using None cur f(2) fin by (auto simp: zstep_def map_add_score_def)
  next
    case (Some sc)
    then have new: "(if incr then fadd score (zscore nd) else Some score) = Some sc" unfolding f(10) .
    show ?thesis
    proof (cases "sc = tscore x")
      case True
      have "zadd_skiplist ?ty fadd malloc incr env score ele ((h, zsl), d) = Some (((h, zsl), d1), Unchanged)"
        using f(1,4,9,10) new True by (simp add: zadd_skiplist_def split del: if_split)
      then show ?thesis using Some True cur f(2) fin by (auto simp: zstep_def map_add_score_def)
    next
      case False
      let ?ys = "filter (\<lambda>y. dec y \<noteq> dec x) xs"
      have kx: "getDecodedObject k = dec x" using f(5,8) by simp
      note fl = filter_same_key_dec [OF z(4) f(7) kx]
      have ex: "\<exists>y \<in> set xs. same_key (tscore x) k y" using f(7) kx by (auto simp: same_key_def)
      obtain s1 where s1: "zslDelete (tscore x) k (h, zsl) = Some (s1, True)" "zsl_rep s1 ?ys"
        "dom (fst s1) = dom h - taddr ` set (filter (\<lambda>y. dec y = dec x) xs)"
        using zslDelete_ok [OF z(1) smk, of "tscore x"] ex unfolding fl by auto
      obtain h1 z1 where h1: "s1 = (h1, z1)" by fastforce
      have k1: "\<forall>y \<in> set ?ys. \<not> same_key sc k y" using kx by (auto simp: same_key_def)
      have n1: "length ?ys + 1 < 2 ^ 32" using n by (meson add_le_mono1 le_less_trans length_filter_le)
      have fin1: "finite (dom h1)" using s1(3) h1 fin by simp
      from zslInsert_new_ok [OF s1(2) [unfolded h1] fin1 m rnd n1 smk k1] obtain s a T where
        i: "zslInsert_new malloc env sc k (h1, z1) = Some (s, a)" "zsl_rep s (zins T ?ys)" "taddr T = a"
          "tscore T = sc" "tobj T = k" "finite (dom (fst s))" by (elim exE conjE)
      have c: "dictCompareKeys ?ty ele k" using f(5) by (simp add: zset_compare)
      obtain d2 where a: "set_entry_val ?ty ref a d1 = Some d2" "dict_ok ?ty d2"
        "amap ?ty d2 = upd_class ?ty ele (Some (dictSetVal ?ty a)) (amap ?ty d1)" "dictSize d2 = dictSize d1"
        by (rule zsetdict.set_entry_val_ok [OF z(2) f(4,3) c, of a])
      have dy: "distinct (map dec ?ys)" using z(4) by (simp add: distinct_map_filter)
      have newT: "dec T \<notin> dec ` set ?ys" using i(5) kx by auto
      have len: "Suc (length ?ys) = length xs" by (rule length_filter_key [OF z(4) f(7)])
      have zr: "zset_rep be seed (s, d2) (zins T ?ys)"
      proof (rule zset_repI [OF i(2) a(2)])
        show "dictSize d2 = length (zins T ?ys)" using a(4) z(3) len by (simp add: length_zins)
        show "distinct (map dec (zins T ?ys))" by (rule distinct_zins [OF dy newT])
        show "amap ?ty d2 ob = map_option taddr (find (\<lambda>x. dec x = getDecodedObject ob) (zins T ?ys))" for ob
          using find_zins [OF dy newT, of "getDecodedObject ob"] find_without [OF z(4) f(7), of "getDecodedObject ob"]
            z(5) [of ob] i(3,5) kx f(8)
          by (simp add: a(3) upd_class_def zset_compare zset_setval)
      qed
      have "zadd_skiplist ?ty fadd malloc incr env score ele ((h, zsl), d) = Some ((s, d2), Updated sc)"
        using f(1,4,9,10) new False s1(1) h1 i(1) a(1) by (simp add: zadd_skiplist_def split del: if_split)
      moreover have "map_add_score fadd incr score (getDecodedObject ele) (zmap xs) =
          ((zmap xs)(getDecodedObject ele \<mapsto> sc), Updated sc)"
        using cur Some False by (simp add: map_add_score_def)
      moreover have "zmap (zins T ?ys) = (zmap xs)(getDecodedObject ele \<mapsto> sc)"
        using zmap_zins [OF dy newT] zmap_without [OF z(4) f(7)] i(4,5) kx f(8) by simp
      ultimately show ?thesis using zr i(6) len by (auto simp: zstep_def length_zins)
    qed
  qed
qed

lemma zrem_ok:
  assumes r: "zset_rep be seed ((h, zsl), d) xs" and fin: "finite (dom h)" and ob: "small_obj ele"
  shows "zstep be seed xs (zrem_skiplist (zsetDictType be seed) env ele ((h, zsl), d))
    ((zmap xs)(getDecodedObject ele := None), Removed (zmap xs (getDecodedObject ele) \<noteq> None))"
  using zset_find [OF r, of ele]
proof (elim disjE exE conjE)
  let ?ty = "zsetDictType be seed :: (strobj, addr) dictType"
  fix d1 assume f: "dictFind ?ty ele d = Some (d1, None)" "zset_rep be seed ((h, zsl), d1) xs"
    "find (\<lambda>x. dec x = getDecodedObject ele) xs = None"
  have "zmap xs (getDecodedObject ele) = None" using f(3) by (simp add: zmap_def)
  then show ?thesis using f fin by (auto simp: zstep_def zrem_skiplist_def fun_upd_idem)
next
  let ?ty = "zsetDictType be seed :: (strobj, addr) dictType"
  fix d1 ref k x nd
  assume f: "dictFind ?ty ele d = Some (d1, Some ref)" "zset_rep be seed ((h, zsl), d1) xs" "fst ref \<le> 1"
    "entry_at ref d1 = Some (k, taddr x)" "getDecodedObject k = getDecodedObject ele"
    "find (\<lambda>x. dec x = getDecodedObject ele) xs = Some x" "x \<in> set xs" "dec x = getDecodedObject ele"
    "znode h (taddr x) = Some nd" "zscore nd = tscore x"
  note z = zset_repD [OF f(2)]
  let ?ys = "filter (\<lambda>y. dec y \<noteq> dec x) xs"
  note fl = filter_same_key_dec [OF z(4) f(7) f(8) [symmetric]]
  have ex: "\<exists>y \<in> set xs. same_key (tscore x) ele y" using f(7,8) by (auto simp: same_key_def)
  obtain s1 where s1: "zslDelete (tscore x) ele (h, zsl) = Some (s1, True)" "zsl_rep s1 ?ys"
    "dom (fst s1) = dom h - taddr ` set (filter (\<lambda>y. dec y = dec x) xs)"
    using zslDelete_ok [OF z(1) ob, of "tscore x"] ex unfolding fl by auto
  have am: "amap ?ty d1 ele \<noteq> None" using z(5) f(6) by simp
  obtain d2 where d2: "dictDelete ?ty ele d1 = Some (d2, True)" "dict_ok ?ty d2"
    "amap ?ty d2 = upd_class ?ty ele None (amap ?ty d1)" "dictSize d2 + 1 = dictSize d1"
    unfolding dictDelete_def
    by (rule zsetdict.dictGenericDelete_ok [OF z(2), where nofree = False and key = ele]) (use am in auto)
  have "Suc (length ?ys) = length xs" by (rule length_filter_key [OF z(4) f(7)])
  then have sz: "dictSize d2 = length ?ys" using d2(4) z(3) by simp
  have r2: "zset_rep be seed (s1, d2) ?ys"
  proof (rule zset_repI [OF s1(2) d2(2) sz])
    show "distinct (map dec ?ys)" using z(4) by (simp add: distinct_map_filter)
    show "amap ?ty d2 ob = map_option taddr (find (\<lambda>x. dec x = getDecodedObject ob) ?ys)" for ob
      using find_without [OF z(4) f(7), of "getDecodedObject ob"] z(5) [of ob] f(8)
      by (simp add: d2(3) upd_class_def zset_compare)
  qed
  let ?d3 = "if htNeedsResize d2 then fst (dictResize (zresize env) d2) else d2"
  have "zset_rep be seed (s1, ?d3) ?ys"
  proof (cases "htNeedsResize d2")
    case True
    then show ?thesis using zset_rep_same_content [OF r2] dictResize_ok [OF d2(2) surjective_pairing] by auto
  qed (use r2 in simp)
  moreover have "zrem_skiplist ?ty env ele ((h, zsl), d) = Some ((s1, ?d3), Removed True)"
    using f(1,4,9,10) s1(1) d2(1) by (simp add: zrem_skiplist_def)
  moreover have "zmap ?ys = (zmap xs)(getDecodedObject ele := None)"
    using zmap_without [OF z(4) f(7)] f(8) by simp
  moreover have "finite (dom (fst s1))" using s1(3) fin by simp
  ultimately show ?thesis using zmap_find [OF f(6)] by (auto simp: zstep_def intro!: le_SucI)
qed

lemma zscore_ok:
  assumes r: "zset_rep be seed ((h, zsl), d) xs" and fin: "finite (dom h)"
  shows "zstep be seed xs (zscore_skiplist (zsetDictType be seed) ele ((h, zsl), d))
    (zmap xs, Scored (zmap xs (getDecodedObject ele)))"
  using zset_find [OF r, of ele]
  by (elim disjE exE conjE) (use fin in \<open>auto simp: zstep_def zscore_skiplist_def zmap_def\<close>)

section \<open>Ranks\<close>

lemma dom_zmap: "dom (zmap xs) = dec ` set xs"
  using find_key_none [of dec _ xs] by (auto simp: zmap_def dom_def)

lemma lower_zmap:
  assumes "distinct (map dec xs)"
  shows "lower (zmap xs) (tscore x) (dec x) = dec ` {y \<in> set xs. tless y x}"
proof -
  have "zmap xs w = Some s \<longleftrightarrow> (\<exists>y \<in> set xs. dec y = w \<and> tscore y = s)" for w s
  proof
    assume "zmap xs w = Some s"
    then obtain y where "find (\<lambda>x. dec x = w) xs = Some y" "tscore y = s" by (auto simp: zmap_def)
    then show "\<exists>y \<in> set xs. dec y = w \<and> tscore y = s" using find_SomeD [of "\<lambda>x. dec x = w" xs y] by auto
  next
    assume "\<exists>y \<in> set xs. dec y = w \<and> tscore y = s"
    then show "zmap xs w = Some s" using find_key [OF assms] by (auto simp: zmap_def)
  qed
  then show ?thesis by (auto simp: lower_def tless_def before_def)
qed

lemma card_lower:
  assumes d: "distinct (map dec xs)" and so: "sorted_wrt tless xs" and x: "x \<in> set xs"
  shows "card (lower (zmap xs) (tscore x) (dec x)) = length (takeWhile (\<lambda>y. dec y \<noteq> dec x) xs)"
proof -
  let ?j = "length (takeWhile (\<lambda>y. dec y \<noteq> dec x) xs)"
  obtain i where i: "i < length xs" "xs ! i = x" using x by (auto simp: in_set_conv_nth)
  have "?j = i"
  proof -
    have dist: "dec (xs ! k) = dec x \<longleftrightarrow> k = i" if "k < length xs" for k
      using d i that nth_eq_iff_index_eq [of "map dec xs" k i] by simp
    have a: "\<forall>y \<in> set (take i xs). dec y \<noteq> dec x" using dist i(1) by (auto simp: in_set_conv_nth)
    have "takeWhile (\<lambda>y. dec y \<noteq> dec x) xs = take i xs"
    proof -
      have "takeWhile (\<lambda>y. dec y \<noteq> dec x) (take i xs @ x # drop (Suc i) xs) = take i xs"
        using a by (subst takeWhile_append2) auto
      then show ?thesis using id_take_nth_drop [OF i(1)] i(2) by simp
    qed
    then show ?thesis using i(1) by simp
  qed
  moreover have "{y \<in> set xs. tless y x} = set (take i xs)"
  proof -
    have "tless (xs ! k) x \<longleftrightarrow> k < i" if "k < length xs" for k
    proof
      show "tless (xs ! k) x" if "k < i" using so i that by (auto simp: sorted_wrt_iff_nth_less)
      show "k < i" if t: "tless (xs ! k) x"
      proof (rule ccontr)
        assume "\<not> k < i"
        then consider "k = i" | "i < k" by linarith
        then have "k = i \<or> tless x (xs ! k)"
          using so i \<open>k < length xs\<close> by cases (auto simp: sorted_wrt_iff_nth_less)
        then show False using t i(2) bytes_less_asym [of "dec x" "dec (xs ! k)"] by (auto simp: tless_def before_def)
      qed
    qed
    moreover have "y \<in> set (take i xs) \<longleftrightarrow> (\<exists>k < i. y = xs ! k)" for y
      using i(1) by (auto simp: in_set_conv_nth)
    moreover have "y \<in> set xs \<longleftrightarrow> (\<exists>k < length xs. y = xs ! k)" for y by (auto simp: in_set_conv_nth)
    ultimately show ?thesis using i(1) by (intro set_eqI) (auto intro: less_trans)
  qed
  moreover have "inj_on dec (set (take i xs))" "distinct (take i xs)"
    using d by (auto simp: distinct_map intro: inj_on_subset dest: in_set_takeD)
  ultimately show ?thesis using lower_zmap [OF d, of x] i(1) by (simp add: card_image distinct_card)
qed

lemma card_dom_zmap: "distinct (map dec xs) \<Longrightarrow> card (dom (zmap xs)) = length xs"
  by (simp add: dom_zmap distinct_map card_image distinct_card)

lemma zrank_ok:
  assumes r: "zset_rep be seed ((h, zsl), d) xs" and fin: "finite (dom h)" and ob: "small_obj ele"
  shows "zstep be seed xs (zrank_skiplist (zsetDictType be seed) rv ele ((h, zsl), d))
    (scores_exec fadd (ZRank rv ele) (zmap xs))"
  using zset_find [OF r, of ele]
proof (elim disjE exE conjE)
  let ?ty = "zsetDictType be seed :: (strobj, addr) dictType"
  fix d1 assume f: "dictFind ?ty ele d = Some (d1, None)" "zset_rep be seed ((h, zsl), d1) xs"
    "find (\<lambda>x. dec x = getDecodedObject ele) xs = None"
  have "zmap xs (getDecodedObject ele) = None" using f(3) by (simp add: zmap_def)
  then show ?thesis using f fin by (auto simp: zstep_def zrank_skiplist_def)
next
  let ?ty = "zsetDictType be seed :: (strobj, addr) dictType"
  fix d1 ref k x nd
  assume f: "dictFind ?ty ele d = Some (d1, Some ref)" "zset_rep be seed ((h, zsl), d1) xs" "fst ref \<le> 1"
    "entry_at ref d1 = Some (k, taddr x)" "getDecodedObject k = getDecodedObject ele"
    "find (\<lambda>x. dec x = getDecodedObject ele) xs = Some x" "x \<in> set xs" "dec x = getDecodedObject ele"
    "znode h (taddr x) = Some nd" "zscore nd = tscore x"
  note z = zset_repD [OF f(2)]
  have so: "sorted_wrt tless xs" and len: "zlength zsl = length xs" using z(1) by (auto simp: zsl_rep_def)
  have sc: "\<forall>y \<in> set xs. dec y = getDecodedObject ele \<longrightarrow> tscore y = tscore x"
    using key_unique [OF z(4) f(7)] f(8) by metis
  let ?j = "length (takeWhile (\<lambda>y. dec y \<noteq> dec x) xs)"
  have "zslGetRank (tscore x) ele (h, zsl) = Some (?j + 1)"
    using zslGetRank_ok [OF z(1) _ ob sc] z(4) f(7,8) by (auto simp: comp_def)
  then have "zrank_skiplist ?ty rv ele ((h, zsl), d) =
      Some (((h, zsl), d1), Ranked (Some (if rv then length xs - (?j + 1) else ?j)))"
    using f(1,4,9,10) len by (simp add: zrank_skiplist_def)
  moreover have "scores_exec fadd (ZRank rv ele) (zmap xs) =
      (zmap xs, Ranked (Some (if rv then length xs - (?j + 1) else ?j)))"
    using zmap_find [OF f(6)] card_lower [OF z(4) so f(7)] card_dom_zmap [OF z(4)] f(8) by simp
  ultimately show ?thesis using f(2) fin by (auto simp: zstep_def)
qed

end
