(* ===== verification/Zset_Props.thy ===== *)
theory Zset_Props
  imports Zset_Correct
begin

text \<open>
  The properties of the skiplist and of the sorted set, each with an instance.
\<close>

section \<open>Runs of operations\<close>

fun zop_obj :: "'s zop \<Rightarrow> strobj" where
  "zop_obj (ZAdd sc ele) = ele"
| "zop_obj (ZIncrBy sc ele) = ele"
| "zop_obj (ZRem ele) = ele"
| "zop_obj (ZScore ele) = ele"
| "zop_obj (ZRank rv ele) = ele"

lemma zset_exec_ok:
  assumes r: "zset_rep be seed ((h, zsl), d) xs" and fin: "finite (dom h)" and m: "fresh_malloc malloc"
    and rnd: "fair_random (zrandom env)" and n: "length xs + 1 < 2 ^ 32" and ob: "small_obj (zop_obj zop)"
  shows "zstep be seed xs (zset_exec (zsetDictType be seed) fadd malloc env zop ((h, zsl), d)) (scores_exec fadd zop (zmap xs))"
  using zadd_ok [OF r fin m rnd n] zrem_ok [OF r fin] zscore_ok [OF r fin] zrank_ok [OF r fin] ob
  by (cases zop) simp_all

lemma zset_run_ok:
  "zset_rep be seed z xs \<Longrightarrow> finite (dom (fst (fst z))) \<Longrightarrow> fresh_malloc malloc \<Longrightarrow>
   \<forall>(env, zop) \<in> set ops. fair_random (zrandom env) \<and> small_obj (zop_obj zop) \<Longrightarrow>
   length xs + length ops < 2 ^ 32 \<Longrightarrow>
   \<exists>z'. zset_run (zsetDictType be seed) fadd malloc ops z = Some (z', scores_results fadd (map snd ops) (zmap xs))"
proof (induction ops arbitrary: z xs)
  case Nil
  then show ?case by simp
next
  case (Cons eo ops)
  obtain env zop where eo: "eo = (env, zop)" by fastforce
  obtain h zsl d where z: "z = ((h, zsl), d)" by (metis prod.collapse)
  have "length xs + 1 < 2 ^ 32" using Cons.prems(5) by simp
  then have "zstep be seed xs (zset_exec (zsetDictType be seed) fadd malloc env zop z) (scores_exec fadd zop (zmap xs))"
    using zset_exec_ok [of be seed h zsl d xs malloc env zop fadd] Cons.prems eo z by simp
  then obtain s d' xs' where s: "zset_exec (zsetDictType be seed) fadd malloc env zop z = Some ((s, d'), snd (scores_exec fadd zop (zmap xs)))"
    "zset_rep be seed (s, d') xs'" "zmap xs' = fst (scores_exec fadd zop (zmap xs))" "length xs' \<le> Suc (length xs)"
    "finite (dom (fst s))" by (auto simp: zstep_def)
  have "length xs' + length ops < 2 ^ 32" using s(4) Cons.prems(5) by simp
  then obtain z' where "zset_run (zsetDictType be seed) fadd malloc ops (s, d') = Some (z', scores_results fadd (map snd ops) (zmap xs'))"
    using Cons.IH [OF s(2)] s(5) Cons.prems(3,4) by auto
  then show ?case using s(1,3) by (simp add: eo)
qed

lemma createZset_ok:
  assumes "fresh_malloc malloc" "finite (dom h)"
  shows "\<exists>h' zsl. createZset junk malloc h = Some ((h', zsl), dictCreate) \<and> zset_rep be seed ((h', zsl), dictCreate) [] \<and>
    finite (dom h')"
proof -
  have a: "malloc (dom h) \<noteq> NULL" using assms by (simp add: fresh_malloc_def)
  obtain h' zsl where c: "zslCreate junk (malloc (dom h)) h = Some (h', zsl)" "zsl_rep (h', zsl) []"
    "\<forall>b. b \<noteq> malloc (dom h) \<longrightarrow> base h' b = base h b" using zslCreate_ok [OF a, of junk h] by blast
  have "zset_rep be seed ((h', zsl), dictCreate) []"
    by (rule zset_repI [OF c(2)]) (simp_all add: dictCreate_ok)
  moreover have "h' b = None" if "b \<noteq> malloc (dom h)" "h b = None" for b
  proof -
    have "base h' b = base h b" using c(3) that(1) by blast
    then show ?thesis using that(2) by (simp add: base_def)
  qed
  then have "dom h' \<subseteq> insert (malloc (dom h)) (dom h)" by (metis domIff insertCI subsetI)
  ultimately show ?thesis using c(1) assms(2) finite_subset by (auto simp: createZset_def)
qed


text \<open>An allocator, a random source and requests that meet the hypotheses.\<close>

definition bump :: "addr set \<Rightarrow> addr" where
  "bump A = Suc (Max (insert 0 A))"

lemma bump_fresh: "fresh_malloc bump"
  unfolding fresh_malloc_def bump_def
proof (intro allI impI conjI)
  fix A :: "addr set" assume f: "finite A"
  show "Suc (Max (insert 0 A)) \<notin> A"
  proof
    assume "Suc (Max (insert 0 A)) \<in> A"
    then have "Suc (Max (insert 0 A)) \<le> Max (insert 0 A)" using f by (intro Max_ge) auto
    then show False by simp
  qed
qed simp

definition some_env :: zenv where
  "some_env = \<lparr>zrandom = (\<lambda>k. 5000 * k), zjunk = (0, \<lambda>_. \<lparr>forward = 7, span = 7\<rparr>), zresize = True, zunused = 0\<rparr>"

lemma some_env_fair: "fair_random (zrandom some_env)"
  unfolding fair_random_def by (rule exI [of _ 4]) (simp add: some_env_def)


section \<open>The skiplist\<close>

text \<open>
  C13: Insertion into a skiplist, of any random level: the new node is linked in at its place by
  score and bytes, on every level; all forward and backward pointers, spans, the tail, the
  length and the number of levels are again those of the sorted sequence.
\<close>

theorem zslInsert_inserts:
  assumes "zsl_rep s xs" and "a \<noteq> NULL" and "fst s a = None" and "1 \<le> lvl" and "lvl \<le> ZSKIPLIST_MAXLEVEL"
    and "length xs + 1 < 2 ^ 32" and "small_obj ob" and "\<forall>x \<in> set xs. \<not> same_key score ob x"
  shows "\<exists>s'. zslInsert junk lvl a score ob s = Some s' \<and>
    zsl_rep s' (zins \<lparr>taddr = a, tscore = score, tobj = ob, theight = lvl\<rparr> xs)"
proof -
  obtain h zsl where s: "s = (h, zsl)" by fastforce
  show ?thesis using zslInsert_ok [OF assms(1) [unfolded s] assms(2) _ assms(4-7) refl assms(8), of junk] assms(3) s by auto
qed

lemma empty_zsl: "\<exists>s :: int znodes \<times> zskiplist. zsl_rep s [] \<and> header (snd s) = 1 \<and> (\<forall>b. b \<noteq> 1 \<longrightarrow> fst s b = None)"
proof -
  obtain h :: "int znodes" and zsl where c: "zsl_rep (h, zsl) []" "header zsl = 1"
    "\<forall>b. b \<noteq> 1 \<longrightarrow> base h b = base Map.empty b"
    using zslCreate_ok [of 1 "(0, \<lambda>_. \<lparr>forward = 0, span = 0\<rparr>)" "Map.empty :: int znodes"] by auto
  have "h b = None" if "b \<noteq> 1" for b using c(3) that by (simp add: base_def)
  then show ?thesis using c(1,2) by (intro exI [of _ "(h, zsl)"]) auto
qed

theorem zslInsert_inserts_witness:
  "\<exists>s s' :: int znodes \<times> zskiplist. zslInsert (0, \<lambda>_. \<lparr>forward = 7, span = 7\<rparr>) 3 2 5 (Raw [97]) s = Some s' \<and>
    zsl_rep s' [\<lparr>taddr = 2, tscore = 5, tobj = Raw [97], theight = 3\<rparr>]"
proof -
  obtain s :: "int znodes \<times> zskiplist" where s: "zsl_rep s []" "\<forall>b. b \<noteq> 1 \<longrightarrow> fst s b = None" using empty_zsl by blast
  have "\<exists>s'. zslInsert (0, \<lambda>_. \<lparr>forward = 7, span = 7\<rparr>) 3 2 5 (Raw [97]) s = Some s' \<and>
      zsl_rep s' (zins \<lparr>taddr = 2, tscore = 5, tobj = Raw [97], theight = 3\<rparr> [])"
    by (rule zslInsert_inserts [OF s(1)]) (use s(2) in \<open>simp_all add: ZSKIPLIST_MAXLEVEL_def small_obj_def\<close>)
  then have "\<exists>s'. zslInsert (0, \<lambda>_. \<lparr>forward = 7, span = 7\<rparr>) 3 2 5 (Raw [97]) s = Some s' \<and>
      zsl_rep s' [\<lparr>taddr = 2, tscore = 5, tobj = Raw [97], theight = 3\<rparr>]" by (simp add: zins_def)
  then show ?thesis by blast
qed

text \<open>Skiplists with given elements, for the instances.\<close>

lemma zsl_with_one:
  "\<exists>s :: int znodes \<times> zskiplist. zsl_rep s [\<lparr>taddr = 2, tscore = 5, tobj = Raw [97], theight = 3\<rparr>] \<and>
    (\<forall>b. 2 < b \<longrightarrow> fst s b = None)"
proof -
  obtain h :: "int znodes" and zsl where s: "zsl_rep (h, zsl) []" "\<forall>b. b \<noteq> 1 \<longrightarrow> h b = None" "header zsl = 1"
    using empty_zsl by auto
  let ?T = "\<lparr>taddr = 2, tscore = 5 :: int, tobj = Raw [97], theight = 3\<rparr>"
  obtain h' zsl' where i: "zslInsert (0, \<lambda>_. \<lparr>forward = 7, span = 7\<rparr>) 3 2 5 (Raw [97]) (h, zsl) = Some (h', zsl')"
    "zsl_rep (h', zsl') (zins ?T [])"
    using zslInsert_ok [OF s(1), of 2 3 "Raw [97]" ?T 5 "(0, \<lambda>_. \<lparr>forward = 7, span = 7\<rparr>)"] s(2)
    by (auto simp: ZSKIPLIST_MAXLEVEL_def small_obj_def)
  have "h' b = None" if "2 < b" for b using dom_zslInsert [OF i(1)] s(2) that by (metis domIff insertE less_irrefl one_less_numeral_iff order_less_imp_not_less semiring_norm(76))
  then show ?thesis using i(2) by (intro exI [of _ "(h', zsl')"]) (auto simp: zins_def)
qed

lemma zsl_with_two:
  "\<exists>s :: int znodes \<times> zskiplist. zsl_rep s [\<lparr>taddr = 2, tscore = 5, tobj = Raw [97], theight = 3\<rparr>,
      \<lparr>taddr = 3, tscore = 8, tobj = Raw [98], theight = 1\<rparr>]"
proof -
  obtain h :: "int znodes" and zsl where s: "zsl_rep (h, zsl) [\<lparr>taddr = 2, tscore = 5, tobj = Raw [97], theight = 3\<rparr>]"
    "\<forall>b. 2 < b \<longrightarrow> h b = None" using zsl_with_one by auto
  let ?T = "\<lparr>taddr = 3, tscore = 8 :: int, tobj = Raw [98], theight = 1\<rparr>"
  have "\<exists>h' zsl'. zsl_rep (h', zsl') (zins ?T [\<lparr>taddr = 2, tscore = 5, tobj = Raw [97], theight = 3\<rparr>])"
    using zslInsert_ok [OF s(1), of 3 1 "Raw [98]" ?T 8 "(0, \<lambda>_. \<lparr>forward = 7, span = 7\<rparr>)"] s(2)
    by (auto simp: ZSKIPLIST_MAXLEVEL_def small_obj_def same_key_def)
  then show ?thesis by (simp add: zins_def before_def)
qed

text \<open>
  C14: Deletion from a skiplist: when an element with the score and the bytes is there it is
  unlinked from every level, its node is freed and its object released once; the result says
  whether it was there, and all pointers, spans and counters are those of the remaining
  sequence.
\<close>

theorem zslDelete_deletes:
  assumes "zsl_rep s xs" and "small_obj ob"
  shows "\<exists>s'. zslDelete score ob s = Some (s', \<exists>x \<in> set xs. same_key score ob x) \<and>
    zsl_rep s' (filter (\<lambda>x. \<not> same_key score ob x) xs) \<and>
    zreleased (snd s') = zreleased (snd s) @ map tobj (filter (same_key score ob) xs) \<and>
    dom (fst s') = dom (fst s) - taddr ` set (filter (same_key score ob) xs)"
proof -
  obtain h zsl where s: "s = (h, zsl)" by fastforce
  show ?thesis using zslDelete_ok [OF assms(1) [unfolded s] assms(2), of score] s by auto
qed

theorem zslDelete_deletes_witness:
  "\<exists>s s' :: int znodes \<times> zskiplist. zslDelete 5 (Raw [97]) s = Some (s', True) \<and>
    zsl_rep s' [\<lparr>taddr = 3, tscore = 8, tobj = Raw [98], theight = 1\<rparr>]"
proof -
  obtain s :: "int znodes \<times> zskiplist" where s: "zsl_rep s [\<lparr>taddr = 2, tscore = 5, tobj = Raw [97], theight = 3\<rparr>,
      \<lparr>taddr = 3, tscore = 8, tobj = Raw [98], theight = 1\<rparr>]" using zsl_with_two by blast
  have "\<exists>s'. zslDelete 5 (Raw [97]) s = Some (s', True) \<and>
      zsl_rep s' [\<lparr>taddr = 3, tscore = 8, tobj = Raw [98], theight = 1\<rparr>]"
    using zslDelete_deletes [OF s, of "Raw [97]" 5] by (auto simp: small_obj_def same_key_def)
  then show ?thesis by blast
qed

text \<open>
  C25: The first and the last node that the searches of a range of scores return are those of
  the elements in the range, and NULL when there is none, for every combination of inclusive
  and exclusive ends.
\<close>

theorem zsl_range_ends:
  assumes "zsl_rep s xs"
  shows "zslFirstInRange rg s = Some (first_addr (filter (score_in rg) xs)) \<and>
    zslLastInRange rg s = Some (last_addr (filter (score_in rg) xs))"
  by (rule range_ends_ok [OF assms])

theorem zsl_range_ends_witness:
  "\<exists>s :: int znodes \<times> zskiplist.
    zslFirstInRange \<lparr>zmin = 5, zmax = 9, minex = True, maxex = False\<rparr> s = Some 3 \<and>
    zslLastInRange \<lparr>zmin = 5, zmax = 9, minex = True, maxex = False\<rparr> s = Some 3"
proof -
  obtain s :: "int znodes \<times> zskiplist" where s: "zsl_rep s [\<lparr>taddr = 2, tscore = 5, tobj = Raw [97], theight = 3\<rparr>,
      \<lparr>taddr = 3, tscore = 8, tobj = Raw [98], theight = 1\<rparr>]" using zsl_with_two by blast
  have "zslFirstInRange \<lparr>zmin = 5, zmax = 9, minex = True, maxex = False\<rparr> s = Some 3 \<and>
    zslLastInRange \<lparr>zmin = 5, zmax = 9, minex = True, maxex = False\<rparr> s = Some 3"
    using zsl_range_ends [OF s, of "\<lparr>zmin = 5, zmax = 9, minex = True, maxex = False\<rparr>"]
    by (simp add: score_in_def zslValueGteMin_def zslValueLteMax_def first_addr_def last_addr_def)
  then show ?thesis by blast
qed

text \<open>
  The search of a range of strings compares the contents of the two ends even when one of them
  is the shared object for an infinity: from below everything up to an exclusive
  \<open>minstring\<close>, and from an exclusive \<open>maxstring\<close> upwards, it finds nothing, although
  elements are in range.
\<close>

lemma lex_range_confused:
  "zslFirstInLexRange \<lparr>lmin = MinString, lmax = Str (Raw (ascii ''minstring'')), lminex = False, lmaxex = True\<rparr> s = Some NULL \<and>
   lex_in \<lparr>lmin = MinString, lmax = Str (Raw (ascii ''minstring'')), lminex = False, lmaxex = True\<rparr> (ascii ''a'')"
proof -
  have "compareStringObjects (Raw (ascii ''minstring'')) (Raw (ascii ''minstring'')) = 0"
    using compareStringObjects_cases [of "Raw (ascii ''minstring'')" "Raw (ascii ''minstring'')"]
    by (simp add: small_obj_def ascii_def)
  moreover have "bytes_less (ascii ''a'') (ascii ''minstring'')" by code_simp
  ultimately show ?thesis by (simp add: zslFirstInLexRange_def zslIsInLexRange_def lex_in_def)
qed


lemma zset_with_one:
  "\<exists>(sd :: int zset) xs. zset_rep False 5381 sd xs \<and> length xs = 1 \<and> tscore (xs ! 0) = 5"
proof -
  obtain h :: "int znodes" and zsl where c: "zset_rep False 5381 ((h, zsl), dictCreate) []" "finite (dom h)"
    using createZset_ok [OF bump_fresh, of Map.empty] by (metis dom_empty finite.emptyI)
  have "zstep False 5381 [] (zadd_skiplist (zsetDictType False 5381) (\<lambda>a b. Some (a + b)) bump False some_env 5 (Raw [97])
      ((h, zsl), dictCreate)) (map_add_score (\<lambda>a b. Some (a + b)) False 5 [97] (zmap []))"
    using zadd_ok [OF c bump_fresh some_env_fair, of "Raw [97]"] by (simp add: small_obj_def)
  then obtain sd xs where x: "zset_rep False 5381 sd xs" "length xs \<le> 1" "zmap xs = (zmap [])([97] \<mapsto> 5 :: int)"
    by (auto simp: zstep_def map_add_score_def zmap_def)
  then have "zmap xs [97] = Some 5" by simp
  then have "length xs = 1 \<and> tscore (xs ! 0) = 5" using x(2) by (cases xs) (auto simp: zmap_def split: if_splits)
  then show ?thesis using x(1) by blast
qed


text \<open>
  C32: A random level is between 1 and 32, whatever the source of random numbers: one more than
  the number of low halves below a quarter of their range, cut off at 32. The loop ends when the
  source ever yields another.
\<close>

theorem zslRandomLevel_range:
  assumes "\<forall>i < j. (r i AND 0xFFFF) < 16384" and "16384 \<le> (r j AND 0xFFFF)"
  shows "zslRandomLevel r = Some (min (j + 1) ZSKIPLIST_MAXLEVEL) \<and>
    1 \<le> min (j + 1) ZSKIPLIST_MAXLEVEL \<and> min (j + 1) ZSKIPLIST_MAXLEVEL \<le> 32"
  using zslRandomLevel_ok [OF assms] by (simp add: ZSKIPLIST_MAXLEVEL_def)

theorem zslRandomLevel_range_witness: "zslRandomLevel (\<lambda>k. 5000 * k) = Some 5"
proof -
  have "\<forall>i < 4. (5000 * i AND 0xFFFF) < (16384 :: nat)"
  proof (intro allI impI)
    fix i :: nat assume "i < 4"
    then consider "i = 0" | "i = 1" | "i = 2" | "i = 3" by linarith
    then show "(5000 * i AND 0xFFFF) < (16384 :: nat)" by cases simp_all
  qed
  then show ?thesis using zslRandomLevel_range [of 4 "\<lambda>k. 5000 * k"] by (simp add: ZSKIPLIST_MAXLEVEL_def)
qed

end
