(* ===== verification/Objects.thy ===== *)
theory Objects
  imports Strobj Adlist "HOL-Library.Multiset"
begin

text \<open>
  String objects in memory (\<open>object.c\<close>): reference counts, creation, encoding and decoding.
  Every reference anyone holds is counted in a multiset; \<open>owned\<close> says that the memory holds
  exactly the objects that are referenced, with the right counts.
\<close>

section \<open>Operations\<close>

datatype rtype = REDIS_STRING | REDIS_LIST | REDIS_SET | REDIS_ZSET | REDIS_HASH

text \<open>
  \<open>optr\<close> is the pointer of a string object with what it points to, \<open>None\<close> for \<open>NULL\<close> and for
  the other types, whose contents are not modelled here; \<open>osize\<close> is what \<open>zmalloc_size_sds\<close>
  gives for it.
\<close>

record robj =
  otype :: rtype
  refcount :: nat
  optr :: "strobj option"
  osize :: nat

type_synonym objs = "addr \<Rightarrow> robj option"

text \<open>The shared objects that the modelled code uses, with the strings \<open>createSharedObjects\<close> gives them.\<close>

datatype shared_name =
  Sh_crlf | Sh_ok | Sh_emptybulk | Sh_czero | Sh_cone | Sh_nullbulk | Sh_wrongtypeerr | Sh_nokeyerr
  | Sh_syntaxerr | Sh_sameobjecterr | Sh_loadingerr | Sh_slowscripterr | Sh_masterdownerr | Sh_bgsaveerr
  | Sh_roslaveerr | Sh_noautherr | Sh_noreplicaserr | Sh_pong | Sh_colon | Sh_integer nat | Sh_mbulkhdr nat | Sh_bulkhdr nat

definition REDIS_SHARED_INTEGERS :: int where "REDIS_SHARED_INTEGERS = 10000"
definition REDIS_SHARED_BULKHDR_LEN :: int where "REDIS_SHARED_BULKHDR_LEN = 32"

fun shared_value :: "shared_name \<Rightarrow> strobj" where
  "shared_value Sh_crlf = Raw [13, 10]"
| "shared_value Sh_ok = Raw (ascii ''+OK'' @ [13, 10])"
| "shared_value Sh_emptybulk = Raw (ascii ''$0'' @ [13, 10, 13, 10])"
| "shared_value Sh_czero = Raw (ascii '':0'' @ [13, 10])"
| "shared_value Sh_cone = Raw (ascii '':1'' @ [13, 10])"
| "shared_value Sh_nullbulk = Raw (ascii ''$-1'' @ [13, 10])"
| "shared_value Sh_wrongtypeerr =
     Raw (ascii ''-WRONGTYPE Operation against a key holding the wrong kind of value'' @ [13, 10])"
| "shared_value Sh_nokeyerr = Raw (ascii ''-ERR no such key'' @ [13, 10])"
| "shared_value Sh_syntaxerr = Raw (ascii ''-ERR syntax error'' @ [13, 10])"
| "shared_value Sh_sameobjecterr = Raw (ascii ''-ERR source and destination objects are the same'' @ [13, 10])"
| "shared_value Sh_loadingerr = Raw (ascii ''-LOADING Redis is loading the dataset in memory'' @ [13, 10])"
| "shared_value Sh_slowscripterr =
     Raw (ascii ''-BUSY Redis is busy running a script. You can only call SCRIPT KILL or SHUTDOWN NOSAVE.'' @ [13, 10])"
| "shared_value Sh_masterdownerr =
     Raw (ascii ''-MASTERDOWN Link with MASTER is down and slave-serve-stale-data is set to 'no'.'' @ [13, 10])"
| "shared_value Sh_bgsaveerr =
     Raw (ascii ''-MISCONF Redis is configured to save RDB snapshots, but is currently not able to persist on disk. Commands that may modify the data set are disabled. Please check Redis logs for details about the error.'' @ [13, 10])"
| "shared_value Sh_roslaveerr = Raw (ascii ''-READONLY You can't write against a read only slave.'' @ [13, 10])"
| "shared_value Sh_noautherr = Raw (ascii ''-NOAUTH Authentication required.'' @ [13, 10])"
| "shared_value Sh_noreplicaserr = Raw (ascii ''-NOREPLICAS Not enough good slaves to write.'' @ [13, 10])"
| "shared_value Sh_pong = Raw (ascii ''+PONG'' @ [13, 10])"
| "shared_value Sh_colon = Raw (ascii '':'')"
| "shared_value (Sh_integer n) = IntEnc (word_of_nat n)"
| "shared_value (Sh_mbulkhdr n) = Raw (42 # decimal (int n) @ [13, 10])"
| "shared_value (Sh_bulkhdr n) = Raw (36 # decimal (int n) @ [13, 10])"

text \<open>The sizes of the arrays of shared objects.\<close>

fun shared_exists :: "shared_name \<Rightarrow> bool" where
  "shared_exists (Sh_integer n) = (int n < REDIS_SHARED_INTEGERS)"
| "shared_exists (Sh_mbulkhdr n) = (int n < REDIS_SHARED_BULKHDR_LEN)"
| "shared_exists (Sh_bulkhdr n) = (int n < REDIS_SHARED_BULKHDR_LEN)"
| "shared_exists _ = True"

text \<open>
  \<open>malloc\<close> is the allocator, a function of the blocks in use. \<open>sdssize m n\<close> is the size of the
  block of a string of \<open>n\<close> bytes that was in a block of size \<open>m\<close> before, \<open>0\<close> for a new one.
  \<open>shared\<close> has the addresses of the shared objects.
\<close>

record oenv =
  malloc :: "addr set \<Rightarrow> addr"
  sdssize :: "nat \<Rightarrow> nat \<Rightarrow> nat"
  shared :: "shared_name \<Rightarrow> addr"

definition createObject :: "oenv \<Rightarrow> rtype \<Rightarrow> strobj option \<Rightarrow> nat \<Rightarrow> objs \<Rightarrow> objs \<times> addr" where
  "createObject env ty p sz h =
     (let a = malloc env (dom h) in (h(a \<mapsto> \<lparr>otype = ty, refcount = 1, optr = p, osize = sz\<rparr>), a))"

definition createStringObject :: "oenv \<Rightarrow> byte list \<Rightarrow> objs \<Rightarrow> objs \<times> addr" where
  "createStringObject env s h = createObject env REDIS_STRING (Some (Raw s)) (sdssize env 0 (length s)) h"

definition incrRefCount :: "addr \<Rightarrow> objs \<Rightarrow> objs option" where
  "incrRefCount a h = do {
     ob \<leftarrow> h a;
     Some (h(a \<mapsto> ob\<lparr>refcount := refcount ob + 1\<rparr>)) }"

definition decrRefCount :: "addr \<Rightarrow> objs \<Rightarrow> objs option" where
  "decrRefCount a h = do {
     ob \<leftarrow> h a;
     (if refcount ob = 0 then None
      else if refcount ob = 1 then Some (h(a := None))
      else Some (h(a \<mapsto> ob\<lparr>refcount := refcount ob - 1\<rparr>))) }"

text \<open>The string of an object that must not be encoded.\<close>

fun raw_string :: "strobj option \<Rightarrow> byte list option" where
  "raw_string (Some (Raw s)) = Some s"
| "raw_string _ = None"

definition dupStringObject :: "oenv \<Rightarrow> addr \<Rightarrow> objs \<Rightarrow> (objs \<times> addr) option" where
  "dupStringObject env a h = do {
     ob \<leftarrow> h a;
     s \<leftarrow> raw_string (optr ob);
     Some (createStringObject env s h) }"

definition decoded_object :: "oenv \<Rightarrow> addr \<Rightarrow> objs \<Rightarrow> (objs \<times> addr) option" where
  "decoded_object env a h = do {
     ob \<leftarrow> h a;
     (case optr ob of
        Some (IntEnc p) \<Rightarrow> Some (createStringObject env (int_text p) h)
      | _ \<Rightarrow> if otype ob \<noteq> REDIS_STRING then None else do { h \<leftarrow> incrRefCount a h; Some (h, a) }) }"

definition createStringObjectFromLongLong :: "oenv \<Rightarrow> int \<Rightarrow> objs \<Rightarrow> (objs \<times> addr) option" where
  "createStringObjectFromLongLong env value h =
     (if value \<ge> 0 \<and> value < REDIS_SHARED_INTEGERS then do {
        h \<leftarrow> incrRefCount (shared env (Sh_integer (nat value))) h;
        Some (h, shared env (Sh_integer (nat value))) }
      else Some (createObject env REDIS_STRING (Some (IntEnc (word_of_int value))) 0 h))"

text \<open>
  \<open>use_shared\<close> is the test on \<open>maxmemory\<close> and its policy, \<open>spare\<close> whether the string has more
  than a tenth of its length to spare.
\<close>

definition tryObjectEncoding :: "oenv \<Rightarrow> bool \<Rightarrow> bool \<Rightarrow> addr \<Rightarrow> objs \<Rightarrow> (objs \<times> addr) option" where
  "tryObjectEncoding env use_shared spare a h = do {
     ob \<leftarrow> h a;
     (case optr ob of
        None \<Rightarrow> if otype ob \<noteq> REDIS_STRING \<or> refcount ob > 1 then Some (h, a) else None
      | Some (IntEnc p) \<Rightarrow> Some (h, a)
      | Some (Raw s) \<Rightarrow>
          if refcount ob > 1 then Some (h, a)
          else
            let parsed = (if length s > 21 then None else string2l 8 s)
            in (case parsed of
                  None \<Rightarrow>
                    Some (if length s > 32 \<and> spare
                          then h(a \<mapsto> ob\<lparr>osize := sdssize env (osize ob) (length s)\<rparr>) else h, a)
                | Some value \<Rightarrow>
                    if use_shared \<and> value \<ge> 0 \<and> value < REDIS_SHARED_INTEGERS then do {
                      h \<leftarrow> decrRefCount a h;
                      h \<leftarrow> incrRefCount (shared env (Sh_integer (nat value))) h;
                      Some (h, shared env (Sh_integer (nat value))) }
                    else Some (h(a \<mapsto> ob\<lparr>optr := Some (IntEnc (word_of_int value)), osize := 0\<rparr>), a))) }"

section \<open>References\<close>

definition owned :: "objs \<Rightarrow> addr multiset \<Rightarrow> bool" where
  "owned h R \<longleftrightarrow> dom h = set_mset R \<and> (\<forall>a ob. h a = Some ob \<longrightarrow> refcount ob = count R a)"

definition content :: "objs \<Rightarrow> addr \<Rightarrow> (rtype \<times> strobj option \<times> nat) option" where
  "content h a = map_option (\<lambda>ob. (otype ob, optr ob, osize ob)) (h a)"

definition bytes :: "objs \<Rightarrow> addr \<Rightarrow> byte list" where
  "bytes h a = (case content h a of Some (_, Some p, _) \<Rightarrow> getDecodedObject p | _ \<Rightarrow> [])"

definition good_malloc :: "oenv \<Rightarrow> bool" where
  "good_malloc env \<longleftrightarrow> (\<forall>A. finite A \<longrightarrow> malloc env A \<notin> A)"

text \<open>The objects in \<open>A\<close> are what they were.\<close>

definition unchanged :: "addr set \<Rightarrow> objs \<Rightarrow> objs \<Rightarrow> bool" where
  "unchanged A h h' \<longleftrightarrow> (\<forall>a \<in> A. content h' a = content h a)"

lemma unchanged_refl [simp]: "unchanged A h h"
  by (simp add: unchanged_def)

lemma unchanged_trans: "unchanged A h h' \<Longrightarrow> unchanged B h' h'' \<Longrightarrow> C \<subseteq> A \<Longrightarrow> C \<subseteq> B \<Longrightarrow> unchanged C h h''"
  unfolding unchanged_def by (metis subsetD)

lemma unchanged_mono: "unchanged A h h' \<Longrightarrow> B \<subseteq> A \<Longrightarrow> unchanged B h h'"
  by (auto simp: unchanged_def)

lemma bytes_cong: "content h' a = content h a \<Longrightarrow> bytes h' a = bytes h a"
  by (simp add: bytes_def)

lemma unchanged_bytes: "unchanged A h h' \<Longrightarrow> a \<in> A \<Longrightarrow> bytes h' a = bytes h a"
  by (simp add: unchanged_def bytes_def)

lemma owned_obj: "owned h R \<Longrightarrow> a \<in># R \<Longrightarrow> \<exists>ob. h a = Some ob \<and> refcount ob = count R a"
  unfolding owned_def by (metis domD)

lemma owned_content: "owned h R \<Longrightarrow> a \<in># R \<Longrightarrow> content h a \<noteq> None"
  by (auto simp: content_def dest: owned_obj)

lemma incrRefCount_ok:
  assumes "owned h R" "a \<in># R"
  shows "\<exists>h'. incrRefCount a h = Some h' \<and> owned h' (add_mset a R) \<and> unchanged UNIV h h'"
  using owned_obj [OF assms] assms by (auto simp: incrRefCount_def owned_def unchanged_def content_def)

lemma decrRefCount_ok:
  assumes "owned h R" "a \<in># R"
  shows "\<exists>h'. decrRefCount a h = Some h' \<and> owned h' (R - {#a#}) \<and> unchanged (set_mset (R - {#a#})) h h'"
proof -
  obtain ob where ob: "h a = Some ob" "refcount ob = count R a" using owned_obj [OF assms] by blast
  have R: "dom h = set_mset R" using assms(1) by (simp add: owned_def)
  show ?thesis
  proof (cases "count R a = 1")
    case True
    then have "a \<notin># R - {#a#}" by (simp add: not_in_iff)
    then have "dom (h(a := None)) = set_mset (R - {#a#})"
      using R by (auto simp: in_diff_count simp del: domIff split: if_split_asm)
    then show ?thesis using True ob assms \<open>a \<notin># R - {#a#}\<close>
      by (auto simp: decrRefCount_def owned_def unchanged_def content_def)
  next
    case False
    then have "count R a > 1" using assms(2) count_greater_zero_iff [of R a] by linarith
    then have "set_mset (R - {#a#}) = set_mset R" by (auto simp: set_eq_iff in_diff_count simp flip: count_greater_zero_iff)
    then show ?thesis using ob assms \<open>count R a > 1\<close>
      by (auto simp: decrRefCount_def owned_def unchanged_def content_def)
  qed
qed

lemma createObject_ok:
  assumes "owned h R" "good_malloc env" "createObject env ty p sz h = (h', a)"
  shows "a \<notin># R" "owned h' (add_mset a R)" "content h' a = Some (ty, p, sz)" "unchanged (set_mset R) h h'"
proof -
  have R: "dom h = set_mset R" using assms(1) by (simp add: owned_def)
  have a: "a = malloc env (set_mset R)" "h' = h(a \<mapsto> \<lparr>otype = ty, refcount = 1, optr = p, osize = sz\<rparr>)"
    using assms(3) R by (auto simp: createObject_def Let_def)
  show n: "a \<notin># R" using assms(2) a(1) by (simp add: good_malloc_def)
  then have "count R a = 0" by (simp add: count_eq_zero_iff)
  then show "owned h' (add_mset a R)" using assms(1) a(2) by (auto simp: owned_def)
  show "content h' a = Some (ty, p, sz)" using a(2) by (simp add: content_def)
  show "unchanged (set_mset R) h h'" using n a(2) by (auto simp: unchanged_def content_def)
qed

lemma createStringObject_ok:
  assumes "owned h R" "good_malloc env" "createStringObject env s h = (h', a)"
  shows "a \<notin># R" "owned h' (add_mset a R)" "content h' a = Some (REDIS_STRING, Some (Raw s), sdssize env 0 (length s))"
    "unchanged (set_mset R) h h'"
  using createObject_ok [OF assms(1,2) assms(3) [unfolded createStringObject_def]] by simp_all

lemma decoded_object_ok:
  assumes "owned h R" "good_malloc env" "a \<in># R" "content h a = Some (REDIS_STRING, Some p, sz)"
  shows "\<exists>h' b sz'. decoded_object env a h = Some (h', b) \<and> owned h' (add_mset b R) \<and>
    content h' b = Some (REDIS_STRING, Some (Raw (getDecodedObject p)), sz') \<and> unchanged (set_mset R) h h'"
proof (cases p)
  case (IntEnc i)
  obtain h' b where c: "createStringObject env (int_text i) h = (h', b)" by fastforce
  have "decoded_object env a h = Some (h', b)"
    using owned_obj [OF assms(1,3)] assms(4) IntEnc c by (auto simp: decoded_object_def content_def)
  then show ?thesis using createStringObject_ok [OF assms(1,2) c] IntEnc by auto
next
  case (Raw s)
  obtain h' where i: "incrRefCount a h = Some h'" "owned h' (add_mset a R)" "unchanged UNIV h h'"
    using incrRefCount_ok [OF assms(1,3)] by blast
  have "decoded_object env a h = Some (h', a)"
    using owned_obj [OF assms(1,3)] assms(4) Raw i(1) by (auto simp: decoded_object_def content_def)
  moreover have "content h' a = Some (REDIS_STRING, Some (Raw s), sz)" using i(3) assms(4) Raw by (simp add: unchanged_def)
  ultimately show ?thesis using i Raw by (auto intro: unchanged_mono)
qed

section \<open>Encoding\<close>

text \<open>The shared objects, as \<open>createSharedObjects\<close> leaves them.\<close>

definition shared_ok :: "oenv \<Rightarrow> objs \<Rightarrow> addr multiset \<Rightarrow> bool" where
  "shared_ok env h R \<longleftrightarrow> (\<forall>n. shared_exists n \<longrightarrow>
     shared env n \<in># R \<and> (\<exists>sz. content h (shared env n) = Some (REDIS_STRING, Some (shared_value n), sz)))"

lemma shared_okD:
  "shared_ok env h R \<Longrightarrow> shared_exists n \<Longrightarrow>
   shared env n \<in># R \<and> (\<exists>sz. content h (shared env n) = Some (REDIS_STRING, Some (shared_value n), sz))"
  by (simp add: shared_ok_def)

lemma shared_ok_mono: "shared_ok env h R \<Longrightarrow> unchanged (set_mset R) h h' \<Longrightarrow> R \<subseteq># R' \<Longrightarrow> shared_ok env h' R'"
  unfolding shared_ok_def unchanged_def by (metis mset_subset_eqD)

lemma int_text_of_int: "fits 8 v \<Longrightarrow> int_text (word_of_int v) = decimal v"
  by (simp add: int_text_decimal sint_sbintrunc' signed_take_bit_int_eq_self fits_def)

text \<open>Encoding keeps the text of the object and everything anyone else refers to.\<close>

lemma tryObjectEncoding_ok:
  assumes "owned h R" and "a \<in># R" and "shared_ok env h (R - {#a#})" and "content h a = Some (REDIS_STRING, Some p, sz)"
  shows "\<exists>h' b. tryObjectEncoding env use_shared spare a h = Some (h', b) \<and>
    owned h' (add_mset b (R - {#a#})) \<and> unchanged (set_mset (R - {#a#})) h h' \<and>
    (\<exists>q z. content h' b = Some (REDIS_STRING, Some q, z) \<and> getDecodedObject q = getDecodedObject p)"
proof -
  obtain ob where ob: "h a = Some ob" "refcount ob = count R a" using owned_obj [OF assms(1,2)] by blast
  have p: "optr ob = Some p" using assms(4) ob(1) by (simp add: content_def)
  have Ra: "add_mset a (R - {#a#}) = R" using assms(2) by simp
  have same: ?thesis if "tryObjectEncoding env use_shared spare a h = Some (h, a)"
    using that assms(1,4) Ra by auto
  have upd: ?thesis
    if t: "tryObjectEncoding env use_shared spare a h = Some (h(a \<mapsto> ob\<lparr>optr := Some q, osize := s\<rparr>), a)"
      and q: "getDecodedObject q = getDecodedObject p" and r1: "\<not> refcount ob > 1" for q s
  proof -
    have "count (R - {#a#}) a = 0" using r1 ob(2) by simp
    then have n: "a \<notin># R - {#a#}" by (rule count_eq_zero_iff [THEN iffD1])
    have "owned (h(a \<mapsto> ob\<lparr>optr := Some q, osize := s\<rparr>)) R" using assms(1) ob by (auto simp: owned_def)
    moreover have "unchanged (set_mset (R - {#a#})) h (h(a \<mapsto> ob\<lparr>optr := Some q, osize := s\<rparr>))"
      using n by (auto simp: unchanged_def content_def)
    moreover have "content (h(a \<mapsto> ob\<lparr>optr := Some q, osize := s\<rparr>)) a = Some (REDIS_STRING, Some q, s)"
      using assms(4) ob(1) by (simp add: content_def)
    ultimately show ?thesis using t q Ra by auto
  qed
  show ?thesis
  proof (cases p)
    case (IntEnc i)
    then show ?thesis using ob p by (intro same) (simp add: tryObjectEncoding_def)
  next
    case (Raw s)
    show ?thesis
    proof (cases "refcount ob > 1")
      case True
      then show ?thesis using ob p Raw by (intro same) (simp add: tryObjectEncoding_def)
    next
      case False
      show ?thesis
      proof (cases "if length s > 21 then None else string2l 8 s")
        case None
        show ?thesis
        proof (cases "length s > 32 \<and> spare")
          case True
          have "ob\<lparr>osize := sdssize env (osize ob) (length s)\<rparr> = ob\<lparr>optr := Some p, osize := sdssize env (osize ob) (length s)\<rparr>"
            using p by simp
          then show ?thesis using ob p Raw False None True
            by (intro upd [of "sdssize env (osize ob) (length s)" p]) (auto simp: tryObjectEncoding_def)
        next
          case n: False
          then show ?thesis using ob p Raw False None by (intro same) (auto simp: tryObjectEncoding_def Let_def)
        qed
      next
        case (Some v)
        then have "string2l 8 s = Some v" by (simp split: if_split_asm)
        then have v: "fits 8 v" "s = decimal v" by (simp_all add: string2l_exact)
        then have tx: "int_text (word_of_int v) = s" using int_text_of_int by simp
        show ?thesis
        proof (cases "use_shared \<and> v \<ge> 0 \<and> v < REDIS_SHARED_INTEGERS")
          case False
          then show ?thesis using ob p Raw Some tx \<open>\<not> refcount ob > 1\<close>
            by (intro upd [of 0 "IntEnc (word_of_int v)"]) (auto simp: tryObjectEncoding_def)
        next
          case sh: True
          let ?b = "shared env (Sh_integer (nat v))" and ?R = "R - {#a#}"
          obtain h1 where d: "decrRefCount a h = Some h1" "owned h1 ?R" "unchanged (set_mset ?R) h h1"
            using decrRefCount_ok [OF assms(1,2)] by blast
          obtain z where b: "?b \<in># ?R" "content h ?b = Some (REDIS_STRING, Some (IntEnc (word_of_int v)), z)"
            using shared_okD [OF assms(3), of "Sh_integer (nat v)"] sh by auto
          obtain h2 where i: "incrRefCount ?b h1 = Some h2" "owned h2 (add_mset ?b ?R)" "unchanged UNIV h1 h2"
            using incrRefCount_ok [OF d(2) b(1)] by blast
          have u: "content h2 c = content h c" if "c \<in># ?R" for c
            using d(3) i(3) that by (simp add: unchanged_def)
          have "tryObjectEncoding env use_shared spare a h = Some (h2, ?b)"
            using ob p Raw Some sh d(1) i(1) False by (simp add: tryObjectEncoding_def)
          moreover have "content h2 ?b = Some (REDIS_STRING, Some (IntEnc (word_of_int v)), z)" using u [OF b(1)] b(2) by simp
          ultimately show ?thesis using i(2) u tx Raw unfolding unchanged_def
            by (intro exI [of _ h2] exI [of _ ?b]) auto
        qed
      qed
    qed
  qed
qed

end
