(* ===== verification/Reply.thy ===== *)
theory Reply
  imports Objects "HOL-Library.Signed_Division"
begin

text \<open>
  The reply side of \<open>networking.c\<close>: the static buffer of a client, its list of reply objects and
  the writes to its socket. The list \<open>reply\<close> is the sequence of the objects of its nodes (theory
  \<open>Adlist\<close> has the pointers). The state is the memory of objects and the client. The client has no
  limit on its output buffers, as normal clients have none by default.
\<close>

section \<open>Clients\<close>

definition REDIS_REPLY_CHUNK_BYTES :: nat where "REDIS_REPLY_CHUNK_BYTES = 16 * 1024"
definition REDIS_MAX_WRITE_PER_EVENT :: nat where "REDIS_MAX_WRITE_PER_EVENT = 1024 * 64"

text \<open>
  \<open>buf\<close> holds the first \<open>bufpos\<close> bytes of the buffer. \<open>online\<close> is the test on the replication
  state, \<open>handler\<close> whether the write handler is installed.
\<close>

record rclient =
  lua_client :: bool
  master_client :: bool
  force_reply :: bool
  connected :: bool
  online :: bool
  closing :: bool
  buf :: "byte list"
  reply :: "addr list"
  reply_bytes :: int
  sentlen :: nat
  handler :: bool

definition new_rclient :: rclient where
  "new_rclient = \<lparr>lua_client = False, master_client = False, force_reply = False, connected = True,
     online = True, closing = False, buf = [], reply = [], reply_bytes = 0, sentlen = 0, handler = False\<rparr>"

type_synonym rstate = "objs \<times> rclient"

section \<open>Appending\<close>

text \<open>\<open>ae\<close> is whether \<open>aeCreateFileEvent\<close> succeeds.\<close>

definition prepareClientToWrite :: "bool \<Rightarrow> rclient \<Rightarrow> rclient \<times> bool" where
  "prepareClientToWrite ae c =
     (if lua_client c then (c, True)
      else if master_client c \<and> \<not> force_reply c then (c, False)
      else if \<not> connected c then (c, False)
      else if buf c = [] \<and> reply c = [] \<and> online c
      then (if ae then (c\<lparr>handler := True\<rparr>, True) else (c, False))
      else (c, True))"

definition dupLastObjectIfNeeded :: "oenv \<Rightarrow> rstate \<Rightarrow> (rstate \<times> addr) option" where
  "dupLastObjectIfNeeded env = (\<lambda>(h, c).
     (if reply c = [] then None
      else do {
        let cur = last (reply c);
        ob \<leftarrow> h cur;
        (if refcount ob > 1 then do {
           (h, new) \<leftarrow> dupStringObject env cur h;
           h \<leftarrow> decrRefCount cur h;
           Some ((h, c\<lparr>reply := butlast (reply c) @ [new]\<rparr>), new) }
         else Some ((h, c), cur)) }))"

definition u_addReplyToBuffer :: "byte list \<Rightarrow> rclient \<Rightarrow> rclient \<times> bool" where
  "u_addReplyToBuffer s c =
     (let available = REDIS_REPLY_CHUNK_BYTES - length (buf c)
      in if closing c then (c, True)
         else if reply c \<noteq> [] then (c, False)
         else if length s > available then (c, False)
         else (c\<lparr>buf := buf c @ s\<rparr>, True))"

text \<open>Glueing \<open>s\<close> to the last object, and a new last node.\<close>

definition append_tail :: "oenv \<Rightarrow> byte list \<Rightarrow> rstate \<Rightarrow> rstate option" where
  "append_tail env s = (\<lambda>(h, c). do {
     ob \<leftarrow> h (last (reply c));
     let c = c\<lparr>reply_bytes := reply_bytes c - int (osize ob)\<rparr>;
     ((h, c), tail) \<leftarrow> dupLastObjectIfNeeded env (h, c);
     ob \<leftarrow> h tail;
     t \<leftarrow> raw_string (optr ob);
     let sz = sdssize env (osize ob) (length (t @ s));
     Some (h(tail \<mapsto> ob\<lparr>optr := Some (Raw (t @ s)), osize := sz\<rparr>),
           c\<lparr>reply_bytes := reply_bytes c + int sz\<rparr>) })"

definition add_node :: "addr \<Rightarrow> nat \<Rightarrow> rclient \<Rightarrow> rclient" where
  "add_node a sz c = c\<lparr>reply := reply c @ [a], reply_bytes := reply_bytes c + int sz\<rparr>"

text \<open>Whether \<open>n\<close> more bytes go to the last object.\<close>

definition tail_room :: "nat \<Rightarrow> rstate \<Rightarrow> bool option" where
  "tail_room n = (\<lambda>(h, c).
     if reply c = [] then Some False
     else do {
       ob \<leftarrow> h (last (reply c));
       (case optr ob of
          None \<Rightarrow> Some False
        | Some p \<Rightarrow> do {
            t \<leftarrow> raw_string (Some p);
            Some (length t + n \<le> REDIS_REPLY_CHUNK_BYTES) }) })"

definition u_addReplyObjectToList :: "oenv \<Rightarrow> addr \<Rightarrow> rstate \<Rightarrow> rstate option" where
  "u_addReplyObjectToList env a = (\<lambda>(h, c).
     if closing c then Some (h, c)
     else do {
       ob \<leftarrow> h a;
       s \<leftarrow> raw_string (optr ob);
       room \<leftarrow> tail_room (length s) (h, c);
       (if room then append_tail env s (h, c)
        else do {
          h \<leftarrow> incrRefCount a h;
          Some (h, add_node a (osize ob) c) }) })"

text \<open>\<open>sz\<close> is the size of the block of the sds that is handed over.\<close>

definition u_addReplySdsToList :: "oenv \<Rightarrow> byte list \<Rightarrow> nat \<Rightarrow> rstate \<Rightarrow> rstate option" where
  "u_addReplySdsToList env s sz = (\<lambda>(h, c).
     if closing c then Some (h, c)
     else do {
       room \<leftarrow> tail_room (length s) (h, c);
       (if room then append_tail env s (h, c)
        else
          let (h, a) = createObject env REDIS_STRING (Some (Raw s)) sz h
          in Some (h, add_node a sz c)) })"

definition u_addReplyStringToList :: "oenv \<Rightarrow> byte list \<Rightarrow> rstate \<Rightarrow> rstate option" where
  "u_addReplyStringToList env s = (\<lambda>(h, c).
     if closing c then Some (h, c)
     else do {
       room \<leftarrow> tail_room (length s) (h, c);
       (if room then append_tail env s (h, c)
        else
          let (h, a) = createStringObject env s h
          in Some (h, add_node a (sdssize env 0 (length s)) c)) })"

section \<open>Replies\<close>

text \<open>The part of \<open>addReply\<close> that sends the bytes of an unencoded object.\<close>

definition add_raw :: "oenv \<Rightarrow> addr \<Rightarrow> rstate \<Rightarrow> rstate option" where
  "add_raw env a = (\<lambda>(h, c). do {
     ob \<leftarrow> h a;
     s \<leftarrow> raw_string (optr ob);
     (case u_addReplyToBuffer s c of
        (c, True) \<Rightarrow> Some (h, c)
      | (c, False) \<Rightarrow> u_addReplyObjectToList env a (h, c)) })"

definition add_decoded :: "oenv \<Rightarrow> addr \<Rightarrow> rstate \<Rightarrow> rstate option" where
  "add_decoded env a = (\<lambda>(h, c). do {
     (h, b) \<leftarrow> decoded_object env a h;
     (h, c) \<leftarrow> add_raw env b (h, c);
     h \<leftarrow> decrRefCount b h;
     Some (h, c) })"

definition addReply :: "oenv \<Rightarrow> bool \<Rightarrow> addr \<Rightarrow> rstate \<Rightarrow> rstate option" where
  "addReply env ae a = (\<lambda>(h, c).
     case prepareClientToWrite ae c of
       (c, False) \<Rightarrow> Some (h, c)
     | (c, True) \<Rightarrow> do {
         ob \<leftarrow> h a;
         (case optr ob of
            Some (IntEnc p) \<Rightarrow>
              if reply c = [] \<and> REDIS_REPLY_CHUNK_BYTES - length (buf c) \<ge> 32
              then (case u_addReplyToBuffer (int_text p) c of
                      (c, True) \<Rightarrow> Some (h, c)
                    | (c, False) \<Rightarrow> add_decoded env a (h, c))
              else add_decoded env a (h, c)
          | _ \<Rightarrow> add_raw env a (h, c)) })"

definition addReplySds :: "oenv \<Rightarrow> bool \<Rightarrow> byte list \<Rightarrow> nat \<Rightarrow> rstate \<Rightarrow> rstate option" where
  "addReplySds env ae s sz = (\<lambda>(h, c).
     case prepareClientToWrite ae c of
       (c, False) \<Rightarrow> Some (h, c)
     | (c, True) \<Rightarrow>
         (case u_addReplyToBuffer s c of
            (c, True) \<Rightarrow> Some (h, c)
          | (c, False) \<Rightarrow> u_addReplySdsToList env s sz (h, c)))"

definition addReplyString :: "oenv \<Rightarrow> bool \<Rightarrow> byte list \<Rightarrow> rstate \<Rightarrow> rstate option" where
  "addReplyString env ae s = (\<lambda>(h, c).
     case prepareClientToWrite ae c of
       (c, False) \<Rightarrow> Some (h, c)
     | (c, True) \<Rightarrow>
         (case u_addReplyToBuffer s c of
            (c, True) \<Rightarrow> Some (h, c)
          | (c, False) \<Rightarrow> u_addReplyStringToList env s (h, c)))"

text \<open>Each of these calls the operations above one after the other, on the same client.\<close>

definition addReplyErrorString :: "oenv \<Rightarrow> bool \<Rightarrow> byte list \<Rightarrow> rstate \<Rightarrow> rstate option" where
  "addReplyErrorString env ae s st = do {
     st \<leftarrow> addReplyString env ae (ascii ''-ERR '') st;
     st \<leftarrow> addReplyString env ae s st;
     addReplyString env ae [13, 10] st }"

definition addReplyStatus :: "oenv \<Rightarrow> bool \<Rightarrow> byte list \<Rightarrow> rstate \<Rightarrow> rstate option" where
  "addReplyStatus env ae s st = do {
     st \<leftarrow> addReplyString env ae [43] st;
     st \<leftarrow> addReplyString env ae s st;
     addReplyString env ae [13, 10] st }"

text \<open>The bytes \<open>ll2string\<close> writes to a buffer that is long enough.\<close>

definition ll_text :: "nat \<Rightarrow> int \<Rightarrow> byte list option" where
  "ll_text n ll = do {
     (b, k) \<leftarrow> ll2string (replicate n 0) n ll;
     Some (take k b) }"

text \<open>An index into the shared headers that is negative is outside the array.\<close>

definition addReplyLongLongWithPrefix :: "oenv \<Rightarrow> bool \<Rightarrow> int \<Rightarrow> byte \<Rightarrow> rstate \<Rightarrow> rstate option" where
  "addReplyLongLongWithPrefix env ae ll pre st =
     (if pre = 42 \<and> ll < REDIS_SHARED_BULKHDR_LEN
      then if ll < 0 then None else addReply env ae (shared env (Sh_mbulkhdr (nat ll))) st
      else if pre = 36 \<and> ll < REDIS_SHARED_BULKHDR_LEN
      then if ll < 0 then None else addReply env ae (shared env (Sh_bulkhdr (nat ll))) st
      else do {
        t \<leftarrow> ll_text 127 ll;
        addReplyString env ae (pre # t @ [13, 10]) st })"

definition addReplyLongLong :: "oenv \<Rightarrow> bool \<Rightarrow> int \<Rightarrow> rstate \<Rightarrow> rstate option" where
  "addReplyLongLong env ae ll st =
     (if ll = 0 then addReply env ae (shared env Sh_czero) st
      else if ll = 1 then addReply env ae (shared env Sh_cone) st
      else addReplyLongLongWithPrefix env ae ll 58 st)"

definition addReplyMultiBulkLen :: "oenv \<Rightarrow> bool \<Rightarrow> int \<Rightarrow> rstate \<Rightarrow> rstate option" where
  "addReplyMultiBulkLen env ae n st =
     (if n < REDIS_SHARED_BULKHDR_LEN
      then if n < 0 then None else addReply env ae (shared env (Sh_mbulkhdr (nat n))) st
      else addReplyLongLongWithPrefix env ae n 42 st)"

text \<open>
  \<open>while((n = n/10) != 0) len++\<close>, for a \<open>long\<close> whose sign was changed: the smallest \<open>long\<close> is its own
  negative.
\<close>

function count_digits :: "int \<Rightarrow> nat \<Rightarrow> nat" where
  "count_digits n k = (let n = n sdiv 10 in if n = 0 then k else count_digits n (k + 1))"
  by pat_completeness auto
termination
  by (relation "measure (\<lambda>(n, k). nat \<bar>n\<bar>)") (auto simp: signed_divide_int_def abs_mult abs_sgn_eq)

declare count_digits.simps [simp del]

definition int_length :: "64 word \<Rightarrow> nat" where
  "int_length p = (if sint p < 0 then count_digits (sint (- p)) 2 else count_digits (sint p) 1)"

definition addReplyBulkLen :: "oenv \<Rightarrow> bool \<Rightarrow> addr \<Rightarrow> rstate \<Rightarrow> rstate option" where
  "addReplyBulkLen env ae a st = do {
     ob \<leftarrow> fst st a;
     n \<leftarrow> (case optr ob of
            Some (IntEnc p) \<Rightarrow> Some (int_length p)
          | p \<Rightarrow> do { s \<leftarrow> raw_string p; Some (length s) });
     (if int n < REDIS_SHARED_BULKHDR_LEN
      then addReply env ae (shared env (Sh_bulkhdr n)) st
      else addReplyLongLongWithPrefix env ae (int n) 36 st) }"

definition addReplyBulk :: "oenv \<Rightarrow> bool \<Rightarrow> addr \<Rightarrow> rstate \<Rightarrow> rstate option" where
  "addReplyBulk env ae a st = do {
     st \<leftarrow> addReplyBulkLen env ae a st;
     st \<leftarrow> addReply env ae a st;
     addReply env ae (shared env Sh_crlf) st }"

definition addReplyBulkCBuffer :: "oenv \<Rightarrow> bool \<Rightarrow> byte list \<Rightarrow> rstate \<Rightarrow> rstate option" where
  "addReplyBulkCBuffer env ae s st = do {
     st \<leftarrow> addReplyLongLongWithPrefix env ae (int (length s)) 36 st;
     st \<leftarrow> addReplyString env ae s st;
     addReply env ae (shared env Sh_crlf) st }"

definition addReplyBulkLongLong :: "oenv \<Rightarrow> bool \<Rightarrow> int \<Rightarrow> rstate \<Rightarrow> rstate option" where
  "addReplyBulkLongLong env ae ll st = do {
     t \<leftarrow> ll_text 64 ll;
     addReplyBulkCBuffer env ae t st }"

section \<open>Lengths that are not known yet\<close>

text \<open>The node is named by its object, which is made for it.\<close>

definition addDeferredMultiBulkLength :: "oenv \<Rightarrow> bool \<Rightarrow> rstate \<Rightarrow> rstate \<times> addr option" where
  "addDeferredMultiBulkLength env ae = (\<lambda>(h, c).
     case prepareClientToWrite ae c of
       (c, False) \<Rightarrow> ((h, c), None)
     | (c, True) \<Rightarrow>
         let (h, a) = createObject env REDIS_STRING None 0 h
         in ((h, c\<lparr>reply := reply c @ [a]\<rparr>), Some a))"

definition mbulk_text :: "int \<Rightarrow> byte list" where
  "mbulk_text n = 42 # decimal n @ [13, 10]"

text \<open>
  The node after the one of \<open>a\<close> is released when it is glued to it.
\<close>

definition setDeferredMultiBulkLength :: "oenv \<Rightarrow> addr option \<Rightarrow> int \<Rightarrow> rstate \<Rightarrow> rstate option" where
  "setDeferredMultiBulkLength env node n = (\<lambda>(h, c).
     case node of
       None \<Rightarrow> Some (h, c)
     | Some a \<Rightarrow> do {
         ob \<leftarrow> h a;
         let t = mbulk_text n;
         let sz = sdssize env 0 (length t);
         let h = h(a \<mapsto> ob\<lparr>optr := Some (Raw t), osize := sz\<rparr>);
         let c = c\<lparr>reply_bytes := reply_bytes c + int sz\<rparr>;
         (case dropWhile (\<lambda>b. b \<noteq> a) (reply c) of
            _ # b # rest \<Rightarrow> do {
              nx \<leftarrow> h b;
              (case optr nx of
                 None \<Rightarrow> Some (h, c)
               | Some p \<Rightarrow> do {
                   s \<leftarrow> raw_string (Some p);
                   let sz' = sdssize env sz (length (t @ s));
                   let h = h(a \<mapsto> ob\<lparr>optr := Some (Raw (t @ s)), osize := sz'\<rparr>);
                   h \<leftarrow> decrRefCount b h;
                   Some (h, c\<lparr>reply_bytes := reply_bytes c - int sz - int (osize nx) + int sz',
                              reply := takeWhile (\<lambda>b. b \<noteq> a) (reply c) @ a # rest\<rparr>) }) }
          | _ \<Rightarrow> Some (h, c)) })"

section \<open>Sending\<close>

text \<open>
  The \<open>i\<close>-th call of \<open>write\<close> in a call of the handler takes at most \<open>k\<close> bytes if \<open>wr i\<close> is
  \<open>Wrote k\<close>; \<open>stop i\<close> is the test on \<open>maxmemory\<close> after it.
\<close>

datatype write_return = Wrote nat | WAgain | WFailed

text \<open>
  The loop ends with what is left, the bytes written and the last result of \<open>write\<close>: \<open>None\<close> when
  it did not fail.
\<close>

partial_function (option) send_loop ::
    "(nat \<Rightarrow> write_return) \<Rightarrow> (nat \<Rightarrow> bool) \<Rightarrow> nat \<Rightarrow> byte list \<Rightarrow> rstate
     \<Rightarrow> (rstate \<times> byte list \<times> write_return option) option" where
  "send_loop wr stop i written s =
     (let (h, c) = s
      in if buf c = [] \<and> reply c = [] then Some ((h, c), written, None)
         else if buf c \<noteq> [] then
           (case wr i of
              Wrote k \<Rightarrow>
                let n = min k (length (buf c) - sentlen c);
                    w = take n (drop (sentlen c) (buf c));
                    c' = (if sentlen c + n = length (buf c) then c\<lparr>buf := [], sentlen := 0\<rparr>
                          else c\<lparr>sentlen := sentlen c + n\<rparr>)
                in if n = 0 then Some ((h, c), written, None)
                   else if length (written @ w) > REDIS_MAX_WRITE_PER_EVENT \<and> stop i then Some ((h, c'), written @ w, None)
                   else send_loop wr stop (i + 1) (written @ w) (h, c')
            | e \<Rightarrow> Some ((h, c), written, Some e))
         else do {
           let a = hd (reply c);
           ob \<leftarrow> h a;
           t \<leftarrow> raw_string (optr ob);
           (if t = [] then do {
              h \<leftarrow> decrRefCount a h;
              send_loop wr stop i written (h, c\<lparr>reply := tl (reply c)\<rparr>) }
            else
              (case wr i of
                 Wrote k \<Rightarrow>
                   let n = min k (length t - sentlen c);
                       w = take n (drop (sentlen c) t)
                   in if n = 0 then Some ((h, c), written, None)
                      else do {
                        (h, c) \<leftarrow>
                          (if sentlen c + n = length t then do {
                             h \<leftarrow> decrRefCount a h;
                             Some (h, c\<lparr>reply := tl (reply c), sentlen := 0, reply_bytes := reply_bytes c - int (osize ob)\<rparr>) }
                           else Some (h, c\<lparr>sentlen := sentlen c + n\<rparr>));
                        (if length (written @ w) > REDIS_MAX_WRITE_PER_EVENT \<and> stop i then Some ((h, c), written @ w, None)
                         else send_loop wr stop (i + 1) (written @ w) (h, c)) }
               | e \<Rightarrow> Some ((h, c), written, Some e))) })"

text \<open>\<open>listRelease(c->reply)\<close>, the part of \<open>freeClient\<close> that concerns the replies.\<close>

fun release_replies :: "addr list \<Rightarrow> objs \<Rightarrow> objs option" where
  "release_replies [] h = Some h"
| "release_replies (a # as) h = do { h \<leftarrow> decrRefCount a h; release_replies as h }"

text \<open>The client after the call is \<open>None\<close> if it was released.\<close>

definition sendReplyToClient ::
    "(nat \<Rightarrow> write_return) \<Rightarrow> (nat \<Rightarrow> bool) \<Rightarrow> rstate \<Rightarrow> ((objs \<times> rclient option) \<times> byte list) option" where
  "sendReplyToClient wr stop s = do {
     ((h, c), written, e) \<leftarrow> send_loop wr stop 0 [] s;
     (if e = Some WFailed then do {
        h \<leftarrow> release_replies (reply c) h;
        Some ((h, None), written) }
      else if buf c = [] \<and> reply c = [] then
        let c = c\<lparr>sentlen := 0, handler := False\<rparr>
        in if closing c then do {
             h \<leftarrow> release_replies (reply c) h;
             Some ((h, None), written) }
           else Some ((h, Some c), written)
      else Some ((h, Some c), written)) }"

end
