(* ===== verification/Reply_Correct.thy ===== *)
theory Reply_Correct
  imports Reply
begin

text \<open>
  What the reply operations do: they add bytes to the end of what is to be sent, never change an
  object anyone else holds, and keep the references and the account of the memory.
\<close>

section \<open>Objects in the reply list\<close>

definition texts :: "objs \<Rightarrow> addr list \<Rightarrow> byte list" where
  "texts h as = concat (map (bytes h) as)"

definition raw_at :: "objs \<Rightarrow> addr \<Rightarrow> bool" where
  "raw_at h a \<longleftrightarrow> (\<exists>s sz. content h a = Some (REDIS_STRING, Some (Raw s), sz))"

definition hole_at :: "objs \<Rightarrow> addr \<Rightarrow> bool" where
  "hole_at h a \<longleftrightarrow> content h a = Some (REDIS_STRING, None, 0)"

definition osz :: "objs \<Rightarrow> addr \<Rightarrow> nat" where
  "osz h a = (case content h a of Some (_, _, sz) \<Rightarrow> sz | None \<Rightarrow> 0)"

definition sizes :: "objs \<Rightarrow> addr list \<Rightarrow> int" where
  "sizes h as = int (sum_list (map (osz h) as))"

lemma texts_simps [simp]: "texts h [] = []" "texts h (a # as) = bytes h a @ texts h as"
  "texts h (as @ bs) = texts h as @ texts h bs"
  by (simp_all add: texts_def)

lemma sizes_simps [simp]: "sizes h [] = 0" "sizes h (a # as) = int (osz h a) + sizes h as"
  "sizes h (as @ bs) = sizes h as + sizes h bs"
  by (simp_all add: sizes_def)

lemma sizes_nonneg: "0 \<le> sizes h as"
  by (simp add: sizes_def)

lemma unchanged_texts: "unchanged A h h' \<Longrightarrow> set as \<subseteq> A \<Longrightarrow> texts h' as = texts h as"
  by (induction as) (auto dest: unchanged_bytes)

lemma unchanged_sizes: "unchanged A h h' \<Longrightarrow> set as \<subseteq> A \<Longrightarrow> sizes h' as = sizes h as"
  by (induction as) (auto simp: unchanged_def osz_def)

lemma unchanged_raw: "unchanged A h h' \<Longrightarrow> a \<in> A \<Longrightarrow> raw_at h' a = raw_at h a"
  by (simp add: unchanged_def raw_at_def)

lemma unchanged_hole: "unchanged A h h' \<Longrightarrow> a \<in> A \<Longrightarrow> hole_at h' a = hole_at h a"
  by (simp add: unchanged_def hole_at_def)

lemma unchanged_osz: "unchanged A h h' \<Longrightarrow> a \<in> A \<Longrightarrow> osz h' a = osz h a"
  by (simp add: unchanged_def osz_def)

text \<open>Writing to an object in place.\<close>

lemma write_object:
  assumes "owned h R" "h a = Some ob" "otype ob = REDIS_STRING"
  shows "owned (h(a \<mapsto> ob\<lparr>optr := p, osize := z\<rparr>)) R" "unchanged (- {a}) h (h(a \<mapsto> ob\<lparr>optr := p, osize := z\<rparr>))"
    "content (h(a \<mapsto> ob\<lparr>optr := p, osize := z\<rparr>)) a = Some (REDIS_STRING, p, z)"
  using assms by (auto simp: owned_def unchanged_def content_def)

lemma raw_obj:
  assumes "raw_at h a"
  shows "\<exists>ob s. h a = Some ob \<and> otype ob = REDIS_STRING \<and> optr ob = Some (Raw s) \<and> bytes h a = s \<and> osz h a = osize ob"
  using assms by (auto simp: raw_at_def content_def bytes_def osz_def)

lemma raw_content: "content h a = Some (REDIS_STRING, Some (Raw s), z) \<Longrightarrow> raw_at h a \<and> bytes h a = s \<and> osz h a = z"
  by (auto simp: raw_at_def bytes_def osz_def)

section \<open>Adding to the list\<close>

text \<open>The list after \<open>s\<close> was added: a longer last object, or a new one.\<close>

definition grown :: "addr multiset \<Rightarrow> byte list \<Rightarrow> objs \<Rightarrow> rclient \<Rightarrow> objs \<Rightarrow> rclient \<Rightarrow> bool" where
  "grown E s h c h' c' \<longleftrightarrow> owned h' (E + mset (reply c')) \<and> c' = c\<lparr>reply := reply c', reply_bytes := reply_bytes c'\<rparr> \<and>
     reply_bytes c' - sizes h' (reply c') = reply_bytes c - sizes h (reply c) \<and>
     (\<exists>as t. reply c' = as @ [t] \<and> raw_at h' t \<and> unchanged (set_mset E \<union> set as) h h' \<and>
       (reply c = as \<and> bytes h' t = s \<or>
        (\<exists>u. reply c = as @ [u] \<and> raw_at h u \<and> bytes h' t = bytes h u @ s)))"

lemma append_tail_ok:
  assumes o: "owned h (E + mset (reply c))" and m: "good_malloc env" and ne: "reply c \<noteq> []" and r: "raw_at h (last (reply c))"
  shows "\<exists>h' c'. append_tail env s (h, c) = Some (h', c') \<and> grown E s h c h' c'"
proof -
  obtain as u where c: "reply c = as @ [u]" using ne by (metis rev_exhaust)
  let ?R = "E + mset as"
  have oR: "owned h (add_mset u ?R)" using o c by simp
  obtain ob t where ob: "h u = Some ob" "otype ob = REDIS_STRING" "optr ob = Some (Raw t)" "bytes h u = t" "osz h u = osize ob"
    using raw_obj [OF r] c by auto
  have rc: "refcount ob = count ?R u + 1" using oR ob(1) by (auto simp: owned_def)
  show ?thesis
  proof (cases "refcount ob > 1")
    case True
    obtain h1 a where cr: "createStringObject env t h = (h1, a)" by fastforce
    note n = createStringObject_ok [OF oR m cr]
    obtain h2 where d: "decrRefCount u h1 = Some h2" "owned h2 (add_mset a ?R)" "unchanged (set_mset (add_mset a ?R)) h1 h2"
      using decrRefCount_ok [OF n(2), of u] by auto
    have dup: "dupLastObjectIfNeeded env (h, c\<lparr>reply_bytes := rb\<rparr>) = Some ((h2, c\<lparr>reply_bytes := rb, reply := as @ [a]\<rparr>), a)" for rb
      using ob c True cr d(1) by (simp add: dupLastObjectIfNeeded_def dupStringObject_def Let_def)
    have "content h2 a = Some (REDIS_STRING, Some (Raw t), sdssize env 0 (length t))"
      using d(3) n(3) by (auto simp: unchanged_def)
    then obtain ob2 where ob2: "h2 a = Some ob2" "otype ob2 = REDIS_STRING" "optr ob2 = Some (Raw t)"
      by (auto simp: content_def)
    let ?z = "sdssize env (osize ob2) (length (t @ s))"
    let ?h = "h2(a \<mapsto> ob2\<lparr>optr := Some (Raw (t @ s)), osize := ?z\<rparr>)"
    note w = write_object [OF d(2) ob2(1,2), of ?z "Some (Raw (t @ s))"]
    have un: "unchanged (set_mset ?R) h ?h"
      unfolding unchanged_def
    proof
      fix x assume x: "x \<in># ?R"
      then have "x \<noteq> a" using n(1) by auto
      then have "content ?h x = content h2 x" using w(2) by (simp add: unchanged_def)
      also have "\<dots> = content h1 x" using d(3) x by (simp add: unchanged_def)
      also have "\<dots> = content h x" using n(4) x by (simp add: unchanged_def)
      finally show "content ?h x = content h x" .
    qed
    let ?c = "c\<lparr>reply := as @ [a], reply_bytes := reply_bytes c - int (osize ob) + int ?z\<rparr>"
    have "append_tail env s (h, c) = Some (?h, ?c)"
      using ob c dup ob2 by (simp add: append_tail_def Let_def)
    moreover have "grown E s h c ?h ?c"
      unfolding grown_def using w raw_content [OF w(3)] un c ob r unchanged_sizes [OF un, of as]
      by (auto intro!: exI [of _ as] exI [of _ a])
    ultimately show ?thesis by blast
  next
    case False
    then have u: "u \<notin># ?R" "refcount ob = 1" using rc by (auto simp: not_in_iff)
    have dup: "dupLastObjectIfNeeded env (h, c\<lparr>reply_bytes := rb\<rparr>) = Some ((h, c\<lparr>reply_bytes := rb\<rparr>), u)" for rb
      using ob c u(2) by (simp add: dupLastObjectIfNeeded_def)
    let ?z = "sdssize env (osize ob) (length (t @ s))"
    let ?h = "h(u \<mapsto> ob\<lparr>optr := Some (Raw (t @ s)), osize := ?z\<rparr>)"
    note w = write_object [OF oR ob(1,2), of ?z "Some (Raw (t @ s))"]
    have un: "unchanged (set_mset ?R) h ?h" using u(1) w(2) by (auto simp: unchanged_def)
    let ?c = "c\<lparr>reply_bytes := reply_bytes c - int (osize ob) + int ?z\<rparr>"
    have "append_tail env s (h, c) = Some (?h, ?c)"
      using ob c dup by (simp add: append_tail_def Let_def)
    moreover have "grown E s h c ?h ?c"
      unfolding grown_def using w raw_content [OF w(3)] un c ob r unchanged_sizes [OF un, of as]
      by (auto intro!: exI [of _ as] exI [of _ u])
    ultimately show ?thesis by blast
  qed
qed

lemma add_node_grown:
  assumes "owned h' (add_mset a (E + mset (reply c)))" "raw_at h' a" "bytes h' a = s" "osz h' a = z"
    "unchanged (set_mset (E + mset (reply c))) h h'"
  shows "grown E s h c h' (add_node a z c)"
  unfolding grown_def add_node_def using assms unchanged_sizes [OF assms(5), of "reply c"]
  by (auto intro!: exI [of _ "reply c"] exI [of _ a])

text \<open>Objects in the list are strings, but for holes.\<close>

definition list_ok :: "objs \<Rightarrow> rclient \<Rightarrow> bool" where
  "list_ok h c \<longleftrightarrow> (\<forall>a \<in> set (reply c). raw_at h a \<or> hole_at h a)"

lemma tail_room_ok:
  assumes "list_ok h c"
  shows "\<exists>room. tail_room n (h, c) = Some room \<and> (room \<longrightarrow> reply c \<noteq> [] \<and> raw_at h (last (reply c)))"
proof (cases "reply c = []")
  case False
  then have "raw_at h (last (reply c)) \<or> hole_at h (last (reply c))" using assms by (simp add: list_ok_def)
  then show ?thesis
  proof
    assume r: "raw_at h (last (reply c))"
    then show ?thesis using False raw_obj [OF r] by (auto simp: tail_room_def)
  next
    assume "hole_at h (last (reply c))"
    then show ?thesis using False by (auto simp: tail_room_def hole_at_def content_def)
  qed
qed (auto simp: tail_room_def intro: exI [of _ False])

lemma list_adds:
  assumes o: "owned h (E + mset (reply c))" and m: "good_malloc env" and l: "list_ok h c" and cl: "\<not> closing c"
  shows "\<exists>h' c'. u_addReplyStringToList env s (h, c) = Some (h', c') \<and> grown E s h c h' c'"
    "\<exists>h' c'. u_addReplySdsToList env s z (h, c) = Some (h', c') \<and> grown E s h c h' c'"
    "a \<in># E \<Longrightarrow> raw_at h a \<Longrightarrow> \<exists>h' c'. u_addReplyObjectToList env a (h, c) = Some (h', c') \<and> grown E (bytes h a) h c h' c'"
proof -
  let ?R = "E + mset (reply c)"
  obtain room where room: "tail_room (length s) (h, c) = Some room" "room \<longrightarrow> reply c \<noteq> [] \<and> raw_at h (last (reply c))"
    using tail_room_ok [OF l] by blast
  show "\<exists>h' c'. u_addReplyStringToList env s (h, c) = Some (h', c') \<and> grown E s h c h' c'"
  proof (cases room)
    case True
    then show ?thesis using append_tail_ok [OF o m, of s] room cl by (simp add: u_addReplyStringToList_def)
  next
    case False
    obtain h1 a where cr: "createStringObject env s h = (h1, a)" by fastforce
    note n = createStringObject_ok [OF o m cr]
    show ?thesis using add_node_grown [OF n(2) _ _ _ n(4), of s "sdssize env 0 (length s)"] raw_content [OF n(3)] room(1) False cl cr
      by (simp add: u_addReplyStringToList_def)
  qed
  show "\<exists>h' c'. u_addReplySdsToList env s z (h, c) = Some (h', c') \<and> grown E s h c h' c'"
  proof (cases room)
    case True
    then show ?thesis using append_tail_ok [OF o m, of s] room cl by (simp add: u_addReplySdsToList_def)
  next
    case False
    obtain h1 a where cr: "createObject env REDIS_STRING (Some (Raw s)) z h = (h1, a)" by fastforce
    note n = createObject_ok [OF o m cr]
    show ?thesis using add_node_grown [OF n(2) _ _ _ n(4), of s z] raw_content [OF n(3)] room(1) False cl cr
      by (simp add: u_addReplySdsToList_def)
  qed
  show "\<exists>h' c'. u_addReplyObjectToList env a (h, c) = Some (h', c') \<and> grown E (bytes h a) h c h' c'"
    if a: "a \<in># E" "raw_at h a"
  proof -
    obtain ob t where ob: "h a = Some ob" "optr ob = Some (Raw t)" "bytes h a = t" "osz h a = osize ob"
      using raw_obj [OF a(2)] by blast
    obtain room where room: "tail_room (length t) (h, c) = Some room" "room \<longrightarrow> reply c \<noteq> [] \<and> raw_at h (last (reply c))"
      using tail_room_ok [OF l] by blast
    show ?thesis
    proof (cases room)
      case True
      then show ?thesis using append_tail_ok [OF o m, of t] room cl ob by (simp add: u_addReplyObjectToList_def)
    next
      case False
      have "a \<in># ?R" using a(1) by simp
      from incrRefCount_ok [OF o this] obtain h1 where i: "incrRefCount a h = Some h1" "owned h1 (add_mset a ?R)" "unchanged UNIV h h1"
        by blast
      have un: "unchanged (set_mset ?R) h h1" using i(3) by (auto intro: unchanged_mono)
      have "raw_at h1 a" "bytes h1 a = t" "osz h1 a = osize ob"
        using unchanged_raw [OF i(3)] unchanged_bytes [OF i(3)] unchanged_osz [OF i(3)] a(2) ob by simp_all
      then show ?thesis using add_node_grown [OF i(2) _ _ _ un, of t "osize ob"] room(1) False cl ob i(1)
        by (simp add: u_addReplyObjectToList_def)
    qed
  qed
qed

section \<open>What is to be sent\<close>

definition unsent :: "objs \<Rightarrow> rclient \<Rightarrow> byte list" where
  "unsent h c = drop (sentlen c) (buf c @ texts h (reply c))"

text \<open>
  The invariant, for references \<open>E\<close> of others. The bytes already sent are of the buffer or of the
  first object; the write handler is there when something is to be sent; the account of the
  memory is not below what the objects take.
\<close>

definition sent_ok :: "objs \<Rightarrow> rclient \<Rightarrow> bool" where
  "sent_ok h c \<longleftrightarrow> sentlen c = 0 \<or>
     (if buf c \<noteq> [] then sentlen c < length (buf c)
      else reply c \<noteq> [] \<and> sentlen c < length (bytes h (hd (reply c))))"

definition rinv :: "addr multiset \<Rightarrow> objs \<Rightarrow> rclient \<Rightarrow> bool" where
  "rinv E h c \<longleftrightarrow> owned h (E + mset (reply c)) \<and> list_ok h c \<and> length (buf c) \<le> REDIS_REPLY_CHUNK_BYTES \<and> sent_ok h c \<and>
     (buf c \<noteq> [] \<or> reply c \<noteq> [] \<longrightarrow> online c \<longrightarrow> \<not> lua_client c \<longrightarrow> handler c) \<and>
     sizes h (reply c) \<le> reply_bytes c"

text \<open>
  A step that adds \<open>s\<close> to what is to be sent. It leaves alone what comes before a node whose
  length is not known yet.
\<close>

definition adds :: "addr multiset \<Rightarrow> byte list \<Rightarrow> objs \<Rightarrow> rclient \<Rightarrow> objs \<Rightarrow> rclient \<Rightarrow> bool" where
  "adds E s h c h' c' \<longleftrightarrow> rinv E h' c' \<and> unchanged (set_mset E) h h' \<and> unsent h' c' = unsent h c @ s \<and>
     c' = c\<lparr>buf := buf c', reply := reply c', reply_bytes := reply_bytes c', handler := handler c'\<rparr> \<and>
     (\<forall>b \<in> set (reply c'). hole_at h' b \<longrightarrow> b \<in> set (reply c) \<and> hole_at h b) \<and>
     (\<forall>xs a ys. reply c = xs @ a # ys \<and> hole_at h a \<longrightarrow> buf c' = buf c \<and>
       (\<exists>ys'. reply c' = xs @ a # ys' \<and> (a \<in> set ys' \<longrightarrow> a \<in> set ys) \<and> unchanged (insert a (set xs)) h h' \<and>
         texts h' ys' = texts h ys @ s))"

lemma adds_refl: "rinv E h c \<Longrightarrow> adds E [] h c h c"
  by (simp add: adds_def)

lemma adds_trans:
  assumes 1: "adds E s h c h1 c1" and 2: "adds E t h1 c1 h2 c2"
  shows "adds E (s @ t) h c h2 c2"
  unfolding adds_def
proof (intro conjI allI impI)
  show "\<forall>b \<in> set (reply c2). hole_at h2 b \<longrightarrow> b \<in> set (reply c) \<and> hole_at h b" using 1 2 by (simp add: adds_def)
  show "rinv E h2 c2" "unsent h2 c2 = unsent h c @ s @ t" using 1 2 by (simp_all add: adds_def)
  show "unchanged (set_mset E) h h2" using 1 2 by (auto simp: adds_def intro: unchanged_trans)
  have e1: "c1 = c\<lparr>buf := buf c1, reply := reply c1, reply_bytes := reply_bytes c1, handler := handler c1\<rparr>"
    and e2: "c2 = c1\<lparr>buf := buf c2, reply := reply c2, reply_bytes := reply_bytes c2, handler := handler c2\<rparr>"
    using 1 2 by (simp_all add: adds_def)
  show "c2 = c\<lparr>buf := buf c2, reply := reply c2, reply_bytes := reply_bytes c2, handler := handler c2\<rparr>"
    by (subst e2, subst e1) simp
  fix xs a ys
  assume h: "reply c = xs @ a # ys \<and> hole_at h a"
  then obtain ys1 where y1: "buf c1 = buf c" "reply c1 = xs @ a # ys1" "a \<in> set ys1 \<longrightarrow> a \<in> set ys" "unchanged (insert a (set xs)) h h1" "texts h1 ys1 = texts h ys @ s"
    using 1 unfolding adds_def by blast
  have "hole_at h1 a" using unchanged_hole [OF y1(4)] h by simp
  then obtain ys2 where y2: "buf c2 = buf c1" "reply c2 = xs @ a # ys2" "a \<in> set ys2 \<longrightarrow> a \<in> set ys1" "unchanged (insert a (set xs)) h1 h2" "texts h2 ys2 = texts h1 ys1 @ t"
    using 2 y1(2) unfolding adds_def by blast
  show "buf c2 = buf c" using y1(1) y2(1) by simp
  show "\<exists>ys'. reply c2 = xs @ a # ys' \<and> (a \<in> set ys' \<longrightarrow> a \<in> set ys) \<and> unchanged (insert a (set xs)) h h2 \<and>
      texts h2 ys' = texts h ys @ s @ t"
    using y1 y2 unchanged_trans [OF y1(4) y2(4)] by (intro exI [of _ ys2]) simp
qed

lemma sent_le: "sent_ok h c \<Longrightarrow> sentlen c \<le> length (buf c @ texts h (reply c))"
  by (cases "reply c") (auto simp: sent_ok_def split: if_split_asm)

definition ready :: "rclient \<Rightarrow> bool" where
  "ready c \<longleftrightarrow> (online c \<longrightarrow> \<not> lua_client c \<longrightarrow> handler c)"

lemma buffer_adds:
  assumes i: "rinv E h c" and r: "ready c" and b: "u_addReplyToBuffer s c = (c', True)" and cl: "\<not> closing c"
  shows "adds E s h c h c'"
proof -
  have c: "reply c = []" "length (buf c @ s) \<le> REDIS_REPLY_CHUNK_BYTES" "c' = c\<lparr>buf := buf c @ s\<rparr>"
    using b cl i by (auto simp: u_addReplyToBuffer_def Let_def rinv_def split: if_split_asm)
  have "sent_ok h c'" using i c by (auto simp: rinv_def sent_ok_def split: if_split_asm)
  then have "rinv E h c'" using i c r by (simp add: rinv_def list_ok_def ready_def)
  moreover have "unsent h c' = unsent h c @ s"
    using i c sent_le [of h c] by (simp add: unsent_def rinv_def)
  ultimately show ?thesis using c by (simp add: adds_def)
qed

lemma grown_adds:
  assumes i: "rinv E h c" and r: "ready c" and g: "grown E s h c h' c'"
  shows "adds E s h c h' c'"
proof -
  obtain as t where g1: "owned h' (E + mset (reply c'))" "c' = c\<lparr>reply := reply c', reply_bytes := reply_bytes c'\<rparr>"
    "reply_bytes c' - sizes h' (reply c') = reply_bytes c - sizes h (reply c)"
    "reply c' = as @ [t]" "raw_at h' t" "unchanged (set_mset E \<union> set as) h h'"
    "reply c = as \<and> bytes h' t = s \<or> (\<exists>u. reply c = as @ [u] \<and> raw_at h u \<and> bytes h' t = bytes h u @ s)"
    using g unfolding grown_def by blast
  have sel: "buf c' = buf c" "sentlen c' = sentlen c" "online c' = online c" "lua_client c' = lua_client c" "handler c' = handler c"
    by (subst g1(2), simp)+
  have unE: "unchanged (set_mset E) h h'" and una: "unchanged (set as) h h'" using g1(6) by (auto intro: unchanged_mono)
  have tx: "texts h' (reply c') = texts h (reply c) @ s"
    using g1(4,7) unchanged_texts [OF una] by auto
  have l: "list_ok h' c'"
    unfolding list_ok_def
  proof
    fix b assume "b \<in> set (reply c')"
    then show "raw_at h' b \<or> hole_at h' b"
      using g1(4,5,7) unchanged_raw [OF una, of b] unchanged_hole [OF una, of b] i by (auto simp: rinv_def list_ok_def)
  qed
  have so: "sent_ok h' c'"
  proof (cases "sentlen c = 0 \<or> buf c \<noteq> []")
    case True
    then show ?thesis using i sel by (auto simp: rinv_def sent_ok_def)
  next
    case False
    then have s: "reply c \<noteq> []" "sentlen c < length (bytes h (hd (reply c)))" using i by (auto simp: rinv_def sent_ok_def)
    have "length (bytes h (hd (reply c))) \<le> length (bytes h' (hd (reply c')))"
    proof (cases as)
      case Nil
      then show ?thesis using g1(4,7) s(1) by auto
    next
      case (Cons x xs)
      then have "hd (reply c) = x" "hd (reply c') = x" "x \<in> set as" using g1(4,7) by auto
      then show ?thesis using unchanged_bytes [OF una] by simp
    qed
    then show ?thesis using False s sel g1(4) by (simp add: sent_ok_def)
  qed
  have "sizes h' (reply c') \<le> reply_bytes c'" using g1(3) i by (simp add: rinv_def)
  then have "rinv E h' c'" using g1(1) l so sel i r by (simp add: rinv_def ready_def)
  moreover have "unsent h' c' = unsent h c @ s"
    using tx sel i sent_le [of h c] by (simp add: unsent_def rinv_def)
  moreover have "c' = c\<lparr>buf := buf c', reply := reply c', reply_bytes := reply_bytes c', handler := handler c'\<rparr>"
    by (subst g1(2)) (simp add: sel)
  moreover have "\<forall>b \<in> set (reply c'). hole_at h' b \<longrightarrow> b \<in> set (reply c) \<and> hole_at h b"
  proof (intro ballI impI)
    fix b assume b: "b \<in> set (reply c')" "hole_at h' b"
    then have "b \<noteq> t" using g1(5) by (auto simp: raw_at_def hole_at_def)
    then have "b \<in> set as" using b(1) g1(4) by simp
    then show "b \<in> set (reply c) \<and> hole_at h b" using g1(7) unchanged_hole [OF una] b(2) by auto
  qed
  moreover have "buf c' = buf c \<and> (\<exists>ys'. reply c' = xs @ a # ys' \<and> (a \<in> set ys' \<longrightarrow> a \<in> set ys) \<and> unchanged (insert a (set xs)) h h' \<and> texts h' ys' = texts h ys @ s)"
    if rc: "reply c = xs @ a # ys" "hole_at h a" for xs a ys
  proof -
    have nr: "\<not> raw_at h a" using rc(2) by (auto simp: raw_at_def hole_at_def)
    have "a \<in> set (reply c)" using rc(1) by simp
    then have "a \<in> set as" using g1(7) nr by auto
    then have "\<not> raw_at h' a" using unchanged_raw [OF una] nr by simp
    then have ta: "t \<noteq> a" using g1(5) by blast
    from g1(7) show ?thesis
    proof (elim disjE exE conjE)
      assume "reply c = as" "bytes h' t = s"
      then have "as = xs @ a # ys" using rc(1) by simp
      then show ?thesis using g1(4) sel(1) unchanged_texts [OF una, of ys] \<open>bytes h' t = s\<close> una ta
        by (intro conjI exI [of _ "ys @ [t]"]) (auto intro: unchanged_mono)
    next
      fix u assume u: "reply c = as @ [u]" "raw_at h u" "bytes h' t = bytes h u @ s"
      then have "ys \<noteq> []" using rc nr by auto
      then obtain zs where ys: "ys = zs @ [u]" "as = xs @ a # zs" using rc(1) u(1) by (cases ys rule: rev_cases) auto
      then show ?thesis using g1(4) sel(1) unchanged_texts [OF una, of zs] u(3) una ta
        by (intro conjI exI [of _ "zs @ [t]"]) (auto intro: unchanged_mono)
    qed
  qed
  ultimately show ?thesis using unE unfolding adds_def by blast
qed

section \<open>The operations\<close>

definition accepts :: "bool \<Rightarrow> rclient \<Rightarrow> bool" where
  "accepts ae c \<longleftrightarrow> snd (prepareClientToWrite ae c) \<and> \<not> closing c"

lemma prepare_ok:
  assumes "rinv E h c" "prepareClientToWrite ae c = (c1, ok)"
  shows "rinv E h c1" "c1 = c\<lparr>handler := handler c1\<rparr>" "ok \<Longrightarrow> ready c1" "adds E [] h c h c1"
proof -
  show i: "rinv E h c1" and c: "c1 = c\<lparr>handler := handler c1\<rparr>" and "ok \<Longrightarrow> ready c1"
    using assms by (auto simp: prepareClientToWrite_def rinv_def list_ok_def sent_ok_def ready_def split: if_split_asm)
  obtain x where x: "c1 = c\<lparr>handler := x\<rparr>" using c by blast
  have "unsent h c1 = unsent h c" unfolding x by (simp add: unsent_def)
  moreover have "c1 = c\<lparr>buf := buf c1, reply := reply c1, reply_bytes := reply_bytes c1, handler := handler c1\<rparr>"
    unfolding x by simp
  moreover have "reply c1 = reply c" "buf c1 = buf c" unfolding x by simp_all
  ultimately show "adds E [] h c h c1" using i by (simp add: adds_def)
qed

lemma closing_buffer: "closing c \<Longrightarrow> u_addReplyToBuffer s c = (c, True)"
  by (simp add: u_addReplyToBuffer_def)

lemma buffer_False: "u_addReplyToBuffer s c = (c', False) \<Longrightarrow> c' = c"
  by (auto simp: u_addReplyToBuffer_def Let_def split: if_split_asm)

text \<open>
  The shape of every reply operation: the client is prepared, the bytes go to the buffer if they
  fit, and otherwise to the list.
\<close>

lemma by_buffer:
  assumes i: "rinv E h c" and r: "ready c"
    and l: "\<not> closing c \<Longrightarrow> \<exists>h' c'. f c = Some (h', c') \<and> grown E s h c h' c'"
  shows "\<exists>h' c'. (case u_addReplyToBuffer s c of (c, True) \<Rightarrow> Some (h, c) | (c, False) \<Rightarrow> f c) = Some (h', c') \<and>
    adds E (if closing c then [] else s) h c h' c'"
proof (cases "closing c")
  case True
  then show ?thesis using closing_buffer [OF True] adds_refl [OF i] by simp
next
  case False
  obtain c1 ok where b: "u_addReplyToBuffer s c = (c1, ok)" by fastforce
  show ?thesis
  proof (cases ok)
    case True
    then show ?thesis using b False buffer_adds [OF i r, of s c1] by simp
  next
    case n: False
    have "c1 = c" by (rule buffer_False) (use b n in simp)
    then show ?thesis using b n False l [OF False] grown_adds [OF i r] by auto
  qed
qed

lemma adds_closing: "adds E s h c h' c' \<Longrightarrow> closing c' = closing c"
  unfolding adds_def by (elim conjE) (metis (no_types, lifting) rclient.select_convs(6) rclient.surjective rclient.update_convs)

lemma adds_rinv: "adds E s h c h' c' \<Longrightarrow> rinv E h' c'"
  by (simp add: adds_def)

lemma rinvD: "rinv E h c \<Longrightarrow> owned h (E + mset (reply c))" "rinv E h c \<Longrightarrow> list_ok h c"
  by (simp_all add: rinv_def)

text \<open>An operation that prepares the client, then does \<open>g\<close>.\<close>

lemma prepared:
  assumes i: "rinv E h c"
    and g: "\<And>c1. rinv E h c1 \<Longrightarrow> ready c1 \<Longrightarrow>
      \<exists>h' c'. g c1 = Some (h', c') \<and> adds E (if closing c1 then [] else s) h c1 h' c'"
  shows "\<exists>h' c'. (case prepareClientToWrite ae c of (c, False) \<Rightarrow> Some (h, c) | (c, True) \<Rightarrow> g c) = Some (h', c') \<and>
    adds E (if accepts ae c then s else []) h c h' c'"
proof -
  obtain c1 ok where p: "prepareClientToWrite ae c = (c1, ok)" by fastforce
  note q = prepare_ok [OF i p]
  have cl: "closing c1 = closing c" by (subst q(2)) simp
  show ?thesis
  proof (cases ok)
    case True
    then obtain h' c' where "g c1 = Some (h', c')" "adds E (if closing c1 then [] else s) h c1 h' c'"
      using g [OF q(1,3)] by blast
    then show ?thesis using True p cl adds_trans [OF q(4), of "if closing c1 then [] else s" h' c'] by (auto simp: accepts_def)
  next
    case False
    then show ?thesis using p q(4) by (simp add: accepts_def)
  qed
qed

lemma addReplyString_ok:
  assumes i: "rinv E h c" and m: "good_malloc env"
  shows "\<exists>h' c'. addReplyString env ae s (h, c) = Some (h', c') \<and> adds E (if accepts ae c then s else []) h c h' c'"
  unfolding addReplyString_def prod.case
proof (rule prepared [OF i])
  fix c1 assume q: "rinv E h c1" "ready c1"
  show "\<exists>h' c'. (case u_addReplyToBuffer s c1 of (c, True) \<Rightarrow> Some (h, c) | (c, False) \<Rightarrow> u_addReplyStringToList env s (h, c)) = Some (h', c') \<and>
    adds E (if closing c1 then [] else s) h c1 h' c'"
    by (rule by_buffer [OF q, where f = "\<lambda>c. u_addReplyStringToList env s (h, c)", OF list_adds(1) [OF rinvD(1) [OF q(1)] m rinvD(2) [OF q(1)]]])
qed

lemma addReplySds_ok:
  assumes i: "rinv E h c" and m: "good_malloc env"
  shows "\<exists>h' c'. addReplySds env ae s z (h, c) = Some (h', c') \<and> adds E (if accepts ae c then s else []) h c h' c'"
  unfolding addReplySds_def prod.case
proof (rule prepared [OF i])
  fix c1 assume q: "rinv E h c1" "ready c1"
  show "\<exists>h' c'. (case u_addReplyToBuffer s c1 of (c, True) \<Rightarrow> Some (h, c) | (c, False) \<Rightarrow> u_addReplySdsToList env s z (h, c)) = Some (h', c') \<and>
    adds E (if closing c1 then [] else s) h c1 h' c'"
    by (rule by_buffer [OF q, where f = "\<lambda>c. u_addReplySdsToList env s z (h, c)", OF list_adds(2) [OF rinvD(1) [OF q(1)] m rinvD(2) [OF q(1)]]])
qed

text \<open>Objects: those others hold, raw or encoded.\<close>

lemma add_raw_ok:
  assumes i: "rinv E h c" and r: "ready c" and m: "good_malloc env" and a: "a \<in># E" "raw_at h a"
  shows "\<exists>h' c'. add_raw env a (h, c) = Some (h', c') \<and> adds E (if closing c then [] else bytes h a) h c h' c'"
proof -
  obtain ob s where ob: "h a = Some ob" "optr ob = Some (Raw s)" "bytes h a = s" using raw_obj [OF a(2)] by blast
  have e: "add_raw env a (h, c) = (case u_addReplyToBuffer s c of (c, True) \<Rightarrow> Some (h, c) | (c, False) \<Rightarrow> u_addReplyObjectToList env a (h, c))"
    using ob by (simp add: add_raw_def)
  show ?thesis unfolding e ob(3)
    by (rule by_buffer [OF i r, where f = "\<lambda>c. u_addReplyObjectToList env a (h, c)", OF list_adds(3) [OF rinvD(1) [OF i] m rinvD(2) [OF i] _ a, unfolded ob(3)]])
qed

lemma rinv_release:
  assumes "rinv (add_mset b E) h c"
  shows "\<exists>h'. decrRefCount b h = Some h' \<and> rinv E h' c \<and> unchanged (set_mset (E + mset (reply c))) h h'"
proof -
  let ?R = "E + mset (reply c)"
  have o: "owned h (add_mset b ?R)" using rinvD(1) [OF assms] by simp
  obtain h' where d: "decrRefCount b h = Some h'" "owned h' ?R" "unchanged (set_mset ?R) h h'"
    using decrRefCount_ok [OF o, of b] by auto
  have u: "unchanged (set (reply c)) h h'" using d(3) by (auto intro: unchanged_mono)
  have "list_ok h' c" using assms unchanged_raw [OF u] unchanged_hole [OF u] by (auto simp: rinv_def list_ok_def)
  moreover have "sent_ok h' c" using assms unchanged_bytes [OF u, of "hd (reply c)"] by (auto simp: rinv_def sent_ok_def)
  moreover have "sizes h' (reply c) = sizes h (reply c)" by (rule unchanged_sizes [OF u]) simp
  ultimately show ?thesis using d assms by (auto simp: rinv_def)
qed

lemma rinv_hold:
  assumes "rinv E h c" and o: "owned h' (add_mset b (E + mset (reply c)))" and un: "unchanged (set_mset (E + mset (reply c))) h h'"
  shows "rinv (add_mset b E) h' c"
proof -
  have u: "unchanged (set (reply c)) h h'" using un by (auto intro: unchanged_mono)
  have "list_ok h' c" using assms(1) unchanged_raw [OF u] unchanged_hole [OF u] by (auto simp: rinv_def list_ok_def)
  moreover have "sent_ok h' c" using assms(1) unchanged_bytes [OF u, of "hd (reply c)"] by (auto simp: rinv_def sent_ok_def)
  moreover have "sizes h' (reply c) = sizes h (reply c)" by (rule unchanged_sizes [OF u]) simp
  ultimately show ?thesis using o assms(1) by (auto simp: rinv_def)
qed

lemma add_decoded_ok:
  assumes i: "rinv E h c" and r: "ready c" and m: "good_malloc env"
    and a: "a \<in># E" "content h a = Some (REDIS_STRING, Some p, sz)"
  shows "\<exists>h' c'. add_decoded env a (h, c) = Some (h', c') \<and> adds E (if closing c then [] else getDecodedObject p) h c h' c'"
proof -
  let ?R = "E + mset (reply c)"
  obtain h1 b z where d: "decoded_object env a h = Some (h1, b)" "owned h1 (add_mset b ?R)"
    "content h1 b = Some (REDIS_STRING, Some (Raw (getDecodedObject p)), z)" "unchanged (set_mset ?R) h h1"
    using decoded_object_ok [OF rinvD(1) [OF i] m _ a(2)] a(1) by auto
  have i1: "rinv (add_mset b E) h1 c" by (rule rinv_hold [OF i d(2,4)])
  note b = raw_content [OF d(3)]
  obtain h2 c2 where w: "add_raw env b (h1, c) = Some (h2, c2)" "adds (add_mset b E) (if closing c then [] else bytes h1 b) h1 c h2 c2"
    using add_raw_ok [OF i1 r m, of b] b by (metis union_single_eq_member)
  obtain h3 where q: "decrRefCount b h2 = Some h3" "rinv E h3 c2" "unchanged (set_mset (E + mset (reply c2))) h2 h3"
    using rinv_release [OF adds_rinv [OF w(2)]] by blast
  have e: "add_decoded env a (h, c) = Some (h3, c2)" using d(1) w(1) q(1) by (simp add: add_decoded_def)
  have u1: "unchanged (set_mset E \<union> set (reply c)) h h1" using d(4) by simp
  have u2: "unchanged (set_mset E) h1 h2" using w(2) by (auto simp: adds_def intro: unchanged_mono)
  have u3: "unchanged (set_mset E \<union> set (reply c2)) h2 h3" using q(3) by simp
  have p1: "unsent h1 c = unsent h c" using unchanged_texts [OF u1, of "reply c"] by (simp add: unsent_def)
  have p2: "unsent h3 c2 = unsent h2 c2" using unchanged_texts [OF u3, of "reply c2"] by (simp add: unsent_def)
  have "adds E (if closing c then [] else getDecodedObject p) h c h3 c2"
    unfolding adds_def
  proof (intro conjI allI impI)
    show "\<forall>x \<in> set (reply c2). hole_at h3 x \<longrightarrow> x \<in> set (reply c) \<and> hole_at h x"
    proof (intro ballI impI)
      fix x assume x: "x \<in> set (reply c2)" "hole_at h3 x"
      then have "hole_at h2 x" using unchanged_hole [OF u3] by simp
      then have "x \<in> set (reply c) \<and> hole_at h1 x" using w(2) x(1) by (simp add: adds_def)
      then show "x \<in> set (reply c) \<and> hole_at h x" using unchanged_hole [OF u1, of x] by auto
    qed
    show "rinv E h3 c2" by (rule q(2))
    show "unchanged (set_mset E) h h3"
      using u1 u2 u3 by (auto simp: unchanged_def)
    show "unsent h3 c2 = unsent h c @ (if closing c then [] else getDecodedObject p)"
      using w(2) p1 p2 b by (simp add: adds_def)
    show "c2 = c\<lparr>buf := buf c2, reply := reply c2, reply_bytes := reply_bytes c2, handler := handler c2\<rparr>"
      using w(2) by (simp add: adds_def)
    fix xs x ys assume h: "reply c = xs @ x # ys \<and> hole_at h x"
    then have "hole_at h1 x" using unchanged_hole [OF u1] by simp
    then obtain ys' where y: "buf c2 = buf c" "reply c2 = xs @ x # ys'" "x \<in> set ys' \<longrightarrow> x \<in> set ys" "unchanged (insert x (set xs)) h1 h2"
      "texts h2 ys' = texts h1 ys @ (if closing c then [] else bytes h1 b)"
      using w(2) h unfolding adds_def by blast
    show "buf c2 = buf c" by (rule y(1))
    have "unchanged (insert x (set xs)) h h3" using u1 u3 y(2,4) h by (auto simp: unchanged_def)
    moreover have "texts h3 ys' = texts h2 ys'" by (rule unchanged_texts [OF u3]) (use y(2) in auto)
    moreover have "texts h1 ys = texts h ys" by (rule unchanged_texts [OF u1]) (use h in auto)
    ultimately show "\<exists>ys'. reply c2 = xs @ x # ys' \<and> (x \<in> set ys' \<longrightarrow> x \<in> set ys) \<and> unchanged (insert x (set xs)) h h3 \<and>
        texts h3 ys' = texts h ys @ (if closing c then [] else getDecodedObject p)"
      using y(2,3,5) b by (intro exI [of _ ys']) simp
  qed
  then show ?thesis using e by blast
qed

lemma addReply_ok:
  assumes i: "rinv E h c" and m: "good_malloc env" and a: "a \<in># E" "content h a = Some (REDIS_STRING, Some p, sz)"
  shows "\<exists>h' c'. addReply env ae a (h, c) = Some (h', c') \<and> adds E (if accepts ae c then getDecodedObject p else []) h c h' c'"
  unfolding addReply_def prod.case
proof (rule prepared [OF i])
  fix c1 assume q: "rinv E h c1" "ready c1"
  obtain ob where ob: "h a = Some ob" "optr ob = Some p" using a(2) by (auto simp: content_def)
  show "\<exists>h' c'. (do {
         ob \<leftarrow> h a;
         (case optr ob of
            Some (IntEnc p) \<Rightarrow>
              if reply c1 = [] \<and> REDIS_REPLY_CHUNK_BYTES - length (buf c1) \<ge> 32
              then (case u_addReplyToBuffer (int_text p) c1 of
                      (c, True) \<Rightarrow> Some (h, c)
                    | (c, False) \<Rightarrow> add_decoded env a (h, c))
              else add_decoded env a (h, c1)
          | _ \<Rightarrow> add_raw env a (h, c1)) }) = Some (h', c') \<and>
    adds E (if closing c1 then [] else getDecodedObject p) h c1 h' c'"
  proof (cases p)
    case (Raw s)
    then have "raw_at h a" "bytes h a = s" using a(2) raw_content by blast+
    then show ?thesis using add_raw_ok [OF q m a(1)] ob Raw by (cases "closing c1") simp_all
  next
    case (IntEnc i)
    obtain c2 ok where b: "u_addReplyToBuffer (int_text i) c1 = (c2, ok)" by fastforce
    show ?thesis
    proof (cases "reply c1 = [] \<and> REDIS_REPLY_CHUNK_BYTES - length (buf c1) \<ge> 32 \<and> ok")
      case True
      then show ?thesis using ob IntEnc b buffer_adds [OF q, of "int_text i" c2] closing_buffer [of c1] adds_refl [OF q(1)]
        by (cases "closing c1") simp_all
    next
      case False
      have "\<not> ok \<Longrightarrow> c2 = c1" by (rule buffer_False) (use b in simp)
      then show ?thesis using False ob IntEnc b add_decoded_ok [OF q m a] by (cases ok) auto
    qed
  qed
qed

end
