(* ===== verification/Reply_Ops.thy ===== *)
theory Reply_Ops
  imports Reply_Correct
begin

text \<open>
  The replies commands make: each adds the bytes of the protocol. A reply is a sequence of
  additions; it is lost as a whole when the client takes none.
\<close>

section \<open>Sequences\<close>

text \<open>
  Between two additions the client goes on taking bytes, once it took some: only a failing
  \<open>aeCreateFileEvent\<close> could stop it, and it is called for the first byte only.
\<close>

text \<open>A client that takes bytes whatever happens to its write handler.\<close>

definition normal :: "rclient \<Rightarrow> bool" where
  "normal c \<longleftrightarrow> \<not> closing c \<and> (lua_client c \<or> (\<not> master_client c \<or> force_reply c) \<and> connected c)"

lemma adds_sel:
  assumes "adds E s h c h' c'"
  shows "closing c' = closing c" "lua_client c' = lua_client c" "master_client c' = master_client c"
    "force_reply c' = force_reply c" "connected c' = connected c" "online c' = online c" "sentlen c' = sentlen c"
proof -
  have e: "c' = c\<lparr>buf := buf c', reply := reply c', reply_bytes := reply_bytes c', handler := handler c'\<rparr>"
    using assms by (simp add: adds_def)
  show "closing c' = closing c" "lua_client c' = lua_client c" "master_client c' = master_client c"
    "force_reply c' = force_reply c" "connected c' = connected c" "online c' = online c" "sentlen c' = sentlen c"
    by (subst e, simp)+
qed

lemma normal_adds: "normal c \<Longrightarrow> adds E s h c h' c' \<Longrightarrow> normal c'"
  using adds_sel [of E s h c h' c'] by (simp add: normal_def)

lemma normal_accepts: "normal c \<Longrightarrow> accepts True c"
  by (auto simp: normal_def accepts_def prepareClientToWrite_def)

text \<open>
  \<open>emits E env h c f s\<close>: the operation \<open>f\<close> adds \<open>s\<close>. It is the form in which the operations are
  composed.
\<close>

definition emits :: "addr multiset \<Rightarrow> (rstate \<Rightarrow> rstate option) \<Rightarrow> byte list \<Rightarrow> rstate \<Rightarrow> bool" where
  "emits E f s st \<longleftrightarrow> (\<exists>h' c'. f st = Some (h', c') \<and> adds E s (fst st) (snd st) h' c' \<and> normal c')"

lemma emitsI: "f (h, c) = Some (h', c') \<Longrightarrow> adds E s h c h' c' \<Longrightarrow> normal c \<Longrightarrow> emits E f s (h, c)"
  using normal_adds by (fastforce simp: emits_def)

lemma emits_bind:
  assumes "emits E f s st" and "\<And>h' c'. adds E s (fst st) (snd st) h' c' \<Longrightarrow> normal c' \<Longrightarrow> emits E g t (h', c')"
  shows "emits E (\<lambda>st. do { st \<leftarrow> f st; g st }) (s @ t) st"
proof -
  obtain h1 c1 where 1: "f st = Some (h1, c1)" "adds E s (fst st) (snd st) h1 c1" "normal c1"
    using assms(1) unfolding emits_def by blast
  obtain h2 c2 where 2: "g (h1, c1) = Some (h2, c2)" "adds E t h1 c1 h2 c2" "normal c2"
    using assms(2) [OF 1(2,3)] unfolding emits_def fst_conv snd_conv by blast
  have "(do { st \<leftarrow> f st; g st }) = Some (h2, c2)" using 1(1) 2(1) by simp
  then show ?thesis unfolding emits_def using adds_trans [OF 1(2) 2(2)] 2(3) by blast
qed

section \<open>The replies\<close>

text \<open>
  What the operations need: an allocator, the shared objects among the references \<open>E\<close>, and a
  client that takes replies.
\<close>

definition serves :: "oenv \<Rightarrow> addr multiset \<Rightarrow> rstate \<Rightarrow> bool" where
  "serves env E st \<longleftrightarrow> good_malloc env \<and> shared_ok env (fst st) E \<and> rinv E (fst st) (snd st) \<and> normal (snd st)"

lemma serves_adds: "serves env E st \<Longrightarrow> adds E s (fst st) (snd st) h' c' \<Longrightarrow> normal c' \<Longrightarrow> serves env E (h', c')"
  using shared_ok_mono [of env "fst st" E h' E] by (auto simp: serves_def adds_def)

lemma emits_serves:
  assumes "serves env E st" "emits E f s st"
  shows "\<exists>h' c'. f st = Some (h', c') \<and> serves env E (h', c') \<and> unchanged (set_mset E) (fst st) h' \<and>
    unsent h' c' = unsent (fst st) (snd st) @ s \<and> adds E s (fst st) (snd st) h' c'"
proof -
  obtain h' c' where "f st = Some (h', c')" "adds E s (fst st) (snd st) h' c'" "normal c'"
    using assms(2) unfolding emits_def by blast
  then show ?thesis using serves_adds [OF assms(1)] unfolding adds_def by blast
qed

lemma emits_then:
  assumes "serves env E st" "emits E f s st" "\<And>st'. serves env E st' \<Longrightarrow> unchanged (set_mset E) (fst st) (fst st') \<Longrightarrow> emits E g t st'"
  shows "emits E (\<lambda>st. do { st \<leftarrow> f st; g st }) (s @ t) st"
proof (rule emits_bind [OF assms(2)])
  fix h' c' assume "adds E s (fst st) (snd st) h' c'" "normal c'"
  then show "emits E g t (h', c')" using assms(3) [of "(h', c')"] serves_adds [OF assms(1)] by (auto simp: adds_def)
qed

lemma emit_string: "serves env E st \<Longrightarrow> emits E (addReplyString env True s) s st"
  using addReplyString_ok [of E "fst st" "snd st" env True s] normal_accepts
  by (cases st) (fastforce simp: serves_def intro: emitsI)

lemma emit_sds: "serves env E st \<Longrightarrow> emits E (addReplySds env True s z) s st"
  using addReplySds_ok [of E "fst st" "snd st" env True s z] normal_accepts
  by (cases st) (fastforce simp: serves_def intro: emitsI)

lemma emit_object:
  assumes "serves env E st" "a \<in># E" "content (fst st) a = Some (REDIS_STRING, Some p, sz)"
  shows "emits E (addReply env True a) (getDecodedObject p) st"
proof -
  have s: "rinv E (fst st) (snd st)" "good_malloc env" "normal (snd st)" using assms(1) by (simp_all add: serves_def)
  show ?thesis
    using addReply_ok [OF s(1,2) assms(2,3), of True] normal_accepts [OF s(3)] s(3) by (cases st) (auto intro: emitsI)
qed

lemma emit_shared:
  assumes "serves env E st" "shared_exists n"
  shows "emits E (addReply env True (shared env n)) (getDecodedObject (shared_value n)) st"
  using shared_okD [of env "fst st" E n] assms by (auto simp: serves_def intro: emit_object [OF assms(1)])

definition reply_error :: "byte list \<Rightarrow> byte list" where "reply_error s = ascii ''-ERR '' @ s @ [13, 10]"
definition reply_int :: "int \<Rightarrow> byte list" where "reply_int n = 58 # decimal n @ [13, 10]"
definition reply_header :: "byte \<Rightarrow> int \<Rightarrow> byte list" where "reply_header ch n = ch # decimal n @ [13, 10]"
definition reply_bulk :: "byte list \<Rightarrow> byte list" where "reply_bulk s = reply_header 36 (int (length s)) @ s @ [13, 10]"

lemma ll_text_decimal:
  assumes "fits 8 v" "20 < n"
  shows "ll_text n v = Some (decimal v)"
proof -
  have "length (decimal v) < n" using length_decimal_le [OF assms(1)] assms(2) by simp
  then show ?thesis using ll2string_eq [OF assms(1), of n "replicate n 0"] by (simp add: ll_text_def)
qed

lemma emit_error: "serves env E st \<Longrightarrow> emits E (addReplyErrorString env True s) (reply_error s) st"
  unfolding addReplyErrorString_def reply_error_def
  by (rule emits_then [OF _ emit_string], assumption, assumption)
    (rule emits_then [OF _ emit_string], assumption, assumption, erule emit_string)

lemma emit_status: "serves env E st \<Longrightarrow> emits E (addReplyStatus env True s) ([43] @ s @ [13, 10]) st"
  unfolding addReplyStatus_def
  by (rule emits_then [OF _ emit_string], assumption, assumption)
    (rule emits_then [OF _ emit_string], assumption, assumption, erule emit_string)

lemma emit_prefix:
  assumes s: "serves env E st" and v: "fits 8 v" and z: "pre = 42 \<or> pre = 36 \<longrightarrow> 0 \<le> v"
  shows "emits E (addReplyLongLongWithPrefix env True v pre) (reply_header pre v) st"
proof -
  consider "pre = 42" "v < REDIS_SHARED_BULKHDR_LEN" | "pre = 36" "v < REDIS_SHARED_BULKHDR_LEN" |
    "\<not> (pre = 42 \<and> v < REDIS_SHARED_BULKHDR_LEN)" "\<not> (pre = 36 \<and> v < REDIS_SHARED_BULKHDR_LEN)" by blast
  then show ?thesis
  proof cases
    case 1
    then show ?thesis using emit_shared [OF s, of "Sh_mbulkhdr (nat v)"] z
      by (simp add: emits_def addReplyLongLongWithPrefix_def reply_header_def)
  next
    case 2
    then show ?thesis using emit_shared [OF s, of "Sh_bulkhdr (nat v)"] z
      by (simp add: emits_def addReplyLongLongWithPrefix_def reply_header_def)
  next
    case 3
    have "addReplyLongLongWithPrefix env True v pre st = addReplyString env True (pre # decimal v @ [13, 10]) st"
      unfolding addReplyLongLongWithPrefix_def if_not_P [OF 3(1)] if_not_P [OF 3(2)] using ll_text_decimal [OF v] by simp
    then show ?thesis using emit_string [OF s, of "pre # decimal v @ [13, 10]"] by (simp add: emits_def reply_header_def)
  qed
qed

lemma decimal_01: "decimal 0 = [48]" "decimal 1 = [49]"
  by (simp_all add: decimal_def dec_nat.simps)

lemma emit_int: "serves env E st \<Longrightarrow> fits 8 v \<Longrightarrow> emits E (addReplyLongLong env True v) (reply_int v) st"
  using emit_shared [of env E st Sh_czero] emit_shared [of env E st Sh_cone] emit_prefix [of env E st v 58]
  by (simp add: emits_def addReplyLongLong_def reply_int_def reply_header_def decimal_01 ascii_def)

lemma emit_multi: "serves env E st \<Longrightarrow> fits 8 v \<Longrightarrow> 0 \<le> v \<Longrightarrow> emits E (addReplyMultiBulkLen env True v) (reply_header 42 v) st"
  using emit_shared [of env E st "Sh_mbulkhdr (nat v)"] emit_prefix [of env E st v 42]
  by (simp add: emits_def addReplyMultiBulkLen_def reply_header_def)

lemma emit_buffer:
  assumes "serves env E st" "fits 8 (int (length s))"
  shows "emits E (addReplyBulkCBuffer env True s) (reply_bulk s) st"
proof -
  have crlf: "serves env E st' \<Longrightarrow> emits E (addReply env True (shared env Sh_crlf)) [13, 10] st'" for st'
    using emit_shared [of env E st' Sh_crlf] by simp
  show ?thesis
    unfolding addReplyBulkCBuffer_def reply_bulk_def
    by (rule emits_then [OF assms(1) emit_prefix [OF assms(1)]])
      (use assms(2) in \<open>auto intro: emits_then emit_string crlf\<close>)
qed

section \<open>Bulk replies of objects\<close>

lemma abs_sdiv_10: "nat \<bar>n sdiv 10\<bar> = nat \<bar>n\<bar> div 10"
  by (simp add: signed_divide_int_def abs_mult abs_sgn_eq nat_div_distrib)

lemma count_digits_eq: "count_digits n k + 1 = k + length (dec_nat (nat \<bar>n\<bar>))"
proof (induction n k rule: count_digits.induct)
  case (1 n k)
  have d: "n sdiv 10 = 0 \<longleftrightarrow> nat \<bar>n\<bar> < 10"
    using abs_sdiv_10 [of n] by (metis abs_eq_0 div_eq_0_iff nat_0_iff abs_ge_zero dual_order.antisym zero_neq_numeral)
  show ?case
  proof (cases "n sdiv 10 = 0")
    case True
    then have "count_digits n k = k" by (subst count_digits.simps) simp
    moreover have "length (dec_nat (nat \<bar>n\<bar>)) = 1" using True d by (simp add: dec_nat.simps)
    ultimately show ?thesis by simp
  next
    case False
    then have "count_digits n k = count_digits (n sdiv 10) (k + 1)" by (subst count_digits.simps) simp
    moreover have "length (dec_nat (nat \<bar>n\<bar>)) = length (dec_nat (nat \<bar>n\<bar> div 10)) + 1"
      using False d by (subst dec_nat.simps) simp
    ultimately show ?thesis using 1 [OF refl] False abs_sdiv_10 [of n] by simp
  qed
qed

lemma abs_sint_uminus: "sint p < 0 \<Longrightarrow> \<bar>sint (- p :: 64 word)\<bar> = - sint p"
proof -
  assume n: "sint p < 0"
  have r: "- (2 ^ 63) \<le> sint p" "sint p < 2 ^ 63" using sint_greater_eq [of p] sint_less [of p] by simp_all
  have m: "sint (- p) = signed_take_bit 63 (- sint p)" by (simp add: sint_word_minus)
  show ?thesis
  proof (cases "sint p = - (2 ^ 63)")
    case True
    then show ?thesis using m by simp
  next
    case False
    have "signed_take_bit 63 (- sint p) = - sint p" using r False by (intro signed_take_bit_int_eq_self) auto
    then show ?thesis using m n by simp
  qed
qed

lemma int_length_eq: "int_length p = length (int_text p)"
proof (cases "sint p < 0")
  case True
  then show ?thesis using count_digits_eq [of "sint (- p)" 2] abs_sint_uminus [OF True]
    by (simp add: int_length_def int_text_decimal decimal_def)
next
  case False
  then show ?thesis using count_digits_eq [of "sint p" 1] by (simp add: int_length_def int_text_decimal decimal_def)
qed

lemma emit_bulk:
  assumes s: "serves env E st" and a: "a \<in># E" "content (fst st) a = Some (REDIS_STRING, Some p, sz)"
    and z: "fits 8 (int (length (getDecodedObject p)))"
  shows "emits E (addReplyBulk env True a) (reply_bulk (getDecodedObject p)) st"
proof -
  let ?n = "int (length (getDecodedObject p))"
  obtain ob where ob: "fst st a = Some ob" "optr ob = Some p" using a(2) by (auto simp: content_def)
  have n: "addReplyBulkLen env True a st =
     (if ?n < REDIS_SHARED_BULKHDR_LEN then addReply env True (shared env (Sh_bulkhdr (nat ?n))) st
      else addReplyLongLongWithPrefix env True ?n 36 st)"
    using ob by (cases p) (simp_all add: addReplyBulkLen_def int_length_eq)
  have len: "emits E (addReplyBulkLen env True a) (reply_header 36 ?n) st"
    using n emit_shared [OF s, of "Sh_bulkhdr (nat ?n)"] emit_prefix [OF s z, of 36]
    by (cases "?n < REDIS_SHARED_BULKHDR_LEN") (simp_all add: emits_def reply_header_def)
  have crlf: "serves env E st' \<Longrightarrow> emits E (addReply env True (shared env Sh_crlf)) [13, 10] st'" for st'
    using emit_shared [of env E st' Sh_crlf] by simp
  have obj: "emits E (addReply env True a) (getDecodedObject p) st'"
    if "serves env E st'" "unchanged (set_mset E) (fst st) (fst st')" for st'
    by (rule emit_object [OF that(1) a(1), of p sz]) (use that(2) a in \<open>simp add: unchanged_def\<close>)
  show ?thesis
    unfolding addReplyBulk_def reply_bulk_def
    by (rule emits_then [OF s len]) (rule emits_then [OF _ obj], auto intro: crlf)
qed

lemma emit_longlong:
  assumes "serves env E st" "fits 8 v"
  shows "emits E (addReplyBulkLongLong env True v) (reply_bulk (decimal v)) st"
proof -
  have "fits 8 (int (length (decimal v)))" using length_decimal_le [OF assms(2)] by (simp add: fits_def)
  then show ?thesis using emit_buffer [OF assms(1)] ll_text_decimal [OF assms(2), of 64]
    by (simp add: emits_def addReplyBulkLongLong_def)
qed

section \<open>Lengths that are not known yet\<close>

lemma add_deferred_ok:
  assumes s: "serves env E (h, c)"
  shows "\<exists>h' c' a. addDeferredMultiBulkLength env True (h, c) = ((h', c'), Some a) \<and> serves env E (h', c') \<and>
    unchanged (set_mset E \<union> set (reply c)) h h' \<and> unsent h' c' = unsent h c \<and> reply c' = reply c @ [a] \<and> hole_at h' a \<and>
    a \<notin># E + mset (reply c)"
proof -
  have i: "rinv E h c" and m: "good_malloc env" and nc: "normal c" using s by (simp_all add: serves_def)
  obtain c1 where p: "prepareClientToWrite True c = (c1, True)"
    using normal_accepts [OF nc] by (metis accepts_def prod.collapse)
  note q = prepare_ok [OF i p]
  have sel: "reply c1 = reply c" "buf c1 = buf c" "sentlen c1 = sentlen c" by (subst q(2), simp)+
  have n1: "normal c1" using q(4) normal_adds [OF nc] by blast
  obtain h1 a where cr: "createObject env REDIS_STRING None 0 h = (h1, a)" by fastforce
  note n = createObject_ok [OF rinvD(1) [OF i] m cr]
  let ?c = "c1\<lparr>reply := reply c1 @ [a]\<rparr>"
  have u: "unchanged (set (reply c)) h h1" using n(4) by (auto intro: unchanged_mono)
  have hole: "hole_at h1 a" using n(3) by (simp add: hole_at_def)
  have ta: "bytes h1 a = []" "osz h1 a = 0" using n(3) by (simp_all add: bytes_def osz_def)
  have tx: "texts h1 (reply c) = texts h (reply c)" by (rule unchanged_texts [OF u]) simp
  have sz: "sizes h1 (reply c) = sizes h (reply c)" by (rule unchanged_sizes [OF u]) simp
  have l: "list_ok h1 ?c" using q(1) hole sel unchanged_raw [OF u] unchanged_hole [OF u]
    by (auto simp: rinv_def list_ok_def)
  have so: "sent_ok h1 ?c"
    using q(1) sel unchanged_bytes [OF u, of "hd (reply c)"] by (cases "reply c") (auto simp: rinv_def sent_ok_def split: if_split_asm)
  have "rinv E h1 ?c" using q(1) q(3) n(2) l so sel sz ta by (simp add: rinv_def ready_def)
  moreover have "unsent h1 ?c = unsent h c" using sel tx ta by (simp add: unsent_def)
  moreover have "shared_ok env h1 E" using s n(4) shared_ok_mono [of env h E h1 E] by (auto simp: serves_def intro: unchanged_mono)
  moreover have "normal ?c" using n1 by (simp add: normal_def)
  ultimately show ?thesis using m n(1,4) hole p cr sel(1)
    by (intro exI [of _ h1] exI [of _ ?c] exI [of _ a]) (simp add: addDeferredMultiBulkLength_def serves_def)
qed

lemma set_deferred_ok:
  assumes s: "serves env E (h, c)" and r: "reply c = xs @ a # ys" and hole: "hole_at h a"
    and a: "a \<notin># E" "a \<notin> set xs" "a \<notin> set ys"
  shows "\<exists>h' c' ys'. setDeferredMultiBulkLength env (Some a) n (h, c) = Some (h', c') \<and> serves env E (h', c') \<and>
    unchanged (set_mset E \<union> set xs) h h' \<and> unsent h' c' = drop (sentlen c) (buf c @ texts h xs @ reply_header 42 n @ texts h ys) \<and>
    reply c' = xs @ a # ys' \<and> raw_at h' a \<and> unchanged (set ys') h h' \<and> set ys' \<subseteq> set ys"
proof -
  let ?R = "E + mset xs + mset ys" and ?t = "mbulk_text n"
  have i: "rinv E h c" and m: "good_malloc env" and nc: "normal c" using s by (simp_all add: serves_def)
  have o: "owned h (add_mset a ?R)" using rinvD(1) [OF i] r by (simp add: add.assoc)
  obtain ob where ob: "h a = Some ob" "otype ob = REDIS_STRING" "osize ob = 0" using hole by (auto simp: hole_at_def content_def)
  let ?z = "sdssize env 0 (length ?t)"
  have aR: "a \<notin># ?R" using a by simp
  have s0: "sentlen c = 0 \<or> sentlen c < length (buf c @ texts h xs)"
  proof (cases xs)
    case Nil
    have "bytes h a = []" using hole by (simp add: bytes_def hole_at_def)
    then show ?thesis using i r Nil by (auto simp: rinv_def sent_ok_def split: if_split_asm)
  qed (use i r in \<open>auto simp: rinv_def sent_ok_def split: if_split_asm\<close>)
  text \<open>Any memory in which \<open>a\<close> is a string and the list is \<open>xs @ a # ys'\<close>.\<close>
  have fin: "serves env E (h', c\<lparr>reply := xs @ a # ys', reply_bytes := rb\<rparr>) \<and>
      unsent h' (c\<lparr>reply := xs @ a # ys', reply_bytes := rb\<rparr>) = drop (sentlen c) (buf c @ texts h xs @ reply_header 42 n @ texts h ys)"
    if o': "owned h' (E + mset (xs @ a # ys'))" and u: "unchanged (set_mset E \<union> set xs \<union> set ys') h h'" and ss: "set ys' \<subseteq> set ys"
      and ra: "raw_at h' a" and tx: "bytes h' a @ texts h ys' = reply_header 42 n @ texts h ys"
      and rb: "int (osz h' a) + sizes h ys' + reply_bytes c - sizes h ys \<le> rb" for h' ys' rb
  proof -
    let ?c = "c\<lparr>reply := xs @ a # ys', reply_bytes := rb\<rparr>"
    have ux: "unchanged (set xs) h h'" and uy: "unchanged (set ys') h h'" and uE: "unchanged (set_mset E) h h'"
      using u by (auto intro: unchanged_mono)
    have tt: "texts h' xs = texts h xs" "texts h' ys' = texts h ys'" "sizes h' xs = sizes h xs" "sizes h' ys' = sizes h ys'"
      using unchanged_texts [OF ux] unchanged_texts [OF uy] unchanged_sizes [OF ux] unchanged_sizes [OF uy] by simp_all
    have "list_ok h' ?c" using i r ra ss unchanged_raw [OF ux] unchanged_hole [OF ux] unchanged_raw [OF uy] unchanged_hole [OF uy]
      by (auto simp: rinv_def list_ok_def)
    moreover have "sent_ok h' ?c"
    proof (cases xs)
      case Nil
      then show ?thesis using s0 by (auto simp: sent_ok_def)
    next
      case (Cons x xs')
      then have "bytes h' x = bytes h x" using unchanged_bytes [OF ux] by simp
      then show ?thesis using i r Cons by (auto simp: rinv_def sent_ok_def split: if_split_asm)
    qed
    moreover have "sizes h' (xs @ a # ys') \<le> rb" using i r rb tt ob(3) hole by (simp add: rinv_def osz_def hole_at_def)
    ultimately have "rinv E h' ?c" using i r o' by (simp add: rinv_def)
    moreover have "shared_ok env h' E" using s uE shared_ok_mono [of env h E h' E] by (simp add: serves_def)
    moreover have "normal ?c" using nc by (simp add: normal_def)
    moreover have "unsent h' ?c = drop (sentlen c) (buf c @ texts h xs @ reply_header 42 n @ texts h ys)"
      using tt tx by (simp add: unsent_def)
    ultimately show ?thesis using m by (simp add: serves_def)
  qed
  have dw: "dropWhile (\<lambda>b. b \<noteq> a) (reply c) = a # ys" "takeWhile (\<lambda>b. b \<noteq> a) (reply c) = xs"
    unfolding r using a(2) by (induction xs) auto
  have mt: "?t = reply_header 42 n" by (simp add: mbulk_text_def reply_header_def)
  let ?h = "h(a \<mapsto> ob\<lparr>optr := Some (Raw ?t), osize := ?z\<rparr>)"
  note w = write_object [OF o ob(1,2), of ?z "Some (Raw ?t)"]
  have un: "unchanged (set_mset ?R) h ?h" using w(2) aR by (auto simp: unchanged_def)
  note ra = raw_content [OF w(3)]
  have plain: ?thesis if e: "setDeferredMultiBulkLength env (Some a) n (h, c) = Some (?h, c\<lparr>reply_bytes := reply_bytes c + int ?z\<rparr>)"
  proof -
    let ?c = "c\<lparr>reply := xs @ a # ys, reply_bytes := reply_bytes c + int ?z\<rparr>"
    have "c\<lparr>reply_bytes := reply_bytes c + int ?z\<rparr> = ?c" using r by simp
    then have e': "setDeferredMultiBulkLength env (Some a) n (h, c) = Some (?h, ?c)" using e by simp
    have u: "unchanged (set_mset E \<union> set xs \<union> set ys) h ?h" using un by (simp add: Un_assoc)
    have f: "serves env E (?h, ?c) \<and> unsent ?h ?c = drop (sentlen c) (buf c @ texts h xs @ reply_header 42 n @ texts h ys)"
    proof (rule fin)
      show "owned ?h (E + mset (xs @ a # ys))" using w(1) by (simp add: add.assoc)
      show "bytes ?h a @ texts h ys = reply_header 42 n @ texts h ys" using ra mt by simp
      show "int (osz ?h a) + sizes h ys + reply_bytes c - sizes h ys \<le> reply_bytes c + int ?z" using ra by simp
    qed (use u ra in simp_all)
    have "unchanged (set_mset E \<union> set xs) h ?h" "unchanged (set ys) h ?h" using u by (auto intro: unchanged_mono)
    then show ?thesis using e' f ra by (intro exI [of _ ?h] exI [of _ ?c] exI [of _ ys] conjI) simp_all
  qed
  show ?thesis
  proof (cases ys)
    case Nil
    then show ?thesis using ob(1) dw by (intro plain) (simp add: setDeferredMultiBulkLength_def Let_def)
  next
    case (Cons b rest)
    have bl: "raw_at h b \<or> hole_at h b" using i r Cons by (auto simp: rinv_def list_ok_def)
    have ab: "a \<noteq> b" using a(3) Cons by auto
    show ?thesis
    proof (cases "raw_at h b")
      case False
      then have "\<exists>nx. h b = Some nx \<and> optr nx = None" using bl by (auto simp: hole_at_def content_def)
      then show ?thesis using ob(1) dw Cons ab by (intro plain) (auto simp: setDeferredMultiBulkLength_def Let_def)
    next
      case True
      then obtain nx t where nx: "h b = Some nx" "optr nx = Some (Raw t)" "bytes h b = t" "osz h b = osize nx"
        using raw_obj by blast
      let ?z' = "sdssize env ?z (length (?t @ t))"
      let ?g = "h(a \<mapsto> ob\<lparr>optr := Some (Raw (?t @ t)), osize := ?z'\<rparr>)"
      note v = write_object [OF o ob(1,2), of ?z' "Some (Raw (?t @ t))"]
      have og: "owned ?g (add_mset b (E + mset (xs @ a # rest)))" using v(1) Cons by (simp add: ac_simps add_mset_commute)
      obtain h2 where d: "decrRefCount b ?g = Some h2" "owned h2 (E + mset (xs @ a # rest))"
        "unchanged (set_mset (E + mset (xs @ a # rest))) ?g h2" using decrRefCount_ok [OF og, of b] by auto
      let ?rb = "reply_bytes c + int ?z - int ?z - int (osize nx) + int ?z'"
      have e: "setDeferredMultiBulkLength env (Some a) n (h, c) = Some (h2, c\<lparr>reply := xs @ a # rest, reply_bytes := ?rb\<rparr>)"
        using ob(1) dw Cons ab nx d(1) by (simp add: setDeferredMultiBulkLength_def Let_def)
      have un2: "unchanged (set_mset E \<union> set xs \<union> set rest) h h2"
        using v(2) d(3) aR Cons by (auto simp: unchanged_def)
      have "content h2 a = Some (REDIS_STRING, Some (Raw (?t @ t)), ?z')" using d(3) v(3) by (simp add: unchanged_def)
      note rb = raw_content [OF this]
      let ?c = "c\<lparr>reply := xs @ a # rest, reply_bytes := ?rb\<rparr>"
      have f: "serves env E (h2, ?c) \<and> unsent h2 ?c = drop (sentlen c) (buf c @ texts h xs @ reply_header 42 n @ texts h ys)"
      proof (rule fin [OF d(2) un2])
        show "bytes h2 a @ texts h rest = reply_header 42 n @ texts h ys" using rb mt Cons nx(3) by simp
        show "int (osz h2 a) + sizes h rest + reply_bytes c - sizes h ys \<le> ?rb" using rb Cons nx(4) by simp
      qed (use rb Cons in auto)
      have "unchanged (set_mset E \<union> set xs) h h2" "unchanged (set rest) h h2" using un2 by (auto intro: unchanged_mono)
      then show ?thesis using e f rb Cons by (intro exI [of _ h2] exI [of _ ?c] exI [of _ rest] conjI) auto
    qed
  qed
qed

end
