(* ===== verification/Keyspace.thy ===== *)
theory Keyspace
  imports Reply_Ops
begin

text \<open>
  The key space of a database (\<open>db.c\<close>): keys to value objects, and the times at which keys expire.
  Both dictionaries are maps (theories \<open>Dict\<close> to \<open>Dict_Hash\<close> have the tables). The state is the
  memory of objects, the client that runs a command, and its database.
\<close>

section \<open>State\<close>

text \<open>\<open>cargs\<close> are the argument objects of the command that runs.\<close>

record server =
  objects :: objs
  conn :: rclient
  kdict :: "byte list \<Rightarrow> addr option"
  kexpires :: "byte list \<Rightarrow> int option"
  cargs :: "addr list"
  dirty :: int

text \<open>
  What a command finds outside: the objects' environment, the clock in milliseconds, whether the
  dataset is being loaded, whether the server is a slave, whether values may be shared integers, and
  whether a string has more than a tenth of its length to spare. The clock does not move while a
  command runs.
\<close>

record senv =
  oe :: oenv
  mstime :: int
  loading :: bool
  masterhost :: bool
  use_shared :: bool
  spare :: "byte list \<Rightarrow> bool"

definition on_client :: "(rstate \<Rightarrow> rstate option) \<Rightarrow> server \<Rightarrow> server option" where
  "on_client f st = do {
     (h, c) \<leftarrow> f (objects st, conn st);
     Some (st\<lparr>objects := h, conn := c\<rparr>) }"

definition hold_ref :: "addr \<Rightarrow> server \<Rightarrow> server option" where
  "hold_ref a st = do { h \<leftarrow> incrRefCount a (objects st); Some (st\<lparr>objects := h\<rparr>) }"

definition drop_ref :: "addr \<Rightarrow> server \<Rightarrow> server option" where
  "drop_ref a st = do { h \<leftarrow> decrRefCount a (objects st); Some (st\<lparr>objects := h\<rparr>) }"

section \<open>Expires\<close>

definition getExpire :: "byte list \<Rightarrow> server \<Rightarrow> int option" where
  "getExpire key st =
     (case kexpires st key of
        None \<Rightarrow> Some (-1)
      | Some w \<Rightarrow> if kdict st key = None then None else Some w)"

definition dbDelete :: "byte list \<Rightarrow> server \<Rightarrow> (server \<times> bool) option" where
  "dbDelete key st =
     (let st = st\<lparr>kexpires := (kexpires st)(key := None)\<rparr>
      in case kdict st key of
        None \<Rightarrow> Some (st, False)
      | Some a \<Rightarrow> do {
          st \<leftarrow> drop_ref a (st\<lparr>kdict := (kdict st)(key := None)\<rparr>);
          Some (st, True) })"

definition expireIfNeeded :: "senv \<Rightarrow> byte list \<Rightarrow> server \<Rightarrow> (server \<times> bool) option" where
  "expireIfNeeded env key st = do {
     w \<leftarrow> getExpire key st;
     (if w < 0 then Some (st, False)
      else if loading env then Some (st, False)
      else if masterhost env then Some (st, mstime env > w)
      else if mstime env \<le> w then Some (st, False)
      else dbDelete key st) }"

definition removeExpire :: "byte list \<Rightarrow> server \<Rightarrow> (server \<times> bool) option" where
  "removeExpire key st =
     (if kdict st key = None then None
      else Some (st\<lparr>kexpires := (kexpires st)(key := None)\<rparr>, kexpires st key \<noteq> None))"

definition setExpire :: "byte list \<Rightarrow> int \<Rightarrow> server \<Rightarrow> server option" where
  "setExpire key when st =
     (if kdict st key = None then None
      else Some (st\<lparr>kexpires := (kexpires st)(key \<mapsto> when)\<rparr>))"

section \<open>Keys\<close>

definition lookupKey :: "byte list \<Rightarrow> server \<Rightarrow> addr option" where
  "lookupKey key st = kdict st key"

definition lookupKeyRead :: "senv \<Rightarrow> byte list \<Rightarrow> server \<Rightarrow> (server \<times> addr option) option" where
  "lookupKeyRead env key st = do {
     (st, _) \<leftarrow> expireIfNeeded env key st;
     Some (st, lookupKey key st) }"

definition lookupKeyWrite :: "senv \<Rightarrow> byte list \<Rightarrow> server \<Rightarrow> (server \<times> addr option) option" where
  "lookupKeyWrite env key st = do {
     (st, _) \<leftarrow> expireIfNeeded env key st;
     Some (st, lookupKey key st) }"

definition reply_shared :: "senv \<Rightarrow> shared_name \<Rightarrow> server \<Rightarrow> server option" where
  "reply_shared env n st = on_client (addReply (oe env) True (shared (oe env) n)) st"

definition lookupKeyReadOrReply :: "senv \<Rightarrow> byte list \<Rightarrow> shared_name \<Rightarrow> server \<Rightarrow> (server \<times> addr option) option" where
  "lookupKeyReadOrReply env key n st = do {
     (st, r) \<leftarrow> lookupKeyRead env key st;
     st \<leftarrow> (if r = None then reply_shared env n st else Some st);
     Some (st, r) }"

definition lookupKeyWriteOrReply :: "senv \<Rightarrow> byte list \<Rightarrow> shared_name \<Rightarrow> server \<Rightarrow> (server \<times> addr option) option" where
  "lookupKeyWriteOrReply env key n st = do {
     (st, r) \<leftarrow> lookupKeyWrite env key st;
     st \<leftarrow> (if r = None then reply_shared env n st else Some st);
     Some (st, r) }"

definition dbAdd :: "byte list \<Rightarrow> addr \<Rightarrow> server \<Rightarrow> server option" where
  "dbAdd key a st =
     (if kdict st key \<noteq> None then None
      else Some (st\<lparr>kdict := (kdict st)(key \<mapsto> a)\<rparr>))"

text \<open>\<open>dictReplace\<close> sets the new value before it frees the old one.\<close>

definition dbOverwrite :: "byte list \<Rightarrow> addr \<Rightarrow> server \<Rightarrow> server option" where
  "dbOverwrite key a st =
     (case kdict st key of
        None \<Rightarrow> None
      | Some old \<Rightarrow> drop_ref old (st\<lparr>kdict := (kdict st)(key \<mapsto> a)\<rparr>))"

definition setKey :: "senv \<Rightarrow> byte list \<Rightarrow> addr \<Rightarrow> server \<Rightarrow> server option" where
  "setKey env key a st = do {
     (st, r) \<leftarrow> lookupKeyWrite env key st;
     st \<leftarrow> (if r = None then dbAdd key a st else dbOverwrite key a st);
     st \<leftarrow> hold_ref a st;
     (st, _) \<leftarrow> removeExpire key st;
     Some st }"

definition dbExists :: "byte list \<Rightarrow> server \<Rightarrow> bool" where
  "dbExists key st \<longleftrightarrow> kdict st key \<noteq> None"

definition is_raw :: "strobj option \<Rightarrow> bool" where
  "is_raw p \<longleftrightarrow> (case p of Some (IntEnc _) \<Rightarrow> False | _ \<Rightarrow> True)"

definition dbUnshareStringValue :: "senv \<Rightarrow> byte list \<Rightarrow> addr \<Rightarrow> server \<Rightarrow> (server \<times> addr) option" where
  "dbUnshareStringValue env key a st = do {
     ob \<leftarrow> objects st a;
     (if otype ob \<noteq> REDIS_STRING then None
      else if refcount ob \<noteq> 1 \<or> \<not> is_raw (optr ob) then do {
        (h, d) \<leftarrow> decoded_object (oe env) a (objects st);
        dob \<leftarrow> h d;
        s \<leftarrow> raw_string (optr dob);
        let (h, n) = createStringObject (oe env) s h;
        h \<leftarrow> decrRefCount d h;
        st \<leftarrow> dbOverwrite key n (st\<lparr>objects := h\<rparr>);
        Some (st, n) }
      else Some (st, a)) }"

section \<open>Commands on keys\<close>

definition reply_error_string :: "senv \<Rightarrow> byte list \<Rightarrow> server \<Rightarrow> server option" where
  "reply_error_string env s st = on_client (addReplyErrorString (oe env) True s) st"

definition reply_long :: "senv \<Rightarrow> int \<Rightarrow> server \<Rightarrow> server option" where
  "reply_long env v st = on_client (addReplyLongLong (oe env) True v) st"

definition checkType :: "senv \<Rightarrow> addr \<Rightarrow> rtype \<Rightarrow> server \<Rightarrow> (server \<times> bool) option" where
  "checkType env a ty st = do {
     ob \<leftarrow> objects st a;
     (if otype ob \<noteq> ty then do { st \<leftarrow> reply_shared env Sh_wrongtypeerr st; Some (st, True) }
      else Some (st, False)) }"

abbreviation touch :: "int \<Rightarrow> server \<Rightarrow> server" where
  "touch n st \<equiv> st\<lparr>dirty := dirty st + n\<rparr>"

text \<open>\<open>args\<close> are the strings of the arguments, the command's name first.\<close>

fun del_keys :: "senv \<Rightarrow> byte list list \<Rightarrow> int \<Rightarrow> server \<Rightarrow> (server \<times> int) option" where
  "del_keys env [] n st = Some (st, n)"
| "del_keys env (key # ks) n st = do {
     (st, _) \<leftarrow> expireIfNeeded env key st;
     (st, d) \<leftarrow> dbDelete key st;
     (if d then del_keys env ks (n + 1) (touch 1 st) else del_keys env ks n st) }"

definition delCommand :: "senv \<Rightarrow> byte list list \<Rightarrow> server \<Rightarrow> server option" where
  "delCommand env args st = do {
     (st, deleted) \<leftarrow> del_keys env (tl args) 0 st;
     reply_long env deleted st }"

definition existsCommand :: "senv \<Rightarrow> byte list list \<Rightarrow> server \<Rightarrow> server option" where
  "existsCommand env args st = do {
     (st, _) \<leftarrow> expireIfNeeded env (args ! 1) st;
     reply_shared env (if dbExists (args ! 1) st then Sh_cone else Sh_czero) st }"

definition renameGenericCommand :: "senv \<Rightarrow> bool \<Rightarrow> byte list list \<Rightarrow> server \<Rightarrow> server option" where
  "renameGenericCommand env nx args st =
     (if args ! 1 = args ! 2 then reply_shared env Sh_sameobjecterr st
      else do {
        (st, r) \<leftarrow> lookupKeyWriteOrReply env (args ! 1) Sh_nokeyerr st;
        (case r of
           None \<Rightarrow> Some st
         | Some a \<Rightarrow> do {
             st \<leftarrow> hold_ref a st;
             expire \<leftarrow> getExpire (args ! 1) st;
             (st, q) \<leftarrow> lookupKeyWrite env (args ! 2) st;
             (if q \<noteq> None \<and> nx then do {
                st \<leftarrow> drop_ref a st;
                reply_shared env Sh_czero st }
              else do {
                (st, _) \<leftarrow> (if q \<noteq> None then dbDelete (args ! 2) st else Some (st, False));
                st \<leftarrow> dbAdd (args ! 2) a st;
                st \<leftarrow> (if expire \<noteq> -1 then setExpire (args ! 2) expire st else Some st);
                (st, _) \<leftarrow> dbDelete (args ! 1) st;
                reply_shared env (if nx then Sh_cone else Sh_ok) (touch 1 st) }) }) })"

definition persistCommand :: "senv \<Rightarrow> byte list list \<Rightarrow> server \<Rightarrow> server option" where
  "persistCommand env args st =
     (if kdict st (args ! 1) = None then reply_shared env Sh_czero st
      else do {
        (st, removed) \<leftarrow> removeExpire (args ! 1) st;
        (if removed then do { st \<leftarrow> reply_shared env Sh_cone st; Some (touch 1 st) }
         else reply_shared env Sh_czero st) })"

text \<open>An unsigned 64 bit number that is passed for a \<open>long long\<close> wraps.\<close>

definition s64 :: "int \<Rightarrow> int" where
  "s64 x = (x + 2 ^ 63) mod 2 ^ 64 - 2 ^ 63"

fun type_name :: "rtype \<Rightarrow> byte list" where
  "type_name REDIS_STRING = ascii ''string''"
| "type_name REDIS_LIST = ascii ''list''"
| "type_name REDIS_SET = ascii ''set''"
| "type_name REDIS_ZSET = ascii ''zset''"
| "type_name REDIS_HASH = ascii ''hash''"

text \<open>The arithmetic on times is signed: an overflow is undefined.\<close>

definition ttlGenericCommand :: "senv \<Rightarrow> bool \<Rightarrow> byte list list \<Rightarrow> server \<Rightarrow> server option" where
  "ttlGenericCommand env output_ms args st = do {
     (st, r) \<leftarrow> lookupKeyRead env (args ! 1) st;
     (if r = None then reply_long env (-2) st
      else do {
        expire \<leftarrow> getExpire (args ! 1) st;
        (if expire = -1 then reply_long env (-1) st
         else
           let ttl = max 0 (expire - mstime env)
           in if \<not> fits 8 (expire - mstime env) \<or> \<not> output_ms \<and> \<not> fits 8 (ttl + 500) then None
              else reply_long env (if output_ms then ttl else (ttl + 500) div 1000) st) }) }"

definition typeCommand :: "senv \<Rightarrow> byte list list \<Rightarrow> server \<Rightarrow> server option" where
  "typeCommand env args st = do {
     (st, r) \<leftarrow> lookupKeyRead env (args ! 1) st;
     t \<leftarrow> (case r of
        None \<Rightarrow> Some (ascii ''none'')
      | Some a \<Rightarrow> do { ob \<leftarrow> objects st a; Some (type_name (otype ob)) });
     on_client (addReplyStatus (oe env) True t) st }"

definition dbsizeCommand :: "senv \<Rightarrow> byte list list \<Rightarrow> server \<Rightarrow> server option" where
  "dbsizeCommand env args st = reply_long env (s64 (int (card (dom (kdict st))))) st"

text \<open>
  \<open>strtoll\<close> in base 10 on the C string at \<open>s\<close>, with the tests of \<open>getLongLongFromObject\<close>: no
  white space in front, nothing after the number, no overflow. An empty string reads as 0.
\<close>

definition parse_long_long :: "byte list \<Rightarrow> int option" where
  "parse_long_long s =
     (let t = takeWhile (\<lambda>b. b \<noteq> 0) s;
          neg = (t \<noteq> [] \<and> hd t = 45);
          d = (if t \<noteq> [] \<and> (hd t = 45 \<or> hd t = 43) then tl t else t);
          v = int (dval d)
      in if t = [] then Some 0
         else if d = [] \<or> \<not> (\<forall>b \<in> set d. is_digit b) then None
         else if fits 8 (if neg then - v else v) then Some (if neg then - v else v) else None)"

definition getLongLongFromObject :: "server \<Rightarrow> addr option \<Rightarrow> int option option" where
  "getLongLongFromObject st r =
     (case r of
        None \<Rightarrow> Some (Some 0)
      | Some a \<Rightarrow> do {
          ob \<leftarrow> objects st a;
          (if otype ob \<noteq> REDIS_STRING then None
           else case optr ob of
             Some (IntEnc p) \<Rightarrow> Some (Some (sint p))
           | Some (Raw s) \<Rightarrow> Some (parse_long_long s)
           | None \<Rightarrow> None) })"

abbreviation not_an_integer :: "byte list" where
  "not_an_integer \<equiv> ascii ''value is not an integer or out of range''"

text \<open>The arguments of the command are replaced by others, for the propagation of the command.\<close>

fun hold_all :: "addr list \<Rightarrow> server \<Rightarrow> server option" where
  "hold_all [] st = Some st"
| "hold_all (a # as) st = do { st \<leftarrow> hold_ref a st; hold_all as st }"

fun drop_all :: "addr list \<Rightarrow> server \<Rightarrow> server option" where
  "drop_all [] st = Some st"
| "drop_all (a # as) st = do { st \<leftarrow> drop_ref a st; drop_all as st }"

definition rewriteClientCommandVector :: "addr list \<Rightarrow> server \<Rightarrow> server option" where
  "rewriteClientCommandVector as st = do {
     st \<leftarrow> hold_all as st;
     st \<leftarrow> drop_all (cargs st) st;
     Some (st\<lparr>cargs := as\<rparr>) }"

definition expireGenericCommand :: "senv \<Rightarrow> int \<Rightarrow> bool \<Rightarrow> byte list list \<Rightarrow> server \<Rightarrow> server option" where
  "expireGenericCommand env basetime seconds args st =
     (case parse_long_long (args ! 2) of
        None \<Rightarrow> reply_error_string env not_an_integer st
      | Some when \<Rightarrow>
          let ms = (if seconds then when * 1000 else when)
          in if \<not> fits 8 ms \<or> \<not> fits 8 (ms + basetime) then None
             else do {
               (st, r) \<leftarrow> lookupKeyRead env (args ! 1) st;
               (if r = None then reply_shared env Sh_czero st
                else if ms + basetime \<le> mstime env \<and> \<not> loading env \<and> \<not> masterhost env then do {
                  (st, d) \<leftarrow> dbDelete (args ! 1) st;
                  (if \<not> d then None
                   else do {
                     let st = touch 1 st;
                     let (h, aux) = createStringObject (oe env) (ascii ''DEL'') (objects st);
                     st \<leftarrow> rewriteClientCommandVector [aux, cargs st ! 1] (st\<lparr>objects := h\<rparr>);
                     st \<leftarrow> drop_ref aux st;
                     reply_shared env Sh_cone st }) }
                else do {
                  st \<leftarrow> setExpire (args ! 1) (ms + basetime) st;
                  st \<leftarrow> reply_shared env Sh_cone st;
                  Some (touch 1 st) }) })"

end
