(* ===== verification/Strings.thy ===== *)
theory Strings
  imports Keyspace
begin

text \<open>The commands on strings (\<open>t_string.c\<close>), except the one on floating point numbers.\<close>

section \<open>Helpers\<close>

definition checkStringLength :: "senv \<Rightarrow> int \<Rightarrow> server \<Rightarrow> (server \<times> bool) option" where
  "checkStringLength env n st =
     (if s64 n > 512 * 1024 * 1024 then do {
        st \<leftarrow> reply_error_string env (ascii ''string exceeds maximum allowed size (512MB)'') st;
        Some (st, False) }
      else Some (st, True))"

definition encode_arg :: "senv \<Rightarrow> nat \<Rightarrow> server \<Rightarrow> server option" where
  "encode_arg env j st = do {
     (h, b) \<leftarrow> tryObjectEncoding (oe env) (use_shared env) (spare env (bytes (objects st) (cargs st ! j))) (cargs st ! j) (objects st);
     Some (st\<lparr>objects := h, cargs := (cargs st)[j := b]\<rparr>) }"

definition reply_bulk_object :: "senv \<Rightarrow> addr \<Rightarrow> server \<Rightarrow> server option" where
  "reply_bulk_object env a st = on_client (addReplyBulk (oe env) True a) st"

definition object_length :: "addr \<Rightarrow> server \<Rightarrow> nat option" where
  "object_length a st = do {
     ob \<leftarrow> objects st a;
     p \<leftarrow> optr ob;
     Some (stringObjectLen p) }"

text \<open>A string object that is written to in place, by \<open>sdscatlen\<close> or \<open>sdsgrowzero\<close> and \<open>memcpy\<close>.\<close>

definition update_string :: "senv \<Rightarrow> addr \<Rightarrow> (byte list \<Rightarrow> byte list) \<Rightarrow> server \<Rightarrow> (server \<times> byte list) option" where
  "update_string env a f st = do {
     ob \<leftarrow> objects st a;
     s \<leftarrow> raw_string (optr ob);
     Some (st\<lparr>objects := (objects st)(a \<mapsto> ob\<lparr>optr := Some (Raw (f s)),
       osize := sdssize (oe env) (osize ob) (length (f s))\<rparr>)\<rparr>, f s) }"

section \<open>SET and its variants\<close>

record set_flags =
  set_nx :: bool
  set_xx :: bool
  set_expire :: "byte list option"
  in_seconds :: bool

text \<open>
  The strings are read up to the null byte, as C strings: \<open>cch a i\<close> is \<open>a[i]\<close>.
\<close>

definition cch :: "byte list \<Rightarrow> nat \<Rightarrow> byte" where
  "cch a i = (if i < length a then a ! i else 0)"

definition is_option :: "byte list \<Rightarrow> byte \<Rightarrow> bool" where
  "is_option a ch \<longleftrightarrow> (cch a 0 = ch \<or> cch a 0 = ch - 32) \<and> (cch a 1 = 120 \<or> cch a 1 = 88) \<and> cch a 2 = 0"

fun parse_set :: "byte list list \<Rightarrow> set_flags \<Rightarrow> set_flags option" where
  "parse_set [] f = Some f"
| "parse_set (a # rest) f =
     (if is_option a 110 then parse_set rest (f\<lparr>set_nx := True\<rparr>)
      else if is_option a 120 then parse_set rest (f\<lparr>set_xx := True\<rparr>)
      else case rest of
        [] \<Rightarrow> None
      | nxt # rest' \<Rightarrow>
          if is_option a 101 then parse_set rest' (f\<lparr>set_expire := Some nxt, in_seconds := True\<rparr>)
          else if is_option a 112 then parse_set rest' (f\<lparr>set_expire := Some nxt, in_seconds := False\<rparr>)
          else None)"

text \<open>
  \<open>j\<close> is the index of the value among the arguments. Sums and products of times that overflow are
  undefined.
\<close>

definition setGenericCommand ::
    "senv \<Rightarrow> byte list \<Rightarrow> set_flags \<Rightarrow> byte list \<Rightarrow> nat \<Rightarrow> shared_name \<Rightarrow> shared_name \<Rightarrow> server \<Rightarrow> server option" where
  "setGenericCommand env name f key j ok_reply abort_reply st =
     (case (case set_expire f of None \<Rightarrow> Some 0 | Some e \<Rightarrow> parse_long_long e) of
        None \<Rightarrow> reply_error_string env not_an_integer st
      | Some ms \<Rightarrow>
          if set_expire f \<noteq> None \<and> ms \<le> 0
          then reply_error_string env (ascii ''invalid expire time in '' @ name) st
          else
            let ms = (if set_expire f \<noteq> None \<and> in_seconds f then ms * 1000 else ms)
            in if \<not> fits 8 ms then None
               else do {
                 (st, stop) \<leftarrow> (if set_nx f then do { (st, r) \<leftarrow> lookupKeyWrite env key st; Some (st, r \<noteq> None) }
                                else Some (st, False));
                 (st, stop) \<leftarrow> (if \<not> stop \<and> set_xx f then do { (st, r) \<leftarrow> lookupKeyWrite env key st; Some (st, r = None) }
                                else Some (st, stop));
                 (if stop then reply_shared env abort_reply st
                  else do {
                    st \<leftarrow> setKey env key (cargs st ! j) st;
                    let st = touch 1 st;
                    st \<leftarrow> (if set_expire f \<noteq> None
                          then if fits 8 (mstime env + ms) then setExpire key (mstime env + ms) st else None
                          else Some st);
                    reply_shared env ok_reply st }) })"

abbreviation no_flags :: set_flags where
  "no_flags \<equiv> \<lparr>set_nx = False, set_xx = False, set_expire = None, in_seconds = True\<rparr>"

definition setCommand :: "senv \<Rightarrow> byte list list \<Rightarrow> server \<Rightarrow> server option" where
  "setCommand env args st =
     (case parse_set (drop 3 args) no_flags of
        None \<Rightarrow> reply_shared env Sh_syntaxerr st
      | Some f \<Rightarrow> do {
          st \<leftarrow> encode_arg env 2 st;
          setGenericCommand env (ascii ''set'') f (args ! 1) 2 Sh_ok Sh_nullbulk st })"

definition setnxCommand :: "senv \<Rightarrow> byte list list \<Rightarrow> server \<Rightarrow> server option" where
  "setnxCommand env args st = do {
     st \<leftarrow> encode_arg env 2 st;
     setGenericCommand env (ascii ''setnx'') (no_flags\<lparr>set_nx := True\<rparr>) (args ! 1) 2 Sh_cone Sh_czero st }"

definition setexCommand :: "senv \<Rightarrow> byte list list \<Rightarrow> server \<Rightarrow> server option" where
  "setexCommand env args st = do {
     st \<leftarrow> encode_arg env 3 st;
     setGenericCommand env (ascii ''setex'') (no_flags\<lparr>set_expire := Some (args ! 2)\<rparr>) (args ! 1) 3 Sh_ok Sh_nullbulk st }"

definition psetexCommand :: "senv \<Rightarrow> byte list list \<Rightarrow> server \<Rightarrow> server option" where
  "psetexCommand env args st = do {
     st \<leftarrow> encode_arg env 3 st;
     setGenericCommand env (ascii ''psetex'') (no_flags\<lparr>set_expire := Some (args ! 2), in_seconds := False\<rparr>)
       (args ! 1) 3 Sh_ok Sh_nullbulk st }"

section \<open>Reading\<close>

text \<open>The second result is whether the command may go on (\<open>REDIS_OK\<close>).\<close>

definition getGenericCommand :: "senv \<Rightarrow> byte list list \<Rightarrow> server \<Rightarrow> (server \<times> bool) option" where
  "getGenericCommand env args st = do {
     (st, r) \<leftarrow> lookupKeyReadOrReply env (args ! 1) Sh_nullbulk st;
     (case r of
        None \<Rightarrow> Some (st, True)
      | Some a \<Rightarrow> do {
          ob \<leftarrow> objects st a;
          (if otype ob \<noteq> REDIS_STRING then do { st \<leftarrow> reply_shared env Sh_wrongtypeerr st; Some (st, False) }
           else do { st \<leftarrow> reply_bulk_object env a st; Some (st, True) }) }) }"

definition getCommand :: "senv \<Rightarrow> byte list list \<Rightarrow> server \<Rightarrow> server option" where
  "getCommand env args st = do { (st, _) \<leftarrow> getGenericCommand env args st; Some st }"

definition getsetCommand :: "senv \<Rightarrow> byte list list \<Rightarrow> server \<Rightarrow> server option" where
  "getsetCommand env args st = do {
     (st, ok) \<leftarrow> getGenericCommand env args st;
     (if \<not> ok then Some st
      else do {
        st \<leftarrow> encode_arg env 2 st;
        st \<leftarrow> setKey env (args ! 1) (cargs st ! 2) st;
        Some (touch 1 st) }) }"

text \<open>The bounds of \<open>GETRANGE\<close>; \<open>n\<close> is a \<open>size_t\<close>.\<close>

definition range_bounds :: "int \<Rightarrow> int \<Rightarrow> nat \<Rightarrow> int \<times> int" where
  "range_bounds lo hi n =
     (let lo = (if lo < 0 then s64 (int n + lo) else lo);
          hi = (if hi < 0 then s64 (int n + hi) else hi);
          lo = (if lo < 0 then 0 else lo);
          hi = (if hi < 0 then 0 else hi);
          hi = (if hi \<ge> int n then s64 (int n - 1) else hi)
      in (lo, hi))"

definition getrangeCommand :: "senv \<Rightarrow> byte list list \<Rightarrow> server \<Rightarrow> server option" where
  "getrangeCommand env args st =
     (case parse_long_long (args ! 2) of
        None \<Rightarrow> reply_error_string env not_an_integer st
      | Some lo \<Rightarrow>
          (case parse_long_long (args ! 3) of
             None \<Rightarrow> reply_error_string env not_an_integer st
           | Some hi \<Rightarrow> do {
               (st, r) \<leftarrow> lookupKeyReadOrReply env (args ! 1) Sh_emptybulk st;
               (case r of
                  None \<Rightarrow> Some st
                | Some a \<Rightarrow> do {
                    (st, wrong) \<leftarrow> checkType env a REDIS_STRING st;
                    (if wrong then Some st
                     else do {
                       ob \<leftarrow> objects st a;
                       str \<leftarrow> (case optr ob of Some (IntEnc p) \<Rightarrow> Some (int_text p) | p \<Rightarrow> raw_string p);
                       let (lo, hi) = range_bounds lo hi (length str);
                       (if lo > hi \<or> length str = 0 then reply_shared env Sh_emptybulk st
                        else on_client (addReplyBulkCBuffer (oe env) True
                               (take (nat (hi - lo + 1)) (drop (nat lo) str))) st) }) }) }))"

fun mget_keys :: "senv \<Rightarrow> byte list list \<Rightarrow> server \<Rightarrow> server option" where
  "mget_keys env [] st = Some st"
| "mget_keys env (key # ks) st = do {
     (st, r) \<leftarrow> lookupKeyRead env key st;
     st \<leftarrow> (case r of
        None \<Rightarrow> reply_shared env Sh_nullbulk st
      | Some a \<Rightarrow> do {
          ob \<leftarrow> objects st a;
          (if otype ob \<noteq> REDIS_STRING then reply_shared env Sh_nullbulk st
           else reply_bulk_object env a st) });
     mget_keys env ks st }"

definition mgetCommand :: "senv \<Rightarrow> byte list list \<Rightarrow> server \<Rightarrow> server option" where
  "mgetCommand env args st = do {
     st \<leftarrow> on_client (addReplyMultiBulkLen (oe env) True (int (length args) - 1)) st;
     mget_keys env (tl args) st }"

definition strlenCommand :: "senv \<Rightarrow> byte list list \<Rightarrow> server \<Rightarrow> server option" where
  "strlenCommand env args st = do {
     (st, r) \<leftarrow> lookupKeyReadOrReply env (args ! 1) Sh_czero st;
     (case r of
        None \<Rightarrow> Some st
      | Some a \<Rightarrow> do {
          (st, wrong) \<leftarrow> checkType env a REDIS_STRING st;
          (if wrong then Some st
           else do { n \<leftarrow> object_length a st; reply_long env (int n) st }) }) }"

section \<open>Writing\<close>

text \<open>\<open>SETRANGE\<close> on the contents. \<open>sdsgrowzero\<close> of more bytes than there are addresses fails.\<close>

definition patch :: "nat \<Rightarrow> byte list \<Rightarrow> byte list \<Rightarrow> byte list" where
  "patch off v s = take off s @ replicate (off - length s) 0 @ v @ drop (off + length v) s"

definition set_range :: "senv \<Rightarrow> addr \<Rightarrow> int \<Rightarrow> byte list \<Rightarrow> server \<Rightarrow> server option" where
  "set_range env a offset value st =
     (if offset + int (length value) \<ge> 2 ^ 63 then None
      else do {
        (st, s) \<leftarrow> update_string env a (patch (nat offset) value) st;
        reply_long env (int (length s)) (touch 1 st) })"

definition setrangeCommand :: "senv \<Rightarrow> byte list list \<Rightarrow> server \<Rightarrow> server option" where
  "setrangeCommand env args st =
     (case parse_long_long (args ! 2) of
        None \<Rightarrow> reply_error_string env not_an_integer st
      | Some offset \<Rightarrow>
          if offset < 0 then reply_error_string env (ascii ''offset is out of range'') st
          else do {
            let value = args ! 3;
            (st, r) \<leftarrow> lookupKeyWrite env (args ! 1) st;
            (case r of
               None \<Rightarrow>
                 if length value = 0 then reply_shared env Sh_czero st
                 else do {
                   (st, ok) \<leftarrow> checkStringLength env (offset + int (length value)) st;
                   (if \<not> ok then Some st
                    else do {
                      let (h, a) = createStringObject (oe env) [] (objects st);
                      st \<leftarrow> dbAdd (args ! 1) a (st\<lparr>objects := h\<rparr>);
                      set_range env a offset value st }) }
             | Some a \<Rightarrow> do {
                 (st, wrong) \<leftarrow> checkType env a REDIS_STRING st;
                 (if wrong then Some st
                  else do {
                    olen \<leftarrow> object_length a st;
                    (if length value = 0 then reply_long env (int olen) st
                     else do {
                       (st, ok) \<leftarrow> checkStringLength env (offset + int (length value)) st;
                       (if \<not> ok then Some st
                        else do {
                          (st, a) \<leftarrow> dbUnshareStringValue env (args ! 1) a st;
                          set_range env a offset value st }) }) }) }) })"

fun busy_keys :: "senv \<Rightarrow> byte list list \<Rightarrow> nat \<Rightarrow> server \<Rightarrow> (server \<times> nat) option" where
  "busy_keys env (key # val # rest) n st = do {
     (st, r) \<leftarrow> lookupKeyWrite env key st;
     busy_keys env rest (if r \<noteq> None then n + 1 else n) st }"
| "busy_keys env _ n st = Some (st, n)"

fun set_keys :: "senv \<Rightarrow> nat \<Rightarrow> byte list list \<Rightarrow> server \<Rightarrow> server option" where
  "set_keys env j (key # val # rest) st = do {
     st \<leftarrow> encode_arg env (j + 1) st;
     st \<leftarrow> setKey env key (cargs st ! (j + 1)) st;
     set_keys env (j + 2) rest st }"
| "set_keys env j _ st = Some st"

definition msetGenericCommand :: "senv \<Rightarrow> bool \<Rightarrow> byte list list \<Rightarrow> server \<Rightarrow> server option" where
  "msetGenericCommand env nx args st =
     (if even (length args) then reply_error_string env (ascii ''wrong number of arguments for MSET'') st
      else do {
        (st, busy) \<leftarrow> (if nx then busy_keys env (tl args) 0 st else Some (st, 0));
        (if busy \<noteq> 0 then reply_shared env Sh_czero st
         else do {
           st \<leftarrow> set_keys env 1 (tl args) st;
           reply_shared env (if nx then Sh_cone else Sh_ok) (touch (int ((length args - 1) div 2)) st) }) })"

definition incrDecrCommand :: "senv \<Rightarrow> int \<Rightarrow> byte list list \<Rightarrow> server \<Rightarrow> server option" where
  "incrDecrCommand env incr args st = do {
     (st, r) \<leftarrow> lookupKeyWrite env (args ! 1) st;
     (st, wrong) \<leftarrow> (case r of None \<Rightarrow> Some (st, False) | Some a \<Rightarrow> checkType env a REDIS_STRING st);
     (if wrong then Some st
      else do {
        v \<leftarrow> getLongLongFromObject st r;
        (case v of
           None \<Rightarrow> reply_error_string env not_an_integer st
         | Some value \<Rightarrow>
             if incr < 0 \<and> value < 0 \<and> incr < int_min 8 - value \<or> incr > 0 \<and> value > 0 \<and> incr > int_max 8 - value
             then reply_error_string env (ascii ''increment or decrement would overflow'') st
             else do {
               (h, new) \<leftarrow> createStringObjectFromLongLong (oe env) (value + incr) (objects st);
               let st = st\<lparr>objects := h\<rparr>;
               st \<leftarrow> (if r \<noteq> None then dbOverwrite (args ! 1) new st else dbAdd (args ! 1) new st);
               let st = touch 1 st;
               st \<leftarrow> reply_shared env Sh_colon st;
               st \<leftarrow> on_client (addReply (oe env) True new) st;
               reply_shared env Sh_crlf st }) }) }"

text \<open>The negative of the smallest \<open>long long\<close> is undefined.\<close>

definition incrbyCommand :: "senv \<Rightarrow> bool \<Rightarrow> byte list list \<Rightarrow> server \<Rightarrow> server option" where
  "incrbyCommand env decr args st =
     (case parse_long_long (args ! 2) of
        None \<Rightarrow> reply_error_string env not_an_integer st
      | Some incr \<Rightarrow>
          if decr \<and> incr = int_min 8 then None
          else incrDecrCommand env (if decr then - incr else incr) args st)"

definition appendCommand :: "senv \<Rightarrow> byte list list \<Rightarrow> server \<Rightarrow> server option" where
  "appendCommand env args st = do {
     (st, r) \<leftarrow> lookupKeyWrite env (args ! 1) st;
     (case r of
        None \<Rightarrow> do {
          st \<leftarrow> encode_arg env 2 st;
          st \<leftarrow> dbAdd (args ! 1) (cargs st ! 2) st;
          st \<leftarrow> hold_ref (cargs st ! 2) st;
          totlen \<leftarrow> object_length (cargs st ! 2) st;
          reply_long env (int totlen) (touch 1 st) }
      | Some a \<Rightarrow> do {
          (st, wrong) \<leftarrow> checkType env a REDIS_STRING st;
          (if wrong then Some st
           else do {
             olen \<leftarrow> object_length a st;
             (st, ok) \<leftarrow> checkStringLength env (int (olen + length (args ! 2))) st;
             (if \<not> ok then Some st
              else do {
                (st, a) \<leftarrow> dbUnshareStringValue env (args ! 1) a st;
                (st, s) \<leftarrow> update_string env a (\<lambda>s. s @ args ! 2) st;
                reply_long env (int (length s)) (touch 1 st) }) }) }) }"

end
