(* ===== verification/Commands.thy ===== *)
theory Commands
  imports Strings
begin

text \<open>
  The execution of a request (\<open>redis.c\<close>, and the arguments' objects of \<open>networking.c\<close>): the table of
  commands, the tests before a command runs, and the release of its arguments.
\<close>

section \<open>Commands on the connection\<close>

definition echoCommand :: "senv \<Rightarrow> byte list list \<Rightarrow> server \<Rightarrow> server option" where
  "echoCommand env args st = reply_bulk_object env (cargs st ! 1) st"

text \<open>The message of \<open>addReplyErrorFormat\<close>: newlines become spaces.\<close>

definition reply_error_format :: "senv \<Rightarrow> byte list \<Rightarrow> server \<Rightarrow> server option" where
  "reply_error_format env s st =
     reply_error_string env (map (\<lambda>b. if b = 13 \<or> b = 10 then 32 else b) s) st"

definition wrong_number :: "byte list \<Rightarrow> byte list" where
  "wrong_number name = ascii ''wrong number of arguments for '' @ [39] @ name @ [39] @ ascii '' command''"

definition reply_buffer :: "senv \<Rightarrow> byte list \<Rightarrow> server \<Rightarrow> server option" where
  "reply_buffer env s st = on_client (addReplyBulkCBuffer (oe env) True s) st"

text \<open>
  The state of the server and the client that the tests before a command read: whether the client must
  authenticate, the errors of the last snapshot (\<open>None\<close>) and of the append-only file (\<open>Some\<close>, with
  its text), too few slaves, a slave that is read only, a client that subscribes, a slave without its
  master, a script that runs too long. There is no limit on memory, and no transaction.
\<close>

record guards =
  noauth :: bool
  disk_error :: "byte list option option"
  few_slaves :: bool
  slave_ro :: bool
  subscriber :: bool
  master_down :: bool
  script_slow :: bool

definition pingCommand :: "guards \<Rightarrow> senv \<Rightarrow> byte list list \<Rightarrow> server \<Rightarrow> server option" where
  "pingCommand g env args st =
     (if length args > 2 then reply_error_format env (wrong_number (ascii ''ping'')) st
      else if subscriber g then do {
        st \<leftarrow> reply_shared env (Sh_mbulkhdr 2) st;
        st \<leftarrow> reply_buffer env (ascii ''pong'') st;
        (if length args = 1 then reply_buffer env [] st else reply_bulk_object env (cargs st ! 1) st) }
      else if length args = 1 then reply_shared env Sh_pong st
      else reply_bulk_object env (cargs st ! 1) st)"

section \<open>The table\<close>

record command =
  arity :: int
  writes :: bool
  stale :: bool
  proc :: "guards \<Rightarrow> senv \<Rightarrow> byte list list \<Rightarrow> server \<Rightarrow> server option"

definition row :: "int \<Rightarrow> bool \<Rightarrow> (senv \<Rightarrow> byte list list \<Rightarrow> server \<Rightarrow> server option) \<Rightarrow> command" where
  "row n w p = \<lparr>arity = n, writes = w, stale = False, proc = \<lambda>g. p\<rparr>"

text \<open>The rows of \<open>redisCommandTable\<close> for the commands that are modelled.\<close>

definition command_table :: "(byte list \<times> command) list" where
  "command_table =
    [(ascii ''get'', row 2 False getCommand),
     (ascii ''set'', row (-3) True setCommand),
     (ascii ''setnx'', row 3 True setnxCommand),
     (ascii ''setex'', row 4 True setexCommand),
     (ascii ''psetex'', row 4 True psetexCommand),
     (ascii ''append'', row 3 True appendCommand),
     (ascii ''strlen'', row 2 False strlenCommand),
     (ascii ''del'', row (-2) True delCommand),
     (ascii ''exists'', row 2 False existsCommand),
     (ascii ''setrange'', row 4 True setrangeCommand),
     (ascii ''getrange'', row 4 False getrangeCommand),
     (ascii ''substr'', row 4 False getrangeCommand),
     (ascii ''incr'', row 2 True (\<lambda>env. incrDecrCommand env 1)),
     (ascii ''decr'', row 2 True (\<lambda>env. incrDecrCommand env (-1))),
     (ascii ''mget'', row (-2) False mgetCommand),
     (ascii ''incrby'', row 3 True (\<lambda>env. incrbyCommand env False)),
     (ascii ''decrby'', row 3 True (\<lambda>env. incrbyCommand env True)),
     (ascii ''getset'', row 3 True getsetCommand),
     (ascii ''mset'', row (-3) True (\<lambda>env. msetGenericCommand env False)),
     (ascii ''msetnx'', row (-3) True (\<lambda>env. msetGenericCommand env True)),
     (ascii ''rename'', row 3 True (\<lambda>env. renameGenericCommand env False)),
     (ascii ''renamenx'', row 3 True (\<lambda>env. renameGenericCommand env True)),
     (ascii ''expire'', row 3 True (\<lambda>env. expireGenericCommand env (mstime env) True)),
     (ascii ''expireat'', row 3 True (\<lambda>env. expireGenericCommand env 0 True)),
     (ascii ''pexpire'', row 3 True (\<lambda>env. expireGenericCommand env (mstime env) False)),
     (ascii ''pexpireat'', row 3 True (\<lambda>env. expireGenericCommand env 0 False)),
     (ascii ''dbsize'', row 1 False dbsizeCommand),
     (ascii ''ping'', \<lparr>arity = -1, writes = False, stale = True, proc = pingCommand\<rparr>),
     (ascii ''echo'', row 2 False echoCommand),
     (ascii ''type'', row 2 False typeCommand),
     (ascii ''ttl'', row 2 False (\<lambda>env. ttlGenericCommand env False)),
     (ascii ''pttl'', row 2 False (\<lambda>env. ttlGenericCommand env True)),
     (ascii ''persist'', row 2 True persistCommand)]"

text \<open>The dictionary of commands compares names without case, up to a null byte.\<close>

definition lookupCommand :: "byte list \<Rightarrow> (byte list \<times> command) option" where
  "lookupCommand name = find (\<lambda>(n, _). dictSdsKeyCaseCompare n name) command_table"

text \<open>The names of the rows that are not modelled.\<close>

definition other_commands :: "byte list list" where
  "other_commands = map ascii
    [''setbit'', ''getbit'', ''rpush'', ''lpush'', ''rpushx'', ''lpushx'', ''linsert'', ''rpop'',
     ''lpop'', ''brpop'', ''brpoplpush'', ''blpop'', ''llen'', ''lindex'', ''lset'', ''lrange'',
     ''ltrim'', ''lrem'', ''rpoplpush'', ''sadd'', ''srem'', ''smove'', ''sismember'', ''scard'',
     ''spop'', ''srandmember'', ''sinter'', ''sinterstore'', ''sunion'', ''sunionstore'', ''sdiff'',
     ''sdiffstore'', ''smembers'', ''sscan'', ''zadd'', ''zincrby'', ''zrem'', ''zremrangebyscore'',
     ''zremrangebyrank'', ''zremrangebylex'', ''zunionstore'', ''zinterstore'', ''zrange'',
     ''zrangebyscore'', ''zrevrangebyscore'', ''zrangebylex'', ''zrevrangebylex'', ''zcount'',
     ''zlexcount'', ''zrevrange'', ''zcard'', ''zscore'', ''zrank'', ''zrevrank'', ''zscan'',
     ''hset'', ''hsetnx'', ''hget'', ''hmset'', ''hmget'', ''hincrby'', ''hincrbyfloat'', ''hdel'',
     ''hlen'', ''hkeys'', ''hvals'', ''hgetall'', ''hexists'', ''hscan'', ''incrbyfloat'',
     ''randomkey'', ''select'', ''move'', ''keys'', ''scan'', ''auth'', ''save'', ''bgsave'',
     ''bgrewriteaof'', ''shutdown'', ''lastsave'', ''multi'', ''exec'', ''discard'', ''sync'',
     ''psync'', ''replconf'', ''flushdb'', ''flushall'', ''sort'', ''info'', ''monitor'',
     ''slaveof'', ''role'', ''debug'', ''config'', ''subscribe'', ''unsubscribe'', ''psubscribe'',
     ''punsubscribe'', ''publish'', ''pubsub'', ''watch'', ''unwatch'', ''restore'', ''migrate'',
     ''dump'', ''object'', ''client'', ''eval'', ''evalsha'', ''slowlog'', ''script'', ''time'',
     ''bitop'', ''bitcount'', ''bitpos'', ''command'', ''pfselftest'', ''pfadd'', ''pfcount'',
     ''pfmerge'', ''pfdebug'', ''latency'']"

section \<open>Running a request\<close>

text \<open>The tests of \<open>processCommand\<close> on the state of the server, in their order.\<close>

definition denied :: "guards \<Rightarrow> senv \<Rightarrow> byte list \<Rightarrow> command \<Rightarrow> server \<Rightarrow> server option option" where
  "denied g env name cmd st =
     (if noauth g then Some (reply_shared env Sh_noautherr st)
      else if disk_error g \<noteq> None \<and> \<not> masterhost env \<and> (writes cmd \<or> name = ascii ''ping'')
      then Some (case the (disk_error g) of
          None \<Rightarrow> reply_shared env Sh_bgsaveerr st
        | Some t \<Rightarrow>
            let s = ascii ''-MISCONF Errors writing to the AOF file: '' @ t @ [13, 10]
            in on_client (addReplySds (oe env) True s (sdssize (oe env) 0 (length s))) st)
      else if \<not> masterhost env \<and> few_slaves g \<and> writes cmd then Some (reply_shared env Sh_noreplicaserr st)
      else if masterhost env \<and> slave_ro g \<and> \<not> master_client (conn st) \<and> writes cmd
      then Some (reply_shared env Sh_roslaveerr st)
      else if subscriber g \<and> name \<noteq> ascii ''ping''
      then Some (reply_error_string env (ascii ''only (P)SUBSCRIBE / (P)UNSUBSCRIBE / QUIT allowed in this context'') st)
      else if masterhost env \<and> master_down g \<and> \<not> stale cmd then Some (reply_shared env Sh_masterdownerr st)
      else if loading env then Some (reply_shared env Sh_loadingerr st)
      else if script_slow g then Some (reply_shared env Sh_slowscripterr st)
      else None)"

text \<open>
  The second result is \<open>REDIS_OK\<close>: the arguments can be released. A command that is in the table but
  not modelled has no result here.
\<close>

definition processCommand :: "guards \<Rightarrow> senv \<Rightarrow> byte list list \<Rightarrow> server \<Rightarrow> (server \<times> bool) option" where
  "processCommand g env args st =
     (if dictSdsKeyCaseCompare (args ! 0) (ascii ''quit'') then do {
        st \<leftarrow> reply_shared env Sh_ok st;
        Some (st\<lparr>conn := (conn st)\<lparr>closing := True\<rparr>\<rparr>, False) }
      else if \<exists>n \<in> set other_commands. dictSdsKeyCaseCompare n (args ! 0) then None
      else do {
        st \<leftarrow> (case lookupCommand (args ! 0) of
          None \<Rightarrow> reply_error_format env
            (ascii ''unknown command '' @ [39] @ takeWhile (\<lambda>b. b \<noteq> 0) (args ! 0) @ [39]) st
        | Some (name, cmd) \<Rightarrow>
            if arity cmd > 0 \<and> arity cmd \<noteq> int (length args) \<or> int (length args) < - arity cmd
            then reply_error_format env (wrong_number name) st
            else case denied g env name cmd st of
              Some r \<Rightarrow> r
            | None \<Rightarrow> proc cmd g env args st);
        Some (st, True) })"

text \<open>The objects of the arguments, made while the request is parsed, and \<open>freeClientArgv\<close>.\<close>

fun make_args :: "oenv \<Rightarrow> byte list list \<Rightarrow> objs \<Rightarrow> objs \<times> addr list" where
  "make_args env [] h = (h, [])"
| "make_args env (s # ss) h =
     (let (h, a) = createStringObject env s h;
          (h, as) = make_args env ss h
      in (h, a # as))"

definition freeClientArgv :: "server \<Rightarrow> server option" where
  "freeClientArgv st = do {
     st \<leftarrow> drop_all (cargs st) st;
     Some (st\<lparr>cargs := []\<rparr>) }"

text \<open>A request of a client, from its arguments to the point where the next one is read.\<close>

definition run_request :: "guards \<Rightarrow> senv \<Rightarrow> byte list list \<Rightarrow> server \<Rightarrow> server option" where
  "run_request g env args st =
     (if closing (conn st) \<or> args = [] then Some st
      else do {
        let (h, as) = make_args (oe env) args (objects st);
        (st, ok) \<leftarrow> processCommand g env args (st\<lparr>objects := h, cargs := as\<rparr>);
        (if ok then freeClientArgv st else Some st) })"

end
