(* ===== verification/Store.thy ===== *)
theory Store
  imports Commands
begin

text \<open>
  What the commands promise, on an abstract store: a map from keys to values and times of expiry,
  without objects, references, encodings and buffers. A specification gives the bytes of the reply
  and the store afterwards; it is \<open>None\<close> where the code's arithmetic is undefined.
\<close>

section \<open>The store\<close>

datatype aval = Str "byte list" | Other rtype

type_synonym store = "byte list \<Rightarrow> (aval \<times> int option) option"

type_synonym reaction = "(byte list \<times> store) option"

text \<open>A key is visited before it is used: it goes when its time is over, on a master that is not loading.\<close>

definition visit :: "senv \<Rightarrow> byte list \<Rightarrow> store \<Rightarrow> store" where
  "visit env key M =
     (case M key of
        Some (_, Some w) \<Rightarrow>
          if 0 \<le> w \<and> w < mstime env \<and> \<not> loading env \<and> \<not> masterhost env then M(key := None) else M
      | _ \<Rightarrow> M)"

abbreviation sh :: "shared_name \<Rightarrow> byte list" where
  "sh n \<equiv> getDecodedObject (shared_value n)"

abbreviation max_string :: nat where "max_string \<equiv> 512 * 1024 * 1024"

section \<open>Keys\<close>

fun spec_del_keys :: "senv \<Rightarrow> byte list list \<Rightarrow> int \<Rightarrow> store \<Rightarrow> int \<times> store" where
  "spec_del_keys env [] n M = (n, M)"
| "spec_del_keys env (key # ks) n M =
     (let M = visit env key M
      in spec_del_keys env ks (if M key = None then n else n + 1) (M(key := None)))"

definition spec_del :: "senv \<Rightarrow> byte list list \<Rightarrow> store \<Rightarrow> reaction" where
  "spec_del env args M = (let (n, M) = spec_del_keys env (tl args) 0 M in Some (reply_int n, M))"

definition spec_exists :: "senv \<Rightarrow> byte list list \<Rightarrow> store \<Rightarrow> reaction" where
  "spec_exists env args M =
     (let M = visit env (args ! 1) M in Some (reply_int (if M (args ! 1) = None then 0 else 1), M))"

text \<open>A time of expiry of -1 is taken for none, as in \<open>getExpire\<close>.\<close>

definition spec_rename :: "senv \<Rightarrow> bool \<Rightarrow> byte list list \<Rightarrow> store \<Rightarrow> reaction" where
  "spec_rename env nx args M =
     (if args ! 1 = args ! 2 then Some (sh Sh_sameobjecterr, M)
      else
        let M = visit env (args ! 1) M
        in case M (args ! 1) of
          None \<Rightarrow> Some (sh Sh_nokeyerr, M)
        | Some (v, x) \<Rightarrow>
            let M = visit env (args ! 2) M
            in if M (args ! 2) \<noteq> None \<and> nx then Some (reply_int 0, M)
               else Some (if nx then reply_int 1 else sh Sh_ok,
                 M(args ! 2 \<mapsto> (v, if x = Some (-1) then None else x), args ! 1 := None)))"

definition spec_persist :: "senv \<Rightarrow> byte list list \<Rightarrow> store \<Rightarrow> reaction" where
  "spec_persist env args M =
     (case M (args ! 1) of
        Some (v, Some w) \<Rightarrow> Some (reply_int 1, M(args ! 1 \<mapsto> (v, None)))
      | _ \<Rightarrow> Some (reply_int 0, M))"

definition spec_ttl :: "senv \<Rightarrow> bool \<Rightarrow> byte list list \<Rightarrow> store \<Rightarrow> reaction" where
  "spec_ttl env ms args M =
     (let M = visit env (args ! 1) M
      in case M (args ! 1) of
        None \<Rightarrow> Some (reply_int (-2), M)
      | Some (v, None) \<Rightarrow> Some (reply_int (-1), M)
      | Some (v, Some w) \<Rightarrow>
          if w = -1 then Some (reply_int (-1), M)
          else
            let ttl = max 0 (w - mstime env)
            in if \<not> fits 8 (w - mstime env) \<or> \<not> ms \<and> \<not> fits 8 (ttl + 500) then None
               else Some (reply_int (if ms then ttl else (ttl + 500) div 1000), M))"

definition spec_expire :: "senv \<Rightarrow> int \<Rightarrow> bool \<Rightarrow> byte list list \<Rightarrow> store \<Rightarrow> reaction" where
  "spec_expire env base seconds args M =
     (case parse_long_long (args ! 2) of
        None \<Rightarrow> Some (reply_error not_an_integer, M)
      | Some t \<Rightarrow>
          let ms = (if seconds then t * 1000 else t)
          in if \<not> fits 8 ms \<or> \<not> fits 8 (ms + base) then None
             else
               let M = visit env (args ! 1) M
               in case M (args ! 1) of
                 None \<Rightarrow> Some (reply_int 0, M)
               | Some (v, x) \<Rightarrow>
                   Some (reply_int 1,
                     if ms + base \<le> mstime env \<and> \<not> loading env \<and> \<not> masterhost env
                     then M(args ! 1 := None) else M(args ! 1 \<mapsto> (v, Some (ms + base)))))"

fun aval_type :: "aval \<Rightarrow> rtype" where
  "aval_type (Str s) = REDIS_STRING"
| "aval_type (Other t) = t"

definition spec_type :: "senv \<Rightarrow> byte list list \<Rightarrow> store \<Rightarrow> reaction" where
  "spec_type env args M =
     (let M = visit env (args ! 1) M
      in Some ([43] @ (case M (args ! 1) of None \<Rightarrow> ascii ''none'' | Some (v, x) \<Rightarrow> type_name (aval_type v)) @ [13, 10], M))"

definition spec_dbsize :: "senv \<Rightarrow> byte list list \<Rightarrow> store \<Rightarrow> reaction" where
  "spec_dbsize env args M = Some (reply_int (s64 (int (card (dom M)))), M)"

section \<open>Strings\<close>

definition spec_set :: "senv \<Rightarrow> byte list \<Rightarrow> set_flags \<Rightarrow> byte list \<Rightarrow> byte list \<Rightarrow> byte list \<Rightarrow> byte list \<Rightarrow> store \<Rightarrow> reaction" where
  "spec_set env name f key v done abort M =
     (case (case set_expire f of None \<Rightarrow> Some 0 | Some e \<Rightarrow> parse_long_long e) of
        None \<Rightarrow> Some (reply_error not_an_integer, M)
      | Some t \<Rightarrow>
          if set_expire f \<noteq> None \<and> t \<le> 0 then Some (reply_error (ascii ''invalid expire time in '' @ name), M)
          else
            let ms = (if set_expire f \<noteq> None \<and> in_seconds f then t * 1000 else t);
                M = (if set_nx f \<or> set_xx f then visit env key M else M)
            in if \<not> fits 8 ms then None
               else if set_nx f \<and> M key \<noteq> None \<or> set_xx f \<and> M key = None then Some (abort, M)
               else if set_expire f \<noteq> None \<and> \<not> fits 8 (mstime env + ms) then None
               else Some (done, M(key \<mapsto> (Str v, if set_expire f \<noteq> None then Some (mstime env + ms) else None))))"

definition spec_SET :: "senv \<Rightarrow> byte list list \<Rightarrow> store \<Rightarrow> reaction" where
  "spec_SET env args M =
     (case parse_set (drop 3 args) no_flags of
        None \<Rightarrow> Some (sh Sh_syntaxerr, M)
      | Some f \<Rightarrow> spec_set env (ascii ''set'') f (args ! 1) (args ! 2) (sh Sh_ok) (sh Sh_nullbulk) M)"

definition spec_setnx :: "senv \<Rightarrow> byte list list \<Rightarrow> store \<Rightarrow> reaction" where
  "spec_setnx env args M =
     spec_set env (ascii ''setnx'') (no_flags\<lparr>set_nx := True\<rparr>) (args ! 1) (args ! 2) (reply_int 1) (reply_int 0) M"

definition spec_setex :: "senv \<Rightarrow> bool \<Rightarrow> byte list list \<Rightarrow> store \<Rightarrow> reaction" where
  "spec_setex env seconds args M =
     spec_set env (if seconds then ascii ''setex'' else ascii ''psetex'')
       (no_flags\<lparr>set_expire := Some (args ! 2), in_seconds := seconds\<rparr>) (args ! 1) (args ! 3) (sh Sh_ok) (sh Sh_nullbulk) M"

text \<open>What \<open>GET\<close> replies for a key.\<close>

definition get_reply :: "byte list \<Rightarrow> store \<Rightarrow> byte list" where
  "get_reply key M =
     (case M key of
        None \<Rightarrow> sh Sh_nullbulk
      | Some (Str v, _) \<Rightarrow> reply_bulk v
      | Some (Other _, _) \<Rightarrow> sh Sh_wrongtypeerr)"

definition is_other :: "(aval \<times> int option) option \<Rightarrow> bool" where
  "is_other e \<longleftrightarrow> (case e of Some (Other _, _) \<Rightarrow> True | _ \<Rightarrow> False)"

definition spec_get :: "senv \<Rightarrow> byte list list \<Rightarrow> store \<Rightarrow> reaction" where
  "spec_get env args M = (let M = visit env (args ! 1) M in Some (get_reply (args ! 1) M, M))"

definition spec_getset :: "senv \<Rightarrow> byte list list \<Rightarrow> store \<Rightarrow> reaction" where
  "spec_getset env args M =
     (let M = visit env (args ! 1) M
      in Some (get_reply (args ! 1) M,
           if is_other (M (args ! 1)) then M else M(args ! 1 \<mapsto> (Str (args ! 2), None))))"

text \<open>The bytes of \<open>s\<close> from index \<open>lo\<close> to \<open>hi\<close>, both counted from the end when they are negative.\<close>

definition slice :: "int \<Rightarrow> int \<Rightarrow> byte list \<Rightarrow> byte list" where
  "slice lo hi s =
     (let n = int (length s);
          lo = (if lo < 0 then max 0 (n + lo) else lo);
          hi = (if hi < 0 then max 0 (n + hi) else min hi (n - 1))
      in if lo > hi then [] else take (nat (hi - lo + 1)) (drop (nat lo) s))"

definition spec_getrange :: "senv \<Rightarrow> byte list list \<Rightarrow> store \<Rightarrow> reaction" where
  "spec_getrange env args M =
     (case (parse_long_long (args ! 2), parse_long_long (args ! 3)) of
        (Some lo, Some hi) \<Rightarrow>
          let M = visit env (args ! 1) M
          in case M (args ! 1) of
            None \<Rightarrow> Some (reply_bulk [], M)
          | Some (Other _, _) \<Rightarrow> Some (sh Sh_wrongtypeerr, M)
          | Some (Str v, _) \<Rightarrow> Some (reply_bulk (slice lo hi v), M)
      | _ \<Rightarrow> Some (reply_error not_an_integer, M))"

fun spec_mget_keys :: "senv \<Rightarrow> byte list list \<Rightarrow> store \<Rightarrow> byte list \<times> store" where
  "spec_mget_keys env [] M = ([], M)"
| "spec_mget_keys env (key # ks) M =
     (let M = visit env key M;
          r = (if is_other (M key) then sh Sh_nullbulk else get_reply key M);
          (rs, M) = spec_mget_keys env ks M
      in (r @ rs, M))"

definition spec_mget :: "senv \<Rightarrow> byte list list \<Rightarrow> store \<Rightarrow> reaction" where
  "spec_mget env args M =
     (let (rs, M) = spec_mget_keys env (tl args) M in Some (reply_header 42 (int (length args) - 1) @ rs, M))"

definition spec_strlen :: "senv \<Rightarrow> byte list list \<Rightarrow> store \<Rightarrow> reaction" where
  "spec_strlen env args M =
     (let M = visit env (args ! 1) M
      in Some (case M (args ! 1) of
          None \<Rightarrow> reply_int 0
        | Some (Other _, _) \<Rightarrow> sh Sh_wrongtypeerr
        | Some (Str v, _) \<Rightarrow> reply_int (int (length v)), M))"

abbreviation too_long :: "byte list" where
  "too_long \<equiv> reply_error (ascii ''string exceeds maximum allowed size (512MB)'')"

text \<open>
  A sum above the largest \<open>long long\<close> passes the test on the length.
\<close>

definition spec_setrange :: "senv \<Rightarrow> byte list list \<Rightarrow> store \<Rightarrow> reaction" where
  "spec_setrange env args M =
     (case parse_long_long (args ! 2) of
        None \<Rightarrow> Some (reply_error not_an_integer, M)
      | Some off \<Rightarrow>
          if off < 0 then Some (reply_error (ascii ''offset is out of range''), M)
          else
            let M = visit env (args ! 1) M; n = off + int (length (args ! 3));
                put = (\<lambda>v x. if args ! 3 = [] then Some (reply_int (int (length v)), M)
                  else if n \<ge> 2 ^ 63 then None
                  else if n > int max_string then Some (too_long, M)
                  else let v = patch (nat off) (args ! 3) v
                       in Some (reply_int (int (length v)), M(args ! 1 \<mapsto> (Str v, x))))
            in case M (args ! 1) of
              None \<Rightarrow> put [] None
            | Some (Other _, _) \<Rightarrow> Some (sh Sh_wrongtypeerr, M)
            | Some (Str v, x) \<Rightarrow> put v x)"

fun pairs :: "'a list \<Rightarrow> ('a \<times> 'a) list" where
  "pairs (k # v # rest) = (k, v) # pairs rest"
| "pairs _ = []"

definition spec_mset :: "senv \<Rightarrow> bool \<Rightarrow> byte list list \<Rightarrow> store \<Rightarrow> reaction" where
  "spec_mset env nx args M =
     (if even (length args) then Some (reply_error (ascii ''wrong number of arguments for MSET''), M)
      else
        let kvs = pairs (tl args);
            M = (if nx then fold (visit env) (map fst kvs) M else M)
        in if nx \<and> (\<exists>(k, v) \<in> set kvs. M k \<noteq> None) then Some (reply_int 0, M)
           else Some (if nx then reply_int 1 else sh Sh_ok, fold (\<lambda>(k, v) M. M(k \<mapsto> (Str v, None))) kvs M))"

definition spec_incr :: "senv \<Rightarrow> int \<Rightarrow> byte list list \<Rightarrow> store \<Rightarrow> reaction" where
  "spec_incr env incr args M =
     (let M = visit env (args ! 1) M;
          add = (\<lambda>v x. case v of
              None \<Rightarrow> Some (reply_error not_an_integer, M)
            | Some n \<Rightarrow>
                if \<not> fits 8 (n + incr) then Some (reply_error (ascii ''increment or decrement would overflow''), M)
                else Some (reply_int (n + incr), M(args ! 1 \<mapsto> (Str (decimal (n + incr)), x))))
      in case M (args ! 1) of
        None \<Rightarrow> add (Some 0) None
      | Some (Other _, _) \<Rightarrow> Some (sh Sh_wrongtypeerr, M)
      | Some (Str v, x) \<Rightarrow> add (parse_long_long v) x)"

definition spec_incrby :: "senv \<Rightarrow> bool \<Rightarrow> byte list list \<Rightarrow> store \<Rightarrow> reaction" where
  "spec_incrby env decr args M =
     (case parse_long_long (args ! 2) of
        None \<Rightarrow> Some (reply_error not_an_integer, M)
      | Some n \<Rightarrow> if decr \<and> n = int_min 8 then None else spec_incr env (if decr then - n else n) args M)"

definition spec_append :: "senv \<Rightarrow> byte list list \<Rightarrow> store \<Rightarrow> reaction" where
  "spec_append env args M =
     (let M = visit env (args ! 1) M;
          put = (\<lambda>v x. if length v > max_string then Some (too_long, M)
            else Some (reply_int (int (length v)), M(args ! 1 \<mapsto> (Str v, x))))
      in case M (args ! 1) of
        None \<Rightarrow> put (args ! 2) None
      | Some (Other _, _) \<Rightarrow> Some (sh Sh_wrongtypeerr, M)
      | Some (Str v, x) \<Rightarrow> put (v @ args ! 2) x)"

end
