(* ===== verification/Reply_Send.thy ===== *)
theory Reply_Send
  imports Reply_Correct
begin

text \<open>Sending: what is written is what was to be sent, in order, and nothing else changes.\<close>

definition no_holes :: "objs \<Rightarrow> rclient \<Rightarrow> bool" where
  "no_holes h c \<longleftrightarrow> (\<forall>a \<in> set (reply c). raw_at h a)"

text \<open>A step of the loop: \<open>w\<close> was written.\<close>

definition sends :: "addr multiset \<Rightarrow> byte list \<Rightarrow> objs \<Rightarrow> rclient \<Rightarrow> objs \<Rightarrow> rclient \<Rightarrow> bool" where
  "sends E w h c h' c' \<longleftrightarrow> rinv E h' c' \<and> no_holes h' c' \<and> unchanged (set_mset E) h h' \<and> w @ unsent h' c' = unsent h c \<and>
     c' = c\<lparr>buf := buf c', reply := reply c', reply_bytes := reply_bytes c', sentlen := sentlen c'\<rparr>"

lemma sends_refl: "rinv E h c \<Longrightarrow> no_holes h c \<Longrightarrow> sends E [] h c h c"
  by (simp add: sends_def)

lemma sends_trans:
  assumes 1: "sends E w h c h1 c1" and 2: "sends E v h1 c1 h2 c2"
  shows "sends E (w @ v) h c h2 c2"
proof -
  have e1: "c1 = c\<lparr>buf := buf c1, reply := reply c1, reply_bytes := reply_bytes c1, sentlen := sentlen c1\<rparr>"
    and e2: "c2 = c1\<lparr>buf := buf c2, reply := reply c2, reply_bytes := reply_bytes c2, sentlen := sentlen c2\<rparr>"
    using 1 2 by (simp_all add: sends_def)
  have "c2 = c\<lparr>buf := buf c2, reply := reply c2, reply_bytes := reply_bytes c2, sentlen := sentlen c2\<rparr>"
    by (subst e2, subst e1) simp
  then show ?thesis using 1 2 unfolding sends_def by (auto intro: unchanged_trans)
qed

lemma send_buffer:
  assumes i: "rinv E h c" and nh: "no_holes h c" and b: "buf c \<noteq> []"
    and n: "0 < n" "n \<le> length (buf c) - sentlen c"
    and c': "c' = (if sentlen c + n = length (buf c) then c\<lparr>buf := [], sentlen := 0\<rparr> else c\<lparr>sentlen := sentlen c + n\<rparr>)"
  shows "sends E (take n (drop (sentlen c) (buf c))) h c h c'"
proof (cases "sentlen c + n = length (buf c)")
  case True
  then have t: "take n (drop (sentlen c) (buf c)) = drop (sentlen c) (buf c)" by simp
  have e: "c' = c\<lparr>buf := [], sentlen := 0\<rparr>" using c' True by simp
  have s: "sentlen c \<le> length (buf c)" using True by simp
  have "rinv E h c'" using i b by (simp add: e rinv_def list_ok_def sent_ok_def)
  moreover have "no_holes h c'" using nh by (simp add: e no_holes_def)
  moreover have "drop (sentlen c) (buf c) @ unsent h c' = unsent h c" using s by (simp add: e unsent_def)
  ultimately show ?thesis unfolding t by (simp add: sends_def e)
next
  case False
  then have e: "c' = c\<lparr>sentlen := sentlen c + n\<rparr>" and lt: "sentlen c + n < length (buf c)" using c' n by auto
  have "rinv E h c'" using i lt b by (simp add: e rinv_def list_ok_def sent_ok_def)
  moreover have "no_holes h c'" using nh by (simp add: e no_holes_def)
  moreover have "take n (drop (sentlen c) (buf c)) @ unsent h c' = unsent h c"
  proof -
    have "unsent h c = drop (sentlen c) (buf c) @ texts h (reply c)" using lt by (simp add: unsent_def)
    also have "drop (sentlen c) (buf c) = take n (drop (sentlen c) (buf c)) @ drop (sentlen c + n) (buf c)"
      by (metis append_take_drop_id drop_drop add.commute)
    finally show ?thesis using lt by (simp add: e unsent_def)
  qed
  ultimately show ?thesis by (simp add: sends_def e)
qed

text \<open>The first object leaves the list.\<close>

lemma drop_head:
  assumes i: "rinv E h c" and nh: "no_holes h c" and b: "buf c = []" and r: "reply c = a # as"
    and rb: "reply_bytes c - int (osz h a) \<le> rb"
  shows "\<exists>h'. decrRefCount a h = Some h' \<and> unchanged (set_mset E \<union> set as) h h' \<and>
    rinv E h' (c\<lparr>reply := as, sentlen := 0, reply_bytes := rb\<rparr>) \<and> no_holes h' (c\<lparr>reply := as, sentlen := 0, reply_bytes := rb\<rparr>)"
proof -
  have o: "owned h (add_mset a (E + mset as))" using rinvD(1) [OF i] r by simp
  obtain h' where d: "decrRefCount a h = Some h'" "owned h' (E + mset as)" "unchanged (set_mset (E + mset as)) h h'"
    using decrRefCount_ok [OF o, of a] by auto
  have u: "unchanged (set as) h h'" using d(3) by (auto intro: unchanged_mono)
  have raw: "\<forall>x \<in> set as. raw_at h' x" using nh r unchanged_raw [OF u] by (auto simp: no_holes_def)
  have "sizes h' as = sizes h as" by (rule unchanged_sizes [OF u]) simp
  then have "sizes h' as \<le> rb" using i r rb by (simp add: rinv_def)
  then show ?thesis using d i r raw b by (auto simp: rinv_def list_ok_def sent_ok_def no_holes_def)
qed

lemma send_object:
  assumes i: "rinv E h c" and nh: "no_holes h c" and b: "buf c = []" and r: "reply c = a # as"
    and t: "bytes h a = t" and n: "0 < n" "n \<le> length t - sentlen c" and z: "z = osz h a"
  shows "\<exists>h' c'. (if sentlen c + n = length t then do {
                             h \<leftarrow> decrRefCount a h;
                             Some (h, c\<lparr>reply := tl (reply c), sentlen := 0, reply_bytes := reply_bytes c - int z\<rparr>) }
                           else Some (h, c\<lparr>sentlen := sentlen c + n\<rparr>)) = Some (h', c') \<and>
    sends E (take n (drop (sentlen c) t)) h c h' c'"
proof (cases "sentlen c + n = length t")
  case True
  obtain h' where d: "decrRefCount a h = Some h'"
    using drop_head [OF i nh b r order.refl] by blast
  let ?c = "c\<lparr>reply := as, sentlen := 0, reply_bytes := reply_bytes c - int z\<rparr>"
  have "sends E (take n (drop (sentlen c) t)) h c h' ?c"
  proof -
    have q: "unchanged (set_mset E \<union> set as) h h'" "rinv E h' ?c" "no_holes h' ?c"
      using drop_head [OF i nh b r, of "reply_bytes c - int z"] d z by auto
    have "take n (drop (sentlen c) t) = drop (sentlen c) t" using True by simp
    moreover have "drop (sentlen c) t @ unsent h' ?c = unsent h c"
    proof -
      have "texts h' as = texts h as" by (rule unchanged_texts [OF q(1)]) simp
      then show ?thesis using True b r t by (simp add: unsent_def)
    qed
    ultimately show ?thesis using q by (auto simp: sends_def intro: unchanged_mono)
  qed
  then show ?thesis using True d r by simp
next
  case False
  then have lt: "sentlen c + n < length t" using n by simp
  let ?c = "c\<lparr>sentlen := sentlen c + n\<rparr>"
  have "rinv E h ?c" using i lt b r t by (simp add: rinv_def list_ok_def sent_ok_def)
  moreover have "no_holes h ?c" using nh by (simp add: no_holes_def)
  moreover have "take n (drop (sentlen c) t) @ unsent h ?c = unsent h c"
  proof -
    have "drop (sentlen c) t = take n (drop (sentlen c) t) @ drop (sentlen c + n) t"
      by (metis append_take_drop_id drop_drop add.commute)
    then show ?thesis using lt b r t by (simp add: unsent_def)
  qed
  ultimately show ?thesis using False by (simp add: sends_def)
qed

lemma sends_measure:
  "sends E w h c h' c' \<Longrightarrow> w \<noteq> [] \<Longrightarrow> length (reply c') \<le> length (reply c) \<Longrightarrow>
   length (unsent h' c') + length (reply c') < length (unsent h c) + length (reply c)"
  unfolding sends_def by (metis add_less_le_mono length_append length_greater_0_conv less_add_same_cancel2)

lemma send_loop_ok:
  "rinv E h c \<Longrightarrow> no_holes h c \<Longrightarrow>
   \<exists>h' c' w e. send_loop wr stop i written (h, c) = Some ((h', c'), written @ w, e) \<and> sends E w h c h' c' \<and>
     ((\<forall>i. \<exists>k. wr i = Wrote k \<and> 0 < k) \<longrightarrow> e = None \<and> (unsent h' c' = [] \<or> REDIS_MAX_WRITE_PER_EVENT < length (written @ w))) \<and>
     (\<forall>k. e \<noteq> Some (Wrote k))"
proof (induction "length (unsent h c) + length (reply c)" arbitrary: h c i written rule: less_induct)
  case less
  note i = less.prems(1) and nh = less.prems(2)
  let ?live = "\<forall>i. \<exists>k. wr i = Wrote k \<and> 0 < k"
  have stop: ?case if "send_loop wr stop i written (h, c) = Some ((h, c), written, e)" "?live \<longrightarrow> e = None \<and> unsent h c = []"
    "\<forall>k. e \<noteq> Some (Wrote k)" for e
    using that sends_refl [OF i nh] by (intro exI [of _ h] exI [of _ c] exI [of _ "[]"] exI [of _ e]) simp
  have step: ?case
    if s: "send_loop wr stop i written (h, c) =
        (if length (written @ w) > REDIS_MAX_WRITE_PER_EVENT \<and> stop i then Some ((h1, c1), written @ w, None)
         else send_loop wr stop i' (written @ w) (h1, c1))"
      and q: "sends E w h c h1 c1" and m: "length (unsent h1 c1) + length (reply c1) < length (unsent h c) + length (reply c)"
    for w h1 c1 i'
  proof (cases "length (written @ w) > REDIS_MAX_WRITE_PER_EVENT \<and> stop i")
    case True
    then show ?thesis using s q by (intro exI [of _ h1] exI [of _ c1] exI [of _ w] exI [of _ None]) simp
  next
    case False
    have "rinv E h1 c1" "no_holes h1 c1" using q by (simp_all add: sends_def)
    from less.hyps [OF m this, of i' "written @ w"] obtain h' c' v e where
      r: "send_loop wr stop i' (written @ w) (h1, c1) = Some ((h', c'), (written @ w) @ v, e)" "sends E v h1 c1 h' c'"
        "?live \<longrightarrow> e = None \<and> (unsent h' c' = [] \<or> REDIS_MAX_WRITE_PER_EVENT < length ((written @ w) @ v))" "\<forall>k. e \<noteq> Some (Wrote k)"
      by blast
    have "send_loop wr stop i written (h, c) = Some ((h', c'), written @ (w @ v), e)"
      using s r(1) unfolding if_not_P [OF False] by simp
    then show ?thesis using sends_trans [OF q r(2)] r(3,4)
      by (intro exI [of _ h'] exI [of _ c'] exI [of _ "w @ v"] exI [of _ e]) simp
  qed
  show ?case
  proof (cases "buf c = []")
    case b: False
    show ?thesis
    proof (cases "wr i")
      case (Wrote k)
      let ?n = "min k (length (buf c) - sentlen c)"
      let ?c = "if sentlen c + ?n = length (buf c) then c\<lparr>buf := [], sentlen := 0\<rparr> else c\<lparr>sentlen := sentlen c + ?n\<rparr>"
      have pos: "0 < length (buf c) - sentlen c" using i b by (auto simp: rinv_def sent_ok_def split: if_split_asm)
      show ?thesis
      proof (cases "?n = 0")
        case True
        then have "\<not> ?live" using Wrote pos by (metis less_irrefl min_less_iff_conj write_return.inject)
        have "send_loop wr stop i written (h, c) = Some ((h, c), written, None)"
          by (subst send_loop.simps) (use True b Wrote in \<open>simp add: Let_def\<close>)
        then show ?thesis using \<open>\<not> ?live\<close> by (intro stop [of None]) (blast, blast, simp)
      next
        case False
        let ?w = "take ?n (drop (sentlen c) (buf c))"
        have q: "sends E ?w h c h ?c" by (rule send_buffer [OF i nh b]) (use False in auto)
        have w: "?w \<noteq> []" using False pos by simp
        have "length (reply ?c) \<le> length (reply c)" by simp
        note m = sends_measure [OF q w this]
        have "send_loop wr stop i written (h, c) =
            (if length (written @ ?w) > REDIS_MAX_WRITE_PER_EVENT \<and> stop i then Some ((h, ?c), written @ ?w, None)
             else send_loop wr stop (i + 1) (written @ ?w) (h, ?c))"
          by (subst send_loop.simps) (use False b Wrote in \<open>simp only: Let_def prod.case write_return.case if_False HOL.if_True simp_thms\<close>)
        then show ?thesis by (rule step [OF _ q m])
      qed
    next
      case WAgain
      have "send_loop wr stop i written (h, c) = Some ((h, c), written, Some WAgain)"
        by (subst send_loop.simps) (use b WAgain in simp)
      moreover have "\<not> ?live" using WAgain by (metis write_return.distinct(1))
      ultimately show ?thesis by (intro stop [of "Some WAgain"]) (blast, blast, simp)
    next
      case WFailed
      have "send_loop wr stop i written (h, c) = Some ((h, c), written, Some WFailed)"
        by (subst send_loop.simps) (use b WFailed in simp)
      moreover have "\<not> ?live" using WFailed by (metis write_return.distinct(3))
      ultimately show ?thesis by (intro stop [of "Some WFailed"]) (blast, blast, simp)
    qed
  next
    case b: True
    show ?thesis
    proof (cases "reply c")
      case Nil
      then show ?thesis using b by (intro stop [of None]) (subst send_loop.simps, simp_all add: unsent_def)
    next
      case (Cons a as)
      then have "raw_at h a" using nh by (simp add: no_holes_def)
      then obtain ob t where ob: "h a = Some ob" "optr ob = Some (Raw t)" "bytes h a = t" "osz h a = osize ob"
        using raw_obj by blast
      show ?thesis
      proof (cases "t = []")
        case True
        then have s0: "sentlen c = 0" using i b Cons ob(3) by (auto simp: rinv_def sent_ok_def)
        obtain h1 where d: "decrRefCount a h = Some h1" "unchanged (set_mset E \<union> set as) h h1"
          "rinv E h1 (c\<lparr>reply := as, sentlen := 0, reply_bytes := reply_bytes c\<rparr>)"
          "no_holes h1 (c\<lparr>reply := as, sentlen := 0, reply_bytes := reply_bytes c\<rparr>)"
          using drop_head [OF i nh b Cons, of "reply_bytes c"] by auto
        let ?c = "c\<lparr>reply := as\<rparr>"
        have c0: "c\<lparr>reply := as, sentlen := 0, reply_bytes := reply_bytes c\<rparr> = ?c" using s0 by simp
        have tx: "texts h1 as = texts h as" by (rule unchanged_texts [OF d(2)]) simp
        have q: "sends E [] h c h1 ?c"
          using d(3,4) tx d(2) Cons True ob(3) b s0 unfolding c0 by (auto simp: sends_def unsent_def intro: unchanged_mono)
        have m: "length (unsent h1 ?c) + length (reply ?c) < length (unsent h c) + length (reply c)"
          using q Cons by (simp add: sends_def)
        from less.hyps [OF m] d(3,4) c0 obtain h' c' v e where
          r: "send_loop wr stop i written (h1, ?c) = Some ((h', c'), written @ v, e)" "sends E v h1 ?c h' c'"
            "?live \<longrightarrow> e = None \<and> (unsent h' c' = [] \<or> REDIS_MAX_WRITE_PER_EVENT < length (written @ v))" "\<forall>k. e \<noteq> Some (Wrote k)"
          by metis
        have "send_loop wr stop i written (h, c) = send_loop wr stop i written (h1, ?c)"
          by (subst send_loop.simps) (use True b Cons ob d(1) in \<open>simp add: Let_def\<close>)
        then show ?thesis using r sends_trans [OF q r(2)] by (intro exI [of _ h'] exI [of _ c'] exI [of _ v] exI [of _ e]) simp
      next
        case t: False
        show ?thesis
        proof (cases "wr i")
          case (Wrote k)
          let ?n = "min k (length t - sentlen c)"
          have pos: "0 < length t - sentlen c" using i b Cons t ob(3) by (auto simp: rinv_def sent_ok_def)
          show ?thesis
          proof (cases "?n = 0")
            case True
            then have "\<not> ?live" using Wrote pos by (metis less_irrefl min_less_iff_conj write_return.inject)
            have "send_loop wr stop i written (h, c) = Some ((h, c), written, None)"
              by (subst send_loop.simps) (use True b Wrote Cons ob t in \<open>simp add: Let_def\<close>)
            then show ?thesis using \<open>\<not> ?live\<close> by (intro stop [of None]) (blast, blast, simp)
          next
            case False
            let ?w = "take ?n (drop (sentlen c) t)"
            obtain h1 c1 where o: "(if sentlen c + ?n = length t then do {
                             h \<leftarrow> decrRefCount a h;
                             Some (h, c\<lparr>reply := tl (reply c), sentlen := 0, reply_bytes := reply_bytes c - int (osize ob)\<rparr>) }
                           else Some (h, c\<lparr>sentlen := sentlen c + ?n\<rparr>)) = Some (h1, c1)" and q: "sends E ?w h c h1 c1"
              using send_object [OF i nh b Cons ob(3), of ?n "osize ob"] False ob(4) by auto
            have w: "?w \<noteq> []" using False pos by simp
            have "length (reply c1) \<le> length (reply c)" using o by (auto split: if_split_asm bind_splits)
            note m = sends_measure [OF q w this]
            have "send_loop wr stop i written (h, c) =
                (if length (written @ ?w) > REDIS_MAX_WRITE_PER_EVENT \<and> stop i then Some ((h1, c1), written @ ?w, None)
                 else send_loop wr stop (i + 1) (written @ ?w) (h1, c1))"
              by (subst send_loop.simps)
                (use False b Cons ob t Wrote o in \<open>simp only: Let_def prod.case write_return.case if_False HOL.if_True simp_thms list.sel
                   bind.bind_lunit raw_string.simps list.simps\<close>)
            then show ?thesis by (rule step [OF _ q m])
          qed
        next
          case WAgain
          have "send_loop wr stop i written (h, c) = Some ((h, c), written, Some WAgain)"
            by (subst send_loop.simps) (use b WAgain Cons ob t in \<open>simp add: Let_def\<close>)
          moreover have "\<not> ?live" using WAgain by (metis write_return.distinct(1))
          ultimately show ?thesis by (intro stop [of "Some WAgain"]) (blast, blast, simp)
        next
          case WFailed
          have "send_loop wr stop i written (h, c) = Some ((h, c), written, Some WFailed)"
            by (subst send_loop.simps) (use b WFailed Cons ob t in \<open>simp add: Let_def\<close>)
          moreover have "\<not> ?live" using WFailed by (metis write_return.distinct(3))
          ultimately show ?thesis by (intro stop [of "Some WFailed"]) (blast, blast, simp)
        qed
      qed
    qed
  qed
qed

lemma release_replies_ok:
  "owned h (E + mset as) \<Longrightarrow> \<exists>h'. release_replies as h = Some h' \<and> owned h' E \<and> unchanged (set_mset E) h h'"
proof (induction as arbitrary: h)
  case (Cons a as)
  then have o: "owned h (add_mset a (E + mset as))" by simp
  obtain h1 where d: "decrRefCount a h = Some h1" "owned h1 (E + mset as)" "unchanged (set_mset (E + mset as)) h h1"
    using decrRefCount_ok [OF o, of a] by auto
  obtain h2 where r: "release_replies as h1 = Some h2" "owned h2 E" "unchanged (set_mset E) h1 h2" using Cons.IH [OF d(2)] by blast
  have "unchanged (set_mset E) h h2" by (rule unchanged_trans [OF d(3) r(3)]) auto
  then show ?case using d(1) r by simp
qed simp

text \<open>
  A call of the handler: what is written, and then what is left to be sent, is what was to be sent.
  A client that is released gives back all its references.
\<close>

lemma sendReplyToClient_ok:
  assumes i: "rinv E h c" and nh: "no_holes h c"
  shows "\<exists>h' co w. sendReplyToClient wr stop (h, c) = Some ((h', co), w) \<and> unchanged (set_mset E) h h' \<and>
    (case co of
       None \<Rightarrow> owned h' E \<and> (\<exists>v. w @ v = unsent h c)
     | Some c' \<Rightarrow> rinv E h' c' \<and> no_holes h' c' \<and> w @ unsent h' c' = unsent h c \<and>
         c' = c\<lparr>buf := buf c', reply := reply c', reply_bytes := reply_bytes c', sentlen := sentlen c', handler := handler c'\<rparr>) \<and>
    ((\<forall>i. \<exists>k. wr i = Wrote k \<and> 0 < k) \<longrightarrow> w = unsent h c \<or> co \<noteq> None \<and> REDIS_MAX_WRITE_PER_EVENT < length w)"
proof -
  let ?live = "\<forall>i. \<exists>k. wr i = Wrote k \<and> 0 < k"
  obtain h1 c1 w e where l: "send_loop wr stop 0 [] (h, c) = Some ((h1, c1), w, e)" "sends E w h c h1 c1"
    "?live \<longrightarrow> e = None \<and> (unsent h1 c1 = [] \<or> REDIS_MAX_WRITE_PER_EVENT < length w)"
    using send_loop_ok [OF i nh, of wr stop 0 "[]"] unfolding append_Nil by blast
  have q: "rinv E h1 c1" "no_holes h1 c1" "unchanged (set_mset E) h h1" "w @ unsent h1 c1 = unsent h c"
    "c1 = c\<lparr>buf := buf c1, reply := reply c1, reply_bytes := reply_bytes c1, sentlen := sentlen c1\<rparr>"
    using l(2) by (simp_all add: sends_def)
  have live: "?live \<longrightarrow> w = unsent h c \<or> REDIS_MAX_WRITE_PER_EVENT < length w" using l(3) q(4) by auto
  obtain h2 where r: "release_replies (reply c1) h1 = Some h2" "owned h2 E" "unchanged (set_mset E) h1 h2"
    using release_replies_ok [OF rinvD(1) [OF q(1)]] by blast
  have u2: "unchanged (set_mset E) h h2" by (rule unchanged_trans [OF q(3) r(3)]) auto
  have freed: ?thesis if "sendReplyToClient wr stop (h, c) = Some ((h2, None), w)" "?live \<longrightarrow> w = unsent h c"
    by (rule exI [of _ h2], rule exI [of _ None], rule exI [of _ w]) (use that u2 r(2) q(4) in auto)
  show ?thesis
  proof (cases "e = Some WFailed")
    case True
    moreover from True have n: "?live \<longrightarrow> w = unsent h c" using l(3) by blast
    ultimately show ?thesis using l(1) r(1) by (intro freed [OF _ n]) (simp add: sendReplyToClient_def)
  next
    case ok: False
    show ?thesis
    proof (cases "buf c1 = [] \<and> reply c1 = []")
      case False
      then have "sendReplyToClient wr stop (h, c) = Some ((h1, Some c1), w)"
        using l(1) ok by (auto simp: sendReplyToClient_def)
      moreover have "c1 = c\<lparr>buf := buf c1, reply := reply c1, reply_bytes := reply_bytes c1, sentlen := sentlen c1, handler := handler c1\<rparr>"
        by (subst q(5), subst q(5), simp)
      ultimately show ?thesis using q live by (intro exI [of _ h1] exI [of _ "Some c1"] exI [of _ w]) simp
    next
      case True
      let ?c = "c1\<lparr>sentlen := 0, handler := False\<rparr>"
      show ?thesis
      proof (cases "closing c1")
        case cl: True
        have "w = unsent h c" using q(4) True by (simp add: unsent_def)
        then show ?thesis using cl l(1) ok True r(1) by (intro freed) (simp_all add: sendReplyToClient_def)
      next
        case False
        have s: "sendReplyToClient wr stop (h, c) = Some ((h1, Some ?c), w)"
          using l(1) ok True False by (simp add: sendReplyToClient_def)
        have "rinv E h1 ?c" using q(1) True by (simp add: rinv_def list_ok_def sent_ok_def)
        moreover have "no_holes h1 ?c" using True by (simp add: no_holes_def)
        moreover have "unsent h1 ?c = unsent h1 c1" using True by (simp add: unsent_def)
        moreover have "?c = c\<lparr>buf := buf ?c, reply := reply ?c, reply_bytes := reply_bytes ?c, sentlen := sentlen ?c, handler := handler ?c\<rparr>"
          by (subst q(5)) simp
        ultimately show ?thesis using s q(3,4) live by (intro exI [of _ h1] exI [of _ "Some ?c"] exI [of _ w]) simp
      qed
    qed
  qed
qed

end
