(* ===== verification/Store_Rules.thy ===== *)
theory Store_Rules
  imports Store Reply_Send
begin

text \<open>
  The assertion that relates the server to the abstract store, and a rule for each operation that
  the commands are made of. The rules are in the form of Hoare triples: the operation has a result,
  and the result satisfies the assertion.
\<close>

section \<open>Results\<close>

definition ok :: "'a option \<Rightarrow> ('a \<Rightarrow> bool) \<Rightarrow> bool" where
  "ok m Q \<longleftrightarrow> (\<exists>x. m = Some x \<and> Q x)"

lemma ok_Some [simp]: "ok (Some x) Q \<longleftrightarrow> Q x"
  by (simp add: ok_def)

lemma ok_seq: "ok m P \<Longrightarrow> (\<And>x. P x \<Longrightarrow> ok (f x) Q) \<Longrightarrow> ok (Option.bind m f) Q"
  by (auto simp: ok_def)

lemma ok_mono: "ok m P \<Longrightarrow> (\<And>x. P x \<Longrightarrow> Q x) \<Longrightarrow> ok m Q"
  by (auto simp: ok_def)

section \<open>The assertion\<close>

definition refs :: "server \<Rightarrow> addr multiset" where
  "refs st = image_mset (\<lambda>k. the (kdict st k)) (mset_set (dom (kdict st))) + mset (cargs st)"

definition aval :: "objs \<Rightarrow> addr \<Rightarrow> aval option" where
  "aval h a = (case content h a of
     None \<Rightarrow> None
   | Some (ty, p, sz) \<Rightarrow> if ty = REDIS_STRING then map_option (\<lambda>p. Str (getDecodedObject p)) p else Some (Other ty))"

text \<open>The values of keys, none longer than 512 MB; and the arguments.\<close>

definition short :: "aval \<Rightarrow> bool" where
  "short v \<longleftrightarrow> (\<forall>s. v = Str s \<longrightarrow> length s \<le> max_string)"

fun entry :: "objs \<Rightarrow> addr option \<Rightarrow> int option \<Rightarrow> (aval \<times> int option) option \<Rightarrow> bool" where
  "entry h None x e \<longleftrightarrow> e = None \<and> x = None"
| "entry h (Some a) x e \<longleftrightarrow> (\<exists>v. aval h a = Some v \<and> e = Some (v, x) \<and> short v)"

definition matches :: "server \<Rightarrow> store \<Rightarrow> bool" where
  "matches st M \<longleftrightarrow> finite (dom (kdict st)) \<and> (\<forall>k. entry (objects st) (kdict st k) (kexpires st k) (M k))"

definition args_at :: "byte list list \<Rightarrow> server \<Rightarrow> bool" where
  "args_at args st \<longleftrightarrow> list_all2 (\<lambda>a s. aval (objects st) a = Some (Str s)) (cargs st) args \<and>
     (\<forall>s \<in> set args. length s \<le> max_string) \<and> length args \<le> 1024 * 1024"

text \<open>
  The client is one that gets replies, and not a master. \<open>E\<close> are references of others, whose objects are as in \<open>h0\<close>; the shared objects are among them.
  \<open>H\<close> are references the running command holds. \<open>s\<close> is what is to be sent.
\<close>

definition plain :: "rclient \<Rightarrow> bool" where
  "plain c \<longleftrightarrow> normal c \<and> \<not> master_client c"

definition at :: "senv \<Rightarrow> addr multiset \<Rightarrow> addr multiset \<Rightarrow> byte list list \<Rightarrow> objs \<Rightarrow> store \<Rightarrow> byte list \<Rightarrow> server \<Rightarrow> bool" where
  "at env E H args h0 M s st \<longleftrightarrow>
     good_malloc (oe env) \<and> shared_ok (oe env) (objects st) E \<and> rinv (E + H + refs st) (objects st) (conn st) \<and>
     plain (conn st) \<and> no_holes (objects st) (conn st) \<and> matches st M \<and> args_at args st \<and> unchanged (set_mset E) h0 (objects st) \<and>
     unsent (objects st) (conn st) = s"

lemma at_touch [simp]: "at env E H args h0 M s (touch n st) = at env E H args h0 M s st"
  by (simp add: at_def refs_def matches_def args_at_def)

text \<open>The dictionaries and the arguments stay.\<close>

definition same :: "server \<Rightarrow> server \<Rightarrow> bool" where
  "same st st' \<longleftrightarrow> kdict st' = kdict st \<and> kexpires st' = kexpires st \<and> cargs st' = cargs st"

lemma same_refl [simp]: "same st st"
  by (simp add: same_def)

lemma same_refs: "same st st' \<Longrightarrow> refs st' = refs st"
  by (simp add: same_def refs_def)

lemma aval_cong: "content h' a = content h a \<Longrightarrow> aval h' a = aval h a"
  by (simp add: aval_def)

lemma in_refs: "finite (dom (kdict st)) \<Longrightarrow> kdict st k = Some a \<Longrightarrow> a \<in># refs st"
  by (auto simp: refs_def image_iff intro!: bexI [of _ k])

lemma entry_cong: "entry h d x e \<Longrightarrow> (\<And>a. d = Some a \<Longrightarrow> aval h' a = aval h a) \<Longrightarrow> entry h' d x e"
  by (cases d) auto

lemma same_matches:
  assumes "same st st'" "unchanged (set_mset (refs st)) (objects st) (objects st')" "matches st M"
  shows "matches st' M"
proof -
  have "aval (objects st') a = aval (objects st) a" if "kdict st k = Some a" for k a
    using assms that in_refs [of st k a] by (intro aval_cong) (auto simp: unchanged_def matches_def)
  moreover have "entry (objects st) (kdict st k) (kexpires st k) (M k)" for k using assms(3) by (simp add: matches_def)
  ultimately have "entry (objects st') (kdict st k) (kexpires st k) (M k)" for k using entry_cong by blast
  then show ?thesis using assms(1,3) by (simp add: matches_def same_def)
qed

lemma same_args:
  assumes "same st st'" "unchanged (set_mset (refs st)) (objects st) (objects st')" "args_at args st"
  shows "args_at args st'"
proof -
  have "aval (objects st') a = aval (objects st) a" if "a \<in> set (cargs st)" for a
    using assms(2) that by (intro aval_cong) (auto simp: unchanged_def refs_def)
  then have "list_all2 (\<lambda>a s. aval (objects st') a = Some (Str s)) (cargs st) args"
    using assms(3) by (auto simp: args_at_def elim!: list.rel_mono_strong)
  then show ?thesis using assms(1,3) by (simp add: args_at_def same_def)
qed

lemma shared_ok_unchanged: "shared_ok env h E \<Longrightarrow> unchanged (set_mset E) h h' \<Longrightarrow> shared_ok env h' E"
  by (rule shared_ok_mono) auto

lemma at_serves: "at env E H args h0 M s st \<Longrightarrow> serves (oe env) (E + H + refs st) (objects st, conn st)"
  using shared_ok_mono [of "oe env" "objects st" E "objects st" "E + H + refs st"]
  by (simp add: at_def serves_def plain_def add.assoc)

lemma at_step:
  assumes a: "at env E H args h0 M s st" and s: "same st st'"
    and u: "unchanged (set_mset (E + refs st)) (objects st) (objects st')"
    and r: "rinv (E + H' + refs st) (objects st') (conn st')" "plain (conn st')" "no_holes (objects st') (conn st')"
  shows "at env E H' args h0 M (unsent (objects st') (conn st')) st'"
proof -
  have uE: "unchanged (set_mset E) (objects st) (objects st')" and uR: "unchanged (set_mset (refs st)) (objects st) (objects st')"
    using u by (auto intro: unchanged_mono)
  have "unchanged (set_mset E) h0 (objects st')" using a unchanged_trans [OF _ uE] unfolding at_def by blast
  then show ?thesis
    using a r same_refs [OF s] same_matches [OF s uR] same_args [OF s uR] shared_ok_unchanged [OF _ uE] unfolding at_def by simp
qed

section \<open>Replies\<close>

lemma at_emit:
  assumes a: "at env E H args h0 M s st" and e: "emits (E + H + refs st) f r (objects st, conn st)"
  shows "ok (on_client f st) (\<lambda>st'. at env E H args h0 M (s @ r) st' \<and> same st st')"
proof -
  obtain h' c' where f: "f (objects st, conn st) = Some (h', c')" "serves (oe env) (E + H + refs st) (h', c')"
      "unchanged (set_mset (E + H + refs st)) (objects st) h'" "unsent h' c' = unsent (objects st) (conn st) @ r"
      "adds (E + H + refs st) r (objects st) (conn st) h' c'"
    using emits_serves [OF at_serves [OF a] e] by auto
  have pl: "plain c'" using adds_sel [OF f(5)] a by (auto simp: at_def plain_def normal_def)
  have nh: "no_holes h' c'"
  proof -
    have "no_holes (objects st) (conn st)" using a by (simp add: at_def)
    then have "\<not> hole_at h' b" if "b \<in> set (reply c')" for b
      using f(5) that unfolding adds_def no_holes_def raw_at_def hole_at_def by fastforce
    moreover have "list_ok h' c'" using f(5) by (auto simp: adds_def dest: rinvD)
    ultimately show ?thesis by (auto simp: no_holes_def list_ok_def)
  qed
  let ?st = "st\<lparr>objects := h', conn := c'\<rparr>"
  have "at env E H args h0 M (unsent (objects ?st) (conn ?st)) ?st"
    by (rule at_step [OF a]) (use f(2,3) nh pl in \<open>auto simp: same_def serves_def intro: unchanged_mono\<close>)
  then show ?thesis using a f(1,4) by (simp add: on_client_def at_def same_def)
qed

lemma ok_shared:
  assumes "at env E H args h0 M s st" "shared_exists n"
  shows "ok (reply_shared env n st) (\<lambda>st'. at env E H args h0 M (s @ sh n) st' \<and> same st st')"
  unfolding reply_shared_def by (rule at_emit [OF assms(1) emit_shared [OF at_serves [OF assms(1)] assms(2)]])

lemma ok_error:
  assumes "at env E H args h0 M s st"
  shows "ok (reply_error_string env e st) (\<lambda>st'. at env E H args h0 M (s @ reply_error e) st' \<and> same st st')"
  unfolding reply_error_string_def by (rule at_emit [OF assms emit_error [OF at_serves [OF assms]]])

lemma ok_long:
  assumes "at env E H args h0 M s st" "fits 8 v"
  shows "ok (reply_long env v st) (\<lambda>st'. at env E H args h0 M (s @ reply_int v) st' \<and> same st st')"
  unfolding reply_long_def by (rule at_emit [OF assms(1) emit_int [OF at_serves [OF assms(1)] assms(2)]])

lemma ok_status:
  assumes "at env E H args h0 M s st"
  shows "ok (on_client (addReplyStatus (oe env) True t) st) (\<lambda>st'. at env E H args h0 M (s @ [43] @ t @ [13, 10]) st' \<and> same st st')"
  by (rule at_emit [OF assms emit_status [OF at_serves [OF assms]]])

lemma ok_buffer:
  assumes "at env E H args h0 M s st" "fits 8 (int (length t))"
  shows "ok (on_client (addReplyBulkCBuffer (oe env) True t) st) (\<lambda>st'. at env E H args h0 M (s @ reply_bulk t) st' \<and> same st st')"
  by (rule at_emit [OF assms(1) emit_buffer [OF at_serves [OF assms(1)] assms(2)]])

lemma ok_multi:
  assumes "at env E H args h0 M s st" "fits 8 v" "0 \<le> v"
  shows "ok (on_client (addReplyMultiBulkLen (oe env) True v) st) (\<lambda>st'. at env E H args h0 M (s @ reply_header 42 v) st' \<and> same st st')"
  by (rule at_emit [OF assms(1) emit_multi [OF at_serves [OF assms(1)] assms(2,3)]])

lemma aval_Str: "aval h a = Some (Str s) \<longleftrightarrow> (\<exists>p sz. content h a = Some (REDIS_STRING, Some p, sz) \<and> getDecodedObject p = s)"
  by (auto simp: aval_def split: option.split if_splits)

lemma ok_bulk_object:
  assumes a: "at env E H args h0 M s st" and r: "a \<in># E + H + refs st" "aval (objects st) a = Some (Str v)" and l: "length v \<le> max_string"
  shows "ok (reply_bulk_object env a st) (\<lambda>st'. at env E H args h0 M (s @ reply_bulk v) st' \<and> same st st')"
proof -
  obtain p sz where p: "content (objects st) a = Some (REDIS_STRING, Some p, sz)" "getDecodedObject p = v" using r(2) aval_Str by blast
  have "fits 8 (int (length v))" using l by (simp add: fits_def)
  then show ?thesis unfolding reply_bulk_object_def
    using at_emit [OF a emit_bulk [OF at_serves [OF a], of a p sz]] r(1) p by simp
qed

lemma ok_object:
  assumes a: "at env E H args h0 M s st" and r: "a \<in># E + H + refs st" "aval (objects st) a = Some (Str v)"
  shows "ok (on_client (addReply (oe env) True a) st) (\<lambda>st'. at env E H args h0 M (s @ v) st' \<and> same st st')"
proof -
  obtain p sz where p: "content (objects st) a = Some (REDIS_STRING, Some p, sz)" "getDecodedObject p = v" using r(2) aval_Str by blast
  then show ?thesis using at_emit [OF a emit_object [OF at_serves [OF a] r(1)], of p sz] by simp
qed

section \<open>References\<close>

lemma rinv_objs:
  assumes "rinv E h c" and "owned h' (E' + mset (reply c))" and u: "unchanged (set (reply c)) h h'"
  shows "rinv E' h' c"
proof -
  have "list_ok h' c" using assms(1) unchanged_raw [OF u] unchanged_hole [OF u] by (auto simp: rinv_def list_ok_def)
  moreover have "sent_ok h' c" using assms(1) unchanged_bytes [OF u, of "hd (reply c)"] by (auto simp: rinv_def sent_ok_def)
  moreover have "sizes h' (reply c) = sizes h (reply c)" by (rule unchanged_sizes [OF u]) simp
  ultimately show ?thesis using assms by (auto simp: rinv_def)
qed

lemma unsent_cong: "unchanged (set (reply c)) h h' \<Longrightarrow> unsent h' c = unsent h c"
  using unchanged_texts [of "set (reply c)" h h' "reply c"] by (simp add: unsent_def)

text \<open>All references: those of others, of the running command, of the server, of the replies.\<close>

abbreviation all_refs :: "addr multiset \<Rightarrow> addr multiset \<Rightarrow> server \<Rightarrow> addr multiset" where
  "all_refs E H st \<equiv> E + H + refs st + mset (reply (conn st))"

lemma at_owned: "at env E H args h0 M s st \<Longrightarrow> owned (objects st) (all_refs E H st)"
  by (auto simp: at_def dest: rinvD(1))

lemma at_objs:
  assumes a: "at env E H args h0 M s st" and o: "owned h' (all_refs E H' st)"
    and u: "unchanged (set_mset (E + refs st + mset (reply (conn st)))) (objects st) h'"
  shows "at env E H' args h0 M s (st\<lparr>objects := h'\<rparr>)"
proof -
  have ur: "unchanged (set (reply (conn st))) (objects st) h'" by (rule unchanged_mono [OF u]) auto
  have r: "rinv (E + H + refs st) (objects st) (conn st)" using a by (simp add: at_def)
  have "at env E H' args h0 M (unsent (objects (st\<lparr>objects := h'\<rparr>)) (conn (st\<lparr>objects := h'\<rparr>))) (st\<lparr>objects := h'\<rparr>)"
  proof (rule at_step [OF a])
    show "unchanged (set_mset (E + refs st)) (objects st) (objects (st\<lparr>objects := h'\<rparr>))"
      using u by (auto intro: unchanged_mono)
    show "rinv (E + H' + refs st) (objects (st\<lparr>objects := h'\<rparr>)) (conn (st\<lparr>objects := h'\<rparr>))"
      using rinv_objs [OF r o ur] by simp
    show "no_holes (objects (st\<lparr>objects := h'\<rparr>)) (conn (st\<lparr>objects := h'\<rparr>))"
      using a unchanged_raw [OF ur] by (simp add: at_def no_holes_def)
  qed (use a in \<open>simp_all add: same_def at_def\<close>)
  moreover have "unsent h' (conn st) = s" using unsent_cong [OF ur] a by (simp add: at_def)
  ultimately show ?thesis by simp
qed

lemma ok_hold:
  assumes a: "at env E H args h0 M s st" and m: "a \<in># all_refs E H st"
  shows "ok (hold_ref a st) (\<lambda>st'. at env E (add_mset a H) args h0 M s st' \<and> same st st' \<and> conn st' = conn st \<and>
    unchanged UNIV (objects st) (objects st'))"
proof -
  obtain h' where h: "incrRefCount a (objects st) = Some h'" "owned h' (add_mset a (all_refs E H st))" "unchanged UNIV (objects st) h'"
    using incrRefCount_ok [OF at_owned [OF a] m] by blast
  have "at env E (add_mset a H) args h0 M s (st\<lparr>objects := h'\<rparr>)"
    by (rule at_objs [OF a]) (use h in \<open>auto intro: unchanged_mono\<close>)
  then show ?thesis using h(1,3) by (simp add: hold_ref_def same_def)
qed

lemma ok_drop:
  assumes a: "at env E (add_mset a H) args h0 M s st"
  shows "ok (drop_ref a st) (\<lambda>st'. at env E H args h0 M s st' \<and> same st st' \<and> conn st' = conn st)"
proof -
  have o: "owned (objects st) (add_mset a (all_refs E H st))" using at_owned [OF a] by simp
  obtain h' where h: "decrRefCount a (objects st) = Some h'" "owned h' (all_refs E H st)"
      "unchanged (set_mset (all_refs E H st)) (objects st) h'"
    using decrRefCount_ok [OF o, of a] by auto
  have "at env E H args h0 M s (st\<lparr>objects := h'\<rparr>)"
    by (rule at_objs [OF a]) (use h in \<open>auto intro: unchanged_mono\<close>)
  then show ?thesis using h(1) by (simp add: drop_ref_def same_def)
qed

lemma at_create:
  assumes a: "at env E H args h0 M s st" and c: "createObject (oe env) REDIS_STRING (Some p) sz (objects st) = (h', b)"
  shows "at env E (add_mset b H) args h0 M s (st\<lparr>objects := h'\<rparr>)" "aval h' b = Some (Str (getDecodedObject p))"
    "b \<notin># all_refs E H st" "content h' b = Some (REDIS_STRING, Some p, sz)"
    "unchanged (set_mset (all_refs E H st)) (objects st) h'"
proof -
  have m: "good_malloc (oe env)" using a by (simp add: at_def)
  note n = createObject_ok [OF at_owned [OF a] m c]
  show "at env E (add_mset b H) args h0 M s (st\<lparr>objects := h'\<rparr>)"
    by (rule at_objs [OF a]) (use n in \<open>auto intro: unchanged_mono\<close>)
  show "aval h' b = Some (Str (getDecodedObject p))" using n(3) by (auto simp: aval_Str)
  show "b \<notin># all_refs E H st" "content h' b = Some (REDIS_STRING, Some p, sz)"
    "unchanged (set_mset (all_refs E H st)) (objects st) h'" using n by simp_all
qed

lemma create_string:
  "createStringObject env t h = createObject env REDIS_STRING (Some (Raw t)) (sdssize env 0 (length t)) h"
  by (simp add: createStringObject_def)

section \<open>Entries\<close>

text \<open>Taking an entry out of the dictionaries, and putting one in: the reference moves.\<close>

lemma refs_put:
  assumes "finite (dom (kdict st))" "kdict st k = None"
  shows "refs (st\<lparr>kdict := (kdict st)(k \<mapsto> a), kexpires := x\<rparr>) = add_mset a (refs st)"
proof -
  let ?D = "dom (kdict st)"
  have k: "k \<notin> ?D" using assms(2) by auto
  have "image_mset (\<lambda>i. the (((kdict st)(k \<mapsto> a)) i)) (mset_set ?D) = image_mset (\<lambda>i. the (kdict st i)) (mset_set ?D)"
    using k assms(1) by (intro image_mset_cong) auto
  then show ?thesis using assms(1) k by (simp add: refs_def)
qed

definition take_entry :: "byte list \<Rightarrow> server \<Rightarrow> server" where
  "take_entry k st = st\<lparr>kdict := (kdict st)(k := None), kexpires := (kexpires st)(k := None)\<rparr>"

definition put_entry :: "byte list \<Rightarrow> addr \<Rightarrow> int option \<Rightarrow> server \<Rightarrow> server" where
  "put_entry k a x st = st\<lparr>kdict := (kdict st)(k \<mapsto> a), kexpires := (kexpires st)(k := x)\<rparr>"

lemma entry_sel [simp]:
  "objects (take_entry k st) = objects st" "conn (take_entry k st) = conn st" "cargs (take_entry k st) = cargs st"
  "kdict (take_entry k st) = (kdict st)(k := None)" "kexpires (take_entry k st) = (kexpires st)(k := None)"
  "objects (put_entry k a x st) = objects st" "conn (put_entry k a x st) = conn st" "cargs (put_entry k a x st) = cargs st"
  "kdict (put_entry k a x st) = (kdict st)(k \<mapsto> a)" "kexpires (put_entry k a x st) = (kexpires st)(k := x)"
  by (simp_all add: take_entry_def put_entry_def)

lemma refs_take:
  assumes "finite (dom (kdict st))" and k: "kdict st k = Some a"
  shows "refs st = add_mset a (refs (take_entry k st))"
proof -
  have d: "((kdict st)(k := None))(k \<mapsto> a) = kdict st" using k by (simp add: map_upd_triv)
  have "refs st = refs ((take_entry k st)\<lparr>kdict := (kdict (take_entry k st))(k \<mapsto> a), kexpires := kexpires st\<rparr>)"
    using d by (simp add: refs_def)
  also have "\<dots> = add_mset a (refs (take_entry k st))" using assms(1) by (intro refs_put) auto
  finally show ?thesis .
qed

lemma matches_upd:
  assumes "matches st M" "entry (objects st) d x e"
  shows "matches (st\<lparr>kdict := (kdict st)(k := d), kexpires := (kexpires st)(k := x)\<rparr>) (M(k := e))"
  using assms finite_subset [of "dom ((kdict st)(k := d))" "insert k (dom (kdict st))"]
  by (auto simp: matches_def split: if_split_asm)

lemma at_finite: "at env E H args h0 M s st \<Longrightarrow> finite (dom (kdict st))"
  by (simp add: at_def matches_def)

lemma key_entry: "at env E H args h0 M s st \<Longrightarrow> entry (objects st) (kdict st k) (kexpires st k) (M k)"
  by (simp add: at_def matches_def)

lemma at_None: "at env E H args h0 M s st \<Longrightarrow> kdict st k = None \<longleftrightarrow> M k = None"
  using key_entry [of env E H args h0 M s st k] by (cases "kdict st k") auto

lemma at_expires_None: "at env E H args h0 M s st \<Longrightarrow> kdict st k = None \<Longrightarrow> kexpires st k = None"
  using key_entry [of env E H args h0 M s st k] by auto

lemma at_Some:
  "at env E H args h0 M s st \<Longrightarrow> kdict st k = Some a \<Longrightarrow>
   \<exists>v. aval (objects st) a = Some v \<and> M k = Some (v, kexpires st k) \<and> short v \<and> a \<in># refs st"
  using key_entry [of env E H args h0 M s st k] in_refs [OF at_finite, of env E H args h0 M s st k a] by auto

lemma at_take:
  assumes a: "at env E H args h0 M s st" and k: "kdict st k = Some a"
  shows "at env E (add_mset a H) args h0 (M(k := None)) s (take_entry k st)"
proof -
  have "E + add_mset a H + refs (take_entry k st) = E + H + refs st" using refs_take [OF at_finite [OF a] k] by simp
  then have "rinv (E + add_mset a H + refs (take_entry k st)) (objects st) (conn st)" using a unfolding at_def by metis
  moreover have "matches (take_entry k st) (M(k := None))"
    unfolding take_entry_def by (rule matches_upd) (use a in \<open>simp_all add: at_def\<close>)
  ultimately show ?thesis using a by (simp add: at_def args_at_def)
qed

lemma at_put:
  assumes a: "at env E (add_mset a H) args h0 M s st" and k: "kdict st k = None"
    and v: "aval (objects st) a = Some v" "short v"
  shows "at env E H args h0 (M(k \<mapsto> (v, x))) s (put_entry k a x st)"
proof -
  have "refs (put_entry k a x st) = add_mset a (refs st)"
    unfolding put_entry_def by (rule refs_put [OF at_finite [OF a] k])
  then have "E + H + refs (put_entry k a x st) = E + add_mset a H + refs st" by simp
  then have "rinv (E + H + refs (put_entry k a x st)) (objects st) (conn st)" using a unfolding at_def by metis
  moreover have "matches (put_entry k a x st) (M(k \<mapsto> (v, x)))"
    unfolding put_entry_def by (rule matches_upd) (use a v in \<open>simp_all add: at_def\<close>)
  ultimately show ?thesis using a by (simp add: at_def args_at_def)
qed

text \<open>A new time of expiry, and a new value.\<close>

lemma put_take [simp]: "put_entry k a x (take_entry k st) = put_entry k a x st"
  by (simp add: put_entry_def take_entry_def)

lemma at_retime:
  assumes a: "at env E H args h0 M s st" and k: "kdict st k = Some a" and e: "M k = Some (v, y)"
  shows "at env E H args h0 (M(k \<mapsto> (v, x))) s (st\<lparr>kexpires := (kexpires st)(k := x)\<rparr>)"
proof -
  have v: "aval (objects st) a = Some v" "short v" using at_Some [OF a k] e by auto
  have "at env E H args h0 (M(k := None, k \<mapsto> (v, x))) s (put_entry k a x (take_entry k st))"
    by (rule at_put [OF at_take [OF a k]]) (use v in simp_all)
  moreover have "put_entry k a x (take_entry k st) = st\<lparr>kexpires := (kexpires st)(k := x)\<rparr>"
    using k by (subst put_take) (simp add: put_entry_def map_upd_triv)
  ultimately show ?thesis by simp
qed

lemma at_replace:
  assumes a: "at env E (add_mset b H) args h0 M s st" and k: "kdict st k = Some a" and v: "aval (objects st) b = Some v" "short v"
  shows "at env E (add_mset a H) args h0 (M(k \<mapsto> (v, kexpires st k))) s (st\<lparr>kdict := (kdict st)(k \<mapsto> b)\<rparr>)"
proof -
  have t: "at env E (add_mset b (add_mset a H)) args h0 (M(k := None)) s (take_entry k st)"
    using at_take [OF a k] by (simp add: add_mset_commute)
  have "at env E (add_mset a H) args h0 (M(k := None, k \<mapsto> (v, kexpires st k))) s (put_entry k b (kexpires st k) (take_entry k st))"
    by (rule at_put [OF t]) (use v in simp_all)
  moreover have "put_entry k b (kexpires st k) (take_entry k st) = st\<lparr>kdict := (kdict st)(k \<mapsto> b)\<rparr>"
    by (subst put_take) (simp add: put_entry_def)
  ultimately show ?thesis by simp
qed

end
