(* ===== verification/Store_Keys.thy ===== *)
theory Store_Keys
  imports Store_Rules
begin

text \<open>Rules for the operations of \<open>db.c\<close> on keys.\<close>

section \<open>Deleting and expiring\<close>

text \<open>The arguments and the entries that are left are what they were.\<close>

definition kept :: "store \<Rightarrow> server \<Rightarrow> server \<Rightarrow> bool" where
  "kept M st st' \<longleftrightarrow> cargs st' = cargs st \<and> (\<forall>k. M k \<noteq> None \<longrightarrow> kdict st' k = kdict st k)"

lemma same_kept: "same st st' \<Longrightarrow> kept M st st'"
  by (simp add: same_def kept_def)

lemma kept_refl [simp]: "kept M st st"
  by (simp add: kept_def)

lemma ok_dbDelete:
  assumes a: "at env E H args h0 M s st"
  shows "ok (dbDelete k st) (\<lambda>(st', b). at env E H args h0 (M(k := None)) s st' \<and> b = (M k \<noteq> None) \<and>
    cargs st' = cargs st \<and> kdict st' = (kdict st)(k := None))"
proof (cases "kdict st k")
  case None
  then have "(kexpires st)(k := None) = kexpires st" "M k = None" "(kdict st)(k := None) = kdict st"
    using at_expires_None [OF a None] at_None [OF a, of k] None by (simp_all add: fun_upd_idem)
  then show ?thesis using a None by (simp add: dbDelete_def Let_def fun_upd_idem [of M])
next
  case (Some b)
  have st: "st\<lparr>kexpires := (kexpires st)(k := None), kdict := (kdict st)(k := None)\<rparr> = take_entry k st"
    by (simp add: take_entry_def)
  obtain st' where d: "drop_ref b (take_entry k st) = Some st'" "at env E H args h0 (M(k := None)) s st'" "same (take_entry k st) st'"
    using ok_drop [OF at_take [OF a Some]] by (auto simp: ok_def)
  have "dbDelete k st = Some (st', True)" using Some d(1) st by (simp add: dbDelete_def Let_def)
  then show ?thesis using d(2,3) at_None [OF a, of k] Some by (simp add: same_def)
qed

lemma getExpire_eq:
  assumes a: "at env E H args h0 M s st"
  shows "getExpire k st = Some (case M k of Some (v, Some w) \<Rightarrow> w | _ \<Rightarrow> -1)"
proof (cases "kdict st k")
  case None
  then show ?thesis using at_expires_None [OF a None] at_None [OF a, of k] by (simp add: getExpire_def)
next
  case (Some b)
  then show ?thesis using at_Some [OF a Some] by (auto simp: getExpire_def split: option.split)
qed

lemma ok_expireIfNeeded:
  assumes a: "at env E H args h0 M s st"
  shows "ok (expireIfNeeded env k st) (\<lambda>(st', b). at env E H args h0 (visit env k M) s st' \<and> kept (visit env k M) st st')"
proof -
  have stay: ?thesis if "expireIfNeeded env k st = Some (st, b)" "visit env k M = M" for b
    using that a by simp
  show ?thesis
  proof (cases "\<exists>v w. M k = Some (v, Some w) \<and> 0 \<le> w \<and> w < mstime env \<and> \<not> loading env \<and> \<not> masterhost env")
    case True
    then have v: "visit env k M = M(k := None)" and e: "expireIfNeeded env k st = dbDelete k st"
      using getExpire_eq [OF a, of k] by (auto simp: visit_def expireIfNeeded_def)
    show ?thesis unfolding v e by (rule ok_mono [OF ok_dbDelete [OF a]]) (auto simp: kept_def)
  next
    case False
    have v: "visit env k M = M" using False by (auto simp: visit_def split: option.split)
    have "\<exists>b. expireIfNeeded env k st = Some (st, b)"
    proof (cases "\<exists>v w. M k = Some (v, Some w)")
      case True
      then obtain u w where w: "M k = Some (u, Some w)" by blast
      then have "w < 0 \<or> mstime env \<le> w \<or> loading env \<or> masterhost env" using False by force
      then show ?thesis using getExpire_eq [OF a, of k] w by (auto simp: expireIfNeeded_def)
    next
      case False
      then have "getExpire k st = Some (-1)" using getExpire_eq [OF a, of k] by (auto split: option.splits)
      then show ?thesis by (intro exI [of _ False]) (simp add: expireIfNeeded_def)
    qed
    then show ?thesis using stay v by blast
  qed
qed

lemma ok_lookupKeyWrite:
  assumes a: "at env E H args h0 M s st"
  shows "ok (lookupKeyWrite env k st) (\<lambda>(st', r). at env E H args h0 (visit env k M) s st' \<and> kept (visit env k M) st st' \<and> r = kdict st' k)"
  unfolding lookupKeyWrite_def by (rule ok_seq [OF ok_expireIfNeeded [OF a]]) (auto simp: lookupKey_def)

lemma ok_lookupKeyRead:
  assumes a: "at env E H args h0 M s st"
  shows "ok (lookupKeyRead env k st) (\<lambda>(st', r). at env E H args h0 (visit env k M) s st' \<and> kept (visit env k M) st st' \<and> r = kdict st' k)"
  unfolding lookupKeyRead_def by (rule ok_seq [OF ok_expireIfNeeded [OF a]]) (auto simp: lookupKey_def)

lemma ok_lookupKeyReadOrReply:
  assumes a: "at env E H args h0 M s st" and n: "shared_exists n"
  shows "ok (lookupKeyReadOrReply env k n st) (\<lambda>(st', r).
    at env E H args h0 (visit env k M) (if visit env k M k = None then s @ sh n else s) st' \<and> kept (visit env k M) st st' \<and> r = kdict st' k)"
  unfolding lookupKeyReadOrReply_def
proof (rule ok_seq [OF ok_lookupKeyRead [OF a]], clarify)
  fix st1 assume 1: "at env E H args h0 (visit env k M) s st1" "kept (visit env k M) st st1"
  show "ok (do { st \<leftarrow> if kdict st1 k = None then reply_shared env n st1 else Some st1; Some (st, kdict st1 k) })
     (\<lambda>(st', r). at env E H args h0 (visit env k M) (if visit env k M k = None then s @ sh n else s) st' \<and> kept (visit env k M) st st' \<and> r = kdict st' k)"
  proof (cases "kdict st1 k = None")
    case True
    show ?thesis
      unfolding if_P [OF True]
      by (rule ok_seq [OF ok_shared [OF 1(1) n]]) (use 1 True at_None [OF 1(1), of k] in \<open>auto simp: same_def kept_def\<close>)
  next
    case False
    then have n: "visit env k M k \<noteq> None" using at_None [OF 1(1), of k] by simp
    show ?thesis unfolding if_not_P [OF False] if_not_P [OF n] using 1 by simp
  qed
qed

lemma lookupKeyWriteOrReply_eq: "lookupKeyWriteOrReply = lookupKeyReadOrReply"
  by (simp add: fun_eq_iff lookupKeyWriteOrReply_def lookupKeyReadOrReply_def lookupKeyRead_def lookupKeyWrite_def)

lemmas ok_lookupKeyWriteOrReply = ok_lookupKeyReadOrReply [folded lookupKeyWriteOrReply_eq]

section \<open>Adding, overwriting and times\<close>

lemma ok_dbAdd:
  assumes a: "at env E (add_mset b H) args h0 M s st" and k: "M k = None" and v: "aval (objects st) b = Some v" "short v"
  shows "ok (dbAdd k b st) (\<lambda>st'. at env E H args h0 (M(k \<mapsto> (v, None))) s st' \<and>
    st' = st\<lparr>kdict := (kdict st)(k \<mapsto> b)\<rparr>)"
proof -
  have n: "kdict st k = None" using at_None [OF a] k by simp
  have "(kexpires st)(k := None) = kexpires st" using at_expires_None [OF a n] by auto
  then have "put_entry k b None st = st\<lparr>kdict := (kdict st)(k \<mapsto> b)\<rparr>" by (simp add: put_entry_def)
  then show ?thesis using at_put [OF a n v, of None] n by (simp add: dbAdd_def)
qed

lemma ok_dbOverwrite:
  assumes a: "at env E (add_mset b H) args h0 M s st" and k: "M k = Some (u, x)" and v: "aval (objects st) b = Some v" "short v"
  shows "ok (dbOverwrite k b st) (\<lambda>st'. at env E H args h0 (M(k \<mapsto> (v, x))) s st' \<and> cargs st' = cargs st \<and>
    kdict st' = (kdict st)(k \<mapsto> b) \<and> conn st' = conn st)"
proof -
  obtain c where c: "kdict st k = Some c" using at_None [OF a, of k] k by auto
  have x: "kexpires st k = x" using at_Some [OF a c] k by auto
  show ?thesis
    using ok_drop [OF at_replace [OF a c v]] c x by (auto simp: dbOverwrite_def same_def ok_def)
qed

lemma ok_removeExpire:
  assumes a: "at env E H args h0 M s st" and k: "M k = Some (v, x)"
  shows "ok (removeExpire k st) (\<lambda>(st', b). at env E H args h0 (M(k \<mapsto> (v, None))) s st' \<and> b = (x \<noteq> None) \<and>
    cargs st' = cargs st \<and> kdict st' = kdict st)"
proof -
  obtain c where c: "kdict st k = Some c" using at_None [OF a, of k] k by auto
  have x: "kexpires st k = x" using at_Some [OF a c] k by auto
  then show ?thesis using at_retime [OF a c k, of None] c by (simp add: removeExpire_def)
qed

lemma ok_setExpire:
  assumes a: "at env E H args h0 M s st" and k: "M k = Some (v, x)"
  shows "ok (setExpire k w st) (\<lambda>st'. at env E H args h0 (M(k \<mapsto> (v, Some w))) s st' \<and>
    cargs st' = cargs st \<and> kdict st' = kdict st)"
proof -
  obtain c where c: "kdict st k = Some c" using at_None [OF a, of k] k by auto
  then show ?thesis using at_retime [OF a c k, of "Some w"] c by (simp add: setExpire_def)
qed

section \<open>Storing an argument\<close>

lemma at_arg:
  assumes a: "at env E H args h0 M s st" and j: "j < length args"
  shows "aval (objects st) (cargs st ! j) = Some (Str (args ! j))" "cargs st ! j \<in># refs st" "short (Str (args ! j))"
    "length (cargs st) = length args"
proof -
  have l: "list_all2 (\<lambda>a s. aval (objects st) a = Some (Str s)) (cargs st) args"
    and sh: "\<forall>s \<in> set args. length s \<le> max_string" using a by (simp_all add: at_def args_at_def)
  show n: "length (cargs st) = length args" using l by (rule list_all2_lengthD)
  show "aval (objects st) (cargs st ! j) = Some (Str (args ! j))" using list_all2_nthD2 [OF l j] .
  show "cargs st ! j \<in># refs st" using j n by (simp add: refs_def)
  show "short (Str (args ! j))" using sh j by (auto simp: short_def)
qed

text \<open>The reference for the dictionary is counted after the entry is made; it could be counted before.\<close>

lemma hold_drop:
  assumes "objects st a = Some x" "objects st b = Some y" "0 < refcount y" "a = b \<longrightarrow> 1 < refcount y"
  shows "Option.bind (drop_ref b st) (hold_ref a) = Option.bind (hold_ref a st) (drop_ref b)"
  using assms by (cases "a = b") (auto simp: drop_ref_def hold_ref_def decrRefCount_def incrRefCount_def fun_upd_twist)

lemma refcount_at:
  assumes a: "at env E H args h0 M s st" and m: "a \<in># all_refs E H st"
  shows "\<exists>ob. objects st a = Some ob \<and> refcount ob = count (all_refs E H st) a"
  using owned_obj [OF at_owned [OF a] m] .

lemma hold_kdict: "Option.bind (hold_ref a st) (\<lambda>st. Some (st\<lparr>kdict := f (kdict st)\<rparr>)) = hold_ref a (st\<lparr>kdict := f (kdict st)\<rparr>)"
  by (simp add: hold_ref_def split: bind_split)

lemma setKey_order:
  assumes a: "at env E H args h0 M s st" and j: "j < length args"
  shows "Option.bind (if kdict st k = None then dbAdd k (cargs st ! j) st else dbOverwrite k (cargs st ! j) st) (hold_ref (cargs st ! j)) =
     do { st' \<leftarrow> hold_ref (cargs st ! j) st; if M k = None then dbAdd k (cargs st ! j) st' else dbOverwrite k (cargs st ! j) st' }"
proof -
  let ?a = "cargs st ! j"
  have m: "?a \<in># all_refs E H st" using at_arg(2) [OF a j] by simp
  obtain x where x: "objects st ?a = Some x" "refcount x = count (all_refs E H st) ?a" using refcount_at [OF a m] by blast
  have h: "hold_ref ?a st = Some (st\<lparr>objects := (objects st)(?a \<mapsto> x\<lparr>refcount := refcount x + 1\<rparr>)\<rparr>)"
    using x(1) by (simp add: hold_ref_def incrRefCount_def)
  show ?thesis
  proof (cases "kdict st k")
    case None
    then show ?thesis using x(1) at_None [OF a, of k] by (simp add: dbAdd_def hold_ref_def incrRefCount_def)
  next
    case (Some b)
    let ?st = "st\<lparr>kdict := (kdict st)(k \<mapsto> ?a)\<rparr>"
    have b: "b \<in># all_refs E H st" using at_Some [OF a Some] by auto
    obtain y where y: "objects st b = Some y" "refcount y = count (all_refs E H st) b" using refcount_at [OF a b] by blast
    have two: "1 < refcount y" if "?a = b"
    proof -
      have "refs st = add_mset b (refs (take_entry k st))" by (rule refs_take [OF at_finite [OF a] Some])
      moreover have "b \<in># refs (take_entry k st)" using that j at_arg(4) [OF a j] by (auto simp: refs_def)
      ultimately show ?thesis using y(2) by (simp flip: count_greater_zero_iff)
    qed
    have "0 < refcount y" using y(2) b count_greater_zero_iff by metis
    then have "Option.bind (drop_ref b ?st) (hold_ref ?a) = Option.bind (hold_ref ?a ?st) (drop_ref b)"
      using hold_drop [of ?st ?a x b y] x(1) y(1) two by simp
    moreover have "drop_ref b (st\<lparr>objects := f, kdict := d\<rparr>) = drop_ref b (st\<lparr>kdict := d, objects := f\<rparr>)" for f d
      by (rule arg_cong [of _ _ "drop_ref b"]) (cases st, simp)
    moreover have n: "M k \<noteq> None" using Some at_None [OF a, of k] by auto
    ultimately show ?thesis using Some h x(1) unfolding if_not_P [OF n] by (simp add: dbOverwrite_def hold_ref_def incrRefCount_def)
  qed
qed

lemma ok_setKey:
  assumes a: "at env E H args h0 M s st" and j: "j < length args"
  shows "ok (setKey env k (cargs st ! j) st) (\<lambda>st'. at env E H args h0 (M(k \<mapsto> (Str (args ! j), None))) s st' \<and> cargs st' = cargs st)"
proof -
  let ?a = "cargs st ! j" and ?M = "visit env k M" and ?v = "Str (args ! j)"
  obtain st1 r where l: "lookupKeyWrite env k st = Some (st1, r)" "at env E H args h0 ?M s st1" "kept ?M st st1" "r = kdict st1 k"
    using ok_lookupKeyWrite [OF a, of k] by (auto simp: ok_def)
  have c: "cargs st1 ! j = ?a" "cargs st1 = cargs st" using l(3) by (simp_all add: kept_def)
  have m: "?a \<in># all_refs E H st1" using at_arg(2) [OF l(2) j] c by simp
  obtain st2 where h: "hold_ref ?a st1 = Some st2" "at env E (add_mset ?a H) args h0 ?M s st2" "same st1 st2"
    using ok_hold [OF l(2) m] by (auto simp: ok_def)
  have v: "aval (objects st2) ?a = Some ?v" using at_arg(1) [OF h(2) j] h(3) c by (simp add: same_def)
  note shv = at_arg(3) [OF h(2) j]
  obtain st3 where p: "(if ?M k = None then dbAdd k ?a st2 else dbOverwrite k ?a st2) = Some st3" "cargs st3 = cargs st"
      "\<exists>x. at env E H args h0 (?M(k \<mapsto> (?v, x))) s st3"
  proof (cases "?M k")
    case None
    then show ?thesis using that ok_dbAdd [OF h(2) None v shv] h(3) c by (auto simp: ok_def same_def)
  next
    case (Some e)
    obtain u x where e: "e = (u, x)" by force
    show ?thesis using that ok_dbOverwrite [OF h(2) Some [unfolded e] v shv] h(3) c Some by (auto simp: ok_def same_def)
  qed
  obtain x where p3: "at env E H args h0 (?M(k \<mapsto> (?v, x))) s st3" using p(3) by blast
  obtain st4 b where q: "removeExpire k st3 = Some (st4, b)" "at env E H args h0 (?M(k \<mapsto> (?v, None))) s st4" "cargs st4 = cargs st"
    using ok_removeExpire [OF p3, of k ?v x] p(2) by (auto simp: ok_def)
  have M: "?M(k \<mapsto> (?v, None)) = M(k \<mapsto> (?v, None))" by (auto simp: visit_def fun_eq_iff split: option.split)
  have "Option.bind (if r = None then dbAdd k ?a st1 else dbOverwrite k ?a st1) (hold_ref ?a) = Some st3"
    using setKey_order [OF l(2) j, of k] p(1) unfolding c(2) l(4) h(1) by (simp only: bind.bind_lunit)
  moreover have "setKey env k ?a st = Option.bind (Option.bind (if r = None then dbAdd k ?a st1 else dbOverwrite k ?a st1) (hold_ref ?a))
      (\<lambda>st. Option.bind (removeExpire k st) (\<lambda>(st, _). Some st))"
    using l(1) by (simp add: setKey_def)
  ultimately have "setKey env k ?a st = Some st4" using q(1) by (simp only: bind.bind_lunit prod.case)
  then show ?thesis using q(2,3) M by simp
qed

end
