(* ===== verification/Store_Values.thy ===== *)
theory Store_Values
  imports Store_Keys
begin

text \<open>Rules for string values: creation, encoding, reading and writing in place.\<close>

section \<open>Reading\<close>

lemma aval_obj: "aval (objects st) a = Some (Str t) \<Longrightarrow>
  \<exists>ob p. objects st a = Some ob \<and> otype ob = REDIS_STRING \<and> optr ob = Some p \<and> getDecodedObject p = t"
  by (auto simp: aval_Str content_def)

lemma at_Str:
  assumes "at env E H args h0 M s st" "kdict st k = Some a" "M k = Some (Str t, x)"
  shows "\<exists>ob p. objects st a = Some ob \<and> otype ob = REDIS_STRING \<and> optr ob = Some p \<and> getDecodedObject p = t"
    "length t \<le> max_string" "kexpires st k = x" "a \<in># refs st" "aval (objects st) a = Some (Str t)"
proof -
  have v: "aval (objects st) a = Some (Str t) \<and> x = kexpires st k \<and> short (Str t) \<and> a \<in># refs st"
    using at_Some [OF assms(1,2)] assms(3) by auto
  then show "aval (objects st) a = Some (Str t)" "length t \<le> max_string" "kexpires st k = x" "a \<in># refs st"
    by (simp_all add: short_def)
  show "\<exists>ob p. objects st a = Some ob \<and> otype ob = REDIS_STRING \<and> optr ob = Some p \<and> getDecodedObject p = t"
    using aval_obj [of st a t] v by blast
qed

lemma at_Other:
  assumes "at env E H args h0 M s st" "kdict st k = Some a" "M k = Some (Other ty, x)"
  shows "\<exists>ob. objects st a = Some ob \<and> otype ob = ty \<and> ty \<noteq> REDIS_STRING"
  using at_Some [OF assms(1,2)] assms(3) by (auto simp: aval_def content_def split: option.splits if_splits)

lemma checkType_Str:
  assumes "at env E H args h0 M s st" "kdict st k = Some a" "M k = Some (Str t, x)"
  shows "checkType env a REDIS_STRING st = Some (st, False)"
  using at_Str(1) [OF assms] by (auto simp: checkType_def)

lemma ok_checkType_Other:
  assumes "at env E H args h0 M s st" "kdict st k = Some a" "M k = Some (Other ty, x)"
  shows "ok (checkType env a REDIS_STRING st) (\<lambda>(st', w). w \<and> at env E H args h0 M (s @ sh Sh_wrongtypeerr) st' \<and> same st st')"
proof -
  obtain ob where ob: "objects st a = Some ob" "otype ob \<noteq> REDIS_STRING" using at_Other [OF assms] by blast
  have "ok (reply_shared env Sh_wrongtypeerr st) (\<lambda>st'. at env E H args h0 M (s @ sh Sh_wrongtypeerr) st' \<and> same st st')"
    using ok_shared [OF assms(1), of Sh_wrongtypeerr] by simp
  then show ?thesis using ob by (auto simp: checkType_def ok_def)
qed

lemma object_length_eq: "aval (objects st) a = Some (Str t) \<Longrightarrow> object_length a st = Some (length t)"
  by (auto simp: object_length_def dest!: aval_obj) (case_tac p; simp)

lemma parse_decimal: "fits 8 v \<Longrightarrow> parse_long_long (decimal v) = Some v"
proof -
  assume f: "fits 8 v"
  have d: "is_digit b" if "b \<in> set (dec_nat n)" for b n using dec_nat_digits [OF that] .
  have z: "b \<noteq> 0" if "b \<in> set (dec_nat n)" for b n using d [OF that] by auto
  have tk: "takeWhile (\<lambda>b. b \<noteq> 0) (dec_nat n) = dec_nat n" for n using z by (intro takeWhile_eq_all_conv [THEN iffD2]) auto
  have hd: "hd (dec_nat n) \<noteq> 45 \<and> hd (dec_nat n) \<noteq> 43" for n using d [of "hd (dec_nat n)" n] by auto
  show ?thesis
  proof (cases "v < 0")
    case True
    then show ?thesis using f tk d by (simp add: parse_long_long_def decimal_def Let_def del: takeWhile_eq_all_conv)
  next
    case False
    then show ?thesis using f tk d hd [of "nat v"] by (simp add: parse_long_long_def decimal_def Let_def del: takeWhile_eq_all_conv)
  qed
qed

lemma getLongLong_eq:
  assumes "aval (objects st) a = Some (Str t)"
  shows "getLongLongFromObject st (Some a) = Some (parse_long_long t)"
proof -
  obtain ob p where ob: "objects st a = Some ob" "otype ob = REDIS_STRING" "optr ob = Some p" "getDecodedObject p = t"
    using aval_obj [OF assms] by blast
  then show ?thesis
    by (cases p) (auto simp: getLongLongFromObject_def int_text_decimal parse_decimal fits_sint)
qed

section \<open>Creating and encoding\<close>

lemma at_longlong:
  assumes a: "at env E H args h0 M s st" and v: "fits 8 v"
  shows "ok (createStringObjectFromLongLong (oe env) v (objects st)) (\<lambda>(h', b).
    at env E (add_mset b H) args h0 M s (st\<lparr>objects := h'\<rparr>) \<and> aval h' b = Some (Str (decimal v)))"
proof (cases "v \<ge> 0 \<and> v < REDIS_SHARED_INTEGERS")
  case True
  let ?b = "shared (oe env) (Sh_integer (nat v))"
  obtain z where b: "?b \<in># E" "content (objects st) ?b = Some (REDIS_STRING, Some (IntEnc (word_of_int v)), z)"
    using shared_okD [of "oe env" "objects st" E "Sh_integer (nat v)"] a True by (auto simp: at_def)
  obtain st' where h: "hold_ref ?b st = Some st'" "at env E (add_mset ?b H) args h0 M s st'"
    using ok_hold [OF a, of ?b] b(1) by (auto simp: ok_def)
  obtain h' where i: "incrRefCount ?b (objects st) = Some h'" "st' = st\<lparr>objects := h'\<rparr>"
    using h(1) by (auto simp: hold_ref_def split: bind_split_asm)
  have "content h' ?b = content (objects st) ?b"
    using i(1) by (auto simp: incrRefCount_def content_def split: bind_split_asm)
  then have "aval h' ?b = Some (Str (decimal v))" using b(2) int_text_of_int [OF v] by (simp add: aval_Str)
  then show ?thesis using h(2) i True by (simp add: createStringObjectFromLongLong_def)
next
  case False
  obtain h' b where c: "createObject (oe env) REDIS_STRING (Some (IntEnc (word_of_int v))) 0 (objects st) = (h', b)" by fastforce
  then show ?thesis using at_create [OF a c] False int_text_of_int [OF v] by (auto simp: createStringObjectFromLongLong_def)
qed

lemma mset_remove_nth: "j < length xs \<Longrightarrow> mset xs = add_mset (xs ! j) (mset (take j xs) + mset (drop (Suc j) xs))"
  by (subst id_take_nth_drop [of j xs]) simp_all

lemma nth_other:
  assumes "i < length xs" "i \<noteq> j"
  shows "xs ! i \<in> set (take j xs) \<union> set (drop (Suc j) xs)"
proof (cases "i < j")
  case True
  then have "take j xs ! i = xs ! i" "i < length (take j xs)" using assms by simp_all
  then show ?thesis by (metis UnI1 nth_mem)
next
  case False
  then have "drop (Suc j) xs ! (i - Suc j) = xs ! i" "i - Suc j < length (drop (Suc j) xs)" using assms by simp_all
  then show ?thesis by (metis UnI2 nth_mem)
qed

lemma ok_encode_arg:
  assumes a: "at env E H args h0 M s st" and j: "j < length args"
  shows "ok (encode_arg env j st) (\<lambda>st'. at env E H args h0 M s st' \<and> kdict st' = kdict st)"
proof -
  let ?a = "cargs st ! j" and ?c = "mset (take j (cargs st)) + mset (drop (Suc j) (cargs st))"
  let ?D = "image_mset (\<lambda>k. the (kdict st k)) (mset_set (dom (kdict st)))" and ?q = "mset (reply (conn st))"
  note arg = at_arg [OF a j]
  let ?R = "all_refs E H st" and ?R' = "E + H + (?D + ?c) + ?q"
  have c: "mset (cargs st) = add_mset ?a ?c" using j arg(4) by (intro mset_remove_nth) simp
  have R: "?R = add_mset ?a ?R'" using c by (simp add: refs_def)
  obtain p sz where p: "content (objects st) ?a = Some (REDIS_STRING, Some p, sz)" "getDecodedObject p = args ! j"
    using arg(1) by (auto simp: aval_Str)
  have R1: "?R - {#?a#} = ?R'" unfolding R by simp
  have so: "shared_ok (oe env) (objects st) (?R - {#?a#})"
    unfolding R1 using a shared_ok_mono [of "oe env" "objects st" E "objects st" ?R'] by (simp add: at_def add.assoc)
  obtain h' b q z where t: "tryObjectEncoding (oe env) (use_shared env) (spare env (bytes (objects st) ?a)) ?a (objects st) = Some (h', b)"
      "owned h' (add_mset b ?R')" "unchanged (set_mset ?R') (objects st) h'"
      "content h' b = Some (REDIS_STRING, Some q, z)" "getDecodedObject q = args ! j"
  proof -
    have "?a \<in># ?R" using arg(2) by simp
    from tryObjectEncoding_ok [OF at_owned [OF a] this so p(1), of "use_shared env" "spare env (bytes (objects st) ?a)"]
    show ?thesis using that unfolding R1 p(2) by blast
  qed
  let ?st = "st\<lparr>objects := h', cargs := (cargs st)[j := b]\<rparr>"
  have c': "mset ((cargs st)[j := b]) = add_mset b ?c" using j arg(4) by (simp add: upd_conv_take_nth_drop)
  have av: "aval h' x = aval (objects st) x" if "x \<in># ?R'" for x using t(3) that by (intro aval_cong) (simp add: unchanged_def)
  have r: "rinv (E + H + refs ?st) h' (conn st)"
  proof (rule rinv_objs)
    show "rinv (E + H + refs st) (objects st) (conn st)" using a by (simp add: at_def)
    show "owned h' (E + H + refs ?st + ?q)" using t(2) c' by (simp add: refs_def)
    show "unchanged (set (reply (conn st))) (objects st) h'" using t(3) by (auto intro: unchanged_mono)
  qed
  have m: "matches ?st M"
  proof -
    have "entry h' (kdict st k) (kexpires st k) (M k)" for k
    proof (rule entry_cong [OF key_entry [OF a]])
      fix x assume "kdict st k = Some x"
      then have "x \<in># ?D" using at_finite [OF a] by (auto simp: image_iff intro!: bexI [of _ k])
      then show "aval h' x = aval (objects st) x" by (intro av) simp
    qed
    then show ?thesis using at_finite [OF a] by (simp add: matches_def)
  qed
  have ar: "args_at args ?st"
  proof -
    have "aval h' ((cargs st)[j := b] ! i) = Some (Str (args ! i))" if "i < length args" for i
    proof (cases "i = j")
      case True
      then show ?thesis using t(4,5) j arg(4) by (auto simp: aval_Str)
    next
      case False
      then have "cargs st ! i \<in># ?R'" using nth_other [of i "cargs st" j] that arg(4) by auto
      then show ?thesis using False av at_arg(1) [OF a that] by simp
    qed
    then have "list_all2 (\<lambda>a s. aval h' a = Some (Str s)) ((cargs st)[j := b]) args"
      using arg(4) by (intro list_all2_all_nthI) auto
    then show ?thesis using a by (simp add: args_at_def at_def)
  qed
  have uE: "unchanged (set_mset E) (objects st) h'" using t(3) by (auto intro: unchanged_mono)
  have "unchanged (set_mset E) h0 h'" using a unchanged_trans [OF _ uE] unfolding at_def by blast
  moreover have "unsent h' (conn st) = s"
    using a unsent_cong [of "conn st" "objects st" h'] t(3) by (simp add: at_def unchanged_def)
  moreover have "shared_ok (oe env) h' E" using a uE shared_ok_unchanged by (auto simp: at_def)
  moreover have "no_holes h' (conn st)"
  proof -
    have "unchanged (set (reply (conn st))) (objects st) h'" using t(3) by (auto intro: unchanged_mono)
    then show ?thesis using a unchanged_raw by (auto simp: at_def no_holes_def)
  qed
  ultimately have "at env E H args h0 M s ?st" using a r m ar by (simp add: at_def)
  then show ?thesis using t(1) by (simp add: encode_arg_def)
qed

section \<open>Writing in place\<close>

text \<open>The object of a key that may be written to: one reference, and not encoded.\<close>

definition exclusive :: "byte list \<Rightarrow> addr \<Rightarrow> server \<Rightarrow> bool" where
  "exclusive k a st \<longleftrightarrow> kdict st k = Some a \<and>
     (\<exists>ob s. objects st a = Some ob \<and> refcount ob = 1 \<and> otype ob = REDIS_STRING \<and> optr ob = Some (Raw s))"

lemma exclusive_new:
  assumes a: "at env E H args h0 M s st" and k: "kdict st k = Some n"
    and n: "n \<notin># E + H + refs (take_entry k st) + mset (reply (conn st))"
    and c: "content (objects st) n = Some (REDIS_STRING, Some (Raw t), sz)"
  shows "exclusive k n st"
proof -
  have R: "all_refs E H st = add_mset n (E + H + refs (take_entry k st) + mset (reply (conn st)))"
    using refs_take [OF at_finite [OF a] k] by simp
  have "count (E + H + refs (take_entry k st) + mset (reply (conn st))) n = 0"
    using n by (simp only: not_in_iff)
  then have "count (all_refs E H st) n = 1" unfolding R by simp
  then have "\<exists>ob. objects st n = Some ob \<and> refcount ob = 1"
    using refcount_at [OF a, of n] R by (metis union_single_eq_member)
  then show ?thesis using c k by (auto simp: exclusive_def content_def)
qed

lemma ok_update_string:
  assumes a: "at env E H args h0 M s st" and x: "exclusive k b st" and k: "M k = Some (Str t, x)" and l: "length (f t) \<le> max_string"
  shows "ok (update_string env b f st) (\<lambda>(st', r). at env E H args h0 (M(k \<mapsto> (Str (f t), x))) s st' \<and> r = f t)"
proof -
  have kb: "kdict st k = Some b" using x by (simp add: exclusive_def)
  obtain ob u where ob: "objects st b = Some ob" "refcount ob = 1" "otype ob = REDIS_STRING" "optr ob = Some (Raw u)"
    using x by (auto simp: exclusive_def)
  note v = at_Str [OF a kb k]
  have u: "u = t" using v(1) ob by auto
  let ?h = "(objects st)(b \<mapsto> ob\<lparr>optr := Some (Raw (f t)), osize := sdssize (oe env) (osize ob) (length (f t))\<rparr>)"
  have t: "at env E (add_mset b H) args h0 (M(k := None)) s (take_entry k st)" by (rule at_take [OF a kb])
  have R: "all_refs E (add_mset b H) (take_entry k st) = add_mset b (E + H + refs (take_entry k st) + mset (reply (conn st)))"
    by simp
  have "\<exists>y. objects st b = Some y \<and> refcount y = count (all_refs E (add_mset b H) (take_entry k st)) b"
    using refcount_at [OF t, of b] by simp
  then have "count (all_refs E (add_mset b H) (take_entry k st)) b = 1" using ob(1,2) by simp
  then have "count (E + H + refs (take_entry k st) + mset (reply (conn st))) b = 0" unfolding R by simp
  then have nb: "b \<notin># E + H + refs (take_entry k st) + mset (reply (conn st))" by (rule count_eq_zero_iff [THEN iffD1])
  have w: "owned ?h (all_refs E (add_mset b H) (take_entry k st))" "unchanged (- {b}) (objects st) ?h"
      "content ?h b = Some (REDIS_STRING, Some (Raw (f t)), sdssize (oe env) (osize ob) (length (f t)))"
    using write_object [OF at_owned [OF t, simplified entry_sel] ob(1,3)] by simp_all
  have "at env E (add_mset b H) args h0 (M(k := None)) s ((take_entry k st)\<lparr>objects := ?h\<rparr>)"
  proof (rule at_objs [OF t])
    show "unchanged (set_mset (E + refs (take_entry k st) + mset (reply (conn (take_entry k st))))) (objects (take_entry k st)) ?h"
      unfolding entry_sel by (rule unchanged_mono [OF w(2)]) (use nb in auto)
  qed (use w(1) in simp)
  then have "at env E H args h0 (M(k := None, k \<mapsto> (Str (f t), x))) s (put_entry k b x ((take_entry k st)\<lparr>objects := ?h\<rparr>))"
    by (rule at_put) (use w(3) l in \<open>auto simp: aval_Str short_def\<close>)
  moreover have "put_entry k b x ((take_entry k st)\<lparr>objects := ?h\<rparr>) = st\<lparr>objects := ?h\<rparr>"
    using kb v(3) by (cases st) (auto simp: put_entry_def take_entry_def map_upd_triv fun_upd_idem)
  ultimately have "at env E H args h0 (M(k \<mapsto> (Str (f t), x))) s (st\<lparr>objects := ?h\<rparr>)" by simp
  then show ?thesis using ob u by (simp add: update_string_def)
qed

lemma ok_unshare:
  assumes a: "at env E H args h0 M s st" and kb: "kdict st k = Some b" and k: "M k = Some (Str t, x)"
  shows "ok (dbUnshareStringValue env k b st) (\<lambda>(st', n). at env E H args h0 M s st' \<and> exclusive k n st')"
proof -
  note v = at_Str [OF a kb k]
  obtain ob p where ob: "objects st b = Some ob" "otype ob = REDIS_STRING" "optr ob = Some p" "getDecodedObject p = t"
    using v(1) by blast
  show ?thesis
  proof (cases "refcount ob \<noteq> 1 \<or> \<not> is_raw (optr ob)")
    case False
    then have "exclusive k b st" using ob kb by (cases p) (auto simp: exclusive_def is_raw_def)
    then show ?thesis using False ob a by (simp add: dbUnshareStringValue_def)
  next
    case True
    have m: "good_malloc (oe env)" using a by (simp add: at_def)
    have b: "b \<in># all_refs E H st" using v(4) by simp
    have "content (objects st) b = Some (REDIS_STRING, Some p, osize ob)" using ob by (simp add: content_def)
    then obtain h1 d z where d: "decoded_object (oe env) b (objects st) = Some (h1, d)" "owned h1 (add_mset d (all_refs E H st))"
        "content h1 d = Some (REDIS_STRING, Some (Raw t), z)" "unchanged (set_mset (all_refs E H st)) (objects st) h1"
      using decoded_object_ok [OF at_owned [OF a] m b] ob(4) by blast
    have a1: "at env E (add_mset d H) args h0 M s (st\<lparr>objects := h1\<rparr>)"
      by (rule at_objs [OF a]) (use d in \<open>auto intro: unchanged_mono\<close>)
    obtain h2 n where c: "createStringObject (oe env) t h1 = (h2, n)" by fastforce
    note n = at_create [OF a1, of "Raw t" "sdssize (oe env) 0 (length t)" h2 n, simplified, OF c [unfolded create_string]]
    have a2: "at env E (add_mset d (add_mset n H)) args h0 M s (st\<lparr>objects := h2\<rparr>)" using n(1) by (simp add: add_mset_commute)
    obtain st3 where e: "drop_ref d (st\<lparr>objects := h2\<rparr>) = Some st3" "at env E (add_mset n H) args h0 M s st3"
        "same (st\<lparr>objects := h2\<rparr>) st3" "conn st3 = conn st"
      using ok_drop [OF a2] by (auto simp: ok_def)
    obtain h3 where h3: "decrRefCount d h2 = Some h3" "st3 = st\<lparr>objects := h3\<rparr>"
      using e(1) by (auto simp: drop_ref_def split: bind_split_asm)
    have sel: "kdict st3 = kdict st" "cargs st3 = cargs st" using e(3) by (simp_all add: same_def)
    have c3: "content h3 n = content h2 n"
    proof -
      have o: "owned h2 (add_mset d (all_refs E (add_mset n H) (st\<lparr>objects := h2\<rparr>)))" using at_owned [OF a2] by simp
      have "unchanged (set_mset (all_refs E (add_mset n H) (st\<lparr>objects := h2\<rparr>))) h2 h3"
        using decrRefCount_ok [OF o, of d] h3(1) by auto
      then show ?thesis by (simp add: unchanged_def)
    qed
    have vn: "aval (objects st3) n = Some (Str t)" using c3 n(4) h3(2) by (auto simp: aval_Str)
    obtain st4 where w: "dbOverwrite k n st3 = Some st4" "at env E H args h0 (M(k \<mapsto> (Str t, x))) s st4"
        "cargs st4 = cargs st" "kdict st4 = (kdict st)(k \<mapsto> n)" "conn st4 = conn st"
      using ok_dbOverwrite [OF e(2) k vn] v(2) sel e(4) by (auto simp: ok_def short_def)
    have M: "M(k \<mapsto> (Str t, x)) = M" using k by (simp add: fun_upd_idem)
    have c4: "content (objects st4) n = content h3 n"
    proof -
      obtain y where y: "drop_ref y (st3\<lparr>kdict := (kdict st3)(k \<mapsto> n)\<rparr>) = Some st4" "kdict st3 k = Some y"
        using w(1) by (auto simp: dbOverwrite_def split: option.split_asm)
      obtain h4 where h4: "decrRefCount y h3 = Some h4" "st4 = st\<lparr>objects := h4, kdict := (kdict st3)(k \<mapsto> n)\<rparr>"
        using y(1) h3(2) by (auto simp: drop_ref_def split: bind_split_asm)
      have o: "owned h3 (all_refs E (add_mset n H) st3)" using at_owned [OF e(2)] h3(2) by simp
      have "y \<in># all_refs E (add_mset n H) st3" using at_Some [OF e(2) y(2)] by auto
      moreover have "y \<noteq> n" using y(2) kb n(3) v(4) sel by (auto simp: refs_def)
      ultimately have "unchanged (set_mset (all_refs E (add_mset n H) st3 - {#y#})) h3 h4" "n \<in># all_refs E (add_mset n H) st3 - {#y#}"
        using decrRefCount_ok [OF o, of y] h4(1) by (auto simp: in_diff_count)
      then show ?thesis using h4(2) by (simp add: unchanged_def)
    qed
    have "exclusive k n st4"
    proof (rule exclusive_new [OF w(2)])
      have "refs (take_entry k st4) = refs (take_entry k st)" using w(3,4) by (simp add: refs_def)
      moreover have "refs (take_entry k st) \<subseteq># refs st" using refs_take [OF at_finite [OF a] kb] by (metis mset_subset_eq_add_right add_mset_add_single union_commute)
      moreover have "refs (st\<lparr>objects := h1\<rparr>) = refs st" by (simp add: refs_def)
      ultimately show "n \<notin># E + H + refs (take_entry k st4) + mset (reply (conn st4))"
        using n(3) w(5) by (auto dest: mset_subset_eqD)
      show "content (objects st4) n = Some (REDIS_STRING, Some (Raw t), sdssize (oe env) 0 (length t))" using c3 c4 n(4) by simp
    qed (use w(4) in simp)
    moreover have "dbUnshareStringValue env k b st = Some (st4, n)"
    proof -
      obtain od where "h1 d = Some od" "optr od = Some (Raw t)" using d(3) by (auto simp: content_def)
      then show ?thesis using ob(1,2) True d(1) c h3 w(1) by (simp add: dbUnshareStringValue_def)
    qed
    ultimately show ?thesis using w(2) M by simp
  qed
qed

section \<open>Arguments\<close>

lemma ok_hold_all:
  "at env E H args h0 M s st \<Longrightarrow> set as \<subseteq> set_mset (all_refs E H st) \<Longrightarrow>
   ok (hold_all as st) (\<lambda>st'. at env E (mset as + H) args h0 M s st' \<and> same st st' \<and> unchanged UNIV (objects st) (objects st'))"
proof (induction as arbitrary: st H)
  case (Cons a as)
  show ?case unfolding hold_all.simps
  proof (rule ok_seq [OF ok_hold [OF Cons.prems(1)]], goal_cases)
    case 1
    then show ?case using Cons.prems(2) by simp
  next
    case (2 st1)
    then have 1: "at env E (add_mset a H) args h0 M s st1" "same st st1" "unchanged UNIV (objects st) (objects st1)" by simp_all
    have "set as \<subseteq> set_mset (all_refs E (add_mset a H) st1)"
      using Cons.prems(2) same_refs [OF 1(2)] 2 by auto
    then show ?case
      by (rule ok_mono [OF Cons.IH [OF 1(1)]]) (use 1(2,3) in \<open>auto simp: same_def unchanged_def\<close>)
  qed
qed simp

lemma ok_drop_all:
  "at env E (mset as + H) args h0 M s st \<Longrightarrow>
   ok (drop_all as st) (\<lambda>st'. at env E H args h0 M s st' \<and> same st st')"
proof (induction as arbitrary: st)
  case (Cons a as)
  have 1: "at env E (add_mset a (mset as + H)) args h0 M s st" using Cons.prems by simp
  show ?case unfolding drop_all.simps
  proof (rule ok_seq [OF ok_drop [OF 1]])
    fix st1 assume 2: "at env E (mset as + H) args h0 M s st1 \<and> same st st1 \<and> conn st1 = conn st"
    show "ok (drop_all as st1) (\<lambda>st'. at env E H args h0 M s st' \<and> same st st')"
      by (rule ok_mono [OF Cons.IH]) (use 2 in \<open>auto simp: same_def\<close>)
  qed
qed simp

lemma drop_all_cargs: "drop_all as (st\<lparr>cargs := c\<rparr>) = map_option (\<lambda>st. st\<lparr>cargs := c\<rparr>) (drop_all as st)"
proof (induction as arbitrary: st)
  case (Cons a as)
  have d: "drop_ref a (st\<lparr>cargs := c\<rparr>) = map_option (\<lambda>st. st\<lparr>cargs := c\<rparr>) (drop_ref a st)"
    by (cases st) (simp add: drop_ref_def split: bind_split)
  show ?case by (cases "drop_ref a st") (simp_all add: d Cons.IH)
qed simp

definition good_args :: "byte list list \<Rightarrow> bool" where
  "good_args args \<longleftrightarrow> (\<forall>s \<in> set args. length s \<le> max_string) \<and> length args \<le> 1024 * 1024"

lemma at_good_args: "at env E H args h0 M s st \<Longrightarrow> good_args args"
  by (simp add: at_def args_at_def good_args_def)

lemma at_new_args:
  assumes a: "at env E (mset as + H) args h0 M s st"
    and l: "list_all2 (\<lambda>a s. aval (objects st) a = Some (Str s)) as args'" "good_args args'"
  shows "at env E (mset (cargs st) + H) args' h0 M s (st\<lparr>cargs := as\<rparr>)"
proof -
  have "E + (mset (cargs st) + H) + refs (st\<lparr>cargs := as\<rparr>) = E + (mset as + H) + refs st"
    by (simp add: refs_def)
  then have "rinv (E + (mset (cargs st) + H) + refs (st\<lparr>cargs := as\<rparr>)) (objects st) (conn st)" using a unfolding at_def by metis
  moreover have "matches (st\<lparr>cargs := as\<rparr>) M" using a by (simp add: at_def matches_def)
  ultimately show ?thesis using a l by (simp add: at_def args_at_def good_args_def)
qed

lemma ok_rewrite:
  assumes a: "at env E H args h0 M s st" and m: "set as \<subseteq> set_mset (all_refs E H st)"
    and l: "list_all2 (\<lambda>a s. aval (objects st) a = Some (Str s)) as args'" "good_args args'"
  shows "ok (rewriteClientCommandVector as st) (\<lambda>st'. at env E H args' h0 M s st' \<and> kdict st' = kdict st)"
proof -
  obtain st1 where h: "hold_all as st = Some st1" "at env E (mset as + H) args h0 M s st1" "same st st1"
      "unchanged UNIV (objects st) (objects st1)" using ok_hold_all [OF a m] by (auto simp: ok_def)
  have "list_all2 (\<lambda>a s. aval (objects st1) a = Some (Str s)) as args'"
    using l(1) h(4) aval_cong [of "objects st1" _ "objects st"] by (auto simp: unchanged_def elim!: list.rel_mono_strong)
  then have 2: "at env E (mset (cargs st) + H) args' h0 M s (st1\<lparr>cargs := as\<rparr>)"
    using at_new_args [OF h(2) _ l(2)] h(3) by (simp add: same_def)
  obtain st2 where d: "drop_all (cargs st) (st1\<lparr>cargs := as\<rparr>) = Some st2" "at env E H args' h0 M s st2" "kdict st2 = kdict st"
    using ok_drop_all [OF 2] h(3) by (auto simp: ok_def same_def)
  have "rewriteClientCommandVector as st = Some st2"
    using h(1,3) d(1) unfolding drop_all_cargs
    by (auto simp: rewriteClientCommandVector_def same_def)
  then show ?thesis using d by simp
qed

lemma ok_freeClientArgv:
  assumes a: "at env E H args h0 M s st"
  shows "ok (freeClientArgv st) (\<lambda>st'. at env E H [] h0 M s st' \<and> cargs st' = [])"
proof -
  have 2: "at env E (mset (cargs st) + H) [] h0 M s (st\<lparr>cargs := []\<rparr>)"
    by (rule at_new_args) (use a in \<open>simp_all add: good_args_def\<close>)
  obtain st2 where d: "drop_all (cargs st) (st\<lparr>cargs := []\<rparr>) = Some st2" "at env E H [] h0 M s st2" "cargs st2 = []"
    using ok_drop_all [OF 2] by (auto simp: ok_def same_def)
  have "freeClientArgv st = Some st2" using d(1) unfolding drop_all_cargs by (auto simp: freeClientArgv_def)
  then show ?thesis using d by simp
qed

lemma at_make_args:
  "at env E H args h0 M s st \<Longrightarrow> make_args (oe env) ss (objects st) = (h', as) \<Longrightarrow>
   at env E (mset as + H) args h0 M s (st\<lparr>objects := h'\<rparr>) \<and> list_all2 (\<lambda>a s. aval h' a = Some (Str s)) as ss \<and>
   unchanged (set_mset (all_refs E H st)) (objects st) h'"
proof (induction ss arbitrary: st H as)
  case Nil
  then show ?case by (auto simp: at_def)
next
  case (Cons t ss)
  obtain h1 a where c: "createStringObject (oe env) t (objects st) = (h1, a)" by fastforce
  obtain as' where m: "make_args (oe env) ss h1 = (h', as')" "as = a # as'"
    using Cons.prems(2) c by (auto simp: Let_def split: prod.split_asm)
  note n = at_create [OF Cons.prems(1) c [unfolded create_string]]
  have ih: "at env E (mset as' + add_mset a H) args h0 M s (st\<lparr>objects := h'\<rparr>)" "list_all2 (\<lambda>a s. aval h' a = Some (Str s)) as' ss"
      "unchanged (set_mset (all_refs E (add_mset a H) (st\<lparr>objects := h1\<rparr>))) h1 h'"
    using Cons.IH [OF n(1)] m(1) by simp_all
  have r: "refs (st\<lparr>objects := h1\<rparr>) = refs st" by (simp add: refs_def)
  have "aval h' a = Some (Str t)" using n(2) ih(3) aval_cong [of h' a h1] by (simp add: unchanged_def)
  moreover have "unchanged (set_mset (all_refs E H st)) (objects st) h'"
    by (rule unchanged_trans [OF n(5) ih(3)]) (auto simp: r)
  ultimately show ?case using ih m(2) by simp
qed

end
