(* ===== verification/Store_Commands.thy ===== *)
theory Store_Commands
  imports Store_Values
begin

text \<open>
  Every command on keys does what its specification says: the bytes it adds to the reply and its effect
  on the store.
\<close>

declare not_None_eq [simp del]

definition finished :: "senv \<Rightarrow> addr multiset \<Rightarrow> objs \<Rightarrow> store \<Rightarrow> byte list \<Rightarrow> server \<Rightarrow> bool" where
  "finished env E h0 M s st \<longleftrightarrow> (\<exists>args. at env E {#} args h0 M s st)"

lemma finishedI: "at env E {#} args h0 M s st \<Longrightarrow> finished env E h0 M s st"
  by (auto simp: finished_def)

lemma finished_touch [simp]: "finished env E h0 M s (touch n st) = finished env E h0 M s st"
  by (simp add: finished_def)

lemma finished_shared:
  assumes "at env E {#} args h0 M s st" "shared_exists n"
  shows "ok (reply_shared env n st) (finished env E h0 M (s @ sh n))"
  by (rule ok_mono [OF ok_shared [OF assms]]) (auto intro: finishedI)

lemma finished_long:
  assumes "at env E {#} args h0 M s st" "fits 8 v"
  shows "ok (reply_long env v st) (finished env E h0 M (s @ reply_int v))"
  by (rule ok_mono [OF ok_long [OF assms]]) (auto intro: finishedI)

lemma finished_error:
  assumes "at env E {#} args h0 M s st"
  shows "ok (reply_error_string env e st) (finished env E h0 M (s @ reply_error e))"
  by (rule ok_mono [OF ok_error [OF assms]]) (auto intro: finishedI)

lemma finished_status:
  assumes "at env E {#} args h0 M s st"
  shows "ok (on_client (addReplyStatus (oe env) True t) st) (finished env E h0 M (s @ [43] @ t @ [13, 10]))"
  by (rule ok_mono [OF ok_status [OF assms]]) (auto intro: finishedI)

definition refines ::
    "nat \<Rightarrow> (senv \<Rightarrow> byte list list \<Rightarrow> server \<Rightarrow> server option) \<Rightarrow> (senv \<Rightarrow> byte list list \<Rightarrow> store \<Rightarrow> reaction) \<Rightarrow> bool" where
  "refines n cmd spec \<longleftrightarrow> (\<forall>env E args h0 M s st r M'.
     at env E {#} args h0 M s st \<longrightarrow> n \<le> length args \<longrightarrow> spec env args M = Some (r, M') \<longrightarrow>
     ok (cmd env args st) (finished env E h0 M' (s @ r)))"

lemma refinesI:
  "(\<And>env E args h0 M s st r M'. at env E {#} args h0 M s st \<Longrightarrow> n \<le> length args \<Longrightarrow> spec env args M = Some (r, M') \<Longrightarrow>
     ok (cmd env args st) (finished env E h0 M' (s @ r))) \<Longrightarrow> refines n cmd spec"
  by (simp add: refines_def)

lemma sh_int: "reply_int 0 = sh Sh_czero" "reply_int 1 = sh Sh_cone"
  by (simp_all add: reply_int_def ascii_def decimal_01)

lemma finished_int:
  assumes "at env E {#} args h0 M s st"
  shows "ok (reply_shared env (if b then Sh_cone else Sh_czero) st) (finished env E h0 M (s @ reply_int (if b then 1 else 0)))"
  using finished_shared [OF assms, of "if b then Sh_cone else Sh_czero"] by (cases b) (simp_all add: sh_int)

lemmas finished_one = finished_int [where b = True, simplified if_True]
lemmas finished_zero = finished_int [where b = False, simplified if_False]

section \<open>Keys\<close>

lemma ok_del_keys:
  "at env E H args h0 M s st \<Longrightarrow> spec_del_keys env ks n M = (m, M') \<Longrightarrow>
   ok (del_keys env ks n st) (\<lambda>(st', m'). at env E H args h0 M' s st' \<and> m' = m)"
proof (induction ks arbitrary: n M st)
  case (Cons k ks)
  let ?M = "visit env k M"
  show ?case unfolding del_keys.simps
  proof (rule ok_seq [OF ok_expireIfNeeded [OF Cons.prems(1)]], clarify)
    fix st1 assume 1: "at env E H args h0 ?M s st1"
    show "ok (do { (st, d) \<leftarrow> dbDelete k st1; (if d then del_keys env ks (n + 1) (touch 1 st) else del_keys env ks n st) })
       (\<lambda>(st', m'). at env E H args h0 M' s st' \<and> m' = m)"
    proof (rule ok_seq [OF ok_dbDelete [OF 1]], clarify)
      fix st2 assume 2: "at env E H args h0 (?M(k := None)) s st2"
      show "ok (if ?M k \<noteq> None then del_keys env ks (n + 1) (touch 1 st2) else del_keys env ks n st2)
         (\<lambda>(st', m'). at env E H args h0 M' s st' \<and> m' = m)"
      proof (cases "?M k = None")
        case True
        then have n: "\<not> ?M k \<noteq> None" and e: "spec_del_keys env ks n (?M(k := None)) = (m, M')"
          using Cons.prems(2) by (simp_all add: Let_def)
        show ?thesis unfolding if_not_P [OF n] by (rule Cons.IH [OF 2 e])
      next
        case False
        then have e: "spec_del_keys env ks (n + 1) (?M(k := None)) = (m, M')" using Cons.prems(2) by (simp add: Let_def)
        have "at env E H args h0 (?M(k := None)) s (touch 1 st2)" using 2 by simp
        from Cons.IH [OF this e] show ?thesis unfolding if_P [OF False] .
      qed
    qed
  qed
qed simp

lemma del_count: "spec_del_keys env ks n M = (m, M') \<Longrightarrow> n \<le> m \<and> m \<le> n + int (length ks)"
  by (induction ks arbitrary: n M) (fastforce simp: Let_def split: if_split_asm)+

lemma at_length: "at env E H args h0 M s st \<Longrightarrow> length args \<le> 1024 * 1024"
  using at_good_args by (auto simp: good_args_def)

lemma del_refines: "refines 2 delCommand spec_del"
proof (rule refinesI)
  fix env E args h0 M s st r M'
  assume a: "at env E {#} args h0 M s st" and sp: "spec_del env args M = Some (r, M')"
  obtain m M1 where m: "spec_del_keys env (tl args) 0 M = (m, M1)" by fastforce
  have r: "r = reply_int m" "M' = M1" using sp m by (simp_all add: spec_del_def)
  have "length (tl args) \<le> 1024 * 1024" using at_length [OF a] by simp
  then have f: "fits 8 m" using del_count [OF m] unfolding fits_def by simp
  show "ok (delCommand env args st) (finished env E h0 M' (s @ r))"
    unfolding delCommand_def
    by (rule ok_seq [OF ok_del_keys [OF a m]]) (auto simp: r intro: finished_long [OF _ f])
qed

lemma exists_refines: "refines 2 existsCommand spec_exists"
proof (rule refinesI)
  fix env E args h0 M s st r M'
  assume a: "at env E {#} args h0 M s st" and sp: "spec_exists env args M = Some (r, M')"
  let ?k = "args ! 1" let ?M = "visit env ?k M"
  have r: "r = reply_int (if ?M ?k = None then 0 else 1)" "M' = ?M" using sp by (auto simp: spec_exists_def Let_def)
  show "ok (existsCommand env args st) (finished env E h0 M' (s @ r))"
    unfolding existsCommand_def
  proof (rule ok_seq [OF ok_expireIfNeeded [OF a]], clarify)
    fix st1 assume 1: "at env E {#} args h0 ?M s st1"
    have "r = reply_int (if dbExists ?k st1 then 1 else 0)" using r(1) at_None [OF 1, of ?k] by (simp add: dbExists_def)
    then show "ok (reply_shared env (if dbExists ?k st1 then Sh_cone else Sh_czero) st1) (finished env E h0 M' (s @ r))"
      using finished_int [OF 1] r(2) by (simp only:)
  qed
qed

lemma type_refines: "refines 2 typeCommand spec_type"
proof (rule refinesI)
  fix env E args h0 M s st r M'
  assume a: "at env E {#} args h0 M s st" and sp: "spec_type env args M = Some (r, M')"
  let ?k = "args ! 1" let ?M = "visit env ?k M"
  let ?t = "case ?M ?k of None \<Rightarrow> ascii ''none'' | Some (v, x) \<Rightarrow> type_name (aval_type v)"
  have r: "r = [43] @ ?t @ [13, 10]" "M' = ?M" using sp by (auto simp: spec_type_def Let_def)
  show "ok (typeCommand env args st) (finished env E h0 M' (s @ r))"
    unfolding typeCommand_def
  proof (rule ok_seq [OF ok_lookupKeyRead [OF a]], clarify)
    fix st1 assume 1: "at env E {#} args h0 ?M s st1"
    have "(case kdict st1 ?k of None \<Rightarrow> Some (ascii ''none'')
         | Some a \<Rightarrow> do { ob \<leftarrow> objects st1 a; Some (type_name (otype ob)) }) = Some ?t"
    proof (cases "kdict st1 ?k")
      case None
      then show ?thesis using at_None [OF 1, of ?k] by simp
    next
      case (Some b)
      then obtain v where v: "aval (objects st1) b = Some v" "?M ?k = Some (v, kexpires st1 ?k)" using at_Some [OF 1] by blast
      then show ?thesis using Some
        by (cases v) (auto simp: aval_def content_def split: option.splits if_splits)
    qed
    then show "ok (do { t \<leftarrow> case kdict st1 ?k of None \<Rightarrow> Some (ascii ''none'')
         | Some a \<Rightarrow> do { ob \<leftarrow> objects st1 a; Some (type_name (otype ob)) };
         on_client (addReplyStatus (oe env) True t) st1 }) (finished env E h0 M' (s @ r))"
      unfolding r by (simp only: bind.bind_lunit) (rule finished_status [OF 1])
  qed
qed

lemma fits_s64: "fits 8 (s64 x)"
  by (simp add: fits_def s64_def)

lemma dbsize_refines: "refines 1 dbsizeCommand spec_dbsize"
proof (rule refinesI)
  fix env E args h0 M s st r M'
  assume a: "at env E {#} args h0 M s st" and sp: "spec_dbsize env args M = Some (r, M')"
  have "dom (kdict st) = dom M" using at_None [OF a] by (auto simp: dom_def)
  then show "ok (dbsizeCommand env args st) (finished env E h0 M' (s @ r))"
    using finished_long [OF a fits_s64, of "int (card (dom M))"] sp by (auto simp: dbsizeCommand_def spec_dbsize_def)
qed

lemma persist_refines: "refines 2 persistCommand spec_persist"
proof (rule refinesI)
  fix env E args h0 M s st r M'
  assume a: "at env E {#} args h0 M s st" and sp: "spec_persist env args M = Some (r, M')"
  let ?k = "args ! 1"
  show "ok (persistCommand env args st) (finished env E h0 M' (s @ r))"
  proof (cases "M ?k")
    case None
    then show ?thesis using sp at_None [OF a, of ?k] finished_zero [OF a]
      by (simp add: persistCommand_def spec_persist_def)
  next
    case (Some e)
    obtain v x where e: "M ?k = Some (v, x)" using Some by (cases e) auto
    have n: "kdict st ?k \<noteq> None" using at_None [OF a, of ?k] Some by auto
    show ?thesis unfolding persistCommand_def if_not_P [OF n]
    proof (rule ok_seq [OF ok_removeExpire [OF a e]], clarify)
      fix st1 assume 1: "at env E {#} args h0 (M(?k \<mapsto> (v, None))) s st1"
      show "ok (if x \<noteq> None then do { st \<leftarrow> reply_shared env Sh_cone st1; Some (touch 1 st) } else reply_shared env Sh_czero st1)
         (finished env E h0 M' (s @ r))"
      proof (cases x)
        case None
        then have "M(?k \<mapsto> (v, None)) = M" using e by (simp add: fun_upd_idem)
        then show ?thesis using sp e None finished_zero [OF 1] by (simp add: spec_persist_def)
      next
        case (Some w)
        then have "M' = M(?k \<mapsto> (v, None))" "r = reply_int 1" using sp e by (simp_all add: spec_persist_def)
        then have "ok (do { st \<leftarrow> reply_shared env Sh_cone st1; Some (touch 1 st) }) (finished env E h0 M' (s @ r))"
          using ok_seq [OF finished_one [OF 1], of "\<lambda>st. Some (touch 1 st)"] by simp
        then show ?thesis using Some by simp
      qed
    qed
  qed
qed

lemma visit_other: "k \<noteq> l \<Longrightarrow> visit env l M k = M k"
  by (auto simp: visit_def split: option.split)

lemma ttl_refines: "refines 2 (\<lambda>env. ttlGenericCommand env ms) (\<lambda>env. spec_ttl env ms)"
proof (rule refinesI)
  fix env E args h0 M s st r M'
  assume a: "at env E {#} args h0 M s st" and sp: "spec_ttl env ms args M = Some (r, M')"
  let ?k = "args ! 1" let ?M = "visit env ?k M"
  show "ok (ttlGenericCommand env ms args st) (finished env E h0 M' (s @ r))"
    unfolding ttlGenericCommand_def
  proof (rule ok_seq [OF ok_lookupKeyRead [OF a]], clarify)
    fix st1 assume 1: "at env E {#} args h0 ?M s st1"
    let ?goal = "ok (if kdict st1 ?k = None then reply_long env (-2) st1
      else do {
        expire \<leftarrow> getExpire ?k st1;
        (if expire = -1 then reply_long env (-1) st1
         else
           let ttl = max 0 (expire - mstime env)
           in if \<not> fits 8 (expire - mstime env) \<or> \<not> ms \<and> \<not> fits 8 (ttl + 500) then None
              else reply_long env (if ms then ttl else (ttl + 500) div 1000) st1) }) (finished env E h0 M' (s @ r))"
    have f: "fits 8 (-1)" "fits 8 (-2)" by (simp_all add: fits_def)
    show ?goal
    proof (cases "?M ?k")
      case None
      then show ?thesis using sp at_None [OF 1, of ?k] finished_long [OF 1 f(2)] by (simp add: spec_ttl_def)
    next
      case (Some e)
      obtain v x where e: "?M ?k = Some (v, x)" using Some by (cases e) auto
      have n: "kdict st1 ?k \<noteq> None" using at_None [OF 1, of ?k] Some by auto
      note g = getExpire_eq [OF 1, of ?k]
      show ?thesis
      proof (cases "x = None \<or> x = Some (-1)")
        case True
        then show ?thesis using sp e g finished_long [OF 1 f(1)] unfolding if_not_P [OF n] by (auto simp: spec_ttl_def)
      next
        case False
        then obtain w where w: "x = Some w" "w \<noteq> -1" by auto
        let ?ttl = "max 0 (w - mstime env)"
        let ?v = "if ms then ?ttl else (?ttl + 500) div 1000"
        have c: "\<not> (\<not> fits 8 (w - mstime env) \<or> \<not> ms \<and> \<not> fits 8 (?ttl + 500))" and r: "r = reply_int ?v" "M' = ?M"
          using sp e w by (auto simp: spec_ttl_def Let_def split: if_split_asm)
        have fv: "fits 8 ?v" using c by (auto simp: fits_def)
        have gw: "getExpire ?k st1 = Some w" using g e w by simp
        show ?thesis
          unfolding if_not_P [OF n] r gw bind.bind_lunit Let_def if_not_P [OF w(2)] if_not_P [OF c]
          by (rule finished_long [OF 1 fv])
      qed
    qed
  qed
qed

lemma rename_refines: "refines 3 (\<lambda>env. renameGenericCommand env nx) (\<lambda>env. spec_rename env nx)"
proof (rule refinesI)
  fix env E args h0 M s st r M'
  assume a: "at env E {#} args h0 M s st" and sp: "spec_rename env nx args M = Some (r, M')"
  let ?k = "args ! 1" and ?l = "args ! 2"
  let ?M = "visit env ?k M"
  show "ok (renameGenericCommand env nx args st) (finished env E h0 M' (s @ r))"
  proof (cases "?k = ?l")
    case True
    then show ?thesis using sp finished_shared [OF a, of Sh_sameobjecterr] by (simp add: renameGenericCommand_def spec_rename_def)
  next
    case kl: False
    show ?thesis unfolding renameGenericCommand_def if_not_P [OF kl]
    proof (rule ok_seq [OF ok_lookupKeyWriteOrReply [OF a, of Sh_nokeyerr]], simp, clarify)
      fix st1 assume 1: "at env E {#} args h0 ?M (if ?M ?k = None then s @ sh Sh_nokeyerr else s) st1"
      show "ok (case kdict st1 ?k of None \<Rightarrow> Some st1
         | Some a \<Rightarrow> do {
             st \<leftarrow> hold_ref a st1;
             expire \<leftarrow> getExpire ?k st;
             (st, q) \<leftarrow> lookupKeyWrite env ?l st;
             (if q \<noteq> None \<and> nx then do { st \<leftarrow> drop_ref a st; reply_shared env Sh_czero st }
              else do {
                (st, _) \<leftarrow> (if q \<noteq> None then dbDelete ?l st else Some (st, False));
                st \<leftarrow> dbAdd ?l a st;
                st \<leftarrow> (if expire \<noteq> -1 then setExpire ?l expire st else Some st);
                (st, _) \<leftarrow> dbDelete ?k st;
                reply_shared env (if nx then Sh_cone else Sh_ok) (touch 1 st) }) }) (finished env E h0 M' (s @ r))"
      proof (cases "kdict st1 ?k")
        case None
        then have "?M ?k = None" using at_None [OF 1] by blast
        then show ?thesis using sp kl None finishedI [OF 1] by (simp add: spec_rename_def)
      next
        case (Some b)
        obtain v x where v: "?M ?k = Some (v, x)" using at_Some [OF 1 Some] by auto
        have 1: "at env E {#} args h0 ?M s st1" using 1 v by simp
        let ?N = "visit env ?l ?M"
        have nk: "?N ?k = Some (v, x)" using kl v visit_other [of ?k ?l env ?M] by simp
        have m: "b \<in># all_refs E {#} st1" using at_Some [OF 1 Some] by auto
        obtain st2 where 2: "hold_ref b st1 = Some st2" "at env E {#b#} args h0 ?M s st2" "same st1 st2"
          using ok_hold [OF 1 m] by (auto simp: ok_def)
        let ?w = "case x of None \<Rightarrow> -1 | Some w \<Rightarrow> w"
        have g: "getExpire ?k st2 = Some ?w" using getExpire_eq [OF 2(2), of ?k] v by simp
        obtain st3 where 3: "lookupKeyWrite env ?l st2 = Some (st3, kdict st3 ?l)" "at env E {#b#} args h0 ?N s st3" "kept ?N st2 st3"
          using ok_lookupKeyWrite [OF 2(2), of ?l] by (auto simp: ok_def)
        have k3: "kdict st3 ?k = Some b" using 3(3) nk 2(3) Some by (simp add: kept_def same_def)
        note nl = at_None [OF 3(2), of ?l]
        show ?thesis
        proof (cases "?N ?l \<noteq> None \<and> nx")
          case True
          obtain st4 where 4: "drop_ref b st3 = Some st4" "at env E {#} args h0 ?N s st4"
            using ok_drop [OF 3(2)] by (auto simp: ok_def)
          have "r = reply_int 0" "M' = ?N" using sp kl v True by (simp_all add: spec_rename_def)
          then show ?thesis using Some 2(1) g 3(1) 4(1) True nl finished_zero [OF 4(2)] by simp
        next
          case False
          let ?x = "if x = Some (-1) then None else x"
          have r: "r = (if nx then reply_int 1 else sh Sh_ok)" "M' = ?N(?l \<mapsto> (v, ?x), ?k := None)"
            using sp kl v False by (auto simp: spec_rename_def Let_def)
          have c: "\<not> (kdict st3 ?l \<noteq> None \<and> nx)" using False nl by simp
          obtain st4 d where 4: "(if kdict st3 ?l \<noteq> None then dbDelete ?l st3 else Some (st3, False)) = Some (st4, d)"
              "at env E {#b#} args h0 (?N(?l := None)) s st4" "kdict st4 ?k = Some b"
          proof (cases "kdict st3 ?l")
            case None
            then have "?N(?l := None) = ?N" using nl by (simp add: fun_upd_idem)
            then show ?thesis using None 3(2) k3 by (intro that [of st3 False]) simp_all
          next
            case (Some y)
            then show ?thesis using that ok_dbDelete [OF 3(2), of ?l] k3 kl by (auto simp: ok_def)
          qed
          have av: "aval (objects st4) b = Some v" "short v" using at_Some [OF 4(2,3)] nk kl by auto
          obtain st5 where 5: "dbAdd ?l b st4 = Some st5" "at env E {#} args h0 (?N(?l \<mapsto> (v, None))) s st5"
            using ok_dbAdd [OF 4(2) _ av, of ?l] by (auto simp: ok_def)
          obtain st6 where 6: "(if ?w \<noteq> -1 then setExpire ?l ?w st5 else Some st5) = Some st6"
              "at env E {#} args h0 (?N(?l \<mapsto> (v, ?x))) s st6"
          proof (cases "?w = -1")
            case True
            then have "?x = None" by (auto split: option.split_asm)
            then show ?thesis using that True 5(2) by simp
          next
            case False
            then have "?x = Some ?w" by (cases x) auto
            then show ?thesis using that False ok_setExpire [OF 5(2), of ?l v None ?w] by (auto simp: ok_def)
          qed
          obtain st7 e where 7: "dbDelete ?k st6 = Some (st7, e)" "at env E {#} args h0 M' s st7"
            using ok_dbDelete [OF 6(2), of ?k] r(2) by (auto simp: ok_def)
          have t: "at env E {#} args h0 M' s (touch 1 st7)" using 7(2) by simp
          have "ok (reply_shared env (if nx then Sh_cone else Sh_ok) (touch 1 st7)) (finished env E h0 M' (s @ r))"
            using finished_shared [OF t, of "if nx then Sh_cone else Sh_ok"] r(1) by (cases nx) (simp_all add: sh_int)
          then show ?thesis unfolding Some option.case(2) 2(1) bind.bind_lunit g 3(1) prod.case if_not_P [OF c] 4(1) 5(1) 6(1) 7(1) .
        qed
      qed
    qed
  qed
qed

lemma expire_refines: "refines 3 (\<lambda>env. expireGenericCommand env (f env) seconds) (\<lambda>env. spec_expire env (f env) seconds)"
proof (rule refinesI)
  fix env E args h0 M s st r M'
  assume a: "at env E {#} args h0 M s st" and l: "3 \<le> length args" and sp: "spec_expire env (f env) seconds args M = Some (r, M')"
  let ?k = "args ! 1" and ?b = "f env"
  let ?M = "visit env ?k M"
  show "ok (expireGenericCommand env ?b seconds args st) (finished env E h0 M' (s @ r))"
  proof (cases "parse_long_long (args ! 2)")
    case None
    then show ?thesis using sp finished_error [OF a, of not_an_integer] by (simp add: expireGenericCommand_def spec_expire_def)
  next
    case (Some t)
    let ?ms = "if seconds then t * 1000 else t"
    have c: "\<not> (\<not> fits 8 ?ms \<or> \<not> fits 8 (?ms + ?b))" using sp Some by (simp add: spec_expire_def Let_def split: if_split_asm)
    show ?thesis unfolding expireGenericCommand_def Some option.case(2) Let_def if_not_P [OF c]
    proof (rule ok_seq [OF ok_lookupKeyRead [OF a]], clarify)
      fix st1 assume 1: "at env E {#} args h0 ?M s st1"
      let ?past = "?ms + ?b \<le> mstime env \<and> \<not> loading env \<and> \<not> masterhost env"
      show "ok (if kdict st1 ?k = None then reply_shared env Sh_czero st1
                else if ?past then do {
                  (st, d) \<leftarrow> dbDelete ?k st1;
                  (if \<not> d then None
                   else case createStringObject (oe env) (ascii ''DEL'') (objects (touch 1 st)) of (h, aux) \<Rightarrow> do {
                     st \<leftarrow> rewriteClientCommandVector [aux, cargs (touch 1 st) ! 1] ((touch 1 st)\<lparr>objects := h\<rparr>);
                     st \<leftarrow> drop_ref aux st;
                     reply_shared env Sh_cone st }) }
                else do {
                  st \<leftarrow> setExpire ?k (?ms + ?b) st1;
                  st \<leftarrow> reply_shared env Sh_cone st;
                  Some (touch 1 st) }) (finished env E h0 M' (s @ r))"
      proof (cases "?M ?k")
        case None
        then show ?thesis using sp Some c at_None [OF 1, of ?k] finished_zero [OF 1] by (simp add: spec_expire_def)
      next
        case e: (Some e)
        obtain v x where v: "?M ?k = Some (v, x)" using e by (cases e) auto
        have n: "kdict st1 ?k \<noteq> None" using at_None [OF 1, of ?k] e by auto
        have r: "r = reply_int 1" "M' = (if ?past then ?M(?k := None) else ?M(?k \<mapsto> (v, Some (?ms + ?b))))"
        proof -
          have "spec_expire env ?b seconds args M =
              Some (reply_int 1, if ?past then ?M(?k := None) else ?M(?k \<mapsto> (v, Some (?ms + ?b))))"
            unfolding spec_expire_def Some option.case(2) Let_def if_not_P [OF c] v prod.case ..
          then show "r = reply_int 1" "M' = (if ?past then ?M(?k := None) else ?M(?k \<mapsto> (v, Some (?ms + ?b))))"
            using sp by (simp_all only: option.inject prod.inject)
        qed
        show ?thesis unfolding if_not_P [OF n]
        proof (cases ?past)
          case True
          obtain st2 where 2: "dbDelete ?k st1 = Some (st2, True)" "at env E {#} args h0 (?M(?k := None)) s st2"
            using ok_dbDelete [OF 1, of ?k] v by (auto simp: ok_def)
          let ?st = "touch 1 st2"
          have 3: "at env E {#} args h0 (?M(?k := None)) s ?st" using 2(2) by simp
          obtain h' aux where h: "createStringObject (oe env) (ascii ''DEL'') (objects ?st) = (h', aux)" by fastforce
          note n = at_create [OF 3 h [unfolded create_string]]
          have ag: "aval h' (cargs ?st ! 1) = Some (Str ?k)" and am: "cargs ?st ! 1 \<in># refs (?st\<lparr>objects := h'\<rparr>)"
            using at_arg(1,2) [OF n(1), of 1] l by auto
          have "good_args [ascii ''DEL'', ?k]" using at_good_args [OF a] l by (auto simp: good_args_def ascii_def)
          then obtain st4 where 4: "rewriteClientCommandVector [aux, cargs ?st ! 1] (?st\<lparr>objects := h'\<rparr>) = Some st4"
              "at env E {#aux#} [ascii ''DEL'', ?k] h0 (?M(?k := None)) s st4"
            using ok_rewrite [OF n(1), of "[aux, cargs ?st ! 1]" "[ascii ''DEL'', ?k]"] ag am n(2) by (auto simp: ok_def)
          obtain st5 where 5: "drop_ref aux st4 = Some st5" "at env E {#} [ascii ''DEL'', ?k] h0 M' s st5"
            using ok_drop [OF 4(2)] r(2) True by (auto simp: ok_def)
          show "ok (if ?past then do {
                  (st, d) \<leftarrow> dbDelete ?k st1;
                  (if \<not> d then None
                   else case createStringObject (oe env) (ascii ''DEL'') (objects (touch 1 st)) of (h, aux) \<Rightarrow> do {
                     st \<leftarrow> rewriteClientCommandVector [aux, cargs (touch 1 st) ! 1] ((touch 1 st)\<lparr>objects := h\<rparr>);
                     st \<leftarrow> drop_ref aux st;
                     reply_shared env Sh_cone st }) }
                else do {
                  st \<leftarrow> setExpire ?k (?ms + ?b) st1;
                  st \<leftarrow> reply_shared env Sh_cone st;
                  Some (touch 1 st) }) (finished env E h0 M' (s @ r))"
            unfolding if_P [OF True] 2(1) bind.bind_lunit prod.case h 4(1) 5(1) r(1)
            using finished_one [OF 5(2)] by simp
        next
          case False
          obtain st2 where 2: "setExpire ?k (?ms + ?b) st1 = Some st2" "at env E {#} args h0 M' s st2"
            using ok_setExpire [OF 1 v, of "?ms + ?b"] r(2) False unfolding if_not_P [OF False] by (auto simp: ok_def)
          show "ok (if ?past then do {
                  (st, d) \<leftarrow> dbDelete ?k st1;
                  (if \<not> d then None
                   else case createStringObject (oe env) (ascii ''DEL'') (objects (touch 1 st)) of (h, aux) \<Rightarrow> do {
                     st \<leftarrow> rewriteClientCommandVector [aux, cargs (touch 1 st) ! 1] ((touch 1 st)\<lparr>objects := h\<rparr>);
                     st \<leftarrow> drop_ref aux st;
                     reply_shared env Sh_cone st }) }
                else do {
                  st \<leftarrow> setExpire ?k (?ms + ?b) st1;
                  st \<leftarrow> reply_shared env Sh_cone st;
                  Some (touch 1 st) }) (finished env E h0 M' (s @ r))"
            unfolding if_not_P [OF False] 2(1) bind.bind_lunit r(1)
            by (rule ok_seq [OF finished_one [OF 2(2)]]) simp
        qed
      qed
    qed
  qed
qed

end
