(* ===== verification/Store_Strings.thy ===== *)
theory Store_Strings
  imports Store_Commands
begin

text \<open>Every command on strings does what its specification says.\<close>

section \<open>Visits\<close>

lemma visit_upd [simp]: "(visit env k M)(k := e) = M(k := e)"
  by (auto simp: visit_def fun_eq_iff split: option.split)

lemma visit_same: "N k = M k \<Longrightarrow> visit env k N k = visit env k M k"
  by (simp add: visit_def split: option.split)

lemma visit_idem [simp]: "visit env k (visit env k M) = visit env k M"
  by (auto simp: visit_def split: option.split)

lemma fits_parse: "parse_long_long t = Some v \<Longrightarrow> fits 8 v"
  by (auto simp: parse_long_long_def Let_def fits_def split: if_split_asm)

lemma fits_length: "n \<le> max_string \<Longrightarrow> fits 8 (int n)"
  by (simp add: fits_def)

lemma at_max:
  assumes "at env E H args h0 M s st" "M k = Some (Str t, x)" shows "length t \<le> max_string"
proof -
  obtain a where "kdict st k = Some a" using at_None [OF assms(1), of k] assms(2) by auto
  then show ?thesis using at_Str(2) [OF assms(1) _ assms(2)] by blast
qed

section \<open>SET\<close>

lemma ok_nx:
  assumes a: "at env E H args h0 M s st"
  shows "ok (if set_nx f then do { (st, r) \<leftarrow> lookupKeyWrite env k st; Some (st, r \<noteq> None) } else Some (st, False))
    (\<lambda>(st', stop). at env E H args h0 (if set_nx f then visit env k M else M) s st' \<and> stop = (set_nx f \<and> visit env k M k \<noteq> None))"
proof (cases "set_nx f")
  case True
  show ?thesis unfolding if_P [OF True]
    by (rule ok_seq [OF ok_lookupKeyWrite [OF a]]) (use True in \<open>auto simp: at_None\<close>)
qed (use a in simp)

lemma ok_xx:
  assumes a: "at env E H args h0 M s st"
  shows "ok (if \<not> stop \<and> set_xx f then do { (st, r) \<leftarrow> lookupKeyWrite env k st; Some (st, r = None) } else Some (st, stop))
    (\<lambda>(st', stop'). at env E H args h0 (if \<not> stop \<and> set_xx f then visit env k M else M) s st' \<and>
      stop' = (stop \<or> set_xx f \<and> visit env k M k = None))"
proof (cases "\<not> stop \<and> set_xx f")
  case True
  show ?thesis unfolding if_P [OF True]
    by (rule ok_seq [OF ok_lookupKeyWrite [OF a]]) (use True in \<open>auto simp: at_None\<close>)
qed (use a in auto)

lemma ok_setGeneric:
  assumes a: "at env E {#} args h0 M s st" and j: "j < length args" and n: "shared_exists okn" "shared_exists abn"
    and sp: "spec_set env name f k (args ! j) (sh okn) (sh abn) M = Some (r, M')"
  shows "ok (setGenericCommand env name f k j okn abn st) (finished env E h0 M' (s @ r))"
proof -
  let ?p = "case set_expire f of None \<Rightarrow> Some 0 | Some e \<Rightarrow> parse_long_long e"
  show ?thesis
  proof (cases ?p)
    case None
    then show ?thesis using sp finished_error [OF a, of not_an_integer] by (simp add: setGenericCommand_def spec_set_def)
  next
    case p: (Some t)
    show ?thesis
    proof (cases "set_expire f \<noteq> None \<and> t \<le> 0")
      case True
      then show ?thesis using sp p finished_error [OF a, of "ascii ''invalid expire time in '' @ name"]
        by (simp add: setGenericCommand_def spec_set_def)
    next
      case e: False
      let ?ms = "if set_expire f \<noteq> None \<and> in_seconds f then t * 1000 else t"
      let ?M = "if set_nx f \<or> set_xx f then visit env k M else M"
      let ?stop = "set_nx f \<and> ?M k \<noteq> None \<or> set_xx f \<and> ?M k = None"
      have spec: "(if \<not> fits 8 ?ms then None else if ?stop then Some (sh abn, ?M)
           else if set_expire f \<noteq> None \<and> \<not> fits 8 (mstime env + ?ms) then None
           else Some (sh okn, ?M(k \<mapsto> (Str (args ! j), if set_expire f \<noteq> None then Some (mstime env + ?ms) else None)))) = Some (r, M')"
        using sp unfolding spec_set_def p option.case(2) if_not_P [OF e] Let_def .
      then have fm: "\<not> \<not> fits 8 ?ms" by (rule contrapos_pn) simp
      note spec = spec [unfolded if_not_P [OF fm]]
      show ?thesis unfolding setGenericCommand_def p option.case(2) if_not_P [OF e] Let_def if_not_P [OF fm]
      proof (rule ok_seq [OF ok_nx [OF a]], clarify)
        fix st1 assume 1: "at env E {#} args h0 (if set_nx f then visit env k M else M) s st1"
        let ?s1 = "set_nx f \<and> visit env k M k \<noteq> None"
        show "ok (do {
            (st, stop) \<leftarrow> (if \<not> ?s1 \<and> set_xx f then do { (st, r) \<leftarrow> lookupKeyWrite env k st1; Some (st, r = None) } else Some (st1, ?s1));
            (if stop then reply_shared env abn st
             else do {
               st \<leftarrow> setKey env k (cargs st ! j) st;
               st \<leftarrow> (if set_expire f \<noteq> None
                     then if fits 8 (mstime env + ?ms) then setExpire k (mstime env + ?ms) (touch 1 st) else None
                     else Some (touch 1 st));
               reply_shared env okn st }) }) (finished env E h0 M' (s @ r))"
        proof (rule ok_seq [OF ok_xx [OF 1]], clarify)
          fix st2
          let ?N = "if \<not> ?s1 \<and> set_xx f then visit env k (if set_nx f then visit env k M else M) else if set_nx f then visit env k M else M"
          let ?s2 = "?s1 \<or> set_xx f \<and> visit env k (if set_nx f then visit env k M else M) k = None"
          assume 2: "at env E {#} args h0 ?N s st2"
          have s2: "?s2 \<longleftrightarrow> ?stop" by auto
          show "ok (if ?s2 then reply_shared env abn st2
             else do {
               st \<leftarrow> setKey env k (cargs st2 ! j) st2;
               st \<leftarrow> (if set_expire f \<noteq> None
                     then if fits 8 (mstime env + ?ms) then setExpire k (mstime env + ?ms) (touch 1 st) else None
                     else Some (touch 1 st));
               reply_shared env okn st }) (finished env E h0 M' (s @ r))"
          proof (cases ?stop)
            case True
            have N: "?N = ?M" using True by auto
            have "r = sh abn" "M' = ?M" using spec True by simp_all
            then show ?thesis using finished_shared [OF 2 n(2)] True s2 unfolding N by simp
          next
            case False
            let ?x = "if set_expire f \<noteq> None then Some (mstime env + ?ms) else None"
            have f: "\<not> (set_expire f \<noteq> None \<and> \<not> fits 8 (mstime env + ?ms))"
            proof
              assume c: "set_expire f \<noteq> None \<and> \<not> fits 8 (mstime env + ?ms)"
              show False using spec unfolding if_not_P [OF False] if_P [OF c] by simp
            qed
            have r: "r = sh okn" "M' = ?M(k \<mapsto> (Str (args ! j), ?x))"
              using spec unfolding if_not_P [OF False] if_not_P [OF f] by (simp_all only: option.inject prod.inject)
            have Mx: "M' = M(k \<mapsto> (Str (args ! j), ?x))" "?N(k \<mapsto> e) = M(k \<mapsto> e)" for e using r(2) by simp_all
            have nstop: "\<not> ?s2" using False s2 by blast
            obtain st3 where 3: "setKey env k (cargs st2 ! j) st2 = Some st3" "at env E {#} args h0 (M(k \<mapsto> (Str (args ! j), None))) s st3"
              using ok_setKey [OF 2 j, of k] unfolding Mx(2) by (auto simp: ok_def)
            have t: "at env E {#} args h0 (M(k \<mapsto> (Str (args ! j), None))) s (touch 1 st3)" using 3(2) by simp
            obtain st4 where 4: "(if set_expire f \<noteq> None
                     then if fits 8 (mstime env + ?ms) then setExpire k (mstime env + ?ms) (touch 1 st3) else None
                     else Some (touch 1 st3)) = Some st4" "at env E {#} args h0 M' s st4"
            proof (cases "set_expire f \<noteq> None")
              case True
              then have ff: "fits 8 (mstime env + ?ms)" using f by blast
              obtain st4 where "setExpire k (mstime env + ?ms) (touch 1 st3) = Some st4"
                  "at env E {#} args h0 (M(k \<mapsto> (Str (args ! j), Some (mstime env + ?ms)))) s st4"
                using ok_setExpire [OF t, of k "Str (args ! j)" None "mstime env + ?ms"] by (auto simp: ok_def)
              then show ?thesis using that unfolding if_P [OF True] if_P [OF ff] Mx(1) by blast
            next
              case False
              then show ?thesis using that t unfolding if_not_P [OF False] Mx(1) by blast
            qed
            show ?thesis unfolding if_not_P [OF nstop] 3(1) bind.bind_lunit 4(1) r(1)
              by (rule finished_shared [OF 4(2) n(1)])
          qed
        qed
      qed
    qed
  qed
qed

lemma ok_encode_then:
  assumes a: "at env E {#} args h0 M s st" and j: "j < length args"
    and f: "\<And>st'. at env E {#} args h0 M s st' \<Longrightarrow> ok (f st') Q"
  shows "ok (do { st \<leftarrow> encode_arg env j st; f st }) Q"
  by (rule ok_seq [OF ok_encode_arg [OF a j]]) (use f in blast)

lemma set_refines: "refines 3 setCommand spec_SET"
proof (rule refinesI)
  fix env E args h0 M s st r M'
  assume a: "at env E {#} args h0 M s st" and l: "3 \<le> length args" and sp: "spec_SET env args M = Some (r, M')"
  show "ok (setCommand env args st) (finished env E h0 M' (s @ r))"
  proof (cases "parse_set (drop 3 args) no_flags")
    case None
    then show ?thesis using sp finished_shared [OF a, of Sh_syntaxerr] by (simp add: setCommand_def spec_SET_def)
  next
    case (Some f)
    have sp': "spec_set env (ascii ''set'') f (args ! 1) (args ! 2) (sh Sh_ok) (sh Sh_nullbulk) M = Some (r, M')"
      using sp unfolding spec_SET_def Some option.case(2) .
    show ?thesis unfolding setCommand_def Some option.case(2)
      by (rule ok_encode_then [OF a], use l in simp, rule ok_setGeneric [OF _ _ _ _ sp']) (use l in auto)
  qed
qed

lemma setnx_refines: "refines 3 setnxCommand spec_setnx"
proof (rule refinesI)
  fix env E args h0 M s st r M'
  assume a: "at env E {#} args h0 M s st" and l: "3 \<le> length args" and sp: "spec_setnx env args M = Some (r, M')"
  show "ok (setnxCommand env args st) (finished env E h0 M' (s @ r))"
    unfolding setnxCommand_def
    by (rule ok_encode_then [OF a], use l in simp, rule ok_setGeneric [OF _ _ _ _ sp [unfolded spec_setnx_def sh_int]]) (use l in auto)
qed

lemma setex_refines: "refines 4 setexCommand (\<lambda>env. spec_setex env True)"
proof (rule refinesI)
  fix env E args h0 M s st r M'
  assume a: "at env E {#} args h0 M s st" and l: "4 \<le> length args" and sp: "spec_setex env True args M = Some (r, M')"
  show "ok (setexCommand env args st) (finished env E h0 M' (s @ r))"
    unfolding setexCommand_def
    by (rule ok_encode_then [OF a], use l in simp, rule ok_setGeneric) (use l sp in \<open>auto simp: spec_setex_def\<close>)
qed

lemma psetex_refines: "refines 4 psetexCommand (\<lambda>env. spec_setex env False)"
proof (rule refinesI)
  fix env E args h0 M s st r M'
  assume a: "at env E {#} args h0 M s st" and l: "4 \<le> length args" and sp: "spec_setex env False args M = Some (r, M')"
  show "ok (psetexCommand env args st) (finished env E h0 M' (s @ r))"
    unfolding psetexCommand_def
    by (rule ok_encode_then [OF a], use l in simp, rule ok_setGeneric) (use l sp in \<open>auto simp: spec_setex_def\<close>)
qed

section \<open>Reading\<close>

lemma ok_getGeneric:
  assumes a: "at env E H args h0 M s st"
  shows "ok (getGenericCommand env args st) (\<lambda>(st', b).
    at env E H args h0 (visit env (args ! 1) M) (s @ get_reply (args ! 1) (visit env (args ! 1) M)) st' \<and>
    b = (\<not> is_other (visit env (args ! 1) M (args ! 1))))"
  unfolding getGenericCommand_def
proof (rule ok_seq [OF ok_lookupKeyReadOrReply [OF a, of Sh_nullbulk]], simp, clarify)
  fix st1
  let ?k = "args ! 1" let ?M = "visit env ?k M"
  assume 1: "at env E H args h0 ?M (if ?M ?k = None then s @ sh Sh_nullbulk else s) st1"
  let ?Q = "\<lambda>(st', b). at env E H args h0 ?M (s @ get_reply ?k ?M) st' \<and> b = (\<not> is_other (?M ?k))"
  show "ok (case kdict st1 ?k of None \<Rightarrow> Some (st1, True)
      | Some a \<Rightarrow> do {
          ob \<leftarrow> objects st1 a;
          (if otype ob \<noteq> REDIS_STRING then do { st \<leftarrow> reply_shared env Sh_wrongtypeerr st1; Some (st, False) }
           else do { st \<leftarrow> reply_bulk_object env a st1; Some (st, True) }) }) ?Q"
  proof (cases "kdict st1 ?k")
    case None
    then have "?M ?k = None" using at_None [OF 1] by blast
    then show ?thesis using None 1 by (simp add: get_reply_def is_other_def)
  next
    case (Some b)
    obtain v x where v: "?M ?k = Some (v, x)" using at_Some [OF 1 Some] by auto
    have 2: "at env E H args h0 ?M s st1" using 1 v by simp
    show ?thesis
    proof (cases v)
      case (Str t)
      note o = at_Str [OF 2 Some v [unfolded Str]]
      obtain ob where ob: "objects st1 b = Some ob" "otype ob = REDIS_STRING" using o(1) by blast
      have m: "b \<in># E + H + refs st1" using o(4) by simp
      have "ok (do { st \<leftarrow> reply_bulk_object env b st1; Some (st, True) }) ?Q"
        by (rule ok_seq [OF ok_bulk_object [OF 2 m o(5,2)]]) (use v Str in \<open>auto simp: get_reply_def is_other_def\<close>)
      then show ?thesis using Some ob by simp
    next
      case (Other ty)
      obtain ob where ob: "objects st1 b = Some ob" "otype ob \<noteq> REDIS_STRING" using at_Other [OF 2 Some v [unfolded Other]] by blast
      have "ok (do { st \<leftarrow> reply_shared env Sh_wrongtypeerr st1; Some (st, False) }) ?Q"
        by (rule ok_seq [OF ok_shared [OF 2, of Sh_wrongtypeerr]]) (use v Other in \<open>auto simp: get_reply_def is_other_def\<close>)
      then show ?thesis using Some ob by simp
    qed
  qed
qed

lemma get_refines: "refines 2 getCommand spec_get"
proof (rule refinesI)
  fix env E args h0 M s st r M'
  assume a: "at env E {#} args h0 M s st" and sp: "spec_get env args M = Some (r, M')"
  show "ok (getCommand env args st) (finished env E h0 M' (s @ r))"
    unfolding getCommand_def
    by (rule ok_seq [OF ok_getGeneric [OF a]]) (use sp in \<open>auto simp: spec_get_def Let_def intro: finishedI\<close>)
qed

lemma getset_refines: "refines 3 getsetCommand spec_getset"
proof (rule refinesI)
  fix env E args h0 M s st r M'
  assume a: "at env E {#} args h0 M s st" and l: "3 \<le> length args" and sp: "spec_getset env args M = Some (r, M')"
  let ?k = "args ! 1" let ?M = "visit env ?k M"
  have r: "r = get_reply ?k ?M" "M' = (if is_other (?M ?k) then ?M else ?M(?k \<mapsto> (Str (args ! 2), None)))"
    using sp unfolding spec_getset_def Let_def by (simp_all only: option.inject prod.inject)
  show "ok (getsetCommand env args st) (finished env E h0 M' (s @ r))"
    unfolding getsetCommand_def
  proof (rule ok_seq [OF ok_getGeneric [OF a]], clarify)
    fix st1 assume 1: "at env E {#} args h0 ?M (s @ get_reply ?k ?M) st1"
    show "ok (if \<not> \<not> is_other (?M ?k) then Some st1
       else do {
         st \<leftarrow> encode_arg env 2 st1;
         st \<leftarrow> setKey env ?k (cargs st ! 2) st;
         Some (touch 1 st) }) (finished env E h0 M' (s @ r))"
    proof (cases "is_other (?M ?k)")
      case True
      then show ?thesis using finishedI [OF 1] r by simp
    next
      case False
      have n: "\<not> \<not> \<not> is_other (?M ?k)" using False by simp
      have j: "2 < length args" using l by simp
      have M: "M' = M(?k \<mapsto> (Str (args ! 2), None))" using r(2) False by simp
      show ?thesis unfolding if_not_P [OF n]
      proof (rule ok_encode_then [OF 1 j])
        fix st2 assume 2: "at env E {#} args h0 ?M (s @ get_reply ?k ?M) st2"
        show "ok (do { st \<leftarrow> setKey env ?k (cargs st2 ! 2) st2; Some (touch 1 st) }) (finished env E h0 M' (s @ r))"
          by (rule ok_seq [OF ok_setKey [OF 2 j]]) (auto simp: M r(1) intro: finishedI)
      qed
    qed
  qed
qed

lemma strlen_refines: "refines 2 strlenCommand spec_strlen"
proof (rule refinesI)
  fix env E args h0 M s st r M'
  assume a: "at env E {#} args h0 M s st" and sp: "spec_strlen env args M = Some (r, M')"
  let ?k = "args ! 1" let ?M = "visit env ?k M"
  show "ok (strlenCommand env args st) (finished env E h0 M' (s @ r))"
    unfolding strlenCommand_def
  proof (rule ok_seq [OF ok_lookupKeyReadOrReply [OF a, of Sh_czero]], simp, clarify)
    fix st1 assume 1: "at env E {#} args h0 ?M (if ?M ?k = None then s @ sh Sh_czero else s) st1"
    show "ok (case kdict st1 ?k of None \<Rightarrow> Some st1
      | Some a \<Rightarrow> do {
          (st, wrong) \<leftarrow> checkType env a REDIS_STRING st1;
          (if wrong then Some st else do { n \<leftarrow> object_length a st; reply_long env (int n) st }) }) (finished env E h0 M' (s @ r))"
    proof (cases "kdict st1 ?k")
      case None
      then have "?M ?k = None" using at_None [OF 1] by blast
      then show ?thesis using None 1 sp by (auto simp: spec_strlen_def sh_int intro: finishedI)
    next
      case (Some b)
      obtain v x where v: "?M ?k = Some (v, x)" using at_Some [OF 1 Some] by auto
      have 2: "at env E {#} args h0 ?M s st1" using 1 v by simp
      show ?thesis
      proof (cases v)
        case (Str t)
        note o = at_Str [OF 2 Some v [unfolded Str]]
        have f: "fits 8 (int (length t))" using o(2) by (simp add: fits_def)
        show ?thesis using Some checkType_Str [OF 2 Some v [unfolded Str]] object_length_eq [OF o(5)] finished_long [OF 2 f] sp v Str
          by (auto simp: spec_strlen_def)
      next
        case (Other ty)
        show ?thesis unfolding Some option.case(2)
          by (rule ok_seq [OF ok_checkType_Other [OF 2 Some v [unfolded Other]]])
            (use sp v Other in \<open>auto simp: spec_strlen_def intro: finishedI\<close>)
      qed
    qed
  qed
qed

lemma s64_fits: "fits 8 v \<Longrightarrow> s64 v = v"
  by (simp add: s64_def fits_def)

lemma range_slice:
  assumes "fits 8 lo" "fits 8 hi" "length t \<le> max_string" "range_bounds lo hi (length t) = (a, b)"
  shows "slice lo hi t = (if a > b \<or> length t = 0 then [] else take (nat (b - a + 1)) (drop (nat a) t))"
proof -
  let ?n = "int (length t)"
  have n: "0 \<le> ?n" "?n \<le> 512 * 1024 * 1024" using assms(3) by simp_all
  have "s64 (?n + lo) = ?n + lo" if "lo < 0" using that assms(1) n by (intro s64_fits) (simp add: fits_def)
  moreover have "s64 (?n + hi) = ?n + hi" if "hi < 0" using that assms(2) n by (intro s64_fits) (simp add: fits_def)
  moreover have "s64 (?n - 1) = ?n - 1" using n by (intro s64_fits) (simp add: fits_def)
  ultimately have ab: "a = (if lo < 0 then max 0 (?n + lo) else lo)"
      "b = (let h = (if hi < 0 then max 0 (?n + hi) else hi) in if h \<ge> ?n then ?n - 1 else h)"
    using assms(4) by (auto simp: range_bounds_def Let_def max_def)
  show ?thesis
  proof (cases "length t = 0")
    case True
    then show ?thesis by (simp add: slice_def Let_def)
  next
    case False
    then have "0 < ?n" by simp
    then have "b = (if hi < 0 then max 0 (?n + hi) else min hi (?n - 1))"
      using ab(2) unfolding Let_def max_def min_def by (simp split: if_split_asm)
    then show ?thesis using False ab(1) by (simp add: slice_def Let_def)
  qed
qed

lemma emptybulk: "sh Sh_emptybulk = reply_bulk []"
  by (simp add: reply_bulk_def reply_header_def ascii_def decimal_01)

lemma getrange_refines: "refines 4 getrangeCommand spec_getrange"
proof (rule refinesI)
  fix env E args h0 M s st r M'
  assume a: "at env E {#} args h0 M s st" and sp: "spec_getrange env args M = Some (r, M')"
  let ?k = "args ! 1" let ?M = "visit env ?k M"
  show "ok (getrangeCommand env args st) (finished env E h0 M' (s @ r))"
  proof (cases "parse_long_long (args ! 2) = None \<or> parse_long_long (args ! 3) = None")
    case True
    then show ?thesis using sp finished_error [OF a, of not_an_integer]
      by (cases "parse_long_long (args ! 2)") (auto simp: getrangeCommand_def spec_getrange_def)
  next
    case False
    then obtain lo hi where p: "parse_long_long (args ! 2) = Some lo" "parse_long_long (args ! 3) = Some hi" by auto
    note f = p [THEN fits_parse]
    show ?thesis unfolding getrangeCommand_def p option.case(2)
    proof (rule ok_seq [OF ok_lookupKeyReadOrReply [OF a, of Sh_emptybulk]], simp, clarify)
      fix st1 assume 1: "at env E {#} args h0 ?M (if ?M ?k = None then s @ sh Sh_emptybulk else s) st1"
      show "ok (case kdict st1 ?k of None \<Rightarrow> Some st1
        | Some a \<Rightarrow> do {
            (st, wrong) \<leftarrow> checkType env a REDIS_STRING st1;
            (if wrong then Some st
             else do {
               ob \<leftarrow> objects st a;
               str \<leftarrow> (case optr ob of Some (IntEnc p) \<Rightarrow> Some (int_text p) | p \<Rightarrow> raw_string p);
               let (lo, hi) = range_bounds lo hi (length str);
               (if lo > hi \<or> length str = 0 then reply_shared env Sh_emptybulk st
                else on_client (addReplyBulkCBuffer (oe env) True (take (nat (hi - lo + 1)) (drop (nat lo) str))) st) }) })
         (finished env E h0 M' (s @ r))"
      proof (cases "kdict st1 ?k")
        case None
        then have n: "?M ?k = None" using at_None [OF 1] by blast
        then show ?thesis using None finishedI [OF 1 [unfolded if_P [OF n] emptybulk]] sp p by (simp add: spec_getrange_def)
      next
        case (Some b)
        obtain v x where v: "?M ?k = Some (v, x)" using at_Some [OF 1 Some] by auto
        have 2: "at env E {#} args h0 ?M s st1" using 1 v by simp
        show ?thesis
        proof (cases v)
          case (Str t)
          note o = at_Str [OF 2 Some v [unfolded Str]]
          obtain ob q where ob: "objects st1 b = Some ob" "optr ob = Some q" "getDecodedObject q = t" using o(1) by blast
          have str: "(case optr ob of Some (IntEnc p) \<Rightarrow> Some (int_text p) | p \<Rightarrow> raw_string p) = Some t"
            using ob by (cases q) auto
          obtain c d where cd: "range_bounds lo hi (length t) = (c, d)" by fastforce
          have r: "r = reply_bulk (slice lo hi t)" "M' = ?M" using sp p v Str by (simp_all add: spec_getrange_def Let_def)
          note sl = range_slice [OF f o(2) cd]
          have "ok (if c > d \<or> length t = 0 then reply_shared env Sh_emptybulk st1
              else on_client (addReplyBulkCBuffer (oe env) True (take (nat (d - c + 1)) (drop (nat c) t))) st1) (finished env E h0 M' (s @ r))"
          proof (cases "c > d \<or> length t = 0")
            case True
            have e: "r = sh Sh_emptybulk" unfolding emptybulk r(1) sl if_P [OF True] ..
            show ?thesis unfolding if_P [OF True] e r(2) by (rule finished_shared [OF 2]) simp
          next
            case False
            have e: "r = reply_bulk (take (nat (d - c + 1)) (drop (nat c) t))" unfolding r(1) sl if_not_P [OF False] ..
            have "length (take (nat (d - c + 1)) (drop (nat c) t)) \<le> length t" by simp
            from order_trans [OF this o(2)] have fl: "fits 8 (int (length (take (nat (d - c + 1)) (drop (nat c) t))))"
              by (rule fits_length)
            show ?thesis unfolding if_not_P [OF False] e r(2)
              by (rule ok_mono [OF ok_buffer [OF 2 fl]]) (auto intro: finishedI)
          qed
          then show ?thesis unfolding Some option.case(2) checkType_Str [OF 2 Some v [unfolded Str]]
            using ob(1) str cd by simp
        next
          case (Other ty)
          show ?thesis unfolding Some option.case(2)
            by (rule ok_seq [OF ok_checkType_Other [OF 2 Some v [unfolded Other]]])
              (use sp p v Other in \<open>auto simp: spec_getrange_def intro: finishedI\<close>)
        qed
      qed
    qed
  qed
qed

lemma ok_mget_keys:
  "at env E H args h0 M s st \<Longrightarrow> spec_mget_keys env ks M = (r, M') \<Longrightarrow>
   ok (mget_keys env ks st) (\<lambda>st'. at env E H args h0 M' (s @ r) st')"
proof (induction ks arbitrary: M st s r)
  case (Cons k ks)
  let ?M = "visit env k M"
  obtain r2 where m: "spec_mget_keys env ks ?M = (r2, M')"
      "r = (if is_other (?M k) then sh Sh_nullbulk else get_reply k ?M) @ r2"
    using Cons.prems(2) by (auto simp: Let_def split: prod.split_asm)
  show ?case unfolding mget_keys.simps
  proof (rule ok_seq [OF ok_lookupKeyRead [OF Cons.prems(1)]], clarify)
    fix st1 assume 1: "at env E H args h0 ?M s st1"
    let ?r = "if is_other (?M k) then sh Sh_nullbulk else get_reply k ?M"
    have "ok (case kdict st1 k of
        None \<Rightarrow> reply_shared env Sh_nullbulk st1
      | Some a \<Rightarrow> do {
          ob \<leftarrow> objects st1 a;
          (if otype ob \<noteq> REDIS_STRING then reply_shared env Sh_nullbulk st1
           else reply_bulk_object env a st1) }) (\<lambda>st'. at env E H args h0 ?M (s @ ?r) st' \<and> same st1 st')"
    proof (cases "kdict st1 k")
      case None
      then have "?M k = None" using at_None [OF 1] by blast
      then show ?thesis using None ok_shared [OF 1, of Sh_nullbulk] by (simp add: get_reply_def is_other_def)
    next
      case (Some b)
      obtain v x where v: "?M k = Some (v, x)" using at_Some [OF 1 Some] by auto
      show ?thesis
      proof (cases v)
        case (Str t)
        note o = at_Str [OF 1 Some v [unfolded Str]]
        have m: "b \<in># E + H + refs st1" using o(4) by simp
        show ?thesis using o(1) Some ok_bulk_object [OF 1 m o(5,2)] v Str by (auto simp: get_reply_def is_other_def)
      next
        case (Other ty)
        show ?thesis using at_Other [OF 1 Some v [unfolded Other]] Some ok_shared [OF 1, of Sh_nullbulk] v Other
          by (auto simp: is_other_def)
      qed
    qed
    then show "ok (do { st \<leftarrow> case kdict st1 k of None \<Rightarrow> reply_shared env Sh_nullbulk st1
        | Some a \<Rightarrow> do { ob \<leftarrow> objects st1 a;
            (if otype ob \<noteq> REDIS_STRING then reply_shared env Sh_nullbulk st1 else reply_bulk_object env a st1) };
        mget_keys env ks st }) (\<lambda>st'. at env E H args h0 M' (s @ r) st')"
    proof (rule ok_seq)
      fix st2 assume 2: "at env E H args h0 ?M (s @ ?r) st2 \<and> same st1 st2"
      show "ok (mget_keys env ks st2) (\<lambda>st'. at env E H args h0 M' (s @ r) st')"
        using Cons.IH [OF conjunct1 [OF 2] m(1)] m(2) by simp
    qed
  qed
qed simp

lemma mget_refines: "refines 2 mgetCommand spec_mget"
proof (rule refinesI)
  fix env E args h0 M s st r M'
  assume a: "at env E {#} args h0 M s st" and l: "2 \<le> length args" and sp: "spec_mget env args M = Some (r, M')"
  obtain rs M1 where m: "spec_mget_keys env (tl args) M = (rs, M1)" by fastforce
  have r: "r = reply_header 42 (int (length args) - 1) @ rs" "M' = M1" using sp m by (simp_all add: spec_mget_def)
  have f0: "0 \<le> int (length args) - 1" using l by linarith
  then have f: "fits 8 (int (length args) - 1)" using at_length [OF a] by (simp add: fits_def)
  show "ok (mgetCommand env args st) (finished env E h0 M' (s @ r))"
    unfolding mgetCommand_def
  proof (rule ok_seq [OF ok_multi [OF a f f0]], clarify)
    fix st1 assume 1: "at env E {#} args h0 M (s @ reply_header 42 (int (length args) - 1)) st1"
    show "ok (mget_keys env (tl args) st1) (finished env E h0 M' (s @ r))"
      by (rule ok_mono [OF ok_mget_keys [OF 1 m]]) (simp add: r finishedI)
  qed
qed

end
