(* ===== verification/Store_Write.thy ===== *)
theory Store_Write
  imports Store_Strings
begin

text \<open>The commands that change strings: ranges, several keys at once, numbers, appending.\<close>

section \<open>Ranges\<close>

lemma checkLength_ok: "s64 n \<le> int max_string \<Longrightarrow> checkStringLength env n st = Some (st, True)"
  by (simp add: checkStringLength_def)

lemma checkLength_long:
  assumes a: "at env E {#} args h0 M s st" and n: "int max_string < s64 n"
  shows "ok (checkStringLength env n st) (\<lambda>(st', b). \<not> b \<and> finished env E h0 M (s @ too_long) st')"
proof -
  have c: "s64 n > 512 * 1024 * 1024" using n by simp
  show ?thesis unfolding checkStringLength_def if_P [OF c]
    by (rule ok_seq [OF ok_error [OF a]]) (auto intro: finishedI)
qed

lemma length_patch: "length (patch off v t) = max (length t) (off + length v)"
  by (auto simp: patch_def)

lemma ok_set_range:
  assumes a: "at env E {#} args h0 M s st" and x: "exclusive k b st" and k: "M k = Some (Str t, x)"
    and n: "0 \<le> off" "off + int (length v) \<le> int max_string"
  shows "ok (set_range env b off v st)
    (finished env E h0 (M(k \<mapsto> (Str (patch (nat off) v t), x))) (s @ reply_int (int (length (patch (nat off) v t)))))"
proof -
  have c: "\<not> 2 ^ 63 \<le> off + int (length v)" using n(2) by simp
  have l: "length (patch (nat off) v t) \<le> max_string" using at_max [OF a k] n by (simp add: length_patch)
  show ?thesis unfolding set_range_def if_not_P [OF c]
  proof (rule ok_seq [OF ok_update_string [OF a x k, of "patch (nat off) v", OF l]], clarify)
    fix st1 assume 1: "at env E {#} args h0 (M(k \<mapsto> (Str (patch (nat off) v t), x))) s st1"
    have 2: "at env E {#} args h0 (M(k \<mapsto> (Str (patch (nat off) v t), x))) s (touch 1 st1)" using 1 by simp
    show "ok (reply_long env (int (length (patch (nat off) v t))) (touch 1 st1))
       (finished env E h0 (M(k \<mapsto> (Str (patch (nat off) v t), x))) (s @ reply_int (int (length (patch (nat off) v t)))))"
      by (rule finished_long [OF 2 fits_length [OF l]])
  qed
qed

text \<open>A new empty string for a key.\<close>

lemma at_new_string:
  assumes a: "at env E H args h0 M s st" and k: "M k = None" and c: "createStringObject (oe env) t (objects st) = (h', b)"
    and t: "length t \<le> max_string"
  shows "ok (dbAdd k b (st\<lparr>objects := h'\<rparr>)) (\<lambda>st'. at env E H args h0 (M(k \<mapsto> (Str t, None))) s st' \<and> exclusive k b st')"
proof -
  note n = at_create [OF a c [unfolded create_string]]
  let ?st = "st\<lparr>objects := h', kdict := (kdict st)(k \<mapsto> b)\<rparr>"
  have d: "dbAdd k b (st\<lparr>objects := h'\<rparr>) = Some ?st" "at env E H args h0 (M(k \<mapsto> (Str t, None))) s ?st"
    using ok_dbAdd [OF n(1) k, of "Str t"] n(2) t by (auto simp: ok_def short_def)
  have kd: "kdict st k = None" using at_None [OF a, of k] k by simp
  have r: "refs (take_entry k ?st) = refs st" using kd by (simp add: refs_def fun_upd_idem)
  have nb: "b \<notin># E + H + refs (take_entry k ?st) + mset (reply (conn ?st))" using n(3) unfolding r by simp
  have cb: "content (objects ?st) b = Some (REDIS_STRING, Some (Raw t), sdssize (oe env) 0 (length t))" using n(4) by simp
  have "exclusive k b ?st" by (rule exclusive_new [OF d(2) _ nb cb]) simp
  then show ?thesis using d by simp
qed

lemma setrange_refines: "refines 4 setrangeCommand spec_setrange"
proof (rule refinesI)
  fix env E args h0 M s st r M'
  assume a: "at env E {#} args h0 M s st" and l: "4 \<le> length args" and sp: "spec_setrange env args M = Some (r, M')"
  let ?k = "args ! 1" and ?v = "args ! 3" let ?M = "visit env ?k M"
  show "ok (setrangeCommand env args st) (finished env E h0 M' (s @ r))"
  proof (cases "parse_long_long (args ! 2)")
    case None
    then show ?thesis using sp finished_error [OF a, of not_an_integer] by (simp add: setrangeCommand_def spec_setrange_def)
  next
    case p: (Some off)
    show ?thesis
    proof (cases "off < 0")
      case True
      then show ?thesis using p sp finished_error [OF a, of "ascii ''offset is out of range''"]
        by (simp add: setrangeCommand_def spec_setrange_def)
    next
      case pos: False
      let ?n = "off + int (length ?v)"
      define put where "put = (\<lambda>v x. if ?v = [] then Some (reply_int (int (length v)), ?M)
                  else if ?n \<ge> 2 ^ 63 then None
                  else if ?n > int max_string then Some (too_long, ?M)
                  else let v = patch (nat off) ?v v
                       in Some (reply_int (int (length v)), ?M(?k \<mapsto> (Str v, x))))"
      have spec: "(case ?M ?k of None \<Rightarrow> put [] None | Some (Other _, _) \<Rightarrow> Some (sh Sh_wrongtypeerr, ?M)
          | Some (Str v, x) \<Rightarrow> put v x) = Some (r, M')"
        using sp unfolding spec_setrange_def p option.case(2) if_not_P [OF pos] Let_def put_def .
      have s64: "s64 ?n = ?n" if "\<not> ?n \<ge> 2 ^ 63" using that pos by (intro s64_fits) (simp add: fits_def)
      text \<open>From an object that may be written to.\<close>
      have set: "ok (set_range env b off ?v st1) (finished env E h0 M' (s @ r))"
        if 1: "at env E {#} args h0 N s st1" "exclusive ?k b st1" "N ?k = Some (Str t, x)" and p: "put t x = Some (r, M')"
          and ne: "?v \<noteq> []" and c: "\<not> ?n \<ge> 2 ^ 63" "\<not> ?n > int max_string" and N: "\<And>e. N(?k \<mapsto> e) = ?M(?k \<mapsto> e)" for b st1 N t x
      proof -
        have e: "Some (reply_int (int (length (patch (nat off) ?v t))), ?M(?k \<mapsto> (Str (patch (nat off) ?v t), x))) = Some (r, M')"
          using p unfolding put_def if_not_P [OF ne] if_not_P [OF c(1)] if_not_P [OF c(2)] Let_def .
        then have r: "r = reply_int (int (length (patch (nat off) ?v t)))" "M' = ?M(?k \<mapsto> (Str (patch (nat off) ?v t), x))"
          by (simp_all only: option.inject prod.inject)
        have o: "0 \<le> off" "?n \<le> int max_string" using pos c(2) by simp_all
        show ?thesis unfolding r N [symmetric] by (rule ok_set_range [OF 1 o])
      qed
      have long: "ok (do { (st, ok) \<leftarrow> checkStringLength env ?n st1; (if \<not> ok then Some st else f st) }) (finished env E h0 M' (s @ r))"
        if 1: "at env E {#} args h0 ?M s st1" and p: "put t x = Some (r, M')" and ne: "?v \<noteq> []"
          and c: "\<not> ?n \<ge> 2 ^ 63" "?n > int max_string" for f st1 t x
      proof -
        have r: "r = too_long" "M' = ?M" using p unfolding put_def if_not_P [OF ne] if_not_P [OF c(1)] if_P [OF c(2)] by simp_all
        have g: "int max_string < s64 ?n" using c s64 by simp
        show ?thesis unfolding r by (rule ok_seq [OF checkLength_long [OF 1 g]]) auto
      qed
      have nover: "\<not> ?n \<ge> 2 ^ 63" if "put t x = Some (r, M')" "?v \<noteq> []" for t x
        using that by (auto simp: put_def split: if_split_asm)
      show ?thesis unfolding setrangeCommand_def p option.case(2) if_not_P [OF pos] Let_def
      proof (rule ok_seq [OF ok_lookupKeyWrite [OF a]], clarify)
        fix st1 assume 1: "at env E {#} args h0 ?M s st1"
        show "ok (case kdict st1 ?k of
               None \<Rightarrow>
                 if length ?v = 0 then reply_shared env Sh_czero st1
                 else do {
                   (st, ok) \<leftarrow> checkStringLength env ?n st1;
                   (if \<not> ok then Some st
                    else case createStringObject (oe env) [] (objects st) of (h, a) \<Rightarrow> do {
                      st \<leftarrow> dbAdd ?k a (st\<lparr>objects := h\<rparr>);
                      set_range env a off ?v st }) }
             | Some a \<Rightarrow> do {
                 (st, wrong) \<leftarrow> checkType env a REDIS_STRING st1;
                 (if wrong then Some st
                  else do {
                    olen \<leftarrow> object_length a st;
                    (if length ?v = 0 then reply_long env (int olen) st
                     else do {
                       (st, ok) \<leftarrow> checkStringLength env ?n st;
                       (if \<not> ok then Some st
                        else do {
                          (st, a) \<leftarrow> dbUnshareStringValue env ?k a st;
                          set_range env a off ?v st }) }) }) }) (finished env E h0 M' (s @ r))"
        proof (cases "kdict st1 ?k")
          case None
          then have n: "?M ?k = None" using at_None [OF 1] by blast
          then have pt: "put [] None = Some (r, M')" using spec by simp
          show ?thesis
          proof (cases "?v = []")
            case True
            then have "r = reply_int 0" "M' = ?M" using pt by (simp_all add: put_def)
            then show ?thesis using None True finished_zero [OF 1] by simp
          next
            case ne: False
            then have l0: "\<not> length ?v = 0" by simp
            note nov = nover [OF pt ne]
            show ?thesis
            proof (cases "?n > int max_string")
              case True
              show ?thesis unfolding None option.case(1) if_not_P [OF l0]
                by (rule long [OF 1 pt ne nov True])
            next
              case False
              have ck: "checkStringLength env ?n st1 = Some (st1, True)" using False s64 [OF nov] by (intro checkLength_ok) simp
              obtain h' b where c: "createStringObject (oe env) [] (objects st1) = (h', b)" by fastforce
              obtain st2 where 2: "dbAdd ?k b (st1\<lparr>objects := h'\<rparr>) = Some st2"
                  "at env E {#} args h0 (?M(?k \<mapsto> (Str [], None))) s st2" "exclusive ?k b st2"
                using at_new_string [OF 1 n c] by (auto simp: ok_def)
              have "ok (set_range env b off ?v st2) (finished env E h0 M' (s @ r))"
                by (rule set [OF 2(2,3) _ pt ne nov False]) simp_all
              then show ?thesis unfolding None option.case(1) if_not_P [OF l0] ck using c 2(1) by simp
            qed
          qed
        next
          case (Some b)
          obtain v x where v: "?M ?k = Some (v, x)" using at_Some [OF 1 Some] by auto
          show ?thesis
          proof (cases v)
            case (Other ty)
            have "r = sh Sh_wrongtypeerr" "M' = ?M" using spec v Other by simp_all
            then show ?thesis unfolding Some option.case(2)
              by (intro ok_seq [OF ok_checkType_Other [OF 1 Some v [unfolded Other]]]) (auto intro: finishedI)
          next
            case (Str t)
            note v = v [unfolded Str]
            note o = at_Str [OF 1 Some v]
            have pt: "put t x = Some (r, M')" using spec v by simp
            note ct = checkType_Str [OF 1 Some v] and ol = object_length_eq [OF o(5)]
            show ?thesis
            proof (cases "?v = []")
              case True
              then have "r = reply_int (int (length t))" "M' = ?M" using pt by (simp_all add: put_def)
              then show ?thesis using Some ct ol True finished_long [OF 1 fits_length [OF o(2)]] by simp
            next
              case ne: False
              then have l0: "\<not> length ?v = 0" by simp
              note nov = nover [OF pt ne]
              show ?thesis
              proof (cases "?n > int max_string")
                case True
                show ?thesis unfolding Some option.case(2) ct bind.bind_lunit prod.case if_False ol if_not_P [OF l0]
                  by (rule long [OF 1 pt ne nov True])
              next
                case False
                have ck: "checkStringLength env ?n st1 = Some (st1, True)" using False s64 [OF nov] by (intro checkLength_ok) simp
                have "ok (do { (st, a) \<leftarrow> dbUnshareStringValue env ?k b st1; set_range env a off ?v st }) (finished env E h0 M' (s @ r))"
                proof (rule ok_seq [OF ok_unshare [OF 1 Some v]], clarify)
                  fix st2 c assume 2: "at env E {#} args h0 ?M s st2" "exclusive ?k c st2"
                  show "ok (set_range env c off ?v st2) (finished env E h0 M' (s @ r))"
                    by (rule set [OF 2 v pt ne nov False]) simp
                qed
                then show ?thesis unfolding Some option.case(2) ct bind.bind_lunit prod.case if_False ol if_not_P [OF l0] ck by simp
              qed
            qed
          qed
        qed
      qed
    qed
  qed
qed

section \<open>Several keys\<close>

lemma fold_visit: "fold (visit env) ks M k = (if k \<in> set ks then visit env k M k else M k)"
proof (induction ks arbitrary: M)
  case (Cons l ks)
  show ?case using Cons.IH [of "visit env l M"] visit_other [of k l env M] visit_same [of "visit env l M" k M env]
    by (cases "k = l") auto
qed simp

lemma ok_busy_keys:
  "at env E H args h0 M s st \<Longrightarrow>
   ok (busy_keys env kvs n st) (\<lambda>(st', m). at env E H args h0 (fold (visit env) (map fst (pairs kvs)) M) s st' \<and> n \<le> m \<and>
     (m = n \<longleftrightarrow> (\<forall>(k, v) \<in> set (pairs kvs). visit env k M k = None)))"
proof (induction kvs arbitrary: M n st rule: pairs.induct)
  case (1 k v rest)
  let ?M = "visit env k M"
  show ?case unfolding busy_keys.simps
  proof (rule ok_seq [OF ok_lookupKeyWrite [OF 1(2)]], clarify)
    fix st1 assume a: "at env E H args h0 ?M s st1"
    let ?n = "if kdict st1 k \<noteq> None then n + 1 else n"
    have same: "visit env l ?M l = visit env l M l" for l
      using visit_other [of l k env M] visit_same [of ?M l M env] by (cases "l = k") simp_all
    have c: "?n = n \<longleftrightarrow> ?M k = None" "n \<le> ?n" using at_None [OF a, of k] by auto
    show "ok (busy_keys env rest ?n st1) (\<lambda>(st', m).
        at env E H args h0 (fold (visit env) (map fst (pairs (k # v # rest))) M) s st' \<and> n \<le> m \<and>
        (m = n \<longleftrightarrow> (\<forall>(k, v) \<in> set (pairs (k # v # rest)). visit env k M k = None)))"
      by (rule ok_mono [OF 1(1) [OF a]]) (use c in \<open>auto simp: same\<close>)
  qed
qed simp_all

lemma ok_set_keys:
  "at env E H args h0 M s st \<Longrightarrow> drop j args = kvs \<Longrightarrow>
   ok (set_keys env j kvs st) (\<lambda>st'. at env E H args h0 (fold (\<lambda>(k, v) M. M(k \<mapsto> (Str v, None))) (pairs kvs) M) s st')"
proof (induction kvs arbitrary: M j st rule: pairs.induct)
  case (1 k v rest)
  have j: "j + 1 < length args" "args ! (j + 1) = v" "drop (j + 2) args = rest"
  proof -
    have l: "length (drop j args) = Suc (Suc (length rest))" using 1(3) by simp
    then show "j + 1 < length args" by simp
    then show "args ! (j + 1) = v" using 1(3) nth_drop [of j args 1] by simp
    have "drop 2 (drop j args) = rest" using 1(3) by simp
    then show "drop (j + 2) args = rest" by (simp add: add.commute)
  qed
  show ?case unfolding set_keys.simps
  proof (rule ok_seq [OF ok_encode_arg [OF 1(2) j(1)]], clarify)
    fix st1 assume 2: "at env E H args h0 M s st1"
    show "ok (do { st \<leftarrow> setKey env k (cargs st1 ! (j + 1)) st1; set_keys env (j + 2) rest st })
       (\<lambda>st'. at env E H args h0 (fold (\<lambda>(k, v) M. M(k \<mapsto> (Str v, None))) (pairs (k # v # rest)) M) s st')"
    proof (rule ok_seq [OF ok_setKey [OF 2 j(1)]], clarify)
      fix st2 assume 3: "at env E H args h0 (M(k \<mapsto> (Str (args ! (j + 1)), None))) s st2"
      show "ok (set_keys env (j + 2) rest st2)
         (\<lambda>st'. at env E H args h0 (fold (\<lambda>(k, v) M. M(k \<mapsto> (Str v, None))) (pairs (k # v # rest)) M) s st')"
        using 1(1) [OF 3 j(3)] unfolding j(2) pairs.simps fold.simps comp_apply prod.case .
    qed
  qed
qed simp_all

lemma mset_refines: "refines 3 (\<lambda>env. msetGenericCommand env nx) (\<lambda>env. spec_mset env nx)"
proof (rule refinesI)
  fix env E args h0 M s st r M'
  assume a: "at env E {#} args h0 M s st" and l: "3 \<le> length args" and sp: "spec_mset env nx args M = Some (r, M')"
  show "ok (msetGenericCommand env nx args st) (finished env E h0 M' (s @ r))"
  proof (cases "even (length args)")
    case True
    then show ?thesis using sp finished_error [OF a, of "ascii ''wrong number of arguments for MSET''"]
      by (simp add: msetGenericCommand_def spec_mset_def)
  next
    case odd: False
    let ?kvs = "pairs (tl args)"
    let ?M = "if nx then fold (visit env) (map fst ?kvs) M else M"
    let ?busy = "nx \<and> (\<exists>(k, v) \<in> set ?kvs. ?M k \<noteq> None)"
    have spec: "(if ?busy then Some (reply_int 0, ?M)
        else Some (if nx then reply_int 1 else sh Sh_ok, fold (\<lambda>(k, v) M. M(k \<mapsto> (Str v, None))) ?kvs ?M)) = Some (r, M')"
      using sp unfolding spec_mset_def if_not_P [OF odd] Let_def .
    have "ok (if nx then busy_keys env (tl args) 0 st else Some (st, 0))
       (\<lambda>(st', m). at env E {#} args h0 ?M s st' \<and> (m = 0 \<longleftrightarrow> \<not> ?busy))"
    proof (cases nx)
      case True
      have f: "fold (visit env) (map fst ?kvs) M k = visit env k M k" if "(k, v) \<in> set ?kvs" for k v
      proof -
        have "k \<in> set (map fst ?kvs)" using that by force
        then show ?thesis by (simp only: fold_visit if_True)
      qed
      have "(\<exists>(k, v) \<in> set ?kvs. ?M k \<noteq> None) \<longleftrightarrow> (\<exists>(k, v) \<in> set ?kvs. visit env k M k \<noteq> None)"
        unfolding if_P [OF True] by (rule bex_cong [OF refl]) (auto simp: f)
      then have b: "?busy \<longleftrightarrow> (\<exists>(k, v) \<in> set ?kvs. visit env k M k \<noteq> None)" using True by blast
      have "(\<forall>(k, v) \<in> set ?kvs. visit env k M k = None) \<longleftrightarrow> \<not> ?busy" unfolding b by auto
      then show ?thesis unfolding if_P [OF True] by (intro ok_mono [OF ok_busy_keys [OF a, of "tl args" 0]]) (auto simp: if_P [OF True])
    qed (use a in simp)
    then show ?thesis unfolding msetGenericCommand_def if_not_P [OF odd]
    proof (rule ok_seq, clarify)
      fix st1 m assume 1: "at env E {#} args h0 ?M s st1" and m: "m = 0 \<longleftrightarrow> \<not> ?busy"
      show "ok (if m \<noteq> 0 then reply_shared env Sh_czero st1
         else do {
           st \<leftarrow> set_keys env 1 (tl args) st1;
           reply_shared env (if nx then Sh_cone else Sh_ok) (touch (int ((length args - 1) div 2)) st) })
         (finished env E h0 M' (s @ r))"
      proof (cases ?busy)
        case True
        then have n: "m \<noteq> 0" using m by blast
        have r: "r = reply_int 0" "M' = ?M" using spec unfolding if_P [OF True] by (simp_all only: option.inject prod.inject)
        show ?thesis unfolding if_P [OF n] r by (rule finished_zero [OF 1])
      next
        case False
        then have n: "\<not> m \<noteq> 0" using m by blast
        have r: "r = (if nx then reply_int 1 else sh Sh_ok)" "M' = fold (\<lambda>(k, v) M. M(k \<mapsto> (Str v, None))) ?kvs ?M"
          using spec unfolding if_not_P [OF False] by (simp_all only: option.inject prod.inject)
        show ?thesis unfolding if_not_P [OF n]
        proof (rule ok_seq [OF ok_set_keys [OF 1]])
          show "drop 1 args = tl args" by (simp add: drop_Suc)
          fix st2 assume 2: "at env E {#} args h0 (fold (\<lambda>(k, v) M. M(k \<mapsto> (Str v, None))) ?kvs ?M) s st2"
          have 3: "at env E {#} args h0 M' s (touch (int ((length args - 1) div 2)) st2)" using 2 r(2) by simp
          show "ok (reply_shared env (if nx then Sh_cone else Sh_ok) (touch (int ((length args - 1) div 2)) st2)) (finished env E h0 M' (s @ r))"
            using finished_shared [OF 3, of "if nx then Sh_cone else Sh_ok"] r(1) by (cases nx) (simp_all add: sh_int)
        qed
      qed
    qed
  qed
qed

section \<open>Numbers\<close>

lemma incr_test:
  assumes "fits 8 v" "fits 8 i"
  shows "i < 0 \<and> v < 0 \<and> i < int_min 8 - v \<or> i > 0 \<and> v > 0 \<and> i > int_max 8 - v \<longleftrightarrow> \<not> fits 8 (v + i)"
  using assms by (auto simp: fits_def)

lemma decimal_within: "fits 8 v \<Longrightarrow> length (decimal v) \<le> max_string"
  using length_decimal_le [of v] by simp

text \<open>Storing the new number, and the reply, which reads it from the object.\<close>

lemma ok_store_number:
  assumes a: "at env E {#} args h0 M s st" and v: "fits 8 v"
    and k: "case M k of None \<Rightarrow> x = None | Some (u, y) \<Rightarrow> x = y"
  shows "ok (do {
      (h, new) \<leftarrow> createStringObjectFromLongLong (oe env) v (objects st);
      let st = st\<lparr>objects := h\<rparr>;
      st \<leftarrow> (if kdict st k \<noteq> None then dbOverwrite k new st else dbAdd k new st);
      let st = touch 1 st;
      st \<leftarrow> reply_shared env Sh_colon st;
      st \<leftarrow> on_client (addReply (oe env) True new) st;
      reply_shared env Sh_crlf st }) (finished env E h0 (M(k \<mapsto> (Str (decimal v), x))) (s @ reply_int v))"
proof (rule ok_seq [OF at_longlong [OF a v]], clarify)
  fix h' b assume 1: "at env E {#b#} args h0 M s (st\<lparr>objects := h'\<rparr>)" and av: "aval h' b = Some (Str (decimal v))"
  let ?st = "st\<lparr>objects := h'\<rparr>" and ?M = "M(k \<mapsto> (Str (decimal v), x))"
  have sv: "short (Str (decimal v))" using decimal_within [OF v] by (simp add: short_def)
  have av: "aval (objects ?st) b = Some (Str (decimal v))" using av by simp
  have "ok (if kdict ?st k \<noteq> None then dbOverwrite k b ?st else dbAdd k b ?st)
     (\<lambda>st'. at env E {#} args h0 ?M s st' \<and> kdict st' k = Some b)"
  proof (cases "kdict ?st k \<noteq> None")
    case True
    then obtain u y where e: "M k = Some (u, y)" using at_None [OF 1, of k] by (cases "M k") auto
    then show ?thesis unfolding if_P [OF True] using k by (intro ok_mono [OF ok_dbOverwrite [OF 1 e av sv]]) simp
  next
    case False
    then have e: "M k = None" using at_None [OF 1, of k] by blast
    then show ?thesis unfolding if_not_P [OF False] using k by (intro ok_mono [OF ok_dbAdd [OF 1 e av sv]]) auto
  qed
  then show "ok (let st = ?st in do {
      st \<leftarrow> (if kdict st k \<noteq> None then dbOverwrite k b st else dbAdd k b st);
      let st = touch 1 st;
      st \<leftarrow> reply_shared env Sh_colon st;
      st \<leftarrow> on_client (addReply (oe env) True b) st;
      reply_shared env Sh_crlf st }) (finished env E h0 ?M (s @ reply_int v))"
    unfolding Let_def
  proof (rule ok_seq, clarify)
    fix st2 assume 2: "at env E {#} args h0 ?M s st2" and kb: "kdict st2 k = Some b"
    have 3: "at env E {#} args h0 ?M s (touch 1 st2)" using 2 by simp
    show "ok (do {
        st \<leftarrow> reply_shared env Sh_colon (touch 1 st2);
        st \<leftarrow> on_client (addReply (oe env) True b) st;
        reply_shared env Sh_crlf st }) (finished env E h0 ?M (s @ reply_int v))"
    proof (rule ok_seq [OF ok_shared [OF 3, of Sh_colon]], simp, clarify)
      fix st3 assume 4: "at env E {#} args h0 ?M (s @ sh Sh_colon) st3" "same (touch 1 st2) st3"
      have kb3: "kdict st3 k = Some b" using kb 4(2) by (simp add: same_def)
      have m: "b \<in># E + {#} + refs st3" and av: "aval (objects st3) b = Some (Str (decimal v))"
        using at_Some [OF 4(1) kb3] by auto
      show "ok (do { st \<leftarrow> on_client (addReply (oe env) True b) st3; reply_shared env Sh_crlf st })
         (finished env E h0 ?M (s @ reply_int v))"
      proof (rule ok_seq [OF ok_object [OF 4(1) m av]], clarify)
        fix st4 assume 5: "at env E {#} args h0 ?M ((s @ sh Sh_colon) @ decimal v) st4"
        have "(s @ sh Sh_colon) @ decimal v @ sh Sh_crlf = s @ reply_int v" by (simp add: reply_int_def ascii_def)
        then show "ok (reply_shared env Sh_crlf st4) (finished env E h0 ?M (s @ reply_int v))"
          using finished_shared [OF 5, of Sh_crlf] by simp
      qed
    qed
  qed
qed

lemma incr_refines_at:
  assumes a: "at env E {#} args h0 M s st" and i: "fits 8 i" and sp: "spec_incr env i args M = Some (r, M')"
  shows "ok (incrDecrCommand env i args st) (finished env E h0 M' (s @ r))"
proof -
  let ?k = "args ! 1" let ?M = "visit env ?k M"
  define add where "add = (\<lambda>v x. case v of
              None \<Rightarrow> Some (reply_error not_an_integer, ?M)
            | Some n \<Rightarrow>
                if \<not> fits 8 (n + i) then Some (reply_error (ascii ''increment or decrement would overflow''), ?M)
                else Some (reply_int (n + i), ?M(?k \<mapsto> (Str (decimal (n + i)), x))))"
  have spec: "(case ?M ?k of None \<Rightarrow> add (Some 0) None | Some (Other _, _) \<Rightarrow> Some (sh Sh_wrongtypeerr, ?M)
      | Some (Str v, x) \<Rightarrow> add (parse_long_long v) x) = Some (r, M')"
    using sp unfolding spec_incr_def Let_def add_def .
  show ?thesis unfolding incrDecrCommand_def
  proof (rule ok_seq [OF ok_lookupKeyWrite [OF a]], clarify)
    fix st1 assume 1: "at env E {#} args h0 ?M s st1"
    let ?rest = "\<lambda>st. do {
        v \<leftarrow> getLongLongFromObject st (kdict st1 ?k);
        (case v of
           None \<Rightarrow> reply_error_string env not_an_integer st
         | Some value \<Rightarrow>
             if i < 0 \<and> value < 0 \<and> i < int_min 8 - value \<or> i > 0 \<and> value > 0 \<and> i > int_max 8 - value
             then reply_error_string env (ascii ''increment or decrement would overflow'') st
             else do {
               (h, new) \<leftarrow> createStringObjectFromLongLong (oe env) (value + i) (objects st);
               let st = st\<lparr>objects := h\<rparr>;
               st \<leftarrow> (if kdict st1 ?k \<noteq> None then dbOverwrite ?k new st else dbAdd ?k new st);
               let st = touch 1 st;
               st \<leftarrow> reply_shared env Sh_colon st;
               st \<leftarrow> on_client (addReply (oe env) True new) st;
               reply_shared env Sh_crlf st }) }"
    have rest: "ok (?rest st1) (finished env E h0 M' (s @ r))"
      if g: "getLongLongFromObject st1 (kdict st1 ?k) = Some v" and ad: "add v x = Some (r, M')" and f: "\<And>n. v = Some n \<Longrightarrow> fits 8 n"
        and x: "case ?M ?k of None \<Rightarrow> x = None | Some (u, y) \<Rightarrow> x = y" for v x
    proof (cases v)
      case None
      then show ?thesis using g ad finished_error [OF 1, of not_an_integer] by (simp add: add_def)
    next
      case (Some n)
      note t = incr_test [OF f [OF Some] i]
      show ?thesis
      proof (cases "fits 8 (n + i)")
        case False
        then have e: "r = reply_error (ascii ''increment or decrement would overflow'')" "M' = ?M"
          using ad Some by (simp_all add: add_def)
        show ?thesis unfolding g bind.bind_lunit Some option.case(2) t if_P [OF False] e by (rule finished_error [OF 1])
      next
        case True
        then have n: "\<not> \<not> fits 8 (n + i)" by simp
        have e: "r = reply_int (n + i)" "M' = ?M(?k \<mapsto> (Str (decimal (n + i)), x))"
          using ad True unfolding add_def Some option.case(2) if_not_P [OF n] by (simp_all only: option.inject prod.inject)
        show ?thesis unfolding g bind.bind_lunit Some option.case(2) t if_not_P [OF n] e
          using ok_store_number [OF 1 True x] by simp
      qed
    qed
    show "ok (do {
       (st, wrong) \<leftarrow> (case kdict st1 ?k of None \<Rightarrow> Some (st1, False) | Some a \<Rightarrow> checkType env a REDIS_STRING st1);
       (if wrong then Some st else ?rest st) }) (finished env E h0 M' (s @ r))"
    proof (cases "kdict st1 ?k")
      case None
      then have n: "?M ?k = None" using at_None [OF 1] by blast
      have "getLongLongFromObject st1 (kdict st1 ?k) = Some (Some 0)" using None by (simp add: getLongLongFromObject_def)
      moreover have "add (Some 0) None = Some (r, M')" using spec n by simp
      ultimately have "ok (?rest st1) (finished env E h0 M' (s @ r))" by (rule rest) (use n in \<open>simp_all add: fits_def\<close>)
      then show ?thesis unfolding None option.case(1) bind.bind_lunit prod.case if_False .
    next
      case (Some b)
      obtain v x where v: "?M ?k = Some (v, x)" using at_Some [OF 1 Some] by auto
      show ?thesis
      proof (cases v)
        case (Str t)
        note v = v [unfolded Str]
        have "getLongLongFromObject st1 (kdict st1 ?k) = Some (parse_long_long t)"
          unfolding Some by (rule getLongLong_eq [OF at_Str(5) [OF 1 Some v]])
        moreover have "add (parse_long_long t) x = Some (r, M')" using spec v by simp
        ultimately have "ok (?rest st1) (finished env E h0 M' (s @ r))" by (rule rest) (use v in \<open>simp_all add: fits_parse\<close>)
        then show ?thesis
          unfolding Some option.case(2) checkType_Str [OF 1 Some v] bind.bind_lunit prod.case if_False .
      next
        case (Other ty)
        have "r = sh Sh_wrongtypeerr" "M' = ?M" using spec v Other by simp_all
        then show ?thesis unfolding Some option.case(2)
          by (intro ok_seq [OF ok_checkType_Other [OF 1 Some v [unfolded Other]]]) (auto intro: finishedI)
      qed
    qed
  qed
qed

lemma incr_refines: "fits 8 i \<Longrightarrow> refines 2 (\<lambda>env. incrDecrCommand env i) (\<lambda>env. spec_incr env i)"
  by (rule refinesI) (rule incr_refines_at)

lemma incrby_refines: "refines 3 (\<lambda>env. incrbyCommand env decr) (\<lambda>env. spec_incrby env decr)"
proof (rule refinesI)
  fix env E args h0 M s st r M'
  assume a: "at env E {#} args h0 M s st" and sp: "spec_incrby env decr args M = Some (r, M')"
  show "ok (incrbyCommand env decr args st) (finished env E h0 M' (s @ r))"
  proof (cases "parse_long_long (args ! 2)")
    case None
    then show ?thesis using sp finished_error [OF a, of not_an_integer] by (simp add: incrbyCommand_def spec_incrby_def)
  next
    case (Some n)
    have c: "\<not> (decr \<and> n = int_min 8)" using sp Some by (auto simp: spec_incrby_def)
    have f: "fits 8 (if decr then - n else n)" using fits_parse [OF Some] c by (auto simp: fits_def)
    have "spec_incr env (if decr then - n else n) args M = Some (r, M')"
      using sp unfolding spec_incrby_def Some option.case(2) if_not_P [OF c] .
    then show ?thesis unfolding incrbyCommand_def Some option.case(2) if_not_P [OF c] by (rule incr_refines_at [OF a f])
  qed
qed

section \<open>Appending\<close>

lemma append_refines: "refines 3 appendCommand spec_append"
proof (rule refinesI)
  fix env E args h0 M s st r M'
  assume a: "at env E {#} args h0 M s st" and l: "3 \<le> length args" and sp: "spec_append env args M = Some (r, M')"
  let ?k = "args ! 1" and ?v = "args ! 2" let ?M = "visit env ?k M"
  define put where "put = (\<lambda>v x. if length v > max_string then Some (too_long, ?M)
            else Some (reply_int (int (length v)), ?M(?k \<mapsto> (Str v, x))))"
  have spec: "(case ?M ?k of None \<Rightarrow> put ?v None | Some (Other _, _) \<Rightarrow> Some (sh Sh_wrongtypeerr, ?M)
      | Some (Str v, x) \<Rightarrow> put (v @ ?v) x) = Some (r, M')"
    using sp unfolding spec_append_def Let_def put_def .
  have j: "2 < length args" using l by simp
  have lv: "length ?v \<le> max_string" using at_arg(3) [OF a j] by (simp add: short_def)
  show "ok (appendCommand env args st) (finished env E h0 M' (s @ r))"
    unfolding appendCommand_def
  proof (rule ok_seq [OF ok_lookupKeyWrite [OF a]], clarify)
    fix st1 assume 1: "at env E {#} args h0 ?M s st1"
    show "ok (case kdict st1 ?k of
        None \<Rightarrow> do {
          st \<leftarrow> encode_arg env 2 st1;
          st \<leftarrow> dbAdd ?k (cargs st ! 2) st;
          st \<leftarrow> hold_ref (cargs st ! 2) st;
          totlen \<leftarrow> object_length (cargs st ! 2) st;
          reply_long env (int totlen) (touch 1 st) }
      | Some a \<Rightarrow> do {
          (st, wrong) \<leftarrow> checkType env a REDIS_STRING st1;
          (if wrong then Some st
           else do {
             olen \<leftarrow> object_length a st;
             (st, ok) \<leftarrow> checkStringLength env (int (olen + length ?v)) st;
             (if \<not> ok then Some st
              else do {
                (st, a) \<leftarrow> dbUnshareStringValue env ?k a st;
                (st, s) \<leftarrow> update_string env a (\<lambda>s. s @ ?v) st;
                reply_long env (int (length s)) (touch 1 st) }) }) }) (finished env E h0 M' (s @ r))"
    proof (cases "kdict st1 ?k")
      case None
      then have n: "?M ?k = None" using at_None [OF 1] by blast
      have r: "r = reply_int (int (length ?v))" "M' = ?M(?k \<mapsto> (Str ?v, None))" using spec n lv by (simp_all add: put_def)
      show ?thesis unfolding None option.case(1)
      proof (rule ok_encode_then [OF 1 j])
        fix st2 assume 2: "at env E {#} args h0 ?M s st2"
        let ?a = "cargs st2 ! 2"
        have kn: "kdict st2 ?k = None" using at_None [OF 2, of ?k] n by simp
        have m: "?a \<in># all_refs E {#} st2" using at_arg(2) [OF 2 j] by simp
        obtain st3 where 3: "hold_ref ?a st2 = Some st3" "at env E {#?a#} args h0 ?M s st3" "same st2 st3"
          using ok_hold [OF 2 m] by (auto simp: ok_def)
        have c3: "cargs st3 = cargs st2" using 3(3) by (simp add: same_def)
        have av: "aval (objects st3) ?a = Some (Str ?v)" "short (Str ?v)" using at_arg(1,3) [OF 3(2) j] c3 by simp_all
        obtain st4 where 4: "dbAdd ?k ?a st3 = Some st4" "at env E {#} args h0 M' s st4" "cargs st4 = cargs st2"
          using ok_dbAdd [OF 3(2) n av] r(2) c3 by (auto simp: ok_def)
        have ord: "Option.bind (dbAdd ?k ?a st2) (hold_ref ?a) = Some st4"
          using setKey_order [OF 2 j, of ?k] 3(1) 4(1) unfolding if_P [OF kn] if_P [OF n] by simp
        obtain st2' where a2: "dbAdd ?k ?a st2 = Some st2'" "cargs st2' = cargs st2" using kn by (simp add: dbAdd_def)
        then have h: "hold_ref ?a st2' = Some st4" using ord by simp
        have ol: "object_length ?a st4 = Some (length ?v)" using object_length_eq at_arg(1) [OF 4(2) j] 4(3) by simp
        have 5: "at env E {#} args h0 M' s (touch 1 st4)" using 4(2) by simp
        show "ok (do {
            st \<leftarrow> dbAdd ?k (cargs st2 ! 2) st2;
            st \<leftarrow> hold_ref (cargs st ! 2) st;
            totlen \<leftarrow> object_length (cargs st ! 2) st;
            reply_long env (int totlen) (touch 1 st) }) (finished env E h0 M' (s @ r))"
          using a2 h ol 4(3) finished_long [OF 5 fits_length [OF lv]] r(1) by simp
      qed
    next
      case (Some b)
      obtain v x where v: "?M ?k = Some (v, x)" using at_Some [OF 1 Some] by auto
      show ?thesis
      proof (cases v)
        case (Other ty)
        have "r = sh Sh_wrongtypeerr" "M' = ?M" using spec v Other by simp_all
        then show ?thesis unfolding Some option.case(2)
          by (intro ok_seq [OF ok_checkType_Other [OF 1 Some v [unfolded Other]]]) (auto intro: finishedI)
      next
        case (Str t)
        note v = v [unfolded Str]
        note o = at_Str [OF 1 Some v]
        note ct = checkType_Str [OF 1 Some v] and ol = object_length_eq [OF o(5)]
        have pt: "put (t @ ?v) x = Some (r, M')" using spec v by simp
        have s64: "s64 (int (length t + length ?v)) = int (length t + length ?v)"
          using o(2) lv by (intro s64_fits) (simp add: fits_def)
        show ?thesis
        proof (cases "length (t @ ?v) > max_string")
          case True
          then have r: "r = too_long" "M' = ?M" using pt by (simp_all add: put_def)
          have g: "int max_string < s64 (int (length t + length ?v))" unfolding s64 using True by simp
          show ?thesis unfolding Some option.case(2) ct bind.bind_lunit prod.case if_False ol r
            by (rule ok_seq [OF checkLength_long [OF 1 g]]) auto
        next
          case False
          have r: "r = reply_int (int (length (t @ ?v)))" "M' = ?M(?k \<mapsto> (Str (t @ ?v), x))"
            using pt False unfolding put_def if_not_P [OF False] by (simp_all only: option.inject prod.inject)
          have lt: "length (t @ ?v) \<le> max_string" using False by simp
          have ck: "checkStringLength env (int (length t + length ?v)) st1 = Some (st1, True)"
            using lt s64 by (intro checkLength_ok) simp
          have "ok (do {
              (st, a) \<leftarrow> dbUnshareStringValue env ?k b st1;
              (st, s) \<leftarrow> update_string env a (\<lambda>s. s @ ?v) st;
              reply_long env (int (length s)) (touch 1 st) }) (finished env E h0 M' (s @ r))"
          proof (rule ok_seq [OF ok_unshare [OF 1 Some v]], clarify)
            fix st2 c assume 2: "at env E {#} args h0 ?M s st2" "exclusive ?k c st2"
            show "ok (do { (st, s) \<leftarrow> update_string env c (\<lambda>s. s @ ?v) st2; reply_long env (int (length s)) (touch 1 st) })
               (finished env E h0 M' (s @ r))"
            proof (rule ok_seq [OF ok_update_string [OF 2 v, of "\<lambda>s. s @ ?v", OF lt]], clarify)
              fix st3 assume 3: "at env E {#} args h0 (?M(?k \<mapsto> (Str (t @ ?v), x))) s st3"
              have 4: "at env E {#} args h0 M' s (touch 1 st3)" using 3 r(2) by simp
              show "ok (reply_long env (int (length (t @ ?v))) (touch 1 st3)) (finished env E h0 M' (s @ r))"
                using finished_long [OF 4 fits_length [OF lt]] r(1) by simp
            qed
          qed
          then show ?thesis unfolding Some option.case(2) ct bind.bind_lunit prod.case if_False ol ck by simp
        qed
      qed
    qed
  qed
qed

end
