(* ===== verification/Server.thy ===== *)
theory Server
  imports Store_Write
begin

text \<open>
  The server of one client: requests and calls of the write handler in any order, against the
  abstract store.
\<close>

section \<open>What a request promises\<close>

definition spec_echo :: "senv \<Rightarrow> byte list list \<Rightarrow> store \<Rightarrow> reaction" where
  "spec_echo env args M = Some (reply_bulk (args ! 1), M)"

definition error_line :: "byte list \<Rightarrow> byte list" where
  "error_line e = reply_error (map (\<lambda>b. if b = 13 \<or> b = 10 then 32 else b) e)"

definition spec_ping :: "guards \<Rightarrow> senv \<Rightarrow> byte list list \<Rightarrow> store \<Rightarrow> reaction" where
  "spec_ping g env args M =
     Some (if length args > 2 then error_line (wrong_number (ascii ''ping''))
           else if subscriber g
           then reply_header 42 2 @ reply_bulk (ascii ''pong'') @ reply_bulk (if length args = 1 then [] else args ! 1)
           else if length args = 1 then sh Sh_pong else reply_bulk (args ! 1), M)"

definition spec_table :: "(byte list \<times> (guards \<Rightarrow> senv \<Rightarrow> byte list list \<Rightarrow> store \<Rightarrow> reaction)) list" where
  "spec_table =
    [(ascii ''get'', \<lambda>g. spec_get), (ascii ''set'', \<lambda>g. spec_SET), (ascii ''setnx'', \<lambda>g. spec_setnx),
     (ascii ''setex'', \<lambda>g env. spec_setex env True), (ascii ''psetex'', \<lambda>g env. spec_setex env False),
     (ascii ''append'', \<lambda>g. spec_append), (ascii ''strlen'', \<lambda>g. spec_strlen), (ascii ''del'', \<lambda>g. spec_del),
     (ascii ''exists'', \<lambda>g. spec_exists), (ascii ''setrange'', \<lambda>g. spec_setrange),
     (ascii ''getrange'', \<lambda>g. spec_getrange), (ascii ''substr'', \<lambda>g. spec_getrange),
     (ascii ''incr'', \<lambda>g env. spec_incr env 1), (ascii ''decr'', \<lambda>g env. spec_incr env (-1)),
     (ascii ''mget'', \<lambda>g. spec_mget), (ascii ''incrby'', \<lambda>g env. spec_incrby env False),
     (ascii ''decrby'', \<lambda>g env. spec_incrby env True), (ascii ''getset'', \<lambda>g. spec_getset),
     (ascii ''mset'', \<lambda>g env. spec_mset env False), (ascii ''msetnx'', \<lambda>g env. spec_mset env True),
     (ascii ''rename'', \<lambda>g env. spec_rename env False), (ascii ''renamenx'', \<lambda>g env. spec_rename env True),
     (ascii ''expire'', \<lambda>g env. spec_expire env (mstime env) True), (ascii ''expireat'', \<lambda>g env. spec_expire env 0 True),
     (ascii ''pexpire'', \<lambda>g env. spec_expire env (mstime env) False), (ascii ''pexpireat'', \<lambda>g env. spec_expire env 0 False),
     (ascii ''dbsize'', \<lambda>g. spec_dbsize), (ascii ''ping'', spec_ping), (ascii ''echo'', \<lambda>g. spec_echo),
     (ascii ''type'', \<lambda>g. spec_type), (ascii ''ttl'', \<lambda>g env. spec_ttl env False),
     (ascii ''pttl'', \<lambda>g env. spec_ttl env True), (ascii ''persist'', \<lambda>g. spec_persist)]"

definition spec_of :: "byte list \<Rightarrow> (guards \<Rightarrow> senv \<Rightarrow> byte list list \<Rightarrow> store \<Rightarrow> reaction) option" where
  "spec_of name = map_option snd (find (\<lambda>(n, _). dictSdsKeyCaseCompare n name) spec_table)"

lemma reply_header_shared: "n < 32 \<Longrightarrow> sh (Sh_mbulkhdr n) = reply_header 42 (int n)"
  by (simp add: reply_header_def)

lemma echo_refines: "refines 2 echoCommand spec_echo"
proof (rule refinesI)
  fix env E args h0 M s st r M'
  assume a: "at env E {#} args h0 M s st" and l: "2 \<le> length args" and sp: "spec_echo env args M = Some (r, M')"
  have j: "1 < length args" using l by simp
  note v = at_arg [OF a j]
  have m: "cargs st ! 1 \<in># E + {#} + refs st" using v(2) by simp
  have s: "length (args ! 1) \<le> max_string" using v(3) by (simp add: short_def)
  show "ok (echoCommand env args st) (finished env E h0 M' (s @ r))"
    unfolding echoCommand_def
    by (rule ok_mono [OF ok_bulk_object [OF a m v(1) s]]) (use sp in \<open>auto simp: spec_echo_def intro: finishedI\<close>)
qed

lemma finished_error_format:
  assumes "at env E {#} args h0 M s st"
  shows "ok (reply_error_format env e st) (finished env E h0 M (s @ error_line e))"
  unfolding reply_error_format_def error_line_def by (rule finished_error [OF assms])

lemma ok_reply_buffer:
  assumes "at env E H args h0 M s st" "length t \<le> max_string"
  shows "ok (reply_buffer env t st) (\<lambda>st'. at env E H args h0 M (s @ reply_bulk t) st' \<and> same st st')"
  unfolding reply_buffer_def by (rule ok_buffer [OF assms(1) fits_length [OF assms(2)]])

lemma ping_refines: "refines 1 (pingCommand g) (spec_ping g)"
proof (rule refinesI)
  fix env E args h0 M s st r M'
  assume a: "at env E {#} args h0 M s st" and l: "1 \<le> length args" and sp: "spec_ping g env args M = Some (r, M')"
  have M: "M' = M" using sp by (simp add: spec_ping_def)
  text \<open>The argument, if there is one.\<close>
  have arg: "ok (if length args = 1 then f else reply_bulk_object env (cargs st1 ! 1) st1) (finished env E h0 M t)"
    if 1: "at env E {#} args h0 M u st1" and f: "length args = 1 \<Longrightarrow> ok f (finished env E h0 M t)"
      and t: "length args \<noteq> 1 \<Longrightarrow> t = u @ reply_bulk (args ! 1)" for f u t st1
  proof (cases "length args = 1")
    case True
    then show ?thesis using f by simp
  next
    case False
    then have "2 \<le> length args" using l by simp
    then have "ok (echoCommand env args st1) (finished env E h0 M (u @ reply_bulk (args ! 1)))"
      using echo_refines 1 unfolding refines_def spec_echo_def by blast
    then show ?thesis using False t by (simp add: echoCommand_def)
  qed
  show "ok (pingCommand g env args st) (finished env E h0 M' (s @ r))"
  proof (cases "length args > 2")
    case True
    then have r: "r = error_line (wrong_number (ascii ''ping''))" using sp by (simp add: spec_ping_def)
    show ?thesis unfolding pingCommand_def if_P [OF True] M r by (rule finished_error_format [OF a])
  next
    case n: False
    show ?thesis
    proof (cases "subscriber g")
      case False
      have r: "r = (if length args = 1 then sh Sh_pong else reply_bulk (args ! 1))"
        using sp unfolding spec_ping_def if_not_P [OF n] if_not_P [OF False] by (simp only: option.inject prod.inject)
      have "ok (if length args = 1 then reply_shared env Sh_pong st else reply_bulk_object env (cargs st ! 1) st) (finished env E h0 M (s @ r))"
        by (rule arg [OF a]) (use r finished_shared [OF a, of Sh_pong] in simp_all)
      then show ?thesis unfolding pingCommand_def if_not_P [OF n] if_not_P [OF False] M by simp
    next
      case True
      let ?h = "reply_header 42 2" and ?p = "reply_bulk (ascii ''pong'')"
      have r: "r = ?h @ ?p @ reply_bulk (if length args = 1 then [] else args ! 1)"
        using sp unfolding spec_ping_def if_not_P [OF n] if_P [OF True] by (simp only: option.inject prod.inject)
      have h2: "sh (Sh_mbulkhdr 2) = ?h" using reply_header_shared [of 2] by simp
      have e2: "shared_exists (Sh_mbulkhdr 2)" by (simp add: REDIS_SHARED_BULKHDR_LEN_def)
      show ?thesis unfolding pingCommand_def if_not_P [OF n] if_P [OF True] M
      proof (rule ok_seq [OF ok_shared [OF a e2, unfolded h2]], clarify)
        fix st1 assume 1: "at env E {#} args h0 M (s @ ?h) st1"
        have lp: "length (ascii ''pong'') \<le> max_string" by (simp add: ascii_def)
        show "ok (do { st \<leftarrow> reply_buffer env (ascii ''pong'') st1;
            (if length args = 1 then reply_buffer env [] st else reply_bulk_object env (cargs st ! 1) st) }) (finished env E h0 M (s @ r))"
        proof (rule ok_seq [OF ok_reply_buffer [OF 1 lp]], clarify)
          fix st2 assume 2: "at env E {#} args h0 M ((s @ ?h) @ ?p) st2"
          show "ok (if length args = 1 then reply_buffer env [] st2 else reply_bulk_object env (cargs st2 ! 1) st2) (finished env E h0 M (s @ r))"
          proof (rule arg [OF 2])
            assume "length args = 1"
            then have e: "s @ r = ((s @ ?h) @ ?p) @ reply_bulk []" using r by simp
            show "ok (reply_buffer env [] st2) (finished env E h0 M (s @ r))"
              unfolding e by (rule ok_mono [OF ok_reply_buffer [OF 2]]) (auto intro: finishedI)
          qed (use r in simp)
        qed
      qed
    qed
  qed
qed

text \<open>Every row of the table does what its specification says.\<close>

definition row_refines :: "byte list \<times> command \<Rightarrow> byte list \<times> (guards \<Rightarrow> senv \<Rightarrow> byte list list \<Rightarrow> store \<Rightarrow> reaction) \<Rightarrow> bool" where
  "row_refines = (\<lambda>(n, c) (m, sp). n = m \<and> (\<forall>g. refines (nat \<bar>arity c\<bar>) (proc c g) (sp g)))"

lemma fits_unit: "fits 8 1" "fits 8 (-1)"
  by (simp_all add: fits_def)

lemma rows_refine: "list_all2 row_refines command_table spec_table"
  unfolding command_table_def spec_table_def list_all2_Cons1
  by (simp add: row_refines_def row_def get_refines set_refines setnx_refines setex_refines psetex_refines append_refines
      strlen_refines del_refines exists_refines setrange_refines getrange_refines incr_refines [OF fits_unit(1)]
      incr_refines [OF fits_unit(2)] mget_refines incrby_refines getset_refines mset_refines rename_refines
      expire_refines [of "\<lambda>env. mstime env"] expire_refines [of "\<lambda>env. 0"] dbsize_refines [unfolded One_nat_def]
      ping_refines [unfolded One_nat_def] echo_refines
      type_refines ttl_refines persist_refines)

section \<open>Requests\<close>

text \<open>The reply of a request that is not let through.\<close>

definition denial :: "guards \<Rightarrow> senv \<Rightarrow> bool \<Rightarrow> byte list \<Rightarrow> command \<Rightarrow> byte list option" where
  "denial g env master name cmd =
     (if noauth g then Some (sh Sh_noautherr)
      else if disk_error g \<noteq> None \<and> \<not> masterhost env \<and> (writes cmd \<or> name = ascii ''ping'')
      then Some (case the (disk_error g) of
          None \<Rightarrow> sh Sh_bgsaveerr
        | Some t \<Rightarrow> ascii ''-MISCONF Errors writing to the AOF file: '' @ t @ [13, 10])
      else if \<not> masterhost env \<and> few_slaves g \<and> writes cmd then Some (sh Sh_noreplicaserr)
      else if masterhost env \<and> slave_ro g \<and> \<not> master \<and> writes cmd then Some (sh Sh_roslaveerr)
      else if subscriber g \<and> name \<noteq> ascii ''ping''
      then Some (reply_error (ascii ''only (P)SUBSCRIBE / (P)UNSUBSCRIBE / QUIT allowed in this context''))
      else if masterhost env \<and> master_down g \<and> \<not> stale cmd then Some (sh Sh_masterdownerr)
      else if loading env then Some (sh Sh_loadingerr)
      else if script_slow g then Some (sh Sh_slowscripterr)
      else None)"

text \<open>The last result is whether the connection stays open.\<close>

definition spec_request :: "guards \<Rightarrow> senv \<Rightarrow> bool \<Rightarrow> byte list list \<Rightarrow> store \<Rightarrow> (byte list \<times> store \<times> bool) option" where
  "spec_request g env master args M =
     (if args = [] then Some ([], M, True)
      else if dictSdsKeyCaseCompare (args ! 0) (ascii ''quit'') then Some (sh Sh_ok, M, False)
      else if \<exists>n \<in> set other_commands. dictSdsKeyCaseCompare n (args ! 0) then None
      else case lookupCommand (args ! 0) of
        None \<Rightarrow> Some (error_line (ascii ''unknown command '' @ [39] @ takeWhile (\<lambda>b. b \<noteq> 0) (args ! 0) @ [39]), M, True)
      | Some (name, cmd) \<Rightarrow>
          if arity cmd > 0 \<and> arity cmd \<noteq> int (length args) \<or> int (length args) < - arity cmd
          then Some (error_line (wrong_number name), M, True)
          else case denial g env master name cmd of
            Some r \<Rightarrow> Some (r, M, True)
          | None \<Rightarrow> map_option (\<lambda>(r, M). (r, M, True)) (the (spec_of (args ! 0)) g env args M))"

lemma list_all2_find:
  "list_all2 R xs ys \<Longrightarrow> (\<And>x y. R x y \<Longrightarrow> P x = Q y) \<Longrightarrow> find P xs = Some x \<Longrightarrow> \<exists>y. find Q ys = Some y \<and> R x y"
  by (induction rule: list_all2_induct) (auto split: if_split_asm)

lemma lookup_spec:
  assumes "lookupCommand a = Some (name, cmd)"
  shows "\<exists>sp. spec_of a = Some sp \<and> (\<forall>g. refines (nat \<bar>arity cmd\<bar>) (proc cmd g) (sp g))"
proof -
  obtain y where "find (\<lambda>(n, _). dictSdsKeyCaseCompare n a) spec_table = Some y" "row_refines (name, cmd) y"
    using list_all2_find [OF rows_refine _ assms [unfolded lookupCommand_def], of "\<lambda>(n, _). dictSdsKeyCaseCompare n a"]
    by (auto simp: row_refines_def)
  then show ?thesis by (cases y) (auto simp: spec_of_def row_refines_def)
qed

lemma rel_if: "rel_option P a b \<Longrightarrow> rel_option P a' b' \<Longrightarrow> rel_option P (if c then a else a') (if c then b else b')"
  by simp

lemma rel_denied:
  assumes a: "at env E {#} args h0 M s st"
  shows "rel_option (\<lambda>f r. ok f (finished env E h0 M (s @ r))) (denied g env name cmd st)
    (denial g env (master_client (conn st)) name cmd)"
proof -
  let ?P = "\<lambda>f r. ok f (finished env E h0 M (s @ r))"
  have sds: "ok (on_client (addReplySds (oe env) True t z) st) (finished env E h0 M (s @ t))" for t z
    by (rule ok_mono [OF at_emit [OF a emit_sds [OF at_serves [OF a]]]]) (auto intro: finishedI)
  have disk: "ok (case d of
          None \<Rightarrow> reply_shared env Sh_bgsaveerr st
        | Some t \<Rightarrow>
            let s = ascii ''-MISCONF Errors writing to the AOF file: '' @ t @ [13, 10]
            in on_client (addReplySds (oe env) True s (sdssize (oe env) 0 (length s))) st)
      (finished env E h0 M (s @ (case d of
          None \<Rightarrow> sh Sh_bgsaveerr
        | Some t \<Rightarrow> ascii ''-MISCONF Errors writing to the AOF file: '' @ t @ [13, 10])))" for d
    using finished_shared [OF a, of Sh_bgsaveerr] sds by (cases d) (simp_all only: option.case Let_def shared_exists.simps)
  show ?thesis unfolding denied_def denial_def
    by (intro rel_if option.rel_intros disk finished_shared [OF a] finished_error [OF a]) simp_all
qed

lemma ok_denied:
  assumes "at env E {#} args h0 M s st" and "denied g env name cmd st = Some f"
  shows "\<exists>r. denial g env (master_client (conn st)) name cmd = Some r \<and> ok f (finished env E h0 M (s @ r))"
  using rel_denied [OF assms(1), of g name cmd] unfolding assms(2) by (cases "denial g env (master_client (conn st)) name cmd") simp_all

lemma denied_None:
  assumes "at env E {#} args h0 M s st" and "denied g env name cmd st = None"
  shows "denial g env (master_client (conn st)) name cmd = None"
  using rel_denied [OF assms(1), of g name cmd] unfolding assms(2) by (cases "denial g env (master_client (conn st)) name cmd") simp_all

lemma ok_processCommand:
  assumes a: "at env E {#} args h0 M s st" and ne: "args \<noteq> []"
    and sp: "spec_request g env (master_client (conn st)) args M = Some (r, M', alive)"
  shows "ok (processCommand g env args st) (\<lambda>(st', b). b = alive \<and>
    (if alive then finished env E h0 M' (s @ r) st'
     else \<exists>st1. finished env E h0 M' (s @ r) st1 \<and> st' = st1\<lparr>conn := (conn st1)\<lparr>closing := True\<rparr>\<rparr>))"
proof (cases "dictSdsKeyCaseCompare (args ! 0) (ascii ''quit'')")
  case True
  then have "r = sh Sh_ok" "M' = M" "\<not> alive" using sp ne by (auto simp: spec_request_def)
  then show ?thesis unfolding processCommand_def if_P [OF True]
    by (intro ok_seq [OF finished_shared [OF a, of Sh_ok]]) auto
next
  case nq: False
  have no: "\<not> (\<exists>n \<in> set other_commands. dictSdsKeyCaseCompare n (args ! 0))"
    using sp ne unfolding spec_request_def if_not_P [OF ne] if_not_P [OF nq] by (auto split: if_split_asm)
  note spec = sp [unfolded spec_request_def if_not_P [OF ne] if_not_P [OF nq] if_not_P [OF no]]
  have fin: ?thesis if f: "ok f (finished env E h0 M' (s @ r))" and al: "alive"
      and p: "processCommand g env args st = do { st \<leftarrow> f; Some (st, True) }" for f
    unfolding p by (rule ok_seq [OF f]) (use al in simp)
  show ?thesis
  proof (cases "lookupCommand (args ! 0)")
    case None
    let ?e = "ascii ''unknown command '' @ [39] @ takeWhile (\<lambda>b. b \<noteq> 0) (args ! 0) @ [39]"
    have r: "r = error_line ?e" "M' = M" "alive" using spec unfolding None option.case(1) by simp_all
    show ?thesis
      by (rule fin [of "reply_error_format env ?e st"])
        (use finished_error_format [OF a, of ?e] r None nq no in \<open>simp_all add: processCommand_def\<close>)
  next
    case (Some c)
    obtain name cmd where c: "c = (name, cmd)" by force
    note lk = Some [unfolded c]
    let ?bad = "arity cmd > 0 \<and> arity cmd \<noteq> int (length args) \<or> int (length args) < - arity cmd"
    show ?thesis
    proof (cases ?bad)
      case True
      have r: "r = error_line (wrong_number name)" "M' = M" "alive"
        using spec unfolding lk option.case(2) prod.case if_P [OF True] by simp_all
      have p: "processCommand g env args st = do { st \<leftarrow> reply_error_format env (wrong_number name) st; Some (st, True) }"
        unfolding processCommand_def if_not_P [OF nq] if_not_P [OF no] lk option.case(2) prod.case if_P [OF True] ..
      show ?thesis by (rule fin [OF _ r(3) p]) (use finished_error_format [OF a, of "wrong_number name"] r in simp)
    next
      case good: False
      note spec = spec [unfolded lk option.case(2) prod.case if_not_P [OF good]]
      have p: "processCommand g env args st =
          do { st \<leftarrow> (case denied g env name cmd st of Some r \<Rightarrow> r | None \<Rightarrow> proc cmd g env args st); Some (st, True) }"
        unfolding processCommand_def if_not_P [OF nq] if_not_P [OF no] lk option.case(2) prod.case if_not_P [OF good] ..
      show ?thesis
      proof (cases "denied g env name cmd st")
        case (Some f)
        obtain t where t: "denial g env (master_client (conn st)) name cmd = Some t" "ok f (finished env E h0 M (s @ t))"
          using ok_denied [OF a Some] by blast
        then have "r = t" "M' = M" "alive" using spec by simp_all
        then show ?thesis using t(2) p Some by (intro fin [of f]) simp_all
      next
        case None
        obtain sp' where sp': "spec_of (args ! 0) = Some sp'" "refines (nat \<bar>arity cmd\<bar>) (proc cmd g) (sp' g)"
          using lookup_spec [OF lk] by blast
        have "denial g env (master_client (conn st)) name cmd = None" by (rule denied_None [OF a None])
        then have e: "sp' g env args M = Some (r, M')" "alive" using spec sp'(1) by auto
        have n: "nat \<bar>arity cmd\<bar> \<le> length args" using good by linarith
        have "ok (proc cmd g env args st) (finished env E h0 M' (s @ r))"
          using sp'(2) a n e(1) unfolding refines_def by blast
        then show ?thesis using p None e(2) by (intro fin) simp_all
      qed
    qed
  qed
qed

section \<open>Runs\<close>

text \<open>
  Between requests: no command runs, and its arguments are released, unless the client is about to be
  closed.
\<close>

definition opened :: "server \<Rightarrow> server" where
  "opened st = st\<lparr>conn := (conn st)\<lparr>closing := False\<rparr>\<rparr>"

definition resting :: "senv \<Rightarrow> addr multiset \<Rightarrow> objs \<Rightarrow> store \<Rightarrow> byte list \<Rightarrow> bool \<Rightarrow> server \<Rightarrow> bool" where
  "resting env E h0 M s alive st \<longleftrightarrow> finished env E h0 M s (opened st) \<and> closing (conn st) = (\<not> alive) \<and>
     (alive \<longrightarrow> cargs st = [])"

lemma at_env: "oe env' = oe env \<Longrightarrow> at env' = at env"
  by (simp add: at_def fun_eq_iff)

lemma at_normal: "at env E H args h0 M s st \<Longrightarrow> \<not> closing (conn st)"
  by (simp add: at_def plain_def normal_def)

lemma opened_id: "\<not> closing (conn st) \<Longrightarrow> opened st = st"
  by (cases st) (simp add: opened_def)

text \<open>\<open>spec_request\<close> for a run: requests after \<open>QUIT\<close> are not read any more.\<close>

fun spec_run :: "guards \<Rightarrow> senv \<Rightarrow> bool \<Rightarrow> (int \<times> byte list list) list \<Rightarrow> store \<times> bool \<Rightarrow> (byte list \<times> store \<times> bool) option" where
  "spec_run g env master [] (M, alive) = Some ([], M, alive)"
| "spec_run g env master ((t, args) # rs) (M, alive) =
     (if \<not> alive then spec_run g env master rs (M, alive)
      else do {
        (r, M, alive) \<leftarrow> spec_request g (env\<lparr>mstime := t\<rparr>) master args M;
        (r', M, alive) \<leftarrow> spec_run g env master rs (M, alive);
        Some (r @ r', M, alive) })"

text \<open>
  What happens to a server: a request arrives, at a time, or the socket takes bytes. The run ends early
  when the client is released; what is left of it is the last result.
\<close>

datatype event = Request int "byte list list" | Writable "nat \<Rightarrow> write_return" "nat \<Rightarrow> bool"

fun server_run :: "guards \<Rightarrow> senv \<Rightarrow> event list \<Rightarrow> server \<Rightarrow> (server \<times> bool \<times> byte list \<times> event list) option" where
  "server_run g env [] st = Some (st, True, [], [])"
| "server_run g env (Request t args # es) st = do {
     st \<leftarrow> run_request g (env\<lparr>mstime := t\<rparr>) args st;
     server_run g env es st }"
| "server_run g env (Writable wr stop # es) st = do {
     ((h, co), w) \<leftarrow> sendReplyToClient wr stop (objects st, conn st);
     (case co of
        None \<Rightarrow> do { st \<leftarrow> freeClientArgv (st\<lparr>objects := h\<rparr>); Some (st, False, w, es) }
      | Some c \<Rightarrow> do {
          (st, b, w', rest) \<leftarrow> server_run g env es (st\<lparr>objects := h, conn := c\<rparr>);
          Some (st, b, w @ w', rest) }) }"

fun requests :: "event list \<Rightarrow> (int \<times> byte list list) list" where
  "requests [] = []"
| "requests (Request t args # es) = (t, args) # requests es"
| "requests (Writable wr stop # es) = requests es"

end
