(* ===== verification/Server_Run.thy ===== *)
theory Server_Run
  imports Server
begin

text \<open>Runs of the server: a request, a call of the write handler, and any sequence of both.\<close>

lemma ok_run_request:
  assumes a: "resting env E h0 M s True st" and g: "good_args args" and e: "oe env' = oe env"
    and sp: "spec_request g env' False args M = Some (r, M', alive)"
  shows "ok (run_request g env' args st) (resting env E h0 M' (s @ r) alive)"
proof -
  have c: "\<not> closing (conn st)" "cargs st = []" and f: "finished env' E h0 M s st"
    using a opened_id [of st] at_env [OF e] by (simp_all add: resting_def finished_def)
  show ?thesis
  proof (cases "args = []")
    case True
    then show ?thesis using sp a by (simp add: run_request_def spec_request_def)
  next
    case ne: False
    obtain args0 where a0: "at env' E {#} args0 h0 M s st" using f by (auto simp: finished_def)
    obtain h' as where m: "make_args (oe env') args (objects st) = (h', as)" by force
    have 1: "at env' E (mset as + {#}) args0 h0 M s (st\<lparr>objects := h'\<rparr>)"
        "list_all2 (\<lambda>a s. aval h' a = Some (Str s)) as args"
      using at_make_args [OF a0 m] by simp_all
    let ?st = "st\<lparr>objects := h', cargs := as\<rparr>"
    have 2: "at env' E {#} args h0 M s ?st" using at_new_args [OF 1(1) _ g] 1(2) c(2) by simp
    have nm: "master_client (conn ?st) = False" using 2 by (simp add: at_def plain_def)
    obtain st1 where p: "processCommand g env' args ?st = Some (st1, alive)"
        "if alive then finished env' E h0 M' (s @ r) st1
         else \<exists>st2. finished env' E h0 M' (s @ r) st2 \<and> st1 = st2\<lparr>conn := (conn st2)\<lparr>closing := True\<rparr>\<rparr>"
      using ok_processCommand [OF 2 ne, of g r M' alive] sp unfolding nm by (auto simp: ok_def)
    have run: "run_request g env' args st = (if alive then freeClientArgv st1 else Some st1)"
      using c ne m p(1) by (simp add: run_request_def)
    show ?thesis
    proof (cases alive)
      case True
      then obtain args1 where 3: "at env' E {#} args1 h0 M' (s @ r) st1" using p(2) by (auto simp: finished_def)
      obtain st3 where 4: "freeClientArgv st1 = Some st3" "at env' E {#} [] h0 M' (s @ r) st3" "cargs st3 = []"
        using ok_freeClientArgv [OF 3] by (auto simp: ok_def)
      then show ?thesis using run True at_normal [OF 4(2)] opened_id [of st3] at_env [OF e]
        by (auto simp: resting_def finished_def)
    next
      case False
      then obtain st2 where 5: "finished env' E h0 M' (s @ r) st2" "st1 = st2\<lparr>conn := (conn st2)\<lparr>closing := True\<rparr>\<rparr>"
        using p(2) by auto
      obtain args1 where 6: "at env' E {#} args1 h0 M' (s @ r) st2" using 5(1) by (auto simp: finished_def)
      have "opened st1 = st2" using 5(2) opened_id [OF at_normal [OF 6]] by (simp add: opened_def)
      then show ?thesis using run False 6 5(2) at_env [OF e] by (auto simp: resting_def finished_def)
    qed
  qed
qed

section \<open>Sending\<close>

lemma rinv_closing: "rinv E h (c\<lparr>closing := b\<rparr>) = rinv E h c"
  by (simp add: rinv_def list_ok_def sent_ok_def)

lemma opened_sel: "objects (opened st) = objects st" "kdict (opened st) = kdict st" "kexpires (opened st) = kexpires st"
  "cargs (opened st) = cargs st" "conn (opened st) = (conn st)\<lparr>closing := False\<rparr>" "refs (opened st) = refs st"
  by (simp_all add: opened_def refs_def)

text \<open>After the client is gone, the server is as it would be with a new one.\<close>

definition released :: "senv \<Rightarrow> addr multiset \<Rightarrow> objs \<Rightarrow> store \<Rightarrow> server \<Rightarrow> bool" where
  "released env E h0 M st \<longleftrightarrow> at env E {#} [] h0 M [] (st\<lparr>conn := new_rclient\<rparr>)"

lemma drop_all_conn: "drop_all as (st\<lparr>conn := c\<rparr>) = map_option (\<lambda>st. st\<lparr>conn := c\<rparr>) (drop_all as st)"
proof (induction as arbitrary: st)
  case (Cons a as)
  have d: "drop_ref a (st\<lparr>conn := c\<rparr>) = map_option (\<lambda>st. st\<lparr>conn := c\<rparr>) (drop_ref a st)"
    by (cases st) (simp add: drop_ref_def split: bind_split)
  show ?case by (cases "drop_ref a st") (simp_all add: d Cons.IH)
qed simp

lemma freeClientArgv_conn: "freeClientArgv (st\<lparr>conn := c\<rparr>) = map_option (\<lambda>st. st\<lparr>conn := c\<rparr>) (freeClientArgv st)"
  by (cases "drop_all (cargs st) st") (simp_all add: freeClientArgv_def drop_all_conn)

lemma new_client_rinv: "owned h E \<Longrightarrow> rinv E h new_rclient"
  by (simp add: rinv_def new_rclient_def list_ok_def sent_ok_def)

lemma new_client: "plain new_rclient" "no_holes h new_rclient" "unsent h new_rclient = []"
  by (simp_all add: plain_def normal_def no_holes_def unsent_def new_rclient_def)

lemma at_sent:
  assumes a: "at env E {#} args h0 M s st" and u: "unchanged (set_mset (E + refs st)) (objects st) h"
    and r: "rinv (E + refs st) h c" "plain c" "no_holes h c"
  shows "at env E {#} args h0 M (unsent h c) (st\<lparr>objects := h, conn := c\<rparr>)"
  using at_step [OF a, of "st\<lparr>objects := h, conn := c\<rparr>" "{#}"] u r by (simp add: same_def)

lemma resting_send:
  assumes a: "resting env E h0 M s alive st"
  shows "ok (sendReplyToClient wr stop (objects st, conn st)) (\<lambda>((h, co), w). \<exists>u. w @ u = s \<and>
    (case co of
       None \<Rightarrow> ok (freeClientArgv (st\<lparr>objects := h\<rparr>)) (released env E h0 M)
     | Some c \<Rightarrow> resting env E h0 M u alive (st\<lparr>objects := h, conn := c\<rparr>)))"
proof -
  obtain args where o: "at env E {#} args h0 M s (opened st)" and cl: "closing (conn st) = (\<not> alive)" "alive \<longrightarrow> cargs st = []"
    using a by (auto simp: resting_def finished_def)
  have ri: "rinv (E + refs st) (objects st) (conn st)" and nh: "no_holes (objects st) (conn st)" and pl: "plain ((conn st)\<lparr>closing := False\<rparr>)"
      and un: "unsent (objects st) (conn st) = s"
    using o by (simp_all add: at_def opened_sel rinv_closing no_holes_def unsent_def)
  obtain h co w where s: "sendReplyToClient wr stop (objects st, conn st) = Some ((h, co), w)"
      "unchanged (set_mset (E + refs st)) (objects st) h"
      "case co of None \<Rightarrow> owned h (E + refs st) \<and> (\<exists>v. w @ v = s)
       | Some c' \<Rightarrow> rinv (E + refs st) h c' \<and> no_holes h c' \<and> w @ unsent h c' = s \<and>
           c' = (conn st)\<lparr>buf := buf c', reply := reply c', reply_bytes := reply_bytes c', sentlen := sentlen c', handler := handler c'\<rparr>"
    using sendReplyToClient_ok [OF ri nh, of wr stop] unfolding un by blast
  have u: "unchanged (set_mset (E + refs (opened st))) (objects (opened st)) h" using s(2) by (simp add: opened_sel)
  show ?thesis
  proof (cases co)
    case None
    then have ow: "owned h (E + refs st)" and v: "\<exists>v. w @ v = s" using s(3) by simp_all
    have 1: "at env E {#} args h0 M [] ((opened st)\<lparr>objects := h, conn := new_rclient\<rparr>)"
      using at_sent [OF o u, of new_rclient] new_client_rinv [OF ow] new_client by (simp add: opened_sel)
    have e: "(opened st)\<lparr>objects := h, conn := new_rclient\<rparr> = st\<lparr>objects := h, conn := new_rclient\<rparr>" by (simp add: opened_def)
    have "ok (freeClientArgv (st\<lparr>objects := h, conn := new_rclient\<rparr>)) (\<lambda>st'. at env E {#} [] h0 M [] st')"
      by (rule ok_mono [OF ok_freeClientArgv [OF 1 [unfolded e]]]) simp
    then have "ok (freeClientArgv (st\<lparr>objects := h\<rparr>)) (released env E h0 M)"
      unfolding freeClientArgv_conn [of new_rclient "st\<lparr>objects := h\<rparr>"] by (auto simp: ok_def released_def)
    then show ?thesis using s(1) v None by simp
  next
    case (Some c')
    then have c: "rinv (E + refs st) h c'" "no_holes h c'" "w @ unsent h c' = s"
        "c' = (conn st)\<lparr>buf := buf c', reply := reply c', reply_bytes := reply_bytes c', sentlen := sentlen c', handler := handler c'\<rparr>"
      using s(3) by simp_all
    have sel: "lua_client c' = lua_client (conn st)" "master_client c' = master_client (conn st)"
        "force_reply c' = force_reply (conn st)" "connected c' = connected (conn st)" "closing c' = closing (conn st)"
      by (subst c(4), simp)+
    let ?c = "c'\<lparr>closing := False\<rparr>"
    have "plain ?c" using pl sel by (auto simp: plain_def normal_def)
    then have "at env E {#} args h0 M (unsent h ?c) ((opened st)\<lparr>objects := h, conn := ?c\<rparr>)"
      using at_sent [OF o u, of ?c] c(1,2) by (simp add: opened_sel rinv_closing no_holes_def)
    moreover have "(opened st)\<lparr>objects := h, conn := ?c\<rparr> = opened (st\<lparr>objects := h, conn := c'\<rparr>)" by (simp add: opened_def)
    moreover have "unsent h ?c = unsent h c'" by (simp add: unsent_def)
    ultimately have "resting env E h0 M (unsent h c') alive (st\<lparr>objects := h, conn := c'\<rparr>)"
      using cl sel(5) by (auto simp: resting_def finished_def)
    then show ?thesis using s(1) c(3) Some by auto
  qed
qed

section \<open>Any run\<close>

lemma spec_run_Nil: "spec_run g env m [] x = Some ([], x)"
  by (cases x) simp

lemma spec_run_closed: "spec_run g env m rs (M, False) = Some ([], M, False)"
  by (induction rs) auto

lemma server_run_ok:
  assumes "resting env E h0 M s alive st" and "\<forall>(t, args) \<in> set (requests es). good_args args"
    and "spec_run g env False (requests es) (M, alive) = Some (out, M', alive')"
  shows "\<exists>st' b w rest. server_run g env es st = Some (st', b, w, rest) \<and>
    (if b then rest = [] \<and> (\<exists>u. w @ u = s @ out \<and> resting env E h0 M' u alive' st')
     else \<exists>pre out1 M1 a1. es = pre @ rest \<and> spec_run g env False (requests pre) (M, alive) = Some (out1, M1, a1) \<and>
       (\<exists>u. w @ u = s @ out1) \<and> released env E h0 M1 st')"
  using assms
proof (induction es arbitrary: M s alive st out)
  case Nil
  then have "out = []" "M' = M" "alive' = alive" by simp_all
  then show ?case using Nil.prems(1) by auto
next
  case (Cons e es)
  show ?case
  proof (cases e)
    case (Request t args)
    let ?env = "env\<lparr>mstime := t\<rparr>"
    have g: "good_args args" "\<forall>(t, args) \<in> set (requests es). good_args args" using Cons.prems(2) Request by simp_all
    obtain r M1 a1 out1 st1 where 1: "run_request g ?env args st = Some st1" "resting env E h0 M1 (s @ r) a1 st1"
        "spec_run g env False (requests es) (M1, a1) = Some (out1, M', alive')" "out = r @ out1"
        "\<And>rs o2 y. spec_run g env False rs (M1, a1) = Some (o2, y) \<Longrightarrow>
           spec_run g env False ((t, args) # rs) (M, alive) = Some (r @ o2, y)"
    proof (cases alive)
      case True
      obtain r M1 a1 where q: "spec_request g ?env False args M = Some (r, M1, a1)"
          "\<exists>o2. spec_run g env False (requests es) (M1, a1) = Some (o2, M', alive') \<and> out = r @ o2"
        using Cons.prems(3) Request True by (auto split: bind_split_asm prod.split_asm)
      then obtain o2 where o2: "spec_run g env False (requests es) (M1, a1) = Some (o2, M', alive')" "out = r @ o2" by blast
      have "resting env E h0 M s True st" using Cons.prems(1) True by simp
      from ok_run_request [OF this g(1) _ q(1)] obtain st1 where "run_request g ?env args st = Some st1" "resting env E h0 M1 (s @ r) a1 st1"
        by (auto simp: ok_def)
      then show ?thesis using that [OF _ _ o2] q(1) True by simp
    next
      case False
      have "run_request g ?env args st = Some st" using Cons.prems(1) False by (simp add: run_request_def resting_def)
      then show ?thesis using that [of st M "[]" False out] Cons.prems False Request by simp
    qed
    obtain st' b w rest where r: "server_run g env es st1 = Some (st', b, w, rest)"
        "if b then rest = [] \<and> (\<exists>u. w @ u = (s @ r) @ out1 \<and> resting env E h0 M' u alive' st')
         else \<exists>pre out2 M2 a2. es = pre @ rest \<and> spec_run g env False (requests pre) (M1, a1) = Some (out2, M2, a2) \<and>
           (\<exists>u. w @ u = (s @ r) @ out2) \<and> released env E h0 M2 st'"
      using Cons.IH [OF 1(2) g(2) 1(3)] by blast
    have run: "server_run g env (e # es) st = Some (st', b, w, rest)" using Request 1(1) r(1) by simp
    show ?thesis
    proof (cases b)
      case True
      then obtain u where "rest = []" "w @ u = s @ out" "resting env E h0 M' u alive' st'" using r(2) 1(4) by auto
      then show ?thesis unfolding run using True by (intro exI conjI) (rule refl, auto)
    next
      case False
      then obtain pre out2 M2 a2 u where p: "es = pre @ rest" "spec_run g env False (requests pre) (M1, a1) = Some (out2, M2, a2)"
          "w @ u = (s @ r) @ out2" "released env E h0 M2 st'" using r(2) by auto
      have "spec_run g env False (requests (e # pre)) (M, alive) = Some (r @ out2, M2, a2)" using 1(5) [OF p(2)] Request by simp
      moreover have "e # es = (e # pre) @ rest" using p(1) by simp
      moreover have "w @ u = s @ r @ out2" using p(3) by simp
      ultimately show ?thesis unfolding run using False p(4) by (intro exI conjI) (rule refl, simp, blast)
    qed
  next
    case (Writable wr stop)
    have rq: "requests (e # es) = requests es" using Writable by simp
    obtain h co w u where s: "sendReplyToClient wr stop (objects st, conn st) = Some ((h, co), w)" "w @ u = s"
        "case co of None \<Rightarrow> ok (freeClientArgv (st\<lparr>objects := h\<rparr>)) (released env E h0 M)
         | Some c \<Rightarrow> resting env E h0 M u alive (st\<lparr>objects := h, conn := c\<rparr>)"
      using resting_send [OF Cons.prems(1), of wr stop] by (auto simp: ok_def)
    show ?thesis
    proof (cases co)
      case None
      obtain st' where f: "freeClientArgv (st\<lparr>objects := h\<rparr>) = Some st'" "released env E h0 M st'"
        using s(3) None by (auto simp: ok_def)
      have run: "server_run g env (e # es) st = Some (st', False, w, es)" using Writable s(1) None f(1) by simp
      have "spec_run g env False (requests [e]) (M, alive) = Some ([], M, alive)" using Writable by simp
      moreover have "e # es = [e] @ es" by simp
      moreover have "w @ u = s @ []" using s(2) by simp
      ultimately show ?thesis unfolding run using f(2) by (intro exI conjI) (rule refl, simp, blast)
    next
      case (Some c)
      have i: "resting env E h0 M u alive (st\<lparr>objects := h, conn := c\<rparr>)" using s(3) Some by simp
      obtain st' b v rest where r: "server_run g env es (st\<lparr>objects := h, conn := c\<rparr>) = Some (st', b, v, rest)"
          "if b then rest = [] \<and> (\<exists>x. v @ x = u @ out \<and> resting env E h0 M' x alive' st')
           else \<exists>pre out2 M2 a2. es = pre @ rest \<and> spec_run g env False (requests pre) (M, alive) = Some (out2, M2, a2) \<and>
             (\<exists>x. v @ x = u @ out2) \<and> released env E h0 M2 st'"
        using Cons.IH [OF i, of out] Cons.prems(2,3) unfolding rq by blast
      have run: "server_run g env (e # es) st = Some (st', b, w @ v, rest)" using Writable s(1) Some r(1) by simp
      show ?thesis
      proof (cases b)
        case True
        then obtain x where "v @ x = u @ out" "resting env E h0 M' x alive' st'" "rest = []" using r(2) by auto
        moreover have "(w @ v) @ x = s @ out" using calculation(1) s(2) by (metis append_assoc)
        ultimately show ?thesis unfolding run using True by (intro exI conjI) (rule refl, auto)
      next
        case False
        then obtain pre out2 M2 a2 x where p: "es = pre @ rest" "spec_run g env False (requests pre) (M, alive) = Some (out2, M2, a2)"
            "v @ x = u @ out2" "released env E h0 M2 st'" using r(2) by auto
        have "(w @ v) @ x = s @ out2" using p(3) s(2) by (metis append_assoc)
        moreover have "spec_run g env False (requests (e # pre)) (M, alive) = Some (out2, M2, a2)" using p(2) Writable by simp
        moreover have "e # es = (e # pre) @ rest" using p(1) by simp
        ultimately show ?thesis unfolding run using False p(4) by (intro exI conjI) (rule refl, simp, blast)
      qed
    qed
  qed
qed

end
