(* ===== verification/Query.thy ===== *)
theory Query
  imports Sds_Text
begin

text \<open>
  The request side of \<open>networking.c\<close>: a client's query buffer, the parsers of inline and of
  multi bulk requests, the loop that runs complete requests, and the reads that feed it. The
  buffer is its contents: \<open>sdsrange(buf,pos,-1)\<close> is \<open>drop pos\<close> (theory \<open>Sds\<close>). Lengths are below
  \<open>2 ^ 31\<close>, as the limit on the query buffer keeps them. A failed assertion is \<open>None\<close>. The
  execution of a command is a parameter \<open>pc\<close>; \<open>world\<close> is what it works on.
\<close>

section \<open>Clients\<close>

definition REDIS_INLINE_MAX_SIZE :: nat where "REDIS_INLINE_MAX_SIZE = 1024 * 64"
definition REDIS_MBULK_BIG_ARG :: nat where "REDIS_MBULK_BIG_ARG = 1024 * 32"
definition REDIS_IOBUF_LEN :: nat where "REDIS_IOBUF_LEN = 1024 * 16"

datatype reqtype = Unknown | Inline | Multibulk

record 'w client =
  querybuf :: "byte list"
  querybuf_peak :: nat
  reqtype :: reqtype
  multibulklen :: nat
  bulklen :: int
  cargv :: "byte list list"
  close_after_reply :: bool
  blocked :: bool
  slave :: bool
  multi :: bool
  asking :: bool
  master :: bool
  repl_ack_time :: int
  reploff :: int
  lastinteraction :: int
  sent_errors :: "byte list list"
  world :: 'w

definition createClient :: "int \<Rightarrow> 'w \<Rightarrow> 'w client" where
  "createClient unixtime w = \<lparr>querybuf = [], querybuf_peak = 0, reqtype = Unknown, multibulklen = 0, bulklen = -1, cargv = [],
     close_after_reply = False, blocked = False, slave = False, multi = False, asking = False,
     master = False, repl_ack_time = 0, reploff = 0, lastinteraction = unixtime, sent_errors = [], world = w\<rparr>"

definition resetClient :: "'w client \<Rightarrow> 'w client" where
  "resetClient c = c\<lparr>cargv := [], reqtype := Unknown, multibulklen := 0, bulklen := -1,
     asking := (asking c \<and> multi c)\<rparr>"

text \<open>\<open>strchr(buf,ch) - buf\<close>: up to the first null byte.\<close>

definition strchr :: "byte \<Rightarrow> byte list \<Rightarrow> nat option" where
  "strchr ch buf =
     (let s = takeWhile (\<lambda>b. b \<noteq> 0) buf
      in if ch \<in> set s then Some (length (takeWhile (\<lambda>b. b \<noteq> ch) s)) else None)"

definition addReplyError :: "byte list \<Rightarrow> 'w client \<Rightarrow> 'w client" where
  "addReplyError err c = c\<lparr>sent_errors := sent_errors c @ [ascii ''-ERR '' @ err @ [13, 10]]\<rparr>"

text \<open>\<open>s\<close> is the formatted string, cut at a null byte by \<open>sdscat\<close>.\<close>

definition addReplyErrorFormat :: "byte list \<Rightarrow> 'w client \<Rightarrow> 'w client" where
  "addReplyErrorFormat s c =
     addReplyError (map (\<lambda>b. if b = 13 \<or> b = 10 then 32 else b) (takeWhile (\<lambda>b. b \<noteq> 0) s)) c"

definition setProtocolError :: "nat \<Rightarrow> 'w client \<Rightarrow> 'w client" where
  "setProtocolError pos c = c\<lparr>close_after_reply := True, querybuf := drop pos (querybuf c)\<rparr>"

section \<open>Inline requests\<close>

definition processInlineBuffer :: "int \<Rightarrow> 'w client \<Rightarrow> 'w client \<times> bool" where
  "processInlineBuffer unixtime c =
     (case strchr 10 (querybuf c) of
        None \<Rightarrow>
          (if length (querybuf c) > REDIS_INLINE_MAX_SIZE
           then (setProtocolError 0 (addReplyError (ascii ''Protocol error: too big inline request'') c), False)
           else (c, False))
      | Some newline \<Rightarrow>
          let querylen = (if newline \<noteq> 0 \<and> querybuf c ! (newline - 1) = 13 then newline - 1 else newline)
          in (case sdssplitargs (take querylen (querybuf c)) of
                None \<Rightarrow>
                  (setProtocolError 0 (addReplyError (ascii ''Protocol error: unbalanced quotes in request'') c), False)
              | Some argv \<Rightarrow>
                  (c\<lparr>repl_ack_time := (if querylen = 0 \<and> slave c then unixtime else repl_ack_time c),
                     querybuf := drop (querylen + 2) (querybuf c),
                     cargv := filter (\<lambda>a. length a \<noteq> 0) argv\<rparr>, True)))"

section \<open>Multi bulk requests\<close>

text \<open>
  What a part of \<open>processMultibulkBuffer\<close> ends with: the return value, \<open>break\<close>, or going on, with
  the position in the buffer.
\<close>

datatype 'w outcome = Return "'w client" bool | Break nat "'w client" | Go nat "'w client"

definition multibulk_header :: "'w client \<Rightarrow> 'w outcome option" where
  "multibulk_header c =
     (if cargv c \<noteq> [] then None
      else case strchr 13 (querybuf c) of
        None \<Rightarrow>
          Some (if length (querybuf c) > REDIS_INLINE_MAX_SIZE
                then Return (setProtocolError 0 (addReplyError (ascii ''Protocol error: too big mbulk count string'') c)) False
                else Return c False)
      | Some newline \<Rightarrow>
          if int newline > int (length (querybuf c)) - 2 then Some (Return c False)
          else if querybuf c ! 0 \<noteq> 42 then None
          else case string2ll (take (newline - 1) (drop 1 (querybuf c))) of
            None \<Rightarrow> Some (Return (setProtocolError 0 (addReplyError (ascii ''Protocol error: invalid multibulk length'') c)) False)
          | Some ll \<Rightarrow>
              if ll > 1024 * 1024
              then Some (Return (setProtocolError 0 (addReplyError (ascii ''Protocol error: invalid multibulk length'') c)) False)
              else if ll \<le> 0 then Some (Return (c\<lparr>querybuf := drop (newline + 2) (querybuf c)\<rparr>) True)
              else Some (Go (newline + 2) (c\<lparr>multibulklen := nat ll, cargv := []\<rparr>)))"

text \<open>The length of the next argument, when it is not known.\<close>

definition bulk_header :: "nat \<Rightarrow> 'w client \<Rightarrow> 'w outcome" where
  "bulk_header pos c =
     (if bulklen c \<noteq> -1 then Go pos c
      else case strchr 13 (drop pos (querybuf c)) of
        None \<Rightarrow>
          (if length (querybuf c) > REDIS_INLINE_MAX_SIZE
           then Return (setProtocolError 0 (addReplyError (ascii ''Protocol error: too big bulk count string'') c)) False
           else Break pos c)
      | Some n \<Rightarrow>
          let newline = pos + n
          in if int newline > int (length (querybuf c)) - 2 then Break pos c
             else if querybuf c ! pos \<noteq> 36
             then Return (setProtocolError pos (addReplyErrorFormat
                    (ascii ''Protocol error: expected '' @ [39, 36, 39] @ ascii '', got '' @ [39, querybuf c ! pos, 39]) c)) False
             else case string2ll (take (newline - (pos + 1)) (drop (pos + 1) (querybuf c))) of
               None \<Rightarrow> Return (setProtocolError pos (addReplyError (ascii ''Protocol error: invalid bulk length'') c)) False
             | Some ll \<Rightarrow>
                 if ll < 0 \<or> ll > 512 * 1024 * 1024
                 then Return (setProtocolError pos (addReplyError (ascii ''Protocol error: invalid bulk length'') c)) False
                 else if ll \<ge> int REDIS_MBULK_BIG_ARG
                 then Go 0 (c\<lparr>querybuf := drop (newline + 2) (querybuf c), bulklen := ll\<rparr>)
                 else Go (newline + 2) (c\<lparr>bulklen := ll\<rparr>))"

text \<open>The argument itself; a big one that is all of the buffer becomes the argument.\<close>

definition bulk_arg :: "nat \<Rightarrow> 'w client \<Rightarrow> 'w outcome" where
  "bulk_arg pos c =
     (let n = nat (bulklen c)
      in if length (querybuf c) - pos < n + 2 then Break pos c
         else if pos = 0 \<and> n \<ge> REDIS_MBULK_BIG_ARG \<and> length (querybuf c) = n + 2
         then Go 0 (c\<lparr>cargv := cargv c @ [take n (querybuf c)], querybuf := [], bulklen := -1,
                     multibulklen := multibulklen c - 1\<rparr>)
         else Go (pos + n + 2) (c\<lparr>cargv := cargv c @ [take n (drop pos (querybuf c))], bulklen := -1,
                     multibulklen := multibulklen c - 1\<rparr>))"

text \<open>\<open>while(c->multibulklen)\<close>, as often as \<open>multibulklen\<close> says.\<close>

fun bulk_loop :: "nat \<Rightarrow> nat \<Rightarrow> 'w client \<Rightarrow> 'w outcome" where
  "bulk_loop 0 pos c = Break pos c"
| "bulk_loop (Suc n) pos c =
     (case bulk_header pos c of
        Go pos c \<Rightarrow> (case bulk_arg pos c of Go pos c \<Rightarrow> bulk_loop n pos c | out \<Rightarrow> out)
      | out \<Rightarrow> out)"

definition processMultibulkBuffer :: "'w client \<Rightarrow> ('w client \<times> bool) option" where
  "processMultibulkBuffer c = do {
     out \<leftarrow> (if multibulklen c = 0 then multibulk_header c else Some (Go 0 c));
     (case out of
        Return c r \<Rightarrow> Some (c, r)
      | Break pos c \<Rightarrow> None
      | Go pos c \<Rightarrow>
          (case bulk_loop (multibulklen c) pos c of
             Return c r \<Rightarrow> Some (c, r)
           | Go pos c \<Rightarrow> None
           | Break pos c \<Rightarrow>
               let c = c\<lparr>querybuf := drop pos (querybuf c)\<rparr>
               in Some (c, multibulklen c = 0))) }"

section \<open>The loop over requests\<close>

text \<open>One round of the loop of \<open>processInputBuffer\<close>; the result says whether to go on.\<close>

definition input_round ::
    "('w client \<Rightarrow> 'w client \<times> bool) \<Rightarrow> int \<Rightarrow> 'w client \<Rightarrow> ('w client \<times> bool) option" where
  "input_round pc unixtime c =
     (if blocked c \<or> close_after_reply c then Some (c, False)
      else
        let c = (if reqtype c = Unknown
                 then c\<lparr>reqtype := (if querybuf c ! 0 = 42 then Multibulk else Inline)\<rparr> else c)
        in do {
          (c, ok) \<leftarrow> (if reqtype c = Inline then Some (processInlineBuffer unixtime c)
                      else processMultibulkBuffer c);
          (if \<not> ok then Some (c, False)
           else if length (cargv c) = 0 then Some (resetClient c, True)
           else let (c, ok) = pc c
                in Some (if ok then resetClient c else c, True)) })"

partial_function (option) processInputBuffer ::
    "('w client \<Rightarrow> 'w client \<times> bool) \<Rightarrow> int \<Rightarrow> 'w client \<Rightarrow> 'w client option" where
  "processInputBuffer pc unixtime c =
     (if length (querybuf c) = 0 then Some c
      else do {
        (c, more) \<leftarrow> input_round pc unixtime c;
        (if more then processInputBuffer pc unixtime c else Some c) })"

section \<open>Reading\<close>

definition readlen :: "'w client \<Rightarrow> int" where
  "readlen c =
     (if reqtype c = Multibulk \<and> multibulklen c \<noteq> 0 \<and> bulklen c \<noteq> -1 \<and> bulklen c \<ge> int REDIS_MBULK_BIG_ARG
      then min (int REDIS_IOBUF_LEN) (bulklen c + 2 - int (length (querybuf c)))
      else int REDIS_IOBUF_LEN)"

text \<open>
  What \<open>read\<close> returns: \<open>EAGAIN\<close>, another error, or a number of bytes, at most \<open>k\<close>, at most what
  was asked for and at most what the socket has to give, which is \<open>sock\<close>; no byte means that the
  other side closed the connection. The result is the client, if it was not released, and what is
  left in the socket. Asking for a negative number of bytes is an error of the program.
\<close>

datatype read_return = Again | Failed | Got nat

definition readQueryFromClient ::
    "('w client \<Rightarrow> 'w client \<times> bool) \<Rightarrow> int \<Rightarrow> nat \<Rightarrow> read_return \<Rightarrow> byte list \<Rightarrow> 'w client
     \<Rightarrow> ('w client option \<times> byte list) option" where
  "readQueryFromClient pc unixtime client_max_querybuf_len ret sock c =
     (let c = c\<lparr>querybuf_peak := max (querybuf_peak c) (length (querybuf c))\<rparr>
      in if readlen c < 0 then None
         else case ret of
           Again \<Rightarrow> Some (Some c, sock)
         | Failed \<Rightarrow> Some (None, sock)
         | Got k \<Rightarrow>
             let nread = min k (min (nat (readlen c)) (length sock))
             in if nread = 0 then Some (None, sock)
                else
                  let c = c\<lparr>querybuf := querybuf c @ take nread sock, lastinteraction := unixtime,
                        reploff := (if master c then reploff c + int nread else reploff c)\<rparr>
                  in if length (querybuf c) > client_max_querybuf_len then Some (None, drop nread sock)
                     else do {
                       c \<leftarrow> processInputBuffer pc unixtime c;
                       Some (Some c, drop nread sock) })"

end
