(* ===== verification/Query_Parse.thy ===== *)
theory Query_Parse
  imports Query
begin

text \<open>
  The parser of requests: on any bytes it returns, keeps its assertions and consumes something
  with every request; on the encoding of commands, cut anywhere, it gives back the commands.
\<close>

section \<open>Lines\<close>

lemma strchr_line:
  assumes "ch \<notin> set X" "0 \<notin> set X" "ch \<noteq> 0"
  shows "strchr ch (take k (X @ ch # r)) = (if length X < k then Some (length X) else None)"
proof (cases "length X < k")
  case True
  then obtain j where k: "k = length X + Suc j" by (metis less_imp_Suc_add add_Suc_right)
  have "takeWhile (\<lambda>b. b \<noteq> 0) (take k (X @ ch # r)) = X @ ch # takeWhile (\<lambda>b. b \<noteq> 0) (take j r)"
    unfolding k using assms(2,3) by (subst take_append) (subst takeWhile_append2, auto)
  moreover have "takeWhile (\<lambda>b. b \<noteq> ch) (X @ ch # t) = X" for t
    using assms(1) by (subst takeWhile_append2) auto
  ultimately show ?thesis using True by (simp add: strchr_def)
next
  case False
  then have "take k (X @ ch # r) = take k X" by simp
  moreover have "ch \<notin> set (takeWhile (\<lambda>b. b \<noteq> 0) (take k X))"
    using assms(1) by (meson in_set_takeD set_takeWhileD)
  ultimately show ?thesis using False by (simp add: strchr_def Let_def)
qed

lemma strchr_Some:
  assumes "strchr ch buf = Some n"
  shows "n < length buf" "buf ! n = ch"
proof -
  let ?s = "takeWhile (\<lambda>b. b \<noteq> 0) buf"
  have s: "ch \<in> set ?s" "n = length (takeWhile (\<lambda>b. b \<noteq> ch) ?s)"
    using assms by (auto simp: strchr_def Let_def split: if_splits)
  have "n < length ?s"
  proof (rule ccontr)
    assume "\<not> n < length ?s"
    then have "takeWhile (\<lambda>b. b \<noteq> ch) ?s = ?s" using s(2) by (metis length_takeWhile_le nat_less_le takeWhile_eq_take take_all_iff not_less)
    then show False using s(1) by (metis (mono_tags, lifting) takeWhile_eq_all_conv)
  qed
  then have "?s ! n = ch" using s(2) nth_length_takeWhile by blast
  moreover have "?s ! n = buf ! n" using \<open>n < length ?s\<close> by (simp add: takeWhile_nth)
  ultimately show "n < length buf" "buf ! n = ch" using \<open>n < length ?s\<close> length_takeWhile_le [of "\<lambda>b. b \<noteq> 0" buf] by auto
qed

section \<open>Any input\<close>

text \<open>
  What holds of a client between two rounds. An argument of known length is waited for only while
  the client runs, and a client that is being closed keeps nothing else.
\<close>

definition parser_ok :: "'w client \<Rightarrow> bool" where
  "parser_ok c \<longleftrightarrow>
     (close_after_reply c \<or>
      bulklen c \<ge> -1 \<and> (multibulklen c = 0 \<longrightarrow> cargv c = [] \<and> bulklen c = -1) \<and>
      (multibulklen c \<noteq> 0 \<longrightarrow> reqtype c = Multibulk) \<and>
      (reqtype c = Multibulk \<and> multibulklen c = 0 \<longrightarrow> querybuf c \<noteq> [] \<and> querybuf c ! 0 = 42)) \<and>
     (bulklen c \<noteq> -1 \<longrightarrow> \<not> blocked c \<and> \<not> close_after_reply c)"

text \<open>Between two reads, an argument of known length is not all there.\<close>

definition incomplete :: "'w client \<Rightarrow> bool" where
  "incomplete c \<longleftrightarrow> (bulklen c \<noteq> -1 \<longrightarrow> int (length (querybuf c)) < bulklen c + 2)"

text \<open>What the parser relies on in the execution of commands.\<close>

definition command_contract :: "('w client \<Rightarrow> 'w client \<times> bool) \<Rightarrow> bool" where
  "command_contract pc \<longleftrightarrow> (\<forall>c. querybuf (fst (pc c)) = querybuf c \<and> bulklen (fst (pc c)) = bulklen c \<and>
     (\<not> snd (pc c) \<longrightarrow> close_after_reply (fst (pc c))))"

text \<open>The parts of a client the parser of a request does not touch.\<close>

definition same_rest :: "'w client \<Rightarrow> 'w client \<Rightarrow> bool" where
  "same_rest c c' \<longleftrightarrow> reqtype c' = reqtype c \<and> close_after_reply c' = close_after_reply c \<and>
     blocked c' = blocked c \<and> slave c' = slave c \<and> multi c' = multi c \<and> asking c' = asking c \<and>
     repl_ack_time c' = repl_ack_time c \<and> sent_errors c' = sent_errors c \<and> world c' = world c"

lemma same_rest_trans: "same_rest a b \<Longrightarrow> same_rest b c \<Longrightarrow> same_rest a c"
  by (simp add: same_rest_def)

text \<open>What a failed request leaves: one error, nothing executed, and the client closing.\<close>

definition rejected :: "'w client \<Rightarrow> 'w client \<Rightarrow> bool" where
  "rejected c c' \<longleftrightarrow> close_after_reply c' \<and> bulklen c' = -1 \<and> world c' = world c \<and>
     (\<exists>e. sent_errors c' = sent_errors c @ [e]) \<and> (\<exists>n. querybuf c' = drop n (querybuf c))"

lemma rejected_error [simp]: "bulklen c = -1 \<Longrightarrow> rejected c (setProtocolError pos (addReplyError e c))"
  by (auto simp: rejected_def setProtocolError_def addReplyError_def)

lemma rejected_errorf [simp]: "bulklen c = -1 \<Longrightarrow> rejected c (setProtocolError pos (addReplyErrorFormat e c))"
  by (simp add: addReplyErrorFormat_def)

lemma rejected_same:
  assumes "same_rest c c'" "rejected c' c''" "\<exists>n. querybuf c' = drop n (querybuf c)"
  shows "rejected c c''"
  using assms by (auto simp: rejected_def same_rest_def)

text \<open>The rest of the buffer after a step of the loop.\<close>

definition advances :: "nat \<Rightarrow> 'w client \<Rightarrow> nat \<Rightarrow> 'w client \<Rightarrow> bool" where
  "advances pos c pos' c' \<longleftrightarrow> same_rest c c' \<and> pos' \<le> length (querybuf c') \<and> bulklen c' \<ge> -1 \<and>
     (\<exists>n. querybuf c' = drop n (querybuf c)) \<and>
     length (querybuf c') - pos' \<le> length (querybuf c) - pos"

lemma advances_refl: "pos \<le> length (querybuf c) \<Longrightarrow> bulklen c \<ge> -1 \<Longrightarrow> advances pos c pos c"
  by (auto simp: advances_def same_rest_def intro: exI [of _ 0])

lemma advances_trans: "advances p a q b \<Longrightarrow> advances q b r c \<Longrightarrow> advances p a r c"
  by (auto simp: advances_def same_rest_def)

lemma bulk_header_any:
  assumes "bulklen c \<ge> -1" "pos \<le> length (querybuf c)"
  shows "case bulk_header pos c of
      Go p c' \<Rightarrow> advances pos c p c' \<and> cargv c' = cargv c \<and> multibulklen c' = multibulklen c \<and> bulklen c' \<ge> 0
    | Break p c' \<Rightarrow> p = pos \<and> c' = c \<and> bulklen c = -1
    | Return c' r \<Rightarrow> \<not> r \<and> rejected c c'"
proof (cases "bulklen c = -1")
  case False
  then show ?thesis using assms advances_refl [OF assms(2,1)] by (auto simp: bulk_header_def)
next
  case True
  show ?thesis
  proof (cases "strchr 13 (drop pos (querybuf c))")
    case None
    then show ?thesis using True by (auto simp: bulk_header_def)
  next
    case (Some n)
    then show ?thesis using True assms(2)
      by (auto simp: bulk_header_def Let_def advances_def same_rest_def split: option.splits intro: exI [of _ 0])
  qed
qed

lemma bulk_arg_any:
  assumes "bulklen c \<ge> 0" "pos \<le> length (querybuf c)"
  shows "case bulk_arg pos c of
      Go p c' \<Rightarrow> advances pos c p c' \<and> multibulklen c' = multibulklen c - 1 \<and> bulklen c' = -1 \<and>
        length (querybuf c') - p < length (querybuf c) - pos
    | Break p c' \<Rightarrow> p = pos \<and> c' = c \<and> int (length (querybuf c) - pos) < bulklen c + 2
    | Return c' r \<Rightarrow> False"
  using assms
  by (auto simp: bulk_arg_def Let_def advances_def same_rest_def intro: exI [of _ 0] exI [of _ "length (querybuf c)"])

lemma bulk_loop_any:
  "bulklen c \<ge> -1 \<Longrightarrow> pos \<le> length (querybuf c) \<Longrightarrow> multibulklen c = n \<Longrightarrow> n = 0 \<longrightarrow> bulklen c = -1 \<Longrightarrow>
   case bulk_loop n pos c of
      Go p c' \<Rightarrow> False
    | Break p c' \<Rightarrow> advances pos c p c' \<and> (multibulklen c' = 0 \<longrightarrow> bulklen c' = -1) \<and>
        (bulklen c' \<noteq> -1 \<longrightarrow> int (length (querybuf c') - p) < bulklen c' + 2) \<and>
        (multibulklen c' = 0 \<longrightarrow> n = 0 \<or> length (querybuf c') - p < length (querybuf c) - pos)
    | Return c' r \<Rightarrow> \<not> r \<and> rejected c c'"
proof (induction n arbitrary: pos c)
  case 0
  then show ?case by (simp add: advances_refl)
next
  case (Suc n)
  note h = bulk_header_any [OF Suc.prems(1,2)]
  show ?case
  proof (cases "bulk_header pos c")
    case (Return c' r)
    then show ?thesis using h by simp
  next
    case (Break p c')
    then show ?thesis using h Suc.prems advances_refl [OF Suc.prems(2,1)] by simp
  next
    case (Go p1 c1)
    then have g: "advances pos c p1 c1" "multibulklen c1 = Suc n" "bulklen c1 \<ge> 0" using h Suc.prems(3) by auto
    have p1: "p1 \<le> length (querybuf c1)" using g(1) by (simp add: advances_def)
    note a = bulk_arg_any [OF g(3) p1]
    show ?thesis
    proof (cases "bulk_arg p1 c1")
      case (Return c' r)
      then show ?thesis using a by simp
    next
      case (Break p c')
      then show ?thesis using a g Go by simp
    next
      case go2: (Go p2 c2)
      then have g2: "advances p1 c1 p2 c2" "multibulklen c2 = n" "length (querybuf c2) - p2 < length (querybuf c1) - p1"
        and bm: "n = 0 \<longrightarrow> bulklen c2 = -1" using a g(2) by auto
      have b: "bulklen c2 \<ge> -1" "p2 \<le> length (querybuf c2)" using g2(1) by (auto simp: advances_def)
      have eq: "bulk_loop (Suc n) pos c = bulk_loop n p2 c2" using Go go2 by simp
      note t = advances_trans [OF g(1) g2(1)]
      show ?thesis
      proof (cases "bulk_loop n p2 c2")
        case (Return c' r)
        then have "rejected c2 c'" "\<not> r" using Suc.IH [OF b g2(2) bm] by auto
        then show ?thesis using t eq Return rejected_same by (auto simp: advances_def)
      next
        case (Break p c')
        then have ih: "advances p2 c2 p c'" "multibulklen c' = 0 \<longrightarrow> bulklen c' = -1"
          "bulklen c' \<noteq> -1 \<longrightarrow> int (length (querybuf c') - p) < bulklen c' + 2" using Suc.IH [OF b g2(2) bm] by simp_all
        moreover from ih(1) have "length (querybuf c') - p < length (querybuf c) - pos"
          using g2(3) g(1) by (auto simp: advances_def)
        ultimately show ?thesis using eq Break advances_trans [OF t] by simp
      next
        case (Go p c')
        then show ?thesis using Suc.IH [OF b g2(2) bm] by simp
      qed
    qed
  qed
qed

text \<open>The end of the loop: the buffer is trimmed.\<close>

lemma trimmed_ok:
  assumes a: "advances pos c p c'" and z: "multibulklen c' = 0 \<longrightarrow> bulklen c' = -1 \<and> length (querybuf c') - p < length (querybuf c)"
    and i: "bulklen c' \<noteq> -1 \<longrightarrow> int (length (querybuf c') - p) < bulklen c' + 2"
    and c: "\<not> close_after_reply c" "\<not> blocked c" "reqtype c = Multibulk"
    and d: "d = c'\<lparr>querybuf := drop p (querybuf c')\<rparr>"
  shows "same_rest c d \<and> (\<exists>n. querybuf d = drop n (querybuf c)) \<and>
     (if multibulklen d = 0 then multibulklen d = 0 \<and> bulklen d = -1 \<and> length (querybuf d) < length (querybuf c)
      else parser_ok d \<and> incomplete d)"
proof -
  have "same_rest c d" using a by (auto simp: advances_def same_rest_def d)
  moreover have "\<exists>n. querybuf d = drop n (querybuf c)" using a by (auto simp: advances_def d)
  moreover have "incomplete d" using i by (simp add: incomplete_def d)
  moreover have "parser_ok d" if "multibulklen d \<noteq> 0"
    using a c that by (auto simp: parser_ok_def advances_def same_rest_def d)
  ultimately show ?thesis using z by (simp add: d)
qed

lemma processMultibulkBuffer_any:
  assumes ok: "parser_ok c" and cl: "\<not> close_after_reply c" "\<not> blocked c" and rt: "reqtype c = Multibulk" and ne: "querybuf c \<noteq> []"
  shows "\<exists>c' r. processMultibulkBuffer c = Some (c', r) \<and> (rejected c c' \<and> \<not> r \<or>
     same_rest c c' \<and> (\<exists>n. querybuf c' = drop n (querybuf c)) \<and>
     (if r then multibulklen c' = 0 \<and> bulklen c' = -1 \<and> length (querybuf c') < length (querybuf c)
      else parser_ok c' \<and> incomplete c'))"
proof (cases "multibulklen c = 0")
  case False
  have b: "bulklen c \<ge> -1" using ok cl by (simp add: parser_ok_def)
  have eq: "processMultibulkBuffer c = (case bulk_loop (multibulklen c) 0 c of
             Return c r \<Rightarrow> Some (c, r)
           | Go pos c \<Rightarrow> None
           | Break pos c \<Rightarrow>
               let c = c\<lparr>querybuf := drop pos (querybuf c)\<rparr>
               in Some (c, multibulklen c = 0))"
    using False by (simp add: processMultibulkBuffer_def)
  have bl: "multibulklen c = 0 \<longrightarrow> bulklen c = -1" using ok cl by (auto simp: parser_ok_def)
  note l = bulk_loop_any [OF b _ refl bl, of 0]
  show ?thesis
  proof (cases "bulk_loop (multibulklen c) 0 c")
    case (Break p c')
    let ?d = "c'\<lparr>querybuf := drop p (querybuf c')\<rparr>"
    have eq': "processMultibulkBuffer c = Some (?d, multibulklen ?d = 0)" using eq Break by (simp add: Let_def)
    have t: "same_rest c ?d \<and> (\<exists>n. querybuf ?d = drop n (querybuf c)) \<and>
       (if multibulklen ?d = 0 then multibulklen ?d = 0 \<and> bulklen ?d = -1 \<and> length (querybuf ?d) < length (querybuf c)
        else parser_ok ?d \<and> incomplete ?d)"
      by (rule trimmed_ok [of 0 c p c']) (use l Break False cl rt in auto)
    show ?thesis by (rule exI [of _ ?d], rule exI [of _ "multibulklen ?d = 0"]) (use eq' t in blast)
  next
    case (Return c' r)
    then show ?thesis using l eq by (intro exI [of _ c'] exI [of _ r]) simp
  next
    case (Go p c')
    then show ?thesis using l by simp
  qed
next
  case True
  then have av: "cargv c = []" and hd: "querybuf c ! 0 = 42" and b: "bulklen c = -1" using ok cl rt by (auto simp: parser_ok_def)
  have d: "\<exists>n. querybuf c = drop n (querybuf c)" by (rule exI [of _ 0]) simp
  have keep: ?thesis if "processMultibulkBuffer c = Some (c, False)"
    by (rule exI [of _ c], rule exI [of _ False]) (use that ok d b in \<open>simp add: same_rest_def incomplete_def\<close>)
  have rej: ?thesis if "processMultibulkBuffer c = Some (c', False)" "rejected c c'" for c'
    by (rule exI [of _ c'], rule exI [of _ False]) (use that in simp)
  have big: "processMultibulkBuffer c = Some (setProtocolError 0 (addReplyError e c), False) \<Longrightarrow> ?thesis" for e
    by (erule rej) (simp add: b)
  have mb: "processMultibulkBuffer c = Some (c', r)" if "multibulk_header c = Some (Return c' r)" for c' r
    using that True by (simp add: processMultibulkBuffer_def)
  show ?thesis
  proof (cases "strchr 13 (querybuf c)")
    case None
    show ?thesis
    proof (cases "length (querybuf c) > REDIS_INLINE_MAX_SIZE")
      case True
      show ?thesis by (rule big, rule mb) (simp add: multibulk_header_def av None True)
    next
      case False
      show ?thesis by (rule keep, rule mb) (simp add: multibulk_header_def av None False)
    qed
  next
    case (Some newline)
    show ?thesis
    proof (cases "int newline > int (length (querybuf c)) - 2")
      case True
      show ?thesis by (rule keep, rule mb) (simp add: multibulk_header_def av Some True)
    next
      case line: False
      show ?thesis
      proof (cases "string2ll (take (newline - 1) (drop 1 (querybuf c)))")
        case None
        show ?thesis by (rule big, rule mb) (use line None hd in \<open>simp add: multibulk_header_def av Some\<close>)
      next
        case ll: (Some ll)
        consider "ll > 1024 * 1024" | "ll \<le> 0" | "0 < ll" "ll \<le> 1024 * 1024" by linarith
        then show ?thesis
        proof cases
          case 1
          show ?thesis by (rule big, rule mb) (use line ll hd 1 in \<open>simp add: multibulk_header_def av Some\<close>)
        next
          case 2
          let ?d = "c\<lparr>querybuf := drop (newline + 2) (querybuf c)\<rparr>"
          have "processMultibulkBuffer c = Some (?d, True)"
            by (rule mb) (use line ll hd 2 in \<open>simp add: multibulk_header_def av Some\<close>)
          moreover have "length (querybuf ?d) < length (querybuf c)" using ne by simp
          moreover have "same_rest c ?d" by (simp add: same_rest_def)
          moreover have "\<exists>n. querybuf ?d = drop n (querybuf c)" by auto
          ultimately show ?thesis using True b by (intro exI [of _ ?d] exI [of _ True]) simp
        next
          case 3
          let ?c = "c\<lparr>multibulklen := nat ll, cargv := []\<rparr>"
          have eq: "processMultibulkBuffer c = (case bulk_loop (nat ll) (newline + 2) ?c of
             Return c r \<Rightarrow> Some (c, r)
           | Go pos c \<Rightarrow> None
           | Break pos c \<Rightarrow>
               let c = c\<lparr>querybuf := drop pos (querybuf c)\<rparr>
               in Some (c, multibulklen c = 0))"
            using 3 Some line av hd ll True by (simp add: processMultibulkBuffer_def multibulk_header_def)
          have l: "case bulk_loop (nat ll) (newline + 2) ?c of
              Go p c' \<Rightarrow> False
            | Break p c' \<Rightarrow> advances (newline + 2) ?c p c' \<and> (multibulklen c' = 0 \<longrightarrow> bulklen c' = -1) \<and>
                (bulklen c' \<noteq> -1 \<longrightarrow> int (length (querybuf c') - p) < bulklen c' + 2) \<and>
                (multibulklen c' = 0 \<longrightarrow> nat ll = 0 \<or> length (querybuf c') - p < length (querybuf ?c) - (newline + 2))
            | Return c' r \<Rightarrow> \<not> r \<and> rejected ?c c'"
            by (rule bulk_loop_any) (use b line 3 in \<open>simp_all add: nat_eq_iff\<close>)
          show ?thesis
          proof (cases "bulk_loop (nat ll) (newline + 2) ?c")
            case (Break p c')
            let ?d = "c'\<lparr>querybuf := drop p (querybuf c')\<rparr>"
            have eq': "processMultibulkBuffer c = Some (?d, multibulklen ?d = 0)" using eq Break by (simp add: Let_def)
            have t: "same_rest ?c ?d \<and> (\<exists>n. querybuf ?d = drop n (querybuf ?c)) \<and>
               (if multibulklen ?d = 0 then multibulklen ?d = 0 \<and> bulklen ?d = -1 \<and> length (querybuf ?d) < length (querybuf ?c)
                else parser_ok ?d \<and> incomplete ?d)"
              by (rule trimmed_ok [of "newline + 2" ?c p c']) (use l Break 3 cl rt in auto)
            have "same_rest c ?d" using t by (simp add: same_rest_def)
            then show ?thesis by (intro exI [of _ ?d] exI [of _ "multibulklen ?d = 0"]) (use eq' t in \<open>simp split: if_split_asm\<close>)
          next
            case (Return c' r)
            then show ?thesis using l eq by (intro exI [of _ c'] exI [of _ r]) (simp add: rejected_def)
          next
            case (Go p c')
            then show ?thesis using l by simp
          qed
        qed
      qed
    qed
  qed
qed

lemma processInlineBuffer_any:
  assumes "processInlineBuffer t c = (c', r)" and "querybuf c \<noteq> []" and "bulklen c = -1"
  shows "(rejected c c' \<and> \<not> r) \<or> (c' = c \<and> \<not> r) \<or>
    (r \<and> length (querybuf c') < length (querybuf c) \<and> world c' = world c \<and> sent_errors c' = sent_errors c \<and>
     reqtype c' = reqtype c \<and> multibulklen c' = multibulklen c \<and> bulklen c' = bulklen c \<and>
     close_after_reply c' = close_after_reply c \<and> blocked c' = blocked c)"
  using assms by (auto simp: processInlineBuffer_def Let_def split: option.splits if_splits)

text \<open>
  One round: it never fails an assertion; it keeps what must hold; it consumes when it asks for
  another round, unless the client is being closed.
\<close>

lemma input_round_any:
  assumes ok: "parser_ok c" and pc: "command_contract pc" and ne: "querybuf c \<noteq> []"
  shows "\<exists>c' more. input_round pc t c = Some (c', more) \<and> parser_ok c' \<and>
    (if more then length (querybuf c') < length (querybuf c) else incomplete c')"
proof (cases "blocked c \<or> close_after_reply c")
  case True
  then show ?thesis using ok
    by (intro exI [of _ c] exI [of _ False]) (auto simp: input_round_def parser_ok_def incomplete_def)
next
  case False
  let ?c = "if reqtype c = Unknown then c\<lparr>reqtype := (if querybuf c ! 0 = 42 then Multibulk else Inline)\<rparr> else c"
  have ok1: "parser_ok ?c" using ok ne False by (auto simp: parser_ok_def)
  have cl: "\<not> close_after_reply ?c" "\<not> blocked ?c" and qb: "querybuf ?c = querybuf c" and ty: "reqtype ?c \<noteq> Unknown" using False by auto
  have fin: "\<exists>c'' more. (if length (cargv c') = 0 then Some (resetClient c', True)
        else let (c, ok) = pc c' in Some (if ok then resetClient c else c, True)) = Some (c'', more) \<and> parser_ok c'' \<and>
      (if more then length (querybuf c'') < length (querybuf c) else incomplete c'')"
    if "length (querybuf c') < length (querybuf c)" "bulklen c' = -1" for c'
  proof -
    obtain c2 r where p: "pc c' = (c2, r)" by fastforce
    then have "querybuf c2 = querybuf c'" "bulklen c2 = -1" "\<not> r \<longrightarrow> close_after_reply c2" using pc that(2) by (auto simp: command_contract_def dest: spec [of _ c'])
    then show ?thesis using that p by (auto simp: parser_ok_def resetClient_def)
  qed
  show ?thesis
  proof (cases "reqtype ?c = Inline")
    case True
    obtain c' r where i: "processInlineBuffer t ?c = (c', r)" by fastforce
    have bm: "bulklen ?c = -1" using ok1 cl True by (auto simp: parser_ok_def)
    from processInlineBuffer_any [OF i _ bm] ne qb bm
    consider "rejected ?c c'" "\<not> r" | "c' = ?c" "\<not> r" |
      "r" "length (querybuf c') < length (querybuf c)" "bulklen c' = -1" by fastforce
    then show ?thesis
    proof cases
      case 1
      then have "parser_ok c'" "incomplete c'" by (auto simp: rejected_def parser_ok_def incomplete_def)
      then show ?thesis using False True i 1 by (intro exI [of _ c'] exI [of _ False]) (simp add: input_round_def)
    next
      case 2
      then have "incomplete c'" using bm by (simp add: incomplete_def)
      then show ?thesis using False True i 2 ok1 by (intro exI [of _ ?c] exI [of _ False]) (simp add: input_round_def)
    next
      case 3
      have "input_round pc t c = (if length (cargv c') = 0 then Some (resetClient c', True)
        else let (c, ok) = pc c' in Some (if ok then resetClient c else c, True))"
        using False True i 3 by (simp add: input_round_def)
      then show ?thesis using fin [OF 3(2,3)] by simp
    qed
  next
    case mb: False
    then have rt: "reqtype ?c = Multibulk" using ty by (cases "reqtype ?c") auto
    obtain c' r where m: "processMultibulkBuffer ?c = Some (c', r)" "rejected ?c c' \<and> \<not> r \<or>
     same_rest ?c c' \<and> (\<exists>n. querybuf c' = drop n (querybuf ?c)) \<and>
     (if r then multibulklen c' = 0 \<and> bulklen c' = -1 \<and> length (querybuf c') < length (querybuf ?c)
      else parser_ok c' \<and> incomplete c')"
      using processMultibulkBuffer_any [OF ok1 cl rt] ne qb by auto
    show ?thesis
    proof (cases r)
      case True
      then have less: "length (querybuf c') < length (querybuf c)" "bulklen c' = -1" using m(2) qb by auto
      have "input_round pc t c = (if length (cargv c') = 0 then Some (resetClient c', True)
        else let (c, ok) = pc c' in Some (if ok then resetClient c else c, True))"
        using False mb m(1) True by (simp add: input_round_def)
      then show ?thesis using fin [OF less] by simp
    next
      case False
      then have "parser_ok c'" "incomplete c'" using m(2) by (auto simp: rejected_def parser_ok_def incomplete_def)
      then show ?thesis using \<open>\<not> (blocked c \<or> close_after_reply c)\<close> mb m(1) False
        by (intro exI [of _ c'] exI [of _ False]) (simp add: input_round_def)
    qed
  qed
qed

lemma processInputBuffer_any:
  assumes pc: "command_contract pc"
  shows "parser_ok c \<Longrightarrow> \<exists>c'. processInputBuffer pc t c = Some c' \<and> parser_ok c' \<and> incomplete c'"
proof (induction "length (querybuf c)" arbitrary: c rule: less_induct)
  case less
  show ?case
  proof (cases "querybuf c = []")
    case True
    have "incomplete c" using less.prems True by (auto simp: parser_ok_def incomplete_def)
    then show ?thesis using less.prems True by (subst processInputBuffer.simps) simp
  next
    case False
    obtain c1 more where r: "input_round pc t c = Some (c1, more)" "parser_ok c1"
      "if more then length (querybuf c1) < length (querybuf c) else incomplete c1"
      using input_round_any [OF less.prems pc False] by blast
    show ?thesis
    proof (cases more)
      case True
      then obtain c' where "processInputBuffer pc t c1 = Some c'" "parser_ok c'" "incomplete c'" using less.hyps r by auto
      then show ?thesis using False r(1) True by (subst processInputBuffer.simps) simp
    next
      case False
      then show ?thesis using \<open>querybuf c \<noteq> []\<close> r by (subst processInputBuffer.simps) simp
    qed
  qed
qed

text \<open>A read: the number of bytes asked for is positive, and the client is kept or released.\<close>

lemma readlen_pos: "incomplete c \<Longrightarrow> 0 < readlen c"
  by (auto simp: readlen_def incomplete_def REDIS_IOBUF_LEN_def)

lemma readQueryFromClient_any:
  assumes "command_contract pc" "parser_ok c" "incomplete c"
  shows "\<exists>c' rest. readQueryFromClient pc t m ret sock c = Some (c', rest) \<and>
    (\<forall>c''. c' = Some c'' \<longrightarrow> parser_ok c'' \<and> incomplete c'')"
proof -
  let ?c = "c\<lparr>querybuf_peak := max (querybuf_peak c) (length (querybuf c))\<rparr>"
  have rl: "0 < readlen ?c" using assms(3) by (intro readlen_pos) (simp add: incomplete_def)
  show ?thesis
  proof (cases ret)
    case (Got k)
    let ?n = "min k (min (nat (readlen ?c)) (length sock))"
    let ?d = "?c\<lparr>querybuf := querybuf ?c @ take ?n sock, lastinteraction := t,
        reploff := (if master ?c then reploff ?c + int ?n else reploff ?c)\<rparr>"
    have "parser_ok ?d" using assms(2) by (auto simp: parser_ok_def nth_append)
    from processInputBuffer_any [OF assms(1) this, of t] obtain c' where
      "processInputBuffer pc t ?d = Some c'" "parser_ok c'" "incomplete c'" by blast
    then show ?thesis using rl Got by (auto simp: readQueryFromClient_def Let_def)
  qed (use rl assms(2,3) in \<open>auto simp: readQueryFromClient_def Let_def parser_ok_def incomplete_def\<close>)
qed

end
