(* ===== verification/Query_Stream.thy ===== *)
theory Query_Stream
  imports Query_Parse
begin

text \<open>
  Streams of well-formed multi bulk requests, read in pieces of any size: the commands run once
  each, in order, whatever the cuts, and no piece is mistaken for an error.
\<close>

section \<open>The encoding of commands\<close>

definition enc_arg :: "byte list \<Rightarrow> byte list" where
  "enc_arg a = 36 # decimal (int (length a)) @ [13, 10] @ a @ [13, 10]"

definition enc_args :: "byte list list \<Rightarrow> byte list" where
  "enc_args as = concat (map enc_arg as)"

definition enc_cmd :: "byte list list \<Rightarrow> byte list" where
  "enc_cmd as = 42 # decimal (int (length as)) @ [13, 10] @ enc_args as"

definition ok_arg :: "byte list \<Rightarrow> bool" where
  "ok_arg a \<longleftrightarrow> length a \<le> 512 * 1024 * 1024"

definition ok_cmd :: "byte list list \<Rightarrow> bool" where
  "ok_cmd as \<longleftrightarrow> as \<noteq> [] \<and> length as \<le> 1024 * 1024 \<and> (\<forall>a \<in> set as. ok_arg a)"

lemma enc_args_simps [simp]: "enc_args [] = []" "enc_args (a # as) = enc_arg a @ enc_args as"
  by (simp_all add: enc_args_def)

lemma decimal_plain: "0 \<le> v \<Longrightarrow> 13 \<notin> set (decimal v) \<and> 0 \<notin> set (decimal v)"
  using dec_nat_digits [of 13 "nat v"] dec_nat_digits [of 0 "nat v"] by (auto simp: decimal_def)

lemma decimal_read: "n \<le> 512 * 1024 * 1024 \<Longrightarrow> string2ll (decimal (int n)) = Some (int n)"
  by (rule string2ll_decimal) (simp add: fits_def)

lemma decimal_short: "n \<le> 512 * 1024 * 1024 \<Longrightarrow> length (decimal (int n)) \<le> 20"
  by (rule length_decimal_le) (simp add: fits_def)

section \<open>The loop over the arguments\<close>

text \<open>
  What is still to come, \<open>S\<close>, when the arguments \<open>as\<close> are missing and the length of the first is
  known or not; and how much of it the parser needs to go on.
\<close>

definition pending :: "int \<Rightarrow> byte list list \<Rightarrow> byte list \<Rightarrow> byte list \<Rightarrow> bool" where
  "pending bl as rest S \<longleftrightarrow>
     (if bl = -1 then S = enc_args as @ rest
      else \<exists>a as'. as = a # as' \<and> bl = int (length a) \<and> S = a @ [13, 10] @ enc_args as' @ rest)"

definition needed :: "int \<Rightarrow> byte list list \<Rightarrow> nat" where
  "needed bl as = (case as of [] \<Rightarrow> 0
     | a # _ \<Rightarrow> if bl = -1 then length (decimal (int (length a))) + 3 else length a + 2)"

lemma bulk_header_stream:
  assumes b: "bulklen c = -1" and S: "drop pos (querybuf c) @ f = enc_arg a @ rest" and a: "ok_arg a"
    and sz: "length (querybuf c) \<le> REDIS_INLINE_MAX_SIZE" and pos: "pos \<le> length (querybuf c)"
  shows "if length (querybuf c) - pos < needed (-1) [a] then bulk_header pos c = Break pos c
    else \<exists>q p. bulk_header pos c = Go p (c\<lparr>querybuf := q, bulklen := int (length a)\<rparr>) \<and> p \<le> length q \<and>
      length q \<le> length (querybuf c) \<and> drop p q @ f = a @ [13, 10] @ rest"
proof -
  let ?X = "36 # decimal (int (length a))" and ?b = "drop pos (querybuf c)"
  let ?r = "10 # a @ [13, 10] @ rest"
  have X: "13 \<notin> set ?X" "0 \<notin> set ?X" using decimal_plain [of "int (length a)"] by auto
  have st: "?b @ f = ?X @ 13 # ?r" using S by (simp add: enc_arg_def)
  have b': "?b = take (length ?b) (?X @ 13 # ?r)" using st by (metis append_eq_conv_conj)
  have ch: "strchr 13 ?b = (if length ?X < length ?b then Some (length ?X) else None)"
    using strchr_line [OF X, of "length ?b" ?r] b' by simp
  have lenb: "length ?b = length (querybuf c) - pos" by simp
  show ?thesis
  proof (cases "length ?X < length ?b")
    case False
    then have "bulk_header pos c = Break pos c" using b ch sz by (simp add: bulk_header_def)
    then show ?thesis using False by (auto simp: needed_def)
  next
    case True
    note s = ch [unfolded if_P [OF True]]
    show ?thesis
    proof (cases "int (pos + length ?X) > int (length (querybuf c)) - 2")
      case short: True
      then have "bulk_header pos c = Break pos c" using b s by (simp add: bulk_header_def Let_def)
      then show ?thesis using short pos by (auto simp: needed_def)
    next
      case False
      then have n: "length ?X + 2 \<le> length ?b" using pos by simp
      have pre: "take (length ?X) ?b = ?X" "drop (length ?X + 2) ?b @ f = a @ [13, 10] @ rest"
      proof -
        have "take (length ?X) ?b = take (length ?X) (?b @ f)" using True by simp
        also have "\<dots> = ?X" unfolding st by simp
        finally show "take (length ?X) ?b = ?X" .
        have "drop (length ?X + 2) (?b @ f) = drop (length ?X + 2) ?b @ f" using n by simp
        then show "drop (length ?X + 2) ?b @ f = a @ [13, 10] @ rest" unfolding st by simp
      qed
      have h: "querybuf c ! pos = 36"
      proof -
        have "?b ! 0 = take (length ?X) ?b ! 0" using True by simp
        also have "\<dots> = 36" by (simp only: pre(1) nth_Cons_0)
        finally show ?thesis using pos by (simp add: nth_drop)
      qed
      have t: "take (pos + length ?X - (pos + 1)) (drop (pos + 1) (querybuf c)) = decimal (int (length a))"
      proof -
        have "take (pos + length ?X - (pos + 1)) (drop (pos + 1) (querybuf c)) = drop 1 (take (length ?X) ?b)"
          by (simp add: drop_take add.commute)
        also have "\<dots> = drop 1 ?X" by (simp only: pre(1))
        finally show ?thesis by simp
      qed
      have ll: "string2ll (decimal (int (length a))) = Some (int (length a))"
        using a by (intro decimal_read) (simp add: ok_arg_def)
      have small: "\<not> (int (length a) < 0 \<or> int (length a) > 512 * 1024 * 1024)" using a by (simp add: ok_arg_def)
      have d: "drop (pos + length ?X + 2) (querybuf c) = drop (length ?X + 2) ?b" by (simp add: ac_simps)
      have eq: "bulk_header pos c = (if int (length a) \<ge> int REDIS_MBULK_BIG_ARG
                 then Go 0 (c\<lparr>querybuf := drop (pos + length ?X + 2) (querybuf c), bulklen := int (length a)\<rparr>)
                 else Go (pos + length ?X + 2) (c\<lparr>bulklen := int (length a)\<rparr>))"
        using b s False h small unfolding bulk_header_def
        by (simp only: option.case Let_def t ll if_False simp_thms refl not_True_eq_False HOL.if_True)
      show ?thesis
      proof (cases "int (length a) \<ge> int REDIS_MBULK_BIG_ARG")
        case True
        have "\<not> length (querybuf c) - pos < needed (-1) [a]" using n by (simp add: needed_def)
        moreover have "bulk_header pos c = Go 0 (c\<lparr>querybuf := drop (pos + length ?X + 2) (querybuf c), bulklen := int (length a)\<rparr>)"
          using eq True by simp
        moreover have "drop 0 (drop (pos + length ?X + 2) (querybuf c)) @ f = a @ [13, 10] @ rest" using pre(2) d by simp
        ultimately show ?thesis unfolding if_not_P [OF \<open>\<not> length (querybuf c) - pos < needed (-1) [a]\<close>]
          by (intro exI [of _ "drop (pos + length ?X + 2) (querybuf c)"] exI [of _ 0]) simp
      next
        case False
        have "\<not> length (querybuf c) - pos < needed (-1) [a]" using n by (simp add: needed_def)
        moreover have "bulk_header pos c = Go (pos + length ?X + 2) (c\<lparr>querybuf := querybuf c, bulklen := int (length a)\<rparr>)"
          using eq False by simp
        moreover have "drop (pos + length ?X + 2) (querybuf c) @ f = a @ [13, 10] @ rest" using pre(2) d by simp
        moreover have "pos + length ?X + 2 \<le> length (querybuf c)" using n pos by simp
        ultimately show ?thesis unfolding if_not_P [OF \<open>\<not> length (querybuf c) - pos < needed (-1) [a]\<close>]
          by (intro exI [of _ "querybuf c"] exI [of _ "pos + length ?X + 2"]) simp
      qed
    qed
  qed
qed

lemma bulk_arg_stream:
  assumes b: "bulklen c = int (length a)" and S: "drop pos (querybuf c) @ f = a @ [13, 10] @ rest"
    and pos: "pos \<le> length (querybuf c)"
  shows "if length (querybuf c) - pos < length a + 2 then bulk_arg pos c = Break pos c
    else \<exists>q p. bulk_arg pos c = Go p (c\<lparr>querybuf := q, cargv := cargv c @ [a], bulklen := -1,
        multibulklen := multibulklen c - 1\<rparr>) \<and> p \<le> length q \<and> drop p q @ f = rest \<and>
      (q = [] \<or> q = querybuf c \<and> \<not> (pos = 0 \<and> length a \<ge> REDIS_MBULK_BIG_ARG \<and> length q \<le> length a + 2))"
proof (cases "length (querybuf c) - pos < length a + 2")
  case True
  then show ?thesis using b by (simp add: bulk_arg_def)
next
  case False
  let ?b = "drop pos (querybuf c)"
  have len: "length a + 2 \<le> length ?b" using False by simp
  have t: "take (length a) ?b = a" and d: "drop (length a + 2) ?b @ f = rest"
  proof -
    have "take (length a) ?b = take (length a) (?b @ f)" using len by simp
    then show "take (length a) ?b = a" unfolding S by simp
    have "drop (length a + 2) ?b @ f = drop (length a + 2) (?b @ f)" using len by simp
    then show "drop (length a + 2) ?b @ f = rest" unfolding S by simp
  qed
  show ?thesis
  proof (cases "pos = 0 \<and> length a \<ge> REDIS_MBULK_BIG_ARG \<and> length (querybuf c) = length a + 2")
    case True
    then have "bulk_arg pos c = Go 0 (c\<lparr>querybuf := [], cargv := cargv c @ [a], bulklen := -1, multibulklen := multibulklen c - 1\<rparr>)"
      using b t by (simp add: bulk_arg_def)
    moreover have "f = rest" using True d by simp
    ultimately show ?thesis unfolding if_not_P [OF False]
      by (intro exI [of _ "[]"] exI [of _ 0]) simp
  next
    case nb: False
    then have "bulk_arg pos c = Go (pos + length a + 2) (c\<lparr>querybuf := querybuf c, cargv := cargv c @ [a], bulklen := -1,
        multibulklen := multibulklen c - 1\<rparr>)"
      using b t False by (auto simp: bulk_arg_def Let_def)
    moreover have "drop (pos + length a + 2) (querybuf c) @ f = rest" using d by (simp add: ac_simps)
    moreover have "pos + length a + 2 \<le> length (querybuf c)" using len pos by simp
    ultimately show ?thesis unfolding if_not_P [OF False] using nb False
      by (intro exI [of _ "querybuf c"] exI [of _ "pos + length a + 2"]) auto
  qed
qed

text \<open>
  The size of the buffer: below the limit on lines, or no more than a big argument that is read
  into it.
\<close>

definition fits_buffer :: "nat \<Rightarrow> 'w client \<Rightarrow> bool" where
  "fits_buffer pos c \<longleftrightarrow> length (querybuf c) \<le> REDIS_INLINE_MAX_SIZE \<or>
     pos = 0 \<and> bulklen c \<ge> int REDIS_MBULK_BIG_ARG \<and> int (length (querybuf c)) \<le> bulklen c + 2"

lemma bulk_loop_stream:
  "pending (bulklen c) as rest (drop pos (querybuf c) @ f) \<Longrightarrow> \<forall>a \<in> set as. ok_arg a \<Longrightarrow>
   pos \<le> length (querybuf c) \<Longrightarrow> fits_buffer pos c \<Longrightarrow> multibulklen c = length as \<Longrightarrow> (as = [] \<longrightarrow> bulklen c = -1) \<Longrightarrow>
   \<exists>ds as' bl q p. as = ds @ as' \<and>
     bulk_loop (length as) pos c = Break p (c\<lparr>querybuf := q, cargv := cargv c @ ds, bulklen := bl, multibulklen := length as'\<rparr>) \<and>
     p \<le> length q \<and> pending bl as' rest (drop p q @ f) \<and> (as' = [] \<longrightarrow> bl = -1 \<and> length q \<le> REDIS_INLINE_MAX_SIZE) \<and>
     (as' \<noteq> [] \<longrightarrow> length q - p < needed bl as')"
proof (induction as arbitrary: pos c)
  case Nil
  have "bulk_loop (length []) pos c = Break pos (c\<lparr>querybuf := querybuf c, cargv := cargv c @ [], bulklen := bulklen c, multibulklen := length []\<rparr>)"
    using Nil.prems(5) by simp
  moreover have "length (querybuf c) \<le> REDIS_INLINE_MAX_SIZE"
    using Nil.prems(4,6) by (auto simp: fits_buffer_def REDIS_MBULK_BIG_ARG_def)
  ultimately show ?case using Nil.prems(1,3,6)
    by (intro exI [of _ "[]"] exI [of _ "bulklen c"] exI [of _ "querybuf c"] exI [of _ pos]) simp
next
  case (Cons a as)
  have stop: ?case
    if "bulk_loop (length (a # as)) pos c = Break p (c\<lparr>querybuf := q, bulklen := bl\<rparr>)" "p \<le> length q"
      "pending bl (a # as) rest (drop p q @ f)" "length q - p < needed bl (a # as)" for q p bl
  proof -
    have "c\<lparr>querybuf := q, bulklen := bl\<rparr> = c\<lparr>querybuf := q, cargv := cargv c @ [], bulklen := bl, multibulklen := length (a # as)\<rparr>"
      using Cons.prems(5) by simp
    then show ?thesis using that by (intro exI [of _ "[]"] exI [of _ "a # as"] exI [of _ bl] exI [of _ q] exI [of _ p]) auto
  qed
  have go: ?case
    if h: "bulk_header pos c = Go p1 (c\<lparr>querybuf := q1, bulklen := int (length a)\<rparr>)" "p1 \<le> length q1"
      "drop p1 q1 @ f = a @ [13, 10] @ enc_args as @ rest"
      and sz: "length q1 \<le> REDIS_INLINE_MAX_SIZE \<or> p1 = 0 \<and> length a \<ge> REDIS_MBULK_BIG_ARG \<and> length q1 \<le> length a + 2" for q1 p1
  proof -
    let ?c1 = "c\<lparr>querybuf := q1, bulklen := int (length a)\<rparr>"
    have arg: "if length q1 - p1 < length a + 2 then bulk_arg p1 ?c1 = Break p1 ?c1
      else \<exists>q p. bulk_arg p1 ?c1 = Go p (?c1\<lparr>querybuf := q, cargv := cargv ?c1 @ [a], bulklen := -1,
          multibulklen := multibulklen ?c1 - 1\<rparr>) \<and> p \<le> length q \<and> drop p q @ f = enc_args as @ rest \<and>
        (q = [] \<or> q = q1 \<and> \<not> (p1 = 0 \<and> length a \<ge> REDIS_MBULK_BIG_ARG \<and> length q \<le> length a + 2))"
      using bulk_arg_stream [of ?c1 a p1 f "enc_args as @ rest"] h(2,3) by (simp split: if_split_asm)
    show ?thesis
    proof (cases "length q1 - p1 < length a + 2")
      case True
      then have "bulk_loop (length (a # as)) pos c = Break p1 ?c1" using h(1) arg by simp
      then show ?thesis using h(2,3) True by (intro stop) (auto simp: pending_def needed_def)
    next
      case False
      obtain q p where g: "bulk_arg p1 ?c1 = Go p (?c1\<lparr>querybuf := q, cargv := cargv ?c1 @ [a], bulklen := -1,
          multibulklen := multibulklen ?c1 - 1\<rparr>)" "p \<le> length q" "drop p q @ f = enc_args as @ rest"
        "q = [] \<or> q = q1 \<and> \<not> (p1 = 0 \<and> length a \<ge> REDIS_MBULK_BIG_ARG \<and> length q \<le> length a + 2)"
        using arg False by auto
      let ?c2 = "c\<lparr>querybuf := q, cargv := cargv c @ [a], bulklen := -1, multibulklen := length as\<rparr>"
      have c2: "?c1\<lparr>querybuf := q, cargv := cargv ?c1 @ [a], bulklen := -1, multibulklen := multibulklen ?c1 - 1\<rparr> = ?c2"
        using Cons.prems(5) by simp
      have "\<exists>ds as' bl q' p'. as = ds @ as' \<and>
         bulk_loop (length as) p ?c2 = Break p' (?c2\<lparr>querybuf := q', cargv := cargv ?c2 @ ds, bulklen := bl, multibulklen := length as'\<rparr>) \<and>
         p' \<le> length q' \<and> pending bl as' rest (drop p' q' @ f) \<and> (as' = [] \<longrightarrow> bl = -1 \<and> length q' \<le> REDIS_INLINE_MAX_SIZE) \<and>
         (as' \<noteq> [] \<longrightarrow> length q' - p' < needed bl as')"
      proof (rule Cons.IH)
        show "fits_buffer p ?c2" using g(4) sz by (auto simp: fits_buffer_def)
      qed (use g(2,3) Cons.prems(2) in \<open>auto simp: pending_def\<close>)
      then obtain ds as' bl q' p' where r: "as = ds @ as'"
         "bulk_loop (length as) p ?c2 = Break p' (?c2\<lparr>querybuf := q', cargv := cargv ?c2 @ ds, bulklen := bl, multibulklen := length as'\<rparr>)"
         "p' \<le> length q'" "pending bl as' rest (drop p' q' @ f)" "as' = [] \<longrightarrow> bl = -1 \<and> length q' \<le> REDIS_INLINE_MAX_SIZE"
         "as' \<noteq> [] \<longrightarrow> length q' - p' < needed bl as'" by blast
      have "bulk_loop (length (a # as)) pos c =
          Break p' (c\<lparr>querybuf := q', cargv := cargv c @ (a # ds), bulklen := bl, multibulklen := length as'\<rparr>)"
        using h(1) g(1) c2 r(2) by simp
      then show ?thesis using r(1,3-) by (intro exI [of _ "a # ds"] exI [of _ as'] exI [of _ bl] exI [of _ q'] exI [of _ p']) simp
    qed
  qed
  show ?case
  proof (cases "bulklen c = -1")
    case False
    then have p: "bulklen c = int (length a)" "drop pos (querybuf c) @ f = a @ [13, 10] @ enc_args as @ rest"
      using Cons.prems(1) by (auto simp: pending_def)
    have "bulk_header pos c = Go pos (c\<lparr>querybuf := querybuf c, bulklen := int (length a)\<rparr>)"
      using p(1) by (simp add: bulk_header_def)
    then show ?thesis using p Cons.prems(3,4) by (intro go) (auto simp: fits_buffer_def)
  next
    case True
    have S: "drop pos (querybuf c) @ f = enc_arg a @ enc_args as @ rest"
      using Cons.prems(1) True by (simp add: pending_def)
    have sz: "length (querybuf c) \<le> REDIS_INLINE_MAX_SIZE"
      using Cons.prems(4) True by (auto simp: fits_buffer_def REDIS_MBULK_BIG_ARG_def)
    have "ok_arg a" using Cons.prems(2) by simp
    note h = bulk_header_stream [OF True S this sz Cons.prems(3)]
    show ?thesis
    proof (cases "length (querybuf c) - pos < needed (-1) [a]")
      case short: True
      have "c\<lparr>querybuf := querybuf c, bulklen := -1\<rparr> = c" using True by simp
      then have "bulk_loop (length (a # as)) pos c = Break pos (c\<lparr>querybuf := querybuf c, bulklen := -1\<rparr>)"
        using h short by simp
      then show ?thesis using short S Cons.prems(3) by (intro stop) (auto simp: pending_def needed_def)
    next
      case False
      then obtain q p where "bulk_header pos c = Go p (c\<lparr>querybuf := q, bulklen := int (length a)\<rparr>)" "p \<le> length q"
        "length q \<le> length (querybuf c)" "drop p q @ f = a @ [13, 10] @ enc_args as @ rest" using h by auto
      then show ?thesis using sz by (intro go) auto
    qed
  qed
qed

section \<open>One request\<close>

lemma multibulk_header_stream:
  assumes av: "cargv c = []" and S: "querybuf c @ f = enc_cmd as @ rest" and as: "ok_cmd as"
    and sz: "length (querybuf c) \<le> REDIS_INLINE_MAX_SIZE"
  shows "if length (querybuf c) < length (decimal (int (length as))) + 3 then multibulk_header c = Some (Return c False)
    else \<exists>p. multibulk_header c = Some (Go p (c\<lparr>multibulklen := length as, cargv := []\<rparr>)) \<and> p \<le> length (querybuf c) \<and>
      drop p (querybuf c) @ f = enc_args as @ rest"
proof -
  let ?X = "42 # decimal (int (length as))" and ?b = "querybuf c"
  let ?r = "10 # enc_args as @ rest"
  have X: "13 \<notin> set ?X" "0 \<notin> set ?X" using decimal_plain [of "int (length as)"] by auto
  have st: "?b @ f = ?X @ 13 # ?r" using S by (simp add: enc_cmd_def)
  have b': "?b = take (length ?b) (?X @ 13 # ?r)" using st by (metis append_eq_conv_conj)
  have ch: "strchr 13 ?b = (if length ?X < length ?b then Some (length ?X) else None)"
    using strchr_line [OF X, of "length ?b" ?r] b' by simp
  show ?thesis
  proof (cases "length ?X < length ?b")
    case False
    then have "multibulk_header c = Some (Return c False)" using av ch sz by (simp add: multibulk_header_def)
    then show ?thesis using False by auto
  next
    case True
    note s = ch [unfolded if_P [OF True]]
    show ?thesis
    proof (cases "int (length ?X) > int (length ?b) - 2")
      case short: True
      then have "multibulk_header c = Some (Return c False)" using av s by (simp add: multibulk_header_def)
      then show ?thesis using short by auto
    next
      case False
      then have n: "length ?X + 2 \<le> length ?b" by simp
      have pre: "take (length ?X) ?b = ?X"
      proof -
        have "take (length ?X) ?b = take (length ?X) (?b @ f)" using True by simp
        also have "\<dots> = ?X" unfolding st by simp
        finally show ?thesis .
      qed
      have d: "drop (length ?X + 2) ?b @ f = enc_args as @ rest"
      proof -
        have "drop (length ?X + 2) (?b @ f) = drop (length ?X + 2) ?b @ f" using n by simp
        then show ?thesis unfolding st by simp
      qed
      have h: "?b ! 0 = 42"
      proof -
        have "?b ! 0 = take (length ?X) ?b ! 0" using True by simp
        also have "\<dots> = 42" by (simp only: pre nth_Cons_0)
        finally show ?thesis .
      qed
      have t: "take (length ?X - 1) (drop 1 ?b) = decimal (int (length as))"
      proof -
        have "take (length ?X - 1) (drop 1 ?b) = drop 1 (take (length ?X) ?b)" by (simp add: drop_take)
        also have "\<dots> = drop 1 ?X" by (simp only: pre)
        finally show ?thesis by simp
      qed
      have ll: "string2ll (decimal (int (length as))) = Some (int (length as))"
        using as by (intro decimal_read) (simp add: ok_cmd_def)
      have small: "\<not> int (length as) > 1024 * 1024" "\<not> int (length as) \<le> 0" using as by (auto simp: ok_cmd_def)
      have "multibulk_header c = Some (Go (length ?X + 2) (c\<lparr>multibulklen := length as, cargv := []\<rparr>))"
        unfolding multibulk_header_def using av s False h small
        by (simp only: option.case t ll if_False simp_thms nat_int refl not_True_eq_False HOL.if_True)
      moreover have nn: "\<not> length ?b < length (decimal (int (length as))) + 3" using n by simp
      ultimately show ?thesis unfolding if_not_P [OF nn] using n d by (intro exI [of _ "length ?X + 2"]) simp
    qed
  qed
qed

abbreviation stream :: "byte list list list \<Rightarrow> byte list" where
  "stream cs \<equiv> concat (map enc_cmd cs)"

text \<open>The commands \<open>cs\<close> are still to run, and \<open>S\<close> are the bytes from here on.\<close>

definition serving :: "'w client \<Rightarrow> byte list list list \<Rightarrow> byte list \<Rightarrow> bool" where
  "serving c cs S \<longleftrightarrow> \<not> close_after_reply c \<and> \<not> blocked c \<and>
     (if multibulklen c = 0 then cargv c = [] \<and> bulklen c = -1 \<and> reqtype c \<noteq> Inline \<and> S = stream cs
      else reqtype c = Multibulk \<and> (\<exists>as cs'. cs = (cargv c @ as) # cs' \<and> multibulklen c = length as \<and>
        pending (bulklen c) as (stream cs') S))"

text \<open>The buffer does not hold what the parser waits for.\<close>

definition short :: "'w client \<Rightarrow> byte list list list \<Rightarrow> bool" where
  "short c cs \<longleftrightarrow> (case cs of
       [] \<Rightarrow> querybuf c = []
     | cmd # _ \<Rightarrow> length (querybuf c) <
         (if multibulklen c = 0 then length (decimal (int (length cmd))) + 3
          else needed (bulklen c) (drop (length (cargv c)) cmd)))"

definition runs :: "('w client \<Rightarrow> 'w client \<times> bool) \<Rightarrow> (byte list list \<Rightarrow> 'w \<Rightarrow> 'w) \<Rightarrow> bool" where
  "runs pc g \<longleftrightarrow> (\<forall>c. pc c = (c\<lparr>world := g (cargv c) (world c)\<rparr>, True))"

lemma processMultibulkBuffer_stream:
  assumes sv: "serving c cs (querybuf c @ f)" and rt: "reqtype c = Multibulk" and ok: "\<forall>cmd \<in> set cs. ok_cmd cmd"
    and fit: "fits_buffer 0 c" and cs: "cs \<noteq> []"
  shows "(\<exists>q cmd cs'. cs = cmd # cs' \<and> processMultibulkBuffer c =
        Some (c\<lparr>querybuf := q, cargv := cmd, bulklen := -1, multibulklen := 0\<rparr>, True) \<and>
        q @ f = stream cs' \<and> length q \<le> REDIS_INLINE_MAX_SIZE) \<or>
    (\<exists>q av bl n. let c' = c\<lparr>querybuf := q, cargv := av, bulklen := bl, multibulklen := n\<rparr> in
        processMultibulkBuffer c = Some (c', False) \<and> serving c' cs (q @ f) \<and> short c' cs)"
proof -
  have loop: ?thesis
    if e: "processMultibulkBuffer c = (case bulk_loop (length as) pos c1 of
             Return c r \<Rightarrow> Some (c, r)
           | Go pos c \<Rightarrow> None
           | Break pos c \<Rightarrow> let c = c\<lparr>querybuf := drop pos (querybuf c)\<rparr> in Some (c, multibulklen c = 0))"
      and c1: "c1 = c\<lparr>multibulklen := length as\<rparr>" and as: "as \<noteq> []" and csq: "cs = (cargv c @ as) # cs'"
      and pd: "pending (bulklen c1) as (stream cs') (drop pos (querybuf c1) @ f)" and pos: "pos \<le> length (querybuf c1)"
      and ft: "fits_buffer pos c1"
    for as pos c1 cs'
  proof -
    have oa: "\<forall>a \<in> set as. ok_arg a" using ok csq by (auto simp: ok_cmd_def)
    have ml: "multibulklen c1 = length as" "as = [] \<longrightarrow> bulklen c1 = -1" using c1 as by auto
    obtain ds as' bl q p where r: "as = ds @ as'"
     "bulk_loop (length as) pos c1 = Break p (c1\<lparr>querybuf := q, cargv := cargv c1 @ ds, bulklen := bl, multibulklen := length as'\<rparr>)"
     "p \<le> length q" "pending bl as' (stream cs') (drop p q @ f)" "as' = [] \<longrightarrow> bl = -1 \<and> length q \<le> REDIS_INLINE_MAX_SIZE"
     "as' \<noteq> [] \<longrightarrow> length q - p < needed bl as'"
      using bulk_loop_stream [OF pd oa pos ft ml] by (elim exE conjE)
    let ?c' = "c\<lparr>querybuf := drop p q, cargv := cargv c @ ds, bulklen := bl, multibulklen := length as'\<rparr>"
    have eq: "processMultibulkBuffer c = Some (?c', as' = [])" using e r(2) by (simp add: c1 Let_def)
    show ?thesis
    proof (cases "as' = []")
      case True
      then show ?thesis using r eq csq by (intro disjI1 exI [of _ "drop p q"] exI [of _ "cargv c @ ds"] exI [of _ cs']) (auto simp: pending_def)
    next
      case False
      have "serving ?c' cs (drop p q @ f)" using sv rt r(1,4) csq False by (auto simp: serving_def)
      moreover have "short ?c' cs" using csq r(1,6) False by (simp add: short_def)
      ultimately show ?thesis using eq False by (intro disjI2 exI [of _ "drop p q"] exI [of _ "cargv c @ ds"] exI [of _ bl] exI [of _ "length as'"]) (simp add: Let_def)
    qed
  qed
  show ?thesis
  proof (cases "multibulklen c = 0")
    case False
    then obtain as cs' where m: "cs = (cargv c @ as) # cs'" "multibulklen c = length as"
      "pending (bulklen c) as (stream cs') (querybuf c @ f)" using sv by (auto simp: serving_def)
    show ?thesis
      by (rule loop [of as 0 c cs']) (use m False fit in \<open>auto simp: processMultibulkBuffer_def\<close>)
  next
    case True
    then have i: "cargv c = []" "bulklen c = -1" "querybuf c @ f = stream cs" using sv by (auto simp: serving_def)
    obtain cmd cs' where csq: "cs = cmd # cs'" using cs by (cases cs) auto
    have "ok_cmd cmd" using ok csq by simp
    have sz: "length (querybuf c) \<le> REDIS_INLINE_MAX_SIZE" using fit i(2) by (auto simp: fits_buffer_def REDIS_MBULK_BIG_ARG_def)
    have S: "querybuf c @ f = enc_cmd cmd @ stream cs'" using i(3) csq by simp
    note h = multibulk_header_stream [OF i(1) S \<open>ok_cmd cmd\<close> sz]
    show ?thesis
    proof (cases "length (querybuf c) < length (decimal (int (length cmd))) + 3")
      case short: True
      then have "processMultibulkBuffer c = Some (c, False)" using h True by (simp add: processMultibulkBuffer_def)
      moreover have "short c cs" using csq True short by (simp add: short_def)
      ultimately show ?thesis using sv
        by (intro disjI2 exI [of _ "querybuf c"] exI [of _ "cargv c"] exI [of _ "bulklen c"] exI [of _ "multibulklen c"]) (simp add: Let_def)
    next
      case False
      then obtain p where p: "multibulk_header c = Some (Go p (c\<lparr>multibulklen := length cmd, cargv := []\<rparr>))" "p \<le> length (querybuf c)"
        "drop p (querybuf c) @ f = enc_args cmd @ stream cs'" using h by auto
      have ca: "c\<lparr>multibulklen := length cmd, cargv := []\<rparr> = c\<lparr>multibulklen := length cmd\<rparr>" using i(1) by simp
      show ?thesis
      proof (rule loop [of cmd p "c\<lparr>multibulklen := length cmd\<rparr>" cs'])
        show "processMultibulkBuffer c = (case bulk_loop (length cmd) p (c\<lparr>multibulklen := length cmd\<rparr>) of
             Return c r \<Rightarrow> Some (c, r)
           | Go pos c \<Rightarrow> None
           | Break pos c \<Rightarrow> let c = c\<lparr>querybuf := drop pos (querybuf c)\<rparr> in Some (c, multibulklen c = 0))"
          using p(1) True ca by (simp add: processMultibulkBuffer_def)
        show "cmd \<noteq> []" using \<open>ok_cmd cmd\<close> by (simp add: ok_cmd_def)
      qed (use p i csq sz in \<open>auto simp: pending_def fits_buffer_def\<close>)
    qed
  qed
qed

section \<open>The loop over requests\<close>

lemma serving_multibulk:
  assumes "serving c cs (querybuf c @ f)" "querybuf c \<noteq> []"
  shows "cs \<noteq> [] \<and> (reqtype c = Multibulk \<or> reqtype c = Unknown \<and> querybuf c ! 0 = 42)"
proof (cases "multibulklen c = 0")
  case True
  then have s: "querybuf c @ f = stream cs" "reqtype c \<noteq> Inline" using assms(1) by (auto simp: serving_def)
  obtain cmd cs' where cs: "cs = cmd # cs'" using s(1) assms(2) by (cases cs) auto
  have "(querybuf c @ f) ! 0 = 42" unfolding s(1) cs by (simp add: enc_cmd_def)
  then have "querybuf c ! 0 = 42" using assms(2) by (simp add: nth_append)
  then show ?thesis using s(2) cs by (cases "reqtype c") auto
next
  case False
  then show ?thesis using assms(1) by (auto simp: serving_def)
qed

lemma input_round_stream:
  assumes sv: "serving c cs (querybuf c @ f)" and ne: "querybuf c \<noteq> []" and ok: "\<forall>cmd \<in> set cs. ok_cmd cmd"
    and fit: "fits_buffer 0 c" and pc: "runs pc g"
  shows "(\<exists>cmd cs' c'. cs = cmd # cs' \<and> input_round pc t c = Some (c', True) \<and> serving c' cs' (querybuf c' @ f) \<and>
      fits_buffer 0 c' \<and> world c' = g cmd (world c) \<and> sent_errors c' = sent_errors c) \<or>
    (\<exists>c'. input_round pc t c = Some (c', False) \<and> serving c' cs (querybuf c' @ f) \<and> short c' cs \<and>
      world c' = world c \<and> sent_errors c' = sent_errors c)"
proof -
  let ?c = "c\<lparr>reqtype := Multibulk\<rparr>"
  note m = serving_multibulk [OF sv ne]
  have nb: "\<not> (blocked c \<or> close_after_reply c)" using sv by (simp add: serving_def)
  have c1: "(if reqtype c = Unknown then c\<lparr>reqtype := (if querybuf c ! 0 = 42 then Multibulk else Inline)\<rparr> else c) = ?c"
    using m by auto
  have r: "input_round pc t c = do {
          (c, ok) \<leftarrow> processMultibulkBuffer ?c;
          (if \<not> ok then Some (c, False)
           else if length (cargv c) = 0 then Some (resetClient c, True)
           else let (c, ok) = pc c
                in Some (if ok then resetClient c else c, True)) }"
    unfolding input_round_def if_not_P [OF nb] Let_def c1 by simp
  have sv1: "serving ?c cs (querybuf ?c @ f)" using sv by (auto simp: serving_def)
  have fit1: "fits_buffer 0 ?c" using fit by (simp add: fits_buffer_def)
  from processMultibulkBuffer_stream [OF sv1 _ ok fit1] m
  consider q cmd cs' where "cs = cmd # cs'" "processMultibulkBuffer ?c =
        Some (?c\<lparr>querybuf := q, cargv := cmd, bulklen := -1, multibulklen := 0\<rparr>, True)"
        "q @ f = stream cs'" "length q \<le> REDIS_INLINE_MAX_SIZE" |
      q av bl n where "processMultibulkBuffer ?c = Some (?c\<lparr>querybuf := q, cargv := av, bulklen := bl, multibulklen := n\<rparr>, False)"
        "serving (?c\<lparr>querybuf := q, cargv := av, bulklen := bl, multibulklen := n\<rparr>) cs (q @ f)"
        "short (?c\<lparr>querybuf := q, cargv := av, bulklen := bl, multibulklen := n\<rparr>) cs"
    by (auto simp: Let_def)
  then show ?thesis
  proof cases
    case 1
    let ?c2 = "?c\<lparr>querybuf := q, cargv := cmd, bulklen := -1, multibulklen := 0\<rparr>"
    let ?c3 = "resetClient (?c2\<lparr>world := g cmd (world c)\<rparr>)"
    have "cmd \<noteq> []" using ok 1(1) by (simp add: ok_cmd_def)
    moreover have "pc ?c2 = (?c2\<lparr>world := g cmd (world c)\<rparr>, True)" using pc by (simp add: runs_def)
    ultimately have "input_round pc t c = Some (?c3, True)" using r 1(2) by simp
    moreover have "serving ?c3 cs' (querybuf ?c3 @ f)" using nb 1(3) by (simp add: serving_def resetClient_def)
    moreover have "fits_buffer 0 ?c3" using 1(4) by (simp add: fits_buffer_def resetClient_def)
    ultimately show ?thesis using 1(1) by (intro disjI1 exI [of _ cmd] exI [of _ cs'] exI [of _ ?c3]) (simp add: resetClient_def)
  next
    case 2
    then show ?thesis using r
      by (intro disjI2 exI [of _ "?c\<lparr>querybuf := q, cargv := av, bulklen := bl, multibulklen := n\<rparr>"]) simp
  qed
qed

lemma serving_parser_ok:
  assumes "serving c cs (querybuf c @ f)" "querybuf c \<noteq> []"
  shows "parser_ok c"
proof -
  note m = serving_multibulk [OF assms]
  show ?thesis
  proof (cases "multibulklen c = 0")
    case True
    then have s: "querybuf c @ f = stream cs" using assms(1) by (auto simp: serving_def)
    obtain cmd cs' where cs: "cs = cmd # cs'" using m by (cases cs) auto
    have "(querybuf c @ f) ! 0 = 42" unfolding s cs by (simp add: enc_cmd_def)
    then have "querybuf c ! 0 = 42" using assms(2) by (simp add: nth_append)
    then show ?thesis using assms True by (auto simp: serving_def parser_ok_def)
  next
    case False
    then show ?thesis using assms(1) by (auto simp: serving_def parser_ok_def pending_def split: if_splits)
  qed
qed

lemma runs_contract: "runs pc g \<Longrightarrow> command_contract pc"
  by (simp add: runs_def command_contract_def)

lemma needed_pos: "as \<noteq> [] \<Longrightarrow> 0 < needed bl as"
  by (cases as) (auto simp: needed_def)

lemma processInputBuffer_stream:
  "serving c cs (querybuf c @ f) \<Longrightarrow> \<forall>cmd \<in> set cs. ok_cmd cmd \<Longrightarrow> fits_buffer 0 c \<Longrightarrow> runs pc g \<Longrightarrow>
   \<exists>ex cs' c'. cs = ex @ cs' \<and> processInputBuffer pc t c = Some c' \<and> serving c' cs' (querybuf c' @ f) \<and> short c' cs' \<and>
     world c' = fold g ex (world c) \<and> sent_errors c' = sent_errors c"
proof (induction "length (querybuf c)" arbitrary: c cs rule: less_induct)
  case less
  show ?case
  proof (cases "querybuf c = []")
    case True
    have "short c cs"
    proof (cases cs)
      case (Cons cmd cs')
      then show ?thesis using True less.prems(1) needed_pos by (auto simp: short_def serving_def)
    qed (simp add: short_def True)
    moreover have "processInputBuffer pc t c = Some c" using True by (subst processInputBuffer.simps) simp
    ultimately show ?thesis using less.prems(1) by (intro exI [of _ "[]"] exI [of _ cs] exI [of _ c]) simp
  next
    case False
    from input_round_stream [OF less.prems(1) False less.prems(2,3,4), of t] show ?thesis
    proof (elim disjE exE conjE)
      fix cmd cs' c1
      assume 1: "cs = cmd # cs'" "input_round pc t c = Some (c1, True)" "serving c1 cs' (querybuf c1 @ f)"
        "fits_buffer 0 c1" "world c1 = g cmd (world c)" "sent_errors c1 = sent_errors c"
      have sh: "length (querybuf c1) < length (querybuf c)"
        using input_round_any [OF serving_parser_ok [OF less.prems(1) False] runs_contract [OF less.prems(4)] False, of t] 1(2)
        by auto
      have "\<forall>cmd \<in> set cs'. ok_cmd cmd" using less.prems(2) 1(1) by simp
      then obtain ex cs'' c' where r: "cs' = ex @ cs''" "processInputBuffer pc t c1 = Some c'" "serving c' cs'' (querybuf c' @ f)"
        "short c' cs''" "world c' = fold g ex (world c1)" "sent_errors c' = sent_errors c1"
        using less.hyps [OF sh 1(3) _ 1(4) less.prems(4)] by blast
      have "processInputBuffer pc t c = Some c'" using False 1(2) r(2) by (subst processInputBuffer.simps) simp
      then show ?thesis using r 1(1,5,6) by (intro exI [of _ "cmd # ex"] exI [of _ cs''] exI [of _ c']) simp
    next
      fix c1
      assume 1: "input_round pc t c = Some (c1, False)" "serving c1 cs (querybuf c1 @ f)" "short c1 cs"
        "world c1 = world c" "sent_errors c1 = sent_errors c"
      have "processInputBuffer pc t c = Some c1" using False 1(1) by (subst processInputBuffer.simps) simp
      then show ?thesis using 1 by (intro exI [of _ "[]"] exI [of _ cs] exI [of _ c1]) simp
    qed
  qed
qed

section \<open>Reads\<close>

text \<open>
  The event loop calls the handler as long as the socket has something to give and the client is
  there; \<open>rs\<close> are what the calls of \<open>read\<close> return. The result is the client, if it was not
  released, and what was not read.
\<close>

fun serve ::
    "('w client \<Rightarrow> 'w client \<times> bool) \<Rightarrow> int \<Rightarrow> nat \<Rightarrow> read_return list \<Rightarrow> byte list \<Rightarrow> 'w client
     \<Rightarrow> ('w client option \<times> byte list) option" where
  "serve pc t m [] sock c = Some (Some c, sock)"
| "serve pc t m (r # rs) sock c =
     (if sock = [] then Some (Some c, sock)
      else do {
        (c, sock) \<leftarrow> readQueryFromClient pc t m r sock c;
        (case c of None \<Rightarrow> Some (None, sock) | Some c \<Rightarrow> serve pc t m rs sock c) })"

lemma short_small:
  assumes "serving c cs S" "short c cs" "\<forall>cmd \<in> set cs. ok_cmd cmd"
  shows "if bulklen c \<ge> int REDIS_MBULK_BIG_ARG then int (length (querybuf c)) < bulklen c + 2
    else length (querybuf c) \<le> REDIS_MBULK_BIG_ARG + 1"
proof (cases cs)
  case Nil
  then show ?thesis using assms(1,2) by (auto simp: short_def serving_def split: if_splits)
next
  case (Cons cmd cs')
  have ok: "ok_cmd cmd" using assms(3) Cons by simp
  show ?thesis
  proof (cases "multibulklen c = 0")
    case True
    then have "length (querybuf c) < length (decimal (int (length cmd))) + 3" "bulklen c = -1"
      using assms(1,2) Cons by (auto simp: short_def serving_def)
    moreover have "length (decimal (int (length cmd))) \<le> 20"
      using ok by (intro decimal_short) (simp add: ok_cmd_def)
    ultimately show ?thesis by (simp add: REDIS_MBULK_BIG_ARG_def)
  next
    case False
    then obtain as where m: "cmd = cargv c @ as" "multibulklen c = length as" "pending (bulklen c) as (stream cs') S"
      using assms(1) Cons by (auto simp: serving_def)
    have n: "length (querybuf c) < needed (bulklen c) as" using assms(2) Cons False m(1) by (simp add: short_def)
    obtain a as' where as: "as = a # as'" using m(2) False by (cases as) auto
    have a: "length (decimal (int (length a))) \<le> 20"
      using ok m(1) as by (intro decimal_short) (auto simp: ok_cmd_def ok_arg_def)
    show ?thesis
    proof (cases "bulklen c = -1")
      case True
      then show ?thesis using n a as by (simp add: needed_def REDIS_MBULK_BIG_ARG_def)
    next
      case False
      then have "bulklen c = int (length a)" using m(3) as by (auto simp: pending_def)
      then show ?thesis using n as by (auto simp: needed_def)
    qed
  qed
qed

text \<open>The longest buffer of a client that keeps to the limits.\<close>

definition longest_query :: nat where "longest_query = 512 * 1024 * 1024 + 2"

lemma pending_le:
  assumes "serving c cs S" "\<forall>cmd \<in> set cs. ok_cmd cmd"
  shows "bulklen c + 2 \<le> int longest_query"
proof (cases "bulklen c = -1")
  case False
  then obtain as cmd cs' where m: "cs = cmd # cs'" "cmd = cargv c @ as" "pending (bulklen c) as (stream cs') S"
    using assms(1) by (auto simp: serving_def split: if_splits)
  then obtain a as' where a: "as = a # as'" "bulklen c = int (length a)" using False by (auto simp: pending_def)
  then have "a \<in> set cmd" using m(2) by simp
  then show ?thesis using assms(2) m(1) a(2) by (auto simp: ok_cmd_def ok_arg_def longest_query_def)
qed (simp add: longest_query_def)

lemma read_fits:
  assumes "serving c cs S" "short c cs" "\<forall>cmd \<in> set cs. ok_cmd cmd"
  shows "0 < readlen c \<and> (length xs \<le> nat (readlen c) \<longrightarrow>
    fits_buffer 0 (c\<lparr>querybuf := querybuf c @ xs\<rparr>) \<and> length (querybuf c @ xs) \<le> longest_query)"
proof (cases "bulklen c \<ge> int REDIS_MBULK_BIG_ARG")
  case True
  then have l: "int (length (querybuf c)) < bulklen c + 2" using short_small [OF assms] by simp
  have "multibulklen c \<noteq> 0" using True assms(1) by (auto simp: serving_def split: if_splits)
  then have "reqtype c = Multibulk" using assms(1) by (auto simp: serving_def)
  then have "readlen c = min (int REDIS_IOBUF_LEN) (bulklen c + 2 - int (length (querybuf c)))"
    using True \<open>multibulklen c \<noteq> 0\<close> by (auto simp: readlen_def)
  then show ?thesis using l True pending_le [OF assms(1,3)] by (auto simp: fits_buffer_def REDIS_IOBUF_LEN_def)
next
  case False
  then have "length (querybuf c) \<le> REDIS_MBULK_BIG_ARG + 1" using short_small [OF assms] by simp
  moreover have "readlen c = int REDIS_IOBUF_LEN" using False by (auto simp: readlen_def)
  ultimately show ?thesis
    by (auto simp: fits_buffer_def REDIS_IOBUF_LEN_def REDIS_MBULK_BIG_ARG_def REDIS_INLINE_MAX_SIZE_def longest_query_def)
qed

lemma read_stream:
  assumes sv: "serving c cs (querybuf c @ sock)" and sh: "short c cs" and ok: "\<forall>cmd \<in> set cs. ok_cmd cmd" and pc: "runs pc g"
    and k: "k \<noteq> 0" and m: "longest_query \<le> m" and ne: "sock \<noteq> []"
  shows "\<exists>ex cs' c' rest. cs = ex @ cs' \<and> readQueryFromClient pc t m (Got k) sock c = Some (Some c', rest) \<and>
     serving c' cs' (querybuf c' @ rest) \<and> short c' cs' \<and> world c' = fold g ex (world c) \<and> sent_errors c' = sent_errors c \<and>
     length rest < length sock"
proof -
  let ?p = "c\<lparr>querybuf_peak := max (querybuf_peak c) (length (querybuf c))\<rparr>"
  define n where "n = min k (min (nat (readlen ?p)) (length sock))"
  let ?c = "?p\<lparr>querybuf := querybuf ?p @ take n sock, lastinteraction := t,
        reploff := (if master ?p then reploff ?p + int n else reploff ?p)\<rparr>"
  have rp: "readlen ?p = readlen c" by (simp add: readlen_def)
  have pos: "0 < readlen c" using read_fits [OF sv sh ok] by blast
  have n: "0 < n" using pos k ne by (simp add: n_def rp)
  have "length (take n sock) \<le> nat (readlen c)" by (simp add: n_def rp)
  then have "fits_buffer 0 (c\<lparr>querybuf := querybuf c @ take n sock\<rparr>)" "length (querybuf c @ take n sock) \<le> longest_query"
    using read_fits [OF sv sh ok, of "take n sock"] by blast+
  then have fit: "fits_buffer 0 ?c" and len: "\<not> length (querybuf ?c) > m" using m by (simp_all add: fits_buffer_def)
  have "serving ?c cs (querybuf ?c @ drop n sock)" using sv by (simp add: serving_def)
  then obtain ex cs' c1 where i: "cs = ex @ cs'" "processInputBuffer pc t ?c = Some c1"
    "serving c1 cs' (querybuf c1 @ drop n sock)" "short c1 cs'" "world c1 = fold g ex (world ?c)" "sent_errors c1 = sent_errors ?c"
    using processInputBuffer_stream [of ?c cs "drop n sock" pc g t, OF _ ok fit pc] by blast
  have "\<not> readlen ?p < 0" "n \<noteq> 0" using pos n rp by simp_all
  then have "readQueryFromClient pc t m (Got k) sock c = Some (Some c1, drop n sock)"
    unfolding readQueryFromClient_def Let_def read_return.case n_def [symmetric] if_not_P [OF len]
    by (simp only: if_False i(2) bind.bind_lunit)
  moreover have "world c1 = fold g ex (world c)" "sent_errors c1 = sent_errors c" using i(5,6) by simp_all
  moreover have "length (drop n sock) < length sock" using n ne by simp
  ultimately show ?thesis using i(1,3,4) by blast
qed

lemma serve_ok:
  "serving c cs (querybuf c @ sock) \<Longrightarrow> short c cs \<Longrightarrow> \<forall>cmd \<in> set cs. ok_cmd cmd \<Longrightarrow> runs pc g \<Longrightarrow> 0 \<notin> set ks \<Longrightarrow>
   longest_query \<le> m \<Longrightarrow>
   \<exists>ex cs' c' rest. cs = ex @ cs' \<and> serve pc t m (map Got ks) sock c = Some (Some c', rest) \<and>
     serving c' cs' (querybuf c' @ rest) \<and> short c' cs' \<and> world c' = fold g ex (world c) \<and> sent_errors c' = sent_errors c \<and>
     (length sock \<le> length ks \<longrightarrow> rest = [])"
proof (induction ks arbitrary: c cs sock)
  case Nil
  then show ?case by (intro exI [of _ "[]"] exI [of _ cs] exI [of _ c] exI [of _ sock]) simp
next
  case (Cons k ks)
  show ?case
  proof (cases "sock = []")
    case True
    then show ?thesis using Cons.prems by (intro exI [of _ "[]"] exI [of _ cs] exI [of _ c] exI [of _ sock]) simp
  next
    case False
    have "k \<noteq> 0" using Cons.prems(5) by auto
    then obtain ex cs' c1 r1 where r: "cs = ex @ cs'" "readQueryFromClient pc t m (Got k) sock c = Some (Some c1, r1)"
      "serving c1 cs' (querybuf c1 @ r1)" "short c1 cs'" "world c1 = fold g ex (world c)" "sent_errors c1 = sent_errors c"
      "length r1 < length sock"
      using read_stream [OF Cons.prems(1,2,3,4) _ Cons.prems(6) False] by blast
    have ok: "\<forall>cmd \<in> set cs'. ok_cmd cmd" "0 \<notin> set ks" using Cons.prems(3,5) r(1) by auto
    obtain ex' cs'' c' rest where i: "cs' = ex' @ cs''" "serve pc t m (map Got ks) r1 c1 = Some (Some c', rest)"
      "serving c' cs'' (querybuf c' @ rest)" "short c' cs''" "world c' = fold g ex' (world c1)" "sent_errors c' = sent_errors c1"
      "length r1 \<le> length ks \<longrightarrow> rest = []"
      using Cons.IH [OF r(3,4) ok(1) Cons.prems(4) ok(2) Cons.prems(6)] by blast
    have "serve pc t m (map Got (k # ks)) sock c = Some (Some c', rest)" using False r(2) i(2) by simp
    then show ?thesis using r i
      by (intro exI [of _ "ex @ ex'"] exI [of _ cs''] exI [of _ c'] exI [of _ rest]) simp
  qed
qed

lemma serving_done:
  assumes "serving c cs (querybuf c)" "short c cs"
  shows "cs = [] \<and> querybuf c = [] \<and> multibulklen c = 0 \<and> cargv c = []"
proof (cases cs)
  case Nil
  then show ?thesis using assms by (auto simp: serving_def short_def split: if_splits)
next
  case (Cons cmd cs')
  show ?thesis
  proof (cases "multibulklen c = 0")
    case True
    then have "querybuf c = enc_cmd cmd @ stream cs'" "length (querybuf c) < length (decimal (int (length cmd))) + 3"
      using assms Cons by (auto simp: serving_def short_def)
    then show ?thesis by (simp add: enc_cmd_def)
  next
    case False
    then obtain as where m: "cmd = cargv c @ as" "multibulklen c = length as" "pending (bulklen c) as (stream cs') (querybuf c)"
      using assms(1) Cons by (auto simp: serving_def)
    have n: "length (querybuf c) < needed (bulklen c) as" using assms(2) Cons False m(1) by (simp add: short_def)
    obtain a as' where as: "as = a # as'" using m(2) False by (cases as) auto
    show ?thesis using m(3) n as by (auto simp: pending_def needed_def enc_arg_def split: if_splits)
  qed
qed

end
