(* ===== verification/Query_Props.thy ===== *)
theory Query_Props
  imports Query_Stream
begin

text \<open>
  The properties of the request side: no input makes it fail, errors close the client with one
  reply and nothing executed, and streams of requests are served whatever the pieces.
\<close>

lemma createClient_ok: "parser_ok (createClient t w) \<and> incomplete (createClient t w)"
  by (simp add: parser_ok_def incomplete_def createClient_def)

lemma createClient_serving: "serving (createClient t w) cs (querybuf (createClient t w) @ stream cs)" "short (createClient t w) cs"
  by (auto simp: serving_def short_def createClient_def split: list.split)

lemma stream_served:
  assumes "runs pc g" and "\<forall>cmd \<in> set cs. ok_cmd cmd" and "0 \<notin> set ks" and "length (stream cs) \<le> length ks"
    and "longest_query \<le> m"
  shows "\<exists>c. serve pc t m (map Got ks) (stream cs) (createClient t w) = Some (Some c, []) \<and> world c = fold g cs w \<and>
    sent_errors c = [] \<and> querybuf c = []"
proof -
  obtain ex cs' c rest where s: "cs = ex @ cs'" "serve pc t m (map Got ks) (stream cs) (createClient t w) = Some (Some c, rest)"
    "serving c cs' (querybuf c @ rest)" "short c cs'" "world c = fold g ex (world (createClient t w))"
    "sent_errors c = sent_errors (createClient t w)" "length (stream cs) \<le> length ks \<longrightarrow> rest = []"
    using serve_ok [OF createClient_serving assms(2,1,3,5)] by blast
  then have "rest = []" using assms(4) by blast
  then have "cs' = []" "querybuf c = []" using serving_done [of c cs'] s(3,4) by auto
  then show ?thesis using s \<open>rest = []\<close> by (auto simp: createClient_def)
qed

text \<open>
  C6: Pipelined requests: any sequence of commands, encoded as multi bulk requests and delivered
  in reads of any sizes, runs as exactly that sequence, each command once and in order, with its
  arguments byte for byte; no cut is mistaken for a protocol error, and nothing is left in the
  buffer at the end. The client is never released for a buffer that is too long, provided the
  limit of the configuration lets in the longest argument the parser accepts.
\<close>

theorem requests_roundtrip:
  assumes "runs pc g" and "\<forall>cmd \<in> set cs. ok_cmd cmd" and "0 \<notin> set ks" and "length (stream cs) \<le> length ks"
    and "longest_query \<le> m"
  shows "\<exists>c. serve pc t m (map Got ks) (stream cs) (createClient t w) = Some (Some c, []) \<and> world c = fold g cs w \<and>
    sent_errors c = [] \<and> querybuf c = []"
  using assms by (rule stream_served)

definition logging :: "byte list list list client \<Rightarrow> byte list list list client \<times> bool" where
  "logging c = (c\<lparr>world := world c @ [cargv c]\<rparr>, True)"

lemma logging_runs: "runs logging (\<lambda>cmd w. w @ [cmd])"
  by (simp add: runs_def logging_def)

theorem requests_roundtrip_witness:
  "\<exists>c. serve logging 0 longest_query (map Got (replicate 100 3))
      (stream [[ascii ''SET'', ascii ''k'', [13, 10, 0]], [ascii ''PING'']]) (createClient 0 []) = Some (Some c, []) \<and>
    world c = [[ascii ''SET'', ascii ''k'', [13, 10, 0]], [ascii ''PING'']]"
proof -
  have "length (stream [[ascii ''SET'', ascii ''k'', [13, 10, 0 :: byte]], [ascii ''PING'']]) \<le> length (replicate 100 (3 :: nat))"
    by (simp add: enc_cmd_def enc_arg_def ascii_def decimal_def dec_nat.simps)
  then show ?thesis
    using requests_roundtrip [OF logging_runs, of "[[ascii ''SET'', ascii ''k'', [13, 10, 0]], [ascii ''PING'']]" "replicate 100 3" longest_query 0 "[]"]
    by (auto simp: ok_cmd_def ok_arg_def ascii_def)
qed



text \<open>A line at the parser that is not the header it must be.\<close>

definition bad_line :: "'w client \<Rightarrow> byte \<Rightarrow> byte list \<Rightarrow> bool" where
  "bad_line c ch s \<longleftrightarrow> 13 \<notin> set (ch # s) \<and> 0 \<notin> set (ch # s) \<and>
     (if multibulklen c = 0 then ch = 42 \<and> (\<forall>v. fits 8 v \<longrightarrow> s = decimal v \<longrightarrow> 1024 * 1024 < v)
      else ch \<noteq> 36 \<or> (\<forall>v. fits 8 v \<longrightarrow> s = decimal v \<longrightarrow> v < 0 \<or> 512 * 1024 * 1024 < v))"

definition protocol_error :: "'w client \<Rightarrow> 'w client \<Rightarrow> bool" where
  "protocol_error c c' \<longleftrightarrow> close_after_reply c' \<and> world c' = world c \<and>
     (\<exists>e. sent_errors c' = sent_errors c @ [ascii ''-ERR Protocol error: '' @ e])"

lemma protocol_error_simps:
  "protocol_error c (setProtocolError pos (addReplyError (ascii ''Protocol error: too big mbulk count string'') c))"
  "protocol_error c (setProtocolError pos (addReplyError (ascii ''Protocol error: invalid multibulk length'') c))"
  "protocol_error c (setProtocolError pos (addReplyError (ascii ''Protocol error: invalid bulk length'') c))"
  "protocol_error c (setProtocolError pos (addReplyErrorFormat (ascii ''Protocol error: expected '' @ e) c))"
  by (auto simp: protocol_error_def setProtocolError_def addReplyErrorFormat_def addReplyError_def ascii_def of_char_def)

lemma closing_stays: "close_after_reply c \<Longrightarrow> processInputBuffer pc t c = Some c"
  by (subst processInputBuffer.simps) (simp add: input_round_def)

lemma strchr_head:
  assumes "13 \<notin> set X" "0 \<notin> set X"
  shows "strchr 13 (X @ 13 # r) = Some (length X)"
  using strchr_line [OF assms, of "length (X @ 13 # r)" r] by simp

lemma bad_multibulk_header:
  assumes b: "bad_line c ch s" and m: "multibulklen c = 0" "cargv c = []" and q: "querybuf c = ch # s @ [13, x] @ rest"
  shows "\<exists>c'. multibulk_header c = Some (Return c' False) \<and> protocol_error c c'"
proof -
  have X: "13 \<notin> set (ch # s)" "0 \<notin> set (ch # s)" "ch = 42" using b m by (auto simp: bad_line_def)
  have n: "strchr 13 (querybuf c) = Some (Suc (length s))" using strchr_head [OF X(1,2), of "x # rest"] q by simp
  have t: "take (Suc (length s) - 1) (drop 1 (querybuf c)) = s" using q by simp
  show ?thesis
  proof (cases "string2ll s")
    case None
    then show ?thesis using m n t q X(3) protocol_error_simps by (auto simp: multibulk_header_def)
  next
    case (Some v)
    then have "fits 8 v" "s = decimal v" by (simp_all add: string2ll_iff)
    then have "1024 * 1024 < v" using b m(1) by (simp add: bad_line_def)
    then show ?thesis using Some m n t q X(3) protocol_error_simps by (auto simp: multibulk_header_def)
  qed
qed

lemma bad_bulk_header:
  assumes b: "bad_line c ch s" and m: "multibulklen c \<noteq> 0" "bulklen c = -1" and q: "querybuf c = ch # s @ [13, x] @ rest"
  shows "\<exists>c'. bulk_header 0 c = Return c' False \<and> protocol_error c c'"
proof -
  have X: "13 \<notin> set (ch # s)" "0 \<notin> set (ch # s)" using b by (auto simp: bad_line_def)
  have n: "strchr 13 (drop 0 (querybuf c)) = Some (Suc (length s))" using strchr_head [OF X, of "x # rest"] q by simp
  have t: "take (0 + Suc (length s) - (0 + 1)) (drop (0 + 1) (querybuf c)) = s" using q by simp
  show ?thesis
  proof (cases "ch = 36")
    case False
    then show ?thesis using m(2) n q protocol_error_simps(4) by (auto simp: bulk_header_def Let_def)
  next
    case True
    show ?thesis
    proof (cases "string2ll s")
      case None
      then show ?thesis using True m(2) n t q protocol_error_simps(3) by (auto simp: bulk_header_def Let_def)
    next
      case (Some v)
      then have "fits 8 v" "s = decimal v" by (simp_all add: string2ll_iff)
      then have "v < 0 \<or> 512 * 1024 * 1024 < v" using b m(1) True by (auto simp: bad_line_def)
      then show ?thesis using Some True m(2) n t q protocol_error_simps(3) by (auto simp: bulk_header_def Let_def)
    qed
  qed
qed

text \<open>
  C22: A header line that is not what the protocol asks for, be it the number of arguments or the
  length of one, closes the client: one error reply, no command run, and whatever arrives later
  is ignored.
\<close>

theorem bad_header_closes:
  assumes "parser_ok c" and "\<not> close_after_reply c" and "\<not> blocked c" and "bulklen c = -1" and "reqtype c \<noteq> Inline"
    and "querybuf c = ch # s @ [13, x] @ rest" and "bad_line c ch s"
  shows "\<exists>c'. processInputBuffer pc t c = Some c' \<and> protocol_error c c' \<and>
    (\<forall>xs. processInputBuffer pc t (c'\<lparr>querybuf := querybuf c' @ xs\<rparr>) = Some (c'\<lparr>querybuf := querybuf c' @ xs\<rparr>))"
proof -
  let ?c = "c\<lparr>reqtype := Multibulk\<rparr>"
  have av: "multibulklen c = 0 \<longrightarrow> cargv c = []" "multibulklen c \<noteq> 0 \<longrightarrow> reqtype c = Multibulk"
    using assms(1,2) by (auto simp: parser_ok_def)
  have h0: "multibulklen c = 0 \<longrightarrow> ch = 42" using assms(7) by (simp add: bad_line_def)
  have c1: "(if reqtype c = Unknown then c\<lparr>reqtype := (if querybuf c ! 0 = 42 then Multibulk else Inline)\<rparr> else c) = ?c"
    using av h0 assms(5,6) by (cases "reqtype c") auto
  have ml: "multibulklen ?c = multibulklen c" by simp
  have bad: "bad_line ?c ch s" using assms(7) unfolding bad_line_def ml .
  have "\<exists>c'. processMultibulkBuffer ?c = Some (c', False) \<and> protocol_error ?c c'"
  proof (cases "multibulklen c = 0")
    case True
    then show ?thesis using bad_multibulk_header [OF bad, of x rest] av assms(6) by (auto simp: processMultibulkBuffer_def)
  next
    case False
    then obtain n where n: "multibulklen c = Suc n" by (cases "multibulklen c") auto
    then show ?thesis using bad_bulk_header [OF bad, of x rest] assms(4,6) by (auto simp: processMultibulkBuffer_def)
  qed
  then obtain c' where c': "processMultibulkBuffer ?c = Some (c', False)" "protocol_error ?c c'" by blast
  have "input_round pc t c = Some (c', False)"
    using assms(2,3) c1 c'(1) by (simp add: input_round_def Let_def)
  then have "processInputBuffer pc t c = Some c'" using assms(6) by (subst processInputBuffer.simps) simp
  moreover have "close_after_reply (c'\<lparr>querybuf := xs\<rparr>)" for xs using c'(2) by (simp add: protocol_error_def)
  moreover have "protocol_error c c'" using c'(2) by (simp add: protocol_error_def)
  ultimately show ?thesis by (intro exI [of _ c'] conjI allI closing_stays)
qed

theorem bad_header_closes_witness:
  "\<exists>c'. processInputBuffer logging 0 ((createClient 0 [])\<lparr>querybuf := [42, 120, 13, 10, 36]\<rparr>) = Some c' \<and>
    close_after_reply c' \<and> world c' = []"
proof -
  let ?c = "(createClient 0 [])\<lparr>querybuf := [42, 120, 13, 10, 36]\<rparr> :: byte list list list client"
  have "bad_line ?c 42 [120]"
  proof -
    have "\<not> [120] = decimal v" if "fits 8 v" for v :: int
    proof
      assume "[120] = decimal v"
      then have "string2ll [120] = Some v" using that by simp
      moreover have "string2ll [120 :: byte] = None" by (simp add: string2ll_def)
      ultimately show False by simp
    qed
    then show ?thesis by (simp add: bad_line_def createClient_def)
  qed
  then show ?thesis
    using bad_header_closes [of ?c 42 "[120]" 10 "[36]" logging 0] by (auto simp: createClient_def parser_ok_def protocol_error_def)
qed

section \<open>Where the code does not do what it means to\<close>

text \<open>
  An inline request that ends in a bare newline: the parser drops one byte more than the line,
  the first of the next request.
\<close>

lemma inline_newline_eats_a_byte:
  assumes "10 \<notin> set l" "13 \<notin> set l" "0 \<notin> set l" "sdssplitargs l = Some argv" and q: "querybuf c = l @ [10, b] @ rest"
  shows "processInlineBuffer t c =
    (c\<lparr>repl_ack_time := (if l = [] \<and> slave c then t else repl_ack_time c),
       querybuf := rest, cargv := filter (\<lambda>a. length a \<noteq> 0) argv\<rparr>, True)"
proof -
  have n: "strchr 10 (querybuf c) = Some (length l)"
    using strchr_line [of 10 l "length (l @ [10, b] @ rest)" "b # rest"] assms(1,3) q by simp
  have "\<not> (length l \<noteq> 0 \<and> querybuf c ! (length l - 1) = 13)"
    using assms(2) q by (cases l rule: rev_cases) (auto simp: nth_append)
  then have k: "(if length l \<noteq> 0 \<and> querybuf c ! (length l - 1) = 13 then length l - 1 else length l) = length l"
    by (rule if_not_P)
  have a: "sdssplitargs (take (length l) (querybuf c)) = Some argv" using assms(4) q by simp
  have d: "drop (length l + 2) (querybuf c) = rest" using q by simp
  show ?thesis unfolding processInlineBuffer_def Let_def
    by (simp only: n option.case k a d) simp
qed

text \<open>
  The limit on a header line is compared with the whole buffer, arguments already read included:
  when a client was blocked while it went on sending, the first byte of a header at the end of a
  large buffer is taken for a line that is too long.
\<close>

lemma large_buffer_rejected:
  assumes "multibulklen c = 2" "bulklen c = int (length a)" "querybuf c = a @ [13, 10, 36]"
    and "REDIS_INLINE_MAX_SIZE \<le> length a"
  shows "\<exists>c'. processMultibulkBuffer c = Some (c', False) \<and> close_after_reply c'"
proof -
  have 1: "bulk_header 0 c = Go 0 c" using assms(2) by (simp add: bulk_header_def)
  let ?c = "c\<lparr>cargv := cargv c @ [a], bulklen := -1, multibulklen := 1\<rparr>"
  have 2: "bulk_arg 0 c = Go (length a + 2) ?c" using assms by (simp add: bulk_arg_def)
  have "strchr 13 (drop (length a + 2) (querybuf ?c)) = None" using assms(3) by (simp add: strchr_def)
  moreover have "REDIS_INLINE_MAX_SIZE < length (querybuf ?c)" using assms(3,4) by simp
  ultimately have 3: "bulk_header (length a + 2) ?c = Return (setProtocolError 0
      (addReplyError (ascii ''Protocol error: too big bulk count string'') ?c)) False"
    by (simp add: bulk_header_def)
  have "multibulklen c = Suc (Suc 0)" using assms(1) by simp
  then show ?thesis using 1 2 3 by (simp add: processMultibulkBuffer_def setProtocolError_def)
qed

end
