(* ===== verification/Reply_Props.thy ===== *)
theory Reply_Props
  imports Reply_Send Reply_Ops
begin

text \<open>The properties of replies, and a memory with the shared objects for their witnesses.\<close>

section \<open>A memory\<close>

text \<open>The shared objects one after the other from address 1, as \<open>createSharedObjects\<close> might get them.\<close>

definition shared_names :: "shared_name list" where
  "shared_names = [Sh_crlf, Sh_ok, Sh_emptybulk, Sh_czero, Sh_cone, Sh_nullbulk, Sh_wrongtypeerr, Sh_nokeyerr,
     Sh_syntaxerr, Sh_sameobjecterr, Sh_colon, Sh_loadingerr, Sh_slowscripterr, Sh_masterdownerr, Sh_bgsaveerr,
     Sh_roslaveerr, Sh_noautherr, Sh_noreplicaserr, Sh_pong]"

definition name_at :: "addr \<Rightarrow> shared_name" where
  "name_at a =
     (if a < 20 then shared_names ! (a - 1)
      else if a < 52 then Sh_mbulkhdr (a - 20)
      else if a < 84 then Sh_bulkhdr (a - 52)
      else Sh_integer (a - 84))"

fun shared_at :: "shared_name \<Rightarrow> addr" where
  "shared_at Sh_crlf = 1" | "shared_at Sh_ok = 2" | "shared_at Sh_emptybulk = 3" | "shared_at Sh_czero = 4"
| "shared_at Sh_cone = 5" | "shared_at Sh_nullbulk = 6" | "shared_at Sh_wrongtypeerr = 7" | "shared_at Sh_nokeyerr = 8"
| "shared_at Sh_syntaxerr = 9" | "shared_at Sh_sameobjecterr = 10" | "shared_at Sh_colon = 11"
| "shared_at Sh_loadingerr = 12" | "shared_at Sh_slowscripterr = 13" | "shared_at Sh_masterdownerr = 14"
| "shared_at Sh_bgsaveerr = 15" | "shared_at Sh_roslaveerr = 16" | "shared_at Sh_noautherr = 17"
| "shared_at Sh_noreplicaserr = 18" | "shared_at Sh_pong = 19"
| "shared_at (Sh_mbulkhdr n) = 20 + n" | "shared_at (Sh_bulkhdr n) = 52 + n" | "shared_at (Sh_integer n) = 84 + n"

definition env0 :: oenv where
  "env0 = \<lparr>malloc = \<lambda>A. Suc (Max (insert 0 A)), sdssize = \<lambda>m n. n + 9, shared = shared_at\<rparr>"

definition heap0 :: objs where
  "heap0 a = (if 0 < a \<and> a < 10084
     then Some \<lparr>otype = REDIS_STRING, refcount = 1, optr = Some (shared_value (name_at a)), osize = 0\<rparr> else None)"

definition refs0 :: "addr multiset" where
  "refs0 = mset [1..<10084]"

lemma refs0_count: "count refs0 a = (if 0 < a \<and> a < 10084 then 1 else 0)"
proof -
  have "count (mset [1..<10084]) a = (if a \<in> set [1..<10084] then 1 else 0)"
    by (rule distinct_count_atmost_1 [THEN iffD1, rule_format]) (rule distinct_upt)
  then show ?thesis by (auto simp: refs0_def simp del: upt_rec_numeral)
qed

lemma refs0_mem: "a \<in># refs0 \<longleftrightarrow> 0 < a \<and> a < 10084"
  by (simp add: refs0_count flip: count_greater_zero_iff)

lemma good_env0: "good_malloc env0"
proof -
  have "Suc (Max (insert 0 A)) \<notin> A" if "finite A" for A :: "addr set"
  proof
    assume "Suc (Max (insert 0 A)) \<in> A"
    then have "Suc (Max (insert 0 A)) \<le> Max (insert 0 A)" using that by (intro Max_ge) auto
    then show False by simp
  qed
  then show ?thesis by (simp add: good_malloc_def env0_def)
qed

lemma owned0: "owned heap0 refs0"
  by (auto simp: owned_def heap0_def refs0_mem refs0_count dom_def split: if_split_asm)

lemma shared_at_range: "shared_exists n \<Longrightarrow> 0 < shared_at n \<and> shared_at n < 10084 \<and> name_at (shared_at n) = n"
  by (cases n) (auto simp: REDIS_SHARED_INTEGERS_def REDIS_SHARED_BULKHDR_LEN_def name_at_def shared_names_def)

lemma shared0: "shared_ok env0 heap0 refs0"
  by (simp add: shared_ok_def env0_def refs0_mem shared_at_range content_def heap0_def)

lemma new_rinv: "owned h E \<Longrightarrow> rinv E h new_rclient"
  by (simp add: rinv_def new_rclient_def list_ok_def sent_ok_def)

lemma serves0: "serves env0 refs0 (heap0, new_rclient)"
  by (simp add: serves_def good_env0 shared0 new_rinv owned0) (simp add: normal_def new_rclient_def)

lemma no_holes_new: "no_holes h new_rclient"
  by (simp add: no_holes_def new_rclient_def)

section \<open>Sending\<close>

text \<open>Calls of the write handler one after the other, as long as there is a client.\<close>

fun send_calls :: "(nat \<Rightarrow> nat \<Rightarrow> write_return) \<Rightarrow> (nat \<Rightarrow> nat \<Rightarrow> bool) \<Rightarrow> nat \<Rightarrow> objs \<times> rclient option
    \<Rightarrow> ((objs \<times> rclient option) \<times> byte list) option" where
  "send_calls wr stop (Suc n) (h, Some c) = do {
     (st, w) \<leftarrow> sendReplyToClient (wr n) (stop n) (h, c);
     (st, v) \<leftarrow> send_calls wr stop n st;
     Some (st, w @ v) }"
| "send_calls wr stop _ st = Some (st, [])"

lemma send_calls_None [simp]: "send_calls wr stop n (h, None) = Some ((h, None), [])"
  by (cases n) simp_all



section \<open>Multi bulk replies\<close>

text \<open>A reply whose length is known only after its elements, as \<open>KEYS\<close> makes it.\<close>

fun bulk_all :: "oenv \<Rightarrow> byte list list \<Rightarrow> rstate \<Rightarrow> rstate option" where
  "bulk_all env [] st = Some st"
| "bulk_all env (s # ss) st = do { st \<leftarrow> addReplyBulkCBuffer env True s st; bulk_all env ss st }"

definition deferred_reply :: "oenv \<Rightarrow> byte list list \<Rightarrow> rstate \<Rightarrow> rstate option" where
  "deferred_reply env ss st = do {
     let (st, node) = addDeferredMultiBulkLength env True st;
     st \<leftarrow> bulk_all env ss st;
     setDeferredMultiBulkLength env node (int (length ss)) st }"

lemma emit_nil: "serves env E st \<Longrightarrow> emits E Some [] st"
  by (cases st) (auto simp: serves_def intro: emitsI adds_refl)

lemma emit_bulk_all:
  "serves env E st \<Longrightarrow> \<forall>s \<in> set ss. fits 8 (int (length s)) \<Longrightarrow> emits E (bulk_all env ss) (concat (map reply_bulk ss)) st"
proof (induction ss arbitrary: st)
  case (Cons s ss)
  have b: "bulk_all env (s # ss) = (\<lambda>st. do { st \<leftarrow> addReplyBulkCBuffer env True s st; bulk_all env ss st })" by auto
  show ?case unfolding b list.map concat.simps
    by (rule emits_then [OF Cons.prems(1) emit_buffer [OF Cons.prems(1)]]) (use Cons in auto)
qed (use emit_nil in \<open>simp add: emits_def\<close>)

text \<open>
  C20: A multi bulk reply with deferred length reads as if the length had been known: the header
  with the number of the elements stands in front of them, behind all that was to be sent before,
  wherever the bytes went (the static buffer, or objects glued together).
\<close>

theorem deferred_length_in_front:
  assumes "serves env E (h, c)" and "\<forall>s \<in> set ss. fits 8 (int (length s))"
  shows "\<exists>h' c'. deferred_reply env ss (h, c) = Some (h', c') \<and> serves env E (h', c') \<and> unchanged (set_mset E) h h' \<and>
    unsent h' c' = unsent h c @ reply_header 42 (int (length ss)) @ concat (map reply_bulk ss)"
proof -
  let ?s = "concat (map reply_bulk ss)"
  obtain h1 c1 a where d: "addDeferredMultiBulkLength env True (h, c) = ((h1, c1), Some a)" "serves env E (h1, c1)"
      "unchanged (set_mset E \<union> set (reply c)) h h1" "unsent h1 c1 = unsent h c" "reply c1 = reply c @ [a]" "hole_at h1 a"
      "a \<notin># E + mset (reply c)"
    using add_deferred_ok [OF assms(1)] by blast
  obtain h2 c2 where b: "bulk_all env ss (h1, c1) = Some (h2, c2)" "serves env E (h2, c2)" "adds E ?s h1 c1 h2 c2"
    using emits_serves [OF d(2) emit_bulk_all [OF d(2) assms(2)]] by auto
  obtain ys where r: "buf c2 = buf c1" "reply c2 = reply c @ a # ys" "a \<notin> set ys" "unchanged (insert a (set (reply c))) h1 h2"
      "texts h2 ys = ?s"
  proof -
    have "\<forall>xs a ys. reply c1 = xs @ a # ys \<and> hole_at h1 a \<longrightarrow> buf c2 = buf c1 \<and>
       (\<exists>ys'. reply c2 = xs @ a # ys' \<and> (a \<in> set ys' \<longrightarrow> a \<in> set ys) \<and> unchanged (insert a (set xs)) h1 h2 \<and>
         texts h2 ys' = texts h1 ys @ ?s)" using b(3) unfolding adds_def by blast
    from this [rule_format, of "reply c" a "[]"] show ?thesis using that d(5,6) by auto
  qed
  have u: "unchanged (set_mset E) h1 h2" using b(3) by (simp add: adds_def)
  have h2: "hole_at h2 a" using unchanged_hole [OF r(4), of a] d(6) by simp
  obtain h3 c3 where e: "setDeferredMultiBulkLength env (Some a) (int (length ss)) (h2, c2) = Some (h3, c3)" "serves env E (h3, c3)"
      "unchanged (set_mset E \<union> set (reply c)) h2 h3"
      "unsent h3 c3 = drop (sentlen c2) (buf c2 @ texts h2 (reply c) @ reply_header 42 (int (length ss)) @ texts h2 ys)"
  proof -
    have "a \<notin># E" "a \<notin> set (reply c)" using d(7) by simp_all
    from set_deferred_ok [OF b(2) r(2) h2 this r(3), of "int (length ss)"] show ?thesis using that by blast
  qed
  have i1: "sent_ok h1 c1" using d(2) by (simp add: serves_def rinv_def)
  have t: "texts h2 (reply c) = texts h1 (reply c)" by (rule unchanged_texts [OF r(4)]) auto
  have ba: "bytes h1 a = []" using d(6) by (simp add: bytes_def hole_at_def)
  have le: "sentlen c1 \<le> length (buf c1 @ texts h1 (reply c))" using sent_le [OF i1] d(5) ba by simp
  have "unsent h1 c1 = drop (sentlen c1) (buf c1 @ texts h1 (reply c))" using d(5) ba by (simp add: unsent_def)
  then have "unsent h3 c3 = unsent h c @ reply_header 42 (int (length ss)) @ ?s"
    using e(4) r(1,5) t le d(4) adds_sel(7) [OF b(3)] by (simp add: drop_append)
  moreover have "deferred_reply env ss (h, c) = Some (h3, c3)" using d(1) b(1) e(1) by (simp add: deferred_reply_def)
  moreover have "unchanged (set_mset E) h h3"
  proof (rule unchanged_trans [OF _ e(3)])
    show "unchanged (set_mset E) h h2" by (rule unchanged_trans [OF d(3) u]) auto
  qed auto
  ultimately show ?thesis using e(2) by blast
qed

theorem deferred_length_in_front_witness:
  "\<exists>h' c'. deferred_reply env0 [ascii ''a'', []] (heap0, new_rclient) = Some (h', c') \<and>
     unsent h' c' = reply_header 42 2 @ reply_bulk (ascii ''a'') @ reply_bulk []"
  using deferred_length_in_front [OF serves0, of "[ascii ''a'', []]"]
  by (auto simp: fits_def unsent_def new_rclient_def ascii_def)

section \<open>Encoding\<close>



end
