(* ===== verification/Server_Props.thy ===== *)
theory Server_Props
  imports Server_Run Query_Props Reply_Props
begin

text \<open>
  The properties of the server of one client, from the bytes of its requests to the bytes of the
  replies, and a server for their witnesses.
\<close>

section \<open>A server\<close>

definition senv0 :: senv where
  "senv0 = \<lparr>oe = env0, mstime = 1000, loading = False, masterhost = False, use_shared = True, spare = \<lambda>s. False\<rparr>"

definition server0 :: server where
  "server0 = \<lparr>objects = heap0, conn = new_rclient, kdict = (\<lambda>k. None), kexpires = (\<lambda>k. None), cargs = [], dirty = 0\<rparr>"

definition guards0 :: guards where
  "guards0 = \<lparr>noauth = False, disk_error = None, few_slaves = False, slave_ro = False, subscriber = False,
     master_down = False, script_slow = False\<rparr>"

lemma resting0: "resting senv0 refs0 heap0 (\<lambda>k. None) [] True server0"
proof -
  have "rinv refs0 heap0 new_rclient" by (rule new_rinv [OF owned0])
  then have "at senv0 refs0 {#} [] heap0 (\<lambda>k. None) [] server0"
    by (simp add: at_def senv0_def server0_def good_env0 shared0 refs_def no_holes_new new_client matches_def args_at_def)
  moreover have "opened server0 = server0" by (rule opened_id) (simp add: server0_def new_rclient_def)
  ultimately show ?thesis by (auto simp: resting_def finished_def server0_def new_rclient_def)
qed

section \<open>Names\<close>

lemma names:
  "lookupCommand (ascii ''SET'') = Some (ascii ''set'', row (-3) True setCommand)"
  "lookupCommand (ascii ''GET'') = Some (ascii ''get'', row 2 False getCommand)"
  "spec_of (ascii ''SET'') = Some (\<lambda>g. spec_SET)"
  "spec_of (ascii ''GET'') = Some (\<lambda>g. spec_get)"
  by (simp_all add: lookupCommand_def spec_of_def spec_table_def command_table_def dictSdsKeyCaseCompare_def strcasecmp_eq_def tolower_def ascii_def)

lemma names':
  "\<not> dictSdsKeyCaseCompare (ascii ''SET'') (ascii ''quit'')" "\<not> dictSdsKeyCaseCompare (ascii ''GET'') (ascii ''quit'')"
  "\<not> (\<exists>n \<in> set other_commands. dictSdsKeyCaseCompare n (ascii ''SET''))"
  "\<not> (\<exists>n \<in> set other_commands. dictSdsKeyCaseCompare n (ascii ''GET''))"
  by (simp_all add: other_commands_def dictSdsKeyCaseCompare_def strcasecmp_eq_def tolower_def ascii_def)


section \<open>Errors\<close>

definition is_error :: "byte list \<Rightarrow> bool" where
  "is_error r \<longleftrightarrow> r \<noteq> [] \<and> hd r = 45"

definition only_expired :: "senv \<Rightarrow> store \<Rightarrow> store \<Rightarrow> bool" where
  "only_expired env M M' \<longleftrightarrow> (\<forall>k. M' k = M k \<or> M' k = None \<and> visit env k M k = None)"

lemma is_error_simps [simp]:
  "\<not> is_error (reply_int n)" "\<not> is_error (reply_bulk v)" "\<not> is_error (43 # r)" "\<not> is_error (reply_header 42 n @ r)"
  "\<not> is_error (ascii ''+OK'' @ r)" "\<not> is_error (ascii ''$-1'' @ r)" "\<not> is_error (ascii ''+PONG'' @ r)"
  by (simp_all add: is_error_def reply_int_def reply_bulk_def reply_header_def ascii_def get_reply_def)

lemma only_expired_simps [simp]: "only_expired env M M" "only_expired env M (visit env k M)"
  by (auto simp: only_expired_def visit_def split: option.splits)

definition calm :: "(senv \<Rightarrow> byte list list \<Rightarrow> store \<Rightarrow> reaction) \<Rightarrow> bool" where
  "calm sp \<longleftrightarrow> (\<forall>env args M r M'. sp env args M = Some (r, M') \<longrightarrow> is_error r \<longrightarrow> only_expired env M M')"

lemma calmI: "(\<And>env args M r M'. sp env args M = Some (r, M') \<Longrightarrow> is_error r \<Longrightarrow> only_expired env M M') \<Longrightarrow> calm sp"
  by (simp add: calm_def)

lemma set_calm:
  assumes "spec_set env name f key v done abort M = Some (r, M')" and "is_error r" "\<not> is_error done" "\<not> is_error abort"
  shows "only_expired env M M'"
  using assms by (auto simp: spec_set_def Let_def split: option.splits if_split_asm)

lemma keys_calm:
  "calm spec_del" "calm spec_exists" "calm (\<lambda>env. spec_rename env nx)" "calm spec_persist" "calm (\<lambda>env. spec_ttl env ms)"
  "calm (\<lambda>env. spec_expire env (b env) sec)" "calm spec_type" "calm spec_dbsize"
proof -
  show "calm (\<lambda>env. spec_rename env nx)"
    by (rule calmI) (auto simp: spec_rename_def Let_def split: option.splits if_split_asm)
  show "calm (\<lambda>env. spec_expire env (b env) sec)"
    by (rule calmI) (auto simp: spec_expire_def Let_def split: option.splits if_split_asm)
  show "calm (\<lambda>env. spec_ttl env ms)"
    by (rule calmI) (auto simp: spec_ttl_def Let_def split: option.splits if_split_asm)
qed (rule calmI, auto simp: spec_del_def spec_exists_def spec_persist_def spec_type_def spec_dbsize_def Let_def
    split: option.splits if_split_asm prod.splits)+

lemma strings_calm:
  "calm spec_SET" "calm spec_setnx" "calm (\<lambda>env. spec_setex env sec)" "calm spec_get" "calm spec_getset" "calm spec_getrange"
  "calm spec_mget" "calm spec_strlen"
proof -
  show "calm spec_SET" by (rule calmI) (auto simp: spec_SET_def split: option.splits dest: set_calm)
  show "calm spec_setnx" by (rule calmI) (auto simp: spec_setnx_def dest: set_calm)
  show "calm (\<lambda>env. spec_setex env sec)" by (rule calmI) (auto simp: spec_setex_def dest: set_calm)
  show "calm spec_getset"
    by (rule calmI) (auto simp: spec_getset_def get_reply_def is_other_def Let_def split: option.splits if_split_asm aval.splits)
  show "calm spec_getrange" by (rule calmI) (auto simp: spec_getrange_def Let_def split: option.splits aval.splits)
qed (rule calmI, auto simp: spec_get_def spec_mget_def spec_strlen_def Let_def split: option.splits prod.splits aval.splits)+

lemma incr_calm: "spec_incr env n args M = Some (r, M') \<Longrightarrow> is_error r \<Longrightarrow> only_expired env M M'"
  by (auto simp: spec_incr_def Let_def split: option.splits if_split_asm aval.splits)

lemma writes_calm:
  "calm spec_setrange" "calm (\<lambda>env. spec_mset env nx)" "calm (\<lambda>env. spec_incr env n)" "calm (\<lambda>env. spec_incrby env d)" "calm spec_append"
proof -
  show "calm spec_setrange" by (rule calmI) (auto simp: spec_setrange_def Let_def split: option.splits if_split_asm aval.splits)
  show "calm (\<lambda>env. spec_mset env nx)" by (rule calmI) (auto simp: spec_mset_def Let_def split: if_split_asm)
  show "calm (\<lambda>env. spec_incr env n)" "calm (\<lambda>env. spec_incrby env d)"
    by (auto simp: calm_def spec_incrby_def split: option.splits if_split_asm dest: incr_calm)
  show "calm spec_append" by (rule calmI) (auto simp: spec_append_def Let_def split: option.splits if_split_asm aval.splits)
qed

lemma connection_calm: "calm (spec_ping g)" "calm spec_echo"
  by (rule calmI, auto simp: spec_ping_def spec_echo_def split: if_split_asm)+

lemma table_calm: "\<forall>(n, sp) \<in> set spec_table. calm (sp g)"
  unfolding spec_table_def
  by (simp add: keys_calm strings_calm writes_calm connection_calm keys_calm(6) [of "\<lambda>env. mstime env"] keys_calm(6) [of "\<lambda>env. 0"])

lemma request_calm:
  assumes "spec_request g env m args M = Some (r, M', alive)" and "is_error r"
  shows "only_expired env M M'"
proof -
  have sp: "only_expired env M M'" if so: "spec_of a = Some sp" and sg: "sp g env args M = Some (r, M')" for a sp
  proof -
    obtain x where x: "find (\<lambda>(n, _). dictSdsKeyCaseCompare n a) spec_table = Some x" "snd x = sp"
      using so unfolding spec_of_def map_option_eq_Some by blast
    have "x \<in> set spec_table" using x(1) by (metis find_Some_iff nth_mem)
    then have "calm (sp g)" using bspec [OF table_calm, of x g] x(2) by (simp add: case_prod_beta)
    then show ?thesis using sg assms(2) unfolding calm_def by blast
  qed
  have "M' = M \<or> (\<exists>sp. spec_of (args ! 0) = Some sp \<and> sp g env args M = Some (r, M'))"
    using assms(1) lookup_spec unfolding spec_request_def
    by (fastforce split: if_split_asm option.splits)
  then show ?thesis using sp by auto
qed


section \<open>The server and the store\<close>


lemma spec_set0:
  assumes "\<not> loading env" "\<not> masterhost env"
  shows "spec_request guards0 env False [ascii ''SET'', k, v] M = Some (sh Sh_ok, M(k \<mapsto> (Str v, None)), True)"
  using assms by (simp add: spec_request_def names names' denial_def row_def guards0_def spec_SET_def spec_set_def fits_def)

lemma spec_get0:
  assumes "\<not> loading env" "\<not> masterhost env" "M k = Some (Str v, None)"
  shows "spec_request guards0 env False [ascii ''GET'', k] M = Some (reply_bulk v, M, True)"
  using assms by (simp add: spec_request_def names names' denial_def row_def guards0_def spec_get_def visit_def get_reply_def)

lemma senv0_simps: "\<not> loading (senv0\<lparr>mstime := t\<rparr>)" "\<not> masterhost (senv0\<lparr>mstime := t\<rparr>)"
  by (simp_all add: senv0_def)

lemma spec_run0:
  "spec_run guards0 senv0 False [(t, [ascii ''SET'', k, v]), (t', [ascii ''GET'', k])] (M, True) =
    Some (sh Sh_ok @ reply_bulk v, M(k \<mapsto> (Str v, None)), True)"
  by (simp add: spec_set0 [OF senv0_simps] spec_get0 [OF senv0_simps, of _ k v] del: shared_value.simps)


lemma spec_set_px:
  assumes "\<not> loading env" "\<not> masterhost env" "noauth g = False" "disk_error g = None" "few_slaves g = False" "subscriber g = False"
    "script_slow g = False" and p: "0 < p" "fits 8 p" "fits 8 (mstime env + p)"
  shows "spec_request g env False [ascii ''SET'', k, v, ascii ''PX'', decimal p] M =
    Some (sh Sh_ok, M(k \<mapsto> (Str v, Some (mstime env + p))), True)"
proof -
  have f: "parse_set [ascii ''PX'', decimal p] no_flags = Some (no_flags\<lparr>set_expire := Some (decimal p), in_seconds := False\<rparr>)"
    by (simp add: is_option_def cch_def ascii_def)
  have "spec_SET env [ascii ''SET'', k, v, ascii ''PX'', decimal p] M = Some (sh Sh_ok, M(k \<mapsto> (Str v, Some (mstime env + p))))"
    using p parse_decimal [OF p(2)] f by (simp add: spec_SET_def spec_set_def)
  then show ?thesis using assms by (simp add: spec_request_def names names' denial_def row_def)
qed

lemma spec_get_after:
  assumes "\<not> loading env" "\<not> masterhost env" "noauth g = False" "disk_error g = None" "few_slaves g = False" "subscriber g = False"
    "script_slow g = False" and "M k = Some (Str v, Some w)" "0 \<le> w"
  shows "spec_request g env False [ascii ''GET'', k] M =
    Some (if w < mstime env then sh Sh_nullbulk else reply_bulk v, if w < mstime env then M(k := None) else M, True)"
  using assms by (simp add: spec_request_def names names' denial_def row_def spec_get_def visit_def get_reply_def)

text \<open>
  C9: \<open>SET\<close> and \<open>GET\<close>: a value of any bytes, up to 512 MB, set with a time to live, is read back
  byte for byte until its time is over, and is gone afterwards, whatever the server held before
  and however the value is encoded in between.
\<close>

theorem set_get_roundtrip:
  assumes "resting env E h0 M s True st" and "\<not> loading env" "\<not> masterhost env" and "g = guards0"
    and "length k \<le> max_string" and "length v \<le> max_string" and "0 \<le> t" and "0 < p" and "fits 8 p" and "fits 8 (t + p)"
  shows "\<exists>st' M'. server_run g env [Request t [ascii ''SET'', k, v, ascii ''PX'', decimal p], Request t' [ascii ''GET'', k]] st =
      Some (st', True, [], []) \<and>
    resting env E h0 M' (s @ sh Sh_ok @ (if t + p < t' then sh Sh_nullbulk else reply_bulk v)) True st' \<and>
    (M' k = None \<longleftrightarrow> t + p < t')"
proof -
  let ?es = "[Request t [ascii ''SET'', k, v, ascii ''PX'', decimal p], Request t' [ascii ''GET'', k]]"
  let ?r = "if t + p < t' then sh Sh_nullbulk else reply_bulk v"
  let ?M = "M(k \<mapsto> (Str v, Some (t + p)))"
  let ?M' = "if t + p < t' then ?M(k := None) else ?M"
  have g: "noauth g = False" "disk_error g = None" "few_slaves g = False" "subscriber g = False" "script_slow g = False"
    using assms(4) by (simp_all add: guards0_def)
  have 1: "spec_request g (env\<lparr>mstime := t\<rparr>) False [ascii ''SET'', k, v, ascii ''PX'', decimal p] M = Some (sh Sh_ok, ?M, True)"
    using spec_set_px [of "env\<lparr>mstime := t\<rparr>" g p k v M] assms g by simp
  have 2: "spec_request g (env\<lparr>mstime := t'\<rparr>) False [ascii ''GET'', k] ?M = Some (?r, ?M', True)"
    using spec_get_after [of "env\<lparr>mstime := t'\<rparr>" g ?M k v "t + p"] assms g by simp
  have r: "spec_run g env False (requests ?es) (M, True) = Some (sh Sh_ok @ ?r, ?M', True)"
    unfolding requests.simps spec_run.simps 1 by (simp add: 2 del: shared_value.simps)
  have "length (decimal p) \<le> max_string" by (rule decimal_within [OF assms(9)])
  then have ga: "\<forall>(t, args) \<in> set (requests ?es). good_args args"
    using assms(5,6) by (simp add: good_args_def ascii_def)
  obtain st' b w rest where s: "server_run g env ?es st = Some (st', b, w, rest)"
      "if b then rest = [] \<and> (\<exists>u. w @ u = s @ sh Sh_ok @ ?r \<and> resting env E h0 ?M' u True st')
       else \<exists>pre out1 M1 a1. ?es = pre @ rest \<and> spec_run g env False (requests pre) (M, True) = Some (out1, M1, a1) \<and>
         (\<exists>u. w @ u = s @ out1) \<and> released env E h0 M1 st'"
    using server_run_ok [OF assms(1) ga r] by blast
  have "b \<and> w = [] \<and> rest = []" using s(1) by (auto split: bind_split_asm)
  then show ?thesis using s by (intro exI [of _ st'] exI [of _ ?M']) auto
qed

theorem set_get_roundtrip_witness:
  "\<exists>st'. server_run guards0 senv0 [Request 1000 [ascii ''SET'', ascii ''k'', [13, 10, 0], ascii ''PX'', decimal 50],
      Request 1051 [ascii ''GET'', ascii ''k'']] server0 = Some (st', True, [], []) \<and>
    unsent (objects st') (conn st') = ascii ''+OK'' @ [13, 10] @ ascii ''$-1'' @ [13, 10]"
proof -
  have "unsent (objects st) (conn st) = s" if "resting senv0 refs0 heap0 M s True st" for M s st
    using that by (auto simp: resting_def finished_def at_def opened_sel unsent_def)
  then show ?thesis
    using set_get_roundtrip [OF resting0, of guards0 "ascii ''k''" "[13, 10, 0]" 1000 50 1051]
    by (fastforce simp: senv0_def fits_def ascii_def)
qed

text \<open>
  C10: A request that is answered with an error changes nothing, except that a key whose time was over
  may be gone.
\<close>

theorem errors_change_nothing:
  assumes "resting env E h0 M s True st" and "good_args args" and "oe env' = oe env"
    and "spec_request g env' False args M \<noteq> None"
  shows "\<exists>st' r M' alive. run_request g env' args st = Some st' \<and> resting env E h0 M' (s @ r) alive st' \<and>
    (is_error r \<longrightarrow> only_expired env' M M')"
proof -
  obtain r M' alive where q: "spec_request g env' False args M = Some (r, M', alive)" using assms(4) by auto
  show ?thesis using ok_run_request [OF assms(1-3) q] request_calm [OF q] by (auto simp: ok_def)
qed

theorem errors_change_nothing_witness:
  "\<exists>st' r M'. run_request guards0 senv0 [ascii ''GET''] server0 = Some st' \<and>
    resting senv0 refs0 heap0 M' r True st' \<and> is_error r \<and> only_expired senv0 (\<lambda>k. None) M'"
proof -
  let ?r = "error_line (wrong_number (ascii ''get''))"
  have q: "spec_request guards0 senv0 False [ascii ''GET''] (\<lambda>k. None) = Some (?r, \<lambda>k. None, True)"
    by (simp add: spec_request_def names names' row_def)
  have e: "is_error ?r" by (simp add: error_line_def reply_error_def is_error_def ascii_def)
  have g: "good_args [ascii ''GET'']" by (simp add: good_args_def ascii_def)
  obtain st' r M' alive where 1: "run_request guards0 senv0 [ascii ''GET''] server0 = Some st'"
      "resting senv0 refs0 heap0 M' ([] @ r) alive st'" "is_error r \<longrightarrow> only_expired senv0 (\<lambda>k. None) M'"
    using errors_change_nothing [OF resting0 g refl, of guards0] unfolding q by blast
  have 2: "resting senv0 refs0 heap0 (\<lambda>k. None) ?r True st'"
    using ok_run_request [OF resting0 g refl q] 1(1) by (simp add: ok_def)
  show ?thesis using 1(1) 2 e by (intro exI [of _ st'] exI [of _ ?r] exI [of _ "\<lambda>k. None"]) simp
qed

section \<open>From bytes to bytes\<close>

text \<open>The parser, with the server as the world its commands work on.\<close>

definition executing :: "guards \<Rightarrow> senv \<Rightarrow> server option client \<Rightarrow> server option client \<times> bool" where
  "executing g env c = (c\<lparr>world := Option.bind (world c) (run_request g env (cargv c))\<rparr>, True)"

lemma executing_runs: "runs (executing g env) (\<lambda>cmd w. Option.bind w (run_request g env cmd))"
  by (simp add: runs_def executing_def)

lemma run_requests:
  assumes "resting env E h0 M s True st" and "\<forall>cmd \<in> set cs. ok_cmd cmd"
    and "spec_run g env False (map (Pair (mstime env)) cs) (M, True) = Some (out, M', True)"
  shows "\<exists>st'. fold (\<lambda>cmd w. Option.bind w (run_request g env cmd)) cs (Some st) = Some st' \<and>
    resting env E h0 M' (s @ out) True st'"
  using assms
proof (induction cs arbitrary: M s st out)
  case (Cons cmd cs)
  have e: "env\<lparr>mstime := mstime env\<rparr> = env" by simp
  obtain r M1 a out1 where q: "spec_request g env False cmd M = Some (r, M1, a)"
      "spec_run g env False (map (Pair (mstime env)) cs) (M1, a) = Some (out1, M', True)" "out = r @ out1"
    using Cons.prems(3) by (auto simp: e split: bind_split_asm prod.split_asm)
  have a: a using q(2) spec_run_closed by (cases a) fastforce+
  have ga: "good_args cmd" using Cons.prems(2) by (simp add: good_args_def ok_cmd_def ok_arg_def)
  obtain st1 where 1: "run_request g env cmd st = Some st1" "resting env E h0 M1 (s @ r) True st1"
    using ok_run_request [OF Cons.prems(1) ga refl q(1)] a by (auto simp: ok_def)
  then show ?case using Cons.IH [OF 1(2)] Cons.prems(2) q a by simp
qed simp



end
