(* ===== verification/Spec2Isabelle.thy ===== *)
theory Spec2Isabelle
  imports Endianconv Zmalloc Adlist Util Glob Sds Sds_Text Intset Dict_Iter Ziplist_Access Zset_Props Server_Props
begin

text \<open>
  A verification library for the core of the Redis server in this repository: its data
  structures, its objects, and the path of a request from the bytes a client sends to the
  bytes it gets back.

  The parts and how they interact. \<open>zmalloc.c\<close> counts the memory of everything else.
  \<open>sds.c\<close> is the string type of the server; \<open>util.c\<close> prints and parses its numbers and
  matches its patterns. \<open>adlist.c\<close> (linked lists) and \<open>dict.c\<close> (hash tables) are the
  structures in memory, \<open>intset.c\<close> and \<open>ziplist.c\<close> the compact encodings of small values
  in one block of bytes, stored with the byte order that \<open>endianconv.c\<close> fixes. \<open>t_zset.c\<close>
  builds the sorted set of a skiplist and a dictionary. Values are reference-counted objects
  (\<open>object.c\<close>). \<open>networking.c\<close> parses the requests of a client and collects and sends its
  replies; \<open>redis.c\<close> dispatches a request to a command; the commands of \<open>db.c\<close> and
  \<open>t_string.c\<close> work on the key space, with keys that expire when they are visited.

  The theories, in the order of their imports:
  \<^item> \<open>Redis_Prelude\<close>: bytes, integers as bytes, memory blocks with checked access, the contract
    \<open>prefix_codec\<close> of a self-delimiting encoding.
  \<^item> \<open>Endianconv\<close> (\<open>endianconv.c\<close>): the reversals are involutions, and the bytes the
    \<open>ifbe\<close> macros leave in memory do not depend on the host.
  \<^item> \<open>Zmalloc\<close> (\<open>zmalloc.c\<close>): both builds, over a parameter for the allocator underneath;
    the counter is the size of the live blocks, and no thread loses an update when the
    counter is made thread safe.
  \<^item> \<open>Adlist\<close> (\<open>adlist.c\<close>): nodes in a store of addresses with their pointers; every operation
    refines one on the list of values. Its locale \<open>bounded_log\<close> is the contract of a log that
    drops its oldest entries.
  \<^item> \<open>Util\<close>, \<open>Glob\<close> (\<open>util.c\<close>): \<open>ll2string\<close>, \<open>string2ll\<close>, \<open>memtoll\<close>; \<open>stringmatchlen\<close>
    against the meaning of a pattern.
  \<^item> \<open>Sds\<close>, \<open>Sds_Text\<close> (\<open>sds.c\<close>): header and buffer with their spare room; updates refine
    the operation on the contents; splitting, joining, quoting and formatting.
  \<^item> \<open>Intset\<close> (\<open>intset.c\<close>): the block refines a set of integers on hosts of both byte orders,
    through every widening of the encoding.
  \<^item> \<open>Strobj\<close> (\<open>object.c\<close>): the contents of string objects and their comparison.
  \<^item> \<open>Dict\<close>, \<open>Dict_Correct\<close>, \<open>Dict_Hash\<close> (\<open>dict.c\<close>, and the dictionary types of \<open>redis.c\<close>): both
    tables and the incremental rehashing; every operation refines one on a map. The
    locale \<open>dict_type\<close> is what a type of dictionary must promise (equal keys hash equally);
    it is interpreted on the types the server declares. \<open>Dict_Scan\<close>, \<open>Dict_Iter\<close>: the cursor of
    \<open>dictScan\<close> returns every entry that stays, however the tables are resized in between;
    iterators visit each entry once.
  \<^item> \<open>Ziplist\<close>, \<open>Ziplist_Correct\<close>, \<open>Ziplist_Ops\<close>, \<open>Ziplist_Access\<close> (\<open>ziplist.c\<close>): the bytes of the
    block, cascading updates included; insertion, deletion and lookup refine those on the
    list of strings held.
  \<^item> \<open>Skiplist\<close> (\<open>t_zset.c\<close>), \<open>Skiplist_Correct\<close>, \<open>Skiplist_Ops\<close>, \<open>Skiplist_Range\<close>, \<open>Skiplist_Rank\<close>,
    \<open>Skiplist_Search\<close>, \<open>Skiplist_Delete\<close>: nodes with their levels, spans and backward pointers;
    every level is linked in the order of the scores, and the spans count the nodes between.
    \<open>Zset\<close>, \<open>Zset_Correct\<close>, \<open>Zset_Props\<close>: the sorted set of a skiplist and a dictionary whose
    values point at the scores in its nodes refines a partial function from strings to scores.
  \<^item> \<open>Query\<close>, \<open>Query_Parse\<close>, \<open>Query_Stream\<close>, \<open>Query_Props\<close> (\<open>networking.c\<close>): the query buffer
    and the state machine of the parser. No input makes it fail; a stream of requests cut
    anywhere runs as the sequence of its requests.
  \<^item> \<open>Objects\<close> (\<open>object.c\<close>): a memory of objects with reference counts. \<open>owned h R\<close> says that
    the counts are exactly those of the multiset of references \<open>R\<close>.
  \<^item> \<open>Reply\<close>, \<open>Reply_Correct\<close>, \<open>Reply_Send\<close>, \<open>Reply_Ops\<close>, \<open>Reply_Props\<close> (\<open>networking.c\<close>): the
    static buffer and the list of reply objects; \<open>unsent\<close> is what is still to be sent, and
    every operation adds its bytes to it or takes from its front what is written.
  \<^item> \<open>Keyspace\<close> (\<open>db.c\<close>), \<open>Strings\<close> (\<open>t_string.c\<close>), \<open>Commands\<close> (\<open>redis.c\<close>): the database of the
    server, the commands, their table and the dispatch. A command is a function of the state
    \<open>server\<close>: the memory of objects, the client's replies, the keys, the times of expiry and
    the objects of the arguments.
  \<^item> \<open>Store\<close>: what each command promises, on a map from keys to values without objects.
    \<open>Store_Rules\<close> has the assertion \<open>at\<close> that relates the two and rules for the steps of commands
    in the form of Hoare triples, \<open>Store_Keys\<close> and \<open>Store_Values\<close> those for keys and values;
    \<open>Store_Commands\<close>, \<open>Store_Strings\<close> and \<open>Store_Write\<close> prove each command against its
    specification.
  \<^item> \<open>Server\<close>, \<open>Server_Run\<close>, \<open>Server_Props\<close>: the whole table, a request, and runs of requests and
    calls of the write handler, from bytes to bytes.

  Conventions. A record has the fields of the C struct; a function has the name of the C
  function (\<open>u_\<close> for a leading underscore); a loop is a recursive function of its own, named
  after what it does. A result \<open>None\<close> is an access outside the block, an undefined
  operation of C or a failed assertion; each correctness theorem shows the result is
  \<open>Some\<close>. Integers are words, or numbers with the wrap-around written out. The contents of
  uninitialised memory are an arbitrary function \<open>junk\<close>, the byte order of the host a
  parameter \<open>be\<close>, the system's allocator a parameter of \<open>Zmalloc\<close> and of \<open>Objects\<close>, the
  source of random numbers a parameter of the skiplist, the results of \<open>read\<close> and \<open>write\<close>
  parameters of the client, the addition and order of scores parameters of the sorted set.

  Bounds. Sizes are those of the C types: ziplists and strings stay below \<open>2 ^ 32\<close> and
  \<open>2 ^ 31\<close> bytes where the code adds without a test, tables of a dictionary below \<open>2 ^ 61\<close>
  entries so that the doubling of a size does not wrap; arguments and values are at most 512 MB,
  and a request has at most \<open>2 ^ 20\<close> arguments, as the parser enforces. Each theorem states its
  bound. There is no fuel on the loops of the code, except for walks through a linked list,
  where the length field of the list bounds them as in the code (\<open>while(len--)\<close>); loops that
  need not end are partial functions, shown to return where a theorem uses them.

  Not modelled: the other types of values and their commands, transactions, publish and
  subscribe, persistence, replication, scripts, sentinel, and the event loop, whose work is
  system calls, timers and the Lua interpreter. In the modelled commands, the
  propagation to slaves and to the append-only file, the watched keys, the notifications and the
  statistics are left out; the clock stands still while a command runs. A request for a command
  of the table that is not modelled has no result. In the modelled files, the debugging
  printouts, test drivers and functions on floating point numbers or on the file system are
  left out.
\<close>

end
